(* ===== verification/F2fs_Prelude.thy ===== *)
theory F2fs_Prelude
  imports Main "HOL-Library.Word"
begin

text \<open>
  Shared vocabulary of the development: the machine integer types of the C code, its error
  numbers and results, the little-endian byte order of the on-disk structures, guarded array
  access, the two bit orders of the on-disk bitmaps and the generic lemmas the component
  theories use.
\<close>

unbundle bit_operations_syntax

type_synonym u8 = "8 word"
type_synonym u16 = "16 word"
type_synonym u32 = "32 word"
type_synonym u64 = "64 word"
type_synonym block_t = u32
type_synonym nid_t = u32

text \<open>Error numbers returned by the modelled functions (as negative ints or error pointers).\<close>

datatype errno = EPERM | ENOENT | EIO | EAGAIN | ENOMEM | EACCES | EEXIST | ENODEV | ENOTDIR | EINVAL
  | EFBIG | ENOSPC | E2BIG | ERANGE | ENODATA | EOPNOTSUPP | ENOTEMPTY | ENAMETOOLONG | EBUSY
  | EFAULT | EMLINK | EDQUOT | EXDEV | EBADMSG | EUCLEAN | ERESTARTSYS | EROFS

type_synonym 'a result = "errno + 'a"

text \<open>The block addresses of a hole and of a block that is allocated but has no place on disk yet.\<close>

definition NULL_ADDR :: nat where "NULL_ADDR = 0"
definition NEW_ADDR :: nat where "NEW_ADDR = 2 ^ 32 - 1"

text \<open>Fact collections: unfolding of model operations, and of the invariants.\<close>

named_theorems f2fs_ops
named_theorems f2fs_inv

subsection \<open>Guarded array access\<close>

text \<open>
  A C array access outside the array is undefined behaviour. Reads outside the modelled array
  give a fixed default; every theorem about a read carries the range as a hypothesis or derives
  it. Writes outside the array leave the list unchanged (\<open>xs[i := v]\<close>).
\<close>

definition arr_get :: "'a \<Rightarrow> 'a list \<Rightarrow> nat \<Rightarrow> 'a" where
  "arr_get d xs i = (if i < length xs then xs ! i else d)"

lemma arr_get_in [simp]: "i < length xs \<Longrightarrow> arr_get d xs i = xs ! i"
  by (simp add: arr_get_def)

lemma arr_get_update:
  "arr_get d (xs[i := v]) j = (if i = j \<and> i < length xs then v else arr_get d xs j)"
  by (simp add: arr_get_def nth_list_update)

subsection \<open>Little-endian byte order\<close>

definition le16_bytes :: "u16 \<Rightarrow> u8 list" where
  "le16_bytes w = [ucast w, ucast (drop_bit 8 w)]"

definition le32_bytes :: "u32 \<Rightarrow> u8 list" where
  "le32_bytes w = [ucast w, ucast (drop_bit 8 w), ucast (drop_bit 16 w), ucast (drop_bit 24 w)]"

fun le_word :: "u8 list \<Rightarrow> 'a::len word" where
  "le_word [] = 0"
| "le_word (b # bs) = ucast b OR push_bit 8 (le_word bs)"

lemma length_le16_bytes [simp]: "length (le16_bytes w) = 2"
  by (simp add: le16_bytes_def)

lemma length_le32_bytes [simp]: "length (le32_bytes w) = 4"
  by (simp add: le32_bytes_def)

lemma le16_roundtrip [simp]: "le_word (le16_bytes w) = w"
  by (auto simp: le16_bytes_def bit_simps intro!: bit_word_eqI)

lemma le32_roundtrip [simp]: "le_word (le32_bytes w) = w"
proof (rule bit_word_eqI)
  fix n assume "n < LENGTH(32)"
  then consider "n < 8" | "8 \<le> n \<and> n < 16" | "16 \<le> n \<and> n < 24" | "24 \<le> n \<and> n < 32"
    by fastforce
  then show "bit (le_word (le32_bytes w) :: u32) n = bit w n"
    by cases (auto simp: le32_bytes_def bit_simps)
qed

subsection \<open>Words as integers in range\<close>

lemma uint_u32_of_int: "0 \<le> a \<Longrightarrow> a < 2 ^ 32 \<Longrightarrow> uint (word_of_int a :: u32) = a"
  by (simp add: uint_word_of_int_eq take_bit_int_eq_self)

lemma u32_of_int_div:
  assumes "0 \<le> a" "a < 2 ^ 32" "0 \<le> b" "b < 2 ^ 32"
  shows "(word_of_int a :: u32) div word_of_int b = word_of_int (a div b)"
  using assms by (simp add: word_div_def uint_u32_of_int)

lemma u32_of_int_mod:
  assumes "0 \<le> a" "a < 2 ^ 32" "0 \<le> b" "b < 2 ^ 32"
  shows "(word_of_int a :: u32) mod word_of_int b = word_of_int (a mod b)"
  using assms by (simp add: word_mod_def uint_u32_of_int)

lemma u32_of_int_le:
  assumes "0 \<le> a" "a < 2 ^ 32" "0 \<le> b" "b < 2 ^ 32"
  shows "(word_of_int a :: u32) \<le> word_of_int b \<longleftrightarrow> a \<le> b"
  using assms by (simp add: word_le_def uint_u32_of_int)

lemma u32_of_int_eq:
  assumes "0 \<le> a" "a < 2 ^ 32" "0 \<le> b" "b < 2 ^ 32"
  shows "(word_of_int a :: u32) = word_of_int b \<longleftrightarrow> a = b"
  using assms by (metis uint_u32_of_int)

lemmas u32_of_int_simps = u32_of_int_div u32_of_int_mod u32_of_int_le u32_of_int_eq

subsection \<open>Rewriting under conditionals\<close>

text \<open>Simplifies both branches of a conditional without using its condition there.\<close>

lemma if_branches_cong: "b = c \<Longrightarrow> x = u \<Longrightarrow> y = v \<Longrightarrow> (if b then x else y) = (if c then u else v)"
  by simp

subsection \<open>Searching lists\<close>

lemma find_append_skip: "(\<And>x. x \<in> set xs \<Longrightarrow> \<not> P x) \<Longrightarrow> find P (xs @ ys) = find P ys"
  by (induction xs) auto

lemma find_append_stop: "(\<And>y. y \<in> set ys \<Longrightarrow> \<not> P y) \<Longrightarrow> find P (xs @ ys) = find P xs"
  by (induction xs) (auto simp: find_None_iff)

lemma takeWhile_nthD: "i < length (takeWhile P xs) \<Longrightarrow> P (xs ! i)"
proof -
  assume i: "i < length (takeWhile P xs)"
  then have "takeWhile P xs ! i \<in> set (takeWhile P xs)" by (rule nth_mem)
  with i show ?thesis by (auto dest: set_takeWhileD simp: takeWhile_nth)
qed

end
