(* ===== verification/Hash.thy ===== *)
theory Hash
  imports F2fs_Prelude
begin

text \<open>
  The directory hash of \<^verbatim>\<open>hash.c\<close>: the TEA mixing rounds, the packing of a name into
  32-bit words and the hash of a directory entry name, all on 32-bit words with wrap-around.
\<close>

section \<open>TEA\_transform\<close>

definition DELTA :: u32 where "DELTA = 0x9E3779B9"

text \<open>The \<open>do \<dots> while (--n)\<close> loop: the body runs, then the counter is decremented and tested.\<close>

fun TEA_loop :: "nat \<Rightarrow> u32 \<Rightarrow> u32 \<Rightarrow> u32 \<Rightarrow> u32 \<Rightarrow> u32 \<Rightarrow> u32 \<Rightarrow> u32 \<Rightarrow> u32 \<times> u32" where
  "TEA_loop n sm b0 b1 a b c d =
     (let sm = sm + DELTA;
          b0 = b0 + ((push_bit 4 b1 + a) XOR (b1 + sm) XOR (drop_bit 5 b1 + b));
          b1 = b1 + ((push_bit 4 b0 + c) XOR (b0 + sm) XOR (drop_bit 5 b0 + d))
      in if n - 1 = 0 then (b0, b1) else TEA_loop (n - 1) sm b0 b1 a b c d)"

declare TEA_loop.simps [simp del]

definition TEA_transform :: "u32 list \<Rightarrow> u32 list \<Rightarrow> u32 list" where
  "TEA_transform buf inp =
     (let (b0, b1) = TEA_loop 16 0 (arr_get 0 buf 0) (arr_get 0 buf 1)
             (arr_get 0 inp 0) (arr_get 0 inp 1) (arr_get 0 inp 2) (arr_get 0 inp 3)
      in buf[0 := arr_get 0 buf 0 + b0, 1 := arr_get 0 buf 1 + b1])"

section \<open>str2hashbuf\<close>

definition hash_pad :: "nat \<Rightarrow> u32" where
  "hash_pad len =
     (let pad = (of_nat len :: u32) OR push_bit 8 (of_nat len) in pad OR push_bit 16 pad)"

text \<open>
  The main loop of \<^verbatim>\<open>str2hashbuf\<close>: \<open>i\<close> runs to \<open>len\<close>; a word is stored after every
  fourth byte. The words stored through \<open>*buf++\<close> are collected in a list.
\<close>

function str2hashbuf_loop ::
  "u8 list \<Rightarrow> nat \<Rightarrow> u32 \<Rightarrow> nat \<Rightarrow> u32 \<Rightarrow> u32 list \<Rightarrow> int \<Rightarrow> u32 \<times> u32 list \<times> int" where
  "str2hashbuf_loop msg len pad i val buf num =
     (if i < len then
        let val = (if i mod 4 = 0 then pad else val);
            val = ucast (arr_get 0 msg i) + push_bit 8 val
        in if i mod 4 = 3 then str2hashbuf_loop msg len pad (Suc i) pad (buf @ [val]) (num - 1)
           else str2hashbuf_loop msg len pad (Suc i) val buf num
      else (val, buf, num))"
  by pat_completeness auto
termination
  by (relation "measure (\<lambda>(msg, len, pad, i, val, buf, num). len - i)") auto

declare str2hashbuf_loop.simps [simp del]

text \<open>The final \<open>while (--num >= 0) *buf++ = pad\<close>.\<close>

function pad_words :: "u32 \<Rightarrow> int \<Rightarrow> u32 list" where
  "pad_words pad num = (if num - 1 \<ge> 0 then pad # pad_words pad (num - 1) else [])"
  by pat_completeness auto
termination
  by (relation "measure (\<lambda>(pad, num). nat num)") auto

declare pad_words.simps [simp del]

definition str2hashbuf :: "u8 list \<Rightarrow> nat \<Rightarrow> int \<Rightarrow> u32 list" where
  "str2hashbuf msg len num =
     (let pad = hash_pad len;
          len' = (if int len > num * 4 then nat (num * 4) else len);
          (val, buf, num) = str2hashbuf_loop msg len' pad 0 pad [] num;
          num = num - 1;
          buf = (if num \<ge> 0 then buf @ [val] else buf)
      in buf @ pad_words pad num)"

section \<open>f2fs\_dentry\_hash\<close>

record qstr =
  qname :: "u8 list"
  qlen :: nat

record fscrypt_name =
  disk_name :: "u8 list option"
  fhash :: u32

definition is_dot_dotdot :: "qstr \<Rightarrow> bool" where
  "is_dot_dotdot str =
     (if qlen str = 1 \<and> arr_get 0 (qname str) 0 = 46 then True
      else if qlen str = 2 \<and> arr_get 0 (qname str) 0 = 46 \<and> arr_get 0 (qname str) 1 = 46 then True
      else False)"

definition F2FS_HASH_COL_BIT :: u64 where
  "F2FS_HASH_COL_BIT = push_bit 63 1"

function hash_loop :: "u8 list \<Rightarrow> nat \<Rightarrow> u32 list \<Rightarrow> u32 list" where
  "hash_loop p len buf =
     (let inp = str2hashbuf p len 4;
          buf = TEA_transform buf inp
      in if len \<le> 16 then buf else hash_loop (drop 16 p) (len - 16) buf)"
  by pat_completeness auto
termination
  by (relation "measure (\<lambda>(p, len, buf). len)") auto

declare hash_loop.simps [simp del]

definition hash_seed :: "u32 list" where
  "hash_seed = [0x67452301, 0xefcdab89, 0x98badcfe, 0x10325476]"

definition f2fs_dentry_hash :: "qstr \<Rightarrow> fscrypt_name option \<Rightarrow> u32" where
  "f2fs_dentry_hash name_info fname =
     (if fname \<noteq> None \<and> disk_name (the fname) = None then fhash (the fname)
      else if is_dot_dotdot name_info then 0
      else let buf = hash_loop (qname name_info) (qlen name_info) hash_seed;
               hash = arr_get 0 buf 0
           in ucast ((ucast hash :: u64) AND NOT F2FS_HASH_COL_BIT))"

section \<open>The packing agrees with its specification\<close>

text \<open>One word: the bytes of a group of at most four, shifted into the pad.\<close>

definition hash_word :: "u32 \<Rightarrow> u8 list \<Rightarrow> u32" where
  "hash_word pad bs = foldl (\<lambda>v b. ucast b + push_bit 8 v) pad bs"

definition str2hashbuf_spec :: "u8 list \<Rightarrow> nat \<Rightarrow> nat \<Rightarrow> u32 list" where
  "str2hashbuf_spec msg len n =
     map (\<lambda>k. hash_word (hash_pad len) (take 4 (drop (4 * k) (take len msg)))) [0..<n]"

lemma pad_words_replicate: "pad_words pad num = replicate (nat num) pad"
proof (induction pad num rule: pad_words.induct)
  case (1 pad num)
  show ?case
  proof (cases "num - 1 \<ge> 0")
    case True
    then have "nat num = Suc (nat (num - 1))" by simp
    with True 1 show ?thesis by (simp add: pad_words.simps [of pad num])
  next
    case False
    then show ?thesis by (simp add: pad_words.simps [of pad num])
  qed
qed

lemma hash_word_snoc: "hash_word pad (bs @ [b]) = ucast b + push_bit 8 (hash_word pad bs)"
  by (simp add: hash_word_def)

definition packed :: "u32 \<Rightarrow> u8 list \<Rightarrow> nat \<Rightarrow> u32 list" where
  "packed pad msg m = map (\<lambda>k. hash_word pad (take 4 (drop (4 * k) msg))) [0..<m]"

lemma group_snoc:
  assumes "i < length msg"
  shows "drop (4 * (i div 4)) (take (Suc i) msg) = drop (4 * (i div 4)) (take i msg) @ [msg ! i]"
  using assms by (simp add: take_Suc_conv_app_nth)

lemma group_full:
  assumes "i < length msg" "i mod 4 = 3"
  shows "drop (4 * (i div 4)) (take (Suc i) msg) = take 4 (drop (4 * (i div 4)) msg)"
proof -
  have "Suc i = 4 + 4 * (i div 4)" using assms(2) by presburger
  then show ?thesis by (metis take_drop)
qed

lemma str2hashbuf_loop_inv:
  assumes "len \<le> length msg" "i \<le> len"
    and "buf = packed pad msg (i div 4)"
    and "val = hash_word pad (drop (4 * (i div 4)) (take i msg))"
  shows "str2hashbuf_loop msg len pad i val buf num =
           (hash_word pad (drop (4 * (len div 4)) (take len msg)),
            packed pad msg (len div 4), num - (int (len div 4) - int (i div 4)))"
  using assms
proof (induction msg len pad i val buf num rule: str2hashbuf_loop.induct)
  case (1 msg len pad i val buf num)
  show ?case
  proof (cases "i < len")
    case False
    with "1.prems" show ?thesis by (subst str2hashbuf_loop.simps) simp
  next
    case True
    let ?w = "if i mod 4 = 0 then pad else val"
    let ?v = "ucast (arr_get 0 msg i) + push_bit 8 ?w :: u32"
    have i: "i < length msg" using True "1.prems"(1) by simp
    have w: "?w = hash_word pad (drop (4 * (i div 4)) (take i msg))"
    proof (cases "i mod 4 = 0")
      case True
      then have "4 * (i div 4) = i" by presburger
      with True show ?thesis by (simp add: hash_word_def)
    qed (simp add: "1.prems"(4))
    have v: "?v = hash_word pad (drop (4 * (i div 4)) (take (Suc i) msg))"
      unfolding w using i by (simp add: group_snoc hash_word_snoc)
    show ?thesis
    proof (cases "i mod 4 = 3")
      case True
      then have d: "Suc i div 4 = Suc (i div 4)" "4 * Suc (i div 4) = Suc i" by presburger+
      have "buf @ [?v] = packed pad msg (Suc i div 4)"
        unfolding v d(1) "1.prems"(3) using i True by (simp add: packed_def group_full)
      moreover have "pad = hash_word pad (drop (4 * (Suc i div 4)) (take (Suc i) msg))"
        by (simp add: d hash_word_def)
      moreover have "num - 1 - (int (len div 4) - int (Suc i div 4)) = num - (int (len div 4) - int (i div 4))"
        by (simp add: d)
      ultimately show ?thesis
        using "1.IH"(1) [OF \<open>i < len\<close> refl refl True] \<open>i < len\<close> "1.prems"(1) True
        by (simp add: str2hashbuf_loop.simps [of msg len pad i])
    next
      case False
      then have d: "Suc i div 4 = i div 4" by presburger
      show ?thesis
        using "1.IH"(2) [OF \<open>i < len\<close> refl refl False] \<open>i < len\<close> "1.prems"(1,3) False v
        by (simp add: str2hashbuf_loop.simps [of msg len pad i] d)
    qed
  qed
qed

lemma packed_ext:
  assumes "m \<le> n" "n * 4 \<le> length msg \<or> m * 4 \<le> length msg"
    and "take (4 * m) msg = take (4 * m) msg'"
  shows "packed pad msg m = packed pad msg' m"
proof -
  have "take 4 (drop (4 * k) msg) = take 4 (drop (4 * k) msg')" if "k < m" for k
  proof -
    have "take 4 (drop (4 * k) xs) = take 4 (drop (4 * k) (take (4 * m) xs))" for xs :: "u8 list"
    proof -
      have "4 \<le> 4 * m - 4 * k" using that by linarith
      then show ?thesis by (simp add: drop_take min_def)
    qed
    then show ?thesis using assms(3) by metis
  qed
  then show ?thesis by (simp add: packed_def)
qed

lemma str2hashbuf_correct:
  assumes "len \<le> length msg"
  shows "str2hashbuf msg len (int n) = str2hashbuf_spec msg len n"
proof -
  let ?pad = "hash_pad len" and ?l = "min len (4 * n)"
  let ?m = "?l div 4"
  let ?val = "hash_word ?pad (drop (4 * ?m) (take ?l msg))"
  have l: "(if int len > int n * 4 then nat (int n * 4) else len) = ?l" by (simp add: nat_mult_distrib min_def)
  have loop: "str2hashbuf_loop msg ?l ?pad 0 ?pad [] (int n) = (?val, packed ?pad msg ?m, int n - int ?m)"
    using assms by (subst str2hashbuf_loop_inv) (auto simp: packed_def hash_word_def)
  have mn: "?m \<le> n" by simp
  have spec: "str2hashbuf_spec msg len n = packed ?pad (take len msg) n"
    by (simp add: str2hashbuf_spec_def packed_def)
  have pre: "packed ?pad msg ?m = packed ?pad (take len msg) ?m"
    using assms by (intro packed_ext [where n = n]) auto
  show ?thesis
  proof (cases "n - ?m")
    case 0
    then have "?m = n" using mn by simp
    then show ?thesis
      unfolding str2hashbuf_def Let_def l loop spec by (simp add: pad_words_replicate pre [unfolded \<open>?m = n\<close>])
  next
    case (Suc r)
    then have m: "?m < n" "n = Suc (?m + r)" by simp_all
    then have len: "?l = len" by linarith
    have rest: "hash_word ?pad (take 4 (drop (4 * k) (take len msg))) = ?pad" if "?m < k" for k
    proof -
      have "len \<le> 4 * k" using that len by linarith
      then show ?thesis by (simp add: hash_word_def)
    qed
    have mid: "take 4 (drop (4 * ?m) (take len msg)) = drop (4 * ?m) (take ?l msg)"
      using len by simp
    have upt: "[0..<n] = [0..<?m] @ ?m # [Suc ?m..<n]"
      using upt_add_eq_append [of 0 ?m "Suc r"] m by (simp add: upt_conv_Cons)
    have "packed ?pad (take len msg) n =
            packed ?pad (take len msg) ?m @ ?val #
              map (\<lambda>k. hash_word ?pad (take 4 (drop (4 * k) (take len msg)))) [Suc ?m..<n]"
      unfolding packed_def upt using mid by simp
    also have "map (\<lambda>k. hash_word ?pad (take 4 (drop (4 * k) (take len msg)))) [Suc ?m..<n] = replicate r ?pad"
    proof -
      have "map (\<lambda>k. hash_word ?pad (take 4 (drop (4 * k) (take len msg)))) [Suc ?m..<n] =
              map (\<lambda>_. ?pad) [Suc ?m..<n]"
        by (rule map_cong [OF refl]) (simp only: set_upt atLeastLessThan_iff Suc_le_eq rest)
      also have "\<dots> = replicate r ?pad" using m by (simp add: map_replicate_const)
      finally show ?thesis .
    qed
    finally show ?thesis
      unfolding str2hashbuf_def Let_def l loop spec using m by (simp add: pad_words_replicate pre [unfolded len])
  qed
qed

section \<open>The hash of a name\<close>

text \<open>
  Specification: the name is cut into 16-byte blocks (at least one); block \<open>k\<close> is packed with
  the pad of the length that remains there, and mixed into the state.
\<close>

definition hash_nblocks :: "nat \<Rightarrow> nat" where
  "hash_nblocks len = (if len = 0 then 1 else (len + 15) div 16)"

definition hash_spec :: "u8 list \<Rightarrow> nat \<Rightarrow> u32 list \<Rightarrow> u32 list" where
  "hash_spec msg len buf =
     foldl (\<lambda>b k. TEA_transform b (str2hashbuf_spec (drop (16 * k) msg) (len - 16 * k) 4)) buf
       [0..<hash_nblocks len]"

lemma hash_nblocks_step: "16 < len \<Longrightarrow> hash_nblocks len = Suc (hash_nblocks (len - 16))"
proof -
  assume "16 < len"
  then have "len + 15 = 16 + (len - 16 + 15)" by simp
  then have "(len + 15) div 16 = Suc ((len - 16 + 15) div 16)" by presburger
  with \<open>16 < len\<close> show ?thesis by (simp add: hash_nblocks_def)
qed

lemma hash_spec_step:
  assumes "16 < len"
  shows "hash_spec msg len buf =
           hash_spec (drop 16 msg) (len - 16) (TEA_transform buf (str2hashbuf_spec msg len 4))"
proof -
  have "[0..<hash_nblocks len] = 0 # map Suc [0..<hash_nblocks (len - 16)]"
    by (simp only: hash_nblocks_step [OF assms] map_Suc_upt) (simp add: upt_conv_Cons)
  then show ?thesis by (simp add: hash_spec_def foldl_map algebra_simps)
qed

lemma hash_spec_last: "len \<le> 16 \<Longrightarrow> hash_spec msg len buf = TEA_transform buf (str2hashbuf_spec msg len 4)"
  by (simp add: hash_spec_def hash_nblocks_def) (auto simp: upt_rec)

lemma hash_loop_correct: "len \<le> length p \<Longrightarrow> hash_loop p len buf = hash_spec p len buf"
proof (induction p len buf rule: hash_loop.induct)
  case (1 p len buf)
  have pack: "str2hashbuf p len 4 = str2hashbuf_spec p len 4"
    using str2hashbuf_correct [OF "1.prems", of 4] by simp
  show ?case
  proof (cases "len \<le> 16")
    case True
    then show ?thesis by (simp add: hash_loop.simps [of p len] Let_def pack hash_spec_last)
  next
    case False
    with 1 show ?thesis
      by (simp add: hash_loop.simps [of p len] Let_def pack hash_spec_step)
  qed
qed

lemma bit_F2FS_HASH_COL_BIT: "bit F2FS_HASH_COL_BIT n = (n = 63)"
  unfolding F2FS_HASH_COL_BIT_def bit_push_bit_iff by auto

lemma mask_col_bit [simp]: "ucast ((ucast (w :: u32) :: u64) AND NOT F2FS_HASH_COL_BIT) = w"
  by (rule bit_word_eqI) (auto simp: bit_F2FS_HASH_COL_BIT bit_simps)

text \<open>
  Property C31. For a name that is neither a dot entry nor an encrypted name without its disk
  form, the hash stored in a directory entry is the first state word of the block-wise
  specification: the byte-wise packing loop and the 16-byte stepping compute it, whatever the
  length of the name, and all its 32 bits survive.
\<close>

theorem f2fs_dentry_hash_correct:
  assumes "qlen q \<le> length (qname q)" and "\<not> is_dot_dotdot q"
    and "fname = None \<or> disk_name (the fname) \<noteq> None"
  shows "f2fs_dentry_hash q fname = hd (hash_spec (qname q) (qlen q) hash_seed)"
proof -
  have len: "length (hash_spec m l b) = length b" for m l b
  proof -
    have "length (foldl (\<lambda>b k. TEA_transform b (f k)) b ks) = length b" for f ks
      by (induction ks arbitrary: b) (auto simp: TEA_transform_def Let_def split: prod.splits)
    then show ?thesis by (simp add: hash_spec_def)
  qed
  have "length (hash_spec (qname q) (qlen q) hash_seed) = 4"
    by (simp only: len) (simp add: hash_seed_def)
  then have "arr_get 0 (hash_spec (qname q) (qlen q) hash_seed) 0 = hd (hash_spec (qname q) (qlen q) hash_seed)"
    by (cases "hash_spec (qname q) (qlen q) hash_seed") (auto simp: arr_get_def)
  with assms show ?thesis by (auto simp: f2fs_dentry_hash_def Let_def hash_loop_correct)
qed

theorem f2fs_dentry_hash_correct_witness:
  "f2fs_dentry_hash \<lparr>qname = [98], qlen = 1\<rparr> None = hd (hash_spec [98] 1 hash_seed)"
  using f2fs_dentry_hash_correct [of "\<lparr>qname = [98], qlen = 1\<rparr>" None]
  by (simp add: is_dot_dotdot_def)

text \<open>
  The mask with \<^verbatim>\<open>F2FS_HASH_COL_BIT\<close>, bit 63 of a 64-bit constant, has no effect
  on the 32-bit hash: the name \<^verbatim>\<open>b\<close> hashes to a value with its top bit set, so no bit of the
  stored hash is reserved for collisions.
\<close>

theorem f2fs_dentry_hash_col_bit_kept:
  "f2fs_dentry_hash \<lparr>qname = [98], qlen = 1\<rparr> None = 0xE9FB8BD0"
  by code_simp

end
