(* ===== verification/Node_Tree.thy ===== *)
theory Node_Tree
  imports F2fs_Prelude
begin

text \<open>
  The tree of node blocks of a file: from a block index in the file to the path of node blocks
  that leads to its address (\<^verbatim>\<open>get_node_path\<close>, \<^verbatim>\<open>node.c\<close>), back from the offset number of a
  direct node to the first block index it covers (\<^verbatim>\<open>start_bidx_of_node\<close>, \<^verbatim>\<open>gc.c\<close>), the
  classification of node offsets (\<^verbatim>\<open>IS_DNODE\<close>, \<^verbatim>\<open>node.h\<close>), the step over a hole
  (\<^verbatim>\<open>get_next_page_offset\<close>) and the footer of a node block (\<^verbatim>\<open>node.h\<close>).
  C \<open>long\<close> block indices are \<open>int\<close>: all values stay far below \<open>2^63\<close>.
\<close>

section \<open>Geometry of an inode\<close>

abbreviation (input) DEF_ADDRS_PER_INODE :: int where "DEF_ADDRS_PER_INODE \<equiv> 923"
abbreviation (input) ADDRS_PER_BLOCK :: int where "ADDRS_PER_BLOCK \<equiv> 1018"
abbreviation (input) NIDS_PER_BLOCK :: int where "NIDS_PER_BLOCK \<equiv> 1018"
abbreviation (input) NODE_DIR1_BLOCK :: int where "NODE_DIR1_BLOCK \<equiv> DEF_ADDRS_PER_INODE + 1"
abbreviation (input) NODE_DIR2_BLOCK :: int where "NODE_DIR2_BLOCK \<equiv> DEF_ADDRS_PER_INODE + 2"
abbreviation (input) NODE_IND1_BLOCK :: int where "NODE_IND1_BLOCK \<equiv> DEF_ADDRS_PER_INODE + 3"
abbreviation (input) NODE_IND2_BLOCK :: int where "NODE_IND2_BLOCK \<equiv> DEF_ADDRS_PER_INODE + 4"
abbreviation (input) NODE_DIND_BLOCK :: int where "NODE_DIND_BLOCK \<equiv> DEF_ADDRS_PER_INODE + 5"

text \<open>The fields of \<^verbatim>\<open>struct f2fs_inode_info\<close> the address layout depends on.\<close>

record addr_layout =
  i_extra_isize :: int
  i_inline_xattr_size :: int

definition get_extra_isize :: "addr_layout \<Rightarrow> int" where
  "get_extra_isize inode = i_extra_isize inode div 4"

definition get_inline_xattr_addrs :: "addr_layout \<Rightarrow> int" where
  "get_inline_xattr_addrs inode = i_inline_xattr_size inode"

definition addrs_per_inode :: "addr_layout \<Rightarrow> int" where
  "addrs_per_inode inode =
     (DEF_ADDRS_PER_INODE - get_extra_isize inode) - get_inline_xattr_addrs inode"

definition max_file_blocks :: int where
  "max_file_blocks =
     (let result = 0; leaf_count = ADDRS_PER_BLOCK;
          result = result + leaf_count * 2;
          leaf_count = leaf_count * NIDS_PER_BLOCK;
          result = result + leaf_count * 2;
          leaf_count = leaf_count * NIDS_PER_BLOCK
      in result + leaf_count)"

section \<open>get\_node\_path\<close>

text \<open>
  The result is the level together with the arrays \<open>offset\<close> and \<open>noffset\<close>, of which the
  entries \<open>0 \<dots> level\<close> are written.
\<close>

definition get_node_path :: "addr_layout \<Rightarrow> int \<Rightarrow> (nat \<times> int list \<times> int list) result" where
  "get_node_path inode block =
     (let direct_index = addrs_per_inode inode;
          direct_blks = ADDRS_PER_BLOCK;
          dptrs_per_blk = NIDS_PER_BLOCK;
          indirect_blks = ADDRS_PER_BLOCK * NIDS_PER_BLOCK;
          dindirect_blks = indirect_blks * NIDS_PER_BLOCK
      in
      if block < direct_index then Inr (0, [block], [0])
      else let block = block - direct_index in
      if block < direct_blks then Inr (1, [NODE_DIR1_BLOCK, block], [0, 1])
      else let block = block - direct_blks in
      if block < direct_blks then Inr (1, [NODE_DIR2_BLOCK, block], [0, 2])
      else let block = block - direct_blks in
      if block < indirect_blks then
        let o1 = block div direct_blks
        in Inr (2, [NODE_IND1_BLOCK, o1, block mod direct_blks], [0, 3, 4 + o1])
      else let block = block - indirect_blks in
      if block < indirect_blks then
        let o1 = block div direct_blks
        in Inr (2, [NODE_IND2_BLOCK, o1, block mod direct_blks],
                   [0, 4 + dptrs_per_blk, 5 + dptrs_per_blk + o1])
      else let block = block - indirect_blks in
      if block < dindirect_blks then
        let o1 = block div indirect_blks;
            o2 = (block div direct_blks) mod dptrs_per_blk
        in Inr (3, [NODE_DIND_BLOCK, o1, o2, block mod direct_blks],
                   [0, 5 + dptrs_per_blk * 2, 6 + dptrs_per_blk * 2 + o1 * (dptrs_per_blk + 1),
                    7 + dptrs_per_blk * 2 + o1 * (dptrs_per_blk + 1) + o2])
      else Inl E2BIG)"

section \<open>Node offsets\<close>

definition start_bidx_of_node :: "u32 \<Rightarrow> addr_layout \<Rightarrow> block_t" where
  "start_bidx_of_node node_ofs inode =
     (let indirect_blks = 2 * 1018 + 4 :: u32 in
      if node_ofs = 0 then 0
      else
        let bidx =
          (if node_ofs \<le> 2 then node_ofs - 1
           else if node_ofs \<le> indirect_blks then
             let dec = (node_ofs - 4) div (1018 + 1) in node_ofs - 2 - dec
           else
             let dec = (node_ofs - indirect_blks - 3) div (1018 + 1) in node_ofs - 5 - dec)
        in bidx * 1018 + word_of_int (addrs_per_inode inode))"

definition XATTR_NODE_OFFSET :: u32 where
  "XATTR_NODE_OFFSET = drop_bit 3 (push_bit 3 (- 1))"

definition f2fs_has_xattr_block :: "u32 \<Rightarrow> bool" where
  "f2fs_has_xattr_block ofs = (ofs = XATTR_NODE_OFFSET)"

definition IS_DNODE :: "u32 \<Rightarrow> bool" where
  "IS_DNODE ofs =
     (if f2fs_has_xattr_block ofs then True
      else if ofs = 3 \<or> ofs = 4 + 1018 \<or> ofs = 5 + 2 * 1018 then False
      else if ofs \<ge> 6 + 2 * 1018 then \<not> ((ofs - (6 + 2 * 1018)) mod (1018 + 1) = 0)
      else True)"

section \<open>Stepping over a hole\<close>

function skip_unit :: "u32 \<Rightarrow> int \<Rightarrow> int \<Rightarrow> u32" where
  "skip_unit unit max_level cur_level =
     (if max_level > cur_level then skip_unit (unit * 1018) (max_level - 1) cur_level else unit)"
  by pat_completeness auto
termination
  by (relation "measure (\<lambda>(unit, m, c). nat (m - c))") auto

declare skip_unit.simps [simp del]

text \<open>
  The \<open>switch\<close> falls through: level 3 adds all three parts. Other levels are a bug
  (\<^verbatim>\<open>f2fs_bug_on\<close>), modelled by \<open>None\<close>.
\<close>

definition get_next_page_offset :: "addr_layout \<Rightarrow> int \<Rightarrow> int \<Rightarrow> int \<Rightarrow> int option" where
  "get_next_page_offset inode cur_level max_level pgofs =
     (let direct_index = addrs_per_inode inode;
          direct_blks = ADDRS_PER_BLOCK;
          indirect_blks = ADDRS_PER_BLOCK * NIDS_PER_BLOCK
      in if max_level = 0 then Some (pgofs + 1)
         else
           let skipped_unit = uint (skip_unit 1018 max_level cur_level) in
           if max_level = 3 then
             let base = 2 * indirect_blks + 2 * direct_blks + direct_index
             in Some (((pgofs - base) div skipped_unit + 1) * skipped_unit + base)
           else if max_level = 2 then
             let base = 2 * direct_blks + direct_index
             in Some (((pgofs - base) div skipped_unit + 1) * skipped_unit + base)
           else if max_level = 1 then
             let base = direct_index
             in Some (((pgofs - base) div skipped_unit + 1) * skipped_unit + base)
           else None)"

section \<open>The footer of a node block\<close>

record node_footer =
  f_nid :: nid_t
  f_ino :: nid_t
  f_flag :: u32
  f_cp_ver :: u64
  f_next_blkaddr :: block_t

definition OFFSET_BIT_MASK :: u32 where "OFFSET_BIT_MASK = 0x07"
abbreviation (input) COLD_BIT_SHIFT :: nat where "COLD_BIT_SHIFT \<equiv> 0"
abbreviation (input) FSYNC_BIT_SHIFT :: nat where "FSYNC_BIT_SHIFT \<equiv> 1"
abbreviation (input) DENT_BIT_SHIFT :: nat where "DENT_BIT_SHIFT \<equiv> 2"
abbreviation (input) OFFSET_BIT_SHIFT :: nat where "OFFSET_BIT_SHIFT \<equiv> 3"

definition ofs_of_node :: "node_footer \<Rightarrow> u32" where
  "ofs_of_node ft = drop_bit OFFSET_BIT_SHIFT (f_flag ft)"

definition zero_footer :: node_footer where
  "zero_footer = \<lparr>f_nid = 0, f_ino = 0, f_flag = 0, f_cp_ver = 0, f_next_blkaddr = 0\<rparr>"

definition fill_node_footer :: "node_footer \<Rightarrow> nid_t \<Rightarrow> nid_t \<Rightarrow> u32 \<Rightarrow> bool \<Rightarrow> node_footer" where
  "fill_node_footer ft nid ino ofs reset =
     (let rn = (if reset then zero_footer else ft);
          old_flag = (if reset then 0 else f_flag ft)
      in rn\<lparr>f_nid := nid, f_ino := ino,
            f_flag := push_bit OFFSET_BIT_SHIFT ofs OR (old_flag AND OFFSET_BIT_MASK)\<rparr>)"

definition is_node :: "node_footer \<Rightarrow> nat \<Rightarrow> bool" where
  "is_node ft type = (f_flag ft AND push_bit type 1 \<noteq> 0)"

definition set_mark :: "node_footer \<Rightarrow> bool \<Rightarrow> nat \<Rightarrow> node_footer" where
  "set_mark ft mark type =
     ft\<lparr>f_flag := (if mark then f_flag ft OR push_bit type 1
                    else f_flag ft AND NOT (push_bit type 1))\<rparr>"

definition set_cold_node :: "bool \<Rightarrow> node_footer \<Rightarrow> node_footer" where
  "set_cold_node is_dir ft =
     ft\<lparr>f_flag := (if is_dir then f_flag ft AND NOT (push_bit COLD_BIT_SHIFT 1)
                    else f_flag ft OR push_bit COLD_BIT_SHIFT 1)\<rparr>"

definition IS_INODE :: "node_footer \<Rightarrow> bool" where
  "IS_INODE ft = (f_nid ft = f_ino ft)"

section \<open>Block indices and node offsets correspond\<close>

text \<open>The integer value of \<^verbatim>\<open>start_bidx_of_node\<close> on the offsets of direct nodes.\<close>

definition bidx_int :: "int \<Rightarrow> int" where
  "bidx_int n =
     (if n \<le> 2 then n - 1 else if n \<le> 2040 then n - 2 - (n - 4) div 1019
      else n - 5 - (n - 2043) div 1019)"

lemma start_bidx_of_node_int:
  assumes "0 < n" "n \<noteq> 3" "n \<le> 2040 \<or> 2043 \<le> n" "n < 2 ^ 32"
  shows "start_bidx_of_node (word_of_int n) inode =
           word_of_int (bidx_int n * 1018 + addrs_per_inode inode)"
proof -
  let ?w = "word_of_int n :: u32"
  have cmp: "?w = 0 \<longleftrightarrow> n = 0" "?w \<le> 2 \<longleftrightarrow> n \<le> 2" "?w \<le> 2 * 1018 + 4 \<longleftrightarrow> n \<le> 2040"
    using u32_of_int_eq [of n 0] u32_of_int_le [of n 2] u32_of_int_le [of n 2040] assms by simp_all
  have d1: "(?w - 4) div 1019 = word_of_int ((n - 4) div 1019)" if "4 \<le> n"
    using u32_of_int_div [of "n - 4" 1019] that assms by simp
  have d2: "(?w - 2043) div 1019 = word_of_int ((n - 2043) div 1019)" if "2043 \<le> n"
    using u32_of_int_div [of "n - 2043" 1019] that assms by (simp add: diff_diff_eq)
  show ?thesis
    using assms unfolding start_bidx_of_node_def Let_def cmp
    by (auto simp: bidx_int_def d1 d2)
qed

definition layout_ok :: "addr_layout \<Rightarrow> bool" where
  "layout_ok inode \<longleftrightarrow>
     0 \<le> i_extra_isize inode \<and> 0 \<le> i_inline_xattr_size inode \<and> 0 \<le> addrs_per_inode inode"

lemma layout_ok_bounds: "layout_ok inode \<Longrightarrow> 0 \<le> addrs_per_inode inode \<and> addrs_per_inode inode \<le> 923"
  by (auto simp: layout_ok_def addrs_per_inode_def get_extra_isize_def get_inline_xattr_addrs_def)

text \<open>The six shapes of a path, with the index relative to the area that holds it.\<close>

lemma get_node_path_cases:
  assumes "get_node_path inode block = Inr (level, off, noff)"
  obtains
    (inode) "block < addrs_per_inode inode" "level = 0" "off = [block]" "noff = [0]"
  | (direct) k b where "k = 0 \<or> k = 1" "block = addrs_per_inode inode + k * 1018 + b" "0 \<le> b" "b < 1018"
      "level = 1" "off = [924 + k, b]" "noff = [0, 1 + k]"
  | (indirect) k o1 b where "k = 0 \<or> k = 1" "0 \<le> o1" "o1 < 1018" "0 \<le> b" "b < 1018"
      "block = addrs_per_inode inode + 2036 + k * 1036324 + (o1 * 1018 + b)"
      "level = 2" "off = [926 + k, o1, b]" "noff = [0, 3 + k * 1019, 4 + k * 1019 + o1]"
  | (dindirect) o1 o2 b where "0 \<le> o1" "o1 < 1018" "0 \<le> o2" "o2 < 1018" "0 \<le> b" "b < 1018"
      "block = addrs_per_inode inode + 2036 + 2 * 1036324 + ((o1 * 1018 + o2) * 1018 + b)"
      "level = 3" "off = [928, o1, o2, b]"
      "noff = [0, 2041, 2042 + o1 * 1019, 2043 + o1 * 1019 + o2]"
proof -
  let ?D = "addrs_per_inode inode"
  have div2: "x div 1018 div 1018 = x div 1036324" for x :: int
    by (simp add: zdiv_zmult2_eq [symmetric])
  consider "block < ?D" | "?D \<le> block" "block < ?D + 1018" | "?D + 1018 \<le> block" "block < ?D + 2036"
    | "?D + 2036 \<le> block" "block < ?D + 1038360" | "?D + 1038360 \<le> block" "block < ?D + 2074684"
    | "?D + 2074684 \<le> block"
    by linarith
  then show thesis
  proof cases
    case 1
    with assms show ?thesis by (intro inode) (auto simp: get_node_path_def)
  next
    case 2
    with assms show ?thesis by (intro direct [of 0 "block - ?D"]) (auto simp: get_node_path_def)
  next
    case 3
    with assms show ?thesis by (intro direct [of 1 "block - ?D - 1018"]) (auto simp: get_node_path_def Let_def)
  next
    case 4
    define b where "b = block - ?D - 1018 - 1018"
    have b: "0 \<le> b" "b < 1036324" using 4 by (auto simp: b_def)
    then have r: "0 \<le> b div 1018" "b div 1018 < 1018" by linarith+
    have "get_node_path inode block = Inr (2, [926, b div 1018, b mod 1018], [0, 3, 4 + b div 1018])"
      using 4 by (simp add: get_node_path_def Let_def b_def)
    with assms r show ?thesis by (intro indirect [of 0 "b div 1018" "b mod 1018"]) (auto simp: b_def)
  next
    case 5
    define b where "b = block - ?D - 1018 - 1018 - 1036324"
    have b: "0 \<le> b" "b < 1036324" using 5 by (auto simp: b_def)
    then have r: "0 \<le> b div 1018" "b div 1018 < 1018" by linarith+
    have "get_node_path inode block = Inr (2, [927, b div 1018, b mod 1018], [0, 1022, 1023 + b div 1018])"
      using 5 by (simp add: get_node_path_def Let_def b_def)
    with assms r show ?thesis by (intro indirect [of 1 "b div 1018" "b mod 1018"]) (auto simp: b_def)
  next
    case 6
    define b where "b = block - ?D - 1018 - 1018 - 1036324 - 1036324"
    have b: "0 \<le> b" using 6 by (auto simp: b_def)
    show ?thesis
    proof (cases "b < 1054977832")
      case True
      let ?o1 = "b div 1036324" and ?o2 = "b div 1018 mod 1018"
      have r: "0 \<le> ?o1" "?o1 < 1018" using b True by linarith+
      have eq: "?o1 * 1018 + ?o2 = b div 1018" using div2 [of b] by (metis div_mult_mod_eq)
      have "get_node_path inode block =
              Inr (3, [928, ?o1, ?o2, b mod 1018], [0, 2041, 2042 + ?o1 * 1019, 2043 + ?o1 * 1019 + ?o2])"
        using 6 True by (simp add: get_node_path_def Let_def b_def)
      with assms have path: "level = 3" "off = [928, ?o1, ?o2, b mod 1018]"
        "noff = [0, 2041, 2042 + ?o1 * 1019, 2043 + ?o1 * 1019 + ?o2]"
        by simp_all
      have blk: "block = ?D + 2036 + 2 * 1036324 + ((?o1 * 1018 + ?o2) * 1018 + b mod 1018)"
        unfolding eq by (simp add: b_def)
      show ?thesis by (rule dindirect [OF r _ _ _ _ blk path]) simp_all
    next
      case False
      with 6 assms show ?thesis by (simp add: get_node_path_def Let_def b_def)
    qed
  qed
qed

lemma bidx_dindirect: "0 \<le> o1 \<Longrightarrow> 0 \<le> o2 \<Longrightarrow> o2 < 1018 \<Longrightarrow> bidx_int (2043 + o1 * 1019 + o2) = 2038 + (o1 * 1018 + o2)"
  by (simp add: bidx_int_def)

lemma bidx_indirect:
  assumes "k = 0 \<or> k = 1" "0 \<le> o1" "o1 < 1018"
  shows "bidx_int (4 + k * 1019 + o1) = 2 + k * 1018 + o1"
  using assms by (auto simp: bidx_int_def)

text \<open>
  Property C21. The path of a block index leads back to it: the node offset that
  \<^verbatim>\<open>get_node_path\<close> computes for the last node of the path, turned into a start block index by
  \<^verbatim>\<open>start_bidx_of_node\<close>, plus the offset inside that node, is the block index, at every level of
  the tree and without 32-bit overflow. Data block indices and (node, offset) pairs correspond,
  which garbage collection and recovery rely on.
\<close>

theorem get_node_path_roundtrip:
  assumes "layout_ok inode" "0 \<le> block" "get_node_path inode block = Inr (level, off, noff)"
  shows "uint (start_bidx_of_node (word_of_int (noff ! level)) inode) + off ! level = block"
  using assms(3)
proof (cases rule: get_node_path_cases)
  case inode
  then show ?thesis by (simp add: start_bidx_of_node_def)
next
  case (direct k b)
  then have "start_bidx_of_node (word_of_int (noff ! level)) inode =
      word_of_int (k * 1018 + addrs_per_inode inode)"
    using start_bidx_of_node_int [of "1 + k" inode] by (auto simp: bidx_int_def)
  moreover have "0 \<le> k * 1018 + addrs_per_inode inode" "k * 1018 + addrs_per_inode inode < 2 ^ 32"
    using layout_ok_bounds [OF assms(1)] direct by auto
  ultimately have "uint (start_bidx_of_node (word_of_int (noff ! level)) inode) = k * 1018 + addrs_per_inode inode"
    by (simp only: uint_u32_of_int)
  then show ?thesis using direct by simp
next
  case (indirect k o1 b)
  then have "start_bidx_of_node (word_of_int (noff ! level)) inode =
      word_of_int ((2 + k * 1018 + o1) * 1018 + addrs_per_inode inode)"
    using start_bidx_of_node_int [of "4 + k * 1019 + o1" inode] bidx_indirect [of k o1] by auto
  moreover have "0 \<le> (2 + k * 1018 + o1) * 1018 + addrs_per_inode inode"
    "(2 + k * 1018 + o1) * 1018 + addrs_per_inode inode < 2 ^ 32"
    using layout_ok_bounds [OF assms(1)] indirect by auto
  ultimately have "uint (start_bidx_of_node (word_of_int (noff ! level)) inode) =
      (2 + k * 1018 + o1) * 1018 + addrs_per_inode inode"
    by (simp only: uint_u32_of_int)
  then show ?thesis using indirect by simp
next
  case (dindirect o1 o2 b)
  have n: "0 < 2043 + o1 * 1019 + o2" "2043 + o1 * 1019 + o2 < 2 ^ 32" using dindirect by auto
  have "start_bidx_of_node (word_of_int (noff ! level)) inode =
      word_of_int ((2038 + (o1 * 1018 + o2)) * 1018 + addrs_per_inode inode)"
    using start_bidx_of_node_int [of "2043 + o1 * 1019 + o2" inode] bidx_dindirect [of o1 o2] n dindirect
    by auto
  moreover have "0 \<le> (2038 + (o1 * 1018 + o2)) * 1018 + addrs_per_inode inode"
    "(2038 + (o1 * 1018 + o2)) * 1018 + addrs_per_inode inode < 2 ^ 32"
    using layout_ok_bounds [OF assms(1)] dindirect by auto
  ultimately have "uint (start_bidx_of_node (word_of_int (noff ! level)) inode) =
      (2038 + (o1 * 1018 + o2)) * 1018 + addrs_per_inode inode"
    by (simp only: uint_u32_of_int)
  then show ?thesis using dindirect by simp
qed

theorem get_node_path_roundtrip_witness:
  "uint (start_bidx_of_node (word_of_int ([0, 2041, 2042 + 2 * 1019, 2043 + 2 * 1019 + 7] ! 3))
      \<lparr>i_extra_isize = 0, i_inline_xattr_size = 50\<rparr>) + [928, 2, 7, 11] ! 3 =
    873 + 2036 + 2 * 1036324 + ((2 * 1018 + 7) * 1018 + 11)"
  by (rule get_node_path_roundtrip)
    (simp_all add: layout_ok_def addrs_per_inode_def get_extra_isize_def get_inline_xattr_addrs_def
      get_node_path_def Let_def)

text \<open>
  \<^verbatim>\<open>get_node_path\<close> succeeds exactly for the block indices below the addresses of
  the inode plus \<^verbatim>\<open>max_file_blocks\<close>, and returns \<open>-E2BIG\<close> for all others: every index up to
  the advertised maximal file size has a path.
\<close>

theorem get_node_path_total:
  "((\<exists>p. get_node_path inode block = Inr p) \<longleftrightarrow> block < addrs_per_inode inode + max_file_blocks) \<and>
   (get_node_path inode block = Inl e \<longleftrightarrow> e = E2BIG \<and> addrs_per_inode inode + max_file_blocks \<le> block)"
  unfolding get_node_path_def max_file_blocks_def Let_def by auto

lemma IS_DNODE_int:
  assumes "0 \<le> n" "n < 2 ^ 29 - 1"
  shows "IS_DNODE (word_of_int n) \<longleftrightarrow>
           n \<noteq> 3 \<and> n \<noteq> 1022 \<and> n \<noteq> 2041 \<and> \<not> (2042 \<le> n \<and> (n - 2042) mod 1019 = 0)"
proof -
  let ?w = "word_of_int n :: u32"
  have x: "XATTR_NODE_OFFSET = word_of_int (2 ^ 29 - 1)" by code_simp
  have cmp: "?w = XATTR_NODE_OFFSET \<longleftrightarrow> False" "?w = 3 \<longleftrightarrow> n = 3" "?w = 1022 \<longleftrightarrow> n = 1022"
    "?w = 2041 \<longleftrightarrow> n = 2041" "2042 \<le> ?w \<longleftrightarrow> 2042 \<le> n"
    using u32_of_int_eq [of n "2 ^ 29 - 1"] u32_of_int_eq [of n 3] u32_of_int_eq [of n 1022]
      u32_of_int_eq [of n 2041] u32_of_int_le [of 2042 n] assms by (simp_all add: x)
  have md: "(?w - 2042) mod 1019 = 0 \<longleftrightarrow> (n - 2042) mod 1019 = 0" if "2042 \<le> n"
    using u32_of_int_mod [of "n - 2042" 1019] u32_of_int_eq [of "(n - 2042) mod 1019" 0] that assms
    by (simp add: pos_mod_bound [THEN order_less_trans])
  show ?thesis using md by (auto simp: IS_DNODE_def f2fs_has_xattr_block_def cmp)
qed

text \<open>
  The node offsets on a path have the kind the tree position says: the last node is
  classified as a direct node by \<^verbatim>\<open>IS_DNODE\<close>, every inner node below the inode is not, all array
  offsets below the inode stay inside a node block, and the first one selects one of the five node
  ids of the inode.
\<close>

theorem get_node_path_kinds:
  assumes "get_node_path inode block = Inr (level, off, noff)"
  shows "IS_DNODE (word_of_int (noff ! level)) \<and>
    (\<forall>i. 0 < i \<and> i < level \<longrightarrow> \<not> IS_DNODE (word_of_int (noff ! i))) \<and>
    (\<forall>i. 0 < i \<and> i \<le> level \<longrightarrow> 0 \<le> off ! i \<and> off ! i < NIDS_PER_BLOCK) \<and>
    (0 < level \<longrightarrow> NODE_DIR1_BLOCK \<le> off ! 0 \<and> off ! 0 \<le> NODE_DIND_BLOCK)"
  using assms
proof (cases rule: get_node_path_cases)
  case inode
  then show ?thesis using IS_DNODE_int [of 0] by simp
next
  case (direct k b)
  then show ?thesis using IS_DNODE_int [of "1 + k"] by (auto simp: less_Suc_eq_le le_Suc_eq)
next
  case (indirect k o1 b)
  have "IS_DNODE (word_of_int (4 + k * 1019 + o1))" "\<not> IS_DNODE (word_of_int (3 + k * 1019))"
    using indirect IS_DNODE_int [of "4 + k * 1019 + o1"] IS_DNODE_int [of "3 + k * 1019"] by auto
  with indirect show ?thesis by (auto simp: numeral_2_eq_2 less_Suc_eq le_Suc_eq)
next
  case (dindirect o1 o2 b)
  have "2043 + o1 * 1019 + o2 - 2042 = (1 + o2) + o1 * 1019" by simp
  then have "(2043 + o1 * 1019 + o2 - 2042) mod 1019 = 1 + o2" using dindirect by (simp only: mod_mult_self1) simp
  then have "IS_DNODE (word_of_int (2043 + o1 * 1019 + o2))"
    using dindirect IS_DNODE_int [of "2043 + o1 * 1019 + o2"] by auto
  moreover have "\<not> IS_DNODE (word_of_int (2042 + o1 * 1019))" "\<not> IS_DNODE (word_of_int 2041)"
    using dindirect IS_DNODE_int [of "2042 + o1 * 1019"] IS_DNODE_int [of 2041] by auto
  ultimately show ?thesis using dindirect by (auto simp: numeral_3_eq_3 less_Suc_eq le_Suc_eq)
qed

theorem get_node_path_kinds_witness:
  "IS_DNODE (word_of_int ([0, 3, 4] ! 2)) \<and> \<not> IS_DNODE (word_of_int ([0, 3, 4] ! 1))"
proof -
  have "get_node_path \<lparr>i_extra_isize = 0, i_inline_xattr_size = 50\<rparr> 2909 = Inr (2, [926, 0, 0], [0, 3, 4])"
    by (simp add: get_node_path_def Let_def addrs_per_inode_def get_extra_isize_def get_inline_xattr_addrs_def)
  from get_node_path_kinds [OF this] show ?thesis by (metis less_numeral_extra(1) one_less_numeral_iff semiring_norm(76))
qed

section \<open>Holes\<close>

lemma path_direct:
  assumes "k = 0 \<or> k = 1" "0 \<le> b" "b < 1018"
  shows "get_node_path inode (addrs_per_inode inode + k * 1018 + b) = Inr (1, [924 + k, b], [0, 1 + k])"
  using assms by (auto simp: get_node_path_def Let_def)

lemma path_indirect:
  assumes "k = 0 \<or> k = 1" "0 \<le> r" "r < 1036324"
  shows "get_node_path inode (addrs_per_inode inode + 2036 + k * 1036324 + r) =
     Inr (2, [926 + k, r div 1018, r mod 1018], [0, 3 + k * 1019, 4 + k * 1019 + r div 1018])"
  using assms by (auto simp: get_node_path_def Let_def)

lemma path_dindirect:
  assumes "0 \<le> r" "r < 1054977832"
  shows "get_node_path inode (addrs_per_inode inode + 2036 + 2 * 1036324 + r) =
     Inr (3, [928, r div 1036324, r div 1018 mod 1018, r mod 1018],
       [0, 2041, 2042 + r div 1036324 * 1019, 2043 + r div 1036324 * 1019 + r div 1018 mod 1018])"
  using assms by (auto simp: get_node_path_def Let_def)

definition same_hole :: "addr_layout \<Rightarrow> nat \<Rightarrow> nat \<Rightarrow> int \<Rightarrow> int \<Rightarrow> bool" where
  "same_hole inode level cur n b \<longleftrightarrow>
     (\<exists>off noff. get_node_path inode b = Inr (level, off, noff) \<and> noff ! cur = n)"

lemma skip_unit_vals [simp]:
  "skip_unit 1018 1 1 = 1018" "skip_unit 1018 2 2 = 1018" "skip_unit 1018 3 3 = 1018"
  "skip_unit 1018 2 1 = 1036324" "skip_unit 1018 3 2 = 1036324" "skip_unit 1018 3 1 = 1054977832"
  by (simp_all add: skip_unit.simps)

text \<open>Rounding up inside an area that starts at \<open>base\<close>.\<close>

lemma round_up_range:
  fixes u :: int
  assumes "0 < u" "b - base = q * u + r" "0 \<le> r" "r < u"
  shows "((b - base) div u + 1) * u + base = base + q * u + u"
  using assms by (simp add: algebra_simps)

lemma hole_range:
  fixes u :: int
  assumes "0 < u" "b - base = q * u + r" "0 \<le> r" "r < u"
    and "nxt = Some (((b - base) div u + 1) * u + base)"
    and hole: "\<And>r'. 0 \<le> r' \<Longrightarrow> r' < u \<Longrightarrow> same_hole inode level cur n (base + q * u + r')"
  shows "\<exists>e. nxt = Some e \<and> b < e \<and> (\<forall>b'. b \<le> b' \<and> b' < e \<longrightarrow> same_hole inode level cur n b')"
proof -
  have e: "nxt = Some (base + q * u + u)" using assms round_up_range [OF assms(1-4)] by simp
  moreover have "same_hole inode level cur n b'" if "b \<le> b'" "b' < base + q * u + u" for b'
    using hole [of "b' - base - q * u"] that assms(2-4) by simp
  ultimately show ?thesis using assms(2-4) by auto
qed

lemma hole_direct:
  assumes "k = 0 \<or> k = 1" "0 \<le> b" "b < 1018"
  shows "same_hole inode 1 1 (1 + k) (addrs_per_inode inode + k * 1018 + b)"
  using path_direct [OF assms, of inode] by (simp add: same_hole_def)

lemma hole_indirect:
  assumes "k = 0 \<or> k = 1" "0 \<le> r" "r < 1036324"
  shows "same_hole inode 2 1 (3 + k * 1019) (addrs_per_inode inode + 2036 + k * 1036324 + r)"
    and "same_hole inode 2 2 (4 + k * 1019 + r div 1018) (addrs_per_inode inode + 2036 + k * 1036324 + r)"
  using path_indirect [OF assms, of inode] by (simp_all add: same_hole_def)

lemma hole_dindirect:
  assumes "0 \<le> r" "r < 1054977832"
  shows "same_hole inode 3 1 2041 (addrs_per_inode inode + 2036 + 2 * 1036324 + r)"
    and "same_hole inode 3 2 (2042 + r div 1036324 * 1019) (addrs_per_inode inode + 2036 + 2 * 1036324 + r)"
    and "same_hole inode 3 3 (2043 + r div 1036324 * 1019 + r div 1018 mod 1018)
           (addrs_per_inode inode + 2036 + 2 * 1036324 + r)"
  using path_dindirect [OF assms, of inode] by (simp_all add: same_hole_def)

lemma next_indirect:
  assumes "cur = 1 \<or> cur = (2::nat)" "k = 0 \<or> k = 1" "0 \<le> o1" "o1 < 1018" "0 \<le> b" "b < 1018"
  shows "\<exists>e. get_next_page_offset inode (int cur) 2 (addrs_per_inode inode + 2036 + k * 1036324 + (o1 * 1018 + b)) = Some e \<and>
     addrs_per_inode inode + 2036 + k * 1036324 + (o1 * 1018 + b) < e \<and>
     (\<forall>b'. addrs_per_inode inode + 2036 + k * 1036324 + (o1 * 1018 + b) \<le> b' \<and> b' < e \<longrightarrow>
        same_hole inode 2 cur ([0, 3 + k * 1019, 4 + k * 1019 + o1] ! cur) b')"
  using assms(1)
proof
  assume cur: "cur = 1"
  show ?thesis
  proof (rule hole_range [where u = 1036324 and base = "addrs_per_inode inode + 2036" and q = k and r = "o1 * 1018 + b"])
    fix r' :: int assume "0 \<le> r'" "r' < 1036324"
    then show "same_hole inode 2 cur ([0, 3 + k * 1019, 4 + k * 1019 + o1] ! cur) (addrs_per_inode inode + 2036 + k * 1036324 + r')"
      using hole_indirect(1) [OF assms(2), of r' inode] cur by simp
  qed (use assms cur in \<open>auto simp: get_next_page_offset_def\<close>)
next
  assume cur: "cur = 2"
  show ?thesis
  proof (rule hole_range [where u = 1018 and base = "addrs_per_inode inode + 2036" and q = "k * 1018 + o1" and r = b])
    fix r' :: int assume r': "0 \<le> r'" "r' < 1018"
    have "(o1 * 1018 + r') div 1018 = o1" using r' by simp
    then show "same_hole inode 2 cur ([0, 3 + k * 1019, 4 + k * 1019 + o1] ! cur)
        (addrs_per_inode inode + 2036 + (k * 1018 + o1) * 1018 + r')"
      using hole_indirect(2) [OF assms(2), of "o1 * 1018 + r'" inode] assms(3,4) r' cur
      by (simp add: algebra_simps)
  qed (use assms cur in \<open>auto simp: get_next_page_offset_def\<close>)
qed

lemma next_dindirect:
  fixes o1 o2 b :: int and inode :: addr_layout
  defines "p \<equiv> addrs_per_inode inode + 2036 + 2 * 1036324 + ((o1 * 1018 + o2) * 1018 + b)"
  assumes "cur = 1 \<or> cur = 2 \<or> cur = (3::nat)" "0 \<le> o1" "o1 < 1018" "0 \<le> o2" "o2 < 1018" "0 \<le> b" "b < 1018"
  shows "\<exists>e. get_next_page_offset inode (int cur) 3 p = Some e \<and> p < e \<and>
     (\<forall>b'. p \<le> b' \<and> b' < e \<longrightarrow>
        same_hole inode 3 cur ([0, 2041, 2042 + o1 * 1019, 2043 + o1 * 1019 + o2] ! cur) b')"
proof -
  let ?base = "addrs_per_inode inode + 2036 + 2 * 1036324"
  let ?n = "[0, 2041, 2042 + o1 * 1019, 2043 + o1 * 1019 + o2] ! cur"
  consider "cur = 1" | "cur = 2" | "cur = 3" using assms(2) by blast
  then show ?thesis
  proof cases
    case 1
    show ?thesis
    proof (rule hole_range [where u = 1054977832 and base = ?base and q = 0 and r = "(o1 * 1018 + o2) * 1018 + b"])
      fix r' :: int assume "0 \<le> r'" "r' < 1054977832"
      then show "same_hole inode 3 cur ?n (?base + 0 * 1054977832 + r')"
        using hole_dindirect(1) [of r' inode] 1 by simp
    qed (use assms 1 in \<open>auto simp: get_next_page_offset_def\<close>)
  next
    case 2
    show ?thesis
    proof (rule hole_range [where u = 1036324 and base = ?base and q = o1 and r = "o2 * 1018 + b"])
      fix r' :: int assume r': "0 \<le> r'" "r' < 1036324"
      have "(o1 * 1036324 + r') div 1036324 = o1" using r' by simp
      then show "same_hole inode 3 cur ?n (?base + o1 * 1036324 + r')"
        using hole_dindirect(2) [of "o1 * 1036324 + r'" inode] assms(3,4) r' 2
        by (simp add: add.assoc)
    qed (use assms 2 in \<open>auto simp: get_next_page_offset_def\<close>)
  next
    case 3
    show ?thesis
    proof (rule hole_range [where u = 1018 and base = ?base and q = "o1 * 1018 + o2" and r = b])
      fix r' :: int assume r': "0 \<le> r'" "r' < 1018"
      let ?r = "(o1 * 1018 + o2) * 1018 + r'"
      have "?r div 1018 = o1 * 1018 + o2" using r' by simp
      moreover have "?r div 1036324 = o1" using r' assms(5,6) by (simp add: algebra_simps)
      ultimately show "same_hole inode 3 cur ?n (?base + (o1 * 1018 + o2) * 1018 + r')"
        using hole_dindirect(3) [of ?r inode] assms(3-6) r' 3 by (simp add: add.assoc)
    qed (use assms 3 in \<open>auto simp: get_next_page_offset_def\<close>)
  qed
qed

lemma get_next_page_offset_hole:
  assumes "get_node_path inode pgofs = Inr (level, off, noff)" "0 < cur" "cur \<le> level"
  shows "\<exists>e. get_next_page_offset inode (int cur) (int level) pgofs = Some e \<and> pgofs < e \<and>
     (\<forall>b. pgofs \<le> b \<and> b < e \<longrightarrow> same_hole inode level cur (noff ! cur) b)"
  using assms(1)
proof (cases rule: get_node_path_cases)
  case inode
  with assms show ?thesis by simp
next
  case (direct k b)
  with assms have cur: "cur = 1" by simp
  show ?thesis
  proof (rule hole_range [where u = 1018 and base = "addrs_per_inode inode" and q = k and r = b])
    fix r' :: int assume "0 \<le> r'" "r' < 1018"
    then show "same_hole inode level cur (noff ! cur) (addrs_per_inode inode + k * 1018 + r')"
      using hole_direct [of k r' inode] direct cur by simp
  qed (use direct cur in \<open>auto simp: get_next_page_offset_def\<close>)
next
  case (indirect k o1 b)
  with assms have "cur = 1 \<or> cur = 2" by auto
  from next_indirect [OF this indirect(1-5), of inode] indirect show ?thesis by simp
next
  case (dindirect o1 o2 b)
  with assms have "cur = 1 \<or> cur = 2 \<or> cur = 3" by auto
  from next_dindirect [OF this dindirect(1-6), of inode] dindirect show ?thesis by simp
qed

text \<open>
  Stepping over a hole is exact. When the path of \<open>pgofs\<close> stops at a missing node of
  level \<open>cur\<close>, \<^verbatim>\<open>get_next_page_offset\<close> gives an index after \<open>pgofs\<close> such that every block index
  skipped on the way lies below the same missing node: no block outside the hole is skipped.
\<close>

theorem get_next_page_offset_exact:
  assumes "get_node_path inode pgofs = Inr (level, off, noff)" "0 < cur" "cur \<le> level"
  shows "\<exists>e. get_next_page_offset inode (int cur) (int level) pgofs = Some e \<and> pgofs < e \<and>
     (\<forall>b. pgofs \<le> b \<and> b < e \<longrightarrow>
       (\<exists>off' noff'. get_node_path inode b = Inr (level, off', noff') \<and> noff' ! cur = noff ! cur))"
  using get_next_page_offset_hole [OF assms] unfolding same_hole_def .

theorem get_next_page_offset_exact_witness:
  "\<exists>e. get_next_page_offset \<lparr>i_extra_isize = 0, i_inline_xattr_size = 50\<rparr> (int 1) (int 2) 3000 = Some e \<and> 3000 < e"
proof -
  have "get_node_path \<lparr>i_extra_isize = 0, i_inline_xattr_size = 50\<rparr> 3000 = Inr (2, [926, 0, 91], [0, 3, 4])"
    by (simp add: get_node_path_def Let_def addrs_per_inode_def get_extra_isize_def get_inline_xattr_addrs_def)
  from get_next_page_offset_exact [OF this, of 1] show ?thesis by auto
qed

section \<open>Footers\<close>

lemma OFFSET_BIT_MASK_bit: "bit OFFSET_BIT_MASK n \<longleftrightarrow> n < 3"
proof -
  have "OFFSET_BIT_MASK = mask 3" by (simp add: OFFSET_BIT_MASK_def mask_eq_exp_minus_1)
  then have "bit OFFSET_BIT_MASK n = bit (mask 3 :: u32) n" by (rule arg_cong)
  also have "\<dots> \<longleftrightarrow> n < 3" unfolding bit_mask_iff by auto
  finally show ?thesis .
qed

lemma is_node_bit: "type < 32 \<Longrightarrow> is_node ft type = bit (f_flag ft) type"
  by (simp add: is_node_def push_bit_eq_mult and_exp_eq_0_iff_not_bit)

text \<open>
  The flag word of a node footer holds the node offset and the cold, fsync and dentry
  marks side by side: \<^verbatim>\<open>ofs_of_node\<close> reads back the offset that \<^verbatim>\<open>fill_node_footer\<close> stored (any
  offset below \<open>2^29\<close>), the marks survive a fill that does not reset, and setting or clearing a mark
  changes neither the offset nor another mark.
\<close>

theorem node_footer_fields:
  assumes "uint ofs < 2 ^ 29" and "type < 3" and "type' < 3"
  shows "ofs_of_node (fill_node_footer ft nid ino ofs reset) = ofs \<and>
    (is_node (fill_node_footer ft nid ino ofs False) type = is_node ft type) \<and>
    \<not> is_node (fill_node_footer ft nid ino ofs True) type \<and>
    ofs_of_node (set_mark ft mark type) = ofs_of_node ft \<and>
    is_node (set_mark ft mark type) type' = (if type = type' then mark else is_node ft type')"
proof -
  have hi: "bit ofs n \<Longrightarrow> n < 29" for n
  proof -
    have "take_bit 29 (uint ofs) = uint ofs" using assms(1) by (simp add: take_bit_int_eq_self)
    then have "bit (uint ofs) n \<Longrightarrow> n < 29" by (metis bit_take_bit_iff)
    then show "bit ofs n \<Longrightarrow> n < 29" by (auto simp: bit_uint_iff dest: bit_imp_le_length)
  qed
  have "ofs_of_node (fill_node_footer ft nid ino ofs reset) = ofs"
    using hi by (intro bit_word_eqI)
      (auto simp: ofs_of_node_def fill_node_footer_def Let_def bit_simps OFFSET_BIT_MASK_bit zero_footer_def)
  moreover have "ofs_of_node (set_mark ft mark type) = ofs_of_node ft"
    using assms(2) by (intro bit_word_eqI) (auto simp: ofs_of_node_def set_mark_def bit_simps dest: bit_imp_le_length)
  ultimately show ?thesis
    using assms(2,3)
    by (auto simp: is_node_bit fill_node_footer_def Let_def bit_simps OFFSET_BIT_MASK_bit set_mark_def)
qed

theorem node_footer_fields_witness:
  "ofs_of_node (fill_node_footer zero_footer 7 5 1022 False) = 1022 \<and>
   is_node (set_mark zero_footer True FSYNC_BIT_SHIFT) FSYNC_BIT_SHIFT"
  using node_footer_fields [of 1022 FSYNC_BIT_SHIFT FSYNC_BIT_SHIFT zero_footer 7 5 False True] by simp

end
