(* ===== verification/Rb_Tree.thy ===== *)
theory Rb_Tree
  imports F2fs_Prelude "HOL-Library.Tree"
begin

text \<open>
  Searching the red-black trees of intervals (\<^verbatim>\<open>struct rb_entry\<close>) that the extent cache and the
  discard manager share: the descents of \<^verbatim>\<open>extent_cache.c\<close>. The kernel's rbtree library keeps
  the in-order sequence of a tree under rebalancing, so clients see a tree as its in-order list of
  entries, \<open>rb_next\<close> and \<open>rb_prev\<close> as the neighbours in that list, and a null child pointer, where
  a node can be linked, as the gap of the list it stands for (its number of predecessors). The
  searches are written as the descents they are, over an arbitrary tree shape, and proved equal
  to the search of the in-order list.

  Entries are of any type with an offset, a length and an address (\<open>eofs\<close>, \<open>elen\<close>, \<open>eid\<close>).
  Offsets and lengths are \<open>nat\<close>: file offsets and block addresses are below \<open>2^32\<close> with their
  ends, so the 32-bit sums \<open>ofs + len\<close> of the code do not wrap.
\<close>

section \<open>The descents\<close>

definition lookup_rb_tree_fast :: "('a \<Rightarrow> nat) \<Rightarrow> ('a \<Rightarrow> nat) \<Rightarrow> 'a option \<Rightarrow> nat \<Rightarrow> 'a option" where
  "lookup_rb_tree_fast eofs elen cached_re ofs =
     (case cached_re of
        Some re \<Rightarrow> if eofs re \<le> ofs \<and> eofs re + elen re > ofs then Some re else None
      | None \<Rightarrow> None)"

fun lookup_rb_tree_slow :: "('a \<Rightarrow> nat) \<Rightarrow> ('a \<Rightarrow> nat) \<Rightarrow> 'a tree \<Rightarrow> nat \<Rightarrow> 'a option" where
  "lookup_rb_tree_slow eofs elen Leaf ofs = None"
| "lookup_rb_tree_slow eofs elen (Node l re r) ofs =
     (if ofs < eofs re then lookup_rb_tree_slow eofs elen l ofs
      else if ofs \<ge> eofs re + elen re then lookup_rb_tree_slow eofs elen r ofs
      else Some re)"

definition lookup_rb_tree :: "('a \<Rightarrow> nat) \<Rightarrow> ('a \<Rightarrow> nat) \<Rightarrow> 'a tree \<Rightarrow> 'a option \<Rightarrow> nat \<Rightarrow> 'a option" where
  "lookup_rb_tree eofs elen root cached_re ofs =
     (case lookup_rb_tree_fast eofs elen cached_re ofs of
        None \<Rightarrow> lookup_rb_tree_slow eofs elen root ofs
      | Some re \<Rightarrow> Some re)"

text \<open>
  The null pointer a descent ends at, as the number of entries before it; \<open>before\<close> counts the
  entries left of the subtree. An entry that covers \<open>ofs\<close> is the bug of
  \<^verbatim>\<open>__lookup_rb_tree_for_insert\<close>: \<open>None\<close>.
\<close>

fun lookup_rb_tree_for_insert ::
  "('a \<Rightarrow> nat) \<Rightarrow> ('a \<Rightarrow> nat) \<Rightarrow> 'a tree \<Rightarrow> nat \<Rightarrow> nat \<Rightarrow> nat option" where
  "lookup_rb_tree_for_insert eofs elen Leaf before ofs = Some before"
| "lookup_rb_tree_for_insert eofs elen (Node l re r) before ofs =
     (if ofs < eofs re then lookup_rb_tree_for_insert eofs elen l before ofs
      else if ofs \<ge> eofs re + elen re then
        lookup_rb_tree_for_insert eofs elen r (before + size l + 1) ofs
      else None)"

text \<open>The descent of \<^verbatim>\<open>__lookup_rb_tree_ret\<close>: a hit, or the gap and the parent it ends at.\<close>

datatype 'a descent = Hit 'a | Miss nat "'a option"

fun descend_rb_tree ::
  "('a \<Rightarrow> nat) \<Rightarrow> ('a \<Rightarrow> nat) \<Rightarrow> 'a tree \<Rightarrow> nat \<Rightarrow> 'a option \<Rightarrow> nat \<Rightarrow> 'a descent" where
  "descend_rb_tree eofs elen Leaf before parent ofs = Miss before parent"
| "descend_rb_tree eofs elen (Node l re r) before parent ofs =
     (if ofs < eofs re then descend_rb_tree eofs elen l before (Some re) ofs
      else if ofs \<ge> eofs re + elen re then
        descend_rb_tree eofs elen r (before + size l + 1) (Some re) ofs
      else Hit re)"

text \<open>Neighbours of a node in the in-order sequence.\<close>

fun rb_next :: "('a \<Rightarrow> nat) \<Rightarrow> 'a list \<Rightarrow> nat \<Rightarrow> 'a option" where
  "rb_next eid (a # b # xs) i = (if eid a = i then Some b else rb_next eid (b # xs) i)"
| "rb_next eid xs i = None"

definition rb_prev :: "('a \<Rightarrow> nat) \<Rightarrow> 'a list \<Rightarrow> nat \<Rightarrow> 'a option" where
  "rb_prev eid xs i = rb_next eid (rev xs) i"

record 'a rb_lookup =
  lk_hit :: "'a option"
  lk_prev :: "'a option"
  lk_next :: "'a option"
  lk_insert :: "nat option"

definition lookup_neighbors ::
  "('a \<Rightarrow> nat) \<Rightarrow> ('a \<Rightarrow> nat) \<Rightarrow> ('a \<Rightarrow> nat) \<Rightarrow> 'a list \<Rightarrow> 'a \<Rightarrow> nat \<Rightarrow> bool \<Rightarrow> 'a rb_lookup" where
  "lookup_neighbors eofs elen eid xs re ofs force =
     \<lparr>lk_hit = Some re,
      lk_prev = (if ofs = eofs re \<or> force then rb_prev eid xs (eid re) else None),
      lk_next = (if ofs = eofs re + elen re - 1 \<or> force then rb_next eid xs (eid re) else None),
      lk_insert = None\<rparr>"

definition lookup_rb_tree_ret ::
  "('a \<Rightarrow> nat) \<Rightarrow> ('a \<Rightarrow> nat) \<Rightarrow> ('a \<Rightarrow> nat) \<Rightarrow> 'a tree \<Rightarrow> 'a option \<Rightarrow> nat \<Rightarrow> bool \<Rightarrow> 'a rb_lookup" where
  "lookup_rb_tree_ret eofs elen eid root cached_re ofs force =
     (if root = Leaf then \<lparr>lk_hit = None, lk_prev = None, lk_next = None, lk_insert = None\<rparr>
      else case lookup_rb_tree_fast eofs elen cached_re ofs of
        Some re \<Rightarrow> lookup_neighbors eofs elen eid (inorder root) re ofs force
      | None \<Rightarrow>
        (case descend_rb_tree eofs elen root 0 None ofs of
           Hit re \<Rightarrow> lookup_neighbors eofs elen eid (inorder root) re ofs force
         | Miss gap parent \<Rightarrow>
             \<lparr>lk_hit = None,
              lk_prev = (case parent of None \<Rightarrow> None
                | Some re \<Rightarrow> if ofs < eofs re then rb_prev eid (inorder root) (eid re) else Some re),
              lk_next = (case parent of None \<Rightarrow> None
                | Some re \<Rightarrow> if ofs > eofs re then rb_next eid (inorder root) (eid re) else Some re),
              lk_insert = Some gap\<rparr>))"

text \<open>The walk of \<^verbatim>\<open>__check_rb_tree_consistence\<close>.\<close>

fun check_rb_tree_consistence :: "('a \<Rightarrow> nat) \<Rightarrow> ('a \<Rightarrow> nat) \<Rightarrow> 'a list \<Rightarrow> bool" where
  "check_rb_tree_consistence eofs elen (cur # nxt # xs) =
     (if eofs cur + elen cur > eofs nxt then False else check_rb_tree_consistence eofs elen (nxt # xs))"
| "check_rb_tree_consistence eofs elen xs = True"

section \<open>The same searches on the in-order list\<close>

definition rb_sorted :: "('a \<Rightarrow> nat) \<Rightarrow> ('a \<Rightarrow> nat) \<Rightarrow> 'a list \<Rightarrow> bool" where
  "rb_sorted eofs elen xs \<longleftrightarrow>
     sorted_wrt (\<lambda>a b. eofs a + elen a \<le> eofs b) xs \<and> (\<forall>x \<in> set xs. 0 < elen x)"

definition rb_gap :: "('a \<Rightarrow> nat) \<Rightarrow> ('a \<Rightarrow> nat) \<Rightarrow> 'a list \<Rightarrow> nat \<Rightarrow> nat" where
  "rb_gap eofs elen xs ofs = length (takeWhile (\<lambda>x. eofs x + elen x \<le> ofs) xs)"

definition rb_find :: "('a \<Rightarrow> nat) \<Rightarrow> ('a \<Rightarrow> nat) \<Rightarrow> 'a list \<Rightarrow> nat \<Rightarrow> 'a option" where
  "rb_find eofs elen xs ofs = find (\<lambda>x. eofs x \<le> ofs \<and> ofs < eofs x + elen x) xs"

definition rb_pred :: "'a list \<Rightarrow> nat \<Rightarrow> 'a option" where
  "rb_pred xs g = (if 0 < g \<and> g \<le> length xs then Some (xs ! (g - 1)) else None)"

definition rb_succ :: "'a list \<Rightarrow> nat \<Rightarrow> 'a option" where
  "rb_succ xs g = (if g < length xs then Some (xs ! g) else None)"

definition rb_lookup_ret ::
  "('a \<Rightarrow> nat) \<Rightarrow> ('a \<Rightarrow> nat) \<Rightarrow> ('a \<Rightarrow> nat) \<Rightarrow> 'a list \<Rightarrow> nat \<Rightarrow> bool \<Rightarrow> 'a rb_lookup" where
  "rb_lookup_ret eofs elen eid xs ofs force =
     (if xs = [] then \<lparr>lk_hit = None, lk_prev = None, lk_next = None, lk_insert = None\<rparr>
      else case rb_find eofs elen xs ofs of
        Some re \<Rightarrow> lookup_neighbors eofs elen eid xs re ofs force
      | None \<Rightarrow> let g = rb_gap eofs elen xs ofs in
          \<lparr>lk_hit = None, lk_prev = rb_pred xs g, lk_next = rb_succ xs g, lk_insert = Some g\<rparr>)"

lemma rb_sorted_append:
  "rb_sorted eofs elen (xs @ ys) \<longleftrightarrow>
     rb_sorted eofs elen xs \<and> rb_sorted eofs elen ys \<and>
     (\<forall>x \<in> set xs. \<forall>y \<in> set ys. eofs x + elen x \<le> eofs y)"
  by (auto simp: rb_sorted_def sorted_wrt_append)

lemma rb_sorted_Cons:
  "rb_sorted eofs elen (x # xs) \<longleftrightarrow>
     0 < elen x \<and> rb_sorted eofs elen xs \<and> (\<forall>y \<in> set xs. eofs x + elen x \<le> eofs y)"
  by (auto simp: rb_sorted_def)

lemma rb_sorted_Nil [simp]: "rb_sorted eofs elen []"
  by (simp add: rb_sorted_def)

lemma check_rb_tree_consistence_sorted:
  assumes "\<forall>x \<in> set xs. 0 < elen x"
  shows "check_rb_tree_consistence eofs elen xs \<longleftrightarrow> rb_sorted eofs elen xs"
  using assms
proof (induction eofs elen xs rule: check_rb_tree_consistence.induct)
  case (1 eofs elen cur nxt xs)
  show ?case
  proof (cases "eofs cur + elen cur \<le> eofs nxt")
    case True
    have "eofs cur + elen cur \<le> eofs y"
      if "\<forall>y \<in> set xs. eofs nxt + elen nxt \<le> eofs y" "y \<in> set xs" for y
      using True that by fastforce
    with True 1 show ?thesis by (auto simp: rb_sorted_Cons)
  qed (simp add: rb_sorted_Cons)
qed (auto simp: rb_sorted_Cons)

text \<open>A sorted list splits uniquely around an offset.\<close>

lemma rb_find_append_right:
  "(\<And>x. x \<in> set xs \<Longrightarrow> eofs x + elen x \<le> ofs) \<Longrightarrow>
     rb_find eofs elen (xs @ ys) ofs = rb_find eofs elen ys ofs"
  unfolding rb_find_def by (rule find_append_skip) fastforce

lemma rb_find_append_left:
  "(\<And>y. y \<in> set ys \<Longrightarrow> ofs < eofs y) \<Longrightarrow>
     rb_find eofs elen (xs @ ys) ofs = rb_find eofs elen xs ofs"
  unfolding rb_find_def by (rule find_append_stop) fastforce

lemma rb_find_none:
  assumes "\<forall>x \<in> set xs. ofs < eofs x \<or> eofs x + elen x \<le> ofs"
  shows "rb_find eofs elen xs ofs = None"
  using assms by (auto simp: rb_find_def find_None_iff)

lemma rb_gap_append_right:
  assumes "\<And>x. x \<in> set xs \<Longrightarrow> eofs x + elen x \<le> ofs"
  shows "rb_gap eofs elen (xs @ ys) ofs = length xs + rb_gap eofs elen ys ofs"
  using assms by (simp add: rb_gap_def takeWhile_append2)

lemma rb_gap_append_left:
  assumes "\<And>y. y \<in> set ys \<Longrightarrow> ofs < eofs y"
  shows "rb_gap eofs elen (xs @ ys) ofs = rb_gap eofs elen xs ofs"
proof (cases ys)
  case (Cons y zs)
  then have "ofs < eofs y" using assms by simp
  with Cons show ?thesis by (auto simp: rb_gap_def takeWhile_append takeWhile_eq_all_conv [THEN iffD2])
qed simp

lemma rb_sorted_less: "rb_sorted eofs elen (x # xs) \<Longrightarrow> y \<in> set xs \<Longrightarrow> eofs x < eofs y"
  by (fastforce simp: rb_sorted_Cons)

lemma rb_sorted_Node:
  assumes "rb_sorted eofs elen (inorder (Node l x r))"
  shows "rb_sorted eofs elen (inorder l)" "rb_sorted eofs elen (inorder r)"
    and "\<And>y. y \<in> set (inorder l) \<Longrightarrow> eofs y + elen y \<le> eofs x"
    and "\<And>y. y \<in> set (inorder r) \<Longrightarrow> eofs x + elen x \<le> eofs y"
    and "0 < elen x"
  using assms by (auto simp: rb_sorted_append rb_sorted_Cons)

lemma lookup_rb_tree_slow_inorder:
  "rb_sorted eofs elen (inorder t) \<Longrightarrow> lookup_rb_tree_slow eofs elen t ofs = rb_find eofs elen (inorder t) ofs"
proof (induction t)
  case Leaf
  then show ?case by (simp add: rb_find_def)
next
  case (Node l x r)
  note s = rb_sorted_Node [OF Node.prems]
  consider "ofs < eofs x" | "eofs x + elen x \<le> ofs" | "eofs x \<le> ofs" "ofs < eofs x + elen x" by linarith
  then show ?case
  proof cases
    case 1
    then have "rb_find eofs elen (inorder l @ x # inorder r) ofs = rb_find eofs elen (inorder l) ofs"
      using s(4) by (intro rb_find_append_left) fastforce
    with 1 Node.IH(1) [OF s(1)] show ?thesis by simp
  next
    case 2
    then have "rb_find eofs elen ((inorder l @ [x]) @ inorder r) ofs = rb_find eofs elen (inorder r) ofs"
      using s(3) by (intro rb_find_append_right) fastforce
    with 2 Node.IH(2) [OF s(2)] show ?thesis by simp
  next
    case 3
    then have "rb_find eofs elen (inorder l @ x # inorder r) ofs = rb_find eofs elen (x # inorder r) ofs"
      using s(3) by (intro rb_find_append_right) fastforce
    with 3 show ?thesis by (simp add: rb_find_def)
  qed
qed

lemma lookup_rb_tree_for_insert_inorder:
  "rb_sorted eofs elen (inorder t) \<Longrightarrow>
     lookup_rb_tree_for_insert eofs elen t before ofs =
       (if rb_find eofs elen (inorder t) ofs = None then Some (before + rb_gap eofs elen (inorder t) ofs)
        else None)"
proof (induction t arbitrary: before)
  case Leaf
  then show ?case by (simp add: rb_find_def rb_gap_def)
next
  case (Node l x r)
  note s = rb_sorted_Node [OF Node.prems]
  consider "ofs < eofs x" | "eofs x + elen x \<le> ofs" | "eofs x \<le> ofs" "ofs < eofs x + elen x" by linarith
  then show ?case
  proof cases
    case 1
    then have "ofs < eofs y" if "y \<in> set (x # inorder r)" for y using s(4) [of y] that by auto
    then have "rb_find eofs elen (inorder l @ x # inorder r) ofs = rb_find eofs elen (inorder l) ofs"
      "rb_gap eofs elen (inorder l @ x # inorder r) ofs = rb_gap eofs elen (inorder l) ofs"
      by (auto intro!: rb_find_append_left rb_gap_append_left)
    with 1 Node.IH(1) [OF s(1)] show ?thesis by simp
  next
    case 2
    then have "eofs y + elen y \<le> ofs" if "y \<in> set (inorder l @ [x])" for y using s(3) [of y] that by auto
    note rb_find_append_right [of "inorder l @ [x]" eofs elen ofs "inorder r", OF this]
      rb_gap_append_right [of "inorder l @ [x]" eofs elen ofs "inorder r", OF this]
    with 2 Node.IH(2) [OF s(2)] show ?thesis by simp
  next
    case 3
    then have "rb_find eofs elen (inorder l @ x # inorder r) ofs = rb_find eofs elen (x # inorder r) ofs"
      using s(3) by (intro rb_find_append_right) fastforce
    with 3 show ?thesis by (simp add: rb_find_def)
  qed
qed

lemma descend_rb_tree_hit:
  "rb_sorted eofs elen (inorder t) \<Longrightarrow> rb_find eofs elen (inorder t) ofs = Some x \<Longrightarrow>
     descend_rb_tree eofs elen t before parent ofs = Hit x"
  unfolding lookup_rb_tree_slow_inorder [symmetric]
  by (induction t arbitrary: before parent) (auto simp: rb_sorted_append rb_sorted_Cons split: if_splits)

text \<open>
  A descent that misses ends next to its gap: in a context \<open>A\<close> of smaller and \<open>B\<close> of larger
  entries, the parent is the entry just before or just after the gap.
\<close>

definition adjacent :: "'a list \<Rightarrow> nat \<Rightarrow> 'a option \<Rightarrow> bool" where
  "adjacent xs g p \<longleftrightarrow>
     (case p of None \<Rightarrow> xs = [] | Some q \<Rightarrow> rb_pred xs g = Some q \<or> rb_succ xs g = Some q)"

lemma descend_rb_tree_miss:
  assumes "rb_sorted eofs elen (inorder t)" "rb_find eofs elen (inorder t) ofs = None"
    and "adjacent (A @ B) (length A) parent \<or> t \<noteq> Leaf"
  shows "\<exists>p. descend_rb_tree eofs elen t (length A) parent ofs = Miss (length A + rb_gap eofs elen (inorder t) ofs) p \<and>
           adjacent (A @ inorder t @ B) (length A + rb_gap eofs elen (inorder t) ofs) p"
  using assms
proof (induction t arbitrary: A B parent)
  case Leaf
  then show ?case by (simp add: rb_gap_def)
next
  case (Node l x r)
  note s = rb_sorted_Node [OF Node.prems(1)]
  have "\<not> (eofs x \<le> ofs \<and> ofs < eofs x + elen x)"
    using Node.prems(2) by (auto simp: rb_find_def find_None_iff)
  then consider "ofs < eofs x" | "eofs x + elen x \<le> ofs" "\<not> ofs < eofs x" using s(5) by linarith
  then show ?case
  proof cases
    case 1
    then have "ofs < eofs y" if "y \<in> set (x # inorder r)" for y using s(4) [of y] that by auto
    note gap = rb_find_append_left [of "x # inorder r" ofs eofs elen "inorder l", OF this]
      rb_gap_append_left [of "x # inorder r" ofs eofs elen "inorder l", OF this]
    have "adjacent (A @ x # inorder r @ B) (length A) (Some x)"
      by (simp add: adjacent_def rb_succ_def nth_append)
    then show ?thesis
      using Node.IH(1) [OF s(1), of A "x # inorder r @ B" "Some x"] Node.prems(2) gap 1 by simp
  next
    case 2
    then have "eofs y + elen y \<le> ofs" if "y \<in> set (inorder l @ [x])" for y using s(3) [of y] that by auto
    note gap = rb_find_append_right [of "inorder l @ [x]" eofs elen ofs "inorder r", OF this]
      rb_gap_append_right [of "inorder l @ [x]" eofs elen ofs "inorder r", OF this]
    have "adjacent ((A @ inorder l @ [x]) @ B) (length (A @ inorder l @ [x])) (Some x)"
      by (simp add: adjacent_def rb_pred_def nth_append)
    then show ?thesis
      using Node.IH(2) [OF s(2), of "A @ inorder l @ [x]" B "Some x"] Node.prems(2) gap 2
      by (simp add: add.assoc)
  qed
qed

lemma rb_next_split:
  assumes "distinct (map eid (L @ x # R))"
  shows "rb_next eid (L @ x # R) (eid x) = (case R of [] \<Rightarrow> None | y # _ \<Rightarrow> Some y)"
  using assms
proof (induction L)
  case Nil
  then show ?case by (cases R) auto
next
  case (Cons a L)
  then show ?case by (cases L) (auto split: list.splits)
qed

lemma rb_prev_split:
  assumes "distinct (map eid (L @ x # R))"
  shows "rb_prev eid (L @ x # R) (eid x) = (if L = [] then None else Some (last L))"
proof -
  have d: "distinct (map eid (rev R @ x # rev L))" using assms by (auto simp: distinct_rev rev_map [symmetric])
  have "rb_prev eid (L @ x # R) (eid x) = rb_next eid (rev R @ x # rev L) (eid x)"
    by (simp add: rb_prev_def)
  also have "\<dots> = (case rev L of [] \<Rightarrow> None | y # _ \<Rightarrow> Some y)" by (rule rb_next_split [OF d])
  also have "\<dots> = (if L = [] then None else Some (last L))"
    by (cases L rule: rev_cases) auto
  finally show ?thesis .
qed

lemma rb_gap_before: "rb_pred xs (rb_gap eofs elen xs ofs) = Some q \<Longrightarrow> eofs q + elen q \<le> ofs"
proof -
  assume a: "rb_pred xs (rb_gap eofs elen xs ofs) = Some q"
  let ?g = "rb_gap eofs elen xs ofs"
  from a have g: "?g - 1 < ?g" "q = xs ! (?g - 1)"
    by (auto simp: rb_pred_def split: if_splits)
  then show ?thesis
    using takeWhile_nthD [of "?g - 1" "\<lambda>x. eofs x + elen x \<le> ofs" xs] by (simp add: rb_gap_def)
qed

lemma rb_gap_after: "rb_succ xs (rb_gap eofs elen xs ofs) = Some q \<Longrightarrow> ofs < eofs q + elen q"
  using nth_length_takeWhile [of "\<lambda>x. eofs x + elen x \<le> ofs" xs]
  by (auto simp: rb_succ_def rb_gap_def split: if_splits)

lemma rb_pred_mem: "rb_pred xs g = Some q \<Longrightarrow> q \<in> set xs"
  by (auto simp: rb_pred_def split: if_splits)

lemma rb_succ_mem: "rb_succ xs g = Some q \<Longrightarrow> q \<in> set xs"
  by (auto simp: rb_succ_def split: if_splits)

lemma rb_next_pred:
  assumes "distinct (map eid xs)" "rb_pred xs g = Some q"
  shows "rb_next eid xs (eid q) = rb_succ xs g"
proof -
  from assms(2) have g: "0 < g" "g \<le> length xs" "q = xs ! (g - 1)" by (auto simp: rb_pred_def split: if_splits)
  then have "xs = take (g - 1) xs @ q # drop g xs"
    using id_take_nth_drop [of "g - 1" xs] by simp
  moreover have "rb_succ xs g = (case drop g xs of [] \<Rightarrow> None | y # _ \<Rightarrow> Some y)"
    by (cases "g < length xs") (auto simp: rb_succ_def Cons_nth_drop_Suc [symmetric])
  ultimately show ?thesis
    using rb_next_split [of eid "take (g - 1) xs" q "drop g xs"] assms(1) by simp
qed

lemma rb_prev_succ:
  assumes "distinct (map eid xs)" "rb_succ xs g = Some q"
  shows "rb_prev eid xs (eid q) = rb_pred xs g"
proof -
  from assms(2) have g: "g < length xs" "q = xs ! g" by (auto simp: rb_succ_def split: if_splits)
  then have "xs = take g xs @ q # drop (Suc g) xs" by (metis id_take_nth_drop)
  moreover have "take g xs \<noteq> [] \<Longrightarrow> last (take g xs) = xs ! (g - 1)"
    using g(1) by (subst last_conv_nth) auto
  ultimately show ?thesis
    using rb_prev_split [of eid "take g xs" q "drop (Suc g) xs"] assms(1) g(1)
    by (auto simp: rb_pred_def)
qed

lemma rb_find_unique:
  assumes "rb_sorted eofs elen xs" "x \<in> set xs" "eofs x \<le> ofs" "ofs < eofs x + elen x"
  shows "rb_find eofs elen xs ofs = Some x"
proof -
  obtain L R where xs: "xs = L @ x # R" using assms(2) by (auto simp: in_set_conv_decomp)
  have "rb_find eofs elen (L @ x # R) ofs = rb_find eofs elen (x # R) ofs"
    using assms(1,3) unfolding xs by (intro rb_find_append_right) (fastforce simp: rb_sorted_append)
  with assms(3,4) show ?thesis by (simp add: xs rb_find_def)
qed

text \<open>
  Property C28. The searches of the interval trees find what they should, whatever shape the
  red-black tree has. On a tree whose entries are sorted, non-empty and do not overlap, with
  a cached entry (if any) that is in the tree: \<^verbatim>\<open>__lookup_rb_tree\<close> finds the entry that covers the
  offset if there is one; \<^verbatim>\<open>__lookup_rb_tree_for_insert\<close> finds the gap that keeps the order and never
  reaches its bug branch for an uncovered offset; \<^verbatim>\<open>__lookup_rb_tree_ret\<close> finds the covering entry
  with its neighbours, or the gap and the entries just before and after it.
\<close>

theorem rb_tree_searches:
  assumes "rb_sorted eofs elen (inorder t)" and "distinct (map eid (inorder t))"
    and "\<forall>c. cached = Some c \<longrightarrow> c \<in> set (inorder t)"
  shows "lookup_rb_tree eofs elen t cached ofs = rb_find eofs elen (inorder t) ofs \<and>
    lookup_rb_tree_for_insert eofs elen t 0 ofs =
      (if rb_find eofs elen (inorder t) ofs = None then Some (rb_gap eofs elen (inorder t) ofs) else None) \<and>
    lookup_rb_tree_ret eofs elen eid t cached ofs force = rb_lookup_ret eofs elen eid (inorder t) ofs force"
proof (intro conjI)
  have fast: "lookup_rb_tree_fast eofs elen cached ofs = Some re \<Longrightarrow> rb_find eofs elen (inorder t) ofs = Some re" for re
    using assms(3) rb_find_unique [OF assms(1)]
    by (auto simp: lookup_rb_tree_fast_def split: option.splits if_splits)
  then show "lookup_rb_tree eofs elen t cached ofs = rb_find eofs elen (inorder t) ofs"
    using lookup_rb_tree_slow_inorder [OF assms(1)] by (auto simp: lookup_rb_tree_def split: option.splits)
  show "lookup_rb_tree_for_insert eofs elen t 0 ofs =
      (if rb_find eofs elen (inorder t) ofs = None then Some (rb_gap eofs elen (inorder t) ofs) else None)"
    using lookup_rb_tree_for_insert_inorder [OF assms(1)] by simp
  show "lookup_rb_tree_ret eofs elen eid t cached ofs force = rb_lookup_ret eofs elen eid (inorder t) ofs force"
  proof (cases "t = Leaf \<or> rb_find eofs elen (inorder t) ofs \<noteq> None")
    case True
    then show ?thesis
      using fast descend_rb_tree_hit [OF assms(1)]
      by (auto simp: lookup_rb_tree_ret_def rb_lookup_ret_def split: option.splits)
  next
    case False
    let ?xs = "inorder t" and ?g = "rb_gap eofs elen (inorder t) ofs"
    have none: "rb_find eofs elen ?xs ofs = None" "?xs \<noteq> []" "t \<noteq> Leaf" using False by auto
    then have nofast: "lookup_rb_tree_fast eofs elen cached ofs = None" using fast by (cases "lookup_rb_tree_fast eofs elen cached ofs") auto
    obtain q where q: "descend_rb_tree eofs elen t 0 None ofs = Miss ?g (Some q)"
      "rb_pred ?xs ?g = Some q \<or> rb_succ ?xs ?g = Some q"
      using descend_rb_tree_miss [OF assms(1) none(1), of "[]" "[]" None] none(2,3)
      by (auto simp: adjacent_def split: option.splits)
    have "(if ofs < eofs q then rb_prev eid ?xs (eid q) else Some q) = rb_pred ?xs ?g \<and>
        (if ofs > eofs q then rb_next eid ?xs (eid q) else Some q) = rb_succ ?xs ?g"
      using q(2)
    proof
      assume a: "rb_pred ?xs ?g = Some q"
      then have "q \<in> set ?xs" by (rule rb_pred_mem)
      then have "eofs q < ofs" using rb_gap_before [OF a] assms(1) by (auto simp: rb_sorted_def dest!: bspec [of _ _ q])
      with a rb_next_pred [OF assms(2) a] show ?thesis by simp
    next
      assume a: "rb_succ ?xs ?g = Some q"
      then have "q \<in> set ?xs" by (rule rb_succ_mem)
      then have "ofs < eofs q" using rb_gap_after [OF a] none(1) unfolding rb_find_def find_None_iff
        by (meson linorder_not_le)
      with a rb_prev_succ [OF assms(2) a] show ?thesis by simp
    qed
    with q(1) none nofast show ?thesis by (simp add: lookup_rb_tree_ret_def rb_lookup_ret_def Let_def)
  qed
qed

theorem rb_tree_searches_witness:
  "lookup_rb_tree fst snd (Node (Node Leaf (10::nat, 5::nat) Leaf) (20, 10) Leaf) None 12 = Some (10, 5)"
proof -
  let ?t = "Node (Node Leaf (10::nat, 5::nat) Leaf) (20, 10) Leaf"
  have "lookup_rb_tree fst snd ?t None 12 = rb_find fst snd (inorder ?t) 12"
    using rb_tree_searches [of fst snd ?t fst None 12 False] by (simp add: rb_sorted_Cons)
  then show ?thesis by (simp add: rb_find_def)
qed

end
