(* ===== verification/Extent_Cache.thy ===== *)
theory Extent_Cache
  imports Rb_Tree
begin

text \<open>
  The extent cache of \<^verbatim>\<open>extent_cache.c\<close>: for each file a tree of extents (runs of file blocks
  that lie in consecutive device blocks), the largest extent, and one LRU list of all extent
  nodes. The state is that of one inode's tree with the shared list and counters; the tree is its
  in-order list of nodes (see \<open>Rb_Tree\<close>), node pointers are the addresses \<open>en_addr\<close>. Slab
  allocation may fail: \<open>alloc_ok\<close> says which allocation succeeds. A failed \<^verbatim>\<open>f2fs_bug_on\<close>
  sets \<open>need_fsck\<close>. Locks, tracepoints and hit statistics are not modelled.

  Main results: every operation keeps the tree sorted and its counters right, no assertion
  fires, the update loop ends, and the cache only ever holds mappings the file really has.
\<close>

section \<open>Data\<close>

record extent_info =
  ei_fofs :: nat
  ei_len :: nat
  ei_blk :: nat

record extent_node =
  en_addr :: nat
  en_ei :: extent_info

record extent_st =
  et_present :: bool
  et_root :: "extent_node list"
  et_cached :: "nat option"
  et_largest :: extent_info
  et_node_cnt :: int
  total_ext_node :: int
  extent_list :: "nat list"
  fi_no_extent :: bool
  inode_dirty :: bool
  need_fsck :: bool
  slab_next :: nat

abbreviation en_ofs :: "extent_node \<Rightarrow> nat" where "en_ofs n \<equiv> ei_fofs (en_ei n)"
abbreviation en_len :: "extent_node \<Rightarrow> nat" where "en_len n \<equiv> ei_len (en_ei n)"

definition F2FS_MIN_EXTENT_LEN :: nat where "F2FS_MIN_EXTENT_LEN = 64"
definition UINT_MAX :: nat where "UINT_MAX = 2 ^ 32 - 1"

definition set_extent_info :: "nat \<Rightarrow> nat \<Rightarrow> nat \<Rightarrow> extent_info" where
  "set_extent_info fofs blk len = \<lparr>ei_fofs = fofs, ei_len = len, ei_blk = blk\<rparr>"

definition is_extent_mergeable :: "extent_info \<Rightarrow> extent_info \<Rightarrow> bool" where
  "is_extent_mergeable back front \<longleftrightarrow>
     ei_fofs back + ei_len back = ei_fofs front \<and> ei_blk back + ei_len back = ei_blk front"

definition is_back_mergeable :: "extent_info \<Rightarrow> extent_info \<Rightarrow> bool" where
  "is_back_mergeable cur back = is_extent_mergeable back cur"

definition is_front_mergeable :: "extent_info \<Rightarrow> extent_info \<Rightarrow> bool" where
  "is_front_mergeable cur front = is_extent_mergeable cur front"

definition f2fs_bug_on :: "bool \<Rightarrow> extent_st \<Rightarrow> extent_st" where
  "f2fs_bug_on b st = (if b then st\<lparr>need_fsck := True\<rparr> else st)"

definition try_update_largest_extent :: "extent_st \<Rightarrow> extent_info \<Rightarrow> extent_st" where
  "try_update_largest_extent st ei =
     (if ei_len ei > ei_len (et_largest st) then st\<lparr>et_largest := ei, inode_dirty := True\<rparr> else st)"

text \<open>Dereferencing and updating a node through its address.\<close>

definition node_at :: "extent_st \<Rightarrow> nat option \<Rightarrow> extent_node option" where
  "node_at st p = Option.bind p (\<lambda>a. find (\<lambda>n. en_addr n = a) (et_root st))"

definition upd_en :: "nat \<Rightarrow> (extent_info \<Rightarrow> extent_info) \<Rightarrow> extent_st \<Rightarrow> extent_st" where
  "upd_en a f st =
     st\<lparr>et_root := map (\<lambda>n. if en_addr n = a then n\<lparr>en_ei := f (en_ei n)\<rparr> else n) (et_root st)\<rparr>"

section \<open>Nodes\<close>

definition attach_extent_node ::
  "(nat \<Rightarrow> bool) \<Rightarrow> extent_st \<Rightarrow> extent_info \<Rightarrow> nat \<Rightarrow> extent_st \<times> nat option" where
  "attach_extent_node alloc_ok st ei gap =
     (let a = slab_next st; st = st\<lparr>slab_next := Suc a\<rparr> in
      if \<not> alloc_ok a then (st, None)
      else (st\<lparr>et_root := take gap (et_root st) @ \<lparr>en_addr = a, en_ei = ei\<rparr> # drop gap (et_root st),
               et_node_cnt := et_node_cnt st + 1, total_ext_node := total_ext_node st + 1\<rparr>, Some a))"

definition detach_extent_node :: "extent_st \<Rightarrow> nat \<Rightarrow> extent_st" where
  "detach_extent_node st a =
     st\<lparr>et_root := filter (\<lambda>n. en_addr n \<noteq> a) (et_root st),
        et_node_cnt := et_node_cnt st - 1, total_ext_node := total_ext_node st - 1,
        et_cached := (if et_cached st = Some a then None else et_cached st)\<rparr>"

definition release_extent_node :: "extent_st \<Rightarrow> nat \<Rightarrow> extent_st" where
  "release_extent_node st a =
     (let st = f2fs_bug_on (a \<notin> set (extent_list st)) st;
          st = st\<lparr>extent_list := removeAll a (extent_list st)\<rparr>
      in detach_extent_node st a)"

definition init_extent_tree ::
  "(nat \<Rightarrow> bool) \<Rightarrow> extent_st \<Rightarrow> extent_info \<Rightarrow> extent_st \<times> nat option" where
  "init_extent_tree alloc_ok st ei =
     (case attach_extent_node alloc_ok st ei 0 of
        (st, None) \<Rightarrow> (st, None)
      | (st, Some a) \<Rightarrow> (st\<lparr>et_largest := ei, et_cached := Some a\<rparr>, Some a))"

text \<open>The loop from \<^verbatim>\<open>rb_first\<close> along \<^verbatim>\<open>rb_next\<close>, fetching the next node before releasing.\<close>

definition free_extent_tree :: "extent_st \<Rightarrow> extent_st \<times> int" where
  "free_extent_tree st =
     (let count = et_node_cnt st;
          st = fold (\<lambda>n st. release_extent_node st (en_addr n)) (et_root st) st
      in (st, count - et_node_cnt st))"

definition drop_largest_extent :: "extent_st \<Rightarrow> nat \<Rightarrow> nat \<Rightarrow> extent_st" where
  "drop_largest_extent st fofs len =
     (let largest = et_largest st in
      if fofs < ei_fofs largest + ei_len largest \<and> fofs + len > ei_fofs largest
      then st\<lparr>et_largest := largest\<lparr>ei_len := 0\<rparr>, inode_dirty := True\<rparr> else st)"

section \<open>Setting up and looking up\<close>

text \<open>
  \<^verbatim>\<open>__f2fs_init_extent_tree\<close>: \<open>may\<close> is \<^verbatim>\<open>f2fs_may_extent_tree\<close>, \<open>i_ext\<close> the extent stored in the
  on-disk inode. The tree grabbed for the inode is the one of the state (empty when it is new). The
  result also gives the stored extent, whose length is cleared when the cache may not be used, and
  whether the inode page changed.
\<close>

definition f2fs_init_extent_tree ::
  "(nat \<Rightarrow> bool) \<Rightarrow> bool \<Rightarrow> extent_st \<Rightarrow> extent_info option \<Rightarrow> extent_st \<times> extent_info option \<times> bool" where
  "f2fs_init_extent_tree alloc_ok may st i_ext =
     (let (st, i_ext, ret) =
       (if \<not> may then
          (case i_ext of
             Some ext \<Rightarrow> if ei_len ext \<noteq> 0 then (st, Some (ext\<lparr>ei_len := 0\<rparr>), True) else (st, i_ext, False)
           | None \<Rightarrow> (st, i_ext, False))
        else
          let st = st\<lparr>et_present := True\<rparr> in
          (case i_ext of
             None \<Rightarrow> (st, i_ext, False)
           | Some ext \<Rightarrow>
               if ei_len ext = 0 then (st, i_ext, False)
               else if et_node_cnt st \<noteq> 0 then (st, i_ext, False)
               else
                 (case init_extent_tree alloc_ok st ext of
                    (st, None) \<Rightarrow> (st, i_ext, False)
                  | (st, Some a) \<Rightarrow> (st\<lparr>extent_list := extent_list st @ [a]\<rparr>, i_ext, False))))
      in (if \<not> et_present st then st\<lparr>fi_no_extent := True\<rparr> else st, i_ext, ret))"

text \<open>\<^verbatim>\<open>list_move_tail\<close> on the LRU list, done only for a node that is on it.\<close>

definition touch_extent_node :: "extent_st \<Rightarrow> nat \<Rightarrow> extent_st" where
  "touch_extent_node st a =
     (if a \<in> set (extent_list st)
      then st\<lparr>extent_list := removeAll a (extent_list st) @ [a], et_cached := Some a\<rparr> else st)"

definition f2fs_lookup_extent_tree :: "extent_st \<Rightarrow> nat \<Rightarrow> extent_st \<times> extent_info option" where
  "f2fs_lookup_extent_tree st pgofs =
     (let st = f2fs_bug_on (\<not> et_present st) st; largest = et_largest st in
      if ei_fofs largest \<le> pgofs \<and> ei_fofs largest + ei_len largest > pgofs then (st, Some largest)
      else case rb_find en_ofs en_len (et_root st) pgofs of
        None \<Rightarrow> (st, None)
      | Some en \<Rightarrow> (touch_extent_node st (en_addr en), Some (en_ei en)))"

section \<open>Inserting and merging\<close>

text \<open>\<^verbatim>\<open>__try_merge_extent_node\<close> in its two steps: growing the node before, then the node after.\<close>

definition merge_prev ::
  "extent_st \<Rightarrow> extent_info \<Rightarrow> nat option \<Rightarrow> extent_st \<times> extent_info \<times> nat option" where
  "merge_prev st ei prev_ex =
     (case node_at st prev_ex of
        Some p \<Rightarrow>
          if is_back_mergeable ei (en_ei p) then
            let ei' = (en_ei p)\<lparr>ei_len := ei_len (en_ei p) + ei_len ei\<rparr>
            in (upd_en (en_addr p) (\<lambda>_. ei') st, ei', Some (en_addr p))
          else (st, ei, None)
      | None \<Rightarrow> (st, ei, None))"

definition merge_next ::
  "extent_st \<Rightarrow> extent_info \<Rightarrow> nat option \<Rightarrow> nat option \<Rightarrow> extent_st \<times> nat option" where
  "merge_next st ei en next_ex =
     (case node_at st next_ex of
        Some n \<Rightarrow>
          if is_front_mergeable ei (en_ei n) then
            let st = upd_en (en_addr n)
                       (\<lambda>e. \<lparr>ei_fofs = ei_fofs ei, ei_len = ei_len e + ei_len ei, ei_blk = ei_blk ei\<rparr>) st;
                st = (case en of Some a \<Rightarrow> release_extent_node st a | None \<Rightarrow> st)
            in (st, Some (en_addr n))
          else (st, en)
      | None \<Rightarrow> (st, en))"

definition try_merge_extent_node ::
  "extent_st \<Rightarrow> extent_info \<Rightarrow> nat option \<Rightarrow> nat option \<Rightarrow> extent_st \<times> nat option" where
  "try_merge_extent_node st ei prev_ex next_ex =
     (let (st, ei, en) = merge_prev st ei prev_ex;
          (st, en) = merge_next st ei en next_ex
      in case node_at st en of
           None \<Rightarrow> (st, None)
         | Some n \<Rightarrow>
             (touch_extent_node (try_update_largest_extent st (en_ei n)) (en_addr n), Some (en_addr n)))"

definition insert_extent_tree ::
  "(nat \<Rightarrow> bool) \<Rightarrow> extent_st \<Rightarrow> extent_info \<Rightarrow> nat option \<Rightarrow> extent_st \<times> nat option" where
  "insert_extent_tree alloc_ok st ei insert_p =
     (let gap =
        (case insert_p of
           Some g \<Rightarrow> Some g
         | None \<Rightarrow> if rb_find en_ofs en_len (et_root st) (ei_fofs ei) = None
                   then Some (rb_gap en_ofs en_len (et_root st) (ei_fofs ei)) else None)
      in case gap of
           None \<Rightarrow> (f2fs_bug_on True st, None)
         | Some g \<Rightarrow>
             (case attach_extent_node alloc_ok st ei g of
                (st, None) \<Rightarrow> (st, None)
              | (st, Some a) \<Rightarrow>
                  let st = try_update_largest_extent st ei
                  in (st\<lparr>extent_list := extent_list st @ [a], et_cached := Some a\<rparr>, Some a)))"

section \<open>Updating a range\<close>

text \<open>The variables of \<^verbatim>\<open>f2fs_update_extent_tree_range\<close> that its loop changes.\<close>

record ext_loop =
  l_st :: extent_st
  l_en :: "nat option"
  l_prev :: "nat option"
  l_next :: "nat option"
  l_dei :: extent_info
  l_insert :: "nat option"

definition ext_update_step :: "(nat \<Rightarrow> bool) \<Rightarrow> nat \<Rightarrow> nat \<Rightarrow> extent_node \<Rightarrow> ext_loop \<Rightarrow> ext_loop" where
  "ext_update_step alloc_ok pos end n s =
     (let a = en_addr n; dei = en_ei n; org_end = ei_fofs dei + ei_len dei;
          st = f2fs_bug_on (pos \<ge> org_end) (l_st s);
          (st, prev, parts) =
            (if pos > ei_fofs dei \<and> pos - ei_fofs dei \<ge> F2FS_MIN_EXTENT_LEN
             then (upd_en a (\<lambda>e. e\<lparr>ei_len := pos - ei_fofs e\<rparr>) st, Some a, 1)
             else (st, l_prev s, 0::nat));
          (st, nxt, parts) =
            (if end < org_end \<and> org_end - end \<ge> F2FS_MIN_EXTENT_LEN
             then (if parts \<noteq> 0
                   then (case insert_extent_tree alloc_ok st
                                (set_extent_info end (end - ei_fofs dei + ei_blk dei) (org_end - end)) None
                         of (st, en1) \<Rightarrow> (st, en1, parts + 1))
                   else (upd_en a (\<lambda>e. \<lparr>ei_fofs = end, ei_len = ei_len e - (end - ei_fofs dei),
                                        ei_blk = ei_blk e + (end - ei_fofs dei)\<rparr>) st, Some a, parts + 1))
             else (st, None, parts));
          nxt = (if nxt = None then map_option en_addr (rb_next en_addr (et_root st) a) else nxt);
          st = (if parts \<noteq> 0
                then (case node_at st (Some a) of
                        Some n' \<Rightarrow> try_update_largest_extent st (en_ei n') | None \<Rightarrow> st)
                else release_extent_node st a)
      in \<lparr>l_st = st, l_en = nxt, l_prev = prev, l_next = nxt, l_dei = dei,
          l_insert = (if parts \<noteq> 1 then None else l_insert s)\<rparr>)"

partial_function (option) ext_update_loop ::
  "(nat \<Rightarrow> bool) \<Rightarrow> nat \<Rightarrow> nat \<Rightarrow> ext_loop \<Rightarrow> ext_loop option" where
  "ext_update_loop alloc_ok pos end s =
     (case node_at (l_st s) (l_en s) of
        None \<Rightarrow> Some s
      | Some n \<Rightarrow> if en_ofs n < end
                  then ext_update_loop alloc_ok pos end (ext_update_step alloc_ok pos end n s)
                  else Some s)"

declare ext_update_loop.simps [code]

definition ext_update_init :: "extent_st \<Rightarrow> nat \<Rightarrow> ext_loop" where
  "ext_update_init st fofs =
     (let lk = rb_lookup_ret en_ofs en_len en_addr (et_root st) fofs False;
          nxt = map_option en_addr (lk_next lk);
          en = (case lk_hit lk of Some n \<Rightarrow> Some (en_addr n) | None \<Rightarrow> nxt)
      in \<lparr>l_st = st, l_en = en, l_prev = map_option en_addr (lk_prev lk), l_next = nxt,
          l_dei = \<lparr>ei_fofs = 0, ei_len = 0, ei_blk = 0\<rparr>, l_insert = lk_insert lk\<rparr>)"

text \<open>Step 3 of the function: store the new extent, and give up on a file that is too fragmented.\<close>

definition ext_update_store ::
  "(nat \<Rightarrow> bool) \<Rightarrow> ext_loop \<Rightarrow> extent_info \<Rightarrow> nat \<Rightarrow> nat \<Rightarrow> nat \<Rightarrow> extent_st" where
  "ext_update_store alloc_ok s prev fofs blkaddr len =
     (let ei = set_extent_info fofs blkaddr len;
          st = (case try_merge_extent_node (l_st s) ei (l_prev s) (l_next s) of
                  (st, Some _) \<Rightarrow> st
                | (st, None) \<Rightarrow> fst (insert_extent_tree alloc_ok st ei (l_insert s)))
      in if ei_len (l_dei s) \<ge> 1 \<and> ei_len prev < F2FS_MIN_EXTENT_LEN \<and>
            ei_len (et_largest st) < F2FS_MIN_EXTENT_LEN
         then (drop_largest_extent st 0 UINT_MAX)\<lparr>fi_no_extent := True\<rparr>
         else st)"

definition f2fs_update_extent_tree_range ::
  "(nat \<Rightarrow> bool) \<Rightarrow> extent_st \<Rightarrow> nat \<Rightarrow> nat \<Rightarrow> nat \<Rightarrow> extent_st option" where
  "f2fs_update_extent_tree_range alloc_ok st fofs blkaddr len =
     (if \<not> et_present st then Some st
      else if fi_no_extent st then Some st
      else
        let prev = et_largest st;
            st = drop_largest_extent st fofs len
        in case ext_update_loop alloc_ok fofs (fofs + len) (ext_update_init st fofs) of
             None \<Rightarrow> None
           | Some s \<Rightarrow>
               let st = (if blkaddr \<noteq> 0 then ext_update_store alloc_ok s prev fofs blkaddr len else l_st s)
               in Some (if fi_no_extent st then fst (free_extent_tree st) else st))"

section \<open>Tearing down\<close>

definition f2fs_destroy_extent_node :: "extent_st \<Rightarrow> extent_st \<times> int" where
  "f2fs_destroy_extent_node st =
     (if \<not> et_present st \<or> et_node_cnt st = 0 then (st, 0) else free_extent_tree st)"

text \<open>The function dereferences the tree without a check: \<open>None\<close> is the null dereference.\<close>

definition f2fs_drop_extent_tree :: "extent_st \<Rightarrow> extent_st option" where
  "f2fs_drop_extent_tree st =
     (let st = st\<lparr>fi_no_extent := True\<rparr> in
      if \<not> et_present st then None
      else Some (drop_largest_extent (fst (free_extent_tree st)) 0 UINT_MAX))"

text \<open>
  \<^verbatim>\<open>f2fs_destroy_extent_tree\<close>: a tree of a live inode that still has nodes is only put on the zombie
  list (second component), otherwise it is freed.
\<close>

definition f2fs_destroy_extent_tree :: "extent_st \<Rightarrow> nat \<Rightarrow> bool \<Rightarrow> extent_st \<times> bool" where
  "f2fs_destroy_extent_tree st i_nlink is_bad_inode =
     (if \<not> et_present st then (st, False)
      else if i_nlink \<noteq> 0 \<and> \<not> is_bad_inode \<and> et_node_cnt st \<noteq> 0 then (st, True)
      else let st = fst (f2fs_destroy_extent_node st);
               st = f2fs_bug_on (et_node_cnt st \<noteq> 0) st
           in (st\<lparr>et_present := False\<rparr>, False))"

section \<open>The interface of the cache\<close>

text \<open>\<open>opt\<close> is the mount option \<^verbatim>\<open>EXTENT_CACHE\<close>, \<open>reg\<close> says that the inode is a regular file.\<close>

definition f2fs_may_extent_tree :: "bool \<Rightarrow> bool \<Rightarrow> extent_st \<Rightarrow> bool" where
  "f2fs_may_extent_tree opt reg st = (if \<not> opt \<or> fi_no_extent st then False else reg)"

definition f2fs_lookup_extent_cache :: "bool \<Rightarrow> bool \<Rightarrow> extent_st \<Rightarrow> nat \<Rightarrow> extent_st \<times> extent_info option" where
  "f2fs_lookup_extent_cache opt reg st pgofs =
     (if \<not> f2fs_may_extent_tree opt reg st then (st, None) else f2fs_lookup_extent_tree st pgofs)"

text \<open>\<^verbatim>\<open>fofs\<close> is the file offset of the node's slot, computed by \<open>start_bidx_of_node\<close> plus \<^verbatim>\<open>ofs_in_node\<close>.\<close>

definition f2fs_update_extent_cache ::
  "(nat \<Rightarrow> bool) \<Rightarrow> bool \<Rightarrow> bool \<Rightarrow> extent_st \<Rightarrow> nat \<Rightarrow> nat \<Rightarrow> extent_st option" where
  "f2fs_update_extent_cache alloc_ok opt reg st fofs data_blkaddr =
     (if \<not> f2fs_may_extent_tree opt reg st then Some st
      else f2fs_update_extent_tree_range alloc_ok st fofs
             (if data_blkaddr = NEW_ADDR then 0 else data_blkaddr) 1)"

definition f2fs_update_extent_cache_range ::
  "(nat \<Rightarrow> bool) \<Rightarrow> bool \<Rightarrow> bool \<Rightarrow> extent_st \<Rightarrow> nat \<Rightarrow> nat \<Rightarrow> nat \<Rightarrow> extent_st option" where
  "f2fs_update_extent_cache_range alloc_ok opt reg st fofs blkaddr len =
     (if \<not> f2fs_may_extent_tree opt reg st then Some st
      else f2fs_update_extent_tree_range alloc_ok st fofs blkaddr len)"

section \<open>Invariants\<close>

text \<open>Bookkeeping: everything that does not depend on the extents themselves.\<close>

definition ext_base :: "extent_st \<Rightarrow> bool" where
  "ext_base st \<longleftrightarrow>
     distinct (map en_addr (et_root st)) \<and>
     (\<forall>n \<in> set (et_root st). en_addr n < slab_next st \<and> en_addr n \<in> set (extent_list st)) \<and>
     (\<forall>a. et_cached st = Some a \<longrightarrow> a \<in> en_addr ` set (et_root st)) \<and>
     et_node_cnt st = int (length (et_root st)) \<and> \<not> need_fsck st"

abbreviation ext_sorted :: "extent_node list \<Rightarrow> bool" where
  "ext_sorted \<equiv> rb_sorted en_ofs en_len"

text \<open>The mapping \<open>F\<close> of a file takes a block index to the device block it lives in.\<close>

definition ext_maps :: "(nat \<rightharpoonup> nat) \<Rightarrow> extent_info \<Rightarrow> bool" where
  "ext_maps F e \<longleftrightarrow> (\<forall>i < ei_len e. F (ei_fofs e + i) = Some (ei_blk e + i))"

definition ext_ok :: "(nat \<rightharpoonup> nat) \<Rightarrow> extent_st \<Rightarrow> bool" where
  "ext_ok F st \<longleftrightarrow>
     ext_base st \<and> ext_sorted (et_root st) \<and> (\<forall>n \<in> set (et_root st). ext_maps F (en_ei n)) \<and>
     ext_maps F (et_largest st)"

definition cut :: "nat \<Rightarrow> nat \<Rightarrow> (nat \<rightharpoonup> nat) \<Rightarrow> (nat \<rightharpoonup> nat)" where
  "cut a b F p = (if a \<le> p \<and> p < b then None else F p)"

definition write_range :: "(nat \<rightharpoonup> nat) \<Rightarrow> nat \<Rightarrow> nat \<Rightarrow> nat \<Rightarrow> (nat \<rightharpoonup> nat)" where
  "write_range F fofs blk len p =
     (if fofs \<le> p \<and> p < fofs + len then (if blk = 0 then None else Some (blk + (p - fofs))) else F p)"

lemma ext_maps_zero [simp]: "ei_len e = 0 \<Longrightarrow> ext_maps F e"
  by (simp add: ext_maps_def)

lemma ext_maps_cut:
  "ext_maps F e \<Longrightarrow> ei_fofs e + ei_len e \<le> a \<or> b \<le> ei_fofs e \<Longrightarrow> ext_maps (cut a b F) e"
  by (auto simp: ext_maps_def cut_def)

lemma ext_maps_write: "ext_maps (cut a (a + l) F) e \<Longrightarrow> ext_maps (write_range F a b l) e"
  unfolding ext_maps_def cut_def write_range_def by (metis option.distinct(1))

lemma ext_maps_sub:
  assumes "ext_maps F e" "ei_fofs e \<le> ei_fofs e'" "ei_fofs e' + ei_len e' \<le> ei_fofs e + ei_len e"
    and "ei_blk e' = ei_blk e + (ei_fofs e' - ei_fofs e)"
  shows "ext_maps F e'"
proof (unfold ext_maps_def, intro allI impI)
  fix i assume i: "i < ei_len e'"
  obtain d where d: "ei_fofs e' = ei_fofs e + d" using assms(2) by (auto simp: le_iff_add)
  with i assms(3) have "d + i < ei_len e" by simp
  with assms(1) have "F (ei_fofs e + (d + i)) = Some (ei_blk e + (d + i))" by (simp only: ext_maps_def)
  then show "F (ei_fofs e' + i) = Some (ei_blk e' + i)" using assms(4) d by (simp add: add.assoc)
qed

lemma ext_maps_join:
  assumes "ext_maps F e" "ext_maps F e'" "is_extent_mergeable e e'"
  shows "ext_maps F \<lparr>ei_fofs = ei_fofs e, ei_len = ei_len e + ei_len e', ei_blk = ei_blk e\<rparr>"
proof (unfold ext_maps_def, intro allI impI, simp)
  fix i assume i: "i < ei_len e + ei_len e'"
  show "F (ei_fofs e + i) = Some (ei_blk e + i)"
  proof (cases "i < ei_len e")
    case False
    then obtain j where j: "i = ei_len e + j" "j < ei_len e'" using i by (metis add_less_cancel_left le_Suc_ex not_less)
    then have "F (ei_fofs e' + j) = Some (ei_blk e' + j)" using assms(2) by (simp add: ext_maps_def)
    moreover have "ei_fofs e' = ei_fofs e + ei_len e" "ei_blk e' = ei_blk e + ei_len e"
      using assms(3) by (auto simp: is_extent_mergeable_def)
    ultimately show ?thesis using j by (simp add: add.assoc)
  qed (use assms(1) in \<open>simp add: ext_maps_def\<close>)
qed

section \<open>Operations on a node in its place\<close>

lemma find_mid:
  assumes "distinct (map en_addr (L @ n # R))"
  shows "find (\<lambda>m. en_addr m = en_addr n) (L @ n # R) = Some n"
proof -
  have "find (\<lambda>m. en_addr m = en_addr n) (L @ n # R) = find (\<lambda>m. en_addr m = en_addr n) (n # R)"
  proof (rule find_append_skip)
    fix x assume "x \<in> set L"
    moreover have "en_addr n \<notin> en_addr ` set L" using assms by simp
    ultimately show "en_addr x \<noteq> en_addr n" by (metis image_eqI)
  qed
  then show ?thesis by simp
qed

lemma node_at_mid:
  "et_root st = L @ n # R \<Longrightarrow> ext_base st \<Longrightarrow> node_at st (Some (en_addr n)) = Some n"
  using find_mid [of L n R] by (simp add: node_at_def ext_base_def)

lemma node_at_None [simp]: "node_at st None = None"
  by (simp add: node_at_def)

lemma map_mid:
  assumes "distinct (map en_addr (L @ n # R))"
  shows "map (\<lambda>m. if en_addr m = en_addr n then g m else m) (L @ n # R) = L @ g n # R"
proof -
  have "map (\<lambda>m. if en_addr m = en_addr n then g m else m) xs = xs" if "en_addr n \<notin> en_addr ` set xs" for xs
    using that by (induction xs) auto
  then show ?thesis using assms by simp
qed

lemma upd_en_root:
  "et_root st = L @ n # R \<Longrightarrow> ext_base st \<Longrightarrow>
     et_root (upd_en (en_addr n) f st) = L @ n\<lparr>en_ei := f (en_ei n)\<rparr> # R"
  using map_mid [of L n R "\<lambda>m. m\<lparr>en_ei := f (en_ei m)\<rparr>"] by (simp add: upd_en_def ext_base_def)

lemma ext_base_addrs:
  "ext_base st \<longleftrightarrow>
     (let as = map en_addr (et_root st) in
      distinct as \<and> (\<forall>a \<in> set as. a < slab_next st \<and> a \<in> set (extent_list st)) \<and>
      (\<forall>a. et_cached st = Some a \<longrightarrow> a \<in> set as) \<and> et_node_cnt st = int (length as) \<and> \<not> need_fsck st)"
  by (auto simp: ext_base_def Let_def)

lemma upd_en_base [simp]: "ext_base (upd_en a f st) = ext_base st"
proof -
  have addrs: "map en_addr (et_root (upd_en a f st)) = map en_addr (et_root st)"
    by (simp add: upd_en_def)
  show ?thesis unfolding ext_base_addrs addrs by (simp add: upd_en_def)
qed

lemma filter_mid:
  assumes "distinct (map en_addr (L @ n # R))"
  shows "filter (\<lambda>m. en_addr m \<noteq> en_addr n) (L @ n # R) = L @ R"
proof -
  have "filter (\<lambda>m. en_addr m \<noteq> en_addr n) xs = xs" if "en_addr n \<notin> en_addr ` set xs" for xs
    using that by (induction xs) auto
  from this [of L] this [of R] show ?thesis using assms by simp
qed

lemma release_root:
  "et_root st = L @ n # R \<Longrightarrow> ext_base st \<Longrightarrow> et_root (release_extent_node st (en_addr n)) = L @ R"
  using filter_mid [of L n R]
  by (simp add: release_extent_node_def detach_extent_node_def Let_def f2fs_bug_on_def ext_base_def)

lemma release_base:
  assumes "et_root st = L @ n # R" "ext_base st"
  shows "ext_base (release_extent_node st (en_addr n))"
proof -
  define A B a where "A = map en_addr L" and "B = map en_addr R" and "a = en_addr n"
  have old: "map en_addr (et_root st) = A @ a # B"
    using assms(1) by (simp add: A_def B_def a_def)
  have new: "map en_addr (et_root (release_extent_node st a)) = A @ B"
    using release_root [OF assms] by (simp add: A_def B_def a_def)
  have fields: "slab_next (release_extent_node st a) = slab_next st"
    "extent_list (release_extent_node st a) = removeAll a (extent_list st)"
    "et_cached (release_extent_node st a) = (if et_cached st = Some a then None else et_cached st)"
    "et_node_cnt (release_extent_node st a) = et_node_cnt st - 1"
    "a \<in> set (extent_list st) \<Longrightarrow> need_fsck (release_extent_node st a) = need_fsck st"
    by (simp_all add: release_extent_node_def detach_extent_node_def f2fs_bug_on_def Let_def)
  show ?thesis
    using assms(2) fields(5) unfolding ext_base_addrs a_def [symmetric] old new fields(1-4) Let_def
    by (auto split: if_splits)
qed

lemma release_frame [simp]:
  "et_largest (release_extent_node st a) = et_largest st"
  "et_present (release_extent_node st a) = et_present st"
  "fi_no_extent (release_extent_node st a) = fi_no_extent st"
  by (simp_all add: release_extent_node_def detach_extent_node_def f2fs_bug_on_def Let_def)

lemma upd_en_frame [simp]:
  "et_largest (upd_en a f st) = et_largest st"
  "et_present (upd_en a f st) = et_present st"
  "fi_no_extent (upd_en a f st) = fi_no_extent st"
  by (simp_all add: upd_en_def)

lemma largest_frame [simp]:
  "et_root (try_update_largest_extent st e) = et_root st"
  "ext_base (try_update_largest_extent st e) = ext_base st"
  "et_present (try_update_largest_extent st e) = et_present st"
  "fi_no_extent (try_update_largest_extent st e) = fi_no_extent st"
  by (simp_all add: try_update_largest_extent_def ext_base_def)

lemma largest_maps:
  "ext_maps F (et_largest st) \<Longrightarrow> ext_maps F e \<Longrightarrow> ext_maps F (et_largest (try_update_largest_extent st e))"
  by (simp add: try_update_largest_extent_def)

lemma touch_frame [simp]:
  "et_root (touch_extent_node st a) = et_root st"
  "et_largest (touch_extent_node st a) = et_largest st"
  "et_present (touch_extent_node st a) = et_present st"
  "fi_no_extent (touch_extent_node st a) = fi_no_extent st"
  by (simp_all add: touch_extent_node_def)

lemma touch_base: "ext_base st \<Longrightarrow> a \<in> en_addr ` set (et_root st) \<Longrightarrow> ext_base (touch_extent_node st a)"
  by (auto simp: touch_extent_node_def ext_base_def)

lemma attach_at:
  assumes base: "ext_base st" and root: "et_root st = L @ R" and g: "g = length L"
    and res: "attach_extent_node alloc_ok st ei g = (st', r)"
  shows "case r of
      None \<Rightarrow> ext_base st' \<and> et_root st' = L @ R
    | Some a \<Rightarrow> a = slab_next st \<and> et_root st' = L @ \<lparr>en_addr = a, en_ei = ei\<rparr> # R \<and>
                ext_base (st'\<lparr>extent_list := extent_list st' @ [a], et_cached := Some a\<rparr>)"
    and "et_largest st' = et_largest st" "et_present st' = et_present st" "fi_no_extent st' = fi_no_extent st"
proof -
  let ?a = "slab_next st"
  have fresh: "?a \<notin> set (map en_addr (et_root st))" using base by (auto simp: ext_base_def)
  define A B where "A = map en_addr L" and "B = map en_addr R"
  have old: "map en_addr (et_root st) = A @ B" using root by (simp add: A_def B_def)
  show "case r of
      None \<Rightarrow> ext_base st' \<and> et_root st' = L @ R
    | Some a \<Rightarrow> a = slab_next st \<and> et_root st' = L @ \<lparr>en_addr = a, en_ei = ei\<rparr> # R \<and>
                ext_base (st'\<lparr>extent_list := extent_list st' @ [a], et_cached := Some a\<rparr>)"
  proof (cases "alloc_ok ?a")
    case True
    then have st': "st' = st\<lparr>slab_next := Suc ?a, et_root := L @ \<lparr>en_addr = ?a, en_ei = ei\<rparr> # R,
        et_node_cnt := et_node_cnt st + 1, total_ext_node := total_ext_node st + 1\<rparr>" and r: "r = Some ?a"
      using res root g by (auto simp: attach_extent_node_def Let_def)
    have new: "map en_addr (et_root (st'\<lparr>extent_list := extent_list st' @ [?a], et_cached := Some ?a\<rparr>)) = A @ ?a # B"
      by (simp add: st' A_def B_def)
    have "ext_base (st'\<lparr>extent_list := extent_list st' @ [?a], et_cached := Some ?a\<rparr>)"
      using base fresh unfolding ext_base_addrs old new Let_def by (auto simp: st' intro: less_SucI)
    then show ?thesis by (simp add: r) (simp add: st')
  next
    case False
    then have "st' = st\<lparr>slab_next := Suc ?a\<rparr>" "r = None"
      using res by (auto simp: attach_extent_node_def Let_def)
    then show ?thesis using base root by (auto simp: ext_base_def intro: less_SucI)
  qed
qed (use res in \<open>auto simp: attach_extent_node_def Let_def split: if_splits\<close>)

text \<open>Inserting at the place the offset has in the tree, given or looked up.\<close>

lemma insert_at:
  assumes base: "ext_base st" and root: "et_root st = L @ R"
    and L: "\<forall>n \<in> set L. en_ofs n + en_len n \<le> ei_fofs ei" and R: "\<forall>n \<in> set R. ei_fofs ei < en_ofs n"
    and p: "insert_p = None \<or> insert_p = Some (length L)"
    and res: "insert_extent_tree alloc_ok st ei insert_p = (st', r)"
  shows "ext_base st'" "et_present st' = et_present st" "fi_no_extent st' = fi_no_extent st"
    and "r = None \<longrightarrow> et_root st' = L @ R \<and> et_largest st' = et_largest st"
    and "\<forall>a. r = Some a \<longrightarrow> et_root st' = L @ \<lparr>en_addr = a, en_ei = ei\<rparr> # R"
    and "et_largest st' = et_largest st \<or> et_largest st' = ei"
proof -
  have "rb_find en_ofs en_len (L @ R) (ei_fofs ei) = None"
    using L R by (auto simp: rb_find_def find_None_iff)
  moreover have "rb_gap en_ofs en_len (L @ R) (ei_fofs ei) = length L"
    using L R by (simp add: rb_gap_append_left) (simp add: rb_gap_def takeWhile_eq_all_conv [THEN iffD2])
  ultimately have ins: "insert_extent_tree alloc_ok st ei insert_p =
      (case attach_extent_node alloc_ok st ei (length L) of
         (st, None) \<Rightarrow> (st, None)
       | (st, Some a) \<Rightarrow>
           let st = try_update_largest_extent st ei
           in (st\<lparr>extent_list := extent_list st @ [a], et_cached := Some a\<rparr>, Some a))"
    using p root by (auto simp: insert_extent_tree_def Let_def)
  obtain st1 r1 where at: "attach_extent_node alloc_ok st ei (length L) = (st1, r1)" by fastforce
  note a = attach_at [OF base root refl at]
  have cm: "(try_update_largest_extent s ei)\<lparr>extent_list := extent_list (try_update_largest_extent s ei) @ xs, et_cached := c\<rparr>
      = try_update_largest_extent (s\<lparr>extent_list := extent_list s @ xs, et_cached := c\<rparr>) ei" for s xs c
    by (simp add: try_update_largest_extent_def)
  have out: "r = r1" "st' = (case r1 of None \<Rightarrow> st1 | Some a \<Rightarrow>
      try_update_largest_extent (st1\<lparr>extent_list := extent_list st1 @ [a], et_cached := Some a\<rparr>) ei)"
    using res unfolding ins at by (auto simp: Let_def cm split: option.splits)
  show "ext_base st'" "et_present st' = et_present st" "fi_no_extent st' = fi_no_extent st"
    "r = None \<longrightarrow> et_root st' = L @ R \<and> et_largest st' = et_largest st"
    "\<forall>a. r = Some a \<longrightarrow> et_root st' = L @ \<lparr>en_addr = a, en_ei = ei\<rparr> # R"
    using a unfolding out by (auto split: option.splits)
  show "et_largest st' = et_largest st \<or> et_largest st' = ei"
    using a(2) unfolding out by (auto simp: try_update_largest_extent_def split: option.splits)
qed

section \<open>The update loop\<close>

text \<open>
  The tree split at the point the loop has reached: \<open>L\<close> is done, \<open>R\<close> is to come.
\<close>

definition ext_zip :: "(nat \<rightharpoonup> nat) \<Rightarrow> nat \<Rightarrow> nat \<Rightarrow> extent_st \<Rightarrow> extent_node list \<Rightarrow> extent_node list \<Rightarrow> bool" where
  "ext_zip F pos end st L R \<longleftrightarrow>
     ext_base st \<and> et_root st = L @ R \<and> ext_sorted (L @ R) \<and>
     (\<forall>n \<in> set L. en_ofs n + en_len n \<le> pos) \<and> (\<forall>n \<in> set R. pos < en_ofs n + en_len n) \<and>
     (\<forall>n \<in> set (L @ R). ext_maps F (en_ei n)) \<and> ext_maps (cut pos end F) (et_largest st)"

definition hd_addr :: "extent_node list \<Rightarrow> nat option" where
  "hd_addr R = (case R of [] \<Rightarrow> None | n # _ \<Rightarrow> Some (en_addr n))"

definition ext_loop_inv ::
  "(nat \<rightharpoonup> nat) \<Rightarrow> nat \<Rightarrow> nat \<Rightarrow> ext_loop \<Rightarrow> extent_node list \<Rightarrow> extent_node list \<Rightarrow> bool" where
  "ext_loop_inv F pos end s L R \<longleftrightarrow>
     ext_zip F pos end (l_st s) L R \<and> l_en s = hd_addr R \<and>
     (l_prev s = None \<or> (L \<noteq> [] \<and> l_prev s = Some (en_addr (last L)))) \<and>
     (l_insert s = None \<or> (l_insert s = Some (length L) \<and> (\<forall>n \<in> set R. pos < en_ofs n))) \<and>
     (l_next s = l_en s \<or> (R \<noteq> [] \<and> en_ofs (hd R) < end)) \<and>
     et_present (l_st s) \<and> \<not> fi_no_extent (l_st s)"

text \<open>The pieces of an extent left of \<open>pos\<close> and right of \<open>end\<close>.\<close>

definition left_node :: "nat \<Rightarrow> extent_node \<Rightarrow> extent_node" where
  "left_node pos n = n\<lparr>en_ei := (en_ei n)\<lparr>ei_len := pos - en_ofs n\<rparr>\<rparr>"

definition right_ei :: "nat \<Rightarrow> extent_info \<Rightarrow> extent_info" where
  "right_ei end e = \<lparr>ei_fofs = end, ei_len = ei_fofs e + ei_len e - end, ei_blk = end - ei_fofs e + ei_blk e\<rparr>"

lemma left_node_simps [simp]:
  "en_addr (left_node pos n) = en_addr n" "en_ofs (left_node pos n) = en_ofs n"
  "en_len (left_node pos n) = pos - en_ofs n"
  by (simp_all add: left_node_def)

lemma right_ei_simps [simp]:
  "ei_fofs (right_ei end e) = end" "ei_len (right_ei end e) = ei_fofs e + ei_len e - end"
  by (simp_all add: right_ei_def)

lemma left_maps:
  assumes "ext_maps F (en_ei n)" "pos < en_ofs n + en_len n" "en_ofs n \<le> pos"
  shows "ext_maps F (en_ei (left_node pos n))" "ext_maps (cut pos end F) (en_ei (left_node pos n))"
proof -
  show m: "ext_maps F (en_ei (left_node pos n))"
    using assms by (intro ext_maps_sub [OF assms(1)]) (simp_all add: left_node_def)
  show "ext_maps (cut pos end F) (en_ei (left_node pos n))"
    using assms(3) by (intro ext_maps_cut [OF m]) simp
qed

lemma right_maps:
  assumes "ext_maps F e" "ei_fofs e \<le> end" "end \<le> ei_fofs e + ei_len e"
  shows "ext_maps F (right_ei end e)" "ext_maps (cut pos end F) (right_ei end e)"
proof -
  show m: "ext_maps F (right_ei end e)"
    using assms by (intro ext_maps_sub [OF assms(1)]) (simp_all add: right_ei_def)
  show "ext_maps (cut pos end F) (right_ei end e)"
    by (intro ext_maps_cut [OF m]) simp
qed

lemma ext_zip_split:
  assumes zip: "ext_zip F pos end st L (n # R)"
    and new: "ext_base st'" "et_root st' = L @ M1 @ M2 @ R" "ext_maps (cut pos end F) (et_largest st')"
    and pieces: "ext_sorted (M1 @ M2)"
      "\<forall>m \<in> set (M1 @ M2). en_ofs n \<le> en_ofs m \<and> en_ofs m + en_len m \<le> en_ofs n + en_len n \<and> ext_maps F (en_ei m)"
    and sides: "\<forall>m \<in> set M1. en_ofs m + en_len m \<le> pos" "\<forall>m \<in> set M2. pos < en_ofs m"
  shows "ext_zip F pos end st' (L @ M1) (M2 @ R)"
proof -
  have s: "ext_sorted L" "ext_sorted R" "\<forall>x \<in> set L. en_ofs x + en_len x \<le> en_ofs n"
    "\<forall>y \<in> set R. en_ofs n + en_len n \<le> en_ofs y" "\<forall>x \<in> set L. \<forall>y \<in> set R. en_ofs x + en_len x \<le> en_ofs y"
    using zip unfolding ext_zip_def by (simp_all add: rb_sorted_append rb_sorted_Cons)
  have M: "x \<in> set L \<Longrightarrow> m \<in> set (M1 @ M2) \<Longrightarrow> en_ofs x + en_len x \<le> en_ofs m"
    "y \<in> set R \<Longrightarrow> m \<in> set (M1 @ M2) \<Longrightarrow> en_ofs m + en_len m \<le> en_ofs y" for x y m
    using s(3,4) pieces(2) by (meson le_trans)+
  have "ext_sorted (L @ (M1 @ M2) @ R)"
    unfolding rb_sorted_append [of _ _ L] rb_sorted_append [of _ _ "M1 @ M2"]
    using s(1,2,5) pieces(1) M by auto
  then show ?thesis
    using zip new pieces(2) sides unfolding ext_zip_def by (auto intro: trans_less_add1)
qed

lemma hd_addr_next:
  assumes "ext_base st" "et_root st = L @ n # R"
  shows "map_option en_addr (rb_next en_addr (et_root st) (en_addr n)) = hd_addr R"
  using rb_next_split [of en_addr L n R] assms
  by (simp add: hd_addr_def ext_base_def split: list.splits)

abbreviation keep_left :: "nat \<Rightarrow> extent_node \<Rightarrow> bool" where
  "keep_left pos n \<equiv> pos > en_ofs n \<and> pos - en_ofs n \<ge> F2FS_MIN_EXTENT_LEN"

abbreviation keep_right :: "nat \<Rightarrow> extent_node \<Rightarrow> bool" where
  "keep_right end n \<equiv> end < en_ofs n + en_len n \<and> en_ofs n + en_len n - end \<ge> F2FS_MIN_EXTENT_LEN"

text \<open>One step, for an extent that is dropped, cut on one side, or split in two.\<close>

lemma step_drop:
  assumes inv: "ext_loop_inv F pos end s L (n # R)" and c: "\<not> keep_left pos n" "\<not> keep_right end n"
  shows "ext_loop_inv F pos end (ext_update_step alloc_ok pos end n s) L R"
proof -
  let ?st = "l_st s" and ?st' = "release_extent_node (l_st s) (en_addr n)"
  have zip: "ext_zip F pos end ?st L (n # R)" using inv by (simp add: ext_loop_inv_def)
  then have base: "ext_base ?st" "et_root ?st = L @ n # R" "pos < en_ofs n + en_len n"
    by (simp_all add: ext_zip_def)
  have "f2fs_bug_on (pos \<ge> en_ofs n + en_len n) ?st = ?st" using base(3) by (simp add: f2fs_bug_on_def)
  then have step: "ext_update_step alloc_ok pos end n s =
      \<lparr>l_st = ?st', l_en = hd_addr R, l_prev = l_prev s, l_next = hd_addr R, l_dei = en_ei n, l_insert = None\<rparr>"
    unfolding ext_update_step_def Let_def using c hd_addr_next [OF base(1,2)] by auto
  have "ext_zip F pos end ?st' (L @ []) ([] @ R)"
    using base release_base [OF base(2,1)] release_root [OF base(2,1)] zip
    by (intro ext_zip_split [OF zip]) (simp_all add: ext_zip_def)
  then show ?thesis using inv unfolding step by (auto simp: ext_loop_inv_def)
qed

lemma step_left:
  assumes inv: "ext_loop_inv F pos end s L (n # R)" and c: "keep_left pos n" "\<not> keep_right end n"
  shows "ext_loop_inv F pos end (ext_update_step alloc_ok pos end n s) (L @ [left_node pos n]) R"
proof -
  let ?st = "l_st s" and ?st1 = "upd_en (en_addr n) (\<lambda>e. e\<lparr>ei_len := pos - ei_fofs e\<rparr>) (l_st s)"
    and ?n = "left_node pos n"
  have zip: "ext_zip F pos end ?st L (n # R)" using inv by (simp add: ext_loop_inv_def)
  then have base: "ext_base ?st" "et_root ?st = L @ n # R" "pos < en_ofs n + en_len n" "ext_maps F (en_ei n)"
    by (simp_all add: ext_zip_def)
  have b1: "ext_base ?st1" "et_root ?st1 = L @ ?n # R"
    using base upd_en_root [OF base(2,1)] by (simp_all add: left_node_def)
  have "f2fs_bug_on (pos \<ge> en_ofs n + en_len n) ?st = ?st" using base(3) by (simp add: f2fs_bug_on_def)
  then have step: "ext_update_step alloc_ok pos end n s =
      \<lparr>l_st = try_update_largest_extent ?st1 (en_ei ?n), l_en = hd_addr R, l_prev = Some (en_addr n),
       l_next = hd_addr R, l_dei = en_ei n, l_insert = l_insert s\<rparr>"
    unfolding ext_update_step_def Let_def using c hd_addr_next [OF b1] node_at_mid [OF b1(2,1)] by auto
  note m = left_maps [OF base(4,3)]
  have "ext_zip F pos end (try_update_largest_extent ?st1 (en_ei ?n)) (L @ [?n]) ([] @ R)"
    using b1 base c zip m by (intro ext_zip_split [OF zip]) (auto simp: ext_zip_def rb_sorted_Cons intro!: largest_maps)
  then show ?thesis using inv c unfolding step by (auto simp: ext_loop_inv_def)
qed

lemma step_right:
  assumes inv: "ext_loop_inv F pos end s L (n # R)" and c: "\<not> keep_left pos n" "keep_right end n"
    and ofs: "en_ofs n < end" "pos < end"
  shows "ext_loop_inv F pos end (ext_update_step alloc_ok pos end n s) L (n\<lparr>en_ei := right_ei end (en_ei n)\<rparr> # R)"
proof -
  let ?st = "l_st s" and ?n = "n\<lparr>en_ei := right_ei end (en_ei n)\<rparr>"
  let ?st1 = "upd_en (en_addr n) (\<lambda>e. \<lparr>ei_fofs = end, ei_len = ei_len e - (end - en_ofs n),
                ei_blk = ei_blk e + (end - en_ofs n)\<rparr>) (l_st s)"
  have zip: "ext_zip F pos end ?st L (n # R)" using inv by (simp add: ext_loop_inv_def)
  then have base: "ext_base ?st" "et_root ?st = L @ n # R" "pos < en_ofs n + en_len n" "ext_maps F (en_ei n)"
    by (simp_all add: ext_zip_def)
  have b1: "ext_base ?st1" "et_root ?st1 = L @ ?n # R"
    using base upd_en_root [OF base(2,1)] ofs by (simp_all add: right_ei_def add.commute)
  have "f2fs_bug_on (pos \<ge> en_ofs n + en_len n) ?st = ?st" using base(3) by (simp add: f2fs_bug_on_def)
  then have step: "ext_update_step alloc_ok pos end n s =
      \<lparr>l_st = try_update_largest_extent ?st1 (en_ei ?n), l_en = hd_addr (?n # R), l_prev = l_prev s,
       l_next = hd_addr (?n # R), l_dei = en_ei n, l_insert = l_insert s\<rparr>"
    unfolding ext_update_step_def Let_def using c node_at_mid [OF b1(2,1)] by (auto simp: hd_addr_def)
  have m: "ext_maps F (right_ei end (en_ei n))" "ext_maps (cut pos end F) (right_ei end (en_ei n))"
    using right_maps [OF base(4)] c ofs by simp_all
  have "ext_zip F pos end (try_update_largest_extent ?st1 (en_ei ?n)) (L @ []) ([?n] @ R)"
    using b1 base c zip m ofs by (intro ext_zip_split [OF zip]) (auto simp: ext_zip_def rb_sorted_Cons intro!: largest_maps)
  then show ?thesis using inv c ofs unfolding step by (auto simp: ext_loop_inv_def)
qed

lemma step_split:
  assumes inv: "ext_loop_inv F pos end s L (n # R)" and c: "keep_left pos n" "keep_right end n"
    and ofs: "pos < end"
  obtains M where "ext_loop_inv F pos end (ext_update_step alloc_ok pos end n s) (L @ [left_node pos n]) (M @ R)"
    "\<forall>m \<in> set M. en_ofs m = end"
proof -
  let ?st = "l_st s" and ?st1 = "upd_en (en_addr n) (\<lambda>e. e\<lparr>ei_len := pos - ei_fofs e\<rparr>) (l_st s)"
    and ?n = "left_node pos n" and ?e = "right_ei end (en_ei n)"
  have zip: "ext_zip F pos end ?st L (n # R)" using inv by (simp add: ext_loop_inv_def)
  then have base: "ext_base ?st" "et_root ?st = L @ n # R" "pos < en_ofs n + en_len n" "ext_maps F (en_ei n)"
    "ext_sorted (L @ n # R)"
    by (simp_all add: ext_zip_def)
  have b1: "ext_base ?st1" "et_root ?st1 = (L @ [?n]) @ R"
    using base upd_en_root [OF base(2,1)] by (simp_all add: left_node_def)
  have ins_ei: "set_extent_info end (end - en_ofs n + ei_blk (en_ei n)) (en_ofs n + en_len n - end) = ?e"
    by (simp add: set_extent_info_def right_ei_def)
  obtain st2 r where ins: "insert_extent_tree alloc_ok ?st1 ?e None = (st2, r)" by fastforce
  have LR: "\<forall>m \<in> set (L @ [?n]). en_ofs m + en_len m \<le> ei_fofs ?e" "\<forall>m \<in> set R. ei_fofs ?e < en_ofs m"
    using zip c ofs base(5) by (fastforce simp: ext_zip_def rb_sorted_append rb_sorted_Cons)+
  note i = insert_at [OF b1 LR disjI1 [OF refl] ins]
  define M where "M = (case r of None \<Rightarrow> [] | Some b \<Rightarrow> [\<lparr>en_addr = b, en_ei = ?e\<rparr>])"
  have root2: "et_root st2 = L @ ?n # M @ R" using i(4,5) by (cases r) (auto simp: M_def)
  have nxt: "(if r = None then map_option en_addr (rb_next en_addr (et_root st2) (en_addr n)) else r) = hd_addr (M @ R)"
    using hd_addr_next [OF i(1) root2] by (cases r) (auto simp: M_def hd_addr_def)
  have "f2fs_bug_on (pos \<ge> en_ofs n + en_len n) ?st = ?st" using base(3) by (simp add: f2fs_bug_on_def)
  then have step: "ext_update_step alloc_ok pos end n s =
      \<lparr>l_st = try_update_largest_extent st2 (en_ei ?n), l_en = hd_addr (M @ R), l_prev = Some (en_addr n),
       l_next = hd_addr (M @ R), l_dei = en_ei n, l_insert = None\<rparr>"
    unfolding ext_update_step_def Let_def
    using c ins nxt node_at_mid [OF root2 i(1)] by (auto simp: ins_ei)
  have m: "ext_maps F (en_ei ?n)" "ext_maps (cut pos end F) (en_ei ?n)"
    "ext_maps F ?e" "ext_maps (cut pos end F) ?e"
    using left_maps [OF base(4,3)] right_maps [OF base(4)] c ofs by simp_all
  have lg: "ext_maps (cut pos end F) (et_largest (try_update_largest_extent st2 (en_ei ?n)))"
    using i(6) m zip by (intro largest_maps) (auto simp: ext_zip_def)
  have "ext_zip F pos end (try_update_largest_extent st2 (en_ei ?n)) (L @ [?n]) (M @ R)"
    using i(1) root2 base c zip m ofs lg
    by (intro ext_zip_split [OF zip]) (auto simp: rb_sorted_Cons M_def split: option.splits)
  then have "ext_loop_inv F pos end (ext_update_step alloc_ok pos end n s) (L @ [?n]) (M @ R)"
    using inv i(2,3) unfolding step by (auto simp: ext_loop_inv_def)
  then show ?thesis by (rule that) (auto simp: M_def split: option.splits)
qed

lemma step_inv:
  assumes inv: "ext_loop_inv F pos end s L (n # R)" and ofs: "en_ofs n < end" "pos < end"
  obtains L' M where "ext_loop_inv F pos end (ext_update_step alloc_ok pos end n s) L' (M @ R)"
    "\<forall>m \<in> set M. en_ofs m = end"
proof (cases "keep_left pos n"; cases "keep_right end n")
  assume "keep_left pos n" "keep_right end n"
  then show ?thesis using step_split [OF inv _ _ ofs(2)] that by metis
next
  assume "keep_left pos n" "\<not> keep_right end n"
  then have "ext_loop_inv F pos end (ext_update_step alloc_ok pos end n s) (L @ [left_node pos n]) ([] @ R)"
    using step_left [OF inv] by simp
  then show ?thesis by (rule that) simp
next
  assume "\<not> keep_left pos n" "keep_right end n"
  then have "ext_loop_inv F pos end (ext_update_step alloc_ok pos end n s) L
      ([n\<lparr>en_ei := right_ei end (en_ei n)\<rparr>] @ R)"
    using step_right [OF inv _ _ ofs] by simp
  then show ?thesis by (rule that) simp
next
  assume "\<not> keep_left pos n" "\<not> keep_right end n"
  then have "ext_loop_inv F pos end (ext_update_step alloc_ok pos end n s) L ([] @ R)"
    using step_drop [OF inv] by simp
  then show ?thesis by (rule that) simp
qed

text \<open>The loop ends: each step lowers the number of extents that start below \<open>end\<close>.\<close>

lemma loop_ends:
  assumes "ext_loop_inv F pos end s L R" "pos < end"
  shows "\<exists>s' L' R'. ext_update_loop alloc_ok pos end s = Some s' \<and> ext_loop_inv F pos end s' L' R' \<and>
    (\<forall>n \<in> set R'. end \<le> en_ofs n)"
  using assms
proof (induction "length (filter (\<lambda>n. en_ofs n < end) R)" arbitrary: s L R rule: less_induct)
  case less
  have zip: "ext_zip F pos end (l_st s) L R" "l_en s = hd_addr R"
    using less.prems by (simp_all add: ext_loop_inv_def)
  show ?case
  proof (cases "R \<noteq> [] \<and> en_ofs (hd R) < end")
    case True
    then obtain n R1 where R: "R = n # R1" "en_ofs n < end" by (cases R) auto
    have at: "node_at (l_st s) (l_en s) = Some n"
      using zip node_at_mid [of "l_st s" L n R1] R by (simp add: ext_zip_def hd_addr_def)
    obtain L' M where st: "ext_loop_inv F pos end (ext_update_step alloc_ok pos end n s) L' (M @ R1)"
      "\<forall>m \<in> set M. en_ofs m = end"
      using step_inv [OF less.prems(1) [unfolded R] R(2) less.prems(2)] by blast
    have "filter (\<lambda>n. en_ofs n < end) M = []" using st(2) by (simp add: filter_empty_conv)
    then have "length (filter (\<lambda>n. en_ofs n < end) (M @ R1)) < length (filter (\<lambda>n. en_ofs n < end) R)"
      using R by simp
    from less.hyps [OF this st(1) less.prems(2)] show ?thesis
      using at R(2) by (subst ext_update_loop.simps) simp
  next
    case False
    have far: "\<forall>n \<in> set R. end \<le> en_ofs n"
    proof (cases R)
      case (Cons n R1)
      then have "ext_sorted (n # R1)" using zip(1) by (simp add: ext_zip_def rb_sorted_append)
      then show ?thesis using False Cons rb_sorted_less by fastforce
    qed simp
    have "node_at (l_st s) (l_en s) = (case R of [] \<Rightarrow> None | n # _ \<Rightarrow> Some n)"
      using zip node_at_mid [of "l_st s" L "hd R" "tl R"]
      by (cases R) (auto simp: ext_zip_def hd_addr_def)
    then have "ext_update_loop alloc_ok pos end s = Some s"
      using far by (subst ext_update_loop.simps) (auto split: list.splits)
    then show ?thesis using less.prems far by blast
  qed
qed

lemma drop_largest_simps [simp]:
  "et_root (drop_largest_extent st a l) = et_root st"
  "ext_base (drop_largest_extent st a l) = ext_base st"
  "et_present (drop_largest_extent st a l) = et_present st"
  "fi_no_extent (drop_largest_extent st a l) = fi_no_extent st"
  by (simp_all add: drop_largest_extent_def ext_base_def Let_def)

lemma drop_largest_maps:
  "ext_maps F (et_largest st) \<Longrightarrow> ext_maps (cut a (a + l) F) (et_largest (drop_largest_extent st a l))"
  by (auto simp: drop_largest_extent_def Let_def intro!: ext_maps_cut)

lemma init_inv:
  assumes ok: "ext_base st" "ext_sorted (et_root st)" "\<forall>n \<in> set (et_root st). ext_maps F (en_ei n)"
    "ext_maps (cut pos end F) (et_largest st)" "et_present st" "\<not> fi_no_extent st" and ofs: "pos < end"
  obtains L R where "ext_loop_inv F pos end (ext_update_init st pos) L R"
proof -
  let ?xs = "et_root st"
  have zip: "ext_zip F pos end st L R" if "?xs = L @ R" "\<forall>n \<in> set L. en_ofs n + en_len n \<le> pos"
    "\<forall>n \<in> set R. pos < en_ofs n + en_len n" for L R
    using ok that by (simp add: ext_zip_def)
  have dist: "distinct (map en_addr ?xs)" using ok(1) by (simp add: ext_base_def)
  show ?thesis
  proof (cases "rb_find en_ofs en_len ?xs pos")
    case None
    let ?P = "\<lambda>x. en_ofs x + en_len x \<le> pos"
    define L R where "L = takeWhile ?P ?xs" and "R = dropWhile ?P ?xs"
    have xs: "?xs = L @ R" by (simp add: L_def R_def)
    have L: "\<forall>n \<in> set L. ?P n" by (auto simp: L_def dest: set_takeWhileD)
    have R: "\<forall>n \<in> set R. pos < en_ofs n"
    proof (cases R)
      case (Cons m R1)
      then have "\<not> ?P m" unfolding R_def by (simp add: dropWhile_eq_Cons_conv)
      moreover have "m \<in> set ?xs" using xs Cons by simp
      ultimately have "pos < en_ofs m" using None unfolding rb_find_def find_None_iff by (meson linorder_not_le)
      moreover have "ext_sorted (m # R1)" using ok(2) xs Cons by (simp add: rb_sorted_append)
      ultimately show ?thesis using Cons rb_sorted_less by fastforce
    qed simp
    have "rb_gap en_ofs en_len ?xs pos = length L" by (simp add: rb_gap_def L_def)
    then have "ext_update_init st pos = \<lparr>l_st = st, l_en = hd_addr R,
        l_prev = (if L = [] then None else Some (en_addr (last L))), l_next = hd_addr R,
        l_dei = \<lparr>ei_fofs = 0, ei_len = 0, ei_blk = 0\<rparr>, l_insert = (if ?xs = [] then None else Some (length L))\<rparr>"
      using None by (auto simp: ext_update_init_def rb_lookup_ret_def Let_def xs rb_pred_def rb_succ_def
          hd_addr_def nth_append last_conv_nth split: list.splits)
    moreover have "ext_zip F pos end st L R" using R by (intro zip [OF xs L]) fastforce
    ultimately have "ext_loop_inv F pos end (ext_update_init st pos) L R"
      using R ok(5,6) by (auto simp: ext_loop_inv_def)
    then show ?thesis by (rule that)
  next
    case (Some n)
    then have n: "n \<in> set ?xs" "en_ofs n \<le> pos" "pos < en_ofs n + en_len n"
      by (auto simp: rb_find_def find_Some_iff)
    then obtain L R where xs: "?xs = L @ n # R" by (auto simp: in_set_conv_decomp)
    have s: "\<forall>x \<in> set L. en_ofs x + en_len x \<le> en_ofs n" "\<forall>x \<in> set R. en_ofs n + en_len n \<le> en_ofs x"
      using ok(2) xs by (auto simp: rb_sorted_append rb_sorted_Cons)
    have "\<forall>x \<in> set L. en_ofs x + en_len x \<le> pos" "\<forall>x \<in> set (n # R). pos < en_ofs x + en_len x"
      using s n(2,3) by fastforce+
    then have "ext_zip F pos end st L (n # R)" by (rule zip [OF xs])
    moreover have "rb_prev en_addr ?xs (en_addr n) = (if L = [] then None else Some (last L))"
      using rb_prev_split [of en_addr L n R] dist xs by simp
    ultimately have "ext_loop_inv F pos end (ext_update_init st pos) L (n # R)"
      using Some n ofs ok(5,6) xs
      by (auto simp: ext_loop_inv_def ext_update_init_def rb_lookup_ret_def lookup_neighbors_def hd_addr_def Let_def)
    then show ?thesis by (rule that)
  qed
qed

section \<open>Storing the new extent\<close>

text \<open>After the loop nothing of the range is left, so the new extent fits between \<open>L\<close> and \<open>R\<close>.\<close>

definition ext_clear :: "(nat \<rightharpoonup> nat) \<Rightarrow> nat \<Rightarrow> nat \<Rightarrow> extent_st \<Rightarrow> extent_node list \<Rightarrow> extent_node list \<Rightarrow> bool" where
  "ext_clear G pos end st L R \<longleftrightarrow>
     ext_base st \<and> et_root st = L @ R \<and> ext_sorted (L @ R) \<and>
     (\<forall>n \<in> set L. en_ofs n + en_len n \<le> pos) \<and> (\<forall>n \<in> set R. end \<le> en_ofs n) \<and>
     (\<forall>n \<in> set (L @ R). ext_maps G (en_ei n)) \<and> ext_maps G (et_largest st)"

lemma ext_clear_write:
  assumes "ext_zip F pos (pos + l) st L R" "\<forall>n \<in> set R. pos + l \<le> en_ofs n"
  shows "ext_clear (write_range F pos blk l) pos (pos + l) st L R"
  using assms unfolding ext_zip_def ext_clear_def by (auto intro!: ext_maps_write ext_maps_cut)

lemma ext_clear_ok: "ext_clear G pos end st L R \<Longrightarrow> ext_ok G st"
  by (simp add: ext_clear_def ext_ok_def)

text \<open>Putting an extent \<open>m\<close> that covers the range in its place.\<close>

lemma ext_sorted_mid:
  assumes "ext_sorted (L @ R)" "0 < en_len m"
    and "\<forall>n \<in> set L. en_ofs n + en_len n \<le> en_ofs m" "\<forall>n \<in> set R. en_ofs m + en_len m \<le> en_ofs n"
  shows "ext_sorted (L @ m # R)"
  using assms by (auto simp: rb_sorted_append rb_sorted_Cons)

lemma merged_ok:
  assumes "ext_base st" "et_root st = L @ m # R" "ext_sorted (L @ m # R)"
    and "\<forall>n \<in> set (L @ m # R). ext_maps G (en_ei n)" "ext_maps G (et_largest st)"
  shows "ext_ok G (touch_extent_node (try_update_largest_extent st (en_ei m)) (en_addr m))"
  using assms by (auto simp: ext_ok_def intro!: touch_base largest_maps)

text \<open>
  The state between the two steps: \<open>M\<close> is the grown node before the range, if there is one.
\<close>

definition merge_mid ::
  "(nat \<rightharpoonup> nat) \<Rightarrow> nat \<Rightarrow> extent_st \<Rightarrow> extent_info \<Rightarrow> nat option \<Rightarrow>
   extent_node list \<Rightarrow> extent_node list \<Rightarrow> extent_node list \<Rightarrow> bool" where
  "merge_mid G end st ei en L M R \<longleftrightarrow>
     ext_base st \<and> et_root st = L @ M @ R \<and> ext_sorted (L @ M @ R) \<and>
     (\<forall>n \<in> set (L @ M @ R). ext_maps G (en_ei n)) \<and> ext_maps G (et_largest st) \<and>
     ext_maps G ei \<and> 0 < ei_len ei \<and> ei_fofs ei + ei_len ei = end \<and>
     (\<forall>n \<in> set L. en_ofs n + en_len n \<le> ei_fofs ei) \<and> (\<forall>n \<in> set R. end \<le> en_ofs n) \<and>
     (M = [] \<and> en = None \<or> (\<exists>m. M = [m] \<and> en = Some (en_addr m) \<and> en_ei m = ei))"

lemma merge_prev_mid:
  assumes clr: "ext_clear G pos end st L R" and ei: "ei_fofs ei = pos" "pos + ei_len ei = end" "ext_maps G ei" "pos < end"
    and prev: "prev = None \<or> (L \<noteq> [] \<and> prev = Some (en_addr (last L)))"
    and res: "merge_prev st ei prev = (st', ei', en)"
  obtains L' M where "merge_mid G end st' ei' en L' M R" "M = [] \<Longrightarrow> st' = st"
    "et_present st' = et_present st" "fi_no_extent st' = fi_no_extent st"
proof (cases "prev \<noteq> None \<and> is_back_mergeable ei (en_ei (last L))")
  case True
  then obtain A p where L: "L = A @ [p]" "prev = Some (en_addr p)" "is_back_mergeable ei (en_ei p)"
    using prev by (cases L rule: rev_cases) auto
  define e where "e = (en_ei p)\<lparr>ei_len := en_len p + ei_len ei\<rparr>"
  have c: "ext_base st" "et_root st = A @ p # R" "ext_sorted (A @ p # R)" "\<forall>n \<in> set R. end \<le> en_ofs n"
    "\<forall>n \<in> set (A @ p # R). ext_maps G (en_ei n)" "ext_maps G (et_largest st)"
    using clr by (simp_all add: ext_clear_def L)
  have out: "st' = upd_en (en_addr p) (\<lambda>_. e) st" "ei' = e" "en = Some (en_addr p)"
    using res L node_at_mid [OF c(2,1)] by (auto simp: merge_prev_def e_def Let_def)
  have j: "en_ofs p + en_len p = ei_fofs ei" "is_extent_mergeable (en_ei p) ei"
    using L(3) by (simp_all add: is_back_mergeable_def is_extent_mergeable_def)
  have "ext_maps G e"
    using ext_maps_join [OF _ ei(3) j(2)] c(5) by (simp add: e_def ext_maps_def)
  moreover have "ext_sorted (A @ p\<lparr>en_ei := e\<rparr> # R)"
    using c(3,4) j(1) ei by (auto simp: e_def rb_sorted_append rb_sorted_Cons)
  moreover have "et_root st' = A @ p\<lparr>en_ei := e\<rparr> # R" using upd_en_root [OF c(2,1)] by (simp add: out)
  moreover have "\<forall>n \<in> set A. en_ofs n + en_len n \<le> en_ofs p" using c(3) by (simp add: rb_sorted_append)
  ultimately have "merge_mid G end st' ei' en A [p\<lparr>en_ei := e\<rparr>] R"
    unfolding merge_mid_def using c j(1) ei by (auto simp: out) (auto simp: e_def)
  then show ?thesis by (rule that) (simp_all add: out)
next
  case False
  have none: "(st', ei', en) = (st, ei, None)"
  proof (cases "prev = None")
    case False
    then obtain A p where L: "L = A @ [p]" "prev = Some (en_addr p)" "\<not> is_back_mergeable ei (en_ei p)"
      using prev \<open>\<not> (prev \<noteq> None \<and> _)\<close> by (cases L rule: rev_cases) auto
    then have "node_at st prev = Some p"
      using node_at_mid [of st A p R] clr by (simp add: ext_clear_def)
    then show ?thesis using res L by (simp add: merge_prev_def)
  qed (use res in \<open>simp add: merge_prev_def\<close>)
  then have "merge_mid G end st' ei' en L [] R"
    using clr ei by (auto simp: merge_mid_def ext_clear_def)
  then show ?thesis by (rule that) (use none in simp_all)
qed

lemma merge_next_ok:
  assumes mid: "merge_mid G end st ei en L M R" and f: "R = n # R1" "is_front_mergeable ei (en_ei n)"
    and res: "merge_next st ei en (Some (en_addr n)) = (st', en')"
  obtains m where "en' = Some (en_addr m)" "ext_base st'" "et_root st' = L @ m # R1" "ext_sorted (L @ m # R1)"
    "\<forall>x \<in> set (L @ m # R1). ext_maps G (en_ei x)" "et_largest st' = et_largest st"
    "et_present st' = et_present st" "fi_no_extent st' = fi_no_extent st"
proof -
  define e where "e = \<lparr>ei_fofs = ei_fofs ei, ei_len = en_len n + ei_len ei, ei_blk = ei_blk ei\<rparr>"
  let ?m = "n\<lparr>en_ei := e\<rparr>" and ?st1 = "upd_en (en_addr n)
    (\<lambda>x. \<lparr>ei_fofs = ei_fofs ei, ei_len = ei_len x + ei_len ei, ei_blk = ei_blk ei\<rparr>) st"
  have c: "ext_base st" "et_root st = (L @ M) @ n # R1" "ext_sorted (L @ M @ n # R1)"
    "\<forall>x \<in> set (L @ M @ n # R1). ext_maps G (en_ei x)" "ext_maps G ei" "0 < ei_len ei"
    "\<forall>x \<in> set L. en_ofs x + en_len x \<le> ei_fofs ei"
    "M = [] \<and> en = None \<or> (\<exists>m. M = [m] \<and> en = Some (en_addr m) \<and> en_ei m = ei)"
    using mid by (simp_all add: merge_mid_def f(1))
  have b1: "ext_base ?st1" "et_root ?st1 = (L @ M) @ ?m # R1"
    using c(1) upd_en_root [OF c(2,1)] by (simp_all add: e_def)
  have j: "ei_fofs ei + ei_len ei = en_ofs n" "is_extent_mergeable ei (en_ei n)"
    using f(2) by (simp_all add: is_front_mergeable_def is_extent_mergeable_def)
  have "ext_maps G e"
    using ext_maps_join [OF c(5) _ j(2)] c(4) by (simp add: e_def ext_maps_def add.commute)
  then have maps: "\<forall>x \<in> set (L @ ?m # R1). ext_maps G (en_ei x)" using c(4) by auto
  have sorted: "ext_sorted (L @ ?m # R1)"
    using c(3,6,7) j(1) by (auto simp: e_def rb_sorted_append rb_sorted_Cons)
  have out: "en' = Some (en_addr n)" "st' = (case en of Some a \<Rightarrow> release_extent_node ?st1 a | None \<Rightarrow> ?st1)"
    using res node_at_mid [OF c(2,1)] f(2) by (auto simp: merge_next_def Let_def)
  have "ext_base st' \<and> et_root st' = L @ ?m # R1"
    using c(8)
  proof
    assume "\<exists>m. M = [m] \<and> en = Some (en_addr m) \<and> en_ei m = ei"
    then obtain m where m: "M = [m]" "en = Some (en_addr m)" by blast
    then have "et_root ?st1 = L @ m # ?m # R1" using b1(2) by simp
    then show ?thesis using release_base [OF _ b1(1)] release_root [OF _ b1(1)] m by (simp add: out)
  qed (use b1 in \<open>simp add: out\<close>)
  then show ?thesis
    using maps sorted by (intro that [of ?m]) (simp_all add: out split: option.splits)
qed

lemma try_merge_ok:
  assumes clr: "ext_clear G pos end st L R" and ei: "ei_fofs ei = pos" "pos + ei_len ei = end" "ext_maps G ei" "pos < end"
    and prev: "prev = None \<or> (L \<noteq> [] \<and> prev = Some (en_addr (last L)))" and nxt: "nxt = hd_addr R"
    and res: "try_merge_extent_node st ei prev nxt = (st', r)"
  shows "r = None \<and> st' = st \<or>
    r \<noteq> None \<and> ext_ok G st' \<and> et_present st' = et_present st \<and> fi_no_extent st' = fi_no_extent st"
proof -
  obtain st1 e1 en1 where p: "merge_prev st ei prev = (st1, e1, en1)" by (metis prod_cases3)
  obtain st2 en2 where n: "merge_next st1 e1 en1 nxt = (st2, en2)" by fastforce
  have out: "(st', r) = (case node_at st2 en2 of None \<Rightarrow> (st2, None)
      | Some n \<Rightarrow> (touch_extent_node (try_update_largest_extent st2 (en_ei n)) (en_addr n), Some (en_addr n)))"
    using res by (simp add: try_merge_extent_node_def p n)
  obtain A M where mid: "merge_mid G end st1 e1 en1 A M R" and same: "M = [] \<Longrightarrow> st1 = st"
    and fr: "et_present st1 = et_present st" "fi_no_extent st1 = fi_no_extent st"
    using merge_prev_mid [OF clr ei prev p] by blast
  have fin: ?thesis if "ext_base st2" "et_root st2 = X @ m # Y" "ext_sorted (X @ m # Y)"
    "\<forall>x \<in> set (X @ m # Y). ext_maps G (en_ei x)" "et_largest st2 = et_largest st1" "en2 = Some (en_addr m)"
    "et_present st2 = et_present st1" "fi_no_extent st2 = fi_no_extent st1" for X m Y
    using merged_ok [OF that(1-4)] node_at_mid [OF that(2,1)] mid that(5-8) fr out by (simp add: merge_mid_def)
  show ?thesis
  proof (cases "R \<noteq> [] \<and> is_front_mergeable e1 (en_ei (hd R))")
    case True
    then obtain y Y where y: "R = y # Y" "is_front_mergeable e1 (en_ei y)" by (cases R) auto
    then have "merge_next st1 e1 en1 (Some (en_addr y)) = (st2, en2)" using n nxt by (simp add: hd_addr_def)
    then obtain m where m: "en2 = Some (en_addr m)" "ext_base st2" "et_root st2 = A @ m # Y" "ext_sorted (A @ m # Y)"
      "\<forall>x \<in> set (A @ m # Y). ext_maps G (en_ei x)" "et_largest st2 = et_largest st1"
      "et_present st2 = et_present st1" "fi_no_extent st2 = fi_no_extent st1"
      by (rule merge_next_ok [OF mid y])
    show ?thesis by (rule fin [OF m(2-6) m(1) m(7,8)])
  next
    case False
    have "node_at st1 nxt = (case R of [] \<Rightarrow> None | y # _ \<Rightarrow> Some y)"
      using node_at_mid [of st1 "A @ M" "hd R" "tl R"] mid nxt by (cases R) (auto simp: merge_mid_def hd_addr_def)
    then have st2: "st2 = st1" "en2 = en1" using n False by (auto simp: merge_next_def split: list.splits)
    show ?thesis
    proof (cases M)
      case Nil
      then have "en1 = None" using mid by (simp add: merge_mid_def)
      then show ?thesis using out same [OF Nil] st2 by simp
    next
      case (Cons m M1)
      then have "M1 = []" "en1 = Some (en_addr m)" using mid by (auto simp: merge_mid_def)
      then show ?thesis using mid Cons st2 by (intro fin [of A m R]) (simp_all add: merge_mid_def)
    qed
  qed
qed

lemma free_step:
  "et_root st = n # R \<Longrightarrow> ext_base st \<Longrightarrow>
     et_root (release_extent_node st (en_addr n)) = R \<and> ext_base (release_extent_node st (en_addr n))"
  using release_root [of st "[]" n R] release_base [of st "[]" n R] by simp

lemma free_all:
  assumes "et_root st = R" "ext_base st"
  defines "st' \<equiv> fold (\<lambda>n st. release_extent_node st (en_addr n)) R st"
  shows "et_root st' = [] \<and> ext_base st' \<and> et_largest st' = et_largest st \<and> fi_no_extent st' = fi_no_extent st \<and>
    et_present st' = et_present st"
  using assms(1,2) unfolding st'_def
proof (induction R arbitrary: st)
  case (Cons n R)
  then show ?case using free_step [OF Cons.prems] by simp
qed simp

lemma free_extent_tree_empty:
  assumes "ext_base st"
  shows "et_root (fst (free_extent_tree st)) = []" "ext_base (fst (free_extent_tree st))"
    "et_largest (fst (free_extent_tree st)) = et_largest st" "fi_no_extent (fst (free_extent_tree st)) = fi_no_extent st"
    "et_present (fst (free_extent_tree st)) = et_present st"
    "snd (free_extent_tree st) = et_node_cnt st"
  using free_all [OF refl assms] unfolding free_extent_tree_def Let_def
  by (auto simp: ext_base_def)

lemma free_extent_tree_ok: "ext_ok G st \<Longrightarrow> ext_ok G (fst (free_extent_tree st))"
  using free_extent_tree_empty [of st] by (simp add: ext_ok_def)

lemma drop_largest_ok: "ext_ok G st \<Longrightarrow> ext_ok G (drop_largest_extent st a l)"
  by (auto simp: ext_ok_def) (simp add: drop_largest_extent_def Let_def)

lemma ext_ok_no_extent [simp]: "ext_ok G (st\<lparr>fi_no_extent := b\<rparr>) = ext_ok G st"
  by (simp add: ext_ok_def ext_base_def)

lemma store_ok:
  assumes inv: "ext_loop_inv F pos (pos + l) s L R" and far: "\<forall>n \<in> set R. pos + l \<le> en_ofs n"
    and l: "0 < l" and blk: "blk \<noteq> 0"
  shows "ext_ok (write_range F pos blk l) (ext_update_store alloc_ok s prev pos blk l) \<and>
    et_present (ext_update_store alloc_ok s prev pos blk l)"
proof -
  let ?G = "write_range F pos blk l" and ?ei = "set_extent_info pos blk l"
  have clr: "ext_clear ?G pos (pos + l) (l_st s) L R"
    using inv far by (intro ext_clear_write) (simp_all add: ext_loop_inv_def)
  have ei: "ei_fofs ?ei = pos" "pos + ei_len ?ei = pos + l" "ext_maps ?G ?ei" "pos < pos + l"
    using l blk by (simp_all add: set_extent_info_def ext_maps_def write_range_def)
  have prev: "l_prev s = None \<or> (L \<noteq> [] \<and> l_prev s = Some (en_addr (last L)))"
    using inv by (simp add: ext_loop_inv_def)
  have nxt: "l_next s = hd_addr R"
    using inv far by (cases R) (auto simp: ext_loop_inv_def)
  obtain st1 r where m: "try_merge_extent_node (l_st s) ?ei (l_prev s) (l_next s) = (st1, r)" by fastforce
  define st2 where "st2 = (case r of Some _ \<Rightarrow> st1 | None \<Rightarrow> fst (insert_extent_tree alloc_ok st1 ?ei (l_insert s)))"
  have "ext_ok ?G st2 \<and> et_present st2"
    using try_merge_ok [OF clr ei prev nxt m]
  proof (elim disjE conjE)
    assume r: "r = None" "st1 = l_st s"
    obtain st3 r3 where i: "insert_extent_tree alloc_ok (l_st s) ?ei (l_insert s) = (st3, r3)" by fastforce
    have c: "ext_base (l_st s)" "et_root (l_st s) = L @ R" "ext_sorted (L @ R)"
      "\<forall>n \<in> set (L @ R). ext_maps ?G (en_ei n)" "ext_maps ?G (et_largest (l_st s))"
      "\<forall>n \<in> set L. en_ofs n + en_len n \<le> ei_fofs ?ei" "\<forall>n \<in> set R. ei_fofs ?ei < en_ofs n"
      "\<forall>n \<in> set R. pos + l \<le> en_ofs n"
      using clr ei l by (auto simp: ext_clear_def)
    have p: "l_insert s = None \<or> l_insert s = Some (length L)" using inv by (auto simp: ext_loop_inv_def)
    note at = insert_at [OF c(1,2,6,7) p i]
    have "ext_sorted (L @ \<lparr>en_addr = a, en_ei = ?ei\<rparr> # R)" for a
      using c(3,6,8) l ei by (intro ext_sorted_mid) (simp_all add: set_extent_info_def)
    then have "ext_ok ?G st3"
      using at c(3,4,5) ei(3) unfolding ext_ok_def by (cases r3) auto
    moreover have "et_present st3" using at(2) inv by (simp add: ext_loop_inv_def)
    ultimately show ?thesis by (simp add: st2_def r i)
  next
    assume r: "r \<noteq> None" "ext_ok ?G st1" "et_present st1 = et_present (l_st s)"
    then show ?thesis using inv by (auto simp: st2_def ext_loop_inv_def)
  qed
  moreover have "ext_update_store alloc_ok s prev pos blk l =
      (if ei_len (l_dei s) \<ge> 1 \<and> ei_len prev < F2FS_MIN_EXTENT_LEN \<and> ei_len (et_largest st2) < F2FS_MIN_EXTENT_LEN
       then (drop_largest_extent st2 0 UINT_MAX)\<lparr>fi_no_extent := True\<rparr> else st2)"
    unfolding ext_update_store_def Let_def m st2_def by (cases r) auto
  ultimately show ?thesis by (simp add: drop_largest_ok)
qed

section \<open>Main results\<close>

lemma update_range_ok:
  assumes "ext_ok F st" "et_present st" "\<not> fi_no_extent st" "0 < l"
  shows "\<exists>st'. f2fs_update_extent_tree_range alloc_ok st fofs blk l = Some st' \<and>
    ext_ok (write_range F fofs blk l) st' \<and> et_present st'"
proof -
  let ?st = "drop_largest_extent st fofs l" and ?G = "write_range F fofs blk l"
  have s: "ext_base ?st" "ext_sorted (et_root ?st)" "\<forall>n \<in> set (et_root ?st). ext_maps F (en_ei n)"
    "ext_maps (cut fofs (fofs + l) F) (et_largest ?st)" "et_present ?st" "\<not> fi_no_extent ?st"
    using assms by (simp_all add: ext_ok_def drop_largest_maps)
  have pos: "fofs < fofs + l" using assms(4) by simp
  obtain L R where "ext_loop_inv F fofs (fofs + l) (ext_update_init ?st fofs) L R"
    using init_inv [OF s pos] by blast
  from loop_ends [OF this pos] obtain s' L' R' where
    loop: "ext_update_loop alloc_ok fofs (fofs + l) (ext_update_init ?st fofs) = Some s'" and
    inv: "ext_loop_inv F fofs (fofs + l) s' L' R'" and far: "\<forall>n \<in> set R'. fofs + l \<le> en_ofs n"
    by blast
  define st2 where "st2 = (if blk \<noteq> 0 then ext_update_store alloc_ok s' (et_largest st) fofs blk l else l_st s')"
  have clear: "ext_ok ?G (l_st s') \<and> et_present (l_st s')"
    using inv far ext_clear_ok [OF ext_clear_write] by (auto simp: ext_loop_inv_def)
  have "ext_ok ?G st2 \<and> et_present st2"
    using clear store_ok [OF inv far assms(4)] by (cases "blk = 0") (auto simp: st2_def)
  moreover from this have "et_present (fst (free_extent_tree st2))"
    using free_extent_tree_empty(5) by (simp add: ext_ok_def)
  moreover have "f2fs_update_extent_tree_range alloc_ok st fofs blk l =
      Some (if fi_no_extent st2 then fst (free_extent_tree st2) else st2)"
    using assms(2,3) loop by (simp add: f2fs_update_extent_tree_range_def Let_def st2_def)
  ultimately show ?thesis by (simp add: free_extent_tree_ok)
qed

text \<open>
  Property C4. \<^verbatim>\<open>f2fs_update_extent_tree_range\<close> always returns, whichever allocations fail. If before
  the call the tree is sorted, its nodes and the largest extent agree with the file's mapping
  and the bookkeeping is right, then afterwards all of that holds for the mapping in which the range
  has been remapped (or unmapped, for a null block address), and no assertion has fired.
\<close>

theorem f2fs_update_extent_tree_range_ok:
  assumes "ext_ok F st" "et_present st" "\<not> fi_no_extent st" "0 < l"
  shows "\<exists>st'. f2fs_update_extent_tree_range alloc_ok st fofs blk l = Some st' \<and>
    ext_ok (write_range F fofs blk l) st' \<and> et_present st'"
  using assms by (rule update_range_ok)

definition demo_extent_st :: extent_st where
  "demo_extent_st =
     \<lparr>et_present = True, et_root = [\<lparr>en_addr = 0, en_ei = \<lparr>ei_fofs = 0, ei_len = 200, ei_blk = 1000\<rparr>\<rparr>],
      et_cached = Some 0, et_largest = \<lparr>ei_fofs = 0, ei_len = 200, ei_blk = 1000\<rparr>, et_node_cnt = 1,
      total_ext_node = 1, extent_list = [0], fi_no_extent = False, inode_dirty = False, need_fsck = False,
      slab_next = 1\<rparr>"

lemma demo_extent_ok: "ext_ok (\<lambda>p. if p < 200 then Some (1000 + p) else None) demo_extent_st"
  by (simp add: ext_ok_def ext_base_def demo_extent_st_def rb_sorted_Cons ext_maps_def)

theorem f2fs_update_extent_tree_range_ok_witness:
  "\<exists>st'. f2fs_update_extent_tree_range (\<lambda>a. True) demo_extent_st 100 5000 10 = Some st' \<and>
     ext_ok (write_range (\<lambda>p. if p < 200 then Some (1000 + p) else None) 100 5000 10) st'"
  using f2fs_update_extent_tree_range_ok [OF demo_extent_ok, of 10 "\<lambda>a. True" 100 5000]
  by (auto simp: demo_extent_st_def)

lemma rb_find_SomeD:
  "rb_find eofs elen xs p = Some n \<Longrightarrow> n \<in> set xs \<and> eofs n \<le> p \<and> p < eofs n + elen n"
  by (auto simp: rb_find_def find_Some_iff)

lemma ext_maps_at: "ext_maps F e \<Longrightarrow> ei_fofs e \<le> p \<Longrightarrow> p < ei_fofs e + ei_len e \<Longrightarrow> F p = Some (ei_blk e + (p - ei_fofs e))"
  unfolding ext_maps_def by (metis add_less_cancel_left le_add_diff_inverse)

lemma lookup_extent_tree_ok:
  assumes ok: "ext_ok F st" and p: "et_present st" and res: "f2fs_lookup_extent_tree st pgofs = (st', r)"
  shows "ext_ok F st' \<and> et_present st' \<and> fi_no_extent st' = fi_no_extent st \<and>
    (\<forall>e. r = Some e \<longrightarrow> ei_fofs e \<le> pgofs \<and> pgofs < ei_fofs e + ei_len e \<and>
       F pgofs = Some (ei_blk e + (pgofs - ei_fofs e)))"
proof (cases "rb_find en_ofs en_len (et_root st) pgofs")
  case None
  then show ?thesis
    using ok p res ext_maps_at [of F "et_largest st" pgofs]
    by (auto simp: f2fs_lookup_extent_tree_def f2fs_bug_on_def Let_def ext_ok_def split: if_splits)
next
  case (Some n)
  note n = rb_find_SomeD [OF Some]
  then have "ext_base (touch_extent_node st (en_addr n))" using ok by (intro touch_base) (auto simp: ext_ok_def)
  with n Some show ?thesis
    using ok p res ext_maps_at [of F "et_largest st" pgofs] ext_maps_at [of F "en_ei n" pgofs]
    by (auto simp: f2fs_lookup_extent_tree_def f2fs_bug_on_def Let_def ext_ok_def split: if_splits)
qed

text \<open>
  A lookup answers exactly when the cache covers the offset, by the largest
  extent or a node of the tree. The extent it returns contains the offset and gives the block the
  file really maps it to; tree, mapping and the absence of assertion failures are kept.
\<close>

theorem f2fs_lookup_extent_tree_ok:
  assumes "ext_ok F st" and "et_present st"
  shows "\<exists>st' r. f2fs_lookup_extent_tree st pgofs = (st', r) \<and> ext_ok F st' \<and> et_root st' = et_root st \<and>
    (r \<noteq> None \<longleftrightarrow> (\<exists>e \<in> insert (et_largest st) (en_ei ` set (et_root st)).
        ei_fofs e \<le> pgofs \<and> pgofs < ei_fofs e + ei_len e)) \<and>
    (\<forall>e. r = Some e \<longrightarrow> ei_fofs e \<le> pgofs \<and> pgofs < ei_fofs e + ei_len e \<and>
       F pgofs = Some (ei_blk e + (pgofs - ei_fofs e)))"
proof -
  obtain st' r where res: "f2fs_lookup_extent_tree st pgofs = (st', r)" by fastforce
  have root: "et_root st' = et_root st"
    using res assms(2) by (auto simp: f2fs_lookup_extent_tree_def f2fs_bug_on_def Let_def split: if_splits option.splits)
  have "r \<noteq> None \<longleftrightarrow> (\<exists>e \<in> insert (et_largest st) (en_ei ` set (et_root st)).
        ei_fofs e \<le> pgofs \<and> pgofs < ei_fofs e + ei_len e)"
  proof (cases "rb_find en_ofs en_len (et_root st) pgofs")
    case None
    then have "\<forall>n \<in> set (et_root st). \<not> (en_ofs n \<le> pgofs \<and> pgofs < en_ofs n + en_len n)"
      by (auto simp: rb_find_def find_None_iff)
    with None show ?thesis
      using res assms(2) by (auto simp: f2fs_lookup_extent_tree_def f2fs_bug_on_def Let_def split: if_splits)
  next
    case (Some n)
    then show ?thesis
      using res assms(2) rb_find_SomeD [OF Some]
      by (auto simp: f2fs_lookup_extent_tree_def f2fs_bug_on_def Let_def split: if_splits)
  qed
  with lookup_extent_tree_ok [OF assms res] res root show ?thesis by blast
qed

theorem f2fs_lookup_extent_tree_ok_witness:
  "\<exists>st' e. f2fs_lookup_extent_tree demo_extent_st 150 = (st', Some e) \<and> ei_blk e + (150 - ei_fofs e) = 1150"
proof -
  have "et_present demo_extent_st" by (simp add: demo_extent_st_def)
  from f2fs_lookup_extent_tree_ok [OF demo_extent_ok this, of 150] show ?thesis
    by (auto simp: demo_extent_st_def)
qed

section \<open>A cache seen by its clients\<close>

text \<open>
  What the read and write paths rely on: an answer of the cache is the file's mapping, and every
  change of the mapping that is told to the cache is followed.
\<close>

datatype cache_op = Lookup nat | Update nat nat nat

fun mapping_after :: "(nat \<rightharpoonup> nat) \<Rightarrow> cache_op list \<Rightarrow> (nat \<rightharpoonup> nat)" where
  "mapping_after F [] = F"
| "mapping_after F (Lookup p # xs) = mapping_after F xs"
| "mapping_after F (Update a b l # xs) = mapping_after (write_range F a b l) xs"

fun cache_run ::
  "('s \<Rightarrow> nat \<Rightarrow> 's \<times> extent_info option) \<Rightarrow> ('s \<Rightarrow> nat \<Rightarrow> nat \<Rightarrow> nat \<Rightarrow> 's option) \<Rightarrow> cache_op list \<Rightarrow> 's \<Rightarrow> 's option" where
  "cache_run lookup update [] s = Some s"
| "cache_run lookup update (Lookup p # xs) s = cache_run lookup update xs (fst (lookup s p))"
| "cache_run lookup update (Update a b l # xs) s = Option.bind (update s a b l) (cache_run lookup update xs)"

definition op_ok :: "cache_op \<Rightarrow> bool" where
  "op_ok x = (case x of Lookup p \<Rightarrow> True | Update a b l \<Rightarrow> 0 < l)"

locale block_cache =
  fixes inv :: "(nat \<rightharpoonup> nat) \<Rightarrow> 's \<Rightarrow> bool"
    and lookup :: "'s \<Rightarrow> nat \<Rightarrow> 's \<times> extent_info option"
    and update :: "'s \<Rightarrow> nat \<Rightarrow> nat \<Rightarrow> nat \<Rightarrow> 's option"
  assumes lookup_inv: "inv F s \<Longrightarrow> inv F (fst (lookup s p))"
    and lookup_sound: "inv F s \<Longrightarrow> snd (lookup s p) = Some e \<Longrightarrow>
      ei_fofs e \<le> p \<and> p < ei_fofs e + ei_len e \<and> F p = Some (ei_blk e + (p - ei_fofs e))"
    and update_inv: "inv F s \<Longrightarrow> 0 < l \<Longrightarrow> \<exists>s'. update s a b l = Some s' \<and> inv (write_range F a b l) s'"
begin

lemma run_inv:
  "inv F s \<Longrightarrow> list_all op_ok ops \<Longrightarrow> \<exists>s'. cache_run lookup update ops s = Some s' \<and> inv (mapping_after F ops) s'"
proof (induction F ops arbitrary: s rule: mapping_after.induct)
  case (2 F p xs)
  then show ?case using lookup_inv by simp
next
  case (3 F a b l xs)
  then obtain s' where "update s a b l = Some s'" "inv (write_range F a b l) s'"
    using update_inv [of F s l a b] by (auto simp: op_ok_def)
  then show ?case using 3 by simp
qed simp

lemma run_coherent:
  assumes "inv F s" "list_all op_ok ops"
  shows "\<exists>s'. cache_run lookup update ops s = Some s' \<and>
    (\<forall>p e. snd (lookup s' p) = Some e \<longrightarrow> mapping_after F ops p = Some (ei_blk e + (p - ei_fofs e)))"
  using run_inv [OF assms] lookup_sound by blast

end

text \<open>The extent cache is such a cache, as long as it is in use; once given up it never answers.\<close>

definition cache_inv :: "bool \<Rightarrow> bool \<Rightarrow> (nat \<rightharpoonup> nat) \<Rightarrow> extent_st \<Rightarrow> bool" where
  "cache_inv opt reg F st \<longleftrightarrow> fi_no_extent st \<or> (opt \<and> reg \<and> et_present st \<and> ext_ok F st)"

interpretation ec: block_cache "cache_inv opt reg" "f2fs_lookup_extent_cache opt reg"
  "f2fs_update_extent_cache_range alloc_ok opt reg" for opt reg alloc_ok
proof
  fix F st p
  assume inv: "cache_inv opt reg F st"
  obtain st' r where res: "f2fs_lookup_extent_tree st p = (st', r)" by fastforce
  show "cache_inv opt reg F (fst (f2fs_lookup_extent_cache opt reg st p))"
    using inv lookup_extent_tree_ok [OF _ _ res] res
    by (auto simp: cache_inv_def f2fs_lookup_extent_cache_def f2fs_may_extent_tree_def)
  fix e assume "snd (f2fs_lookup_extent_cache opt reg st p) = Some e"
  then show "ei_fofs e \<le> p \<and> p < ei_fofs e + ei_len e \<and> F p = Some (ei_blk e + (p - ei_fofs e))"
    using inv lookup_extent_tree_ok [OF _ _ res, of F] res
    by (auto simp: cache_inv_def f2fs_lookup_extent_cache_def f2fs_may_extent_tree_def split: if_splits)
next
  fix F st and l a b :: nat
  assume inv: "cache_inv opt reg F st" and l: "0 < l"
  show "\<exists>st'. f2fs_update_extent_cache_range alloc_ok opt reg st a b l = Some st' \<and>
      cache_inv opt reg (write_range F a b l) st'"
  proof (cases "fi_no_extent st")
    case False
    then have s: "ext_ok F st" "et_present st" "opt" "reg" using inv by (auto simp: cache_inv_def)
    from update_range_ok [OF s(1,2) False l] show ?thesis
      using False s by (simp add: f2fs_update_extent_cache_range_def f2fs_may_extent_tree_def cache_inv_def) blast
  qed (use inv in \<open>auto simp: cache_inv_def f2fs_update_extent_cache_range_def f2fs_may_extent_tree_def\<close>)
qed

lemma init_extent_tree_inv:
  assumes ok: "ext_ok F st" "\<not> fi_no_extent st" and ext: "\<forall>e. i_ext = Some e \<longrightarrow> ext_maps F e"
    and fresh: "opt \<and> reg \<or> \<not> et_present st"
  shows "cache_inv opt reg F (fst (f2fs_init_extent_tree alloc_ok (f2fs_may_extent_tree opt reg st) st i_ext))"
proof (cases "opt \<and> reg \<and> et_node_cnt st = 0 \<and> (\<exists>e. i_ext = Some e \<and> ei_len e \<noteq> 0)")
  case True
  then obtain e where e: "i_ext = Some e" "ei_len e \<noteq> 0" by blast
  let ?s = "st\<lparr>et_present := True\<rparr>"
  have s: "ext_base ?s" "et_root ?s = [] @ []" using ok(1) True by (auto simp: ext_ok_def ext_base_def)
  obtain st1 r where at: "attach_extent_node alloc_ok ?s e 0 = (st1, r)" by fastforce
  note a = attach_at [OF s, of 0 alloc_ok e st1 r, OF _ at, simplified]
  have base: "ext_base (x\<lparr>et_largest := v\<rparr>) = ext_base x" for x v by (simp add: ext_base_def)
  show ?thesis
  proof (cases r)
    case None
    then show ?thesis using True e at a ok ext
      by (auto simp: cache_inv_def f2fs_init_extent_tree_def f2fs_may_extent_tree_def init_extent_tree_def ext_ok_def Let_def)
  next
    case (Some b)
    let ?x = "st1\<lparr>extent_list := extent_list st1 @ [b], et_cached := Some b\<rparr>\<lparr>et_largest := e\<rparr>"
    have b: "ext_base ?x" "et_root ?x = [\<lparr>en_addr = b, en_ei = e\<rparr>]"
      using a Some base by auto
    have "ext_ok F ?x" unfolding ext_ok_def b(2) using b(1) e ext by (simp add: rb_sorted_Cons)
    moreover have "fst (f2fs_init_extent_tree alloc_ok (f2fs_may_extent_tree opt reg st) st i_ext) = ?x"
      using True e at Some a ok(2)
      by (simp add: f2fs_init_extent_tree_def f2fs_may_extent_tree_def init_extent_tree_def Let_def)
    ultimately show ?thesis using True a by (simp add: cache_inv_def)
  qed
next
  case False
  have "ext_ok F (st\<lparr>et_present := b\<rparr>) = ext_ok F st" for b by (simp add: ext_ok_def ext_base_def)
  with False ok fresh show ?thesis
    by (auto simp: cache_inv_def f2fs_init_extent_tree_def f2fs_may_extent_tree_def Let_def split: option.splits)
qed

text \<open>
  Property C19. Coherence of the extent cache. When an inode is opened with a stored extent that
  agrees with the file's mapping, then after any sequence of lookups and of mapping updates, with
  any pattern of allocation failures, every update has returned and a lookup that answers gives the
  block the file is mapped to by then. This also holds for a file the cache is not used for or has
  been given up for.
\<close>

theorem f2fs_extent_cache_coherent:
  assumes "ext_ok F st" "\<not> fi_no_extent st" and "\<forall>e. i_ext = Some e \<longrightarrow> ext_maps F e"
    and "opt \<and> reg \<or> \<not> et_present st" and "list_all op_ok ops"
  shows "\<exists>st'. cache_run (f2fs_lookup_extent_cache opt reg) (f2fs_update_extent_cache_range alloc_ok opt reg) ops
      (fst (f2fs_init_extent_tree alloc_ok (f2fs_may_extent_tree opt reg st) st i_ext)) = Some st' \<and>
    (\<forall>p e. snd (f2fs_lookup_extent_cache opt reg st' p) = Some e \<longrightarrow>
       mapping_after F ops p = Some (ei_blk e + (p - ei_fofs e)))"
  using ec.run_coherent [OF init_extent_tree_inv [OF assms(1-4)] assms(5)] .

definition empty_extent_st :: extent_st where
  "empty_extent_st =
     \<lparr>et_present = False, et_root = [], et_cached = None, et_largest = \<lparr>ei_fofs = 0, ei_len = 0, ei_blk = 0\<rparr>,
      et_node_cnt = 0, total_ext_node = 0, extent_list = [], fi_no_extent = False, inode_dirty = False,
      need_fsck = False, slab_next = 0\<rparr>"

theorem f2fs_extent_cache_coherent_witness:
  "\<exists>st'. cache_run (f2fs_lookup_extent_cache True True) (f2fs_update_extent_cache_range (\<lambda>a. a \<noteq> 1) True True)
      [Update 0 100 80, Update 20 0 1, Lookup 3]
      (fst (f2fs_init_extent_tree (\<lambda>a. a \<noteq> 1) (f2fs_may_extent_tree True True empty_extent_st) empty_extent_st None)) = Some st' \<and>
    (\<forall>p e. snd (f2fs_lookup_extent_cache True True st' p) = Some e \<longrightarrow>
       mapping_after (\<lambda>_. None) [Update 0 100 80, Update 20 0 1, Lookup 3] p = Some (ei_blk e + (p - ei_fofs e)))"
  by (rule f2fs_extent_cache_coherent) (simp_all add: empty_extent_st_def ext_ok_def ext_base_def op_ok_def)

text \<open>
  Property C36. Dropping and destroying a tree. \<^verbatim>\<open>__free_extent_tree\<close> releases every node, reports how
  many there were and leaves all counters at zero, so the assertion of \<^verbatim>\<open>f2fs_destroy_extent_tree\<close>
  never fires. \<^verbatim>\<open>f2fs_drop_extent_tree\<close> leaves an empty tree and no largest extent, and dereferences a
  null pointer exactly when the inode has no tree.
\<close>

theorem f2fs_extent_teardown:
  assumes "ext_base st"
  shows "et_root (fst (free_extent_tree st)) = [] \<and> et_node_cnt (fst (free_extent_tree st)) = 0 \<and>
    snd (free_extent_tree st) = int (length (et_root st)) \<and> ext_base (fst (free_extent_tree st)) \<and>
    \<not> need_fsck (fst (f2fs_destroy_extent_tree st i_nlink bad)) \<and>
    (snd (f2fs_destroy_extent_tree st i_nlink bad) \<or> et_root (fst (f2fs_destroy_extent_tree st i_nlink bad)) = []
       \<or> \<not> et_present st) \<and>
    (f2fs_drop_extent_tree st = None \<longleftrightarrow> \<not> et_present st) \<and>
    (\<forall>st'. f2fs_drop_extent_tree st = Some st' \<longrightarrow> et_root st' = [] \<and> fi_no_extent st' \<and> ext_base st' \<and>
       (ei_fofs (et_largest st) < UINT_MAX \<longrightarrow> ei_len (et_largest st') = 0))"
proof -
  note f = free_extent_tree_empty [OF assms]
  let ?s = "st\<lparr>fi_no_extent := True\<rparr>"
  have "ext_base ?s" using assms by (simp add: ext_base_def)
  note g = free_extent_tree_empty [OF this]
  have cnt: "et_node_cnt (fst (free_extent_tree st)) = 0" "\<not> need_fsck (fst (free_extent_tree st))"
    using f(1,2) by (simp_all add: ext_base_def)
  have root: "et_node_cnt st = int (length (et_root st))" "\<not> need_fsck st" using assms by (simp_all add: ext_base_def)
  have d: "\<not> need_fsck (fst (f2fs_destroy_extent_tree st i_nlink bad))"
    "snd (f2fs_destroy_extent_tree st i_nlink bad) \<or> et_root (fst (f2fs_destroy_extent_tree st i_nlink bad)) = [] \<or> \<not> et_present st"
    using f(1) cnt root by (auto simp: f2fs_destroy_extent_tree_def f2fs_destroy_extent_node_def f2fs_bug_on_def Let_def)
  have "f2fs_drop_extent_tree st = None \<longleftrightarrow> \<not> et_present st" by (simp add: f2fs_drop_extent_tree_def)
  moreover have "et_root st' = [] \<and> fi_no_extent st' \<and> ext_base st' \<and>
       (ei_fofs (et_largest st) < UINT_MAX \<longrightarrow> ei_len (et_largest st') = 0)"
    if "f2fs_drop_extent_tree st = Some st'" for st'
  proof -
    from that have st': "st' = drop_largest_extent (fst (free_extent_tree ?s)) 0 UINT_MAX"
      by (auto simp: f2fs_drop_extent_tree_def split: if_splits)
    show ?thesis using g by (simp add: st') (simp add: drop_largest_extent_def Let_def)
  qed
  ultimately show ?thesis using f(1,2,6) cnt root(1) d by simp
qed

theorem f2fs_extent_teardown_witness:
  "et_node_cnt (fst (free_extent_tree demo_extent_st)) = 0"
proof -
  have "ext_base demo_extent_st" using demo_extent_ok by (simp add: ext_ok_def)
  from f2fs_extent_teardown [OF this] show ?thesis by blast
qed

end
