(* ===== verification/Bitmap.thy ===== *)
theory Bitmap
  imports F2fs_Prelude
begin

text \<open>
  Bitmaps stored in byte arrays. \<^verbatim>\<open>f2fs.h\<close> defines its own bit operations that number the bits
  of a byte from the most significant one (used for the SIT validity maps and the SIT/NAT version
  bitmaps); the directory code uses the kernel's little-endian bit operations, that number them
  from the least significant one. Both meet the interface \<open>bit_array\<close> below, in which the
  counting lemmas the clients need are proved once.
\<close>

section \<open>The f2fs bit operations (most significant bit first)\<close>

definition f2fs_mask :: "nat \<Rightarrow> u8" where
  "f2fs_mask nr = push_bit (7 - (nr mod 8)) 1"

definition f2fs_test_bit :: "nat \<Rightarrow> u8 list \<Rightarrow> u8" where
  "f2fs_test_bit nr addr = f2fs_mask nr AND arr_get 0 addr (nr div 8)"

definition f2fs_set_bit :: "nat \<Rightarrow> u8 list \<Rightarrow> u8 list" where
  "f2fs_set_bit nr addr = addr[nr div 8 := arr_get 0 addr (nr div 8) OR f2fs_mask nr]"

definition f2fs_clear_bit :: "nat \<Rightarrow> u8 list \<Rightarrow> u8 list" where
  "f2fs_clear_bit nr addr = addr[nr div 8 := arr_get 0 addr (nr div 8) AND NOT (f2fs_mask nr)]"

definition f2fs_test_and_set_bit :: "nat \<Rightarrow> u8 list \<Rightarrow> u8 \<times> u8 list" where
  "f2fs_test_and_set_bit nr addr =
     (f2fs_mask nr AND arr_get 0 addr (nr div 8),
      addr[nr div 8 := arr_get 0 addr (nr div 8) OR f2fs_mask nr])"

definition f2fs_test_and_clear_bit :: "nat \<Rightarrow> u8 list \<Rightarrow> u8 \<times> u8 list" where
  "f2fs_test_and_clear_bit nr addr =
     (f2fs_mask nr AND arr_get 0 addr (nr div 8),
      addr[nr div 8 := arr_get 0 addr (nr div 8) AND NOT (f2fs_mask nr)])"

definition f2fs_change_bit :: "nat \<Rightarrow> u8 list \<Rightarrow> u8 list" where
  "f2fs_change_bit nr addr = addr[nr div 8 := arr_get 0 addr (nr div 8) XOR f2fs_mask nr]"

text \<open>The kernel's little-endian bit operations on byte arrays.\<close>

definition test_bit_le :: "nat \<Rightarrow> u8 list \<Rightarrow> bool" where
  "test_bit_le nr addr = bit (arr_get 0 addr (nr div 8)) (nr mod 8)"

definition set_bit_le :: "nat \<Rightarrow> u8 list \<Rightarrow> u8 list" where
  "set_bit_le nr addr = addr[nr div 8 := set_bit (nr mod 8) (arr_get 0 addr (nr div 8))]"

definition clear_bit_le :: "nat \<Rightarrow> u8 list \<Rightarrow> u8 list" where
  "clear_bit_le nr addr = addr[nr div 8 := unset_bit (nr mod 8) (arr_get 0 addr (nr div 8))]"

section \<open>The interface of a bit array\<close>

definition bit_count :: "(nat \<Rightarrow> bool) \<Rightarrow> nat \<Rightarrow> nat" where
  "bit_count p n = length (filter p [0..<n])"

lemma bit_count_card: "bit_count p n = card {i. i < n \<and> p i}"
  by (simp add: bit_count_def length_filter_conv_card cong: conj_cong)

lemma bit_count_le: "bit_count p n \<le> n"
  by (simp add: bit_count_def) (metis diff_zero length_filter_le length_upt)

lemma bit_count_cong: "n = m \<Longrightarrow> (\<And>i. i < m \<Longrightarrow> p i = q i) \<Longrightarrow> bit_count p n = bit_count q m"
  by (auto simp: bit_count_card intro: arg_cong [where f = card])

lemma bit_count_flip_on:
  assumes "i < n" "\<not> p i"
  shows "bit_count (\<lambda>j. j = i \<or> p j) n = Suc (bit_count p n)"
proof -
  have "{j. j < n \<and> (j = i \<or> p j)} = insert i {j. j < n \<and> p j}" using assms by auto
  with assms show ?thesis by (simp add: bit_count_card)
qed

lemma bit_count_flip_off:
  assumes "i < n" "p i"
  shows "bit_count p n = Suc (bit_count (\<lambda>j. j \<noteq> i \<and> p j) n)"
proof -
  have "{j. j < n \<and> p j} = insert i {j. j < n \<and> (j \<noteq> i \<and> p j)}" using assms by auto
  with assms show ?thesis by (simp add: bit_count_card)
qed

locale bit_array =
  fixes nbits :: "'m \<Rightarrow> nat"
    and tst :: "nat \<Rightarrow> 'm \<Rightarrow> bool"
    and put :: "nat \<Rightarrow> 'm \<Rightarrow> 'm"
    and clr :: "nat \<Rightarrow> 'm \<Rightarrow> 'm"
  assumes nbits_put [simp]: "nbits (put i m) = nbits m"
    and nbits_clr [simp]: "nbits (clr i m) = nbits m"
    and tst_put: "i < nbits m \<Longrightarrow> tst j (put i m) = (j = i \<or> tst j m)"
    and tst_clr: "i < nbits m \<Longrightarrow> tst j (clr i m) = (j \<noteq> i \<and> tst j m)"
begin

lemma count_put:
  assumes "i < n" "n \<le> nbits m"
  shows "bit_count (\<lambda>j. tst j (put i m)) n =
           (if tst i m then bit_count (\<lambda>j. tst j m) n else Suc (bit_count (\<lambda>j. tst j m) n))"
proof -
  have "i < nbits m" using assms by simp
  then have "(\<lambda>j. tst j (put i m)) = (\<lambda>j. j = i \<or> tst j m)" by (simp add: tst_put)
  moreover have "tst i m \<Longrightarrow> (\<lambda>j. j = i \<or> tst j m) = (\<lambda>j. tst j m)" by auto
  ultimately show ?thesis using assms by (auto simp: bit_count_flip_on)
qed

lemma count_clr:
  assumes "i < n" "n \<le> nbits m"
  shows "bit_count (\<lambda>j. tst j (clr i m)) n =
           (if tst i m then bit_count (\<lambda>j. tst j m) n - 1 else bit_count (\<lambda>j. tst j m) n)"
proof -
  have "i < nbits m" using assms by simp
  then have eq: "(\<lambda>j. tst j (clr i m)) = (\<lambda>j. j \<noteq> i \<and> tst j m)" by (simp add: tst_clr)
  show ?thesis
  proof (cases "tst i m")
    case True
    with assms show ?thesis by (simp add: eq bit_count_flip_off [of i n "\<lambda>j. tst j m"])
  next
    case False
    then have "(\<lambda>j. j \<noteq> i \<and> tst j m) = (\<lambda>j. tst j m)" by auto
    with False show ?thesis by (simp add: eq)
  qed
qed

lemma nbits_fold_put [simp]: "nbits (fold put is m) = nbits m"
  by (induction "is" arbitrary: m) auto

lemma tst_fold_put:
  assumes "\<forall>i \<in> set is. i < nbits m"
  shows "tst j (fold put is m) = (j \<in> set is \<or> tst j m)"
  using assms by (induction "is" arbitrary: m) (auto simp: tst_put)

lemma nbits_fold_clr [simp]: "nbits (fold clr is m) = nbits m"
  by (induction "is" arbitrary: m) auto

lemma tst_fold_clr:
  assumes "\<forall>i \<in> set is. i < nbits m"
  shows "tst j (fold clr is m) = (j \<notin> set is \<and> tst j m)"
  using assms by (induction "is" arbitrary: m) (auto simp: tst_clr)

end

section \<open>Both bit orders meet the interface\<close>

lemma f2fs_mask_bit: "k < 8 \<Longrightarrow> bit (f2fs_mask nr) k = (k = 7 - nr mod 8)"
  by (auto simp: f2fs_mask_def bit_simps)

lemma f2fs_test_bit_nonzero:
  "f2fs_test_bit nr addr \<noteq> 0 \<longleftrightarrow> bit (arr_get 0 addr (nr div 8)) (7 - nr mod 8)"
proof -
  have "f2fs_test_bit nr addr \<noteq> 0 \<longleftrightarrow> (\<exists>k<8. bit (f2fs_test_bit nr addr) k)"
    by (auto intro: bit_word_eqI simp: bit_eq_iff dest: bit_imp_le_length)
  also have "\<dots> \<longleftrightarrow> bit (arr_get 0 addr (nr div 8)) (7 - nr mod 8)"
    by (auto simp: f2fs_test_bit_def bit_and_iff f2fs_mask_bit intro: exI [where x = "7 - nr mod 8"])
  finally show ?thesis .
qed

lemma bit_slot_eq: "(i::nat) div 8 = j div 8 \<Longrightarrow> i mod 8 = j mod 8 \<Longrightarrow> i = j"
  by (metis div_mult_mod_eq)

lemma msb_slot_eq: "(i::nat) div 8 = j div 8 \<Longrightarrow> 7 - i mod 8 = 7 - j mod 8 \<Longrightarrow> i = j"
proof (rule bit_slot_eq)
  assume "7 - i mod 8 = 7 - j mod 8"
  moreover have "i mod 8 < 8" "j mod 8 < 8" by simp_all
  ultimately show "i mod 8 = j mod 8" by linarith
qed

lemma slot_in_range: "i < 8 * length addr \<Longrightarrow> i div 8 < length addr"
  by (simp add: less_mult_imp_div_less mult.commute)

interpretation msb: bit_array "\<lambda>m. 8 * length m" "\<lambda>i m. f2fs_test_bit i m \<noteq> 0" f2fs_set_bit f2fs_clear_bit
proof (unfold_locales, goal_cases)
  case (3 i m j)
  then show ?case
    by (auto simp: f2fs_test_bit_nonzero f2fs_set_bit_def arr_get_update slot_in_range bit_or_iff
        f2fs_mask_bit dest: msb_slot_eq)
next
  case (4 i m j)
  then show ?case
    by (auto simp: f2fs_test_bit_nonzero f2fs_clear_bit_def arr_get_update slot_in_range bit_and_iff
        bit_not_iff f2fs_mask_bit dest: msb_slot_eq)
qed (simp_all add: f2fs_set_bit_def f2fs_clear_bit_def)

interpretation lsb: bit_array "\<lambda>m. 8 * length m" test_bit_le set_bit_le clear_bit_le
proof (unfold_locales, goal_cases)
  case (3 i m j)
  then show ?case
    by (auto simp: test_bit_le_def set_bit_le_def arr_get_update slot_in_range bit_set_bit_iff
        dest: bit_slot_eq)
next
  case (4 i m j)
  then show ?case
    by (auto simp: test_bit_le_def clear_bit_le_def arr_get_update slot_in_range bit_unset_bit_iff
        dest: bit_slot_eq)
qed (simp_all add: set_bit_le_def clear_bit_le_def)

lemma f2fs_change_bit_test:
  assumes "i < 8 * length m"
  shows "f2fs_test_bit j (f2fs_change_bit i m) \<noteq> 0 \<longleftrightarrow> (f2fs_test_bit j m \<noteq> 0) = (j \<noteq> i)"
  using assms
  by (auto simp: f2fs_test_bit_nonzero f2fs_change_bit_def arr_get_update slot_in_range bit_xor_iff
      f2fs_mask_bit dest: msb_slot_eq)

lemma length_f2fs_set_bit [simp]: "length (f2fs_set_bit i m) = length m"
  by (simp add: f2fs_set_bit_def)

lemma length_f2fs_clear_bit [simp]: "length (f2fs_clear_bit i m) = length m"
  by (simp add: f2fs_clear_bit_def)

lemma length_f2fs_change_bit [simp]: "length (f2fs_change_bit i m) = length m"
  by (simp add: f2fs_change_bit_def)

lemma f2fs_test_and_set_bit_split:
  "f2fs_test_and_set_bit i m = (f2fs_test_bit i m, f2fs_set_bit i m)"
  by (simp add: f2fs_test_and_set_bit_def f2fs_test_bit_def f2fs_set_bit_def)

lemma f2fs_test_and_clear_bit_split:
  "f2fs_test_and_clear_bit i m = (f2fs_test_bit i m, f2fs_clear_bit i m)"
  by (simp add: f2fs_test_and_clear_bit_def f2fs_test_bit_def f2fs_clear_bit_def)

end
