(* ===== verification/Rev_Bits.thy ===== *)
theory Rev_Bits
  imports Bitmap
begin

text \<open>
  Word-at-a-time search in the reversed bitmaps (\<^verbatim>\<open>segment.c\<close>): bytes numbered from their most
  significant bit are read as one 64-bit number, most significant byte first, in which the first bit
  is the top one. The searches are proved equal to trying the bits one after the other, which is also
  how the kernel's own \<^verbatim>\<open>find_next_bit\<close> and \<^verbatim>\<open>find_next_zero_bit\<close> are described.
\<close>

section \<open>Searching bit by bit\<close>

definition find_next_bit :: "(nat \<Rightarrow> bool) \<Rightarrow> nat \<Rightarrow> nat \<Rightarrow> nat" where
  "find_next_bit p sz offset = (case find p [offset..<sz] of Some i \<Rightarrow> i | None \<Rightarrow> sz)"

definition find_next_zero_bit :: "(nat \<Rightarrow> bool) \<Rightarrow> nat \<Rightarrow> nat \<Rightarrow> nat" where
  "find_next_zero_bit p sz offset = find_next_bit (\<lambda>i. \<not> p i) sz offset"

lemma find_upt_SomeD:
  assumes "find p [a..<b] = Some i"
  shows "a \<le> i \<and> i < b \<and> p i \<and> (\<forall>j. a \<le> j \<and> j < i \<longrightarrow> \<not> p j)"
proof -
  from assms obtain n where n: "n < length [a..<b]" "p ([a..<b] ! n)" "i = [a..<b] ! n"
    "\<forall>m < n. \<not> p ([a..<b] ! m)" by (auto simp: find_Some_iff)
  then have i: "i = a + n" "a + n < b" by (auto simp: nth_upt)
  have "\<not> p j" if "a \<le> j" "j < i" for j
    using n(4) [rule_format, of "j - a"] that i by simp
  with n i show ?thesis by auto
qed

lemma find_next_bit_hit:
  assumes "offset \<le> i" "i < sz" "p i" "\<And>j. offset \<le> j \<Longrightarrow> j < i \<Longrightarrow> \<not> p j"
  shows "find_next_bit p sz offset = i"
proof (cases "find p [offset..<sz]")
  case None
  then show ?thesis using assms(1-3) by (auto simp: find_None_iff)
next
  case (Some k)
  note k = find_upt_SomeD [OF Some]
  have "k = i" using k assms by (metis linorder_neqE_nat)
  then show ?thesis by (simp add: find_next_bit_def Some)
qed

lemma find_next_bit_none:
  "(\<And>j. offset \<le> j \<Longrightarrow> j < sz \<Longrightarrow> \<not> p j) \<Longrightarrow> find_next_bit p sz offset = sz"
  by (cases "find p [offset..<sz]") (auto simp: find_next_bit_def dest: find_upt_SomeD)

lemma find_next_bit_skip:
  assumes "offset \<le> m" "m \<le> sz" "\<And>j. offset \<le> j \<Longrightarrow> j < m \<Longrightarrow> \<not> p j"
  shows "find_next_bit p sz offset = find_next_bit p sz m"
proof -
  have "[offset..<sz] = [offset..<m] @ [m..<sz]" using assms(1,2) by (metis le_add_diff_inverse upt_add_eq_append)
  moreover have "find p ([offset..<m] @ [m..<sz]) = find p [m..<sz]"
    using assms(3) by (intro find_append_skip) auto
  ultimately show ?thesis by (simp add: find_next_bit_def)
qed

lemma find_next_bit_sound:
  "find_next_bit p sz offset < sz \<Longrightarrow> offset \<le> find_next_bit p sz offset \<and> p (find_next_bit p sz offset)"
  by (auto simp: find_next_bit_def split: option.splits dest: find_upt_SomeD)

lemma find_next_bit_least:
  assumes "offset \<le> j" "j < find_next_bit p sz offset"
  shows "\<not> p j"
proof (cases "find p [offset..<sz]")
  case None
  then have "\<forall>x \<in> set [offset..<sz]. \<not> p x" unfolding find_None_iff by blast
  moreover have "j \<in> set [offset..<sz]" using assms None by (simp add: find_next_bit_def)
  ultimately show ?thesis by blast
next
  case (Some i)
  then show ?thesis using find_upt_SomeD [OF Some] assms by (simp add: find_next_bit_def)
qed

lemma find_next_bit_le: "find_next_bit p sz offset \<le> sz"
  by (auto simp: find_next_bit_def split: option.splits dest: find_upt_SomeD)

section \<open>Searching word by word\<close>

text \<open>The word a pointer to the bitmap points to, as the machine reads it.\<close>

definition ulong_at :: "u8 list \<Rightarrow> nat \<Rightarrow> u64" where
  "ulong_at addr p = le_word (map (arr_get 0 addr) [8 * p..<8 * p + 8])"

text \<open>The loop of \<^verbatim>\<open>__reverse_ulong\<close>, by the remaining shift (in bytes).\<close>

fun reverse_ulong_loop :: "u8 list \<Rightarrow> nat \<Rightarrow> nat \<Rightarrow> u64 \<Rightarrow> u64" where
  "reverse_ulong_loop str 0 idx tmp = tmp"
| "reverse_ulong_loop str (Suc k) idx tmp =
     reverse_ulong_loop str k (Suc idx) (tmp OR push_bit (8 * k) (ucast (arr_get 0 str idx)))"

definition reverse_ulong :: "u8 list \<Rightarrow> nat \<Rightarrow> u64" where
  "reverse_ulong addr p = reverse_ulong_loop addr 8 (8 * p) 0"

definition reverse_ffs_step :: "nat \<Rightarrow> u64 \<Rightarrow> nat \<times> u64 \<Rightarrow> nat \<times> u64" where
  "reverse_ffs_step half m s =
     (let (num, word) = s in if word AND m = 0 then (num + half, word) else (num, drop_bit half word))"

definition reverse_ffs :: "u64 \<Rightarrow> nat" where
  "reverse_ffs word =
     (let s = reverse_ffs_step 32 0xffffffff00000000 (0, word);
          s = reverse_ffs_step 16 0xffff0000 s;
          s = reverse_ffs_step 8 0xff00 s;
          s = reverse_ffs_step 4 0xf0 s;
          s = reverse_ffs_step 2 0xc s;
          (num, word) = s
      in if word AND 2 = 0 then num + 1 else num)"

definition reverse_ffz :: "u64 \<Rightarrow> nat" where
  "reverse_ffz x = reverse_ffs (NOT x)"

function find_rev_loop :: "u8 list \<Rightarrow> nat \<Rightarrow> nat \<Rightarrow> nat \<Rightarrow> nat \<Rightarrow> nat" where
  "find_rev_loop addr p sz offset result =
     (let tmp = reverse_ulong addr p AND drop_bit offset (- 1);
          tmp = (if sz < 64 then tmp AND push_bit (64 - sz) (- 1) else tmp)
      in if ulong_at addr p \<noteq> 0 \<and> tmp \<noteq> 0 then result - sz + reverse_ffs tmp
         else if sz \<le> 64 then result
         else find_rev_loop addr (p + 1) (sz - 64) 0 result)"
  by auto
termination by (relation "measure (\<lambda>(addr, p, sz, offset, result). sz)") auto

definition find_rev_next_bit :: "u8 list \<Rightarrow> nat \<Rightarrow> nat \<Rightarrow> nat" where
  "find_rev_next_bit addr sz offset =
     (if offset \<ge> sz then sz
      else find_rev_loop addr (offset div 64) (sz - 64 * (offset div 64)) (offset mod 64) sz)"

function find_rev_zero_loop :: "u8 list \<Rightarrow> nat \<Rightarrow> nat \<Rightarrow> nat \<Rightarrow> nat \<Rightarrow> nat" where
  "find_rev_zero_loop addr p sz offset result =
     (let tmp = reverse_ulong addr p;
          tmp = (if offset \<noteq> 0 then tmp OR push_bit (64 - offset) (- 1) else tmp);
          tmp = (if sz < 64 then tmp OR drop_bit sz (- 1) else tmp)
      in if ulong_at addr p \<noteq> - 1 \<and> tmp \<noteq> - 1 then result - sz + reverse_ffz tmp
         else if sz \<le> 64 then result
         else find_rev_zero_loop addr (p + 1) (sz - 64) 0 result)"
  by auto
termination by (relation "measure (\<lambda>(addr, p, sz, offset, result). sz)") auto

definition find_rev_next_zero_bit :: "u8 list \<Rightarrow> nat \<Rightarrow> nat \<Rightarrow> nat" where
  "find_rev_next_zero_bit addr sz offset =
     (if offset \<ge> sz then sz
      else find_rev_zero_loop addr (offset div 64) (sz - 64 * (offset div 64)) (offset mod 64) sz)"

declare find_rev_loop.simps [simp del] find_rev_zero_loop.simps [simp del]

section \<open>Words and their first bits\<close>

lemma bit_reverse_ulong_loop:
  "n < 64 \<Longrightarrow> k \<le> 8 \<Longrightarrow> bit (reverse_ulong_loop str k idx tmp) n =
     (bit tmp n \<or> (n < 8 * k \<and> bit (arr_get 0 str (idx + (k - 1 - n div 8))) (n mod 8)))"
proof (induction str k idx tmp rule: reverse_ulong_loop.induct)
  case (2 str k idx tmp)
  consider "n < 8 * k" | "8 * k \<le> n" "n < 8 * Suc k" | "8 * Suc k \<le> n" by linarith
  then show ?case
  proof cases
    case 1
    then have "n div 8 < k" by linarith
    then have "Suc idx + (k - 1 - n div 8) = idx + (Suc k - 1 - n div 8)" by simp
    with 1 2 show ?thesis by (simp add: bit_simps)
  next
    case 2
    then have "n div 8 = k" "n mod 8 = n - 8 * k" by (simp_all add: div_nat_eqI modulo_nat_def)
    with 2 \<open>_ \<Longrightarrow> _ \<Longrightarrow> bit _ n = _\<close> \<open>n < 64\<close> \<open>Suc k \<le> 8\<close> show ?thesis by (auto simp: bit_simps)
  next
    case 3
    have "\<not> bit (ucast (arr_get 0 str idx) :: u64) (n - 8 * k)"
      using 3 by (auto simp: bit_simps dest: bit_imp_le_length)
    with 3 \<open>_ \<Longrightarrow> _ \<Longrightarrow> bit _ n = _\<close> \<open>n < 64\<close> \<open>Suc k \<le> 8\<close> show ?thesis by (auto simp: bit_simps)
  qed
qed simp

lemma bit_reverse_ulong:
  assumes "j < 64"
  shows "bit (reverse_ulong addr p) (63 - j) \<longleftrightarrow> f2fs_test_bit (64 * p + j) addr \<noteq> 0"
proof -
  define a b where "a = j div 8" and "b = j mod 8"
  have ab: "j = 8 * a + b" "a < 8" "b < 8" using assms by (auto simp: a_def b_def)
  then have s: "63 - j = 8 * (7 - a) + (7 - b)" by linarith
  have dm: "(8 * c + e) div 8 = c" "(8 * c + e) mod 8 = e" if "e < 8" for c e :: nat using that by simp_all
  have d: "(63 - j) div 8 = 7 - a" "(63 - j) mod 8 = 7 - b" unfolding s using dm [of "7 - b" "7 - a"] by simp_all
  have e: "(64 * p + j) div 8 = 8 * p + a" "(64 * p + j) mod 8 = b"
    using dm [OF ab(3), of "8 * p + a"] ab(1) by (simp_all add: algebra_simps)
  show ?thesis
    unfolding reverse_ulong_def
    using bit_reverse_ulong_loop [of "63 - j" 8 addr "8 * p" 0] ab(2)
    by (simp add: d e f2fs_test_bit_nonzero)
qed

text \<open>\<open>t\<close> is the highest set bit of \<open>w\<close>.\<close>

definition top_bit :: "u64 \<Rightarrow> nat \<Rightarrow> bool" where
  "top_bit w t \<longleftrightarrow> bit w t \<and> (\<forall>i. bit w i \<longrightarrow> i \<le> t)"

lemma top_bit_exists:
  assumes "w \<noteq> 0"
  shows "\<exists>t < 64. top_bit w t"
proof -
  let ?t = "Max {i. bit w i}"
  have fin: "finite {i. bit w i}"
    by (rule finite_subset [of _ "{..<64}"]) (auto dest: bit_imp_le_length)
  obtain i where "bit w i" using assms by (auto simp: bit_eq_iff)
  then have "bit w ?t" using fin Max_in [of "{i. bit w i}"] by auto
  moreover have "\<forall>i. bit w i \<longrightarrow> i \<le> ?t" using fin by simp
  moreover have "?t < 64" using bit_imp_le_length [OF \<open>bit w ?t\<close>] by simp
  ultimately show ?thesis unfolding top_bit_def by blast
qed

lemma reverse_ffs_step_top:
  assumes top: "top_bit w t" "t < 2 * h" and m: "m = push_bit h (mask h)" "2 * h \<le> 64"
    and step: "reverse_ffs_step h m (num, w) = (num', w')"
  obtains t' where "top_bit w' t'" "t' < h" "num' + (h - 1 - t') = num + (2 * h - 1 - t)"
proof (cases "t < h")
  case True
  have "bit (w AND m) i = False" for i
    using top True by (auto simp: m(1) bit_simps top_bit_def)
  then have "w AND m = 0" by (simp add: bit_eq_iff)
  then have "num' = num + h" "w' = w" using step by (simp_all add: reverse_ffs_step_def)
  with top True show ?thesis by (intro that [of t]) auto
next
  case False
  have "bit (w AND m) t" using top False m(2) by (auto simp: m(1) bit_simps top_bit_def)
  then have "w AND m \<noteq> 0" by auto
  then have "num' = num" "w' = drop_bit h w" using step by (simp_all add: reverse_ffs_step_def)
  moreover have "top_bit (drop_bit h w) (t - h)"
    using top False unfolding top_bit_def by (auto simp: bit_simps)
  ultimately show ?thesis using top False by (intro that [of "t - h"]) auto
qed

lemma reverse_ffs_top:
  assumes "top_bit w t" "t < 64"
  shows "reverse_ffs w = 63 - t"
proof -
  obtain n1 w1 where s1: "reverse_ffs_step 32 0xffffffff00000000 (0, w) = (n1, w1)" by fastforce
  obtain n2 w2 where s2: "reverse_ffs_step 16 0xffff0000 (n1, w1) = (n2, w2)" by fastforce
  obtain n3 w3 where s3: "reverse_ffs_step 8 0xff00 (n2, w2) = (n3, w3)" by fastforce
  obtain n4 w4 where s4: "reverse_ffs_step 4 0xf0 (n3, w3) = (n4, w4)" by fastforce
  obtain n5 w5 where s5: "reverse_ffs_step 2 0xc (n4, w4) = (n5, w5)" by fastforce
  obtain t1 where t1: "top_bit w1 t1" "t1 < 32" "n1 + (31 - t1) = 63 - t"
    by (rule reverse_ffs_step_top [OF assms(1) _ _ _ s1]) (use assms(2) in \<open>auto simp: mask_eq_exp_minus_1\<close>)
  obtain t2 where t2: "top_bit w2 t2" "t2 < 16" "n2 + (15 - t2) = n1 + (31 - t1)"
    by (rule reverse_ffs_step_top [OF t1(1) _ _ _ s2]) (use t1 in \<open>auto simp: mask_eq_exp_minus_1\<close>)
  obtain t3 where t3: "top_bit w3 t3" "t3 < 8" "n3 + (7 - t3) = n2 + (15 - t2)"
    by (rule reverse_ffs_step_top [OF t2(1) _ _ _ s3]) (use t2 in \<open>auto simp: mask_eq_exp_minus_1\<close>)
  obtain t4 where t4: "top_bit w4 t4" "t4 < 4" "n4 + (3 - t4) = n3 + (7 - t3)"
    by (rule reverse_ffs_step_top [OF t3(1) _ _ _ s4]) (use t3 in \<open>auto simp: mask_eq_exp_minus_1\<close>)
  obtain t5 where t5: "top_bit w5 t5" "t5 < 2" "n5 + (1 - t5) = n4 + (3 - t4)"
    by (rule reverse_ffs_step_top [OF t4(1) _ _ _ s5]) (use t4 in \<open>auto simp: mask_eq_exp_minus_1\<close>)
  have "w5 AND 2 = 0 \<longleftrightarrow> t5 = 0"
  proof -
    have "w5 AND 2 = 0 \<longleftrightarrow> \<not> bit w5 1"
      using and_exp_eq_0_iff_not_bit [of w5 1] by simp
    then show ?thesis using t5 by (auto simp: top_bit_def less_2_cases_iff)
  qed
  then show ?thesis
    using t1(3) t2(3) t3(3) t4(3) t5(2,3)
    by (auto simp: reverse_ffs_def s1 s2 s3 s4 s5 Let_def less_2_cases_iff)
qed

text \<open>The first set bit of a masked word, as an index counted from the top.\<close>

lemma reverse_ffs_first:
  assumes "w \<noteq> 0"
  shows "reverse_ffs w < 64" "bit w (63 - reverse_ffs w)" "\<And>j. j < reverse_ffs w \<Longrightarrow> \<not> bit w (63 - j)"
proof -
  obtain t where t: "t < 64" "top_bit w t" using top_bit_exists [OF assms] by blast
  then have r: "reverse_ffs w = 63 - t" by (simp add: reverse_ffs_top)
  with t show "reverse_ffs w < 64" "bit w (63 - reverse_ffs w)" by (simp_all add: top_bit_def)
  fix j assume "j < reverse_ffs w"
  then have "t < 63 - j" using r by linarith
  then show "\<not> bit w (63 - j)" using t(2) by (auto simp: top_bit_def)
qed

lemma bit_mask_from: "j < 64 \<Longrightarrow> bit (drop_bit ofs (- 1) :: u64) (63 - j) \<longleftrightarrow> ofs \<le> j"
  by (auto simp: bit_simps)

lemma bit_mask_below: "j < 64 \<Longrightarrow> sz \<le> 64 \<Longrightarrow> bit (push_bit (64 - sz) (- 1) :: u64) (63 - j) \<longleftrightarrow> j < sz"
  by (auto simp: bit_simps)

lemma word_bits_zero: "(\<And>j. j < 64 \<Longrightarrow> \<not> bit w (63 - j)) \<Longrightarrow> w = (0 :: u64)"
proof (rule bit_word_eqI)
  fix n assume a: "\<And>j. j < 64 \<Longrightarrow> \<not> bit w (63 - j)" and "n < LENGTH(64)"
  then show "bit w n = bit 0 n" using a [of "63 - n"] by simp
qed

text \<open>
  One word of the search: the first bit of a word that stands for the predicate \<open>p\<close> on the
  block \<open>64 * q ..\<close>, masked to the indices from \<open>ofs\<close> below \<open>sz\<close>.
\<close>

lemma word_search:
  assumes bits: "\<And>j. j < 64 \<Longrightarrow> bit w (63 - j) \<longleftrightarrow> ofs \<le> j \<and> j < sz \<and> p (64 * q + j)"
    and nz: "w \<noteq> 0"
  shows "find_next_bit p (64 * q + sz) (64 * q + ofs) = 64 * q + reverse_ffs w"
proof (rule find_next_bit_hit)
  note r = reverse_ffs_first [OF nz]
  show "64 * q + ofs \<le> 64 * q + reverse_ffs w" "64 * q + reverse_ffs w < 64 * q + sz"
    "p (64 * q + reverse_ffs w)"
    using bits [OF r(1)] r(2) by simp_all
  fix j assume j: "64 * q + ofs \<le> j" "j < 64 * q + reverse_ffs w"
  define k where "k = j - 64 * q"
  have k: "j = 64 * q + k" "ofs \<le> k" "k < reverse_ffs w" using j by (auto simp: k_def)
  then show "\<not> p j" using bits [of k] r(1) r(3) [OF k(3)] bits [OF r(1)] r(2) by auto
qed

lemma word_search_none:
  assumes bits: "\<And>j. j < 64 \<Longrightarrow> bit w (63 - j) \<longleftrightarrow> ofs \<le> j \<and> j < sz \<and> p (64 * q + j)" and z: "w = 0"
    and ofs: "ofs \<le> 64"
  shows "sz \<le> 64 \<Longrightarrow> find_next_bit p (64 * q + sz) (64 * q + ofs) = 64 * q + sz"
    "64 < sz \<Longrightarrow> find_next_bit p (64 * q + sz) (64 * q + ofs) = find_next_bit p (64 * q + sz) (64 * (q + 1))"
proof -
  have no: "\<not> p j" if "64 * q + ofs \<le> j" "j < 64 * q + sz" "j < 64 * q + 64" for j
  proof -
    define k where "k = j - 64 * q"
    have "j = 64 * q + k" using that(1) by (simp add: k_def)
    then show ?thesis using bits [of k] z that by simp
  qed
  then show "sz \<le> 64 \<Longrightarrow> find_next_bit p (64 * q + sz) (64 * q + ofs) = 64 * q + sz"
    by (intro find_next_bit_none) auto
  show "64 < sz \<Longrightarrow> find_next_bit p (64 * q + sz) (64 * q + ofs) = find_next_bit p (64 * q + sz) (64 * (q + 1))"
    using no ofs by (intro find_next_bit_skip) auto
qed

abbreviation rev_bit :: "u8 list \<Rightarrow> nat \<Rightarrow> bool" where
  "rev_bit addr i \<equiv> f2fs_test_bit i addr \<noteq> 0"

lemma bit_le_word:
  "bit (le_word bs :: 'a::len word) n \<longleftrightarrow> n < LENGTH('a) \<and> n div 8 < length bs \<and> bit (bs ! (n div 8)) (n mod 8)"
proof (induction bs arbitrary: n)
  case (Cons b bs)
  show ?case
  proof (cases "n < 8")
    case True
    then show ?thesis by (auto simp: bit_simps)
  next
    case False
    then obtain k where k: "n = 8 + k" using le_Suc_ex [of 8 n] by auto
    have "\<not> bit b n" using bit_imp_le_length [of b n] k by auto
    then have "\<not> bit (ucast b :: 'a word) n" by (simp add: bit_ucast_iff)
    moreover have "bit (push_bit 8 (le_word bs) :: 'a word) n \<longleftrightarrow> n < LENGTH('a) \<and> bit (le_word bs :: 'a word) k"
      by (simp add: bit_push_bit_iff k)
    moreover have "n div 8 = Suc (k div 8)" "n mod 8 = k mod 8" using k by auto
    ultimately show ?thesis using Cons [of k] k by (auto simp: bit_or_iff)
  qed
qed simp

lemma ulong_at_bit:
  assumes "j < 64"
  shows "bit (ulong_at addr p) (8 * (j div 8) + (7 - j mod 8)) \<longleftrightarrow> rev_bit addr (64 * p + j)"
proof -
  define a b where "a = j div 8" and "b = j mod 8"
  have ab: "j = 8 * a + b" "a < 8" "b < 8" using assms by (auto simp: a_def b_def)
  have dm: "(8 * c + e) div 8 = c" "(8 * c + e) mod 8 = e" if "e < 8" for c e :: nat using that by simp_all
  have "(64 * p + j) div 8 = 8 * p + a" "(64 * p + j) mod 8 = b"
    using dm [OF ab(3), of "8 * p + a"] ab(1) by (simp_all add: algebra_simps)
  moreover have "8 * a + (7 - b) < 64" using ab(2,3) by linarith
  ultimately show ?thesis
    unfolding a_def [symmetric] b_def [symmetric] ulong_at_def bit_le_word
    using ab(2) dm [of "7 - b" a] by (simp add: f2fs_test_bit_nonzero)
qed

lemma ulong_at_zero: "ulong_at addr p = 0 \<Longrightarrow> j < 64 \<Longrightarrow> \<not> rev_bit addr (64 * p + j)"
  using ulong_at_bit [of j addr p] by simp

lemma ulong_at_ones:
  assumes "ulong_at addr p = - 1" "j < 64"
  shows "rev_bit addr (64 * p + j)"
proof -
  have "j div 8 \<le> 7" using assms(2) by simp
  then have "8 * (j div 8) + (7 - j mod 8) < 64" by linarith
  then show ?thesis using ulong_at_bit [of j addr p] assms by (simp add: bit_simps)
qed

lemma find_rev_loop_correct:
  assumes "offset < 64"
  shows "find_rev_loop addr p sz offset (64 * p + sz) = find_next_bit (rev_bit addr) (64 * p + sz) (64 * p + offset)"
  using assms
proof (induction sz arbitrary: p offset rule: less_induct)
  case (less sz)
  define tmp where "tmp = (let tmp = reverse_ulong addr p AND drop_bit offset (- 1)
      in if sz < 64 then tmp AND push_bit (64 - sz) (- 1) else tmp)"
  have bits: "bit tmp (63 - j) \<longleftrightarrow> offset \<le> j \<and> j < sz \<and> rev_bit addr (64 * p + j)" if "j < 64" for j
    using that bit_mask_from [OF that, of offset] bit_mask_below [OF that, of sz]
    by (auto simp: tmp_def Let_def bit_and_iff bit_reverse_ulong)
  have loop: "find_rev_loop addr p sz offset (64 * p + sz) =
      (if ulong_at addr p \<noteq> 0 \<and> tmp \<noteq> 0 then 64 * p + reverse_ffs tmp
       else if sz \<le> 64 then 64 * p + sz else find_rev_loop addr (p + 1) (sz - 64) 0 (64 * p + sz))"
    by (subst find_rev_loop.simps) (simp add: tmp_def Let_def)
  show ?case
  proof (cases "tmp = 0")
    case True
    have "find_rev_loop addr (p + 1) (sz - 64) 0 (64 * p + sz) = find_next_bit (rev_bit addr) (64 * p + sz) (64 * (p + 1))"
      if "64 < sz"
      using less.IH [of "sz - 64" 0 "p + 1"] that by simp
    then show ?thesis
      using loop True word_search_none [OF bits True] less.prems by auto
  next
    case False
    then have "ulong_at addr p \<noteq> 0"
      using bits ulong_at_zero word_bits_zero by blast
    then show ?thesis using loop False word_search [OF bits False] by simp
  qed
qed

lemma find_rev_next_bit_spec: "find_rev_next_bit addr sz offset = find_next_bit (rev_bit addr) sz offset"
proof (cases "sz \<le> offset")
  case True
  then show ?thesis by (simp add: find_rev_next_bit_def find_next_bit_def)
next
  case False
  then have "64 * (offset div 64) + (sz - 64 * (offset div 64)) = sz" by (simp add: le_diff_conv2)
  then show ?thesis
    using False find_rev_loop_correct [of "offset mod 64" addr "offset div 64" "sz - 64 * (offset div 64)"]
    by (simp add: find_rev_next_bit_def)
qed

lemma bit_fill_below: "j < 64 \<Longrightarrow> ofs < 64 \<Longrightarrow> ofs \<noteq> 0 \<Longrightarrow> bit (push_bit (64 - ofs) (- 1) :: u64) (63 - j) \<longleftrightarrow> j < ofs"
  using bit_mask_below [of j ofs] by simp

lemma find_rev_zero_loop_correct:
  assumes "offset < 64"
  shows "find_rev_zero_loop addr p sz offset (64 * p + sz) =
    find_next_bit (\<lambda>i. \<not> rev_bit addr i) (64 * p + sz) (64 * p + offset)"
  using assms
proof (induction sz arbitrary: p offset rule: less_induct)
  case (less sz)
  define tmp where "tmp = (let tmp = reverse_ulong addr p;
      tmp = (if offset \<noteq> 0 then tmp OR push_bit (64 - offset) (- 1) else tmp)
      in if sz < 64 then tmp OR drop_bit sz (- 1) else tmp)"
  have bits: "bit (NOT tmp) (63 - j) \<longleftrightarrow> offset \<le> j \<and> j < sz \<and> \<not> rev_bit addr (64 * p + j)" if "j < 64" for j
    using that bit_mask_from [OF that, of sz] bit_fill_below [OF that less.prems]
    by (auto simp: tmp_def Let_def bit_or_iff bit_not_iff bit_reverse_ulong)
  have loop: "find_rev_zero_loop addr p sz offset (64 * p + sz) =
      (if ulong_at addr p \<noteq> - 1 \<and> tmp \<noteq> - 1 then 64 * p + reverse_ffs (NOT tmp)
       else if sz \<le> 64 then 64 * p + sz else find_rev_zero_loop addr (p + 1) (sz - 64) 0 (64 * p + sz))"
    by (subst find_rev_zero_loop.simps) (simp add: tmp_def Let_def reverse_ffz_def)
  have ones: "tmp = - 1 \<longleftrightarrow> NOT tmp = 0" by (metis bit.double_compl bit.compl_zero)
  show ?case
  proof (cases "NOT tmp = 0")
    case True
    have "find_rev_zero_loop addr (p + 1) (sz - 64) 0 (64 * p + sz) =
        find_next_bit (\<lambda>i. \<not> rev_bit addr i) (64 * p + sz) (64 * (p + 1))" if "64 < sz"
      using less.IH [of "sz - 64" 0 "p + 1"] that by simp
    then show ?thesis
      using loop True ones word_search_none [OF bits True] less.prems by auto
  next
    case False
    then have "ulong_at addr p \<noteq> - 1"
      using bits ulong_at_ones word_bits_zero by blast
    then show ?thesis using loop False ones word_search [OF bits False] by simp
  qed
qed

lemma find_rev_next_zero_bit_spec:
  "find_rev_next_zero_bit addr sz offset = find_next_zero_bit (rev_bit addr) sz offset"
proof (cases "sz \<le> offset")
  case True
  then show ?thesis by (simp add: find_rev_next_zero_bit_def find_next_zero_bit_def find_next_bit_def)
next
  case False
  then have "64 * (offset div 64) + (sz - 64 * (offset div 64)) = sz" by (simp add: le_diff_conv2)
  then show ?thesis
    using False find_rev_zero_loop_correct [of "offset mod 64" addr "offset div 64" "sz - 64 * (offset div 64)"]
    by (simp add: find_rev_next_zero_bit_def find_next_zero_bit_def)
qed

text \<open>
  Property C32. The word-wise searches of the reversed bitmaps are right for every bitmap, size and
  start: \<^verbatim>\<open>__find_rev_next_bit\<close> and \<^verbatim>\<open>__find_rev_next_zero_bit\<close> give the first index from the start on,
  below the size, whose bit (in the numbering of \<^verbatim>\<open>f2fs_test_bit\<close>) is set, or clear, and the size
  if there is none. The size need not be a multiple of the word size, although the comment in the
  source asks for that.
\<close>

theorem find_rev_next_correct:
  "find_rev_next_bit addr sz offset = find_next_bit (\<lambda>i. f2fs_test_bit i addr \<noteq> 0) sz offset \<and>
   find_rev_next_zero_bit addr sz offset = find_next_zero_bit (\<lambda>i. f2fs_test_bit i addr \<noteq> 0) sz offset"
  by (simp add: find_rev_next_bit_spec find_rev_next_zero_bit_spec)

end
