(* ===== verification/Free_Segmap.thy ===== *)
theory Free_Segmap
  imports Rev_Bits
begin

text \<open>
  Geometry of the main area and the free segment map (\<^verbatim>\<open>segment.h\<close>, \<^verbatim>\<open>segment.c\<close>): which segments
  and sections are in use, with their counts, and the choice of a new segment. Bitmaps of the kernel
  (arrays of \<^verbatim>\<open>unsigned long\<close>) are lists of bools. A failed \<^verbatim>\<open>f2fs_bug_on\<close> is reported as a result.
\<close>

section \<open>Geometry\<close>

record seg_geom =
  log_blocks_per_seg :: nat
  segs_per_sec :: nat
  secs_per_zone :: nat
  main_segs :: nat
  main_secs :: nat
  seg0_blkaddr :: nat
  start_segno :: nat

definition NULL_SEGNO :: nat where "NULL_SEGNO = 2 ^ 32 - 1"

definition blocks_per_seg :: "seg_geom \<Rightarrow> nat" where
  "blocks_per_seg g = 2 ^ log_blocks_per_seg g"

definition START_BLOCK :: "seg_geom \<Rightarrow> nat \<Rightarrow> nat" where
  "START_BLOCK g segno = seg0_blkaddr g + (segno + start_segno g) * 2 ^ log_blocks_per_seg g"

definition GET_SEGNO_FROM_SEG0 :: "seg_geom \<Rightarrow> nat \<Rightarrow> nat" where
  "GET_SEGNO_FROM_SEG0 g blk_addr = (blk_addr - seg0_blkaddr g) div 2 ^ log_blocks_per_seg g"

definition GET_BLKOFF_FROM_SEG0 :: "seg_geom \<Rightarrow> nat \<Rightarrow> nat" where
  "GET_BLKOFF_FROM_SEG0 g blk_addr = (blk_addr - seg0_blkaddr g) mod blocks_per_seg g"

definition GET_SEGNO :: "seg_geom \<Rightarrow> nat \<Rightarrow> nat" where
  "GET_SEGNO g blk_addr =
     (if blk_addr = NULL_ADDR \<or> blk_addr = NEW_ADDR then NULL_SEGNO
      else GET_SEGNO_FROM_SEG0 g blk_addr - start_segno g)"

definition GET_SEC_FROM_SEG :: "seg_geom \<Rightarrow> nat \<Rightarrow> nat" where
  "GET_SEC_FROM_SEG g segno = segno div segs_per_sec g"

definition GET_SEG_FROM_SEC :: "seg_geom \<Rightarrow> nat \<Rightarrow> nat" where
  "GET_SEG_FROM_SEC g secno = secno * segs_per_sec g"

definition GET_ZONE_FROM_SEC :: "seg_geom \<Rightarrow> nat \<Rightarrow> nat" where
  "GET_ZONE_FROM_SEC g secno = secno div secs_per_zone g"

definition GET_ZONE_FROM_SEG :: "seg_geom \<Rightarrow> nat \<Rightarrow> nat" where
  "GET_ZONE_FROM_SEG g segno = GET_ZONE_FROM_SEC g (GET_SEC_FROM_SEG g segno)"

definition geom_ok :: "seg_geom \<Rightarrow> bool" where
  "geom_ok g \<longleftrightarrow>
     0 < segs_per_sec g \<and> 0 < secs_per_zone g \<and> main_segs g = main_secs g * segs_per_sec g \<and>
     0 < seg0_blkaddr g \<and> seg0_blkaddr g + (main_segs g + start_segno g) * 2 ^ log_blocks_per_seg g < 2 ^ 32"

section \<open>The free segment map\<close>

record free_segmap_info =
  free_segments :: int
  free_sections :: int
  free_segmap :: "bool list"
  free_secmap :: "bool list"

definition test_bit :: "nat \<Rightarrow> bool list \<Rightarrow> bool" where
  "test_bit i m = arr_get False m i"

definition set_free :: "seg_geom \<Rightarrow> nat \<Rightarrow> free_segmap_info \<Rightarrow> free_segmap_info" where
  "set_free g segno fi =
     (let secno = GET_SEC_FROM_SEG g segno; start_segno = GET_SEG_FROM_SEC g secno;
          fi = fi\<lparr>free_segmap := (free_segmap fi)[segno := False], free_segments := free_segments fi + 1\<rparr>;
          nxt = find_next_bit (\<lambda>i. test_bit i (free_segmap fi)) (start_segno + segs_per_sec g) start_segno
      in if nxt \<ge> start_segno + segs_per_sec g
         then fi\<lparr>free_secmap := (free_secmap fi)[secno := False], free_sections := free_sections fi + 1\<rparr>
         else fi)"

definition set_inuse :: "seg_geom \<Rightarrow> nat \<Rightarrow> free_segmap_info \<Rightarrow> free_segmap_info" where
  "set_inuse g segno fi =
     (let secno = GET_SEC_FROM_SEG g segno;
          fi = fi\<lparr>free_segmap := (free_segmap fi)[segno := True], free_segments := free_segments fi - 1\<rparr>
      in if \<not> test_bit secno (free_secmap fi)
         then fi\<lparr>free_secmap := (free_secmap fi)[secno := True], free_sections := free_sections fi - 1\<rparr>
         else fi)"

definition set_test_and_free :: "seg_geom \<Rightarrow> nat \<Rightarrow> free_segmap_info \<Rightarrow> free_segmap_info" where
  "set_test_and_free g segno fi =
     (let secno = GET_SEC_FROM_SEG g segno; start_segno = GET_SEG_FROM_SEC g secno in
      if test_bit segno (free_segmap fi) then
        let fi = fi\<lparr>free_segmap := (free_segmap fi)[segno := False], free_segments := free_segments fi + 1\<rparr>;
            nxt = find_next_bit (\<lambda>i. test_bit i (free_segmap fi)) (start_segno + segs_per_sec g) start_segno
        in if nxt \<ge> start_segno + segs_per_sec g
           then if test_bit secno (free_secmap fi)
                then fi\<lparr>free_secmap := (free_secmap fi)[secno := False], free_sections := free_sections fi + 1\<rparr>
                else fi
           else fi
      else fi)"

definition set_test_and_inuse :: "seg_geom \<Rightarrow> nat \<Rightarrow> free_segmap_info \<Rightarrow> free_segmap_info" where
  "set_test_and_inuse g segno fi =
     (let secno = GET_SEC_FROM_SEG g segno in
      if \<not> test_bit segno (free_segmap fi) then
        let fi = fi\<lparr>free_segmap := (free_segmap fi)[segno := True], free_segments := free_segments fi - 1\<rparr>
        in if \<not> test_bit secno (free_secmap fi)
           then fi\<lparr>free_secmap := (free_secmap fi)[secno := True], free_sections := free_sections fi - 1\<rparr>
           else fi
      else fi)"

definition find_next_inuse :: "free_segmap_info \<Rightarrow> nat \<Rightarrow> nat \<Rightarrow> nat" where
  "find_next_inuse fi mx segno = find_next_bit (\<lambda>i. test_bit i (free_segmap fi)) mx segno"

definition build_free_segmap :: "seg_geom \<Rightarrow> free_segmap_info" where
  "build_free_segmap g =
     \<lparr>free_segments = 0, free_sections = 0, free_segmap = replicate (main_segs g) True,
      free_secmap = replicate (main_secs g) True\<rparr>"

section \<open>Choosing a new segment\<close>

datatype alloc_dir = ALLOC_RIGHT | ALLOC_LEFT

text \<open>The loop to the left: \<^verbatim>\<open>while (test_bit(left_start, free_secmap))\<close>.\<close>

primrec left_scan :: "bool list \<Rightarrow> nat \<Rightarrow> nat \<Rightarrow> nat" where
  "left_scan secmap secs 0 =
     (if test_bit 0 secmap then find_next_zero_bit (\<lambda>i. test_bit i secmap) secs 0 else 0)"
| "left_scan secmap secs (Suc k) = (if test_bit (Suc k) secmap then left_scan secmap secs k else Suc k)"

text \<open>From \<^verbatim>\<open>find_other_zone\<close> to \<^verbatim>\<open>skip_left\<close>: a section, with the values of \<^verbatim>\<open>left_start\<close>, \<^verbatim>\<open>go_left\<close>.\<close>

definition find_section ::
  "seg_geom \<Rightarrow> bool list \<Rightarrow> alloc_dir \<Rightarrow> nat \<Rightarrow> nat \<Rightarrow> bool \<Rightarrow> nat \<times> nat \<times> bool \<times> bool" where
  "find_section g secmap dir hint left_start go_left =
     (let free = (\<lambda>from. find_next_zero_bit (\<lambda>i. test_bit i secmap) (main_secs g) from);
          secno = free hint;
          (secno, left_start, go_left) =
            (if secno \<ge> main_secs g then
               (case dir of
                  ALLOC_RIGHT \<Rightarrow> (free 0, left_start, go_left)
                | ALLOC_LEFT \<Rightarrow> (secno, (hint + (2 ^ 32 - 1)) mod 2 ^ 32, True))
             else (secno, left_start, go_left));
          (secno, left_start) =
            (if go_left then let l = left_scan secmap (main_secs g) left_start in (l, l)
             else (secno, left_start))
      in (secno, left_start, go_left, secno \<ge> main_secs g))"

text \<open>
  \<^verbatim>\<open>zones\<close> are the zones of the current segments. The result is the new segment, the updated map and
  whether an assertion failed. The second search for another zone is final (\<^verbatim>\<open>init\<close> is false then).
\<close>

definition get_new_segment ::
  "seg_geom \<Rightarrow> nat list \<Rightarrow> free_segmap_info \<Rightarrow> nat \<Rightarrow> bool \<Rightarrow> alloc_dir \<Rightarrow> free_segmap_info \<times> nat \<times> bool" where
  "get_new_segment g zones fi newseg new_sec dir =
     (let total_zones = main_secs g div secs_per_zone g;
          hint = GET_SEC_FROM_SEG g newseg;
          old_zoneno = GET_ZONE_FROM_SEG g newseg;
          got_it = (\<lambda>segno bug. (set_inuse g segno fi, segno, bug \<or> test_bit segno (free_segmap fi)));
          near = find_next_zero_bit (\<lambda>i. test_bit i (free_segmap fi)) (GET_SEG_FROM_SEC g (hint + 1)) (newseg + 1)
      in if \<not> new_sec \<and> (newseg + 1) mod segs_per_sec g \<noteq> 0 \<and> near < GET_SEG_FROM_SEC g (hint + 1)
         then got_it near False
         else case find_section g (free_secmap fi) dir hint hint False of
           (secno, left_start, go_left, bug) \<Rightarrow>
             let zoneno = GET_ZONE_FROM_SEC g secno in
             if secs_per_zone g = 1 \<or> zoneno = old_zoneno \<or>
                dir = ALLOC_LEFT \<and> (\<not> go_left \<and> zoneno + 1 \<ge> total_zones \<or> go_left \<and> zoneno = 0) \<or>
                zoneno \<notin> set zones
             then got_it (GET_SEG_FROM_SEC g secno) bug
             else
               let hint = (if go_left then zoneno * secs_per_zone g - 1
                           else if zoneno + 1 \<ge> total_zones then 0
                           else (zoneno + 1) * secs_per_zone g)
               in case find_section g (free_secmap fi) dir hint left_start go_left of
                    (secno, _, _, bug') \<Rightarrow> got_it (GET_SEG_FROM_SEC g secno) (bug \<or> bug'))"

section \<open>The geometry is consistent\<close>

lemma segno_of_block:
  assumes "geom_ok g" "segno < main_segs g" "ofs < blocks_per_seg g"
  shows "GET_SEGNO g (START_BLOCK g segno + ofs) = segno" "GET_BLKOFF_FROM_SEG0 g (START_BLOCK g segno + ofs) = ofs"
    "START_BLOCK g segno + ofs \<noteq> NULL_ADDR" "START_BLOCK g segno + ofs \<noteq> NEW_ADDR"
proof -
  let ?b = "2 ^ log_blocks_per_seg g :: nat"
  have pos: "0 < seg0_blkaddr g" using assms(1) by (simp add: geom_ok_def)
  have "(segno + start_segno g) * ?b + ofs < (segno + 1 + start_segno g) * ?b"
    using assms(3) by (simp add: blocks_per_seg_def)
  also have "\<dots> \<le> (main_segs g + start_segno g) * ?b" using assms(2) by (intro mult_le_mono1) simp
  finally have lt: "START_BLOCK g segno + ofs < 2 ^ 32 - 1"
    using assms(1) unfolding START_BLOCK_def geom_ok_def by linarith
  show nz: "START_BLOCK g segno + ofs \<noteq> NULL_ADDR" using pos by (simp add: START_BLOCK_def NULL_ADDR_def)
  show nn: "START_BLOCK g segno + ofs \<noteq> NEW_ADDR" using lt by (simp add: NEW_ADDR_def)
  have "((segno + start_segno g) * ?b + ofs) div ?b = segno + start_segno g"
    using assms(3) by (simp add: blocks_per_seg_def)
  then show "GET_SEGNO g (START_BLOCK g segno + ofs) = segno"
    using nz nn by (simp add: GET_SEGNO_def GET_SEGNO_FROM_SEG0_def START_BLOCK_def)
  show "GET_BLKOFF_FROM_SEG0 g (START_BLOCK g segno + ofs) = ofs"
    using assms(3) by (simp add: GET_BLKOFF_FROM_SEG0_def START_BLOCK_def blocks_per_seg_def)
qed

section \<open>Invariant\<close>

interpretation kb: bit_array length test_bit "\<lambda>i m. m[i := True]" "\<lambda>i m. m[i := False]"
  by unfold_locales (auto simp: test_bit_def arr_get_update)

text \<open>The segments of a section.\<close>

definition in_section :: "seg_geom \<Rightarrow> nat \<Rightarrow> nat \<Rightarrow> bool" where
  "in_section g secno s \<longleftrightarrow> secno * segs_per_sec g \<le> s \<and> s < (secno + 1) * segs_per_sec g"

definition used :: "bool list \<Rightarrow> nat" where
  "used m = bit_count (\<lambda>i. test_bit i m) (length m)"

definition free_ok :: "seg_geom \<Rightarrow> free_segmap_info \<Rightarrow> bool" where
  "free_ok g fi \<longleftrightarrow>
     length (free_segmap fi) = main_segs g \<and> length (free_secmap fi) = main_secs g \<and>
     free_segments fi = int (main_segs g) - int (used (free_segmap fi)) \<and>
     free_sections fi = int (main_secs g) - int (used (free_secmap fi)) \<and>
     (\<forall>secno < main_secs g. test_bit secno (free_secmap fi) \<longleftrightarrow>
        (\<exists>s. in_section g secno s \<and> test_bit s (free_segmap fi)))"

lemma used_set: "i < length m \<Longrightarrow> used (m[i := True]) = (if test_bit i m then used m else Suc (used m))"
  using kb.count_put [of i "length m" m] by (simp add: used_def)

lemma used_clear: "i < length m \<Longrightarrow> used m = (if test_bit i m then Suc (used (m[i := False])) else used (m[i := False]))"
proof -
  assume i: "i < length m"
  have "test_bit i m \<Longrightarrow> 0 < used m"
    unfolding used_def bit_count_card card_gt_0_iff using i by auto
  then show ?thesis using kb.count_clr [of i "length m" m] i by (simp add: used_def)
qed

lemma in_section_iff: "0 < segs_per_sec g \<Longrightarrow> in_section g secno s \<longleftrightarrow> secno = GET_SEC_FROM_SEG g s"
  unfolding in_section_def GET_SEC_FROM_SEG_def
  by (metis Suc_eq_plus1 div_nat_eqI div_times_less_eq_dividend dividend_less_times_div mult.commute mult_Suc)

lemma sec_of_seg: "geom_ok g \<Longrightarrow> segno < main_segs g \<Longrightarrow> GET_SEC_FROM_SEG g segno < main_secs g"
  by (simp add: geom_ok_def GET_SEC_FROM_SEG_def less_mult_imp_div_less)

lemma seg_of_sec: "geom_ok g \<Longrightarrow> secno < main_secs g \<Longrightarrow> GET_SEG_FROM_SEC g secno < main_segs g"
  by (simp add: geom_ok_def GET_SEG_FROM_SEC_def)

lemma section_empty:
  "GET_SEG_FROM_SEC g secno + segs_per_sec g \<le>
     find_next_bit (\<lambda>i. test_bit i m) (GET_SEG_FROM_SEC g secno + segs_per_sec g) (GET_SEG_FROM_SEC g secno) \<longleftrightarrow>
   \<not> (\<exists>s. in_section g secno s \<and> test_bit s m)"
proof -
  let ?a = "GET_SEG_FROM_SEC g secno" and ?p = "\<lambda>i. test_bit i m"
  have sec: "in_section g secno s \<longleftrightarrow> ?a \<le> s \<and> s < ?a + segs_per_sec g" for s
    by (auto simp: in_section_def GET_SEG_FROM_SEC_def)
  show ?thesis
  proof
    assume "?a + segs_per_sec g \<le> find_next_bit ?p (?a + segs_per_sec g) ?a"
    then show "\<not> (\<exists>s. in_section g secno s \<and> test_bit s m)"
      using find_next_bit_least [of ?a _ ?p "?a + segs_per_sec g"] sec by fastforce
  next
    assume no: "\<not> (\<exists>s. in_section g secno s \<and> test_bit s m)"
    show "?a + segs_per_sec g \<le> find_next_bit ?p (?a + segs_per_sec g) ?a"
    proof (rule ccontr)
      assume "\<not> ?a + segs_per_sec g \<le> find_next_bit ?p (?a + segs_per_sec g) ?a"
      then have "find_next_bit ?p (?a + segs_per_sec g) ?a < ?a + segs_per_sec g" by simp
      then show False using find_next_bit_sound [of ?p "?a + segs_per_sec g" ?a] no sec by blast
    qed
  qed
qed

text \<open>Marking a free segment as used, and a used one as free, with the section bit following.\<close>

lemma set_inuse_ok:
  assumes g: "geom_ok g" and ok: "free_ok g fi" and s: "segno < main_segs g" "\<not> test_bit segno (free_segmap fi)"
  shows "free_ok g (set_inuse g segno fi)" "free_segments (set_inuse g segno fi) = free_segments fi - 1"
    "free_segmap (set_inuse g segno fi) = (free_segmap fi)[segno := True]"
proof -
  let ?sec = "GET_SEC_FROM_SEG g segno"
  have sec: "?sec < main_secs g" by (rule sec_of_seg [OF g s(1)])
  have pos: "0 < segs_per_sec g" using g by (simp add: geom_ok_def)
  show map: "free_segmap (set_inuse g segno fi) = (free_segmap fi)[segno := True]"
    "free_segments (set_inuse g segno fi) = free_segments fi - 1"
    by (simp_all add: set_inuse_def Let_def)
  have len: "length (free_segmap fi) = main_segs g" "length (free_secmap fi) = main_secs g"
    using ok by (simp_all add: free_ok_def)
  have secmap: "free_secmap (set_inuse g segno fi) = (if test_bit ?sec (free_secmap fi) then free_secmap fi
      else (free_secmap fi)[?sec := True])"
    by (simp add: set_inuse_def Let_def)
  have secs: "free_sections (set_inuse g segno fi) = int (main_secs g) - int (used (free_secmap (set_inuse g segno fi)))"
    using ok used_set [of ?sec "free_secmap fi"] sec len by (simp add: set_inuse_def Let_def free_ok_def)
  have "test_bit c (free_secmap (set_inuse g segno fi)) \<longleftrightarrow>
      (\<exists>x. in_section g c x \<and> test_bit x (free_segmap (set_inuse g segno fi)))" if "c < main_secs g" for c
  proof -
    have "test_bit c (free_secmap (set_inuse g segno fi)) \<longleftrightarrow> c = ?sec \<or> test_bit c (free_secmap fi)"
      using sec len kb.tst_put [of ?sec "free_secmap fi" c] by (auto simp: secmap)
    moreover have "test_bit x (free_segmap (set_inuse g segno fi)) \<longleftrightarrow> x = segno \<or> test_bit x (free_segmap fi)" for x
      using s len kb.tst_put [of segno "free_segmap fi" x] by (simp add: map)
    ultimately show ?thesis using ok that by (auto simp: free_ok_def in_section_iff [OF pos])
  qed
  then show "free_ok g (set_inuse g segno fi)"
    unfolding free_ok_def using ok secs s len used_set [of segno "free_segmap fi"]
    by (auto simp: map secmap free_ok_def)
qed

lemma set_free_ok:
  assumes g: "geom_ok g" and ok: "free_ok g fi" and s: "segno < main_segs g" "test_bit segno (free_segmap fi)"
  shows "free_ok g (set_free g segno fi)" "free_segments (set_free g segno fi) = free_segments fi + 1"
    "free_segmap (set_free g segno fi) = (free_segmap fi)[segno := False]"
proof -
  let ?sec = "GET_SEC_FROM_SEG g segno" and ?map = "(free_segmap fi)[segno := False]"
  define empty where "empty \<longleftrightarrow> \<not> (\<exists>x. in_section g ?sec x \<and> test_bit x ?map)"
  have sec: "?sec < main_secs g" by (rule sec_of_seg [OF g s(1)])
  have pos: "0 < segs_per_sec g" using g by (simp add: geom_ok_def)
  have len: "length (free_segmap fi) = main_segs g" "length (free_secmap fi) = main_secs g"
    using ok by (simp_all add: free_ok_def)
  have was: "test_bit ?sec (free_secmap fi)"
    using ok s sec by (auto simp: free_ok_def in_section_iff [OF pos])
  have form: "set_free g segno fi =
      (let fi = fi\<lparr>free_segmap := ?map, free_segments := free_segments fi + 1\<rparr>
       in if empty then fi\<lparr>free_secmap := (free_secmap fi)[?sec := False], free_sections := free_sections fi + 1\<rparr> else fi)"
    using section_empty [of g ?sec ?map] unfolding set_free_def Let_def empty_def by simp
  show map: "free_segmap (set_free g segno fi) = ?map"
    "free_segments (set_free g segno fi) = free_segments fi + 1"
    by (simp_all add: form Let_def)
  have secmap: "free_secmap (set_free g segno fi) = (if empty then (free_secmap fi)[?sec := False] else free_secmap fi)"
    by (simp add: form Let_def)
  have secs: "free_sections (set_free g segno fi) = int (main_secs g) - int (used (free_secmap (set_free g segno fi)))"
    using ok used_clear [of ?sec "free_secmap fi"] sec len was by (simp add: form Let_def free_ok_def)
  have "test_bit c (free_secmap (set_free g segno fi)) \<longleftrightarrow>
      (\<exists>x. in_section g c x \<and> test_bit x (free_segmap (set_free g segno fi)))" if "c < main_secs g" for c
  proof (cases "c = ?sec")
    case True
    then show ?thesis
      using sec len was kb.tst_clr [of ?sec "free_secmap fi" c] by (auto simp: secmap map empty_def)
  next
    case False
    have "test_bit c (free_secmap (set_free g segno fi)) \<longleftrightarrow> test_bit c (free_secmap fi)"
      using False sec len kb.tst_clr [of ?sec "free_secmap fi" c] by (auto simp: secmap)
    moreover have "in_section g c x \<Longrightarrow> test_bit x ?map \<longleftrightarrow> test_bit x (free_segmap fi)" for x
      using False s len kb.tst_clr [of segno "free_segmap fi" x] by (auto simp: in_section_iff [OF pos])
    ultimately show ?thesis using ok that by (auto simp: free_ok_def map)
  qed
  then show "free_ok g (set_free g segno fi)"
    unfolding free_ok_def using ok secs s len used_clear [of segno "free_segmap fi"]
    by (auto simp: map secmap free_ok_def)
qed

lemma set_test_and_inuse_eq:
  "set_test_and_inuse g segno fi = (if test_bit segno (free_segmap fi) then fi else set_inuse g segno fi)"
  by (simp add: set_test_and_inuse_def set_inuse_def Let_def)

lemma set_test_and_free_eq:
  assumes "geom_ok g" "free_ok g fi" "segno < main_segs g"
  shows "set_test_and_free g segno fi = (if test_bit segno (free_segmap fi) then set_free g segno fi else fi)"
proof -
  have "0 < segs_per_sec g" using assms(1) by (simp add: geom_ok_def)
  then have "test_bit segno (free_segmap fi) \<Longrightarrow> test_bit (GET_SEC_FROM_SEG g segno) (free_secmap fi)"
    using assms sec_of_seg [OF assms(1,3)] by (auto simp: free_ok_def in_section_iff)
  then show ?thesis by (simp add: set_test_and_free_def set_free_def Let_def)
qed

lemma set_test_and_inuse_ok:
  assumes "geom_ok g" "free_ok g fi" "segno < main_segs g"
  shows "free_ok g (set_test_and_inuse g segno fi)"
    "free_segmap (set_test_and_inuse g segno fi) = (free_segmap fi)[segno := True]"
proof -
  have "test_bit segno (free_segmap fi) \<Longrightarrow> (free_segmap fi)[segno := True] = free_segmap fi"
    using assms(2,3) by (simp add: test_bit_def free_ok_def list_update_same_conv)
  then show "free_ok g (set_test_and_inuse g segno fi)"
    "free_segmap (set_test_and_inuse g segno fi) = (free_segmap fi)[segno := True]"
    using set_inuse_ok [OF assms] assms by (auto simp: set_test_and_inuse_eq)
qed

lemma set_test_and_free_ok:
  assumes "geom_ok g" "free_ok g fi" "segno < main_segs g"
  shows "free_ok g (set_test_and_free g segno fi)"
    "free_segmap (set_test_and_free g segno fi) = (free_segmap fi)[segno := False]"
proof -
  have "\<not> test_bit segno (free_segmap fi) \<Longrightarrow> (free_segmap fi)[segno := False] = free_segmap fi"
    using assms(2,3) by (simp add: test_bit_def free_ok_def list_update_same_conv)
  then show "free_ok g (set_test_and_free g segno fi)"
    "free_segmap (set_test_and_free g segno fi) = (free_segmap fi)[segno := False]"
    using set_free_ok [OF assms] assms set_test_and_free_eq [OF assms] by auto
qed

section \<open>The new segment is free\<close>

abbreviation free_sec :: "seg_geom \<Rightarrow> bool list \<Rightarrow> nat \<Rightarrow> bool" where
  "free_sec g secmap s \<equiv> s < main_secs g \<and> \<not> test_bit s secmap"

lemma left_scan_free:
  assumes "s \<le> k" "\<not> test_bit s secmap"
  shows "left_scan secmap secs k \<le> k \<and> \<not> test_bit (left_scan secmap secs k) secmap"
  using assms by (induction k) (auto simp: le_Suc_eq)

lemma next_zero_free:
  assumes "free_sec g secmap s" "from \<le> s"
  shows "free_sec g secmap (find_next_zero_bit (\<lambda>i. test_bit i secmap) (main_secs g) from)"
proof -
  let ?p = "\<lambda>i. \<not> test_bit i secmap"
  have "\<not> s < find_next_bit ?p (main_secs g) from"
    using find_next_bit_least [of "from" s ?p "main_secs g"] assms by blast
  then have "find_next_bit ?p (main_secs g) from < main_secs g" using assms by simp
  then show ?thesis using find_next_bit_sound [of ?p "main_secs g" "from"] by (simp add: find_next_zero_bit_def)
qed

lemma find_section_free:
  assumes ex: "free_sec g secmap s" and hint: "hint \<le> main_secs g" "main_secs g < 2 ^ 32"
    and left: "go_left \<Longrightarrow> free_sec g secmap left_start"
    and res: "find_section g secmap dir hint left_start go_left = (secno, left', go', bug)"
  shows "free_sec g secmap secno \<and> \<not> bug \<and> (go' \<longrightarrow> free_sec g secmap left')"
proof -
  let ?free = "\<lambda>from. find_next_zero_bit (\<lambda>i. test_bit i secmap) (main_secs g) from"
  have same: "left_scan secmap (main_secs g) left_start = left_start" if go_left
    using left [OF that] by (cases left_start) auto
  show ?thesis
  proof (cases "?free hint < main_secs g")
    case True
    then have "free_sec g secmap (?free hint)"
      using find_next_bit_sound [of "\<lambda>i. \<not> test_bit i secmap" "main_secs g" hint] by (simp add: find_next_zero_bit_def)
    then show ?thesis
      using res True left same by (auto simp: find_section_def Let_def split: if_splits)
  next
    case False
    then have below: "s < hint" using next_zero_free [OF ex, of hint] by (meson not_le)
    show ?thesis
    proof (cases dir)
      case ALLOC_RIGHT
      then show ?thesis
        using res False left same next_zero_free [OF ex, of 0]
        by (auto simp: find_section_def Let_def split: if_splits)
    next
      case ALLOC_LEFT
      let ?l = "left_scan secmap (main_secs g) (hint - 1)"
      have "hint + (2 ^ 32 - 1) = (hint - 1) + 2 ^ 32" "hint - 1 < 2 ^ 32" using below hint by simp_all
      then have h: "(hint + (2 ^ 32 - 1)) mod 2 ^ 32 = hint - 1" by (metis mod_add_self2 mod_less)
      have "find_section g secmap dir hint left_start go_left = (?l, ?l, True, main_secs g \<le> ?l)"
        using False ALLOC_LEFT unfolding find_section_def Let_def h by simp
      moreover have "?l \<le> hint - 1 \<and> \<not> test_bit ?l secmap"
        using below ex by (intro left_scan_free [of s]) auto
      ultimately show ?thesis using res hint below by auto
    qed
  qed
qed

lemma free_section_segment:
  assumes "geom_ok g" "free_ok g fi" "free_sec g (free_secmap fi) secno"
  shows "GET_SEG_FROM_SEC g secno < main_segs g \<and> \<not> test_bit (GET_SEG_FROM_SEC g secno) (free_segmap fi)"
proof -
  have "in_section g secno (GET_SEG_FROM_SEC g secno)"
    using assms(1) by (simp add: geom_ok_def in_section_def GET_SEG_FROM_SEC_def)
  then show ?thesis using assms seg_of_sec [OF assms(1)] by (auto simp: free_ok_def)
qed

lemma main_secs_bound:
  assumes "geom_ok g"
  shows "main_segs g < 2 ^ 32" "main_secs g \<le> main_segs g" "main_secs g < 2 ^ 32"
proof -
  have "main_segs g \<le> (main_segs g + start_segno g) * 2 ^ log_blocks_per_seg g"
    by (metis le_add1 mult.right_neutral mult_le_mono one_le_numeral one_le_power)
  then show a: "main_segs g < 2 ^ 32" using assms unfolding geom_ok_def by linarith
  show b: "main_secs g \<le> main_segs g" using assms unfolding geom_ok_def by (simp add: Suc_leI)
  show "main_secs g < 2 ^ 32" using a b by linarith
qed

lemma new_segment_free:
  assumes g: "geom_ok g" and ok: "free_ok g fi" and seg: "newseg < main_segs g" and ex: "0 < free_sections fi"
    and res: "get_new_segment g zones fi newseg new_sec dir = (fi', segno, bug)"
  shows "segno < main_segs g \<and> \<not> test_bit segno (free_segmap fi) \<and> \<not> bug \<and> fi' = set_inuse g segno fi"
proof -
  let ?sm = "free_secmap fi" and ?hint = "GET_SEC_FROM_SEG g newseg"
  have pos: "0 < segs_per_sec g" using g by (simp add: geom_ok_def)
  have "\<exists>s. free_sec g ?sm s"
  proof (rule ccontr)
    assume "\<nexists>s. free_sec g ?sm s"
    then have "{i. i < main_secs g \<and> test_bit i ?sm} = {..<main_secs g}" by auto
    then have "used ?sm = main_secs g" using ok by (simp add: used_def bit_count_card free_ok_def)
    then show False using ex ok by (simp add: free_ok_def)
  qed
  then obtain s where s: "free_sec g ?sm s" by blast
  have hint: "?hint \<le> main_secs g" using sec_of_seg [OF g seg] by simp
  note bound = main_secs_bound(3) [OF g]
  obtain sec1 left1 go1 b1 where f1: "find_section g ?sm dir ?hint ?hint False = (sec1, left1, go1, b1)"
    by (metis prod_cases4)
  have ok1: "free_sec g ?sm sec1 \<and> \<not> b1 \<and> (go1 \<longrightarrow> free_sec g ?sm left1)"
    by (rule find_section_free [OF s hint bound _ f1]) simp
  define hint2 where "hint2 = (if go1 then GET_ZONE_FROM_SEC g sec1 * secs_per_zone g - 1
      else if GET_ZONE_FROM_SEC g sec1 + 1 \<ge> main_secs g div secs_per_zone g then 0
      else (GET_ZONE_FROM_SEC g sec1 + 1) * secs_per_zone g)"
  have "sec1 div secs_per_zone g * secs_per_zone g \<le> sec1" by (rule div_times_less_eq_dividend)
  then have "sec1 div secs_per_zone g * secs_per_zone g - 1 \<le> main_secs g" using ok1 by linarith
  moreover have "(z + 1) * secs_per_zone g \<le> main_secs g" if "z + 1 < main_secs g div secs_per_zone g" for z
    using that by (meson div_times_less_eq_dividend le_trans less_imp_le mult_le_mono1)
  ultimately have hint2: "hint2 \<le> main_secs g"
    using ok1 by (auto simp: hint2_def GET_ZONE_FROM_SEC_def)
  obtain sec2 left2 go2 b2 where f2: "find_section g ?sm dir hint2 left1 go1 = (sec2, left2, go2, b2)"
    by (metis prod_cases4)
  have ok2: "free_sec g ?sm sec2 \<and> \<not> b2"
    using find_section_free [OF s hint2 bound _ f2] ok1 by blast
  let ?near = "find_next_zero_bit (\<lambda>i. test_bit i (free_segmap fi)) (GET_SEG_FROM_SEC g (?hint + 1)) (newseg + 1)"
  have near: "?near < main_segs g \<and> \<not> test_bit ?near (free_segmap fi)" if "?near < GET_SEG_FROM_SEC g (?hint + 1)"
  proof -
    have "(?hint + 1) * segs_per_sec g \<le> main_secs g * segs_per_sec g"
      using sec_of_seg [OF g seg] by (intro mult_le_mono1) simp
    then have "GET_SEG_FROM_SEC g (?hint + 1) \<le> main_segs g"
      using g by (simp add: GET_SEG_FROM_SEC_def geom_ok_def)
    then show ?thesis using that find_next_bit_sound [of "\<lambda>i. \<not> test_bit i (free_segmap fi)"]
      by (simp add: find_next_zero_bit_def)
  qed
  consider "segno = ?near" "?near < GET_SEG_FROM_SEC g (?hint + 1)" "bug = test_bit segno (free_segmap fi)"
    | "segno = GET_SEG_FROM_SEC g sec1" "bug = (b1 \<or> test_bit segno (free_segmap fi))"
    | "segno = GET_SEG_FROM_SEC g sec2" "bug = (b1 \<or> b2 \<or> test_bit segno (free_segmap fi))"
    using res f2 unfolding get_new_segment_def Let_def f1 prod.case hint2_def by (auto split: if_splits)
  moreover have "fi' = set_inuse g segno fi"
    using res f2 unfolding get_new_segment_def Let_def f1 prod.case hint2_def by (auto split: if_splits)
  ultimately show ?thesis
    using near free_section_segment [OF g ok] ok1 ok2 by cases auto
qed

text \<open>
  The free segment map stays right under every operation on it: \<^verbatim>\<open>free_segments\<close> and
  \<^verbatim>\<open>free_sections\<close> are the numbers of clear bits, and a section's bit is set exactly if one of its segments is
  in use. The test-and-set operations keep this for any segment of the main area, \<^verbatim>\<open>__set_inuse\<close> for a
  free one and \<^verbatim>\<open>__set_free\<close> for one in use, and each changes the bit of that segment only.
\<close>

theorem free_segmap_ops:
  assumes "geom_ok g" and "free_ok g fi" and "segno < main_segs g"
  shows "free_ok g (set_test_and_inuse g segno fi) \<and> free_ok g (set_test_and_free g segno fi) \<and>
    free_segmap (set_test_and_inuse g segno fi) = (free_segmap fi)[segno := True] \<and>
    free_segmap (set_test_and_free g segno fi) = (free_segmap fi)[segno := False] \<and>
    (\<not> test_bit segno (free_segmap fi) \<longrightarrow> free_ok g (set_inuse g segno fi) \<and>
       free_segmap (set_inuse g segno fi) = (free_segmap fi)[segno := True]) \<and>
    (test_bit segno (free_segmap fi) \<longrightarrow> free_ok g (set_free g segno fi) \<and>
       free_segmap (set_free g segno fi) = (free_segmap fi)[segno := False])"
  using set_test_and_inuse_ok [OF assms] set_test_and_free_ok [OF assms] set_inuse_ok [OF assms] set_free_ok [OF assms]
  by blast

definition demo_geom :: seg_geom where
  "demo_geom = \<lparr>log_blocks_per_seg = 9, segs_per_sec = 2, secs_per_zone = 1, main_segs = 8, main_secs = 4,
     seg0_blkaddr = 512, start_segno = 6\<rparr>"

definition demo_free :: free_segmap_info where
  "demo_free = \<lparr>free_segments = 5, free_sections = 2,
     free_segmap = [True, True, False, True, False, False, False, False], free_secmap = [True, True, False, False]\<rparr>"

lemma demo_geom_ok: "geom_ok demo_geom"
  by (simp add: geom_ok_def demo_geom_def)

lemma demo_free_ok: "free_ok demo_geom demo_free"
proof -
  have segs: "used (free_segmap demo_free) = 3" "used (free_secmap demo_free) = 2"
    by code_simp+
  have sps: "segs_per_sec demo_geom = 2" by (simp add: demo_geom_def)
  have ex: "(\<exists>s. in_section demo_geom c s \<and> test_bit s m) \<longleftrightarrow> list_ex (\<lambda>s. test_bit s m) [c * 2..<(c + 1) * 2]" for c m
    unfolding in_section_def sps list_ex_iff set_upt atLeastLessThan_iff Bex_def by blast
  have all: "\<forall>c \<in> set [0..<4]. test_bit c (free_secmap demo_free) \<longleftrightarrow>
      list_ex (\<lambda>s. test_bit s (free_segmap demo_free)) [c * 2..<(c + 1) * 2]"
    by code_simp
  have "test_bit secno (free_secmap demo_free) \<longleftrightarrow> (\<exists>s. in_section demo_geom secno s \<and> test_bit s (free_segmap demo_free))"
    if "secno < 4" for secno
  proof -
    have "secno \<in> set [0..<4]" using that by simp
    from bspec [OF all this] show ?thesis unfolding ex .
  qed
  then show ?thesis using segs by (simp add: free_ok_def) (simp add: demo_geom_def demo_free_def)
qed

theorem free_segmap_ops_witness:
  "free_ok demo_geom (set_test_and_free demo_geom 3 demo_free)"
  using free_segmap_ops [OF demo_geom_ok demo_free_ok, of 3] by (simp add: demo_geom_def)

text \<open>
  Property C23. As long as there is a free section, \<^verbatim>\<open>get_new_segment\<close> returns a segment of the main area
  that was free and is in use afterwards, whatever the hint, the direction, the request for a new section
  and the zones of the other logs; none of its assertions fails, the map stays right and no other segment
  changes.
\<close>

theorem get_new_segment_free:
  assumes "geom_ok g" and "free_ok g fi" and "newseg < main_segs g" and "0 < free_sections fi"
  shows "\<exists>fi' segno. get_new_segment g zones fi newseg new_sec dir = (fi', segno, False) \<and>
    segno < main_segs g \<and> \<not> test_bit segno (free_segmap fi) \<and> free_ok g fi' \<and>
    free_segmap fi' = (free_segmap fi)[segno := True] \<and> free_segments fi' = free_segments fi - 1"
proof -
  obtain fi' segno bug where res: "get_new_segment g zones fi newseg new_sec dir = (fi', segno, bug)"
    by (metis prod_cases3)
  note n = new_segment_free [OF assms res]
  then show ?thesis using res set_inuse_ok [OF assms(1,2), of segno] by auto
qed

theorem get_new_segment_free_witness:
  "\<exists>fi' segno. get_new_segment demo_geom [0, 1] demo_free 1 True ALLOC_LEFT = (fi', segno, False) \<and>
     \<not> test_bit segno (free_segmap demo_free)"
  using get_new_segment_free [OF demo_geom_ok demo_free_ok, of 1 "[0, 1]" True ALLOC_LEFT]
  by (auto simp: demo_geom_def demo_free_def)

end
