(* ===== verification/Sit.thy ===== *)
theory Sit
  imports Free_Segmap
begin

text \<open>
  The segment information table (\<^verbatim>\<open>segment.h\<close>, \<^verbatim>\<open>segment.c\<close>): for every segment its type, its maps of
  valid blocks now and at the last checkpoint, and the block counts derived from them for segments,
  sections and the whole volume. Shown here: the on-disk form of an entry loses nothing, and every update of
  a block keeps all counters equal to what the maps say, also on the error paths.

  The bit fields \<^verbatim>\<open>valid_blocks:10\<close> and \<^verbatim>\<open>ckpt_valid_blocks:10\<close> are integers that every assignment
  reduces modulo 1024. The mirror maps of \<^verbatim>\<open>CONFIG_F2FS_CHECK_FS\<close> are left out.
\<close>

section \<open>Entries in memory and on disk\<close>

record seg_entry =
  se_type :: nat
  valid_blocks :: int
  ckpt_valid_blocks :: int
  cur_valid_map :: "u8 list"
  ckpt_valid_map :: "u8 list"
  discard_map :: "u8 list"
  mtime :: u64

record f2fs_sit_entry =
  vblocks :: u16
  valid_map :: "u8 list"
  sit_mtime :: u64

definition SIT_VBLOCK_MAP_SIZE :: nat where "SIT_VBLOCK_MAP_SIZE = 64"
abbreviation (input) SIT_VBLOCKS_SHIFT :: nat where "SIT_VBLOCKS_SHIFT \<equiv> 10"
abbreviation (input) SIT_VBLOCKS_MASK :: u16 where "SIT_VBLOCKS_MASK \<equiv> 0x3ff"

definition GET_SIT_VBLOCKS :: "f2fs_sit_entry \<Rightarrow> u16" where
  "GET_SIT_VBLOCKS raw_sit = vblocks raw_sit AND SIT_VBLOCKS_MASK"

definition GET_SIT_TYPE :: "f2fs_sit_entry \<Rightarrow> u16" where
  "GET_SIT_TYPE raw_sit = drop_bit SIT_VBLOCKS_SHIFT (vblocks raw_sit AND NOT SIT_VBLOCKS_MASK)"

definition seg_info_from_raw_sit :: "seg_entry \<Rightarrow> f2fs_sit_entry \<Rightarrow> seg_entry" where
  "seg_info_from_raw_sit se rs =
     se\<lparr>valid_blocks := uint (GET_SIT_VBLOCKS rs), ckpt_valid_blocks := uint (GET_SIT_VBLOCKS rs),
        cur_valid_map := valid_map rs, ckpt_valid_map := valid_map rs,
        se_type := unat (GET_SIT_TYPE rs), mtime := sit_mtime rs\<rparr>"

definition to_raw_sit :: "seg_entry \<Rightarrow> f2fs_sit_entry" where
  "to_raw_sit se =
     \<lparr>vblocks = push_bit SIT_VBLOCKS_SHIFT (of_nat (se_type se)) OR word_of_int (valid_blocks se),
      valid_map = cur_valid_map se, sit_mtime = mtime se\<rparr>"

definition seg_info_to_raw_sit :: "seg_entry \<Rightarrow> seg_entry \<times> f2fs_sit_entry" where
  "seg_info_to_raw_sit se =
     (let rs = to_raw_sit se
      in (se\<lparr>ckpt_valid_map := valid_map rs, ckpt_valid_blocks := valid_blocks se\<rparr>, rs))"

text \<open>The loop of \<^verbatim>\<open>seg_info_to_sit_page\<close> over the entries of one SIT block.\<close>

definition seg_info_to_sit_page ::
  "nat \<Rightarrow> nat \<Rightarrow> seg_entry list \<Rightarrow> f2fs_sit_entry list \<Rightarrow> nat \<Rightarrow> f2fs_sit_entry list" where
  "seg_info_to_sit_page SIT_ENTRY_PER_BLOCK segs sents page start =
     (let end = min (start + SIT_ENTRY_PER_BLOCK) segs
      in fold (\<lambda>i page. page[i := to_raw_sit (sents ! (start + i))]) [0..<end - start] page)"

section \<open>State and updates\<close>

record sit_info =
  sentries :: "seg_entry list"
  sec_entries :: "int list"
  written_valid_blocks :: int
  dirty_sentries_bitmap :: "bool list"
  dirty_sentries :: int
  min_mtime :: u64
  max_mtime :: u64
  discard_blks :: int
  sit_bug :: bool

definition empty_seg_entry :: seg_entry where
  "empty_seg_entry = \<lparr>se_type = 0, valid_blocks = 0, ckpt_valid_blocks = 0, cur_valid_map = [],
     ckpt_valid_map = [], discard_map = [], mtime = 0\<rparr>"

definition get_seg_entry :: "sit_info \<Rightarrow> nat \<Rightarrow> seg_entry" where
  "get_seg_entry sit segno = arr_get empty_seg_entry (sentries sit) segno"

definition get_sec_entry :: "seg_geom \<Rightarrow> sit_info \<Rightarrow> nat \<Rightarrow> int" where
  "get_sec_entry g sit segno = arr_get 0 (sec_entries sit) (GET_SEC_FROM_SEG g segno)"

definition get_valid_blocks :: "seg_geom \<Rightarrow> sit_info \<Rightarrow> nat \<Rightarrow> bool \<Rightarrow> int" where
  "get_valid_blocks g sit segno use_section =
     (if use_section \<and> segs_per_sec g > 1 then get_sec_entry g sit segno
      else valid_blocks (get_seg_entry sit segno))"

definition put_seg_entry :: "nat \<Rightarrow> seg_entry \<Rightarrow> sit_info \<Rightarrow> sit_info" where
  "put_seg_entry segno se sit = sit\<lparr>sentries := (sentries sit)[segno := se]\<rparr>"

definition mark_sit_entry_dirty :: "nat \<Rightarrow> sit_info \<Rightarrow> sit_info \<times> bool" where
  "mark_sit_entry_dirty segno sit =
     (if \<not> test_bit segno (dirty_sentries_bitmap sit)
      then (sit\<lparr>dirty_sentries_bitmap := (dirty_sentries_bitmap sit)[segno := True],
                dirty_sentries := dirty_sentries sit + 1\<rparr>, False)
      else (sit, True))"

definition set_sit_entry_type :: "nat \<Rightarrow> nat \<Rightarrow> bool \<Rightarrow> sit_info \<Rightarrow> sit_info" where
  "set_sit_entry_type ty segno modified sit =
     (let sit = put_seg_entry segno ((get_seg_entry sit segno)\<lparr>se_type := ty\<rparr>) sit
      in if modified then fst (mark_sit_entry_dirty segno sit) else sit)"

definition CURSEG_WARM_NODE :: nat where "CURSEG_WARM_NODE = 4"

abbreviation bits10 :: "int \<Rightarrow> int" where "bits10 x \<equiv> x mod 1024"

text \<open>
  The two halves of \<^verbatim>\<open>update_sit_entry\<close> on the entry: setting and clearing the bit. They give the entry,
  the change that remains after a repaired error, the change of \<^verbatim>\<open>discard_blks\<close> and whether an assertion failed.
\<close>

definition sit_set_block :: "bool \<Rightarrow> nat \<Rightarrow> seg_entry \<Rightarrow> seg_entry \<times> int \<times> int \<times> bool" where
  "sit_set_block discard_en offset se =
     (let exist = f2fs_test_bit offset (cur_valid_map se) \<noteq> 0;
          se = se\<lparr>cur_valid_map := f2fs_set_bit offset (cur_valid_map se)\<rparr>;
          (se, del) = (if exist then (se\<lparr>valid_blocks := bits10 (valid_blocks se - 1)\<rparr>, 0) else (se, 1));
          (se, disc) =
            (if discard_en then
               (se\<lparr>discard_map := f2fs_set_bit offset (discard_map se)\<rparr>,
                if f2fs_test_bit offset (discard_map se) = 0 then - 1 else 0)
             else (se, 0));
          se = (if se_type se = CURSEG_WARM_NODE then
                  se\<lparr>ckpt_valid_map := f2fs_set_bit offset (ckpt_valid_map se),
                     ckpt_valid_blocks := (if f2fs_test_bit offset (ckpt_valid_map se) = 0
                                           then bits10 (ckpt_valid_blocks se + 1) else ckpt_valid_blocks se)\<rparr>
                else se)
      in (se, del, disc, exist))"

definition sit_clear_block :: "bool \<Rightarrow> nat \<Rightarrow> seg_entry \<Rightarrow> seg_entry \<times> int \<times> int \<times> bool" where
  "sit_clear_block discard_en offset se =
     (let exist = f2fs_test_bit offset (cur_valid_map se) \<noteq> 0;
          se = se\<lparr>cur_valid_map := f2fs_clear_bit offset (cur_valid_map se)\<rparr>;
          (se, del) = (if \<not> exist then (se\<lparr>valid_blocks := bits10 (valid_blocks se + 1)\<rparr>, 0) else (se, - 1));
          (se, disc) =
            (if discard_en then
               (se\<lparr>discard_map := f2fs_clear_bit offset (discard_map se)\<rparr>,
                if f2fs_test_bit offset (discard_map se) \<noteq> 0 then 1 else 0)
             else (se, 0))
      in (se, del, disc, \<not> exist))"

text \<open>The changes to the entry itself; \<open>now\<close> is what \<^verbatim>\<open>get_mtime\<close> returns.\<close>

definition sit_update_block ::
  "seg_geom \<Rightarrow> bool \<Rightarrow> u64 \<Rightarrow> nat \<Rightarrow> int \<Rightarrow> seg_entry \<Rightarrow> seg_entry \<times> int \<times> int \<times> bool" where
  "sit_update_block g discard_en now offset del se =
     (let new_vblocks = valid_blocks se + del;
          bug = (new_vblocks div 2 ^ 16 \<noteq> 0 \<or> new_vblocks > int (blocks_per_seg g));
          se = se\<lparr>valid_blocks := bits10 new_vblocks, mtime := now\<rparr>;
          (se, del, disc, bug') =
            (if del > 0 then sit_set_block discard_en offset se else sit_clear_block discard_en offset se);
          se = (if f2fs_test_bit offset (ckpt_valid_map se) = 0
                then se\<lparr>ckpt_valid_blocks := bits10 (ckpt_valid_blocks se + del)\<rparr> else se)
      in (se, del, disc, bug \<or> bug'))"

definition update_sit_entry :: "seg_geom \<Rightarrow> bool \<Rightarrow> u64 \<Rightarrow> nat \<Rightarrow> int \<Rightarrow> sit_info \<Rightarrow> sit_info" where
  "update_sit_entry g discard_en now blkaddr del sit =
     (let segno = GET_SEGNO g blkaddr;
          (se, del, disc, bug) =
            sit_update_block g discard_en now (GET_BLKOFF_FROM_SEG0 g blkaddr) del (get_seg_entry sit segno);
          sit = put_seg_entry segno se sit;
          sit = fst (mark_sit_entry_dirty segno sit);
          sec = GET_SEC_FROM_SEG g segno
      in sit\<lparr>max_mtime := now, discard_blks := discard_blks sit + disc,
             written_valid_blocks := written_valid_blocks sit + del,
             sec_entries := (if segs_per_sec g > 1
                             then (sec_entries sit)[sec := arr_get 0 (sec_entries sit) sec + del] else sec_entries sit),
             sit_bug := sit_bug sit \<or> bug\<rparr>)"

definition is_checkpointed_data :: "seg_geom \<Rightarrow> sit_info \<Rightarrow> nat \<Rightarrow> bool" where
  "is_checkpointed_data g sit blkaddr =
     (if blkaddr = NEW_ADDR \<or> blkaddr = NULL_ADDR then True
      else f2fs_test_bit (GET_BLKOFF_FROM_SEG0 g blkaddr)
             (ckpt_valid_map (get_seg_entry sit (GET_SEGNO g blkaddr))) \<noteq> 0)"

section \<open>The on-disk form\<close>

lemma vblocks_fields:
  fixes ty :: nat and vb :: int
  assumes "ty < 64" "0 \<le> vb" "vb < 1024"
  defines "w \<equiv> push_bit 10 (of_nat ty) OR (word_of_int vb :: u16)"
  shows "uint (w AND 0x3ff) = vb" "unat (drop_bit 10 (w AND NOT 0x3ff)) = ty"
proof -
  have "vb = take_bit 10 vb" "ty = take_bit 6 ty"
    using assms(1-3) by (simp_all add: take_bit_int_eq_self take_bit_nat_eq_self)
  then have v: "bit vb n \<Longrightarrow> n < 10" and t: "bit ty n \<Longrightarrow> n < 6" for n by (metis bit_take_bit_iff)+
  have m: "(0x3ff :: u16) = mask 10" by (simp add: mask_eq_exp_minus_1)
  have "w AND 0x3ff = word_of_int vb"
    by (rule bit_word_eqI) (auto simp: w_def m bit_simps dest: v)
  then show "uint (w AND 0x3ff) = vb" using assms(2,3) by (simp add: uint_word_of_int_eq take_bit_int_eq_self)
  have "drop_bit 10 (w AND NOT 0x3ff) = of_nat ty"
    by (rule bit_word_eqI) (auto simp: w_def m bit_simps dest: v t)
  then show "unat (drop_bit 10 (w AND NOT 0x3ff)) = ty"
    using assms(1) by (simp add: unsigned_of_nat take_bit_nat_eq_self)
qed

lemma raw_sit_fields:
  assumes "se_type se < 64" "0 \<le> valid_blocks se" "valid_blocks se < 1024"
  shows "uint (GET_SIT_VBLOCKS (to_raw_sit se)) = valid_blocks se" "unat (GET_SIT_TYPE (to_raw_sit se)) = se_type se"
  using vblocks_fields [OF assms] by (simp_all add: GET_SIT_VBLOCKS_def GET_SIT_TYPE_def to_raw_sit_def)

lemma sit_page_entries:
  shows "i < length page \<Longrightarrow> fold (\<lambda>i page. page[i := f i]) [0..<n] page ! i = (if i < n then f i else page ! i)"
    and "length (fold (\<lambda>i page. page[i := f i]) [0..<n] page) = length page"
  by (induction n) (auto simp: nth_list_update less_Suc_eq)

section \<open>Counting\<close>

definition map_count :: "u8 list \<Rightarrow> nat" where
  "map_count m = bit_count (rev_bit m) 512"

text \<open>Blocks valid now or at the last checkpoint: the ones that must not be overwritten.\<close>

definition keep_count :: "seg_entry \<Rightarrow> nat" where
  "keep_count se = bit_count (\<lambda>i. rev_bit (cur_valid_map se) i \<or> rev_bit (ckpt_valid_map se) i) 512"

definition seg_maps :: "seg_entry \<Rightarrow> bool" where
  "seg_maps se \<longleftrightarrow> length (cur_valid_map se) = 64 \<and> length (ckpt_valid_map se) = 64 \<and> length (discard_map se) = 64"

definition seg_counts :: "seg_entry \<Rightarrow> bool" where
  "seg_counts se \<longleftrightarrow> seg_maps se \<and> valid_blocks se = int (map_count (cur_valid_map se))"

lemma map_count_set:
  "length m = 64 \<Longrightarrow> i < 512 \<Longrightarrow> map_count (f2fs_set_bit i m) = (if rev_bit m i then map_count m else Suc (map_count m))"
  using msb.count_put [of i 512 m] by (simp add: map_count_def)

lemma map_count_clear:
  assumes "length m = 64" "i < 512"
  shows "map_count m = (if rev_bit m i then Suc (map_count (f2fs_clear_bit i m)) else map_count (f2fs_clear_bit i m))"
proof -
  have "rev_bit m i \<Longrightarrow> 0 < map_count m"
    unfolding map_count_def bit_count_card card_gt_0_iff using assms(2) by auto
  then show ?thesis using msb.count_clr [of i 512 m] assms by (simp add: map_count_def)
qed

lemma map_count_clear_int:
  "length m = 64 \<Longrightarrow> i < 512 \<Longrightarrow>
     int (map_count (f2fs_clear_bit i m)) = int (map_count m) - (if rev_bit m i then 1 else 0)"
  using map_count_clear [of m i] by auto

lemma map_count_le: "map_count m \<le> 512"
  unfolding map_count_def by (rule bit_count_le)

lemma set_bit_test: "length m = 64 \<Longrightarrow> i < 512 \<Longrightarrow> rev_bit (f2fs_set_bit i m) j = (j = i \<or> rev_bit m j)"
  using msb.tst_put [of i m j] by simp

lemma clear_bit_test: "length m = 64 \<Longrightarrow> i < 512 \<Longrightarrow> rev_bit (f2fs_clear_bit i m) j = (j \<noteq> i \<and> rev_bit m j)"
  using msb.tst_clr [of i m j] by simp

lemma seg_counts_range: "seg_counts se \<Longrightarrow> 0 \<le> valid_blocks se \<and> valid_blocks se \<le> 512"
  using map_count_le by (simp add: seg_counts_def)

text \<open>The fields of the entry after an update, in both directions.\<close>

lemma sit_set_block_form:
  "sit_set_block de offset se =
     (se\<lparr>cur_valid_map := f2fs_set_bit offset (cur_valid_map se),
         valid_blocks := (if rev_bit (cur_valid_map se) offset then bits10 (valid_blocks se - 1) else valid_blocks se),
         discard_map := (if de then f2fs_set_bit offset (discard_map se) else discard_map se),
         ckpt_valid_map := (if se_type se = CURSEG_WARM_NODE then f2fs_set_bit offset (ckpt_valid_map se) else ckpt_valid_map se),
         ckpt_valid_blocks := (if se_type se = CURSEG_WARM_NODE \<and> \<not> rev_bit (ckpt_valid_map se) offset
           then bits10 (ckpt_valid_blocks se + 1) else ckpt_valid_blocks se)\<rparr>,
      if rev_bit (cur_valid_map se) offset then 0 else 1,
      if de \<and> \<not> rev_bit (discard_map se) offset then - 1 else 0, rev_bit (cur_valid_map se) offset)"
  by (cases "rev_bit (cur_valid_map se) offset"; cases de; cases "se_type se = CURSEG_WARM_NODE")
     (simp_all add: sit_set_block_def Let_def)

lemma sit_clear_block_form:
  "sit_clear_block de offset se =
     (se\<lparr>cur_valid_map := f2fs_clear_bit offset (cur_valid_map se),
         valid_blocks := (if rev_bit (cur_valid_map se) offset then valid_blocks se else bits10 (valid_blocks se + 1)),
         discard_map := (if de then f2fs_clear_bit offset (discard_map se) else discard_map se)\<rparr>,
      if rev_bit (cur_valid_map se) offset then - 1 else 0,
      if de \<and> rev_bit (discard_map se) offset then 1 else 0, \<not> rev_bit (cur_valid_map se) offset)"
  by (cases "rev_bit (cur_valid_map se) offset"; cases de) (simp_all add: sit_clear_block_def Let_def)

lemma update_set_fields:
  assumes "sit_update_block g de now offset 1 se = (se', del', disc, bug)"
  shows "cur_valid_map se' = f2fs_set_bit offset (cur_valid_map se)"
    "discard_map se' = (if de then f2fs_set_bit offset (discard_map se) else discard_map se)"
    "valid_blocks se' = (if rev_bit (cur_valid_map se) offset then bits10 (bits10 (valid_blocks se + 1) - 1)
       else bits10 (valid_blocks se + 1))"
    "del' = (if rev_bit (cur_valid_map se) offset then 0 else 1)"
    "disc = (if de \<and> \<not> rev_bit (discard_map se) offset then - 1 else 0)"
    "se_type se' = se_type se" "mtime se' = now"
    "ckpt_valid_map se' = (if se_type se = CURSEG_WARM_NODE then f2fs_set_bit offset (ckpt_valid_map se) else ckpt_valid_map se)"
    "bug = (((valid_blocks se + 1) div 2 ^ 16 \<noteq> 0 \<or> valid_blocks se + 1 > int (blocks_per_seg g)) \<or> rev_bit (cur_valid_map se) offset)"
    "ckpt_valid_blocks se' = (let c = (if se_type se = CURSEG_WARM_NODE \<and> \<not> rev_bit (ckpt_valid_map se) offset
           then bits10 (ckpt_valid_blocks se + 1) else ckpt_valid_blocks se)
       in if rev_bit (ckpt_valid_map se') offset then c else bits10 (c + del'))"
proof -
  obtain x d k b where blk: "sit_set_block de offset (se\<lparr>valid_blocks := bits10 (valid_blocks se + 1), mtime := now\<rparr>) = (x, d, k, b)"
    by (metis prod_cases4)
  note f = sit_set_block_form [of de offset "se\<lparr>valid_blocks := bits10 (valid_blocks se + 1), mtime := now\<rparr>", unfolded blk]
  have out: "se' = (if f2fs_test_bit offset (ckpt_valid_map x) = 0
      then x\<lparr>ckpt_valid_blocks := bits10 (ckpt_valid_blocks x + d)\<rparr> else x)" "del' = d" "disc = k"
      "bug = (((valid_blocks se + 1) div 2 ^ 16 \<noteq> 0 \<or> valid_blocks se + 1 > int (blocks_per_seg g)) \<or> b)"
    using assms blk by (auto simp: sit_update_block_def Let_def)
  from f have x: "x = se\<lparr>valid_blocks := (if rev_bit (cur_valid_map se) offset then bits10 (bits10 (valid_blocks se + 1) - 1)
        else bits10 (valid_blocks se + 1)), mtime := now, cur_valid_map := f2fs_set_bit offset (cur_valid_map se),
      discard_map := (if de then f2fs_set_bit offset (discard_map se) else discard_map se),
      ckpt_valid_map := (if se_type se = CURSEG_WARM_NODE then f2fs_set_bit offset (ckpt_valid_map se) else ckpt_valid_map se),
      ckpt_valid_blocks := (if se_type se = CURSEG_WARM_NODE \<and> \<not> rev_bit (ckpt_valid_map se) offset
           then bits10 (ckpt_valid_blocks se + 1) else ckpt_valid_blocks se)\<rparr>"
    and d: "d = (if rev_bit (cur_valid_map se) offset then 0 else 1)" "b = rev_bit (cur_valid_map se) offset"
      "k = (if de \<and> \<not> rev_bit (discard_map se) offset then - 1 else 0)"
    by simp_all
  show "cur_valid_map se' = f2fs_set_bit offset (cur_valid_map se)"
    "discard_map se' = (if de then f2fs_set_bit offset (discard_map se) else discard_map se)"
    "valid_blocks se' = (if rev_bit (cur_valid_map se) offset then bits10 (bits10 (valid_blocks se + 1) - 1)
       else bits10 (valid_blocks se + 1))"
    "se_type se' = se_type se" "mtime se' = now"
    "ckpt_valid_map se' = (if se_type se = CURSEG_WARM_NODE then f2fs_set_bit offset (ckpt_valid_map se) else ckpt_valid_map se)"
    by (simp_all add: out x)
  show "del' = (if rev_bit (cur_valid_map se) offset then 0 else 1)"
    "disc = (if de \<and> \<not> rev_bit (discard_map se) offset then - 1 else 0)"
    "bug = (((valid_blocks se + 1) div 2 ^ 16 \<noteq> 0 \<or> valid_blocks se + 1 > int (blocks_per_seg g)) \<or> rev_bit (cur_valid_map se) offset)"
    using out d by simp_all
  show "ckpt_valid_blocks se' = (let c = (if se_type se = CURSEG_WARM_NODE \<and> \<not> rev_bit (ckpt_valid_map se) offset
           then bits10 (ckpt_valid_blocks se + 1) else ckpt_valid_blocks se)
       in if rev_bit (ckpt_valid_map se') offset then c else bits10 (c + del'))"
    by (simp add: out x Let_def)
qed

lemma update_clear_fields:
  assumes "sit_update_block g de now offset (- 1) se = (se', del', disc, bug)"
  shows "cur_valid_map se' = f2fs_clear_bit offset (cur_valid_map se)"
    "discard_map se' = (if de then f2fs_clear_bit offset (discard_map se) else discard_map se)"
    "valid_blocks se' = (if rev_bit (cur_valid_map se) offset then bits10 (valid_blocks se - 1)
       else bits10 (bits10 (valid_blocks se - 1) + 1))"
    "del' = (if rev_bit (cur_valid_map se) offset then - 1 else 0)"
    "disc = (if de \<and> rev_bit (discard_map se) offset then 1 else 0)"
    "se_type se' = se_type se" "mtime se' = now"
    "ckpt_valid_map se' = ckpt_valid_map se"
    "bug = (((valid_blocks se - 1) div 2 ^ 16 \<noteq> 0 \<or> valid_blocks se - 1 > int (blocks_per_seg g)) \<or> \<not> rev_bit (cur_valid_map se) offset)"
    "ckpt_valid_blocks se' = (if rev_bit (ckpt_valid_map se) offset then ckpt_valid_blocks se else bits10 (ckpt_valid_blocks se + del'))"
proof -
  obtain x d k b where blk: "sit_clear_block de offset (se\<lparr>valid_blocks := bits10 (valid_blocks se - 1), mtime := now\<rparr>) = (x, d, k, b)"
    by (metis prod_cases4)
  note f = sit_clear_block_form [of de offset "se\<lparr>valid_blocks := bits10 (valid_blocks se - 1), mtime := now\<rparr>", unfolded blk]
  have out: "se' = (if f2fs_test_bit offset (ckpt_valid_map x) = 0
      then x\<lparr>ckpt_valid_blocks := bits10 (ckpt_valid_blocks x + d)\<rparr> else x)" "del' = d" "disc = k"
      "bug = (((valid_blocks se - 1) div 2 ^ 16 \<noteq> 0 \<or> valid_blocks se - 1 > int (blocks_per_seg g)) \<or> b)"
    using assms blk by (auto simp: sit_update_block_def Let_def)
  from f have x: "x = se\<lparr>valid_blocks := (if rev_bit (cur_valid_map se) offset then bits10 (valid_blocks se - 1)
        else bits10 (bits10 (valid_blocks se - 1) + 1)), mtime := now, cur_valid_map := f2fs_clear_bit offset (cur_valid_map se),
      discard_map := (if de then f2fs_clear_bit offset (discard_map se) else discard_map se)\<rparr>"
    and d: "d = (if rev_bit (cur_valid_map se) offset then - 1 else 0)" "b = (\<not> rev_bit (cur_valid_map se) offset)"
      "k = (if de \<and> rev_bit (discard_map se) offset then 1 else 0)"
    by simp_all
  show "cur_valid_map se' = f2fs_clear_bit offset (cur_valid_map se)"
    "discard_map se' = (if de then f2fs_clear_bit offset (discard_map se) else discard_map se)"
    "valid_blocks se' = (if rev_bit (cur_valid_map se) offset then bits10 (valid_blocks se - 1)
       else bits10 (bits10 (valid_blocks se - 1) + 1))"
    "se_type se' = se_type se" "mtime se' = now" "ckpt_valid_map se' = ckpt_valid_map se"
    by (simp_all add: out x)
  show "del' = (if rev_bit (cur_valid_map se) offset then - 1 else 0)"
    "disc = (if de \<and> rev_bit (discard_map se) offset then 1 else 0)"
    "bug = (((valid_blocks se - 1) div 2 ^ 16 \<noteq> 0 \<or> valid_blocks se - 1 > int (blocks_per_seg g)) \<or> \<not> rev_bit (cur_valid_map se) offset)"
    using out d by simp_all
  show "ckpt_valid_blocks se' = (if rev_bit (ckpt_valid_map se) offset then ckpt_valid_blocks se else bits10 (ckpt_valid_blocks se + del'))"
    by (simp add: out x)
qed

text \<open>What an update leaves in the entry, error or not.\<close>

definition block_updated :: "bool \<Rightarrow> u64 \<Rightarrow> nat \<Rightarrow> int \<Rightarrow> seg_entry \<Rightarrow> seg_entry \<Rightarrow> int \<Rightarrow> int \<Rightarrow> bool" where
  "block_updated de now offset del se se' del' disc \<longleftrightarrow>
     seg_counts se' \<and> valid_blocks se' = valid_blocks se + del' \<and>
     del' = (if rev_bit (cur_valid_map se) offset = (del = 1) then 0 else del) \<and>
     (\<forall>i. rev_bit (cur_valid_map se') i = (if i = offset then del = 1 else rev_bit (cur_valid_map se) i)) \<and>
     disc = (if de then int (map_count (discard_map se)) - int (map_count (discard_map se')) else 0) \<and>
     se_type se' = se_type se \<and> mtime se' = now"

lemma sit_update_block_counts:
  assumes se: "seg_counts se" and ofs: "offset < 512" and del: "del = 1 \<or> del = - 1"
    and res: "sit_update_block g de now offset del se = (se', del', disc, bug)"
  shows "block_updated de now offset del se se' del' disc"
proof -
  have len: "length (cur_valid_map se) = 64" "length (discard_map se) = 64" "length (ckpt_valid_map se) = 64"
    and v: "valid_blocks se = int (map_count (cur_valid_map se))"
    using se by (simp_all add: seg_counts_def seg_maps_def)
  have r: "0 \<le> valid_blocks se" "valid_blocks se \<le> 512" using seg_counts_range [OF se] by simp_all
  have b: "bits10 (bits10 (valid_blocks se + 1) - 1) = valid_blocks se"
    "bits10 (bits10 (valid_blocks se - 1) + 1) = valid_blocks se"
    "bits10 (valid_blocks se + 1) = valid_blocks se + 1"
    using r by (simp_all add: mod_simps)
  have b': "rev_bit (cur_valid_map se) offset \<Longrightarrow> bits10 (valid_blocks se - 1) = valid_blocks se - 1"
    using map_count_clear [OF len(1) ofs] v r by simp
  from del show ?thesis
  proof
    assume d: "del = 1"
    note f = update_set_fields [OF res [unfolded d]]
    show ?thesis unfolding block_updated_def seg_counts_def seg_maps_def f(1-8) d
      using v len set_bit_test [OF len(1) ofs] map_count_set [OF len(1) ofs] map_count_set [OF len(2) ofs] b(1,3)
      by auto
  next
    assume d: "del = - 1"
    note f = update_clear_fields [OF res [unfolded d]]
    show ?thesis unfolding block_updated_def seg_counts_def seg_maps_def f(1-8) d
      using v len clear_bit_test [OF len(1) ofs] map_count_clear_int [OF len(1) ofs]
        map_count_clear_int [OF len(2) ofs] b(2) b'
      by auto
  qed
qed

definition seg_keep :: "seg_entry \<Rightarrow> bool" where
  "seg_keep se \<longleftrightarrow> ckpt_valid_blocks se = int (keep_count se)"

lemma keep_count_le: "keep_count se \<le> 512"
  unfolding keep_count_def by (rule bit_count_le)

lemma keep_count_cong:
  "(\<And>i. i < 512 \<Longrightarrow> (rev_bit (cur_valid_map a) i \<or> rev_bit (ckpt_valid_map a) i) = P i) \<Longrightarrow> keep_count a = bit_count P 512"
  unfolding keep_count_def by (rule bit_count_cong) auto

text \<open>The count of blocks to keep follows the update when the update is no error.\<close>

lemma sit_update_block_keep:
  assumes se: "seg_counts se" "seg_keep se" and ofs: "offset < 512" and del: "del = 1 \<or> del = - 1"
    and good: "rev_bit (cur_valid_map se) offset \<longleftrightarrow> del = - 1"
    and res: "sit_update_block g de now offset del se = (se', del', disc, bug)"
  shows "seg_keep se'" "\<And>i. rev_bit (ckpt_valid_map se) i \<Longrightarrow> rev_bit (ckpt_valid_map se') i"
    "\<And>i. i \<noteq> offset \<Longrightarrow> rev_bit (ckpt_valid_map se') i = rev_bit (ckpt_valid_map se) i"
    "blocks_per_seg g = 512 \<Longrightarrow> \<not> bug"
proof -
  let ?P = "\<lambda>i. rev_bit (cur_valid_map se) i \<or> rev_bit (ckpt_valid_map se) i"
  have len: "length (cur_valid_map se) = 64" "length (ckpt_valid_map se) = 64"
    using se(1) by (simp_all add: seg_counts_def seg_maps_def)
  have k: "ckpt_valid_blocks se = int (bit_count ?P 512)" using se(2) by (simp add: seg_keep_def keep_count_def)
  have v: "0 \<le> valid_blocks se" "valid_blocks se \<le> 512" using seg_counts_range [OF se(1)] by simp_all
  have ub: "bit_count ?P 512 \<le> 512" by (rule bit_count_le)
  have "seg_keep se' \<and> (\<forall>i. rev_bit (ckpt_valid_map se) i \<longrightarrow> rev_bit (ckpt_valid_map se') i) \<and>
    (\<forall>i. i \<noteq> offset \<longrightarrow> rev_bit (ckpt_valid_map se') i = rev_bit (ckpt_valid_map se) i) \<and>
    (blocks_per_seg g = 512 \<longrightarrow> \<not> bug)"
    using del
  proof
    assume d: "del = 1"
    note f = update_set_fields [OF res [unfolded d]]
    have c: "\<not> rev_bit (cur_valid_map se) offset" using good d by simp
    have ck: "rev_bit (ckpt_valid_map se') i = (se_type se = CURSEG_WARM_NODE \<and> i = offset \<or> rev_bit (ckpt_valid_map se) i)" for i
      using set_bit_test [OF len(2) ofs, of i] by (auto simp: f(8))
    have "keep_count se' = bit_count (\<lambda>i. i = offset \<or> ?P i) 512"
      using set_bit_test [OF len(1) ofs] by (intro keep_count_cong) (auto simp: f(1) ck)
    moreover have "bit_count (\<lambda>i. i = offset \<or> ?P i) 512 = (if ?P offset then bit_count ?P 512 else Suc (bit_count ?P 512))"
    proof (cases "?P offset")
      case True
      then have "(\<lambda>i. i = offset \<or> ?P i) = ?P" by auto
      with True show ?thesis by simp
    qed (use bit_count_flip_on [of offset 512 ?P] ofs in simp)
    ultimately have "seg_keep se'"
      using c k ub f(4,10) ck [of offset] by (auto simp: seg_keep_def Let_def)
    moreover have "(valid_blocks se + 1) div 65536 = 0" "valid_blocks se + 1 \<le> 512"
    proof -
      show "(valid_blocks se + 1) div 65536 = 0" using v by (intro div_pos_pos_trivial) auto
      have "map_count (f2fs_set_bit offset (cur_valid_map se)) = Suc (map_count (cur_valid_map se))"
        using map_count_set [OF len(1) ofs] c by simp
      then show "valid_blocks se + 1 \<le> 512"
        using se(1) map_count_le [of "f2fs_set_bit offset (cur_valid_map se)"] by (simp add: seg_counts_def)
    qed
    ultimately show ?thesis using ck c f(9) by auto
  next
    assume d: "del = - 1"
    note f = update_clear_fields [OF res [unfolded d]]
    have c: "rev_bit (cur_valid_map se) offset" using good d by simp
    have "seg_keep se'"
    proof (cases "rev_bit (ckpt_valid_map se) offset")
      case True
      then have "keep_count se' = bit_count ?P 512"
        using clear_bit_test [OF len(1) ofs] by (intro keep_count_cong) (auto simp: f(1,8))
      then show ?thesis using True k f(10) by (simp add: seg_keep_def)
    next
      case False
      then have "keep_count se' = bit_count (\<lambda>i. i \<noteq> offset \<and> ?P i) 512"
        using clear_bit_test [OF len(1) ofs] by (intro keep_count_cong) (auto simp: f(1,8))
      moreover have "bit_count ?P 512 = Suc (bit_count (\<lambda>i. i \<noteq> offset \<and> ?P i) 512)"
        using bit_count_flip_off [of offset 512 ?P] ofs c by simp
      ultimately show ?thesis using False k ub c f(4,10) by (simp add: seg_keep_def)
    qed
    moreover have "(valid_blocks se - 1) div 65536 = 0"
    proof -
      have "0 < map_count (cur_valid_map se)" using map_count_clear [OF len(1) ofs] c by simp
      then show ?thesis using v se(1) by (intro div_pos_pos_trivial) (auto simp: seg_counts_def)
    qed
    ultimately show ?thesis using c f(8,9) v by auto
  qed
  then show "seg_keep se'" "\<And>i. rev_bit (ckpt_valid_map se) i \<Longrightarrow> rev_bit (ckpt_valid_map se') i"
    "\<And>i. i \<noteq> offset \<Longrightarrow> rev_bit (ckpt_valid_map se') i = rev_bit (ckpt_valid_map se) i"
    "blocks_per_seg g = 512 \<Longrightarrow> \<not> bug"
    by blast+
qed

section \<open>The table\<close>

text \<open>
  All counters of the table agree with the validity maps: per segment, per section, in total,
  for the dirty entries and for the blocks that could be discarded.
\<close>

definition vb :: "sit_info \<Rightarrow> nat \<Rightarrow> int" where
  "vb sit s = valid_blocks (sentries sit ! s)"

definition sec_segs :: "seg_geom \<Rightarrow> nat \<Rightarrow> nat set" where
  "sec_segs g c = {c * segs_per_sec g..<(c + 1) * segs_per_sec g}"

definition sit_counts :: "seg_geom \<Rightarrow> bool \<Rightarrow> sit_info \<Rightarrow> bool" where
  "sit_counts g de sit \<longleftrightarrow>
     length (sentries sit) = main_segs g \<and> (\<forall>s < main_segs g. seg_counts (sentries sit ! s)) \<and>
     written_valid_blocks sit = (\<Sum>s < main_segs g. vb sit s) \<and>
     (segs_per_sec g > 1 \<longrightarrow> length (sec_entries sit) = main_secs g \<and>
        (\<forall>c < main_secs g. sec_entries sit ! c = (\<Sum>s \<in> sec_segs g c. vb sit s))) \<and>
     length (dirty_sentries_bitmap sit) = main_segs g \<and> dirty_sentries sit = int (used (dirty_sentries_bitmap sit)) \<and>
     (de \<longrightarrow> discard_blks sit = (\<Sum>s < main_segs g. 512 - int (map_count (discard_map (sentries sit ! s)))))"

lemma sum_upd:
  fixes f :: "nat \<Rightarrow> int"
  assumes "finite A" "\<And>x. x \<noteq> i \<Longrightarrow> f' x = f x"
  shows "sum f' A = sum f A + (if i \<in> A then f' i - f i else 0)"
proof (cases "i \<in> A")
  case True
  have "sum f' (A - {i}) = sum f (A - {i})" using assms(2) by (intro sum.cong) auto
  with True assms(1) show ?thesis by (simp add: sum.remove [of A i])
next
  case False
  have "sum f' A = sum f A"
  proof (rule sum.cong [OF refl])
    fix x assume "x \<in> A"
    then have "x \<noteq> i" using False by blast
    then show "f' x = f x" by (rule assms(2))
  qed
  with False show ?thesis by simp
qed

lemma mark_dirty_simps [simp]:
  "sentries (fst (mark_sit_entry_dirty s sit)) = sentries sit"
  "sec_entries (fst (mark_sit_entry_dirty s sit)) = sec_entries sit"
  "written_valid_blocks (fst (mark_sit_entry_dirty s sit)) = written_valid_blocks sit"
  "discard_blks (fst (mark_sit_entry_dirty s sit)) = discard_blks sit"
  "sit_bug (fst (mark_sit_entry_dirty s sit)) = sit_bug sit"
  by (simp_all add: mark_sit_entry_dirty_def)

lemma mark_dirty_count:
  assumes "s < length (dirty_sentries_bitmap sit)" "dirty_sentries sit = int (used (dirty_sentries_bitmap sit))"
  shows "dirty_sentries (fst (mark_sit_entry_dirty s sit)) = int (used (dirty_sentries_bitmap (fst (mark_sit_entry_dirty s sit))))"
    "length (dirty_sentries_bitmap (fst (mark_sit_entry_dirty s sit))) = length (dirty_sentries_bitmap sit)"
    "test_bit s (dirty_sentries_bitmap (fst (mark_sit_entry_dirty s sit)))"
  using assms used_set [OF assms(1)] kb.tst_put [OF assms(1)] by (auto simp: mark_sit_entry_dirty_def)

lemma put_seg_entry_simps [simp]:
  "sentries (put_seg_entry s e sit) = (sentries sit)[s := e]"
  "sec_entries (put_seg_entry s e sit) = sec_entries sit"
  "written_valid_blocks (put_seg_entry s e sit) = written_valid_blocks sit"
  "discard_blks (put_seg_entry s e sit) = discard_blks sit"
  "sit_bug (put_seg_entry s e sit) = sit_bug sit"
  "dirty_sentries (put_seg_entry s e sit) = dirty_sentries sit"
  "dirty_sentries_bitmap (put_seg_entry s e sit) = dirty_sentries_bitmap sit"
  by (simp_all add: put_seg_entry_def)

lemma in_sec_segs: "0 < segs_per_sec g \<Longrightarrow> s \<in> sec_segs g c \<longleftrightarrow> c = GET_SEC_FROM_SEG g s"
  using in_section_iff [of g c s] by (auto simp: sec_segs_def in_section_def)

text \<open>An address in the main area.\<close>

definition main_addr :: "seg_geom \<Rightarrow> nat \<Rightarrow> bool" where
  "main_addr g blk \<longleftrightarrow> START_BLOCK g 0 \<le> blk \<and> blk < START_BLOCK g (main_segs g)"

lemma main_addr_split:
  assumes "geom_ok g" "main_addr g blk"
  shows "GET_SEGNO g blk < main_segs g" "GET_BLKOFF_FROM_SEG0 g blk < blocks_per_seg g"
    "blk = START_BLOCK g (GET_SEGNO g blk) + GET_BLKOFF_FROM_SEG0 g blk"
proof -
  let ?b = "2 ^ log_blocks_per_seg g :: nat"
  define q r where "q = (blk - seg0_blkaddr g) div ?b" and "r = (blk - seg0_blkaddr g) mod ?b"
  have bs: "seg0_blkaddr g + start_segno g * ?b \<le> blk" "blk < seg0_blkaddr g + (main_segs g + start_segno g) * ?b"
    using assms(2) by (simp_all add: main_addr_def START_BLOCK_def)
  then have d: "start_segno g * ?b \<le> blk - seg0_blkaddr g" "blk - seg0_blkaddr g < (main_segs g + start_segno g) * ?b"
    by linarith+
  have q: "start_segno g \<le> q" "q < main_segs g + start_segno g"
    using div_le_mono [OF d(1), of ?b] less_mult_imp_div_less [OF d(2)] by (simp_all add: q_def)
  define s where "s = q - start_segno g"
  have s: "s < main_segs g" "q = s + start_segno g" using q by (auto simp: s_def)
  have r: "r < blocks_per_seg g" by (simp add: r_def blocks_per_seg_def)
  have "blk - seg0_blkaddr g = q * ?b + r" unfolding q_def r_def by (rule div_mult_mod_eq [symmetric])
  moreover have "seg0_blkaddr g \<le> blk" using bs(1) by linarith
  ultimately have blk: "blk = START_BLOCK g s + r" using s(2) by (simp add: START_BLOCK_def)
  note seg = segno_of_block [OF assms(1) s(1) r]
  show "GET_SEGNO g blk < main_segs g" "GET_BLKOFF_FROM_SEG0 g blk < blocks_per_seg g"
    "blk = START_BLOCK g (GET_SEGNO g blk) + GET_BLKOFF_FROM_SEG0 g blk"
    unfolding blk seg(1,2) using s(1) r by simp_all
qed

lemma update_sit_entry_form:
  assumes "sit_update_block g de now (GET_BLKOFF_FROM_SEG0 g blk) del (get_seg_entry sit (GET_SEGNO g blk)) = (se', del', disc, bug)"
  shows "sentries (update_sit_entry g de now blk del sit) = (sentries sit)[GET_SEGNO g blk := se']"
    "written_valid_blocks (update_sit_entry g de now blk del sit) = written_valid_blocks sit + del'"
    "discard_blks (update_sit_entry g de now blk del sit) = discard_blks sit + disc"
    "sit_bug (update_sit_entry g de now blk del sit) = (sit_bug sit \<or> bug)"
    "sec_entries (update_sit_entry g de now blk del sit) =
       (let sec = GET_SEC_FROM_SEG g (GET_SEGNO g blk) in
        if segs_per_sec g > 1 then (sec_entries sit)[sec := arr_get 0 (sec_entries sit) sec + del'] else sec_entries sit)"
    "dirty_sentries (update_sit_entry g de now blk del sit) =
       dirty_sentries (fst (mark_sit_entry_dirty (GET_SEGNO g blk) (put_seg_entry (GET_SEGNO g blk) se' sit)))"
    "dirty_sentries_bitmap (update_sit_entry g de now blk del sit) =
       dirty_sentries_bitmap (fst (mark_sit_entry_dirty (GET_SEGNO g blk) (put_seg_entry (GET_SEGNO g blk) se' sit)))"
  using assms by (simp_all add: update_sit_entry_def Let_def)

lemma update_sit_entry_counts:
  assumes g: "geom_ok g" "log_blocks_per_seg g = 9" and ok: "sit_counts g de sit" and blk: "main_addr g blk"
    and del: "del = 1 \<or> del = - 1"
  shows "sit_counts g de (update_sit_entry g de now blk del sit)"
proof -
  let ?s = "GET_SEGNO g blk" and ?o = "GET_BLKOFF_FROM_SEG0 g blk" and ?sit' = "update_sit_entry g de now blk del sit"
  have s: "?s < main_segs g" "?o < 512"
    using main_addr_split [OF g(1) blk] g(2) by (simp_all add: blocks_per_seg_def)
  have pos: "0 < segs_per_sec g" using g(1) by (simp add: geom_ok_def)
  have len: "length (sentries sit) = main_segs g" and se: "seg_counts (sentries sit ! ?s)"
    using ok s by (simp_all add: sit_counts_def)
  have get: "get_seg_entry sit ?s = sentries sit ! ?s" using s len by (simp add: get_seg_entry_def)
  obtain se' del' disc bug where blkr: "sit_update_block g de now ?o del (get_seg_entry sit ?s) = (se', del', disc, bug)"
    by (metis prod_cases4)
  note f = update_sit_entry_form [OF blkr]
  have bu: "block_updated de now ?o del (sentries sit ! ?s) se' del' disc"
    using sit_update_block_counts [OF se s(2) del] blkr by (simp add: get)
  have vb': "vb ?sit' x = (if x = ?s then valid_blocks se' else vb sit x)" if "x < main_segs g" for x
    using that len by (auto simp: vb_def f(1) nth_list_update)
  have delta: "valid_blocks se' - vb sit ?s = del'" using bu by (simp add: block_updated_def vb_def)
  have sumd: "(\<Sum>x \<in> A. vb ?sit' x) = (\<Sum>x \<in> A. vb sit x) + (if ?s \<in> A then del' else 0)"
    if "A \<subseteq> {..<main_segs g}" for A
  proof -
    have "finite A" using that finite_subset by blast
    moreover have "(\<Sum>x \<in> A. vb ?sit' x) = (\<Sum>x \<in> A. if x = ?s then valid_blocks se' else vb sit x)"
      using that vb' by (intro sum.cong) auto
    ultimately show ?thesis using sum_upd [of A ?s "\<lambda>x. if x = ?s then valid_blocks se' else vb sit x" "vb sit"] delta by simp
  qed
  have secsub: "sec_segs g c \<subseteq> {..<main_segs g}" if "c < main_secs g" for c
  proof -
    have "(c + 1) * segs_per_sec g \<le> main_secs g * segs_per_sec g" using that by (intro mult_le_mono1) simp
    then show ?thesis using g(1) by (auto simp: sec_segs_def geom_ok_def)
  qed
  have secs: "length (sec_entries ?sit') = main_secs g \<and>
      (\<forall>c < main_secs g. sec_entries ?sit' ! c = (\<Sum>x \<in> sec_segs g c. vb ?sit' x))" if "segs_per_sec g > 1"
  proof -
    have old: "length (sec_entries sit) = main_secs g" "\<forall>c < main_secs g. sec_entries sit ! c = (\<Sum>x \<in> sec_segs g c. vb sit x)"
      using ok that by (simp_all add: sit_counts_def)
    then show ?thesis
      using that sec_of_seg [OF g(1) s(1)] sumd [OF secsub]
      by (auto simp: f(5) Let_def nth_list_update in_sec_segs [OF pos])
  qed
  let ?dm = "\<lambda>x. 512 - int (map_count (discard_map (sentries sit ! x)))"
  have disc: "discard_blks ?sit' = (\<Sum>x < main_segs g. 512 - int (map_count (discard_map (sentries ?sit' ! x))))" if de
  proof -
    have "(\<Sum>x < main_segs g. 512 - int (map_count (discard_map (sentries ?sit' ! x)))) =
        (\<Sum>x < main_segs g. if x = ?s then 512 - int (map_count (discard_map se')) else ?dm x)"
      using len by (intro sum.cong) (auto simp: f(1) nth_list_update)
    also have "\<dots> = (\<Sum>x < main_segs g. ?dm x) + disc"
      using sum_upd [of "{..<main_segs g}" ?s "\<lambda>x. if x = ?s then 512 - int (map_count (discard_map se')) else ?dm x" ?dm]
        s(1) bu that by (simp add: block_updated_def)
    finally have new: "(\<Sum>x < main_segs g. 512 - int (map_count (discard_map (sentries ?sit' ! x)))) = (\<Sum>x < main_segs g. ?dm x) + disc" .
    have "discard_blks sit = (\<Sum>x < main_segs g. ?dm x)" using ok that by (simp add: sit_counts_def)
    then show ?thesis unfolding new f(3) by simp
  qed
  have dirty: "dirty_sentries ?sit' = int (used (dirty_sentries_bitmap ?sit'))" "length (dirty_sentries_bitmap ?sit') = main_segs g"
    using mark_dirty_count [of ?s "put_seg_entry ?s se' sit"] ok s by (simp_all add: f(6,7) sit_counts_def)
  have total: "written_valid_blocks ?sit' = (\<Sum>x < main_segs g. vb ?sit' x)"
    using ok sumd [of "{..<main_segs g}"] s(1) by (simp add: f(2) sit_counts_def)
  have each: "\<forall>x < main_segs g. seg_counts (sentries ?sit' ! x)"
  proof -
    have "\<forall>x < main_segs g. seg_counts (sentries sit ! x)" "seg_counts se'"
      using ok bu unfolding sit_counts_def block_updated_def by blast+
    then show ?thesis using len s(1) by (simp add: f(1) nth_list_update)
  qed
  show ?thesis
    unfolding sit_counts_def using each secs disc dirty total len by (simp add: f(1))
qed

text \<open>Updates that are no errors, and what they change.\<close>

definition sit_keep :: "seg_geom \<Rightarrow> sit_info \<Rightarrow> bool" where
  "sit_keep g sit \<longleftrightarrow> (\<forall>s < main_segs g. seg_keep (sentries sit ! s))"

abbreviation cur_bit :: "sit_info \<Rightarrow> nat \<Rightarrow> nat \<Rightarrow> bool" where
  "cur_bit sit s i \<equiv> rev_bit (cur_valid_map (sentries sit ! s)) i"

abbreviation ckpt_bit :: "sit_info \<Rightarrow> nat \<Rightarrow> nat \<Rightarrow> bool" where
  "ckpt_bit sit s i \<equiv> rev_bit (ckpt_valid_map (sentries sit ! s)) i"

lemma update_sit_entry_good:
  fixes now :: u64
  assumes g: "geom_ok g" "log_blocks_per_seg g = 9" and ok: "sit_counts g de sit" "sit_keep g sit"
    and blk: "main_addr g blk" and del: "del = 1 \<or> del = - 1"
    and good: "cur_bit sit (GET_SEGNO g blk) (GET_BLKOFF_FROM_SEG0 g blk) \<longleftrightarrow> del = - 1"
  defines "sit' \<equiv> update_sit_entry g de now blk del sit"
  shows "sit_keep g sit'" "sit_bug sit' = sit_bug sit"
    "\<And>s i. s < main_segs g \<Longrightarrow> cur_bit sit' s i =
       (if s = GET_SEGNO g blk \<and> i = GET_BLKOFF_FROM_SEG0 g blk then del = 1 else cur_bit sit s i)"
    "\<And>s i. s < main_segs g \<Longrightarrow> ckpt_bit sit s i \<Longrightarrow> ckpt_bit sit' s i"
    "\<And>s i. s < main_segs g \<Longrightarrow> \<not> (s = GET_SEGNO g blk \<and> i = GET_BLKOFF_FROM_SEG0 g blk) \<Longrightarrow> ckpt_bit sit' s i = ckpt_bit sit s i"
    "\<And>s. s < main_segs g \<Longrightarrow> se_type (sentries sit' ! s) = se_type (sentries sit ! s)"
    "\<And>s. s < main_segs g \<Longrightarrow> vb sit' s = vb sit s + (if s = GET_SEGNO g blk then del else 0)"
    "length (sentries sit') = length (sentries sit)"
proof -
  let ?s = "GET_SEGNO g blk" and ?o = "GET_BLKOFF_FROM_SEG0 g blk"
  have s: "?s < main_segs g" "?o < 512" and bps: "blocks_per_seg g = 512"
    using main_addr_split [OF g(1) blk] g(2) by (simp_all add: blocks_per_seg_def)
  have len: "length (sentries sit) = main_segs g" and se: "seg_counts (sentries sit ! ?s)" "seg_keep (sentries sit ! ?s)"
    using ok s by (simp_all add: sit_counts_def sit_keep_def)
  have get: "get_seg_entry sit ?s = sentries sit ! ?s" using s len by (simp add: get_seg_entry_def)
  obtain se' del' disc bug where blkr: "sit_update_block g de now ?o del (get_seg_entry sit ?s) = (se', del', disc, bug)"
    by (metis prod_cases4)
  note f = update_sit_entry_form [OF blkr]
  note k = sit_update_block_keep [OF se s(2) del good, of g de now se' del' disc bug, OF blkr [unfolded get]]
  have bu: "block_updated de now ?o del (sentries sit ! ?s) se' del' disc"
    using sit_update_block_counts [OF se(1) s(2) del] blkr by (simp add: get)
  have nth: "sentries sit' ! x = (if x = ?s then se' else sentries sit ! x)" if "x < main_segs g" for x
    using that len by (simp add: sit'_def f(1) nth_list_update)
  show "sit_keep g sit'" using ok(2) k(1) nth by (auto simp: sit_keep_def)
  show "sit_bug sit' = sit_bug sit" using k(4) bps by (simp add: sit'_def f(4))
  show "length (sentries sit') = length (sentries sit)" by (simp add: sit'_def f(1))
  fix s' i assume s': "s' < main_segs g"
  have c: "rev_bit (cur_valid_map se') i = (if i = ?o then del = 1 else cur_bit sit ?s i)"
    "se_type se' = se_type (sentries sit ! ?s)" "valid_blocks se' = valid_blocks (sentries sit ! ?s) + del'"
    "del' = (if cur_bit sit ?s ?o = (del = 1) then 0 else del)"
    using bu unfolding block_updated_def by blast+
  show "cur_bit sit' s' i = (if s' = ?s \<and> i = ?o then del = 1 else cur_bit sit s' i)"
    unfolding nth [OF s'] by (cases "s' = ?s") (simp_all only: c(1) simp_thms if_True if_False)
  show "se_type (sentries sit' ! s') = se_type (sentries sit ! s')"
    unfolding nth [OF s'] by (cases "s' = ?s") (simp_all only: c(2) if_True if_False simp_thms)
  have "del' = del" using c(4) good del by (cases "del = 1") auto
  then show "vb sit' s' = vb sit s' + (if s' = ?s then del else 0)"
    unfolding vb_def nth [OF s'] by (cases "s' = ?s") (simp_all only: c(3) if_True if_False simp_thms add_0_right)
  show "ckpt_bit sit s' i \<Longrightarrow> ckpt_bit sit' s' i" using k(2) unfolding nth [OF s'] by (cases "s' = ?s") (simp_all only: if_True if_False simp_thms)
  show "\<not> (s' = ?s \<and> i = ?o) \<Longrightarrow> ckpt_bit sit' s' i = ckpt_bit sit s' i" using k(3) unfolding nth [OF s'] by (cases "s' = ?s") (simp_all only: if_True if_False simp_thms)
qed

text \<open>
  Property C22. \<^verbatim>\<open>update_sit_entry\<close> keeps every counter equal to what the validity maps say: valid blocks of
  each segment, of each section and of the volume, dirty entries and discardable blocks. That also holds when
  the block was already set or already clear, where the code repairs its own change. If the update is no such error, no assertion fails,
  exactly the addressed bit changes, the number of blocks to keep for the last checkpoint
  (\<^verbatim>\<open>ckpt_valid_blocks\<close>) stays the number of blocks valid now or then, and no checkpointed block is forgotten.
\<close>

theorem update_sit_entry_correct:
  assumes "geom_ok g" and "log_blocks_per_seg g = 9" and "sit_counts g de sit" and "main_addr g blk"
    and "del = 1 \<or> del = - 1"
  shows "sit_counts g de (update_sit_entry g de now blk del sit) \<and>
    (sit_keep g sit \<and> (cur_bit sit (GET_SEGNO g blk) (GET_BLKOFF_FROM_SEG0 g blk) \<longleftrightarrow> del = - 1) \<longrightarrow>
       sit_keep g (update_sit_entry g de now blk del sit) \<and>
       sit_bug (update_sit_entry g de now blk del sit) = sit_bug sit \<and>
       (\<forall>s < main_segs g. \<forall>i. cur_bit (update_sit_entry g de now blk del sit) s i =
          (if s = GET_SEGNO g blk \<and> i = GET_BLKOFF_FROM_SEG0 g blk then del = 1 else cur_bit sit s i)) \<and>
       (\<forall>s < main_segs g. \<forall>i. ckpt_bit sit s i \<longrightarrow> ckpt_bit (update_sit_entry g de now blk del sit) s i))"
  using update_sit_entry_counts [OF assms] update_sit_entry_good [OF assms(1-3) _ assms(4,5)] by blast

definition demo_entry :: seg_entry where
  "demo_entry = \<lparr>se_type = 1, valid_blocks = 0, ckpt_valid_blocks = 0, cur_valid_map = replicate 64 0,
     ckpt_valid_map = replicate 64 0, discard_map = replicate 64 0, mtime = 0\<rparr>"

definition demo_sit :: sit_info where
  "demo_sit = \<lparr>sentries = replicate 8 demo_entry, sec_entries = replicate 4 0, written_valid_blocks = 0,
     dirty_sentries_bitmap = replicate 8 False, dirty_sentries = 0, min_mtime = 0, max_mtime = 0, discard_blks = 4096, sit_bug = False\<rparr>"

lemma empty_map: "\<not> rev_bit (replicate n 0) i"
  by (simp add: f2fs_test_bit_def arr_get_def)

lemma demo_entry_counts: "seg_counts demo_entry" "seg_keep demo_entry" "map_count (discard_map demo_entry) = 0"
  by (simp_all add: seg_counts_def seg_maps_def seg_keep_def keep_count_def map_count_def bit_count_card demo_entry_def empty_map)

lemma demo_sit_ok: "sit_counts demo_geom True demo_sit" "sit_keep demo_geom demo_sit"
proof -
  have dm: "main_segs demo_geom = 8" "main_secs demo_geom = 4" by (simp_all add: demo_geom_def)
  have u: "used (replicate 8 False) = 0" by (simp add: used_def bit_count_card test_bit_def arr_get_def)
  have z: "vb demo_sit s = 0" if "s < 8" for s using that by (simp add: vb_def demo_sit_def demo_entry_def)
  have zs: "(\<Sum>s \<in> sec_segs demo_geom c. vb demo_sit s) = 0" if "c < 4" for c
    using z that by (intro sum.neutral) (auto simp: sec_segs_def demo_geom_def)
  show "sit_counts demo_geom True demo_sit"
    unfolding sit_counts_def dm using demo_entry_counts u z zs by (simp add: demo_sit_def)
  show "sit_keep demo_geom demo_sit" using demo_entry_counts by (simp add: sit_keep_def demo_sit_def dm)
qed

theorem update_sit_entry_correct_witness:
  "sit_counts demo_geom True (update_sit_entry demo_geom True 7 4000 1 demo_sit)"
proof -
  have "main_addr demo_geom 4000" "log_blocks_per_seg demo_geom = 9" by (simp_all add: main_addr_def START_BLOCK_def demo_geom_def)
  then show ?thesis using update_sit_entry_correct [OF demo_geom_ok _ demo_sit_ok(1), of 4000 1 7] by blast
qed

text \<open>
  Writing an entry of the table to disk and reading it back gives the same type, block
  count, map and time, with the checkpoint fields equal to the current ones, which is also what
  \<^verbatim>\<open>seg_info_to_raw_sit\<close> leaves in memory; and the page written for a group of segments holds exactly
  their entries.
\<close>

theorem sit_entry_roundtrip:
  assumes "se_type se < 64" and "0 \<le> valid_blocks se" and "valid_blocks se < 1024"
  shows "seg_info_from_raw_sit se (snd (seg_info_to_raw_sit se)) = fst (seg_info_to_raw_sit se) \<and>
    se_type (fst (seg_info_to_raw_sit se)) = se_type se \<and> valid_blocks (fst (seg_info_to_raw_sit se)) = valid_blocks se \<and>
    ckpt_valid_map (fst (seg_info_to_raw_sit se)) = cur_valid_map se \<and>
    (\<forall>i page sents. i < length page \<and> i < min n (segs - start) \<longrightarrow>
       seg_info_to_sit_page n segs sents page start ! i = to_raw_sit (sents ! (start + i)))"
proof -
  have "seg_info_from_raw_sit se (snd (seg_info_to_raw_sit se)) = fst (seg_info_to_raw_sit se)"
    using raw_sit_fields [OF assms]
    by (simp add: seg_info_from_raw_sit_def seg_info_to_raw_sit_def Let_def) (simp add: to_raw_sit_def)
  then show ?thesis
    by (auto simp: seg_info_to_raw_sit_def Let_def seg_info_to_sit_page_def sit_page_entries) (simp_all add: to_raw_sit_def)
qed

theorem sit_entry_roundtrip_witness:
  "seg_info_from_raw_sit demo_entry (snd (seg_info_to_raw_sit demo_entry)) = fst (seg_info_to_raw_sit demo_entry)"
proof -
  have "se_type demo_entry < 64" "0 \<le> valid_blocks demo_entry" "valid_blocks demo_entry < 1024"
    by (simp_all add: demo_entry_def)
  from sit_entry_roundtrip [OF this] show ?thesis by blast
qed

end
