(* ===== verification/Dirty_Seglist.thy ===== *)
theory Dirty_Seglist
  imports Sit
begin

text \<open>
  The dirty segment lists (\<^verbatim>\<open>segment.c\<close>): one bitmap with a count per segment type, one for all dirty
  segments (\<^verbatim>\<open>DIRTY\<close>) and one for the obsolete ones that become free at the next checkpoint (\<^verbatim>\<open>PRE\<close>). The
  list \<open>curs\<close> holds the numbers of the six current segments.
\<close>

definition DIRTY :: nat where "DIRTY = 6"
definition PRE :: nat where "PRE = 7"
definition NR_DIRTY_TYPE :: nat where "NR_DIRTY_TYPE = 8"

record dirty_seglist_info =
  dirty_segmap :: "bool list list"
  nr_dirty :: "int list"
  victim_secmap :: "bool list"
  dirty_bug :: bool

definition dirty_bit :: "dirty_seglist_info \<Rightarrow> nat \<Rightarrow> nat \<Rightarrow> bool" where
  "dirty_bit d t segno = test_bit segno (arr_get [] (dirty_segmap d) t)"

text \<open>\<^verbatim>\<open>test_and_set_bit\<close> and \<^verbatim>\<open>test_and_clear_bit\<close> on one of the maps, with its count.\<close>

definition set_dirty :: "nat \<Rightarrow> nat \<Rightarrow> dirty_seglist_info \<Rightarrow> dirty_seglist_info" where
  "set_dirty t segno d =
     (if \<not> dirty_bit d t segno
      then d\<lparr>dirty_segmap := (dirty_segmap d)[t := (dirty_segmap d ! t)[segno := True]],
             nr_dirty := (nr_dirty d)[t := nr_dirty d ! t + 1]\<rparr> else d)"

definition clear_dirty :: "nat \<Rightarrow> nat \<Rightarrow> dirty_seglist_info \<Rightarrow> dirty_seglist_info" where
  "clear_dirty t segno d =
     (if dirty_bit d t segno
      then d\<lparr>dirty_segmap := (dirty_segmap d)[t := (dirty_segmap d ! t)[segno := False]],
             nr_dirty := (nr_dirty d)[t := nr_dirty d ! t - 1]\<rparr> else d)"

definition locate_dirty_type ::
  "nat list \<Rightarrow> sit_info \<Rightarrow> nat \<Rightarrow> nat \<Rightarrow> dirty_seglist_info \<Rightarrow> dirty_seglist_info" where
  "locate_dirty_type curs sit segno dirty_type d =
     (if segno \<in> set curs then d
      else
        let d = set_dirty dirty_type segno d in
        if dirty_type = DIRTY then
          let t = se_type (get_seg_entry sit segno) in
          if t \<ge> DIRTY then d\<lparr>dirty_bug := True\<rparr> else set_dirty t segno d
        else d)"

definition remove_dirty_type ::
  "seg_geom \<Rightarrow> sit_info \<Rightarrow> nat \<Rightarrow> nat \<Rightarrow> dirty_seglist_info \<Rightarrow> dirty_seglist_info" where
  "remove_dirty_type g sit segno dirty_type d =
     (let d = clear_dirty dirty_type segno d in
      if dirty_type = DIRTY then
        let d = clear_dirty (se_type (get_seg_entry sit segno)) segno d in
        if get_valid_blocks g sit segno True = 0
        then d\<lparr>victim_secmap := (victim_secmap d)[GET_SEC_FROM_SEG g segno := False]\<rparr> else d
      else d)"

definition locate_dirty_segment ::
  "seg_geom \<Rightarrow> nat list \<Rightarrow> sit_info \<Rightarrow> nat \<Rightarrow> dirty_seglist_info \<Rightarrow> dirty_seglist_info" where
  "locate_dirty_segment g curs sit segno d =
     (if segno = NULL_SEGNO \<or> segno \<in> set curs then d
      else
        let valid_blocks = get_valid_blocks g sit segno False in
        if valid_blocks = 0 then
          remove_dirty_type g sit segno DIRTY (locate_dirty_type curs sit segno PRE d)
        else if valid_blocks < int (blocks_per_seg g) then locate_dirty_type curs sit segno DIRTY d
        else remove_dirty_type g sit segno DIRTY d)"

text \<open>\<^verbatim>\<open>prefree_segments\<close> and \<^verbatim>\<open>dirty_segments\<close> of \<^verbatim>\<open>segment.h\<close>.\<close>

definition prefree_segments :: "dirty_seglist_info \<Rightarrow> int" where
  "prefree_segments d = arr_get 0 (nr_dirty d) PRE"

definition dirty_segments :: "dirty_seglist_info \<Rightarrow> int" where
  "dirty_segments d =
     arr_get 0 (nr_dirty d) 0 + arr_get 0 (nr_dirty d) 1 + arr_get 0 (nr_dirty d) 2 +
     arr_get 0 (nr_dirty d) 3 + arr_get 0 (nr_dirty d) 4 + arr_get 0 (nr_dirty d) 5"

section \<open>Invariants\<close>

text \<open>Each count is the number of set bits.\<close>

definition dirty_ok :: "seg_geom \<Rightarrow> dirty_seglist_info \<Rightarrow> bool" where
  "dirty_ok g d \<longleftrightarrow>
     length (dirty_segmap d) = 8 \<and> length (nr_dirty d) = 8 \<and> length (victim_secmap d) = main_secs g \<and>
     (\<forall>t < 8. length (dirty_segmap d ! t) = main_segs g \<and> nr_dirty d ! t = int (used (dirty_segmap d ! t))) \<and>
     \<not> dirty_bug d"

text \<open>A dirty segment is in exactly the list of its type.\<close>

definition dirty_typed :: "seg_geom \<Rightarrow> sit_info \<Rightarrow> dirty_seglist_info \<Rightarrow> bool" where
  "dirty_typed g sit d \<longleftrightarrow>
     (\<forall>s < main_segs g. (dirty_bit d DIRTY s \<longrightarrow> se_type (get_seg_entry sit s) < 6) \<and>
        (\<forall>t < 6. dirty_bit d t s \<longleftrightarrow> dirty_bit d DIRTY s \<and> t = se_type (get_seg_entry sit s)))"

lemma set_dirty_ok:
  assumes "dirty_ok g d" "t < 8" "segno < main_segs g"
  shows "dirty_ok g (set_dirty t segno d)"
    "dirty_bit (set_dirty t segno d) t' s = (t' = t \<and> s = segno \<or> dirty_bit d t' s)"
proof -
  have len: "length (dirty_segmap d) = 8" "length (nr_dirty d) = 8" "length (dirty_segmap d ! t) = main_segs g"
    using assms by (simp_all add: dirty_ok_def)
  show "dirty_ok g (set_dirty t segno d)"
  proof (cases "dirty_bit d t segno")
    case False
    then have "used ((dirty_segmap d ! t)[segno := True]) = Suc (used (dirty_segmap d ! t))"
      using used_set [of segno "dirty_segmap d ! t"] assms len by (simp add: dirty_bit_def)
    then show ?thesis using assms len False by (auto simp: dirty_ok_def set_dirty_def nth_list_update)
  qed (simp add: set_dirty_def assms)
  show "dirty_bit (set_dirty t segno d) t' s = (t' = t \<and> s = segno \<or> dirty_bit d t' s)"
    using kb.tst_put [of segno "dirty_segmap d ! t" s] assms len
    by (auto simp: set_dirty_def dirty_bit_def arr_get_def nth_list_update)
qed

lemma clear_dirty_ok:
  assumes "dirty_ok g d" "t < 8" "segno < main_segs g"
  shows "dirty_ok g (clear_dirty t segno d)"
    "dirty_bit (clear_dirty t segno d) t' s = (\<not> (t' = t \<and> s = segno) \<and> dirty_bit d t' s)"
proof -
  have len: "length (dirty_segmap d) = 8" "length (nr_dirty d) = 8" "length (dirty_segmap d ! t) = main_segs g"
    using assms by (simp_all add: dirty_ok_def)
  show "dirty_ok g (clear_dirty t segno d)"
  proof (cases "dirty_bit d t segno")
    case True
    then have "used (dirty_segmap d ! t) = Suc (used ((dirty_segmap d ! t)[segno := False]))"
      using used_clear [of segno "dirty_segmap d ! t"] assms len by (simp add: dirty_bit_def)
    then show ?thesis using assms len True by (auto simp: dirty_ok_def clear_dirty_def nth_list_update)
  qed (simp add: clear_dirty_def assms)
  show "dirty_bit (clear_dirty t segno d) t' s = (\<not> (t' = t \<and> s = segno) \<and> dirty_bit d t' s)"
    using kb.tst_clr [of segno "dirty_segmap d ! t" s] assms len
    by (auto simp: clear_dirty_def dirty_bit_def arr_get_def nth_list_update)
qed

lemma dirty_ok_victim [simp]:
  "dirty_ok g (d\<lparr>victim_secmap := (victim_secmap d)[i := b]\<rparr>) = dirty_ok g d"
  "dirty_bit (d\<lparr>victim_secmap := m\<rparr>) t s = dirty_bit d t s"
  by (simp_all add: dirty_ok_def dirty_bit_def)

lemma locate_dirty_type_ok:
  assumes "dirty_ok g d" "segno < main_segs g" "segno \<notin> set curs" "ty < 8"
    and "se_type (get_seg_entry sit segno) < 6"
  shows "dirty_ok g (locate_dirty_type curs sit segno ty d)"
    "dirty_bit (locate_dirty_type curs sit segno ty d) t s =
       (s = segno \<and> (t = ty \<or> ty = DIRTY \<and> t = se_type (get_seg_entry sit segno)) \<or> dirty_bit d t s)"
proof -
  note a = set_dirty_ok [OF assms(1,4,2)]
  note b = set_dirty_ok [OF a(1) _ assms(2), of "se_type (get_seg_entry sit segno)"]
  show "dirty_ok g (locate_dirty_type curs sit segno ty d)"
    "dirty_bit (locate_dirty_type curs sit segno ty d) t s =
       (s = segno \<and> (t = ty \<or> ty = DIRTY \<and> t = se_type (get_seg_entry sit segno)) \<or> dirty_bit d t s)"
    using a b assms(3,5) by (auto simp: locate_dirty_type_def Let_def DIRTY_def)
qed

lemma remove_dirty_type_ok:
  assumes "dirty_ok g d" "segno < main_segs g" "ty < 8" and "se_type (get_seg_entry sit segno) < 6"
  shows "dirty_ok g (remove_dirty_type g sit segno ty d)"
    "dirty_bit (remove_dirty_type g sit segno ty d) t s =
       (\<not> (s = segno \<and> (t = ty \<or> ty = DIRTY \<and> t = se_type (get_seg_entry sit segno))) \<and> dirty_bit d t s)"
proof -
  note a = clear_dirty_ok [OF assms(1,3,2)]
  note b = clear_dirty_ok [OF a(1) _ assms(2), of "se_type (get_seg_entry sit segno)"]
  show "dirty_ok g (remove_dirty_type g sit segno ty d)"
    "dirty_bit (remove_dirty_type g sit segno ty d) t s =
       (\<not> (s = segno \<and> (t = ty \<or> ty = DIRTY \<and> t = se_type (get_seg_entry sit segno))) \<and> dirty_bit d t s)"
    using a b assms(4) by (auto simp: remove_dirty_type_def Let_def)
qed

lemma locate_dirty_segment_bits:
  assumes ok: "dirty_ok g d" and s: "segno < main_segs g" "segno \<notin> set curs" "segno \<noteq> NULL_SEGNO"
    and ty: "se_type (get_seg_entry sit segno) < 6"
  defines "v \<equiv> get_valid_blocks g sit segno False"
  shows "dirty_ok g (locate_dirty_segment g curs sit segno d)"
    "dirty_bit (locate_dirty_segment g curs sit segno d) t x =
       (if x = segno \<and> (t = DIRTY \<or> t = se_type (get_seg_entry sit segno)) then v \<noteq> 0 \<and> v < int (blocks_per_seg g)
        else if x = segno \<and> t = PRE then v = 0 \<or> dirty_bit d t x
        else dirty_bit d t x)"
proof -
  have p: "PRE < 8" "DIRTY < 8" "PRE \<noteq> DIRTY" by (simp_all add: PRE_def DIRTY_def)
  note l = locate_dirty_type_ok [OF ok s(1,2) p(1) ty] locate_dirty_type_ok [OF ok s(1,2) p(2) ty]
  note r = remove_dirty_type_ok [OF ok s(1) p(2) ty] remove_dirty_type_ok [OF l(1) s(1) p(2) ty]
  have ne: "se_type (get_seg_entry sit segno) \<noteq> PRE" using ty by (simp add: PRE_def)
  consider "v = 0" | "v \<noteq> 0" "v < int (blocks_per_seg g)" | "v \<noteq> 0" "\<not> v < int (blocks_per_seg g)" by blast
  then have "dirty_ok g (locate_dirty_segment g curs sit segno d) \<and>
    dirty_bit (locate_dirty_segment g curs sit segno d) t x =
       (if x = segno \<and> (t = DIRTY \<or> t = se_type (get_seg_entry sit segno)) then v \<noteq> 0 \<and> v < int (blocks_per_seg g)
        else if x = segno \<and> t = PRE then v = 0 \<or> dirty_bit d t x
        else dirty_bit d t x)"
  proof cases
    case 1
    then have e: "locate_dirty_segment g curs sit segno d = remove_dirty_type g sit segno DIRTY (locate_dirty_type curs sit segno PRE d)"
      using s by (simp add: locate_dirty_segment_def Let_def v_def)
    show ?thesis unfolding e r(4) l(2) using r(3) 1 p ne by auto
  next
    case 2
    then have e: "locate_dirty_segment g curs sit segno d = locate_dirty_type curs sit segno DIRTY d"
      using s by (simp add: locate_dirty_segment_def Let_def v_def)
    show ?thesis unfolding e l(4) using l(3) 2 p ne by auto
  next
    case 3
    then have e: "locate_dirty_segment g curs sit segno d = remove_dirty_type g sit segno DIRTY d"
      using s by (simp add: locate_dirty_segment_def Let_def v_def)
    show ?thesis unfolding e r(2) using r(1) 3 p ne by auto
  qed
  then show "dirty_ok g (locate_dirty_segment g curs sit segno d)"
    "dirty_bit (locate_dirty_segment g curs sit segno d) t x =
       (if x = segno \<and> (t = DIRTY \<or> t = se_type (get_seg_entry sit segno)) then v \<noteq> 0 \<and> v < int (blocks_per_seg g)
        else if x = segno \<and> t = PRE then v = 0 \<or> dirty_bit d t x
        else dirty_bit d t x)"
    by blast+
qed

lemma locate_dirty_segment_id:
  "segno = NULL_SEGNO \<or> segno \<in> set curs \<Longrightarrow> locate_dirty_segment g curs sit segno d = d"
  by (simp add: locate_dirty_segment_def)

lemma locate_dirty_segment_typed:
  assumes ok: "dirty_ok g d" "dirty_typed g sit d" and s: "segno = NULL_SEGNO \<or> segno < main_segs g"
    and ty: "segno < main_segs g \<Longrightarrow> se_type (get_seg_entry sit segno) < 6"
  shows "dirty_ok g (locate_dirty_segment g curs sit segno d)" "dirty_typed g sit (locate_dirty_segment g curs sit segno d)"
proof -
  have "dirty_ok g (locate_dirty_segment g curs sit segno d) \<and> dirty_typed g sit (locate_dirty_segment g curs sit segno d)"
  proof (cases "segno = NULL_SEGNO \<or> segno \<in> set curs")
    case True
    then show ?thesis using ok by (simp add: locate_dirty_segment_id)
  next
    case False
    then have s': "segno < main_segs g" "segno \<notin> set curs" "segno \<noteq> NULL_SEGNO" using s by auto
    note b = locate_dirty_segment_bits [OF ok(1) s' ty [OF s'(1)]]
    have "se_type (get_seg_entry sit segno) \<noteq> PRE" "t < 6 \<Longrightarrow> t \<noteq> PRE \<and> t \<noteq> DIRTY" for t
      using ty [OF s'(1)] by (auto simp: PRE_def DIRTY_def)
    then have "dirty_typed g sit (locate_dirty_segment g curs sit segno d)"
      using ok(2) ty [OF s'(1)] unfolding dirty_typed_def b(2) by (auto simp: PRE_def DIRTY_def)
    with b(1) show ?thesis by blast
  qed
  then show "dirty_ok g (locate_dirty_segment g curs sit segno d)" "dirty_typed g sit (locate_dirty_segment g curs sit segno d)"
    by blast+
qed

lemma used_set_bits: "length m = n \<Longrightarrow> used m = card {s. s < n \<and> test_bit s m}"
  by (simp add: used_def bit_count_card)

lemma dirty_segments_total:
  assumes "dirty_ok g d" "dirty_typed g sit d"
  shows "dirty_segments d = nr_dirty d ! DIRTY"
proof -
  let ?A = "\<lambda>t. {s. s < main_segs g \<and> dirty_bit d t s}"
  have len: "length (dirty_segmap d) = 8" "length (nr_dirty d) = 8" using assms(1) by (simp_all add: dirty_ok_def)
  have cnt: "nr_dirty d ! t = int (card (?A t))" if "t < 8" for t
    using assms(1) that len used_set_bits [of "dirty_segmap d ! t" "main_segs g"]
    by (simp add: dirty_ok_def dirty_bit_def)
  have "?A DIRTY = (\<Union>t \<in> {..<6}. ?A t)"
    using assms(2) unfolding dirty_typed_def by blast
  moreover have "card (\<Union>t \<in> {..<6}. ?A t) = (\<Sum>t < 6. card (?A t))"
    using assms(2) unfolding dirty_typed_def by (intro card_UN_disjoint) auto
  ultimately have "int (card (?A DIRTY)) = (\<Sum>t < 6. nr_dirty d ! t)" using cnt by simp
  then show ?thesis
    using cnt [of DIRTY] len by (simp add: dirty_segments_def DIRTY_def eval_nat_numeral lessThan_Suc algebra_simps)
qed

text \<open>
  Property C29. \<^verbatim>\<open>locate_dirty_segment\<close> files a segment that is not a current one by its number of valid
  blocks: it is in the dirty list of its type and in the overall one exactly if it is partly valid, and
  in the list of obsolete segments if it has no valid block. Every count stays the number of set bits, every dirty segment stays in exactly the list of
  its type, so that \<^verbatim>\<open>dirty_segments\<close> is the size of the overall list; other segments are untouched.
\<close>

theorem locate_dirty_segment_correct:
  assumes "dirty_ok g d" and "dirty_typed g sit d" and "segno < main_segs g" and "segno \<notin> set curs"
    and "segno \<noteq> NULL_SEGNO" and "se_type (get_seg_entry sit segno) < 6"
  shows "dirty_ok g (locate_dirty_segment g curs sit segno d) \<and>
    dirty_typed g sit (locate_dirty_segment g curs sit segno d) \<and>
    dirty_segments (locate_dirty_segment g curs sit segno d) = nr_dirty (locate_dirty_segment g curs sit segno d) ! DIRTY \<and>
    (dirty_bit (locate_dirty_segment g curs sit segno d) DIRTY segno \<longleftrightarrow>
       get_valid_blocks g sit segno False \<noteq> 0 \<and> get_valid_blocks g sit segno False < int (blocks_per_seg g)) \<and>
    (get_valid_blocks g sit segno False = 0 \<longrightarrow> dirty_bit (locate_dirty_segment g curs sit segno d) PRE segno) \<and>
    (\<forall>t s. s \<noteq> segno \<longrightarrow> dirty_bit (locate_dirty_segment g curs sit segno d) t s = dirty_bit d t s)"
proof -
  note b = locate_dirty_segment_bits [OF assms(1,3-6)]
  note t = locate_dirty_segment_typed [OF assms(1,2), of segno curs]
  have "dirty_typed g sit (locate_dirty_segment g curs sit segno d)" using t assms by blast
  then show ?thesis
    using b(1) dirty_segments_total [OF b(1)] assms(6) unfolding b(2) by (auto simp: PRE_def DIRTY_def)
qed

definition demo_dirty :: dirty_seglist_info where
  "demo_dirty = \<lparr>dirty_segmap = replicate 8 (replicate 8 False), nr_dirty = replicate 8 0,
     victim_secmap = replicate 4 False, dirty_bug = False\<rparr>"

lemma demo_dirty_ok: "dirty_ok demo_geom demo_dirty" "dirty_typed demo_geom demo_sit demo_dirty"
proof -
  have "used (replicate 8 False) = 0" by (simp add: used_def bit_count_card test_bit_def arr_get_def)
  then show "dirty_ok demo_geom demo_dirty" by (simp add: dirty_ok_def demo_dirty_def demo_geom_def)
  show "dirty_typed demo_geom demo_sit demo_dirty"
    by (simp add: dirty_typed_def dirty_bit_def demo_dirty_def DIRTY_def test_bit_def arr_get_def)
qed

theorem locate_dirty_segment_correct_witness:
  "dirty_bit (locate_dirty_segment demo_geom [0, 1, 2, 4, 5, 6] demo_sit 3 demo_dirty) PRE 3"
proof -
  have s: "3 < main_segs demo_geom" "3 \<notin> set [0, 1, 2, 4, 5, 6::nat]" "3 \<noteq> NULL_SEGNO"
    "se_type (get_seg_entry demo_sit 3) < 6" "get_valid_blocks demo_geom demo_sit 3 False = 0"
    by (simp_all add: demo_geom_def NULL_SEGNO_def get_seg_entry_def get_valid_blocks_def demo_sit_def demo_entry_def arr_get_def)
  show ?thesis using locate_dirty_segment_correct [OF demo_dirty_ok s(1-4)] s(5) by blast
qed

end
