(* ===== verification/Victim.thy ===== *)
theory Victim
  imports Dirty_Seglist "HOL-Library.Signed_Division"
begin

text \<open>
  Victim selection (\<^verbatim>\<open>gc.c\<close>, \<^verbatim>\<open>gc.h\<close>): choosing the segment to clean, or the segment to write
  into between its valid blocks (SSR). The search loop may be entered with any dirty lists; that
  it returns is proved. The state is the part of the segment manager it reads and changes.
\<close>

datatype gc_type = BG_GC | FG_GC
datatype alloc_mode = LFS | SSR

definition GC_CB :: nat where "GC_CB = 0"
definition GC_GREEDY :: nat where "GC_GREEDY = 1"
definition UINT_MAX :: nat where "UINT_MAX = 2 ^ 32 - 1"

abbreviation (input) CURSEG_HOT_DATA :: nat where "CURSEG_HOT_DATA \<equiv> 0"
abbreviation (input) CURSEG_WARM_DATA :: nat where "CURSEG_WARM_DATA \<equiv> 1"
abbreviation (input) CURSEG_COLD_DATA :: nat where "CURSEG_COLD_DATA \<equiv> 2"
abbreviation (input) CURSEG_HOT_NODE :: nat where "CURSEG_HOT_NODE \<equiv> 3"
abbreviation (input) CURSEG_COLD_NODE :: nat where "CURSEG_COLD_NODE \<equiv> 5"

definition IS_DATASEG :: "nat \<Rightarrow> bool" where "IS_DATASEG t \<longleftrightarrow> t \<le> CURSEG_COLD_DATA"
definition IS_NODESEG :: "nat \<Rightarrow> bool" where "IS_NODESEG t \<longleftrightarrow> t \<ge> CURSEG_HOT_NODE"

text \<open>What the search reads of the mount: geometry, current segments, thresholds, \<^verbatim>\<open>gc_idle\<close> of the GC thread.\<close>

record vic_env =
  ve_g :: seg_geom
  ve_curs :: "nat list"
  fggc_threshold :: nat
  max_victim_search :: nat
  gc_idle :: "nat option"

record vic_st =
  v_sit :: sit_info
  v_dirty :: dirty_seglist_info
  last_victim :: "nat list"
  cur_victim_sec :: nat

record victim_sel_policy =
  p_alloc_mode :: alloc_mode
  p_gc_mode :: nat
  p_map :: nat
  max_search :: nat
  p_offset :: nat
  ofs_unit :: nat
  min_cost :: nat
  min_segno :: nat

definition IS_CURSEC :: "vic_env \<Rightarrow> nat \<Rightarrow> bool" where
  "IS_CURSEC e secno \<longleftrightarrow> secno \<in> set (map (\<lambda>segno. segno div segs_per_sec (ve_g e)) (ve_curs e))"

definition sec_usage_check :: "vic_env \<Rightarrow> vic_st \<Rightarrow> nat \<Rightarrow> bool" where
  "sec_usage_check e v secno \<longleftrightarrow> IS_CURSEC e secno \<or> cur_victim_sec v = secno"

definition no_fggc_candidate :: "vic_env \<Rightarrow> vic_st \<Rightarrow> nat \<Rightarrow> bool" where
  "no_fggc_candidate e v secno \<longleftrightarrow>
     get_valid_blocks (ve_g e) (v_sit v) (GET_SEG_FROM_SEC (ve_g e) secno) True > int (fggc_threshold e)"

definition select_gc_type :: "nat option \<Rightarrow> gc_type \<Rightarrow> nat" where
  "select_gc_type gc_th ty =
     (let gc_mode = (if ty = BG_GC then GC_CB else GC_GREEDY) in
      case gc_th of
        Some idle \<Rightarrow> if idle = 1 then GC_CB else if idle = 2 then GC_GREEDY else gc_mode
      | None \<Rightarrow> gc_mode)"

definition select_policy :: "vic_env \<Rightarrow> vic_st \<Rightarrow> gc_type \<Rightarrow> nat \<Rightarrow> alloc_mode \<Rightarrow> victim_sel_policy" where
  "select_policy e v ty t am =
     (let gc_mode = (if am = SSR then GC_GREEDY else select_gc_type (gc_idle e) ty);
          m = (if am = SSR then t else DIRTY);
          search = nat (arr_get 0 (nr_dirty (v_dirty v)) m);
          search = (if ty \<noteq> FG_GC \<and> search > max_victim_search e then max_victim_search e else search)
      in \<lparr>p_alloc_mode = am, p_gc_mode = gc_mode, p_map = m, max_search = search,
          p_offset = (if t = CURSEG_HOT_DATA \<or> IS_NODESEG t then 0 else arr_get 0 (last_victim v) gc_mode),
          ofs_unit = (if am = SSR then 1 else segs_per_sec (ve_g e)), min_cost = 0, min_segno = NULL_SEGNO\<rparr>)"

definition get_max_cost :: "vic_env \<Rightarrow> victim_sel_policy \<Rightarrow> nat" where
  "get_max_cost e p =
     (if p_alloc_mode p = SSR then blocks_per_seg (ve_g e)
      else if p_gc_mode p = GC_GREEDY then 2 * blocks_per_seg (ve_g e) * ofs_unit p
      else if p_gc_mode p = GC_CB then UINT_MAX
      else 0)"

definition check_bg_victims :: "vic_env \<Rightarrow> vic_st \<Rightarrow> vic_st \<times> nat" where
  "check_bg_victims e v =
     (case find (\<lambda>secno. test_bit secno (victim_secmap (v_dirty v)) \<and> \<not> sec_usage_check e v secno \<and>
                         \<not> no_fggc_candidate e v secno) [0..<main_secs (ve_g e)] of
        Some secno \<Rightarrow>
          (v\<lparr>v_dirty := (v_dirty v)\<lparr>victim_secmap := (victim_secmap (v_dirty v))[secno := False]\<rparr>\<rparr>,
           GET_SEG_FROM_SEC (ve_g e) secno)
      | None \<Rightarrow> (v, NULL_SEGNO))"

text \<open>The cost-benefit cost, with the clamping of the age bounds it does on the way.\<close>

definition cb_clamp :: "u64 \<Rightarrow> sit_info \<Rightarrow> sit_info" where
  "cb_clamp mt sit =
     (let sit = (if mt < min_mtime sit then sit\<lparr>min_mtime := mt\<rparr> else sit)
      in if mt > max_mtime sit then sit\<lparr>max_mtime := mt\<rparr> else sit)"

definition cb_cost :: "u64 \<Rightarrow> u64 \<Rightarrow> u64 \<Rightarrow> nat \<Rightarrow> nat" where
  "cb_cost mt mn mx usage =
     (let u = int (usage mod 256);
          age = (if mx \<noteq> mn then uint (100 - (100 * (mt - mn)) div (mx - mn)) mod 256 else 0)
      in nat ((int UINT_MAX - (100 * (100 - u) * age) sdiv (100 + u)) mod 2 ^ 32))"

definition get_cb_cost :: "seg_geom \<Rightarrow> sit_info \<Rightarrow> nat \<Rightarrow> sit_info \<times> nat" where
  "get_cb_cost g sit segno =
     (let start = GET_SEG_FROM_SEC g (GET_SEC_FROM_SEG g segno);
          mt = sum_list (map (\<lambda>i. mtime (get_seg_entry sit (start + i))) [0..<segs_per_sec g]);
          vblocks = nat (get_valid_blocks g sit segno True);
          mt = mt div of_nat (segs_per_sec g);
          vblocks = vblocks div segs_per_sec g;
          sit = cb_clamp mt sit
      in (sit, cb_cost mt (min_mtime sit) (max_mtime sit) ((vblocks * 100) div 2 ^ log_blocks_per_seg g)))"

definition get_gc_cost :: "vic_env \<Rightarrow> vic_st \<Rightarrow> nat \<Rightarrow> victim_sel_policy \<Rightarrow> vic_st \<times> nat" where
  "get_gc_cost e v segno p =
     (if p_alloc_mode p = SSR then (v, nat (ckpt_valid_blocks (get_seg_entry (v_sit v) segno)))
      else if p_gc_mode p = GC_GREEDY then (v, nat (get_valid_blocks (ve_g e) (v_sit v) segno True))
      else let (sit, c) = get_cb_cost (ve_g e) (v_sit v) segno in (v\<lparr>v_sit := sit\<rparr>, c))"

definition count_bits :: "bool list \<Rightarrow> nat \<Rightarrow> nat \<Rightarrow> nat" where
  "count_bits addr offset len = length (filter (\<lambda>i. test_bit i addr) [offset..<offset + len])"

text \<open>One turn of the search loop: \<open>Inl\<close> goes on, \<open>Inr\<close> leaves it.\<close>

record vic_loop =
  vl_v :: vic_st
  vl_p :: victim_sel_policy
  vl_last :: nat
  vl_nsearched :: nat

definition vic_lv :: "vic_loop \<Rightarrow> nat" where
  "vic_lv s = arr_get 0 (last_victim (vl_v s)) (p_gc_mode (vl_p s))"

definition set_last_victim :: "nat \<Rightarrow> nat \<Rightarrow> vic_st \<Rightarrow> vic_st" where
  "set_last_victim mode x v = v\<lparr>last_victim := (last_victim v)[mode := x]\<rparr>"

definition vic_candidate :: "vic_env \<Rightarrow> gc_type \<Rightarrow> victim_sel_policy \<Rightarrow> vic_st \<Rightarrow> nat \<Rightarrow> bool" where
  "vic_candidate e ty p v secno \<longleftrightarrow>
     \<not> sec_usage_check e v secno \<and> \<not> (ty = BG_GC \<and> test_bit secno (victim_secmap (v_dirty v))) \<and>
     \<not> (ty = FG_GC \<and> p_alloc_mode p = LFS \<and> no_fggc_candidate e v secno)"

definition vic_advance :: "victim_sel_policy \<Rightarrow> nat \<Rightarrow> victim_sel_policy" where
  "vic_advance p segno =
     p\<lparr>p_offset := (if ofs_unit p > 1 then segno + ofs_unit p - segno mod ofs_unit p else segno + ofs_unit p)\<rparr>"

definition vic_consider ::
  "vic_env \<Rightarrow> gc_type \<Rightarrow> nat \<Rightarrow> vic_st \<Rightarrow> victim_sel_policy \<Rightarrow> vic_st \<times> victim_sel_policy" where
  "vic_consider e ty segno v p =
     (if vic_candidate e ty p v (GET_SEC_FROM_SEG (ve_g e) segno)
      then case get_gc_cost e v segno p of
             (v, cost) \<Rightarrow> if min_cost p > cost then (v, p\<lparr>min_segno := segno, min_cost := cost\<rparr>) else (v, p)
      else (v, p))"

definition vic_step :: "vic_env \<Rightarrow> gc_type \<Rightarrow> nat \<Rightarrow> vic_loop \<Rightarrow> vic_loop + vic_loop" where
  "vic_step e ty lv0 s =
     (let p = vl_p s; v = vl_v s; map = arr_get [] (dirty_segmap (v_dirty v)) (p_map p);
          segno = find_next_bit (\<lambda>i. test_bit i map) (vl_last s) (p_offset p)
      in if segno \<ge> vl_last s then
           (if vic_lv s \<noteq> 0
            then Inl (s\<lparr>vl_last := vic_lv s, vl_v := set_last_victim (p_gc_mode p) 0 v, vl_p := p\<lparr>p_offset := 0\<rparr>\<rparr>)
            else Inr s)
         else
           let p = vic_advance p segno;
               n = vl_nsearched s +
                   (if ofs_unit p > 1 then count_bits map (p_offset p - ofs_unit p) (ofs_unit p) else 1);
               (v, p) = vic_consider e ty segno v p;
               s = s\<lparr>vl_p := p, vl_v := v, vl_nsearched := n\<rparr>
           in if n \<ge> max_search p then
                let x = (if vic_lv s = 0 \<and> segno \<le> lv0 then lv0 + 1 else segno + 1)
                in Inr (s\<lparr>vl_v := set_last_victim (p_gc_mode p) (x mod main_segs (ve_g e)) v\<rparr>)
              else Inl s)"

partial_function (option) vic_search :: "vic_env \<Rightarrow> gc_type \<Rightarrow> nat \<Rightarrow> vic_loop \<Rightarrow> vic_loop option" where
  "vic_search e ty lv0 s =
     (case vic_step e ty lv0 s of Inl s' \<Rightarrow> vic_search e ty lv0 s' | Inr s' \<Rightarrow> Some s')"

declare vic_search.simps [code]

text \<open>The code from \<^verbatim>\<open>got_it\<close> on, for a victim that was found.\<close>

definition vic_got_it :: "vic_env \<Rightarrow> gc_type \<Rightarrow> victim_sel_policy \<Rightarrow> vic_st \<Rightarrow> vic_st \<times> nat" where
  "vic_got_it e ty p v =
     (let secno = GET_SEC_FROM_SEG (ve_g e) (min_segno p);
          v = (if p_alloc_mode p = LFS
               then if ty = FG_GC then v\<lparr>cur_victim_sec := secno\<rparr>
                    else v\<lparr>v_dirty := (v_dirty v)\<lparr>victim_secmap := (victim_secmap (v_dirty v))[secno := True]\<rparr>\<rparr>
               else v)
      in (v, min_segno p div ofs_unit p * ofs_unit p))"

text \<open>The result is \<open>None\<close> if no victim was found (the function returns 0).\<close>

definition get_victim_by_default ::
  "vic_env \<Rightarrow> vic_st \<Rightarrow> nat \<Rightarrow> gc_type \<Rightarrow> nat \<Rightarrow> alloc_mode \<Rightarrow> (vic_st \<times> nat option) option" where
  "get_victim_by_default e v result ty t am =
     (let p = select_policy e v ty t am;
          p = p\<lparr>min_segno := NULL_SEGNO, min_cost := get_max_cost e p\<rparr>
      in if result \<noteq> NULL_SEGNO then
           Some (v, if IS_DATASEG (se_type (get_seg_entry (v_sit v) result)) \<and>
                       get_valid_blocks (ve_g e) (v_sit v) result False \<noteq> 0 \<and>
                       \<not> sec_usage_check e v (GET_SEC_FROM_SEG (ve_g e) result)
                    then Some result else None)
         else if max_search p = 0 then Some (v, None)
         else
           let lv0 = arr_get 0 (last_victim v) (p_gc_mode p);
               (v, bg) = (if am = LFS \<and> ty = FG_GC then check_bg_victims e v else (v, NULL_SEGNO))
           in if bg \<noteq> NULL_SEGNO then
                (case vic_got_it e ty (p\<lparr>min_segno := bg\<rparr>) v of (v, r) \<Rightarrow> Some (v, Some r))
              else
                (case vic_search e ty lv0 \<lparr>vl_v = v, vl_p = p, vl_last = main_segs (ve_g e), vl_nsearched = 0\<rparr> of
                   None \<Rightarrow> None
                 | Some s \<Rightarrow>
                     Some (if min_segno (vl_p s) \<noteq> NULL_SEGNO
                           then case vic_got_it e ty (vl_p s) (vl_v s) of (v, r) \<Rightarrow> (v, Some r)
                           else (vl_v s, None))))"

section \<open>Pace of the background cleaner\<close>

text \<open>\<^verbatim>\<open>gc.h\<close>: times in milliseconds, block counts of the volume.\<close>

record gc_times =
  min_sleep_time :: nat
  max_sleep_time :: nat
  no_gc_sleep_time :: nat

definition increase_sleep_time :: "gc_times \<Rightarrow> nat \<Rightarrow> nat" where
  "increase_sleep_time th wait =
     (if wait = no_gc_sleep_time th then wait
      else if wait + min_sleep_time th > max_sleep_time th then max_sleep_time th
      else wait + min_sleep_time th)"

definition decrease_sleep_time :: "gc_times \<Rightarrow> nat \<Rightarrow> nat" where
  "decrease_sleep_time th wait =
     (let wait = (if wait = no_gc_sleep_time th then max_sleep_time th else wait)
      in if int wait - int (min_sleep_time th) < int (min_sleep_time th) then min_sleep_time th
         else wait - min_sleep_time th)"

text \<open>Block counts are 32-bit unsigned, and so are the products with the percentages.\<close>

definition free_user_blocks :: "seg_geom \<Rightarrow> u32 \<Rightarrow> u32 \<Rightarrow> block_t" where
  "free_user_blocks g free_segs ovp_segs =
     (if free_segs < ovp_segs then 0 else push_bit (log_blocks_per_seg g) (free_segs - ovp_segs))"

definition limit_invalid_user_blocks :: "block_t \<Rightarrow> block_t" where
  "limit_invalid_user_blocks user_block_count = (user_block_count * 40) div 100"

definition limit_free_user_blocks :: "block_t \<Rightarrow> block_t \<Rightarrow> block_t" where
  "limit_free_user_blocks user_block_count written = ((user_block_count - written) * 40) div 100"

definition has_enough_invalid_blocks :: "seg_geom \<Rightarrow> block_t \<Rightarrow> block_t \<Rightarrow> u32 \<Rightarrow> u32 \<Rightarrow> bool" where
  "has_enough_invalid_blocks g user_block_count written free_segs ovp_segs \<longleftrightarrow>
     user_block_count - written > limit_invalid_user_blocks user_block_count \<and>
     free_user_blocks g free_segs ovp_segs < limit_free_user_blocks user_block_count written"

section \<open>The search\<close>

definition vic_good :: "vic_env \<Rightarrow> gc_type \<Rightarrow> alloc_mode \<Rightarrow> nat \<Rightarrow> vic_st \<Rightarrow> nat \<Rightarrow> bool" where
  "vic_good e ty am m v segno \<longleftrightarrow>
     segno < main_segs (ve_g e) \<and> dirty_bit (v_dirty v) m segno \<and>
     \<not> sec_usage_check e v (GET_SEC_FROM_SEG (ve_g e) segno) \<and>
     (ty = BG_GC \<longrightarrow> \<not> test_bit (GET_SEC_FROM_SEG (ve_g e) segno) (victim_secmap (v_dirty v))) \<and>
     (am = SSR \<longrightarrow> nat (ckpt_valid_blocks (get_seg_entry (v_sit v) segno)) < blocks_per_seg (ve_g e))"

text \<open>What the loop keeps, relative to the state \<open>v\<close> and policy \<open>p\<close> it starts with.\<close>

definition vic_inv :: "vic_env \<Rightarrow> gc_type \<Rightarrow> vic_st \<Rightarrow> victim_sel_policy \<Rightarrow> vic_loop \<Rightarrow> bool" where
  "vic_inv e ty v p s \<longleftrightarrow>
     v_dirty (vl_v s) = v_dirty v \<and> cur_victim_sec (vl_v s) = cur_victim_sec v \<and>
     sentries (v_sit (vl_v s)) = sentries (v_sit v) \<and> (p_alloc_mode p = SSR \<longrightarrow> v_sit (vl_v s) = v_sit v) \<and>
     p_alloc_mode (vl_p s) = p_alloc_mode p \<and> p_gc_mode (vl_p s) = p_gc_mode p \<and> p_map (vl_p s) = p_map p \<and>
     ofs_unit (vl_p s) = ofs_unit p \<and> min_cost (vl_p s) \<le> min_cost p \<and>
     (\<forall>m. m \<noteq> p_gc_mode p \<longrightarrow> arr_get 0 (last_victim (vl_v s)) m = arr_get 0 (last_victim v) m) \<and>
     (min_segno (vl_p s) = NULL_SEGNO \<or> vic_good e ty (p_alloc_mode p) (p_map p) v (min_segno (vl_p s)))"

lemma get_cb_cost_sentries [simp]: "sentries (fst (get_cb_cost g sit segno)) = sentries sit"
  by (simp add: get_cb_cost_def cb_clamp_def Let_def)

lemma get_gc_cost_frame:
  assumes "get_gc_cost e v segno p = (v', c)"
  shows "v_dirty v' = v_dirty v" "cur_victim_sec v' = cur_victim_sec v" "sentries (v_sit v') = sentries (v_sit v)"
    "last_victim v' = last_victim v"
    "p_alloc_mode p = SSR \<Longrightarrow> c = nat (ckpt_valid_blocks (get_seg_entry (v_sit v) segno)) \<and> v' = v"
proof -
  have *: "get_cb_cost (ve_g e) (v_sit v) segno = (a, b) \<Longrightarrow> sentries a = sentries (v_sit v)" for a b
    using get_cb_cost_sentries [of "ve_g e" "v_sit v" segno] by simp
  show "v_dirty v' = v_dirty v" "cur_victim_sec v' = cur_victim_sec v" "sentries (v_sit v') = sentries (v_sit v)"
    "last_victim v' = last_victim v"
    "p_alloc_mode p = SSR \<Longrightarrow> c = nat (ckpt_valid_blocks (get_seg_entry (v_sit v) segno)) \<and> v' = v"
    using assms * by (auto simp: get_gc_cost_def split: if_splits prod.splits)
qed

lemma sec_usage_frame: "cur_victim_sec v' = cur_victim_sec v \<Longrightarrow> sec_usage_check e v' c = sec_usage_check e v c"
  by (simp add: sec_usage_check_def)

lemma get_seg_entry_frame: "sentries a = sentries b \<Longrightarrow> get_seg_entry a = get_seg_entry b"
  by (simp add: get_seg_entry_def fun_eq_iff)

lemma set_last_victim_frame [simp]:
  "v_dirty (set_last_victim m x v) = v_dirty v" "v_sit (set_last_victim m x v) = v_sit v"
  "cur_victim_sec (set_last_victim m x v) = cur_victim_sec v"
  by (simp_all add: set_last_victim_def)

lemma set_last_victim_other [simp]:
  "m' \<noteq> m \<Longrightarrow> arr_get 0 (last_victim (set_last_victim m x v)) m' = arr_get 0 (last_victim v) m'"
  by (simp add: set_last_victim_def arr_get_def)

lemma vic_advance_simps [simp]:
  "p_alloc_mode (vic_advance p segno) = p_alloc_mode p" "p_gc_mode (vic_advance p segno) = p_gc_mode p"
  "p_map (vic_advance p segno) = p_map p" "ofs_unit (vic_advance p segno) = ofs_unit p"
  "min_cost (vic_advance p segno) = min_cost p" "min_segno (vic_advance p segno) = min_segno p"
  "max_search (vic_advance p segno) = max_search p"
  by (simp_all add: vic_advance_def)

lemma vic_advance_offset: "0 < ofs_unit p \<Longrightarrow> segno < p_offset (vic_advance p segno)"
proof -
  assume "0 < ofs_unit p"
  then have "segno mod ofs_unit p < ofs_unit p" by (rule mod_less_divisor)
  then have "segno < segno + ofs_unit p - segno mod ofs_unit p" by linarith
  then show ?thesis using \<open>0 < ofs_unit p\<close> by (simp add: vic_advance_def)
qed

lemma vic_consider_frame:
  assumes "vic_consider e ty segno v p = (v', p')"
  shows "v_dirty v' = v_dirty v" "cur_victim_sec v' = cur_victim_sec v" "sentries (v_sit v') = sentries (v_sit v)"
    "last_victim v' = last_victim v" "p_alloc_mode p' = p_alloc_mode p" "p_gc_mode p' = p_gc_mode p" "p_map p' = p_map p"
    "ofs_unit p' = ofs_unit p" "min_cost p' \<le> min_cost p" "p_offset p' = p_offset p" "max_search p' = max_search p"
    "min_segno p' = min_segno p \<or> min_segno p' = segno \<and> vic_candidate e ty p v (GET_SEC_FROM_SEG (ve_g e) segno) \<and>
       (p_alloc_mode p = SSR \<longrightarrow> nat (ckpt_valid_blocks (get_seg_entry (v_sit v) segno)) < min_cost p)"
    "p_alloc_mode p = SSR \<Longrightarrow> v_sit v' = v_sit v"
proof -
  obtain w c where gc: "get_gc_cost e v segno p = (w, c)" by fastforce
  note f = get_gc_cost_frame [OF gc]
  show "v_dirty v' = v_dirty v" "cur_victim_sec v' = cur_victim_sec v" "sentries (v_sit v') = sentries (v_sit v)"
    "last_victim v' = last_victim v" "p_alloc_mode p' = p_alloc_mode p" "p_gc_mode p' = p_gc_mode p" "p_map p' = p_map p"
    "ofs_unit p' = ofs_unit p" "min_cost p' \<le> min_cost p" "p_offset p' = p_offset p" "max_search p' = max_search p"
    "min_segno p' = min_segno p \<or> min_segno p' = segno \<and> vic_candidate e ty p v (GET_SEC_FROM_SEG (ve_g e) segno) \<and>
       (p_alloc_mode p = SSR \<longrightarrow> nat (ckpt_valid_blocks (get_seg_entry (v_sit v) segno)) < min_cost p)"
    "p_alloc_mode p = SSR \<Longrightarrow> v_sit v' = v_sit v"
    using assms f unfolding vic_consider_def gc prod.case by (auto split: if_splits)
qed

lemma vic_step_inv:
  assumes inv: "vic_inv e ty v p s" and ok: "dirty_ok (ve_g e) (v_dirty v)" "p_map p < 8" and unit: "0 < ofs_unit p"
    and mc: "p_alloc_mode p = SSR \<Longrightarrow> min_cost p = blocks_per_seg (ve_g e)"
  shows "case vic_step e ty lv0 s of
      Inl s' \<Rightarrow> vic_inv e ty v p s' \<and>
        (vic_lv s \<noteq> 0 \<and> vic_lv s' = 0 \<or>
         vic_lv s' = vic_lv s \<and> vl_last s' - p_offset (vl_p s') < vl_last s - p_offset (vl_p s))
    | Inr s' \<Rightarrow> vic_inv e ty v p s'"
proof -
  let ?map = "dirty_segmap (v_dirty v) ! p_map p"
  define segno where "segno = find_next_bit (\<lambda>i. test_bit i ?map) (vl_last s) (p_offset (vl_p s))"
  have len: "length (dirty_segmap (v_dirty v)) = 8" "length ?map = main_segs (ve_g e)"
    using ok by (simp_all add: dirty_ok_def)
  have i: "v_dirty (vl_v s) = v_dirty v" "cur_victim_sec (vl_v s) = cur_victim_sec v"
    "sentries (v_sit (vl_v s)) = sentries (v_sit v)" "p_alloc_mode (vl_p s) = p_alloc_mode p"
    "p_gc_mode (vl_p s) = p_gc_mode p" "p_map (vl_p s) = p_map p" "ofs_unit (vl_p s) = ofs_unit p"
    "min_cost (vl_p s) \<le> min_cost p"
    "min_segno (vl_p s) = NULL_SEGNO \<or> vic_good e ty (p_alloc_mode p) (p_map p) v (min_segno (vl_p s))"
    "p_alloc_mode p = SSR \<Longrightarrow> v_sit (vl_v s) = v_sit v"
    "\<And>m. m \<noteq> p_gc_mode p \<Longrightarrow> arr_get 0 (last_victim (vl_v s)) m = arr_get 0 (last_victim v) m"
    using inv unfolding vic_inv_def by blast+
  have map: "arr_get [] (dirty_segmap (v_dirty (vl_v s))) (p_map (vl_p s)) = ?map" using i len ok(2) by simp
  show ?thesis
  proof (cases "segno \<ge> vl_last s")
    case True
    then have step: "vic_step e ty lv0 s = (if vic_lv s \<noteq> 0
        then Inl (s\<lparr>vl_last := vic_lv s, vl_v := set_last_victim (p_gc_mode (vl_p s)) 0 (vl_v s), vl_p := (vl_p s)\<lparr>p_offset := 0\<rparr>\<rparr>)
        else Inr s)"
      unfolding vic_step_def Let_def map segno_def by simp
    have "vic_lv (s\<lparr>vl_last := l, vl_v := set_last_victim (p_gc_mode (vl_p s)) 0 (vl_v s), vl_p := (vl_p s)\<lparr>p_offset := 0\<rparr>\<rparr>) = 0" for l
      by (simp add: vic_lv_def set_last_victim_def arr_get_def)
    then show ?thesis unfolding step using inv by (auto simp: vic_inv_def)
  next
    case False
    then have seg: "segno < vl_last s" "p_offset (vl_p s) \<le> segno" "test_bit segno ?map"
      using find_next_bit_sound [of "\<lambda>i. test_bit i ?map" "vl_last s" "p_offset (vl_p s)"] by (simp_all add: segno_def)
    have main: "segno < main_segs (ve_g e)" using seg(3) len by (auto simp: test_bit_def arr_get_def split: if_splits)
    let ?p1 = "vic_advance (vl_p s) segno"
    obtain w q where c: "vic_consider e ty segno (vl_v s) ?p1 = (w, q)" by fastforce
    note f = vic_consider_frame [OF c]
    define n where "n = vl_nsearched s + (if ofs_unit ?p1 > 1 then count_bits ?map (p_offset ?p1 - ofs_unit ?p1) (ofs_unit ?p1) else 1)"
    let ?s1 = "s\<lparr>vl_p := q, vl_v := w, vl_nsearched := n\<rparr>"
    have step: "vic_step e ty lv0 s = (if n \<ge> max_search q
        then Inr (?s1\<lparr>vl_v := set_last_victim (p_gc_mode q) ((if vic_lv ?s1 = 0 \<and> segno \<le> lv0 then lv0 + 1 else segno + 1) mod main_segs (ve_g e)) w\<rparr>)
        else Inl ?s1)"
      using False unfolding vic_step_def Let_def map segno_def [symmetric] c n_def by simp
    have good: "min_segno q = NULL_SEGNO \<or> vic_good e ty (p_alloc_mode p) (p_map p) v (min_segno q)"
    proof (cases "min_segno q = min_segno (vl_p s)")
      case True
      then show ?thesis using i(9) by simp
    next
      case False
      then have q: "min_segno q = segno" "vic_candidate e ty ?p1 (vl_v s) (GET_SEC_FROM_SEG (ve_g e) segno)"
        "p_alloc_mode p = SSR \<longrightarrow> nat (ckpt_valid_blocks (get_seg_entry (v_sit (vl_v s)) segno)) < min_cost (vl_p s)"
        using f(12) i(4) by auto
      have "p_alloc_mode p = SSR \<longrightarrow> nat (ckpt_valid_blocks (get_seg_entry (v_sit v) segno)) < blocks_per_seg (ve_g e)"
        using q(3) mc i(8) get_seg_entry_frame [OF i(3)] by fastforce
      then have "vic_good e ty (p_alloc_mode p) (p_map p) v segno"
        using q(2) main seg(3) i(1,2) len ok(2) sec_usage_frame [OF i(2)]
        by (auto simp: vic_good_def vic_candidate_def dirty_bit_def)
      then show ?thesis using q(1) by simp
    qed
    have inv1: "vic_inv e ty v p ?s1"
      unfolding vic_inv_def using f(1-9) f(13) i good by simp
    moreover have "vic_lv ?s1 = vic_lv s" using f(4,6) by (simp add: vic_lv_def)
    moreover have "vl_last s - p_offset q < vl_last s - p_offset (vl_p s)"
      using f(10) seg vic_advance_offset [of "vl_p s" segno] unit i(7) by simp
    ultimately show ?thesis unfolding step by (auto simp: vic_inv_def)
  qed
qed

lemma vic_search_ends:
  assumes ok: "dirty_ok (ve_g e) (v_dirty v)" "p_map p < 8" "0 < ofs_unit p"
    and mc: "p_alloc_mode p = SSR \<Longrightarrow> min_cost p = blocks_per_seg (ve_g e)"
  shows "vic_inv e ty v p s \<Longrightarrow> \<exists>s'. vic_search e ty lv0 s = Some s' \<and> vic_inv e ty v p s'"
proof (induction s rule: wf_induct [OF wf_measures [of "[\<lambda>s. if vic_lv s \<noteq> 0 then 1 else 0, \<lambda>s. vl_last s - p_offset (vl_p s)]"]])
  case (1 s)
  show ?case
  proof (cases "vic_step e ty lv0 s")
    case (Inl s')
    then have "vic_inv e ty v p s'" "(s', s) \<in> measures [\<lambda>s. if vic_lv s \<noteq> 0 then 1 else 0, \<lambda>s. vl_last s - p_offset (vl_p s)]"
      using vic_step_inv [OF 1(2) ok mc, of lv0] by auto
    then show ?thesis using 1(1) Inl by (subst vic_search.simps) auto
  next
    case (Inr s')
    then show ?thesis using vic_step_inv [OF 1(2) ok mc, of lv0] by (subst vic_search.simps) auto
  qed
qed

lemma check_bg_victims_good:
  assumes "geom_ok (ve_g e)" "check_bg_victims e v = (v', bg)" "bg \<noteq> NULL_SEGNO"
  obtains secno where "secno < main_secs (ve_g e)" "bg = GET_SEG_FROM_SEC (ve_g e) secno" "\<not> sec_usage_check e v secno"
    "\<not> no_fggc_candidate e v secno" "test_bit secno (victim_secmap (v_dirty v))" "cur_victim_sec v' = cur_victim_sec v"
  using assms(2,3)
  by (auto simp: check_bg_victims_def split: option.splits dest!: find_upt_SomeD intro!: that)

lemma check_bg_victims_none: "check_bg_victims e v = (v', NULL_SEGNO) \<Longrightarrow> main_segs (ve_g e) < NULL_SEGNO \<Longrightarrow> geom_ok (ve_g e) \<Longrightarrow> v' = v"
  using seg_of_sec [of "ve_g e"]
  by (fastforce simp: check_bg_victims_def split: option.splits dest!: find_upt_SomeD)

lemma sec_of_mult:
  assumes "geom_ok g"
  shows "GET_SEC_FROM_SEG g (segno div segs_per_sec g * segs_per_sec g) = GET_SEC_FROM_SEG g segno"
    "GET_SEC_FROM_SEG g (GET_SEG_FROM_SEC g secno) = secno"
  using assms by (simp_all add: geom_ok_def GET_SEC_FROM_SEG_def GET_SEG_FROM_SEC_def)

lemma search_good:
  fixes e v am ty t
  defines "p \<equiv> (select_policy e v ty t am)\<lparr>min_segno := NULL_SEGNO, min_cost := get_max_cost e (select_policy e v ty t am)\<rparr>"
  assumes g: "geom_ok (ve_g e)" and ok: "dirty_ok (ve_g e) (v_dirty v)" and t: "t < 8"
  obtains s where "vic_search e ty lv0 \<lparr>vl_v = v, vl_p = p, vl_last = l, vl_nsearched = 0\<rparr> = Some s"
    "vic_inv e ty v p s"
proof -
  have p: "p_alloc_mode p = am" "p_map p = (if am = SSR then t else DIRTY)" "ofs_unit p = (if am = SSR then 1 else segs_per_sec (ve_g e))"
    "am = SSR \<Longrightarrow> min_cost p = blocks_per_seg (ve_g e)" "min_segno p = NULL_SEGNO"
    by (simp_all add: p_def select_policy_def get_max_cost_def Let_def)
  have "p_map p < 8" "0 < ofs_unit p" using p t g by (simp_all add: DIRTY_def geom_ok_def)
  moreover have "vic_inv e ty v p \<lparr>vl_v = v, vl_p = p, vl_last = l, vl_nsearched = 0\<rparr>"
    using p by (simp add: vic_inv_def)
  ultimately show ?thesis using vic_search_ends [OF ok, of p] p that by blast
qed

lemma get_victim_good:
  assumes g: "geom_ok (ve_g e)" and ok: "dirty_ok (ve_g e) (v_dirty v)" and t: "t < 8"
  obtains v' r where "get_victim_by_default e v NULL_SEGNO ty t am = Some (v', r)"
    "\<And>segno. r = Some segno \<Longrightarrow> segno < main_segs (ve_g e) \<and> \<not> sec_usage_check e v (GET_SEC_FROM_SEG (ve_g e) segno)"
    "\<And>segno. r = Some segno \<Longrightarrow> am = LFS \<Longrightarrow> segno mod segs_per_sec (ve_g e) = 0 \<and>
       (ty = FG_GC \<longrightarrow> cur_victim_sec v' = GET_SEC_FROM_SEG (ve_g e) segno) \<and>
       (ty = BG_GC \<longrightarrow> test_bit (GET_SEC_FROM_SEG (ve_g e) segno) (victim_secmap (v_dirty v')))"
    "\<And>segno. r = Some segno \<Longrightarrow> am = SSR \<Longrightarrow> vic_good e ty SSR t v segno"
    "am = SSR \<Longrightarrow> v_dirty v' = v_dirty v \<and> v_sit v' = v_sit v \<and> cur_victim_sec v' = cur_victim_sec v \<and>
       arr_get 0 (last_victim v') 2 = arr_get 0 (last_victim v) 2"
proof -
  define p where "p = (select_policy e v ty t am)\<lparr>min_segno := NULL_SEGNO, min_cost := get_max_cost e (select_policy e v ty t am)\<rparr>"
  have pf: "p_alloc_mode p = am" "p_map p = (if am = SSR then t else DIRTY)" "ofs_unit p = (if am = SSR then 1 else segs_per_sec (ve_g e))"
    "am = SSR \<Longrightarrow> p_gc_mode p = 1"
    by (simp_all add: p_def select_policy_def GC_GREEDY_def Let_def)
  have null: "main_segs (ve_g e) < NULL_SEGNO"
  proof -
    have "main_segs (ve_g e) \<le> (main_segs (ve_g e) + start_segno (ve_g e)) * 2 ^ log_blocks_per_seg (ve_g e)"
      by (metis le_add1 mult.right_neutral mult_le_mono one_le_numeral one_le_power)
    then show ?thesis using g unfolding geom_ok_def NULL_SEGNO_def by linarith
  qed
  have len: "length (victim_secmap (v_dirty v)) = main_secs (ve_g e)" using ok by (simp add: dirty_ok_def)
  have unfold: "get_victim_by_default e v NULL_SEGNO ty t am =
      (if max_search p = 0 then Some (v, None)
       else
         let lv0 = arr_get 0 (last_victim v) (p_gc_mode p);
             (v, bg) = (if am = LFS \<and> ty = FG_GC then check_bg_victims e v else (v, NULL_SEGNO))
         in if bg \<noteq> NULL_SEGNO then
              (case vic_got_it e ty (p\<lparr>min_segno := bg\<rparr>) v of (v, r) \<Rightarrow> Some (v, Some r))
            else
              (case vic_search e ty lv0 \<lparr>vl_v = v, vl_p = p, vl_last = main_segs (ve_g e), vl_nsearched = 0\<rparr> of
                 None \<Rightarrow> None
               | Some s \<Rightarrow>
                   Some (if min_segno (vl_p s) \<noteq> NULL_SEGNO
                         then case vic_got_it e ty (vl_p s) (vl_v s) of (v, r) \<Rightarrow> (v, Some r)
                         else (vl_v s, None))))"
    unfolding get_victim_by_default_def Let_def p_def [symmetric] by simp
  obtain w bg where bg: "(if am = LFS \<and> ty = FG_GC then check_bg_victims e v else (v, NULL_SEGNO)) = (w, bg)" by fastforce
  consider (none) "max_search p = 0" | (bg) "max_search p \<noteq> 0" "bg \<noteq> NULL_SEGNO" | (search) "max_search p \<noteq> 0" "bg = NULL_SEGNO"
    by blast
  then show ?thesis
  proof cases
    case none
    show ?thesis by (rule that [of v None]) (simp_all add: unfold none)
  next
    case bg
    then have c: "am = LFS" "ty = FG_GC" "check_bg_victims e v = (w, bg)" using \<open>_ = (w, bg)\<close> by (auto split: if_splits)
    obtain secno where s: "secno < main_secs (ve_g e)" "bg = GET_SEG_FROM_SEC (ve_g e) secno" "\<not> sec_usage_check e v secno"
      by (rule check_bg_victims_good [OF g c(3) bg(2)])
    have r: "bg div segs_per_sec (ve_g e) * segs_per_sec (ve_g e) = bg" using g s(2) by (simp add: GET_SEG_FROM_SEC_def geom_ok_def)
    have "get_victim_by_default e v NULL_SEGNO ty t am = Some (w\<lparr>cur_victim_sec := secno\<rparr>, Some bg)"
      using bg c s(2) pf r sec_of_mult [OF g] unfolding unfold by (simp add: vic_got_it_def Let_def)
    then show ?thesis
      using c s seg_of_sec [OF g s(1)] sec_of_mult [OF g] g
      by (intro that [of "w\<lparr>cur_victim_sec := secno\<rparr>" "Some bg"]) (auto simp: GET_SEG_FROM_SEC_def)
  next
    case search
    then have w: "w = v" using \<open>_ = (w, bg)\<close> check_bg_victims_none [of e v w] null g by (auto split: if_splits)
    obtain s where s: "vic_search e ty (arr_get 0 (last_victim v) (p_gc_mode p))
        \<lparr>vl_v = v, vl_p = p, vl_last = main_segs (ve_g e), vl_nsearched = 0\<rparr> = Some s" "vic_inv e ty v p s"
      using search_good [OF g ok t, of ty "arr_get 0 (last_victim v) (p_gc_mode p)" am] unfolding p_def by metis
    have res: "get_victim_by_default e v NULL_SEGNO ty t am = Some (if min_segno (vl_p s) \<noteq> NULL_SEGNO
        then case vic_got_it e ty (vl_p s) (vl_v s) of (v, r) \<Rightarrow> (v, Some r) else (vl_v s, None))"
      using search w \<open>_ = (w, bg)\<close> s(1) unfolding unfold Let_def by simp
    have i: "v_dirty (vl_v s) = v_dirty v" "cur_victim_sec (vl_v s) = cur_victim_sec v"
      "p_alloc_mode (vl_p s) = am" "ofs_unit (vl_p s) = ofs_unit p" "am = SSR \<longrightarrow> v_sit (vl_v s) = v_sit v"
      "min_segno (vl_p s) = NULL_SEGNO \<or> vic_good e ty am (p_map p) v (min_segno (vl_p s))"
      "am = SSR \<longrightarrow> arr_get 0 (last_victim (vl_v s)) 2 = arr_get 0 (last_victim v) 2"
      using s(2) pf unfolding vic_inv_def by auto
    show ?thesis
    proof (cases "min_segno (vl_p s) = NULL_SEGNO")
      case True
      then show ?thesis using i by (intro that [of "vl_v s" None]) (simp_all add: res)
    next
      case False
      let ?m = "min_segno (vl_p s)" and ?r = "min_segno (vl_p s) div ofs_unit p * ofs_unit p"
      have good: "vic_good e ty am (p_map p) v ?m" using i(6) False by blast
      have sec: "GET_SEC_FROM_SEG (ve_g e) ?r = GET_SEC_FROM_SEG (ve_g e) ?m"
        using pf(3) sec_of_mult [OF g, of ?m] by (cases am) auto
      have "?r \<le> ?m" by (rule div_times_less_eq_dividend)
      moreover have "?m < main_segs (ve_g e)" using good by (simp add: vic_good_def)
      ultimately have lt: "?r < main_segs (ve_g e)" by (rule le_less_trans)
      obtain v' r where got: "vic_got_it e ty (vl_p s) (vl_v s) = (v', r)" by fastforce
      then have r: "r = ?r" using i(4) by (auto simp: vic_got_it_def Let_def)
      have sl: "GET_SEC_FROM_SEG (ve_g e) ?m < length (victim_secmap (v_dirty v))"
        using sec_of_seg [OF g] good len by (simp add: vic_good_def)
      show ?thesis
      proof (rule that [of v' "Some ?r"])
        show "get_victim_by_default e v NULL_SEGNO ty t am = Some (v', Some ?r)" using res got r False by simp
        fix segno assume "Some ?r = Some segno"
        then have sg: "segno = ?r" by simp
        show "segno < main_segs (ve_g e) \<and> \<not> sec_usage_check e v (GET_SEC_FROM_SEG (ve_g e) segno)"
          using good lt sec sg by (simp add: vic_good_def)
        show "segno mod segs_per_sec (ve_g e) = 0 \<and>
            (ty = FG_GC \<longrightarrow> cur_victim_sec v' = GET_SEC_FROM_SEG (ve_g e) segno) \<and>
            (ty = BG_GC \<longrightarrow> test_bit (GET_SEC_FROM_SEG (ve_g e) segno) (victim_secmap (v_dirty v')))" if "am = LFS"
          using that got i pf(3) sec sl kb.tst_put [OF sl, of "GET_SEC_FROM_SEG (ve_g e) ?m"] unfolding sg
          by (cases ty) (auto simp: vic_got_it_def Let_def)
        show "vic_good e ty SSR t v segno" if "am = SSR" using that good pf sg by simp
      next
        show "v_dirty v' = v_dirty v \<and> v_sit v' = v_sit v \<and> cur_victim_sec v' = cur_victim_sec v \<and>
            arr_get 0 (last_victim v') 2 = arr_get 0 (last_victim v) 2" if "am = SSR"
          using that got i by (auto simp: vic_got_it_def Let_def)
      qed
    qed
  qed
qed

text \<open>
  Property C25. \<^verbatim>\<open>get_victim_by_default\<close> always returns, and a victim it returns is sound. It is a segment of
  the main area whose section holds no current segment and is not being cleaned. For cleaning it is the
  first segment of its section, which is then recorded as the current victim (foreground) or as a candidate
  (background). For SSR it is a dirty segment of the wanted type with room
  left besides the blocks the last checkpoint needs, and neither the table nor the lists change.
\<close>

theorem get_victim_by_default_sound:
  assumes "geom_ok (ve_g e)" and "dirty_ok (ve_g e) (v_dirty v)" and "t < 8"
  shows "\<exists>v' r. get_victim_by_default e v NULL_SEGNO ty t am = Some (v', r) \<and>
    (\<forall>segno. r = Some segno \<longrightarrow>
       segno < main_segs (ve_g e) \<and> \<not> IS_CURSEC e (GET_SEC_FROM_SEG (ve_g e) segno) \<and>
       cur_victim_sec v \<noteq> GET_SEC_FROM_SEG (ve_g e) segno \<and>
       (am = LFS \<longrightarrow> segno mod segs_per_sec (ve_g e) = 0 \<and>
          (ty = FG_GC \<longrightarrow> cur_victim_sec v' = GET_SEC_FROM_SEG (ve_g e) segno) \<and>
          (ty = BG_GC \<longrightarrow> test_bit (GET_SEC_FROM_SEG (ve_g e) segno) (victim_secmap (v_dirty v')))) \<and>
       (am = SSR \<longrightarrow> dirty_bit (v_dirty v) t segno \<and>
          nat (ckpt_valid_blocks (get_seg_entry (v_sit v) segno)) < blocks_per_seg (ve_g e))) \<and>
    (am = SSR \<longrightarrow> v_dirty v' = v_dirty v \<and> v_sit v' = v_sit v)"
proof (rule get_victim_good [OF assms, of ty am])
  fix v' r
  assume r: "get_victim_by_default e v NULL_SEGNO ty t am = Some (v', r)"
    "\<And>segno. r = Some segno \<Longrightarrow> segno < main_segs (ve_g e) \<and> \<not> sec_usage_check e v (GET_SEC_FROM_SEG (ve_g e) segno)"
    "\<And>segno. r = Some segno \<Longrightarrow> am = LFS \<Longrightarrow> segno mod segs_per_sec (ve_g e) = 0 \<and>
       (ty = FG_GC \<longrightarrow> cur_victim_sec v' = GET_SEC_FROM_SEG (ve_g e) segno) \<and>
       (ty = BG_GC \<longrightarrow> test_bit (GET_SEC_FROM_SEG (ve_g e) segno) (victim_secmap (v_dirty v')))"
    "\<And>segno. r = Some segno \<Longrightarrow> am = SSR \<Longrightarrow> vic_good e ty SSR t v segno"
    "am = SSR \<Longrightarrow> v_dirty v' = v_dirty v \<and> v_sit v' = v_sit v \<and> cur_victim_sec v' = cur_victim_sec v \<and>
       arr_get 0 (last_victim v') 2 = arr_get 0 (last_victim v) 2"
  then show ?thesis unfolding sec_usage_check_def vic_good_def by blast
qed

definition demo_vic :: vic_st where
  "demo_vic = \<lparr>v_sit = demo_sit, v_dirty = demo_dirty, last_victim = [0, 0, 0, 0], cur_victim_sec = NULL_SEGNO\<rparr>"

text \<open>One dirty segment of type 1 outside the current sections.\<close>

definition one_dirty :: dirty_seglist_info where
  "one_dirty = demo_dirty\<lparr>dirty_segmap := (replicate 8 (replicate 8 False))[1 := (replicate 8 False)[3 := True]], nr_dirty := (replicate 8 0)[1 := 1]\<rparr>"
definition demo_vic_env :: vic_env where
  "demo_vic_env = \<lparr>ve_g = demo_geom, ve_curs = [0, 1, 0, 1, 0, 1], fggc_threshold = 100, max_victim_search = 4096, gc_idle = None\<rparr>"
definition demo_vic_dirty :: vic_st where
  "demo_vic_dirty = \<lparr>v_sit = demo_sit, v_dirty = one_dirty, last_victim = [0, 0, 0, 0], cur_victim_sec = NULL_SEGNO\<rparr>"

lemma one_dirty_ok: "dirty_ok demo_geom one_dirty"
proof -
  have u: "used (replicate 8 False) = 0" "used ((replicate 8 False)[3 := True]) = 1" by code_simp+
  show ?thesis using u by (auto simp: dirty_ok_def one_dirty_def demo_dirty_def demo_geom_def nth_list_update)
qed

lemma demo_search:
  "\<exists>v. get_victim_by_default demo_vic_env demo_vic_dirty NULL_SEGNO BG_GC 1 SSR = Some (v, Some 3)"
proof -
  have f: "find_next_bit (\<lambda>i. test_bit i ((replicate 8 False)[3 := True])) 8 0 = 3" by code_simp
  have d: "arr_get [] (dirty_segmap one_dirty) 1 = (replicate 8 False)[3 := True]" "arr_get 0 (nr_dirty one_dirty) 1 = 1" "\<not> test_bit 1 (victim_secmap one_dirty)"
    by (simp_all add: one_dirty_def demo_dirty_def arr_get_def test_bit_def)
  have g: "segs_per_sec demo_geom = 2" "main_segs demo_geom = 8" "blocks_per_seg demo_geom = 512" "GET_SEC_FROM_SEG demo_geom 3 = 1"
    by (simp_all add: demo_geom_def blocks_per_seg_def GET_SEC_FROM_SEG_def)
  have c: "ckpt_valid_blocks (get_seg_entry demo_sit 3) = 0" by (simp add: get_seg_entry_def demo_sit_def demo_entry_def arr_get_def)
  have cs: "\<not> IS_CURSEC demo_vic_env 1" by (simp add: IS_CURSEC_def demo_vic_env_def demo_geom_def)
  have e: "ve_g demo_vic_env = demo_geom" "max_victim_search demo_vic_env = 4096" "gc_idle demo_vic_env = None" by (simp_all add: demo_vic_env_def)
  have v: "v_sit demo_vic_dirty = demo_sit" "v_dirty demo_vic_dirty = one_dirty" "last_victim demo_vic_dirty = [0, 0, 0, 0]" "cur_victim_sec demo_vic_dirty = NULL_SEGNO" by (simp_all add: demo_vic_dirty_def)
  have z: "arr_get 0 [0, 0, 0, 0 :: nat] GC_GREEDY = 0" by (simp add: arr_get_def GC_GREEDY_def)
  define p where "p = \<lparr>p_alloc_mode = SSR, p_gc_mode = GC_GREEDY, p_map = 1, max_search = 1, p_offset = 0, ofs_unit = 1, min_cost = 512, min_segno = NULL_SEGNO\<rparr>"
  have p: "(select_policy demo_vic_env demo_vic_dirty BG_GC 1 SSR)\<lparr>min_segno := NULL_SEGNO, min_cost := get_max_cost demo_vic_env (select_policy demo_vic_env demo_vic_dirty BG_GC 1 SSR)\<rparr> = p"
    using z d(2) by (simp add: select_policy_def get_max_cost_def e v g p_def IS_NODESEG_def Let_def)
  have st: "vic_step demo_vic_env BG_GC 0 \<lparr>vl_v = demo_vic_dirty, vl_p = p, vl_last = 8, vl_nsearched = 0\<rparr> =
      Inr \<lparr>vl_v = set_last_victim GC_GREEDY 4 demo_vic_dirty, vl_p = p\<lparr>p_offset := 4, min_segno := 3, min_cost := 0\<rparr>, vl_last = 8, vl_nsearched = 1\<rparr>"
    unfolding vic_step_def Let_def using f d(1) cs
    by (simp add: e v p_def d(3) [simplified] g g(4) [simplified] c [simplified] vic_advance_def vic_consider_def vic_candidate_def sec_usage_check_def get_gc_cost_def vic_lv_def NULL_SEGNO_def z)
  have "vic_search demo_vic_env BG_GC 0 \<lparr>vl_v = demo_vic_dirty, vl_p = p, vl_last = 8, vl_nsearched = 0\<rparr> =
      Some \<lparr>vl_v = set_last_victim GC_GREEDY 4 demo_vic_dirty, vl_p = p\<lparr>p_offset := 4, min_segno := 3, min_cost := 0\<rparr>, vl_last = 8, vl_nsearched = 1\<rparr>"
    by (subst vic_search.simps) (simp add: st)
  moreover have "max_search p = 1" "arr_get 0 (last_victim demo_vic_dirty) (p_gc_mode p) = 0" using z by (simp_all add: p_def v)
  ultimately show ?thesis
    unfolding get_victim_by_default_def Let_def p by (simp add: e g vic_got_it_def p_def NULL_SEGNO_def Let_def)
qed

theorem get_victim_by_default_sound_witness:
  "\<exists>v'. get_victim_by_default demo_vic_env demo_vic_dirty NULL_SEGNO BG_GC 1 SSR = Some (v', Some 3) \<and> dirty_bit one_dirty 1 3 \<and> v_sit v' = demo_sit"
proof -
  have s: "ve_g demo_vic_env = demo_geom" "v_dirty demo_vic_dirty = one_dirty" "v_sit demo_vic_dirty = demo_sit" by (simp_all add: demo_vic_env_def demo_vic_dirty_def)
  have ok: "geom_ok (ve_g demo_vic_env)" "dirty_ok (ve_g demo_vic_env) (v_dirty demo_vic_dirty)" "(1 :: nat) < 8" using demo_geom_ok one_dirty_ok s by simp_all
  show ?thesis using get_victim_by_default_sound [OF ok, of BG_GC SSR] demo_search unfolding s by auto
qed

text \<open>
  The pace of the cleaning thread stays within its limits: from a waiting time between the
  minimum and the maximum, both \<^verbatim>\<open>increase_sleep_time\<close> and \<^verbatim>\<open>decrease_sleep_time\<close> stay between them, the one never
  shortening and the other never lengthening the wait; the long wait of an idle cleaner is kept by the
  one and left by the other.
\<close>

theorem gc_sleep_time_bounds:
  assumes "0 < min_sleep_time th" and "min_sleep_time th \<le> max_sleep_time th"
    and "wait = no_gc_sleep_time th \<or> min_sleep_time th \<le> wait \<and> wait \<le> max_sleep_time th"
    and "max_sleep_time th < no_gc_sleep_time th"
  shows "(if wait = no_gc_sleep_time th then increase_sleep_time th wait = wait
     else wait \<le> increase_sleep_time th wait \<and> min_sleep_time th \<le> increase_sleep_time th wait \<and>
          increase_sleep_time th wait \<le> max_sleep_time th) \<and>
    min_sleep_time th \<le> decrease_sleep_time th wait \<and> decrease_sleep_time th wait \<le> max_sleep_time th \<and>
    decrease_sleep_time th wait \<le> wait"
  using assms by (auto simp: increase_sleep_time_def decrease_sleep_time_def Let_def)

theorem gc_sleep_time_bounds_witness:
  "decrease_sleep_time \<lparr>min_sleep_time = 30000, max_sleep_time = 60000, no_gc_sleep_time = 300000\<rparr> 300000 \<le> 60000"
  using gc_sleep_time_bounds [of "\<lparr>min_sleep_time = 30000, max_sleep_time = 60000, no_gc_sleep_time = 300000\<rparr>" 300000] by simp

text \<open>
  The threshold of invalid blocks at which background cleaning starts is meant to be 40
  percent of the user blocks. \<^verbatim>\<open>limit_invalid_user_blocks\<close> computes the product in 32 bits before it widens it, so
  the threshold is right below \<open>2 ^ 32 / 40\<close> blocks (about 410 GB) only; just above, it drops to zero.
\<close>

theorem limit_invalid_user_blocks_wraps:
  "(unat n * 40 < 2 ^ 32 \<longrightarrow> unat (limit_invalid_user_blocks n) = unat n * 40 div 100) \<and>
   limit_invalid_user_blocks 107374183 = 0"
proof -
  have "unat (limit_invalid_user_blocks n) = unat n * 40 div 100" if "unat n * 40 < 2 ^ 32"
  proof -
    have "unat (n * 40) = unat n * 40" using that by (simp add: unat_word_ariths)
    then show ?thesis by (simp add: limit_invalid_user_blocks_def unat_div)
  qed
  moreover have "limit_invalid_user_blocks 107374183 = 0" by code_simp
  ultimately show ?thesis by blast
qed

theorem limit_invalid_user_blocks_wraps_witness:
  "unat (limit_invalid_user_blocks 1000) = 400"
  using limit_invalid_user_blocks_wraps [of 1000] by simp

end
