(* ===== verification/Curseg.thy ===== *)
theory Curseg
  imports Victim
begin

text \<open>
  The current segments (active logs) and block allocation (\<^verbatim>\<open>segment.c\<close>): choosing the log for a page,
  moving a log to a new or a reused segment, and \<^verbatim>\<open>allocate_data_block\<close>. The main result is what makes
  the file system recoverable: a block handed out for writing is neither valid now nor part of the last
  checkpoint, whichever logs and allocation modes are in use.

  The summary area is a function from segments to their summary entries. Waiting for discards, the
  list of pending bios and the statistics are left out.
\<close>

section \<open>State\<close>

record f2fs_summary =
  sum_nid :: nid_t
  sum_version :: u8
  sum_ofs_in_node :: u16

record curseg_info =
  alloc_type :: alloc_mode
  cs_segno :: nat
  next_blkoff :: nat
  cs_zone :: nat
  next_segno :: nat
  sum_entries :: "f2fs_summary list"
  sum_type :: nat

record seg_conf =
  sc_g :: seg_geom
  sc_discard_en :: bool
  opt_noheap :: bool
  opt_lfs :: bool
  gc_urgent :: bool
  crc_recovery :: bool
  sc_fggc_threshold :: nat
  sc_max_victim_search :: nat
  sc_gc_idle :: "nat option"
  dirty_nodes :: nat
  dirty_dents :: nat
  dirty_imeta :: nat
  min_ssr_sections :: nat
  reserved_segments :: nat

record seg_mgr =
  sm_v :: vic_st
  sm_free :: free_segmap_info
  sm_cur :: "curseg_info list"
  sm_ssa :: "nat \<Rightarrow> f2fs_summary list"
  sm_bug :: bool

definition empty_curseg :: curseg_info where
  "empty_curseg = \<lparr>alloc_type = LFS, cs_segno = 0, next_blkoff = 0, cs_zone = 0, next_segno = NULL_SEGNO,
     sum_entries = [], sum_type = 0\<rparr>"

definition CURSEG_I :: "seg_mgr \<Rightarrow> nat \<Rightarrow> curseg_info" where
  "CURSEG_I sm t = arr_get empty_curseg (sm_cur sm) t"

definition put_curseg :: "nat \<Rightarrow> curseg_info \<Rightarrow> seg_mgr \<Rightarrow> seg_mgr" where
  "put_curseg t c sm = sm\<lparr>sm_cur := (sm_cur sm)[t := c]\<rparr>"

abbreviation sm_sit :: "seg_mgr \<Rightarrow> sit_info" where "sm_sit sm \<equiv> v_sit (sm_v sm)"
abbreviation sm_dirty :: "seg_mgr \<Rightarrow> dirty_seglist_info" where "sm_dirty sm \<equiv> v_dirty (sm_v sm)"

definition put_sit :: "sit_info \<Rightarrow> seg_mgr \<Rightarrow> seg_mgr" where
  "put_sit sit sm = sm\<lparr>sm_v := (sm_v sm)\<lparr>v_sit := sit\<rparr>\<rparr>"

definition put_dirty :: "dirty_seglist_info \<Rightarrow> seg_mgr \<Rightarrow> seg_mgr" where
  "put_dirty d sm = sm\<lparr>sm_v := (sm_v sm)\<lparr>v_dirty := d\<rparr>\<rparr>"

definition curs :: "seg_mgr \<Rightarrow> nat list" where
  "curs sm = map cs_segno (sm_cur sm)"

section \<open>Choosing a log\<close>

datatype page_type = DATA | NODE
datatype temp_type = HOT | WARM | COLD
datatype rw_hint = WRITE_LIFE_SHORT | WRITE_LIFE_EXTREME | WRITE_LIFE_OTHER

text \<open>What the choice looks at: the kind of page, its inode's attributes, its node footer.\<close>

record io_page =
  io_type :: page_type
  io_isdir :: bool
  io_cold_data :: bool
  io_file_cold :: bool
  io_hot_data :: bool
  io_hint :: rw_hint
  io_dnode :: bool
  io_cold_node :: bool

definition rw_hint_to_seg_type :: "rw_hint \<Rightarrow> nat" where
  "rw_hint_to_seg_type hint =
     (case hint of WRITE_LIFE_SHORT \<Rightarrow> CURSEG_HOT_DATA | WRITE_LIFE_EXTREME \<Rightarrow> CURSEG_COLD_DATA
        | WRITE_LIFE_OTHER \<Rightarrow> CURSEG_WARM_DATA)"

definition get_segment_type_2 :: "io_page \<Rightarrow> nat" where
  "get_segment_type_2 fio = (if io_type fio = DATA then CURSEG_HOT_DATA else CURSEG_HOT_NODE)"

definition get_segment_type_4 :: "io_page \<Rightarrow> nat" where
  "get_segment_type_4 fio =
     (if io_type fio = DATA then (if io_isdir fio then CURSEG_HOT_DATA else CURSEG_COLD_DATA)
      else if io_dnode fio \<and> io_cold_node fio then CURSEG_WARM_NODE else CURSEG_COLD_NODE)"

definition get_segment_type_6 :: "io_page \<Rightarrow> nat" where
  "get_segment_type_6 fio =
     (if io_type fio = DATA then
        (if io_cold_data fio \<or> io_file_cold fio then CURSEG_COLD_DATA
         else if io_hot_data fio then CURSEG_HOT_DATA
         else rw_hint_to_seg_type (io_hint fio))
      else if io_dnode fio then (if io_cold_node fio then CURSEG_WARM_NODE else CURSEG_HOT_NODE)
      else CURSEG_COLD_NODE)"

text \<open>Type, temperature and whether the assertion on the number of logs failed.\<close>

definition get_segment_type :: "nat \<Rightarrow> io_page \<Rightarrow> nat \<times> temp_type \<times> bool" where
  "get_segment_type active_logs fio =
     (let (ty, bug) =
        (if active_logs = 2 then (get_segment_type_2 fio, False)
         else if active_logs = 4 then (get_segment_type_4 fio, False)
         else if active_logs = 6 then (get_segment_type_6 fio, False)
         else (0, True));
          temp = (if ty = CURSEG_HOT_NODE \<or> ty = CURSEG_HOT_DATA then HOT
                  else if ty = CURSEG_WARM_NODE \<or> ty = CURSEG_WARM_DATA then WARM else COLD)
      in (ty, temp, bug))"

section \<open>Moving a log\<close>

definition is_next_segment_free :: "seg_conf \<Rightarrow> seg_mgr \<Rightarrow> nat \<Rightarrow> bool" where
  "is_next_segment_free conf sm t =
     (let segno = cs_segno (CURSEG_I sm t) + 1 in
      if segno < main_segs (sc_g conf) \<and> segno mod segs_per_sec (sc_g conf) \<noteq> 0
      then \<not> test_bit segno (free_segmap (sm_free sm)) else False)"

definition reset_curseg :: "seg_conf \<Rightarrow> nat \<Rightarrow> bool \<Rightarrow> seg_mgr \<Rightarrow> seg_mgr" where
  "reset_curseg conf t modified sm =
     (let c = CURSEG_I sm t; segno = next_segno c;
          c = c\<lparr>cs_segno := segno, cs_zone := GET_ZONE_FROM_SEG (sc_g conf) segno, next_blkoff := 0,
                next_segno := NULL_SEGNO,
                sum_type := (if IS_NODESEG t then 1 else 0)\<rparr>
      in put_sit (set_sit_entry_type t segno modified (sm_sit sm)) (put_curseg t c sm))"

definition get_next_segno :: "seg_conf \<Rightarrow> seg_mgr \<Rightarrow> nat \<Rightarrow> nat" where
  "get_next_segno conf sm t =
     (if segs_per_sec (sc_g conf) \<noteq> 1 then cs_segno (CURSEG_I sm t)
      else if t = CURSEG_HOT_DATA \<or> IS_NODESEG t then 0
      else if arr_get 0 (last_victim (sm_v sm)) 2 \<noteq> 0 then arr_get 0 (last_victim (sm_v sm)) 2
      else cs_segno (CURSEG_I sm t))"

definition write_sum_page :: "nat \<Rightarrow> seg_mgr \<Rightarrow> seg_mgr" where
  "write_sum_page t sm = sm\<lparr>sm_ssa := (sm_ssa sm)(cs_segno (CURSEG_I sm t) := sum_entries (CURSEG_I sm t))\<rparr>"

definition new_curseg :: "seg_conf \<Rightarrow> nat \<Rightarrow> bool \<Rightarrow> seg_mgr \<Rightarrow> seg_mgr" where
  "new_curseg conf t new_sec sm =
     (let sm = write_sum_page t sm;
          dir = (if t = CURSEG_WARM_DATA \<or> t = CURSEG_COLD_DATA \<or> opt_noheap conf then ALLOC_RIGHT else ALLOC_LEFT);
          segno = get_next_segno conf sm t;
          (fi, segno, bug) =
            get_new_segment (sc_g conf) (map cs_zone (sm_cur sm)) (sm_free sm) segno new_sec dir;
          sm = sm\<lparr>sm_free := fi, sm_bug := sm_bug sm \<or> bug\<rparr>;
          sm = put_curseg t ((CURSEG_I sm t)\<lparr>next_segno := segno\<rparr>) sm;
          sm = reset_curseg conf t True sm
      in put_curseg t ((CURSEG_I sm t)\<lparr>alloc_type := LFS\<rparr>) sm)"

definition next_free_blkoff :: "seg_conf \<Rightarrow> sit_info \<Rightarrow> curseg_info \<Rightarrow> nat \<Rightarrow> curseg_info" where
  "next_free_blkoff conf sit c start =
     (let se = get_seg_entry sit (cs_segno c);
          target_map = map2 (OR) (ckpt_valid_map se) (cur_valid_map se)
      in c\<lparr>next_blkoff := find_rev_next_zero_bit target_map (blocks_per_seg (sc_g conf)) start\<rparr>)"

definition refresh_next_blkoff :: "seg_conf \<Rightarrow> sit_info \<Rightarrow> curseg_info \<Rightarrow> curseg_info" where
  "refresh_next_blkoff conf sit c =
     (if alloc_type c = SSR then next_free_blkoff conf sit c (next_blkoff c + 1)
      else c\<lparr>next_blkoff := next_blkoff c + 1\<rparr>)"

definition change_curseg :: "seg_conf \<Rightarrow> nat \<Rightarrow> seg_mgr \<Rightarrow> seg_mgr" where
  "change_curseg conf t sm =
     (let new_segno = next_segno (CURSEG_I sm t);
          sm = write_sum_page t sm;
          sm = sm\<lparr>sm_free := set_test_and_inuse (sc_g conf) new_segno (sm_free sm)\<rparr>;
          d = remove_dirty_type (sc_g conf) (sm_sit sm) new_segno PRE (sm_dirty sm);
          d = remove_dirty_type (sc_g conf) (sm_sit sm) new_segno DIRTY d;
          sm = reset_curseg conf t True (put_dirty d sm);
          c = next_free_blkoff conf (sm_sit sm) ((CURSEG_I sm t)\<lparr>alloc_type := SSR\<rparr>) 0
      in put_curseg t (c\<lparr>sum_entries := sm_ssa sm new_segno\<rparr>) sm)"

definition vic_env_of :: "seg_conf \<Rightarrow> seg_mgr \<Rightarrow> vic_env" where
  "vic_env_of conf sm =
     \<lparr>ve_g = sc_g conf, ve_curs = curs sm, fggc_threshold = sc_fggc_threshold conf,
      max_victim_search = sc_max_victim_search conf, gc_idle = sc_gc_idle conf\<rparr>"

text \<open>The types \<^verbatim>\<open>get_ssr_segment\<close> tries, in order, after the log's own type.\<close>

definition ssr_order :: "nat \<Rightarrow> nat list" where
  "ssr_order t =
     filter (\<lambda>i. i \<noteq> t)
       (if IS_NODESEG t then (if t \<ge> CURSEG_WARM_NODE then [5, 4, 3] else [3, 4, 5])
        else (if t \<ge> CURSEG_WARM_DATA then [2, 1, 0] else [0, 1, 2]))"

fun ssr_try :: "seg_conf \<Rightarrow> nat \<Rightarrow> nat list \<Rightarrow> seg_mgr \<Rightarrow> (seg_mgr \<times> bool) option" where
  "ssr_try conf t [] sm = Some (sm, False)"
| "ssr_try conf t (i # is) sm =
     (case get_victim_by_default (vic_env_of conf sm) (sm_v sm) NULL_SEGNO BG_GC i SSR of
        None \<Rightarrow> None
      | Some (v, Some segno) \<Rightarrow>
          (let sm = sm\<lparr>sm_v := v\<rparr> in Some (put_curseg t ((CURSEG_I sm t)\<lparr>next_segno := segno\<rparr>) sm, True))
      | Some (v, None) \<Rightarrow> ssr_try conf t is (sm\<lparr>sm_v := v\<rparr>))"

definition get_ssr_segment :: "seg_conf \<Rightarrow> nat \<Rightarrow> seg_mgr \<Rightarrow> (seg_mgr \<times> bool) option" where
  "get_ssr_segment conf t sm = ssr_try conf t (t # ssr_order t) sm"

definition get_blocktype_secs :: "seg_conf \<Rightarrow> nat \<Rightarrow> nat" where
  "get_blocktype_secs conf pages =
     (let pages_per_sec = segs_per_sec (sc_g conf) * blocks_per_seg (sc_g conf);
          segs = (pages + pages_per_sec - 1) div 2 ^ log_blocks_per_seg (sc_g conf)
      in segs div segs_per_sec (sc_g conf))"

definition reserved_sections :: "seg_conf \<Rightarrow> nat" where
  "reserved_sections conf = GET_SEC_FROM_SEG (sc_g conf) (reserved_segments conf)"

definition need_SSR :: "seg_conf \<Rightarrow> seg_mgr \<Rightarrow> bool" where
  "need_SSR conf sm =
     (let node_secs = get_blocktype_secs conf (dirty_nodes conf);
          dent_secs = get_blocktype_secs conf (dirty_dents conf);
          imeta_secs = get_blocktype_secs conf (dirty_imeta conf)
      in if opt_lfs conf then False
         else if gc_urgent conf then True
         else free_sections (sm_free sm) \<le>
                int (node_secs + 2 * dent_secs + imeta_secs + min_ssr_sections conf + reserved_sections conf))"

definition allocate_segment_by_default :: "seg_conf \<Rightarrow> nat \<Rightarrow> bool \<Rightarrow> seg_mgr \<Rightarrow> seg_mgr option" where
  "allocate_segment_by_default conf t force sm =
     (if force then Some (new_curseg conf t True sm)
      else if \<not> crc_recovery conf \<and> t = CURSEG_WARM_NODE then Some (new_curseg conf t False sm)
      else if alloc_type (CURSEG_I sm t) = LFS \<and> is_next_segment_free conf sm t
      then Some (new_curseg conf t False sm)
      else if need_SSR conf sm then
        (case get_ssr_segment conf t sm of
           None \<Rightarrow> None
         | Some (sm, True) \<Rightarrow> Some (change_curseg conf t sm)
         | Some (sm, False) \<Rightarrow> Some (new_curseg conf t False sm))
      else Some (new_curseg conf t False sm))"

definition locate_dirty :: "seg_conf \<Rightarrow> nat \<Rightarrow> seg_mgr \<Rightarrow> seg_mgr" where
  "locate_dirty conf segno sm =
     put_dirty (locate_dirty_segment (sc_g conf) (curs sm) (sm_sit sm) segno (sm_dirty sm)) sm"

definition has_curseg_space :: "seg_conf \<Rightarrow> seg_mgr \<Rightarrow> nat \<Rightarrow> bool" where
  "has_curseg_space conf sm t \<longleftrightarrow> next_blkoff (CURSEG_I sm t) < blocks_per_seg (sc_g conf)"

definition NEXT_FREE_BLKADDR :: "seg_conf \<Rightarrow> curseg_info \<Rightarrow> nat" where
  "NEXT_FREE_BLKADDR conf c = START_BLOCK (sc_g conf) (cs_segno c) + next_blkoff c"

definition add_sum_entry :: "f2fs_summary \<Rightarrow> curseg_info \<Rightarrow> curseg_info" where
  "add_sum_entry sm_sum c = c\<lparr>sum_entries := (sum_entries c)[next_blkoff c := sm_sum]\<rparr>"

definition update_sit :: "seg_conf \<Rightarrow> u64 \<Rightarrow> nat \<Rightarrow> int \<Rightarrow> seg_mgr \<Rightarrow> seg_mgr" where
  "update_sit conf now blk del sm =
     put_sit (update_sit_entry (sc_g conf) (sc_discard_en conf) now blk del (sm_sit sm)) sm"

text \<open>
  The last result is the address of the log's next block, which a node page carries in its footer
  (\<^verbatim>\<open>fill_node_footer_blkaddr\<close>): roll-forward recovery follows it.
\<close>

definition allocate_data_block ::
  "seg_conf \<Rightarrow> u64 \<Rightarrow> nat \<Rightarrow> f2fs_summary \<Rightarrow> nat \<Rightarrow> seg_mgr \<Rightarrow> (seg_mgr \<times> nat \<times> nat option) option" where
  "allocate_data_block conf now old_blkaddr sm_sum t sm =
     (let g = sc_g conf; c = CURSEG_I sm t;
          new_blkaddr = NEXT_FREE_BLKADDR conf c;
          c = refresh_next_blkoff conf (sm_sit sm) (add_sum_entry sm_sum c);
          sm = put_curseg t c sm;
          sm = update_sit conf now new_blkaddr 1 sm;
          sm = (if GET_SEGNO g old_blkaddr \<noteq> NULL_SEGNO then update_sit conf now old_blkaddr (- 1) sm else sm)
      in case (if \<not> has_curseg_space conf sm t then allocate_segment_by_default conf t False sm else Some sm) of
           None \<Rightarrow> None
         | Some sm \<Rightarrow>
             let sm = locate_dirty conf (GET_SEGNO g old_blkaddr) sm;
                 sm = locate_dirty conf (GET_SEGNO g new_blkaddr) sm
             in Some (sm, new_blkaddr, if IS_NODESEG t then Some (NEXT_FREE_BLKADDR conf (CURSEG_I sm t)) else None))"

definition invalidate_blocks :: "seg_conf \<Rightarrow> u64 \<Rightarrow> nat \<Rightarrow> seg_mgr \<Rightarrow> seg_mgr" where
  "invalidate_blocks conf now addr sm =
     (let segno = GET_SEGNO (sc_g conf) addr;
          sm = (if addr = NULL_ADDR then sm\<lparr>sm_bug := True\<rparr> else sm)
      in if addr = NEW_ADDR then sm
         else locate_dirty conf segno (update_sit conf now addr (- 1) sm))"

text \<open>Closing the three data logs (\<^verbatim>\<open>allocate_new_segments\<close>).\<close>

fun new_segments_loop :: "seg_conf \<Rightarrow> nat list \<Rightarrow> seg_mgr \<Rightarrow> seg_mgr option" where
  "new_segments_loop conf [] sm = Some sm"
| "new_segments_loop conf (i # is) sm =
     (let old_segno = cs_segno (CURSEG_I sm i) in
      case allocate_segment_by_default conf i True sm of
        None \<Rightarrow> None
      | Some sm \<Rightarrow> new_segments_loop conf is (locate_dirty conf old_segno sm))"

definition allocate_new_segments :: "seg_conf \<Rightarrow> seg_mgr \<Rightarrow> seg_mgr option" where
  "allocate_new_segments conf sm = new_segments_loop conf [0, 1, 2] sm"

section \<open>Invariant\<close>

abbreviation block_used :: "sit_info \<Rightarrow> nat \<Rightarrow> nat \<Rightarrow> bool" where
  "block_used sit s i \<equiv> cur_bit sit s i \<or> ckpt_bit sit s i"

text \<open>
  The place a log writes next, if it has one, is unused: in a fresh segment with all places behind it,
  in a reused one by itself.
\<close>

definition log_ok :: "sit_info \<Rightarrow> curseg_info \<Rightarrow> bool" where
  "log_ok sit c \<longleftrightarrow>
     next_blkoff c \<le> 512 \<and>
     (alloc_type c = LFS \<longrightarrow> (\<forall>i. next_blkoff c \<le> i \<and> i < 512 \<longrightarrow> \<not> block_used sit (cs_segno c) i)) \<and>
     (alloc_type c = SSR \<longrightarrow> next_blkoff c < 512 \<longrightarrow> \<not> block_used sit (cs_segno c) (next_blkoff c))"

definition seg_inv :: "seg_conf \<Rightarrow> seg_mgr \<Rightarrow> bool" where
  "seg_inv conf sm \<longleftrightarrow>
     geom_ok (sc_g conf) \<and> log_blocks_per_seg (sc_g conf) = 9 \<and>
     sit_counts (sc_g conf) (sc_discard_en conf) (sm_sit sm) \<and> sit_keep (sc_g conf) (sm_sit sm) \<and>
     (\<forall>s < main_segs (sc_g conf). se_type (sentries (sm_sit sm) ! s) < 6) \<and>
     free_ok (sc_g conf) (sm_free sm) \<and> dirty_ok (sc_g conf) (sm_dirty sm) \<and> dirty_typed (sc_g conf) (sm_sit sm) (sm_dirty sm) \<and>
     (\<forall>s < main_segs (sc_g conf). \<not> test_bit s (free_segmap (sm_free sm)) \<longrightarrow>
        \<not> dirty_bit (sm_dirty sm) DIRTY s \<and> (\<forall>i < 512. \<not> block_used (sm_sit sm) s i)) \<and>
     length (sm_cur sm) = 6 \<and> distinct (curs sm) \<and>
     (\<forall>c \<in> set (sm_cur sm). cs_segno c < main_segs (sc_g conf) \<and> test_bit (cs_segno c) (free_segmap (sm_free sm)) \<and>
        log_ok (sm_sit sm) c) \<and>
     arr_get 0 (last_victim (sm_v sm)) 2 < main_segs (sc_g conf) \<and> \<not> sm_bug sm \<and> \<not> sit_bug (sm_sit sm)"

definition log_room :: "seg_mgr \<Rightarrow> nat \<Rightarrow> bool" where
  "log_room sm t \<longleftrightarrow> next_blkoff (CURSEG_I sm t) < 512"

lemma seg_invD:
  assumes "seg_inv conf sm"
  shows "geom_ok (sc_g conf)" "log_blocks_per_seg (sc_g conf) = 9" "blocks_per_seg (sc_g conf) = 512"
    "sit_counts (sc_g conf) (sc_discard_en conf) (sm_sit sm)" "sit_keep (sc_g conf) (sm_sit sm)"
    "\<And>s. s < main_segs (sc_g conf) \<Longrightarrow> se_type (sentries (sm_sit sm) ! s) < 6"
    "free_ok (sc_g conf) (sm_free sm)" "dirty_ok (sc_g conf) (sm_dirty sm)" "dirty_typed (sc_g conf) (sm_sit sm) (sm_dirty sm)"
    "\<And>s. s < main_segs (sc_g conf) \<Longrightarrow> \<not> test_bit s (free_segmap (sm_free sm)) \<Longrightarrow>
        \<not> dirty_bit (sm_dirty sm) DIRTY s \<and> (\<forall>i < 512. \<not> block_used (sm_sit sm) s i)"
    "length (sm_cur sm) = 6" "distinct (curs sm)"
    "\<And>t. t < 6 \<Longrightarrow> cs_segno (CURSEG_I sm t) < main_segs (sc_g conf) \<and>
        test_bit (cs_segno (CURSEG_I sm t)) (free_segmap (sm_free sm)) \<and> log_ok (sm_sit sm) (CURSEG_I sm t)"
    "length (sentries (sm_sit sm)) = main_segs (sc_g conf)"
    "arr_get 0 (last_victim (sm_v sm)) 2 < main_segs (sc_g conf)" "\<not> sm_bug sm" "\<not> sit_bug (sm_sit sm)"
  using assms unfolding seg_inv_def sit_counts_def CURSEG_I_def by (simp_all add: blocks_per_seg_def)

lemma put_curseg_simps [simp]:
  "sm_v (put_curseg t c sm) = sm_v sm" "sm_free (put_curseg t c sm) = sm_free sm"
  "sm_bug (put_curseg t c sm) = sm_bug sm" "sm_ssa (put_curseg t c sm) = sm_ssa sm"
  "sm_cur (put_curseg t c sm) = (sm_cur sm)[t := c]"
  by (simp_all add: put_curseg_def)

lemma put_sit_simps [simp]:
  "last_victim (sm_v (put_sit s sm)) = last_victim (sm_v sm)"
  "sm_sit (put_sit s sm) = s" "sm_dirty (put_sit s sm) = sm_dirty sm" "sm_free (put_sit s sm) = sm_free sm"
  "sm_bug (put_sit s sm) = sm_bug sm" "sm_cur (put_sit s sm) = sm_cur sm" "sm_ssa (put_sit s sm) = sm_ssa sm"
  by (simp_all add: put_sit_def)

lemma put_dirty_simps [simp]:
  "last_victim (sm_v (put_dirty d sm)) = last_victim (sm_v sm)"
  "sm_dirty (put_dirty d sm) = d" "sm_sit (put_dirty d sm) = sm_sit sm" "sm_free (put_dirty d sm) = sm_free sm"
  "sm_bug (put_dirty d sm) = sm_bug sm" "sm_cur (put_dirty d sm) = sm_cur sm" "sm_ssa (put_dirty d sm) = sm_ssa sm"
  by (simp_all add: put_dirty_def)

lemma CURSEG_I_put: "t < length (sm_cur sm) \<Longrightarrow> CURSEG_I (put_curseg t c sm) t' = (if t' = t then c else CURSEG_I sm t')"
  by (simp add: CURSEG_I_def arr_get_def nth_list_update)

lemma curs_same: "map cs_segno (sm_cur sm') = map cs_segno (sm_cur sm) \<Longrightarrow> curs sm' = curs sm"
  by (simp add: curs_def)

lemma curseg_inj:
  assumes "seg_inv conf sm" "t < 6" "t' < 6" "cs_segno (CURSEG_I sm t) = cs_segno (CURSEG_I sm t')"
  shows "t = t'"
proof -
  have len: "length (sm_cur sm) = 6" and d: "distinct (curs sm)" using seg_invD [OF assms(1)] by blast+
  have "curs sm ! t = curs sm ! t'" using assms(2-4) len by (simp add: curs_def CURSEG_I_def)
  moreover have "t < length (curs sm)" "t' < length (curs sm)" using assms(2,3) len by (simp_all add: curs_def)
  ultimately show ?thesis using nth_eq_iff_index_eq [OF d] by blast
qed

text \<open>The map the search for a free place looks at.\<close>

lemma rev_bit_or:
  assumes "length a = length b"
  shows "rev_bit (map2 (OR) a b) i \<longleftrightarrow> rev_bit a i \<or> rev_bit b i"
  using assms by (simp add: f2fs_test_bit_nonzero arr_get_def bit_or_iff)

lemma next_free_blkoff_free:
  fixes start :: nat
  assumes inv: "seg_inv conf sm" and s: "cs_segno c < main_segs (sc_g conf)"
  defines "c' \<equiv> next_free_blkoff conf (sm_sit sm) c start"
  shows "next_blkoff c' \<le> 512" "next_blkoff c' < 512 \<Longrightarrow> start \<le> next_blkoff c' \<and> \<not> block_used (sm_sit sm) (cs_segno c) (next_blkoff c')"
    "cs_segno c' = cs_segno c" "alloc_type c' = alloc_type c" "next_segno c' = next_segno c" "cs_zone c' = cs_zone c"
    "\<And>i. start \<le> i \<Longrightarrow> i < 512 \<Longrightarrow> \<not> block_used (sm_sit sm) (cs_segno c) i \<Longrightarrow> next_blkoff c' < 512"
proof -
  let ?se = "sentries (sm_sit sm) ! cs_segno c"
  note d = seg_invD [OF inv]
  have get: "get_seg_entry (sm_sit sm) (cs_segno c) = ?se" using s d(14) by (simp add: get_seg_entry_def)
  have "seg_counts ?se" using d(4) s by (simp add: sit_counts_def)
  then have len: "length (ckpt_valid_map ?se) = length (cur_valid_map ?se)" by (simp add: seg_counts_def seg_maps_def)
  let ?p = "\<lambda>i. \<not> (ckpt_bit (sm_sit sm) (cs_segno c) i \<or> cur_bit (sm_sit sm) (cs_segno c) i)"
  have nb: "next_blkoff c' = find_next_bit ?p 512 start"
    unfolding c'_def next_free_blkoff_def Let_def get find_rev_next_zero_bit_spec find_next_zero_bit_def d(3)
    using rev_bit_or [OF len] by simp
  show "next_blkoff c' \<le> 512" unfolding nb by (rule find_next_bit_le)
  show "next_blkoff c' < 512 \<Longrightarrow> start \<le> next_blkoff c' \<and> \<not> block_used (sm_sit sm) (cs_segno c) (next_blkoff c')"
    unfolding nb using find_next_bit_sound [of ?p 512 start] by blast
  show "cs_segno c' = cs_segno c" "alloc_type c' = alloc_type c" "next_segno c' = next_segno c" "cs_zone c' = cs_zone c"
    by (simp_all add: c'_def next_free_blkoff_def Let_def)
  fix i assume i: "start \<le> i" "i < 512" "\<not> block_used (sm_sit sm) (cs_segno c) i"
  then have "\<not> i < find_next_bit ?p 512 start" using find_next_bit_least [of start i ?p 512] by blast
  then show "next_blkoff c' < 512" using i(2) nb by simp
qed

section \<open>Updating blocks\<close>

lemma main_addr_at:
  assumes "geom_ok g" "s < main_segs g" "i < blocks_per_seg g"
  shows "main_addr g (START_BLOCK g s + i)"
proof -
  have "(s + start_segno g) * 2 ^ log_blocks_per_seg g + i < (s + 1 + start_segno g) * 2 ^ log_blocks_per_seg g"
    using assms(3) by (simp add: blocks_per_seg_def)
  also have "\<dots> \<le> (main_segs g + start_segno g) * 2 ^ log_blocks_per_seg g" using assms(2) by (intro mult_le_mono1) simp
  finally have up: "(s + start_segno g) * 2 ^ log_blocks_per_seg g + i < (main_segs g + start_segno g) * 2 ^ log_blocks_per_seg g" .
  have "start_segno g * 2 ^ log_blocks_per_seg g \<le> (s + start_segno g) * 2 ^ log_blocks_per_seg g"
    by (intro mult_le_mono1) simp
  then have "start_segno g * 2 ^ log_blocks_per_seg g \<le> (s + start_segno g) * 2 ^ log_blocks_per_seg g + i"
    by (rule trans_le_add1)
  then show ?thesis using up by (simp only: main_addr_def START_BLOCK_def) simp
qed

text \<open>
  An update at a place no log is about to write, in a segment that is in use, keeps the invariant; \<open>u\<close> says
  which way it goes.
\<close>

lemma update_sit_inv:
  assumes inv: "seg_inv conf sm" and s: "s < main_segs (sc_g conf)" "i < 512"
    and u: "cur_bit (sm_sit sm) s i \<longleftrightarrow> del = - 1" "del = 1 \<or> del = - 1"
    and inuse: "test_bit s (free_segmap (sm_free sm))"
    and logs: "del = 1 \<Longrightarrow> \<forall>c \<in> set (sm_cur sm). cs_segno c = s \<longrightarrow>
      (alloc_type c = LFS \<longrightarrow> i < next_blkoff c) \<and> (alloc_type c = SSR \<longrightarrow> i \<noteq> next_blkoff c)"
  shows "seg_inv conf (update_sit conf now (START_BLOCK (sc_g conf) s + i) del sm)"
    "\<And>s' i'. s' < main_segs (sc_g conf) \<Longrightarrow> cur_bit (sm_sit (update_sit conf now (START_BLOCK (sc_g conf) s + i) del sm)) s' i' =
       (if s' = s \<and> i' = i then del = 1 else cur_bit (sm_sit sm) s' i')"
    "\<And>s' i'. s' < main_segs (sc_g conf) \<Longrightarrow> ckpt_bit (sm_sit sm) s' i' \<Longrightarrow>
       ckpt_bit (sm_sit (update_sit conf now (START_BLOCK (sc_g conf) s + i) del sm)) s' i'"
proof -
  let ?g = "sc_g conf" and ?blk = "START_BLOCK (sc_g conf) s + i"
  let ?sit' = "sm_sit (update_sit conf now ?blk del sm)"
  note d = seg_invD [OF inv]
  have i': "i < blocks_per_seg ?g" using s(2) d(3) by simp
  note a = segno_of_block [OF d(1) s(1) i']
  have sit': "?sit' = update_sit_entry ?g (sc_discard_en conf) now ?blk del (sm_sit sm)" by (simp add: update_sit_def)
  have main: "main_addr ?g ?blk" by (rule main_addr_at [OF d(1) s(1) i'])
  have good: "cur_bit (sm_sit sm) (GET_SEGNO ?g ?blk) (GET_BLKOFF_FROM_SEG0 ?g ?blk) \<longleftrightarrow> del = - 1"
    unfolding a(1,2) by (rule u(1))
  note up = update_sit_entry_good [OF d(1,2,4,5) main u(2) good, where now = now, folded sit', unfolded a(1,2)]
  show cur: "cur_bit ?sit' s' i' = (if s' = s \<and> i' = i then del = 1 else cur_bit (sm_sit sm) s' i')"
    if "s' < main_segs ?g" for s' i' by (rule up(3) [OF that])
  show "ckpt_bit ?sit' s' i'" if "s' < main_segs ?g" "ckpt_bit (sm_sit sm) s' i'" for s' i' by (rule up(4) [OF that])
  have ckpt: "ckpt_bit ?sit' s' i' = ckpt_bit (sm_sit sm) s' i'" if "s' < main_segs ?g" "\<not> (s' = s \<and> i' = i)" for s' i'
    by (rule up(5) [OF that])
  have used: "\<not> block_used ?sit' s' i'" if "s' < main_segs ?g" "\<not> (s' = s \<and> i' = i \<and> del = 1)" "\<not> block_used (sm_sit sm) s' i'" for s' i'
  proof -
    have ne: "\<not> (s' = s \<and> i' = i)" using that(2,3) u by auto
    then have "cur_bit ?sit' s' i' = cur_bit (sm_sit sm) s' i'" using cur [OF that(1)] by (simp only: if_False)
    then show ?thesis using that(3) ckpt [OF that(1) ne] by blast
  qed
  have ety: "get_seg_entry ?sit' s' = sentries ?sit' ! s'" "get_seg_entry (sm_sit sm) s' = sentries (sm_sit sm) ! s'"
    if "s' < main_segs ?g" for s'
    using that up(8) d(14) by (simp_all add: get_seg_entry_def)
  have logs': "log_ok ?sit' c" if "c \<in> set (sm_cur sm)" for c
  proof -
    have c: "cs_segno c < main_segs ?g" "log_ok (sm_sit sm) c" using that inv by (auto simp: seg_inv_def)
    show ?thesis unfolding log_ok_def
    proof (intro conjI impI allI)
      show "next_blkoff c \<le> 512" using c(2) by (simp add: log_ok_def)
      fix k assume k: "alloc_type c = LFS" "next_blkoff c \<le> k \<and> k < 512"
      have "\<not> (cs_segno c = s \<and> k = i \<and> del = 1)" using logs that k not_le by blast
      then show "\<not> block_used ?sit' (cs_segno c) k"
        by (rule used [OF c(1)]) (use k c(2) in \<open>auto simp: log_ok_def\<close>)
    next
      assume k: "alloc_type c = SSR" "next_blkoff c < 512"
      show "\<not> block_used ?sit' (cs_segno c) (next_blkoff c)"
        by (rule used [OF c(1)]) (use k c(2) logs that in \<open>auto simp: log_ok_def\<close>)
    qed
  qed
  have dt: "dirty_typed ?g ?sit' (sm_dirty sm)"
    using d(9) up(6) ety by (simp add: dirty_typed_def)
  have free: "\<not> dirty_bit (sm_dirty sm) DIRTY s' \<and> (\<forall>i < 512. \<not> block_used ?sit' s' i)"
    if "s' < main_segs ?g" "\<not> test_bit s' (free_segmap (sm_free sm))" for s'
  proof -
    have "s' \<noteq> s" using that(2) inuse by blast
    then show ?thesis using d(10) [OF that] used [OF that(1)] by blast
  qed
  have cnt: "sit_counts ?g (sc_discard_en conf) ?sit'"
    unfolding sit' by (rule update_sit_entry_counts [OF d(1,2,4) main u(2)])
  have fr: "sm_dirty (update_sit conf now ?blk del sm) = sm_dirty sm" "sm_free (update_sit conf now ?blk del sm) = sm_free sm"
    "sm_cur (update_sit conf now ?blk del sm) = sm_cur sm" "sm_bug (update_sit conf now ?blk del sm) = sm_bug sm"
    "last_victim (sm_v (update_sit conf now ?blk del sm)) = last_victim (sm_v sm)"
    by (simp_all add: update_sit_def)
  have cu: "curs (update_sit conf now ?blk del sm) = curs sm" by (rule curs_same) (simp add: fr)
  have ty: "\<forall>s < main_segs ?g. se_type (sentries ?sit' ! s) < 6" using up(6) d(6) by simp
  have sb: "\<not> sit_bug ?sit'" using inv up(2) by (simp add: seg_inv_def)
  show "seg_inv conf (update_sit conf now ?blk del sm)"
    using inv cnt up(1) ty dt free logs' sb unfolding seg_inv_def fr cu by blast
qed

section \<open>Moving a log keeps the invariant\<close>

lemma put_curseg_inv:
  assumes inv: "seg_inv conf sm" and t: "t < 6" and c: "cs_segno c < main_segs (sc_g conf)"
    "test_bit (cs_segno c) (free_segmap (sm_free sm))" "log_ok (sm_sit sm) c"
    "cs_segno c \<notin> set (curs sm) - {cs_segno (CURSEG_I sm t)}"
  shows "seg_inv conf (put_curseg t c sm)"
proof -
  note d = seg_invD [OF inv]
  have cu: "curs (put_curseg t c sm) = (curs sm)[t := cs_segno c]" by (simp add: curs_def map_update)
  have nth: "curs sm ! t = cs_segno (CURSEG_I sm t)" using t d(11) by (simp add: curs_def CURSEG_I_def)
  have dist: "distinct (curs (put_curseg t c sm))"
    unfolding cu using distinct_list_update [OF d(12)] c(4) nth by simp
  have "\<forall>c' \<in> set ((sm_cur sm)[t := c]). cs_segno c' < main_segs (sc_g conf) \<and>
      test_bit (cs_segno c') (free_segmap (sm_free sm)) \<and> log_ok (sm_sit sm) c'"
    using inv c set_update_subset_insert [of "sm_cur sm" t c] unfolding seg_inv_def by blast
  then show ?thesis using inv dist unfolding seg_inv_def put_curseg_simps length_list_update by blast
qed

lemma set_type_sit:
  fixes ty :: nat
  assumes "sit_counts g de sit" "sit_keep g sit" "s < main_segs g"
  defines "sit' \<equiv> set_sit_entry_type ty s True sit"
  shows "sit_counts g de sit'" "sit_keep g sit'" "sit_bug sit' = sit_bug sit"
    "\<And>x i. x < main_segs g \<Longrightarrow> cur_bit sit' x i = cur_bit sit x i"
    "\<And>x i. x < main_segs g \<Longrightarrow> ckpt_bit sit' x i = ckpt_bit sit x i"
    "\<And>x. x < main_segs g \<Longrightarrow> se_type (sentries sit' ! x) = (if x = s then ty else se_type (sentries sit ! x))"
    "length (sentries sit') = main_segs g"
proof -
  let ?e = "(sentries sit ! s)\<lparr>se_type := ty\<rparr>" and ?put = "put_seg_entry s ((sentries sit ! s)\<lparr>se_type := ty\<rparr>) sit"
  have len: "length (sentries sit) = main_segs g" using assms(1) by (simp add: sit_counts_def)
  have sit': "sit' = fst (mark_sit_entry_dirty s ?put)"
    using assms(3) len by (simp add: sit'_def set_sit_entry_type_def get_seg_entry_def)
  have se: "sentries sit' ! x = (if x = s then ?e else sentries sit ! x)" if "x < main_segs g" for x
    using that len by (simp add: sit')
  have md: "dirty_sentries sit' = int (used (dirty_sentries_bitmap sit'))" "length (dirty_sentries_bitmap sit') = main_segs g"
    using mark_dirty_count [of s ?put] assms(1,3) by (simp_all add: sit' sit_counts_def)
  have f: "sec_entries sit' = sec_entries sit" "written_valid_blocks sit' = written_valid_blocks sit" "discard_blks sit' = discard_blks sit"
    by (simp_all add: sit')
  show len': "length (sentries sit') = main_segs g" by (simp add: sit' len)
  have vb: "vb sit' x = vb sit x" for x
    using assms(3) len by (cases "x = s") (simp_all add: vb_def sit')
  have sc: "seg_counts (sentries sit' ! x)" if "x < main_segs g" for x
    using that assms(1) se [OF that] by (simp add: sit_counts_def seg_counts_def seg_maps_def)
  have dm: "(\<Sum>x < main_segs g. 512 - int (map_count (discard_map (sentries sit' ! x)))) =
      (\<Sum>x < main_segs g. 512 - int (map_count (discard_map (sentries sit ! x))))"
    by (rule sum.cong) (simp_all add: se)
  show "sit_counts g de sit'"
    using assms(1) sc unfolding sit_counts_def len' f md vb dm by simp
  show "sit_keep g sit'" using assms(2) se by (simp add: sit_keep_def seg_keep_def keep_count_def)
  show "sit_bug sit' = sit_bug sit" by (simp add: sit')
  show "cur_bit sit' x i = cur_bit sit x i" "ckpt_bit sit' x i = ckpt_bit sit x i"
    "se_type (sentries sit' ! x) = (if x = s then ty else se_type (sentries sit ! x))" if "x < main_segs g" for x i
    using se [OF that] by simp_all
qed

text \<open>The effect of opening segment \<open>s\<close> for log \<open>t\<close>, shared by \<^verbatim>\<open>new_curseg\<close> and \<^verbatim>\<open>change_curseg\<close>.\<close>

definition log_moved :: "seg_conf \<Rightarrow> nat \<Rightarrow> seg_mgr \<Rightarrow> seg_mgr \<Rightarrow> bool" where
  "log_moved conf t sm sm' \<longleftrightarrow>
     seg_inv conf sm' \<and> log_room sm' t \<and> (\<forall>t' < 6. t' \<noteq> t \<longrightarrow> CURSEG_I sm' t' = CURSEG_I sm t') \<and>
     (\<forall>s < main_segs (sc_g conf). \<forall>i. cur_bit (sm_sit sm') s i = cur_bit (sm_sit sm) s i \<and>
        ckpt_bit (sm_sit sm') s i = ckpt_bit (sm_sit sm) s i) \<and>
     (\<forall>s < main_segs (sc_g conf). test_bit s (free_segmap (sm_free sm)) \<longrightarrow> test_bit s (free_segmap (sm_free sm')))"

lemma log_ok_bits:
  "log_ok sit c \<Longrightarrow> (\<And>i. block_used sit' (cs_segno c) i = block_used sit (cs_segno c) i) \<Longrightarrow> log_ok sit' c"
  unfolding log_ok_def by blast

lemma log_move:
  assumes inv: "seg_inv conf sm" and t: "t < 6" and s: "s < main_segs (sc_g conf)" "s \<notin> set (curs sm)"
    and fi: "free_ok (sc_g conf) (sm_free sm')" "free_segmap (sm_free sm') = (free_segmap (sm_free sm))[s := True]"
    and d: "dirty_ok (sc_g conf) (sm_dirty sm')"
      "\<And>t x. x \<noteq> s \<Longrightarrow> t < 7 \<Longrightarrow> dirty_bit (sm_dirty sm') t x = dirty_bit (sm_dirty sm) t x" "\<And>t. t < 7 \<Longrightarrow> \<not> dirty_bit (sm_dirty sm') t s"
    and sit: "sm_sit sm' = set_sit_entry_type t s True (sm_sit sm)"
    and cur: "sm_cur sm' = (sm_cur sm)[t := c]" "cs_segno c = s" "log_ok (sm_sit sm) c" "next_blkoff c < 512"
    and rest: "sm_bug sm' = sm_bug sm" "arr_get 0 (last_victim (sm_v sm')) 2 = arr_get 0 (last_victim (sm_v sm)) 2"
  shows "log_moved conf t sm sm'"
proof -
  note i = seg_invD [OF inv]
  note ty = set_type_sit [OF i(4,5) s(1), where ty = t, folded sit]
  have sl: "s < length (free_segmap (sm_free sm))" using s(1) i(7) by (simp add: free_ok_def)
  have tst: "test_bit x (free_segmap (sm_free sm')) = (x = s \<or> test_bit x (free_segmap (sm_free sm)))" for x
    unfolding fi(2) using kb.tst_put [OF sl, of x] by simp
  have used: "block_used (sm_sit sm') x k = block_used (sm_sit sm) x k" if "x < main_segs (sc_g conf)" for x k
    using ty(4,5) [OF that] by simp
  have cu: "curs sm' = (curs sm)[t := s]" by (simp add: curs_def cur map_update)
  have dist: "distinct (curs sm')" unfolding cu using distinct_list_update [OF i(12)] s(2) by simp
  have logs: "cs_segno c' < main_segs (sc_g conf) \<and> test_bit (cs_segno c') (free_segmap (sm_free sm')) \<and> log_ok (sm_sit sm') c'"
    if "c' \<in> set (sm_cur sm')" for c'
  proof -
    have "c' = c \<or> c' \<in> set (sm_cur sm)" using that set_update_subset_insert [of "sm_cur sm" t c] unfolding cur by blast
    then have *: "cs_segno c' < main_segs (sc_g conf)" "test_bit (cs_segno c') (free_segmap (sm_free sm'))" "log_ok (sm_sit sm) c'"
      using inv s(1) cur(2,3) tst unfolding seg_inv_def by blast+
    then show ?thesis using log_ok_bits [OF *(3), of "sm_sit sm'"] used by blast
  qed
  have get: "se_type (get_seg_entry (sm_sit sm') x) = (if x = s then t else se_type (get_seg_entry (sm_sit sm) x))"
    if "x < main_segs (sc_g conf)" for x
    using that ty(6,7) i(14) by (simp add: get_seg_entry_def)
  have dt: "dirty_typed (sc_g conf) (sm_sit sm') (sm_dirty sm')"
    unfolding dirty_typed_def
  proof (intro allI impI)
    fix x assume x: "x < main_segs (sc_g conf)"
    show "(dirty_bit (sm_dirty sm') DIRTY x \<longrightarrow> se_type (get_seg_entry (sm_sit sm') x) < 6) \<and>
      (\<forall>t<6. dirty_bit (sm_dirty sm') t x = (dirty_bit (sm_dirty sm') DIRTY x \<and> t = se_type (get_seg_entry (sm_sit sm') x)))"
      using d(2,3) i(9) x get [OF x] unfolding dirty_typed_def by (cases "x = s") (simp_all add: DIRTY_def)
  qed
  have free: "\<not> dirty_bit (sm_dirty sm') DIRTY x \<and> (\<forall>i < 512. \<not> block_used (sm_sit sm') x i)"
    if "x < main_segs (sc_g conf)" "\<not> test_bit x (free_segmap (sm_free sm'))" for x
  proof -
    have x: "x \<noteq> s" "\<not> test_bit x (free_segmap (sm_free sm))" using that(2) tst by blast+
    then show ?thesis using i(10) [OF that(1) x(2)] used [OF that(1)] d(2) [OF x(1), of DIRTY] by (auto simp: DIRTY_def)
  qed
  have types: "\<forall>x < main_segs (sc_g conf). se_type (sentries (sm_sit sm') ! x) < 6" using ty(6) i(6) t by simp
  have len: "length (sm_cur sm') = 6" using i(11) by (simp add: cur)
  have "seg_inv conf sm'"
    using i(1,2) ty(1,2,3) types fi(1) d(1) dt free len dist logs i(15-17) rest
    unfolding seg_inv_def by simp
  moreover have "CURSEG_I sm' t = c" "\<forall>t' < 6. t' \<noteq> t \<longrightarrow> CURSEG_I sm' t' = CURSEG_I sm t'"
    using t i(11) by (simp_all add: CURSEG_I_def arr_get_def cur)
  ultimately show ?thesis using ty(4,5) tst cur(4) by (simp add: log_moved_def log_room_def)
qed

lemma write_sum_simps [simp]:
  "sm_v (write_sum_page t sm) = sm_v sm" "sm_free (write_sum_page t sm) = sm_free sm" "sm_cur (write_sum_page t sm) = sm_cur sm"
  "sm_bug (write_sum_page t sm) = sm_bug sm" "CURSEG_I (write_sum_page t sm) t' = CURSEG_I sm t'"
  by (simp_all add: write_sum_page_def CURSEG_I_def)

lemma CURSEG_I_cong: "sm_cur sm' = sm_cur sm \<Longrightarrow> CURSEG_I sm' t = CURSEG_I sm t"
  by (simp add: CURSEG_I_def)

lemma new_curseg_moved:
  assumes inv: "seg_inv conf sm" and t: "t < 6" and free: "0 < free_sections (sm_free sm)"
  shows "log_moved conf t sm (new_curseg conf t new_sec sm)"
proof -
  let ?g = "sc_g conf"
  note i = seg_invD [OF inv]
  define hint where "hint = get_next_segno conf (write_sum_page t sm) t"
  define dir where "dir = (if t = CURSEG_WARM_DATA \<or> t = CURSEG_COLD_DATA \<or> opt_noheap conf then ALLOC_RIGHT else ALLOC_LEFT)"
  have h: "hint < main_segs ?g" using i(13) [OF t] i(15) by (auto simp: hint_def get_next_segno_def)
  obtain fi s b where new: "get_new_segment ?g (map cs_zone (sm_cur sm)) (sm_free sm) hint new_sec dir = (fi, s, b)"
    by (metis prod_cases3)
  have s: "s < main_segs ?g" "\<not> test_bit s (free_segmap (sm_free sm))" "\<not> b" "fi = set_inuse ?g s (sm_free sm)"
    using new_segment_free [OF i(1,7) h free new] by blast+
  note fo = set_inuse_ok [OF i(1,7) s(1,2), folded s(4)]
  define c where "c = (CURSEG_I sm t)\<lparr>cs_segno := s, cs_zone := GET_ZONE_FROM_SEG ?g s, next_blkoff := 0, next_segno := NULL_SEGNO,
      sum_type := (if IS_NODESEG t then 1 else 0), alloc_type := LFS\<rparr>"
  let ?sm' = "new_curseg conf t new_sec sm"
  have tl: "t < length (sm_cur sm)" using t i(11) by simp
  have eq: "sm_free ?sm' = fi" "sm_dirty ?sm' = sm_dirty sm" "sm_sit ?sm' = set_sit_entry_type t s True (sm_sit sm)"
    "sm_cur ?sm' = (sm_cur sm)[t := c]" "sm_bug ?sm' = sm_bug sm" "last_victim (sm_v ?sm') = last_victim (sm_v sm)"
    using tl s(3) new unfolding hint_def dir_def
    by (simp_all add: new_curseg_def Let_def reset_curseg_def c_def CURSEG_I_def arr_get_def put_curseg_def put_sit_def)
  have cur: "s \<notin> set (curs sm)" using s(2) inv by (auto simp: seg_inv_def curs_def)
  have nodirty: "\<not> dirty_bit (sm_dirty sm) k s" if "k < 7" for k
  proof (cases "k = 6")
    case True
    then show ?thesis using i(10) [OF s(1,2)] by (simp add: DIRTY_def)
  next
    case False
    then show ?thesis using that i(9) s(1) i(10) [OF s(1,2)] by (simp add: dirty_typed_def)
  qed
  have log: "log_ok (sm_sit sm) c" using i(10) [OF s(1,2)] by (simp add: log_ok_def c_def)
  show ?thesis
    by (rule log_move [OF inv t s(1) cur, where c = c]) (use eq fo i(8) nodirty log in \<open>simp_all add: c_def\<close>)
qed

lemma keep_count_room:
  assumes "keep_count se < 512"
  shows "\<exists>i < 512. \<not> (rev_bit (cur_valid_map se) i \<or> rev_bit (ckpt_valid_map se) i)"
proof (rule ccontr)
  assume "\<not> ?thesis"
  then have "keep_count se = bit_count (\<lambda>_. True) 512" by (intro keep_count_cong) blast
  then show False using assms by (simp add: bit_count_card)
qed

lemma change_curseg_moved:
  assumes inv: "seg_inv conf sm" and t: "t < 6" and ns: "next_segno (CURSEG_I sm t) = s" "s < main_segs (sc_g conf)" "s \<notin> set (curs sm)"
    and room: "ckpt_valid_blocks (sentries (sm_sit sm) ! s) < 512"
  shows "log_moved conf t sm (change_curseg conf t sm)"
proof -
  let ?g = "sc_g conf"
  note i = seg_invD [OF inv]
  have tl: "t < length (sm_cur sm)" using t i(11) by simp
  define d1 where "d1 = remove_dirty_type ?g (sm_sit sm) s PRE (sm_dirty sm)"
  define d2 where "d2 = remove_dirty_type ?g (sm_sit sm) s DIRTY d1"
  have sty: "se_type (get_seg_entry (sm_sit sm) s) < 6" using i(6) ns(2) i(14) by (simp add: get_seg_entry_def)
  have P: "PRE < 8" "DIRTY < 8" by (simp_all add: PRE_def DIRTY_def)
  note r1 = remove_dirty_type_ok [OF i(8) ns(2) P(1) sty, folded d1_def]
  note r2 = remove_dirty_type_ok [OF r1(1) ns(2) P(2) sty, folded d2_def]
  have other: "dirty_bit d2 k x = dirty_bit (sm_dirty sm) k x" if "x \<noteq> s" for k x using that r1(2) r2(2) by simp
  have gone: "\<not> dirty_bit d2 k s" if "k < 7" for k
  proof (cases "k = 6")
    case False
    then have "k < 6" using that by simp
    then have "dirty_bit (sm_dirty sm) k s \<Longrightarrow> k = se_type (get_seg_entry (sm_sit sm) s)" using i(9) ns(2) by (simp add: dirty_typed_def)
    then show ?thesis using r1(2) r2(2) by blast
  qed (use r2(2) in \<open>simp add: DIRTY_def\<close>)
  let ?fi = "set_test_and_inuse ?g s (sm_free sm)"
  note fo = set_test_and_inuse_ok [OF i(1,7) ns(2)]
  define sit where "sit = set_sit_entry_type t s True (sm_sit sm)"
  note ty = set_type_sit [OF i(4,5) ns(2), where ty = t, folded sit_def]
  define c0 where "c0 = (CURSEG_I sm t)\<lparr>cs_segno := s, cs_zone := GET_ZONE_FROM_SEG ?g s, next_blkoff := 0, next_segno := NULL_SEGNO,
      sum_type := (if IS_NODESEG t then 1 else 0), alloc_type := SSR\<rparr>"
  define c where "c = (next_free_blkoff conf sit c0 0)\<lparr>sum_entries := sm_ssa (write_sum_page t sm) s\<rparr>"
  let ?sm' = "change_curseg conf t sm"
  have eq: "sm_free ?sm' = ?fi" "sm_dirty ?sm' = d2" "sm_sit ?sm' = sit"
    "sm_cur ?sm' = (sm_cur sm)[t := c]" "sm_bug ?sm' = sm_bug sm" "last_victim (sm_v ?sm') = last_victim (sm_v sm)"
    using tl ns(1)
    by (simp_all add: change_curseg_def Let_def reset_curseg_def c_def c0_def d1_def d2_def sit_def CURSEG_I_def arr_get_def put_curseg_def
        put_sit_def put_dirty_def write_sum_page_def)
  have len: "length (sentries sit) = length (sentries (sm_sit sm))" using ty(7) i(14) by simp
  have maps: "cur_valid_map (sentries sit ! s) = cur_valid_map (sentries (sm_sit sm) ! s)"
    "ckpt_valid_map (sentries sit ! s) = ckpt_valid_map (sentries (sm_sit sm) ! s)"
    using ns(2) i(14) by (simp_all add: sit_def set_sit_entry_type_def get_seg_entry_def)
  have nf: "next_free_blkoff conf sit c0 0 = next_free_blkoff conf (sm_sit sm) c0 0"
    using maps len ns(2) i(14) by (simp add: next_free_blkoff_def get_seg_entry_def c0_def Let_def)
  have c0s: "cs_segno c0 = s" "alloc_type c0 = SSR" by (simp_all add: c0_def)
  note free = next_free_blkoff_free [OF inv, where c = c0 and start = 0, unfolded c0s, OF ns(2), folded nf]
  have "keep_count (sentries (sm_sit sm) ! s) < 512" using room i(5) ns(2) by (simp add: sit_keep_def seg_keep_def)
  then obtain k where "k < 512" "\<not> block_used (sm_sit sm) s k" using keep_count_room by blast
  then have nb: "next_blkoff c < 512" using free(7) [of k] by (simp add: c_def)
  have log: "log_ok (sm_sit sm) c" using nb free by (simp add: log_ok_def c_def)
  have cs: "cs_segno c = s" using free(3) by (simp add: c_def)
  show ?thesis
    by (rule log_move [OF inv t ns(2,3), where c = c]) (use eq fo r2(1) other gone log cs nb in \<open>simp_all add: sit_def\<close>)
qed

section \<open>Allocating a segment\<close>

text \<open>A search for a segment to reuse changes only the search positions and the log's next segment.\<close>

definition ssr_found :: "seg_conf \<Rightarrow> nat \<Rightarrow> seg_mgr \<Rightarrow> seg_mgr \<Rightarrow> bool \<Rightarrow> bool" where
  "ssr_found conf t sm sm' found \<longleftrightarrow>
     seg_inv conf sm' \<and> sm_sit sm' = sm_sit sm \<and> sm_free sm' = sm_free sm \<and> sm_dirty sm' = sm_dirty sm \<and>
     (\<forall>t'. t' \<noteq> t \<longrightarrow> CURSEG_I sm' t' = CURSEG_I sm t') \<and>
     (found \<longrightarrow> next_segno (CURSEG_I sm' t) < main_segs (sc_g conf) \<and> next_segno (CURSEG_I sm' t) \<notin> set (curs sm') \<and>
        ckpt_valid_blocks (sentries (sm_sit sm') ! next_segno (CURSEG_I sm' t)) < 512)"

lemma set_v_inv:
  assumes "seg_inv conf sm" "v_sit v = sm_sit sm" "v_dirty v = sm_dirty sm"
    "arr_get 0 (last_victim v) 2 = arr_get 0 (last_victim (sm_v sm)) 2"
  shows "seg_inv conf (sm\<lparr>sm_v := v\<rparr>)" "curs (sm\<lparr>sm_v := v\<rparr>) = curs sm" "CURSEG_I (sm\<lparr>sm_v := v\<rparr>) k = CURSEG_I sm k"
  using assms by (simp_all add: seg_inv_def curs_def CURSEG_I_def)

lemma ssr_victim_ok:
  assumes inv: "seg_inv conf sm" and vic: "vic_good (vic_env_of conf sm) BG_GC SSR i (sm_v sm) s"
  shows "s < main_segs (sc_g conf)" "s \<notin> set (curs sm)" "ckpt_valid_blocks (sentries (sm_sit sm) ! s) < 512"
proof -
  note d = seg_invD [OF inv]
  show s: "s < main_segs (sc_g conf)" using vic by (simp add: vic_good_def vic_env_of_def)
  have "\<not> IS_CURSEC (vic_env_of conf sm) (GET_SEC_FROM_SEG (sc_g conf) s)"
    using vic by (simp add: vic_good_def sec_usage_check_def vic_env_of_def)
  then show "s \<notin> set (curs sm)" by (auto simp: IS_CURSEC_def vic_env_of_def GET_SEC_FROM_SEG_def)
  have "seg_keep (sentries (sm_sit sm) ! s)" using d(5) s by (simp add: sit_keep_def)
  then show "ckpt_valid_blocks (sentries (sm_sit sm) ! s) < 512"
    using vic d(3,14) s by (simp add: vic_good_def vic_env_of_def seg_keep_def get_seg_entry_def)
qed

lemma ssr_try_ok:
  assumes "seg_inv conf sm" "t < 6" "\<forall>i \<in> set is. i < 8"
  shows "\<exists>sm' found. ssr_try conf t is sm = Some (sm', found) \<and> ssr_found conf t sm sm' found"
  using assms
proof (induction "is" arbitrary: sm)
  case Nil
  then show ?case by (auto simp: ssr_found_def)
next
  case (Cons i "is")
  let ?e = "vic_env_of conf sm"
  have e: "ve_g ?e = sc_g conf" by (simp add: vic_env_of_def)
  note d = seg_invD [OF Cons.prems(1)]
  show ?case
  proof (rule get_victim_good [of ?e "sm_v sm" i BG_GC SSR])
    show "geom_ok (ve_g ?e)" "dirty_ok (ve_g ?e) (sm_dirty sm)" "i < 8" using d(1,8) e Cons.prems(3) by simp_all
    fix v r
    assume v: "get_victim_by_default ?e (sm_v sm) NULL_SEGNO BG_GC i SSR = Some (v, r)"
      and g: "\<And>s. r = Some s \<Longrightarrow> SSR = SSR \<Longrightarrow> vic_good ?e BG_GC SSR i (sm_v sm) s"
      and f: "SSR = SSR \<Longrightarrow> v_dirty v = sm_dirty sm \<and> v_sit v = sm_sit sm \<and> cur_victim_sec v = cur_victim_sec (sm_v sm) \<and>
        arr_get 0 (last_victim v) 2 = arr_get 0 (last_victim (sm_v sm)) 2"
    have f': "v_sit v = sm_sit sm" "v_dirty v = sm_dirty sm" "arr_get 0 (last_victim v) 2 = arr_get 0 (last_victim (sm_v sm)) 2"
      using f [OF refl] by blast+
    note inv = set_v_inv [OF Cons.prems(1) f']
    show ?thesis
    proof (cases r)
      case None
      obtain sm' found where "ssr_try conf t is (sm\<lparr>sm_v := v\<rparr>) = Some (sm', found)" "ssr_found conf t (sm\<lparr>sm_v := v\<rparr>) sm' found"
        using Cons.IH [OF inv(1) Cons.prems(2)] Cons.prems(3) by auto
      then show ?thesis using v None f' by (auto simp: ssr_found_def inv(3))
    next
      case (Some s)
      note s = ssr_victim_ok [OF Cons.prems(1) g [OF Some refl]]
      define c where "c = (CURSEG_I sm t)\<lparr>next_segno := s\<rparr>"
      have tl: "t < length (sm_cur (sm\<lparr>sm_v := v\<rparr>))" using Cons.prems(2) d(11) by simp
      have cs: "cs_segno c = cs_segno (CURSEG_I sm t)" "log_ok (sm_sit sm) c"
        using d(13) [OF Cons.prems(2)] by (simp_all add: c_def log_ok_def)
      have new: "seg_inv conf (put_curseg t c (sm\<lparr>sm_v := v\<rparr>))"
        using put_curseg_inv [OF inv(1) Cons.prems(2), of c] d(13) [OF Cons.prems(2)] cs f'(1) by (simp add: inv(3))
      have cu: "curs (put_curseg t c (sm\<lparr>sm_v := v\<rparr>)) = curs sm"
        using tl cs(1) by (simp add: curs_def map_update CURSEG_I_def list_update_same_conv)
      have "ssr_found conf t sm (put_curseg t c (sm\<lparr>sm_v := v\<rparr>)) True"
        using new s f' cu CURSEG_I_put [OF tl, of c] by (simp add: ssr_found_def inv(3) c_def)
      then show ?thesis using v Some by (auto simp: c_def inv(3) Let_def)
    qed
  qed
qed

lemma allocate_segment_moved:
  assumes inv: "seg_inv conf sm" and t: "t < 6" and free: "0 < free_sections (sm_free sm)"
  shows "\<exists>sm'. allocate_segment_by_default conf t force sm = Some sm' \<and> log_moved conf t sm sm'"
proof -
  have "\<forall>i \<in> set (t # ssr_order t). i < 8" using t by (auto simp: ssr_order_def)
  from ssr_try_ok [OF inv t this] obtain sm1 found
    where ssr: "get_ssr_segment conf t sm = Some (sm1, found)" "ssr_found conf t sm sm1 found"
    unfolding get_ssr_segment_def by blast
  have same: "log_moved conf t sm1 sm' \<Longrightarrow> log_moved conf t sm sm'" for sm'
    using ssr(2) by (simp add: log_moved_def ssr_found_def)
  have ch: "log_moved conf t sm1 (change_curseg conf t sm1)" if found
    using change_curseg_moved [of conf sm1 t, OF _ t refl] ssr(2) that unfolding ssr_found_def by blast
  have nw: "log_moved conf t sm1 (new_curseg conf t False sm1)"
    using new_curseg_moved [of conf sm1 t, OF _ t] ssr(2) free by (simp add: ssr_found_def)
  show ?thesis
    using new_curseg_moved [OF inv t free] same ch nw ssr(1)
    by (cases found) (auto simp: allocate_segment_by_default_def)
qed

section \<open>Allocating a block\<close>

lemma locate_dirty_inv:
  assumes inv: "seg_inv conf sm" and s: "s = NULL_SEGNO \<or> s < main_segs (sc_g conf) \<and> test_bit s (free_segmap (sm_free sm))"
  shows "seg_inv conf (locate_dirty conf s sm)" "sm_sit (locate_dirty conf s sm) = sm_sit sm"
    "CURSEG_I (locate_dirty conf s sm) t = CURSEG_I sm t" "sm_free (locate_dirty conf s sm) = sm_free sm"
proof -
  let ?g = "sc_g conf" and ?d = "locate_dirty_segment (sc_g conf) (curs sm) (sm_sit sm) s (sm_dirty sm)"
  note i = seg_invD [OF inv]
  have ty: "s < main_segs ?g \<Longrightarrow> se_type (get_seg_entry (sm_sit sm) s) < 6" using i(6,14) by (simp add: get_seg_entry_def)
  have s': "s = NULL_SEGNO \<or> s < main_segs ?g" using s by blast
  note l = locate_dirty_segment_typed [OF i(8,9) s' ty, of "curs sm"]
  have free: "\<not> dirty_bit ?d DIRTY x" if "x < main_segs ?g" "\<not> test_bit x (free_segmap (sm_free sm))" for x
  proof (cases "s = NULL_SEGNO \<or> s \<in> set (curs sm)")
    case True
    then show ?thesis using i(10) [OF that] by (simp add: locate_dirty_segment_id)
  next
    case False
    then have *: "s < main_segs ?g" "s \<notin> set (curs sm)" "s \<noteq> NULL_SEGNO" "x \<noteq> s" using s that(2) by auto
    show ?thesis using locate_dirty_segment_bits(2) [OF i(8) *(1-3) ty [OF *(1)], of DIRTY x] *(4) i(10) [OF that] by simp
  qed
  show "seg_inv conf (locate_dirty conf s sm)"
    using inv l s free unfolding seg_inv_def locate_dirty_def put_dirty_simps by (simp add: curs_def)
  show "sm_sit (locate_dirty conf s sm) = sm_sit sm" "CURSEG_I (locate_dirty conf s sm) t = CURSEG_I sm t"
    "sm_free (locate_dirty conf s sm) = sm_free sm"
    by (simp_all add: locate_dirty_def CURSEG_I_def)
qed

text \<open>Advancing the log past the place it hands out.\<close>

lemma advance_log:
  fixes sm_sum :: f2fs_summary
  assumes inv: "seg_inv conf sm" and t: "t < 6" and room: "log_room sm t"
  defines "c1 \<equiv> refresh_next_blkoff conf (sm_sit sm) (add_sum_entry sm_sum (CURSEG_I sm t))"
  shows "seg_inv conf (put_curseg t c1 sm)" "cs_segno c1 = cs_segno (CURSEG_I sm t)"
    "alloc_type c1 = LFS \<Longrightarrow> next_blkoff (CURSEG_I sm t) < next_blkoff c1" "next_blkoff (CURSEG_I sm t) \<noteq> next_blkoff c1"
    "\<not> block_used (sm_sit sm) (cs_segno (CURSEG_I sm t)) (next_blkoff (CURSEG_I sm t))"
proof -
  let ?c = "CURSEG_I sm t" and ?a = "add_sum_entry sm_sum (CURSEG_I sm t)"
  note i = seg_invD [OF inv]
  have c: "cs_segno ?c < main_segs (sc_g conf)" "test_bit (cs_segno ?c) (free_segmap (sm_free sm))" "log_ok (sm_sit sm) ?c"
    "next_blkoff ?c < 512" using i(13) [OF t] room by (simp_all add: log_room_def)
  have a: "cs_segno ?a = cs_segno ?c" "next_blkoff ?a = next_blkoff ?c" "alloc_type ?a = alloc_type ?c"
    by (simp_all add: add_sum_entry_def)
  note nf = next_free_blkoff_free [OF inv, where c = ?a and start = "next_blkoff ?c + 1", unfolded a, OF c(1)]
  show cs: "cs_segno c1 = cs_segno ?c" by (simp add: c1_def refresh_next_blkoff_def next_free_blkoff_def Let_def a)
  have al: "alloc_type c1 = alloc_type ?c" by (simp add: c1_def refresh_next_blkoff_def next_free_blkoff_def Let_def a)
  have lfs: "alloc_type ?c = LFS \<Longrightarrow> next_blkoff c1 = next_blkoff ?c + 1" by (simp add: c1_def refresh_next_blkoff_def a)
  have ssr: "alloc_type ?c = SSR \<Longrightarrow> c1 = next_free_blkoff conf (sm_sit sm) ?a (next_blkoff ?c + 1)"
    by (simp add: c1_def refresh_next_blkoff_def a)
  show "next_blkoff ?c < next_blkoff c1" if "alloc_type c1 = LFS" using lfs al that by simp
  show "next_blkoff ?c \<noteq> next_blkoff c1" using lfs ssr nf(2) c(4) by (cases "alloc_type ?c") auto
  show "\<not> block_used (sm_sit sm) (cs_segno ?c) (next_blkoff ?c)"
    using c(3,4) by (cases "alloc_type ?c") (auto simp: log_ok_def)
  have "log_ok (sm_sit sm) c1"
  proof (cases "alloc_type ?c")
    case LFS
    then show ?thesis using c(3,4) lfs cs al by (simp add: log_ok_def)
  next
    case SSR
    then show ?thesis using ssr nf al cs by (simp add: log_ok_def)
  qed
  then show "seg_inv conf (put_curseg t c1 sm)" using put_curseg_inv [OF inv t, of c1] c cs by simp
qed

text \<open>The two table updates: the new block becomes valid, the old one, if any, invalid.\<close>

definition old_ok :: "seg_conf \<Rightarrow> sit_info \<Rightarrow> nat \<Rightarrow> bool" where
  "old_ok conf sit old \<longleftrightarrow> old = NULL_ADDR \<or> old = NEW_ADDR \<or>
     main_addr (sc_g conf) old \<and> cur_bit sit (GET_SEGNO (sc_g conf) old) (GET_BLKOFF_FROM_SEG0 (sc_g conf) old)"

lemma old_ok_cases:
  assumes inv: "seg_inv conf sm" and old: "old_ok conf (sm_sit sm) old"
  obtains (none) "GET_SEGNO (sc_g conf) old = NULL_SEGNO" "\<And>s. s < main_segs (sc_g conf) \<Longrightarrow> s \<noteq> GET_SEGNO (sc_g conf) old"
    | (block) "GET_SEGNO (sc_g conf) old < main_segs (sc_g conf)" "GET_BLKOFF_FROM_SEG0 (sc_g conf) old < 512"
      "GET_SEGNO (sc_g conf) old \<noteq> NULL_SEGNO"
      "old = START_BLOCK (sc_g conf) (GET_SEGNO (sc_g conf) old) + GET_BLKOFF_FROM_SEG0 (sc_g conf) old"
      "cur_bit (sm_sit sm) (GET_SEGNO (sc_g conf) old) (GET_BLKOFF_FROM_SEG0 (sc_g conf) old)"
      "test_bit (GET_SEGNO (sc_g conf) old) (free_segmap (sm_free sm))"
proof -
  note i = seg_invD [OF inv]
  have lt: "s < main_segs (sc_g conf) \<Longrightarrow> s < NULL_SEGNO" for s
    using main_secs_bound(1) [OF i(1)] by (simp add: NULL_SEGNO_def)
  show ?thesis
  proof (cases "old = NULL_ADDR \<or> old = NEW_ADDR")
    case True
    then have "GET_SEGNO (sc_g conf) old = NULL_SEGNO" by (simp add: GET_SEGNO_def)
    then show ?thesis using lt none by (metis less_irrefl)
  next
    case False
    then have m: "main_addr (sc_g conf) old" "cur_bit (sm_sit sm) (GET_SEGNO (sc_g conf) old) (GET_BLKOFF_FROM_SEG0 (sc_g conf) old)"
      using old by (simp_all add: old_ok_def)
    note sp = main_addr_split [OF i(1) m(1)]
    have "test_bit (GET_SEGNO (sc_g conf) old) (free_segmap (sm_free sm))"
      using i(10) [OF sp(1)] m(2) sp(2) i(3) by metis
    then show ?thesis using block sp m(2) lt [OF sp(1)] i(3) by (metis less_irrefl)
  qed
qed

lemma log_unique:
  assumes inv: "seg_inv conf sm" and t: "t < 6" and c: "c \<in> set (sm_cur sm)" "cs_segno c = cs_segno (CURSEG_I sm t)"
  shows "c = CURSEG_I sm t"
proof -
  have len: "length (sm_cur sm) = 6" using seg_invD(11) [OF inv] .
  then obtain k where k: "k < 6" "c = CURSEG_I sm k" using c(1) by (auto simp: in_set_conv_nth CURSEG_I_def)
  then show ?thesis using curseg_inj [OF inv t k(1)] c(2) by simp
qed

lemma write_block:
  fixes sm_sum :: f2fs_summary and now :: u64
  assumes inv: "seg_inv conf sm" and t: "t < 6" and room: "log_room sm t" and old: "old_ok conf (sm_sit sm) old"
  defines "g \<equiv> sc_g conf" and "c \<equiv> CURSEG_I sm t"
  defines "sm1 \<equiv> put_curseg t (refresh_next_blkoff conf (sm_sit sm) (add_sum_entry sm_sum c)) sm"
  defines "sm2 \<equiv> update_sit conf now (NEXT_FREE_BLKADDR conf c) 1 sm1"
  defines "sm3 \<equiv> (if GET_SEGNO g old \<noteq> NULL_SEGNO then update_sit conf now old (- 1) sm2 else sm2)"
  shows "seg_inv conf sm3" "sm_free sm3 = sm_free sm" "\<And>k. k \<noteq> t \<Longrightarrow> CURSEG_I sm3 k = CURSEG_I sm k"
    "\<And>s i. s < main_segs g \<Longrightarrow> cur_bit (sm_sit sm3) s i =
       (s = cs_segno c \<and> i = next_blkoff c \<or> \<not> (s = GET_SEGNO g old \<and> i = GET_BLKOFF_FROM_SEG0 g old) \<and> cur_bit (sm_sit sm) s i)"
    "\<And>s i. s < main_segs g \<Longrightarrow> ckpt_bit (sm_sit sm) s i \<Longrightarrow> ckpt_bit (sm_sit sm3) s i"
proof -
  note i = seg_invD [OF inv]
  note adv = advance_log(1-4) [OF inv t room, where sm_sum = sm_sum, folded c_def, folded sm1_def]
    advance_log(5) [OF inv t room, folded c_def]
  let ?c1 = "refresh_next_blkoff conf (sm_sit sm) (add_sum_entry sm_sum c)"
  have tl: "t < length (sm_cur sm)" using t i(11) by simp
  have s: "cs_segno c < main_segs g" "next_blkoff c < 512" "test_bit (cs_segno c) (free_segmap (sm_free sm1))"
    using i(13) [OF t] room by (simp_all add: c_def g_def log_room_def sm1_def)
  have c1: "CURSEG_I sm1 t = ?c1" using tl by (simp add: sm1_def CURSEG_I_put)
  have logs: "\<forall>c' \<in> set (sm_cur sm1). cs_segno c' = cs_segno c \<longrightarrow>
      (alloc_type c' = LFS \<longrightarrow> next_blkoff c < next_blkoff c') \<and> (alloc_type c' = SSR \<longrightarrow> next_blkoff c \<noteq> next_blkoff c')"
    using log_unique [OF adv(1) t] adv(2-4) c1 by metis
  have sit1: "sm_sit sm1 = sm_sit sm" by (simp add: sm1_def)
  have u: "cur_bit (sm_sit sm1) (cs_segno c) (next_blkoff c) \<longleftrightarrow> (1::int) = - 1" using adv(5) sit1 by simp
  note up = update_sit_inv [OF adv(1) s(1) [unfolded g_def] s(2) u _ s(3) logs, where now = now, folded NEXT_FREE_BLKADDR_def sm2_def g_def, simplified]
  have fr2: "sm_free sm2 = sm_free sm" "sm_cur sm2 = sm_cur sm1" by (simp_all add: sm2_def sm1_def update_sit_def)
  have cur2: "cur_bit (sm_sit sm2) x k = (x = cs_segno c \<and> k = next_blkoff c \<or> cur_bit (sm_sit sm) x k)" if "x < main_segs g" for x k
    unfolding up(2) [OF that, of k] sit1 by auto
  have ckpt2: "ckpt_bit (sm_sit sm2) x k" if "x < main_segs g" "ckpt_bit (sm_sit sm) x k" for x k
    using up(3) [OF that(1), of k] that(2) sit1 by simp
  have cs3: "CURSEG_I sm2 k = CURSEG_I sm k" if "k \<noteq> t" for k
    using that tl CURSEG_I_put [OF tl, of ?c1 k] fr2(2) by (simp add: CURSEG_I_def sm1_def)
  have all: "seg_inv conf sm3 \<and> sm_free sm3 = sm_free sm \<and> sm_cur sm3 = sm_cur sm2 \<and>
    (\<forall>x k. x < main_segs g \<longrightarrow> cur_bit (sm_sit sm3) x k =
       (x = cs_segno c \<and> k = next_blkoff c \<or> \<not> (x = GET_SEGNO g old \<and> k = GET_BLKOFF_FROM_SEG0 g old) \<and> cur_bit (sm_sit sm) x k)) \<and>
    (\<forall>x k. x < main_segs g \<longrightarrow> ckpt_bit (sm_sit sm) x k \<longrightarrow> ckpt_bit (sm_sit sm3) x k)"
  proof (rule old_ok_cases [OF inv old, folded g_def])
    assume n: "GET_SEGNO g old = NULL_SEGNO" "\<And>x. x < main_segs g \<Longrightarrow> x \<noteq> GET_SEGNO g old"
    then have "sm3 = sm2" by (simp add: sm3_def)
    then show ?thesis using up(1) fr2 cur2 ckpt2 n(2) by auto
  next
    let ?s = "GET_SEGNO g old" and ?o = "GET_BLKOFF_FROM_SEG0 g old"
    assume b: "?s < main_segs g" "?o < 512" "?s \<noteq> NULL_SEGNO" "old = START_BLOCK g ?s + ?o" "cur_bit (sm_sit sm) ?s ?o"
      "test_bit ?s (free_segmap (sm_free sm))"
    have ne: "\<not> (?s = cs_segno c \<and> ?o = next_blkoff c)" using adv(5) b(5) by (metis c_def)
    have u2: "cur_bit (sm_sit sm2) ?s ?o \<longleftrightarrow> (- 1 :: int) = - 1" using cur2 [OF b(1)] b(5) by simp
    have in2: "test_bit ?s (free_segmap (sm_free sm2))" using b(6) fr2 by simp
    have b1: "?s < main_segs (sc_g conf)" using b(1) unfolding g_def .
    have adr: "START_BLOCK (sc_g conf) ?s + ?o = old" using b(4) unfolding g_def by (rule sym)
    have sm3: "sm3 = update_sit conf now old (- 1) sm2" using b(3) unfolding sm3_def by simp
    note dn = update_sit_inv [OF up(1) b1 b(2) u2 _ in2, where now = now, unfolded adr, folded sm3 g_def, simplified]
    have "cur_bit (sm_sit sm3) x k = (x = cs_segno c \<and> k = next_blkoff c \<or> \<not> (x = ?s \<and> k = ?o) \<and> cur_bit (sm_sit sm) x k)"
      if "x < main_segs g" for x k
      unfolding dn(2) [OF that, of k] cur2 [OF that, of k] using ne by auto
    moreover have "sm_free sm3 = sm_free sm" "sm_cur sm3 = sm_cur sm2" by (simp_all add: sm3 update_sit_def fr2)
    ultimately show ?thesis using dn(1,3) ckpt2 by simp
  qed
  show "seg_inv conf sm3" "sm_free sm3 = sm_free sm" using all by blast+
  show "CURSEG_I sm3 k = CURSEG_I sm k" if "k \<noteq> t" for k using all cs3 [OF that] by (simp add: CURSEG_I_def)
  show "cur_bit (sm_sit sm3) x k = (x = cs_segno c \<and> k = next_blkoff c \<or> \<not> (x = GET_SEGNO g old \<and> k = GET_BLKOFF_FROM_SEG0 g old) \<and> cur_bit (sm_sit sm) x k)"
    if "x < main_segs g" for x k using all that by blast
  show "ckpt_bit (sm_sit sm3) x k" if "x < main_segs g" "ckpt_bit (sm_sit sm) x k" for x k using all that by blast
qed

lemma allocate_ok:
  fixes sm_sum :: f2fs_summary and now :: u64
  assumes inv: "seg_inv conf sm" and t: "t < 6" and room: "log_room sm t" and free: "0 < free_sections (sm_free sm)"
    and old: "old_ok conf (sm_sit sm) old"
  defines "g \<equiv> sc_g conf"
  defines "s0 \<equiv> cs_segno (CURSEG_I sm t)" and "o0 \<equiv> next_blkoff (CURSEG_I sm t)"
  obtains sm' nxt where "allocate_data_block conf now old sm_sum t sm = Some (sm', START_BLOCK g s0 + o0, nxt)"
    "nxt = (if IS_NODESEG t then Some (NEXT_FREE_BLKADDR conf (CURSEG_I sm' t)) else None)"
    "s0 < main_segs g" "o0 < 512" "\<not> block_used (sm_sit sm) s0 o0" "seg_inv conf sm'" "log_room sm' t"
    "\<forall>k < 6. k \<noteq> t \<longrightarrow> CURSEG_I sm' k = CURSEG_I sm k"
    "\<forall>s < main_segs g. \<forall>i. cur_bit (sm_sit sm') s i =
       (s = s0 \<and> i = o0 \<or> \<not> (s = GET_SEGNO g old \<and> i = GET_BLKOFF_FROM_SEG0 g old) \<and> cur_bit (sm_sit sm) s i)"
    "\<forall>s < main_segs g. \<forall>i. ckpt_bit (sm_sit sm) s i \<longrightarrow> ckpt_bit (sm_sit sm') s i"
proof -
  note i = seg_invD [OF inv]
  have s0: "s0 < main_segs g" "o0 < 512" "test_bit s0 (free_segmap (sm_free sm))"
    using i(13) [OF t] room by (simp_all add: s0_def o0_def g_def log_room_def)
  define sm3 where "sm3 = (let sm2 = update_sit conf now (NEXT_FREE_BLKADDR conf (CURSEG_I sm t)) 1
      (put_curseg t (refresh_next_blkoff conf (sm_sit sm) (add_sum_entry sm_sum (CURSEG_I sm t))) sm)
    in if GET_SEGNO g old \<noteq> NULL_SEGNO then update_sit conf now old (- 1) sm2 else sm2)"
  note w = write_block [OF inv t room old, where sm_sum = sm_sum and now = now, folded g_def s0_def o0_def,
      folded sm3_def [unfolded Let_def]]
  have "\<exists>sm4. (if \<not> has_curseg_space conf sm3 t then allocate_segment_by_default conf t False sm3 else Some sm3) = Some sm4 \<and>
      log_moved conf t sm3 sm4"
  proof (cases "has_curseg_space conf sm3 t")
    case True
    then show ?thesis using w(1) i(3) by (simp add: has_curseg_space_def log_moved_def log_room_def)
  next
    case False
    then show ?thesis using allocate_segment_moved [OF w(1) t] w(2) free by simp
  qed
  then obtain sm4 where sm4: "(if \<not> has_curseg_space conf sm3 t then allocate_segment_by_default conf t False sm3 else Some sm3) = Some sm4"
    "log_moved conf t sm3 sm4" by blast
  have inuse: "test_bit s (free_segmap (sm_free sm4))" if "s < main_segs g" "test_bit s (free_segmap (sm_free sm))" for s
    using sm4(2) that w(2) by (simp add: log_moved_def g_def)
  have so: "GET_SEGNO g old = NULL_SEGNO \<or> GET_SEGNO g old < main_segs g \<and> test_bit (GET_SEGNO g old) (free_segmap (sm_free sm4))"
    by (rule old_ok_cases [OF inv old, folded g_def]) (use inuse in blast)+
  define sm5 where "sm5 = locate_dirty conf (GET_SEGNO g old) sm4"
  have inv4: "seg_inv conf sm4" using sm4(2) by (simp add: log_moved_def)
  note l5 = locate_dirty_inv [OF inv4 so [unfolded g_def], folded g_def, folded sm5_def]
  have new: "GET_SEGNO g (START_BLOCK g s0 + o0) = s0" using segno_of_block(1) [OF i(1)] s0 i(3) by (simp add: g_def)
  have sn: "s0 = NULL_SEGNO \<or> s0 < main_segs (sc_g conf) \<and> test_bit s0 (free_segmap (sm_free sm5))"
    using inuse s0 l5(4) by (simp add: g_def)
  note l6 = locate_dirty_inv [OF l5(1) sn]
  let ?sm' = "locate_dirty conf s0 sm5"
  have cu: "CURSEG_I ?sm' k = CURSEG_I sm4 k" for k using l5(3) l6(3) by simp
  have sit: "sm_sit ?sm' = sm_sit sm4" using l5(2) l6(2) by simp
  have bits: "cur_bit (sm_sit sm4) s i = cur_bit (sm_sit sm3) s i" "ckpt_bit (sm_sit sm4) s i = ckpt_bit (sm_sit sm3) s i"
    if "s < main_segs g" for s i
    using sm4(2) that by (simp_all add: log_moved_def g_def)
  have nx: "NEXT_FREE_BLKADDR conf (CURSEG_I sm t) = START_BLOCK g s0 + o0" by (simp add: NEXT_FREE_BLKADDR_def s0_def o0_def g_def)
  show ?thesis
  proof (rule that [of ?sm' "if IS_NODESEG t then Some (NEXT_FREE_BLKADDR conf (CURSEG_I ?sm' t)) else None"])
    show "allocate_data_block conf now old sm_sum t sm = Some (?sm', START_BLOCK g s0 + o0,
        if IS_NODESEG t then Some (NEXT_FREE_BLKADDR conf (CURSEG_I ?sm' t)) else None)"
      unfolding allocate_data_block_def Let_def g_def [symmetric]
      unfolding sm3_def [unfolded Let_def, symmetric] sm4(1)
      unfolding nx new by (simp add: sm5_def)
    show "\<not> block_used (sm_sit sm) s0 o0" using advance_log(5) [OF inv t room] by (simp only: s0_def o0_def simp_thms)
    show "log_room ?sm' t" using sm4(2) cu by (simp add: log_moved_def log_room_def)
    show "\<forall>k < 6. k \<noteq> t \<longrightarrow> CURSEG_I ?sm' k = CURSEG_I sm k" using sm4(2) cu w(3) by (simp add: log_moved_def)
    show "\<forall>s < main_segs g. \<forall>i. cur_bit (sm_sit ?sm') s i =
       (s = s0 \<and> i = o0 \<or> \<not> (s = GET_SEGNO g old \<and> i = GET_BLKOFF_FROM_SEG0 g old) \<and> cur_bit (sm_sit sm) s i)"
      unfolding sit using bits w(4) by metis
    show "\<forall>s < main_segs g. \<forall>i. ckpt_bit (sm_sit sm) s i \<longrightarrow> ckpt_bit (sm_sit ?sm') s i"
      unfolding sit using bits w(5) by metis
  qed (use s0 l6(1) in simp_all)
qed

lemma invalidate_ok:
  fixes now :: u64
  assumes inv: "seg_inv conf sm" and old: "old_ok conf (sm_sit sm) old" "old \<noteq> NULL_ADDR"
  defines "g \<equiv> sc_g conf" and "sm' \<equiv> invalidate_blocks conf now old sm"
  shows "seg_inv conf sm'" "CURSEG_I sm' k = CURSEG_I sm k"
    "\<And>s i. s < main_segs g \<Longrightarrow> cur_bit (sm_sit sm') s i =
       (\<not> (s = GET_SEGNO g old \<and> i = GET_BLKOFF_FROM_SEG0 g old) \<and> cur_bit (sm_sit sm) s i)"
    "\<And>s i. s < main_segs g \<Longrightarrow> ckpt_bit (sm_sit sm) s i \<Longrightarrow> ckpt_bit (sm_sit sm') s i"
proof -
  have "seg_inv conf sm' \<and> CURSEG_I sm' k = CURSEG_I sm k \<and>
    (\<forall>s < main_segs g. \<forall>i. cur_bit (sm_sit sm') s i =
       (\<not> (s = GET_SEGNO g old \<and> i = GET_BLKOFF_FROM_SEG0 g old) \<and> cur_bit (sm_sit sm) s i)) \<and>
    (\<forall>s < main_segs g. \<forall>i. ckpt_bit (sm_sit sm) s i \<longrightarrow> ckpt_bit (sm_sit sm') s i)"
  proof (cases "old = NEW_ADDR")
    case True
    then have n: "GET_SEGNO g old = NULL_SEGNO" by (simp add: GET_SEGNO_def)
    have "s \<noteq> NULL_SEGNO" if "s < main_segs g" for s
      using that main_secs_bound(1) [OF seg_invD(1) [OF inv]] by (simp add: g_def NULL_SEGNO_def)
    moreover have "sm' = sm" using True old(2) by (simp add: sm'_def invalidate_blocks_def)
    ultimately show ?thesis using inv n by auto
  next
    case False
    let ?s = "GET_SEGNO g old" and ?o = "GET_BLKOFF_FROM_SEG0 g old"
    have "GET_SEGNO g old \<noteq> NULL_SEGNO"
    proof -
      have "?s < main_segs g" using main_addr_split(1) [OF seg_invD(1) [OF inv]] old False by (simp add: old_ok_def g_def)
      then show ?thesis using main_secs_bound(1) [OF seg_invD(1) [OF inv]] by (simp add: g_def NULL_SEGNO_def)
    qed
    then obtain b: "?s < main_segs g" "?o < 512" "old = START_BLOCK g ?s + ?o" "cur_bit (sm_sit sm) ?s ?o"
      "test_bit ?s (free_segmap (sm_free sm))"
      using old_ok_cases [OF inv old(1), folded g_def] by metis
    have b1: "?s < main_segs (sc_g conf)" using b(1) unfolding g_def .
    have adr: "START_BLOCK (sc_g conf) ?s + ?o = old" using b(3) unfolding g_def by (rule sym)
    have u: "cur_bit (sm_sit sm) ?s ?o \<longleftrightarrow> (- 1 :: int) = - 1" using b(4) by simp
    note up = update_sit_inv [OF inv b1 b(2) u _ b(5), where now = now, unfolded adr, folded g_def, simplified]
    let ?sm1 = "update_sit conf now old (- 1) sm"
    have in1: "?s = NULL_SEGNO \<or> ?s < main_segs (sc_g conf) \<and> test_bit ?s (free_segmap (sm_free ?sm1))"
      using b1 b(5) by (simp add: update_sit_def)
    note l = locate_dirty_inv [OF up(1) in1]
    have sm': "sm' = locate_dirty conf ?s ?sm1" using False old(2) by (simp add: sm'_def invalidate_blocks_def Let_def g_def)
    have "CURSEG_I sm' k = CURSEG_I sm k" using l(3) [of k] by (simp add: sm' update_sit_def CURSEG_I_def)
    moreover have "cur_bit (sm_sit sm') s i = (\<not> (s = ?s \<and> i = ?o) \<and> cur_bit (sm_sit sm) s i)" if "s < main_segs g" for s i
      unfolding sm' l(2) up(2) [OF that] by auto
    moreover have "ckpt_bit (sm_sit sm) s i \<longrightarrow> ckpt_bit (sm_sit sm') s i" if "s < main_segs g" for s i
      unfolding sm' l(2) using up(3) [OF that] by blast
    ultimately show ?thesis using l(1) sm' by blast
  qed
  then show "seg_inv conf sm'" "CURSEG_I sm' k = CURSEG_I sm k"
    "\<And>s i. s < main_segs g \<Longrightarrow> cur_bit (sm_sit sm') s i =
       (\<not> (s = GET_SEGNO g old \<and> i = GET_BLKOFF_FROM_SEG0 g old) \<and> cur_bit (sm_sit sm) s i)"
    "\<And>s i. s < main_segs g \<Longrightarrow> ckpt_bit (sm_sit sm) s i \<Longrightarrow> ckpt_bit (sm_sit sm') s i" by blast+
qed

end
