(* ===== verification/Log_Runs.thy ===== *)
theory Log_Runs
  imports Curseg
begin

text \<open>
  What block allocation guarantees: single allocations, the choice of a log, and whole runs of the
  segment manager between two checkpoints, as a step relation over allocations, invalidations and
  closed logs. Nothing a run writes overwrites a block of the checkpoint it started from.
\<close>

section \<open>Runs\<close>

inductive seg_run :: "seg_conf \<Rightarrow> seg_mgr \<Rightarrow> nat list \<Rightarrow> seg_mgr \<Rightarrow> bool" where
  run_start: "seg_run conf sm [] sm"
| run_alloc: "seg_run conf sm as sm1 \<Longrightarrow> t < 6 \<Longrightarrow> 0 < free_sections (sm_free sm1) \<Longrightarrow>
    old_ok conf (sm_sit sm1) old \<Longrightarrow> allocate_data_block conf now old sm_sum t sm1 = Some (sm2, new, nxt) \<Longrightarrow>
    seg_run conf sm (new # as) sm2"
| run_inval: "seg_run conf sm as sm1 \<Longrightarrow> old_ok conf (sm_sit sm1) old \<Longrightarrow> old \<noteq> NULL_ADDR \<Longrightarrow>
    seg_run conf sm as (invalidate_blocks conf now old sm1)"
| run_close: "seg_run conf sm as sm1 \<Longrightarrow> t < 6 \<Longrightarrow> 0 < free_sections (sm_free sm1) \<Longrightarrow>
    allocate_segment_by_default conf t True sm1 = Some sm2 \<Longrightarrow>
    seg_run conf sm as (locate_dirty conf (cs_segno (CURSEG_I sm1 t)) sm2)"

text \<open>A run keeps the invariant, room in every log, and every checkpointed block.\<close>

definition run_inv :: "seg_conf \<Rightarrow> seg_mgr \<Rightarrow> nat list \<Rightarrow> seg_mgr \<Rightarrow> bool" where
  "run_inv conf sm as sm' \<longleftrightarrow>
     seg_inv conf sm' \<and> (\<forall>t < 6. log_room sm' t) \<and>
     (\<forall>s < main_segs (sc_g conf). \<forall>i. ckpt_bit (sm_sit sm) s i \<longrightarrow> ckpt_bit (sm_sit sm') s i) \<and>
     (\<forall>a \<in> set as. main_addr (sc_g conf) a \<and> \<not> ckpt_bit (sm_sit sm) (GET_SEGNO (sc_g conf) a) (GET_BLKOFF_FROM_SEG0 (sc_g conf) a))"

lemma run_alloc_inv:
  assumes inv: "run_inv conf sm as sm1" and t: "t < 6" and free: "0 < free_sections (sm_free sm1)"
    and old: "old_ok conf (sm_sit sm1) old" and res: "allocate_data_block conf now old sm_sum t sm1 = Some (sm2, new, nxt)"
  shows "run_inv conf sm (new # as) sm2"
proof -
  have i: "seg_inv conf sm1" "log_room sm1 t" using inv t by (simp_all add: run_inv_def)
  show ?thesis
  proof (rule allocate_ok [OF i(1) t i(2) free old, where now = now and sm_sum = sm_sum])
    fix sm' nx
    let ?s = "cs_segno (CURSEG_I sm1 t)" and ?o = "next_blkoff (CURSEG_I sm1 t)"
    assume a: "allocate_data_block conf now old sm_sum t sm1 = Some (sm', START_BLOCK (sc_g conf) ?s + ?o, nx)"
      and b: "?s < main_segs (sc_g conf)" "?o < 512" "\<not> block_used (sm_sit sm1) ?s ?o"
      and c: "seg_inv conf sm'" "log_room sm' t" "\<forall>k < 6. k \<noteq> t \<longrightarrow> CURSEG_I sm' k = CURSEG_I sm1 k"
      and d: "\<forall>s < main_segs (sc_g conf). \<forall>i. ckpt_bit (sm_sit sm1) s i \<longrightarrow> ckpt_bit (sm_sit sm') s i"
    have eq: "sm2 = sm'" "new = START_BLOCK (sc_g conf) ?s + ?o" using a res by simp_all
    have o: "?o < blocks_per_seg (sc_g conf)" using b(2) seg_invD(3) [OF i(1)] by simp
    have "main_addr (sc_g conf) new" unfolding eq(2) by (rule main_addr_at [OF seg_invD(1) [OF i(1)] b(1) o])
    moreover have "\<not> ckpt_bit (sm_sit sm) (GET_SEGNO (sc_g conf) new) (GET_BLKOFF_FROM_SEG0 (sc_g conf) new)"
      unfolding eq(2) segno_of_block(1,2) [OF seg_invD(1) [OF i(1)] b(1) o] using inv b(1,3) unfolding run_inv_def by blast
    moreover have "\<forall>k < 6. log_room sm' k" using c(2,3) inv unfolding run_inv_def log_room_def by metis
    ultimately show ?thesis using inv c(1) d unfolding run_inv_def eq(1) by simp
  qed
qed

lemma run_close_inv:
  assumes inv: "run_inv conf sm as sm1" and t: "t < 6" and free: "0 < free_sections (sm_free sm1)"
    and res: "allocate_segment_by_default conf t True sm1 = Some sm2"
  shows "run_inv conf sm as (locate_dirty conf (cs_segno (CURSEG_I sm1 t)) sm2)"
proof -
  let ?s = "cs_segno (CURSEG_I sm1 t)"
  have i: "seg_inv conf sm1" using inv by (simp add: run_inv_def)
  have mv: "log_moved conf t sm1 sm2" using allocate_segment_moved [OF i t free, of True] res by simp
  then have s: "?s = NULL_SEGNO \<or> ?s < main_segs (sc_g conf) \<and> test_bit ?s (free_segmap (sm_free sm2))"
    using seg_invD(13) [OF i t] by (simp add: log_moved_def)
  have i2: "seg_inv conf sm2" using mv by (simp add: log_moved_def)
  note l = locate_dirty_inv [OF i2 s]
  have "log_room sm2 k" if "k < 6" for k
    using mv inv that unfolding log_moved_def run_inv_def log_room_def by (cases "k = t") auto
  then show ?thesis using inv mv l unfolding run_inv_def log_moved_def by (simp add: log_room_def)
qed

lemma run_inval_inv:
  assumes inv: "run_inv conf sm as sm1" and old: "old_ok conf (sm_sit sm1) old" "old \<noteq> NULL_ADDR"
  shows "run_inv conf sm as (invalidate_blocks conf now old sm1)"
proof -
  have i: "seg_inv conf sm1" using inv by (simp add: run_inv_def)
  note l = invalidate_ok [OF i old, where now = now]
  show ?thesis using inv l unfolding run_inv_def log_room_def by simp
qed

text \<open>
  Property C1. Between two checkpoints the segment manager never gives away a block the last checkpoint
  needs. Whatever sequence of allocations, invalidations and closed logs runs from a state that satisfies the
  invariant with room in every log, each address handed out lies in the main area and was not valid in the
  checkpoint, the invariant holds at the end, and every log has room for the next block, provided every
  step that may open a segment finds a free section.
\<close>

theorem seg_run_keeps_checkpoint:
  assumes "seg_run conf sm as sm'" and "seg_inv conf sm" and "\<forall>t < 6. log_room sm t"
  shows "seg_inv conf sm' \<and> (\<forall>t < 6. log_room sm' t) \<and>
    (\<forall>s < main_segs (sc_g conf). \<forall>i. ckpt_bit (sm_sit sm) s i \<longrightarrow> ckpt_bit (sm_sit sm') s i) \<and>
    (\<forall>a \<in> set as. main_addr (sc_g conf) a \<and> \<not> ckpt_bit (sm_sit sm) (GET_SEGNO (sc_g conf) a) (GET_BLKOFF_FROM_SEG0 (sc_g conf) a))"
proof -
  have "run_inv conf sm as sm'"
    using assms
  proof (induction rule: seg_run.induct)
    case (run_start conf sm)
    then show ?case by (simp add: run_inv_def)
  next
    case run_alloc
    then show ?case by (blast intro: run_alloc_inv)
  next
    case run_inval
    then show ?case by (blast intro: run_inval_inv)
  next
    case run_close
    then show ?case by (blast intro: run_close_inv)
  qed
  then show ?thesis by (simp add: run_inv_def)
qed

section \<open>A concrete segment manager\<close>

definition demo_conf :: seg_conf where
  "demo_conf = \<lparr>sc_g = demo_geom, sc_discard_en = True, opt_noheap = False, opt_lfs = False, gc_urgent = False, crc_recovery = True,
     sc_fggc_threshold = 100, sc_max_victim_search = 4096, sc_gc_idle = None, dirty_nodes = 0, dirty_dents = 0, dirty_imeta = 0,
     min_ssr_sections = 1, reserved_segments = 0\<rparr>"

definition demo_mgr :: seg_mgr where
  "demo_mgr = \<lparr>sm_v = demo_vic,
     sm_free = fold (set_test_and_inuse demo_geom) [2, 4, 5] demo_free,
     sm_cur = map (\<lambda>s. empty_curseg\<lparr>cs_segno := s\<rparr>) [0, 1, 2, 3, 4, 5], sm_ssa = (\<lambda>_. []), sm_bug = False\<rparr>"

lemma demo_mgr_free:
  "free_ok demo_geom (sm_free demo_mgr)" "free_segmap (sm_free demo_mgr) = [True, True, True, True, True, True, False, False]"
  "free_sections (sm_free demo_mgr) = 1"
proof -
  have m: "main_segs demo_geom = 8" by (simp add: demo_geom_def)
  note a = set_test_and_inuse_ok [OF demo_geom_ok demo_free_ok, of 2]
  note b = set_test_and_inuse_ok [OF demo_geom_ok a(1), of 4]
  note c = set_test_and_inuse_ok [OF demo_geom_ok b(1), of 5]
  have f: "sm_free demo_mgr = fold (set_test_and_inuse demo_geom) [2, 4, 5] demo_free" by (simp add: demo_mgr_def)
  show "free_ok demo_geom (sm_free demo_mgr)" using c m by (simp add: f)
  show "free_segmap (sm_free demo_mgr) = [True, True, True, True, True, True, False, False]" "free_sections (sm_free demo_mgr) = 1"
    unfolding f by code_simp+
qed

lemma demo_unused: "s < 8 \<Longrightarrow> \<not> block_used demo_sit s i"
  by (simp add: demo_sit_def demo_entry_def empty_map)

lemma demo_mgr_inv: "seg_inv demo_conf demo_mgr" "\<forall>t < 6. log_room demo_mgr t"
proof -
  have m: "main_segs demo_geom = 8" "log_blocks_per_seg demo_geom = 9" by (simp_all add: demo_geom_def)
  have f: "sm_sit demo_mgr = demo_sit" "sm_dirty demo_mgr = demo_dirty" "last_victim (sm_v demo_mgr) = [0, 0, 0, 0]" "\<not> sm_bug demo_mgr"
    "sm_cur demo_mgr = map (\<lambda>s. empty_curseg\<lparr>cs_segno := s\<rparr>) [0, 1, 2, 3, 4, 5]" "sc_g demo_conf = demo_geom" "sc_discard_en demo_conf"
    by (simp_all add: demo_mgr_def demo_vic_def demo_conf_def)
  have ty: "\<forall>s < 8. se_type (sentries demo_sit ! s) < 6" "\<not> sit_bug demo_sit" by (simp_all add: demo_sit_def demo_entry_def)
  have nd: "\<not> dirty_bit demo_dirty DIRTY s" if "s < 8" for s
    using that by (simp add: dirty_bit_def demo_dirty_def test_bit_def arr_get_def)
  have cu: "distinct (curs demo_mgr)" by (simp add: curs_def f empty_curseg_def)
  have logs: "\<forall>c \<in> set (sm_cur demo_mgr). cs_segno c < 8 \<and> test_bit (cs_segno c) (free_segmap (sm_free demo_mgr)) \<and> log_ok demo_sit c"
    using demo_unused demo_mgr_free(2) by (simp add: f log_ok_def empty_curseg_def test_bit_def arr_get_def)
  show "seg_inv demo_conf demo_mgr"
    unfolding seg_inv_def f m using demo_geom_ok demo_sit_ok demo_mgr_free(1) demo_dirty_ok ty nd demo_unused cu logs f by (simp add: arr_get_def)
  show "\<forall>t < 6. log_room demo_mgr t"
    unfolding log_room_def CURSEG_I_def f arr_get_def by (auto simp: empty_curseg_def nth_Cons split: nat.splits)
qed

lemma demo_old: "old_ok demo_conf (sm_sit demo_mgr) NEW_ADDR"
  by (simp add: old_ok_def)

definition demo_sum :: f2fs_summary where
  "demo_sum = \<lparr>sum_nid = 7, sum_version = 0, sum_ofs_in_node = 3\<rparr>"

theorem seg_run_keeps_checkpoint_witness:
  "\<exists>new sm'. seg_run demo_conf demo_mgr [new] sm' \<and> main_addr demo_geom new"
proof -
  have r: "log_room demo_mgr 3" "(3::nat) < 6" using demo_mgr_inv(2) by simp_all
  have fr: "0 < free_sections (sm_free demo_mgr)" using demo_mgr_free by simp
  obtain sm' new nxt where a: "allocate_data_block demo_conf 5 NEW_ADDR demo_sum 3 demo_mgr = Some (sm', new, nxt)"
    using allocate_ok [OF demo_mgr_inv(1) r(2,1) fr demo_old, where now = 5 and sm_sum = demo_sum] by metis
  have run: "seg_run demo_conf demo_mgr [new] sm'" by (rule run_alloc [OF run_start r(2) fr demo_old a])
  have g: "sc_g demo_conf = demo_geom" by (simp add: demo_conf_def)
  have "main_addr demo_geom new"
    using seg_run_keeps_checkpoint [OF run demo_mgr_inv] unfolding g by simp
  then show ?thesis using run by blast
qed

section \<open>Single operations\<close>

text \<open>
  Property C15. \<^verbatim>\<open>allocate_data_block\<close> returns, and the block it hands out lies in the main area and was neither
  valid nor part of the last checkpoint. Afterwards exactly that block has become valid and the old block invalid,
  no checkpointed block is lost, the invariant of the segment manager holds, the log has room again and no other
  log has moved. A node page gets the address of the log's next block in its footer.
\<close>

theorem allocate_data_block_safe:
  assumes "seg_inv conf sm" and "t < 6" and "log_room sm t" and "0 < free_sections (sm_free sm)" and "old_ok conf (sm_sit sm) old"
  shows "\<exists>sm' s i nxt. allocate_data_block conf now old sm_sum t sm = Some (sm', START_BLOCK (sc_g conf) s + i, nxt) \<and>
    s < main_segs (sc_g conf) \<and> i < 512 \<and> \<not> block_used (sm_sit sm) s i \<and>
    seg_inv conf sm' \<and> log_room sm' t \<and> (\<forall>k < 6. k \<noteq> t \<longrightarrow> CURSEG_I sm' k = CURSEG_I sm k) \<and>
    (\<forall>x < main_segs (sc_g conf). \<forall>j. cur_bit (sm_sit sm') x j = (x = s \<and> j = i \<or>
       \<not> (x = GET_SEGNO (sc_g conf) old \<and> j = GET_BLKOFF_FROM_SEG0 (sc_g conf) old) \<and> cur_bit (sm_sit sm) x j)) \<and>
    (\<forall>x < main_segs (sc_g conf). \<forall>j. ckpt_bit (sm_sit sm) x j \<longrightarrow> ckpt_bit (sm_sit sm') x j) \<and>
    nxt = (if IS_NODESEG t then Some (NEXT_FREE_BLKADDR conf (CURSEG_I sm' t)) else None)"
  by (rule allocate_ok [OF assms, where now = now and sm_sum = sm_sum]) blast

theorem allocate_data_block_safe_witness:
  "\<exists>sm' s i nxt. allocate_data_block demo_conf 5 NEW_ADDR demo_sum 0 demo_mgr = Some (sm', START_BLOCK demo_geom s + i, nxt) \<and>
     \<not> block_used demo_sit s i \<and> seg_inv demo_conf sm'"
proof -
  have r: "log_room demo_mgr 0" "(0::nat) < 6" using demo_mgr_inv(2) by simp_all
  have fr: "0 < free_sections (sm_free demo_mgr)" using demo_mgr_free by simp
  have f: "sc_g demo_conf = demo_geom" "sm_sit demo_mgr = demo_sit" by (simp_all add: demo_conf_def demo_mgr_def demo_vic_def)
  show ?thesis
    using allocate_data_block_safe [OF demo_mgr_inv(1) r(2,1) fr demo_old, where now = 5 and sm_sum = demo_sum] unfolding f by blast
qed

text \<open>
  Property C27. \<^verbatim>\<open>invalidate_blocks\<close> on a valid block, or on a block that was only reserved, keeps the invariant
  of the segment manager, makes exactly that block invalid, moves no log and keeps every checkpointed block.
\<close>

theorem invalidate_blocks_correct:
  assumes "seg_inv conf sm" and "old_ok conf (sm_sit sm) old" and "old \<noteq> NULL_ADDR"
  shows "seg_inv conf (invalidate_blocks conf now old sm) \<and>
    (\<forall>t. CURSEG_I (invalidate_blocks conf now old sm) t = CURSEG_I sm t) \<and>
    (\<forall>s < main_segs (sc_g conf). \<forall>i. cur_bit (sm_sit (invalidate_blocks conf now old sm)) s i =
       (\<not> (s = GET_SEGNO (sc_g conf) old \<and> i = GET_BLKOFF_FROM_SEG0 (sc_g conf) old) \<and> cur_bit (sm_sit sm) s i)) \<and>
    (\<forall>s < main_segs (sc_g conf). \<forall>i. ckpt_bit (sm_sit sm) s i \<longrightarrow> ckpt_bit (sm_sit (invalidate_blocks conf now old sm)) s i)"
  using invalidate_ok [OF assms, where now = now] by blast

theorem invalidate_blocks_correct_witness:
  "\<exists>sm s i. cur_bit (sm_sit sm) s i \<and> seg_inv demo_conf (invalidate_blocks demo_conf 9 (START_BLOCK demo_geom s + i) sm) \<and>
     \<not> cur_bit (sm_sit (invalidate_blocks demo_conf 9 (START_BLOCK demo_geom s + i) sm)) s i"
proof -
  have r: "log_room demo_mgr 0" "(0::nat) < 6" using demo_mgr_inv(2) by simp_all
  have fr: "0 < free_sections (sm_free demo_mgr)" using demo_mgr_free by simp
  have f: "sc_g demo_conf = demo_geom" by (simp add: demo_conf_def)
  define s i where "s = cs_segno (CURSEG_I demo_mgr 0)" and "i = next_blkoff (CURSEG_I demo_mgr 0)"
  obtain sm where a: "s < main_segs demo_geom" "i < 512" "seg_inv demo_conf sm" "cur_bit (sm_sit sm) s i"
  proof (rule allocate_ok [OF demo_mgr_inv(1) r(2,1) fr demo_old, where now = 5 and sm_sum = demo_sum, unfolded f, folded s_def i_def])
    fix sm' nxt
    assume "s < main_segs demo_geom" "i < 512" "seg_inv demo_conf sm'" "\<forall>x < main_segs demo_geom. \<forall>j. cur_bit (sm_sit sm') x j =
       (x = s \<and> j = i \<or> \<not> (x = GET_SEGNO demo_geom NEW_ADDR \<and> j = GET_BLKOFF_FROM_SEG0 demo_geom NEW_ADDR) \<and> cur_bit (sm_sit demo_mgr) x j)"
    then show ?thesis by (intro that [of sm']) simp_all
  qed
  have b: "i < blocks_per_seg demo_geom" using a(2) by (simp add: demo_geom_def blocks_per_seg_def)
  note sg = segno_of_block [OF demo_geom_ok a(1) b]
  have old: "old_ok demo_conf (sm_sit sm) (START_BLOCK demo_geom s + i)" unfolding old_ok_def f using main_addr_at [OF demo_geom_ok a(1) b] a(4) sg by simp
  note I = invalidate_blocks_correct [OF a(3) old sg(3), where now = 9, unfolded f]
  have "cur_bit (sm_sit (invalidate_blocks demo_conf 9 (START_BLOCK demo_geom s + i) sm)) s i =
      (\<not> (s = GET_SEGNO demo_geom (START_BLOCK demo_geom s + i) \<and> i = GET_BLKOFF_FROM_SEG0 demo_geom (START_BLOCK demo_geom s + i)) \<and> cur_bit (sm_sit sm) s i)"
    using I a(1) by (elim conjE allE) (drule mp, assumption, erule spec)
  then have "\<not> cur_bit (sm_sit (invalidate_blocks demo_conf 9 (START_BLOCK demo_geom s + i) sm)) s i" unfolding sg(1,2) by simp
  then show ?thesis using I a(4) by (intro exI conjI) (assumption, erule conjunct1, assumption)
qed

text \<open>
  With 2, 4 or 6 active logs every page is given one of the six logs, a data log exactly for a data
  page, with the temperature of that log, and the assertion on the number of logs holds. With 6 logs direct nodes of
  files go to the warm node log, whose chain roll-forward recovery follows.
\<close>

theorem get_segment_type_ok:
  assumes "logs = 2 \<or> logs = 4 \<or> logs = 6"
  shows "\<exists>ty temp. get_segment_type logs fio = (ty, temp, False) \<and> ty < 6 \<and> (IS_DATASEG ty \<longleftrightarrow> io_type fio = DATA) \<and>
    (temp = HOT \<longleftrightarrow> ty \<in> {0, 3}) \<and> (temp = WARM \<longleftrightarrow> ty \<in> {1, 4}) \<and> (temp = COLD \<longleftrightarrow> ty \<in> {2, 5}) \<and>
    (logs = 6 \<and> io_type fio = NODE \<longrightarrow> (ty = CURSEG_WARM_NODE \<longleftrightarrow> io_dnode fio \<and> io_cold_node fio))"
  using assms
  by (cases "io_type fio"; cases "io_hint fio")
    (auto simp: get_segment_type_def get_segment_type_2_def get_segment_type_4_def get_segment_type_6_def rw_hint_to_seg_type_def
      IS_DATASEG_def CURSEG_WARM_NODE_def)

theorem get_segment_type_ok_witness:
  "\<exists>ty temp. get_segment_type 6 \<lparr>io_type = NODE, io_isdir = False, io_cold_data = False, io_file_cold = False, io_hot_data = False,
      io_hint = WRITE_LIFE_OTHER, io_dnode = True, io_cold_node = True\<rparr> = (ty, temp, False) \<and> ty = CURSEG_WARM_NODE"
  using get_segment_type_ok [of 6 "\<lparr>io_type = NODE, io_isdir = False, io_cold_data = False, io_file_cold = False, io_hot_data = False,
      io_hint = WRITE_LIFE_OTHER, io_dnode = True, io_cold_node = True\<rparr>"] by auto

end
