(* ===== verification/Two_Copies.thy ===== *)
theory Two_Copies
  imports Bitmap
begin

text \<open>
  The two on-disk copies of the node address table and the segment information table. Each table
  block has two places and a version bit that says which one is current; a flush writes the other place
  and flips the bit, so that the copy the last checkpoint refers to stays intact until the
  next checkpoint is complete. The address arithmetic of \<^verbatim>\<open>node.h\<close> and \<^verbatim>\<open>segment.h\<close> differs for the
  two tables; both meet the interface \<open>two_copies\<close>, in which this is proved once.
\<close>

section \<open>Address arithmetic\<close>

definition NAT_ENTRY_PER_BLOCK :: nat where "NAT_ENTRY_PER_BLOCK = 455"
definition SIT_ENTRY_PER_BLOCK :: nat where "SIT_ENTRY_PER_BLOCK = 55"

definition NAT_BLOCK_OFFSET :: "nat \<Rightarrow> nat" where "NAT_BLOCK_OFFSET start_nid = start_nid div NAT_ENTRY_PER_BLOCK"
definition START_NID :: "nat \<Rightarrow> nat" where "START_NID nid = nid div NAT_ENTRY_PER_BLOCK * NAT_ENTRY_PER_BLOCK"
definition SIT_BLOCK_OFFSET :: "nat \<Rightarrow> nat" where "SIT_BLOCK_OFFSET segno = segno div SIT_ENTRY_PER_BLOCK"
definition START_SEGNO :: "nat \<Rightarrow> nat" where "START_SEGNO segno = SIT_BLOCK_OFFSET segno * SIT_ENTRY_PER_BLOCK"
definition SIT_ENTRY_OFFSET :: "nat \<Rightarrow> nat" where "SIT_ENTRY_OFFSET segno = segno mod SIT_ENTRY_PER_BLOCK"

record nat_area =
  nat_blkaddr :: nat
  na_log_blocks_per_seg :: nat
  nat_bitmap :: "u8 list"

record sit_area =
  sit_base_addr :: nat
  sit_blocks :: nat
  sit_bitmap :: "u8 list"

definition current_nat_addr :: "nat_area \<Rightarrow> nat \<Rightarrow> nat" where
  "current_nat_addr nm start =
     (let block_off = NAT_BLOCK_OFFSET start;
          blocks_per_seg = 2 ^ na_log_blocks_per_seg nm;
          block_addr = nat_blkaddr nm + push_bit 1 block_off - (block_off AND (blocks_per_seg - 1))
      in if f2fs_test_bit block_off (nat_bitmap nm) \<noteq> 0 then block_addr + blocks_per_seg else block_addr)"

definition next_nat_addr :: "nat_area \<Rightarrow> nat \<Rightarrow> nat" where
  "next_nat_addr nm block_addr =
     ((block_addr - nat_blkaddr nm) XOR push_bit (na_log_blocks_per_seg nm) 1) + nat_blkaddr nm"

definition set_to_next_nat :: "nat \<Rightarrow> nat_area \<Rightarrow> nat_area" where
  "set_to_next_nat start_nid nm = nm\<lparr>nat_bitmap := f2fs_change_bit (NAT_BLOCK_OFFSET start_nid) (nat_bitmap nm)\<rparr>"

definition current_sit_addr :: "sit_area \<Rightarrow> nat \<Rightarrow> nat" where
  "current_sit_addr sit_i start =
     (let offset = SIT_BLOCK_OFFSET start; blk_addr = sit_base_addr sit_i + offset
      in if f2fs_test_bit offset (sit_bitmap sit_i) \<noteq> 0 then blk_addr + sit_blocks sit_i else blk_addr)"

definition next_sit_addr :: "sit_area \<Rightarrow> nat \<Rightarrow> nat" where
  "next_sit_addr sit_i block_addr =
     (let a = block_addr - sit_base_addr sit_i
      in (if a < sit_blocks sit_i then a + sit_blocks sit_i else a - sit_blocks sit_i) + sit_base_addr sit_i)"

definition set_to_next_sit :: "nat \<Rightarrow> sit_area \<Rightarrow> sit_area" where
  "set_to_next_sit start sit_i = sit_i\<lparr>sit_bitmap := f2fs_change_bit (SIT_BLOCK_OFFSET start) (sit_bitmap sit_i)\<rparr>"

text \<open>
  Getting the next page of a table: the NAT copies the current page, the SIT fills the page from memory
  (\<open>fill\<close> is \<^verbatim>\<open>seg_info_to_sit_page\<close> on the page). The meta area is a function from addresses to pages.
\<close>

definition get_current_nat_page :: "nat_area \<Rightarrow> (nat \<Rightarrow> 'p) \<Rightarrow> nat \<Rightarrow> 'p" where
  "get_current_nat_page nm meta nid = meta (current_nat_addr nm nid)"

definition get_next_nat_page :: "nat \<Rightarrow> nat_area \<times> (nat \<Rightarrow> 'p) \<Rightarrow> (nat_area \<times> (nat \<Rightarrow> 'p)) \<times> nat" where
  "get_next_nat_page nid st =
     (case st of (nm, meta) \<Rightarrow>
        let src_off = current_nat_addr nm nid; dst_off = next_nat_addr nm src_off
        in ((set_to_next_nat nid nm, meta(dst_off := meta src_off)), dst_off))"

definition get_current_sit_page :: "sit_area \<Rightarrow> (nat \<Rightarrow> 'p) \<Rightarrow> nat \<Rightarrow> 'p" where
  "get_current_sit_page sit_i meta segno = meta (current_sit_addr sit_i segno)"

definition get_next_sit_page :: "nat \<Rightarrow> ('p \<Rightarrow> 'p) \<Rightarrow> sit_area \<times> (nat \<Rightarrow> 'p) \<Rightarrow> (sit_area \<times> (nat \<Rightarrow> 'p)) \<times> nat" where
  "get_next_sit_page start fill st =
     (case st of (sit_i, meta) \<Rightarrow>
        let src_off = current_sit_addr sit_i start; dst_off = next_sit_addr sit_i src_off
        in ((set_to_next_sit start sit_i, meta(dst_off := fill (meta dst_off))), dst_off))"

section \<open>The interface\<close>

text \<open>
  \<open>loc s b\<close> is the place of block \<open>b\<close> that is current in \<open>s\<close>, \<open>alt s a\<close> the other place of the block at \<open>a\<close>.
\<close>

locale two_copies =
  fixes ok :: "'s \<Rightarrow> nat \<Rightarrow> bool" and loc :: "'s \<Rightarrow> nat \<Rightarrow> nat" and alt :: "'s \<Rightarrow> nat \<Rightarrow> nat" and flip :: "nat \<Rightarrow> 's \<Rightarrow> 's"
  assumes ok_flip: "ok s b \<Longrightarrow> ok (flip b s) c = ok s c"
    and alt_flip: "ok s b \<Longrightarrow> alt (flip b s) = alt s"
    and loc_flip: "ok s b \<Longrightarrow> ok s c \<Longrightarrow> loc (flip b s) c = (if c = b then alt s (loc s b) else loc s c)"
    and alt_alt: "ok s b \<Longrightarrow> alt s (alt s (loc s b)) = loc s b"
    and alt_other: "ok s b \<Longrightarrow> alt s (loc s b) \<noteq> loc s b"
    and apart: "ok s b \<Longrightarrow> ok s c \<Longrightarrow> b \<noteq> c \<Longrightarrow> loc s b \<noteq> loc s c \<and> loc s b \<noteq> alt s (loc s c)"
begin

lemma alt_apart: "ok s b \<Longrightarrow> ok s c \<Longrightarrow> b \<noteq> c \<Longrightarrow> alt s (loc s b) \<noteq> alt s (loc s c)"
  using apart [of "flip b s" b c] by (metis alt_alt apart)

text \<open>One block: the new version is read back, the old one is still there.\<close>

lemma write_next:
  fixes meta :: "nat \<Rightarrow> 'p" and v :: 'p
  assumes "ok s b"
  defines "meta' \<equiv> meta(alt s (loc s b) := v)"
  shows "meta' (loc (flip b s) b) = v" "\<And>c. ok s c \<Longrightarrow> c \<noteq> b \<Longrightarrow> meta' (loc (flip b s) c) = meta (loc s c)"
    "\<And>c. ok s c \<Longrightarrow> meta' (loc s c) = meta (loc s c)"
proof -
  show "meta' (loc (flip b s) b) = v" using loc_flip [OF assms(1,1)] by (simp add: meta'_def)
  show "meta' (loc (flip b s) c) = meta (loc s c)" if "ok s c" "c \<noteq> b" for c
    using loc_flip [OF assms(1) that(1)] apart [OF that(1) assms(1)] that(2) by (simp add: meta'_def)
  show "meta' (loc s c) = meta (loc s c)" if "ok s c" for c
    using alt_other [OF assms(1)] apart [OF that assms(1)] by (cases "c = b") (auto simp: meta'_def)
qed

text \<open>
  A flush of several different blocks, each computed from its current version: afterwards every block reads as
  written, and with the old version bits every block still reads as before the flush.
\<close>

lemma flush:
  fixes ws :: "(nat \<times> ('p \<Rightarrow> 'p)) list" and meta :: "nat \<Rightarrow> 'p"
  defines "wr \<equiv> \<lambda>(b, f) (s, meta). (flip b s, meta(alt s (loc s b) := f (meta (loc s b))))"
  assumes "\<forall>b \<in> fst ` set ws. ok s b" "distinct (map fst ws)" "fold wr ws (s, meta) = (s', meta')"
  shows "ok s b \<Longrightarrow> ok s' b" "ok s b \<Longrightarrow> meta' (loc s b) = meta (loc s b)"
    "ok s b \<Longrightarrow> meta' (loc s' b) = (case map_of ws b of Some f \<Rightarrow> f (meta (loc s b)) | None \<Rightarrow> meta (loc s b))"
proof -
  have "(\<forall>b. ok s b \<longrightarrow> ok s' b \<and> meta' (loc s b) = meta (loc s b) \<and>
      meta' (loc s' b) = (case map_of ws b of Some f \<Rightarrow> f (meta (loc s b)) | None \<Rightarrow> meta (loc s b)) \<and>
      (b \<notin> fst ` set ws \<longrightarrow> meta' (alt s (loc s b)) = meta (alt s (loc s b))))"
    using assms(2-4)
  proof (induction ws arbitrary: s meta)
    case Nil
    then show ?case by simp
  next
    case (Cons w ws)
    obtain b f where w: "w = (b, f)" by force
    have b: "ok s b" "b \<notin> fst ` set ws" using Cons.prems(1,2) w by auto
    let ?s1 = "flip b s" and ?m1 = "meta(alt s (loc s b) := f (meta (loc s b)))"
    have ok1: "ok ?s1 c = ok s c" for c by (rule ok_flip [OF b(1)])
    have alt1: "alt ?s1 = alt s" by (rule alt_flip [OF b(1)])
    have "\<forall>c. ok s c \<longrightarrow> ok s' c \<and> meta' (loc ?s1 c) = ?m1 (loc ?s1 c) \<and>
        meta' (loc s' c) = (case map_of ws c of Some f \<Rightarrow> f (?m1 (loc ?s1 c)) | None \<Rightarrow> ?m1 (loc ?s1 c)) \<and>
        (c \<notin> fst ` set ws \<longrightarrow> meta' (alt s (loc ?s1 c)) = ?m1 (alt s (loc ?s1 c)))"
    proof -
      have "\<forall>b \<in> fst ` set ws. ok ?s1 b" "distinct (map fst ws)" "fold wr ws (?s1, ?m1) = (s', meta')"
        using Cons.prems ok1 w by (auto simp: wr_def)
      from Cons.IH [OF this] show ?thesis unfolding ok1 alt1 .
    qed
    then have ih: "ok s c \<Longrightarrow> ok s' c" "ok s c \<Longrightarrow> meta' (loc ?s1 c) = ?m1 (loc ?s1 c)"
      "ok s c \<Longrightarrow> meta' (loc s' c) = (case map_of ws c of Some f \<Rightarrow> f (?m1 (loc ?s1 c)) | None \<Rightarrow> ?m1 (loc ?s1 c))"
      "ok s c \<Longrightarrow> c \<notin> fst ` set ws \<Longrightarrow> meta' (alt s (loc ?s1 c)) = ?m1 (alt s (loc ?s1 c))" for c
      by blast+
    note one = write_next [OF b(1), where meta = meta and v = "f (meta (loc s b))"]
    have lb: "loc ?s1 b = alt s (loc s b)" "map_of ws b = None"
      using loc_flip [OF b(1,1)] b(2) by (simp_all add: map_of_eq_None_iff)
    show ?case
    proof (intro allI impI)
      fix c assume c: "ok s c"
      show "ok s' c \<and> meta' (loc s c) = meta (loc s c) \<and>
        meta' (loc s' c) = (case map_of (w # ws) c of Some f \<Rightarrow> f (meta (loc s c)) | None \<Rightarrow> meta (loc s c)) \<and>
        (c \<notin> fst ` set (w # ws) \<longrightarrow> meta' (alt s (loc s c)) = meta (alt s (loc s c)))"
      proof (cases "c = b")
        case True
        have "meta' (loc s b) = meta (loc s b)"
          using ih(4) [OF b(1,2)] alt_alt [OF b(1)] alt_other [OF b(1)] lb(1) by simp
        then show ?thesis using ih(1,3) [OF b(1)] lb True w by simp
      next
        case False
        have l: "loc ?s1 c = loc s c" using loc_flip [OF b(1) c] False by simp
        have m: "?m1 (loc s c) = meta (loc s c)" using one(3) [OF c] .
        have a: "?m1 (alt s (loc s c)) = meta (alt s (loc s c))" using alt_apart [OF c b(1)] False by simp
        have "map_of (w # ws) c = map_of ws c" using False w by simp
        then show ?thesis using ih [OF c, unfolded l m a] w by simp
      qed
    qed
  qed
  then show "ok s b \<Longrightarrow> ok s' b" "ok s b \<Longrightarrow> meta' (loc s b) = meta (loc s b)"
    "ok s b \<Longrightarrow> meta' (loc s' b) = (case map_of ws b of Some f \<Rightarrow> f (meta (loc s b)) | None \<Rightarrow> meta (loc s b))"
    by blast+
qed

end

section \<open>The tables meet the interface\<close>

lemma xor_exp:
  fixes q r k :: nat
  assumes "r < 2 ^ k"
  shows "(q * (2 * 2 ^ k) + r) XOR push_bit k 1 = q * (2 * 2 ^ k) + r + 2 ^ k"
    "(q * (2 * 2 ^ k) + r + 2 ^ k) XOR push_bit k 1 = q * (2 * 2 ^ k) + r"
proof -
  let ?n = "q * (2 * 2 ^ k) + r"
  have d: "?n div 2 ^ k = 2 * q" "(?n + 2 ^ k) div 2 ^ k = 2 * q + 1"
    using assms by (simp_all add: mult.assoc [symmetric] div_add1_eq)
  have b: "\<not> bit ?n k" "bit (?n + 2 ^ k) k" by (simp_all only: bit_iff_odd d) simp_all
  show first: "?n XOR push_bit k 1 = ?n + 2 ^ k"
    using b(1) by (simp only: flip_bit_eq_xor [symmetric] flip_bit_eq_if set_bit_eq if_False) simp
  show "(?n + 2 ^ k) XOR push_bit k 1 = ?n"
    unfolding first [symmetric] by (simp add: xor.assoc)
qed

text \<open>The place of NAT block \<open>b\<close>, relative to the table.\<close>

definition nat_slot :: "nat \<Rightarrow> nat \<Rightarrow> bool \<Rightarrow> nat" where
  "nat_slot k b second = b div 2 ^ k * (2 * 2 ^ k) + b mod 2 ^ k + (if second then 2 ^ k else 0)"

lemma nat_slot_inj:
  assumes "nat_slot k b x = nat_slot k c y"
  shows "b = c \<and> x = y"
proof -
  have lt: "b mod 2 ^ k < 2 ^ k" "c mod 2 ^ k < 2 ^ k" for b c :: nat by simp_all
  have slot: "nat_slot k b x div (2 * 2 ^ k) = b div 2 ^ k \<and> nat_slot k b x mod (2 * 2 ^ k) = b mod 2 ^ k + (if x then 2 ^ k else 0)" for b x
  proof -
    have "r + (if x then p else 0) < 2 * p" if "r < p" for r p :: nat using that by simp
    from this [OF lt(1) [of b]] show ?thesis unfolding nat_slot_def add.assoc by (simp del: if_split)
  qed
  have q: "b div 2 ^ k = c div 2 ^ k" "b mod 2 ^ k + (if x then 2 ^ k else 0) = c mod 2 ^ k + (if y then 2 ^ k else 0)"
    using slot [of b x] slot [of c y] assms by simp_all
  have "r + (if x then p else 0) = r' + (if y then p else 0) \<Longrightarrow> r < p \<Longrightarrow> r' < p \<Longrightarrow> r = r' \<and> x = y" for r r' p :: nat
    by (auto split: if_splits)
  from this [OF q(2) lt(1) lt(1)] have "b mod 2 ^ k = c mod 2 ^ k" "x = y" by simp_all
  then show ?thesis using q(1) div_mult_mod_eq [of b "2 ^ k"] div_mult_mod_eq [of c "2 ^ k"] by metis
qed

lemma current_nat_slot:
  "current_nat_addr nm nid = nat_blkaddr nm +
     nat_slot (na_log_blocks_per_seg nm) (NAT_BLOCK_OFFSET nid) (f2fs_test_bit (NAT_BLOCK_OFFSET nid) (nat_bitmap nm) \<noteq> 0)"
proof -
  let ?b = "NAT_BLOCK_OFFSET nid" and ?p = "2 ^ na_log_blocks_per_seg nm :: nat"
  have "?b AND (?p - 1) = ?b mod ?p" by (simp only: mask_eq_exp_minus_1 [symmetric] take_bit_eq_mask [symmetric] take_bit_eq_mod)
  moreover have "push_bit 1 ?b - ?b mod ?p = ?b div ?p * (2 * ?p) + ?b mod ?p"
    using div_mult_mod_eq [of ?b ?p] by (simp add: push_bit_eq_mult)
  moreover have "?b mod ?p \<le> push_bit 1 ?b" using mod_less_eq_dividend [of ?b ?p] unfolding push_bit_eq_mult power_one_right by linarith
  ultimately have "nat_blkaddr nm + push_bit 1 ?b - (?b AND (?p - 1)) = nat_blkaddr nm + (?b div ?p * (2 * ?p) + ?b mod ?p)"
    by (metis Nat.add_diff_assoc)
  then show ?thesis unfolding current_nat_addr_def nat_slot_def Let_def by (simp only: add.assoc if_distrib add_0_right split: if_split) simp
qed

lemma next_nat_slot:
  "next_nat_addr nm (nat_blkaddr nm + nat_slot (na_log_blocks_per_seg nm) b x) = nat_blkaddr nm + nat_slot (na_log_blocks_per_seg nm) b (\<not> x)"
  using xor_exp [of "b mod 2 ^ na_log_blocks_per_seg nm" "na_log_blocks_per_seg nm" "b div 2 ^ na_log_blocks_per_seg nm"]
  by (cases x) (simp_all add: next_nat_addr_def nat_slot_def)

lemma nat_block_start: "NAT_BLOCK_OFFSET (b * NAT_ENTRY_PER_BLOCK) = b"
  by (simp add: NAT_BLOCK_OFFSET_def NAT_ENTRY_PER_BLOCK_def)

lemma sit_block_start: "SIT_BLOCK_OFFSET (b * SIT_ENTRY_PER_BLOCK) = b"
  by (simp add: SIT_BLOCK_OFFSET_def SIT_ENTRY_PER_BLOCK_def)

definition nat_ok :: "nat_area \<Rightarrow> nat \<Rightarrow> bool" where "nat_ok nm b \<longleftrightarrow> b < 8 * length (nat_bitmap nm)"
definition sit_ok :: "sit_area \<Rightarrow> nat \<Rightarrow> bool" where
  "sit_ok sit_i b \<longleftrightarrow> b < 8 * length (sit_bitmap sit_i) \<and> b < sit_blocks sit_i"

interpretation nat2: two_copies nat_ok "\<lambda>nm b. current_nat_addr nm (b * NAT_ENTRY_PER_BLOCK)" next_nat_addr
  "\<lambda>b. set_to_next_nat (b * NAT_ENTRY_PER_BLOCK)"
proof (unfold_locales, goal_cases)
  case (1 s b c)
  then show ?case by (simp add: nat_ok_def set_to_next_nat_def)
next
  case (2 s b)
  then show ?case by (simp add: fun_eq_iff next_nat_addr_def set_to_next_nat_def)
next
  case (3 s b c)
  then show ?case
    by (simp add: current_nat_slot next_nat_slot nat_block_start set_to_next_nat_def nat_ok_def f2fs_change_bit_test)
next
  case (4 s b)
  then show ?case by (simp add: current_nat_slot next_nat_slot)
next
  case (5 s b)
  then show ?case using nat_slot_inj by (fastforce simp: current_nat_slot next_nat_slot)
next
  case (6 s b c)
  then show ?case using nat_slot_inj by (fastforce simp: current_nat_slot next_nat_slot nat_block_start)
qed

interpretation sit2: two_copies sit_ok "\<lambda>sit_i b. current_sit_addr sit_i (b * SIT_ENTRY_PER_BLOCK)" next_sit_addr
  "\<lambda>b. set_to_next_sit (b * SIT_ENTRY_PER_BLOCK)"
proof (unfold_locales, goal_cases)
  case (1 s b c)
  then show ?case by (simp add: sit_ok_def set_to_next_sit_def)
next
  case (2 s b)
  then show ?case by (simp add: fun_eq_iff next_sit_addr_def set_to_next_sit_def Let_def)
next
  case (3 s b c)
  then show ?case
    using f2fs_change_bit_test [of b "sit_bitmap s" c]
    by (auto simp: current_sit_addr_def next_sit_addr_def sit_block_start set_to_next_sit_def sit_ok_def Let_def)
qed (auto simp: current_sit_addr_def next_sit_addr_def sit_block_start sit_ok_def Let_def)

end
