(* ===== verification/Journal.thy ===== *)
theory Journal
  imports F2fs_Prelude
begin

text \<open>
  The journals in the summary blocks: a few table entries that a checkpoint stores next to the summaries
  instead of writing whole table blocks. A journal holds either NAT or SIT entries (\<^verbatim>\<open>struct f2fs_journal\<close> is a
  union), so it is modelled once over the kind of entry, with the capacity of its kind as an argument. It meets the
  interface \<open>small_table\<close> of a bounded table.
\<close>

record 'e f2fs_journal =
  n_ents :: nat
  j_entries :: "(nat \<times> 'e) list"

definition NAT_JOURNAL_ENTRIES :: nat where "NAT_JOURNAL_ENTRIES = (507 - 2) div 13"
definition SIT_JOURNAL_ENTRIES :: nat where "SIT_JOURNAL_ENTRIES = (507 - 2) div 78"

text \<open>\<^verbatim>\<open>update_nats_in_cursum\<close> and \<^verbatim>\<open>update_sits_in_cursum\<close>: the count is a 16-bit field.\<close>

definition update_ents_in_cursum :: "'e f2fs_journal \<Rightarrow> int \<Rightarrow> 'e f2fs_journal \<times> int" where
  "update_ents_in_cursum journal i =
     (let before = n_ents journal in (journal\<lparr>n_ents := nat ((int before + i) mod 2 ^ 16)\<rparr>, int before))"

text \<open>The capacity is a \<^verbatim>\<open>sizeof\<close> quotient, so the comparison is unsigned.\<close>

definition has_cursum_space :: "nat \<Rightarrow> 'e f2fs_journal \<Rightarrow> nat \<Rightarrow> bool" where
  "has_cursum_space cap journal sz \<longleftrightarrow> int sz mod 2 ^ 64 \<le> (int cap - int (n_ents journal)) mod 2 ^ 64"

definition lookup_journal_in_cursum :: "nat \<Rightarrow> 'e f2fs_journal \<Rightarrow> nat \<Rightarrow> bool \<Rightarrow> 'e f2fs_journal \<times> int" where
  "lookup_journal_in_cursum cap journal val alloc =
     (case find (\<lambda>i. fst (j_entries journal ! i) = val) [0..<n_ents journal] of
        Some i \<Rightarrow> (journal, int i)
      | None \<Rightarrow> if alloc \<and> has_cursum_space cap journal 1 then update_ents_in_cursum journal 1 else (journal, - 1))"

text \<open>Finding the place of a key and storing the entry there, as the flushes do; the last result is the failed assertion.\<close>

definition journal_store :: "nat \<Rightarrow> nat \<Rightarrow> 'e \<Rightarrow> 'e f2fs_journal \<Rightarrow> 'e f2fs_journal \<times> bool" where
  "journal_store cap key e journal =
     (case lookup_journal_in_cursum cap journal key True of
        (journal, offset) \<Rightarrow> (journal\<lparr>j_entries := (j_entries journal)[nat offset := (key, e)]\<rparr>, offset < 0))"

section \<open>A journal is a small table\<close>

definition jnl_ok :: "nat \<Rightarrow> 'e f2fs_journal \<Rightarrow> bool" where
  "jnl_ok cap j \<longleftrightarrow> cap < 2 ^ 16 \<and> n_ents j \<le> cap \<and> length (j_entries j) = cap \<and> distinct (map fst (take (n_ents j) (j_entries j)))"

definition jmap :: "'e f2fs_journal \<Rightarrow> nat \<rightharpoonup> 'e" where
  "jmap j = map_of (take (n_ents j) (j_entries j))"

lemma has_space_iff: "jnl_ok cap j \<Longrightarrow> sz < 2 ^ 64 \<Longrightarrow> has_cursum_space cap j sz \<longleftrightarrow> sz \<le> cap - n_ents j"
  by (auto simp: has_cursum_space_def jnl_ok_def)

lemma find_key:
  assumes "jnl_ok cap j"
  shows "find (\<lambda>i. fst (j_entries j ! i) = k) [0..<n_ents j] = Some i \<Longrightarrow> i < n_ents j \<and> fst (j_entries j ! i) = k"
    "find (\<lambda>i. fst (j_entries j ! i) = k) [0..<n_ents j] = None \<longleftrightarrow> k \<notin> dom (jmap j)"
proof -
  show "find (\<lambda>i. fst (j_entries j ! i) = k) [0..<n_ents j] = Some i \<Longrightarrow> i < n_ents j \<and> fst (j_entries j ! i) = k"
    by (auto simp: find_Some_iff)
  have "set (take (n_ents j) (j_entries j)) = (\<lambda>i. j_entries j ! i) ` {0..<n_ents j}"
    using assms nth_image [of "n_ents j" "j_entries j"] by (simp add: jnl_ok_def)
  then have "(\<exists>i < n_ents j. fst (j_entries j ! i) = k) \<longleftrightarrow> k \<in> fst ` set (take (n_ents j) (j_entries j))"
    by force
  then show "find (\<lambda>i. fst (j_entries j ! i) = k) [0..<n_ents j] = None \<longleftrightarrow> k \<notin> dom (jmap j)"
    by (auto simp: find_None_iff jmap_def dom_map_of_conv_image_fst)
qed

lemma map_of_update_same:
  assumes "distinct (map fst xs)" "i < length xs" "fst (xs ! i) = k"
  shows "map_of (xs[i := (k, v)]) = (map_of xs)(k \<mapsto> v)"
  using assms
proof (induction xs arbitrary: i)
  case (Cons x xs)
  then show ?case
  proof (cases i)
    case (Suc i')
    have "fst (xs ! i') \<in> fst ` set xs" using Cons.prems Suc by (intro imageI nth_mem) simp
    then have "fst x \<noteq> k" using Cons.prems Suc by auto
    then show ?thesis using Cons Suc by (auto simp: fun_eq_iff)
  qed (cases x, auto)
qed simp

lemma map_of_snoc_new: "k \<notin> fst ` set xs \<Longrightarrow> map_of (xs @ [(k, v)]) = (map_of xs)(k \<mapsto> v)"
  by (induction xs) auto

lemma journal_store_ok:
  assumes ok: "jnl_ok cap j" and room: "k \<in> dom (jmap j) \<or> n_ents j < cap"
    and st: "journal_store cap k e j = (j', bug)"
  shows "jnl_ok cap j'" "\<not> bug" "jmap j' = (jmap j)(k \<mapsto> e)" "n_ents j' = (if k \<in> dom (jmap j) then n_ents j else n_ents j + 1)"
proof -
  let ?n = "n_ents j" and ?xs = "j_entries j"
  have n: "?n \<le> cap" "length ?xs = cap" "cap < 2 ^ 16" "distinct (map fst (take ?n ?xs))" using ok by (simp_all add: jnl_ok_def)
  have "jnl_ok cap j' \<and> \<not> bug \<and> jmap j' = (jmap j)(k \<mapsto> e) \<and> n_ents j' = (if k \<in> dom (jmap j) then ?n else ?n + 1)"
  proof (cases "k \<in> dom (jmap j)")
    case True
    then obtain i where f: "find (\<lambda>i. fst (?xs ! i) = k) [0..<?n] = Some i" using find_key(2) [OF ok, of k] by blast
    then have i: "i < ?n" "fst (?xs ! i) = k" using find_key(1) [OF ok] by blast+
    have j': "j' = j\<lparr>j_entries := ?xs[i := (k, e)]\<rparr>" "\<not> bug" using st f by (auto simp: journal_store_def lookup_journal_in_cursum_def)
    have tk: "take ?n (?xs[i := (k, e)]) = (take ?n ?xs)[i := (k, e)]" by (rule take_update_swap)
    have "map fst ((take ?n ?xs)[i := (k, e)]) = map fst (take ?n ?xs)" using i n by (simp add: map_update list_update_same_conv)
    then have "jnl_ok cap j'" using n j' tk by (simp add: jnl_ok_def)
    moreover have "jmap j' = (jmap j)(k \<mapsto> e)"
      using map_of_update_same [OF n(4), of i k e] i n by (simp add: jmap_def j' tk)
    ultimately show ?thesis using True j' by simp
  next
    case False
    then have lt: "?n < cap" using room by blast
    have "find (\<lambda>i. fst (?xs ! i) = k) [0..<?n] = None" using find_key(2) [OF ok, of k] False by blast
    then have j': "j' = j\<lparr>n_ents := ?n + 1, j_entries := ?xs[?n := (k, e)]\<rparr>" "\<not> bug"
      using st lt n has_space_iff [OF ok, of 1]
      by (auto simp: journal_store_def lookup_journal_in_cursum_def update_ents_in_cursum_def Let_def nat_add_distrib)
    have tk: "take (Suc ?n) (?xs[?n := (k, e)]) = take ?n ?xs @ [(k, e)]" using lt n by (simp add: take_Suc_conv_app_nth)
    have nin: "k \<notin> fst ` set (take ?n ?xs)" using False by (simp add: jmap_def dom_map_of_conv_image_fst)
    have "jnl_ok cap j'" using n lt j' tk nin by (simp add: jnl_ok_def)
    moreover have "jmap j' = (jmap j)(k \<mapsto> e)" using map_of_snoc_new [OF nin] by (simp add: jmap_def j' tk)
    ultimately show ?thesis using False j' by simp
  qed
  then show "jnl_ok cap j'" "\<not> bug" "jmap j' = (jmap j)(k \<mapsto> e)" "n_ents j' = (if k \<in> dom (jmap j) then n_ents j else n_ents j + 1)"
    by blast+
qed

text \<open>The interface: storing keeps the table well-formed and changes exactly one key, as long as there is room.\<close>

locale small_table =
  fixes wf :: "'t \<Rightarrow> bool" and get :: "'t \<Rightarrow> nat \<rightharpoonup> 'e" and room :: "'t \<Rightarrow> nat" and store :: "nat \<Rightarrow> 'e \<Rightarrow> 't \<Rightarrow> 't"
  assumes store_wf: "wf t \<Longrightarrow> 0 < room t \<Longrightarrow> wf (store k e t)"
    and store_get: "wf t \<Longrightarrow> 0 < room t \<Longrightarrow> get (store k e t) = (get t)(k \<mapsto> e)"
    and store_room: "wf t \<Longrightarrow> 0 < room t \<Longrightarrow> room t \<le> room (store k e t) + 1"
begin

lemma store_all:
  assumes "wf t" "length kes \<le> room t"
  defines "t' \<equiv> fold (\<lambda>(k, e). store k e) kes t"
  shows "wf t'" "get t' = get t ++ map_of (rev kes)" "room t \<le> room t' + length kes"
proof -
  have "wf t' \<and> get t' = get t ++ map_of (rev kes) \<and> room t \<le> room t' + length kes"
    unfolding t'_def using assms(1,2)
  proof (induction kes arbitrary: t)
    case (Cons x kes)
    obtain k e where x: "x = (k, e)" by force
    have pos: "0 < room t" using Cons.prems by simp
    have "length kes \<le> room (store k e t)" using store_room [OF Cons.prems(1) pos, of k e] Cons.prems(2) by simp
    note ih = Cons.IH [OF store_wf [OF Cons.prems(1) pos] this]
    let ?t' = "fold (\<lambda>(k, e). store k e) kes (store k e t)"
    have "get ?t' = get (store k e t) ++ map_of (rev kes)" using ih by blast
    also have "\<dots> = (get t)(k \<mapsto> e) ++ map_of (rev kes)" by (simp only: store_get [OF Cons.prems(1) pos])
    also have "\<dots> = get t ++ map_of (rev (x # kes))" by (rule ext) (simp add: x map_add_def split: option.splits)
    finally have "get ?t' = get t ++ map_of (rev (x # kes))" .
    then show ?case using ih store_room [OF Cons.prems(1) pos, of k e] by (simp add: x)
  qed simp
  then show "wf t'" "get t' = get t ++ map_of (rev kes)" "room t \<le> room t' + length kes" by blast+
qed

end

interpretation sjnl: small_table "jnl_ok SIT_JOURNAL_ENTRIES" jmap "\<lambda>j. SIT_JOURNAL_ENTRIES - n_ents j"
  "\<lambda>k e j. fst (journal_store SIT_JOURNAL_ENTRIES k e j)"
proof (unfold_locales, goal_cases)
  case (1 j k e)
  then show ?case using journal_store_ok(1) [of _ j k e] by (metis prod.collapse zero_less_diff)
next
  case (2 j k e)
  then show ?case using journal_store_ok(3) [of _ j k e] by (metis prod.collapse zero_less_diff)
next
  case (3 j k e)
  then have "n_ents (fst (journal_store SIT_JOURNAL_ENTRIES k e j)) \<le> n_ents j + 1"
    using journal_store_ok(4) [of SIT_JOURNAL_ENTRIES j k e] by (metis le_add1 order_refl prod.collapse zero_less_diff)
  then show ?case by linarith
qed

interpretation njnl: small_table "jnl_ok NAT_JOURNAL_ENTRIES" jmap "\<lambda>j. NAT_JOURNAL_ENTRIES - n_ents j"
  "\<lambda>k e j. fst (journal_store NAT_JOURNAL_ENTRIES k e j)"
proof (unfold_locales, goal_cases)
  case (1 j k e)
  then show ?case using journal_store_ok(1) [of _ j k e] by (metis prod.collapse zero_less_diff)
next
  case (2 j k e)
  then show ?case using journal_store_ok(3) [of _ j k e] by (metis prod.collapse zero_less_diff)
next
  case (3 j k e)
  then have "n_ents (fst (journal_store NAT_JOURNAL_ENTRIES k e j)) \<le> n_ents j + 1"
    using journal_store_ok(4) [of NAT_JOURNAL_ENTRIES j k e] by (metis le_add1 order_refl prod.collapse zero_less_diff)
  then show ?case by linarith
qed

end
