(* ===== verification/Sit_Flush.thy ===== *)
theory Sit_Flush
  imports Dirty_Seglist Two_Copies Journal
begin

text \<open>
  Writing the segment information table at a checkpoint (\<^verbatim>\<open>flush_sit_entries\<close> and its helpers in \<^verbatim>\<open>segment.c\<close>)
  and reading it back at mount. Dirty entries are grouped by table block; groups go to the journal while they fit,
  the rest to the next copy of their block. The table a mount sees is the current copy overlaid with
  the journal. Discard candidates, which the flush also collects, are left out.
\<close>

section \<open>Sets of dirty entries\<close>

record sit_entry_set =
  ses_start :: nat
  entry_cnt :: nat

text \<open>The rest of the list after the set, with the set moved behind the sets that have fewer entries.\<close>

definition adjust_sit_entry_set :: "sit_entry_set \<Rightarrow> sit_entry_set list \<Rightarrow> sit_entry_set list" where
  "adjust_sit_entry_set ses rest =
     takeWhile (\<lambda>nxt. \<not> entry_cnt ses \<le> entry_cnt nxt) rest @ ses # dropWhile (\<lambda>nxt. \<not> entry_cnt ses \<le> entry_cnt nxt) rest"

fun bump_sit_entry :: "nat \<Rightarrow> sit_entry_set list \<Rightarrow> sit_entry_set list option" where
  "bump_sit_entry start [] = None"
| "bump_sit_entry start (ses # rest) =
     (if ses_start ses = start then Some (adjust_sit_entry_set (ses\<lparr>entry_cnt := entry_cnt ses + 1\<rparr>) rest)
      else map_option ((#) ses) (bump_sit_entry start rest))"

definition add_sit_entry :: "nat \<Rightarrow> sit_entry_set list \<Rightarrow> sit_entry_set list" where
  "add_sit_entry segno head =
     (case bump_sit_entry (START_SEGNO segno) head of
        Some head \<Rightarrow> head
      | None \<Rightarrow> \<lparr>ses_start = START_SEGNO segno, entry_cnt = 1\<rparr> # head)"

definition add_sits_in_set :: "nat \<Rightarrow> bool list \<Rightarrow> sit_entry_set list \<Rightarrow> sit_entry_set list" where
  "add_sits_in_set segs bitmap head = fold add_sit_entry (filter (\<lambda>s. test_bit s bitmap) [0..<segs]) head"

section \<open>The flush\<close>

record sit_mgr =
  fl_sit :: sit_info
  fl_area :: sit_area
  fl_meta :: "nat \<Rightarrow> f2fs_sit_entry list"
  fl_jnl :: "f2fs_sit_entry f2fs_journal"
  fl_bug :: bool

definition remove_journal_step :: "nat \<Rightarrow> sit_mgr \<times> sit_entry_set list \<Rightarrow> sit_mgr \<times> sit_entry_set list" where
  "remove_journal_step i sh =
     (case sh of (st, head) \<Rightarrow>
        let segno = fst (j_entries (fl_jnl st) ! i); (sit, dirtied) = mark_sit_entry_dirty segno (fl_sit st)
        in (st\<lparr>fl_sit := sit\<rparr>, if \<not> dirtied then add_sit_entry segno head else head))"

definition remove_sits_in_journal :: "sit_mgr \<Rightarrow> sit_entry_set list \<Rightarrow> sit_mgr \<times> sit_entry_set list" where
  "remove_sits_in_journal st head =
     (let n = n_ents (fl_jnl st); (st, head) = fold remove_journal_step [0..<n] (st, head)
      in (st\<lparr>fl_jnl := fst (update_ents_in_cursum (fl_jnl st) (- int n))\<rparr>, head))"

text \<open>Flushing one entry: to the journal, or into the page at \<open>dst\<close>.\<close>

definition flush_mem :: "nat \<Rightarrow> sit_info \<Rightarrow> sit_info" where
  "flush_mem segno sit =
     (put_seg_entry segno (fst (seg_info_to_raw_sit (get_seg_entry sit segno))) sit)
       \<lparr>dirty_sentries_bitmap := (dirty_sentries_bitmap sit)[segno := False], dirty_sentries := dirty_sentries sit - 1\<rparr>"

definition flush_sit_entry :: "bool \<Rightarrow> nat \<Rightarrow> nat \<Rightarrow> sit_mgr \<Rightarrow> sit_mgr" where
  "flush_sit_entry to_journal dst segno st =
     (let raw = snd (seg_info_to_raw_sit (get_seg_entry (fl_sit st) segno));
          st = (if to_journal then
                  (case journal_store SIT_JOURNAL_ENTRIES segno raw (fl_jnl st) of
                     (j, bug) \<Rightarrow> st\<lparr>fl_jnl := j, fl_bug := fl_bug st \<or> bug\<rparr>)
                else st\<lparr>fl_meta := (fl_meta st)(dst := (fl_meta st dst)[SIT_ENTRY_OFFSET segno := raw])\<rparr>)
      in st\<lparr>fl_sit := flush_mem segno (fl_sit st)\<rparr>)"

definition flush_sit_set :: "nat \<Rightarrow> sit_entry_set \<Rightarrow> bool \<times> sit_mgr \<Rightarrow> bool \<times> sit_mgr" where
  "flush_sit_set segs ses ts =
     (case ts of (to_journal, st) \<Rightarrow>
        let start = ses_start ses;
            end = min (start + SIT_ENTRY_PER_BLOCK) segs;
            to_journal = (to_journal \<and> has_cursum_space SIT_JOURNAL_ENTRIES (fl_jnl st) (entry_cnt ses));
            (st, dst) =
              (if to_journal then (st, 0)
               else case get_next_sit_page start (\<lambda>page. seg_info_to_sit_page SIT_ENTRY_PER_BLOCK segs (sentries (fl_sit st)) page start)
                           (fl_area st, fl_meta st) of
                      ((a, m), dst) \<Rightarrow> (st\<lparr>fl_area := a, fl_meta := m\<rparr>, dst));
            ss = filter (\<lambda>s. test_bit s (dirty_sentries_bitmap (fl_sit st))) [start..<end];
            st = fold (flush_sit_entry to_journal dst) ss st
        in (to_journal, st\<lparr>fl_bug := fl_bug st \<or> int (entry_cnt ses) - int (length ss) \<noteq> 0\<rparr>))"

definition flush_sit_entries :: "nat \<Rightarrow> sit_mgr \<Rightarrow> sit_mgr" where
  "flush_sit_entries segs st =
     (if dirty_sentries (fl_sit st) = 0 then st
      else
        let head = add_sits_in_set segs (dirty_sentries_bitmap (fl_sit st)) [];
            (st, head) =
              (if \<not> has_cursum_space SIT_JOURNAL_ENTRIES (fl_jnl st) (nat (dirty_sentries (fl_sit st)))
               then remove_sits_in_journal st head else (st, head));
            (to_journal, st) = fold (flush_sit_set segs) head (True, st)
        in st\<lparr>fl_bug := fl_bug st \<or> dirty_sentries (fl_sit st) \<noteq> 0\<rparr>)"

text \<open>The entry of a segment a mount would read: from the journal if it has one, else from the current copy.\<close>

definition sit_view :: "sit_mgr \<Rightarrow> nat \<Rightarrow> f2fs_sit_entry" where
  "sit_view st segno =
     (case jmap (fl_jnl st) segno of
        Some e \<Rightarrow> e
      | None \<Rightarrow> get_current_sit_page (fl_area st) (fl_meta st) segno ! SIT_ENTRY_OFFSET segno)"

section \<open>The sets count the dirty entries\<close>

abbreviation set_pairs :: "sit_entry_set list \<Rightarrow> (nat \<times> nat) list" where
  "set_pairs head \<equiv> map (\<lambda>ses. (ses_start ses, entry_cnt ses)) head"

definition sets_for :: "nat list \<Rightarrow> sit_entry_set list \<Rightarrow> bool" where
  "sets_for ss head \<longleftrightarrow> distinct (map ses_start head) \<and>
     (\<forall>a. map_of (set_pairs head) a =
        (let c = length (filter (\<lambda>s. START_SEGNO s = a) ss) in if c = 0 then None else Some c))"

lemma map_of_insert_mid:
  "k \<notin> fst ` set (xs @ ys) \<Longrightarrow> map_of (xs @ (k, v) # ys) = (map_of (xs @ ys))(k \<mapsto> v)"
  by (induction xs) auto

lemma adjust_set:
  assumes "distinct (map ses_start (ses # rest))"
  shows "distinct (map ses_start (adjust_sit_entry_set ses rest))"
    "set (adjust_sit_entry_set ses rest) = insert ses (set rest)"
    "map_of (set_pairs (adjust_sit_entry_set ses rest)) = (map_of (set_pairs rest))(ses_start ses \<mapsto> entry_cnt ses)"
proof -
  let ?P = "\<lambda>nxt. \<not> entry_cnt ses \<le> entry_cnt nxt"
  have split: "takeWhile ?P rest @ dropWhile ?P rest = rest" by simp
  have set: "set (takeWhile ?P rest) \<union> set (dropWhile ?P rest) = set rest" by (metis set_append split)
  show "set (adjust_sit_entry_set ses rest) = insert ses (set rest)" unfolding adjust_sit_entry_set_def using set by auto
  have "distinct (map ses_start (takeWhile ?P rest) @ map ses_start (dropWhile ?P rest))"
    using assms by (metis distinct.simps(2) list.simps(9) map_append split)
  moreover have "ses_start ses \<notin> ses_start ` set rest" using assms by simp
  ultimately show "distinct (map ses_start (adjust_sit_entry_set ses rest))"
    unfolding adjust_sit_entry_set_def using set by auto
  have "ses_start ses \<notin> fst ` set (set_pairs (takeWhile ?P rest) @ set_pairs (dropWhile ?P rest))"
    using assms set by auto
  from map_of_insert_mid [OF this]
  show "map_of (set_pairs (adjust_sit_entry_set ses rest)) = (map_of (set_pairs rest))(ses_start ses \<mapsto> entry_cnt ses)"
    unfolding adjust_sit_entry_set_def by (metis (no_types, lifting) list.simps(9) map_append split)
qed

lemma bump_set:
  assumes "distinct (map ses_start head)"
  shows "case bump_sit_entry a head of
      None \<Rightarrow> a \<notin> ses_start ` set head
    | Some h \<Rightarrow> distinct (map ses_start h) \<and> ses_start ` set h = ses_start ` set head \<and>
        (\<exists>c. map_of (set_pairs head) a = Some c \<and> map_of (set_pairs h) = (map_of (set_pairs head))(a \<mapsto> c + 1))"
  using assms
proof (induction head)
  case (Cons ses rest)
  show ?case
  proof (cases "ses_start ses = a")
    case True
    let ?s = "ses\<lparr>entry_cnt := entry_cnt ses + 1\<rparr>"
    have "distinct (map ses_start (?s # rest))" using Cons.prems by simp
    note adj = adjust_set [OF this]
    have "ses_start ` set (adjust_sit_entry_set ?s rest) = insert a (ses_start ` set rest)" using adj(2) True by simp
    then show ?thesis using adj(1,3) True by (simp add: fun_eq_iff)
  next
    case False
    then show ?thesis using Cons by (auto split: option.splits simp: fun_upd_twist)
  qed
qed simp

lemma add_sit_entry_sets:
  assumes "sets_for ss head"
  shows "sets_for (s # ss) (add_sit_entry s head)"
proof -
  let ?a = "START_SEGNO s"
  have d: "distinct (map ses_start head)" and m: "\<And>a. map_of (set_pairs head) a =
      (let c = length (filter (\<lambda>s. START_SEGNO s = a) ss) in if c = 0 then None else Some c)"
    using assms by (simp_all add: sets_for_def)
  show ?thesis
  proof (cases "bump_sit_entry ?a head")
    case None
    then have nin: "?a \<notin> ses_start ` set head" using bump_set [OF d, of ?a] by simp
    then have "map_of (set_pairs head) ?a = None" by (auto simp: map_of_eq_None_iff)
    then have "length (filter (\<lambda>s. START_SEGNO s = ?a) ss) = 0" using m [of ?a] by (simp add: Let_def split: if_splits)
    then show ?thesis using None nin d m by (simp add: sets_for_def add_sit_entry_def Let_def)
  next
    case (Some h)
    then obtain c where h: "distinct (map ses_start h)" "map_of (set_pairs head) ?a = Some c"
      "map_of (set_pairs h) = (map_of (set_pairs head))(?a \<mapsto> c + 1)" using bump_set [OF d, of ?a] by auto
    have "length (filter (\<lambda>s. START_SEGNO s = ?a) ss) = c" using m [of ?a] h(2) by (simp add: Let_def split: if_splits)
    then show ?thesis using Some h(1,3) m by (auto simp: sets_for_def add_sit_entry_def Let_def)
  qed
qed

lemma add_sits_sets: "sets_for ss head \<Longrightarrow> sets_for (rev xs @ ss) (fold add_sit_entry xs head)"
  by (induction xs arbitrary: ss head) (auto dest: add_sit_entry_sets)

section \<open>Flushing the entries of one set\<close>

abbreviation dirty_at :: "sit_info \<Rightarrow> nat \<Rightarrow> bool" where "dirty_at sit s \<equiv> test_bit s (dirty_sentries_bitmap sit)"

definition mem_ok :: "nat \<Rightarrow> sit_info \<Rightarrow> bool" where
  "mem_ok segs sit \<longleftrightarrow> length (sentries sit) = segs \<and> length (dirty_sentries_bitmap sit) = segs \<and>
     dirty_sentries sit = int (used (dirty_sentries_bitmap sit))"

abbreviation ckpt_entry :: "seg_entry \<Rightarrow> seg_entry" where "ckpt_entry se \<equiv> fst (seg_info_to_raw_sit se)"

lemma raw_sit_simps [simp]: "snd (seg_info_to_raw_sit se) = to_raw_sit se" "to_raw_sit (ckpt_entry se) = to_raw_sit se"
  by (simp_all add: seg_info_to_raw_sit_def to_raw_sit_def Let_def)

lemma flush_mem_ok:
  assumes ok: "mem_ok segs sit" and s: "s < segs" "dirty_at sit s"
  shows "mem_ok segs (flush_mem s sit)" "\<And>x. dirty_at (flush_mem s sit) x = (x \<noteq> s \<and> dirty_at sit x)"
    "sentries (flush_mem s sit) = (sentries sit)[s := ckpt_entry (sentries sit ! s)]"
proof -
  have l: "s < length (dirty_sentries_bitmap sit)" "s < length (sentries sit)" using ok s by (simp_all add: mem_ok_def)
  show "dirty_at (flush_mem s sit) x = (x \<noteq> s \<and> dirty_at sit x)" for x
    using kb.tst_clr [OF l(1), of x] by (simp add: flush_mem_def)
  show "sentries (flush_mem s sit) = (sentries sit)[s := ckpt_entry (sentries sit ! s)]"
    using l by (simp add: flush_mem_def get_seg_entry_def)
  show "mem_ok segs (flush_mem s sit)" using ok used_clear [OF l(1)] s(2) by (simp add: mem_ok_def flush_mem_def)
qed

lemma flush_mem_fold:
  assumes "mem_ok segs sit" "distinct ss" "\<forall>s \<in> set ss. s < segs \<and> dirty_at sit s"
  defines "sit' \<equiv> fold flush_mem ss sit"
  shows "mem_ok segs sit'" "\<And>x. dirty_at sit' x = (x \<notin> set ss \<and> dirty_at sit x)"
    "\<And>x. x < segs \<Longrightarrow> sentries sit' ! x = (if x \<in> set ss then ckpt_entry (sentries sit ! x) else sentries sit ! x)"
proof -
  have "mem_ok segs sit' \<and> (\<forall>x. dirty_at sit' x = (x \<notin> set ss \<and> dirty_at sit x)) \<and>
    (\<forall>x < segs. sentries sit' ! x = (if x \<in> set ss then ckpt_entry (sentries sit ! x) else sentries sit ! x))"
    unfolding sit'_def using assms(1-3)
  proof (induction ss arbitrary: sit)
    case (Cons s ss)
    have s: "s < segs" "dirty_at sit s" "s \<notin> set ss" using Cons.prems by simp_all
    note m = flush_mem_ok [OF Cons.prems(1) s(1,2)]
    have pr: "\<forall>x \<in> set ss. x < segs \<and> dirty_at (flush_mem s sit) x" using Cons.prems m(2) by auto
    note ih = Cons.IH [OF m(1) _ pr]
    have len: "length (sentries sit) = segs" using Cons.prems(1) by (simp add: mem_ok_def)
    show ?case using ih Cons.prems(2) m(2,3) s len by (auto simp: nth_list_update)
  qed simp
  then show "mem_ok segs sit'" "\<And>x. dirty_at sit' x = (x \<notin> set ss \<and> dirty_at sit x)"
    "\<And>x. x < segs \<Longrightarrow> sentries sit' ! x = (if x \<in> set ss then ckpt_entry (sentries sit ! x) else sentries sit ! x)" by blast+
qed

lemma flush_sit_fold: "fl_sit (fold (flush_sit_entry tj dst) ss st) = fold flush_mem ss (fl_sit st)"
proof (induction ss arbitrary: st)
  case (Cons s ss)
  have "fl_sit (flush_sit_entry tj dst s st) = flush_mem s (fl_sit st)"
    by (simp add: flush_sit_entry_def Let_def split: prod.splits)
  then show ?case using Cons by simp
qed simp

text \<open>To the journal, given room for all entries of the set.\<close>

lemma flush_journal_fold:
  fixes dst :: nat
  assumes "mem_ok segs (fl_sit st)" "distinct ss" "\<forall>s \<in> set ss. s < segs \<and> dirty_at (fl_sit st) s"
    and "jnl_ok SIT_JOURNAL_ENTRIES (fl_jnl st)" "length ss \<le> SIT_JOURNAL_ENTRIES - n_ents (fl_jnl st)"
  defines "st' \<equiv> fold (flush_sit_entry True dst) ss st"
  shows "jnl_ok SIT_JOURNAL_ENTRIES (fl_jnl st')" "n_ents (fl_jnl st') \<le> n_ents (fl_jnl st) + length ss"
    "jmap (fl_jnl st') = (\<lambda>x. if x \<in> set ss then Some (to_raw_sit (sentries (fl_sit st) ! x)) else jmap (fl_jnl st) x)"
    "fl_area st' = fl_area st" "fl_meta st' = fl_meta st" "fl_bug st' = fl_bug st"
proof -
  have "jnl_ok SIT_JOURNAL_ENTRIES (fl_jnl st') \<and> n_ents (fl_jnl st') \<le> n_ents (fl_jnl st) + length ss \<and>
    jmap (fl_jnl st') = (\<lambda>x. if x \<in> set ss then Some (to_raw_sit (sentries (fl_sit st) ! x)) else jmap (fl_jnl st) x) \<and>
    fl_area st' = fl_area st \<and> fl_meta st' = fl_meta st \<and> fl_bug st' = fl_bug st"
    unfolding st'_def using assms(1-5)
  proof (induction ss arbitrary: st)
    case (Cons s ss)
    let ?raw = "to_raw_sit (sentries (fl_sit st) ! s)"
    have s: "s < segs" "dirty_at (fl_sit st) s" "s \<notin> set ss" using Cons.prems by simp_all
    have len: "length (sentries (fl_sit st)) = segs" using Cons.prems(1) by (simp add: mem_ok_def)
    obtain j bug where j: "journal_store SIT_JOURNAL_ENTRIES s ?raw (fl_jnl st) = (j, bug)" by fastforce
    have room: "s \<in> dom (jmap (fl_jnl st)) \<or> n_ents (fl_jnl st) < SIT_JOURNAL_ENTRIES" using Cons.prems(5) by auto
    note js = journal_store_ok [OF Cons.prems(4) room j]
    let ?st1 = "flush_sit_entry True dst s st"
    have st1: "fl_jnl ?st1 = j" "fl_sit ?st1 = flush_mem s (fl_sit st)" "fl_area ?st1 = fl_area st" "fl_meta ?st1 = fl_meta st" "fl_bug ?st1 = fl_bug st"
      using j js(2) s(1) len by (simp_all add: flush_sit_entry_def get_seg_entry_def Let_def)
    note m = flush_mem_ok [OF Cons.prems(1) s(1,2)]
    have n: "n_ents j \<le> n_ents (fl_jnl st) + 1" using js(4) by simp
    have pr: "\<forall>x \<in> set ss. x < segs \<and> dirty_at (flush_mem s (fl_sit st)) x" using Cons.prems(3) m(2) s(3) by auto
    have room2: "length ss \<le> SIT_JOURNAL_ENTRIES - n_ents j" using Cons.prems(5) n by simp
    have ih: "jnl_ok SIT_JOURNAL_ENTRIES (fl_jnl (fold (flush_sit_entry True dst) ss ?st1)) \<and>
        n_ents (fl_jnl (fold (flush_sit_entry True dst) ss ?st1)) \<le> n_ents j + length ss \<and>
        jmap (fl_jnl (fold (flush_sit_entry True dst) ss ?st1)) =
          (\<lambda>x. if x \<in> set ss then Some (to_raw_sit (sentries (flush_mem s (fl_sit st)) ! x)) else jmap j x) \<and>
        fl_area (fold (flush_sit_entry True dst) ss ?st1) = fl_area st \<and> fl_meta (fold (flush_sit_entry True dst) ss ?st1) = fl_meta st \<and>
        fl_bug (fold (flush_sit_entry True dst) ss ?st1) = fl_bug st"
      using Cons.IH [of ?st1] m(1) Cons.prems(2) pr js(1) room2 unfolding st1 by simp
    have raws: "to_raw_sit (sentries (flush_mem s (fl_sit st)) ! x) = to_raw_sit (sentries (fl_sit st) ! x)" if "x \<in> set ss" for x
      using that s(3) m(3) by (cases "x = s") auto
    have jm: "jmap (fl_jnl (fold (flush_sit_entry True dst) (s # ss) st)) =
        (\<lambda>x. if x \<in> set (s # ss) then Some (to_raw_sit (sentries (fl_sit st) ! x)) else jmap (fl_jnl st) x)"
      using ih raws js(3) s(3) by (simp add: fun_eq_iff)
    show ?case using ih jm n by simp
  qed simp
  then show "jnl_ok SIT_JOURNAL_ENTRIES (fl_jnl st')" "n_ents (fl_jnl st') \<le> n_ents (fl_jnl st) + length ss"
    "jmap (fl_jnl st') = (\<lambda>x. if x \<in> set ss then Some (to_raw_sit (sentries (fl_sit st) ! x)) else jmap (fl_jnl st) x)"
    "fl_area st' = fl_area st" "fl_meta st' = fl_meta st" "fl_bug st' = fl_bug st" by blast+
qed

text \<open>Into a page that \<^verbatim>\<open>seg_info_to_sit_page\<close> has filled: the page does not change.\<close>

lemma flush_page_fold:
  fixes dst :: nat
  assumes "mem_ok segs (fl_sit st)" "distinct ss" "\<forall>s \<in> set ss. s < segs \<and> dirty_at (fl_sit st) s"
    and "\<forall>s \<in> set ss. fl_meta st dst ! SIT_ENTRY_OFFSET s = to_raw_sit (sentries (fl_sit st) ! s)"
  defines "st' \<equiv> fold (flush_sit_entry False dst) ss st"
  shows "fl_meta st' = fl_meta st" "fl_area st' = fl_area st" "fl_jnl st' = fl_jnl st" "fl_bug st' = fl_bug st"
proof -
  have "fl_meta st' = fl_meta st \<and> fl_area st' = fl_area st \<and> fl_jnl st' = fl_jnl st \<and> fl_bug st' = fl_bug st"
    unfolding st'_def using assms(1-4)
  proof (induction ss arbitrary: st)
    case (Cons s ss)
    have s: "s < segs" "dirty_at (fl_sit st) s" "s \<notin> set ss" using Cons.prems by simp_all
    have len: "length (sentries (fl_sit st)) = segs" using Cons.prems(1) by (simp add: mem_ok_def)
    let ?st1 = "flush_sit_entry False dst s st"
    have pg: "(fl_meta st dst)[SIT_ENTRY_OFFSET s := to_raw_sit (sentries (fl_sit st) ! s)] = fl_meta st dst"
      using Cons.prems(4) by (metis list.set_intros(1) list_update_id)
    have st1: "fl_sit ?st1 = flush_mem s (fl_sit st)" "fl_area ?st1 = fl_area st" "fl_jnl ?st1 = fl_jnl st" "fl_bug ?st1 = fl_bug st"
      "fl_meta ?st1 = fl_meta st"
      using s(1) len by (simp_all add: flush_sit_entry_def get_seg_entry_def Let_def pg)
    note m = flush_mem_ok [OF Cons.prems(1) s(1,2)]
    have pr: "\<forall>x \<in> set ss. x < segs \<and> dirty_at (flush_mem s (fl_sit st)) x" using Cons.prems(3) m(2) s(3) by auto
    have "\<forall>x \<in> set ss. fl_meta st dst ! SIT_ENTRY_OFFSET x = to_raw_sit (sentries (flush_mem s (fl_sit st)) ! x)"
    proof
      fix x assume x: "x \<in> set ss"
      then have "x \<noteq> s" using s(3) by blast
      then show "fl_meta st dst ! SIT_ENTRY_OFFSET x = to_raw_sit (sentries (flush_mem s (fl_sit st)) ! x)"
        using Cons.prems(4) x m(3) by simp
    qed
    then show ?case using Cons.IH [of ?st1] m(1) Cons.prems(2) pr unfolding st1 by simp
  qed simp
  then show "fl_meta st' = fl_meta st" "fl_area st' = fl_area st" "fl_jnl st' = fl_jnl st" "fl_bug st' = fl_bug st" by blast+
qed

section \<open>The invariant of the flush\<close>

abbreviation sit_blks :: "nat \<Rightarrow> nat" where "sit_blks segs \<equiv> (segs + SIT_ENTRY_PER_BLOCK - 1) div SIT_ENTRY_PER_BLOCK"
abbreviation sit_loc :: "sit_area \<Rightarrow> nat \<Rightarrow> nat" where "sit_loc a b \<equiv> current_sit_addr a (b * SIT_ENTRY_PER_BLOCK)"

definition area_ok :: "nat \<Rightarrow> sit_mgr \<Rightarrow> bool" where
  "area_ok segs st \<longleftrightarrow> (\<forall>b < sit_blks segs. sit_ok (fl_area st) b) \<and> (\<forall>a. length (fl_meta st a) = SIT_ENTRY_PER_BLOCK)"

text \<open>The sets still to flush count the dirty entries of their blocks, and cover all of them.\<close>

definition sets_ok :: "nat \<Rightarrow> (nat \<Rightarrow> bool) \<Rightarrow> sit_entry_set list \<Rightarrow> bool" where
  "sets_ok segs D head \<longleftrightarrow> distinct (map ses_start head) \<and>
     (\<forall>ses \<in> set head. (\<exists>b < sit_blks segs. ses_start ses = b * SIT_ENTRY_PER_BLOCK) \<and>
        entry_cnt ses = card {s. s < segs \<and> D s \<and> START_SEGNO s = ses_start ses}) \<and>
     (\<forall>s < segs. D s \<longrightarrow> START_SEGNO s \<in> ses_start ` set head)"

definition total_cnt :: "sit_entry_set list \<Rightarrow> nat" where "total_cnt head = sum_list (map entry_cnt head)"

text \<open>Either everything left fits in the journal, or nothing left is in the journal.\<close>

definition jnl_fits :: "bool \<Rightarrow> sit_mgr \<Rightarrow> sit_entry_set list \<Rightarrow> bool" where
  "jnl_fits tj st head \<longleftrightarrow>
     tj \<and> total_cnt head \<le> SIT_JOURNAL_ENTRIES - n_ents (fl_jnl st) \<or> (\<forall>s \<in> dom (jmap (fl_jnl st)). \<not> dirty_at (fl_sit st) s)"

definition flush_inv :: "nat \<Rightarrow> sit_mgr \<Rightarrow> bool \<Rightarrow> sit_mgr \<Rightarrow> sit_entry_set list \<Rightarrow> bool" where
  "flush_inv segs st0 tj st head \<longleftrightarrow>
     mem_ok segs (fl_sit st) \<and> jnl_ok SIT_JOURNAL_ENTRIES (fl_jnl st) \<and> area_ok segs st \<and>
     sets_ok segs (dirty_at (fl_sit st)) head \<and> jnl_fits tj st head \<and>
     (\<forall>s < segs. \<not> dirty_at (fl_sit st) s \<longrightarrow> sit_view st s = to_raw_sit (sentries (fl_sit st) ! s)) \<and>
     (\<forall>s < segs. sentries (fl_sit st) ! s = sentries (fl_sit st0) ! s \<or>
        sentries (fl_sit st) ! s = ckpt_entry (sentries (fl_sit st0) ! s) \<and> \<not> dirty_at (fl_sit st) s) \<and>
     (\<forall>s < segs. dirty_at (fl_sit st0) s \<and> \<not> dirty_at (fl_sit st) s \<longrightarrow> sentries (fl_sit st) ! s = ckpt_entry (sentries (fl_sit st0) ! s)) \<and>
     next_sit_addr (fl_area st) = next_sit_addr (fl_area st0) \<and>
     (\<forall>b < sit_blks segs. sit_ok (fl_area st0) b \<and> fl_meta st (sit_loc (fl_area st0) b) = fl_meta st0 (sit_loc (fl_area st0) b)) \<and>
     (\<forall>ses \<in> set head. current_sit_addr (fl_area st) (ses_start ses) = current_sit_addr (fl_area st0) (ses_start ses)) \<and>
     \<not> fl_bug st \<and> (\<forall>s \<in> dom (jmap (fl_jnl st)). s < segs)"

lemma SEPB: "SIT_ENTRY_PER_BLOCK = 55" "0 < SIT_ENTRY_PER_BLOCK" by (simp_all add: SIT_ENTRY_PER_BLOCK_def)

lemma start_segno_block: "START_SEGNO s = b * SIT_ENTRY_PER_BLOCK \<longleftrightarrow> s div SIT_ENTRY_PER_BLOCK = b"
  by (simp add: START_SEGNO_def SIT_BLOCK_OFFSET_def SIT_ENTRY_PER_BLOCK_def)

lemma block_segs: "s div SIT_ENTRY_PER_BLOCK = b \<longleftrightarrow> b * SIT_ENTRY_PER_BLOCK \<le> s \<and> s < b * SIT_ENTRY_PER_BLOCK + SIT_ENTRY_PER_BLOCK"
  unfolding SIT_ENTRY_PER_BLOCK_def by auto

lemma seg_block_lt: "s < segs \<Longrightarrow> s div SIT_ENTRY_PER_BLOCK < sit_blks segs"
proof -
  assume "s < segs"
  then have "(s + SIT_ENTRY_PER_BLOCK) div SIT_ENTRY_PER_BLOCK \<le> sit_blks segs" by (intro div_le_mono) simp
  then show ?thesis by (simp add: SIT_ENTRY_PER_BLOCK_def)
qed

lemma current_sit_loc: "current_sit_addr a s = sit_loc a (s div SIT_ENTRY_PER_BLOCK)"
  unfolding current_sit_addr_def sit_block_start by (simp add: SIT_BLOCK_OFFSET_def)

lemma fill_page:
  assumes "length page = SIT_ENTRY_PER_BLOCK"
  shows "length (seg_info_to_sit_page SIT_ENTRY_PER_BLOCK segs sents page start) = SIT_ENTRY_PER_BLOCK"
    "s < segs \<Longrightarrow> s div SIT_ENTRY_PER_BLOCK = b \<Longrightarrow>
       seg_info_to_sit_page SIT_ENTRY_PER_BLOCK segs sents page (b * SIT_ENTRY_PER_BLOCK) ! SIT_ENTRY_OFFSET s = to_raw_sit (sents ! s)"
proof -
  show "length (seg_info_to_sit_page SIT_ENTRY_PER_BLOCK segs sents page start) = SIT_ENTRY_PER_BLOCK"
    using assms by (simp add: seg_info_to_sit_page_def sit_page_entries(2) Let_def)
  assume s: "s < segs" "s div SIT_ENTRY_PER_BLOCK = b"
  let ?i = "s mod SIT_ENTRY_PER_BLOCK"
  have i: "?i < SIT_ENTRY_PER_BLOCK" "b * SIT_ENTRY_PER_BLOCK + ?i = s"
    using s(2) SEPB(2) div_mult_mod_eq [of s SIT_ENTRY_PER_BLOCK] by simp_all
  then have "?i < min (b * SIT_ENTRY_PER_BLOCK + SIT_ENTRY_PER_BLOCK) segs - b * SIT_ENTRY_PER_BLOCK" using s(1) by linarith
  then show "seg_info_to_sit_page SIT_ENTRY_PER_BLOCK segs sents page (b * SIT_ENTRY_PER_BLOCK) ! SIT_ENTRY_OFFSET s = to_raw_sit (sents ! s)"
    using i assms by (simp add: seg_info_to_sit_page_def sit_page_entries(1) SIT_ENTRY_OFFSET_def Let_def)
qed

lemma set_segs:
  assumes "start = b * SIT_ENTRY_PER_BLOCK"
  shows "set (filter D [start..<min (start + SIT_ENTRY_PER_BLOCK) segs]) = {s. s < segs \<and> D s \<and> START_SEGNO s = start}"
  unfolding assms start_segno_block block_segs by auto

lemma flush_invD:
  assumes "flush_inv segs st0 tj st head"
  shows "mem_ok segs (fl_sit st)" "jnl_ok SIT_JOURNAL_ENTRIES (fl_jnl st)" "area_ok segs st"
    "sets_ok segs (dirty_at (fl_sit st)) head" "jnl_fits tj st head"
    "\<And>s. s < segs \<Longrightarrow> \<not> dirty_at (fl_sit st) s \<Longrightarrow> sit_view st s = to_raw_sit (sentries (fl_sit st) ! s)"
    "\<And>s. s < segs \<Longrightarrow> sentries (fl_sit st) ! s = sentries (fl_sit st0) ! s \<or>
        sentries (fl_sit st) ! s = ckpt_entry (sentries (fl_sit st0) ! s) \<and> \<not> dirty_at (fl_sit st) s"
    "\<And>s. s < segs \<Longrightarrow> dirty_at (fl_sit st0) s \<Longrightarrow> \<not> dirty_at (fl_sit st) s \<Longrightarrow> sentries (fl_sit st) ! s = ckpt_entry (sentries (fl_sit st0) ! s)"
    "next_sit_addr (fl_area st) = next_sit_addr (fl_area st0)"
    "\<And>b. b < sit_blks segs \<Longrightarrow> sit_ok (fl_area st0) b \<and> fl_meta st (sit_loc (fl_area st0) b) = fl_meta st0 (sit_loc (fl_area st0) b)"
    "\<And>ses. ses \<in> set head \<Longrightarrow> current_sit_addr (fl_area st) (ses_start ses) = current_sit_addr (fl_area st0) (ses_start ses)"
    "\<not> fl_bug st" "\<And>s. s \<in> dom (jmap (fl_jnl st)) \<Longrightarrow> s < segs"
  using assms unfolding flush_inv_def by blast+

text \<open>What a step does to the memory side of the invariant.\<close>

lemma sets_ok_tail:
  assumes "sets_ok segs D (ses # head)" "\<And>x. D' x = (\<not> (x < segs \<and> D x \<and> START_SEGNO x = ses_start ses) \<and> D x)"
  shows "sets_ok segs D' head"
proof -
  have d: "ses_start ses \<notin> ses_start ` set head" using assms(1) by (simp add: sets_ok_def)
  have "{s. s < segs \<and> D' s \<and> START_SEGNO s = ses_start x} = {s. s < segs \<and> D s \<and> START_SEGNO s = ses_start x}" if "x \<in> set head" for x
    using that d assms(2) by (auto simp: image_iff)
  then have "\<forall>x \<in> set head. entry_cnt x = card {s. s < segs \<and> D' s \<and> START_SEGNO s = ses_start x}"
    using assms(1) by (simp add: sets_ok_def)
  moreover have "START_SEGNO s \<in> ses_start ` set head" if "s < segs" "D' s" for s
    using assms that by (auto simp: sets_ok_def)
  ultimately show ?thesis using assms(1) by (simp add: sets_ok_def)
qed

lemma flush_mem_hist:
  assumes inv: "flush_inv segs st0 tj st head" and ss: "distinct ss" "\<forall>s \<in> set ss. s < segs \<and> dirty_at (fl_sit st) s"
  defines "sit' \<equiv> fold flush_mem ss (fl_sit st)"
  shows "mem_ok segs sit'" "\<And>x. dirty_at sit' x = (x \<notin> set ss \<and> dirty_at (fl_sit st) x)"
    "\<And>x. x < segs \<Longrightarrow> to_raw_sit (sentries sit' ! x) = to_raw_sit (sentries (fl_sit st) ! x)"
    "\<And>x. x < segs \<Longrightarrow> x \<notin> set ss \<Longrightarrow> sentries sit' ! x = sentries (fl_sit st) ! x"
    "\<And>x. x < segs \<Longrightarrow> sentries sit' ! x = sentries (fl_sit st0) ! x \<or>
        sentries sit' ! x = ckpt_entry (sentries (fl_sit st0) ! x) \<and> \<not> dirty_at sit' x"
    "\<And>x. x < segs \<Longrightarrow> dirty_at (fl_sit st0) x \<Longrightarrow> \<not> dirty_at sit' x \<Longrightarrow> sentries sit' ! x = ckpt_entry (sentries (fl_sit st0) ! x)"
proof -
  note i = flush_invD [OF inv]
  note m = flush_mem_fold [OF i(1) ss, folded sit'_def]
  show "mem_ok segs sit'" by (rule m(1))
  show "dirty_at sit' x = (x \<notin> set ss \<and> dirty_at (fl_sit st) x)" for x by (rule m(2))
  show "to_raw_sit (sentries sit' ! x) = to_raw_sit (sentries (fl_sit st) ! x)" if "x < segs" for x using m(3) [OF that] by simp
  show "sentries sit' ! x = sentries (fl_sit st) ! x" if "x < segs" "x \<notin> set ss" for x using m(3) [OF that(1)] that(2) by simp
  have old: "sentries (fl_sit st) ! x = sentries (fl_sit st0) ! x" if "x \<in> set ss" for x using i(7) [of x] ss(2) that by blast
  show "sentries sit' ! x = sentries (fl_sit st0) ! x \<or> sentries sit' ! x = ckpt_entry (sentries (fl_sit st0) ! x) \<and> \<not> dirty_at sit' x"
    if "x < segs" for x
    using m(3) [OF that] i(7) [OF that] m(2) [of x] old [of x] by (cases "x \<in> set ss") auto
  show "sentries sit' ! x = ckpt_entry (sentries (fl_sit st0) ! x)" if "x < segs" "dirty_at (fl_sit st0) x" "\<not> dirty_at sit' x" for x
    using m(3) [OF that(1)] i(8) [OF that(1,2)] m(2) [of x] old [of x] that(3) by (cases "x \<in> set ss") auto
qed

lemma flush_set_step:
  assumes inv: "flush_inv segs st0 tj st (ses # head)" and res: "flush_sit_set segs ses (tj, st) = (tj', st')"
  shows "flush_inv segs st0 tj' st' head"
proof -
  note i = flush_invD [OF inv]
  let ?start = "ses_start ses" and ?cap = SIT_JOURNAL_ENTRIES and ?D = "dirty_at (fl_sit st)"
  obtain b where b: "b < sit_blks segs" "?start = b * SIT_ENTRY_PER_BLOCK" using i(4) by (auto simp: sets_ok_def)
  define ss where "ss = filter ?D [?start..<min (?start + SIT_ENTRY_PER_BLOCK) segs]"
  have set: "set ss = {s. s < segs \<and> ?D s \<and> START_SEGNO s = ?start}" unfolding ss_def by (rule set_segs [OF b(2)])
  have ss: "distinct ss" "\<forall>s \<in> set ss. s < segs \<and> ?D s" using set by (auto simp: ss_def)
  have cnt: "entry_cnt ses = length ss" using i(4) set distinct_card [OF ss(1)] by (simp add: sets_ok_def)
  have "length ss \<le> length [?start..<min (?start + SIT_ENTRY_PER_BLOCK) segs]" unfolding ss_def by (rule length_filter_le)
  then have small: "length ss < 2 ^ 64" by (simp add: SIT_ENTRY_PER_BLOCK_def min_def split: if_splits)
  have tj': "tj' \<longleftrightarrow> tj \<and> length ss \<le> ?cap - n_ents (fl_jnl st)"
    using res has_space_iff [OF i(2) small] cnt by (auto simp: flush_sit_set_def Let_def split: prod.splits)
  define sit' where "sit' = fold flush_mem ss (fl_sit st)"
  note m = flush_mem_hist [OF inv ss, folded sit'_def]
  have sets: "sets_ok segs (dirty_at sit') head" by (rule sets_ok_tail [OF i(4)]) (use m(2) set in auto)
  have tot: "total_cnt (ses # head) = length ss + total_cnt head" by (simp add: total_cnt_def cnt)
  show ?thesis
  proof (cases tj')
    case True
    then have tj: tj and room: "length ss \<le> ?cap - n_ents (fl_jnl st)" using tj' by simp_all
    note f = flush_journal_fold [OF i(1) ss i(2) room, where dst = 0]
    define st1 where "st1 = fold (flush_sit_entry True 0) ss st"
    note f = f [folded st1_def]
    have "has_cursum_space ?cap (fl_jnl st) (entry_cnt ses)" using has_space_iff [OF i(2) small] room cnt by simp
    then have st': "st' = st1\<lparr>fl_bug := fl_bug st1\<rparr>"
      using res tj cnt by (simp add: flush_sit_set_def Let_def ss_def [symmetric] st1_def [symmetric])
    have sit1: "fl_sit st1 = sit'" unfolding st1_def sit'_def by (rule flush_sit_fold)
    have fits: "jnl_fits tj' st' head"
    proof -
      have "\<forall>s \<in> dom (jmap (fl_jnl st1)). \<not> dirty_at sit' s" if "\<forall>s \<in> dom (jmap (fl_jnl st)). \<not> ?D s"
        using that m(2) f(3) by (auto split: if_splits)
      moreover have "total_cnt head \<le> ?cap - n_ents (fl_jnl st1)" if "total_cnt (ses # head) \<le> ?cap - n_ents (fl_jnl st)"
        using that f(2) unfolding tot by linarith
      ultimately show ?thesis using i(5) True sit1 unfolding jnl_fits_def st' by auto
    qed
    have view: "sit_view st' s = to_raw_sit (sentries sit' ! s)" if "s < segs" "\<not> dirty_at sit' s" for s
    proof (cases "s \<in> set ss")
      case True
      then show ?thesis using f(3) m(3) [OF that(1)] by (simp add: sit_view_def st')
    next
      case False
      then have "sit_view st' s = sit_view st s" using f by (simp add: sit_view_def st' split: option.split)
      then show ?thesis using i(6) [OF that(1)] m(2) [of s] that(2) False m(3) [OF that(1)] by simp
    qed
    have area: "area_ok segs st'" using i(3) f by (simp add: area_ok_def st')
    have dom: "\<forall>s \<in> dom (jmap (fl_jnl st')). s < segs" using f(3) i(13) [OF domI] ss(2) by (auto simp: st' split: if_splits)
    show ?thesis
      unfolding flush_inv_def
      using m(1,5,6) f(1,2,4-) i(9-12) sets fits view area sit1 dom by (simp add: st')
  next
    case False
    have np: "\<forall>s \<in> dom (jmap (fl_jnl st)). \<not> ?D s"
      using i(5) False tj' unfolding jnl_fits_def tot by auto
    define dst where "dst = next_sit_addr (fl_area st) (current_sit_addr (fl_area st) ?start)"
    define a1 where "a1 = set_to_next_sit ?start (fl_area st)"
    define m1 where "m1 = (fl_meta st)(dst := seg_info_to_sit_page SIT_ENTRY_PER_BLOCK segs (sentries (fl_sit st)) (fl_meta st dst) ?start)"
    define st1 where "st1 = st\<lparr>fl_area := a1, fl_meta := m1\<rparr>"
    have np2: "\<not> (tj \<and> has_cursum_space ?cap (fl_jnl st) (entry_cnt ses))"
      using False tj' has_space_iff [OF i(2) small] cnt by simp
    define st2 where "st2 = fold (flush_sit_entry False dst) ss st1"
    have st': "st' = st2\<lparr>fl_bug := fl_bug st2\<rparr>"
      using res np2 cnt
      by (auto simp: flush_sit_set_def Let_def get_next_sit_page_def st2_def st1_def m1_def a1_def dst_def ss_def)
    have lp: "length (fl_meta st dst) = SIT_ENTRY_PER_BLOCK" using i(3) by (simp add: area_ok_def)
    have pg: "m1 dst ! SIT_ENTRY_OFFSET s = to_raw_sit (sentries (fl_sit st) ! s)" if "s < segs" "s div SIT_ENTRY_PER_BLOCK = b" for s
      using fill_page(2) [OF lp that] b(2) by (simp add: m1_def)
    have in_b: "s \<in> set ss \<Longrightarrow> s div SIT_ENTRY_PER_BLOCK = b" for s using set b(2) start_segno_block by auto
    have "\<forall>s \<in> set ss. fl_meta st1 dst ! SIT_ENTRY_OFFSET s = to_raw_sit (sentries (fl_sit st1) ! s)"
      using pg in_b ss(2) by (simp add: st1_def)
    then have f: "fl_meta st2 = m1" "fl_area st2 = a1" "fl_jnl st2 = fl_jnl st" "fl_bug st2 = fl_bug st"
      using flush_page_fold [of segs st1 ss dst] i(1) ss by (simp_all add: st1_def st2_def)
    have sit2: "fl_sit st2 = sit'" unfolding st2_def sit'_def flush_sit_fold by (simp add: st1_def)
    have okb: "sit_ok (fl_area st) c" "sit_ok (fl_area st0) c" if "c < sit_blks segs" for c
      using i(3,10) that by (simp_all add: area_ok_def)
    have dst_loc: "dst = next_sit_addr (fl_area st) (sit_loc (fl_area st) b)" unfolding dst_def b(2) ..
    have a1_loc: "a1 = set_to_next_sit (b * SIT_ENTRY_PER_BLOCK) (fl_area st)" unfolding a1_def b(2) ..
    note fl = sit2.loc_flip [OF okb(1) [OF b(1)], folded a1_loc dst_loc]
    note wn = sit2.write_next [OF okb(1) [OF b(1)], where meta = "fl_meta st" and
        v = "seg_info_to_sit_page SIT_ENTRY_PER_BLOCK segs (sentries (fl_sit st)) (fl_meta st dst) ?start", folded a1_loc dst_loc, folded m1_def]
    have view: "sit_view st' s = to_raw_sit (sentries sit' ! s)" if s: "s < segs" "\<not> dirty_at sit' s" for s
    proof (cases "jmap (fl_jnl st) s")
      case (Some e)
      then have "\<not> ?D s" using np by blast
      then show ?thesis using i(6) [OF s(1)] Some m(3) [OF s(1)] f(3) by (simp add: sit_view_def st')
    next
      case None
      let ?c = "s div SIT_ENTRY_PER_BLOCK"
      have vw: "sit_view st' s = m1 (sit_loc a1 ?c) ! SIT_ENTRY_OFFSET s"
        using None f by (simp add: sit_view_def st' get_current_sit_page_def current_sit_loc [symmetric])
      show ?thesis
      proof (cases "?c = b")
        case True
        then have "sit_loc a1 ?c = dst" using fl [OF okb(1) [OF b(1)]] by simp
        then show ?thesis using vw pg [OF s(1) True] m(3) [OF s(1)] by simp
      next
        case False
        then have nd: "\<not> ?D s" using s m(2) [of s] in_b by blast
        have "m1 (sit_loc a1 ?c) = fl_meta st (sit_loc (fl_area st) ?c)" by (rule wn(2) [OF okb(1) [OF seg_block_lt [OF s(1)]] False])
        then have "sit_view st' s = sit_view st s"
          using vw None by (simp add: sit_view_def get_current_sit_page_def current_sit_loc [symmetric])
        then show ?thesis using i(6) [OF s(1) nd] m(3) [OF s(1)] by simp
      qed
    qed
    have dst0: "dst = next_sit_addr (fl_area st0) (sit_loc (fl_area st0) b)"
      using i(9) i(11) [of ses] unfolding dst_def b(2) [symmetric] by simp
    have shadow: "fl_meta st' (sit_loc (fl_area st0) c) = fl_meta st0 (sit_loc (fl_area st0) c)" if "c < sit_blks segs" for c
    proof -
      have "dst \<noteq> sit_loc (fl_area st0) c"
        using sit2.alt_other [OF okb(2) [OF b(1)]] sit2.apart [OF okb(2) [OF that] okb(2) [OF b(1)]] unfolding dst0 by (cases "c = b") auto
      then show ?thesis using i(10) [OF that] f(1) by (simp add: st' m1_def)
    qed
    have cur: "current_sit_addr a1 (ses_start x) = current_sit_addr (fl_area st0) (ses_start x)" if x: "x \<in> set head" for x
    proof -
      obtain c where c: "c < sit_blks segs" "ses_start x = c * SIT_ENTRY_PER_BLOCK" using i(4) x by (auto simp: sets_ok_def)
      have "distinct (map ses_start (ses # head))" using i(4) by (simp only: sets_ok_def)
      then have "ses_start x \<noteq> ?start" using x by (metis distinct.simps(2) image_eqI list.set_map list.simps(9))
      then have "c \<noteq> b" using c(2) b(2) by auto
      then show ?thesis using fl [OF okb(1) [OF c(1)]] i(11) [of x] x c(2) by simp
    qed
    have area: "area_ok segs st'"
      using sit2.ok_flip [OF okb(1) [OF b(1)], folded a1_loc] i(3) fill_page(1) [OF lp] f by (simp add: area_ok_def st' m1_def)
    have fits: "jnl_fits tj' st' head" using np m(2) f(3) sit2 by (auto simp: jnl_fits_def st')
    have nxt: "next_sit_addr a1 = next_sit_addr (fl_area st0)"
      using sit2.alt_flip [OF okb(1) [OF b(1)], folded a1_loc] i(9) by simp
    show ?thesis
      unfolding flush_inv_def
      using m(1,5,6) f i(2,12,13) sets fits view area sit2 nxt shadow cur okb(2) by (simp add: st')
  qed
qed

lemma flush_sets:
  assumes "flush_inv segs st0 tj st head" "fold (flush_sit_set segs) head (tj, st) = (tj', st')"
  shows "flush_inv segs st0 tj' st' []"
  using assms
proof (induction head arbitrary: tj st)
  case (Cons ses head)
  obtain tj1 st1 where 1: "flush_sit_set segs ses (tj, st) = (tj1, st1)" by fastforce
  show ?case by (rule Cons.IH [OF flush_set_step [OF Cons.prems(1) 1]]) (use Cons.prems(2) 1 in simp)
qed simp

section \<open>The whole flush\<close>

lemma total_adjust: "total_cnt (adjust_sit_entry_set ses rest) = entry_cnt ses + total_cnt rest"
proof -
  let ?P = "\<lambda>nxt. \<not> entry_cnt ses \<le> entry_cnt nxt"
  have "total_cnt rest = total_cnt (takeWhile ?P rest @ dropWhile ?P rest)" by simp
  then show ?thesis unfolding adjust_sit_entry_set_def by (simp add: total_cnt_def del: takeWhile_dropWhile_id)
qed

lemma total_add: "total_cnt (add_sit_entry s head) = total_cnt head + 1"
proof -
  have "case bump_sit_entry a head of None \<Rightarrow> True | Some h \<Rightarrow> total_cnt h = total_cnt head + 1" for a
  proof (induction head)
    case (Cons ses rest)
    then show ?case by (auto simp: total_adjust split: option.splits) (simp_all add: total_cnt_def)
  qed simp
  from this [of "START_SEGNO s"] show ?thesis by (cases "bump_sit_entry (START_SEGNO s) head") (simp_all add: add_sit_entry_def total_cnt_def)
qed

lemma total_fold: "total_cnt (fold add_sit_entry xs head) = total_cnt head + length xs"
  by (induction xs arbitrary: head) (simp_all add: total_add)

lemma sets_ok_for:
  assumes "sets_for ss head" "distinct ss" "\<And>s. s \<in> set ss \<longleftrightarrow> s < segs \<and> D s"
  shows "sets_ok segs D head"
proof -
  have d: "distinct (map ses_start head)" and m: "\<And>a. map_of (set_pairs head) a =
      (let c = length (filter (\<lambda>s. START_SEGNO s = a) ss) in if c = 0 then None else Some c)"
    using assms(1) by (simp_all add: sets_for_def)
  have mem: "length (filter (\<lambda>s. START_SEGNO s = ses_start x) ss) = entry_cnt x \<and> 0 < entry_cnt x" if "x \<in> set head" for x
  proof -
    have "distinct (map fst (set_pairs head))" using d by (simp add: comp_def)
    then have "map_of (set_pairs head) (ses_start x) = Some (entry_cnt x)" using that by (simp add: map_of_eq_Some_iff)
    moreover define c where "c = length (filter (\<lambda>s. START_SEGNO s = ses_start x) ss)"
    ultimately have "(if c = 0 then None else Some c) = Some (entry_cnt x)" using m [of "ses_start x"] by (simp only: Let_def)
    then show ?thesis unfolding c_def [symmetric] by (cases "c = 0") simp_all
  qed
  have card: "length (filter (\<lambda>s. START_SEGNO s = a) ss) = card {s. s < segs \<and> D s \<and> START_SEGNO s = a}" for a
    using assms(2,3) distinct_card [of "filter (\<lambda>s. START_SEGNO s = a) ss"] by (simp add: conj_ac)
  have blk: "\<exists>b < sit_blks segs. ses_start x = b * SIT_ENTRY_PER_BLOCK" if x: "x \<in> set head" for x
  proof -
    have "filter (\<lambda>s. START_SEGNO s = ses_start x) ss \<noteq> []" using mem [OF x] by auto
    then obtain s where "s \<in> set ss" "START_SEGNO s = ses_start x" by (auto simp: filter_empty_conv)
    then show ?thesis using assms(3) seg_block_lt [of s segs] by (metis START_SEGNO_def SIT_BLOCK_OFFSET_def)
  qed
  have cover: "START_SEGNO s \<in> ses_start ` set head" if "s < segs" "D s" for s
  proof -
    have "map_of (set_pairs head) (START_SEGNO s) \<noteq> None"
      using m [of "START_SEGNO s"] assms(3) [of s] that by (auto simp: Let_def filter_empty_conv)
    then show ?thesis by (auto simp: map_of_eq_None_iff)
  qed
  show ?thesis using d mem card blk cover by (auto simp: sets_ok_def)
qed

text \<open>
  What holds between checkpoints: counters and tables have their shapes, and every entry that is not dirty is on disk.
\<close>

definition sit_stored :: "nat \<Rightarrow> sit_mgr \<Rightarrow> bool" where
  "sit_stored segs st \<longleftrightarrow> segs < 2 ^ 32 \<and>
     mem_ok segs (fl_sit st) \<and> jnl_ok SIT_JOURNAL_ENTRIES (fl_jnl st) \<and> area_ok segs st \<and> (\<forall>s \<in> dom (jmap (fl_jnl st)). s < segs) \<and>
     (\<forall>s < segs. \<not> dirty_at (fl_sit st) s \<longrightarrow> sit_view st s = to_raw_sit (sentries (fl_sit st) ! s)) \<and> \<not> fl_bug st"

lemma remove_journal:
  assumes st: "sit_stored segs st" and hd: "sets_for ss head" "distinct ss" "\<And>s. s \<in> set ss \<longleftrightarrow> s < segs \<and> dirty_at (fl_sit st) s"
    and n: "n \<le> n_ents (fl_jnl st)" and res: "fold remove_journal_step [0..<n] (st, head) = (st', head')"
  shows "\<exists>ss'. sets_for ss' head' \<and> distinct ss' \<and> (\<forall>s. s \<in> set ss' \<longleftrightarrow> s < segs \<and> dirty_at (fl_sit st') s) \<and>
    mem_ok segs (fl_sit st') \<and> sentries (fl_sit st') = sentries (fl_sit st) \<and> fl_jnl st' = fl_jnl st \<and> fl_area st' = fl_area st \<and>
    fl_meta st' = fl_meta st \<and> fl_bug st' = fl_bug st \<and>
    (\<forall>s. dirty_at (fl_sit st') s \<longleftrightarrow> dirty_at (fl_sit st) s \<or> s \<in> fst ` set (take n (j_entries (fl_jnl st))))"
  using n res
proof (induction n arbitrary: st' head')
  case 0
  then show ?case using st hd by (auto simp: sit_stored_def intro!: exI [of _ ss])
next
  case (Suc n)
  obtain st1 h1 where 1: "fold remove_journal_step [0..<n] (st, head) = (st1, h1)" by fastforce
  have "n \<le> n_ents (fl_jnl st)" using Suc.prems(1) by simp
  from Suc.IH [OF this 1] obtain ss1 where ss1: "sets_for ss1 h1" "distinct ss1" "\<And>s. s \<in> set ss1 \<longleftrightarrow> s < segs \<and> dirty_at (fl_sit st1) s"
    and i: "mem_ok segs (fl_sit st1)" "sentries (fl_sit st1) = sentries (fl_sit st)" "fl_jnl st1 = fl_jnl st" "fl_area st1 = fl_area st"
      "fl_meta st1 = fl_meta st" "fl_bug st1 = fl_bug st"
      "\<And>s. dirty_at (fl_sit st1) s \<longleftrightarrow> dirty_at (fl_sit st) s \<or> s \<in> fst ` set (take n (j_entries (fl_jnl st)))"
    by blast
  let ?k = "fst (j_entries (fl_jnl st) ! n)"
  have len: "n < length (j_entries (fl_jnl st))" using st Suc.prems(1) by (simp add: sit_stored_def jnl_ok_def)
  have "take (n_ents (fl_jnl st)) (j_entries (fl_jnl st)) ! n \<in> set (take (n_ents (fl_jnl st)) (j_entries (fl_jnl st)))"
    using Suc.prems(1) len by (intro nth_mem) simp
  then have "?k \<in> dom (jmap (fl_jnl st))"
    using Suc.prems(1) by (simp add: jmap_def dom_map_of_conv_image_fst del: in_set_conv_nth)
  then have k: "?k < segs" using st by (simp add: sit_stored_def)
  have kl: "?k < length (dirty_sentries_bitmap (fl_sit st1))" "dirty_sentries (fl_sit st1) = int (used (dirty_sentries_bitmap (fl_sit st1)))"
    using k i(1) by (simp_all add: mem_ok_def)
  note md = mark_dirty_count [OF kl]
  let ?sit = "fst (mark_sit_entry_dirty ?k (fl_sit st1))"
  have dirty: "dirty_at ?sit s \<longleftrightarrow> s = ?k \<or> dirty_at (fl_sit st1) s" for s
    using kb.tst_put [OF kl(1), of s] by (auto simp: mark_sit_entry_dirty_def)
  have res: "st' = st1\<lparr>fl_sit := ?sit\<rparr>" "head' = (if dirty_at (fl_sit st1) ?k then h1 else add_sit_entry ?k h1)"
    using Suc.prems(2) i(3) unfolding upt_Suc_append [OF le0] fold_append comp_def 1
    by (auto simp: remove_journal_step_def Let_def mark_sit_entry_dirty_def)
  have mem: "mem_ok segs ?sit" using i(1) md by (simp add: mem_ok_def)
  have tk: "fst ` set (take (Suc n) (j_entries (fl_jnl st))) = insert ?k (fst ` set (take n (j_entries (fl_jnl st))))"
    using len by (simp add: take_Suc_conv_app_nth)
  have "\<exists>ss'. sets_for ss' head' \<and> distinct ss' \<and> (\<forall>s. s \<in> set ss' \<longleftrightarrow> s < segs \<and> dirty_at ?sit s)"
  proof (cases "dirty_at (fl_sit st1) ?k")
    case True
    then show ?thesis using ss1 res(2) dirty by (intro exI [of _ ss1]) auto
  next
    case False
    then show ?thesis using ss1 add_sit_entry_sets [OF ss1(1), of ?k] res(2) dirty k by (intro exI [of _ "?k # ss1"]) auto
  qed
  then show ?case using i mem dirty tk by (auto simp: res(1))
qed

lemma no_dirty: "length m = n \<Longrightarrow> used m = 0 \<longleftrightarrow> (\<forall>s < n. \<not> test_bit s m)"
  by (simp add: used_def bit_count_card)

lemma used_filter: "length m = n \<Longrightarrow> used m = length (filter (\<lambda>s. test_bit s m) [0..<n])"
  by (simp add: used_def bit_count_def)

text \<open>The invariant holds when the loop over the sets starts, with or without room in the journal.\<close>

lemma flush_start:
  assumes st: "sit_stored segs st"
  defines "head \<equiv> add_sits_in_set segs (dirty_sentries_bitmap (fl_sit st)) []"
  shows "has_cursum_space SIT_JOURNAL_ENTRIES (fl_jnl st) (nat (dirty_sentries (fl_sit st))) \<Longrightarrow> flush_inv segs st True st head"
    "remove_sits_in_journal st head = (st', head') \<Longrightarrow> flush_inv segs st True st' head'"
proof -
  define L where "L = filter (dirty_at (fl_sit st)) [0..<segs]"
  have s: "segs < 2 ^ 32" "mem_ok segs (fl_sit st)" "jnl_ok SIT_JOURNAL_ENTRIES (fl_jnl st)" "area_ok segs st"
    "\<And>s. s \<in> dom (jmap (fl_jnl st)) \<Longrightarrow> s < segs"
    "\<And>s. s < segs \<Longrightarrow> \<not> dirty_at (fl_sit st) s \<Longrightarrow> sit_view st s = to_raw_sit (sentries (fl_sit st) ! s)" "\<not> fl_bug st"
    using st by (simp_all add: sit_stored_def)
  have "sets_for (rev L @ []) head"
    unfolding head_def add_sits_in_set_def L_def [symmetric] by (rule add_sits_sets) (simp add: sets_for_def)
  then have sf: "sets_for (rev L) head" by simp
  have L: "distinct (rev L)" "\<And>s. s \<in> set (rev L) \<longleftrightarrow> s < segs \<and> dirty_at (fl_sit st) s" by (auto simp: L_def)
  have tot: "total_cnt head = length L"
    unfolding head_def add_sits_in_set_def L_def [symmetric] total_fold by (simp add: total_cnt_def)
  have cnt: "nat (dirty_sentries (fl_sit st)) = length L" using s(2) used_filter [of "dirty_sentries_bitmap (fl_sit st)" segs]
    by (simp add: mem_ok_def L_def)
  have "length L \<le> segs" unfolding L_def using length_filter_le [of _ "[0..<segs]"] by simp
  then have small: "length L < 2 ^ 64" using s(1) by simp
  have rest: "\<forall>b < sit_blks segs. sit_ok (fl_area st) b" using s(4) by (simp add: area_ok_def)
  show "flush_inv segs st True st head"
    if "has_cursum_space SIT_JOURNAL_ENTRIES (fl_jnl st) (nat (dirty_sentries (fl_sit st)))"
  proof -
    have "jnl_fits True st head" using that has_space_iff [OF s(3) small] unfolding cnt by (simp add: jnl_fits_def tot)
    then show ?thesis using s rest sets_ok_for [OF sf L] by (simp add: flush_inv_def)
  qed
  show "flush_inv segs st True st' head'" if r: "remove_sits_in_journal st head = (st', head')"
  proof -
    let ?n = "n_ents (fl_jnl st)"
    obtain st1 where f: "fold remove_journal_step [0..<?n] (st, head) = (st1, head')"
      and st': "st' = st1\<lparr>fl_jnl := fst (update_ents_in_cursum (fl_jnl st1) (- int ?n))\<rparr>"
      using r by (auto simp: remove_sits_in_journal_def Let_def split: prod.splits)
    obtain ss' where ss': "sets_for ss' head'" "distinct ss'" "\<And>s. s \<in> set ss' \<longleftrightarrow> s < segs \<and> dirty_at (fl_sit st1) s"
      and i: "mem_ok segs (fl_sit st1)" "sentries (fl_sit st1) = sentries (fl_sit st)" "fl_jnl st1 = fl_jnl st" "fl_area st1 = fl_area st"
        "fl_meta st1 = fl_meta st" "fl_bug st1 = fl_bug st"
        "\<And>s. dirty_at (fl_sit st1) s \<longleftrightarrow> dirty_at (fl_sit st) s \<or> s \<in> fst ` set (take ?n (j_entries (fl_jnl st)))"
      using remove_journal [OF st sf L order_refl f] by blast
    have j: "fl_jnl st' = (fl_jnl st)\<lparr>n_ents := 0\<rparr>" by (simp add: st' i(3) update_ents_in_cursum_def Let_def)
    have jm: "jmap (fl_jnl st') = Map.empty" "jnl_ok SIT_JOURNAL_ENTRIES (fl_jnl st')" using s(3) by (simp_all add: j jmap_def jnl_ok_def)
    have view: "sit_view st' x = to_raw_sit (sentries (fl_sit st') ! x)" if x: "x < segs" "\<not> dirty_at (fl_sit st') x" for x
    proof -
      have nd: "\<not> dirty_at (fl_sit st) x" "jmap (fl_jnl st) x = None" using x(2) i(7) [of x] by (auto simp: st' jmap_def map_of_eq_None_iff)
      then have "sit_view st' x = sit_view st x" using jm(1) by (simp add: sit_view_def) (simp add: st' i)
      then show ?thesis using s(6) [OF x(1) nd(1)] by (simp add: st' i)
    qed
    have so: "sets_ok segs (dirty_at (fl_sit st')) head'" using sets_ok_for [OF ss'] by (simp add: st')
    have "area_ok segs st'" using s(4) by (simp add: area_ok_def st' i)
    then show ?thesis
      using s(7) rest i(1,7) jm so view by (auto simp: flush_inv_def jnl_fits_def st' i)
  qed
qed

lemma flush_end:
  assumes "sit_stored segs st"
  shows "\<exists>tj. flush_inv segs st tj (flush_sit_entries segs st) [] \<and> dirty_sentries (fl_sit (flush_sit_entries segs st)) = 0"
proof (cases "dirty_sentries (fl_sit st) = 0")
  case True
  have m: "mem_ok segs (fl_sit st)" using assms by (simp add: sit_stored_def)
  then have nd: "\<forall>s < segs. \<not> dirty_at (fl_sit st) s" using True no_dirty by (simp add: mem_ok_def)
  then have "sets_ok segs (dirty_at (fl_sit st)) []" by (simp add: sets_ok_def)
  moreover have "jnl_fits False st []" using assms nd by (simp add: jnl_fits_def sit_stored_def)
  ultimately have "flush_inv segs st False st []" using assms nd by (simp add: flush_inv_def sit_stored_def area_ok_def)
  then show ?thesis using True by (auto simp: flush_sit_entries_def)
next
  case False
  define head where "head = add_sits_in_set segs (dirty_sentries_bitmap (fl_sit st)) []"
  obtain st1 h1 where 1: "(if \<not> has_cursum_space SIT_JOURNAL_ENTRIES (fl_jnl st) (nat (dirty_sentries (fl_sit st)))
      then remove_sits_in_journal st head else (st, head)) = (st1, h1)" by fastforce
  have inv: "flush_inv segs st True st1 h1"
    using flush_start [OF assms, folded head_def] 1 by (auto split: if_splits)
  obtain tj st2 where 2: "fold (flush_sit_set segs) h1 (True, st1) = (tj, st2)" by fastforce
  note fin = flush_sets [OF inv 2]
  have m: "mem_ok segs (fl_sit st2)" "sets_ok segs (dirty_at (fl_sit st2)) []" "\<not> fl_bug st2" using flush_invD [OF fin] by blast+
  then have z: "dirty_sentries (fl_sit st2) = 0" using no_dirty by (simp add: mem_ok_def sets_ok_def)
  have "flush_sit_entries segs st = st2\<lparr>fl_bug := fl_bug st2\<rparr>"
    using False 1 2 z by (simp add: flush_sit_entries_def Let_def head_def [symmetric])
  then show ?thesis using fin z by auto
qed

text \<open>
  Property C3. Flushing the segment information table makes it durable. Afterwards no entry is dirty and for
  every segment the table a mount would read, the current copies overlaid with the journal, holds exactly the entry in
  memory, wherever the flush put it; the entries that were dirty have their checkpoint maps set to their current maps
  and no other field changes. None of the assertions fails, and the copy the last checkpoint refers to has not
  been touched, so a crash during the flush loses nothing.
\<close>

theorem flush_sit_entries_durable:
  assumes "sit_stored segs st"
  shows "sit_stored segs (flush_sit_entries segs st) \<and> dirty_sentries (fl_sit (flush_sit_entries segs st)) = 0 \<and>
    (\<forall>s < segs. sit_view (flush_sit_entries segs st) s = to_raw_sit (sentries (fl_sit (flush_sit_entries segs st)) ! s)) \<and>
    (\<forall>s < segs. to_raw_sit (sentries (fl_sit (flush_sit_entries segs st)) ! s) = to_raw_sit (sentries (fl_sit st) ! s) \<and>
       (dirty_at (fl_sit st) s \<longrightarrow>
          sentries (fl_sit (flush_sit_entries segs st)) ! s = fst (seg_info_to_raw_sit (sentries (fl_sit st) ! s)))) \<and>
    (\<forall>b < sit_blks segs. fl_meta (flush_sit_entries segs st) (sit_loc (fl_area st) b) = fl_meta st (sit_loc (fl_area st) b))"
proof -
  obtain tj where inv: "flush_inv segs st tj (flush_sit_entries segs st) []" and z: "dirty_sentries (fl_sit (flush_sit_entries segs st)) = 0"
    using flush_end [OF assms] by blast
  note i = flush_invD [OF inv]
  have nd: "\<And>s. s < segs \<Longrightarrow> \<not> dirty_at (fl_sit (flush_sit_entries segs st)) s" using i(4) by (simp add: sets_ok_def)
  have raw: "to_raw_sit (sentries (fl_sit (flush_sit_entries segs st)) ! s) = to_raw_sit (sentries (fl_sit st) ! s)" if "s < segs" for s
    using i(7) [OF that] by auto
  have "sit_stored segs (flush_sit_entries segs st)" using assms i(1-3,6,12,13) nd by (simp add: sit_stored_def)
  then show ?thesis using z i(6,8,10) nd raw by simp
qed

definition demo_fl :: sit_mgr where
  "demo_fl = \<lparr>fl_sit = fst (mark_sit_entry_dirty 3 demo_sit), fl_area = \<lparr>sit_base_addr = 100, sit_blocks = 1, sit_bitmap = [0]\<rparr>,
     fl_meta = (\<lambda>_. replicate SIT_ENTRY_PER_BLOCK (to_raw_sit demo_entry)),
     fl_jnl = \<lparr>n_ents = 0, j_entries = replicate SIT_JOURNAL_ENTRIES (0, to_raw_sit demo_entry)\<rparr>, fl_bug = False\<rparr>"

lemma demo_fl_stored: "sit_stored 8 demo_fl"
proof -
  have u: "used (replicate 8 False) = 0" by (simp add: used_def bit_count_card test_bit_def arr_get_def)
  have b: "(3::nat) < length (dirty_sentries_bitmap demo_sit)" "dirty_sentries demo_sit = int (used (dirty_sentries_bitmap demo_sit))"
    using u by (simp_all add: demo_sit_def)
  have m: "mem_ok 8 (fl_sit demo_fl)" using mark_dirty_count [OF b] by (simp add: mem_ok_def demo_fl_def) (simp add: demo_sit_def)
  have se: "sentries (fl_sit demo_fl) ! s = demo_entry" if "s < 8" for s using that by (simp add: demo_fl_def) (simp add: demo_sit_def)
  have v: "sit_view demo_fl s = to_raw_sit demo_entry" if "s < 8" for s
    using that SEPB by (simp add: sit_view_def demo_fl_def jmap_def get_current_sit_page_def SIT_ENTRY_OFFSET_def)
  have a: "area_ok 8 demo_fl" by (simp add: area_ok_def demo_fl_def sit_ok_def SIT_ENTRY_PER_BLOCK_def)
  have j: "jnl_ok SIT_JOURNAL_ENTRIES (fl_jnl demo_fl)" "jmap (fl_jnl demo_fl) = Map.empty" "\<not> fl_bug demo_fl"
    by (simp_all add: jnl_ok_def jmap_def demo_fl_def SIT_JOURNAL_ENTRIES_def)
  show ?thesis using m v a j se by (simp add: sit_stored_def)
qed

theorem flush_sit_entries_durable_witness:
  "dirty_sentries (fl_sit demo_fl) = 1 \<and> dirty_sentries (fl_sit (flush_sit_entries 8 demo_fl)) = 0 \<and>
   sit_view (flush_sit_entries 8 demo_fl) 3 = to_raw_sit (sentries (fl_sit (flush_sit_entries 8 demo_fl)) ! 3)"
proof -
  have "dirty_sentries (fl_sit demo_fl) = 1" by (simp add: demo_fl_def mark_sit_entry_dirty_def demo_sit_def test_bit_def arr_get_def)
  then show ?thesis using flush_sit_entries_durable [OF demo_fl_stored] by auto
qed

end
