(* ===== verification/Sit_Mount.thy ===== *)
theory Sit_Mount
  imports Sit_Flush
begin

text \<open>
  Reading the segment information table at mount and building the free segment map and the
  dirty lists from it (\<^verbatim>\<open>build_sit_entries\<close>, \<^verbatim>\<open>init_free_segmap\<close>, \<^verbatim>\<open>init_dirty_segmap\<close> in \<^verbatim>\<open>segment.c\<close>), and
  the step of a checkpoint that frees the prefree segments. The read-ahead of table blocks only sets
  the pace of the first loop and is left out; the journal loop indexes the table with a number read from disk.
\<close>

section \<open>Definitions\<close>

text \<open>The loop of \<^verbatim>\<open>check_block_count\<close> over the runs of set and clear bits, compiled with \<^verbatim>\<open>CONFIG_F2FS_CHECK_FS\<close> only (\<open>check_fs\<close>).\<close>

function count_runs :: "u8 list \<Rightarrow> nat \<Rightarrow> bool \<Rightarrow> nat \<Rightarrow> nat \<Rightarrow> nat" where
  "count_runs m bps is_valid cur_pos blocks =
     (let next_pos = (if is_valid then find_next_zero_bit (\<lambda>i. test_bit_le i m) bps cur_pos else find_next_bit (\<lambda>i. test_bit_le i m) bps cur_pos);
          blocks = (if is_valid then blocks + (next_pos - cur_pos) else blocks)
      in if next_pos < bps then count_runs m bps (\<not> is_valid) next_pos blocks else blocks)"
  by pat_completeness auto
termination
proof (relation "measure (\<lambda>(m, bps, v, cur, acc). 2 * (bps - cur) + (if test_bit_le cur m = v then 0 else 1))", simp)
  fix m bps v cur acc x acc'
  assume x: "x = (if v then find_next_zero_bit (\<lambda>i. test_bit_le i m) bps cur else find_next_bit (\<lambda>i. test_bit_le i m) bps cur)" and l: "x < bps"
  have "cur \<le> x \<and> test_bit_le x m = (\<not> v)"
    using x l find_next_bit_sound [of "\<lambda>i. test_bit_le i m" bps cur] find_next_bit_sound [of "\<lambda>i. \<not> test_bit_le i m" bps cur] by (cases v) (auto simp: find_next_zero_bit_def)
  then show "((m, bps, \<not> v, x, acc'), m, bps, v, cur, acc) \<in> measure (\<lambda>(m, bps, v, cur, acc). 2 * (bps - cur) + (if test_bit_le cur m = v then 0 else 1))"
    using l by (cases "x = cur") auto
qed

declare count_runs.simps [simp del]

definition check_block_count :: "bool \<Rightarrow> nat \<Rightarrow> nat \<Rightarrow> nat \<Rightarrow> f2fs_sit_entry \<Rightarrow> errno option" where
  "check_block_count check_fs total_segs bps segno raw_sit =
     (if check_fs \<and> unat (GET_SIT_VBLOCKS raw_sit) \<noteq> count_runs (valid_map raw_sit) bps (test_bit_le 0 (valid_map raw_sit)) 0 0 then Some EINVAL
      else if unat (GET_SIT_VBLOCKS raw_sit) > bps \<or> int segno > int total_segs - 1 then Some EINVAL else None)"

record sit_load =
  ld_sentries :: "seg_entry list"
  ld_sec :: "int list"
  ld_discard :: int

record load_conf =
  lc_g :: seg_geom
  lc_total_segs :: nat
  lc_check_fs :: bool
  lc_discard_en :: bool
  lc_trimmed :: bool

definition load_discard_map :: "load_conf \<Rightarrow> seg_entry \<Rightarrow> seg_entry" where
  "load_discard_map conf se =
     (if lc_discard_en conf
      then se\<lparr>discard_map := (if lc_trimmed conf then replicate SIT_VBLOCK_MAP_SIZE 0xff else cur_valid_map se)\<rparr>
      else se)"

definition load_entry :: "load_conf \<Rightarrow> nat \<Rightarrow> f2fs_sit_entry \<Rightarrow> int \<Rightarrow> int \<Rightarrow> sit_load \<Rightarrow> sit_load" where
  "load_entry conf segno sit base old ld =
     (let se = load_discard_map conf (seg_info_from_raw_sit (ld_sentries ld ! segno) sit);
          sec = GET_SEC_FROM_SEG (lc_g conf) segno
      in ld\<lparr>ld_sentries := (ld_sentries ld)[segno := se],
            ld_discard := (if lc_discard_en conf \<and> \<not> lc_trimmed conf then ld_discard ld + (base - valid_blocks se) else ld_discard ld),
            ld_sec := (if segs_per_sec (lc_g conf) > 1
                       then (ld_sec ld)[sec := arr_get 0 (ld_sec ld) sec + (valid_blocks se - old)] else ld_sec ld)\<rparr>)"

fun load_blocks :: "load_conf \<Rightarrow> sit_mgr \<Rightarrow> nat list \<Rightarrow> sit_load \<Rightarrow> errno option \<times> sit_load" where
  "load_blocks conf st [] ld = (None, ld)"
| "load_blocks conf st (start # rest) ld =
     (let sit = get_current_sit_page (fl_area st) (fl_meta st) start ! SIT_ENTRY_OFFSET start
      in case check_block_count (lc_check_fs conf) (lc_total_segs conf) (blocks_per_seg (lc_g conf)) start sit of
           Some err \<Rightarrow> (Some err, ld)
         | None \<Rightarrow> load_blocks conf st rest (load_entry conf start sit (int (blocks_per_seg (lc_g conf))) 0 ld))"

text \<open>The journal loop; \<open>None\<close> is an access outside the table.\<close>

fun load_journal :: "load_conf \<Rightarrow> (nat \<times> f2fs_sit_entry) list \<Rightarrow> sit_load \<Rightarrow> (errno option \<times> sit_load) option" where
  "load_journal conf [] ld = Some (None, ld)"
| "load_journal conf ((start, sit) # rest) ld =
     (if start < length (ld_sentries ld) then
        let old_valid_blocks = valid_blocks (ld_sentries ld ! start)
        in case check_block_count (lc_check_fs conf) (lc_total_segs conf) (blocks_per_seg (lc_g conf)) start sit of
             Some err \<Rightarrow> Some (Some err, ld)
           | None \<Rightarrow> load_journal conf rest (load_entry conf start sit old_valid_blocks old_valid_blocks ld)
      else None)"

definition build_sit_entries :: "load_conf \<Rightarrow> sit_mgr \<Rightarrow> sit_load \<Rightarrow> (errno option \<times> sit_load) option" where
  "build_sit_entries conf st ld =
     (case load_blocks conf st [0..<main_segs (lc_g conf)] ld of
        (Some err, ld) \<Rightarrow> Some (Some err, ld)
      | (None, ld) \<Rightarrow> load_journal conf (take (n_ents (fl_jnl st)) (j_entries (fl_jnl st))) ld)"

definition init_free_step :: "seg_geom \<Rightarrow> seg_entry list \<Rightarrow> nat \<Rightarrow> free_segmap_info \<times> int \<Rightarrow> free_segmap_info \<times> int" where
  "init_free_step g sents start fw =
     (case fw of (fi, written) \<Rightarrow>
        if valid_blocks (sents ! start) = 0 then (set_free g start fi, written)
        else (fi, written + valid_blocks (sents ! start)))"

definition init_free_segmap :: "seg_geom \<Rightarrow> seg_entry list \<Rightarrow> nat list \<Rightarrow> free_segmap_info \<Rightarrow> free_segmap_info \<times> int" where
  "init_free_segmap g sents cursegs fi =
     (case fold (init_free_step g sents) [0..<main_segs g] (fi, 0) of
        (fi, written) \<Rightarrow> (fold (set_test_and_inuse g) cursegs fi, written))"

definition init_dirty_step ::
  "seg_geom \<Rightarrow> nat list \<Rightarrow> sit_info \<Rightarrow> nat \<Rightarrow> dirty_seglist_info \<times> bool \<Rightarrow> dirty_seglist_info \<times> bool" where
  "init_dirty_step g curs sit segno db =
     (case db of (d, bug) \<Rightarrow>
        let valid_blocks = get_valid_blocks g sit segno False
        in if valid_blocks = int (blocks_per_seg g) \<or> valid_blocks = 0 then (d, bug)
           else if valid_blocks > int (blocks_per_seg g) then (d, True)
           else (locate_dirty_type curs sit segno DIRTY d, bug))"

text \<open>The segments in use, in increasing order, as \<^verbatim>\<open>find_next_inuse\<close> finds them.\<close>

definition init_dirty_segmap ::
  "seg_geom \<Rightarrow> nat list \<Rightarrow> sit_info \<Rightarrow> free_segmap_info \<Rightarrow> dirty_seglist_info \<Rightarrow> dirty_seglist_info \<times> bool" where
  "init_dirty_segmap g curs sit fi d =
     fold (init_dirty_step g curs sit) (filter (\<lambda>s. test_bit s (free_segmap fi)) [0..<main_segs g]) (d, False)"

definition set_prefree_as_free_segments :: "seg_geom \<Rightarrow> dirty_seglist_info \<Rightarrow> free_segmap_info \<Rightarrow> free_segmap_info" where
  "set_prefree_as_free_segments g d fi =
     fold (set_test_and_free g) (filter (dirty_bit d PRE) [0..<main_segs g]) fi"

section \<open>The check of an entry\<close>

lemma bit_count_upto:
  assumes "cur \<le> n" "n \<le> bps" "\<And>i. cur \<le> i \<Longrightarrow> i < n \<Longrightarrow> p i = v"
  shows "bit_count p n = bit_count p cur + (if v then n - cur else 0)"
proof -
  have "filter p [cur..<n] = (if v then [cur..<n] else [])" using assms(3) by (auto intro!: filter_True filter_False)
  moreover have "[0..<n] = [0..<cur] @ [cur..<n]" using assms(1) upt_add_eq_append [of 0 cur "n - cur"] by simp
  ultimately show ?thesis by (auto simp: bit_count_def)
qed

lemma count_runs_count:
  assumes "cur \<le> bps" "acc = bit_count (\<lambda>i. test_bit_le i m) cur"
  shows "count_runs m bps v cur acc = bit_count (\<lambda>i. test_bit_le i m) bps"
  using assms
proof (induction m bps v cur acc rule: count_runs.induct)
  case (1 m bps v cur acc)
  let ?p = "\<lambda>i. test_bit_le i m"
  define x where "x = (if v then find_next_zero_bit ?p bps cur else find_next_bit ?p bps cur)"
  have le: "x \<le> bps" using find_next_bit_le by (simp add: x_def find_next_zero_bit_def)
  have "cur \<le> x"
    using find_next_bit_sound [of ?p bps cur] find_next_bit_sound [of "\<lambda>i. \<not> ?p i" bps cur] le 1(2) by (cases v; cases "x < bps") (auto simp: x_def find_next_zero_bit_def)
  moreover have "?p i = v" if "cur \<le> i" "i < x" for i
    using that find_next_bit_least [of cur i ?p bps] find_next_bit_least [of cur i "\<lambda>i. \<not> ?p i" bps] by (cases v) (auto simp: x_def find_next_zero_bit_def)
  ultimately have c: "bit_count ?p x = acc + (if v then x - cur else 0)" using bit_count_upto [of cur x bps ?p v] le 1(3) by simp
  have IH: "count_runs m bps (\<not> v) x (if v then acc + (x - cur) else acc) = bit_count ?p bps" if "x < bps"
    by (rule 1(1) [OF x_def refl that]) (use that c in auto)
  show ?case by (subst count_runs.simps, unfold Let_def x_def [symmetric]) (use IH c le in auto)
qed

text \<open>The loop reads the bits of a byte from the least significant one, the maps are written from the most significant one; over whole bytes the count is the same.\<close>

lemma map_count_le_bits: "bit_count (\<lambda>i. test_bit_le i m) 512 = map_count m"
proof -
  let ?f = "\<lambda>i :: nat. 8 * (i div 8) + (7 - i mod 8)"
  have d: "?f i div 8 = i div 8" "?f i mod 8 = 7 - i mod 8" "?f (?f i) = i" for i :: nat
  proof -
    show a: "?f i div 8 = i div 8" by simp
    have "7 - i mod 8 < 8" by simp
    then show b: "?f i mod 8 = 7 - i mod 8" by (simp only: mod_mult_self4 mod_less)
    show "?f (?f i) = i" unfolding a b by simp
  qed
  have r: "rev_bit m i = test_bit_le (?f i) m" for i
    unfolding test_bit_le_def d(1,2) by (simp add: f2fs_test_bit_nonzero)
  have lt: "?f i < 512 \<longleftrightarrow> i < 512" for i
  proof -
    have "?f i < 512 \<longleftrightarrow> ?f i div 8 < 64" by (simp only: div_less_iff_less_mult) simp
    also have "\<dots> \<longleftrightarrow> i div 8 < 64" unfolding d(1) ..
    also have "\<dots> \<longleftrightarrow> i < 512" by (simp only: div_less_iff_less_mult) simp
    finally show ?thesis .
  qed
  have "bij_betw ?f {i. i < 512 \<and> rev_bit m i} {i. i < 512 \<and> test_bit_le i m}"
    by (rule bij_betw_byWitness [where f' = ?f]) (use d(3) lt r in auto)
  then show ?thesis unfolding map_count_def bit_count_card by (simp add: bij_betw_same_card)
qed

text \<open>
  The check of an on-disk entry is exact. Compiled for debugging it walks the runs of the validity map and rejects the entry exactly when the block count differs from the number of
  valid blocks in the map, although it numbers the bits of a byte from the other end than the code that sets them; in any case it rejects a count larger than a segment and a segment number that
  is not one of the volume.
\<close>

theorem check_block_count_exact:
  "check_block_count check_fs total_segs 512 segno raw =
     (if check_fs \<and> unat (GET_SIT_VBLOCKS raw) \<noteq> map_count (valid_map raw) \<or> unat (GET_SIT_VBLOCKS raw) > 512 \<or> total_segs \<le> segno then Some EINVAL else None)"
proof -
  have "count_runs (valid_map raw) 512 v 0 0 = map_count (valid_map raw)" for v
    using count_runs_count [of 0 512 0 "valid_map raw" v] map_count_le_bits by (simp add: bit_count_def)
  moreover have "int segno > int total_segs - 1 \<longleftrightarrow> total_segs \<le> segno" by linarith
  ultimately show ?thesis by (simp add: check_block_count_def)
qed

section \<open>Reading the table back\<close>

text \<open>The entry a mount builds from an on-disk entry.\<close>

definition loaded :: "load_conf \<Rightarrow> f2fs_sit_entry \<Rightarrow> seg_entry \<Rightarrow> bool" where
  "loaded conf raw se \<longleftrightarrow> (\<exists>se0. se = load_discard_map conf (seg_info_from_raw_sit se0 raw))"

lemma loaded_fields:
  assumes "loaded conf raw se"
  shows "valid_blocks se = uint (GET_SIT_VBLOCKS raw)" "cur_valid_map se = valid_map raw" "ckpt_valid_map se = valid_map raw"
    "ckpt_valid_blocks se = uint (GET_SIT_VBLOCKS raw)" "se_type se = unat (GET_SIT_TYPE raw)" "mtime se = sit_mtime raw"
  using assms by (auto simp: loaded_def load_discard_map_def seg_info_from_raw_sit_def)

text \<open>Section counts are the sums over the entries read so far.\<close>

definition sec_sums :: "load_conf \<Rightarrow> (nat \<Rightarrow> int) \<Rightarrow> sit_load \<Rightarrow> bool" where
  "sec_sums conf v ld \<longleftrightarrow>
     (segs_per_sec (lc_g conf) > 1 \<longrightarrow> length (ld_sec ld) = main_secs (lc_g conf) \<and>
        (\<forall>c < main_secs (lc_g conf). ld_sec ld ! c = (\<Sum>s \<in> sec_segs (lc_g conf) c. v s)))"

lemma load_entry_ok:
  fixes raw :: f2fs_sit_entry and base :: int
  assumes g: "geom_ok (lc_g conf)" and s: "s < main_segs (lc_g conf)" "length (ld_sentries ld) = main_segs (lc_g conf)"
    and sums: "sec_sums conf v ld" and old: "old = v s"
  defines "ld' \<equiv> load_entry conf s raw base old ld"
  shows "length (ld_sentries ld') = main_segs (lc_g conf)" "loaded conf raw (ld_sentries ld' ! s)"
    "\<And>x. x \<noteq> s \<Longrightarrow> ld_sentries ld' ! x = ld_sentries ld ! x"
    "sec_sums conf (v(s := uint (GET_SIT_VBLOCKS raw))) ld'"
proof -
  let ?se = "load_discard_map conf (seg_info_from_raw_sit (ld_sentries ld ! s) raw)"
  have ld': "ld_sentries ld' = (ld_sentries ld)[s := ?se]"
    "ld_sec ld' = (if segs_per_sec (lc_g conf) > 1 then (ld_sec ld)[GET_SEC_FROM_SEG (lc_g conf) s :=
        arr_get 0 (ld_sec ld) (GET_SEC_FROM_SEG (lc_g conf) s) + (valid_blocks ?se - old)] else ld_sec ld)"
    by (simp_all add: ld'_def load_entry_def Let_def)
  show "length (ld_sentries ld') = main_segs (lc_g conf)" using s by (simp add: ld')
  show l: "loaded conf raw (ld_sentries ld' ! s)" using s by (auto simp: ld' loaded_def)
  show "ld_sentries ld' ! x = ld_sentries ld ! x" if "x \<noteq> s" for x using that by (simp add: ld')
  have vb: "valid_blocks ?se = uint (GET_SIT_VBLOCKS raw)" using loaded_fields(1) [of conf raw ?se] by (auto simp: loaded_def)
  have pos: "0 < segs_per_sec (lc_g conf)" using g by (simp add: geom_ok_def)
  have sec: "GET_SEC_FROM_SEG (lc_g conf) s < main_secs (lc_g conf)" by (rule sec_of_seg [OF g s(1)])
  have up: "(\<Sum>x \<in> sec_segs (lc_g conf) c. (v(s := uint (GET_SIT_VBLOCKS raw))) x) =
      (\<Sum>x \<in> sec_segs (lc_g conf) c. v x) + (if c = GET_SEC_FROM_SEG (lc_g conf) s then uint (GET_SIT_VBLOCKS raw) - old else 0)" for c
    using sum_upd [of "sec_segs (lc_g conf) c" s "v(s := uint (GET_SIT_VBLOCKS raw))" v] in_sec_segs [OF pos, of s c] old
    by (simp add: sec_segs_def)
  show "sec_sums conf (v(s := uint (GET_SIT_VBLOCKS raw))) ld'"
    using sums sec unfolding sec_sums_def up ld' vb by (auto simp: nth_list_update)
qed

lemma load_blocks_ok:
  assumes g: "geom_ok (lc_g conf)"
    and page: "\<And>s. s < main_segs (lc_g conf) \<Longrightarrow> check_block_count (lc_check_fs conf) (lc_total_segs conf) (blocks_per_seg (lc_g conf)) s (get_current_sit_page (fl_area st) (fl_meta st) s ! SIT_ENTRY_OFFSET s) = None"
    and ss: "distinct ss" "\<forall>s \<in> set ss. s < main_segs (lc_g conf) \<and> v s = 0"
    and ld: "length (ld_sentries ld) = main_segs (lc_g conf)" "sec_sums conf v ld"
  defines "raw \<equiv> \<lambda>s. get_current_sit_page (fl_area st) (fl_meta st) s ! SIT_ENTRY_OFFSET s"
  shows "\<exists>ld'. load_blocks conf st ss ld = (None, ld') \<and> length (ld_sentries ld') = main_segs (lc_g conf) \<and>
    (\<forall>s < main_segs (lc_g conf). if s \<in> set ss then loaded conf (raw s) (ld_sentries ld' ! s) else ld_sentries ld' ! s = ld_sentries ld ! s) \<and>
    sec_sums conf (\<lambda>s. if s \<in> set ss then uint (GET_SIT_VBLOCKS (raw s)) else v s) ld'"
  using ss ld
proof (induction ss arbitrary: ld v)
  case Nil
  then show ?case by simp
next
  case (Cons s ss)
  have s: "s < main_segs (lc_g conf)" "v s = 0" "s \<notin> set ss" using Cons.prems by simp_all
  let ?ld1 = "load_entry conf s (raw s) (int (blocks_per_seg (lc_g conf))) 0 ld"
  note e = load_entry_ok [OF g s(1) Cons.prems(3,4) s(2) [symmetric], where raw = "raw s" and base = "int (blocks_per_seg (lc_g conf))"]
  have chk: "check_block_count (lc_check_fs conf) (lc_total_segs conf) (blocks_per_seg (lc_g conf)) s (raw s) = None"
    using page [OF s(1)] by (simp add: raw_def)
  let ?v1 = "v(s := uint (GET_SIT_VBLOCKS (raw s)))"
  have "\<forall>x \<in> set ss. x < main_segs (lc_g conf) \<and> ?v1 x = 0" using Cons.prems(2) s(3) by auto
  from Cons.IH [OF _ this e(1,4)] Cons.prems(1) obtain ld' where
    ld': "load_blocks conf st ss ?ld1 = (None, ld')" "length (ld_sentries ld') = main_segs (lc_g conf)"
      "\<forall>x < main_segs (lc_g conf). if x \<in> set ss then loaded conf (raw x) (ld_sentries ld' ! x) else ld_sentries ld' ! x = ld_sentries ?ld1 ! x"
      "sec_sums conf (\<lambda>x. if x \<in> set ss then uint (GET_SIT_VBLOCKS (raw x)) else ?v1 x) ld'"
    by auto
  have "(\<lambda>x. if x \<in> set (s # ss) then uint (GET_SIT_VBLOCKS (raw x)) else v x) =
      (\<lambda>x. if x \<in> set ss then uint (GET_SIT_VBLOCKS (raw x)) else ?v1 x)" using s(3) by auto
  moreover have "if x \<in> set (s # ss) then loaded conf (raw x) (ld_sentries ld' ! x) else ld_sentries ld' ! x = ld_sentries ld ! x"
    if "x < main_segs (lc_g conf)" for x
    using ld'(3) that e(2,3) s(3) by (cases "x = s") (auto split: if_splits)
  moreover have "load_blocks conf st (s # ss) ld = (None, ld')" using chk ld'(1) unfolding raw_def by (simp add: Let_def)
  ultimately show ?case using ld'(2,4) by (intro exI [of _ ld']) simp
qed

lemma load_journal_ok:
  assumes g: "geom_ok (lc_g conf)"
    and js: "distinct (map fst js)"
      "\<forall>(s, raw) \<in> set js. s < main_segs (lc_g conf) \<and> check_block_count (lc_check_fs conf) (lc_total_segs conf) (blocks_per_seg (lc_g conf)) s raw = None"
    and ld: "length (ld_sentries ld) = main_segs (lc_g conf)" "\<And>s. s < main_segs (lc_g conf) \<Longrightarrow> loaded conf (raw s) (ld_sentries ld ! s)"
      "sec_sums conf (\<lambda>s. valid_blocks (ld_sentries ld ! s)) ld"
  shows "\<exists>ld'. load_journal conf js ld = Some (None, ld') \<and> length (ld_sentries ld') = main_segs (lc_g conf) \<and>
    (\<forall>s < main_segs (lc_g conf). loaded conf (case map_of js s of Some e \<Rightarrow> e | None \<Rightarrow> raw s) (ld_sentries ld' ! s)) \<and>
    sec_sums conf (\<lambda>s. valid_blocks (ld_sentries ld' ! s)) ld'"
  using js ld
proof (induction js arbitrary: ld raw)
  case Nil
  then show ?case by simp
next
  case (Cons x js)
  obtain s e where x: "x = (s, e)" by force
  have s: "s < main_segs (lc_g conf)" "check_block_count (lc_check_fs conf) (lc_total_segs conf) (blocks_per_seg (lc_g conf)) s e = None" "s \<notin> fst ` set js" using Cons.prems x by auto
  let ?old = "valid_blocks (ld_sentries ld ! s)"
  let ?ld1 = "load_entry conf s e ?old ?old ld"
  note en = load_entry_ok [OF g s(1) Cons.prems(3,5) refl, where raw = e and base = ?old]
  note chk = s(2)
  have vb: "valid_blocks (ld_sentries ?ld1 ! s) = uint (GET_SIT_VBLOCKS e)" using loaded_fields(1) [OF en(2)] .
  have v1: "(\<lambda>y. valid_blocks (ld_sentries ?ld1 ! y)) = (\<lambda>y. valid_blocks (ld_sentries ld ! y))(s := uint (GET_SIT_VBLOCKS e))"
    using en(3) vb by (auto simp: fun_eq_iff)
  have l1: "loaded conf ((raw(s := e)) y) (ld_sentries ?ld1 ! y)" if "y < main_segs (lc_g conf)" for y
    using en(2,3) Cons.prems(4) [OF that] by (cases "y = s") simp_all
  have d: "distinct (map fst js)" "\<forall>(s, raw) \<in> set js. s < main_segs (lc_g conf) \<and> check_block_count (lc_check_fs conf) (lc_total_segs conf) (blocks_per_seg (lc_g conf)) s raw = None"
    using Cons.prems(1,2) by auto
  from Cons.IH [OF d en(1) l1 en(4) [folded v1]] obtain ld' where ld': "load_journal conf js ?ld1 = Some (None, ld')"
    "length (ld_sentries ld') = main_segs (lc_g conf)"
    "\<forall>y < main_segs (lc_g conf). loaded conf (case map_of js y of Some e \<Rightarrow> e | None \<Rightarrow> (raw(s := e)) y) (ld_sentries ld' ! y)"
    "sec_sums conf (\<lambda>y. valid_blocks (ld_sentries ld' ! y)) ld'" by auto
  have "map_of js s = None" using s(3) by (simp add: map_of_eq_None_iff)
  then have "(case map_of (x # js) y of Some e \<Rightarrow> e | None \<Rightarrow> raw y) = (case map_of js y of Some e \<Rightarrow> e | None \<Rightarrow> (raw(s := e)) y)" for y
    using x by (auto split: option.split)
  then show ?case using ld' chk s(1) Cons.prems(3) x by (simp add: Let_def)
qed

text \<open>
  Property C18. A mount after a checkpoint rebuilds the table. Once the table has been flushed,
  \<^verbatim>\<open>build_sit_entries\<close> succeeds, and each entry it builds has the type, the block count, the validity map (now also the
  checkpoint map) and the modification time of the entry that was in memory; the section counts are the sums over the
  segments of the section.
\<close>

theorem build_sit_entries_roundtrip:
  assumes "sit_stored (main_segs (lc_g conf)) st" and "geom_ok (lc_g conf)" and "main_segs (lc_g conf) \<le> lc_total_segs conf"
    and "\<forall>s < main_segs (lc_g conf). se_type (sentries (fl_sit st) ! s) < 64 \<and> 0 \<le> valid_blocks (sentries (fl_sit st) ! s) \<and>
      valid_blocks (sentries (fl_sit st) ! s) \<le> 512"
    and "blocks_per_seg (lc_g conf) = 512" and "length (ld_sentries ld) = main_segs (lc_g conf)"
    and "sec_sums conf (\<lambda>_. 0) ld" and "dirty_sentries (fl_sit st) = 0"
    and "\<forall>s < main_segs (lc_g conf). unat (GET_SIT_VBLOCKS (get_current_sit_page (fl_area st) (fl_meta st) s ! SIT_ENTRY_OFFSET s)) \<le> 512"
    and "lc_check_fs conf \<longrightarrow> (\<forall>s < main_segs (lc_g conf). valid_blocks (sentries (fl_sit st) ! s) = int (map_count (cur_valid_map (sentries (fl_sit st) ! s))) \<and>
      (let raw = get_current_sit_page (fl_area st) (fl_meta st) s ! SIT_ENTRY_OFFSET s in unat (GET_SIT_VBLOCKS raw) = map_count (valid_map raw)))"
  shows "\<exists>ld'. build_sit_entries conf st ld = Some (None, ld') \<and>
    (\<forall>s < main_segs (lc_g conf). se_type (ld_sentries ld' ! s) = se_type (sentries (fl_sit st) ! s) \<and>
       valid_blocks (ld_sentries ld' ! s) = valid_blocks (sentries (fl_sit st) ! s) \<and>
       cur_valid_map (ld_sentries ld' ! s) = cur_valid_map (sentries (fl_sit st) ! s) \<and>
       ckpt_valid_map (ld_sentries ld' ! s) = cur_valid_map (sentries (fl_sit st) ! s) \<and>
       mtime (ld_sentries ld' ! s) = mtime (sentries (fl_sit st) ! s)) \<and>
    sec_sums conf (\<lambda>s. valid_blocks (sentries (fl_sit st) ! s)) ld'"
proof -
  let ?n = "main_segs (lc_g conf)"
  define raw where "raw = (\<lambda>s. get_current_sit_page (fl_area st) (fl_meta st) s ! SIT_ENTRY_OFFSET s)"
  let ?js = "take (n_ents (fl_jnl st)) (j_entries (fl_jnl st))"
  have st: "mem_ok ?n (fl_sit st)" "distinct (map fst ?js)" "\<forall>s \<in> dom (map_of ?js). s < ?n"
    "\<And>s. s < ?n \<Longrightarrow> \<not> dirty_at (fl_sit st) s \<Longrightarrow> sit_view st s = to_raw_sit (sentries (fl_sit st) ! s)"
    using assms(1) by (simp_all add: sit_stored_def jnl_ok_def jmap_def)
  have nd: "\<forall>s < ?n. \<not> dirty_at (fl_sit st) s" using st(1) assms(8) no_dirty by (simp add: mem_ok_def)
  have view: "(case map_of ?js s of Some e \<Rightarrow> e | None \<Rightarrow> raw s) = to_raw_sit (sentries (fl_sit st) ! s)" if "s < ?n" for s
    using st(4) [OF that] nd that unfolding sit_view_def jmap_def raw_def by blast
  have fields: "uint (GET_SIT_VBLOCKS (to_raw_sit (sentries (fl_sit st) ! s))) = valid_blocks (sentries (fl_sit st) ! s)"
    "unat (GET_SIT_TYPE (to_raw_sit (sentries (fl_sit st) ! s))) = se_type (sentries (fl_sit st) ! s)" if "s < ?n" for s
    using raw_sit_fields [of "sentries (fl_sit st) ! s"] assms(4) that by fastforce+
  have check: "check_block_count (lc_check_fs conf) (lc_total_segs conf) (blocks_per_seg (lc_g conf)) s raw = None"
    if "s < ?n" "unat (GET_SIT_VBLOCKS raw) \<le> 512" "lc_check_fs conf \<longrightarrow> unat (GET_SIT_VBLOCKS raw) = map_count (valid_map raw)" for s raw
    using that assms(3) check_block_count_exact [of "lc_check_fs conf" "lc_total_segs conf" s raw] unfolding assms(5) by auto
  have pg: "check_block_count (lc_check_fs conf) (lc_total_segs conf) (blocks_per_seg (lc_g conf)) s (get_current_sit_page (fl_area st) (fl_meta st) s ! SIT_ENTRY_OFFSET s) = None" if "s < ?n" for s
    by (rule check [OF that]) (use assms(9,10) that in \<open>simp_all add: Let_def\<close>)
  have "\<exists>ld1. load_blocks conf st [0..<?n] ld = (None, ld1) \<and> length (ld_sentries ld1) = ?n \<and>
    (\<forall>s < ?n. if s \<in> set [0..<?n] then loaded conf (raw s) (ld_sentries ld1 ! s) else ld_sentries ld1 ! s = ld_sentries ld ! s) \<and>
    sec_sums conf (\<lambda>s. if s \<in> set [0..<?n] then uint (GET_SIT_VBLOCKS (raw s)) else 0) ld1"
    unfolding raw_def by (rule load_blocks_ok [OF assms(2) pg]) (use assms(6,7) in simp_all)
  then obtain ld1 where ld1: "load_blocks conf st [0..<?n] ld = (None, ld1)" "length (ld_sentries ld1) = ?n"
    "\<And>s. s < ?n \<Longrightarrow> loaded conf (raw s) (ld_sentries ld1 ! s)"
    "sec_sums conf (\<lambda>s. if s < ?n then uint (GET_SIT_VBLOCKS (raw s)) else 0) ld1" by auto
  have seg_lt: "s < ?n" if "c < main_secs (lc_g conf)" "s \<in> sec_segs (lc_g conf) c" for c s
  proof -
    have "s < (c + 1) * segs_per_sec (lc_g conf)" using that(2) by (simp add: sec_segs_def)
    also have "\<dots> \<le> main_secs (lc_g conf) * segs_per_sec (lc_g conf)" using that(1) by (intro mult_le_mono1) simp
    finally show ?thesis using assms(2) by (simp add: geom_ok_def)
  qed
  have sums_cong: "sec_sums conf u l = sec_sums conf w l" if "\<And>s. s < ?n \<Longrightarrow> u s = w s" for u w l
  proof -
    have "(\<Sum>s \<in> sec_segs (lc_g conf) c. u s) = (\<Sum>s \<in> sec_segs (lc_g conf) c. w s)" if "c < main_secs (lc_g conf)" for c
      using seg_lt [OF that] \<open>\<And>s. s < ?n \<Longrightarrow> u s = w s\<close> by (intro sum.cong) auto
    then show ?thesis by (simp add: sec_sums_def)
  qed
  have sums1: "sec_sums conf (\<lambda>s. valid_blocks (ld_sentries ld1 ! s)) ld1"
    by (rule iffD1 [OF sums_cong ld1(4)]) (simp add: loaded_fields(1) [OF ld1(3)])
  have js: "\<forall>(s, e) \<in> set ?js. s < ?n \<and> check_block_count (lc_check_fs conf) (lc_total_segs conf) (blocks_per_seg (lc_g conf)) s e = None"
  proof
    fix x assume x: "x \<in> set ?js"
    obtain s e where se: "x = (s, e)" by force
    have m: "map_of ?js s = Some e" using st(2) x se by (simp add: map_of_eq_Some_iff)
    then have s: "s < ?n" using st(3) by blast
    have "uint (GET_SIT_VBLOCKS e) \<le> 512" using view [OF s] fields(1) [OF s] m assms(4) s by simp
    then have le: "unat (GET_SIT_VBLOCKS e) \<le> 512" by (simp only: unat_eq_nat_uint)
    have e: "e = to_raw_sit (sentries (fl_sit st) ! s)" using view [OF s] m by simp
    have "unat (GET_SIT_VBLOCKS e) = map_count (valid_map e)" if "lc_check_fs conf"
    proof -
      have "int (unat (GET_SIT_VBLOCKS e)) = int (map_count (valid_map e))"
        using fields(1) [OF s] assms(10) that s unfolding e by (simp add: to_raw_sit_def)
      then show ?thesis by (rule of_nat_eq_iff [where 'a = int, THEN iffD1])
    qed
    then show "case x of (s, e) \<Rightarrow> s < ?n \<and> check_block_count (lc_check_fs conf) (lc_total_segs conf) (blocks_per_seg (lc_g conf)) s e = None" using check [OF s le] s se by simp
  qed
  from load_journal_ok [OF assms(2) st(2) js ld1(2,3) sums1] obtain ld' where
    ld': "load_journal conf ?js ld1 = Some (None, ld')" "\<And>s. s < ?n \<Longrightarrow> loaded conf (to_raw_sit (sentries (fl_sit st) ! s)) (ld_sentries ld' ! s)"
    "sec_sums conf (\<lambda>s. valid_blocks (ld_sentries ld' ! s)) ld'" using view by auto
  have raw_map: "valid_map (to_raw_sit se) = cur_valid_map se" "sit_mtime (to_raw_sit se) = mtime se" for se by (simp_all add: to_raw_sit_def)
  have "sec_sums conf (\<lambda>s. valid_blocks (sentries (fl_sit st) ! s)) ld'"
    by (rule iffD1 [OF sums_cong ld'(3)]) (simp add: loaded_fields(1) [OF ld'(2)] fields(1))
  moreover have "build_sit_entries conf st ld = Some (None, ld')" using ld1(1) ld'(1) by (simp add: build_sit_entries_def)
  ultimately show ?thesis using loaded_fields [OF ld'(2)] fields raw_map by (intro exI [of _ ld']) simp
qed

definition demo_clean :: sit_mgr where "demo_clean = demo_fl\<lparr>fl_sit := demo_sit\<rparr>"
definition demo_load_conf :: load_conf where
  "demo_load_conf = \<lparr>lc_g = demo_geom, lc_total_segs = 14, lc_check_fs = True, lc_discard_en = True, lc_trimmed = False\<rparr>"
definition demo_load :: sit_load where
  "demo_load = \<lparr>ld_sentries = replicate 8 empty_seg_entry, ld_sec = replicate 4 0, ld_discard = 0\<rparr>"

theorem build_sit_entries_roundtrip_witness:
  "\<exists>ld'. build_sit_entries demo_load_conf demo_clean demo_load = Some (None, ld') \<and>
     (\<forall>s < 8. cur_valid_map (ld_sentries ld' ! s) = replicate 64 0)"
proof -
  have c: "main_segs (lc_g demo_load_conf) = 8" "geom_ok (lc_g demo_load_conf)" "lc_total_segs demo_load_conf = 14"
    "blocks_per_seg (lc_g demo_load_conf) = 512" "segs_per_sec (lc_g demo_load_conf) = 2" "main_secs (lc_g demo_load_conf) = 4"
    using demo_geom_ok by (simp_all add: demo_load_conf_def demo_geom_def blocks_per_seg_def)
  have u: "used (replicate 8 False) = 0" by (simp add: used_def bit_count_card test_bit_def arr_get_def)
  have se: "sentries demo_sit ! s = demo_entry" if "s < 8" for s using that by (simp add: demo_sit_def)
  have pg: "get_current_sit_page (fl_area demo_clean) (fl_meta demo_clean) s ! SIT_ENTRY_OFFSET s = to_raw_sit demo_entry" for s
    using SEPB by (simp add: demo_clean_def demo_fl_def get_current_sit_page_def SIT_ENTRY_OFFSET_def)
  have jm: "jmap (fl_jnl demo_clean) = Map.empty" by (simp add: demo_clean_def demo_fl_def jmap_def)
  have st: "sit_stored 8 demo_clean"
    using demo_fl_stored u se pg jm unfolding sit_stored_def
    by (simp add: sit_view_def demo_clean_def area_ok_def mem_ok_def) (simp add: demo_sit_def)
  have vb: "unat (GET_SIT_VBLOCKS (to_raw_sit demo_entry)) = 0" by (simp add: GET_SIT_VBLOCKS_def to_raw_sit_def demo_entry_def)
  have sums: "sec_sums demo_load_conf (\<lambda>_. 0) demo_load" by (simp add: sec_sums_def c demo_load_def)
  have rest: "\<forall>s < main_segs (lc_g demo_load_conf). se_type (sentries (fl_sit demo_clean) ! s) < 64 \<and>
      0 \<le> valid_blocks (sentries (fl_sit demo_clean) ! s) \<and> valid_blocks (sentries (fl_sit demo_clean) ! s) \<le> 512"
    "dirty_sentries (fl_sit demo_clean) = 0" "length (ld_sentries demo_load) = main_segs (lc_g demo_load_conf)"
    "\<forall>s < main_segs (lc_g demo_load_conf). unat (GET_SIT_VBLOCKS (get_current_sit_page (fl_area demo_clean) (fl_meta demo_clean) s !
      SIT_ENTRY_OFFSET s)) \<le> 512"
    unfolding c pg using se vb by (simp_all add: demo_clean_def demo_entry_def demo_load_def) (simp add: demo_sit_def)
  have tot: "main_segs (lc_g demo_load_conf) \<le> lc_total_segs demo_load_conf" by (simp add: c)
  have z: "map_count (replicate 64 0) = 0" using demo_entry_counts by (simp add: seg_counts_def demo_entry_def)
  have chk: "lc_check_fs demo_load_conf \<longrightarrow> (\<forall>s < main_segs (lc_g demo_load_conf). valid_blocks (sentries (fl_sit demo_clean) ! s) =
      int (map_count (cur_valid_map (sentries (fl_sit demo_clean) ! s))) \<and> (let raw = get_current_sit_page (fl_area demo_clean) (fl_meta demo_clean) s ! SIT_ENTRY_OFFSET s
        in unat (GET_SIT_VBLOCKS raw) = map_count (valid_map raw)))"
    unfolding c pg Let_def using se z vb by (simp add: demo_clean_def demo_entry_def to_raw_sit_def)
  from build_sit_entries_roundtrip [OF st [folded c(1)] c(2) tot rest(1) c(4) rest(3) sums rest(2,4) chk]
  show ?thesis using se unfolding c by (auto simp: demo_clean_def demo_entry_def)
qed

section \<open>The maps built from the table\<close>

lemma used_all: "used (replicate n True) = n"
  by (simp add: used_def bit_count_card test_bit_def arr_get_def)

lemma build_free_ok: "geom_ok g \<Longrightarrow> free_ok g (build_free_segmap g)"
proof -
  assume g: "geom_ok g"
  have "\<exists>s. in_section g c s \<and> test_bit s (replicate (main_segs g) True)" if c: "c < main_secs g" for c
  proof -
    have s: "GET_SEG_FROM_SEC g c < main_segs g" by (rule seg_of_sec [OF g c])
    have "in_section g c (GET_SEG_FROM_SEC g c)" using g by (simp add: in_section_def GET_SEG_FROM_SEC_def geom_ok_def)
    then show ?thesis using s by (auto simp: test_bit_def arr_get_def)
  qed
  then show ?thesis by (auto simp: free_ok_def build_free_segmap_def used_all test_bit_def arr_get_def)
qed

lemma init_free_fold:
  assumes g: "geom_ok g" and ok: "free_ok g fi" and ss: "distinct ss" "\<forall>s \<in> set ss. s < main_segs g \<and> test_bit s (free_segmap fi)"
    and res: "fold (init_free_step g sents) ss (fi, w) = (fi', w')"
  shows "free_ok g fi' \<and> w' = w + (\<Sum>s \<leftarrow> ss. valid_blocks (sents ! s)) \<and>
    (\<forall>s. test_bit s (free_segmap fi') = (test_bit s (free_segmap fi) \<and> \<not> (s \<in> set ss \<and> valid_blocks (sents ! s) = 0)))"
  using ok ss res
proof (induction ss arbitrary: fi w)
  case (Cons s ss)
  have s: "s < main_segs g" "test_bit s (free_segmap fi)" "s \<notin> set ss" using Cons.prems by simp_all
  show ?case
  proof (cases "valid_blocks (sents ! s) = 0")
    case True
    note f = set_free_ok [OF g Cons.prems(1) s(1,2)]
    have sl: "s < length (free_segmap fi)" using s(1) Cons.prems(1) by (simp add: free_ok_def)
    have tst: "test_bit x (free_segmap (set_free g s fi)) = (x \<noteq> s \<and> test_bit x (free_segmap fi))" for x
      unfolding f(3) using kb.tst_clr [OF sl, of x] by simp
    have "\<forall>x \<in> set ss. x < main_segs g \<and> test_bit x (free_segmap (set_free g s fi))" using Cons.prems(3) s(3) tst by auto
    from Cons.IH [OF f(1) _ this] show ?thesis using Cons.prems(2,4) True tst by (auto simp: init_free_step_def)
  next
    case False
    then show ?thesis using Cons.IH [OF Cons.prems(1), of "w + valid_blocks (sents ! s)"] Cons.prems by (auto simp: init_free_step_def)
  qed
qed simp

lemma inuse_fold:
  assumes g: "geom_ok g" and "free_ok g fi" "\<forall>s \<in> set cs. s < main_segs g"
  shows "free_ok g (fold (set_test_and_inuse g) cs fi) \<and>
    (\<forall>s. test_bit s (free_segmap (fold (set_test_and_inuse g) cs fi)) = (s \<in> set cs \<or> test_bit s (free_segmap fi)))"
  using assms(2,3)
proof (induction cs arbitrary: fi)
  case (Cons c cs)
  have c: "c < main_segs g" using Cons.prems by simp
  note f = set_test_and_inuse_ok [OF g Cons.prems(1) c]
  have cl: "c < length (free_segmap fi)" using c Cons.prems(1) by (simp add: free_ok_def)
  show ?case using Cons.IH [OF f(1)] Cons.prems(2) kb.tst_put [OF cl] by (auto simp: f(2))
qed simp

lemma free_fold:
  assumes g: "geom_ok g" and "free_ok g fi" "\<forall>s \<in> set cs. s < main_segs g"
  shows "free_ok g (fold (set_test_and_free g) cs fi) \<and>
    (\<forall>s. test_bit s (free_segmap (fold (set_test_and_free g) cs fi)) = (s \<notin> set cs \<and> test_bit s (free_segmap fi)))"
  using assms(2,3)
proof (induction cs arbitrary: fi)
  case (Cons c cs)
  have c: "c < main_segs g" using Cons.prems by simp
  note f = set_test_and_free_ok [OF g Cons.prems(1) c]
  have cl: "c < length (free_segmap fi)" using c Cons.prems(1) by (simp add: free_ok_def)
  show ?case using Cons.IH [OF f(1)] Cons.prems(2) kb.tst_clr [OF cl] by (auto simp: f(2))
qed simp

text \<open>
  The free segment map built at mount is right: a segment is in use exactly when it holds valid blocks or is
  a current segment, both bitmaps and counters agree, and the number of written blocks is the sum over all
  segments. Freeing the prefree segments at a checkpoint keeps the map right and frees exactly those.
\<close>

theorem init_free_segmap_correct:
  assumes "geom_ok g" and "\<forall>s \<in> set cursegs. s < main_segs g"
    and "init_free_segmap g sents cursegs (build_free_segmap g) = (fi, written)"
  shows "free_ok g fi \<and> written = (\<Sum>s < main_segs g. valid_blocks (sents ! s)) \<and>
    (\<forall>s < main_segs g. test_bit s (free_segmap fi) \<longleftrightarrow> s \<in> set cursegs \<or> valid_blocks (sents ! s) \<noteq> 0) \<and>
    free_ok g (set_prefree_as_free_segments g d fi) \<and>
    (\<forall>s < main_segs g. test_bit s (free_segmap (set_prefree_as_free_segments g d fi)) \<longleftrightarrow>
       \<not> dirty_bit d PRE s \<and> test_bit s (free_segmap fi))"
proof -
  obtain f0 where f0: "fold (init_free_step g sents) [0..<main_segs g] (build_free_segmap g, 0) = (f0, written)"
    and fi: "fi = fold (set_test_and_inuse g) cursegs f0"
    using assms(3) by (auto simp: init_free_segmap_def split: prod.splits)
  have all: "test_bit s (free_segmap (build_free_segmap g)) \<longleftrightarrow> s < main_segs g" for s
    by (simp add: build_free_segmap_def test_bit_def arr_get_def)
  note a = init_free_fold [OF assms(1) build_free_ok [OF assms(1)] _ _ f0]
  have b: "free_ok g f0" "written = (\<Sum>s \<leftarrow> [0..<main_segs g]. valid_blocks (sents ! s))"
    "\<And>s. test_bit s (free_segmap f0) = (s < main_segs g \<and> valid_blocks (sents ! s) \<noteq> 0)"
    using a all by auto
  note c = inuse_fold [OF assms(1) b(1) assms(2), folded fi]
  have "\<forall>s \<in> set (filter (dirty_bit d PRE) [0..<main_segs g]). s < main_segs g" by simp
  note p = free_fold [OF assms(1) conjunct1 [OF c] this, folded set_prefree_as_free_segments_def]
  have "(\<Sum>s \<leftarrow> [0..<main_segs g]. valid_blocks (sents ! s)) = (\<Sum>s < main_segs g. valid_blocks (sents ! s))"
    by (simp add: interv_sum_list_conv_sum_set_nat atLeast0LessThan)
  then show ?thesis using b c p by auto
qed

theorem init_free_segmap_correct_witness:
  "\<exists>fi written. init_free_segmap demo_geom (sentries demo_sit) [0, 1, 2] (build_free_segmap demo_geom) = (fi, written) \<and>
     free_ok demo_geom fi \<and> test_bit 2 (free_segmap fi) \<and> \<not> test_bit 3 (free_segmap fi)"
proof -
  obtain fi written where r: "init_free_segmap demo_geom (sentries demo_sit) [0, 1, 2] (build_free_segmap demo_geom) = (fi, written)" by fastforce
  have m: "main_segs demo_geom = 8" "valid_blocks (sentries demo_sit ! 3) = 0" by (simp_all add: demo_geom_def demo_sit_def demo_entry_def)
  have "\<forall>s \<in> set [0, 1, 2 :: nat]. s < main_segs demo_geom" by (simp add: m)
  from init_free_segmap_correct [OF demo_geom_ok this r] show ?thesis using r m by auto
qed

text \<open>
  The dirty lists built at mount contain exactly the segments in use, other than the current ones, that hold some
  but not all of their blocks, each in the list of its type; no count is wrong and no assertion fails.
\<close>

theorem init_dirty_segmap_correct:
  assumes "dirty_ok g d" and "\<forall>t < 8. \<forall>s < main_segs g. \<not> dirty_bit d t s" and "length (sentries sit) = main_segs g"
    and "\<forall>s < main_segs g. se_type (sentries sit ! s) < 6 \<and> valid_blocks (sentries sit ! s) \<le> int (blocks_per_seg g)"
  shows "\<exists>d'. init_dirty_segmap g curs sit fi d = (d', False) \<and> dirty_ok g d' \<and> dirty_typed g sit d' \<and>
    (\<forall>s < main_segs g. dirty_bit d' DIRTY s \<longleftrightarrow> test_bit s (free_segmap fi) \<and> s \<notin> set curs \<and>
       valid_blocks (sentries sit ! s) \<noteq> 0 \<and> valid_blocks (sentries sit ! s) \<noteq> int (blocks_per_seg g))"
proof -
  let ?part = "\<lambda>s. valid_blocks (sentries sit ! s) \<noteq> 0 \<and> valid_blocks (sentries sit ! s) \<noteq> int (blocks_per_seg g)"
  have get: "get_seg_entry sit s = sentries sit ! s" if "s < main_segs g" for s using that assms(3) by (simp add: get_seg_entry_def)
  have loop: "\<exists>d'. fold (init_dirty_step g curs sit) ss (d, False) = (d', False) \<and> dirty_ok g d' \<and>
      (\<forall>t s. dirty_bit d' t s \<longleftrightarrow> dirty_bit d t s \<or> s \<in> set ss \<and> s \<notin> set curs \<and> ?part s \<and> (t = DIRTY \<or> t = se_type (sentries sit ! s)))"
    if "dirty_ok g d" "\<forall>s \<in> set ss. s < main_segs g" for ss d
    using that
  proof (induction ss arbitrary: d)
    case (Cons s ss)
    have s: "s < main_segs g" using Cons.prems by simp
    have ty: "se_type (get_seg_entry sit s) < 6" using assms(4) s get [OF s] by simp
    define d1 where "d1 = (if ?part s then locate_dirty_type curs sit s DIRTY d else d)"
    have step: "init_dirty_step g curs sit s (d, False) = (d1, False)"
    proof -
      have "valid_blocks (sentries sit ! s) \<le> int (blocks_per_seg g)" using assms(4) s by blast
      then show ?thesis using get [OF s] by (auto simp: init_dirty_step_def d1_def get_valid_blocks_def Let_def)
    qed
    have d1: "dirty_ok g d1" "dirty_bit d1 t x \<longleftrightarrow> dirty_bit d t x \<or> x = s \<and> s \<notin> set curs \<and> ?part s \<and> (t = DIRTY \<or> t = se_type (sentries sit ! s))" for t x
    proof -
      have "dirty_ok g d1 \<and> (dirty_bit d1 t x \<longleftrightarrow> dirty_bit d t x \<or> x = s \<and> s \<notin> set curs \<and> ?part s \<and> (t = DIRTY \<or> t = se_type (sentries sit ! s)))"
      proof (cases "s \<in> set curs")
        case True
        then show ?thesis using Cons.prems(1) by (simp add: d1_def locate_dirty_type_def)
      next
        case False
        have "DIRTY < 8" by (simp add: DIRTY_def)
        note l = locate_dirty_type_ok [OF Cons.prems(1) s False this ty]
        show ?thesis using l Cons.prems(1) False get [OF s] by (auto simp: d1_def)
      qed
      then show "dirty_ok g d1" "dirty_bit d1 t x \<longleftrightarrow> dirty_bit d t x \<or> x = s \<and> s \<notin> set curs \<and> ?part s \<and> (t = DIRTY \<or> t = se_type (sentries sit ! s))"
        by blast+
    qed
    from Cons.IH [OF d1(1)] Cons.prems(2) obtain d' where d': "fold (init_dirty_step g curs sit) ss (d1, False) = (d', False)" "dirty_ok g d'"
      "\<And>t x. dirty_bit d' t x \<longleftrightarrow> dirty_bit d1 t x \<or> x \<in> set ss \<and> x \<notin> set curs \<and> ?part x \<and> (t = DIRTY \<or> t = se_type (sentries sit ! x))"
      by auto
    show ?case using d'(1,2) step d'(3) d1(2) by (intro exI [of _ d']) auto
  qed simp
  have "\<forall>s \<in> set (filter (\<lambda>s. test_bit s (free_segmap fi)) [0..<main_segs g]). s < main_segs g" by simp
  from loop [OF assms(1) this] obtain d' where d': "init_dirty_segmap g curs sit fi d = (d', False)" "dirty_ok g d'"
    "\<And>t s. dirty_bit d' t s \<longleftrightarrow> dirty_bit d t s \<or> (test_bit s (free_segmap fi) \<and> s < main_segs g) \<and> s \<notin> set curs \<and> ?part s \<and>
       (t = DIRTY \<or> t = se_type (sentries sit ! s))"
    unfolding init_dirty_segmap_def by auto
  have six: "DIRTY < 8" "t < 6 \<Longrightarrow> t \<noteq> DIRTY" for t by (simp_all add: DIRTY_def)
  have "dirty_typed g sit d'"
    using d'(3) assms(2,4) get six by (auto simp: dirty_typed_def)
  then show ?thesis using d' assms(2) six by auto
qed

theorem init_dirty_segmap_correct_witness:
  "\<exists>d'. init_dirty_segmap demo_geom [0, 1] demo_sit demo_free demo_dirty = (d', False) \<and> dirty_typed demo_geom demo_sit d'"
proof -
  have "\<forall>t < 8. \<forall>s < main_segs demo_geom. \<not> dirty_bit demo_dirty t s"
    by (simp add: dirty_bit_def demo_dirty_def test_bit_def arr_get_def demo_geom_def)
  moreover have "length (sentries demo_sit) = main_segs demo_geom" by (simp add: demo_sit_def demo_geom_def)
  moreover have "\<forall>s < main_segs demo_geom. se_type (sentries demo_sit ! s) < 6 \<and> valid_blocks (sentries demo_sit ! s) \<le> int (blocks_per_seg demo_geom)"
    by (simp add: demo_sit_def demo_geom_def demo_entry_def)
  ultimately show ?thesis using init_dirty_segmap_correct [OF demo_dirty_ok(1), of demo_sit "[0, 1]" demo_free] by blast
qed

end
