(* ===== verification/Space_Counts.thy ===== *)
theory Space_Counts
  imports F2fs_Prelude
begin

text \<open>
  Space accounting (\<^verbatim>\<open>f2fs.h\<close>, with \<^verbatim>\<open>sysfs.c\<close>, \<^verbatim>\<open>super.c\<close> and \<^verbatim>\<open>recovery.c\<close> where they use the counters): the
  32-bit counters of valid blocks and nodes against the user blocks, less the blocks reserved through sysfs and the blocks
  reserved for root. The quota subsystem is not part of the file system: its five block operations are an argument
  of the model, and \<open>dquot_ok\<close> states what they do to the reservation and the block count of an inode.
\<close>

section \<open>State\<close>

record sbi_counts =
  total_node_count :: u32
  total_valid_node_count :: u32
  user_block_count :: block_t
  total_valid_block_count :: block_t
  last_valid_block_count :: block_t
  reserved_blocks :: block_t
  current_reserved_blocks :: block_t
  root_reserved_blocks :: block_t
  nquota_files :: u32
  alloc_valid_block_count :: int
  s_resuid :: nat
  s_resgid :: nat
  opt_reserve_root :: bool
  ndirty_inode_meta :: int
  nr_dirty_imeta :: int
  SBI_IS_DIRTY :: bool
  c_bug :: bool

record 'q inode_c =
  ino_noquota :: bool
  FI_NEW_INODE :: bool
  FI_DIRTY_INODE :: bool
  FI_AUTO_RECOVER :: bool
  on_gdirty_list :: bool
  i_quota :: 'q

record cred =
  cap_sys_resource :: bool
  fsuid :: nat
  in_group_p :: "nat \<Rightarrow> bool"

text \<open>The quota operations on the quota state of an inode, with the size in blocks.\<close>

record 'q dquot_ops =
  dquot_reserve_block :: "nat \<Rightarrow> 'q \<Rightarrow> errno option \<times> 'q"
  dquot_release_reservation_block :: "nat \<Rightarrow> 'q \<Rightarrow> 'q"
  dquot_claim_block :: "nat \<Rightarrow> 'q \<Rightarrow> 'q"
  dquot_alloc_block_nofail :: "nat \<Rightarrow> 'q \<Rightarrow> 'q"
  dquot_free_block :: "nat \<Rightarrow> 'q \<Rightarrow> 'q"
  q_i_blocks :: "'q \<Rightarrow> nat"

section \<open>Operations\<close>

definition f2fs_bug_on_c :: "bool \<Rightarrow> sbi_counts \<Rightarrow> sbi_counts" where
  "f2fs_bug_on_c b sbi = sbi\<lparr>c_bug := c_bug sbi \<or> b\<rparr>"

definition allow_reserved_blocks :: "cred \<Rightarrow> sbi_counts \<Rightarrow> 'q inode_c option \<Rightarrow> bool" where
  "allow_reserved_blocks cr sbi inode =
     (case inode of
        None \<Rightarrow> True
      | Some i \<Rightarrow>
          if \<not> opt_reserve_root sbi then False
          else if ino_noquota i then True
          else if cap_sys_resource cr then True
          else if s_resuid sbi = fsuid cr then True
          else s_resgid sbi \<noteq> 0 \<and> in_group_p cr (s_resgid sbi))"

definition f2fs_inode_dirtied :: "bool \<Rightarrow> sbi_counts \<times> 'q inode_c \<Rightarrow> bool \<times> sbi_counts \<times> 'q inode_c" where
  "f2fs_inode_dirtied sync si =
     (case si of (sbi, i) \<Rightarrow>
        let ret = FI_DIRTY_INODE i;
            (sbi, i) = (if ret then (sbi, i)
                        else (sbi\<lparr>ndirty_inode_meta := ndirty_inode_meta sbi + 1\<rparr>, i\<lparr>FI_DIRTY_INODE := True\<rparr>));
            (sbi, i) = (if sync \<and> \<not> on_gdirty_list i
                        then (sbi\<lparr>nr_dirty_imeta := nr_dirty_imeta sbi + 1, SBI_IS_DIRTY := True\<rparr>, i\<lparr>on_gdirty_list := True\<rparr>) else (sbi, i))
        in (ret, sbi, i))"

definition f2fs_inode_synced :: "sbi_counts \<times> 'q inode_c \<Rightarrow> sbi_counts \<times> 'q inode_c" where
  "f2fs_inode_synced si =
     (case si of (sbi, i) \<Rightarrow>
        if \<not> FI_DIRTY_INODE i then (sbi, i)
        else
          let (sbi, i) = (if on_gdirty_list i
                          then (sbi\<lparr>nr_dirty_imeta := nr_dirty_imeta sbi - 1\<rparr>, i\<lparr>on_gdirty_list := False\<rparr>) else (sbi, i))
          in (sbi\<lparr>ndirty_inode_meta := ndirty_inode_meta sbi - 1\<rparr>, i\<lparr>FI_DIRTY_INODE := False, FI_AUTO_RECOVER := False\<rparr>))"

text \<open>
  \<^verbatim>\<open>mark_inode_dirty_sync\<close> of the VFS calls back \<^verbatim>\<open>f2fs_dirty_inode\<close>. The arguments say whether the inode is the node or
  meta inode, which hold no counted blocks, and whether only the time stamps changed.
\<close>

definition f2fs_dirty_inode :: "bool \<Rightarrow> bool \<Rightarrow> sbi_counts \<times> 'q inode_c \<Rightarrow> sbi_counts \<times> 'q inode_c" where
  "f2fs_dirty_inode internal dirty_time si =
     (case si of (sbi, i) \<Rightarrow>
        if internal then (sbi, i)
        else if dirty_time then (sbi, i)
        else
          let i = (if FI_AUTO_RECOVER i then i\<lparr>FI_AUTO_RECOVER := False\<rparr> else i)
          in snd (f2fs_inode_dirtied False (sbi, i)))"

definition f2fs_mark_inode_dirty_sync :: "bool \<Rightarrow> sbi_counts \<times> 'q inode_c \<Rightarrow> sbi_counts \<times> 'q inode_c" where
  "f2fs_mark_inode_dirty_sync sync si =
     (if FI_NEW_INODE (snd si) then si
      else case f2fs_inode_dirtied sync si of (ret, si) \<Rightarrow> if ret then si else f2fs_dirty_inode False False si)"

definition f2fs_i_blocks_write ::
  "'q dquot_ops \<Rightarrow> nat \<Rightarrow> bool \<Rightarrow> bool \<Rightarrow> sbi_counts \<times> 'q inode_c \<Rightarrow> sbi_counts \<times> 'q inode_c" where
  "f2fs_i_blocks_write dq diff add claim si =
     (case si of (sbi, i) \<Rightarrow>
        let clean = (\<not> FI_DIRTY_INODE i);
            recover = FI_AUTO_RECOVER i;
            i = i\<lparr>i_quota := (if add then (if claim then dquot_claim_block dq else dquot_alloc_block_nofail dq)
                              else dquot_free_block dq) diff (i_quota i)\<rparr>;
            (sbi, i) = f2fs_mark_inode_dirty_sync True (sbi, i)
        in (sbi, if clean \<or> recover then i\<lparr>FI_AUTO_RECOVER := True\<rparr> else i))"

text \<open>The count is read and written back through the pointer argument; \<open>inject\<close> is the fault injection.\<close>

definition inc_valid_block_count ::
  "'q dquot_ops \<Rightarrow> cred \<Rightarrow> bool \<Rightarrow> sbi_counts \<times> 'q inode_c \<Rightarrow> nat \<Rightarrow> errno option \<times> (sbi_counts \<times> 'q inode_c) \<times> nat" where
  "inc_valid_block_count dq cr inject si count =
     (case si of (sbi, i) \<Rightarrow>
        case dquot_reserve_block dq count (i_quota i) of
          (Some err, q) \<Rightarrow> (Some err, (sbi, i\<lparr>i_quota := q\<rparr>), count)
        | (None, q) \<Rightarrow>
            let i = i\<lparr>i_quota := q\<rparr>;
                enospc = (\<lambda>release sbi cnt. (Some ENOSPC, (sbi, i\<lparr>i_quota := dquot_release_reservation_block dq release q\<rparr>), cnt))
            in if inject then enospc count sbi count
            else
              let sbi = sbi\<lparr>alloc_valid_block_count := alloc_valid_block_count sbi + int count,
                            total_valid_block_count := total_valid_block_count sbi + of_nat count\<rparr>;
                  avail = user_block_count sbi - current_reserved_blocks sbi;
                  avail = (if \<not> allow_reserved_blocks cr sbi (Some i) then avail - root_reserved_blocks sbi else avail);
                  over = (total_valid_block_count sbi > avail);
                  diff = (if over then min (unat (total_valid_block_count sbi - avail)) count else 0);
                  cnt = count - diff;
                  sbi = sbi\<lparr>total_valid_block_count := total_valid_block_count sbi - of_nat diff\<rparr>
              in if over \<and> cnt = 0
                 then enospc diff (sbi\<lparr>alloc_valid_block_count := alloc_valid_block_count sbi - int diff\<rparr>) cnt
                 else
                   let i = (if diff \<noteq> 0 then i\<lparr>i_quota := dquot_release_reservation_block dq diff (i_quota i)\<rparr> else i)
                   in (None, f2fs_i_blocks_write dq cnt True True (sbi, i), cnt))"

definition dec_valid_block_count :: "'q dquot_ops \<Rightarrow> sbi_counts \<times> 'q inode_c \<Rightarrow> block_t \<Rightarrow> sbi_counts \<times> 'q inode_c" where
  "dec_valid_block_count dq si count =
     (case si of (sbi, i) \<Rightarrow>
        let sectors = unat (push_bit 3 count);
            sbi = f2fs_bug_on_c (total_valid_block_count sbi < count) sbi;
            sbi = f2fs_bug_on_c (q_i_blocks dq (i_quota i) < sectors) sbi;
            sbi = sbi\<lparr>total_valid_block_count := total_valid_block_count sbi - count\<rparr>;
            sbi = (if reserved_blocks sbi \<noteq> 0 \<and> current_reserved_blocks sbi < reserved_blocks sbi
                   then sbi\<lparr>current_reserved_blocks := min (reserved_blocks sbi) (current_reserved_blocks sbi + count)\<rparr> else sbi)
        in f2fs_i_blocks_write dq (unat count) False True (sbi, i))"

definition inc_valid_node_count ::
  "'q dquot_ops \<Rightarrow> cred \<Rightarrow> bool \<Rightarrow> sbi_counts \<times> 'q inode_c option \<Rightarrow> bool \<Rightarrow> errno option \<times> sbi_counts \<times> 'q inode_c option" where
  "inc_valid_node_count dq cr inject si is_inode =
     (case si of (sbi, inode) \<Rightarrow>
        let quota = (inode \<noteq> None \<and> \<not> is_inode);
            (ret, inode) =
              (case inode of
                 Some i \<Rightarrow> if quota then (case dquot_reserve_block dq 1 (i_quota i) of (r, q) \<Rightarrow> (r, Some (i\<lparr>i_quota := q\<rparr>)))
                           else (None, inode)
               | None \<Rightarrow> (None, inode));
            enospc = (Some ENOSPC, sbi,
              if quota then map_option (\<lambda>i. i\<lparr>i_quota := dquot_release_reservation_block dq 1 (i_quota i)\<rparr>) inode else inode);
            vb = total_valid_block_count sbi + current_reserved_blocks sbi + 1;
            vb = (if \<not> allow_reserved_blocks cr sbi inode then vb + root_reserved_blocks sbi else vb)
        in case ret of Some err \<Rightarrow> (Some err, sbi, inode)
        | None \<Rightarrow>
            if inject then enospc
            else if vb > user_block_count sbi then enospc
            else if total_valid_node_count sbi + 1 > total_node_count sbi then enospc
            else
              let sbi = sbi\<lparr>total_valid_node_count := total_valid_node_count sbi + 1,
                            total_valid_block_count := total_valid_block_count sbi + 1\<rparr>;
                  (sbi, inode) =
                    (case inode of
                       None \<Rightarrow> (sbi, None)
                     | Some i \<Rightarrow> (case (if is_inode then f2fs_mark_inode_dirty_sync True (sbi, i)
                                        else f2fs_i_blocks_write dq 1 True True (sbi, i)) of (sbi, i) \<Rightarrow> (sbi, Some i)))
              in (None, sbi\<lparr>alloc_valid_block_count := alloc_valid_block_count sbi + 1\<rparr>, inode))"

definition dec_valid_node_count :: "'q dquot_ops \<Rightarrow> sbi_counts \<times> 'q inode_c \<Rightarrow> bool \<Rightarrow> sbi_counts \<times> 'q inode_c" where
  "dec_valid_node_count dq si is_inode =
     (case si of (sbi, i) \<Rightarrow>
        let sbi = f2fs_bug_on_c (total_valid_block_count sbi = 0) sbi;
            sbi = f2fs_bug_on_c (total_valid_node_count sbi = 0) sbi;
            sbi = f2fs_bug_on_c (\<not> is_inode \<and> q_i_blocks dq (i_quota i) = 0) sbi;
            sbi = sbi\<lparr>total_valid_node_count := total_valid_node_count sbi - 1, total_valid_block_count := total_valid_block_count sbi - 1\<rparr>;
            sbi = (if reserved_blocks sbi \<noteq> 0 \<and> current_reserved_blocks sbi < reserved_blocks sbi
                   then sbi\<lparr>current_reserved_blocks := current_reserved_blocks sbi + 1\<rparr> else sbi)
        in if \<not> is_inode then f2fs_i_blocks_write dq 1 False True (sbi, i) else (sbi, i))"

text \<open>Writing the sysfs file \<^verbatim>\<open>reserved_blocks\<close>, with the parsed 64-bit number.\<close>

definition reserved_blocks_store :: "u64 \<Rightarrow> sbi_counts \<Rightarrow> sbi_counts result" where
  "reserved_blocks_store t sbi =
     (if t > ucast (user_block_count sbi - root_reserved_blocks sbi) then Inl EINVAL
      else
        let sbi = sbi\<lparr>reserved_blocks := ucast t\<rparr>
        in Inr (sbi\<lparr>current_reserved_blocks := min (reserved_blocks sbi) (user_block_count sbi - total_valid_block_count sbi)\<rparr>))"

text \<open>The mount option and its limit: the first setting stays, at most 0.2 percent of the user blocks.\<close>

definition opt_set_reserve_root :: "u32 \<Rightarrow> sbi_counts \<Rightarrow> sbi_counts" where
  "opt_set_reserve_root arg sbi =
     (if opt_reserve_root sbi then sbi else sbi\<lparr>root_reserved_blocks := arg, opt_reserve_root := True\<rparr>)"

definition limit_reserve_root :: "sbi_counts \<Rightarrow> sbi_counts" where
  "limit_reserve_root sbi =
     (let limit = push_bit 1 (user_block_count sbi) div 1000
      in if opt_reserve_root sbi \<and> root_reserved_blocks sbi > limit then sbi\<lparr>root_reserved_blocks := limit\<rparr> else sbi)"

record kstatfs =
  f_blocks :: u64
  f_bfree :: u64
  f_bavail :: u64
  f_files :: u64
  f_ffree :: u64

definition F2FS_RESERVED_NODE_NUM :: u32 where "F2FS_RESERVED_NODE_NUM = 3"

text \<open>The limits and the usage of a project in its quota; \<^verbatim>\<open>f2fs_statfs_project\<close> narrows the numbers of the volume to them.\<close>

record mem_dqblk =
  dqb_bhardlimit :: u64
  dqb_bsoftlimit :: u64
  dqb_curspace :: u64
  dqb_ihardlimit :: u64
  dqb_isoftlimit :: u64
  dqb_curinodes :: u64

definition f2fs_statfs_project :: "mem_dqblk \<Rightarrow> kstatfs \<Rightarrow> kstatfs" where
  "f2fs_statfs_project dq buf =
     (let limit = drop_bit 12 (if dqb_bsoftlimit dq \<noteq> 0 then dqb_bsoftlimit dq else dqb_bhardlimit dq);
          curblock = drop_bit 12 (dqb_curspace dq);
          free = (if limit > curblock then limit - curblock else 0);
          buf = (if limit \<noteq> 0 \<and> f_blocks buf > limit then buf\<lparr>f_blocks := limit, f_bfree := free, f_bavail := free\<rparr> else buf);
          limit = (if dqb_isoftlimit dq \<noteq> 0 then dqb_isoftlimit dq else dqb_ihardlimit dq)
      in if limit \<noteq> 0 \<and> f_files buf > limit
         then buf\<lparr>f_files := limit, f_ffree := (if limit > dqb_curinodes dq then limit - dqb_curinodes dq else 0)\<rparr> else buf)"

text \<open>\<open>prj\<close> is what \<^verbatim>\<open>dqget\<close> gives when the directory inherits a project with enabled limits; an error of it is ignored.\<close>

definition f2fs_statfs :: "mem_dqblk result option \<Rightarrow> block_t \<Rightarrow> block_t \<Rightarrow> sbi_counts \<Rightarrow> kstatfs" where
  "f2fs_statfs prj total_count start_count sbi =
     (let bfree = ucast (user_block_count sbi - total_valid_block_count sbi - current_reserved_blocks sbi) :: u64;
          bavail = (if bfree > ucast (root_reserved_blocks sbi) then bfree - ucast (root_reserved_blocks sbi) else 0);
          avail_node_count = ucast (total_node_count sbi - nquota_files sbi - F2FS_RESERVED_NODE_NUM) :: u64;
          (files, ffree) =
            (if avail_node_count > ucast (user_block_count sbi) then (ucast (user_block_count sbi), bavail)
             else (avail_node_count, min (avail_node_count - ucast (total_valid_node_count sbi)) bavail));
          buf = \<lparr>f_blocks = ucast (total_count - start_count), f_bfree = bfree, f_bavail = bavail, f_files = files, f_ffree = ffree\<rparr>
      in case prj of Some (Inr dq) \<Rightarrow> f2fs_statfs_project dq buf | _ \<Rightarrow> buf)"

text \<open>Whether the blocks allocated since the last checkpoint could be recovered; the sum is signed 64 bits wide.\<close>

definition space_for_roll_forward :: "sbi_counts \<Rightarrow> bool" where
  "space_for_roll_forward sbi \<longleftrightarrow>
     \<not> uint (last_valid_block_count sbi) + max 0 (alloc_valid_block_count sbi) > uint (user_block_count sbi)"

section \<open>What the quota operations promise\<close>

text \<open>\<open>rsv\<close> reads the reservation of an inode; block counts are in sectors, eight to a block.\<close>

definition dquot_ok :: "'q dquot_ops \<Rightarrow> ('q \<Rightarrow> nat) \<Rightarrow> bool" where
  "dquot_ok dq rsv \<longleftrightarrow>
     (\<forall>n q. case dquot_reserve_block dq n q of
              (r, q') \<Rightarrow> rsv q' = rsv q + (if r = None then n else 0) \<and> q_i_blocks dq q' = q_i_blocks dq q) \<and>
     (\<forall>n q. n \<le> rsv q \<longrightarrow> rsv (dquot_release_reservation_block dq n q) = rsv q - n \<and>
              q_i_blocks dq (dquot_release_reservation_block dq n q) = q_i_blocks dq q) \<and>
     (\<forall>n q. n \<le> rsv q \<longrightarrow> rsv (dquot_claim_block dq n q) = rsv q - n \<and>
              q_i_blocks dq (dquot_claim_block dq n q) = q_i_blocks dq q + 8 * n) \<and>
     (\<forall>n q. rsv (dquot_free_block dq n q) = rsv q \<and> q_i_blocks dq (dquot_free_block dq n q) = q_i_blocks dq q - 8 * n)"

section \<open>The counters stay within the user blocks\<close>

definition counts_ok :: "sbi_counts \<Rightarrow> bool" where
  "counts_ok sbi \<longleftrightarrow>
     unat (total_valid_block_count sbi) + unat (current_reserved_blocks sbi) \<le> unat (user_block_count sbi) \<and>
     unat (current_reserved_blocks sbi) \<le> unat (reserved_blocks sbi) \<and>
     unat (reserved_blocks sbi) + unat (root_reserved_blocks sbi) \<le> unat (user_block_count sbi) \<and>
     unat (user_block_count sbi) + unat (root_reserved_blocks sbi) + 1 < 2 ^ 32 \<and>
     unat (total_valid_node_count sbi) \<le> unat (total_node_count sbi)"

abbreviation space_counters :: "sbi_counts \<Rightarrow> sbi_counts" where
  "space_counters sbi \<equiv> sbi\<lparr>ndirty_inode_meta := 0, nr_dirty_imeta := 0, SBI_IS_DIRTY := False\<rparr>"

text \<open>Marking an inode dirty touches neither the space counters nor its quota.\<close>

lemma inode_dirtied_frame:
  assumes "f2fs_inode_dirtied sync (sbi, i) = (ret, sbi', i')"
  shows "space_counters sbi' = space_counters sbi" "i_quota i' = i_quota i" "ino_noquota i' = ino_noquota i"
    "FI_DIRTY_INODE i'" "FI_NEW_INODE i' = FI_NEW_INODE i"
  using assms by (auto simp: f2fs_inode_dirtied_def Let_def split: if_splits)

lemma mark_dirty_frame:
  assumes "f2fs_mark_inode_dirty_sync sync (sbi, i) = (sbi', i')"
  shows "space_counters sbi' = space_counters sbi" "i_quota i' = i_quota i"
proof -
  obtain r s1 i1 where 1: "f2fs_inode_dirtied sync (sbi, i) = (r, s1, i1)" by (metis prod_cases3)
  obtain r2 s2 i2 where 2: "f2fs_inode_dirtied False (s1, if FI_AUTO_RECOVER i1 then i1\<lparr>FI_AUTO_RECOVER := False\<rparr> else i1) = (r2, s2, i2)" by (metis prod_cases3)
  have "i_quota i2 = i_quota i1" "space_counters s2 = space_counters s1" using inode_dirtied_frame(1,2) [OF 2] by (auto split: if_splits)
  moreover have "f2fs_dirty_inode False False (s1, i1) = (s2, i2)" unfolding f2fs_dirty_inode_def prod.case Let_def 2 by simp
  ultimately show "space_counters sbi' = space_counters sbi" "i_quota i' = i_quota i"
    using assms inode_dirtied_frame(1,2) [OF 1] by (auto simp: f2fs_mark_inode_dirty_sync_def 1 split: if_splits)
qed

lemma i_blocks_frame:
  assumes "f2fs_i_blocks_write dq n add claim (sbi, i) = (sbi', i')"
  shows "space_counters sbi' = space_counters sbi"
    "i_quota i' = (if add then (if claim then dquot_claim_block dq else dquot_alloc_block_nofail dq) else dquot_free_block dq) n (i_quota i)"
proof -
  let ?i = "i\<lparr>i_quota := (if add then (if claim then dquot_claim_block dq else dquot_alloc_block_nofail dq)
                              else dquot_free_block dq) n (i_quota i)\<rparr>"
  obtain s1 i1 where 1: "f2fs_mark_inode_dirty_sync True (sbi, ?i) = (s1, i1)" by fastforce
  have "sbi' = s1" "i_quota i' = i_quota i1"
    using assms by (auto simp: f2fs_i_blocks_write_def 1 split: if_split_asm)
  then show "space_counters sbi' = space_counters sbi"
    "i_quota i' = (if add then (if claim then dquot_claim_block dq else dquot_alloc_block_nofail dq) else dquot_free_block dq) n (i_quota i)"
    using mark_dirty_frame [OF 1] by simp_all
qed

text \<open>Word arithmetic without wrap-around, read as natural numbers.\<close>

lemma u32_add_of_nat: "unat (v :: u32) + n < 2 ^ 32 \<Longrightarrow> unat (v + of_nat n) = unat v + n"
  by (simp add: unat_word_ariths unat_of_nat take_bit_nat_eq_self)

lemma u32_add: "unat (v :: u32) + unat w < 2 ^ 32 \<Longrightarrow> unat (v + w) = unat v + unat w"
  using u32_add_of_nat [of v "unat w"] by simp

lemma u32_sub: "unat (w :: u32) \<le> unat v \<Longrightarrow> unat (v - w) = unat v - unat w"
  by (simp add: unat_sub word_le_nat_alt)

lemma u32_sub_of_nat: "n \<le> unat (v :: u32) \<Longrightarrow> unat (v - of_nat n) = unat v - n"
  using u32_sub [of "of_nat n" v] unsigned_less [of v, where ?'a = nat]
  by (simp add: unat_of_nat take_bit_nat_eq_self)

lemma u64_of_u32: "unat (ucast (w :: u32) :: u64) = unat w"
proof -
  have "unat w < 2 ^ 64" using unsigned_less [of w, where ?'a = nat] by simp
  then show ?thesis by (simp add: unsigned_ucast_eq take_bit_nat_eq_self)
qed

lemmas u32_nat = u32_add_of_nat u32_add u32_sub u32_sub_of_nat word_less_nat_alt word_le_nat_alt

text \<open>The free blocks an inode may still take.\<close>

definition room_for :: "cred \<Rightarrow> sbi_counts \<Rightarrow> 'q inode_c option \<Rightarrow> nat" where
  "room_for cr sbi inode =
     unat (user_block_count sbi) - unat (current_reserved_blocks sbi)
       - (if allow_reserved_blocks cr sbi inode then 0 else unat (root_reserved_blocks sbi)) - unat (total_valid_block_count sbi)"

lemma inc_arith:
  fixes V C U R :: u32
  assumes "unat V + n < 2 ^ 32" "unat C + (if a then 0 else unat R) \<le> unat U"
  defines "avail \<equiv> (if \<not> a then U - C - R else U - C)" and "tot \<equiv> V + of_nat n"
  defines "diff \<equiv> (if tot > avail then min (unat (tot - avail)) n else 0)"
  defines "room \<equiv> unat U - unat C - (if a then 0 else unat R) - unat V"
  shows "n - diff = min n room" "diff \<le> n" "unat (tot - of_nat diff) = unat V + min n room" "tot > avail \<Longrightarrow> 0 < diff \<or> n = 0"
    "\<not> tot > avail \<Longrightarrow> min n room = n" "diff = 0 \<longleftrightarrow> min n room = n"
proof -
  have av: "unat avail = unat U - unat C - (if a then 0 else unat R)"
    using assms(2) by (auto simp: avail_def u32_nat split: if_splits)
  have t: "unat tot = unat V + n" using assms(1) by (simp add: tot_def u32_nat)
  have gt: "tot > avail \<longleftrightarrow> unat V + n > unat avail" by (simp add: u32_nat t)
  have df: "diff = (if unat V + n > unat avail then min (unat V + n - unat avail) n else 0)"
    using gt t by (simp add: diff_def u32_nat)
  have r: "room = unat avail - unat V" by (simp add: room_def av)
  show "n - diff = min n room" "diff \<le> n" "tot > avail \<Longrightarrow> 0 < diff \<or> n = 0" "diff = 0 \<longleftrightarrow> min n room = n"
    "\<not> tot > avail \<Longrightarrow> min n room = n"
    using gt by (auto simp: df r)
  then show "unat (tot - of_nat diff) = unat V + min n room" using t by (simp add: u32_nat)
qed

text \<open>The reservation of blocks, with the words read as numbers: \<open>n\<close> blocks are asked for, \<open>cnt\<close> granted.\<close>

lemma inc_valid_block_count_form:
  fixes cr :: cred and sbi :: sbi_counts and i :: "'q inode_c" and n :: nat
  assumes ok: "counts_ok sbi" and n: "unat (total_valid_block_count sbi) + n < 2 ^ 32"
    and rs: "dquot_reserve_block dq n (i_quota i) = (None, q)"
    and r: "inc_valid_block_count dq cr False (sbi, i) n = (ret, (sbi', i'), cnt)"
  defines "cnt0 \<equiv> min n (room_for cr sbi (Some i))"
  shows "cnt = cnt0" "ret = None \<or> ret = Some ENOSPC \<and> cnt0 = 0" "ret = None \<Longrightarrow> 0 < n \<Longrightarrow> 0 < cnt0"
    "ret \<noteq> None \<Longrightarrow> i_quota i' = dquot_release_reservation_block dq n q \<and> space_counters sbi' = space_counters sbi"
    "ret = None \<Longrightarrow> i_quota i' = dquot_claim_block dq cnt0 (if cnt0 = n then q else dquot_release_reservation_block dq (n - cnt0) q)"
    "ret = None \<Longrightarrow> space_counters sbi' = (space_counters sbi)\<lparr>total_valid_block_count := total_valid_block_count sbi + of_nat cnt0,
       alloc_valid_block_count := alloc_valid_block_count sbi + int n\<rparr>"
proof -
  let ?a = "allow_reserved_blocks cr sbi (Some i)"
  let ?V = "total_valid_block_count sbi" and ?C = "current_reserved_blocks sbi"
  let ?U = "user_block_count sbi" and ?R = "root_reserved_blocks sbi"
  define avail where "avail = (if \<not> ?a then ?U - ?C - ?R else ?U - ?C)"
  define tot where "tot = ?V + of_nat n"
  define diff where "diff = (if tot > avail then min (unat (tot - avail)) n else 0)"
  have c: "unat ?C + (if ?a then 0 else unat ?R) \<le> unat ?U" using ok by (auto simp: counts_ok_def)
  note A = inc_arith [OF n c, folded avail_def, folded tot_def, folded diff_def, folded room_for_def, folded cnt0_def]
  have tot': "tot - of_nat diff = ?V + of_nat cnt0"
  proof -
    have "(of_nat n :: u32) = of_nat cnt0 + of_nat diff" using A(1,2) by (metis le_add_diff_inverse2 of_nat_add)
    then show ?thesis by (simp add: tot_def)
  qed
  let ?s1 = "sbi\<lparr>alloc_valid_block_count := alloc_valid_block_count sbi + int n, total_valid_block_count := ?V + of_nat cnt0\<rparr>"
  have a1: "allow_reserved_blocks cr (sbi\<lparr>alloc_valid_block_count := x, total_valid_block_count := y\<rparr>) (Some (i\<lparr>i_quota := q\<rparr>)) = ?a" for x y
    by (simp add: allow_reserved_blocks_def)
  have form: "inc_valid_block_count dq cr False (sbi, i) n =
    (if tot > avail \<and> cnt0 = 0
     then (Some ENOSPC, (?s1\<lparr>alloc_valid_block_count := alloc_valid_block_count sbi + int n - int diff\<rparr>,
             i\<lparr>i_quota := dquot_release_reservation_block dq diff q\<rparr>), cnt0)
     else (None, f2fs_i_blocks_write dq cnt0 True True
             (?s1, if diff \<noteq> 0 then i\<lparr>i_quota := dquot_release_reservation_block dq diff q\<rparr> else i\<lparr>i_quota := q\<rparr>), cnt0))"
  proof -
    have av: "(if \<not> ?a then ?U - ?C - ?R else ?U - ?C) = avail" by (simp add: avail_def)
    have df: "(if tot > avail then min (unat (tot - avail)) n else 0) = diff" by (simp add: diff_def)
    show ?thesis
      unfolding inc_valid_block_count_def prod.case rs option.case if_False Let_def a1
      by (simp add: tot_def [symmetric] av df A(1) tot' cong: if_branches_cong split del: if_split)
  qed
  show "cnt = cnt0" using r form by (auto split: if_splits)
  show "ret = None \<or> ret = Some ENOSPC \<and> cnt0 = 0" using r form by (auto split: if_splits)
  show "ret = None \<Longrightarrow> 0 < n \<Longrightarrow> 0 < cnt0" using r form A(5) by (auto split: if_splits)
  show "i_quota i' = dquot_release_reservation_block dq n q \<and> space_counters sbi' = space_counters sbi" if "ret \<noteq> None"
  proof -
    have "tot > avail" "cnt0 = 0" using r form that by (auto split: if_splits)
    moreover have "diff = n" using A(1,2) calculation(2) by simp
    ultimately show ?thesis using r form by auto
  qed
  assume "ret = None"
  then have w: "f2fs_i_blocks_write dq cnt0 True True
     (?s1, if diff \<noteq> 0 then i\<lparr>i_quota := dquot_release_reservation_block dq diff q\<rparr> else i\<lparr>i_quota := q\<rparr>) = (sbi', i')"
    using r form by (auto split: if_splits)
  note fr = i_blocks_frame [OF w]
  show "space_counters sbi' = (space_counters sbi)\<lparr>total_valid_block_count := ?V + of_nat cnt0,
       alloc_valid_block_count := alloc_valid_block_count sbi + int n\<rparr>" using fr(1) by simp
  have "diff = n - cnt0" "diff = 0 \<longleftrightarrow> cnt0 = n" using A(1,2,6) by simp_all
  then show "i_quota i' = dquot_claim_block dq cnt0 (if cnt0 = n then q else dquot_release_reservation_block dq (n - cnt0) q)"
    using fr(2) by auto
qed

lemma counts_ok_space: "counts_ok (space_counters sbi) = counts_ok sbi"
  by (simp add: counts_ok_def)

lemma counts_ok_frame: "space_counters sbi' = space_counters sbi \<Longrightarrow> counts_ok sbi \<Longrightarrow> counts_ok sbi'"
  by (metis counts_ok_space)

lemma inc_keeps_counts:
  assumes ok: "counts_ok sbi" and n: "unat (total_valid_block_count sbi) + n < 2 ^ 32"
    and r: "inc_valid_block_count dq cr inject (sbi, i) n = (ret, (sbi', i'), cnt)"
  shows "counts_ok sbi'"
proof -
  obtain rr q where rs: "dquot_reserve_block dq n (i_quota i) = (rr, q)" by fastforce
  show ?thesis
  proof (cases "rr = None \<and> \<not> inject")
    case False
    then have "sbi' = sbi" using r rs by (cases rr) (auto simp: inc_valid_block_count_def Let_def)
    then show ?thesis using ok by simp
  next
    case True
    with rs r have rs': "dquot_reserve_block dq n (i_quota i) = (None, q)"
      and r': "inc_valid_block_count dq cr False (sbi, i) n = (ret, (sbi', i'), cnt)" by simp_all
    note F = inc_valid_block_count_form [OF ok n rs' r']
    let ?c = "min n (room_for cr sbi (Some i))"
    show ?thesis
    proof (cases ret)
      case None
      have "unat (total_valid_block_count sbi) + ?c + unat (current_reserved_blocks sbi) \<le> unat (user_block_count sbi)"
        using ok by (auto simp: counts_ok_def room_for_def split: if_splits)
      moreover have "unat (total_valid_block_count sbi + of_nat ?c) = unat (total_valid_block_count sbi) + ?c"
        using n by (intro u32_add_of_nat) simp
      ultimately have "counts_ok (space_counters sbi')" using ok by (simp add: F(6) [OF None] counts_ok_def)
      then show ?thesis by (simp only: counts_ok_space)
    next
      case (Some e)
      then show ?thesis using counts_ok_frame [OF _ ok] F(4) by blast
    qed
  qed
qed

lemma dec_keeps_counts:
  assumes ok: "counts_ok sbi" and c: "unat count \<le> unat (total_valid_block_count sbi)"
    and r: "dec_valid_block_count dq (sbi, i) count = (sbi', i')"
  shows "counts_ok sbi'"
proof -
  define s1 where "s1 = f2fs_bug_on_c (q_i_blocks dq (i_quota i) < unat (push_bit 3 count))
    (f2fs_bug_on_c (total_valid_block_count sbi < count) sbi)"
  define s2 where "s2 = s1\<lparr>total_valid_block_count := total_valid_block_count s1 - count\<rparr>"
  define s3 where "s3 = (if reserved_blocks s2 \<noteq> 0 \<and> current_reserved_blocks s2 < reserved_blocks s2
    then s2\<lparr>current_reserved_blocks := min (reserved_blocks s2) (current_reserved_blocks s2 + count)\<rparr> else s2)"
  have w: "f2fs_i_blocks_write dq (unat count) False True (s3, i) = (sbi', i')"
    using r unfolding dec_valid_block_count_def prod.case Let_def s3_def s2_def s1_def .
  have add: "unat (current_reserved_blocks sbi + count) = unat (current_reserved_blocks sbi) + unat count"
  proof (rule u32_add)
    show "unat (current_reserved_blocks sbi) + unat count < 2 ^ 32" using ok c by (simp add: counts_ok_def)
  qed
  have "unat (min a b) = min (unat a) (unat b)" for a b :: u32 by (simp add: min_def word_le_nat_alt)
  then have "counts_ok s3"
    using ok c add by (auto simp: s3_def s2_def s1_def f2fs_bug_on_c_def counts_ok_def u32_nat)
  then show ?thesis using counts_ok_frame [OF i_blocks_frame(1) [OF w]] by blast
qed

lemma node_room:
  assumes ok: "counts_ok sbi"
  defines "vb \<equiv> total_valid_block_count sbi + current_reserved_blocks sbi + 1"
  shows "unat vb = unat (total_valid_block_count sbi) + unat (current_reserved_blocks sbi) + 1"
    "unat (vb + root_reserved_blocks sbi) = unat vb + unat (root_reserved_blocks sbi)"
proof -
  have c: "unat (total_valid_block_count sbi) + unat (current_reserved_blocks sbi) + 1 + unat (root_reserved_blocks sbi) < 2 ^ 32"
    using ok by (simp add: counts_ok_def)
  have 1: "unat (total_valid_block_count sbi + current_reserved_blocks sbi) = unat (total_valid_block_count sbi) + unat (current_reserved_blocks sbi)"
    using c by (intro u32_add) simp
  then have "unat (total_valid_block_count sbi + current_reserved_blocks sbi) + unat (1 :: u32) < 2 ^ 32" using c by simp
  from u32_add [OF this] show 2: "unat vb = unat (total_valid_block_count sbi) + unat (current_reserved_blocks sbi) + 1"
    using 1 by (simp add: vb_def)
  show "unat (vb + root_reserved_blocks sbi) = unat vb + unat (root_reserved_blocks sbi)"
    using c 2 by (intro u32_add) simp
qed

text \<open>A granted node: the counters before the inode is marked.\<close>

abbreviation node_granted :: "sbi_counts \<Rightarrow> sbi_counts" where
  "node_granted sbi \<equiv> sbi\<lparr>total_valid_node_count := total_valid_node_count sbi + 1,
     total_valid_block_count := total_valid_block_count sbi + 1\<rparr>"

lemma inc_node_cases:
  assumes ok: "counts_ok sbi" and r: "inc_valid_node_count dq cr inject (sbi, inode) is_inode = (ret, sbi', inode')"
  shows "ret \<noteq> None \<Longrightarrow> sbi' = sbi"
    "ret = None \<Longrightarrow> 0 < room_for cr sbi inode \<and> total_valid_node_count sbi + 1 \<le> total_node_count sbi \<and>
       (\<exists>s. space_counters s = space_counters (node_granted sbi) \<and> sbi' = s\<lparr>alloc_valid_block_count := alloc_valid_block_count s + 1\<rparr>)"
proof -
  define qi where "qi = (case inode of
      Some i \<Rightarrow> if inode \<noteq> None \<and> \<not> is_inode then (case dquot_reserve_block dq 1 (i_quota i) of (r, q) \<Rightarrow> (r, Some (i\<lparr>i_quota := q\<rparr>)))
                else (None, inode)
    | None \<Rightarrow> (None, inode))"
  obtain rq in1 where q: "qi = (rq, in1)" by fastforce
  have al: "allow_reserved_blocks cr sbi in1 = allow_reserved_blocks cr sbi inode"
    using q unfolding qi_def by (auto simp: allow_reserved_blocks_def split: option.splits if_splits prod.splits)
  let ?vb = "total_valid_block_count sbi + current_reserved_blocks sbi + 1"
  define vb where "vb = (if \<not> allow_reserved_blocks cr sbi in1 then ?vb + root_reserved_blocks sbi else ?vb)"
  have room: "\<not> vb > user_block_count sbi \<Longrightarrow> 0 < room_for cr sbi inode"
    using node_room [OF ok] al by (auto simp: vb_def room_for_def word_less_nat_alt split: if_splits)
  show "ret \<noteq> None \<Longrightarrow> sbi' = sbi"
    using r unfolding inc_valid_node_count_def prod.case Let_def qi_def [symmetric] q
    by (auto split: option.splits if_splits prod.splits)
  assume "ret = None"
  then have g: "rq = None" "\<not> vb > user_block_count sbi" "\<not> total_valid_node_count sbi + 1 > total_node_count sbi"
    and s: "(case (case in1 of None \<Rightarrow> (node_granted sbi, None)
                     | Some i \<Rightarrow> (case (if is_inode then f2fs_mark_inode_dirty_sync True (node_granted sbi, i)
                                        else f2fs_i_blocks_write dq 1 True True (node_granted sbi, i)) of (sbi, i) \<Rightarrow> (sbi, Some i)))
            of (s, inode) \<Rightarrow> sbi' = s\<lparr>alloc_valid_block_count := alloc_valid_block_count s + 1\<rparr>)"
    using r unfolding inc_valid_node_count_def prod.case Let_def qi_def [symmetric] q vb_def
    by (auto split: option.splits if_splits prod.splits)
  have "\<exists>s. space_counters s = space_counters (node_granted sbi) \<and> sbi' = s\<lparr>alloc_valid_block_count := alloc_valid_block_count s + 1\<rparr>"
  proof (cases in1)
    case None
    then show ?thesis using s by auto
  next
    case (Some i)
    obtain s1 i1 where 1: "(if is_inode then f2fs_mark_inode_dirty_sync True (node_granted sbi, i)
                                        else f2fs_i_blocks_write dq 1 True True (node_granted sbi, i)) = (s1, i1)" by fastforce
    then have "space_counters s1 = space_counters (node_granted sbi)"
      using mark_dirty_frame(1) i_blocks_frame(1) by (metis (full_types))
    then show ?thesis using s Some 1 by auto
  qed
  then show "0 < room_for cr sbi inode \<and> total_valid_node_count sbi + 1 \<le> total_node_count sbi \<and>
       (\<exists>s. space_counters s = space_counters (node_granted sbi) \<and> sbi' = s\<lparr>alloc_valid_block_count := alloc_valid_block_count s + 1\<rparr>)"
    using g room by (simp add: not_less)
qed

lemma inc_node_keeps_counts:
  assumes ok: "counts_ok sbi" and r: "inc_valid_node_count dq cr inject (sbi, inode) is_inode = (ret, sbi', inode')"
  shows "counts_ok sbi'"
proof (cases ret)
  case (Some e)
  then show ?thesis using inc_node_cases(1) [OF ok r] ok by simp
next
  case None
  then obtain s where s: "space_counters s = space_counters (node_granted sbi)" "sbi' = s\<lparr>alloc_valid_block_count := alloc_valid_block_count s + 1\<rparr>"
    and g: "0 < room_for cr sbi inode" "total_valid_node_count sbi + 1 \<le> total_node_count sbi"
    using inc_node_cases(2) [OF ok r] by blast
  let ?V = "total_valid_block_count sbi" and ?N = "total_valid_node_count sbi"
  have u: "unat ?V + unat (current_reserved_blocks sbi) < unat (user_block_count sbi)" using g(1) by (auto simp: room_for_def split: if_splits)
  then have v: "unat (?V + 1) = unat ?V + 1" using u32_add [of ?V 1] ok by (simp add: counts_ok_def)
  have "counts_ok (node_granted sbi)" using ok u v g(2) by (simp add: counts_ok_def word_le_nat_alt)
  then have "counts_ok s" using s(1) by (metis counts_ok_space)
  then show ?thesis by (simp add: s(2) counts_ok_def)
qed

lemma dec_node_keeps_counts:
  assumes ok: "counts_ok sbi" and c: "total_valid_block_count sbi \<noteq> 0" "total_valid_node_count sbi \<noteq> 0"
    and r: "dec_valid_node_count dq (sbi, i) is_inode = (sbi', i')"
  shows "counts_ok sbi'"
proof -
  define s1 where "s1 = f2fs_bug_on_c (\<not> is_inode \<and> q_i_blocks dq (i_quota i) = 0)
    (f2fs_bug_on_c (total_valid_node_count sbi = 0) (f2fs_bug_on_c (total_valid_block_count sbi = 0) sbi))"
  define s2 where "s2 = s1\<lparr>total_valid_node_count := total_valid_node_count s1 - 1, total_valid_block_count := total_valid_block_count s1 - 1\<rparr>"
  define s3 where "s3 = (if reserved_blocks s2 \<noteq> 0 \<and> current_reserved_blocks s2 < reserved_blocks s2
    then s2\<lparr>current_reserved_blocks := current_reserved_blocks s2 + 1\<rparr> else s2)"
  have form: "dec_valid_node_count dq (sbi, i) is_inode = (if \<not> is_inode then f2fs_i_blocks_write dq 1 False True (s3, i) else (s3, i))"
    by (simp only: dec_valid_node_count_def prod.case Let_def s3_def s2_def s1_def f2fs_bug_on_c_def sbi_counts.simps)
       (simp cong: if_branches_cong)
  have pos: "0 < unat (total_valid_block_count sbi)" "0 < unat (total_valid_node_count sbi)"
    using c by (simp_all add: unat_gt_0)
  have n: "unat (total_valid_block_count sbi - 1) = unat (total_valid_block_count sbi) - 1"
    "unat (total_valid_node_count sbi - 1) = unat (total_valid_node_count sbi) - 1"
    using pos u32_sub [of 1] by simp_all
  have "unat (current_reserved_blocks sbi + 1) = unat (current_reserved_blocks sbi) + 1" if "current_reserved_blocks sbi < reserved_blocks sbi"
    using that u32_add [of "current_reserved_blocks sbi" 1] ok by (simp add: counts_ok_def word_less_nat_alt)
  then have "counts_ok s3"
    using ok pos n by (auto simp: s3_def s2_def s1_def f2fs_bug_on_c_def counts_ok_def word_less_nat_alt)
  then show ?thesis using form r counts_ok_frame i_blocks_frame(1) by (metis Pair_inject)
qed

lemma store_keeps_counts:
  assumes ok: "counts_ok sbi" and r: "reserved_blocks_store t sbi = Inr sbi'"
  shows "counts_ok sbi'"
proof -
  let ?U = "user_block_count sbi" and ?R = "root_reserved_blocks sbi" and ?V = "total_valid_block_count sbi"
  have u: "unat (?U - ?R) = unat ?U - unat ?R" "unat (?U - ?V) = unat ?U - unat ?V" using ok by (auto simp: counts_ok_def u32_nat)
  have "unat t \<le> unat (ucast (?U - ?R) :: u64)" using r by (auto simp: reserved_blocks_store_def Let_def word_le_nat_alt not_less split: if_splits)
  also have "\<dots> = unat ?U - unat ?R" by (simp add: u64_of_u32 u)
  finally have t: "unat t \<le> unat ?U - unat ?R" .
  have t': "unat (ucast t :: u32) = unat t"
    using t unsigned_less [of ?U, where ?'a = nat] by (simp add: unsigned_ucast_eq take_bit_nat_eq_self)
  have m: "unat (min a b) = min (unat a) (unat b)" for a b :: u32 by (simp add: min_def word_le_nat_alt)
  have "sbi' = sbi\<lparr>reserved_blocks := ucast t, current_reserved_blocks := min (ucast t) (?U - ?V)\<rparr>"
    using r by (auto simp: reserved_blocks_store_def Let_def split: if_splits)
  then show ?thesis using ok t t' u by (auto simp: counts_ok_def m)
qed

section \<open>Runs\<close>

text \<open>
  The operations in any order, for any inodes and callers. A caller frees only what it has allocated, and asks for fewer
  blocks than overflow the 32-bit counter.
\<close>

inductive space_step :: "'q dquot_ops \<Rightarrow> sbi_counts \<Rightarrow> sbi_counts \<Rightarrow> bool" for dq where
  inc_blocks: "unat (total_valid_block_count sbi) + n < 2 ^ 32 \<Longrightarrow>
    inc_valid_block_count dq cr inject (sbi, i) n = (ret, (sbi', i'), cnt) \<Longrightarrow> space_step dq sbi sbi'"
| dec_blocks: "count \<le> total_valid_block_count sbi \<Longrightarrow> dec_valid_block_count dq (sbi, i) count = (sbi', i') \<Longrightarrow> space_step dq sbi sbi'"
| inc_node: "inc_valid_node_count dq cr inject (sbi, inode) is_inode = (ret, sbi', inode') \<Longrightarrow> space_step dq sbi sbi'"
| dec_node: "total_valid_block_count sbi \<noteq> 0 \<Longrightarrow> total_valid_node_count sbi \<noteq> 0 \<Longrightarrow>
    dec_valid_node_count dq (sbi, i) is_inode = (sbi', i') \<Longrightarrow> space_step dq sbi sbi'"
| reserve: "reserved_blocks_store t sbi = Inr sbi' \<Longrightarrow> space_step dq sbi sbi'"

lemma space_step_ok: "space_step dq sbi sbi' \<Longrightarrow> counts_ok sbi \<Longrightarrow> counts_ok sbi'"
  by (induction rule: space_step.induct)
    (blast intro: inc_keeps_counts dec_keeps_counts inc_node_keeps_counts dec_node_keeps_counts store_keeps_counts
      dest: word_le_nat_alt [THEN iffD1])+

text \<open>
  Property C24. The space counters never run over: whatever sequence of block and node allocations and releases, by any callers,
  and of changes to the reserved blocks happens, the valid blocks and the reserved blocks together stay within the user blocks and
  the valid nodes within the node blocks, so that none of the 32-bit counters wraps and the free space that
  \<^verbatim>\<open>statfs\<close> computes for the volume by unsigned subtraction is the real difference.
\<close>

theorem space_counters_bounded:
  assumes "counts_ok sbi" "(space_step dq)\<^sup>*\<^sup>* sbi sbi'"
  shows "counts_ok sbi' \<and>
    unat (f_bfree (f2fs_statfs None total_cnt start sbi')) + unat (total_valid_block_count sbi') + unat (current_reserved_blocks sbi') =
      unat (user_block_count sbi') \<and>
    unat (f_bavail (f2fs_statfs None total_cnt start sbi')) = unat (f_bfree (f2fs_statfs None total_cnt start sbi')) - unat (root_reserved_blocks sbi')"
proof -
  have ok: "counts_ok sbi'"
    using assms(2,1) by (induction rule: rtranclp_induct) (auto intro: space_step_ok)
  let ?U = "user_block_count sbi'" and ?C = "current_reserved_blocks sbi'" and ?V = "total_valid_block_count sbi'"
  have s: "unat (?U - ?V) = unat ?U - unat ?V" "unat (?U - ?V - ?C) = unat ?U - unat ?V - unat ?C"
    using ok by (auto simp: counts_ok_def u32_nat)
  have sub: "unat (b - r) = unat b - unat r" if "\<not> b \<le> r" for b r :: u64
    using that by (simp add: unat_sub word_le_nat_alt)
  have free: "f_bfree (f2fs_statfs None total_cnt start sbi') = ucast (?U - ?V - ?C)" by (simp add: f2fs_statfs_def Let_def split: prod.split)
  have avail: "f_bavail (f2fs_statfs None total_cnt start sbi') =
      (if ucast (?U - ?V - ?C) > (ucast (root_reserved_blocks sbi') :: u64)
       then ucast (?U - ?V - ?C) - ucast (root_reserved_blocks sbi') else 0)"
    by (simp add: f2fs_statfs_def Let_def split: prod.split)
  show ?thesis using ok s sub unfolding avail free by (auto simp: counts_ok_def u64_of_u32 word_less_nat_alt word_le_nat_alt)
qed

definition demo_counts :: sbi_counts where
  "demo_counts = \<lparr>total_node_count = 100, total_valid_node_count = 5, user_block_count = 1000, total_valid_block_count = 990,
     last_valid_block_count = 990, reserved_blocks = 0, current_reserved_blocks = 0, root_reserved_blocks = 2, nquota_files = 0,
     alloc_valid_block_count = 0, s_resuid = 0, s_resgid = 0, opt_reserve_root = True, ndirty_inode_meta = 0, nr_dirty_imeta = 0,
     SBI_IS_DIRTY = False, c_bug = False\<rparr>"

lemma demo_counts_ok: "counts_ok demo_counts"
  by (simp add: counts_ok_def demo_counts_def)

text \<open>A quota of 500 blocks per inode, as a pair of reservation and sectors.\<close>

definition demo_dquot :: "(nat \<times> nat) dquot_ops" where
  "demo_dquot = \<lparr>dquot_reserve_block = (\<lambda>n (r, b). if r + n + b div 8 \<le> 500 then (None, (r + n, b)) else (Some EDQUOT, (r, b))),
     dquot_release_reservation_block = (\<lambda>n (r, b). (r - n, b)), dquot_claim_block = (\<lambda>n (r, b). (r - n, b + 8 * n)),
     dquot_alloc_block_nofail = (\<lambda>n (r, b). (r, b + 8 * n)), dquot_free_block = (\<lambda>n (r, b). (r, b - 8 * n)), q_i_blocks = snd\<rparr>"

lemma demo_dquot_ok: "dquot_ok demo_dquot fst"
  by (auto simp: dquot_ok_def demo_dquot_def)

definition demo_user :: cred where
  "demo_user = \<lparr>cap_sys_resource = False, fsuid = 1000, in_group_p = (\<lambda>_. False)\<rparr>"

definition demo_inode :: "(nat \<times> nat) inode_c" where
  "demo_inode = \<lparr>ino_noquota = False, FI_NEW_INODE = False, FI_DIRTY_INODE = False, FI_AUTO_RECOVER = False,
     on_gdirty_list = False, i_quota = (0, 16)\<rparr>"

theorem space_counters_bounded_witness:
  "\<exists>sbi'. reserved_blocks_store 100 demo_counts = Inr sbi' \<and> current_reserved_blocks sbi' = 10 \<and>
     unat (f_bfree (f2fs_statfs None 2000 0 sbi')) + unat (total_valid_block_count sbi') + unat (current_reserved_blocks sbi') =
       unat (user_block_count sbi')"
proof -
  let ?s = "demo_counts\<lparr>reserved_blocks := 100, current_reserved_blocks := 10\<rparr>"
  have st: "reserved_blocks_store 100 demo_counts = Inr ?s"
    by (simp add: reserved_blocks_store_def demo_counts_def Let_def unsigned_ucast_eq word_less_def min_def word_le_def)
  have "(space_step demo_dquot)\<^sup>*\<^sup>* demo_counts ?s" using space_step.reserve [OF st] by blast
  from space_counters_bounded [OF demo_counts_ok this, of 2000 0] st show ?thesis by auto
qed

text \<open>
  Reserving blocks grants exactly the blocks that are left for this caller, up to what is asked for: the user blocks
  less the reserved blocks, less the root reserve unless the caller may use it. The count of valid blocks and the sectors of the inode
  grow by the granted number, no quota reservation is left over on any path, and an error leaves the counters as they were and
  is \<^verbatim>\<open>ENOSPC\<close> only if nothing is left or a fault is injected.
\<close>

theorem inc_valid_block_count_exact:
  assumes "dquot_ok dq rsv" "counts_ok sbi" "unat (total_valid_block_count sbi) + n < 2 ^ 32"
    "inc_valid_block_count dq cr inject (sbi, i) n = (ret, (sbi', i'), cnt)"
  shows "rsv (i_quota i') = rsv (i_quota i) \<and>
    (ret = None \<longrightarrow> cnt = min n (room_for cr sbi (Some i)) \<and> (0 < n \<longrightarrow> 0 < cnt) \<and>
       unat (total_valid_block_count sbi') = unat (total_valid_block_count sbi) + cnt \<and>
       q_i_blocks dq (i_quota i') = q_i_blocks dq (i_quota i) + 8 * cnt) \<and>
    (ret \<noteq> None \<longrightarrow> space_counters sbi' = space_counters sbi \<and> q_i_blocks dq (i_quota i') = q_i_blocks dq (i_quota i) \<and>
       (ret = Some ENOSPC \<and> (inject \<or> n = 0 \<or> room_for cr sbi (Some i) = 0) \<or> ret = fst (dquot_reserve_block dq n (i_quota i))))"
proof -
  let ?q = "i_quota i"
  obtain rr q where rs: "dquot_reserve_block dq n ?q = (rr, q)" by fastforce
  have D: "rsv q = rsv ?q + (if rr = None then n else 0)" "q_i_blocks dq q = q_i_blocks dq ?q"
    "\<And>m p. m \<le> rsv p \<Longrightarrow> rsv (dquot_release_reservation_block dq m p) = rsv p - m \<and>
       q_i_blocks dq (dquot_release_reservation_block dq m p) = q_i_blocks dq p"
    "\<And>m p. m \<le> rsv p \<Longrightarrow> rsv (dquot_claim_block dq m p) = rsv p - m \<and> q_i_blocks dq (dquot_claim_block dq m p) = q_i_blocks dq p + 8 * m"
    using assms(1) rs unfolding dquot_ok_def by (smt (verit) case_prodD)+
  show ?thesis
  proof (cases "rr = None \<and> \<not> inject")
    case False
    then consider e where "rr = Some e" | "rr = None" "inject" by auto
    then show ?thesis
      using assms(4) rs D(1,2) D(3) [of n q] by cases (auto simp: inc_valid_block_count_def Let_def)
  next
    case True
    with rs assms(4) have rs': "dquot_reserve_block dq n ?q = (None, q)"
      and r': "inc_valid_block_count dq cr False (sbi, i) n = (ret, (sbi', i'), cnt)" by simp_all
    note F = inc_valid_block_count_form [OF assms(2,3) rs' r']
    define c where "c = min n (room_for cr sbi (Some i))"
    have c: "c \<le> n" by (simp add: c_def)
    have R: "n \<le> rsv q" "n - c \<le> rsv q" "c \<le> rsv q - (n - c)" using D(1) True c by simp_all
    note rel = D(3) [OF R(1)] D(3) [OF R(2)]
    have cl: "c \<le> rsv (dquot_release_reservation_block dq (n - c) q)" "c \<le> rsv q" using rel(2) R c by simp_all
    show ?thesis
    proof (cases ret)
      case None
      have "space_counters sbi' = (space_counters sbi)\<lparr>total_valid_block_count := total_valid_block_count sbi + of_nat c,
         alloc_valid_block_count := alloc_valid_block_count sbi + int n\<rparr>" using F(6) [OF None] by (simp add: c_def)
      from arg_cong [OF this, of total_valid_block_count] have v: "total_valid_block_count sbi' = total_valid_block_count sbi + of_nat c" by simp
      have "unat (total_valid_block_count sbi') = unat (total_valid_block_count sbi) + c"
        unfolding v using assms(3) c by (intro u32_add_of_nat) simp
      moreover have "rsv (i_quota i') = rsv ?q \<and> q_i_blocks dq (i_quota i') = q_i_blocks dq ?q + 8 * c"
        unfolding F(5) [OF None, folded c_def] using rel(2) D(1,2) D(4) [OF cl(1)] D(4) [OF cl(2)] True c R by (cases "c = n") simp_all
      ultimately show ?thesis using F(1,3) None by (simp add: c_def)
    next
      case (Some e)
      then have "ret \<noteq> None" by simp
      from F(4) [OF this] F(2) Some show ?thesis using rel(1) D(1,2) True by (auto simp: min_def split: if_splits)
    qed
  qed
qed

theorem inc_valid_block_count_exact_witness:
  "\<exists>sbi' i'. inc_valid_block_count demo_dquot demo_user False (demo_counts, demo_inode) 20 = (None, (sbi', i'), 8) \<and>
     total_valid_block_count sbi' = 998 \<and> fst (i_quota i') = 0 \<and> snd (i_quota i') = 16 + 8 * 8"
proof -
  obtain ret sbi' i' cnt where r: "inc_valid_block_count demo_dquot demo_user False (demo_counts, demo_inode) 20 = (ret, (sbi', i'), cnt)"
    by (metis prod_cases3 prod.collapse)
  have room: "room_for demo_user demo_counts (Some demo_inode) = 8"
    by (simp add: room_for_def demo_counts_def demo_user_def demo_inode_def allow_reserved_blocks_def)
  have rs: "fst (dquot_reserve_block demo_dquot 20 (i_quota demo_inode)) = None" by (simp add: demo_dquot_def demo_inode_def)
  have lt: "unat (total_valid_block_count demo_counts) + 20 < 2 ^ 32" by (simp add: demo_counts_def)
  note X = inc_valid_block_count_exact [OF demo_dquot_ok demo_counts_ok lt r, unfolded room rs]
  have "ret = None" using X by auto
  then have x: "cnt = 8" "unat (total_valid_block_count sbi') = 990 + 8" "fst (i_quota i') = 0" "snd (i_quota i') = 16 + 8 * 8"
    using X by (simp_all add: demo_counts_def demo_dquot_def demo_inode_def)
  from x(2) have "total_valid_block_count sbi' = 998" by (simp add: word_unat_eq_iff)
  then show ?thesis using r x \<open>ret = None\<close> by auto
qed

text \<open>
  A partly granted request is counted in full in \<^verbatim>\<open>alloc_valid_block_count\<close>: the counter of blocks allocated since the
  last checkpoint grows by what was asked for, while the valid blocks grow by what was granted, so the estimate that
  decides whether an fsync can be recovered by rolling forward is too high from then on.
\<close>

theorem partial_grant_overcounted:
  assumes "counts_ok sbi" "unat (total_valid_block_count sbi) + n < 2 ^ 32" "dquot_reserve_block dq n (i_quota i) = (None, q)"
    "0 < room_for cr sbi (Some i)" "room_for cr sbi (Some i) < n" "inc_valid_block_count dq cr False (sbi, i) n = (ret, (sbi', i'), cnt)"
  shows "ret = None \<and> alloc_valid_block_count sbi' - alloc_valid_block_count sbi = int n \<and>
    int (unat (total_valid_block_count sbi')) - int (unat (total_valid_block_count sbi)) = int (room_for cr sbi (Some i))"
proof -
  note F = inc_valid_block_count_form [OF assms(1-3,6)]
  let ?c = "room_for cr sbi (Some i)"
  have m: "min n ?c = ?c" using assms(5) by simp
  have none: "ret = None" using F(2) assms(4,5) by auto
  have s: "space_counters sbi' = (space_counters sbi)\<lparr>total_valid_block_count := total_valid_block_count sbi + of_nat ?c,
     alloc_valid_block_count := alloc_valid_block_count sbi + int n\<rparr>" using F(6) [OF none] unfolding m .
  from arg_cong [OF s, of total_valid_block_count] have "total_valid_block_count sbi' = total_valid_block_count sbi + of_nat ?c" by simp
  moreover from arg_cong [OF s, of alloc_valid_block_count] have "alloc_valid_block_count sbi' = alloc_valid_block_count sbi + int n" by simp
  moreover have "unat (total_valid_block_count sbi + of_nat ?c) = unat (total_valid_block_count sbi) + ?c"
    using assms(2,5) by (intro u32_add_of_nat) simp
  ultimately show ?thesis using none by simp
qed

theorem partial_grant_overcounted_witness:
  "\<exists>sbi' i'. inc_valid_block_count demo_dquot demo_user False (demo_counts, demo_inode) 20 = (None, (sbi', i'), 8) \<and>
     alloc_valid_block_count sbi' - alloc_valid_block_count demo_counts = 20 \<and> space_for_roll_forward demo_counts \<and>
     \<not> space_for_roll_forward sbi'"
proof -
  obtain ret sbi' i' cnt where r: "inc_valid_block_count demo_dquot demo_user False (demo_counts, demo_inode) 20 = (ret, (sbi', i'), cnt)"
    by (metis prod_cases3 prod.collapse)
  have room: "room_for demo_user demo_counts (Some demo_inode) = 8"
    by (simp add: room_for_def demo_counts_def demo_user_def demo_inode_def allow_reserved_blocks_def)
  have rs: "dquot_reserve_block demo_dquot 20 (i_quota demo_inode) = (None, (20, 16))" by (simp add: demo_dquot_def demo_inode_def)
  have lt: "unat (total_valid_block_count demo_counts) + 20 < 2 ^ 32" by (simp add: demo_counts_def)
  note X = partial_grant_overcounted [OF demo_counts_ok lt rs _ _ r, unfolded room, simplified]
  note F = inc_valid_block_count_form [OF demo_counts_ok lt rs r]
  have a: "alloc_valid_block_count sbi' = 20" using X by (simp add: demo_counts_def)
  have s: "space_counters sbi' = (space_counters demo_counts)\<lparr>total_valid_block_count := total_valid_block_count demo_counts + of_nat 8,
     alloc_valid_block_count := alloc_valid_block_count demo_counts + int 20\<rparr>" using F(6) X room by simp
  have "last_valid_block_count sbi' = 990" "user_block_count sbi' = 1000"
    using arg_cong [OF s, of last_valid_block_count] arg_cong [OF s, of user_block_count] by (simp_all add: demo_counts_def)
  then have "\<not> space_for_roll_forward sbi'" using a by (simp add: space_for_roll_forward_def)
  moreover have "space_for_roll_forward demo_counts" by (simp add: space_for_roll_forward_def demo_counts_def)
  moreover have "cnt = 8" using F(1) room by simp
  ultimately show ?thesis using r X by auto
qed

text \<open>
  The root reserve set by a remount after blocks were reserved through sysfs can exceed what is left of the user blocks, and
  then the subtraction in \<^verbatim>\<open>inc_valid_block_count\<close> wraps: a caller without privilege is granted all the blocks it
  asks for although no block is free for anyone, and the valid and reserved blocks exceed the user blocks.
\<close>

theorem root_reserve_underflow:
  fixes dq :: "'q dquot_ops" and i :: "'q inode_c"
  assumes "counts_ok sbi" "reserved_blocks_store t sbi = Inr sbi1" "sbi2 = limit_reserve_root (opt_set_reserve_root arg sbi1)"
    "current_reserved_blocks sbi1 = user_block_count sbi - total_valid_block_count sbi"
    "total_valid_block_count sbi < root_reserved_blocks sbi2" "\<not> allow_reserved_blocks cr sbi2 (Some i)"
    "n \<noteq> 0" "unat (total_valid_block_count sbi) + n < 2 ^ 32 - unat (root_reserved_blocks sbi2)"
    "dquot_reserve_block dq n (i_quota i) = (None, q)" "inc_valid_block_count dq cr False (sbi2, i) n = (ret, (sbi3, i'), cnt)"
  shows "f_bfree (f2fs_statfs None total_cnt start sbi2) = 0 \<and> ret = None \<and> cnt = n \<and>
    unat (total_valid_block_count sbi3) + unat (current_reserved_blocks sbi3) > unat (user_block_count sbi3)"
proof -
  let ?V = "total_valid_block_count sbi" and ?U = "user_block_count sbi" and ?R = "root_reserved_blocks sbi2"
  have f1: "total_valid_block_count sbi1 = ?V" "user_block_count sbi1 = ?U"
    using assms(2) by (auto simp: reserved_blocks_store_def Let_def split: if_splits)
  have f2: "total_valid_block_count sbi2 = ?V" "user_block_count sbi2 = ?U" "current_reserved_blocks sbi2 = ?U - ?V"
    using f1 assms(3,4) by (auto simp: limit_reserve_root_def opt_set_reserve_root_def Let_def)
  have V: "unat ?V \<le> unat ?U" using assms(1) by (simp add: counts_ok_def)
  have av: "unat (?V - ?R) = 2 ^ 32 + unat ?V - unat ?R"
    using assms(5) unat_sub_if' [of ?V ?R] unsigned_less [of ?R, where ?'a = nat] by (simp add: word_less_nat_alt)
  have t: "unat (?V + of_nat n) = unat ?V + n" using assms(8) by (intro u32_add_of_nat) simp
  have no: "\<not> ?V + of_nat n > ?V - ?R" using av t assms(8) by (simp add: word_less_nat_alt)
  have sub: "?U - (?U - ?V) = ?V" by simp
  have al: "\<not> allow_reserved_blocks cr (sbi2\<lparr>alloc_valid_block_count := x, total_valid_block_count := y\<rparr>) (Some (i\<lparr>i_quota := q\<rparr>))" for x y
    using assms(6) by (auto simp: allow_reserved_blocks_def split: if_splits)
  let ?s = "sbi2\<lparr>alloc_valid_block_count := alloc_valid_block_count sbi2 + int n, total_valid_block_count := ?V + of_nat n\<rparr>"
  have r: "ret = None \<and> cnt = n \<and> f2fs_i_blocks_write dq n True True (?s, i\<lparr>i_quota := q\<rparr>) = (sbi3, i')"
    using assms(10) no by (auto simp: inc_valid_block_count_def assms(9) Let_def f2 al sub)
  then have s3: "space_counters sbi3 = space_counters ?s" using i_blocks_frame(1) by blast
  have "total_valid_block_count sbi3 = ?V + of_nat n" "current_reserved_blocks sbi3 = ?U - ?V" "user_block_count sbi3 = ?U"
    using arg_cong [OF s3, of total_valid_block_count] arg_cong [OF s3, of current_reserved_blocks] arg_cong [OF s3, of user_block_count] f2
    by simp_all
  then show ?thesis using r t V assms(7) f2 by (simp add: f2fs_statfs_def Let_def u32_sub split: prod.split)
qed

definition demo_empty :: sbi_counts where
  "demo_empty = demo_counts\<lparr>user_block_count := 10000000, total_valid_block_count := 10, root_reserved_blocks := 0, opt_reserve_root := False\<rparr>"

theorem root_reserve_underflow_witness:
  "\<exists>sbi1 sbi3 i'. reserved_blocks_store 10000000 demo_empty = Inr sbi1 \<and>
     f_bfree (f2fs_statfs None 20000000 0 (limit_reserve_root (opt_set_reserve_root 100 sbi1))) = 0 \<and>
     inc_valid_block_count demo_dquot demo_user False (limit_reserve_root (opt_set_reserve_root 100 sbi1), demo_inode) 20 =
       (None, (sbi3, i'), 20) \<and>
     unat (total_valid_block_count sbi3) + unat (current_reserved_blocks sbi3) > unat (user_block_count sbi3)"
proof -
  let ?s1 = "demo_empty\<lparr>reserved_blocks := 10000000, current_reserved_blocks := 9999990\<rparr>"
  let ?s2 = "limit_reserve_root (opt_set_reserve_root 100 ?s1)"
  have ok: "counts_ok demo_empty" by (simp add: counts_ok_def demo_empty_def demo_counts_def)
  have st: "reserved_blocks_store 10000000 demo_empty = Inr ?s1"
    by (simp add: reserved_blocks_store_def demo_empty_def demo_counts_def Let_def unsigned_ucast_eq word_less_def min_def word_le_def)
  have s2: "root_reserved_blocks ?s2 = 100"
    by (simp add: limit_reserve_root_def opt_set_reserve_root_def demo_empty_def demo_counts_def Let_def word_less_def)
  obtain ret sbi3 i' cnt where r: "inc_valid_block_count demo_dquot demo_user False (?s2, demo_inode) 20 = (ret, (sbi3, i'), cnt)"
    by (metis prod_cases3 prod.collapse)
  have "current_reserved_blocks ?s1 = user_block_count demo_empty - total_valid_block_count demo_empty"
    "total_valid_block_count demo_empty < root_reserved_blocks ?s2"
    "unat (total_valid_block_count demo_empty) + 20 < 2 ^ 32 - unat (root_reserved_blocks ?s2)"
    unfolding s2 by (simp_all add: demo_empty_def demo_counts_def word_less_def)
  moreover have "\<not> allow_reserved_blocks demo_user ?s2 (Some demo_inode)"
    by (simp add: allow_reserved_blocks_def demo_user_def demo_inode_def limit_reserve_root_def opt_set_reserve_root_def demo_empty_def demo_counts_def Let_def)
  moreover have "dquot_reserve_block demo_dquot 20 (i_quota demo_inode) = (None, (20, 16))" by (simp add: demo_dquot_def demo_inode_def)
  ultimately show ?thesis
    using root_reserve_underflow [OF ok st refl _ _ _ _ _ _ r, of "(20, 16)" 20000000 0] st r by auto
qed

end
