(* ===== verification/Nat_Cache.thy ===== *)
theory Nat_Cache
  imports Two_Copies Journal
begin

text \<open>
  The node address table (NAT) in memory (\<^verbatim>\<open>node.c\<close>, \<^verbatim>\<open>node.h\<close>): a cache of entries that say where each node
  is, over the journal and the current copy of the table on disk. Clean entries are on one list, dirty entries on the list
  of their table block, and dirty entries whose node has no place on disk yet on none. The table behaves as a map from node
  ids to node information: \<open>nat_view\<close>.

  The kernel's radix trees are maps; a list linkage is a list of node ids; \<^verbatim>\<open>list_del\<close> takes an entry off whichever
  of its two possible lists it is on.
\<close>

section \<open>Entries\<close>

record node_info =
  ni_nid :: nat
  ni_ino :: nat
  blk_addr :: nat
  version :: u8
  ni_flag :: u8

record f2fs_nat_entry =
  rn_version :: u8
  rn_ino :: nat
  block_addr :: nat

abbreviation (input) IS_CHECKPOINTED :: nat where "IS_CHECKPOINTED \<equiv> 0"
abbreviation (input) HAS_FSYNCED_INODE :: nat where "HAS_FSYNCED_INODE \<equiv> 1"
abbreviation (input) HAS_LAST_FSYNC :: nat where "HAS_LAST_FSYNC \<equiv> 2"
abbreviation (input) IS_DIRTY :: nat where "IS_DIRTY \<equiv> 3"

definition set_nat_flag :: "nat \<Rightarrow> bool \<Rightarrow> node_info \<Rightarrow> node_info" where
  "set_nat_flag type on ne =
     (let mask = push_bit type 1 :: u8
      in ne\<lparr>ni_flag := (if on then ni_flag ne OR mask else ni_flag ne AND NOT mask)\<rparr>)"

definition get_nat_flag :: "node_info \<Rightarrow> nat \<Rightarrow> bool" where
  "get_nat_flag ne type = (let mask = push_bit type 1 :: u8 in ni_flag ne AND mask \<noteq> 0)"

definition nat_reset_flag :: "node_info \<Rightarrow> node_info" where
  "nat_reset_flag ne = set_nat_flag HAS_LAST_FSYNC True (set_nat_flag HAS_FSYNCED_INODE False (set_nat_flag IS_CHECKPOINTED True ne))"

definition copy_node_info :: "node_info \<Rightarrow> node_info \<Rightarrow> node_info" where
  "copy_node_info src dst = dst\<lparr>ni_nid := ni_nid src, ni_ino := ni_ino src, blk_addr := blk_addr src, version := version src\<rparr>"

definition node_info_from_raw_nat :: "f2fs_nat_entry \<Rightarrow> node_info \<Rightarrow> node_info" where
  "node_info_from_raw_nat raw ni = ni\<lparr>ni_ino := rn_ino raw, blk_addr := block_addr raw, version := rn_version raw\<rparr>"

definition raw_nat_from_node_info :: "node_info \<Rightarrow> f2fs_nat_entry" where
  "raw_nat_from_node_info ni = \<lparr>rn_version = version ni, rn_ino = ni_ino ni, block_addr = blk_addr ni\<rparr>"

section \<open>The cache\<close>

record nat_entry_set =
  set_list :: "nat list"
  set_cnt :: int

record nm_cache =
  max_nid :: nat
  nat_root :: "nat \<rightharpoonup> node_info"
  nat_entries :: "nat list"
  nat_cnt :: int
  nat_set_root :: "nat \<rightharpoonup> nat_entry_set"
  dirty_nat_cnt :: int
  nm_area :: nat_area
  nm_meta :: "nat \<Rightarrow> f2fs_nat_entry list"
  nm_jnl :: "f2fs_nat_entry f2fs_journal"
  nm_bug :: bool

definition nm_bug_on :: "bool \<Rightarrow> 'z nm_cache_scheme \<Rightarrow> 'z nm_cache_scheme" where
  "nm_bug_on b nm = nm\<lparr>nm_bug := nm_bug nm \<or> b\<rparr>"

definition alloc_nat_entry :: "nat \<Rightarrow> node_info" where
  "alloc_nat_entry nid = nat_reset_flag \<lparr>ni_nid = nid, ni_ino = 0, blk_addr = 0, version = 0, ni_flag = 0\<rparr>"

definition init_nat_entry :: "node_info \<Rightarrow> f2fs_nat_entry option \<Rightarrow> 'z nm_cache_scheme \<Rightarrow> 'z nm_cache_scheme" where
  "init_nat_entry ne raw_ne nm =
     (let ne = (case raw_ne of Some raw \<Rightarrow> node_info_from_raw_nat raw ne | None \<Rightarrow> ne)
      in nm\<lparr>nat_root := (nat_root nm)(ni_nid ne \<mapsto> ne), nat_entries := nat_entries nm @ [ni_nid ne], nat_cnt := nat_cnt nm + 1\<rparr>)"

definition list_del_ne :: "nat \<Rightarrow> 'z nm_cache_scheme \<Rightarrow> 'z nm_cache_scheme" where
  "list_del_ne nid nm =
     (let set = NAT_BLOCK_OFFSET nid
      in nm\<lparr>nat_entries := removeAll nid (nat_entries nm),
            nat_set_root := (case nat_set_root nm set of
                               None \<Rightarrow> nat_set_root nm
                             | Some h \<Rightarrow> (nat_set_root nm)(set \<mapsto> h\<lparr>set_list := removeAll nid (set_list h)\<rparr>))\<rparr>)"

definition del_from_nat_cache :: "nat \<Rightarrow> 'z nm_cache_scheme \<Rightarrow> 'z nm_cache_scheme" where
  "del_from_nat_cache nid nm =
     (let nm = list_del_ne nid nm in nm\<lparr>nat_root := (nat_root nm)(nid := None), nat_cnt := nat_cnt nm - 1\<rparr>)"

definition put_ne :: "nat \<Rightarrow> node_info \<Rightarrow> 'z nm_cache_scheme \<Rightarrow> 'z nm_cache_scheme" where
  "put_ne nid ne nm = nm\<lparr>nat_root := (nat_root nm)(nid \<mapsto> ne)\<rparr>"

definition set_nat_cache_dirty :: "nat \<Rightarrow> 'z nm_cache_scheme \<Rightarrow> 'z nm_cache_scheme" where
  "set_nat_cache_dirty nid nm =
     (case nat_root nm nid of
        None \<Rightarrow> nm
      | Some ne \<Rightarrow>
          let set = NAT_BLOCK_OFFSET nid;
              head = (case nat_set_root nm set of None \<Rightarrow> \<lparr>set_list = [], set_cnt = 0\<rparr> | Some h \<Rightarrow> h);
              (head, nm) = (if get_nat_flag ne IS_DIRTY then (head, nm)
                            else (head\<lparr>set_cnt := set_cnt head + 1\<rparr>,
                                  put_ne nid (set_nat_flag IS_DIRTY True ne) (nm\<lparr>dirty_nat_cnt := dirty_nat_cnt nm + 1\<rparr>)));
              head = head\<lparr>set_list := removeAll nid (set_list head)\<rparr>;
              head = (if blk_addr ne = NEW_ADDR then head else head\<lparr>set_list := set_list head @ [nid]\<rparr>)
          in nm\<lparr>nat_entries := removeAll nid (nat_entries nm), nat_set_root := (nat_set_root nm)(set \<mapsto> head)\<rparr>)"

definition clear_nat_cache_dirty :: "nat \<Rightarrow> nat \<Rightarrow> 'z nm_cache_scheme \<Rightarrow> 'z nm_cache_scheme" where
  "clear_nat_cache_dirty st nid nm =
     (case (nat_root nm nid, nat_set_root nm st) of
        (Some ne, Some h) \<Rightarrow>
          put_ne nid (set_nat_flag IS_DIRTY False ne)
            (nm\<lparr>nat_entries := removeAll nid (nat_entries nm) @ [nid],
                nat_set_root := (nat_set_root nm)(st \<mapsto> \<lparr>set_list = removeAll nid (set_list h), set_cnt = set_cnt h - 1\<rparr>),
                dirty_nat_cnt := dirty_nat_cnt nm - 1\<rparr>)
      | _ \<Rightarrow> nm)"

text \<open>What the recovery and fsync code asks about an entry.\<close>

definition need_dentry_mark :: "'z nm_cache_scheme \<Rightarrow> nat \<Rightarrow> bool" where
  "need_dentry_mark nm nid =
     (case nat_root nm nid of
        Some e \<Rightarrow> \<not> get_nat_flag e IS_CHECKPOINTED \<and> \<not> get_nat_flag e HAS_FSYNCED_INODE
      | None \<Rightarrow> False)"

definition is_checkpointed_node :: "'z nm_cache_scheme \<Rightarrow> nat \<Rightarrow> bool" where
  "is_checkpointed_node nm nid = (case nat_root nm nid of Some e \<Rightarrow> get_nat_flag e IS_CHECKPOINTED | None \<Rightarrow> True)"

definition need_inode_block_update :: "'z nm_cache_scheme \<Rightarrow> nat \<Rightarrow> bool" where
  "need_inode_block_update nm ino =
     (case nat_root nm ino of
        Some e \<Rightarrow> \<not> (get_nat_flag e HAS_LAST_FSYNC \<and> (get_nat_flag e IS_CHECKPOINTED \<or> get_nat_flag e HAS_FSYNCED_INODE))
      | None \<Rightarrow> True)"

text \<open>Caching an entry that was read: \<open>alloc_ok\<close> and \<open>insert_ok\<close> say whether memory is found for it.\<close>

definition cache_nat_entry :: "bool \<Rightarrow> bool \<Rightarrow> nat \<Rightarrow> f2fs_nat_entry \<Rightarrow> 'z nm_cache_scheme \<Rightarrow> 'z nm_cache_scheme" where
  "cache_nat_entry alloc_ok insert_ok nid ne nm =
     (if \<not> alloc_ok then nm
      else case nat_root nm nid of
        None \<Rightarrow> if insert_ok then init_nat_entry (alloc_nat_entry nid) (Some ne) nm else nm
      | Some e \<Rightarrow> nm_bug_on (ni_ino e \<noteq> rn_ino ne \<or> blk_addr e \<noteq> block_addr ne \<or> version e \<noteq> rn_version ne) nm)"

definition set_node_addr :: "node_info \<Rightarrow> nat \<Rightarrow> bool \<Rightarrow> 'z nm_cache_scheme \<Rightarrow> 'z nm_cache_scheme" where
  "set_node_addr ni new_blkaddr fsync_done nm =
     (let nid = ni_nid ni; new = alloc_nat_entry nid;
          (e, nm) = (case nat_root nm nid of
                       None \<Rightarrow> (copy_node_info ni new, nm_bug_on (blk_addr ni = NEW_ADDR) (init_nat_entry new None nm))
                     | Some e \<Rightarrow> if new_blkaddr = NEW_ADDR
                                  then (copy_node_info ni e, nm_bug_on (blk_addr ni \<noteq> NULL_ADDR) nm) else (e, nm));
          nm = nm_bug_on (blk_addr e \<noteq> blk_addr ni) nm;
          nm = nm_bug_on (blk_addr e = NULL_ADDR \<and> new_blkaddr = NULL_ADDR) nm;
          nm = nm_bug_on (blk_addr e = NEW_ADDR \<and> new_blkaddr = NEW_ADDR) nm;
          nm = nm_bug_on (blk_addr e \<noteq> NEW_ADDR \<and> blk_addr e \<noteq> NULL_ADDR \<and> new_blkaddr = NEW_ADDR) nm;
          e = (if blk_addr e \<noteq> NEW_ADDR \<and> new_blkaddr = NULL_ADDR then e\<lparr>version := version e + 1\<rparr> else e);
          e = e\<lparr>blk_addr := new_blkaddr\<rparr>;
          e = (if new_blkaddr = NEW_ADDR \<or> new_blkaddr = NULL_ADDR then set_nat_flag IS_CHECKPOINTED False e else e);
          nm = set_nat_cache_dirty nid (put_ne nid e nm)
      in case nat_root nm (ni_ino ni) of
           None \<Rightarrow> nm
         | Some e \<Rightarrow>
             let e = (if fsync_done \<and> nid = ni_ino ni then set_nat_flag HAS_FSYNCED_INODE True e else e)
             in put_ne (ni_ino ni) (set_nat_flag HAS_LAST_FSYNC fsync_done e) nm)"

text \<open>The shrinker; \<open>locked\<close> is the result of the trylock.\<close>

fun free_nats_loop :: "nat \<Rightarrow> 'z nm_cache_scheme \<Rightarrow> nat \<times> 'z nm_cache_scheme" where
  "free_nats_loop 0 nm = (0, nm)"
| "free_nats_loop (Suc nr) nm =
     (case nat_entries nm of [] \<Rightarrow> (Suc nr, nm) | ne # _ \<Rightarrow> free_nats_loop nr (del_from_nat_cache ne nm))"

definition try_to_free_nats :: "bool \<Rightarrow> nat \<Rightarrow> 'z nm_cache_scheme \<Rightarrow> nat \<times> 'z nm_cache_scheme" where
  "try_to_free_nats locked nr nm =
     (if \<not> locked then (0, nm) else case free_nats_loop nr nm of (nr_shrink, nm) \<Rightarrow> (nr - nr_shrink, nm))"

definition get_node_info :: "bool \<Rightarrow> bool \<Rightarrow> nat \<Rightarrow> 'z nm_cache_scheme \<Rightarrow> node_info \<times> 'z nm_cache_scheme" where
  "get_node_info alloc_ok insert_ok nid nm =
     (let ni = \<lparr>ni_nid = nid, ni_ino = 0, blk_addr = 0, version = 0, ni_flag = 0\<rparr>
      in case nat_root nm nid of
           Some e \<Rightarrow> (ni\<lparr>ni_ino := ni_ino e, blk_addr := blk_addr e, version := version e\<rparr>, nm)
         | None \<Rightarrow>
             let i = snd (lookup_journal_in_cursum NAT_JOURNAL_ENTRIES (nm_jnl nm) nid False);
                 ne = (if i \<ge> 0 then snd (j_entries (nm_jnl nm) ! nat i)
                       else get_current_nat_page (nm_area nm) (nm_meta nm) nid ! (nid - START_NID nid))
             in (node_info_from_raw_nat ne ni, cache_nat_entry alloc_ok insert_ok nid ne nm))"

section \<open>Flags\<close>

lemma get_nat_flag_bit: "t < 8 \<Longrightarrow> get_nat_flag ne t = bit (ni_flag ne) t"
proof -
  assume "t < 8"
  then have "ni_flag ne AND push_bit t 1 = 0 \<longleftrightarrow> \<not> bit (ni_flag ne) t"
    by (simp add: and_exp_eq_0_iff_not_bit push_bit_eq_mult)
  then show ?thesis by (simp add: get_nat_flag_def Let_def)
qed

lemma get_set_flag [simp]: "t < 8 \<Longrightarrow> u < 8 \<Longrightarrow> get_nat_flag (set_nat_flag t on ne) u = (if u = t then on else get_nat_flag ne u)"
  by (auto simp: get_nat_flag_bit set_nat_flag_def Let_def bit_simps)

lemma set_flag_fields [simp]:
  "ni_nid (set_nat_flag t on ne) = ni_nid ne" "ni_ino (set_nat_flag t on ne) = ni_ino ne"
  "blk_addr (set_nat_flag t on ne) = blk_addr ne" "version (set_nat_flag t on ne) = version ne"
  "raw_nat_from_node_info (set_nat_flag t on ne) = raw_nat_from_node_info ne"
  by (simp_all add: set_nat_flag_def Let_def raw_nat_from_node_info_def)

lemma set_flag_same: "t < 8 \<Longrightarrow> get_nat_flag ne t \<Longrightarrow> set_nat_flag t True ne = ne"
proof -
  assume t: "t < 8" "get_nat_flag ne t"
  have "ni_flag ne OR push_bit t 1 = ni_flag ne" using t by (intro bit_word_eqI) (auto simp: get_nat_flag_bit bit_simps)
  then show ?thesis by (simp add: set_nat_flag_def Let_def)
qed

lemma reset_flag_fields [simp]:
  "ni_nid (nat_reset_flag ne) = ni_nid ne" "ni_ino (nat_reset_flag ne) = ni_ino ne"
  "blk_addr (nat_reset_flag ne) = blk_addr ne" "version (nat_reset_flag ne) = version ne"
  "raw_nat_from_node_info (nat_reset_flag ne) = raw_nat_from_node_info ne"
  "get_nat_flag (nat_reset_flag ne) IS_DIRTY = get_nat_flag ne IS_DIRTY" "get_nat_flag (nat_reset_flag ne) IS_CHECKPOINTED"
  by (simp_all add: nat_reset_flag_def)

lemma alloc_nat_entry_fields [simp]:
  "ni_nid (alloc_nat_entry nid) = nid" "\<not> get_nat_flag (alloc_nat_entry nid) IS_DIRTY" "get_nat_flag (alloc_nat_entry nid) IS_CHECKPOINTED"
  by (simp_all add: alloc_nat_entry_def get_nat_flag_bit)

lemma copy_fields [simp]:
  "ni_nid (copy_node_info a b) = ni_nid a" "ni_ino (copy_node_info a b) = ni_ino a" "blk_addr (copy_node_info a b) = blk_addr a"
  "version (copy_node_info a b) = version a" "ni_flag (copy_node_info a b) = ni_flag b"
  "get_nat_flag (copy_node_info a b) t = get_nat_flag b t" "raw_nat_from_node_info (copy_node_info a b) = raw_nat_from_node_info a"
  by (simp_all add: copy_node_info_def get_nat_flag_def Let_def raw_nat_from_node_info_def)

lemma from_raw_fields [simp]:
  "ni_nid (node_info_from_raw_nat r e) = ni_nid e" "blk_addr (node_info_from_raw_nat r e) = block_addr r"
  "get_nat_flag (node_info_from_raw_nat r e) t = get_nat_flag e t" "raw_nat_from_node_info (node_info_from_raw_nat r e) = r"
  by (simp_all add: node_info_from_raw_nat_def get_nat_flag_def Let_def raw_nat_from_node_info_def)

section \<open>Invariant\<close>

definition nat_dirty :: "'z nm_cache_scheme \<Rightarrow> nat \<Rightarrow> bool" where
  "nat_dirty nm nid = (case nat_root nm nid of Some e \<Rightarrow> get_nat_flag e IS_DIRTY | None \<Rightarrow> False)"

text \<open>Dirty entries of nodes that have no place on disk yet.\<close>

definition nat_new :: "'z nm_cache_scheme \<Rightarrow> nat \<Rightarrow> bool" where
  "nat_new nm nid = (case nat_root nm nid of Some e \<Rightarrow> get_nat_flag e IS_DIRTY \<and> blk_addr e = NEW_ADDR | None \<Rightarrow> False)"

definition nat_sets_ok :: "(nat \<Rightarrow> bool) \<Rightarrow> (nat \<Rightarrow> bool) \<Rightarrow> (nat \<rightharpoonup> nat_entry_set) \<Rightarrow> bool" where
  "nat_sets_ok dirty new sets \<longleftrightarrow>
     (\<forall>b h. sets b = Some h \<longrightarrow> distinct (set_list h) \<and>
        set (set_list h) = {nid. NAT_BLOCK_OFFSET nid = b \<and> dirty nid \<and> \<not> new nid} \<and>
        set_cnt h = int (card {nid. NAT_BLOCK_OFFSET nid = b \<and> dirty nid})) \<and>
     (\<forall>nid. dirty nid \<longrightarrow> sets (NAT_BLOCK_OFFSET nid) \<noteq> None)"

definition nat_wf :: "'z nm_cache_scheme \<Rightarrow> bool" where
  "nat_wf nm \<longleftrightarrow>
     (\<forall>nid e. nat_root nm nid = Some e \<longrightarrow> ni_nid e = nid \<and> nid < max_nid nm) \<and>
     distinct (nat_entries nm) \<and> set (nat_entries nm) = {nid \<in> dom (nat_root nm). \<not> nat_dirty nm nid} \<and>
     nat_sets_ok (nat_dirty nm) (nat_new nm) (nat_set_root nm) \<and>
     dirty_nat_cnt nm = int (card {nid. nat_dirty nm nid}) \<and> nat_cnt nm = int (card (dom (nat_root nm)))"

lemma nat_wfD:
  assumes "nat_wf nm"
  shows "nat_root nm nid = Some e \<Longrightarrow> ni_nid e = nid \<and> nid < max_nid nm" "distinct (nat_entries nm)"
    "set (nat_entries nm) = {nid \<in> dom (nat_root nm). \<not> nat_dirty nm nid}" "nat_sets_ok (nat_dirty nm) (nat_new nm) (nat_set_root nm)"
    "dirty_nat_cnt nm = int (card {nid. nat_dirty nm nid})" "nat_cnt nm = int (card (dom (nat_root nm)))"
  using assms unfolding nat_wf_def by blast+

text \<open>What the disk holds for a node id, and what the table as a whole says.\<close>

definition nat_stored :: "'z nm_cache_scheme \<Rightarrow> nat \<Rightarrow> f2fs_nat_entry" where
  "nat_stored nm nid =
     (case jmap (nm_jnl nm) nid of
        Some e \<Rightarrow> e | None \<Rightarrow> get_current_nat_page (nm_area nm) (nm_meta nm) nid ! (nid - START_NID nid))"

definition nat_view :: "'z nm_cache_scheme \<Rightarrow> nat \<Rightarrow> f2fs_nat_entry" where
  "nat_view nm nid = (case nat_root nm nid of Some e \<Rightarrow> raw_nat_from_node_info e | None \<Rightarrow> nat_stored nm nid)"

definition nat_disk_ok :: "'z nm_cache_scheme \<Rightarrow> bool" where
  "nat_disk_ok nm \<longleftrightarrow>
     jnl_ok NAT_JOURNAL_ENTRIES (nm_jnl nm) \<and> dom (jmap (nm_jnl nm)) \<subseteq> {..<max_nid nm} \<and>
     (\<forall>e \<in> ran (jmap (nm_jnl nm)). block_addr e \<noteq> NEW_ADDR) \<and>
     (\<forall>nid < max_nid nm. nat_ok (nm_area nm) (NAT_BLOCK_OFFSET nid) \<and>
        length (get_current_nat_page (nm_area nm) (nm_meta nm) nid) = NAT_ENTRY_PER_BLOCK \<and>
        block_addr (get_current_nat_page (nm_area nm) (nm_meta nm) nid ! (nid - START_NID nid)) \<noteq> NEW_ADDR)"

lemma stored_not_new: "nat_disk_ok nm \<Longrightarrow> nid < max_nid nm \<Longrightarrow> block_addr (nat_stored nm nid) \<noteq> NEW_ADDR"
  by (auto simp: nat_disk_ok_def nat_stored_def ran_def split: option.split)

text \<open>Clean entries agree with the disk.\<close>

definition nat_inv :: "'z nm_cache_scheme \<Rightarrow> bool" where
  "nat_inv nm \<longleftrightarrow> nat_wf nm \<and> nat_disk_ok nm \<and>
     (\<forall>nid e. nat_root nm nid = Some e \<longrightarrow> \<not> nat_dirty nm nid \<longrightarrow> raw_nat_from_node_info e = nat_stored nm nid)"

abbreviation same_disk :: "'z nm_cache_scheme \<Rightarrow> 'z nm_cache_scheme \<Rightarrow> bool" where
  "same_disk nm' nm \<equiv> nm_area nm' = nm_area nm \<and> nm_meta nm' = nm_meta nm \<and> nm_jnl nm' = nm_jnl nm \<and> max_nid nm' = max_nid nm"

lemma same_diskD: "same_disk nm' nm \<Longrightarrow> nat_stored nm' = nat_stored nm \<and> nat_disk_ok nm' = nat_disk_ok nm"
proof -
  assume s: "same_disk nm' nm"
  then have "nat_stored nm' = nat_stored nm" by (intro ext) (simp add: nat_stored_def split: option.split)
  then show ?thesis using s by (simp add: nat_disk_ok_def)
qed

lemma nat_finite:
  assumes "nat_wf nm"
  shows "finite (dom (nat_root nm))" "finite {nid. nat_dirty nm nid}" "finite {nid. NAT_BLOCK_OFFSET nid = b \<and> nat_dirty nm nid}"
proof -
  have "dom (nat_root nm) \<subseteq> {..<max_nid nm}" using assms by (auto simp: nat_wf_def)
  then show f: "finite (dom (nat_root nm))" using finite_subset by blast
  have "{nid. nat_dirty nm nid} \<subseteq> dom (nat_root nm)" by (auto simp: nat_dirty_def split: option.splits)
  then show d: "finite {nid. nat_dirty nm nid}" using f finite_subset by blast
  then show "finite {nid. NAT_BLOCK_OFFSET nid = b \<and> nat_dirty nm nid}" by (rule rev_finite_subset) auto
qed

text \<open>Marking an entry dirty, in closed form.\<close>

lemma set_nat_cache_dirty_form:
  assumes "nat_root nm nid = Some e"
  shows "set_nat_cache_dirty nid nm =
    (let b = NAT_BLOCK_OFFSET nid; h = (case nat_set_root nm b of None \<Rightarrow> \<lparr>set_list = [], set_cnt = 0\<rparr> | Some h \<Rightarrow> h);
         k = (if get_nat_flag e IS_DIRTY then 0 else 1)
     in nm\<lparr>nat_root := (nat_root nm)(nid \<mapsto> set_nat_flag IS_DIRTY True e), nat_entries := removeAll nid (nat_entries nm),
           nat_set_root := (nat_set_root nm)(b \<mapsto> \<lparr>set_list = removeAll nid (set_list h) @ (if blk_addr e = NEW_ADDR then [] else [nid]),
                                                  set_cnt = set_cnt h + k\<rparr>),
           dirty_nat_cnt := dirty_nat_cnt nm + k\<rparr>)"
proof (cases "get_nat_flag e IS_DIRTY")
  case True
  then have r: "(nat_root nm)(nid \<mapsto> set_nat_flag IS_DIRTY True e) = nat_root nm" using assms by (auto simp: set_flag_same)
  have h: "h\<lparr>set_list := x\<rparr> = \<lparr>set_list = x, set_cnt = set_cnt h\<rparr>" for h :: nat_entry_set and x by (cases h) simp
  show ?thesis unfolding set_nat_cache_dirty_def assms option.case Let_def using True by (simp add: r h)
next
  case False
  have h: "h\<lparr>set_cnt := c, set_list := x\<rparr> = \<lparr>set_list = x, set_cnt = c\<rparr>" for h :: nat_entry_set and x c by (cases h) simp
  show ?thesis unfolding set_nat_cache_dirty_def assms option.case Let_def using False by (simp add: put_ne_def h)
qed

text \<open>One entry becomes or stays dirty: how the sets and the counts follow.\<close>

lemma sets_ok_mark:
  assumes ok: "nat_sets_ok d n sets" and fin: "finite {x. NAT_BLOCK_OFFSET x = NAT_BLOCK_OFFSET nid \<and> d x}"
    and d': "\<And>x. d' x = (x = nid \<or> d x)" and n': "\<And>x. x \<noteq> nid \<Longrightarrow> n' x = n x"
  defines "b \<equiv> NAT_BLOCK_OFFSET nid"
  defines "h \<equiv> (case sets b of None \<Rightarrow> \<lparr>set_list = [], set_cnt = 0\<rparr> | Some h \<Rightarrow> h)"
  shows "nat_sets_ok d' n' (sets(b \<mapsto> \<lparr>set_list = removeAll nid (set_list h) @ (if n' nid then [] else [nid]),
           set_cnt = set_cnt h + (if d nid then 0 else 1)\<rparr>))"
proof -
  have h: "distinct (set_list h)" "set (set_list h) = {x. NAT_BLOCK_OFFSET x = b \<and> d x \<and> \<not> n x}"
    "set_cnt h = int (card {x. NAT_BLOCK_OFFSET x = b \<and> d x})"
  proof -
    have "(sets b = None \<and> (\<forall>x. NAT_BLOCK_OFFSET x = b \<longrightarrow> \<not> d x)) \<or> sets b = Some h"
      using ok by (auto simp: nat_sets_ok_def h_def split: option.split)
    moreover have "distinct (set_list h) \<and> set (set_list h) = {x. NAT_BLOCK_OFFSET x = b \<and> d x \<and> \<not> n x} \<and>
        set_cnt h = int (card {x. NAT_BLOCK_OFFSET x = b \<and> d x})" if "sets b = None" "\<forall>x. NAT_BLOCK_OFFSET x = b \<longrightarrow> \<not> d x"
    proof -
      have e: "{x. NAT_BLOCK_OFFSET x = b \<and> d x} = {}" "{x. NAT_BLOCK_OFFSET x = b \<and> d x \<and> \<not> n x} = {}" using that by auto
      show ?thesis unfolding e using that(1) by (simp add: h_def)
    qed
    ultimately show "distinct (set_list h)" "set (set_list h) = {x. NAT_BLOCK_OFFSET x = b \<and> d x \<and> \<not> n x}"
      "set_cnt h = int (card {x. NAT_BLOCK_OFFSET x = b \<and> d x})"
      using ok unfolding nat_sets_ok_def by blast+
  qed
  have ins: "{x. NAT_BLOCK_OFFSET x = b \<and> d' x} = insert nid {x. NAT_BLOCK_OFFSET x = b \<and> d x}" using d' by (auto simp: b_def)
  have "card {x. NAT_BLOCK_OFFSET x = b \<and> d' x} = card {x. NAT_BLOCK_OFFSET x = b \<and> d x} + (if d nid then 0 else 1)"
    unfolding ins using fin by (auto simp: b_def insert_absorb)
  then have c: "set_cnt h + (if d nid then 0 else 1) = int (card {x. NAT_BLOCK_OFFSET x = b \<and> d' x})" using h(3) by simp
  have l: "set (removeAll nid (set_list h) @ (if n' nid then [] else [nid])) = {x. NAT_BLOCK_OFFSET x = b \<and> d' x \<and> \<not> n' x}"
  proof (rule set_eqI)
    fix x
    show "x \<in> set (removeAll nid (set_list h) @ (if n' nid then [] else [nid])) \<longleftrightarrow> x \<in> {x. NAT_BLOCK_OFFSET x = b \<and> d' x \<and> \<not> n' x}"
      using h(2) d' [of x] n' [of x] by (cases "x = nid") (auto simp: b_def)
  qed
  have other: "{x. NAT_BLOCK_OFFSET x = c \<and> d' x} = {x. NAT_BLOCK_OFFSET x = c \<and> d x}"
    "{x. NAT_BLOCK_OFFSET x = c \<and> d' x \<and> \<not> n' x} = {x. NAT_BLOCK_OFFSET x = c \<and> d x \<and> \<not> n x}" if "c \<noteq> b" for c
    using that d' n' by (auto simp: b_def) (metis n')+
  have dist: "distinct (removeAll nid (set_list h) @ (if n' nid then [] else [nid]))" using h(1) by (simp add: distinct_removeAll)
  show ?thesis unfolding nat_sets_ok_def
  proof (intro conjI allI impI)
    fix b' h' assume "(sets(b \<mapsto> \<lparr>set_list = removeAll nid (set_list h) @ (if n' nid then [] else [nid]),
           set_cnt = set_cnt h + (if d nid then 0 else 1)\<rparr>)) b' = Some h'"
    then have "distinct (set_list h') \<and> set (set_list h') = {nid. NAT_BLOCK_OFFSET nid = b' \<and> d' nid \<and> \<not> n' nid} \<and>
        set_cnt h' = int (card {nid. NAT_BLOCK_OFFSET nid = b' \<and> d' nid})"
      using c l dist other ok unfolding nat_sets_ok_def by (cases "b' = b") auto
    then show "distinct (set_list h')" "set (set_list h') = {nid. NAT_BLOCK_OFFSET nid = b' \<and> d' nid \<and> \<not> n' nid}"
      "set_cnt h' = int (card {nid. NAT_BLOCK_OFFSET nid = b' \<and> d' nid})" by blast+
  qed (use ok d' in \<open>auto simp: nat_sets_ok_def b_def\<close>)
qed

lemma mark_wf:
  assumes wf: "nat_wf nm" and e: "nat_root nm nid = Some e" and e': "ni_nid e' = nid" "get_nat_flag e' IS_DIRTY = get_nat_flag e IS_DIRTY"
  defines "nm' \<equiv> set_nat_cache_dirty nid (put_ne nid e' nm)"
  shows "nat_wf nm'" "nat_root nm' = (nat_root nm)(nid \<mapsto> set_nat_flag IS_DIRTY True e')" "same_disk nm' nm" "nm_bug nm' = nm_bug nm"
    "nm_cache.more nm' = nm_cache.more nm"
proof -
  have root: "nat_root (put_ne nid e' nm) nid = Some e'" by (simp add: put_ne_def)
  note f = set_nat_cache_dirty_form [OF root, folded nm'_def]
  show r: "nat_root nm' = (nat_root nm)(nid \<mapsto> set_nat_flag IS_DIRTY True e')" "same_disk nm' nm" "nm_bug nm' = nm_bug nm"
    "nm_cache.more nm' = nm_cache.more nm"
    unfolding f by (simp_all add: put_ne_def Let_def)
  have d: "nat_dirty nm' x = (x = nid \<or> nat_dirty nm x)" for x by (simp add: nat_dirty_def r(1))
  have n: "x \<noteq> nid \<Longrightarrow> nat_new nm' x = nat_new nm x" "nat_new nm' nid = (blk_addr e' = NEW_ADDR)" for x by (simp_all add: nat_new_def r(1))
  have dn: "get_nat_flag e' IS_DIRTY = nat_dirty nm nid" using e e'(2) by (simp add: nat_dirty_def)
  have so: "nat_sets_ok (nat_dirty nm') (nat_new nm') (nat_set_root nm')"
    using sets_ok_mark [of "nat_dirty nm" "nat_new nm" "nat_set_root nm" nid "nat_dirty nm'" "nat_new nm'"] wf nat_finite(3) [OF wf] d n
    by (auto simp: nat_wf_def f Let_def put_ne_def dn [symmetric] simp del: removeAll.simps)
  have ent: "nat_entries nm' = removeAll nid (nat_entries nm)" "dirty_nat_cnt nm' = dirty_nat_cnt nm + (if nat_dirty nm nid then 0 else 1)"
    "nat_cnt nm' = nat_cnt nm" using e e'(2) unfolding f by (auto simp: put_ne_def Let_def nat_dirty_def)
  have "{x. nat_dirty nm' x} = insert nid {x. nat_dirty nm x}" using d by auto
  then have cnt: "card {x. nat_dirty nm' x} = card {x. nat_dirty nm x} + (if nat_dirty nm nid then 0 else 1)"
    using nat_finite(2) [OF wf] by (simp add: insert_absorb)
  have dm: "dom (nat_root nm') = dom (nat_root nm)" using e by (auto simp: r(1))
  have lst: "distinct (nat_entries nm')" "set (nat_entries nm') = {x \<in> dom (nat_root nm'). \<not> nat_dirty nm' x}"
    using wf d unfolding ent dm by (auto simp: nat_wf_def distinct_removeAll)
  have ids: "ni_nid y = x \<and> x < max_nid nm'" if "nat_root nm' x = Some y" for x y
    using that wf e e'(1) r(2) unfolding r(1) nat_wf_def by (auto split: if_splits)
  have "nat_cnt nm' = int (card (dom (nat_root nm')))" "dirty_nat_cnt nm' = int (card {x. nat_dirty nm' x})"
    using wf ent(2,3) cnt dm unfolding nat_wf_def by simp_all
  then show "nat_wf nm'" using so lst ids unfolding nat_wf_def by blast
qed

text \<open>Changes of an entry that touch neither its dirty mark nor whether it has a place.\<close>

lemma put_ne_wf:
  assumes wf: "nat_wf nm" and e: "nat_root nm nid = Some e" "ni_nid e' = nid" "get_nat_flag e' IS_DIRTY = get_nat_flag e IS_DIRTY"
    "blk_addr e' = blk_addr e"
  shows "nat_wf (put_ne nid e' nm)" "nat_dirty (put_ne nid e' nm) = nat_dirty nm"
proof -
  show d: "nat_dirty (put_ne nid e' nm) = nat_dirty nm" using e by (auto simp: nat_dirty_def put_ne_def fun_eq_iff)
  have n: "nat_new (put_ne nid e' nm) = nat_new nm" using e by (auto simp: nat_new_def put_ne_def fun_eq_iff)
  have dm: "dom (nat_root (put_ne nid e' nm)) = dom (nat_root nm)" using e by (auto simp: put_ne_def)
  have "ni_nid y = x \<and> x < max_nid nm" if "nat_root (put_ne nid e' nm) x = Some y" for x y
    using that wf e(1,2) unfolding put_ne_def nat_wf_def by (auto split: if_splits)
  then have ids: "ni_nid y = x \<and> x < max_nid (put_ne nid e' nm)" if "nat_root (put_ne nid e' nm) x = Some y" for x y
    using that by (simp add: put_ne_def)
  have f: "nat_entries (put_ne nid e' nm) = nat_entries nm" "nat_set_root (put_ne nid e' nm) = nat_set_root nm"
    "dirty_nat_cnt (put_ne nid e' nm) = dirty_nat_cnt nm" "nat_cnt (put_ne nid e' nm) = nat_cnt nm" by (simp_all add: put_ne_def)
  show "nat_wf (put_ne nid e' nm)"
    using ids nat_wfD(2-6) [OF wf] unfolding nat_wf_def d n dm f by blast
qed

lemma init_wf:
  fixes raw :: "f2fs_nat_entry option"
  assumes wf: "nat_wf nm" and r: "nat_root nm nid = None" "nid < max_nid nm" and ne: "ni_nid ne = nid" "\<not> get_nat_flag ne IS_DIRTY"
  defines "e \<equiv> (case raw of Some rw \<Rightarrow> node_info_from_raw_nat rw ne | None \<Rightarrow> ne)"
  defines "nm' \<equiv> init_nat_entry ne raw nm"
  shows "nat_wf nm'" "nat_root nm' = (nat_root nm)(nid \<mapsto> e)" "nat_dirty nm' = nat_dirty nm" "same_disk nm' nm" "nm_bug nm' = nm_bug nm"
    "nm_cache.more nm' = nm_cache.more nm"
proof -
  have e: "ni_nid e = nid" "\<not> get_nat_flag e IS_DIRTY" using ne by (auto simp: e_def split: option.split)
  have f: "nm' = nm\<lparr>nat_root := (nat_root nm)(nid \<mapsto> e), nat_entries := nat_entries nm @ [nid], nat_cnt := nat_cnt nm + 1\<rparr>"
    using e(1) unfolding nm'_def init_nat_entry_def e_def [symmetric] Let_def by simp
  show "nat_root nm' = (nat_root nm)(nid \<mapsto> e)" "same_disk nm' nm" "nm_bug nm' = nm_bug nm" "nm_cache.more nm' = nm_cache.more nm"
    by (simp_all add: f)
  show d: "nat_dirty nm' = nat_dirty nm" using r e(2) by (auto simp: nat_dirty_def f fun_eq_iff)
  have n: "nat_new nm' = nat_new nm" using r e(2) by (auto simp: nat_new_def f fun_eq_iff)
  have dm: "dom (nat_root nm') = insert nid (dom (nat_root nm))" by (auto simp: f)
  have nd: "\<not> nat_dirty nm nid" "nid \<notin> dom (nat_root nm)" using r by (auto simp: nat_dirty_def)
  have "card (dom (nat_root nm')) = Suc (card (dom (nat_root nm)))" unfolding dm using nat_finite(1) [OF wf] nd by simp
  then have c: "nat_cnt nm' = int (card (dom (nat_root nm')))" using wf by (simp add: nat_wf_def f)
  have ids: "ni_nid y = x \<and> x < max_nid nm'" if "nat_root nm' x = Some y" for x y
    using that wf e(1) r(2) unfolding nat_wf_def by (auto simp: f split: if_splits)
  have "set (nat_entries nm) = {x \<in> dom (nat_root nm). \<not> nat_dirty nm x}" "distinct (nat_entries nm)" using wf by (simp_all add: nat_wf_def)
  then have "distinct (nat_entries nm') \<and> set (nat_entries nm') = {x \<in> dom (nat_root nm'). \<not> nat_dirty nm' x}"
    unfolding d dm using nd by (auto simp: f)
  moreover have "nat_set_root nm' = nat_set_root nm" "dirty_nat_cnt nm' = dirty_nat_cnt nm" by (simp_all add: f)
  ultimately show "nat_wf nm'" using nat_wfD(4,5) [OF wf] c ids unfolding nat_wf_def d n by metis
qed

lemma nat_invI:
  assumes "nat_wf nm'" "same_disk nm' nm" "nat_inv nm"
    "\<And>nid e. nat_root nm' nid = Some e \<Longrightarrow> \<not> nat_dirty nm' nid \<Longrightarrow> raw_nat_from_node_info e = nat_stored nm nid"
  shows "nat_inv nm'"
  using assms same_diskD [OF assms(2)] unfolding nat_inv_def by auto

lemma nat_inv_agree: "nat_inv nm \<Longrightarrow> nat_root nm nid = Some e \<Longrightarrow> \<not> nat_dirty nm nid \<Longrightarrow> raw_nat_from_node_info e = nat_stored nm nid"
  unfolding nat_inv_def by blast

section \<open>The operations\<close>

lemma del_clean:
  assumes inv: "nat_inv nm" and x: "nid \<in> set (nat_entries nm)"
  defines "nm' \<equiv> del_from_nat_cache nid nm"
  shows "nat_inv nm'" "nat_view nm' = nat_view nm" "same_disk nm' nm" "nm_bug nm' = nm_bug nm" "length (nat_entries nm') < length (nat_entries nm)"
    "nm_cache.more nm' = nm_cache.more nm" "nat_dirty nm' = nat_dirty nm"
proof -
  have wf: "nat_wf nm" using inv by (simp add: nat_inv_def)
  have c: "nid \<in> dom (nat_root nm)" "\<not> nat_dirty nm nid" using nat_wfD(3) [OF wf] x by auto
  have "removeAll nid (set_list h) = set_list h" if "nat_set_root nm (NAT_BLOCK_OFFSET nid) = Some h" for h
    using nat_wfD(4) [OF wf] that c(2) unfolding nat_sets_ok_def by (intro removeAll_id) auto
  then have "(case nat_set_root nm (NAT_BLOCK_OFFSET nid) of None \<Rightarrow> nat_set_root nm
      | Some h \<Rightarrow> (nat_set_root nm)(NAT_BLOCK_OFFSET nid \<mapsto> h\<lparr>set_list := removeAll nid (set_list h)\<rparr>)) = nat_set_root nm"
    by (auto simp: fun_eq_iff split: option.split)
  then have f: "nm' = nm\<lparr>nat_root := (nat_root nm)(nid := None), nat_entries := removeAll nid (nat_entries nm), nat_cnt := nat_cnt nm - 1\<rparr>"
    by (simp add: nm'_def del_from_nat_cache_def list_del_ne_def Let_def)
  show sd: "same_disk nm' nm" "nm_bug nm' = nm_bug nm" "nm_cache.more nm' = nm_cache.more nm" by (simp_all add: f)
  show "length (nat_entries nm') < length (nat_entries nm)" using x by (simp add: f length_removeAll_less)
  show d: "nat_dirty nm' = nat_dirty nm" using c by (auto simp: nat_dirty_def f fun_eq_iff)
  have n: "nat_new nm' = nat_new nm" using c by (auto simp: nat_new_def nat_dirty_def f fun_eq_iff split: option.splits)
  have dm: "dom (nat_root nm') = dom (nat_root nm) - {nid}" by (auto simp: f)
  have "card (dom (nat_root nm)) = Suc (card (dom (nat_root nm')))"
    unfolding dm using nat_finite(1) [OF wf] c(1) by (metis card.remove)
  then have cnt: "nat_cnt nm' = int (card (dom (nat_root nm')))" using nat_wfD(6) [OF wf] by (simp add: f)
  have "distinct (nat_entries nm') \<and> set (nat_entries nm') = {x \<in> dom (nat_root nm'). \<not> nat_dirty nm' x}"
    unfolding d dm using nat_wfD(2,3) [OF wf] by (auto simp: f distinct_removeAll)
  moreover have "nat_set_root nm' = nat_set_root nm" "dirty_nat_cnt nm' = dirty_nat_cnt nm" by (simp_all add: f)
  moreover have ids: "ni_nid y = x \<and> x < max_nid nm'" if "nat_root nm' x = Some y" for x y
    using that nat_wfD(1) [OF wf, of x y] by (auto simp: f split: if_splits)
  ultimately have wf': "nat_wf nm'" using nat_wfD(4,5) [OF wf] cnt unfolding nat_wf_def d n by metis
  show "nat_inv nm'"
  proof (rule nat_invI [OF wf' sd(1) inv])
    fix x e assume "nat_root nm' x = Some e" "\<not> nat_dirty nm' x"
    then show "raw_nat_from_node_info e = nat_stored nm x" using nat_inv_agree [OF inv, of x e] d by (auto simp: f split: if_splits)
  qed
  show "nat_view nm' = nat_view nm"
  proof
    fix x
    obtain e where e: "nat_root nm nid = Some e" using c(1) by blast
    have st: "nat_stored nm' = nat_stored nm" using same_diskD [OF sd(1)] by blast
    show "nat_view nm' x = nat_view nm x"
      using nat_inv_agree [OF inv e c(2)] e st by (cases "x = nid") (simp_all add: nat_view_def f split: option.split)
  qed
qed

lemma free_nats_loop_ok:
  assumes "nat_inv nm" "free_nats_loop nr nm = (k, nm')"
  shows "nat_inv nm' \<and> nat_view nm' = nat_view nm \<and> same_disk nm' nm \<and> nm_bug nm' = nm_bug nm \<and> nm_cache.more nm' = nm_cache.more nm \<and>
    nat_dirty nm' = nat_dirty nm \<and> k \<le> nr"
  using assms
proof (induction nr nm rule: free_nats_loop.induct)
  case (2 nr nm)
  show ?case
  proof (cases "nat_entries nm")
    case (Cons ne rest)
    have "ne \<in> set (nat_entries nm)" using Cons by simp
    note d = del_clean [OF 2(2) this]
    have loop: "free_nats_loop nr (del_from_nat_cache ne nm) = (k, nm')" using 2(3) Cons by simp
    from 2(1) [OF Cons d(1) loop] show ?thesis using d(2,3,4,6,7) by simp
  qed (use 2 in simp)
qed simp

text \<open>Shrinking the cache never loses anything.\<close>

lemma try_to_free_nats_ok:
  assumes "nat_inv nm" "try_to_free_nats locked nr nm = (k, nm')"
  shows "nat_inv nm' \<and> nat_view nm' = nat_view nm \<and> same_disk nm' nm \<and> nm_bug nm' = nm_bug nm \<and> nm_cache.more nm' = nm_cache.more nm \<and>
    nat_dirty nm' = nat_dirty nm \<and> k \<le> nr"
proof (cases locked)
  case True
  obtain j nm1 where l: "free_nats_loop nr nm = (j, nm1)" by fastforce
  then show ?thesis using assms(2) free_nats_loop_ok [OF assms(1) l] True by (auto simp: try_to_free_nats_def)
qed (use assms in \<open>simp add: try_to_free_nats_def\<close>)

lemma journal_lookup:
  assumes "nat_disk_ok nm"
  shows "(let i = snd (lookup_journal_in_cursum NAT_JOURNAL_ENTRIES (nm_jnl nm) nid False) in
      if i \<ge> 0 then snd (j_entries (nm_jnl nm) ! nat i)
      else get_current_nat_page (nm_area nm) (nm_meta nm) nid ! (nid - START_NID nid)) = nat_stored nm nid"
proof -
  let ?j = "nm_jnl nm"
  have ok: "jnl_ok NAT_JOURNAL_ENTRIES ?j" using assms by (simp add: nat_disk_ok_def)
  show ?thesis
  proof (cases "find (\<lambda>i. fst (j_entries ?j ! i) = nid) [0..<n_ents ?j]")
    case None
    then have "jmap ?j nid = None" using find_key(2) [OF ok, of nid] by auto
    then show ?thesis using None by (simp add: lookup_journal_in_cursum_def nat_stored_def)
  next
    case (Some i)
    then have i: "i < n_ents ?j" "fst (j_entries ?j ! i) = nid" using find_key(1) [OF ok] by blast+
    have l: "n_ents ?j \<le> length (j_entries ?j)" "distinct (map fst (take (n_ents ?j) (j_entries ?j)))" using ok by (simp_all add: jnl_ok_def)
    have "take (n_ents ?j) (j_entries ?j) ! i = (nid, snd (j_entries ?j ! i))" using i l by (metis nth_take prod.collapse)
    then have "(nid, snd (j_entries ?j ! i)) \<in> set (take (n_ents ?j) (j_entries ?j))"
      using i(1) l(1) by (metis length_take min.absorb2 nth_mem)
    then have "jmap ?j nid = Some (snd (j_entries ?j ! i))" unfolding jmap_def using l(2) by simp
    then show ?thesis using Some by (simp add: lookup_journal_in_cursum_def nat_stored_def)
  qed
qed

text \<open>Reading an entry returns what the table says and changes only what is cached.\<close>

lemma get_node_info_ok:
  assumes inv: "nat_inv nm" and nid: "nid < max_nid nm" and g: "get_node_info a i nid nm = (ni, nm')"
  shows "ni_nid ni = nid" "raw_nat_from_node_info ni = nat_view nm nid" "nat_inv nm'" "nat_view nm' = nat_view nm" "same_disk nm' nm"
    "nm_bug nm' = nm_bug nm" "nat_dirty nm' = nat_dirty nm" "nm_cache.more nm' = nm_cache.more nm"
proof -
  have wf: "nat_wf nm" and dk: "nat_disk_ok nm" using inv by (simp_all add: nat_inv_def)
  have "ni_nid ni = nid \<and> raw_nat_from_node_info ni = nat_view nm nid \<and> nat_inv nm' \<and> nat_view nm' = nat_view nm \<and> same_disk nm' nm \<and>
    nm_bug nm' = nm_bug nm \<and> nat_dirty nm' = nat_dirty nm \<and> nm_cache.more nm' = nm_cache.more nm"
  proof (cases "nat_root nm nid")
    case (Some e)
    then show ?thesis using g inv by (auto simp: get_node_info_def nat_view_def raw_nat_from_node_info_def)
  next
    case None
    let ?st = "nat_stored nm nid" and ?ni = "\<lparr>ni_nid = nid, ni_ino = 0, blk_addr = 0, version = 0, ni_flag = 0\<rparr>"
    have eq: "ni = node_info_from_raw_nat ?st ?ni \<and> nm' = cache_nat_entry a i nid ?st nm"
      using g journal_lookup [OF dk, of nid] None by (auto simp: get_node_info_def Let_def)
    have v: "nat_view nm nid = ?st" using None by (simp add: nat_view_def)
    show ?thesis
    proof (cases "a \<and> i")
      case False
      then show ?thesis using eq None inv v by (auto simp: cache_nat_entry_def)
    next
      case True
      then have nm': "nm' = init_nat_entry (alloc_nat_entry nid) (Some ?st) nm" using eq None by (simp add: cache_nat_entry_def)
      note I = init_wf [OF wf None nid, of "alloc_nat_entry nid" "Some ?st", folded nm', simplified]
      have st: "nat_stored nm' = nat_stored nm" using same_diskD I(4) by blast
      have iv: "nat_inv nm'"
      proof (rule nat_invI [OF I(1) I(4) inv])
        fix x e assume "nat_root nm' x = Some e" "\<not> nat_dirty nm' x"
        then show "raw_nat_from_node_info e = nat_stored nm x"
          using nat_inv_agree [OF inv, of x e] I(3) by (auto simp: I(2) split: if_splits)
      qed
      have "nat_view nm' x = nat_view nm x" for x
        using v st None by (cases "x = nid") (simp_all add: nat_view_def I(2) split: option.split)
      then show ?thesis using eq I iv v by auto
    qed
  qed
  then show "ni_nid ni = nid" "raw_nat_from_node_info ni = nat_view nm nid" "nat_inv nm'" "nat_view nm' = nat_view nm" "same_disk nm' nm"
    "nm_bug nm' = nm_bug nm" "nat_dirty nm' = nat_dirty nm" "nm_cache.more nm' = nm_cache.more nm" by blast+
qed

text \<open>
  The moves of a node: it gets a new address only after none, a place on disk from any state, and none only if it had one.
\<close>

definition addr_move_ok :: "nat \<Rightarrow> nat \<Rightarrow> bool" where
  "addr_move_ok old new \<longleftrightarrow> (new = NEW_ADDR \<longrightarrow> old = NULL_ADDR) \<and> (new = NULL_ADDR \<longrightarrow> old \<noteq> NULL_ADDR)"

definition moved_entry :: "node_info \<Rightarrow> nat \<Rightarrow> f2fs_nat_entry" where
  "moved_entry ni new =
     \<lparr>rn_version = version ni + (if blk_addr ni \<noteq> NEW_ADDR \<and> new = NULL_ADDR then 1 else 0), rn_ino = ni_ino ni, block_addr = new\<rparr>"

lemma nm_bug_on_False [simp]: "nm_bug_on False nm = nm"
  by (simp add: nm_bug_on_def)

lemma addr_consts [simp]: "NULL_ADDR \<noteq> NEW_ADDR" "NEW_ADDR \<noteq> NULL_ADDR"
  by (simp_all add: NULL_ADDR_def NEW_ADDR_def)

text \<open>The entry the function works on, cached if it was not.\<close>

lemma set_node_addr_entry:
  assumes inv: "nat_inv nm" and nid: "ni_nid ni < max_nid nm" and blk: "blk_addr ni = block_addr (nat_view nm (ni_nid ni))"
    and same: "new \<noteq> NEW_ADDR \<Longrightarrow> raw_nat_from_node_info ni = nat_view nm (ni_nid ni)" and mv: "addr_move_ok (blk_addr ni) new"
  defines "nid \<equiv> ni_nid ni"
  defines "en \<equiv> (case nat_root nm nid of
                       None \<Rightarrow> (copy_node_info ni (alloc_nat_entry nid), nm_bug_on (blk_addr ni = NEW_ADDR) (init_nat_entry (alloc_nat_entry nid) None nm))
                     | Some e \<Rightarrow> if new = NEW_ADDR then (copy_node_info ni e, nm_bug_on (blk_addr ni \<noteq> NULL_ADDR) nm) else (e, nm))"
  shows "\<exists>e0 e nm1. en = (e, nm1) \<and> nat_wf nm1 \<and> nat_root nm1 nid = Some e0 \<and> (\<forall>x. x \<noteq> nid \<longrightarrow> nat_root nm1 x = nat_root nm x) \<and>
    get_nat_flag e IS_DIRTY = get_nat_flag e0 IS_DIRTY \<and> ni_nid e = nid \<and> raw_nat_from_node_info e = raw_nat_from_node_info ni \<and>
    same_disk nm1 nm \<and> nm_bug nm1 = nm_bug nm \<and> nm_cache.more nm1 = nm_cache.more nm"
proof (cases "nat_root nm nid")
  case None
  have wf: "nat_wf nm" and dk: "nat_disk_ok nm" using inv by (simp_all add: nat_inv_def)
  have "block_addr (nat_stored nm nid) \<noteq> NEW_ADDR" using stored_not_new [OF dk] nid by (simp add: nid_def)
  then have nn: "blk_addr ni \<noteq> NEW_ADDR" using blk None by (simp add: nat_view_def nid_def)
  have lt: "nid < max_nid nm" using nid by (simp add: nid_def)
  note I = init_wf [OF wf None lt, of "alloc_nat_entry nid" None, simplified]
  have "en = (copy_node_info ni (alloc_nat_entry nid), init_nat_entry (alloc_nat_entry nid) None nm)" using nn None by (simp add: en_def)
  then show ?thesis using I by (auto simp: nid_def)
next
  case (Some e)
  have wf: "nat_wf nm" using inv by (simp add: nat_inv_def)
  have ne: "ni_nid e = nid" using nat_wfD(1) [OF wf Some] by blast
  show ?thesis
  proof (cases "new = NEW_ADDR")
    case True
    then have "blk_addr ni = NULL_ADDR" using mv by (simp add: addr_move_ok_def)
    then have "en = (copy_node_info ni e, nm)" using True Some by (simp add: en_def)
    then show ?thesis using wf Some by (auto simp: nid_def)
  next
    case False
    then have "en = (e, nm)" using Some by (simp add: en_def)
    moreover have "raw_nat_from_node_info e = raw_nat_from_node_info ni" using same [OF False] Some by (simp add: nat_view_def nid_def)
    ultimately show ?thesis using wf Some ne by auto
  qed
qed

lemma set_node_addr_ok:
  fixes fsync :: bool
  assumes inv: "nat_inv nm" and nid: "ni_nid ni < max_nid nm" and blk: "blk_addr ni = block_addr (nat_view nm (ni_nid ni))"
    and same: "new \<noteq> NEW_ADDR \<Longrightarrow> raw_nat_from_node_info ni = nat_view nm (ni_nid ni)" and mv: "addr_move_ok (blk_addr ni) new"
  defines "nm' \<equiv> set_node_addr ni new fsync nm"
  shows "nat_inv nm'" "nat_view nm' = (nat_view nm)(ni_nid ni := moved_entry ni new)" "same_disk nm' nm" "nm_bug nm' = nm_bug nm"
    "nm_cache.more nm' = nm_cache.more nm" "nat_dirty nm' x = (x = ni_nid ni \<or> nat_dirty nm x)"
proof -
  define n where "n = ni_nid ni"
  obtain e0 e nm1 where en: "(case nat_root nm n of
                       None \<Rightarrow> (copy_node_info ni (alloc_nat_entry n), nm_bug_on (blk_addr ni = NEW_ADDR) (init_nat_entry (alloc_nat_entry n) None nm))
                     | Some e \<Rightarrow> if new = NEW_ADDR then (copy_node_info ni e, nm_bug_on (blk_addr ni \<noteq> NULL_ADDR) nm) else (e, nm)) = (e, nm1)"
    and wf1: "nat_wf nm1" and r1: "nat_root nm1 n = Some e0" "\<And>x. x \<noteq> n \<Longrightarrow> nat_root nm1 x = nat_root nm x"
    and e: "get_nat_flag e IS_DIRTY = get_nat_flag e0 IS_DIRTY" "ni_nid e = n" "raw_nat_from_node_info e = raw_nat_from_node_info ni"
    and sd1: "same_disk nm1 nm" "nm_bug nm1 = nm_bug nm" "nm_cache.more nm1 = nm_cache.more nm"
    using set_node_addr_entry [OF inv nid blk same mv, folded n_def] by blast
  have ef: "blk_addr e = blk_addr ni" "version e = version ni" "ni_ino e = ni_ino ni" using e(3) by (simp_all add: raw_nat_from_node_info_def)
  define e1 where "e1 = (if blk_addr e \<noteq> NEW_ADDR \<and> new = NULL_ADDR then e\<lparr>version := version e + 1\<rparr> else e)"
  define e2 where "e2 = (if new = NEW_ADDR \<or> new = NULL_ADDR then set_nat_flag IS_CHECKPOINTED False (e1\<lparr>blk_addr := new\<rparr>) else e1\<lparr>blk_addr := new\<rparr>)"
  have raw2: "raw_nat_from_node_info e2 = moved_entry ni new"
    using ef by (auto simp: e2_def e1_def moved_entry_def) (auto simp: raw_nat_from_node_info_def)
  have fl: "get_nat_flag (y\<lparr>blk_addr := b\<rparr>) t = get_nat_flag y t" "get_nat_flag (y\<lparr>version := v\<rparr>) t = get_nat_flag y t" for y b v t
    by (simp_all add: get_nat_flag_def Let_def)
  have e2: "ni_nid e2 = n" "get_nat_flag e2 IS_DIRTY = get_nat_flag e0 IS_DIRTY" using e(1,2) by (auto simp: e2_def e1_def fl)
  define nm2 where "nm2 = set_nat_cache_dirty n (put_ne n e2 nm1)"
  note M = mark_wf [OF wf1 r1(1) e2, folded nm2_def]
  have d2: "nat_dirty nm2 y = (y = n \<or> nat_dirty nm y)" for y using r1(2) by (simp add: nat_dirty_def M(2))
  have bugs: "\<not> (blk_addr e \<noteq> blk_addr ni)" "\<not> (blk_addr e = NULL_ADDR \<and> new = NULL_ADDR)" "\<not> (blk_addr e = NEW_ADDR \<and> new = NEW_ADDR)"
    "\<not> (blk_addr e \<noteq> NEW_ADDR \<and> blk_addr e \<noteq> NULL_ADDR \<and> new = NEW_ADDR)" using mv ef(1) by (auto simp: addr_move_ok_def)
  have form: "nm' = (case nat_root nm2 (ni_ino ni) of None \<Rightarrow> nm2 | Some y \<Rightarrow>
      put_ne (ni_ino ni) (set_nat_flag HAS_LAST_FSYNC fsync (if fsync \<and> n = ni_ino ni then set_nat_flag HAS_FSYNCED_INODE True y else y)) nm2)"
    unfolding nm'_def set_node_addr_def Let_def n_def [symmetric] en prod.case nm2_def e2_def e1_def
    using bugs by (simp only: simp_thms nm_bug_on_False)
  have fin: "nat_wf nm' \<and> nat_dirty nm' = nat_dirty nm2 \<and> same_disk nm' nm2 \<and> nm_bug nm' = nm_bug nm2 \<and> nm_cache.more nm' = nm_cache.more nm2 \<and>
    (\<forall>y. map_option raw_nat_from_node_info (nat_root nm' y) = map_option raw_nat_from_node_info (nat_root nm2 y))"
  proof (cases "nat_root nm2 (ni_ino ni)")
    case None
    then show ?thesis using M(1) by (simp add: form)
  next
    case (Some y)
    let ?y = "set_nat_flag HAS_LAST_FSYNC fsync (if fsync \<and> n = ni_ino ni then set_nat_flag HAS_FSYNCED_INODE True y else y)"
    have "nm' = put_ne (ni_ino ni) ?y nm2" using Some by (simp add: form)
    moreover have "ni_nid ?y = ni_ino ni" "get_nat_flag ?y IS_DIRTY = get_nat_flag y IS_DIRTY" "blk_addr ?y = blk_addr y"
      "raw_nat_from_node_info ?y = raw_nat_from_node_info y" using nat_wfD(1) [OF M(1) Some] by auto
    ultimately show ?thesis using put_ne_wf [OF M(1) Some, of ?y] Some by (auto simp: put_ne_def)
  qed
  have sd: "same_disk nm' nm" using fin M(3) sd1(1) by simp
  show "same_disk nm' nm" "nm_bug nm' = nm_bug nm" "nm_cache.more nm' = nm_cache.more nm" using sd fin M(4,5) sd1(2,3) by simp_all
  show "nat_dirty nm' x = (x = ni_nid ni \<or> nat_dirty nm x)" using fin d2 by (simp add: n_def)
  have rt: "map_option raw_nat_from_node_info (nat_root nm' y) =
      (if y = n then Some (moved_entry ni new) else map_option raw_nat_from_node_info (nat_root nm y))" for y
    using fin raw2 r1(2) [of y] by (simp add: M(2))
  show "nat_inv nm'"
  proof (rule nat_invI [OF _ sd inv])
    show "nat_wf nm'" using fin by blast
    fix y z assume y: "nat_root nm' y = Some z" "\<not> nat_dirty nm' y"
    then have "y \<noteq> n" "\<not> nat_dirty nm y" using fin d2 by simp_all
    then obtain z' where "nat_root nm y = Some z'" "raw_nat_from_node_info z = raw_nat_from_node_info z'"
      using rt [of y] y by (cases "nat_root nm y") auto
    then show "raw_nat_from_node_info z = nat_stored nm y" using nat_inv_agree [OF inv] \<open>\<not> nat_dirty nm y\<close> by metis
  qed
  have st: "nat_stored nm' = nat_stored nm" using same_diskD [OF sd] by blast
  show "nat_view nm' = (nat_view nm)(ni_nid ni := moved_entry ni new)"
  proof
    fix y show "nat_view nm' y = ((nat_view nm)(ni_nid ni := moved_entry ni new)) y"
      using rt [of y] st by (auto simp: nat_view_def n_def split: option.splits if_splits)
  qed
qed

end
