(* ===== verification/Free_Nids.thy ===== *)
theory Free_Nids
  imports Nat_Cache
begin

text \<open>
  Free node ids (\<^verbatim>\<open>node.c\<close>): the list of free ids found so far, the ids handed out but not yet used, and
  bitmaps of the free ids of every table block that has been scanned. Free ids are found by scanning table blocks and
  the journal. The invariant \<open>fn_inv\<close> says that an id on the free list is free on disk and has no pending change.

  Operations run one at a time under their locks; \<^verbatim>\<open>on_build_free_nids\<close> is then false in \<^verbatim>\<open>alloc_nid\<close>. Readahead is left out.
\<close>

section \<open>State\<close>

datatype nid_state = FREE_NID | PREALLOC_NID

record nm_info = nm_cache +
  free_nid_root :: "nat \<rightharpoonup> nid_state"
  free_nid_list :: "nat list"
  nid_cnt :: "nid_state \<Rightarrow> int"
  available_nids :: int
  nat_block_bitmap :: "u8 list"
  free_nid_bitmap :: "u8 list list"
  free_nid_count :: "int list"
  next_scan_nid :: nat
  nat_blocks :: nat
  empty_nat_bits :: "u8 list"
  full_nat_bits :: "u8 list"
  CP_NAT_BITS_FLAG :: bool

definition FREE_NID_PAGES :: nat where "FREE_NID_PAGES = 8"
definition MAX_FREE_NIDS :: nat where "MAX_FREE_NIDS = NAT_ENTRY_PER_BLOCK * FREE_NID_PAGES"

section \<open>The free list\<close>

text \<open>Inserting fails only when the id is there already: the memory was reserved before.\<close>

definition insert_free_nid :: "nat \<Rightarrow> nid_state \<Rightarrow> nid_state \<Rightarrow> nm_info \<Rightarrow> bool \<times> nm_info" where
  "insert_free_nid nid istate state nm =
     (if free_nid_root nm nid \<noteq> None then (True, nm)
      else
        let nm = nm_bug_on (state \<noteq> istate) (nm\<lparr>free_nid_root := (free_nid_root nm)(nid \<mapsto> istate)\<rparr>);
            nm = nm\<lparr>nid_cnt := (nid_cnt nm)(state := nid_cnt nm state + 1)\<rparr>
        in (False, if state = FREE_NID then nm\<lparr>free_nid_list := free_nid_list nm @ [nid]\<rparr> else nm))"

text \<open>Removing an id that is there (\<^verbatim>\<open>__remove_free_nid\<close>).\<close>

definition remove_nid :: "nat \<Rightarrow> nid_state \<Rightarrow> nm_info \<Rightarrow> nm_info" where
  "remove_nid nid state nm =
     (let nm = nm_bug_on (free_nid_root nm nid \<noteq> Some state) nm;
          nm = nm\<lparr>nid_cnt := (nid_cnt nm)(state := nid_cnt nm state - 1)\<rparr>;
          nm = (if state = FREE_NID then nm\<lparr>free_nid_list := removeAll nid (free_nid_list nm)\<rparr> else nm)
      in nm\<lparr>free_nid_root := (free_nid_root nm)(nid := None)\<rparr>)"

definition move_free_nid :: "nat \<Rightarrow> nid_state \<Rightarrow> nid_state \<Rightarrow> nm_info \<Rightarrow> nm_info" where
  "move_free_nid nid org_state dst_state nm =
     (let nm = nm_bug_on (free_nid_root nm nid \<noteq> Some org_state) nm;
          nm = nm\<lparr>free_nid_root := (free_nid_root nm)(nid \<mapsto> dst_state)\<rparr>;
          nm = nm\<lparr>nid_cnt := (nid_cnt nm)(org_state := nid_cnt nm org_state - 1)\<rparr>;
          nm = nm\<lparr>nid_cnt := (nid_cnt nm)(dst_state := nid_cnt nm dst_state + 1)\<rparr>
      in case dst_state of
           PREALLOC_NID \<Rightarrow> nm\<lparr>free_nid_list := removeAll nid (free_nid_list nm)\<rparr>
         | FREE_NID \<Rightarrow> nm\<lparr>free_nid_list := free_nid_list nm @ [nid]\<rparr>)"

definition update_free_nid_bitmap :: "nat \<Rightarrow> bool \<Rightarrow> bool \<Rightarrow> nm_info \<Rightarrow> nm_info" where
  "update_free_nid_bitmap nid on build nm =
     (let nat_ofs = NAT_BLOCK_OFFSET nid;
          nid_ofs = nid - START_NID nid;
          map = free_nid_bitmap nm ! nat_ofs;
          cnt = free_nid_count nm ! nat_ofs
      in if \<not> test_bit_le nat_ofs (nat_block_bitmap nm) then nm
         else if on then
           (if test_bit_le nid_ofs map then nm
            else nm\<lparr>free_nid_bitmap := (free_nid_bitmap nm)[nat_ofs := set_bit_le nid_ofs map],
                    free_nid_count := (free_nid_count nm)[nat_ofs := cnt + 1]\<rparr>)
         else
           (if \<not> test_bit_le nid_ofs map then nm
            else nm\<lparr>free_nid_bitmap := (free_nid_bitmap nm)[nat_ofs := clear_bit_le nid_ofs map],
                    free_nid_count := (if build then free_nid_count nm else (free_nid_count nm)[nat_ofs := cnt - 1])\<rparr>))"

definition add_free_nid :: "nat \<Rightarrow> bool \<Rightarrow> bool \<Rightarrow> nm_info \<Rightarrow> bool \<times> nm_info" where
  "add_free_nid nid build update nm =
     (if nid = 0 then (False, nm)
      else
        let (ret, nm) =
          (if build \<and> (case nat_root nm nid of Some ne \<Rightarrow> \<not> get_nat_flag ne IS_CHECKPOINTED \<or> blk_addr ne \<noteq> NULL_ADDR | None \<Rightarrow> False)
           then (False, nm)
           else if build \<and> free_nid_root nm nid \<noteq> None then (free_nid_root nm nid = Some FREE_NID, nm)
           else (True, snd (insert_free_nid nid FREE_NID FREE_NID nm)));
            nm = (if update then
                    let nm = update_free_nid_bitmap nid ret build nm
                    in if \<not> build then nm\<lparr>available_nids := available_nids nm + 1\<rparr> else nm
                  else nm)
        in (ret, nm))"

definition remove_free_nid :: "nat \<Rightarrow> nm_info \<Rightarrow> nm_info" where
  "remove_free_nid nid nm = (if free_nid_root nm nid = Some FREE_NID then remove_nid nid FREE_NID nm else nm)"

section \<open>Finding free ids\<close>

fun scan_nat_loop :: "f2fs_nat_entry list \<Rightarrow> nat \<Rightarrow> nm_info \<Rightarrow> nm_info" where
  "scan_nat_loop [] start_nid nm = nm"
| "scan_nat_loop (e # es) start_nid nm =
     (if start_nid \<ge> max_nid nm then nm
      else
        let nm = nm_bug_on (block_addr e = NEW_ADDR) nm;
            nm = (if block_addr e = NULL_ADDR then snd (add_free_nid start_nid True True nm)
                  else update_free_nid_bitmap start_nid False True nm)
        in scan_nat_loop es (start_nid + 1) nm)"

definition scan_nat_page :: "f2fs_nat_entry list \<Rightarrow> nat \<Rightarrow> nm_info \<Rightarrow> nm_info" where
  "scan_nat_page page start_nid nm =
     (let nm = nm\<lparr>nat_block_bitmap := set_bit_le (NAT_BLOCK_OFFSET start_nid) (nat_block_bitmap nm)\<rparr>;
          i = start_nid mod NAT_ENTRY_PER_BLOCK
      in scan_nat_loop (drop i (take NAT_ENTRY_PER_BLOCK page)) start_nid nm)"

definition scan_journal_entry :: "nat \<times> f2fs_nat_entry \<Rightarrow> nm_info \<Rightarrow> nm_info" where
  "scan_journal_entry ke nm =
     (case ke of (nid, e) \<Rightarrow> if block_addr e = NULL_ADDR then snd (add_free_nid nid True False nm) else remove_free_nid nid nm)"

definition scan_curseg_cache :: "nm_info \<Rightarrow> nm_info" where
  "scan_curseg_cache nm = fold scan_journal_entry (take (n_ents (nm_jnl nm)) (j_entries (nm_jnl nm))) nm"

fun scan_bits_loop :: "nat list \<Rightarrow> nm_info \<Rightarrow> bool \<times> nm_info" where
  "scan_bits_loop [] nm = (False, nm)"
| "scan_bits_loop (nid # nids) nm =
     (let nm = snd (add_free_nid nid True False nm)
      in if nid_cnt nm FREE_NID \<ge> int MAX_FREE_NIDS then (True, nm) else scan_bits_loop nids nm)"

definition set_bits_of :: "nm_info \<Rightarrow> nat \<Rightarrow> nat list" where
  "set_bits_of nm i =
     map (\<lambda>idx. i * NAT_ENTRY_PER_BLOCK + idx) (filter (\<lambda>idx. test_bit_le idx (free_nid_bitmap nm ! i)) [0..<NAT_ENTRY_PER_BLOCK])"

fun scan_blocks_loop :: "nat list \<Rightarrow> nm_info \<Rightarrow> nm_info" where
  "scan_blocks_loop [] nm = nm"
| "scan_blocks_loop (i # is) nm =
     (if \<not> test_bit_le i (nat_block_bitmap nm) then scan_blocks_loop is nm
      else if free_nid_count nm ! i = 0 then scan_blocks_loop is nm
      else case scan_bits_loop (set_bits_of nm i) nm of (out, nm) \<Rightarrow> if out then nm else scan_blocks_loop is nm)"

definition scan_free_nid_bits :: "nm_info \<Rightarrow> nm_info" where
  "scan_free_nid_bits nm = scan_curseg_cache (scan_blocks_loop [0..<nat_blocks nm] nm)"

fun build_pages_loop :: "nat \<Rightarrow> nat \<Rightarrow> nm_info \<Rightarrow> nat \<times> nm_info" where
  "build_pages_loop 0 nid nm = (nid, nm)"
| "build_pages_loop (Suc n) nid nm =
     (let nm = (if \<not> test_bit_le (NAT_BLOCK_OFFSET nid) (nat_block_bitmap nm)
                then scan_nat_page (get_current_nat_page (nm_area nm) (nm_meta nm) nid) nid nm else nm);
          nid = nid + (NAT_ENTRY_PER_BLOCK - nid mod NAT_ENTRY_PER_BLOCK);
          nid = (if nid \<ge> max_nid nm then 0 else nid)
      in build_pages_loop n nid nm)"

text \<open>\<open>mem_ok\<close> is what \<^verbatim>\<open>available_free_memory\<close> says.\<close>

definition build_free_nids :: "bool \<Rightarrow> bool \<Rightarrow> bool \<Rightarrow> nm_info \<Rightarrow> nm_info" where
  "build_free_nids mem_ok sync mount nm =
     (let nid = (if next_scan_nid nm \<ge> max_nid nm then 0 else next_scan_nid nm) in
      if nid_cnt nm FREE_NID \<ge> int NAT_ENTRY_PER_BLOCK then nm
      else if \<not> sync \<and> \<not> mem_ok then nm
      else
        let nm = (if \<not> mount then scan_free_nid_bits nm else nm) in
        if \<not> mount \<and> nid_cnt nm FREE_NID \<ge> int NAT_ENTRY_PER_BLOCK then nm
        else case build_pages_loop FREE_NID_PAGES nid nm of (nid, nm) \<Rightarrow> scan_curseg_cache (nm\<lparr>next_scan_nid := nid\<rparr>))"

section \<open>Handing out ids\<close>

text \<open>
  The loop retries as long as scanning finds no free id: not returning is \<open>None\<close>. Faults are injected at the first try.
\<close>

partial_function (option) alloc_nid :: "bool \<Rightarrow> nm_info \<Rightarrow> (nat option \<times> nm_info) option" where
  "alloc_nid inject nm =
     (if inject then Some (None, nm)
      else if available_nids nm = 0 then Some (None, nm)
      else if nid_cnt nm FREE_NID \<noteq> 0 then
        (let nm = nm_bug_on (free_nid_list nm = []) nm;
             nid = hd (free_nid_list nm);
             nm = move_free_nid nid FREE_NID PREALLOC_NID nm;
             nm = nm\<lparr>available_nids := available_nids nm - 1\<rparr>;
             nm = update_free_nid_bitmap nid False False nm
         in Some (Some nid, nm))
      else alloc_nid False (build_free_nids True True False nm))"

definition alloc_nid_done :: "nat \<Rightarrow> nm_info \<Rightarrow> nm_info" where
  "alloc_nid_done nid nm = remove_nid nid PREALLOC_NID (nm_bug_on (free_nid_root nm nid = None) nm)"

definition alloc_nid_failed :: "bool \<Rightarrow> nat \<Rightarrow> nm_info \<Rightarrow> nm_info" where
  "alloc_nid_failed mem_ok nid nm =
     (if nid = 0 then nm
      else
        let nm = nm_bug_on (free_nid_root nm nid = None) nm;
            nm = (if \<not> mem_ok then remove_nid nid PREALLOC_NID nm else move_free_nid nid PREALLOC_NID FREE_NID nm);
            nm = nm\<lparr>available_nids := available_nids nm + 1\<rparr>
        in update_free_nid_bitmap nid True False nm)"

fun free_nids_loop :: "nat list \<Rightarrow> int \<Rightarrow> nm_info \<Rightarrow> int \<times> nm_info" where
  "free_nids_loop [] nr nm = (nr, nm)"
| "free_nids_loop (i # is) nr nm =
     (if nr \<le> 0 \<or> nid_cnt nm FREE_NID \<le> int MAX_FREE_NIDS then (nr, nm)
      else free_nids_loop is (nr - 1) (remove_nid i FREE_NID nm))"

definition try_to_free_nids :: "bool \<Rightarrow> int \<Rightarrow> nm_info \<Rightarrow> int \<times> nm_info" where
  "try_to_free_nids locked nr nm =
     (if nid_cnt nm FREE_NID \<le> int MAX_FREE_NIDS then (0, nm)
      else if \<not> locked then (0, nm)
      else case free_nids_loop (free_nid_list nm) nr nm of (nr_shrink, nm) \<Rightarrow> (nr - nr_shrink, nm))"

section \<open>Invariant\<close>

definition nid_bit :: "nm_info \<Rightarrow> nat \<Rightarrow> bool" where
  "nid_bit nm nid = test_bit_le (nid mod NAT_ENTRY_PER_BLOCK) (free_nid_bitmap nm ! (nid div NAT_ENTRY_PER_BLOCK))"

text \<open>The list, the tree and the counters agree.\<close>

definition fl_ok :: "nm_info \<Rightarrow> bool" where
  "fl_ok nm \<longleftrightarrow> distinct (free_nid_list nm) \<and> set (free_nid_list nm) = {nid. free_nid_root nm nid = Some FREE_NID} \<and>
     nid_cnt nm FREE_NID = int (length (free_nid_list nm)) \<and>
     nid_cnt nm PREALLOC_NID = int (card {nid. free_nid_root nm nid = Some PREALLOC_NID}) \<and>
     dom (free_nid_root nm) \<subseteq> {0<..<max_nid nm}"

text \<open>The bitmaps have the size of the table, count their bits, and have no bits for blocks that were not scanned.\<close>

definition bm_ok :: "nm_info \<Rightarrow> bool" where
  "bm_ok nm \<longleftrightarrow> max_nid nm = nat_blocks nm * NAT_ENTRY_PER_BLOCK \<and> nat_blocks nm \<le> 8 * length (nat_block_bitmap nm) \<and>
     length (free_nid_bitmap nm) = nat_blocks nm \<and> length (free_nid_count nm) = nat_blocks nm \<and>
     (\<forall>b < nat_blocks nm. NAT_ENTRY_PER_BLOCK \<le> 8 * length (free_nid_bitmap nm ! b) \<and>
        free_nid_count nm ! b = int (bit_count (\<lambda>i. test_bit_le i (free_nid_bitmap nm ! b)) NAT_ENTRY_PER_BLOCK) \<and>
        (\<not> test_bit_le b (nat_block_bitmap nm) \<longrightarrow> (\<forall>i. \<not> test_bit_le i (free_nid_bitmap nm ! b))))"

text \<open>An id is free: the disk has no address for it and no change of it is pending.\<close>

definition nid_free :: "'z nm_cache_scheme \<Rightarrow> nat \<Rightarrow> bool" where
  "nid_free nm nid \<longleftrightarrow> \<not> nat_dirty nm nid \<and> block_addr (nat_stored nm nid) = NULL_ADDR"

definition in_journal :: "'z nm_cache_scheme \<Rightarrow> nat \<Rightarrow> bool" where
  "in_journal nm nid \<longleftrightarrow> (case jmap (nm_jnl nm) nid of Some e \<Rightarrow> block_addr e \<noteq> NULL_ADDR | None \<Rightarrow> False)"

definition bits_ok :: "nm_info \<Rightarrow> bool" where
  "bits_ok nm \<longleftrightarrow> (\<forall>nid < max_nid nm. nid_bit nm nid \<longrightarrow> nat_dirty nm nid \<or> in_journal nm nid \<or> block_addr (nat_stored nm nid) = NULL_ADDR)"

text \<open>A removed node is not checkpointed: its id comes back only through a flush.\<close>

definition ckpt_ok :: "'z nm_cache_scheme \<Rightarrow> bool" where
  "ckpt_ok nm \<longleftrightarrow> (\<forall>nid e. nat_root nm nid = Some e \<longrightarrow> get_nat_flag e IS_DIRTY \<longrightarrow> get_nat_flag e IS_CHECKPOINTED \<longrightarrow> blk_addr e \<noteq> NULL_ADDR)"

definition free_list_safe :: "nm_info \<Rightarrow> bool" where
  "free_list_safe nm \<longleftrightarrow> (\<forall>nid. free_nid_root nm nid = Some FREE_NID \<longrightarrow> nid_free nm nid)"

definition fn_inv :: "nm_info \<Rightarrow> bool" where
  "fn_inv nm \<longleftrightarrow> nat_inv nm \<and> fl_ok nm \<and> bm_ok nm \<and> bits_ok nm \<and> ckpt_ok nm \<and> free_list_safe nm \<and> \<not> nm_bug nm"

text \<open>While blocks are scanned the list may hold ids that the journal says are in use.\<close>

definition scan_inv :: "nm_info \<Rightarrow> bool" where
  "scan_inv nm \<longleftrightarrow> nat_inv nm \<and> fl_ok nm \<and> bm_ok nm \<and> bits_ok nm \<and> ckpt_ok nm \<and> \<not> nm_bug nm \<and>
     (\<forall>nid. free_nid_root nm nid = Some FREE_NID \<longrightarrow> in_journal nm nid \<or> nid_free nm nid)"

text \<open>The operations on the free list leave the cache and the disk alone.\<close>

abbreviation same_cache :: "nm_info \<Rightarrow> nm_info \<Rightarrow> bool" where
  "same_cache nm' nm \<equiv> nm_cache.truncate nm' = nm_cache.truncate nm"

lemma same_cacheD:
  assumes "same_cache nm' nm"
  shows "nat_root nm' = nat_root nm" "same_disk nm' nm" "nm_bug nm' = nm_bug nm" "nat_inv nm' = nat_inv nm" "nat_dirty nm' = nat_dirty nm"
    "nat_stored nm' = nat_stored nm" "nat_view nm' = nat_view nm" "nid_free nm' = nid_free nm" "in_journal nm' = in_journal nm"
    "ckpt_ok nm' = ckpt_ok nm"
proof -
  have f: "nat_root nm' = nat_root nm" "nat_entries nm' = nat_entries nm" "nat_cnt nm' = nat_cnt nm" "nat_set_root nm' = nat_set_root nm"
    "dirty_nat_cnt nm' = dirty_nat_cnt nm" "same_disk nm' nm" "nm_bug nm' = nm_bug nm"
    using assms by (auto simp: nm_cache.truncate_def)
  show "nat_root nm' = nat_root nm" "same_disk nm' nm" "nm_bug nm' = nm_bug nm" using f by simp_all
  show d: "nat_dirty nm' = nat_dirty nm" using f(1) by (intro ext) (simp add: nat_dirty_def)
  have n: "nat_new nm' = nat_new nm" using f(1) by (intro ext) (simp add: nat_new_def)
  have s: "nat_stored nm' = nat_stored nm" "nat_disk_ok nm' = nat_disk_ok nm" using same_diskD [OF f(6)] by blast+
  show "nat_stored nm' = nat_stored nm" by (rule s(1))
  show "nat_view nm' = nat_view nm" using s(1) f(1) by (intro ext) (simp add: nat_view_def split: option.split)
  have "nat_wf nm' = nat_wf nm" using f d n by (simp add: nat_wf_def)
  then show "nat_inv nm' = nat_inv nm" using s d f(1) by (simp add: nat_inv_def)
  show "nid_free nm' = nid_free nm" using d s by (intro ext) (simp add: nid_free_def)
  show "in_journal nm' = in_journal nm" using f(6) by (intro ext) (simp add: in_journal_def)
  show "ckpt_ok nm' = ckpt_ok nm" using f(1) by (simp add: ckpt_ok_def)
qed

section \<open>The bitmaps\<close>

lemma NEPB: "NAT_ENTRY_PER_BLOCK > 0" "nid - START_NID nid = nid mod NAT_ENTRY_PER_BLOCK" "NAT_BLOCK_OFFSET nid = nid div NAT_ENTRY_PER_BLOCK"
  by (simp_all add: NAT_ENTRY_PER_BLOCK_def START_NID_def NAT_BLOCK_OFFSET_def minus_div_mult_eq_mod)

lemma same_slot: "(x::nat) div n = y div n \<Longrightarrow> x mod n = y mod n \<Longrightarrow> x = y"
  by (metis div_mult_mod_eq)

definition same_lists :: "nm_info \<Rightarrow> nm_info \<Rightarrow> bool" where
  "same_lists nm' nm \<longleftrightarrow> free_nid_root nm' = free_nid_root nm \<and> free_nid_list nm' = free_nid_list nm \<and> nid_cnt nm' = nid_cnt nm"

definition same_maps :: "nm_info \<Rightarrow> nm_info \<Rightarrow> bool" where
  "same_maps nm' nm \<longleftrightarrow> nat_block_bitmap nm' = nat_block_bitmap nm \<and> free_nid_bitmap nm' = free_nid_bitmap nm \<and>
     free_nid_count nm' = free_nid_count nm \<and> nat_blocks nm' = nat_blocks nm"

lemma same_listsD: "same_cache nm' nm \<Longrightarrow> same_lists nm' nm \<Longrightarrow> fl_ok nm' = fl_ok nm"
proof -
  assume c: "same_cache nm' nm" and l: "same_lists nm' nm"
  have "max_nid nm' = max_nid nm" using same_cacheD(2) [OF c] by blast
  then show ?thesis using l unfolding same_lists_def fl_ok_def by (elim conjE) (simp only:)
qed

lemma same_mapsD: "same_cache nm' nm \<Longrightarrow> same_maps nm' nm \<Longrightarrow> bm_ok nm' = bm_ok nm \<and> nid_bit nm' = nid_bit nm \<and> bits_ok nm' = bits_ok nm"
proof -
  assume c: "same_cache nm' nm" and m: "same_maps nm' nm"
  note d = same_cacheD(5,6,9) [OF c]
  have x: "max_nid nm' = max_nid nm" using same_cacheD(2) [OF c] by blast
  have b: "nid_bit nm' = nid_bit nm" using m by (intro ext) (simp only: same_maps_def nid_bit_def)
  moreover have "bm_ok nm' = bm_ok nm" using m x unfolding same_maps_def bm_ok_def by (elim conjE) (simp only:)
  moreover have "bits_ok nm' = bits_ok nm" unfolding bits_ok_def b d x ..
  ultimately show ?thesis by blast
qed

lemma update_bitmap_ok:
  assumes ok: "bm_ok nm" and nid: "nid < max_nid nm" and bld: "build \<Longrightarrow> \<not> on \<Longrightarrow> \<not> nid_bit nm nid"
  defines "nm' \<equiv> update_free_nid_bitmap nid on build nm"
  shows "bm_ok nm'" "same_cache nm' nm" "same_lists nm' nm" "nid_bit nm' nid \<Longrightarrow> on"
    "x \<noteq> nid \<Longrightarrow> nid_bit nm' x = nid_bit nm x" "nat_block_bitmap nm' = nat_block_bitmap nm" "nat_blocks nm' = nat_blocks nm"
    "available_nids nm' = available_nids nm"
proof -
  let ?b = "nid div NAT_ENTRY_PER_BLOCK" and ?o = "nid mod NAT_ENTRY_PER_BLOCK"
  let ?m = "free_nid_bitmap nm ! ?b"
  have b: "?b < nat_blocks nm" using nid ok NEPB(1) by (simp add: bm_ok_def less_mult_imp_div_less)
  have o: "?o < NAT_ENTRY_PER_BLOCK" using NEPB(1) by simp
  have len: "NAT_ENTRY_PER_BLOCK \<le> 8 * length ?m" "length (free_nid_bitmap nm) = nat_blocks nm" "length (free_nid_count nm) = nat_blocks nm"
    "free_nid_count nm ! ?b = int (bit_count (\<lambda>i. test_bit_le i ?m) NAT_ENTRY_PER_BLOCK)"
    "\<not> test_bit_le ?b (nat_block_bitmap nm) \<Longrightarrow> \<not> test_bit_le i ?m" for i
    using ok b unfolding bm_ok_def by auto
  have nb: "nid_bit nm nid = test_bit_le ?o ?m" by (simp add: nid_bit_def)
  show frame: "same_cache nm' nm" "same_lists nm' nm" "nat_block_bitmap nm' = nat_block_bitmap nm" "nat_blocks nm' = nat_blocks nm"
    "available_nids nm' = available_nids nm"
    by (simp_all add: nm'_def update_free_nid_bitmap_def same_lists_def nm_cache.truncate_def Let_def)
  have new: "bm_ok nm' \<and> (nid_bit nm' nid \<longrightarrow> on) \<and> (x \<noteq> nid \<longrightarrow> nid_bit nm' x = nid_bit nm x)"
    if m': "nm' = nm\<lparr>free_nid_bitmap := (free_nid_bitmap nm)[?b := m'], free_nid_count := (free_nid_count nm)[?b := c]\<rparr>"
      and s: "test_bit_le ?b (nat_block_bitmap nm)" "length m' = length ?m" "\<And>i. test_bit_le i m' = (if i = ?o then on else test_bit_le i ?m)"
        "c = int (bit_count (\<lambda>i. test_bit_le i m') NAT_ENTRY_PER_BLOCK)" for m' c
  proof -
    have "bm_ok nm'" using ok b s len(1) unfolding bm_ok_def m' by (auto simp: nth_list_update)
    moreover have "nid_bit nm' nid \<longrightarrow> on" using b len(2) s(3) by (simp add: nid_bit_def m')
    moreover have "x \<noteq> nid \<longrightarrow> nid_bit nm' x = nid_bit nm x"
      using b len(2) s(3) same_slot [of x NAT_ENTRY_PER_BLOCK nid] by (auto simp: nid_bit_def m' nth_list_update)
    ultimately show ?thesis by blast
  qed
  have "bm_ok nm' \<and> (nid_bit nm' nid \<longrightarrow> on) \<and> (x \<noteq> nid \<longrightarrow> nid_bit nm' x = nid_bit nm x)"
  proof (cases "\<not> test_bit_le ?b (nat_block_bitmap nm) \<or> test_bit_le ?o ?m = on")
    case True
    then have "nm' = nm" by (auto simp: nm'_def update_free_nid_bitmap_def NEPB Let_def)
    then show ?thesis using ok True len(5) nb by auto
  next
    case False
    then have s: "test_bit_le ?b (nat_block_bitmap nm)" "test_bit_le ?o ?m = (\<not> on)" by auto
    have ol: "?o < 8 * length ?m" using o len(1) by simp
    show ?thesis
    proof (cases on)
      case True
      have "int (bit_count (\<lambda>i. test_bit_le i (set_bit_le ?o ?m)) NAT_ENTRY_PER_BLOCK) = free_nid_count nm ! ?b + 1"
        using lsb.count_put [OF o len(1)] s True len(4) by simp
      note cnt = this [symmetric]
      show ?thesis
      proof (rule new [OF _ s(1) _ _ cnt])
        show "nm' = nm\<lparr>free_nid_bitmap := (free_nid_bitmap nm)[?b := set_bit_le ?o ?m],
            free_nid_count := (free_nid_count nm)[?b := free_nid_count nm ! ?b + 1]\<rparr>"
          using s True by (simp add: nm'_def update_free_nid_bitmap_def NEPB Let_def)
        show "test_bit_le i (set_bit_le ?o ?m) = (if i = ?o then on else test_bit_le i ?m)" for i using lsb.tst_put [OF ol, of i] True by simp
      qed (simp add: set_bit_le_def)
    next
      case off: False
      then have nbld: "\<not> build" using bld nb s by auto
      have "bit_count (\<lambda>i. test_bit_le i ?m) NAT_ENTRY_PER_BLOCK = Suc (bit_count (\<lambda>j. j \<noteq> ?o \<and> test_bit_le j ?m) NAT_ENTRY_PER_BLOCK)"
        using bit_count_flip_off [OF o, of "\<lambda>i. test_bit_le i ?m"] s off by simp
      moreover have "(\<lambda>j. test_bit_le j (clear_bit_le ?o ?m)) = (\<lambda>j. j \<noteq> ?o \<and> test_bit_le j ?m)" using lsb.tst_clr [OF ol] by auto
      ultimately have "int (bit_count (\<lambda>i. test_bit_le i (clear_bit_le ?o ?m)) NAT_ENTRY_PER_BLOCK) = free_nid_count nm ! ?b - 1"
        using len(4) by simp
      note cnt = this [symmetric]
      show ?thesis
      proof (rule new [OF _ s(1) _ _ cnt])
        show "nm' = nm\<lparr>free_nid_bitmap := (free_nid_bitmap nm)[?b := clear_bit_le ?o ?m],
            free_nid_count := (free_nid_count nm)[?b := free_nid_count nm ! ?b - 1]\<rparr>"
          using s off nbld by (simp add: nm'_def update_free_nid_bitmap_def NEPB Let_def)
        show "test_bit_le i (clear_bit_le ?o ?m) = (if i = ?o then on else test_bit_le i ?m)" for i using lsb.tst_clr [OF ol, of i] off by simp
      qed (simp add: clear_bit_le_def)
    qed
  qed
  then show "bm_ok nm'" "nid_bit nm' nid \<Longrightarrow> on" "x \<noteq> nid \<Longrightarrow> nid_bit nm' x = nid_bit nm x" by blast+
qed

section \<open>The list operations\<close>

definition list_frame :: "nm_info \<Rightarrow> nm_info \<Rightarrow> bool" where
  "list_frame nm' nm \<longleftrightarrow> same_cache nm' nm \<and> same_maps nm' nm \<and> available_nids nm' = available_nids nm"

lemma fl_okD:
  assumes "fl_ok nm"
  shows "distinct (free_nid_list nm)" "set (free_nid_list nm) = {nid. free_nid_root nm nid = Some FREE_NID}"
    "nid_cnt nm FREE_NID = int (length (free_nid_list nm))"
    "nid_cnt nm PREALLOC_NID = int (card {nid. free_nid_root nm nid = Some PREALLOC_NID})"
    "dom (free_nid_root nm) \<subseteq> {0<..<max_nid nm}" "finite {nid. free_nid_root nm nid = Some s}"
proof -
  show "distinct (free_nid_list nm)" "set (free_nid_list nm) = {nid. free_nid_root nm nid = Some FREE_NID}"
    "nid_cnt nm FREE_NID = int (length (free_nid_list nm))"
    "nid_cnt nm PREALLOC_NID = int (card {nid. free_nid_root nm nid = Some PREALLOC_NID})"
    and d: "dom (free_nid_root nm) \<subseteq> {0<..<max_nid nm}" using assms unfolding fl_ok_def by blast+
  have "{nid. free_nid_root nm nid = Some s} \<subseteq> {0<..<max_nid nm}" using d by auto
  then show "finite {nid. free_nid_root nm nid = Some s}" using finite_subset by blast
qed

lemma insert_free_ok:
  assumes ok: "fl_ok nm" and nid: "0 < nid" "nid < max_nid nm"
  defines "nm' \<equiv> snd (insert_free_nid nid FREE_NID FREE_NID nm)"
  shows "fl_ok nm'" "list_frame nm' nm"
    "free_nid_root nm' = (if free_nid_root nm nid = None then (free_nid_root nm)(nid \<mapsto> FREE_NID) else free_nid_root nm)"
proof -
  have "fl_ok nm' \<and> list_frame nm' nm \<and>
    free_nid_root nm' = (if free_nid_root nm nid = None then (free_nid_root nm)(nid \<mapsto> FREE_NID) else free_nid_root nm)"
  proof (cases "free_nid_root nm nid")
    case (Some s)
    then show ?thesis using ok by (simp add: nm'_def insert_free_nid_def list_frame_def same_maps_def)
  next
    case None
    have f: "nm' = nm\<lparr>free_nid_root := (free_nid_root nm)(nid \<mapsto> FREE_NID), nid_cnt := (nid_cnt nm)(FREE_NID := nid_cnt nm FREE_NID + 1),
        free_nid_list := free_nid_list nm @ [nid]\<rparr>" using None by (simp add: nm'_def insert_free_nid_def Let_def)
    have p: "{x. ((free_nid_root nm)(nid \<mapsto> FREE_NID)) x = Some PREALLOC_NID} = {x. free_nid_root nm x = Some PREALLOC_NID}" using None by auto
    have "nid \<notin> set (free_nid_list nm)" using None fl_okD(2) [OF ok] by simp
    then have "fl_ok nm'" using fl_okD [OF ok] nid p None unfolding fl_ok_def by (auto simp: f)
    then show ?thesis using None by (simp add: f list_frame_def same_maps_def nm_cache.truncate_def)
  qed
  then show "fl_ok nm'" "list_frame nm' nm"
    "free_nid_root nm' = (if free_nid_root nm nid = None then (free_nid_root nm)(nid \<mapsto> FREE_NID) else free_nid_root nm)" by blast+
qed

lemma length_removeAll_distinct: "distinct xs \<Longrightarrow> x \<in> set xs \<Longrightarrow> length xs = Suc (length (removeAll x xs))"
  by (simp add: distinct_remove1_removeAll [symmetric] length_remove1) (metis Suc_pred length_pos_if_in_set)

lemma remove_nid_ok:
  assumes ok: "fl_ok nm" and r: "free_nid_root nm nid = Some s"
  defines "nm' \<equiv> remove_nid nid s nm"
  shows "fl_ok nm'" "list_frame nm' nm" "free_nid_root nm' = (free_nid_root nm)(nid := None)"
    "nid_cnt nm' FREE_NID = nid_cnt nm FREE_NID - (if s = FREE_NID then 1 else 0)"
    "free_nid_list nm' = removeAll nid (free_nid_list nm)"
proof -
  note D = fl_okD [OF ok]
  have rm: "s \<noteq> FREE_NID \<Longrightarrow> removeAll nid (free_nid_list nm) = free_nid_list nm" using D(2) r by (intro removeAll_id) auto
  have f: "nm' = nm\<lparr>nid_cnt := (nid_cnt nm)(s := nid_cnt nm s - 1), free_nid_list := removeAll nid (free_nid_list nm),
      free_nid_root := (free_nid_root nm)(nid := None)\<rparr>"
    using r rm by (auto simp: nm'_def remove_nid_def Let_def)
  have set: "{x. ((free_nid_root nm)(nid := None)) x = Some t} = {x. free_nid_root nm x = Some t} - {nid}" for t by auto
  have card: "int (card ({x. free_nid_root nm x = Some s} - {nid})) = int (card {x. free_nid_root nm x = Some s}) - 1"
    using D(6) [of s] r card.remove [of "{x. free_nid_root nm x = Some s}" nid] by simp
  have card': "card ({x. free_nid_root nm x = Some t} - {nid}) = card {x. free_nid_root nm x = Some t}" if "t \<noteq> s" for t
    using r that by (intro arg_cong [where f = card]) auto
  have lst: "int (length (removeAll nid (free_nid_list nm))) = nid_cnt nm FREE_NID - (if s = FREE_NID then 1 else 0)"
    using D(1-3) r rm length_removeAll_distinct [of "free_nid_list nm" nid] by auto
  have "set (free_nid_list nm') = {x. free_nid_root nm' x = Some FREE_NID}" unfolding f using D(2) by (auto split: if_splits)
  moreover have "nid_cnt nm' PREALLOC_NID = int (card {x. free_nid_root nm' x = Some PREALLOC_NID})"
  proof -
    have root: "free_nid_root nm' = (free_nid_root nm)(nid := None)" and cnt: "nid_cnt nm' = (nid_cnt nm)(s := nid_cnt nm s - 1)" by (simp_all add: f)
    show ?thesis unfolding root cnt set using D(4) card card' [of PREALLOC_NID] by (cases s) auto
  qed
  moreover have "dom (free_nid_root nm') \<subseteq> {0<..<max_nid nm'}" using D(5) by (auto simp: f)
  moreover have "nid_cnt nm' FREE_NID = int (length (free_nid_list nm'))" using lst by (auto simp: f)
  ultimately show "fl_ok nm'" using D(1) unfolding fl_ok_def by (simp add: f distinct_removeAll)
  show "list_frame nm' nm" "free_nid_root nm' = (free_nid_root nm)(nid := None)" "free_nid_list nm' = removeAll nid (free_nid_list nm)"
    "nid_cnt nm' FREE_NID = nid_cnt nm FREE_NID - (if s = FREE_NID then 1 else 0)"
    by (auto simp: f list_frame_def same_maps_def nm_cache.truncate_def)
qed

text \<open>Moving an id between the two states.\<close>

lemma move_nid_ok:
  assumes ok: "fl_ok nm" and r: "free_nid_root nm nid = Some s" "s \<noteq> s'"
  defines "nm' \<equiv> move_free_nid nid s s' nm"
  shows "fl_ok nm'" "list_frame nm' nm" "free_nid_root nm' = (free_nid_root nm)(nid \<mapsto> s')"
proof -
  note D = fl_okD [OF ok]
  have nid: "0 < nid" "nid < max_nid nm" using D(5) r by auto
  have set: "{x. ((free_nid_root nm)(nid \<mapsto> s')) x = Some s} = {x. free_nid_root nm x = Some s} - {nid}"
    "{x. ((free_nid_root nm)(nid \<mapsto> s')) x = Some s'} = insert nid {x. free_nid_root nm x = Some s'}" using r by auto
  have card: "int (card ({x. free_nid_root nm x = Some s} - {nid})) = int (card {x. free_nid_root nm x = Some s}) - 1"
    using D(6) [of s] r card.remove [of "{x. free_nid_root nm x = Some s}" nid] by simp
  have card': "card (insert nid {x. free_nid_root nm x = Some s'}) = Suc (card {x. free_nid_root nm x = Some s'})"
    using D(6) [of s'] r by simp
  show root: "free_nid_root nm' = (free_nid_root nm)(nid \<mapsto> s')" and "list_frame nm' nm"
    using r by (auto simp: nm'_def move_free_nid_def Let_def list_frame_def same_maps_def nm_cache.truncate_def split: nid_state.split)
  have dom: "dom (free_nid_root nm') \<subseteq> {0<..<max_nid nm'}"
  proof -
    have "same_cache nm' nm" using \<open>list_frame nm' nm\<close> unfolding list_frame_def by blast
    from same_cacheD(2) [OF this] have "max_nid nm' = max_nid nm" by blast
    then show ?thesis using D(5) nid unfolding root by auto
  qed
  show "fl_ok nm'"
  proof (cases s')
    case FREE_NID
    then have s: "s = PREALLOC_NID" using r(2) by (cases s) simp_all
    have f: "free_nid_list nm' = free_nid_list nm @ [nid]" "nid_cnt nm' FREE_NID = nid_cnt nm FREE_NID + 1"
      "nid_cnt nm' PREALLOC_NID = nid_cnt nm PREALLOC_NID - 1" using r by (simp_all add: nm'_def move_free_nid_def Let_def FREE_NID s)
    have "nid \<notin> set (free_nid_list nm)" using D(2) r s by simp
    then show ?thesis using D(1-4) dom set card unfolding fl_ok_def root f FREE_NID s by (auto split: if_splits)
  next
    case PREALLOC_NID
    then have s: "s = FREE_NID" using r(2) by (cases s) simp_all
    have f: "free_nid_list nm' = removeAll nid (free_nid_list nm)" "nid_cnt nm' FREE_NID = nid_cnt nm FREE_NID - 1"
      "nid_cnt nm' PREALLOC_NID = nid_cnt nm PREALLOC_NID + 1" using r by (simp_all add: nm'_def move_free_nid_def Let_def PREALLOC_NID s)
    have "int (length (removeAll nid (free_nid_list nm))) = nid_cnt nm FREE_NID - 1"
      using D(1-3) r s length_removeAll_distinct [of "free_nid_list nm" nid] by simp
    then show ?thesis using D(1,2,4) dom set card' unfolding fl_ok_def root f PREALLOC_NID s
      by (auto simp: distinct_removeAll split: if_splits)
  qed
qed

section \<open>Scanning\<close>

definition scan_frame :: "nm_info \<Rightarrow> nm_info \<Rightarrow> bool" where
  "scan_frame nm' nm \<longleftrightarrow> same_cache nm' nm \<and> nat_blocks nm' = nat_blocks nm \<and>
     (\<forall>x. free_nid_root nm' x = Some PREALLOC_NID \<longleftrightarrow> free_nid_root nm x = Some PREALLOC_NID)"

lemma scan_frame_refl [simp]: "scan_frame nm nm"
  by (simp add: scan_frame_def)

lemma scan_frame_trans: "scan_frame a b \<Longrightarrow> scan_frame b c \<Longrightarrow> scan_frame a c"
  by (simp add: scan_frame_def)

lemma scan_frameD:
  assumes "scan_frame nm' nm"
  shows "max_nid nm' = max_nid nm" "nat_blocks nm' = nat_blocks nm" "nm_jnl nm' = nm_jnl nm" "in_journal nm' = in_journal nm"
    "nat_stored nm' = nat_stored nm" "nat_dirty nm' = nat_dirty nm" "get_current_nat_page (nm_area nm') (nm_meta nm') = get_current_nat_page (nm_area nm) (nm_meta nm)"
proof -
  have c: "same_cache nm' nm" "nat_blocks nm' = nat_blocks nm" using assms by (simp_all add: scan_frame_def)
  note d = same_cacheD [OF c(1)]
  show "max_nid nm' = max_nid nm" "nat_blocks nm' = nat_blocks nm" "nm_jnl nm' = nm_jnl nm" "in_journal nm' = in_journal nm"
    "nat_stored nm' = nat_stored nm" "nat_dirty nm' = nat_dirty nm" using d c(2) by blast+
  show "get_current_nat_page (nm_area nm') (nm_meta nm') = get_current_nat_page (nm_area nm) (nm_meta nm)" using d(2) by metis
qed

lemma scan_invD:
  assumes "scan_inv nm"
  shows "nat_inv nm" "fl_ok nm" "bm_ok nm" "bits_ok nm" "ckpt_ok nm" "\<not> nm_bug nm"
    "free_nid_root nm nid = Some FREE_NID \<Longrightarrow> in_journal nm nid \<or> nid_free nm nid"
  using assms unfolding scan_inv_def by blast+

lemma scan_invI:
  assumes c: "same_cache nm' nm" and inv: "scan_inv nm" and n: "fl_ok nm'" "bm_ok nm'" "bits_ok nm'"
    "\<And>nid. free_nid_root nm' nid = Some FREE_NID \<Longrightarrow> free_nid_root nm nid \<noteq> Some FREE_NID \<Longrightarrow> in_journal nm nid \<or> nid_free nm nid"
  shows "scan_inv nm'"
  using scan_invD [OF inv] n same_cacheD [OF c] unfolding scan_inv_def by metis

text \<open>An id that may be free: the disk does not say otherwise, except for the journal or a pending change.\<close>

definition may_be_free :: "'z nm_cache_scheme \<Rightarrow> nat \<Rightarrow> bool" where
  "may_be_free nm nid \<longleftrightarrow> nat_dirty nm nid \<or> in_journal nm nid \<or> block_addr (nat_stored nm nid) = NULL_ADDR"

lemma bits_okD: "bits_ok nm \<Longrightarrow> nid < max_nid nm \<Longrightarrow> nid_bit nm nid \<Longrightarrow> may_be_free nm nid"
  by (auto simp: bits_ok_def may_be_free_def)

lemma cache_allows:
  assumes "scan_inv nm" "may_be_free nm nid"
    "\<not> (case nat_root nm nid of Some ne \<Rightarrow> \<not> get_nat_flag ne IS_CHECKPOINTED \<or> blk_addr ne \<noteq> NULL_ADDR | None \<Rightarrow> False)"
  shows "in_journal nm nid \<or> nid_free nm nid"
proof -
  have "\<not> nat_dirty nm nid"
    using assms(3) scan_invD(5) [OF assms(1)] unfolding nat_dirty_def ckpt_ok_def by (auto split: option.splits)
  then show ?thesis using assms(2) by (auto simp: may_be_free_def nid_free_def)
qed

lemma add_build_ok:
  assumes inv: "scan_inv nm" and nid: "nid < max_nid nm" and c: "may_be_free nm nid" and u: "update \<Longrightarrow> \<not> nid_bit nm nid"
    and a: "add_free_nid nid True update nm = (ret, nm')"
  shows "scan_inv nm'" "scan_frame nm' nm" "x \<noteq> nid \<Longrightarrow> nid_bit nm' x = nid_bit nm x" "nat_block_bitmap nm' = nat_block_bitmap nm"
    "x \<noteq> nid \<Longrightarrow> free_nid_root nm' x = free_nid_root nm x" "\<not> update \<Longrightarrow> same_maps nm' nm" "available_nids nm' = available_nids nm"
proof -
  let ?blk = "case nat_root nm nid of Some ne \<Rightarrow> \<not> get_nat_flag ne IS_CHECKPOINTED \<or> blk_addr ne \<noteq> NULL_ADDR | None \<Rightarrow> False"
  have "scan_inv nm' \<and> scan_frame nm' nm \<and> (x \<noteq> nid \<longrightarrow> nid_bit nm' x = nid_bit nm x) \<and> nat_block_bitmap nm' = nat_block_bitmap nm \<and>
    (x \<noteq> nid \<longrightarrow> free_nid_root nm' x = free_nid_root nm x) \<and> (\<not> update \<longrightarrow> same_maps nm' nm) \<and> available_nids nm' = available_nids nm"
  proof (cases "nid = 0")
    case True
    then show ?thesis using a inv by (simp add: add_free_nid_def same_maps_def)
  next
    case False
    then have pos: "0 < nid" by simp
    obtain r1 nm1 where 1: "(if ?blk then (False, nm)
        else if free_nid_root nm nid \<noteq> None then (free_nid_root nm nid = Some FREE_NID, nm)
        else (True, snd (insert_free_nid nid FREE_NID FREE_NID nm))) = (r1, nm1)" by fastforce
    have nm': "nm' = (if update then update_free_nid_bitmap nid r1 True nm1 else nm1)"
      using a 1 False by (auto simp: add_free_nid_def Let_def split: if_splits)
    have one: "fl_ok nm1 \<and> list_frame nm1 nm \<and> (\<forall>y. y \<noteq> nid \<longrightarrow> free_nid_root nm1 y = free_nid_root nm y) \<and>
        (free_nid_root nm1 nid = Some PREALLOC_NID \<longleftrightarrow> free_nid_root nm nid = Some PREALLOC_NID) \<and>
        (free_nid_root nm1 nid = Some FREE_NID \<longrightarrow> free_nid_root nm nid = Some FREE_NID \<or> in_journal nm nid \<or> nid_free nm nid)"
    proof (cases "\<not> ?blk \<and> free_nid_root nm nid = None")
      case True
      then have "nm1 = snd (insert_free_nid nid FREE_NID FREE_NID nm)" using 1 by auto
      then show ?thesis using insert_free_ok [OF scan_invD(2) [OF inv] pos nid] cache_allows [OF inv c] True by auto
    next
      case False
      then have "nm1 = nm" using 1 by (auto split: if_splits)
      then show ?thesis using scan_invD(2) [OF inv] by (simp add: list_frame_def same_maps_def)
    qed
    then have sc: "same_cache nm1 nm" "same_maps nm1 nm" "available_nids nm1 = available_nids nm" by (simp_all add: list_frame_def)
    note m1 = same_mapsD [OF sc(1,2)]
    have inv1: "scan_inv nm1"
    proof (rule scan_invI [OF sc(1) inv])
      show "fl_ok nm1" "bm_ok nm1" "bits_ok nm1" using one m1 scan_invD(3,4) [OF inv] by blast+
      fix y assume "free_nid_root nm1 y = Some FREE_NID" "free_nid_root nm y \<noteq> Some FREE_NID"
      then show "in_journal nm y \<or> nid_free nm y" using one by (cases "y = nid") auto
    qed
    have fr1: "scan_frame nm1 nm" using sc one unfolding scan_frame_def same_maps_def by metis
    show ?thesis
    proof (cases update)
      case False
      then show ?thesis using nm' inv1 fr1 m1 one sc by (auto simp: same_maps_def)
    next
      case True
      have lt: "nid < max_nid nm1" using nid scan_frameD(1) [OF fr1] by simp
      have nb: "\<not> nid_bit nm1 nid" using u [OF True] m1 by simp
      note U = update_bitmap_ok [OF scan_invD(3) [OF inv1] lt, of True r1]
      have up: "nm' = update_free_nid_bitmap nid r1 True nm1" using nm' True by simp
      have U': "bm_ok nm'" "same_cache nm' nm1" "same_lists nm' nm1" "\<And>y. y \<noteq> nid \<Longrightarrow> nid_bit nm' y = nid_bit nm1 y"
        "nat_block_bitmap nm' = nat_block_bitmap nm1" "nat_blocks nm' = nat_blocks nm1" "available_nids nm' = available_nids nm1"
        using U nb unfolding up by blast+
      have bits: "bits_ok nm'" unfolding bits_ok_def
      proof (intro allI impI)
        fix y assume y: "y < max_nid nm'" "nid_bit nm' y"
        have mx: "max_nid nm' = max_nid nm1" using same_cacheD(2) [OF U'(2)] by blast
        have "may_be_free nm1 y"
        proof (cases "y = nid")
          case True
          then show ?thesis using c same_cacheD(5,6,9) [OF sc(1)] by (simp add: may_be_free_def)
        next
          case False
          then show ?thesis using bits_okD [OF scan_invD(4) [OF inv1]] y mx U'(4) by simp
        qed
        then show "nat_dirty nm' y \<or> in_journal nm' y \<or> block_addr (nat_stored nm' y) = NULL_ADDR"
          using same_cacheD(5,6,9) [OF U'(2)] by (simp add: may_be_free_def)
      qed
      have "scan_inv nm'"
      proof (rule scan_invI [OF U'(2) inv1 _ U'(1) bits])
        show "fl_ok nm'" using same_listsD [OF U'(2,3)] scan_invD(2) [OF inv1] by blast
      qed (use U'(3) in \<open>simp add: same_lists_def\<close>)
      moreover have "scan_frame nm' nm1" using U'(2,3,6) by (simp add: scan_frame_def same_lists_def)
      then have "scan_frame nm' nm" using scan_frame_trans [OF _ fr1] by blast
      ultimately show ?thesis using U' m1 one sc True by (auto simp: same_lists_def same_maps_def)
    qed
  qed
  then show "scan_inv nm'" "scan_frame nm' nm" "x \<noteq> nid \<Longrightarrow> nid_bit nm' x = nid_bit nm x" "nat_block_bitmap nm' = nat_block_bitmap nm"
    "x \<noteq> nid \<Longrightarrow> free_nid_root nm' x = free_nid_root nm x" "\<not> update \<Longrightarrow> same_maps nm' nm" "available_nids nm' = available_nids nm" by blast+
qed

lemma skip_used_ok:
  assumes inv: "scan_inv nm" and nid: "nid < max_nid nm" and nb: "\<not> nid_bit nm nid"
  defines "nm' \<equiv> update_free_nid_bitmap nid False True nm"
  shows "scan_inv nm'" "scan_frame nm' nm" "x \<noteq> nid \<Longrightarrow> nid_bit nm' x = nid_bit nm x" "nat_block_bitmap nm' = nat_block_bitmap nm"
    "available_nids nm' = available_nids nm"
proof -
  note U = update_bitmap_ok [OF scan_invD(3) [OF inv] nid nb, where build = True and on = False, folded nm'_def]
  have U': "bm_ok nm'" "same_cache nm' nm" "same_lists nm' nm" "\<And>y. nid_bit nm' y \<Longrightarrow> nid_bit nm y" "\<And>y. y \<noteq> nid \<Longrightarrow> nid_bit nm' y = nid_bit nm y"
    using U(1-3) U(4,5) by metis+
  have "bits_ok nm'" using scan_invD(4) [OF inv] U'(4) same_cacheD(2,5,6,9) [OF U'(2)] unfolding bits_ok_def by metis
  then show "scan_inv nm'"
    using scan_invI [OF U'(2) inv _ U'(1)] same_listsD [OF U'(2,3)] scan_invD(2) [OF inv] U'(3) unfolding same_lists_def by metis
  show "scan_frame nm' nm" "x \<noteq> nid \<Longrightarrow> nid_bit nm' x = nid_bit nm x" "nat_block_bitmap nm' = nat_block_bitmap nm"
    "available_nids nm' = available_nids nm"
    using U U' nb by (auto simp: scan_frame_def same_lists_def)
qed

text \<open>What a scanned entry must say: it is the one on disk, so an address in it is valid and none means free or journaled.\<close>

definition page_says :: "'z nm_cache_scheme \<Rightarrow> nat \<Rightarrow> f2fs_nat_entry \<Rightarrow> bool" where
  "page_says nm nid e \<longleftrightarrow> block_addr e \<noteq> NEW_ADDR \<and> (block_addr e = NULL_ADDR \<longrightarrow> may_be_free nm nid)"

lemma page_says_frame: "scan_frame nm' nm \<Longrightarrow> page_says nm' nid e = page_says nm nid e"
  using scan_frameD [of nm' nm] by (simp add: page_says_def may_be_free_def)

lemma scan_nat_loop_ok:
  assumes "scan_inv nm" "\<forall>k < length es. page_says nm (start + k) (es ! k)" "\<forall>k < length es. \<not> nid_bit nm (start + k)"
  shows "scan_inv (scan_nat_loop es start nm)" "scan_frame (scan_nat_loop es start nm) nm"
    "nat_block_bitmap (scan_nat_loop es start nm) = nat_block_bitmap nm" "available_nids (scan_nat_loop es start nm) = available_nids nm"
proof -
  have "scan_inv (scan_nat_loop es start nm) \<and> scan_frame (scan_nat_loop es start nm) nm \<and>
    nat_block_bitmap (scan_nat_loop es start nm) = nat_block_bitmap nm \<and> available_nids (scan_nat_loop es start nm) = available_nids nm"
    using assms
  proof (induction es start nm rule: scan_nat_loop.induct)
    case (2 e es start nm)
    show ?case
    proof (cases "start \<ge> max_nid nm")
      case True
      then show ?thesis using 2(2) by simp
    next
      case False
      then have lt: "start < max_nid nm" by simp
      have e: "page_says nm start e" "\<not> nid_bit nm start" using 2(3,4) by force+
      define nm1 where "nm1 = (if block_addr e = NULL_ADDR then snd (add_free_nid start True True nm) else update_free_nid_bitmap start False True nm)"
      obtain ret nm2 where ad: "add_free_nid start True True nm = (ret, nm2)" by fastforce
      have one: "scan_inv nm1 \<and> scan_frame nm1 nm \<and> (\<forall>x. x \<noteq> start \<longrightarrow> nid_bit nm1 x = nid_bit nm x) \<and> nat_block_bitmap nm1 = nat_block_bitmap nm \<and>
        available_nids nm1 = available_nids nm"
      proof (cases "block_addr e = NULL_ADDR")
        case True
        then have "may_be_free nm start" using e(1) by (simp add: page_says_def)
        from add_build_ok [OF 2(2) lt this _ ad] e(2) True ad show ?thesis by (simp add: nm1_def)
      next
        case False
        then show ?thesis using skip_used_ok [OF 2(2) lt e(2)] by (simp add: nm1_def)
      qed
      have bug: "nm_bug_on (block_addr e = NEW_ADDR) nm = nm" using e(1) by (simp add: page_says_def)
      have step: "scan_nat_loop (e # es) start nm = scan_nat_loop es (start + 1) nm1" using False bug by (simp add: nm1_def)
      have p: "\<forall>k < length es. page_says nm1 (start + 1 + k) (es ! k)"
        using 2(3) one page_says_frame by (metis Suc_less_eq add_Suc_right add_Suc_shift Suc_eq_plus1 length_Cons nth_Cons_Suc)
      have b: "\<forall>k < length es. \<not> nid_bit nm1 (start + 1 + k)" using 2(4) one
        by (metis Suc_less_eq add_Suc_right add_Suc_shift Suc_eq_plus1 length_Cons less_add_same_cancel1 nat_neq_iff zero_less_Suc)
      have "scan_inv (scan_nat_loop es (start + 1) nm1) \<and> scan_frame (scan_nat_loop es (start + 1) nm1) nm1 \<and>
          nat_block_bitmap (scan_nat_loop es (start + 1) nm1) = nat_block_bitmap nm1 \<and>
          available_nids (scan_nat_loop es (start + 1) nm1) = available_nids nm1"
        using 2(1) [OF False refl, of nm1] one p b bug by (simp add: nm1_def)
      then show ?thesis unfolding step using one scan_frame_trans by metis
    qed
  qed simp
  then show "scan_inv (scan_nat_loop es start nm)" "scan_frame (scan_nat_loop es start nm) nm"
    "nat_block_bitmap (scan_nat_loop es start nm) = nat_block_bitmap nm" "available_nids (scan_nat_loop es start nm) = available_nids nm" by blast+
qed

text \<open>The current page of a block holds the stored entries, up to the journal.\<close>

lemma page_of_block: "NAT_BLOCK_OFFSET a = NAT_BLOCK_OFFSET b \<Longrightarrow> get_current_nat_page nm meta a = get_current_nat_page nm meta b"
  by (simp add: get_current_nat_page_def current_nat_addr_def Let_def)

lemma page_says_page:
  assumes dk: "nat_disk_ok nm" and nid: "nid < max_nid nm" "NAT_BLOCK_OFFSET nid = NAT_BLOCK_OFFSET start"
  shows "page_says nm nid (get_current_nat_page (nm_area nm) (nm_meta nm) start ! (nid mod NAT_ENTRY_PER_BLOCK))"
proof -
  let ?e = "get_current_nat_page (nm_area nm) (nm_meta nm) nid ! (nid - START_NID nid)"
  have "block_addr ?e \<noteq> NEW_ADDR" using dk nid(1) by (simp add: nat_disk_ok_def)
  moreover have "block_addr ?e = NULL_ADDR \<Longrightarrow> may_be_free nm nid"
    by (auto simp: may_be_free_def in_journal_def nat_stored_def split: option.split)
  ultimately show ?thesis unfolding page_of_block [OF nid(2)] NEPB(2) page_says_def by blast
qed

lemma scan_nat_page_ok:
  assumes inv: "scan_inv nm" and nid: "nid < max_nid nm" and new: "\<not> test_bit_le (NAT_BLOCK_OFFSET nid) (nat_block_bitmap nm)"
  defines "nm' \<equiv> scan_nat_page (get_current_nat_page (nm_area nm) (nm_meta nm) nid) nid nm"
  shows "scan_inv nm'" "scan_frame nm' nm" "available_nids nm' = available_nids nm"
proof -
  let ?N = NAT_ENTRY_PER_BLOCK and ?pg = "get_current_nat_page (nm_area nm) (nm_meta nm) nid" and ?b = "NAT_BLOCK_OFFSET nid"
  define nm1 where "nm1 = nm\<lparr>nat_block_bitmap := set_bit_le ?b (nat_block_bitmap nm)\<rparr>"
  define es where "es = drop (nid mod ?N) (take ?N ?pg)"
  have dk: "nat_disk_ok nm" using scan_invD(1) [OF inv] by (simp add: nat_inv_def)
  have len: "length ?pg = ?N" using dk nid by (simp add: nat_disk_ok_def)
  have bm: "bm_ok nm" by (rule scan_invD(3) [OF inv])
  have b: "?b < nat_blocks nm" using nid bm NEPB(1) by (simp add: bm_ok_def NEPB(3) less_mult_imp_div_less)
  then have bl: "?b < 8 * length (nat_block_bitmap nm)" using bm by (simp add: bm_ok_def)
  have c1: "same_cache nm1 nm" "same_lists nm1 nm" by (simp_all add: nm1_def nm_cache.truncate_def same_lists_def)
  have nb1: "nid_bit nm1 = nid_bit nm" by (intro ext) (simp add: nid_bit_def nm1_def)
  have "bm_ok nm1" using bm lsb.tst_put [OF bl] unfolding bm_ok_def nm1_def by (auto simp: set_bit_le_def)
  moreover have "bits_ok nm1" using scan_invD(4) [OF inv] same_cacheD(2,5,6,9) [OF c1(1)] unfolding bits_ok_def nb1 by metis
  ultimately have inv1: "scan_inv nm1"
    using scan_invI [OF c1(1) inv] same_listsD [OF c1] scan_invD(2) [OF inv] c1(2) unfolding same_lists_def by metis
  have fr1: "scan_frame nm1 nm" using c1(1) by (simp add: scan_frame_def nm1_def)
  have off: "NAT_BLOCK_OFFSET (nid + k) = ?b" "(nid + k) mod ?N = nid mod ?N + k" "nid + k < max_nid nm" if k: "k < length es" for k
  proof -
    have lt: "nid mod ?N + k < ?N" using k len by (simp add: es_def)
    have split: "nid + k = ?b * ?N + (nid mod ?N + k)" using div_mult_mod_eq [of nid ?N] by (simp add: NEPB(3))
    show "(nid + k) mod ?N = nid mod ?N + k" unfolding split using lt by simp
    have "(q * n + r) div n = q" if "r < n" for q n r :: nat using that by simp
    from this [OF lt] show "NAT_BLOCK_OFFSET (nid + k) = ?b" using split by (metis NEPB(3))
    have "?b * ?N + ?N \<le> nat_blocks nm * ?N" using b by (metis Suc_leI add.commute mult_Suc mult_le_mono1)
    then show "nid + k < max_nid nm" using bm lt split by (simp add: bm_ok_def)
  qed
  have says: "\<forall>k < length es. page_says nm1 (nid + k) (es ! k)"
  proof (intro allI impI)
    fix k assume k: "k < length es"
    have "es ! k = ?pg ! ((nid + k) mod ?N)" using k len off(2) [OF k] by (simp add: es_def)
    then show "page_says nm1 (nid + k) (es ! k)" using page_says_page [OF dk off(3) [OF k] off(1) [OF k]] page_says_frame [OF fr1] by simp
  qed
  have clear: "\<forall>k < length es. \<not> nid_bit nm1 (nid + k)"
  proof (intro allI impI)
    fix k assume k: "k < length es"
    have "\<not> test_bit_le i (free_nid_bitmap nm ! ?b)" for i using bm b new unfolding bm_ok_def by blast
    then show "\<not> nid_bit nm1 (nid + k)" unfolding nb1 using off(1) [OF k] by (simp add: nid_bit_def NEPB(3))
  qed
  have "nm' = scan_nat_loop es nid nm1" by (simp add: nm'_def scan_nat_page_def Let_def es_def nm1_def)
  then show "scan_inv nm'" "scan_frame nm' nm" "available_nids nm' = available_nids nm"
    using scan_nat_loop_ok [OF inv1 says clear] scan_frame_trans [OF _ fr1] by (simp_all add: nm1_def)
qed

lemma remove_free_nid_ok:
  fixes nid :: nat
  assumes inv: "scan_inv nm"
  defines "nm' \<equiv> remove_free_nid nid nm"
  shows "scan_inv nm'" "scan_frame nm' nm" "free_nid_root nm' nid \<noteq> Some FREE_NID" "x \<noteq> nid \<Longrightarrow> free_nid_root nm' x = free_nid_root nm x"
    "available_nids nm' = available_nids nm"
proof -
  have "scan_inv nm' \<and> scan_frame nm' nm \<and> free_nid_root nm' nid \<noteq> Some FREE_NID \<and> (x \<noteq> nid \<longrightarrow> free_nid_root nm' x = free_nid_root nm x) \<and>
    available_nids nm' = available_nids nm"
  proof (cases "free_nid_root nm nid = Some FREE_NID")
    case True
    note R = remove_nid_ok [OF scan_invD(2) [OF inv] True]
    have nm': "nm' = remove_nid nid FREE_NID nm" using True by (simp add: nm'_def remove_free_nid_def)
    have c: "same_cache nm' nm" "same_maps nm' nm" "available_nids nm' = available_nids nm" using R(2) by (simp_all add: nm' list_frame_def)
    have "scan_inv nm'"
    proof (rule scan_invI [OF c(1) inv])
      show "fl_ok nm'" "bm_ok nm'" "bits_ok nm'" using R(1) same_mapsD [OF c(1,2)] scan_invD(3,4) [OF inv] by (simp_all add: nm')
      show "in_journal nm y \<or> nid_free nm y" if "free_nid_root nm' y = Some FREE_NID" "free_nid_root nm y \<noteq> Some FREE_NID" for y
        using that R(3) by (auto simp: nm' split: if_splits)
    qed
    then show ?thesis using c R(3) True by (simp add: nm' scan_frame_def same_maps_def)
  qed (use inv in \<open>simp add: nm'_def remove_free_nid_def\<close>)
  then show "scan_inv nm'" "scan_frame nm' nm" "free_nid_root nm' nid \<noteq> Some FREE_NID" "x \<noteq> nid \<Longrightarrow> free_nid_root nm' x = free_nid_root nm x"
    "available_nids nm' = available_nids nm"
    by blast+
qed

text \<open>Scanning the journal settles every id in it.\<close>

lemma scan_journal_fold:
  assumes "scan_inv nm" "distinct (map fst kes)" "\<And>k e. (k, e) \<in> set kes \<Longrightarrow> jmap (nm_jnl nm) k = Some e"
  shows "scan_inv (fold scan_journal_entry kes nm) \<and> scan_frame (fold scan_journal_entry kes nm) nm \<and>
    available_nids (fold scan_journal_entry kes nm) = available_nids nm \<and>
    (\<forall>x. x \<notin> fst ` set kes \<longrightarrow> free_nid_root (fold scan_journal_entry kes nm) x = free_nid_root nm x) \<and>
    (\<forall>(k, e) \<in> set kes. block_addr e \<noteq> NULL_ADDR \<longrightarrow> free_nid_root (fold scan_journal_entry kes nm) k \<noteq> Some FREE_NID)"
  using assms
proof (induction kes arbitrary: nm)
  case Nil
  then show ?case by simp
next
  case (Cons ke kes)
  obtain k e where ke: "ke = (k, e)" by force
  have j: "jmap (nm_jnl nm) k = Some e" using Cons.prems(3) ke by simp
  have dk: "nat_disk_ok nm" using scan_invD(1) [OF Cons.prems(1)] by (simp add: nat_inv_def)
  have lt: "k < max_nid nm" using dk j by (auto simp: nat_disk_ok_def)
  define nm1 where "nm1 = scan_journal_entry ke nm"
  obtain ret nm2 where ad: "add_free_nid k True False nm = (ret, nm2)" by fastforce
  have one: "scan_inv nm1 \<and> scan_frame nm1 nm \<and> (\<forall>x. x \<noteq> k \<longrightarrow> free_nid_root nm1 x = free_nid_root nm x) \<and>
      (block_addr e \<noteq> NULL_ADDR \<longrightarrow> free_nid_root nm1 k \<noteq> Some FREE_NID) \<and> available_nids nm1 = available_nids nm"
  proof (cases "block_addr e = NULL_ADDR")
    case True
    have "may_be_free nm k" using j True by (simp add: may_be_free_def nat_stored_def)
    from add_build_ok [OF Cons.prems(1) lt this _ ad] True ad show ?thesis by (simp add: nm1_def scan_journal_entry_def ke)
  next
    case False
    then show ?thesis using remove_free_nid_ok [OF Cons.prems(1), where nid = k] by (simp add: nm1_def scan_journal_entry_def ke)
  qed
  have jn: "nm_jnl nm1 = nm_jnl nm" using one scan_frameD(3) by blast
  have dist: "distinct (map fst kes)" "k \<notin> fst ` set kes" using Cons.prems(2) ke by simp_all
  have jm: "\<And>k e. (k, e) \<in> set kes \<Longrightarrow> jmap (nm_jnl nm1) k = Some e" using Cons.prems(3) jn by simp
  note ih = Cons.IH [OF _ dist(1) jm]
  let ?r = "fold scan_journal_entry kes nm1"
  have r: "fold scan_journal_entry (ke # kes) nm = ?r" by (simp add: nm1_def)
  have ih': "scan_inv ?r" "scan_frame ?r nm1" "\<forall>x. x \<notin> fst ` set kes \<longrightarrow> free_nid_root ?r x = free_nid_root nm1 x"
    "\<forall>(k, e) \<in> set kes. block_addr e \<noteq> NULL_ADDR \<longrightarrow> free_nid_root ?r k \<noteq> Some FREE_NID" "available_nids ?r = available_nids nm1"
    using ih one by blast+
  have "free_nid_root ?r k = free_nid_root nm1 k" using ih'(3) dist(2) by blast
  then show ?case unfolding r using ih' one scan_frame_trans [OF ih'(2)] ke by auto
qed

lemma scan_curseg_cache_ok:
  assumes inv: "scan_inv nm"
  shows "fn_inv (scan_curseg_cache nm)" "scan_frame (scan_curseg_cache nm) nm" "available_nids (scan_curseg_cache nm) = available_nids nm"
proof -
  let ?j = "nm_jnl nm" and ?kes = "take (n_ents (nm_jnl nm)) (j_entries (nm_jnl nm))"
  have dk: "nat_disk_ok nm" using scan_invD(1) [OF inv] by (simp add: nat_inv_def)
  have d: "distinct (map fst ?kes)" using dk by (simp add: nat_disk_ok_def jnl_ok_def)
  have m: "\<And>k e. (k, e) \<in> set ?kes \<Longrightarrow> jmap ?j k = Some e" using d by (simp add: jmap_def)
  let ?r = "scan_curseg_cache nm"
  note F = scan_journal_fold [OF inv d m, folded scan_curseg_cache_def]
  have r: "scan_inv ?r" "scan_frame ?r nm" using F by blast+
  then show "scan_frame ?r nm" "available_nids ?r = available_nids nm" using F by blast+
  have "free_nid_root ?r x \<noteq> Some FREE_NID" if "in_journal nm x" for x
  proof -
    obtain e where e: "jmap ?j x = Some e" "block_addr e \<noteq> NULL_ADDR" using \<open>in_journal nm x\<close> by (auto simp: in_journal_def split: option.splits)
    then have "(x, e) \<in> set ?kes" by (auto simp: jmap_def dest: map_of_SomeD)
    then show ?thesis using F e(2) by blast
  qed
  then have "free_list_safe ?r" using scan_invD(7) [OF r(1)] scan_frameD(4) [OF r(2)] unfolding free_list_safe_def by metis
  then show "fn_inv ?r" using scan_invD(1-6) [OF r(1)] unfolding fn_inv_def by blast
qed

lemma fn_inv_scan: "fn_inv nm \<Longrightarrow> scan_inv nm"
  unfolding fn_inv_def scan_inv_def free_list_safe_def by blast

lemma scan_bits_loop_ok:
  assumes "scan_inv nm" "\<forall>nid \<in> set nids. nid < max_nid nm \<and> may_be_free nm nid" "scan_bits_loop nids nm = (out, nm')"
  shows "scan_inv nm' \<and> scan_frame nm' nm \<and> same_maps nm' nm \<and> available_nids nm' = available_nids nm"
  using assms
proof (induction nids nm rule: scan_bits_loop.induct)
  case (1 nm)
  then show ?case by (simp add: same_maps_def)
next
  case (2 nid nids nm)
  obtain ret nm1 where ad: "add_free_nid nid True False nm = (ret, nm1)" by fastforce
  have nid: "nid < max_nid nm" "may_be_free nm nid" using 2(3) by simp_all
  note A = add_build_ok [OF 2(2) nid _ ad]
  have a: "scan_inv nm1" "scan_frame nm1 nm" "same_maps nm1 nm" "available_nids nm1 = available_nids nm" using A by blast+
  show ?case
  proof (cases "nid_cnt nm1 FREE_NID \<ge> int MAX_FREE_NIDS")
    case True
    then show ?thesis using 2(4) ad a by (simp add: Let_def)
  next
    case False
    have c: "\<forall>nid \<in> set nids. nid < max_nid nm1 \<and> may_be_free nm1 nid" using 2(3) scan_frameD(1,4,5,6) [OF a(2)] by (simp add: may_be_free_def)
    have loop: "scan_bits_loop nids nm1 = (out, nm')" using 2(4) ad False by (simp add: Let_def)
    have "scan_inv nm' \<and> scan_frame nm' nm1 \<and> same_maps nm' nm1 \<and> available_nids nm' = available_nids nm1"
      using 2(1) [OF _ _ a(1) c loop] False ad by simp
    then show ?thesis using a scan_frame_trans by (auto simp: same_maps_def)
  qed
qed

lemma set_bits_may_be_free:
  assumes inv: "scan_inv nm" and i: "i < nat_blocks nm" and nid: "nid \<in> set (set_bits_of nm i)"
  shows "nid < max_nid nm \<and> may_be_free nm nid"
proof -
  obtain idx where x: "nid = i * NAT_ENTRY_PER_BLOCK + idx" "idx < NAT_ENTRY_PER_BLOCK" "test_bit_le idx (free_nid_bitmap nm ! i)"
    using nid by (auto simp: set_bits_of_def)
  have "(q * n + r) div n = q \<and> (q * n + r) mod n = r" if "r < n" for q n r :: nat using that by simp
  from this [OF x(2), of i] have dm: "nid div NAT_ENTRY_PER_BLOCK = i" "nid mod NAT_ENTRY_PER_BLOCK = idx" by (simp_all add: x(1))
  have "i * NAT_ENTRY_PER_BLOCK + NAT_ENTRY_PER_BLOCK \<le> nat_blocks nm * NAT_ENTRY_PER_BLOCK"
    using i by (metis Suc_leI add.commute mult_Suc mult_le_mono1)
  then have lt: "nid < max_nid nm" using scan_invD(3) [OF inv] x by (simp add: bm_ok_def)
  have "nid_bit nm nid" using x(3) dm by (simp add: nid_bit_def)
  then show ?thesis using bits_okD [OF scan_invD(4) [OF inv] lt] lt by blast
qed

lemma scan_blocks_loop_ok:
  assumes "scan_inv nm" "\<forall>i \<in> set is. i < nat_blocks nm"
  shows "scan_inv (scan_blocks_loop is nm) \<and> scan_frame (scan_blocks_loop is nm) nm \<and> available_nids (scan_blocks_loop is nm) = available_nids nm"
  using assms
proof (induction "is" arbitrary: nm)
  case (Cons i "is")
  obtain out nm1 where b: "scan_bits_loop (set_bits_of nm i) nm = (out, nm1)" by fastforce
  have c: "\<forall>nid \<in> set (set_bits_of nm i). nid < max_nid nm \<and> may_be_free nm nid"
    using set_bits_may_be_free [OF Cons.prems(1)] Cons.prems(2) by auto
  have s: "scan_inv nm1" "scan_frame nm1 nm" "same_maps nm1 nm" "available_nids nm1 = available_nids nm"
    using scan_bits_loop_ok [OF Cons.prems(1) c b] by blast+
  have rest: "\<forall>i \<in> set is. i < nat_blocks nm1" "\<forall>i \<in> set is. i < nat_blocks nm" using Cons.prems(2) s(3) by (simp_all add: same_maps_def)
  have ih: "scan_inv (scan_blocks_loop is nm1) \<and> scan_frame (scan_blocks_loop is nm1) nm \<and> available_nids (scan_blocks_loop is nm1) = available_nids nm"
    using Cons.IH [OF s(1) rest(1)] scan_frame_trans [OF _ s(2)] s(4) by simp
  then show ?case using Cons.IH [OF Cons.prems(1) rest(2)] s b by (auto split: if_splits)
qed simp

lemma build_pages_loop_ok:
  assumes "scan_inv nm" "0 < max_nid nm" "nid < max_nid nm" "build_pages_loop n nid nm = (nid', nm')"
  shows "scan_inv nm' \<and> scan_frame nm' nm \<and> available_nids nm' = available_nids nm"
  using assms
proof (induction n arbitrary: nid nm)
  case (Suc n)
  define nm1 where "nm1 = (if \<not> test_bit_le (NAT_BLOCK_OFFSET nid) (nat_block_bitmap nm)
                then scan_nat_page (get_current_nat_page (nm_area nm) (nm_meta nm) nid) nid nm else nm)"
  define nid1 where "nid1 = nid + (NAT_ENTRY_PER_BLOCK - nid mod NAT_ENTRY_PER_BLOCK)"
  have one: "scan_inv nm1" "scan_frame nm1 nm" "available_nids nm1 = available_nids nm"
    using scan_nat_page_ok [OF Suc.prems(1,3)] Suc.prems(1) by (simp_all add: nm1_def)
  have mx: "max_nid nm1 = max_nid nm" using scan_frameD(1) [OF one(2)] .
  have loop: "build_pages_loop n (if nid1 \<ge> max_nid nm1 then 0 else nid1) nm1 = (nid', nm')"
    using Suc.prems(4) unfolding build_pages_loop.simps Let_def nm1_def [symmetric] nid1_def [symmetric] .
  have "scan_inv nm' \<and> scan_frame nm' nm1 \<and> available_nids nm' = available_nids nm1"
    using Suc.IH [OF one(1) _ _ loop] Suc.prems(2) mx by simp
  then show ?case using one scan_frame_trans by auto
qed simp

lemma build_free_nids_ok:
  assumes inv: "fn_inv nm" and pos: "0 < max_nid nm"
  shows "fn_inv (build_free_nids mem_ok sync mount nm)" "scan_frame (build_free_nids mem_ok sync mount nm) nm"
    "available_nids (build_free_nids mem_ok sync mount nm) = available_nids nm"
proof -
  define nid where "nid = (if next_scan_nid nm \<ge> max_nid nm then 0 else next_scan_nid nm)"
  have nid: "nid < max_nid nm" using pos by (simp add: nid_def)
  define nm1 where "nm1 = (if \<not> mount then scan_free_nid_bits nm else nm)"
  have one: "fn_inv nm1" "scan_frame nm1 nm" "available_nids nm1 = available_nids nm"
  proof -
    have b: "scan_inv (scan_blocks_loop [0..<nat_blocks nm] nm)" "scan_frame (scan_blocks_loop [0..<nat_blocks nm] nm) nm"
      "available_nids (scan_blocks_loop [0..<nat_blocks nm] nm) = available_nids nm"
      using scan_blocks_loop_ok [OF fn_inv_scan [OF inv]] by simp_all
    show "fn_inv nm1" "scan_frame nm1 nm" "available_nids nm1 = available_nids nm"
      using scan_curseg_cache_ok [OF b(1)] scan_frame_trans [OF _ b(2)] b(3) inv by (simp_all add: nm1_def scan_free_nid_bits_def)
  qed
  obtain nid2 nm2 where p: "build_pages_loop FREE_NID_PAGES nid nm1 = (nid2, nm2)" by fastforce
  have mx: "max_nid nm1 = max_nid nm" by (rule scan_frameD(1) [OF one(2)])
  have P: "scan_inv nm2" "scan_frame nm2 nm1" "available_nids nm2 = available_nids nm1"
    using build_pages_loop_ok [OF fn_inv_scan [OF one(1)] _ _ p] mx pos nid by simp_all
  have c: "same_cache (nm2\<lparr>next_scan_nid := nid2\<rparr>) nm2" "same_lists (nm2\<lparr>next_scan_nid := nid2\<rparr>) nm2" "same_maps (nm2\<lparr>next_scan_nid := nid2\<rparr>) nm2"
    by (simp_all add: nm_cache.truncate_def same_lists_def same_maps_def)
  have i3: "scan_inv (nm2\<lparr>next_scan_nid := nid2\<rparr>)"
    using scan_invI [OF c(1) P(1)] same_listsD [OF c(1,2)] same_mapsD [OF c(1,3)] scan_invD(2-4) [OF P(1)] by simp
  have f3: "scan_frame (nm2\<lparr>next_scan_nid := nid2\<rparr>) nm" using c(1) P(2) one(2) by (simp add: scan_frame_def)
  have form: "build_free_nids mem_ok sync mount nm =
    (if nid_cnt nm FREE_NID \<ge> int NAT_ENTRY_PER_BLOCK then nm
      else if \<not> sync \<and> \<not> mem_ok then nm
      else if \<not> mount \<and> nid_cnt nm1 FREE_NID \<ge> int NAT_ENTRY_PER_BLOCK then nm1
        else scan_curseg_cache (nm2\<lparr>next_scan_nid := nid2\<rparr>))"
    unfolding build_free_nids_def Let_def nid_def [symmetric] nm1_def [symmetric] p prod.case ..
  show "fn_inv (build_free_nids mem_ok sync mount nm)" "scan_frame (build_free_nids mem_ok sync mount nm) nm"
    "available_nids (build_free_nids mem_ok sync mount nm) = available_nids nm"
    unfolding form using inv one scan_curseg_cache_ok [OF i3] scan_frame_trans [OF _ f3] P(3) by simp_all
qed

section \<open>Handing out and taking back\<close>

lemma fn_invD:
  assumes "fn_inv nm"
  shows "nat_inv nm" "fl_ok nm" "bm_ok nm" "bits_ok nm" "ckpt_ok nm" "\<not> nm_bug nm" "free_nid_root nm nid = Some FREE_NID \<Longrightarrow> nid_free nm nid"
  using assms unfolding fn_inv_def free_list_safe_def by blast+

lemma fn_invI:
  assumes c: "same_cache nm' nm" and inv: "fn_inv nm" and n: "fl_ok nm'" "bm_ok nm'" "bits_ok nm'"
    "\<And>nid. free_nid_root nm' nid = Some FREE_NID \<Longrightarrow> free_nid_root nm nid \<noteq> Some FREE_NID \<Longrightarrow> nid_free nm nid"
  shows "fn_inv nm'"
  using fn_invD [OF inv] n same_cacheD [OF c] unfolding fn_inv_def free_list_safe_def by metis

text \<open>A free id may have its bit set.\<close>

lemma set_bit_ok:
  assumes ok: "bm_ok nm" "bits_ok nm" and nid: "nid < max_nid nm" and free: "on \<Longrightarrow> may_be_free nm nid"
  defines "nm' \<equiv> update_free_nid_bitmap nid on False nm"
  shows "bm_ok nm'" "bits_ok nm'" "same_cache nm' nm" "same_lists nm' nm" "available_nids nm' = available_nids nm"
    "nid_bit nm' nid \<Longrightarrow> on" "x \<noteq> nid \<Longrightarrow> nid_bit nm' x = nid_bit nm x"
proof -
  have u: "False \<Longrightarrow> \<not> on \<Longrightarrow> \<not> nid_bit nm nid" by simp
  note U = update_bitmap_ok [OF ok(1) nid, of False on, folded nm'_def]
  show 1: "bm_ok nm'" "same_cache nm' nm" "same_lists nm' nm" "available_nids nm' = available_nids nm" "nid_bit nm' nid \<Longrightarrow> on"
    "x \<noteq> nid \<Longrightarrow> nid_bit nm' x = nid_bit nm x" for x
    using U u by blast+
  have "nid_bit nm' y \<Longrightarrow> y < max_nid nm' \<Longrightarrow> may_be_free nm y" for y
    using 1(5,6) free bits_okD [OF ok(2)] same_cacheD(2) [OF 1(2)] by (cases "y = nid") auto
  then show "bits_ok nm'" using same_cacheD(5,6,9) [OF 1(2)] unfolding bits_ok_def may_be_free_def by metis
qed

lemma alloc_take_ok:
  assumes inv: "fn_inv nm" and c: "nid_cnt nm FREE_NID \<noteq> 0" "available_nids nm \<noteq> 0"
  shows "\<exists>nid nm'. alloc_nid False nm = Some (Some nid, nm') \<and> free_nid_root nm nid = Some FREE_NID \<and> fn_inv nm' \<and> same_cache nm' nm \<and>
    free_nid_root nm' = (free_nid_root nm)(nid \<mapsto> PREALLOC_NID) \<and> available_nids nm' = available_nids nm - 1 \<and> \<not> nid_bit nm' nid"
proof -
  define nid where "nid = hd (free_nid_list nm)"
  have ne: "free_nid_list nm \<noteq> []" using fl_okD(3) [OF fn_invD(2) [OF inv]] c(1) by auto
  then have r: "free_nid_root nm nid = Some FREE_NID" using fl_okD(2) [OF fn_invD(2) [OF inv]] hd_in_set [OF ne] by (simp add: nid_def)
  have lt: "nid < max_nid nm" using fl_okD(5) [OF fn_invD(2) [OF inv]] r by auto
  define nm1 where "nm1 = move_free_nid nid FREE_NID PREALLOC_NID nm"
  define nm2 where "nm2 = nm1\<lparr>available_nids := available_nids nm1 - 1\<rparr>"
  define nm3 where "nm3 = update_free_nid_bitmap nid False False nm2"
  have al: "alloc_nid False nm = Some (Some nid, nm3)"
    using c ne unfolding alloc_nid.simps [of False nm] by (simp add: nid_def nm1_def nm2_def nm3_def Let_def)
  note M = move_nid_ok [OF fn_invD(2) [OF inv] r, of PREALLOC_NID, simplified, folded nm1_def]
  have c2: "same_cache nm2 nm" "same_maps nm2 nm" "same_lists nm2 nm1" "available_nids nm2 = available_nids nm - 1"
    using M(2) by (simp_all add: nm2_def list_frame_def same_maps_def same_lists_def nm_cache.truncate_def)
  have c1: "same_cache nm1 nm" using M(2) by (simp add: list_frame_def)
  have m2: "bm_ok nm2" "bits_ok nm2" using same_mapsD [OF c2(1,2)] fn_invD(3,4) [OF inv] by blast+
  have lt2: "nid < max_nid nm2" using lt same_cacheD(2) [OF c2(1)] by simp
  have S: "bm_ok nm3" "bits_ok nm3" "same_cache nm3 nm2" "same_lists nm3 nm2" "available_nids nm3 = available_nids nm2" "\<not> nid_bit nm3 nid"
    unfolding nm3_def by (rule set_bit_ok [OF m2 lt2]; simp)+ (use set_bit_ok(6) [OF m2 lt2, of False] in blast)
  have cc: "same_cache nm2 nm1" using c2(1) c1 by simp
  have fl: "fl_ok nm3" using same_listsD [OF S(3,4)] same_listsD [OF cc c2(3)] M(1) by simp
  have root: "free_nid_root nm3 = (free_nid_root nm)(nid \<mapsto> PREALLOC_NID)" using S(4) c2(3) M(3) by (simp add: same_lists_def)
  have c3: "same_cache nm3 nm" using S(3) c2(1) by simp
  have "fn_inv nm3"
    by (rule fn_invI [OF c3 inv fl S(1,2)]) (auto simp: root split: if_splits)
  moreover have "\<not> nid_bit nm3 nid" by (rule S(6))
  moreover have "available_nids nm3 = available_nids nm - 1" using S(5) c2(4) by simp
  ultimately show ?thesis using al r c3 root by blast
qed

lemma alloc_retry: "nid_cnt nm FREE_NID = 0 \<Longrightarrow> available_nids nm \<noteq> 0 \<Longrightarrow> alloc_nid False nm = alloc_nid False (build_free_nids True True False nm)"
  by (simp add: alloc_nid.simps [of False nm])

lemma alloc_nid_done_ok:
  assumes inv: "fn_inv nm" and r: "free_nid_root nm nid = Some PREALLOC_NID"
  shows "fn_inv (alloc_nid_done nid nm)" "same_cache (alloc_nid_done nid nm) nm" "free_nid_root (alloc_nid_done nid nm) = (free_nid_root nm)(nid := None)"
proof -
  have f: "alloc_nid_done nid nm = remove_nid nid PREALLOC_NID nm" using r by (simp add: alloc_nid_done_def)
  note R = remove_nid_ok [OF fn_invD(2) [OF inv] r, folded f]
  have c: "same_cache (alloc_nid_done nid nm) nm" "same_maps (alloc_nid_done nid nm) nm" using R(2) by (simp_all add: list_frame_def)
  show "same_cache (alloc_nid_done nid nm) nm" "free_nid_root (alloc_nid_done nid nm) = (free_nid_root nm)(nid := None)" using c R(3) by simp_all
  have m: "bm_ok (alloc_nid_done nid nm)" "bits_ok (alloc_nid_done nid nm)" using same_mapsD [OF c] fn_invD(3,4) [OF inv] by blast+
  show "fn_inv (alloc_nid_done nid nm)" by (rule fn_invI [OF c(1) inv R(1) m]) (auto simp: R(3) split: if_splits)
qed

lemma alloc_nid_failed_ok:
  assumes inv: "fn_inv nm" and r: "free_nid_root nm nid = Some PREALLOC_NID" and free: "nid_free nm nid"
  shows "fn_inv (alloc_nid_failed mem_ok nid nm)" "same_cache (alloc_nid_failed mem_ok nid nm) nm"
    "free_nid_root (alloc_nid_failed mem_ok nid nm) = (free_nid_root nm)(nid := (if mem_ok then Some FREE_NID else None))"
proof -
  have nid: "0 < nid" "nid < max_nid nm" using fl_okD(5) [OF fn_invD(2) [OF inv]] r by auto
  define nm1 where "nm1 = (if \<not> mem_ok then remove_nid nid PREALLOC_NID nm else move_free_nid nid PREALLOC_NID FREE_NID nm)"
  define nm2 where "nm2 = nm1\<lparr>available_nids := available_nids nm1 + 1\<rparr>"
  let ?nm3 = "update_free_nid_bitmap nid True False nm2"
  have f: "alloc_nid_failed mem_ok nid nm = ?nm3" using r nid by (simp add: alloc_nid_failed_def nm1_def nm2_def Let_def)
  have one: "fl_ok nm1" "list_frame nm1 nm" "free_nid_root nm1 = (free_nid_root nm)(nid := (if mem_ok then Some FREE_NID else None))"
  proof -
    have ne: "PREALLOC_NID \<noteq> FREE_NID" by simp
    note M = move_nid_ok [OF fn_invD(2) [OF inv] r ne] and R = remove_nid_ok(1-3) [OF fn_invD(2) [OF inv] r]
    show "fl_ok nm1" "list_frame nm1 nm" unfolding nm1_def using M(1,2) R(1,2) by (cases mem_ok; simp only: if_True if_False simp_thms)+
    show "free_nid_root nm1 = (free_nid_root nm)(nid := (if mem_ok then Some FREE_NID else None))"
      unfolding nm1_def using M(3) R(3) by (cases mem_ok; simp only: if_True if_False simp_thms)
  qed
  have c2: "same_cache nm2 nm" "same_maps nm2 nm" "same_lists nm2 nm1" "same_cache nm2 nm1"
    using one(2) by (simp_all add: nm2_def list_frame_def same_maps_def same_lists_def nm_cache.truncate_def)
  have m2: "bm_ok nm2" "bits_ok nm2" using same_mapsD [OF c2(1,2)] fn_invD(3,4) [OF inv] by blast+
  have lt2: "nid < max_nid nm2" using nid same_cacheD(2) [OF c2(1)] by simp
  have mb: "may_be_free nm2 nid" using free same_cacheD(6) [OF c2(1)] by (simp add: may_be_free_def nid_free_def)
  note S = set_bit_ok [OF m2 lt2 mb]
  have fl: "fl_ok ?nm3" using same_listsD [OF S(3,4)] same_listsD [OF c2(4,3)] one(1) by blast
  have c3: "same_cache ?nm3 nm" using S(3) c2(1) by simp
  show root: "free_nid_root (alloc_nid_failed mem_ok nid nm) = (free_nid_root nm)(nid := (if mem_ok then Some FREE_NID else None))"
    using S(4) c2(3) one(3) by (simp add: f same_lists_def)
  show "same_cache (alloc_nid_failed mem_ok nid nm) nm" using c3 by (simp add: f)
  show "fn_inv (alloc_nid_failed mem_ok nid nm)"
    unfolding f by (rule fn_invI [OF c3 inv fl S(1,2)]) (use root free in \<open>auto simp: f split: if_splits\<close>)
qed

lemma free_nids_loop_ok:
  assumes "fn_inv nm" "distinct is" "set is \<subseteq> {nid. free_nid_root nm nid = Some FREE_NID}" "free_nids_loop is nr nm = (k, nm')"
  shows "fn_inv nm' \<and> same_cache nm' nm \<and> k \<le> nr"
  using assms
proof (induction "is" nr nm rule: free_nids_loop.induct)
  case (2 i "is" nr nm)
  show ?case
  proof (cases "nr \<le> 0 \<or> nid_cnt nm FREE_NID \<le> int MAX_FREE_NIDS")
    case True
    then show ?thesis using 2(2,5) by auto
  next
    case False
    have r: "free_nid_root nm i = Some FREE_NID" using 2(4) by simp
    let ?n = "remove_nid i FREE_NID nm"
    note R = remove_nid_ok [OF fn_invD(2) [OF 2(2)] r]
    have c: "same_cache ?n nm" "same_maps ?n nm" using R(2) by (simp_all add: list_frame_def)
    have m: "bm_ok ?n" "bits_ok ?n" using same_mapsD [OF c] fn_invD(3,4) [OF 2(2)] by blast+
    have inv: "fn_inv ?n" by (rule fn_invI [OF c(1) 2(2) R(1) m]) (auto simp: R(3) split: if_splits)
    have "set is \<subseteq> {nid. free_nid_root ?n nid = Some FREE_NID}" using 2(3,4) by (auto simp: R(3))
    moreover have "distinct is" "free_nids_loop is (nr - 1) ?n = (k, nm')" using 2(3,5) False by simp_all
    ultimately show ?thesis using 2(1) [OF False inv] c(1) by force
  qed
qed simp

lemma try_to_free_nids_ok:
  assumes inv: "fn_inv nm" and t: "try_to_free_nids locked nr nm = (k, nm')"
  shows "fn_inv nm' \<and> same_cache nm' nm \<and> 0 \<le> k"
proof (cases "nid_cnt nm FREE_NID \<le> int MAX_FREE_NIDS \<or> \<not> locked")
  case True
  then show ?thesis using t inv by (auto simp: try_to_free_nids_def split: if_splits)
next
  case False
  obtain j nm1 where l: "free_nids_loop (free_nid_list nm) nr nm = (j, nm1)" by fastforce
  have "set (free_nid_list nm) \<subseteq> {nid. free_nid_root nm nid = Some FREE_NID}" using fl_okD(2) [OF fn_invD(2) [OF inv]] by simp
  from free_nids_loop_ok [OF inv fl_okD(1) [OF fn_invD(2) [OF inv]] this l] show ?thesis using t l False by (auto simp: try_to_free_nids_def)
qed

text \<open>
  Property C5. Node ids are handed out safely. Whenever ids are available and one is on the free list, or scanning finds one,
  \<^verbatim>\<open>alloc_nid\<close> returns, and the id it returns is within the table, was not handed out before, has no address in memory or on
  disk and no change pending that a checkpoint has not stored yet; it is marked as handed out, and the free list keeps that
  guarantee for the next caller.
\<close>

theorem alloc_nid_safe:
  assumes "fn_inv nm" "0 < max_nid nm" "available_nids nm \<noteq> 0"
    "nid_cnt nm FREE_NID \<noteq> 0 \<or> nid_cnt (build_free_nids True True False nm) FREE_NID \<noteq> 0"
  shows "\<exists>nid nm'. alloc_nid False nm = Some (Some nid, nm') \<and> 0 < nid \<and> nid < max_nid nm \<and> free_nid_root nm nid \<noteq> Some PREALLOC_NID \<and>
    block_addr (nat_view nm nid) = NULL_ADDR \<and> block_addr (nat_stored nm nid) = NULL_ADDR \<and> \<not> nat_dirty nm nid \<and>
    fn_inv nm' \<and> free_nid_root nm' nid = Some PREALLOC_NID \<and> available_nids nm' = available_nids nm - 1 \<and> nat_view nm' = nat_view nm"
proof -
  define nm1 where "nm1 = (if nid_cnt nm FREE_NID \<noteq> 0 then nm else build_free_nids True True False nm)"
  have one: "fn_inv nm1" "scan_frame nm1 nm" "available_nids nm1 = available_nids nm" "nid_cnt nm1 FREE_NID \<noteq> 0"
    "alloc_nid False nm = alloc_nid False nm1"
    using build_free_nids_ok [OF assms(1,2)] assms(1,4) alloc_retry [OF _ assms(3)] by (auto simp: nm1_def)
  have av: "available_nids nm1 \<noteq> 0" using one(3) assms(3) by simp
  obtain nid nm' where A: "alloc_nid False nm1 = Some (Some nid, nm')" "free_nid_root nm1 nid = Some FREE_NID" "fn_inv nm'" "same_cache nm' nm1"
    "free_nid_root nm' = (free_nid_root nm1)(nid \<mapsto> PREALLOC_NID)" "available_nids nm' = available_nids nm1 - 1"
    using alloc_take_ok [OF one(1,4) av] by blast
  have c1: "same_cache nm1 nm" and pre: "free_nid_root nm1 nid \<noteq> Some PREALLOC_NID \<longrightarrow> free_nid_root nm nid \<noteq> Some PREALLOC_NID"
    using one(2) unfolding scan_frame_def by simp_all
  have nid: "0 < nid" "nid < max_nid nm1" using fl_okD(5) [OF fn_invD(2) [OF one(1)]] A(2) by auto
  have fr: "nid_free nm1 nid" by (rule fn_invD(7) [OF one(1) A(2)])
  have "nat_view nm1 nid = nat_stored nm1 nid"
    using fr nat_inv_agree [OF fn_invD(1) [OF one(1)], of nid] by (auto simp: nat_view_def nid_free_def split: option.split)
  then have v: "block_addr (nat_view nm1 nid) = NULL_ADDR" using fr by (simp add: nid_free_def)
  note s = same_cacheD(2,5,6,7) [OF c1] same_cacheD(7) [OF A(4)]
  have "max_nid nm1 = max_nid nm" using s(1) by blast
  then show ?thesis using A nid v fr one(3,5) pre s(2-5) by (auto simp: nid_free_def)
qed

text \<open>A small table with one free id found.\<close>

definition demo_nm :: nm_info where
  "demo_nm = \<lparr>max_nid = NAT_ENTRY_PER_BLOCK, nat_root = Map.empty, nat_entries = [], nat_cnt = 0, nat_set_root = Map.empty, dirty_nat_cnt = 0,
     nm_area = \<lparr>nat_blkaddr = 100, na_log_blocks_per_seg = 9, nat_bitmap = [0]\<rparr>,
     nm_meta = (\<lambda>_. replicate NAT_ENTRY_PER_BLOCK \<lparr>rn_version = 0, rn_ino = 0, block_addr = 0\<rparr>),
     nm_jnl = \<lparr>n_ents = 0, j_entries = replicate NAT_JOURNAL_ENTRIES (0, \<lparr>rn_version = 0, rn_ino = 0, block_addr = 0\<rparr>)\<rparr>, nm_bug = False,
     free_nid_root = [4 \<mapsto> FREE_NID], free_nid_list = [4], nid_cnt = (\<lambda>s. if s = FREE_NID then 1 else 0), available_nids = 452,
     nat_block_bitmap = [0], free_nid_bitmap = [replicate 57 0], free_nid_count = [0], next_scan_nid = 5, nat_blocks = 1,
     empty_nat_bits = [0], full_nat_bits = [0], CP_NAT_BITS_FLAG = False\<rparr>"

lemma demo_nm_nat_inv: "nat_inv demo_nm" "jmap (nm_jnl demo_nm) = Map.empty" "\<not> nat_dirty demo_nm nid" "nid < 455 \<Longrightarrow> block_addr (nat_stored demo_nm nid) = 0"
proof -
  show j: "jmap (nm_jnl demo_nm) = Map.empty" by (simp add: demo_nm_def jmap_def)
  show d: "\<not> nat_dirty demo_nm nid" for nid by (simp add: nat_dirty_def demo_nm_def)
  have dl: "nat_dirty demo_nm = (\<lambda>_. False)" using d by auto
  have p: "get_current_nat_page (nm_area demo_nm) (nm_meta demo_nm) nid = replicate NAT_ENTRY_PER_BLOCK \<lparr>rn_version = 0, rn_ino = 0, block_addr = 0\<rparr>" for nid
    by (simp add: get_current_nat_page_def demo_nm_def)
  have o: "nid mod NAT_ENTRY_PER_BLOCK < NAT_ENTRY_PER_BLOCK" for nid by (simp add: NAT_ENTRY_PER_BLOCK_def)
  show "nid < 455 \<Longrightarrow> block_addr (nat_stored demo_nm nid) = 0" using o [of nid] by (simp add: nat_stored_def j p NEPB(2))
  have "nat_wf demo_nm" unfolding nat_wf_def nat_sets_ok_def dl by (simp add: demo_nm_def)
  moreover have "nat_disk_ok demo_nm"
  proof -
    have jo: "jnl_ok NAT_JOURNAL_ENTRIES (nm_jnl demo_nm)" by (simp add: jnl_ok_def demo_nm_def NAT_JOURNAL_ENTRIES_def)
    have "nat_ok (nm_area demo_nm) (NAT_BLOCK_OFFSET nid)" if "nid < max_nid demo_nm" for nid
      using that by (simp add: nat_ok_def demo_nm_def NAT_BLOCK_OFFSET_def NAT_ENTRY_PER_BLOCK_def)
    then show ?thesis using jo o unfolding nat_disk_ok_def j p by (simp add: NEPB(2) NEW_ADDR_def)
  qed
  moreover have "nat_root demo_nm = Map.empty" by (simp add: demo_nm_def)
  ultimately show "nat_inv demo_nm" unfolding nat_inv_def by simp
qed

lemma demo_nm_inv: "fn_inv demo_nm"
proof -
  have z: "\<not> test_bit_le i (replicate n 0)" for i n by (simp add: test_bit_le_def arr_get_def)
  have c: "bit_count (\<lambda>i. test_bit_le i (replicate 57 0)) NAT_ENTRY_PER_BLOCK = 0" using z by (simp add: bit_count_card)
  have fl: "fl_ok demo_nm" by (auto simp: fl_ok_def demo_nm_def NAT_ENTRY_PER_BLOCK_def)
  have bm: "bm_ok demo_nm" unfolding bm_ok_def using c z by (simp add: demo_nm_def NAT_ENTRY_PER_BLOCK_def)
  have bits: "bits_ok demo_nm" unfolding bits_ok_def using demo_nm_nat_inv(4) by (simp add: demo_nm_def NAT_ENTRY_PER_BLOCK_def NULL_ADDR_def)
  have ck: "ckpt_ok demo_nm" by (simp add: ckpt_ok_def demo_nm_def)
  have "free_list_safe demo_nm"
    unfolding free_list_safe_def nid_free_def using demo_nm_nat_inv(3,4) by (auto simp: NULL_ADDR_def demo_nm_def split: if_splits)
  moreover have "\<not> nm_bug demo_nm" by (simp add: demo_nm_def)
  ultimately show ?thesis using demo_nm_nat_inv(1) fl bm bits ck unfolding fn_inv_def by blast
qed

theorem alloc_nid_safe_witness:
  "nid_cnt demo_nm FREE_NID = 1 \<and> (\<exists>nid nm'. alloc_nid False demo_nm = Some (Some nid, nm') \<and> block_addr (nat_view demo_nm nid) = NULL_ADDR \<and>
     free_nid_root nm' nid = Some PREALLOC_NID \<and> available_nids nm' = 451)"
proof -
  have c: "nid_cnt demo_nm FREE_NID = 1" "available_nids demo_nm = 452" "max_nid demo_nm = 455" by (simp_all add: demo_nm_def NAT_ENTRY_PER_BLOCK_def)
  show ?thesis using alloc_nid_safe [OF demo_nm_inv] c by fastforce
qed

end
