(* ===== verification/Nat_Flush.thy ===== *)
theory Nat_Flush
  imports Free_Nids
begin

text \<open>
  Writing the node address table at a checkpoint (\<^verbatim>\<open>flush_nat_entries\<close> and its helpers in \<^verbatim>\<open>node.c\<close>), and runs of
  the operations on the table. Dirty entries go, set by set, to the journal while they fit, the rest to the next copy of their
  table block; ids whose node was removed become free again. Entries of nodes that have no place on disk yet stay dirty.
\<close>

section \<open>The flush\<close>

definition enabled_nat_bits :: "nm_info \<Rightarrow> bool option \<Rightarrow> bool" where
  "enabled_nat_bits nm cpc_umount = (case cpc_umount of Some umount \<Rightarrow> umount \<and> CP_NAT_BITS_FLAG nm | None \<Rightarrow> CP_NAT_BITS_FLAG nm)"

definition remove_nat_step :: "nat \<Rightarrow> nm_info \<Rightarrow> nm_info" where
  "remove_nat_step i nm =
     (case j_entries (nm_jnl nm) ! i of (nid, raw_ne) \<Rightarrow>
        let nm = (if nat_root nm nid = None then init_nat_entry (alloc_nat_entry nid) (Some raw_ne) nm else nm);
            nm = (if \<not> nat_dirty nm nid \<and> block_addr raw_ne = NULL_ADDR then nm\<lparr>available_nids := available_nids nm - 1\<rparr> else nm)
        in set_nat_cache_dirty nid nm)"

definition remove_nats_in_journal :: "nm_info \<Rightarrow> nm_info" where
  "remove_nats_in_journal nm =
     (let n = n_ents (nm_jnl nm); nm = fold remove_nat_step [0..<n] nm
      in nm\<lparr>nm_jnl := fst (update_ents_in_cursum (nm_jnl nm) (- int n))\<rparr>)"

text \<open>Sets are kept in the order of their entry counts; \<open>cnt\<close> gives the count of a set.\<close>

definition adjust_nat_entry_set :: "(nat \<Rightarrow> int) \<Rightarrow> int \<Rightarrow> nat \<Rightarrow> nat list \<Rightarrow> nat list" where
  "adjust_nat_entry_set cnt mx nes head =
     (if cnt nes \<ge> mx mod 2 ^ 32 then head @ [nes]
      else takeWhile (\<lambda>cur. \<not> cnt cur \<ge> cnt nes) head @ nes # dropWhile (\<lambda>cur. \<not> cnt cur \<ge> cnt nes) head)"

definition entry_cnt_of :: "nm_info \<Rightarrow> nat \<Rightarrow> int" where
  "entry_cnt_of nm s = (case nat_set_root nm s of Some h \<Rightarrow> set_cnt h | None \<Rightarrow> 0)"

definition gang_lookup_nat_set :: "nm_info \<Rightarrow> nat \<Rightarrow> nat \<Rightarrow> nat list" where
  "gang_lookup_nat_set nm start nr = take nr (filter (\<lambda>s. nat_set_root nm s \<noteq> None) [start..<nat_blocks nm])"

definition MAX_NAT_JENTRIES :: "'e f2fs_journal \<Rightarrow> int" where
  "MAX_NAT_JENTRIES jnl = int NAT_JOURNAL_ENTRIES - int (n_ents jnl)"

definition SETVEC_SIZE :: nat where "SETVEC_SIZE = 32"

lemma gang_lookup_range: "s \<in> set (gang_lookup_nat_set nm start nr) \<Longrightarrow> start \<le> s \<and> s < nat_blocks nm \<and> nat_set_root nm s \<noteq> None"
  by (auto simp: gang_lookup_nat_set_def dest: in_set_takeD)

function gang_loop :: "nm_info \<Rightarrow> nat \<Rightarrow> nat list \<Rightarrow> nat list" where
  "gang_loop nm set_idx sets =
     (let setvec = gang_lookup_nat_set nm set_idx SETVEC_SIZE
      in if setvec = [] then sets
         else gang_loop nm (last setvec + 1) (fold (adjust_nat_entry_set (entry_cnt_of nm) (MAX_NAT_JENTRIES (nm_jnl nm))) setvec sets))"
  by auto

termination
proof (relation "measure (\<lambda>(nm, set_idx, sets). nat_blocks nm - set_idx)")
  fix nm set_idx and sets setvec :: "nat list"
  assume v: "setvec = gang_lookup_nat_set nm set_idx SETVEC_SIZE" "setvec \<noteq> []"
  then have "last setvec \<in> set (gang_lookup_nat_set nm set_idx SETVEC_SIZE)" by (metis last_in_set)
  from gang_lookup_range [OF this]
  show "((nm, last setvec + 1, fold (adjust_nat_entry_set (entry_cnt_of nm) (MAX_NAT_JENTRIES (nm_jnl nm))) setvec sets), nm, set_idx, sets)
      \<in> measure (\<lambda>(nm, set_idx, sets). nat_blocks nm - set_idx)" by auto
qed simp

definition update_nat_bits :: "nat \<Rightarrow> f2fs_nat_entry list \<Rightarrow> nm_info \<Rightarrow> nm_info" where
  "update_nat_bits start_nid page nm =
     (let nat_index = start_nid div NAT_ENTRY_PER_BLOCK;
          first = (if nat_index = 0 then 1 else 0);
          valid = first + length (filter (\<lambda>i. block_addr (page ! i) \<noteq> NULL_ADDR) [first..<NAT_ENTRY_PER_BLOCK])
      in if \<not> enabled_nat_bits nm None then nm
         else if valid = 0 then nm\<lparr>empty_nat_bits := set_bit_le nat_index (empty_nat_bits nm), full_nat_bits := clear_bit_le nat_index (full_nat_bits nm)\<rparr>
         else nm\<lparr>empty_nat_bits := clear_bit_le nat_index (empty_nat_bits nm),
                 full_nat_bits := (if valid = NAT_ENTRY_PER_BLOCK then set_bit_le else clear_bit_le) nat_index (full_nat_bits nm)\<rparr>)"

text \<open>One entry of set \<open>st\<close>, to the journal or into the page at \<open>dst\<close>.\<close>

definition flush_nat_entry :: "bool \<Rightarrow> nat \<Rightarrow> nat \<Rightarrow> nat \<Rightarrow> nm_info \<Rightarrow> nm_info" where
  "flush_nat_entry to_journal dst st nid nm =
     (case nat_root nm nid of
        None \<Rightarrow> nm
      | Some ne \<Rightarrow>
          let start_nid = st * NAT_ENTRY_PER_BLOCK;
              nm = nm_bug_on (blk_addr ne = NEW_ADDR) nm;
              raw_ne = raw_nat_from_node_info ne;
              nm = (if to_journal then
                      (case journal_store NAT_JOURNAL_ENTRIES nid raw_ne (nm_jnl nm) of (j, bug) \<Rightarrow> nm_bug_on bug (nm\<lparr>nm_jnl := j\<rparr>))
                    else nm\<lparr>nm_meta := (nm_meta nm)(dst := (nm_meta nm dst)[nid - start_nid := raw_ne])\<rparr>);
              nm = put_ne nid (nat_reset_flag ne) nm;
              nm = clear_nat_cache_dirty st nid nm
          in if blk_addr ne = NULL_ADDR then snd (add_free_nid nid False True nm) else update_free_nid_bitmap nid False False nm)"

definition flush_nat_entry_set :: "bool \<Rightarrow> nat \<Rightarrow> nm_info \<Rightarrow> nm_info" where
  "flush_nat_entry_set umount st nm =
     (case nat_set_root nm st of
        None \<Rightarrow> nm
      | Some set0 \<Rightarrow>
          let start_nid = st * NAT_ENTRY_PER_BLOCK;
              to_journal = (\<not> (enabled_nat_bits nm (Some umount) \<or> \<not> has_cursum_space NAT_JOURNAL_ENTRIES (nm_jnl nm) (nat (set_cnt set0))));
              (nm, dst) =
                (if to_journal then (nm, 0)
                 else case get_next_nat_page start_nid (nm_area nm, nm_meta nm) of
                        ((a, m), dst) \<Rightarrow> (nm\<lparr>nm_area := a, nm_meta := m\<rparr>, dst));
              nm = fold (flush_nat_entry to_journal dst st) (set_list set0) nm;
              nm = (if to_journal then nm else update_nat_bits start_nid (nm_meta nm dst) nm)
          in if entry_cnt_of nm st = 0 then nm\<lparr>nat_set_root := (nat_set_root nm)(st := None)\<rparr> else nm)"

definition flush_nat_entries :: "bool \<Rightarrow> nm_info \<Rightarrow> nm_info" where
  "flush_nat_entries umount nm =
     (if dirty_nat_cnt nm = 0 then nm
      else
        let nm = (if enabled_nat_bits nm (Some umount) \<or> \<not> has_cursum_space NAT_JOURNAL_ENTRIES (nm_jnl nm) (nat (dirty_nat_cnt nm))
                  then remove_nats_in_journal nm else nm);
            sets = gang_loop nm 0 []
        in fold (flush_nat_entry_set umount) sets nm)"

section \<open>Removing the journal\<close>

text \<open>During a flush, ids on the free list may have a pending entry again, but none that gives them an address.\<close>

definition mid_inv :: "nm_info \<Rightarrow> bool" where
  "mid_inv nm \<longleftrightarrow> nat_inv nm \<and> fl_ok nm \<and> bm_ok nm \<and> bits_ok nm \<and> \<not> nm_bug nm \<and>
     (\<forall>nid. free_nid_root nm nid = Some FREE_NID \<longrightarrow> block_addr (nat_view nm nid) = NULL_ADDR)"

lemma mid_invD:
  assumes "mid_inv nm"
  shows "nat_inv nm" "fl_ok nm" "bm_ok nm" "bits_ok nm" "\<not> nm_bug nm" "free_nid_root nm nid = Some FREE_NID \<Longrightarrow> block_addr (nat_view nm nid) = NULL_ADDR"
    "nat_wf nm" "nat_disk_ok nm"
  using assms unfolding mid_inv_def nat_inv_def by blast+

lemma clean_view: "nat_inv nm \<Longrightarrow> \<not> nat_dirty nm nid \<Longrightarrow> nat_view nm nid = nat_stored nm nid"
  using nat_inv_agree [of nm nid] by (auto simp: nat_view_def split: option.split)

lemma fn_inv_mid: "fn_inv nm \<Longrightarrow> mid_inv nm"
  using fn_invD [of nm] clean_view [of nm] unfolding mid_inv_def nid_free_def by metis

text \<open>What the free-id part of the state is, apart from the number of available ids.\<close>

definition same_free :: "nm_info \<Rightarrow> nm_info \<Rightarrow> bool" where
  "same_free nm' nm \<longleftrightarrow> same_lists nm' nm \<and> same_maps nm' nm \<and> CP_NAT_BITS_FLAG nm' = CP_NAT_BITS_FLAG nm"

lemma same_freeD:
  assumes "same_free nm' nm" "max_nid nm' = max_nid nm"
  shows "fl_ok nm' = fl_ok nm" "bm_ok nm' = bm_ok nm" "nid_bit nm' = nid_bit nm" "free_nid_root nm' = free_nid_root nm" "nat_blocks nm' = nat_blocks nm"
proof -
  have l: "same_lists nm' nm" and m: "same_maps nm' nm" using assms(1) by (simp_all add: same_free_def)
  show "fl_ok nm' = fl_ok nm" using l assms(2) unfolding same_lists_def fl_ok_def by (elim conjE) (simp only:)
  show "bm_ok nm' = bm_ok nm" using m assms(2) unfolding same_maps_def bm_ok_def by (elim conjE) (simp only:)
  show "nid_bit nm' = nid_bit nm" using m by (intro ext) (simp only: same_maps_def nid_bit_def)
  show "free_nid_root nm' = free_nid_root nm" "nat_blocks nm' = nat_blocks nm" using l m by (simp_all add: same_lists_def same_maps_def)
qed

lemma more_free: "nm_cache.more nm' = nm_cache.more nm \<Longrightarrow> same_free nm' nm \<and> available_nids nm' = available_nids nm"
  by (cases nm; cases nm') (simp add: same_free_def same_lists_def same_maps_def)

lemma mark_dirty_mid:
  assumes inv: "mid_inv nm" and e: "nat_root nm nid = Some e"
  defines "nm' \<equiv> set_nat_cache_dirty nid nm"
  shows "mid_inv nm'" "nat_view nm' = nat_view nm" "same_disk nm' nm" "nat_dirty nm' x = (x = nid \<or> nat_dirty nm x)" "same_free nm' nm"
    "nat_new nm' = nat_new nm"
proof -
  have wf: "nat_wf nm" by (rule mid_invD(7) [OF inv])
  have put: "put_ne nid e nm = nm" using e by (simp add: put_ne_def fun_upd_idem)
  have eid: "ni_nid e = nid" "nid < max_nid nm" using nat_wfD(1) [OF wf e] by blast+
  note M = mark_wf [OF wf e eid(1) refl, unfolded put, folded nm'_def]
  have d: "nat_dirty nm' x = (x = nid \<or> nat_dirty nm x)" for x by (simp add: nat_dirty_def M(2))
  then show "nat_dirty nm' x = (x = nid \<or> nat_dirty nm x)" .
  show sd: "same_disk nm' nm" by (rule M(3))
  have st: "nat_stored nm' = nat_stored nm" using same_diskD [OF sd] by blast
  show v: "nat_view nm' = nat_view nm"
    using st e by (intro ext) (auto simp: nat_view_def M(2) split: option.split)
  show sf: "same_free nm' nm" using more_free [OF M(5)] by blast
  have new: "blk_addr e \<noteq> NEW_ADDR" if "\<not> nat_dirty nm nid"
    using nat_inv_agree [OF mid_invD(1) [OF inv] e that] stored_not_new [OF mid_invD(8) [OF inv] eid(2)]
    by (metis f2fs_nat_entry.select_convs(3) raw_nat_from_node_info_def)
  show "nat_new nm' = nat_new nm"
    using e new by (intro ext) (auto simp: nat_new_def nat_dirty_def M(2))
  have ni: "nat_inv nm'"
  proof (rule nat_invI [OF M(1) sd mid_invD(1) [OF inv]])
    fix y z assume "nat_root nm' y = Some z" "\<not> nat_dirty nm' y"
    then show "raw_nat_from_node_info z = nat_stored nm y" using nat_inv_agree [OF mid_invD(1) [OF inv]] d by (auto simp: M(2) split: if_splits)
  qed
  have mx: "max_nid nm' = max_nid nm" using sd by blast
  note F = same_freeD [OF sf mx]
  have ij: "in_journal nm' = in_journal nm" using sd by (intro ext) (simp add: in_journal_def)
  have "bits_ok nm'" using mid_invD(4) [OF inv] d unfolding bits_ok_def F ij st mx by blast
  then show "mid_inv nm'" using ni mid_invD(2,3,5,6) [OF inv] M(4) unfolding mid_inv_def F v by simp
qed

lemma remove_step_ok:
  assumes inv: "mid_inv nm" and i: "i < n_ents (nm_jnl nm)"
  defines "nm' \<equiv> remove_nat_step i nm" and "nid \<equiv> fst (j_entries (nm_jnl nm) ! i)"
  shows "mid_inv nm'" "nat_view nm' = nat_view nm" "same_disk nm' nm" "nat_dirty nm' x = (x = nid \<or> nat_dirty nm x)" "same_free nm' nm"
    "nat_new nm' = nat_new nm"
proof -
  obtain raw where ent: "j_entries (nm_jnl nm) ! i = (nid, raw)" by (metis nid_def prod.collapse)
  have dk: "nat_disk_ok nm" by (rule mid_invD(8) [OF inv])
  then have l: "n_ents (nm_jnl nm) \<le> length (j_entries (nm_jnl nm))" "distinct (map fst (take (n_ents (nm_jnl nm)) (j_entries (nm_jnl nm))))"
    by (simp_all add: nat_disk_ok_def jnl_ok_def)
  have "(nid, raw) \<in> set (take (n_ents (nm_jnl nm)) (j_entries (nm_jnl nm)))" using i l(1) ent by (metis in_set_conv_nth length_take min.absorb2 nth_take)
  then have j: "jmap (nm_jnl nm) nid = Some raw" using l(2) by (simp add: jmap_def)
  then have lt: "nid < max_nid nm" and st: "nat_stored nm nid = raw" using dk by (auto simp: nat_disk_ok_def nat_stored_def)
  define nm1 where "nm1 = (if nat_root nm nid = None then init_nat_entry (alloc_nat_entry nid) (Some raw) nm else nm)"
  have one: "mid_inv nm1 \<and> nat_view nm1 = nat_view nm \<and> same_disk nm1 nm \<and> nat_dirty nm1 = nat_dirty nm \<and> same_free nm1 nm \<and> nat_new nm1 = nat_new nm \<and>
    nat_root nm1 nid \<noteq> None"
  proof (cases "nat_root nm nid")
    case (Some e)
    then show ?thesis using inv by (simp add: nm1_def same_free_def same_lists_def same_maps_def)
  next
    case None
    then have nm1: "nm1 = init_nat_entry (alloc_nat_entry nid) (Some raw) nm" by (simp add: nm1_def)
    note I = init_wf [OF mid_invD(7) [OF inv] None lt, of "alloc_nat_entry nid" "Some raw", simplified, folded nm1]
    have sd: "same_disk nm1 nm" using I(4) by blast
    have st': "nat_stored nm1 = nat_stored nm" using same_diskD [OF sd] by blast
    have v: "nat_view nm1 = nat_view nm" using st' st None by (intro ext) (auto simp: nat_view_def I(2) split: option.split)
    have ni: "nat_inv nm1"
    proof (rule nat_invI [OF I(1) sd mid_invD(1) [OF inv]])
      fix y z assume "nat_root nm1 y = Some z" "\<not> nat_dirty nm1 y"
      then show "raw_nat_from_node_info z = nat_stored nm y"
        using nat_inv_agree [OF mid_invD(1) [OF inv]] I(3) st by (auto simp: I(2) split: if_splits)
    qed
    have sf: "same_free nm1 nm" using more_free [OF I(6)] by blast
    have mx: "max_nid nm1 = max_nid nm" using sd by blast
    note F = same_freeD [OF sf mx]
    have ij: "in_journal nm1 = in_journal nm" using sd by (intro ext) (simp add: in_journal_def)
    have "bits_ok nm1" using mid_invD(4) [OF inv] unfolding bits_ok_def F ij st' mx I(3) .
    then have mi: "mid_inv nm1" using ni mid_invD(2,3,5,6) [OF inv] I(5) unfolding mid_inv_def F v by simp
    have "nat_new nm1 = nat_new nm" using None by (intro ext) (auto simp: nat_new_def I(2))
    then show ?thesis using mi v sd sf I(2,3) by simp
  qed
  define nm2 where "nm2 = (if \<not> nat_dirty nm1 nid \<and> block_addr raw = NULL_ADDR then nm1\<lparr>available_nids := available_nids nm1 - 1\<rparr> else nm1)"
  have c: "same_cache nm2 nm1" "same_free nm2 nm1" by (simp_all add: nm2_def nm_cache.truncate_def same_free_def same_lists_def same_maps_def)
  note S = same_cacheD [OF c(1)]
  have mx: "max_nid nm2 = max_nid nm1" using S(2) by blast
  note F = same_freeD [OF c(2) mx]
  have mi1: "mid_inv nm1" using one by blast
  have "bits_ok nm2" using mid_invD(4) [OF mi1] unfolding bits_ok_def F S(5,6,9) mx .
  then have mi2: "mid_inv nm2" using mid_invD(1-3,5,6) [OF mi1] S(3,4) unfolding mid_inv_def F S(7) by simp
  have n2: "nat_new nm2 = nat_new nm1" using S(1) by (intro ext) (simp add: nat_new_def)
  obtain e where e: "nat_root nm2 nid = Some e" using one S(1) by auto
  have nm': "nm' = set_nat_cache_dirty nid nm2" by (simp add: nm'_def remove_nat_step_def ent nm1_def nm2_def Let_def)
  note M = mark_dirty_mid [OF mi2 e, folded nm']
  show "mid_inv nm'" "nat_view nm' = nat_view nm" "nat_new nm' = nat_new nm" using M(1,2,6) one S(7) n2 by simp_all
  show "same_disk nm' nm" using M(3) S(2) one by simp
  show "nat_dirty nm' x = (x = nid \<or> nat_dirty nm x)" using M(4) [of x] S(5) one by simp
  show "same_free nm' nm" using M(5) c(2) one by (simp add: same_free_def same_lists_def same_maps_def)
qed

lemma remove_fold_ok:
  assumes "mid_inv nm" "\<forall>i \<in> set is. i < n_ents (nm_jnl nm)"
  defines "nm' \<equiv> fold remove_nat_step is nm"
  shows "mid_inv nm' \<and> nat_view nm' = nat_view nm \<and> same_disk nm' nm \<and> same_free nm' nm \<and> nat_new nm' = nat_new nm \<and>
    (\<forall>x. nat_dirty nm' x \<longleftrightarrow> (\<exists>i \<in> set is. x = fst (j_entries (nm_jnl nm) ! i)) \<or> nat_dirty nm x)"
  unfolding nm'_def using assms(1,2)
proof (induction "is" arbitrary: nm)
  case Nil
  then show ?case by (simp add: same_free_def same_lists_def same_maps_def)
next
  case (Cons i "is")
  let ?n = "remove_nat_step i nm"
  have i: "i < n_ents (nm_jnl nm)" using Cons.prems(2) by simp
  note R = remove_step_ok [OF Cons.prems(1) i]
  have j: "nm_jnl ?n = nm_jnl nm" using R(3) by blast
  have "\<forall>i \<in> set is. i < n_ents (nm_jnl ?n)" using Cons.prems(2) j by simp
  note ih = Cons.IH [OF R(1) this, unfolded j]
  let ?r = "fold remove_nat_step is ?n"
  have "nat_view ?r = nat_view nm" "nat_new ?r = nat_new nm" "mid_inv ?r" using ih R(2,6) by simp_all
  moreover have "same_disk ?r nm" using ih R(3) by simp
  moreover have "same_free ?r nm" using ih R(5) by (simp add: same_free_def same_lists_def same_maps_def)
  moreover have "nat_dirty ?r x \<longleftrightarrow> (\<exists>k \<in> set (i # is). x = fst (j_entries (nm_jnl nm) ! k)) \<or> nat_dirty nm x" for x
    using ih R(4) [of x] by auto
  ultimately show ?case by simp
qed

lemma remove_nats_ok:
  assumes inv: "mid_inv nm"
  defines "nm' \<equiv> remove_nats_in_journal nm"
  shows "mid_inv nm'" "nat_view nm' = nat_view nm" "jmap (nm_jnl nm') = Map.empty" "n_ents (nm_jnl nm') = 0" "nm_area nm' = nm_area nm" "nm_meta nm' = nm_meta nm"
    "max_nid nm' = max_nid nm" "same_free nm' nm" "nat_new nm' = nat_new nm" "nat_dirty nm x \<Longrightarrow> nat_dirty nm' x"
proof -
  let ?n = "n_ents (nm_jnl nm)"
  define nm1 where "nm1 = fold remove_nat_step [0..<?n] nm"
  have one: "mid_inv nm1" "nat_view nm1 = nat_view nm" "same_disk nm1 nm" "same_free nm1 nm" "nat_new nm1 = nat_new nm"
    "\<And>x. nat_dirty nm1 x \<longleftrightarrow> (\<exists>i < ?n. x = fst (j_entries (nm_jnl nm) ! i)) \<or> nat_dirty nm x"
    using remove_fold_ok [OF inv, of "[0..<?n]", folded nm1_def] by auto
  have jn: "nm_jnl nm1 = nm_jnl nm" using one(3) by blast
  have dk: "nat_disk_ok nm1" by (rule mid_invD(8) [OF one(1)])
  have len: "?n \<le> length (j_entries (nm_jnl nm))" "jnl_ok NAT_JOURNAL_ENTRIES (nm_jnl nm)"
    using dk jn by (simp_all add: nat_disk_ok_def jnl_ok_def)
  have jd: "nat_dirty nm1 x" if "jmap (nm_jnl nm) x \<noteq> None" for x
  proof -
    obtain e where "jmap (nm_jnl nm) x = Some e" using \<open>jmap (nm_jnl nm) x \<noteq> None\<close> by auto
    then have "(x, e) \<in> set (take ?n (j_entries (nm_jnl nm)))" by (auto simp: jmap_def dest: map_of_SomeD)
    then obtain i where "i < ?n" "j_entries (nm_jnl nm) ! i = (x, e)" using len(1) by (auto simp: in_set_conv_nth)
    then show ?thesis using one(6) by (metis fst_conv)
  qed
  have f: "nm' = nm1\<lparr>nm_jnl := (nm_jnl nm)\<lparr>n_ents := 0\<rparr>\<rparr>"
    by (simp add: nm'_def remove_nats_in_journal_def Let_def update_ents_in_cursum_def nm1_def [symmetric] jn)
  show jm: "jmap (nm_jnl nm') = Map.empty" "n_ents (nm_jnl nm') = 0" by (simp_all add: f jmap_def)
  show ar: "nm_area nm' = nm_area nm" "nm_meta nm' = nm_meta nm" "max_nid nm' = max_nid nm" using one(3) by (simp_all add: f)
  have root: "nat_root nm' = nat_root nm1" by (simp add: f)
  have d: "nat_dirty nm' = nat_dirty nm1" "nat_new nm' = nat_new nm1" using root by (auto simp: nat_dirty_def nat_new_def fun_eq_iff)
  show "nat_new nm' = nat_new nm" "nat_dirty nm x \<Longrightarrow> nat_dirty nm' x" using d one(5,6) by simp_all
  have sf1: "same_free nm' nm1" by (simp add: f same_free_def same_lists_def same_maps_def)
  then show "same_free nm' nm" using one(4) by (simp add: same_free_def same_lists_def same_maps_def)
  have st: "nat_stored nm' x = nat_stored nm1 x" if "\<not> nat_dirty nm1 x" for x
  proof -
    have "jmap (nm_jnl nm) x = None" using that jd by blast
    then show ?thesis by (simp add: nat_stored_def jm jn) (simp add: f)
  qed
  have "nat_view nm' x = nat_view nm1 x" for x
    using st [of x] by (auto simp: nat_view_def root nat_dirty_def split: option.split)
  then have v: "nat_view nm' = nat_view nm1" by blast
  then show "nat_view nm' = nat_view nm" using one(2) by simp
  have wf: "nat_wf nm'" using mid_invD(7) [OF one(1)] unfolding nat_wf_def d root by (simp add: f)
  have jok: "jnl_ok NAT_JOURNAL_ENTRIES (nm_jnl nm')" using len(2) by (simp add: f jnl_ok_def)
  have dk': "nat_disk_ok nm'"
    using dk jok jm(1) unfolding nat_disk_ok_def by (simp add: f)
  have ni: "nat_inv nm'"
    using wf dk' st nat_inv_agree [OF mid_invD(1) [OF one(1)]] unfolding nat_inv_def d root by simp
  have mx1: "max_nid nm' = max_nid nm1" by (simp add: f)
  note F = same_freeD [OF sf1 mx1]
  have "bits_ok nm'" unfolding bits_ok_def F mx1 d
  proof (intro allI impI)
    fix x assume x: "x < max_nid nm1" "nid_bit nm1 x"
    show "nat_dirty nm1 x \<or> in_journal nm' x \<or> block_addr (nat_stored nm' x) = NULL_ADDR"
    proof (cases "nat_dirty nm1 x")
      case False
      then have "\<not> in_journal nm1 x" using jd [of x] jn by (auto simp: in_journal_def split: option.splits)
      then have "block_addr (nat_stored nm1 x) = NULL_ADDR" using mid_invD(4) [OF one(1)] x False unfolding bits_ok_def by blast
      then show ?thesis using st [OF False] by simp
    qed simp
  qed
  then show "mid_inv nm'" using ni mid_invD(2,3,5,6) [OF one(1)] unfolding mid_inv_def F v by (simp add: f)
qed

section \<open>The order of the sets\<close>

lemma set_adjust: "set (adjust_nat_entry_set cnt mx s head) = insert s (set head)"
  "distinct head \<Longrightarrow> s \<notin> set head \<Longrightarrow> distinct (adjust_nat_entry_set cnt mx s head)"
proof -
  let ?P = "\<lambda>cur. \<not> cnt cur \<ge> cnt s"
  have u: "set (takeWhile ?P head) \<union> set (dropWhile ?P head) = set head" by (metis set_append takeWhile_dropWhile_id)
  show "set (adjust_nat_entry_set cnt mx s head) = insert s (set head)" using u by (auto simp: adjust_nat_entry_set_def)
  assume d: "distinct head" "s \<notin> set head"
  have "distinct (takeWhile ?P head @ dropWhile ?P head)" using d(1) by (metis takeWhile_dropWhile_id)
  then have "distinct (takeWhile ?P head)" "distinct (dropWhile ?P head)" "set (takeWhile ?P head) \<inter> set (dropWhile ?P head) = {}"
    unfolding distinct_append by blast+
  then show "distinct (adjust_nat_entry_set cnt mx s head)" using d u unfolding adjust_nat_entry_set_def by auto
qed

lemma fold_adjust:
  assumes "distinct vec" "distinct head" "set vec \<inter> set head = {}"
  shows "set (fold (adjust_nat_entry_set cnt mx) vec head) = set vec \<union> set head" "distinct (fold (adjust_nat_entry_set cnt mx) vec head)"
proof -
  have "set (fold (adjust_nat_entry_set cnt mx) vec head) = set vec \<union> set head \<and> distinct (fold (adjust_nat_entry_set cnt mx) vec head)"
    using assms
  proof (induction vec arbitrary: head)
    case (Cons s vec)
    have "set vec \<inter> set (adjust_nat_entry_set cnt mx s head) = {}" using Cons.prems by (auto simp: set_adjust(1))
    moreover have "distinct (adjust_nat_entry_set cnt mx s head)" using Cons.prems set_adjust(2) by auto
    ultimately show ?case using Cons.IH [of "adjust_nat_entry_set cnt mx s head"] Cons.prems by (auto simp: set_adjust(1))
  qed simp
  then show "set (fold (adjust_nat_entry_set cnt mx) vec head) = set vec \<union> set head" "distinct (fold (adjust_nat_entry_set cnt mx) vec head)" by blast+
qed

lemma sorted_last: "sorted_wrt (<) v \<Longrightarrow> x \<in> set v \<Longrightarrow> x \<le> last v" for x :: nat
  by (induction v) (auto split: if_splits, metis last_in_set less_imp_le)

lemma gang_vec:
  assumes v: "gang_lookup_nat_set nm start nr = v" "0 < nr"
  shows "distinct v" "v = [] \<Longrightarrow> {s. start \<le> s \<and> s < nat_blocks nm \<and> nat_set_root nm s \<noteq> None} = {}"
    "v \<noteq> [] \<Longrightarrow> {s. start \<le> s \<and> s < nat_blocks nm \<and> nat_set_root nm s \<noteq> None} =
       set v \<union> {s. last v + 1 \<le> s \<and> s < nat_blocks nm \<and> nat_set_root nm s \<noteq> None}"
proof -
  let ?f = "filter (\<lambda>s. nat_set_root nm s \<noteq> None) [start..<nat_blocks nm]"
  have so: "sorted_wrt (<) ?f" by (simp add: sorted_wrt_filter)
  have vf: "v = take nr ?f" using v by (simp add: gang_lookup_nat_set_def)
  have fs: "set ?f = {s. start \<le> s \<and> s < nat_blocks nm \<and> nat_set_root nm s \<noteq> None}" by auto
  show "distinct v" using so vf by (simp add: distinct_filter)
  show "v = [] \<Longrightarrow> {s. start \<le> s \<and> s < nat_blocks nm \<and> nat_set_root nm s \<noteq> None} = {}" using vf v(2) fs by (metis list.set(1) neq0_conv take_eq_Nil)
  assume ne: "v \<noteq> []"
  have split: "?f = v @ drop nr ?f" using vf by (metis append_take_drop_id)
  have "sorted_wrt (<) (v @ drop nr ?f)" using so split by metis
  then have lt: "\<forall>x \<in> set v. \<forall>y \<in> set (drop nr ?f). x < y" "sorted_wrt (<) v" by (simp_all add: sorted_wrt_append)
  have le: "x \<le> last v" if "x \<in> set v" for x using sorted_last [OF lt(2) that] .
  have "set ?f = set v \<union> set (drop nr ?f)" using split by (metis set_append)
  moreover have "set (drop nr ?f) = {s. last v + 1 \<le> s \<and> s < nat_blocks nm \<and> nat_set_root nm s \<noteq> None}"
  proof (intro set_eqI iffI)
    fix s assume s: "s \<in> set (drop nr ?f)"
    then have "s \<in> set ?f" by (rule in_set_dropD)
    moreover have "last v < s" using lt(1) last_in_set [OF ne] s by blast
    ultimately show "s \<in> {s. last v + 1 \<le> s \<and> s < nat_blocks nm \<and> nat_set_root nm s \<noteq> None}" unfolding fs by simp
  next
    fix s assume s: "s \<in> {s. last v + 1 \<le> s \<and> s < nat_blocks nm \<and> nat_set_root nm s \<noteq> None}"
    have "last v \<in> set ?f" using ne vf by (metis in_set_takeD last_in_set)
    then have "s \<in> set ?f" using s fs by auto
    moreover have "s \<notin> set v" using le [of s] s by auto
    ultimately show "s \<in> set (drop nr ?f)" using \<open>set ?f = set v \<union> set (drop nr ?f)\<close> by blast
  qed
  ultimately show "{s. start \<le> s \<and> s < nat_blocks nm \<and> nat_set_root nm s \<noteq> None} =
       set v \<union> {s. last v + 1 \<le> s \<and> s < nat_blocks nm \<and> nat_set_root nm s \<noteq> None}" using fs by simp
qed

lemma gang_loop_sets:
  assumes "distinct sets" "\<forall>s \<in> set sets. s < set_idx"
  shows "distinct (gang_loop nm set_idx sets) \<and>
    set (gang_loop nm set_idx sets) = set sets \<union> {s. set_idx \<le> s \<and> s < nat_blocks nm \<and> nat_set_root nm s \<noteq> None}"
  using assms
proof (induction nm set_idx sets rule: gang_loop.induct)
  case (1 nm set_idx sets)
  define v where "v = gang_lookup_nat_set nm set_idx SETVEC_SIZE"
  note V = gang_vec [OF v_def [symmetric]]
  have pos: "0 < SETVEC_SIZE" by (simp add: SETVEC_SIZE_def)
  show ?case
  proof (cases "v = []")
    case True
    then have "gang_loop nm set_idx sets = sets" by (simp add: gang_loop.simps [of nm set_idx sets] v_def [symmetric])
    then show ?thesis unfolding V(2) [OF pos True] using 1(2) by simp
  next
    case False
    let ?s = "fold (adjust_nat_entry_set (entry_cnt_of nm) (MAX_NAT_JENTRIES (nm_jnl nm))) v sets"
    have range: "set_idx \<le> s" if "s \<in> set v" for s using gang_lookup_range [of s nm set_idx SETVEC_SIZE] that by (simp add: v_def)
    then have dj: "set v \<inter> set sets = {}" using 1(3) by force
    note A = fold_adjust [OF V(1) [OF pos] 1(2) dj, of "entry_cnt_of nm" "MAX_NAT_JENTRIES (nm_jnl nm)"]
    have le: "\<forall>s \<in> set ?s. s < last v + 1"
    proof -
      have so: "sorted_wrt (<) v" unfolding v_def gang_lookup_nat_set_def by (intro sorted_wrt_take) (simp add: sorted_wrt_filter)
      have "x \<le> last v" if "x \<in> set v" for x using sorted_last [OF so that] .
      moreover have "s < last v + 1" if "s \<in> set sets" for s using 1(3) that range [of "last v"] False by (metis last_in_set less_le_trans trans_less_add1)
      ultimately show ?thesis using A(1) by (auto simp: less_Suc_eq_le)
    qed
    have ih: "distinct (gang_loop nm (last v + 1) ?s) \<and>
       set (gang_loop nm (last v + 1) ?s) = set ?s \<union> {s. last v + 1 \<le> s \<and> s < nat_blocks nm \<and> nat_set_root nm s \<noteq> None}"
      using 1(1) [OF v_def False A(2) le] .
    have "gang_loop nm set_idx sets = gang_loop nm (last v + 1) ?s" using False by (simp add: gang_loop.simps [of nm set_idx sets] v_def [symmetric])
    then show ?thesis using ih A(1) V(3) [OF pos False] by auto
  qed
qed

section \<open>One entry\<close>

lemma sets_ok_clear:
  assumes ok: "nat_sets_ok d n sets" and h: "sets (NAT_BLOCK_OFFSET nid) = Some h" and d: "d nid" "\<not> n nid"
    and fin: "finite {x. NAT_BLOCK_OFFSET x = NAT_BLOCK_OFFSET nid \<and> d x}" and d': "\<And>x. d' x = (x \<noteq> nid \<and> d x)"
  shows "nat_sets_ok d' n (sets(NAT_BLOCK_OFFSET nid \<mapsto> \<lparr>set_list = removeAll nid (set_list h), set_cnt = set_cnt h - 1\<rparr>))"
proof -
  let ?b = "NAT_BLOCK_OFFSET nid" and ?s = "sets(NAT_BLOCK_OFFSET nid \<mapsto> \<lparr>set_list = removeAll nid (set_list h), set_cnt = set_cnt h - 1\<rparr>)"
  have H: "distinct (set_list h)" "set (set_list h) = {x. NAT_BLOCK_OFFSET x = ?b \<and> d x \<and> \<not> n x}"
    "set_cnt h = int (card {x. NAT_BLOCK_OFFSET x = ?b \<and> d x})" using ok h unfolding nat_sets_ok_def by blast+
  have "{x. NAT_BLOCK_OFFSET x = ?b \<and> d' x} = {x. NAT_BLOCK_OFFSET x = ?b \<and> d x} - {nid}" using d' by auto
  moreover have "card {x. NAT_BLOCK_OFFSET x = ?b \<and> d x} = Suc (card ({x. NAT_BLOCK_OFFSET x = ?b \<and> d x} - {nid}))"
    using fin d by (intro card.remove) auto
  ultimately have c: "set_cnt h - 1 = int (card {x. NAT_BLOCK_OFFSET x = ?b \<and> d' x})" using H(3) by simp
  have l: "set (removeAll nid (set_list h)) = {x. NAT_BLOCK_OFFSET x = ?b \<and> d' x \<and> \<not> n x}" using H(2) d' by auto
  have other: "{x. NAT_BLOCK_OFFSET x = b \<and> d' x} = {x. NAT_BLOCK_OFFSET x = b \<and> d x}"
    "{x. NAT_BLOCK_OFFSET x = b \<and> d' x \<and> \<not> n x} = {x. NAT_BLOCK_OFFSET x = b \<and> d x \<and> \<not> n x}" if "b \<noteq> ?b" for b
    using that d' by auto
  have one: "distinct (set_list k) \<and> set (set_list k) = {x. NAT_BLOCK_OFFSET x = b \<and> d' x \<and> \<not> n x} \<and>
      set_cnt k = int (card {x. NAT_BLOCK_OFFSET x = b \<and> d' x})" if k: "?s b = Some k" for b k
  proof (cases "b = ?b")
    case True
    then have "k = \<lparr>set_list = removeAll nid (set_list h), set_cnt = set_cnt h - 1\<rparr>" using k by simp
    then show ?thesis using True H(1) l c by (simp add: distinct_removeAll)
  next
    case False
    then have "sets b = Some k" using k by simp
    then show ?thesis unfolding other(1) [OF False] other(2) [OF False] using ok unfolding nat_sets_ok_def by blast
  qed
  have "?s (NAT_BLOCK_OFFSET x) \<noteq> None" if "d' x" for x using ok that d' [of x] unfolding nat_sets_ok_def by auto
  then show ?thesis using one unfolding nat_sets_ok_def by blast
qed

lemma clear_wf:
  assumes wf: "nat_wf nm" and e: "nat_root nm nid = Some e" "get_nat_flag e IS_DIRTY" "blk_addr e \<noteq> NEW_ADDR"
  defines "nm' \<equiv> clear_nat_cache_dirty (NAT_BLOCK_OFFSET nid) nid (put_ne nid (nat_reset_flag e) nm)"
  shows "nat_wf nm'" "nat_root nm' = (nat_root nm)(nid \<mapsto> set_nat_flag IS_DIRTY False (nat_reset_flag e))" "same_disk nm' nm" "nm_bug nm' = nm_bug nm"
    "nm_cache.more nm' = nm_cache.more nm" "nat_dirty nm' x = (x \<noteq> nid \<and> nat_dirty nm x)" "nat_new nm' = nat_new nm"
    "\<exists>h. nat_set_root nm (NAT_BLOCK_OFFSET nid) = Some h \<and>
       nat_set_root nm' = (nat_set_root nm)(NAT_BLOCK_OFFSET nid \<mapsto> \<lparr>set_list = removeAll nid (set_list h), set_cnt = set_cnt h - 1\<rparr>)"
proof -
  have dn: "nat_dirty nm nid" "\<not> nat_new nm nid" using e by (simp_all add: nat_dirty_def nat_new_def)
  obtain h where h: "nat_set_root nm (NAT_BLOCK_OFFSET nid) = Some h" using nat_wfD(4) [OF wf] dn(1) unfolding nat_sets_ok_def by blast
  have f: "nm' = nm\<lparr>nat_root := (nat_root nm)(nid \<mapsto> set_nat_flag IS_DIRTY False (nat_reset_flag e)), nat_entries := removeAll nid (nat_entries nm) @ [nid],
      nat_set_root := (nat_set_root nm)(NAT_BLOCK_OFFSET nid \<mapsto> \<lparr>set_list = removeAll nid (set_list h), set_cnt = set_cnt h - 1\<rparr>),
      dirty_nat_cnt := dirty_nat_cnt nm - 1\<rparr>"
    using h by (simp add: nm'_def clear_nat_cache_dirty_def put_ne_def)
  show r: "nat_root nm' = (nat_root nm)(nid \<mapsto> set_nat_flag IS_DIRTY False (nat_reset_flag e))" "same_disk nm' nm" "nm_bug nm' = nm_bug nm"
    "nm_cache.more nm' = nm_cache.more nm" by (simp_all add: f)
  show "\<exists>h. nat_set_root nm (NAT_BLOCK_OFFSET nid) = Some h \<and>
       nat_set_root nm' = (nat_set_root nm)(NAT_BLOCK_OFFSET nid \<mapsto> \<lparr>set_list = removeAll nid (set_list h), set_cnt = set_cnt h - 1\<rparr>)"
    using h by (simp add: f)
  have d: "nat_dirty nm' x = (x \<noteq> nid \<and> nat_dirty nm x)" for x by (simp add: nat_dirty_def r(1))
  then show "nat_dirty nm' x = (x \<noteq> nid \<and> nat_dirty nm x)" .
  show n: "nat_new nm' = nat_new nm" using e by (intro ext) (simp add: nat_new_def r(1))
  have so: "nat_sets_ok (nat_dirty nm') (nat_new nm') (nat_set_root nm')"
    using sets_ok_clear [OF nat_wfD(4) [OF wf] h dn nat_finite(3) [OF wf] d] unfolding n by (simp add: f)
  have "{x. nat_dirty nm x} = insert nid {x. nat_dirty nm' x}" "nid \<notin> {x. nat_dirty nm' x}" using d dn by auto
  moreover have "finite {x. nat_dirty nm' x}" using nat_finite(2) [OF wf] by (rule rev_finite_subset) (auto simp: d)
  ultimately have "card {x. nat_dirty nm x} = Suc (card {x. nat_dirty nm' x})" by simp
  then have cnt: "dirty_nat_cnt nm' = int (card {x. nat_dirty nm' x})" using nat_wfD(5) [OF wf] by (simp add: f)
  have dm: "dom (nat_root nm') = dom (nat_root nm)" using e by (auto simp: r(1))
  have lst: "distinct (nat_entries nm')" "set (nat_entries nm') = {x \<in> dom (nat_root nm'). \<not> nat_dirty nm' x}"
    using nat_wfD(2,3) [OF wf] e(1) unfolding dm d by (auto simp: f distinct_removeAll)
  have ids: "ni_nid y = x \<and> x < max_nid nm'" if "nat_root nm' x = Some y" for x y
    using that nat_wfD(1) [OF wf] e(1) unfolding r(1) by (auto simp: f split: if_splits)
  have "nat_cnt nm' = int (card (dom (nat_root nm')))" using nat_wfD(6) [OF wf] unfolding dm by (simp add: f)
  then show "nat_wf nm'" using so cnt lst ids unfolding nat_wf_def by blast
qed

text \<open>
  Storing an entry: \<open>nm1\<close> is \<open>nm\<close> with the stored entry of the node id replaced by the one in memory, in the journal or in the page.
\<close>

definition stored_at :: "nat \<Rightarrow> f2fs_nat_entry \<Rightarrow> nm_info \<Rightarrow> nm_info \<Rightarrow> bool" where
  "stored_at nid raw nm1 nm \<longleftrightarrow> nat_root nm1 = nat_root nm \<and> nat_wf nm1 \<and> nat_disk_ok nm1 \<and> max_nid nm1 = max_nid nm \<and> nm_bug nm1 = nm_bug nm \<and>
     nm_cache.more nm1 = nm_cache.more nm \<and> (\<forall>x < max_nid nm. nat_stored nm1 x = (if x = nid then raw else nat_stored nm x)) \<and>
     (\<forall>x. x \<noteq> nid \<longrightarrow> jmap (nm_jnl nm1) x = jmap (nm_jnl nm) x)"

text \<open>What holds of every step of the flush, relative to the state at its start.\<close>

definition view_kept :: "nm_info \<Rightarrow> nm_info \<Rightarrow> bool" where
  "view_kept nm' nm \<longleftrightarrow> (\<forall>x < max_nid nm. nat_view nm' x = nat_view nm x) \<and> max_nid nm' = max_nid nm"

lemma bits_free_ok:
  assumes mi: "bm_ok nm" "fl_ok nm" "bits_ok nm" and nid: "nid < max_nid nm" and st: "block_addr (nat_stored nm nid) = NULL_ADDR"
  defines "nm' \<equiv> snd (add_free_nid nid False True nm)"
  shows "bm_ok nm'" "fl_ok nm'" "bits_ok nm'" "same_cache nm' nm" "nat_blocks nm' = nat_blocks nm" "CP_NAT_BITS_FLAG nm' = CP_NAT_BITS_FLAG nm"
    "free_nid_root nm' = (if nid \<noteq> 0 \<and> free_nid_root nm nid = None then (free_nid_root nm)(nid \<mapsto> FREE_NID) else free_nid_root nm)"
proof -
  have "bm_ok nm' \<and> fl_ok nm' \<and> bits_ok nm' \<and> same_cache nm' nm \<and> nat_blocks nm' = nat_blocks nm \<and> CP_NAT_BITS_FLAG nm' = CP_NAT_BITS_FLAG nm \<and>
    free_nid_root nm' = (if nid \<noteq> 0 \<and> free_nid_root nm nid = None then (free_nid_root nm)(nid \<mapsto> FREE_NID) else free_nid_root nm)"
  proof (cases "nid = 0")
    case True
    then show ?thesis using mi by (simp add: nm'_def add_free_nid_def)
  next
    case False
    then have pos: "0 < nid" by simp
    define nm1 where "nm1 = snd (insert_free_nid nid FREE_NID FREE_NID nm)"
    define nm2 where "nm2 = update_free_nid_bitmap nid True False nm1"
    have nm': "nm' = nm2\<lparr>available_nids := available_nids nm2 + 1\<rparr>" using False by (simp add: nm'_def add_free_nid_def nm1_def nm2_def Let_def)
    note I = insert_free_ok [OF mi(2) pos nid, folded nm1_def]
    have c1: "same_cache nm1 nm" "same_maps nm1 nm" using I(2) by (simp_all add: list_frame_def)
    have fl1: "CP_NAT_BITS_FLAG nm1 = CP_NAT_BITS_FLAG nm" by (simp add: nm1_def insert_free_nid_def Let_def nm_bug_on_def)
    have fl2: "CP_NAT_BITS_FLAG nm2 = CP_NAT_BITS_FLAG nm1" by (simp add: nm2_def update_free_nid_bitmap_def Let_def)
    have m1: "bm_ok nm1" "bits_ok nm1" using same_mapsD [OF c1] mi(1,3) by simp_all
    have lt1: "nid < max_nid nm1" using nid same_cacheD(2) [OF c1(1)] by simp
    have mb: "may_be_free nm1 nid" using st same_cacheD(6) [OF c1(1)] by (simp add: may_be_free_def)
    note S = set_bit_ok [OF m1 lt1 mb, where on = True, folded nm2_def]
    have nb: "nat_blocks nm2 = nat_blocks nm" using c1(2) update_bitmap_ok(7) [OF m1(1) lt1, of False True] by (simp add: nm2_def same_maps_def)
    have c2: "same_cache nm' nm2" "same_lists nm' nm2" "same_maps nm' nm2"
      by (simp_all add: nm' nm_cache.truncate_def same_lists_def same_maps_def)
    have "fl_ok nm'" using same_listsD [OF c2(1,2)] same_listsD [OF S(3,4)] I(1) by simp
    moreover have "bm_ok nm'" "bits_ok nm'" using same_mapsD [OF c2(1,3)] S(1,2) by simp_all
    moreover have "same_cache nm' nm" using c2(1) S(3) c1(1) by simp
    moreover have "free_nid_root nm' = free_nid_root nm1" using c2(2) S(4) by (simp add: same_lists_def)
    ultimately show ?thesis using nb I(3) False fl1 fl2 by (simp add: nm')
  qed
  then show "bm_ok nm'" "fl_ok nm'" "bits_ok nm'" "same_cache nm' nm" "nat_blocks nm' = nat_blocks nm" "CP_NAT_BITS_FLAG nm' = CP_NAT_BITS_FLAG nm"
    "free_nid_root nm' = (if nid \<noteq> 0 \<and> free_nid_root nm nid = None then (free_nid_root nm)(nid \<mapsto> FREE_NID) else free_nid_root nm)" by blast+
qed

text \<open>The free lists only grow during a flush.\<close>

definition lists_grow :: "nm_info \<Rightarrow> nm_info \<Rightarrow> bool" where
  "lists_grow nm' nm \<longleftrightarrow> (\<forall>x. free_nid_root nm x \<noteq> None \<longrightarrow> free_nid_root nm' x = free_nid_root nm x)"

definition flush_frame :: "nm_info \<Rightarrow> nm_info \<Rightarrow> bool" where
  "flush_frame nm' nm \<longleftrightarrow> view_kept nm' nm \<and> nat_blocks nm' = nat_blocks nm \<and> CP_NAT_BITS_FLAG nm' = CP_NAT_BITS_FLAG nm \<and> lists_grow nm' nm \<and>
     nat_new nm' = nat_new nm"

lemma flush_frame_refl [simp]: "flush_frame nm nm"
  by (simp add: flush_frame_def view_kept_def lists_grow_def)

lemma flush_frame_trans: "flush_frame a b \<Longrightarrow> flush_frame b c \<Longrightarrow> flush_frame a c"
  unfolding flush_frame_def view_kept_def lists_grow_def by metis

lemma entry_stored:
  assumes inv: "mid_inv nm" and e: "nat_root nm nid = Some e" "get_nat_flag e IS_DIRTY" "blk_addr e \<noteq> NEW_ADDR"
    and s: "stored_at nid (raw_nat_from_node_info e) nm1 nm"
  defines "nm2 \<equiv> clear_nat_cache_dirty (NAT_BLOCK_OFFSET nid) nid (put_ne nid (nat_reset_flag e) nm1)"
  shows "nat_inv nm2" "view_kept nm2 nm" "\<And>x. x < max_nid nm \<Longrightarrow> nat_stored nm2 x = (if x = nid then raw_nat_from_node_info e else nat_stored nm x)"
    "\<And>x. nat_dirty nm2 x = (x \<noteq> nid \<and> nat_dirty nm x)" "nat_new nm2 = nat_new nm" "same_disk nm2 nm1" "nm_cache.more nm2 = nm_cache.more nm" "nm_bug nm2 = nm_bug nm"
    "nat_root nm2 x = None \<longleftrightarrow> nat_root nm x = None"
proof -
  have S: "nat_root nm1 = nat_root nm" "nat_wf nm1" "nat_disk_ok nm1" "max_nid nm1 = max_nid nm" "nm_bug nm1 = nm_bug nm" "nm_cache.more nm1 = nm_cache.more nm"
    "\<And>x. x < max_nid nm \<Longrightarrow> nat_stored nm1 x = (if x = nid then raw_nat_from_node_info e else nat_stored nm x)"
    using s unfolding stored_at_def by blast+
  have e1: "nat_root nm1 nid = Some e" using e S(1) by simp
  note C = clear_wf [OF S(2) e1 e(2,3), folded nm2_def]
  have d1: "nat_dirty nm1 = nat_dirty nm" "nat_new nm1 = nat_new nm" using S(1) by (auto simp: nat_dirty_def nat_new_def fun_eq_iff)
  show dd: "\<And>x. nat_dirty nm2 x = (x \<noteq> nid \<and> nat_dirty nm x)" "nat_new nm2 = nat_new nm" using C(6,7) d1 by simp_all
  show sd: "same_disk nm2 nm1" by (rule C(3))
  show "nm_cache.more nm2 = nm_cache.more nm" "nm_bug nm2 = nm_bug nm" using C(4,5) S(5,6) by simp_all
  have D: "nat_stored nm2 = nat_stored nm1" "nat_disk_ok nm2 = nat_disk_ok nm1" using same_diskD [OF sd] by blast+
  show st: "nat_stored nm2 x = (if x = nid then raw_nat_from_node_info e else nat_stored nm x)" if "x < max_nid nm" for x using D(1) S(7) [OF that] by simp
  show "nat_root nm2 x = None \<longleftrightarrow> nat_root nm x = None" using e S(1) by (simp add: C(2))
  have ag: "raw_nat_from_node_info y = nat_stored nm2 x" if y: "nat_root nm2 x = Some y" "\<not> nat_dirty nm2 x" for x y
  proof -
    have x: "x < max_nid nm" using nat_wfD(1) [OF C(1) y(1)] sd S(4) by simp
    show ?thesis
    proof (cases "x = nid")
      case True
      then show ?thesis using y(1) st [OF x] by (auto simp: C(2))
    next
      case False
      then have "nat_root nm x = Some y" "\<not> nat_dirty nm x" using y dd S(1) by (simp_all add: C(2))
      then show ?thesis using nat_inv_agree [OF mid_invD(1) [OF inv]] st [OF x] False by simp
    qed
  qed
  then show "nat_inv nm2" using C(1) D(2) S(3) unfolding nat_inv_def by blast
  show "view_kept nm2 nm" unfolding view_kept_def
  proof (intro conjI allI impI)
    fix x assume "x < max_nid nm"
    then show "nat_view nm2 x = nat_view nm x"
      using st [of x] e(1) S(1) by (auto simp: nat_view_def C(2) split: option.split)
  qed (use sd S(4) in simp)
qed

lemma flush_entry_ok:
  assumes inv: "mid_inv nm" and e: "nat_root nm nid = Some e" "get_nat_flag e IS_DIRTY" "blk_addr e \<noteq> NEW_ADDR"
    and s: "stored_at nid (raw_nat_from_node_info e) nm1 nm"
  defines "nm2 \<equiv> clear_nat_cache_dirty (NAT_BLOCK_OFFSET nid) nid (put_ne nid (nat_reset_flag e) nm1)"
  defines "nm3 \<equiv> (if blk_addr e = NULL_ADDR then snd (add_free_nid nid False True nm2) else update_free_nid_bitmap nid False False nm2)"
  shows "mid_inv nm3" "flush_frame nm3 nm" "\<And>x. nat_dirty nm3 x = (x \<noteq> nid \<and> nat_dirty nm x)" "same_disk nm3 nm1" "same_cache nm3 nm2"
    "\<And>x. x < max_nid nm \<Longrightarrow> nat_stored nm3 x = (if x = nid then raw_nat_from_node_info e else nat_stored nm x)"
    "blk_addr e = NULL_ADDR \<Longrightarrow> nid \<noteq> 0 \<Longrightarrow> free_nid_root nm3 nid \<noteq> None"
proof -
  note E = entry_stored [OF inv e s, folded nm2_def]
  have lt: "nid < max_nid nm" using nat_wfD(1) [OF mid_invD(7) [OF inv] e(1)] by blast
  have mx2: "max_nid nm2 = max_nid nm" using E(2) unfolding view_kept_def by blast
  have sf2: "same_free nm2 nm" using more_free [OF E(7)] by blast
  note F = same_freeD [OF sf2 mx2]
  have m2: "bm_ok nm2" "fl_ok nm2" using F(1,2) mid_invD(2,3) [OF inv] by simp_all
  have st2: "block_addr (nat_stored nm2 nid) = blk_addr e" using E(3) [OF lt] by (simp add: raw_nat_from_node_info_def)
  have jx: "in_journal nm2 x = in_journal nm x" if "x \<noteq> nid" for x
  proof -
    have "jmap (nm_jnl nm2) x = jmap (nm_jnl nm) x" using E(6) s that unfolding stored_at_def by metis
    then show ?thesis by (simp add: in_journal_def)
  qed
  have lt2: "nid < max_nid nm2" using lt mx2 by simp
  have bitx: "may_be_free nm2 x" if "x < max_nid nm2" "nid_bit nm2 x" "x \<noteq> nid" for x
  proof -
    have "may_be_free nm x" using bits_okD [OF mid_invD(4) [OF inv]] that(1,2) mx2 F(3) by simp
    then show ?thesis using E(3,4) jx that mx2 by (simp add: may_be_free_def)
  qed
  have three: "bm_ok nm3 \<and> fl_ok nm3 \<and> bits_ok nm3 \<and> same_cache nm3 nm2 \<and> nat_blocks nm3 = nat_blocks nm2 \<and> CP_NAT_BITS_FLAG nm3 = CP_NAT_BITS_FLAG nm2 \<and>
      free_nid_root nm3 = (if blk_addr e = NULL_ADDR \<and> nid \<noteq> 0 \<and> free_nid_root nm2 nid = None then (free_nid_root nm2)(nid \<mapsto> FREE_NID) else free_nid_root nm2)"
  proof (cases "blk_addr e = NULL_ADDR")
    case True
    have stn: "block_addr (nat_stored nm2 nid) = NULL_ADDR" using st2 True by simp
    have "bits_ok nm2" unfolding bits_ok_def using bitx stn by (metis may_be_free_def)
    then show ?thesis using bits_free_ok [OF m2 _ lt2 stn] True by (simp add: nm3_def)
  next
    case False
    note U = update_bitmap_ok [OF m2(1) lt2, of False False]
    have nm3: "nm3 = update_free_nid_bitmap nid False False nm2" using False by (simp add: nm3_def)
    have U': "bm_ok nm3" "same_cache nm3 nm2" "same_lists nm3 nm2" "\<not> nid_bit nm3 nid" "\<And>x. x \<noteq> nid \<Longrightarrow> nid_bit nm3 x = nid_bit nm2 x" "nat_blocks nm3 = nat_blocks nm2"
      using U unfolding nm3 by blast+
    have "may_be_free nm2 x" if "x < max_nid nm3" "nid_bit nm3 x" for x
      using bitx [of x] U'(4) U'(5) [of x] that same_cacheD(2) [OF U'(2)] by (cases "x = nid") auto
    then have "bits_ok nm3" using same_cacheD(5,6,9) [OF U'(2)] unfolding bits_ok_def may_be_free_def by metis
    moreover have "fl_ok nm3" using same_listsD [OF U'(2,3)] m2(2) by simp
    moreover have "CP_NAT_BITS_FLAG nm3 = CP_NAT_BITS_FLAG nm2" by (simp add: nm3 update_free_nid_bitmap_def Let_def)
    ultimately show ?thesis using U' False by (simp add: same_lists_def)
  qed
  have c: "same_cache nm3 nm2" using three by blast
  note S = same_cacheD [OF c]
  show "same_cache nm3 nm2" by (rule c)
  show "same_disk nm3 nm1" using S(2) E(6) by simp
  show "\<And>x. nat_dirty nm3 x = (x \<noteq> nid \<and> nat_dirty nm x)" using S(5) E(4) by simp
  show "\<And>x. x < max_nid nm \<Longrightarrow> nat_stored nm3 x = (if x = nid then raw_nat_from_node_info e else nat_stored nm x)" using S(6) E(3) by simp
  show "blk_addr e = NULL_ADDR \<Longrightarrow> nid \<noteq> 0 \<Longrightarrow> free_nid_root nm3 nid \<noteq> None" using three by auto
  have vk: "view_kept nm3 nm" using E(2) S(2,7) unfolding view_kept_def by simp
  have nn: "nat_new nm3 = nat_new nm" using E(5) S(1) by (auto simp: nat_new_def fun_eq_iff)
  have lg: "lists_grow nm3 nm" using three F(4) unfolding lists_grow_def by auto
  have fl: "CP_NAT_BITS_FLAG nm3 = CP_NAT_BITS_FLAG nm" using three sf2 by (simp add: same_free_def)
  show "flush_frame nm3 nm" unfolding flush_frame_def using vk nn lg fl three F(5) by simp
  have ve: "block_addr (nat_view nm nid) = blk_addr e" using e(1) by (simp add: nat_view_def raw_nat_from_node_info_def)
  have fr: "block_addr (nat_view nm3 x) = NULL_ADDR" if "free_nid_root nm3 x = Some FREE_NID" for x
  proof -
    have "free_nid_root nm x = Some FREE_NID \<or> x = nid \<and> blk_addr e = NULL_ADDR" using that three F(4) by (auto split: if_splits)
    moreover have "x < max_nid nm" using fl_okD(5) [OF mid_invD(2) [OF inv]] calculation lt by auto
    ultimately show ?thesis using vk ve mid_invD(6) [OF inv] unfolding view_kept_def by auto
  qed
  show "mid_inv nm3" unfolding mid_inv_def using three S(3,4) E(1,8) mid_invD(5) [OF inv] fr by simp
qed

section \<open>Where an entry is stored\<close>

lemma cur_loc: "current_nat_addr a x = current_nat_addr a (NAT_BLOCK_OFFSET x * NAT_ENTRY_PER_BLOCK)"
  by (simp add: current_nat_addr_def nat_block_start)

lemma wf_disk_change: "nat_wf nm \<Longrightarrow> nat_root nm' = nat_root nm \<Longrightarrow> nat_entries nm' = nat_entries nm \<Longrightarrow> nat_cnt nm' = nat_cnt nm \<Longrightarrow>
  nat_set_root nm' = nat_set_root nm \<Longrightarrow> dirty_nat_cnt nm' = dirty_nat_cnt nm \<Longrightarrow> max_nid nm' = max_nid nm \<Longrightarrow> nat_wf nm'"
proof -
  assume a: "nat_wf nm" "nat_root nm' = nat_root nm" "nat_entries nm' = nat_entries nm" "nat_cnt nm' = nat_cnt nm"
    "nat_set_root nm' = nat_set_root nm" "dirty_nat_cnt nm' = dirty_nat_cnt nm" "max_nid nm' = max_nid nm"
  have d: "nat_dirty nm' = nat_dirty nm" "nat_new nm' = nat_new nm" using a(2) by (auto simp: nat_dirty_def nat_new_def fun_eq_iff)
  show ?thesis using a(1) unfolding nat_wf_def d a(2-7) .
qed

lemma journal_stored:
  assumes inv: "mid_inv nm" and nid: "nid < max_nid nm" "block_addr raw \<noteq> NEW_ADDR" and room: "n_ents (nm_jnl nm) < NAT_JOURNAL_ENTRIES"
  defines "nm1 \<equiv> (case journal_store NAT_JOURNAL_ENTRIES nid raw (nm_jnl nm) of (j, bug) \<Rightarrow> nm_bug_on bug (nm\<lparr>nm_jnl := j\<rparr>))"
  shows "stored_at nid raw nm1 nm" "n_ents (nm_jnl nm1) \<le> n_ents (nm_jnl nm) + 1" "nm_area nm1 = nm_area nm" "nm_meta nm1 = nm_meta nm"
proof -
  obtain j bug where js: "journal_store NAT_JOURNAL_ENTRIES nid raw (nm_jnl nm) = (j, bug)" by fastforce
  have dk: "nat_disk_ok nm" by (rule mid_invD(8) [OF inv])
  have jok: "jnl_ok NAT_JOURNAL_ENTRIES (nm_jnl nm)" using dk by (simp add: nat_disk_ok_def)
  note J = journal_store_ok [OF jok disjI2 [OF room] js]
  have f: "nm1 = nm\<lparr>nm_jnl := j\<rparr>" using J(2) by (simp add: nm1_def js)
  show "nm_area nm1 = nm_area nm" "nm_meta nm1 = nm_meta nm" "n_ents (nm_jnl nm1) \<le> n_ents (nm_jnl nm) + 1" using J(4) by (simp_all add: f)
  have st: "nat_stored nm1 x = (if x = nid then raw else nat_stored nm x)" for x
    by (simp add: nat_stored_def f J(3) split: option.split)
  have "ran (jmap j) \<subseteq> insert raw (ran (jmap (nm_jnl nm)))" unfolding J(3) by (auto simp: ran_def split: if_splits)
  then have "nat_disk_ok nm1" using dk J(1,3) nid unfolding nat_disk_ok_def by (auto simp: f)
  moreover have "nat_wf nm1" by (rule wf_disk_change [OF mid_invD(7) [OF inv]]) (simp_all add: f)
  ultimately show "stored_at nid raw nm1 nm" using st unfolding stored_at_def by (simp add: f J(3))
qed

lemma page_stored:
  assumes inv: "mid_inv nm" and nid: "nid < max_nid nm" "block_addr raw \<noteq> NEW_ADDR" "jmap (nm_jnl nm) nid = None"
  defines "dst \<equiv> current_nat_addr (nm_area nm) nid"
  defines "nm1 \<equiv> nm\<lparr>nm_meta := (nm_meta nm)(dst := (nm_meta nm dst)[nid - START_NID nid := raw])\<rparr>"
  shows "stored_at nid raw nm1 nm"
proof -
  have dk: "nat_disk_ok nm" by (rule mid_invD(8) [OF inv])
  have area: "nat_ok (nm_area nm) (NAT_BLOCK_OFFSET x)" if "x < max_nid nm" for x using dk that by (simp add: nat_disk_ok_def)
  let ?pg = "\<lambda>m. get_current_nat_page (nm_area nm) m"
  have len: "length (?pg (nm_meta nm) nid) = NAT_ENTRY_PER_BLOCK" using dk nid(1) by (simp add: nat_disk_ok_def)
  have ofs: "nid - START_NID nid < NAT_ENTRY_PER_BLOCK" by (simp add: NEPB)
  have pg: "?pg (nm_meta nm1) x = (if NAT_BLOCK_OFFSET x = NAT_BLOCK_OFFSET nid then (?pg (nm_meta nm) nid)[nid - START_NID nid := raw] else ?pg (nm_meta nm) x)"
    if x: "x < max_nid nm" for x
  proof (cases "NAT_BLOCK_OFFSET x = NAT_BLOCK_OFFSET nid")
    case True
    then have "current_nat_addr (nm_area nm) x = dst" using cur_loc by (metis dst_def)
    then show ?thesis using True by (simp add: get_current_nat_page_def nm1_def dst_def)
  next
    case False
    then have "current_nat_addr (nm_area nm) x \<noteq> dst"
      using nat2.apart [OF area [OF x] area [OF nid(1)]] cur_loc by (metis dst_def)
    then show ?thesis using False by (simp add: get_current_nat_page_def nm1_def)
  qed
  have slot: "?pg (nm_meta nm1) x ! (x - START_NID x) = (if x = nid then raw else ?pg (nm_meta nm) x ! (x - START_NID x))" if x: "x < max_nid nm" for x
  proof (cases "NAT_BLOCK_OFFSET x = NAT_BLOCK_OFFSET nid")
    case True
    have "x - START_NID x = nid - START_NID nid \<longleftrightarrow> x = nid" using True same_slot [of x NAT_ENTRY_PER_BLOCK nid] by (auto simp: NEPB)
    moreover have "?pg (nm_meta nm) x = ?pg (nm_meta nm) nid" by (rule page_of_block [OF True])
    ultimately show ?thesis using pg [OF x] len ofs unfolding True by (simp add: nth_list_update eq_commute)
  qed (use pg [OF x] in auto)
  have st: "nat_stored nm1 x = (if x = nid then raw else nat_stored nm x)" if "x < max_nid nm" for x
  proof -
    have "nm_jnl nm1 = nm_jnl nm" "nm_area nm1 = nm_area nm" by (simp_all add: nm1_def)
    then show ?thesis using slot [OF that] nid(3) by (auto simp: nat_stored_def split: option.split)
  qed
  have "nat_disk_ok nm1"
  proof -
    have j: "nm_jnl nm1 = nm_jnl nm" "nm_area nm1 = nm_area nm" "max_nid nm1 = max_nid nm" by (simp_all add: nm1_def)
    have "length (?pg (nm_meta nm1) x) = NAT_ENTRY_PER_BLOCK" if "x < max_nid nm" for x using pg [OF that] len dk that by (simp add: nat_disk_ok_def)
    moreover have "block_addr (?pg (nm_meta nm1) x ! (x - START_NID x)) \<noteq> NEW_ADDR" if "x < max_nid nm" for x
      using slot [OF that] nid(2) dk that by (simp add: nat_disk_ok_def)
    ultimately show ?thesis using dk unfolding nat_disk_ok_def j by simp
  qed
  moreover have "nat_wf nm1" by (rule wf_disk_change [OF mid_invD(7) [OF inv]]) (simp_all add: nm1_def)
  ultimately show "stored_at nid raw nm1 nm" using st unfolding stored_at_def by (simp add: nm1_def)
qed

section \<open>One set\<close>

definition list_ok :: "bool \<Rightarrow> nat \<Rightarrow> nat \<Rightarrow> nat list \<Rightarrow> nm_info \<Rightarrow> bool" where
  "list_ok tj dst st xs nm \<longleftrightarrow> distinct xs \<and> (\<forall>x \<in> set xs. nat_dirty nm x \<and> \<not> nat_new nm x \<and> NAT_BLOCK_OFFSET x = st) \<and>
     (tj \<longrightarrow> n_ents (nm_jnl nm) + length xs \<le> NAT_JOURNAL_ENTRIES) \<and>
     (\<not> tj \<longrightarrow> dst = current_nat_addr (nm_area nm) (st * NAT_ENTRY_PER_BLOCK) \<and> (\<forall>x \<in> set xs. jmap (nm_jnl nm) x = None))"

definition list_done :: "bool \<Rightarrow> nat \<Rightarrow> nat list \<Rightarrow> nm_info \<Rightarrow> nm_info \<Rightarrow> bool" where
  "list_done tj dst xs nm' nm \<longleftrightarrow> mid_inv nm' \<and> flush_frame nm' nm \<and> (\<forall>x. nat_dirty nm' x \<longleftrightarrow> x \<notin> set xs \<and> nat_dirty nm x) \<and>
     (\<forall>x < max_nid nm. nat_stored nm' x = (if x \<in> set xs then nat_view nm x else nat_stored nm x)) \<and> nm_area nm' = nm_area nm \<and>
     (\<forall>x. x \<notin> set xs \<longrightarrow> jmap (nm_jnl nm') x = jmap (nm_jnl nm) x) \<and>
     (tj \<longrightarrow> nm_meta nm' = nm_meta nm \<and> n_ents (nm_jnl nm') \<le> n_ents (nm_jnl nm) + length xs) \<and>
     (\<not> tj \<longrightarrow> nm_jnl nm' = nm_jnl nm \<and> (\<forall>y. y \<noteq> dst \<longrightarrow> nm_meta nm' y = nm_meta nm y)) \<and>
     (\<forall>x \<in> set xs. x \<noteq> 0 \<longrightarrow> block_addr (nat_view nm x) = NULL_ADDR \<longrightarrow> free_nid_root nm' x \<noteq> None)"

lemma flush_one:
  assumes inv: "mid_inv nm" and ok: "list_ok tj dst st (nid # xs) nm"
  shows "list_done tj dst [nid] (flush_nat_entry tj dst st nid nm) nm" "list_ok tj dst st xs (flush_nat_entry tj dst st nid nm)"
proof -
  have dn: "nat_dirty nm nid" "\<not> nat_new nm nid" "NAT_BLOCK_OFFSET nid = st" using ok by (simp_all add: list_ok_def)
  obtain e where e: "nat_root nm nid = Some e" "get_nat_flag e IS_DIRTY" "blk_addr e \<noteq> NEW_ADDR"
    using dn(1,2) by (auto simp: nat_dirty_def nat_new_def split: option.splits)
  have lt: "nid < max_nid nm" using nat_wfD(1) [OF mid_invD(7) [OF inv] e(1)] by blast
  let ?raw = "raw_nat_from_node_info e"
  have raw: "block_addr ?raw \<noteq> NEW_ADDR" using e(3) by (simp add: raw_nat_from_node_info_def)
  have view: "nat_view nm nid = ?raw" using e(1) by (simp add: nat_view_def)
  have sn: "nid - st * NAT_ENTRY_PER_BLOCK = nid - START_NID nid" using dn(3) by (simp add: START_NID_def NEPB(3))
  define nm1 where "nm1 = (if tj then (case journal_store NAT_JOURNAL_ENTRIES nid ?raw (nm_jnl nm) of (j, bug) \<Rightarrow> nm_bug_on bug (nm\<lparr>nm_jnl := j\<rparr>))
      else nm\<lparr>nm_meta := (nm_meta nm)(dst := (nm_meta nm dst)[nid - st * NAT_ENTRY_PER_BLOCK := ?raw])\<rparr>)"
  have one: "stored_at nid ?raw nm1 nm \<and> nm_area nm1 = nm_area nm \<and>
     (tj \<longrightarrow> nm_meta nm1 = nm_meta nm \<and> n_ents (nm_jnl nm1) \<le> n_ents (nm_jnl nm) + 1) \<and>
     (\<not> tj \<longrightarrow> nm_jnl nm1 = nm_jnl nm \<and> (\<forall>y. y \<noteq> dst \<longrightarrow> nm_meta nm1 y = nm_meta nm y))"
  proof (cases tj)
    case True
    then have "n_ents (nm_jnl nm) < NAT_JOURNAL_ENTRIES" using ok by (simp add: list_ok_def)
    from journal_stored [OF inv lt raw this] True show ?thesis by (simp add: nm1_def)
  next
    case False
    then have d: "dst = current_nat_addr (nm_area nm) nid" "jmap (nm_jnl nm) nid = None"
      using ok cur_loc dn(3) by (auto simp: list_ok_def)
    from page_stored [OF inv lt raw d(2), folded d(1)] False show ?thesis by (simp add: nm1_def sn)
  qed
  then have s: "stored_at nid ?raw nm1 nm" by blast
  define nm3 where "nm3 = flush_nat_entry tj dst st nid nm"
  have nm3: "nm3 = (if blk_addr e = NULL_ADDR then snd (add_free_nid nid False True (clear_nat_cache_dirty (NAT_BLOCK_OFFSET nid) nid (put_ne nid (nat_reset_flag e) nm1)))
      else update_free_nid_bitmap nid False False (clear_nat_cache_dirty (NAT_BLOCK_OFFSET nid) nid (put_ne nid (nat_reset_flag e) nm1)))"
    using e dn(3) by (simp add: nm3_def flush_nat_entry_def Let_def nm1_def cong: if_cong)
  note F = flush_entry_ok [OF inv e s, folded nm3]
  have jm: "jmap (nm_jnl nm3) x = jmap (nm_jnl nm) x" if "x \<noteq> nid" for x using F(4) s that unfolding stored_at_def by metis
  have sd: "nm_area nm3 = nm_area nm1" "nm_meta nm3 = nm_meta nm1" "nm_jnl nm3 = nm_jnl nm1" using F(4) by blast+
  have st: "nat_stored nm3 x = (if x \<in> set [nid] then nat_view nm x else nat_stored nm x)" if "x < max_nid nm" for x
    using F(6) [OF that] view by simp
  have fr: "free_nid_root nm3 x \<noteq> None" if "x \<in> set [nid]" "x \<noteq> 0" "block_addr (nat_view nm x) = NULL_ADDR" for x
    using that F(7) view by (simp add: raw_nat_from_node_info_def)
  have dirty: "nat_dirty nm3 x \<longleftrightarrow> x \<notin> set [nid] \<and> nat_dirty nm x" for x using F(3) by simp
  show "list_done tj dst [nid] (flush_nat_entry tj dst st nid nm) nm"
    unfolding nm3_def [symmetric] list_done_def
  proof (intro conjI allI impI ballI)
    show "mid_inv nm3" "flush_frame nm3 nm" using F(1,2) by blast+
    show "nm_area nm3 = nm_area nm" using sd one by simp
  qed (use st fr dirty jm sd one in \<open>simp_all\<close>)
  have new: "nat_new nm3 = nat_new nm" using F(2) by (simp add: flush_frame_def)
  show "list_ok tj dst st xs (flush_nat_entry tj dst st nid nm)"
    using ok one jm sd new dirty unfolding nm3_def [symmetric] list_ok_def by auto
qed

end
