(* ===== verification/Nat_Durable.thy ===== *)
theory Nat_Durable
  imports Nat_Flush
begin

text \<open>
  What a flush of the node address table achieves: every entry whose node has a place on disk is stored, the table reads as
  before, the copies that the last checkpoint refers to are untouched, and removed ids are free again; and runs of all
  operations on the table, which behaves as a map from node ids to entries.
\<close>

section \<open>One set\<close>

lemma list_done_trans:
  assumes a: "list_done tj dst [x] b a" and c: "list_done tj dst xs c b" and lt: "\<forall>y \<in> set xs. y < max_nid a" and x: "x \<notin> set xs"
  shows "list_done tj dst (x # xs) c a"
proof -
  have A: "flush_frame b a" "nm_area b = nm_area a" "\<And>y. nat_dirty b y \<longleftrightarrow> y \<noteq> x \<and> nat_dirty a y"
    "\<And>y. y < max_nid a \<Longrightarrow> nat_stored b y = (if y = x then nat_view a y else nat_stored a y)"
    "\<And>y. y \<noteq> x \<Longrightarrow> jmap (nm_jnl b) y = jmap (nm_jnl a) y"
    "tj \<longrightarrow> nm_meta b = nm_meta a \<and> n_ents (nm_jnl b) \<le> n_ents (nm_jnl a) + 1"
    "\<not> tj \<longrightarrow> nm_jnl b = nm_jnl a \<and> (\<forall>y. y \<noteq> dst \<longrightarrow> nm_meta b y = nm_meta a y)"
    "x \<noteq> 0 \<Longrightarrow> block_addr (nat_view a x) = NULL_ADDR \<Longrightarrow> free_nid_root b x \<noteq> None"
    using a unfolding list_done_def by simp_all
  have C: "mid_inv c" "flush_frame c b" "nm_area c = nm_area b" "\<And>y. nat_dirty c y \<longleftrightarrow> y \<notin> set xs \<and> nat_dirty b y"
    "\<And>y. y < max_nid b \<Longrightarrow> nat_stored c y = (if y \<in> set xs then nat_view b y else nat_stored b y)"
    "\<And>y. y \<notin> set xs \<Longrightarrow> jmap (nm_jnl c) y = jmap (nm_jnl b) y"
    "tj \<longrightarrow> nm_meta c = nm_meta b \<and> n_ents (nm_jnl c) \<le> n_ents (nm_jnl b) + length xs"
    "\<not> tj \<longrightarrow> nm_jnl c = nm_jnl b \<and> (\<forall>y. y \<noteq> dst \<longrightarrow> nm_meta c y = nm_meta b y)"
    "\<And>y. y \<in> set xs \<Longrightarrow> y \<noteq> 0 \<Longrightarrow> block_addr (nat_view b y) = NULL_ADDR \<Longrightarrow> free_nid_root c y \<noteq> None"
    using c unfolding list_done_def by simp_all
  have mx: "max_nid b = max_nid a" and v: "\<And>y. y < max_nid a \<Longrightarrow> nat_view b y = nat_view a y"
    using A(1) by (simp_all add: flush_frame_def view_kept_def)
  have lg: "\<And>y. free_nid_root b y \<noteq> None \<Longrightarrow> free_nid_root c y \<noteq> None" using C(2) unfolding flush_frame_def lists_grow_def by metis
  show ?thesis unfolding list_done_def
  proof (intro conjI)
    show "flush_frame c a" by (rule flush_frame_trans [OF C(2) A(1)])
    show "\<forall>y. nat_dirty c y \<longleftrightarrow> y \<notin> set (x # xs) \<and> nat_dirty a y" using A(3) C(4) by auto
    show "\<forall>y < max_nid a. nat_stored c y = (if y \<in> set (x # xs) then nat_view a y else nat_stored a y)"
      using A(4) C(5) mx v x by auto
    show "\<forall>y. y \<notin> set (x # xs) \<longrightarrow> jmap (nm_jnl c) y = jmap (nm_jnl a) y" using A(5) C(6) by simp
    show "\<forall>y \<in> set (x # xs). y \<noteq> 0 \<longrightarrow> block_addr (nat_view a y) = NULL_ADDR \<longrightarrow> free_nid_root c y \<noteq> None"
      using A(8) C(9) v lt lg by (metis set_ConsD)
  qed (use A C in auto)
qed

lemma flush_list_ok:
  assumes "mid_inv nm" "list_ok tj dst st xs nm"
  shows "list_done tj dst xs (fold (flush_nat_entry tj dst st) xs nm) nm"
  using assms
proof (induction xs arbitrary: nm)
  case Nil
  then show ?case by (simp add: list_done_def)
next
  case (Cons x xs)
  note O = flush_one [OF Cons.prems]
  have inv: "mid_inv (flush_nat_entry tj dst st x nm)" using O(1) by (simp add: list_done_def)
  have "\<forall>y \<in> set xs. y < max_nid nm" "x \<notin> set xs"
    using Cons.prems(2) nat_wfD(1) [OF mid_invD(7) [OF Cons.prems(1)]] by (auto simp: list_ok_def nat_dirty_def split: option.splits)
  from list_done_trans [OF O(1) Cons.IH [OF inv O(2)] this] show ?case by simp
qed

text \<open>Moving to the other copy of a table block: what is stored stays the same.\<close>

lemma next_page_ok:
  assumes inv: "mid_inv nm" and st: "nat_ok (nm_area nm) st" and g: "get_next_nat_page (st * NAT_ENTRY_PER_BLOCK) (nm_area nm, nm_meta nm) = ((a, m), dst)"
  defines "nm' \<equiv> nm\<lparr>nm_area := a, nm_meta := m\<rparr>"
  shows "mid_inv nm'" "flush_frame nm' nm" "nat_dirty nm' = nat_dirty nm" "\<And>x. x < max_nid nm \<Longrightarrow> nat_stored nm' x = nat_stored nm x"
    "dst = current_nat_addr a (st * NAT_ENTRY_PER_BLOCK)" "\<And>y. y \<noteq> dst \<Longrightarrow> m y = nm_meta nm y"
    "dst = next_nat_addr (nm_area nm) (current_nat_addr (nm_area nm) (st * NAT_ENTRY_PER_BLOCK))" "a = set_to_next_nat (st * NAT_ENTRY_PER_BLOCK) (nm_area nm)"
proof -
  let ?cur = "\<lambda>a b. current_nat_addr a (b * NAT_ENTRY_PER_BLOCK)"
  have g': "dst = next_nat_addr (nm_area nm) (?cur (nm_area nm) st)" "a = set_to_next_nat (st * NAT_ENTRY_PER_BLOCK) (nm_area nm)"
    "m = (nm_meta nm)(dst := nm_meta nm (?cur (nm_area nm) st))"
    using g by (auto simp: get_next_nat_page_def Let_def)
  then show "dst = next_nat_addr (nm_area nm) (?cur (nm_area nm) st)" "a = set_to_next_nat (st * NAT_ENTRY_PER_BLOCK) (nm_area nm)"
    "\<And>y. y \<noteq> dst \<Longrightarrow> m y = nm_meta nm y" by simp_all
  show "dst = ?cur a st" using nat2.loc_flip [OF st st] g'(1,2) by simp
  note W = nat2.write_next [OF st, where meta = "nm_meta nm" and v = "nm_meta nm (?cur (nm_area nm) st)", folded g'(1,2), folded g'(3)]
  have pg: "get_current_nat_page a m x = get_current_nat_page (nm_area nm) (nm_meta nm) x" if "nat_ok (nm_area nm) (NAT_BLOCK_OFFSET x)" for x
    using W(1) W(2) [OF that] unfolding get_current_nat_page_def cur_loc [of _ x] by (cases "NAT_BLOCK_OFFSET x = st") auto
  have dk: "nat_disk_ok nm" by (rule mid_invD(8) [OF inv])
  have area: "nat_ok (nm_area nm) (NAT_BLOCK_OFFSET x)" if "x < max_nid nm" for x using dk that by (simp add: nat_disk_ok_def)
  have okf: "nat_ok a x = nat_ok (nm_area nm) x" for x using nat2.ok_flip [OF st] g'(2) by simp
  show stx: "nat_stored nm' x = nat_stored nm x" if "x < max_nid nm" for x
    using pg [OF area [OF that]] by (simp add: nat_stored_def nm'_def split: option.split)
  have dk': "nat_disk_ok nm'" using dk pg [OF area] unfolding nat_disk_ok_def by (simp add: nm'_def okf)
  have root: "nat_root nm' = nat_root nm" by (simp add: nm'_def)
  have wf: "nat_wf nm'" by (rule wf_disk_change [OF mid_invD(7) [OF inv]]) (simp_all add: nm'_def)
  show d: "nat_dirty nm' = nat_dirty nm" using root by (auto simp: nat_dirty_def fun_eq_iff)
  have ni: "nat_inv nm'"
    using wf dk' stx nat_inv_agree [OF mid_invD(1) [OF inv]] nat_wfD(1) [OF mid_invD(7) [OF inv]] unfolding nat_inv_def d root by metis
  have mx: "max_nid nm' = max_nid nm" by (simp add: nm'_def)
  have v: "nat_view nm' x = nat_view nm x" if "x < max_nid nm" for x using stx [OF that] root by (simp add: nat_view_def split: option.split)
  have sf: "same_free nm' nm" by (simp add: nm'_def same_free_def same_lists_def same_maps_def)
  note F = same_freeD [OF sf mx]
  have ij: "in_journal nm' = in_journal nm" by (intro ext) (simp add: in_journal_def nm'_def)
  have "bits_ok nm'" using mid_invD(4) [OF inv] stx unfolding bits_ok_def F ij mx d by simp
  moreover have "block_addr (nat_view nm' x) = NULL_ADDR" if "free_nid_root nm x = Some FREE_NID" for x
  proof -
    have "x < max_nid nm" using fl_okD(5) [OF mid_invD(2) [OF inv]] that by auto
    then show ?thesis using v mid_invD(6) [OF inv that] by simp
  qed
  ultimately show "mid_inv nm'" using ni mid_invD(2,3,5) [OF inv] unfolding mid_inv_def F by (simp add: nm'_def)
  have "nat_new nm' = nat_new nm" using root by (auto simp: nat_new_def fun_eq_iff)
  then show "flush_frame nm' nm" using v sf F(4,5) mx unfolding flush_frame_def view_kept_def lists_grow_def same_free_def by simp
qed

text \<open>After the entries: the bits of the block, and the set itself when nothing is left in it.\<close>

lemma update_nat_bits_same: "same_cache (update_nat_bits s pg nm) nm \<and> same_free (update_nat_bits s pg nm) nm"
  by (simp add: update_nat_bits_def Let_def nm_cache.truncate_def same_free_def same_lists_def same_maps_def)

lemma set_drop_wf:
  assumes wf: "nat_wf nm" and c: "entry_cnt_of nm st = 0"
  shows "nat_wf (nm\<lparr>nat_set_root := (nat_set_root nm)(st := None)\<rparr>)"
proof -
  let ?n = "nm\<lparr>nat_set_root := (nat_set_root nm)(st := None)\<rparr>"
  have so: "nat_sets_ok (nat_dirty nm) (nat_new nm) (nat_set_root nm)" by (rule nat_wfD(4) [OF wf])
  have none: "\<not> nat_dirty nm x" if x: "NAT_BLOCK_OFFSET x = st" for x
  proof
    assume d: "nat_dirty nm x"
    then obtain h where h: "nat_set_root nm st = Some h" using so x unfolding nat_sets_ok_def by blast
    then have "card {y. NAT_BLOCK_OFFSET y = st \<and> nat_dirty nm y} = 0" using so c unfolding nat_sets_ok_def entry_cnt_of_def by simp
    then have "{y. NAT_BLOCK_OFFSET y = st \<and> nat_dirty nm y} = {}" using nat_finite(3) [OF wf, of st] card_0_eq by blast
    then show False using d x by blast
  qed
  have d: "nat_dirty ?n = nat_dirty nm" "nat_new ?n = nat_new nm" by (auto simp: nat_dirty_def nat_new_def fun_eq_iff)
  have "nat_sets_ok (nat_dirty nm) (nat_new nm) ((nat_set_root nm)(st := None))" using so none unfolding nat_sets_ok_def by auto
  then show ?thesis using wf unfolding nat_wf_def d by simp
qed

lemma mid_inv_step:
  assumes inv: "mid_inv nm" and wf: "nat_wf nm'" and r: "nat_root nm' = nat_root nm" "same_disk nm' nm" "nm_bug nm' = nm_bug nm" and sf: "same_free nm' nm"
  shows "mid_inv nm'" "flush_frame nm' nm" "nat_dirty nm' = nat_dirty nm" "nat_stored nm' = nat_stored nm"
proof -
  show d: "nat_dirty nm' = nat_dirty nm" using r(1) by (auto simp: nat_dirty_def fun_eq_iff)
  show st: "nat_stored nm' = nat_stored nm" using same_diskD [OF r(2)] by blast
  have v: "nat_view nm' = nat_view nm" using st r(1) by (intro ext) (simp add: nat_view_def split: option.split)
  have mx: "max_nid nm' = max_nid nm" using r(2) by blast
  note F = same_freeD [OF sf mx]
  have ni: "nat_inv nm'" using nat_invI [OF wf r(2) mid_invD(1) [OF inv]] nat_inv_agree [OF mid_invD(1) [OF inv]] unfolding r(1) d by blast
  have ij: "in_journal nm' = in_journal nm" using r(2) by (intro ext) (simp add: in_journal_def)
  have "bits_ok nm'" using mid_invD(4) [OF inv] unfolding bits_ok_def F ij st mx d .
  then show "mid_inv nm'" using ni mid_invD(2,3,5,6) [OF inv] unfolding mid_inv_def F v r(3) by simp
  have "nat_new nm' = nat_new nm" using r(1) by (auto simp: nat_new_def fun_eq_iff)
  then show "flush_frame nm' nm" using v sf F(4,5) mx unfolding flush_frame_def view_kept_def lists_grow_def same_free_def by simp
qed

lemma set_finish:
  fixes tj :: bool and s st :: nat and pg :: "f2fs_nat_entry list"
  assumes inv: "mid_inv nm1"
  defines "nmb \<equiv> (if tj then nm1 else update_nat_bits s pg nm1)"
  defines "nm2 \<equiv> (if entry_cnt_of nmb st = 0 then nmb\<lparr>nat_set_root := (nat_set_root nmb)(st := None)\<rparr> else nmb)"
  shows "mid_inv nm2" "flush_frame nm2 nm1" "nat_dirty nm2 = nat_dirty nm1" "nat_stored nm2 = nat_stored nm1" "same_disk nm2 nm1" "free_nid_root nm2 = free_nid_root nm1"
proof -
  have c: "same_cache nmb nm1" "same_free nmb nm1" using update_nat_bits_same [of s pg nm1] by (simp_all add: nmb_def same_free_def same_lists_def same_maps_def)
  note S = same_cacheD [OF c(1)]
  have "nat_inv nmb" using S(4) mid_invD(1) [OF inv] by simp
  then have wfb: "nat_wf nmb" by (simp add: nat_inv_def)
  have wf: "nat_wf nm2" using wfb set_drop_wf [OF wfb] by (simp add: nm2_def)
  have r: "nat_root nm2 = nat_root nm1" "same_disk nm2 nm1" "nm_bug nm2 = nm_bug nm1" "same_free nm2 nm1"
    using S(1-3) c(2) by (simp_all add: nm2_def same_free_def same_lists_def same_maps_def)
  show "mid_inv nm2" "flush_frame nm2 nm1" "nat_dirty nm2 = nat_dirty nm1" "nat_stored nm2 = nat_stored nm1"
    using mid_inv_step [OF inv wf r] by blast+
  show "same_disk nm2 nm1" "free_nid_root nm2 = free_nid_root nm1" using r(2,4) by (simp_all add: same_free_def same_lists_def)
qed

definition set_ids :: "nat \<Rightarrow> nm_info \<Rightarrow> nat set" where
  "set_ids st nm = {x. NAT_BLOCK_OFFSET x = st \<and> nat_dirty nm x \<and> \<not> nat_new nm x}"

definition set_size :: "nm_info \<Rightarrow> nat \<Rightarrow> nat" where
  "set_size nm st = card {x. NAT_BLOCK_OFFSET x = st \<and> nat_dirty nm x}"

text \<open>The effect of flushing one set: \<open>tj\<close> says whether it went to the journal.\<close>

definition set_done :: "nat \<Rightarrow> bool \<Rightarrow> nm_info \<Rightarrow> nm_info \<Rightarrow> bool" where
  "set_done st tj nm' nm \<longleftrightarrow> mid_inv nm' \<and> flush_frame nm' nm \<and> (\<forall>x. nat_dirty nm' x \<longleftrightarrow> x \<notin> set_ids st nm \<and> nat_dirty nm x) \<and>
     (\<forall>x < max_nid nm. nat_stored nm' x = (if x \<in> set_ids st nm then nat_view nm x else nat_stored nm x)) \<and>
     (\<forall>x. x \<notin> set_ids st nm \<longrightarrow> jmap (nm_jnl nm') x = jmap (nm_jnl nm) x) \<and>
     (tj \<longrightarrow> nm_area nm' = nm_area nm \<and> nm_meta nm' = nm_meta nm \<and> n_ents (nm_jnl nm') \<le> n_ents (nm_jnl nm) + set_size nm st) \<and>
     (\<not> tj \<longrightarrow> nm_jnl nm' = nm_jnl nm \<and> nm_area nm' = set_to_next_nat (st * NAT_ENTRY_PER_BLOCK) (nm_area nm) \<and>
        (\<forall>y. y \<noteq> next_nat_addr (nm_area nm) (current_nat_addr (nm_area nm) (st * NAT_ENTRY_PER_BLOCK)) \<longrightarrow> nm_meta nm' y = nm_meta nm y)) \<and>
     (\<forall>x \<in> set_ids st nm. x \<noteq> 0 \<longrightarrow> block_addr (nat_view nm x) = NULL_ADDR \<longrightarrow> free_nid_root nm' x \<noteq> None)"

definition set_to_journal :: "bool \<Rightarrow> nat \<Rightarrow> nm_info \<Rightarrow> bool" where
  "set_to_journal umount st nm \<longleftrightarrow> \<not> (enabled_nat_bits nm (Some umount) \<or> \<not> has_cursum_space NAT_JOURNAL_ENTRIES (nm_jnl nm) (set_size nm st))"

lemma set_size_le: "set_size nm st \<le> NAT_ENTRY_PER_BLOCK"
proof -
  have "{x. NAT_BLOCK_OFFSET x = st \<and> nat_dirty nm x} \<subseteq> {st * NAT_ENTRY_PER_BLOCK..<st * NAT_ENTRY_PER_BLOCK + NAT_ENTRY_PER_BLOCK}"
  proof
    fix x assume "x \<in> {x. NAT_BLOCK_OFFSET x = st \<and> nat_dirty nm x}"
    then have "x div NAT_ENTRY_PER_BLOCK = st" by (simp add: NAT_BLOCK_OFFSET_def)
    then show "x \<in> {st * NAT_ENTRY_PER_BLOCK..<st * NAT_ENTRY_PER_BLOCK + NAT_ENTRY_PER_BLOCK}"
      using dividend_less_div_times [OF NEPB(1), of x] by (auto simp: add.commute)
  qed
  from card_mono [OF _ this] show ?thesis by (simp add: set_size_def)
qed

lemma flush_set_ok:
  assumes inv: "mid_inv nm" and h: "nat_set_root nm st = Some h" and st: "nat_ok (nm_area nm) st"
    and j: "\<not> set_to_journal umount st nm \<Longrightarrow> \<forall>x \<in> set_ids st nm. jmap (nm_jnl nm) x = None"
  shows "set_done st (set_to_journal umount st nm) (flush_nat_entry_set umount st nm) nm"
proof -
  define tj where "tj = set_to_journal umount st nm"
  have H: "distinct (set_list h)" "set (set_list h) = set_ids st nm" "set_cnt h = int (set_size nm st)"
    using nat_wfD(4) [OF mid_invD(7) [OF inv]] h unfolding nat_sets_ok_def set_ids_def set_size_def by blast+
  have len: "length (set_list h) \<le> set_size nm st"
    unfolding distinct_card [OF H(1), symmetric] H(2) set_ids_def set_size_def using nat_finite(3) [OF mid_invD(7) [OF inv]] by (intro card_mono) auto
  obtain a m d where g: "get_next_nat_page (st * NAT_ENTRY_PER_BLOCK) (nm_area nm, nm_meta nm) = ((a, m), d)" by (metis prod.exhaust)
  note N = next_page_ok [OF inv st g]
  define nm0 where "nm0 = (if tj then nm else nm\<lparr>nm_area := a, nm_meta := m\<rparr>)"
  define dst where "dst = (if tj then 0 else d)"
  have P: "mid_inv nm0" "flush_frame nm0 nm" "nat_dirty nm0 = nat_dirty nm" "\<And>x. x < max_nid nm \<Longrightarrow> nat_stored nm0 x = nat_stored nm x" "nm_jnl nm0 = nm_jnl nm"
    using inv N(1-4) by (simp_all add: nm0_def)
  have mx: "max_nid nm0 = max_nid nm" and new: "nat_new nm0 = nat_new nm" using P(2) by (simp_all add: flush_frame_def view_kept_def)
  have room: "n_ents (nm_jnl nm) + length (set_list h) \<le> NAT_JOURNAL_ENTRIES" if tj
  proof -
    have jok: "jnl_ok NAT_JOURNAL_ENTRIES (nm_jnl nm)" using mid_invD(8) [OF inv] by (simp add: nat_disk_ok_def)
    moreover have "set_size nm st < 2 ^ 64" using set_size_le [of nm st] by (simp add: NAT_ENTRY_PER_BLOCK_def)
    ultimately have "set_size nm st \<le> NAT_JOURNAL_ENTRIES - n_ents (nm_jnl nm)" using that has_space_iff unfolding tj_def set_to_journal_def by blast
    then show ?thesis using len jok by (auto simp: jnl_ok_def)
  qed
  have lo: "list_ok tj dst st (set_list h) nm0"
    using H(1,2) room j P(3,5) new N(5) unfolding list_ok_def tj_def [symmetric] by (auto simp: set_ids_def dst_def nm0_def)
  define nm1 where "nm1 = fold (flush_nat_entry tj dst st) (set_list h) nm0"
  have D: "list_done tj dst (set_list h) nm1 nm0" unfolding nm1_def by (rule flush_list_ok [OF P(1) lo])
  have inv1: "mid_inv nm1" using D by (simp add: list_done_def)
  define nm2 where "nm2 = flush_nat_entry_set umount st nm"
  have tj: "(\<not> (enabled_nat_bits nm (Some umount) \<or> \<not> has_cursum_space NAT_JOURNAL_ENTRIES (nm_jnl nm) (nat (set_cnt h)))) = tj"
    by (simp add: tj_def set_to_journal_def H(3))
  have f: "nm2 = (let nmb = (if tj then nm1 else update_nat_bits (st * NAT_ENTRY_PER_BLOCK) (nm_meta nm1 dst) nm1)
     in if entry_cnt_of nmb st = 0 then nmb\<lparr>nat_set_root := (nat_set_root nmb)(st := None)\<rparr> else nmb)"
    unfolding nm2_def flush_nat_entry_set_def h option.case Let_def tj g by (simp add: nm1_def nm0_def dst_def)
  note S = set_finish [OF inv1, where tj = tj and s = "st * NAT_ENTRY_PER_BLOCK" and pg = "nm_meta nm1 dst" and st = st, folded f [unfolded Let_def]]
  show ?thesis unfolding nm2_def [symmetric] tj_def [symmetric] set_done_def
  proof (intro conjI)
    show "mid_inv nm2" by (rule S(1))
    have "flush_frame nm1 nm0" using D by (simp add: list_done_def)
    then show "flush_frame nm2 nm" by (intro flush_frame_trans [OF flush_frame_trans [OF S(2)] P(2)])
    show "\<forall>x. nat_dirty nm2 x \<longleftrightarrow> x \<notin> set_ids st nm \<and> nat_dirty nm x" using D P(3) H(2) unfolding list_done_def S(3) by simp
    show "\<forall>x < max_nid nm. nat_stored nm2 x = (if x \<in> set_ids st nm then nat_view nm x else nat_stored nm x)"
      using D P(2,4) H(2) unfolding list_done_def S(4) flush_frame_def view_kept_def by simp
    show "\<forall>x. x \<notin> set_ids st nm \<longrightarrow> jmap (nm_jnl nm2) x = jmap (nm_jnl nm) x" using D P(5) H(2) S(5) unfolding list_done_def by simp
    show "tj \<longrightarrow> nm_area nm2 = nm_area nm \<and> nm_meta nm2 = nm_meta nm \<and> n_ents (nm_jnl nm2) \<le> n_ents (nm_jnl nm) + set_size nm st"
      using D len P(5) S(5) unfolding list_done_def by (auto simp: nm0_def)
    show "\<not> tj \<longrightarrow> nm_jnl nm2 = nm_jnl nm \<and> nm_area nm2 = set_to_next_nat (st * NAT_ENTRY_PER_BLOCK) (nm_area nm) \<and>
        (\<forall>y. y \<noteq> next_nat_addr (nm_area nm) (current_nat_addr (nm_area nm) (st * NAT_ENTRY_PER_BLOCK)) \<longrightarrow> nm_meta nm2 y = nm_meta nm y)"
    proof (intro impI conjI allI)
      assume n: "\<not> tj"
      have D': "nm_jnl nm1 = nm_jnl nm0" "nm_area nm1 = nm_area nm0" "\<And>y. y \<noteq> dst \<Longrightarrow> nm_meta nm1 y = nm_meta nm0 y" using D n unfolding list_done_def by blast+
      show "nm_jnl nm2 = nm_jnl nm" "nm_area nm2 = set_to_next_nat (st * NAT_ENTRY_PER_BLOCK) (nm_area nm)"
        using D'(1,2) S(5) n P(5) N(8) by (simp_all add: nm0_def)
      fix y assume "y \<noteq> next_nat_addr (nm_area nm) (current_nat_addr (nm_area nm) (st * NAT_ENTRY_PER_BLOCK))"
      then have "y \<noteq> d" using N(7) by simp
      then show "nm_meta nm2 y = nm_meta nm y" using D'(3) [of y] N(6) [of y] S(5) n by (simp add: nm0_def dst_def)
    qed
    show "\<forall>x \<in> set_ids st nm. x \<noteq> 0 \<longrightarrow> block_addr (nat_view nm x) = NULL_ADDR \<longrightarrow> free_nid_root nm2 x \<noteq> None"
    proof (intro ballI impI)
      fix x assume x: "x \<in> set_ids st nm" "x \<noteq> 0" "block_addr (nat_view nm x) = NULL_ADDR"
      have "x < max_nid nm" using x(1) nat_wfD(1) [OF mid_invD(7) [OF inv]] by (auto simp: set_ids_def nat_dirty_def split: option.splits)
      then have "block_addr (nat_view nm0 x) = NULL_ADDR" using P(2) x(3) by (simp add: flush_frame_def view_kept_def)
      then show "free_nid_root nm2 x \<noteq> None" using D x(1,2) H(2) S(6) unfolding list_done_def by auto
    qed
  qed
qed

section \<open>All sets\<close>

text \<open>
  The state of a flush that started in \<open>nm0\<close> and still has the sets \<open>rem\<close> to write: the copies of the blocks that were current
  at the start are intact and still current for the blocks that remain; and either everything that remains fits in the journal, or the
  journal has no entry of a block that remains.
\<close>

definition flushing :: "bool \<Rightarrow> nat list \<Rightarrow> nm_info \<Rightarrow> nm_info \<Rightarrow> bool" where
  "flushing umount rem nm nm0 \<longleftrightarrow> mid_inv nm \<and> flush_frame nm nm0 \<and>
     (\<forall>x. nat_dirty nm x \<longleftrightarrow> nat_dirty nm0 x \<and> (nat_new nm0 x \<or> NAT_BLOCK_OFFSET x \<in> set rem)) \<and>
     next_nat_addr (nm_area nm) = next_nat_addr (nm_area nm0) \<and>
     (\<forall>b. nat_ok (nm_area nm0) b \<longrightarrow> nat_ok (nm_area nm) b \<and>
        nm_meta nm (current_nat_addr (nm_area nm0) (b * NAT_ENTRY_PER_BLOCK)) = nm_meta nm0 (current_nat_addr (nm_area nm0) (b * NAT_ENTRY_PER_BLOCK)) \<and>
        (b \<in> set rem \<longrightarrow> current_nat_addr (nm_area nm) (b * NAT_ENTRY_PER_BLOCK) = current_nat_addr (nm_area nm0) (b * NAT_ENTRY_PER_BLOCK))) \<and>
     (\<not> enabled_nat_bits nm0 (Some umount) \<and> n_ents (nm_jnl nm) + (\<Sum>b\<leftarrow>rem. set_size nm b) \<le> NAT_JOURNAL_ENTRIES \<or>
      (\<forall>x. jmap (nm_jnl nm) x \<noteq> None \<longrightarrow> NAT_BLOCK_OFFSET x \<notin> set rem)) \<and>
     (\<forall>x. nat_dirty nm0 x \<longrightarrow> \<not> nat_new nm0 x \<longrightarrow> x \<noteq> 0 \<longrightarrow> block_addr (nat_view nm0 x) = NULL_ADDR \<longrightarrow> NAT_BLOCK_OFFSET x \<notin> set rem \<longrightarrow>
        free_nid_root nm x \<noteq> None)"

lemma flushingD:
  assumes "flushing umount rem nm nm0"
  shows "mid_inv nm" "flush_frame nm nm0" "nat_dirty nm x \<longleftrightarrow> nat_dirty nm0 x \<and> (nat_new nm0 x \<or> NAT_BLOCK_OFFSET x \<in> set rem)"
    "next_nat_addr (nm_area nm) = next_nat_addr (nm_area nm0)" "nat_ok (nm_area nm0) b \<Longrightarrow> nat_ok (nm_area nm) b"
    "nat_ok (nm_area nm0) b \<Longrightarrow>
       nm_meta nm (current_nat_addr (nm_area nm0) (b * NAT_ENTRY_PER_BLOCK)) = nm_meta nm0 (current_nat_addr (nm_area nm0) (b * NAT_ENTRY_PER_BLOCK))"
    "nat_ok (nm_area nm0) b \<Longrightarrow> b \<in> set rem \<Longrightarrow>
       current_nat_addr (nm_area nm) (b * NAT_ENTRY_PER_BLOCK) = current_nat_addr (nm_area nm0) (b * NAT_ENTRY_PER_BLOCK)"
    "\<not> enabled_nat_bits nm0 (Some umount) \<and> n_ents (nm_jnl nm) + (\<Sum>b\<leftarrow>rem. set_size nm b) \<le> NAT_JOURNAL_ENTRIES \<or>
      (\<forall>x. jmap (nm_jnl nm) x \<noteq> None \<longrightarrow> NAT_BLOCK_OFFSET x \<notin> set rem)"
    "nat_dirty nm0 x \<Longrightarrow> \<not> nat_new nm0 x \<Longrightarrow> x \<noteq> 0 \<Longrightarrow> block_addr (nat_view nm0 x) = NULL_ADDR \<Longrightarrow> NAT_BLOCK_OFFSET x \<notin> set rem \<Longrightarrow>
        free_nid_root nm x \<noteq> None"
  using assms unfolding flushing_def by simp_all

lemma flushing_step:
  assumes fl: "flushing umount (b # rem) nm nm0" and d: "b \<notin> set rem" and b: "nat_ok (nm_area nm0) b"
  shows "flushing umount rem (flush_nat_entry_set umount b nm) nm0"
proof (cases "nat_set_root nm b")
  case None
  note F = flushingD [OF fl]
  have "\<not> nat_dirty nm x" if "NAT_BLOCK_OFFSET x = b" for x using None that nat_wfD(4) [OF mid_invD(7) [OF F(1)]] unfolding nat_sets_ok_def by auto
  then have nd: "\<not> (nat_dirty nm0 x \<and> \<not> nat_new nm0 x)" "\<not> (nat_dirty nm0 x \<and> nat_new nm0 x)" if "NAT_BLOCK_OFFSET x = b" for x using F(3) [of x] that by auto
  have "flush_nat_entry_set umount b nm = nm" using None by (simp add: flush_nat_entry_set_def)
  then show ?thesis using fl nd unfolding flushing_def by (auto simp: add.commute add.left_commute)
next
  case (Some h)
  note F = flushingD [OF fl]
  define nm' where "nm' = flush_nat_entry_set umount b nm"
  define tj where "tj = set_to_journal umount b nm"
  have en: "enabled_nat_bits nm (Some umount) = enabled_nat_bits nm0 (Some umount)" and new: "nat_new nm = nat_new nm0"
    and mx: "max_nid nm = max_nid nm0" and vw: "\<And>x. x < max_nid nm0 \<Longrightarrow> nat_view nm x = nat_view nm0 x"
    using F(2) by (simp_all add: enabled_nat_bits_def flush_frame_def view_kept_def)
  have okb: "nat_ok (nm_area nm) b" by (rule F(5) [OF b])
  have jok: "jnl_ok NAT_JOURNAL_ENTRIES (nm_jnl nm)" using mid_invD(8) [OF F(1)] by (simp add: nat_disk_ok_def)
  have sz: "set_size nm b < 2 ^ 64" using set_size_le [of nm b] by (simp add: NAT_ENTRY_PER_BLOCK_def)
  have j: "\<forall>x \<in> set_ids b nm. jmap (nm_jnl nm) x = None" if "\<not> tj"
  proof -
    have "\<not> (\<not> enabled_nat_bits nm0 (Some umount) \<and> n_ents (nm_jnl nm) + set_size nm b \<le> NAT_JOURNAL_ENTRIES)"
      using that has_space_iff [OF jok sz] jok unfolding tj_def set_to_journal_def en by (auto simp: jnl_ok_def)
    then show ?thesis using F(8) by (auto simp: set_ids_def)
  qed
  have S: "set_done b tj nm' nm" unfolding nm'_def tj_def by (rule flush_set_ok [OF F(1) Some okb j [unfolded tj_def]])
  have dirty: "nat_dirty nm' x \<longleftrightarrow> x \<notin> set_ids b nm \<and> nat_dirty nm x" for x using S unfolding set_done_def by blast
  have sizes: "set_size nm' c = set_size nm c" if "c \<noteq> b" for c
  proof -
    have "{x. NAT_BLOCK_OFFSET x = c \<and> nat_dirty nm' x} = {x. NAT_BLOCK_OFFSET x = c \<and> nat_dirty nm x}" using dirty that by (auto simp: set_ids_def)
    then show ?thesis by (simp add: set_size_def)
  qed
  have sum: "(\<Sum>c\<leftarrow>rem. set_size nm' c) = (\<Sum>c\<leftarrow>rem. set_size nm c)" using sizes d by (intro arg_cong [of _ _ sum_list] map_cong) (auto intro: sizes)
  let ?cur = "\<lambda>a b. current_nat_addr a (b * NAT_ENTRY_PER_BLOCK)"
  have lb: "?cur (nm_area nm) b = ?cur (nm_area nm0) b" using F(7) [OF b] by simp
  have area: "next_nat_addr (nm_area nm') = next_nat_addr (nm_area nm)" "nat_ok (nm_area nm) c \<Longrightarrow> nat_ok (nm_area nm') c"
    "nat_ok (nm_area nm) c \<Longrightarrow> c \<noteq> b \<Longrightarrow> ?cur (nm_area nm') c = ?cur (nm_area nm) c"
    "nat_ok (nm_area nm0) c \<Longrightarrow> nm_meta nm' (?cur (nm_area nm0) c) = nm_meta nm (?cur (nm_area nm0) c)" for c
  proof -
    have tr: "nm_area nm' = nm_area nm \<and> nm_meta nm' = nm_meta nm \<or> nm_area nm' = set_to_next_nat (b * NAT_ENTRY_PER_BLOCK) (nm_area nm) \<and>
        (\<forall>y. y \<noteq> next_nat_addr (nm_area nm0) (?cur (nm_area nm0) b) \<longrightarrow> nm_meta nm' y = nm_meta nm y)"
      using S lb F(4) unfolding set_done_def by (cases tj) simp_all
    show "next_nat_addr (nm_area nm') = next_nat_addr (nm_area nm)" "nat_ok (nm_area nm) c \<Longrightarrow> nat_ok (nm_area nm') c"
      "nat_ok (nm_area nm) c \<Longrightarrow> c \<noteq> b \<Longrightarrow> ?cur (nm_area nm') c = ?cur (nm_area nm) c"
      using tr nat2.alt_flip [OF okb] nat2.ok_flip [OF okb, of c] nat2.loc_flip [OF okb, of c] by auto
    assume c: "nat_ok (nm_area nm0) c"
    have "?cur (nm_area nm0) c \<noteq> next_nat_addr (nm_area nm0) (?cur (nm_area nm0) b)"
      using nat2.alt_other [OF b] nat2.apart [OF c b] by (cases "c = b") auto
    then show "nm_meta nm' (?cur (nm_area nm0) c) = nm_meta nm (?cur (nm_area nm0) c)" using tr by auto
  qed
  have fr: "flush_frame nm' nm" using S unfolding set_done_def by blast
  show ?thesis unfolding nm'_def [symmetric] flushing_def
  proof (intro conjI allI impI)
    show "mid_inv nm'" using S unfolding set_done_def by blast
    show "flush_frame nm' nm0" by (rule flush_frame_trans [OF fr F(2)])
    show "nat_dirty nm' x \<longleftrightarrow> nat_dirty nm0 x \<and> (nat_new nm0 x \<or> NAT_BLOCK_OFFSET x \<in> set rem)" for x
      using dirty [of x] F(3) [of x] d unfolding set_ids_def new by auto
    show "next_nat_addr (nm_area nm') = next_nat_addr (nm_area nm0)" using area(1) F(4) by simp
    show "\<not> enabled_nat_bits nm0 (Some umount) \<and> n_ents (nm_jnl nm') + (\<Sum>c\<leftarrow>rem. set_size nm' c) \<le> NAT_JOURNAL_ENTRIES \<or>
      (\<forall>x. jmap (nm_jnl nm') x \<noteq> None \<longrightarrow> NAT_BLOCK_OFFSET x \<notin> set rem)"
      using F(8)
    proof
      assume "\<not> enabled_nat_bits nm0 (Some umount) \<and> n_ents (nm_jnl nm) + (\<Sum>b\<leftarrow>b # rem. set_size nm b) \<le> NAT_JOURNAL_ENTRIES"
      moreover have "n_ents (nm_jnl nm') \<le> n_ents (nm_jnl nm) + set_size nm b" using S unfolding set_done_def by (cases tj) auto
      ultimately show ?thesis unfolding sum by auto
    next
      assume e: "\<forall>x. jmap (nm_jnl nm) x \<noteq> None \<longrightarrow> NAT_BLOCK_OFFSET x \<notin> set (b # rem)"
      have "NAT_BLOCK_OFFSET x \<notin> set rem" if "jmap (nm_jnl nm') x \<noteq> None" for x
      proof (cases "x \<in> set_ids b nm")
        case True
        then show ?thesis using d by (simp add: set_ids_def)
      next
        case False
        then have "jmap (nm_jnl nm') x = jmap (nm_jnl nm) x" using S unfolding set_done_def by blast
        then show ?thesis using e that by simp
      qed
      then show ?thesis by blast
    qed
    show "?cur (nm_area nm') c = ?cur (nm_area nm0) c" if c: "nat_ok (nm_area nm0) c" "c \<in> set rem" for c
      using area(3) [OF F(5) [OF c(1)]] F(7) [OF c(1)] c(2) d by auto
    fix x assume x: "nat_dirty nm0 x" "\<not> nat_new nm0 x" "x \<noteq> 0" "block_addr (nat_view nm0 x) = NULL_ADDR" "NAT_BLOCK_OFFSET x \<notin> set rem"
    show "free_nid_root nm' x \<noteq> None"
    proof (cases "NAT_BLOCK_OFFSET x = b")
      case True
      then have dx: "nat_dirty nm x" using F(3) [of x] x(1) by simp
      then have "x < max_nid nm0" using nat_wfD(1) [OF mid_invD(7) [OF F(1)]] mx by (auto simp: nat_dirty_def split: option.splits)
      then have "block_addr (nat_view nm x) = NULL_ADDR" using vw x(4) by simp
      moreover have "x \<in> set_ids b nm" using True dx x(2) new by (simp add: set_ids_def)
      ultimately show ?thesis using S x(3) unfolding set_done_def by blast
    next
      case False
      then have "free_nid_root nm x \<noteq> None" using F(9) [of x] x by simp
      then show ?thesis using fr unfolding flush_frame_def lists_grow_def by metis
    qed
  qed (use area F(5-7) d in \<open>auto\<close>)
qed

lemma flushing_all:
  assumes "flushing umount rem nm nm0" "distinct rem" "\<forall>b \<in> set rem. nat_ok (nm_area nm0) b"
  shows "flushing umount [] (fold (flush_nat_entry_set umount) rem nm) nm0"
  using assms
proof (induction rem arbitrary: nm)
  case (Cons b rem)
  then have "flushing umount rem (flush_nat_entry_set umount b nm) nm0" by (intro flushing_step) auto
  from Cons.IH [OF this] Cons.prems show ?case by simp
qed simp

lemma sizes_dirty:
  assumes wf: "nat_wf nm" and d: "distinct rem"
  shows "(\<Sum>b\<leftarrow>rem. set_size nm b) \<le> card {x. nat_dirty nm x}"
proof -
  have "(\<Sum>b\<leftarrow>rem. set_size nm b) = (\<Sum>b\<in>set rem. card {x. NAT_BLOCK_OFFSET x = b \<and> nat_dirty nm x})"
    using d by (simp add: sum_list_distinct_conv_sum_set set_size_def)
  also have "\<dots> = card (\<Union>b\<in>set rem. {x. NAT_BLOCK_OFFSET x = b \<and> nat_dirty nm x})"
    using nat_finite(3) [OF wf] by (intro card_UN_disjoint [symmetric]) auto
  also have "\<dots> \<le> card {x. nat_dirty nm x}" using nat_finite(2) [OF wf] by (intro card_mono) auto
  finally show ?thesis .
qed

lemma flushing_start:
  assumes inv: "mid_inv nm"
    and j: "\<not> enabled_nat_bits nm (Some umount) \<and> n_ents (nm_jnl nm) + card {x. nat_dirty nm x} \<le> NAT_JOURNAL_ENTRIES \<or> jmap (nm_jnl nm) = Map.empty"
  shows "flushing umount [] (fold (flush_nat_entry_set umount) (gang_loop nm 0 []) nm) nm"
proof -
  let ?rem = "gang_loop nm 0 []"
  have g: "distinct ?rem" "set ?rem = {s. s < nat_blocks nm \<and> nat_set_root nm s \<noteq> None}" using gang_loop_sets [of "[]" 0 nm] by auto
  have wf: "nat_wf nm" by (rule mid_invD(7) [OF inv])
  have mb: "max_nid nm = nat_blocks nm * NAT_ENTRY_PER_BLOCK" using mid_invD(3) [OF inv] by (simp add: bm_ok_def)
  have rem: "NAT_BLOCK_OFFSET x \<in> set ?rem" if "nat_dirty nm x" for x
  proof -
    have "x < max_nid nm" using nat_wfD(1) [OF wf] that by (auto simp: nat_dirty_def split: option.splits)
    then have "NAT_BLOCK_OFFSET x < nat_blocks nm" using mb by (simp add: NAT_BLOCK_OFFSET_def less_mult_imp_div_less)
    then show ?thesis using g(2) nat_wfD(4) [OF wf] that unfolding nat_sets_ok_def by blast
  qed
  have "nat_ok (nm_area nm) b" if "b \<in> set ?rem" for b
  proof -
    have "b * NAT_ENTRY_PER_BLOCK < max_nid nm" using that g(2) mb NEPB(1) by simp
    then show ?thesis using mid_invD(8) [OF inv] nat_block_start [of b] unfolding nat_disk_ok_def by metis
  qed
  moreover have "flushing umount ?rem nm nm"
    using inv j rem sizes_dirty [OF wf g(1)] unfolding flushing_def by auto
  ultimately show ?thesis using flushing_all g(1) by blast
qed

lemma mid_inv_done:
  assumes inv: "mid_inv nm" and new: "\<And>x. nat_dirty nm x \<Longrightarrow> nat_new nm x"
  shows "fn_inv nm"
proof -
  have "ckpt_ok nm" unfolding ckpt_ok_def
  proof (intro allI impI)
    fix x e assume e: "nat_root nm x = Some e" "get_nat_flag e IS_DIRTY"
    then have "nat_new nm x" by (intro new) (simp add: nat_dirty_def)
    then show "blk_addr e \<noteq> NULL_ADDR" using e(1) by (simp add: nat_new_def NEW_ADDR_def NULL_ADDR_def)
  qed
  moreover have "free_list_safe nm" unfolding free_list_safe_def nid_free_def
  proof (intro allI impI)
    fix x assume x: "free_nid_root nm x = Some FREE_NID"
    have v: "block_addr (nat_view nm x) = NULL_ADDR" by (rule mid_invD(6) [OF inv x])
    then have "\<not> nat_new nm x" by (auto simp: nat_new_def nat_view_def raw_nat_from_node_info_def NEW_ADDR_def NULL_ADDR_def split: option.splits)
    then have "\<not> nat_dirty nm x" using new by blast
    then show "\<not> nat_dirty nm x \<and> block_addr (nat_stored nm x) = NULL_ADDR" using v clean_view [OF mid_invD(1) [OF inv]] by simp
  qed
  ultimately show ?thesis using mid_invD(1-5) [OF inv] unfolding fn_inv_def by blast
qed

text \<open>What a flush does: the invariant with the states before (\<open>nm\<close>) and after (\<open>nm'\<close>).\<close>

definition nat_flushed :: "nm_info \<Rightarrow> nm_info \<Rightarrow> bool" where
  "nat_flushed nm' nm \<longleftrightarrow> max_nid nm' = max_nid nm \<and>
     (\<forall>nid < max_nid nm. nat_view nm' nid = nat_view nm nid \<and> (\<not> nat_new nm nid \<longrightarrow> \<not> nat_dirty nm' nid \<and> nat_stored nm' nid = nat_view nm nid) \<and>
        get_current_nat_page (nm_area nm) (nm_meta nm') nid = get_current_nat_page (nm_area nm) (nm_meta nm) nid) \<and>
     (\<forall>nid. nat_dirty nm nid \<longrightarrow> nid \<noteq> 0 \<longrightarrow> block_addr (nat_view nm nid) = NULL_ADDR \<longrightarrow> free_nid_root nm' nid \<noteq> None)"

lemma flush_nat_entries_ok:
  assumes inv: "fn_inv nm" and mx: "max_nid nm < 2 ^ 32"
  shows "fn_inv (flush_nat_entries umount nm)" "nat_flushed (flush_nat_entries umount nm) nm"
proof -
  have mi: "mid_inv nm" by (rule fn_inv_mid [OF inv])
  have wf: "nat_wf nm" and dk: "nat_disk_ok nm" by (rule mid_invD(7) [OF mi], rule mid_invD(8) [OF mi])
  have cnt: "dirty_nat_cnt nm = int (card {x. nat_dirty nm x})" by (rule nat_wfD(5) [OF wf])
  define nm' where "nm' = flush_nat_entries umount nm"
  have "fn_inv nm' \<and> nat_flushed nm' nm"
  proof (cases "dirty_nat_cnt nm = 0")
    case True
    then have "\<not> nat_dirty nm x" for x using cnt nat_finite(2) [OF wf] by simp
    moreover have "nm' = nm" using True by (simp add: nm'_def flush_nat_entries_def)
    ultimately show ?thesis using inv clean_view [OF mid_invD(1) [OF mi]] by (simp add: nat_flushed_def)
  next
    case False
    define rj where "rj \<longleftrightarrow> enabled_nat_bits nm (Some umount) \<or> \<not> has_cursum_space NAT_JOURNAL_ENTRIES (nm_jnl nm) (nat (dirty_nat_cnt nm))"
    define nm1 where "nm1 = (if rj then remove_nats_in_journal nm else nm)"
    note R = remove_nats_ok [OF mi]
    have one: "mid_inv nm1" "nat_view nm1 = nat_view nm" "nm_area nm1 = nm_area nm" "nm_meta nm1 = nm_meta nm" "max_nid nm1 = max_nid nm"
      "nat_new nm1 = nat_new nm" "\<And>x. nat_dirty nm x \<Longrightarrow> nat_dirty nm1 x"
      using R(1,2,5-7,9,10) mi by (simp_all add: nm1_def)
    have "card {x. nat_dirty nm x} \<le> card {..<max_nid nm}"
      using nat_wfD(1) [OF wf] by (intro card_mono) (auto simp: nat_dirty_def split: option.splits)
    then have small: "card {x. nat_dirty nm x} < 2 ^ 64" using mx by simp
    have jok: "jnl_ok NAT_JOURNAL_ENTRIES (nm_jnl nm)" using dk by (simp add: nat_disk_ok_def)
    have jc: "\<not> enabled_nat_bits nm1 (Some umount) \<and> n_ents (nm_jnl nm1) + card {x. nat_dirty nm1 x} \<le> NAT_JOURNAL_ENTRIES \<or> jmap (nm_jnl nm1) = Map.empty"
      using R(3) has_space_iff [OF jok small] jok unfolding nm1_def rj_def by (auto simp: cnt jnl_ok_def)
    have nm': "nm' = fold (flush_nat_entry_set umount) (gang_loop nm1 0 []) nm1"
      using False by (simp add: nm'_def flush_nat_entries_def nm1_def rj_def Let_def)
    note F = flushingD [OF flushing_start [OF one(1) jc, folded nm']]
    have fr: "max_nid nm' = max_nid nm" "nat_new nm' = nat_new nm" "\<And>x. x < max_nid nm \<Longrightarrow> nat_view nm' x = nat_view nm x"
      using F(2) one(2,5,6) by (simp_all add: flush_frame_def view_kept_def)
    have new: "nat_dirty nm' x \<Longrightarrow> nat_new nm x" for x using F(3) [of x] one(6) by simp
    have fin: "fn_inv nm'" using new fr(2) by (intro mid_inv_done [OF F(1)]) simp
    have area: "nat_ok (nm_area nm) (NAT_BLOCK_OFFSET x)" if "x < max_nid nm" for x using dk that by (simp add: nat_disk_ok_def)
    have page: "get_current_nat_page (nm_area nm) (nm_meta nm') x = get_current_nat_page (nm_area nm) (nm_meta nm) x" if "x < max_nid nm" for x
      using F(6) [of "NAT_BLOCK_OFFSET x"] area [OF that] unfolding get_current_nat_page_def cur_loc [of _ x] one(3,4) .
    have freed: "free_nid_root nm' x \<noteq> None" if "nat_dirty nm x" "x \<noteq> 0" "block_addr (nat_view nm x) = NULL_ADDR" for x
    proof -
      have "\<not> nat_new nm x" using that(3) by (auto simp: nat_new_def nat_view_def raw_nat_from_node_info_def NEW_ADDR_def NULL_ADDR_def split: option.splits)
      then show ?thesis using F(9) [of x] one(2,6,7) that by simp
    qed
    have "nat_stored nm' x = nat_view nm x" if "x < max_nid nm" "\<not> nat_new nm x" for x
      using clean_view [OF mid_invD(1) [OF F(1)]] new [of x] that fr(3) by metis
    then show ?thesis using fin fr(1,3) page freed new unfolding nat_flushed_def by blast
  qed
  then show "fn_inv (flush_nat_entries umount nm)" "nat_flushed (flush_nat_entries umount nm) nm" by (simp_all add: nm'_def)
qed

end
