(* ===== verification/Nat_Runs.thy ===== *)
theory Nat_Runs
  imports Nat_Durable
begin

text \<open>
  Runs of all operations on the node address table and the free node ids: however lookups, moves of nodes, cache shrinking, flushes,
  allocations and scans are interleaved, the table behaves as a map from node ids to entries, which only a move of a node changes.
\<close>

section \<open>Moving a node keeps the invariant\<close>

lemma dirty_root: "nat_root (set_nat_cache_dirty nid nm) =
    (case nat_root nm nid of None \<Rightarrow> nat_root nm | Some e \<Rightarrow> (nat_root nm)(nid \<mapsto> if get_nat_flag e IS_DIRTY then e else set_nat_flag IS_DIRTY True e))"
  by (auto simp: set_nat_cache_dirty_def Let_def put_ne_def fun_upd_idem split: option.split)

definition not_both :: "node_info \<Rightarrow> bool" where
  "not_both e \<longleftrightarrow> (get_nat_flag e IS_DIRTY \<longrightarrow> get_nat_flag e IS_CHECKPOINTED \<longrightarrow> blk_addr e \<noteq> NULL_ADDR)"

lemma ckpt_ok_alt: "ckpt_ok nm \<longleftrightarrow> (\<forall>e \<in> ran (nat_root nm). not_both e)"
  unfolding ckpt_ok_def not_both_def ran_def by blast

lemma not_both_upd: "\<forall>e \<in> ran m. not_both e \<Longrightarrow> not_both e' \<Longrightarrow> \<forall>e \<in> ran (m(k \<mapsto> e')). not_both e"
  by (auto simp: ran_def)

lemma set_node_addr_ckpt:
  assumes ck: "ckpt_ok nm"
  shows "ckpt_ok (set_node_addr ni new fsync nm)"
proof -
  define n where "n = ni_nid ni"
  define e where "e = (case nat_root nm n of None \<Rightarrow> copy_node_info ni (alloc_nat_entry n) | Some e \<Rightarrow> if new = NEW_ADDR then copy_node_info ni e else e)"
  define m where "m = (case nat_root nm n of None \<Rightarrow> (nat_root nm)(n \<mapsto> alloc_nat_entry n) | Some _ \<Rightarrow> nat_root nm)"
  define e1 where "e1 = (if blk_addr e \<noteq> NEW_ADDR \<and> new = NULL_ADDR then e\<lparr>version := version e + 1\<rparr> else e)"
  define e2 where "e2 = (if new = NEW_ADDR \<or> new = NULL_ADDR then set_nat_flag IS_CHECKPOINTED False (e1\<lparr>blk_addr := new\<rparr>) else e1\<lparr>blk_addr := new\<rparr>)"
  define e3 where "e3 = (if get_nat_flag e2 IS_DIRTY then e2 else set_nat_flag IS_DIRTY True e2)"
  define m2 where "m2 = m(n \<mapsto> e3)"
  have m: "\<forall>e \<in> ran (nat_root nm). not_both e" using ck by (simp add: ckpt_ok_alt)
  have fl: "get_nat_flag (y\<lparr>blk_addr := b\<rparr>) t = get_nat_flag y t" for y b t by (simp add: get_nat_flag_def)
  have nb3: "not_both e3" by (auto simp: e3_def e2_def not_both_def fl)
  have nbm: "\<forall>e \<in> ran m. not_both e"
  proof (cases "nat_root nm n")
    case None
    have "not_both (alloc_nat_entry n)"
      by (simp add: not_both_def alloc_nat_entry_def nat_reset_flag_def) (simp add: get_nat_flag_def)
    then show ?thesis using None m not_both_upd [OF m] by (simp add: m_def)
  qed (use m in \<open>simp add: m_def\<close>)
  have m2: "\<forall>e \<in> ran m2. not_both e" unfolding m2_def by (rule not_both_upd [OF nbm nb3])
  have "nat_root (set_node_addr ni new fsync nm) = (case m2 (ni_ino ni) of None \<Rightarrow> m2 | Some y \<Rightarrow>
      m2(ni_ino ni \<mapsto> set_nat_flag HAS_LAST_FSYNC fsync (if fsync \<and> n = ni_ino ni then set_nat_flag HAS_FSYNCED_INODE True y else y)))"
    unfolding set_node_addr_def m2_def e3_def e2_def e1_def e_def m_def n_def
    by (cases "nat_root nm (ni_nid ni)") (simp_all add: Let_def dirty_root put_ne_def nm_bug_on_def init_nat_entry_def alloc_nat_entry_def split: option.split)
  moreover have "not_both (set_nat_flag HAS_LAST_FSYNC on y) = not_both y" "not_both (set_nat_flag HAS_FSYNCED_INODE on y) = not_both y" for on y
    by (simp_all add: not_both_def)
  moreover have "\<forall>e \<in> ran (m2(x \<mapsto> set_nat_flag HAS_LAST_FSYNC on (if b then set_nat_flag HAS_FSYNCED_INODE True y else y))). not_both e"
    if "m2 x = Some y" for x y on b
    using m2 that calculation(2,3) by (intro not_both_upd [OF m2]) (auto simp: ran_def)
  ultimately show ?thesis unfolding ckpt_ok_alt using m2 by (cases "m2 (ni_ino ni)") simp_all
qed

lemma set_node_addr_fn:
  assumes inv: "fn_inv nm" and nid: "ni_nid ni < max_nid nm" and blk: "blk_addr ni = block_addr (nat_view nm (ni_nid ni))"
    and same: "new \<noteq> NEW_ADDR \<Longrightarrow> raw_nat_from_node_info ni = nat_view nm (ni_nid ni)" and mv: "addr_move_ok (blk_addr ni) new"
    and taken: "free_nid_root nm (ni_nid ni) \<noteq> Some FREE_NID"
  shows "fn_inv (set_node_addr ni new fsync nm)"
proof -
  let ?n = "set_node_addr ni new fsync nm"
  note S = set_node_addr_ok [OF fn_invD(1) [OF inv] nid blk same mv, where fsync = fsync]
  have sf: "same_free ?n nm" using more_free [OF S(5)] by blast
  have mx: "max_nid ?n = max_nid nm" using S(3) by blast
  note F = same_freeD [OF sf mx]
  have st: "nat_stored ?n = nat_stored nm" using same_diskD [OF S(3)] by blast
  have ij: "in_journal ?n = in_journal nm" using S(3) by (intro ext) (simp add: in_journal_def)
  have "bits_ok ?n" using fn_invD(4) [OF inv] S(6) unfolding bits_ok_def F ij st mx by blast
  moreover have "free_list_safe ?n"
    using fn_invD(7) [OF inv] S(6) taken unfolding free_list_safe_def nid_free_def st F(4) by metis
  ultimately show ?thesis
    using S(1,4) F(1,2) fn_invD(2,3,6) [OF inv] set_node_addr_ckpt [OF fn_invD(5) [OF inv]] unfolding fn_inv_def by metis
qed

section \<open>Runs\<close>

text \<open>
  The operations as the rest of the file system calls them. The guards are what the callers guarantee: a node is moved with the information
  that \<^verbatim>\<open>get_node_info\<close> gave for it, between addresses that \<^verbatim>\<open>set_node_addr\<close> allows, and only after its id left the free list; an
  allocation is undone only before the id was used.
\<close>

datatype nat_op = Get_info bool bool nat | Set_addr node_info nat bool | Free_nats bool nat | Flush bool | Alloc bool | Alloc_done nat
  | Alloc_failed bool nat | Build bool bool bool | Free_nids bool int

inductive nat_step :: "nm_info \<Rightarrow> nat_op \<Rightarrow> nm_info \<Rightarrow> bool" where
  step_get: "nid < max_nid nm \<Longrightarrow> get_node_info a i nid nm = (ni, nm') \<Longrightarrow> nat_step nm (Get_info a i nid) nm'"
| step_set: "ni_nid ni < max_nid nm \<Longrightarrow> blk_addr ni = block_addr (nat_view nm (ni_nid ni)) \<Longrightarrow>
     new \<noteq> NEW_ADDR \<longrightarrow> raw_nat_from_node_info ni = nat_view nm (ni_nid ni) \<Longrightarrow> addr_move_ok (blk_addr ni) new \<Longrightarrow>
     free_nid_root nm (ni_nid ni) \<noteq> Some FREE_NID \<Longrightarrow> nat_step nm (Set_addr ni new fsync) (set_node_addr ni new fsync nm)"
| step_nats: "try_to_free_nats locked nr nm = (k, nm') \<Longrightarrow> nat_step nm (Free_nats locked nr) nm'"
| step_flush: "nat_step nm (Flush umount) (flush_nat_entries umount nm)"
| step_alloc: "alloc_nid inject nm = Some (r, nm') \<Longrightarrow> nat_step nm (Alloc inject) nm'"
| step_done: "free_nid_root nm nid = Some PREALLOC_NID \<Longrightarrow> nat_step nm (Alloc_done nid) (alloc_nid_done nid nm)"
| step_failed: "free_nid_root nm nid = Some PREALLOC_NID \<Longrightarrow> \<not> nat_dirty nm nid \<Longrightarrow> block_addr (nat_view nm nid) = NULL_ADDR \<Longrightarrow>
     nat_step nm (Alloc_failed mem_ok nid) (alloc_nid_failed mem_ok nid nm)"
| step_build: "nat_step nm (Build mem_ok sync mount) (build_free_nids mem_ok sync mount nm)"
| step_nids: "try_to_free_nids locked nr nm = (k, nm') \<Longrightarrow> nat_step nm (Free_nids locked nr) nm'"

inductive_cases nat_stepE: "nat_step nm op nm'"

text \<open>The abstract table: a map from node ids to entries.\<close>

fun map_op :: "nat_op \<Rightarrow> (nat \<Rightarrow> f2fs_nat_entry) \<Rightarrow> nat \<Rightarrow> f2fs_nat_entry" where
  "map_op (Set_addr ni new fsync) m = m(ni_nid ni := moved_entry ni new)"
| "map_op _ m = m"

fun is_flush :: "nat_op \<Rightarrow> bool" where
  "is_flush (Flush _) = True"
| "is_flush _ = False"

inductive nat_run :: "nm_info \<Rightarrow> nat_op list \<Rightarrow> nm_info \<Rightarrow> bool" where
  run_nil: "nat_run nm [] nm"
| run_cons: "nat_step nm op nm1 \<Longrightarrow> nat_run nm1 ops nm' \<Longrightarrow> nat_run nm (op # ops) nm'"

definition map_agrees :: "nm_info \<Rightarrow> (nat \<Rightarrow> f2fs_nat_entry) \<Rightarrow> bool" where
  "map_agrees nm m \<longleftrightarrow> (\<forall>nid < max_nid nm. nat_view nm nid = m nid)"

text \<open>A step on the cache alone.\<close>

lemma more_fn_inv:
  assumes inv: "fn_inv nm" and ni: "nat_inv nm'" and s: "same_disk nm' nm" "nm_bug nm' = nm_bug nm" "nat_dirty nm' = nat_dirty nm"
    "nm_cache.more nm' = nm_cache.more nm" and ck: "ckpt_ok nm'"
  shows "fn_inv nm'"
proof -
  have sf: "same_free nm' nm" using more_free [OF s(4)] by blast
  have mx: "max_nid nm' = max_nid nm" using s(1) by blast
  note F = same_freeD [OF sf mx]
  have st: "nat_stored nm' = nat_stored nm" using same_diskD [OF s(1)] by blast
  have ij: "in_journal nm' = in_journal nm" using s(1) by (intro ext) (simp add: in_journal_def)
  have "bits_ok nm'" using fn_invD(4) [OF inv] unfolding bits_ok_def F ij st mx s(3) .
  moreover have "free_list_safe nm'" using fn_invD(7) [OF inv] unfolding free_list_safe_def nid_free_def st F(4) s(3) by blast
  ultimately show ?thesis using ni ck F(1,2) s(2) fn_invD(2,3,6) [OF inv] unfolding fn_inv_def by metis
qed

lemma init_ckpt: "ckpt_ok nm \<Longrightarrow> ckpt_ok (init_nat_entry (alloc_nat_entry nid) (Some raw) nm)"
proof -
  assume c: "ckpt_ok nm"
  have "not_both (node_info_from_raw_nat raw (alloc_nat_entry nid))"
    by (simp add: not_both_def node_info_from_raw_nat_def alloc_nat_entry_def nat_reset_flag_def set_nat_flag_def get_nat_flag_def Let_def)
  then show ?thesis using c not_both_upd [of "nat_root nm"] unfolding ckpt_ok_alt by (simp add: init_nat_entry_def)
qed

lemma get_info_ckpt: "ckpt_ok nm \<Longrightarrow> get_node_info a i nid nm = (ni, nm') \<Longrightarrow> ckpt_ok nm'"
  by (auto simp: get_node_info_def cache_nat_entry_def Let_def init_ckpt split: option.splits if_splits)

lemma free_nats_ckpt: "ckpt_ok nm \<Longrightarrow> ckpt_ok (snd (free_nats_loop nr nm))"
proof (induction nr nm rule: free_nats_loop.induct)
  case (2 nr nm)
  have "ckpt_ok (del_from_nat_cache x nm)" for x
    using 2(2) by (auto simp: ckpt_ok_def del_from_nat_cache_def list_del_ne_def Let_def split: if_splits)
  then show ?case using 2 by (auto split: list.split)
qed simp

lemma alloc_nid_kept:
  assumes "alloc_nid inject nm = Some r" "fn_inv nm" "0 < max_nid nm"
  shows "fn_inv (snd r) \<and> same_cache (snd r) nm"
proof -
  have "fn_inv nm \<longrightarrow> 0 < max_nid nm \<longrightarrow> fn_inv (snd r) \<and> same_cache (snd r) nm"
  proof (rule alloc_nid.raw_induct [OF _ assms(1)])
    fix alloc inject nm and r :: "nat option \<times> nm_info"
    assume ih: "\<And>inject nm r. alloc inject nm = Some r \<Longrightarrow> fn_inv nm \<longrightarrow> 0 < max_nid nm \<longrightarrow> fn_inv (snd r) \<and> same_cache (snd r) nm"
      and eq: "(if inject then Some (None, nm)
      else if available_nids nm = 0 then Some (None, nm)
      else if nid_cnt nm FREE_NID \<noteq> 0 then
        (let nm = nm_bug_on (free_nid_list nm = []) nm;
             nid = hd (free_nid_list nm);
             nm = move_free_nid nid FREE_NID PREALLOC_NID nm;
             nm = nm\<lparr>available_nids := available_nids nm - 1\<rparr>;
             nm = update_free_nid_bitmap nid False False nm
         in Some (Some nid, nm))
      else alloc False (build_free_nids True True False nm)) = Some r"
    show "fn_inv nm \<longrightarrow> 0 < max_nid nm \<longrightarrow> fn_inv (snd r) \<and> same_cache (snd r) nm"
    proof (intro impI)
      assume inv: "fn_inv nm" and pos: "0 < max_nid nm"
      consider "inject \<or> available_nids nm = 0" | "\<not> inject" "available_nids nm \<noteq> 0" "nid_cnt nm FREE_NID \<noteq> 0"
        | "\<not> inject" "available_nids nm \<noteq> 0" "nid_cnt nm FREE_NID = 0" by blast
      then show "fn_inv (snd r) \<and> same_cache (snd r) nm"
      proof cases
        case 1
        then have "r = (None, nm)" using eq by (auto split: if_splits)
        then show ?thesis using inv by simp
      next
        case 2
        then have "alloc_nid False nm = Some r" using eq by (subst alloc_nid.simps) simp
        then show ?thesis using alloc_take_ok [OF inv 2(3,2)] by auto
      next
        case 3
        let ?n = "build_free_nids True True False nm"
        note B = build_free_nids_ok [OF inv pos, of True True False]
        have c: "same_cache ?n nm" using B(2) by (simp add: scan_frame_def)
        then have "0 < max_nid ?n" using pos same_cacheD(2) [OF c] by simp
        moreover have "alloc False ?n = Some r" using eq 3 by simp
        ultimately show ?thesis using ih [of False ?n r] B(1) c by simp
      qed
    qed
  qed
  then show ?thesis using assms(2,3) by blast
qed

lemma nat_step_ok:
  assumes st: "nat_step nm op nm'" and inv: "fn_inv nm" and mx: "0 < max_nid nm" "max_nid nm < 2 ^ 32" and m: "map_agrees nm m"
  shows "fn_inv nm' \<and> max_nid nm' = max_nid nm \<and> map_agrees nm' (map_op op m) \<and> (\<not> is_flush op \<longrightarrow> same_disk nm' nm)"
proof -
  have ni: "nat_inv nm" by (rule fn_invD(1) [OF inv])
  have cache: ?thesis if "fn_inv nm'" "same_cache nm' nm" "map_op op m = m"
    using that same_cacheD(2,7) [OF that(2)] m by (simp add: map_agrees_def)
  show ?thesis using st
  proof (cases rule: nat_step.cases)
    case (step_get nid a i ni')
    note G = get_node_info_ok [OF ni step_get(2,3)]
    have "fn_inv nm'" by (rule more_fn_inv [OF inv G(3,5-8) get_info_ckpt [OF fn_invD(5) [OF inv] step_get(3)]])
    then show ?thesis using G(4,5) step_get(1) m by (simp add: map_agrees_def)
  next
    case (step_set ni' new fsync)
    have nn: "new \<noteq> NEW_ADDR \<Longrightarrow> raw_nat_from_node_info ni' = nat_view nm (ni_nid ni')" using step_set by blast
    note S = set_node_addr_ok [OF ni step_set(3,4) nn step_set(6), where fsync = fsync, folded step_set(2)]
    have "fn_inv nm'" using set_node_addr_fn [OF inv step_set(3,4) nn step_set(6,7)] step_set(2) by simp
    then show ?thesis using S(2,3) step_set(1) m by (simp add: map_agrees_def)
  next
    case (step_nats locked nr k)
    note T = try_to_free_nats_ok [OF ni step_nats(2)]
    have "ckpt_ok nm'" using step_nats(2) fn_invD(5) [OF inv] free_nats_ckpt [of nm nr]
      by (auto simp: try_to_free_nats_def split: if_splits prod.splits)
    then have "fn_inv nm'" using more_fn_inv [OF inv] T by blast
    then show ?thesis using T step_nats(1) m by (simp add: map_agrees_def)
  next
    case (step_flush umount)
    note F = flush_nat_entries_ok [OF inv mx(2), of umount, folded step_flush(2)]
    then show ?thesis using step_flush(1) m by (simp add: map_agrees_def nat_flushed_def)
  next
    case (step_alloc inject r)
    then show ?thesis using alloc_nid_kept [OF step_alloc(2) inv mx(1)] by (intro cache) simp_all
  next
    case (step_done nid)
    then show ?thesis using alloc_nid_done_ok [OF inv step_done(3)] by (intro cache) simp_all
  next
    case (step_failed nid mem_ok)
    have "nid_free nm nid" using step_failed(4,5) clean_view [OF ni] by (simp add: nid_free_def)
    then show ?thesis using alloc_nid_failed_ok [OF inv step_failed(3), of mem_ok] step_failed(1,2) by (intro cache) simp_all
  next
    case (step_build mem_ok sync mount)
    then show ?thesis using build_free_nids_ok [OF inv mx(1), of mem_ok sync mount] by (intro cache) (simp_all add: scan_frame_def)
  next
    case (step_nids locked nr k)
    then show ?thesis using try_to_free_nids_ok [OF inv step_nids(2)] by (intro cache) simp_all
  qed
qed

lemma nat_run_ok:
  assumes "nat_run nm ops nm'" "fn_inv nm" "0 < max_nid nm" "max_nid nm < 2 ^ 32" "map_agrees nm m"
  shows "fn_inv nm' \<and> max_nid nm' = max_nid nm \<and> map_agrees nm' (fold map_op ops m) \<and> ((\<forall>op \<in> set ops. \<not> is_flush op) \<longrightarrow> same_disk nm' nm)"
  using assms
proof (induction arbitrary: m rule: nat_run.induct)
  case (run_cons nm op nm1 ops nm')
  note S = nat_step_ok [OF run_cons(1,4-7)]
  show ?case using run_cons(3) [of "map_op op m"] S run_cons(5,6) by auto
qed simp

lemma nat_run_append: "nat_run nm (xs @ ys) nm' \<longleftrightarrow> (\<exists>nm1. nat_run nm xs nm1 \<and> nat_run nm1 ys nm')"
proof
  assume "nat_run nm (xs @ ys) nm'"
  then show "\<exists>nm1. nat_run nm xs nm1 \<and> nat_run nm1 ys nm'"
  proof (induction xs arbitrary: nm)
    case (Cons x xs)
    from Cons.prems obtain nm0 where "nat_step nm x nm0" "nat_run nm0 (xs @ ys) nm'" by (auto elim: nat_run.cases)
    then show ?case using Cons.IH run_cons by blast
  qed (auto intro: run_nil)
next
  assume "\<exists>nm1. nat_run nm xs nm1 \<and> nat_run nm1 ys nm'"
  then obtain nm1 where r: "nat_run nm xs nm1" "nat_run nm1 ys nm'" by blast
  from r(1) show "nat_run nm (xs @ ys) nm'" using r(2) by induction (auto intro: run_cons)
qed

lemma nat_run_single: "nat_run nm [op] nm' \<longleftrightarrow> nat_step nm op nm'"
  by (auto elim: nat_run.cases intro: nat_run.intros)

lemma not_new_view: "block_addr (nat_view nm nid) \<noteq> NEW_ADDR \<Longrightarrow> \<not> nat_new nm nid"
  by (auto simp: nat_new_def nat_view_def raw_nat_from_node_info_def split: option.splits)

section \<open>Results\<close>

text \<open>
  Property C7. A flush makes the node address table durable without touching the last checkpoint. Afterwards the table reads as before for
  every node id; every entry whose node has a place on disk, or none, is clean and is what the journal and the current copies of
  the table say; with the version bits of the last checkpoint every table block still reads as it did before; every id whose node was removed
  is handed back to the free list or was already on it; and the invariant of the table and of the free ids holds, so that no assertion of the code failed.
\<close>

theorem flush_nat_entries_durable:
  fixes umount :: bool
  assumes "fn_inv nm" "max_nid nm < 2 ^ 32"
  defines "nm' \<equiv> flush_nat_entries umount nm"
  shows "fn_inv nm' \<and> max_nid nm' = max_nid nm \<and>
    (\<forall>nid < max_nid nm. nat_view nm' nid = nat_view nm nid \<and>
       (block_addr (nat_view nm nid) \<noteq> NEW_ADDR \<longrightarrow> \<not> nat_dirty nm' nid \<and> nat_stored nm' nid = nat_view nm nid) \<and>
       get_current_nat_page (nm_area nm) (nm_meta nm') nid = get_current_nat_page (nm_area nm) (nm_meta nm) nid) \<and>
    (\<forall>nid. nat_dirty nm nid \<longrightarrow> nid \<noteq> 0 \<longrightarrow> block_addr (nat_view nm nid) = NULL_ADDR \<longrightarrow> free_nid_root nm' nid \<noteq> None)"
  using flush_nat_entries_ok [OF assms(1,2), of umount, folded nm'_def] not_new_view [of nm] unfolding nat_flushed_def by simp

text \<open>
  Property C8. The node address table refines a map. After any interleaving of lookups, moves of nodes, cache shrinking, flushes, allocations
  and scans, each with what its callers guarantee, the invariant holds and the table is the map that results from the moves alone. What is on disk
  is the map as it was at the last flush, for every node that had a place on disk (or none) then, whatever was done since.
\<close>

theorem nat_run_refines_map:
  assumes "fn_inv nm" "0 < max_nid nm" "max_nid nm < 2 ^ 32" "nat_run nm ops nm'"
  shows "fn_inv nm' \<and> (\<forall>nid < max_nid nm. nat_view nm' nid = fold map_op ops (nat_view nm) nid) \<and>
    (\<forall>xs umount ys nid. ops = xs @ Flush umount # ys \<longrightarrow> list_all (\<lambda>op. \<not> is_flush op) ys \<longrightarrow> nid < max_nid nm \<longrightarrow>
       block_addr (fold map_op xs (nat_view nm) nid) \<noteq> NEW_ADDR \<longrightarrow> nat_stored nm' nid = fold map_op xs (nat_view nm) nid)"
proof -
  have start: "map_agrees nm (nat_view nm)" by (simp add: map_agrees_def)
  note R = nat_run_ok [OF assms(4,1-3) start]
  have disk: "nat_stored nm' nid = fold map_op xs (nat_view nm) nid"
    if ops: "ops = xs @ Flush umount # ys" and ys: "list_all (\<lambda>op. \<not> is_flush op) ys" and nid: "nid < max_nid nm"
      and ad: "block_addr (fold map_op xs (nat_view nm) nid) \<noteq> NEW_ADDR" for xs umount ys nid
  proof -
    have "nat_run nm (xs @ [Flush umount] @ ys) nm'" using assms(4) ops by simp
    then obtain nm1 nm2 where r: "nat_run nm xs nm1" "nat_step nm1 (Flush umount) nm2" "nat_run nm2 ys nm'"
      unfolding nat_run_append nat_run_single by blast
    have f: "nm2 = flush_nat_entries umount nm1" using r(2) by (cases rule: nat_step.cases) simp
    note R1 = nat_run_ok [OF r(1) assms(1-3) start]
    have v: "nat_view nm1 nid = fold map_op xs (nat_view nm) nid" using R1 nid by (simp add: map_agrees_def)
    have mx: "0 < max_nid nm1" "max_nid nm1 < 2 ^ 32" using R1 assms(2,3) by simp_all
    note F = flush_nat_entries_ok [OF conjunct1 [OF R1] mx(2), of umount, folded f]
    have "nat_stored nm2 nid = nat_view nm1 nid"
      using F(2) R1 nid not_new_view [of nm1 nid] ad v unfolding nat_flushed_def by simp
    moreover have "same_disk nm' nm2"
    proof -
      have "map_agrees nm2 (nat_view nm2)" "0 < max_nid nm2" "max_nid nm2 < 2 ^ 32" using mx F(2) by (simp_all add: map_agrees_def nat_flushed_def)
      from nat_run_ok [OF r(3) F(1) this(2,3,1)] show ?thesis using ys by (simp add: list_all_iff)
    qed
    ultimately show ?thesis using same_diskD v by metis
  qed
  show ?thesis using R disk by (simp add: map_agrees_def)
qed

text \<open>A node is created and written: id 7 of the small table.\<close>

definition demo_new :: node_info where "demo_new = \<lparr>ni_nid = 7, ni_ino = 7, blk_addr = NULL_ADDR, version = 0, ni_flag = 0\<rparr>"
definition demo_placed :: node_info where "demo_placed = demo_new\<lparr>blk_addr := NEW_ADDR\<rparr>"

lemma demo_steps:
  defines "nm1 \<equiv> set_node_addr demo_new NEW_ADDR False demo_nm"
  defines "nm2 \<equiv> set_node_addr demo_placed 5000 False nm1"
  shows "nat_step demo_nm (Set_addr demo_new NEW_ADDR False) nm1" "nat_step nm1 (Set_addr demo_placed 5000 False) nm2"
    "fn_inv nm2" "max_nid nm2 = 455" "nat_view nm2 7 = \<lparr>rn_version = 0, rn_ino = 7, block_addr = 5000\<rparr>"
proof -
  have mx: "max_nid demo_nm = 455" by (simp add: demo_nm_def NAT_ENTRY_PER_BLOCK_def)
  have v0: "block_addr (nat_view demo_nm 7) = 0"
    using clean_view [OF demo_nm_nat_inv(1) demo_nm_nat_inv(3)] demo_nm_nat_inv(4) by simp
  have f0: "free_nid_root demo_nm 7 = None" by (simp add: demo_nm_def)
  show s1: "nat_step demo_nm (Set_addr demo_new NEW_ADDR False) nm1"
    unfolding nm1_def by (rule step_set) (simp_all add: demo_new_def mx v0 f0 addr_move_ok_def NULL_ADDR_def NEW_ADDR_def)
  have p: "ni_nid demo_new < max_nid demo_nm" "blk_addr demo_new = block_addr (nat_view demo_nm (ni_nid demo_new))" "addr_move_ok (blk_addr demo_new) NEW_ADDR"
    by (simp_all add: demo_new_def mx v0 addr_move_ok_def NULL_ADDR_def NEW_ADDR_def)
  note S = set_node_addr_ok [OF demo_nm_nat_inv(1) p(1,2) _ p(3), where fsync = False, simplified, folded nm1_def]
  have v1: "nat_view nm1 7 = \<lparr>rn_version = 0, rn_ino = 7, block_addr = NEW_ADDR\<rparr>"
    unfolding S(2) by (simp add: moved_entry_def demo_new_def NULL_ADDR_def NEW_ADDR_def)
  have m1: "max_nid nm1 = 455" using S(3) mx by simp
  have f1: "free_nid_root nm1 7 = None" using more_free [OF S(5)] f0 by (simp add: same_free_def same_lists_def)
  show s2: "nat_step nm1 (Set_addr demo_placed 5000 False) nm2"
    unfolding nm2_def by (rule step_set) (simp_all add: demo_placed_def demo_new_def m1 v1 f1 addr_move_ok_def NULL_ADDR_def NEW_ADDR_def raw_nat_from_node_info_def)
  have run: "nat_run demo_nm [Set_addr demo_new NEW_ADDR False, Set_addr demo_placed 5000 False] nm2"
    by (rule run_cons [OF s1 run_cons [OF s2 run_nil]])
  have "map_agrees demo_nm (nat_view demo_nm)" by (simp add: map_agrees_def)
  from nat_run_ok [OF run demo_nm_inv _ _ this] mx
  show "fn_inv nm2" "max_nid nm2 = 455" "nat_view nm2 7 = \<lparr>rn_version = 0, rn_ino = 7, block_addr = 5000\<rparr>"
    by (simp_all add: map_agrees_def moved_entry_def demo_placed_def demo_new_def NULL_ADDR_def)
qed

theorem flush_nat_entries_durable_witness:
  "nat_stored (flush_nat_entries True (set_node_addr demo_placed 5000 False (set_node_addr demo_new NEW_ADDR False demo_nm))) 7 =
     \<lparr>rn_version = 0, rn_ino = 7, block_addr = 5000\<rparr>"
  using flush_nat_entries_durable [OF demo_steps(3), of True] demo_steps(4,5) by (simp add: NEW_ADDR_def)

theorem nat_run_refines_map_witness:
  "\<exists>nm'. nat_run demo_nm [Set_addr demo_new NEW_ADDR False, Set_addr demo_placed 5000 False, Flush False, Get_info True True 9] nm' \<and>
     nat_view nm' 7 = \<lparr>rn_version = 0, rn_ino = 7, block_addr = 5000\<rparr> \<and> nat_stored nm' 7 = \<lparr>rn_version = 0, rn_ino = 7, block_addr = 5000\<rparr>"
proof -
  let ?nm2 = "set_node_addr demo_placed 5000 False (set_node_addr demo_new NEW_ADDR False demo_nm)"
  let ?nm3 = "flush_nat_entries False ?nm2" and ?ops = "[Set_addr demo_new NEW_ADDR False, Set_addr demo_placed 5000 False, Flush False, Get_info True True 9]"
  have "9 < max_nid ?nm3" using flush_nat_entries_ok(2) [OF demo_steps(3), of False] demo_steps(4) by (simp add: nat_flushed_def)
  then obtain nm' where run: "nat_run demo_nm ?ops nm'"
    using demo_steps(1,2) step_flush step_get by (metis run_cons run_nil surj_pair)
  have mx: "max_nid demo_nm = 455" by (simp add: demo_nm_def NAT_ENTRY_PER_BLOCK_def)
  have cat: "?ops = [Set_addr demo_new NEW_ADDR False, Set_addr demo_placed 5000 False] @ Flush False # [Get_info True True 9]" by simp
  have "nat_view nm' 7 = fold map_op ?ops (nat_view demo_nm) 7 \<and>
      nat_stored nm' 7 = fold map_op [Set_addr demo_new NEW_ADDR False, Set_addr demo_placed 5000 False] (nat_view demo_nm) 7"
  proof
    have "0 < max_nid demo_nm" "max_nid demo_nm < 2 ^ 32" "7 < max_nid demo_nm" using mx by simp_all
    note T = nat_run_refines_map [OF demo_nm_inv this(1,2) run]
    show "nat_view nm' 7 = fold map_op ?ops (nat_view demo_nm) 7" using T \<open>7 < max_nid demo_nm\<close> by blast
    have la: "list_all (\<lambda>op. \<not> is_flush op) [Get_info True True 9]" by simp
    have "block_addr (fold map_op [Set_addr demo_new NEW_ADDR False, Set_addr demo_placed 5000 False] (nat_view demo_nm) 7) \<noteq> NEW_ADDR"
      by (simp add: moved_entry_def demo_placed_def demo_new_def NEW_ADDR_def)
    then show "nat_stored nm' 7 = fold map_op [Set_addr demo_new NEW_ADDR False, Set_addr demo_placed 5000 False] (nat_view demo_nm) 7"
      using T cat \<open>7 < max_nid demo_nm\<close> la by blast
  qed
  then show ?thesis using run by (auto simp: moved_entry_def demo_placed_def demo_new_def NULL_ADDR_def NEW_ADDR_def)
qed

end
