(* ===== verification/Dentry_Block.thy ===== *)
theory Dentry_Block
  imports Hash Bitmap
begin

text \<open>
  Blocks of directory entries (\<^verbatim>\<open>dir.c\<close>, \<^verbatim>\<open>f2fs.h\<close>). An entry occupies as many consecutive slots as its
  name needs; a bitmap marks the slots in use, the first slot of an entry (its head) describes it. The same format is used for a block
  of a directory and, with fewer slots, inside the inode. The operations find an entry, find room, add, delete and list; as long
  as the marked slots are exactly the spans of the entries they implement a finite map from names.
\<close>

section \<open>Entries and blocks\<close>

definition F2FS_SLOT_LEN :: nat where "F2FS_SLOT_LEN = 8"
definition F2FS_SLOT_LEN_BITS :: nat where "F2FS_SLOT_LEN_BITS = 3"
definition GET_DENTRY_SLOTS :: "nat \<Rightarrow> nat" where
  "GET_DENTRY_SLOTS x = drop_bit F2FS_SLOT_LEN_BITS (x + F2FS_SLOT_LEN - 1)"
definition NR_DENTRY_IN_BLOCK :: nat where "NR_DENTRY_IN_BLOCK = 214"
definition SIZE_OF_DENTRY_BITMAP :: nat where "SIZE_OF_DENTRY_BITMAP = (NR_DENTRY_IN_BLOCK + 8 - 1) div 8"

record f2fs_dir_entry =
  hash_code :: u32
  de_ino :: u32
  name_len :: u16
  file_type :: u8

text \<open>The file name slots are one byte array: a name may run over several slots.\<close>

record f2fs_dentry_ptr =
  d_bitmap :: "u8 list"
  d_dentry :: "f2fs_dir_entry list"
  d_filename :: "u8 list"
  d_max :: nat
  d_nr_bitmap :: nat

definition zero_de :: f2fs_dir_entry where "zero_de = \<lparr>hash_code = 0, de_ino = 0, name_len = 0, file_type = 0\<rparr>"

definition de_at :: "f2fs_dentry_ptr \<Rightarrow> nat \<Rightarrow> f2fs_dir_entry" where
  "de_at d pos = arr_get zero_de (d_dentry d) pos"

definition de_name :: "f2fs_dentry_ptr \<Rightarrow> nat \<Rightarrow> u8 list" where
  "de_name d pos = take (unat (name_len (de_at d pos))) (drop (pos * F2FS_SLOT_LEN) (d_filename d))"

definition de_slots :: "f2fs_dentry_ptr \<Rightarrow> nat \<Rightarrow> nat" where
  "de_slots d pos = GET_DENTRY_SLOTS (unat (name_len (de_at d pos)))"

section \<open>File types\<close>

text \<open>The file type kept in an entry, the type bits of a mode and the type that is reported when a directory is read.\<close>

definition f2fs_type_by_mode :: "u8 list" where
  "f2fs_type_by_mode = [0, 5, 3, 0, 2, 0, 4, 0, 1, 0, 7, 0, 6, 0, 0]"

definition f2fs_filetype_table :: "u8 list" where
  "f2fs_filetype_table = [0, 8, 4, 2, 6, 1, 12, 10]"

definition S_IFMT :: u16 where "S_IFMT = 0xF000"
definition S_SHIFT :: nat where "S_SHIFT = 12"
definition F2FS_FT_MAX :: u8 where "F2FS_FT_MAX = 8"

definition set_de_type :: "u16 \<Rightarrow> f2fs_dir_entry \<Rightarrow> f2fs_dir_entry" where
  "set_de_type mode de = de\<lparr>file_type := arr_get 0 f2fs_type_by_mode (unat (drop_bit S_SHIFT (mode AND S_IFMT)))\<rparr>"

definition get_de_type :: "f2fs_dir_entry \<Rightarrow> u8" where
  "get_de_type de = (if file_type de < F2FS_FT_MAX then f2fs_filetype_table ! unat (file_type de) else 0)"

section \<open>Operations\<close>

text \<open>The kernel's searches for the next set or clear bit.\<close>

definition find_next_bit_le :: "u8 list \<Rightarrow> nat \<Rightarrow> nat \<Rightarrow> nat" where
  "find_next_bit_le bm n off = (case find (\<lambda>i. test_bit_le i bm) [off..<n] of Some i \<Rightarrow> i | None \<Rightarrow> n)"

definition find_next_zero_bit_le :: "u8 list \<Rightarrow> nat \<Rightarrow> nat \<Rightarrow> nat" where
  "find_next_zero_bit_le bm n off = (case find (\<lambda>i. \<not> test_bit_le i bm) [off..<n] of Some i \<Rightarrow> i | None \<Rightarrow> n)"

lemma find_next_char:
  fixes P :: "nat \<Rightarrow> bool" and off n :: nat
  defines "r \<equiv> (case find P [off..<n] of Some i \<Rightarrow> i | None \<Rightarrow> n)"
  shows "off \<le> i \<Longrightarrow> i < r \<Longrightarrow> i < n \<Longrightarrow> \<not> P i" "r < n \<Longrightarrow> P r \<and> off \<le> r" "r \<le> n" "off \<le> n \<Longrightarrow> off \<le> r"
proof -
  have "(off \<le> i \<longrightarrow> i < r \<longrightarrow> i < n \<longrightarrow> \<not> P i) \<and> (r < n \<longrightarrow> P r \<and> off \<le> r) \<and> r \<le> n \<and> (off \<le> n \<longrightarrow> off \<le> r)"
  proof (cases "find P [off..<n]")
    case None
    moreover from None have "\<forall>x \<in> set [off..<n]. \<not> P x" by (simp add: find_None_iff)
    ultimately show ?thesis by (simp add: r_def)
  next
    case (Some k)
    then obtain j where j: "j < length [off..<n]" "P ([off..<n] ! j)" "k = [off..<n] ! j" "\<forall>m<j. \<not> P ([off..<n] ! m)"
      unfolding find_Some_iff by blast
    then have k: "k = off + j" "k < n" "P k" by auto
    have "\<not> P i" if "off \<le> i" "i < k" for i
    proof -
      have "i - off < j" using that k by simp
      then have "\<not> P ([off..<n] ! (i - off))" using j(4) by blast
      then show ?thesis using that k by simp
    qed
    then show ?thesis using Some k by (simp add: r_def)
  qed
  then show "off \<le> i \<Longrightarrow> i < r \<Longrightarrow> i < n \<Longrightarrow> \<not> P i" "r < n \<Longrightarrow> P r \<and> off \<le> r" "r \<le> n" "off \<le> n \<Longrightarrow> off \<le> r" by blast+
qed

lemmas next_bit = find_next_char [where P = "\<lambda>i. test_bit_le i bm" for bm, folded find_next_bit_le_def]
lemmas next_zero = find_next_char [where P = "\<lambda>i. \<not> test_bit_le i bm" for bm, folded find_next_zero_bit_le_def]

text \<open>
  The search returns the position of the entry and the length of the longest run of free slots it passed. \<open>mtch\<close> is the kernel's
  comparison of the wanted name with a name on disk (\<^verbatim>\<open>fscrypt_match_name\<close>).
\<close>

lemma slots_pos: "n \<noteq> 0 \<Longrightarrow> 0 < GET_DENTRY_SLOTS n"
  by (simp add: GET_DENTRY_SLOTS_def F2FS_SLOT_LEN_def F2FS_SLOT_LEN_BITS_def drop_bit_eq_div div_greater_zero_iff)

function find_target_loop :: "(u8 list \<Rightarrow> bool) \<Rightarrow> u32 \<Rightarrow> f2fs_dentry_ptr \<Rightarrow> nat \<Rightarrow> nat \<Rightarrow> nat \<Rightarrow> nat option \<times> nat" where
  "find_target_loop mtch namehash d bit_pos max_len max_slots =
     (if bit_pos < d_max d then
        if \<not> test_bit_le bit_pos (d_bitmap d) then find_target_loop mtch namehash d (bit_pos + 1) (max_len + 1) max_slots
        else
          let de = de_at d bit_pos
          in if name_len de = 0 then find_target_loop mtch namehash d (bit_pos + 1) max_len max_slots
             else if hash_code de = namehash \<and> mtch (de_name d bit_pos) then (Some bit_pos, max max_slots max_len)
             else find_target_loop mtch namehash d (bit_pos + GET_DENTRY_SLOTS (unat (name_len de))) 0 (max max_slots max_len)
      else (None, max max_slots max_len))"
  by auto
termination
proof (relation "measure (\<lambda>(mtch, namehash, d, bit_pos, max_len, max_slots). d_max d - bit_pos)")
  fix mtch :: "u8 list \<Rightarrow> bool" and namehash :: u32 and d and bit_pos max_len max_slots :: nat and x
  assume "bit_pos < d_max d" "x = de_at d bit_pos" "name_len x \<noteq> 0"
  then show "((mtch, namehash, d, bit_pos + GET_DENTRY_SLOTS (unat (name_len x)), 0, max max_slots max_len), mtch, namehash, d, bit_pos, max_len, max_slots)
      \<in> measure (\<lambda>(mtch, namehash, d, bit_pos, max_len, max_slots). d_max d - bit_pos)"
    using slots_pos [of "unat (name_len x)"] by (auto simp: unat_eq_zero)
qed auto

definition find_target_dentry :: "(u8 list \<Rightarrow> bool) \<Rightarrow> u32 \<Rightarrow> f2fs_dentry_ptr \<Rightarrow> nat option \<times> nat" where
  "find_target_dentry mtch namehash d = find_target_loop mtch namehash d 0 0 0"

function room_loop :: "u8 list \<Rightarrow> nat \<Rightarrow> nat \<Rightarrow> nat \<Rightarrow> nat" where
  "room_loop bitmap slots max_slots bit_start =
     (let zero_start = find_next_zero_bit_le bitmap max_slots bit_start
      in if zero_start \<ge> max_slots then max_slots
         else
           let zero_end = find_next_bit_le bitmap max_slots zero_start
           in if zero_end - zero_start \<ge> slots then zero_start
              else if zero_end + 1 \<ge> max_slots then max_slots
              else room_loop bitmap slots max_slots (zero_end + 1))"
  by auto
termination
proof (relation "measure (\<lambda>(bitmap, slots, max_slots, bit_start). max_slots - bit_start)")
  fix bitmap :: "u8 list" and slots max_slots bit_start zs ze :: nat
  assume zs: "zs = find_next_zero_bit_le bitmap max_slots bit_start" "\<not> max_slots \<le> zs" and ze: "ze = find_next_bit_le bitmap max_slots zs" "\<not> max_slots \<le> ze + 1"
  have "bit_start \<le> zs" using next_zero(2) [where n = max_slots and bm = bitmap and off = bit_start] zs by simp
  moreover have "zs \<le> ze" using next_bit(4) [where n = max_slots and bm = bitmap and off = zs] zs(2) ze(1) by simp
  ultimately show "((bitmap, slots, max_slots, ze + 1), bitmap, slots, max_slots, bit_start) \<in> measure (\<lambda>(bitmap, slots, max_slots, bit_start). max_slots - bit_start)"
    using ze(2) by auto
qed simp

definition room_for_filename :: "u8 list \<Rightarrow> nat \<Rightarrow> nat \<Rightarrow> nat" where
  "room_for_filename bitmap slots max_slots = room_loop bitmap slots max_slots 0"

definition f2fs_update_dentry :: "u32 \<Rightarrow> u16 \<Rightarrow> u8 list \<Rightarrow> u32 \<Rightarrow> nat \<Rightarrow> f2fs_dentry_ptr \<Rightarrow> f2fs_dentry_ptr" where
  "f2fs_update_dentry ino mode name name_hash bit_pos d =
     (let slots = GET_DENTRY_SLOTS (length name);
          de = set_de_type mode ((de_at d bit_pos)\<lparr>hash_code := name_hash, name_len := of_nat (length name), de_ino := ino\<rparr>);
          d = d\<lparr>d_dentry := (d_dentry d)[bit_pos := de],
                d_filename := take (bit_pos * F2FS_SLOT_LEN) (d_filename d) @ name @ drop (bit_pos * F2FS_SLOT_LEN + length name) (d_filename d)\<rparr>
      in fold (\<lambda>i d. d\<lparr>d_bitmap := set_bit_le (bit_pos + i) (d_bitmap d),
                       d_dentry := (if i \<noteq> 0 then (d_dentry d)[bit_pos + i := (de_at d (bit_pos + i))\<lparr>name_len := 0\<rparr>] else d_dentry d)\<rparr>)
           [0..<slots] d)"

text \<open>Clearing the slots of an entry, in \<^verbatim>\<open>f2fs_delete_entry\<close> and \<^verbatim>\<open>f2fs_delete_inline_entry\<close>.\<close>

definition clear_dentry :: "nat \<Rightarrow> f2fs_dentry_ptr \<Rightarrow> f2fs_dentry_ptr" where
  "clear_dentry bit_pos d =
     (let slots = GET_DENTRY_SLOTS (unat (name_len (de_at d bit_pos)))
      in d\<lparr>d_bitmap := fold (\<lambda>i bm. clear_bit_le (bit_pos + i) bm) [0..<slots] (d_bitmap d)\<rparr>)"

definition do_make_empty_dir :: "u32 \<Rightarrow> u16 \<Rightarrow> u32 \<Rightarrow> u16 \<Rightarrow> f2fs_dentry_ptr \<Rightarrow> f2fs_dentry_ptr" where
  "do_make_empty_dir ino mode pino pmode d =
     (let d = f2fs_update_dentry ino mode [46] 0 0 d in f2fs_update_dentry pino pmode [46, 46] 0 1 d)"

text \<open>
  Listing the entries from a position on. \<open>emit\<close> is \<^verbatim>\<open>dir_emit\<close>: it gets the name, the id and the type and says whether the reader
  has room. The name is decoded only in an encrypted directory; \<open>decode\<close> is \<open>None\<close> for a directory that is not.
  The result has the error or stop code, the state of the reader and its position.
\<close>

function fill_dentries_loop :: "(u32 \<Rightarrow> u8 list \<Rightarrow> errno + u8 list) option \<Rightarrow> (u8 list \<Rightarrow> u32 \<Rightarrow> u8 \<Rightarrow> 'c \<Rightarrow> bool \<times> 'c) \<Rightarrow> f2fs_dentry_ptr \<Rightarrow> nat \<Rightarrow> nat \<Rightarrow>
    'c \<times> nat \<Rightarrow> errno option \<times> bool \<times> 'c \<times> nat" where
  "fill_dentries_loop decode emit d start_pos bit_pos st =
     (case st of (c, pos) \<Rightarrow>
        let bit_pos = (if bit_pos < d_max d then find_next_bit_le (d_bitmap d) (d_max d) bit_pos else bit_pos)
        in if bit_pos \<ge> d_max d then (None, False, c, pos)
           else
             let de = de_at d bit_pos
             in if name_len de = 0 then fill_dentries_loop decode emit d start_pos (bit_pos + 1) (c, start_pos + (bit_pos + 1))
                else case (case decode of None \<Rightarrow> Inr (de_name d bit_pos) | Some f \<Rightarrow> f (hash_code de) (de_name d bit_pos)) of
                  Inl err \<Rightarrow> (Some err, False, c, pos)
                | Inr nm \<Rightarrow>
                    (case emit nm (de_ino de) (get_de_type de) c of (ok, c) \<Rightarrow>
                       if \<not> ok then (None, True, c, pos)
                       else let bit_pos = bit_pos + GET_DENTRY_SLOTS (unat (name_len de))
                            in fill_dentries_loop decode emit d start_pos bit_pos (c, start_pos + bit_pos)))"
  by auto
termination
proof (relation "measure (\<lambda>(decode, emit, d, start_pos, bit_pos, st). d_max d - bit_pos)", goal_cases)
  case 1
  then show ?case by simp
next
  case (2 decode emit d start_pos bit_pos st c pos x xa)
  then have "bit_pos \<le> x" using next_bit(4) [where n = "d_max d" and bm = "d_bitmap d" and off = bit_pos] by (auto split: if_splits)
  with 2 show ?case by auto
next
  case (3 decode emit d start_pos bit_pos st c pos x xa)
  then have "bit_pos \<le> x" using next_bit(4) [where n = "d_max d" and bm = "d_bitmap d" and off = bit_pos] by (auto split: if_splits)
  moreover have "0 < GET_DENTRY_SLOTS (unat (name_len xa))" using 3 by (intro slots_pos) (simp add: unat_eq_zero)
  moreover have "bit_pos < d_max d" using 3 by (auto split: if_splits)
  ultimately show ?case using 3 by auto
qed

definition f2fs_fill_dentries :: "(u32 \<Rightarrow> u8 list \<Rightarrow> errno + u8 list) option \<Rightarrow> (u8 list \<Rightarrow> u32 \<Rightarrow> u8 \<Rightarrow> 'c \<Rightarrow> bool \<times> 'c) \<Rightarrow> f2fs_dentry_ptr \<Rightarrow> nat \<Rightarrow>
    'c \<times> nat \<Rightarrow> errno option \<times> bool \<times> 'c \<times> nat" where
  "f2fs_fill_dentries decode emit d start_pos st = fill_dentries_loop decode emit d start_pos (snd st mod d_max d) st"

section \<open>Well-formed blocks\<close>

text \<open>
  The heads of a block are the marked slots with a name; in a well-formed block the marked slots are the disjoint spans of the heads.
\<close>

definition used :: "f2fs_dentry_ptr \<Rightarrow> nat \<Rightarrow> bool" where
  "used d i = test_bit_le i (d_bitmap d)"

definition heads :: "f2fs_dentry_ptr \<Rightarrow> nat set" where
  "heads d = {p. p < d_max d \<and> used d p \<and> name_len (de_at d p) \<noteq> 0}"

definition block_shape :: "f2fs_dentry_ptr \<Rightarrow> bool" where
  "block_shape d \<longleftrightarrow> d_max d \<le> 8 * length (d_bitmap d) \<and> length (d_dentry d) = d_max d \<and> length (d_filename d) = d_max d * F2FS_SLOT_LEN"

definition dent_ok :: "f2fs_dentry_ptr \<Rightarrow> bool" where
  "dent_ok d \<longleftrightarrow> block_shape d \<and>
     (\<forall>p \<in> heads d. p + de_slots d p \<le> d_max d \<and> (\<forall>i. p \<le> i \<and> i < p + de_slots d p \<longrightarrow> used d i)) \<and>
     (\<forall>p \<in> heads d. \<forall>q \<in> heads d. p < q \<longrightarrow> p + de_slots d p \<le> q) \<and>
     (\<forall>i < d_max d. used d i \<longrightarrow> (\<exists>p \<in> heads d. p \<le> i \<and> i < p + de_slots d p))"

lemma dent_okD:
  assumes "dent_ok d"
  shows "block_shape d" "p \<in> heads d \<Longrightarrow> p + de_slots d p \<le> d_max d" "p \<in> heads d \<Longrightarrow> p \<le> i \<Longrightarrow> i < p + de_slots d p \<Longrightarrow> used d i"
    "p \<in> heads d \<Longrightarrow> q \<in> heads d \<Longrightarrow> p < q \<Longrightarrow> p + de_slots d p \<le> q"
    "i < d_max d \<Longrightarrow> used d i \<Longrightarrow> \<exists>p \<in> heads d. p \<le> i \<and> i < p + de_slots d p"
  using assms unfolding dent_ok_def by blast+

lemma heads_slots: "p \<in> heads d \<Longrightarrow> 0 < de_slots d p"
  unfolding heads_def de_slots_def by (intro slots_pos) (simp add: unat_eq_zero)

text \<open>A position between spans.\<close>

definition at_edge :: "f2fs_dentry_ptr \<Rightarrow> nat \<Rightarrow> bool" where
  "at_edge d pos \<longleftrightarrow> pos \<le> d_max d \<and> (\<forall>p \<in> heads d. p < pos \<longrightarrow> p + de_slots d p \<le> pos)"

definition free_run :: "f2fs_dentry_ptr \<Rightarrow> nat \<Rightarrow> nat \<Rightarrow> bool" where
  "free_run d q s \<longleftrightarrow> q + s \<le> d_max d \<and> (\<forall>i. q \<le> i \<and> i < q + s \<longrightarrow> \<not> used d i)"

lemma edge_step:
  assumes ok: "dent_ok d" and e: "at_edge d pos" "pos < d_max d"
  shows "\<not> used d pos \<Longrightarrow> at_edge d (pos + 1)" "used d pos \<Longrightarrow> pos \<in> heads d \<and> at_edge d (pos + de_slots d pos)"
proof -
  show "at_edge d (pos + 1)" if n: "\<not> used d pos"
  proof -
    have "p \<noteq> pos" if "p \<in> heads d" for p using that n by (auto simp: heads_def)
    then show ?thesis using e unfolding at_edge_def by (metis Suc_eq_plus1 le_Suc_eq less_Suc_eq less_eq_Suc_le)
  qed
  assume u: "used d pos"
  obtain p where p: "p \<in> heads d" "p \<le> pos" "pos < p + de_slots d p" using dent_okD(5) [OF ok e(2) u] by blast
  then have "p = pos" using e(1) unfolding at_edge_def by (metis le_neq_implies_less not_less)
  then have h: "pos \<in> heads d" using p(1) by simp
  moreover have "q + de_slots d q \<le> pos + de_slots d pos" if "q \<in> heads d" "q < pos + de_slots d pos" for q
  proof (cases q pos rule: linorder_cases)
    case less
    then show ?thesis using e(1) that(1) unfolding at_edge_def by (metis trans_le_add1)
  next
    case greater
    then show ?thesis using dent_okD(4) [OF ok h that(1)] that(2) by simp
  qed simp
  ultimately show "pos \<in> heads d \<and> at_edge d (pos + de_slots d pos)" using dent_okD(2) [OF ok h] unfolding at_edge_def by blast
qed

section \<open>Searching\<close>

lemma head_len: "p \<in> heads d \<Longrightarrow> name_len (de_at d p) \<noteq> 0"
  by (simp add: heads_def)

lemma find_loop_cases:
  assumes ok: "dent_ok d" and e: "at_edge d pos"
  shows "pos \<ge> d_max d \<Longrightarrow> find_target_loop m h d pos ml mx = (None, max mx ml)"
    "pos < d_max d \<Longrightarrow> \<not> used d pos \<Longrightarrow> find_target_loop m h d pos ml mx = find_target_loop m h d (pos + 1) (ml + 1) mx"
    "pos < d_max d \<Longrightarrow> used d pos \<Longrightarrow> find_target_loop m h d pos ml mx =
       (if hash_code (de_at d pos) = h \<and> m (de_name d pos) then (Some pos, max mx ml) else find_target_loop m h d (pos + de_slots d pos) 0 (max mx ml))"
  using edge_step(2) [OF ok e] head_len [of pos d] unfolding find_target_loop.simps [of m h d pos ml mx]
  by (simp_all add: used_def de_slots_def Let_def)

lemma find_loop_ok:
  assumes ok: "dent_ok d" and e: "at_edge d pos" and f: "find_target_loop m h d pos ml mx = (r, k)"
  shows "(\<forall>p. r = Some p \<longrightarrow> p \<in> heads d \<and> pos \<le> p \<and> hash_code (de_at d p) = h \<and> m (de_name d p)) \<and>
     (r = None \<longrightarrow> (\<forall>p \<in> heads d. pos \<le> p \<longrightarrow> \<not> (hash_code (de_at d p) = h \<and> m (de_name d p))))"
  using e f
proof (induction "d_max d - pos" arbitrary: pos ml mx rule: less_induct)
  case less
  note C = find_loop_cases [OF ok less.prems(1), of m h ml mx] and E = edge_step [OF ok less.prems(1)]
  consider "pos \<ge> d_max d" | "pos < d_max d" "\<not> used d pos" | "pos < d_max d" "used d pos" by fastforce
  then show ?case
  proof cases
    case 1
    then show ?thesis using C(1) less.prems(2) by (auto simp: heads_def)
  next
    case 2
    have n: "pos + 1 \<le> p" if "p \<in> heads d" "pos \<le> p" for p using that 2 by (cases "p = pos") (auto simp: heads_def)
    have "find_target_loop m h d (pos + 1) (ml + 1) mx = (r, k)" using C(2) [OF 2] less.prems(2) by simp
    from less.hyps [OF _ E(1) [OF 2(1,2)] this] 2(1) have ih: "(\<forall>p. r = Some p \<longrightarrow> p \<in> heads d \<and> pos + 1 \<le> p \<and> hash_code (de_at d p) = h \<and> m (de_name d p)) \<and>
        (r = None \<longrightarrow> (\<forall>p \<in> heads d. pos + 1 \<le> p \<longrightarrow> \<not> (hash_code (de_at d p) = h \<and> m (de_name d p))))" by simp
    show ?thesis using ih n by (metis add_leE)
  next
    case 3
    have h: "pos \<in> heads d" "at_edge d (pos + de_slots d pos)" using E(2) [OF 3] by blast+
    have s: "0 < de_slots d pos" by (rule heads_slots [OF h(1)])
    show ?thesis
    proof (cases "hash_code (de_at d pos) = h \<and> m (de_name d pos)")
      case True
      then show ?thesis using C(3) [OF 3] less.prems(2) h(1) by auto
    next
      case False
      have n: "pos + de_slots d pos \<le> p" if "p \<in> heads d" "pos \<le> p" "p \<noteq> pos" for p
        using dent_okD(4) [OF ok h(1) that(1)] that by simp
      have "find_target_loop m h d (pos + de_slots d pos) 0 (max mx ml) = (r, k)" using C(3) [OF 3] False less.prems(2) by metis
      from less.hyps [OF _ h(2) this] s 3(1) have ih: "(\<forall>p. r = Some p \<longrightarrow> p \<in> heads d \<and> pos + de_slots d pos \<le> p \<and> hash_code (de_at d p) = h \<and> m (de_name d p)) \<and>
          (r = None \<longrightarrow> (\<forall>p \<in> heads d. pos + de_slots d pos \<le> p \<longrightarrow> \<not> (hash_code (de_at d p) = h \<and> m (de_name d p))))" by simp
      show ?thesis using ih n False by (metis add_leE)
    qed
  qed
qed

lemma at_edge_0: "at_edge d 0"
  by (simp add: at_edge_def)

lemma find_target_ok:
  assumes ok: "dent_ok d"
  shows "fst (find_target_dentry m h d) = Some p \<Longrightarrow> p \<in> heads d \<and> hash_code (de_at d p) = h \<and> m (de_name d p)"
    "fst (find_target_dentry m h d) = None \<Longrightarrow> p \<in> heads d \<Longrightarrow> \<not> (hash_code (de_at d p) = h \<and> m (de_name d p))"
  using find_loop_ok [OF ok at_edge_0, of m h 0 0] unfolding find_target_dentry_def by (metis prod.collapse zero_le)+

text \<open>When nothing is found, the second result is the length of the longest free run.\<close>

lemma find_loop_run:
  assumes ok: "dent_ok d" and e: "at_edge d pos" and f: "find_target_loop m h d pos ml mx = (None, k)"
    and ml: "ml \<le> pos" "\<forall>i. pos - ml \<le> i \<and> i < pos \<longrightarrow> \<not> used d i" and s: "0 < s"
  shows "s \<le> k \<longleftrightarrow> s \<le> mx \<or> (\<exists>q \<ge> pos - ml. free_run d q s)"
  using e f ml
proof (induction "d_max d - pos" arbitrary: pos ml mx rule: less_induct)
  case less
  note C = find_loop_cases [OF ok less.prems(1), of m h ml mx] and E = edge_step [OF ok less.prems(1)]
  have pm: "pos \<le> d_max d" using less.prems(1) by (simp add: at_edge_def)
  have here: "\<exists>q \<ge> pos - ml. free_run d q s" if "s \<le> ml"
    using that less.prems(3,4) pm by (intro exI [of _ "pos - ml"]) (auto simp: free_run_def)
  consider "pos \<ge> d_max d" | "pos < d_max d" "\<not> used d pos" | "pos < d_max d" "used d pos" by fastforce
  then show ?case
  proof cases
    case 1
    then have "k = max mx ml" using C(1) less.prems(2) by simp
    moreover have "s \<le> ml" if "q \<ge> pos - ml" "free_run d q s" for q using that 1 less.prems(3) unfolding free_run_def by linarith
    ultimately show ?thesis using here by (auto simp: le_max_iff_disj)
  next
    case 2
    have r: "find_target_loop m h d (pos + 1) (ml + 1) mx = (None, k)" using C(2) [OF 2] less.prems(2) by simp
    have "\<forall>i. pos + 1 - (ml + 1) \<le> i \<and> i < pos + 1 \<longrightarrow> \<not> used d i" using less.prems(4) 2(2) by (auto simp: less_Suc_eq)
    from less.hyps [OF _ E(1) [OF 2(1,2)] r _ this] show ?thesis using 2(1) less.prems(3) by simp
  next
    case 3
    have h: "pos \<in> heads d" "at_edge d (pos + de_slots d pos)" using E(2) [OF 3] by blast+
    have sl: "0 < de_slots d pos" by (rule heads_slots [OF h(1)])
    have r: "find_target_loop m h d (pos + de_slots d pos) 0 (max mx ml) = (None, k)" using C(3) [OF 3] less.prems(2) by (metis option.distinct(1) prod.inject)
    have "\<forall>i. pos + de_slots d pos - 0 \<le> i \<and> i < pos + de_slots d pos \<longrightarrow> \<not> used d i" by auto
    from less.hyps [OF _ h(2) r _ this] have ih: "s \<le> k \<longleftrightarrow> s \<le> max mx ml \<or> (\<exists>q \<ge> pos + de_slots d pos. free_run d q s)" using 3(1) sl by simp
    have "s \<le> ml \<or> pos + de_slots d pos \<le> q" if q: "q \<ge> pos - ml" "free_run d q s" for q
    proof (rule ccontr)
      assume a: "\<not> (s \<le> ml \<or> pos + de_slots d pos \<le> q)"
      define i where "i = max q pos"
      have "pos \<le> i" "i < pos + de_slots d pos" "q \<le> i" "i < q + s" using a q(1) s sl by (auto simp: i_def)
      then show False using dent_okD(3) [OF ok h(1), of i] q(2) unfolding free_run_def by blast
    qed
    then show ?thesis using ih here by (auto simp: le_max_iff_disj)
  qed
qed

lemma find_target_run:
  assumes "dent_ok d" "fst (find_target_dentry m h d) = None" "0 < s"
  shows "s \<le> snd (find_target_dentry m h d) \<longleftrightarrow> (\<exists>q. free_run d q s)"
proof -
  obtain k where k: "find_target_dentry m h d = (None, k)" using assms(2) by (cases "find_target_dentry m h d") auto
  then have "find_target_loop m h d 0 0 0 = (None, k)" by (simp add: find_target_dentry_def)
  from find_loop_run [OF assms(1) at_edge_0 this _ _ assms(3)] k assms(3) show ?thesis by simp
qed

section \<open>Room\<close>

lemma room_loop_ok:
  assumes s: "0 < slots" and b: "\<And>i. i < mx \<Longrightarrow> test_bit_le i bm = used d i" "mx = d_max d"
  shows "(room_loop bm slots mx start < mx \<longrightarrow> start \<le> room_loop bm slots mx start \<and> free_run d (room_loop bm slots mx start) slots) \<and>
    (mx \<le> room_loop bm slots mx start \<longrightarrow> room_loop bm slots mx start = mx \<and> (\<forall>q \<ge> start. \<not> free_run d q slots))"
proof (induction "mx - start" arbitrary: start rule: less_induct)
  case less
  define zs where "zs = find_next_zero_bit_le bm mx start"
  define ze where "ze = find_next_bit_le bm mx zs"
  note Z = next_zero [where bm = bm and n = mx and off = start, folded zs_def] and N = next_bit [where bm = bm and n = mx and off = zs, folded ze_def]
  have eq: "room_loop bm slots mx start = (if zs \<ge> mx then mx else if ze - zs \<ge> slots then zs else if ze + 1 \<ge> mx then mx else room_loop bm slots mx (ze + 1))"
    unfolding room_loop.simps [of bm slots mx start] Let_def zs_def [symmetric] ze_def [symmetric] ..
  have before: "zs \<le> q" if "start \<le> q" "free_run d q slots" for q
  proof (rule ccontr)
    assume "\<not> zs \<le> q"
    moreover have "q < mx" "\<not> used d q" using that(2) s b(2) unfolding free_run_def by auto
    ultimately show False using Z(1) [OF that(1)] b(1) by auto
  qed
  show ?case
  proof (cases "zs \<ge> mx")
    case True
    then show ?thesis using eq before s b(2) by (fastforce simp: free_run_def)
  next
    case zs: False
    then have zz: "start \<le> zs" "zs < mx" using Z(2) by auto
    have zn: "\<not> used d i" if "zs \<le> i" "i < ze" for i using N(1) [OF that] that N(3) b(1) by (metis less_le_trans)
    show ?thesis
    proof (cases "ze - zs \<ge> slots")
      case True
      then have "free_run d zs slots" using N(3) b(2) zn s unfolding free_run_def by auto
      then show ?thesis using eq zs True zz by simp
    next
      case False
      have after: "ze < q" if "start \<le> q" "free_run d q slots" for q
      proof (rule ccontr)
        assume "\<not> ze < q"
        then have q: "zs \<le> q" "q \<le> ze" using before [OF that] by simp_all
        then have r: "ze < q + slots" "q + slots \<le> mx" using False that(2) b(2) unfolding free_run_def by simp_all
        then have "ze < mx" by simp
        then have "used d ze" using N(2) b(1) by blast
        then show False using that(2) q(2) r(1) unfolding free_run_def by blast
      qed
      show ?thesis
      proof (cases "ze + 1 \<ge> mx")
        case True
        have "\<not> free_run d q slots" if "start \<le> q" for q
        proof
          assume "free_run d q slots"
          then show False using after [OF that] True s b(2) unfolding free_run_def by fastforce
        qed
        then show ?thesis using eq zs False True by simp
      next
        case False2: False
        have "zs \<le> ze" using N(4) zz by simp
        then have "mx - (ze + 1) < mx - start" using zz False2 by simp
        note ih = less [OF this]
        have e: "room_loop bm slots mx start = room_loop bm slots mx (ze + 1)" using eq zs False False2 by simp
        have aft: "ze + 1 \<le> q" if "start \<le> q" "free_run d q slots" for q using after [OF that] by simp
        have st: "start \<le> ze + 1" using zz \<open>zs \<le> ze\<close> by simp
        show ?thesis unfolding e using ih aft st by (meson le_trans)
      qed
    qed
  qed
qed

lemma room_ok:
  assumes "0 < slots"
  shows "room_for_filename (d_bitmap d) slots (d_max d) < d_max d \<Longrightarrow> free_run d (room_for_filename (d_bitmap d) slots (d_max d)) slots"
    "d_max d \<le> room_for_filename (d_bitmap d) slots (d_max d) \<Longrightarrow> \<not> free_run d q slots"
  using room_loop_ok [OF assms, of "d_max d" "d_bitmap d" d 0] unfolding room_for_filename_def by (simp_all add: used_def)

section \<open>Adding an entry\<close>

text \<open>Marking one slot; the slots after the first get no name.\<close>

definition mark_slot :: "nat \<Rightarrow> nat \<Rightarrow> f2fs_dentry_ptr \<Rightarrow> f2fs_dentry_ptr" where
  "mark_slot pos i d = d\<lparr>d_bitmap := set_bit_le (pos + i) (d_bitmap d),
     d_dentry := (if i \<noteq> 0 then (d_dentry d)[pos + i := (de_at d (pos + i))\<lparr>name_len := 0\<rparr>] else d_dentry d)\<rparr>"

lemma mark_slot_ok:
  assumes sh: "block_shape d" and r: "pos + i < d_max d"
  shows "block_shape (mark_slot pos i d)" "d_max (mark_slot pos i d) = d_max d" "d_filename (mark_slot pos i d) = d_filename d"
    "d_nr_bitmap (mark_slot pos i d) = d_nr_bitmap d" "used (mark_slot pos i d) j \<longleftrightarrow> j = pos + i \<or> used d j"
    "de_at (mark_slot pos i d) j = (if j = pos + i \<and> i \<noteq> 0 then (de_at d j)\<lparr>name_len := 0\<rparr> else de_at d j)"
proof -
  have l: "pos + i < 8 * length (d_bitmap d)" "pos + i < length (d_dentry d)" using sh r by (simp_all add: block_shape_def)
  have bl: "length (set_bit_le (pos + i) (d_bitmap d)) = length (d_bitmap d)" by (simp add: set_bit_le_def)
  show "block_shape (mark_slot pos i d)" using sh bl by (simp add: mark_slot_def block_shape_def)
  show "d_max (mark_slot pos i d) = d_max d" "d_filename (mark_slot pos i d) = d_filename d" "d_nr_bitmap (mark_slot pos i d) = d_nr_bitmap d"
    by (simp_all add: mark_slot_def)
  show "used (mark_slot pos i d) j \<longleftrightarrow> j = pos + i \<or> used d j" using lsb.tst_put [OF l(1), of j] by (simp add: mark_slot_def used_def)
  show "de_at (mark_slot pos i d) j = (if j = pos + i \<and> i \<noteq> 0 then (de_at d j)\<lparr>name_len := 0\<rparr> else de_at d j)"
    using l(2) by (auto simp: mark_slot_def de_at_def arr_get_update)
qed

lemma fold_slots:
  fixes d :: f2fs_dentry_ptr and n pos :: nat
  assumes sh: "block_shape d" and r: "pos + n \<le> d_max d"
  defines "d' \<equiv> fold (mark_slot pos) [0..<n] d"
  shows "block_shape d' \<and> d_max d' = d_max d \<and> d_filename d' = d_filename d \<and> d_nr_bitmap d' = d_nr_bitmap d \<and>
    (\<forall>j. used d' j \<longleftrightarrow> pos \<le> j \<and> j < pos + n \<or> used d j) \<and>
    (\<forall>j. de_at d' j = (if pos < j \<and> j < pos + n then (de_at d j)\<lparr>name_len := 0\<rparr> else de_at d j))"
  unfolding d'_def using r
proof (induction n)
  case 0
  then show ?case using sh by auto
next
  case (Suc n)
  define r where "r = fold (mark_slot pos) [0..<n] d"
  have ih: "block_shape r" "d_max r = d_max d" "d_filename r = d_filename d" "d_nr_bitmap r = d_nr_bitmap d"
    "\<And>j. used r j \<longleftrightarrow> pos \<le> j \<and> j < pos + n \<or> used d j"
    "\<And>j. de_at r j = (if pos < j \<and> j < pos + n then (de_at d j)\<lparr>name_len := 0\<rparr> else de_at d j)" using Suc unfolding r_def by simp_all
  have l: "pos + n < d_max r" using ih(2) Suc.prems by simp
  note M = mark_slot_ok [OF ih(1) l]
  have e: "de_at (mark_slot pos n r) j = (if pos < j \<and> j < pos + Suc n then (de_at d j)\<lparr>name_len := 0\<rparr> else de_at d j)" for j
    using M(6) [of j] ih(6) [of j] by (cases "j = pos + n") auto
  have u: "used (mark_slot pos n r) j \<longleftrightarrow> pos \<le> j \<and> j < pos + Suc n \<or> used d j" for j using M(5) [of j] ih(5) [of j] by auto
  have "fold (mark_slot pos) [0..<Suc n] d = mark_slot pos n r" by (simp add: r_def)
  then show ?case using M(1-4) ih(2-4) u e by simp
qed

lemma fold_slots_len: "length (d_bitmap (fold (mark_slot pos) xs d)) = length (d_bitmap d)"
  by (induction xs arbitrary: d) (simp_all add: mark_slot_def set_bit_le_def)

lemma slots_bytes: "n \<le> GET_DENTRY_SLOTS n * F2FS_SLOT_LEN"
  by (simp add: GET_DENTRY_SLOTS_def F2FS_SLOT_LEN_def F2FS_SLOT_LEN_BITS_def drop_bit_eq_div)

lemma overwrite:
  assumes "b + length nm \<le> length F"
  defines "G \<equiv> take b F @ nm @ drop (b + length nm) F"
  shows "a + k \<le> b \<Longrightarrow> take k (drop a G) = take k (drop a F)" "b + length nm \<le> a \<Longrightarrow> drop a G = drop a F" "take (length nm) (drop b G) = nm" "length G = length F"
proof -
  show "length G = length F" using assms(1) by (simp add: G_def)
  show "take k (drop a G) = take k (drop a F)" if "a + k \<le> b"
  proof -
    have l: "k \<le> length (drop a (take b F))" "a \<le> b" using that assms(1) by simp_all
    have "drop a G = drop a (take b F) @ nm @ drop (b + length nm) F" using l(2) assms(1) by (simp add: G_def)
    then have "take k (drop a G) = take k (drop a (take b F))" using l(1) by simp
    then show ?thesis using that by (simp add: drop_take min_def)
  qed
  show "b + length nm \<le> a \<Longrightarrow> drop a G = drop a F" using assms(1) by (simp add: G_def)
  show "take (length nm) (drop b G) = nm" using assms(1) by (simp add: G_def)
qed

lemma update_dentry_ok:
  fixes ino h :: u32 and mode :: u16
  assumes ok: "dent_ok d" and n: "name \<noteq> []" "length name < 2 ^ 16" and fr: "free_run d pos (GET_DENTRY_SLOTS (length name))"
  defines "d' \<equiv> f2fs_update_dentry ino mode name h pos d"
  shows "dent_ok d'" "heads d' = insert pos (heads d)" "d_max d' = d_max d" "de_name d' pos = name"
    "de_at d' pos = set_de_type mode \<lparr>hash_code = h, de_ino = ino, name_len = of_nat (length name), file_type = 0\<rparr>"
    "\<And>p. p \<in> heads d \<Longrightarrow> de_at d' p = de_at d p \<and> de_name d' p = de_name d p"
    "d_nr_bitmap d' = d_nr_bitmap d" "length (d_bitmap d') = length (d_bitmap d)" "\<And>j. d_max d \<le> j \<Longrightarrow> used d' j = used d j"
proof -
  let ?s = "GET_DENTRY_SLOTS (length name)" and ?len = "of_nat (length name) :: u16"
  define de where "de = set_de_type mode ((de_at d pos)\<lparr>hash_code := h, name_len := ?len, de_ino := ino\<rparr>)"
  define d1 where "d1 = d\<lparr>d_dentry := (d_dentry d)[pos := de],
                d_filename := take (pos * F2FS_SLOT_LEN) (d_filename d) @ name @ drop (pos * F2FS_SLOT_LEN + length name) (d_filename d)\<rparr>"
  have sh: "block_shape d" by (rule dent_okD(1) [OF ok])
  have s: "0 < ?s" using n(1) by (intro slots_pos) simp
  have ps: "pos + ?s \<le> d_max d" and un: "\<And>i. pos \<le> i \<Longrightarrow> i < pos + ?s \<Longrightarrow> \<not> used d i" using fr by (simp_all add: free_run_def)
  have fit: "pos * F2FS_SLOT_LEN + length name \<le> length (d_filename d)"
  proof -
    have "pos * F2FS_SLOT_LEN + length name \<le> (pos + ?s) * F2FS_SLOT_LEN" using slots_bytes [of "length name"] by (simp add: add_mult_distrib)
    also have "\<dots> \<le> d_max d * F2FS_SLOT_LEN" using ps by (rule mult_le_mono1)
    finally show ?thesis using sh by (simp add: block_shape_def)
  qed
  note W = overwrite [OF fit]
  have sh1: "block_shape d1" using sh W(4) by (simp add: block_shape_def d1_def)
  have mx1: "d_max d1 = d_max d" by (simp add: d1_def)
  have ul: "unat ?len = length name" using n(2) by (simp add: unat_of_nat take_bit_nat_eq_self)
  have dl: "name_len de = ?len" by (simp add: de_def set_de_type_def)
  have f: "d' = fold (mark_slot pos) [0..<?s] d1"
    unfolding d'_def f2fs_update_dentry_def Let_def de_def [symmetric] d1_def [symmetric] mark_slot_def [abs_def] ..
  note S = fold_slots [OF sh1, of pos ?s, folded f, unfolded mx1, OF ps]
  have e1: "de_at d1 j = (if j = pos then de else de_at d j)" for j
    using ps s sh by (auto simp: de_at_def d1_def arr_get_update block_shape_def)
  have u1: "used d1 j = used d j" for j by (simp add: used_def d1_def)
  have u: "used d' j \<longleftrightarrow> pos \<le> j \<and> j < pos + ?s \<or> used d j" for j using S u1 by simp
  have e: "de_at d' j = (if j = pos then de else if pos < j \<and> j < pos + ?s then (de_at d j)\<lparr>name_len := 0\<rparr> else de_at d j)" for j
    using S e1 [of j] by auto
  show mx: "d_max d' = d_max d" "d_nr_bitmap d' = d_nr_bitmap d" using S by (simp_all add: d1_def)
  show "length (d_bitmap d') = length (d_bitmap d)" unfolding f fold_slots_len by (simp add: d1_def)
  show "used d' j = used d j" if "d_max d \<le> j" for j using u [of j] that ps by auto
  have fn: "d_filename d' = take (pos * F2FS_SLOT_LEN) (d_filename d) @ name @ drop (pos * F2FS_SLOT_LEN + length name) (d_filename d)"
    using S by (simp add: d1_def)
  have nz: "?len \<noteq> 0" using ul n(1) by (metis length_0_conv unat_0)
  have hp: "pos \<notin> heads d" using un [of pos] s by (simp add: heads_def)
  show hd: "heads d' = insert pos (heads d)"
  proof (intro set_eqI)
    fix j show "j \<in> heads d' \<longleftrightarrow> j \<in> insert pos (heads d)"
      using u [of j] e [of j] un [of j] dl nz mx ps s by (auto simp: heads_def)
  qed
  have sep: "p + de_slots d p \<le> pos \<or> pos + ?s \<le> p" if p: "p \<in> heads d" for p
  proof (rule ccontr)
    assume a: "\<not> (p + de_slots d p \<le> pos \<or> pos + ?s \<le> p)"
    then have "used d (max p pos)" using dent_okD(3) [OF ok p] heads_slots [OF p] s by simp
    then show False using un [of "max p pos"] a s heads_slots [OF p] by simp
  qed
  have same: "de_at d' p = de_at d p" if "p \<in> heads d" for p using e [of p] sep [OF that] hp that heads_slots [OF that] by (auto split: if_splits)
  have sl: "de_slots d' p = de_slots d p" if "p \<in> heads d" for p using same [OF that] by (simp add: de_slots_def)
  have slp: "de_slots d' pos = ?s" using e [of pos] dl ul by (simp add: de_slots_def)
  show "de_name d' pos = name" using e [of pos] dl ul W(3) by (simp add: de_name_def fn)
  show "de_at d' pos = set_de_type mode \<lparr>hash_code = h, de_ino = ino, name_len = of_nat (length name), file_type = 0\<rparr>"
    using e [of pos] by (simp add: de_def set_de_type_def)
  show "de_at d' p = de_at d p \<and> de_name d' p = de_name d p" if p: "p \<in> heads d" for p
  proof
    show "de_at d' p = de_at d p" by (rule same [OF p])
    let ?k = "unat (name_len (de_at d p))"
    have k: "?k \<le> de_slots d p * F2FS_SLOT_LEN" unfolding de_slots_def by (rule slots_bytes)
    show "de_name d' p = de_name d p"
    proof (cases "p + de_slots d p \<le> pos")
      case True
      have "p * F2FS_SLOT_LEN + ?k \<le> (p + de_slots d p) * F2FS_SLOT_LEN" using k by (simp add: add_mult_distrib)
      also have "\<dots> \<le> pos * F2FS_SLOT_LEN" using True by (rule mult_le_mono1)
      finally show ?thesis using W(1) same [OF p] by (simp add: de_name_def fn)
    next
      case False
      then have "pos + ?s \<le> p" using sep [OF p] by blast
      then have "(pos + ?s) * F2FS_SLOT_LEN \<le> p * F2FS_SLOT_LEN" by (rule mult_le_mono1)
      then have "pos * F2FS_SLOT_LEN + length name \<le> p * F2FS_SLOT_LEN" using slots_bytes [of "length name"] by (simp add: add_mult_distrib)
      then show ?thesis using W(2) same [OF p] by (simp add: de_name_def fn)
    qed
  qed
  show "dent_ok d'" unfolding dent_ok_def hd mx
  proof (intro conjI ballI allI impI)
    show "block_shape d'" using S by blast
    fix p assume p: "p \<in> insert pos (heads d)"
    show "p + de_slots d' p \<le> d_max d" using p ps slp sl dent_okD(2) [OF ok] by auto
    show "used d' i" if "p \<le> i \<and> i < p + de_slots d' p" for i using that p u [of i] slp sl dent_okD(3) [OF ok] by auto
    show "p + de_slots d' p \<le> q" if q: "q \<in> insert pos (heads d)" "p < q" for q
    proof -
      consider "p \<in> heads d" "q \<in> heads d" | "p = pos" "q \<in> heads d" | "p \<in> heads d" "q = pos" using p q by auto
      then show ?thesis
      proof cases
        case 1
        then show ?thesis using sl dent_okD(4) [OF ok _ _ q(2)] by simp
      next
        case 2
        then show ?thesis using slp sep [of q] heads_slots [of q d] q(2) by auto
      next
        case 3
        then show ?thesis using sl sep [of p] q(2) s by auto
      qed
    qed
  next
    fix i assume i: "i < d_max d" "used d' i"
    show "\<exists>p \<in> insert pos (heads d). p \<le> i \<and> i < p + de_slots d' p"
    proof (cases "used d i")
      case True
      then obtain p where "p \<in> heads d" "p \<le> i" "i < p + de_slots d p" using dent_okD(5) [OF ok i(1)] by blast
      then show ?thesis using sl by auto
    next
      case False
      then show ?thesis using u [of i] i(2) slp by auto
    qed
  qed
qed

section \<open>Deleting an entry\<close>

lemma fold_clear:
  assumes "pos + n \<le> 8 * length bm"
  shows "length (fold (\<lambda>i bm. clear_bit_le (pos + i) bm) [0..<n] bm) = length bm \<and>
    (\<forall>j. test_bit_le j (fold (\<lambda>i bm. clear_bit_le (pos + i) bm) [0..<n] bm) \<longleftrightarrow> \<not> (pos \<le> j \<and> j < pos + n) \<and> test_bit_le j bm)"
  using assms
proof (induction n)
  case (Suc n)
  define r where "r = fold (\<lambda>i bm. clear_bit_le (pos + i) bm) [0..<n] bm"
  have ih: "length r = length bm" "\<And>j. test_bit_le j r \<longleftrightarrow> \<not> (pos \<le> j \<and> j < pos + n) \<and> test_bit_le j bm" using Suc unfolding r_def by simp_all
  have "pos + n < 8 * length r" using ih(1) Suc.prems by simp
  then have "test_bit_le j (clear_bit_le (pos + n) r) \<longleftrightarrow> \<not> (pos \<le> j \<and> j < pos + Suc n) \<and> test_bit_le j bm" for j
    using lsb.tst_clr [of "pos + n" r j] ih(2) [of j] by auto
  moreover have "fold (\<lambda>i bm. clear_bit_le (pos + i) bm) [0..<Suc n] bm = clear_bit_le (pos + n) r" by (simp add: r_def)
  moreover have "length (clear_bit_le (pos + n) r) = length bm" using ih(1) by (simp add: clear_bit_le_def)
  ultimately show ?case by simp
qed simp

lemma clear_dentry_ok:
  assumes ok: "dent_ok d" and p: "pos \<in> heads d"
  defines "d' \<equiv> clear_dentry pos d"
  shows "dent_ok d'" "heads d' = heads d - {pos}" "d_max d' = d_max d" "de_at d' = de_at d" "de_name d' = de_name d"
    "d_nr_bitmap d' = d_nr_bitmap d" "length (d_bitmap d') = length (d_bitmap d)" "\<And>j. used d' j \<Longrightarrow> used d j"
proof -
  have sh: "block_shape d" by (rule dent_okD(1) [OF ok])
  have ps: "pos + de_slots d pos \<le> 8 * length (d_bitmap d)" using dent_okD(2) [OF ok p] sh by (simp add: block_shape_def)
  note C = fold_clear [OF ps]
  have f: "d' = d\<lparr>d_bitmap := fold (\<lambda>i bm. clear_bit_le (pos + i) bm) [0..<de_slots d pos] (d_bitmap d)\<rparr>"
    by (simp add: d'_def clear_dentry_def de_slots_def)
  show mx: "d_max d' = d_max d" and de: "de_at d' = de_at d" and nm: "de_name d' = de_name d"
    by (simp_all add: f de_at_def de_name_def fun_eq_iff)
  show "d_nr_bitmap d' = d_nr_bitmap d" "length (d_bitmap d') = length (d_bitmap d)" using C by (simp_all add: f)
  have sl: "de_slots d' = de_slots d" using de by (simp add: de_slots_def fun_eq_iff)
  have u: "used d' j \<longleftrightarrow> \<not> (pos \<le> j \<and> j < pos + de_slots d pos) \<and> used d j" for j using C by (simp add: used_def f)
  then show "\<And>j. used d' j \<Longrightarrow> used d j" by blast
  have sep: "q + de_slots d q \<le> pos \<or> pos + de_slots d pos \<le> q" if "q \<in> heads d" "q \<noteq> pos" for q
    using dent_okD(4) [OF ok that(1) p] dent_okD(4) [OF ok p that(1)] that(2) by (cases q pos rule: linorder_cases) auto
  show hd: "heads d' = heads d - {pos}"
  proof (intro set_eqI)
    fix j
    have "used d' j = used d j" if "j \<in> heads d" "j \<noteq> pos" using u [of j] sep [OF that] heads_slots [OF that(1)] by auto
    moreover have "\<not> used d' pos" using u [of pos] heads_slots [OF p] by simp
    moreover have "j \<in> heads d' \<longleftrightarrow> j < d_max d \<and> used d' j \<and> name_len (de_at d j) \<noteq> 0" by (simp add: heads_def mx de)
    moreover have "used d' j \<Longrightarrow> used d j" using u [of j] by simp
    moreover have "j \<in> heads d \<longleftrightarrow> j < d_max d \<and> used d j \<and> name_len (de_at d j) \<noteq> 0" by (simp add: heads_def)
    ultimately show "j \<in> heads d' \<longleftrightarrow> j \<in> heads d - {pos}" by (cases "j = pos") auto
  qed
  show "dent_ok d'" unfolding dent_ok_def hd mx sl
  proof (intro conjI ballI allI impI)
    show "block_shape d'" using sh C by (simp add: block_shape_def f)
    fix q assume q: "q \<in> heads d - {pos}"
    show "q + de_slots d q \<le> d_max d" using q dent_okD(2) [OF ok] by blast
    show "used d' i" if "q \<le> i \<and> i < q + de_slots d q" for i using that q u [of i] sep [of q] dent_okD(3) [OF ok, of q i] by auto
    show "q + de_slots d q \<le> r" if "r \<in> heads d - {pos}" "q < r" for r using q that dent_okD(4) [OF ok] by blast
  next
    fix i assume i: "i < d_max d" "used d' i"
    then obtain q where "q \<in> heads d" "q \<le> i" "i < q + de_slots d q" using dent_okD(5) [OF ok i(1)] u by blast
    then show "\<exists>q \<in> heads d - {pos}. q \<le> i \<and> i < q + de_slots d q" using u [of i] i(2) by auto
  qed
qed

section \<open>The hint for an insertion\<close>

text \<open>Property C30.
  \<^verbatim>\<open>find_target_dentry\<close> on a well-formed block: a position it returns is the first slot of an entry with that hash and a matching name; if it returns none, no entry of
  the block has them, and the length it reports tells exactly for which sizes there is a free run: the hint (\<^verbatim>\<open>chash\<close>, \<^verbatim>\<open>clevel\<close>) that an insertion takes
  is neither too optimistic nor too pessimistic.\<close>

theorem find_target_dentry_exact:
  assumes ok: "dent_ok d" and s: "0 < s"
  shows "case find_target_dentry m h d of
      (Some p, _) \<Rightarrow> p \<in> heads d \<and> hash_code (de_at d p) = h \<and> m (de_name d p)
    | (None, k) \<Rightarrow> {p \<in> heads d. hash_code (de_at d p) = h \<and> m (de_name d p)} = {} \<and> (s \<le> k \<longleftrightarrow> (\<exists>q. free_run d q s))"
proof (cases "find_target_dentry m h d")
  case (Pair r k)
  show ?thesis using find_target_ok [OF ok, of m h] find_target_run [OF ok, of m h s] s by (cases r) (auto simp: Pair)
qed

definition demo_block :: f2fs_dentry_ptr where
  "demo_block = f2fs_update_dentry 7 0x81A4 [97] 5 1
     \<lparr>d_bitmap = [0], d_dentry = replicate 4 zero_de, d_filename = replicate 32 0, d_max = 4, d_nr_bitmap = 1\<rparr>"

lemma demo_block_val: "demo_block = \<lparr>d_bitmap = [2], d_dentry = [zero_de, \<lparr>hash_code = 5, de_ino = 7, name_len = 1, file_type = 1\<rparr>, zero_de, zero_de],
    d_filename = replicate 8 0 @ [97] @ replicate 23 0, d_max = 4, d_nr_bitmap = 1\<rparr>"
  by code_simp

lemma demo_block_ok: "dent_ok demo_block"
proof -
  have "\<not> used \<lparr>d_bitmap = [0], d_dentry = replicate 4 zero_de, d_filename = replicate 32 0, d_max = 4, d_nr_bitmap = 1\<rparr> i" for i
    by (simp add: used_def test_bit_le_def arr_get_def)
  then show ?thesis unfolding demo_block_def
    by (intro update_dentry_ok(1)) (auto simp: dent_ok_def heads_def block_shape_def F2FS_SLOT_LEN_def free_run_def GET_DENTRY_SLOTS_def F2FS_SLOT_LEN_BITS_def drop_bit_eq_div)
qed

theorem find_target_dentry_exact_witness:
  "fst (find_target_dentry ((=) [97]) 5 demo_block) = Some 1 \<and> find_target_dentry ((=) [98]) 5 demo_block = (None, 2) \<and> (\<exists>q. free_run demo_block q 2)"
proof -
  have v: "fst (find_target_dentry ((=) [97]) 5 demo_block) = Some 1" "find_target_dentry ((=) [98]) 5 demo_block = (None, 2)"
    unfolding demo_block_val by code_simp+
  then show ?thesis using find_target_dentry_exact [OF demo_block_ok, where s = 2 and m = "(=) [98]" and h = 5] by simp
qed
end
