(* ===== verification/Dir_Hash.thy ===== *)
theory Dir_Hash
  imports Dentry_Block
begin

text \<open>
  Directories (\<^verbatim>\<open>dir.c\<close>, \<^verbatim>\<open>inline.c\<close>). A directory starts inside its inode and is moved to blocks when it no longer fits. The blocks
  form a hash table of several levels: a level has buckets, chosen by the hash of the name, of two or four blocks. A lookup searches the bucket of the
  name on every level up to the current depth; an insertion takes the first room on the levels from the top and adds a level when there is none.

  Every call that may fail because of the disk or of memory is an argument: \<open>dir_io\<close>. A block that is a hole is absent from
  \<open>i_pages\<close>. Fault injection is left out, and names are not encrypted.
\<close>

section \<open>State\<close>

record dir_io =
  read_err :: "nat \<Rightarrow> errno option"
  alloc_err :: "nat \<Rightarrow> errno option"
  node_err :: "errno option"
  meta_err :: "errno option"
  mem_err :: bool
  trunc_err :: "nat \<Rightarrow> bool"
  fatal_signal :: "nat \<Rightarrow> bool"
  match_name :: "u8 list \<Rightarrow> u8 list \<Rightarrow> bool"
  fresh_page :: f2fs_dentry_ptr

record dir_inode =
  i_dir_level :: nat
  i_current_depth :: nat
  chash :: u32
  clevel :: nat
  dir_task :: nat
  i_size :: nat
  i_pages :: "nat \<rightharpoonup> f2fs_dentry_ptr"
  FI_INLINE_DENTRY :: bool
  i_inline :: f2fs_dentry_ptr
  MAX_INLINE_DATA :: nat

definition MAX_DIR_HASH_DEPTH :: nat where "MAX_DIR_HASH_DEPTH = 63"
definition MAX_DIR_BUCKETS :: nat where "MAX_DIR_BUCKETS = push_bit (MAX_DIR_HASH_DEPTH div 2 - 1) 1"
definition PAGE_SHIFT :: nat where "PAGE_SHIFT = 12"

definition zero_block :: f2fs_dentry_ptr where
  "zero_block = \<lparr>d_bitmap = replicate SIZE_OF_DENTRY_BITMAP 0, d_dentry = replicate NR_DENTRY_IN_BLOCK zero_de,
     d_filename = replicate (NR_DENTRY_IN_BLOCK * F2FS_SLOT_LEN) 0, d_max = NR_DENTRY_IN_BLOCK, d_nr_bitmap = SIZE_OF_DENTRY_BITMAP\<rparr>"

definition name_hash :: "u8 list \<Rightarrow> u32" where
  "name_hash name = f2fs_dentry_hash \<lparr>qname = name, qlen = length name\<rparr> None"

text \<open>The size of the area for entries inside the inode.\<close>

definition SIZE_OF_DIR_ENTRY :: nat where "SIZE_OF_DIR_ENTRY = 11"

definition NR_INLINE_DENTRY :: "nat \<Rightarrow> nat" where
  "NR_INLINE_DENTRY max_inline_data = max_inline_data * 8 div ((SIZE_OF_DIR_ENTRY + F2FS_SLOT_LEN) * 8 + 1)"

definition INLINE_DENTRY_BITMAP_SIZE :: "nat \<Rightarrow> nat" where
  "INLINE_DENTRY_BITMAP_SIZE max_inline_data = (NR_INLINE_DENTRY max_inline_data + 8 - 1) div 8"

section \<open>Levels and buckets\<close>

definition dir_blocks :: "dir_inode \<Rightarrow> nat" where
  "dir_blocks d = drop_bit PAGE_SHIFT (i_size d + 2 ^ PAGE_SHIFT - 1)"

definition dir_buckets :: "nat \<Rightarrow> nat \<Rightarrow> nat" where
  "dir_buckets level dir_level = (if level + dir_level < MAX_DIR_HASH_DEPTH div 2 then push_bit (level + dir_level) 1 else MAX_DIR_BUCKETS)"

definition bucket_blocks :: "nat \<Rightarrow> nat" where
  "bucket_blocks level = (if level < MAX_DIR_HASH_DEPTH div 2 then 2 else 4)"

text \<open>The products are computed with 32 bits, the sum with 64.\<close>

definition dir_block_index :: "nat \<Rightarrow> nat \<Rightarrow> nat \<Rightarrow> nat" where
  "dir_block_index level dir_level idx =
     (fold (\<lambda>i bidx. (bidx + dir_buckets i dir_level * bucket_blocks i mod 2 ^ 32) mod 2 ^ 64) [0..<level] 0 + idx * bucket_blocks level mod 2 ^ 32) mod 2 ^ 64"

section \<open>Lookup\<close>

datatype dir_loc = In_block nat nat | In_inline nat

definition find_data_page :: "dir_io \<Rightarrow> dir_inode \<Rightarrow> nat \<Rightarrow> errno + f2fs_dentry_ptr" where
  "find_data_page io d index =
     (case read_err io index of Some e \<Rightarrow> Inl e
      | None \<Rightarrow> case i_pages d index of None \<Rightarrow> Inl ENOENT | Some pg \<Rightarrow> Inr pg)"

fun find_level_loop :: "dir_io \<Rightarrow> u8 list \<Rightarrow> u32 \<Rightarrow> dir_inode \<Rightarrow> nat list \<Rightarrow> bool \<Rightarrow> (errno + dir_loc) option \<times> bool" where
  "find_level_loop io name namehash d [] room = (None, room)"
| "find_level_loop io name namehash d (bidx # rest) room =
     (case find_data_page io d bidx of
        Inl e \<Rightarrow> if e = ENOENT then find_level_loop io name namehash d rest True else (Some (Inl e), room)
      | Inr pg \<Rightarrow>
          (case find_target_dentry (match_name io name) namehash pg of
             (Some pos, _) \<Rightarrow> (Some (Inr (In_block bidx pos)), room)
           | (None, max_slots) \<Rightarrow> find_level_loop io name namehash d rest (room \<or> max_slots \<ge> GET_DENTRY_SLOTS (length name))))"

definition find_in_level :: "dir_io \<Rightarrow> u8 list \<Rightarrow> nat \<Rightarrow> dir_inode \<Rightarrow> (errno + dir_loc) option \<times> dir_inode" where
  "find_in_level io name level d =
     (let namehash = name_hash name;
          nbucket = dir_buckets level (i_dir_level d);
          nblock = bucket_blocks level;
          bidx = dir_block_index level (i_dir_level d) (unat namehash mod nbucket) mod 2 ^ 32;
          end_block = (bidx + nblock) mod 2 ^ 32;
          (res, room) = find_level_loop io name namehash d [bidx..<end_block] False;
          found = (case res of Some (Inr _) \<Rightarrow> True | _ \<Rightarrow> False)
      in (res, if \<not> found \<and> room \<and> chash d \<noteq> namehash then d\<lparr>chash := namehash, clevel := level\<rparr> else d))"

fun find_levels :: "dir_io \<Rightarrow> u8 list \<Rightarrow> nat list \<Rightarrow> dir_inode \<Rightarrow> (errno + dir_loc) option \<times> dir_inode" where
  "find_levels io name [] d = (None, d)"
| "find_levels io name (level # rest) d =
     (case find_in_level io name level d of
        (Some r, d) \<Rightarrow> (Some r, d)
      | (None, d) \<Rightarrow> find_levels io name rest d)"

definition find_in_inline_dir :: "dir_io \<Rightarrow> u8 list \<Rightarrow> dir_inode \<Rightarrow> (errno + dir_loc) option" where
  "find_in_inline_dir io name d =
     (case node_err io of Some e \<Rightarrow> Some (Inl e)
      | None \<Rightarrow> case fst (find_target_dentry (match_name io name) (name_hash name) (i_inline d)) of
                  Some pos \<Rightarrow> Some (Inr (In_inline pos)) | None \<Rightarrow> None)"

text \<open>\<open>None\<close> is not found, \<open>Some (Inl e)\<close> an error. A task that did not find the name is remembered.\<close>

definition f2fs_find_entry :: "nat \<Rightarrow> dir_io \<Rightarrow> u8 list \<Rightarrow> dir_inode \<Rightarrow> (errno + dir_loc) option \<times> dir_inode" where
  "f2fs_find_entry current io name d =
     (let (res, d) =
        (if FI_INLINE_DENTRY d then (find_in_inline_dir io name d, d)
         else if dir_blocks d = 0 then (None, d)
         else
           let d = (if i_current_depth d > MAX_DIR_HASH_DEPTH then d\<lparr>i_current_depth := MAX_DIR_HASH_DEPTH\<rparr> else d)
           in find_levels io name [0..<i_current_depth d] d);
        found = (case res of Some (Inr _) \<Rightarrow> True | _ \<Rightarrow> False)
      in (res, if found then d else d\<lparr>dir_task := current\<rparr>))"

definition de_of :: "dir_inode \<Rightarrow> dir_loc \<Rightarrow> f2fs_dir_entry" where
  "de_of d loc = (case loc of In_block b pos \<Rightarrow> (case i_pages d b of Some pg \<Rightarrow> de_at pg pos | None \<Rightarrow> zero_de) | In_inline pos \<Rightarrow> de_at (i_inline d) pos)"

definition f2fs_inode_by_name :: "nat \<Rightarrow> dir_io \<Rightarrow> u8 list \<Rightarrow> dir_inode \<Rightarrow> u32 \<times> dir_inode" where
  "f2fs_inode_by_name current io qstr d =
     (case f2fs_find_entry current io qstr d of
        (Some (Inr loc), d) \<Rightarrow> (de_ino (de_of d loc), d)
      | (_, d) \<Rightarrow> (0, d))"

section \<open>Insertion\<close>

definition get_new_data_page :: "dir_io \<Rightarrow> nat \<Rightarrow> dir_inode \<Rightarrow> (errno + f2fs_dentry_ptr) \<times> dir_inode" where
  "get_new_data_page io index d =
     (case alloc_err io index of Some e \<Rightarrow> (Inl e, d)
      | None \<Rightarrow>
          let pg = (case i_pages d index of Some pg \<Rightarrow> pg | None \<Rightarrow> zero_block);
              d = d\<lparr>i_pages := (i_pages d)(index \<mapsto> pg)\<rparr>;
              d = (if i_size d < push_bit PAGE_SHIFT (index + 1) then d\<lparr>i_size := push_bit PAGE_SHIFT (index + 1)\<rparr> else d)
          in (Inr pg, d))"

fun add_blocks :: "dir_io \<Rightarrow> nat \<Rightarrow> nat list \<Rightarrow> dir_inode \<Rightarrow> (errno + (nat \<times> nat) option) \<times> dir_inode" where
  "add_blocks io slots [] d = (Inr None, d)"
| "add_blocks io slots (block # rest) d =
     (case get_new_data_page io block d of
        (Inl e, d) \<Rightarrow> (Inl e, d)
      | (Inr pg, d) \<Rightarrow>
          let bit_pos = room_for_filename (d_bitmap pg) slots NR_DENTRY_IN_BLOCK
          in if bit_pos < NR_DENTRY_IN_BLOCK then (Inr (Some (block, bit_pos)), d) else add_blocks io slots rest d)"

text \<open>The loop over the levels ends for a depth in range; with a corrupted depth it might not.\<close>

partial_function (option) add_loop :: "dir_io \<Rightarrow> nat \<Rightarrow> u32 \<Rightarrow> nat \<Rightarrow> nat \<Rightarrow> dir_inode \<Rightarrow> ((errno + nat \<times> nat \<times> nat) \<times> dir_inode) option" where
  "add_loop io slots dentry_hash level current_depth d =
     (if current_depth = MAX_DIR_HASH_DEPTH then Some (Inl ENOSPC, d)
      else
        let current_depth = (if level = current_depth then current_depth + 1 else current_depth);
            nbucket = dir_buckets level (i_dir_level d);
            nblock = bucket_blocks level;
            bidx = dir_block_index level (i_dir_level d) (unat dentry_hash mod nbucket)
        in case add_blocks io slots [bidx..<bidx + nblock] d of
             (Inl e, d) \<Rightarrow> Some (Inl e, d)
           | (Inr (Some (block, bit_pos)), d) \<Rightarrow> Some (Inr (block, bit_pos, current_depth), d)
           | (Inr None, d) \<Rightarrow> add_loop io slots dentry_hash (level + 1) current_depth d)"

text \<open>\<open>inode\<close> says whether an inode is given; only then its metadata is initialised, which may fail.\<close>

definition f2fs_add_regular_entry :: "dir_io \<Rightarrow> u8 list \<Rightarrow> bool \<Rightarrow> u32 \<Rightarrow> u16 \<Rightarrow> dir_inode \<Rightarrow> (errno option \<times> dir_inode) option" where
  "f2fs_add_regular_entry io new_name inode ino mode d =
     (let slots = GET_DENTRY_SLOTS (length new_name);
          dentry_hash = name_hash new_name;
          current_depth = i_current_depth d;
          (level, d) = (if chash d = dentry_hash then (clevel d, d\<lparr>chash := 0\<rparr>) else (0, d))
      in case add_loop io slots dentry_hash level current_depth d of
           None \<Rightarrow> None
         | Some (Inl e, d) \<Rightarrow> Some (Some e, d)
         | Some (Inr (block, bit_pos, current_depth), d) \<Rightarrow>
             if inode \<and> meta_err io \<noteq> None then Some (meta_err io, d)
             else
               let pg = (case i_pages d block of Some pg \<Rightarrow> pg | None \<Rightarrow> zero_block);
                   d = d\<lparr>i_pages := (i_pages d)(block \<mapsto> f2fs_update_dentry ino mode new_name dentry_hash bit_pos pg)\<rparr>
               in Some (None, d\<lparr>i_current_depth := current_depth\<rparr>))"

section \<open>Invariant of the hash table\<close>

text \<open>What is assumed of the code outside: names are compared as a whole, only holes give \<open>ENOENT\<close>,
  no call gives \<open>EAGAIN\<close> (which \<^verbatim>\<open>f2fs_add_inline_entry\<close> uses for itself), and files have a size limit.\<close>

definition io_ok :: "dir_io \<Rightarrow> bool" where
  "io_ok io \<longleftrightarrow> (\<forall>a b. match_name io a b \<longleftrightarrow> a = b) \<and> (\<forall>b. read_err io b \<noteq> Some ENOENT) \<and> (\<forall>b \<ge> 2 ^ 31. alloc_err io b \<noteq> None) \<and>
     (\<forall>b. alloc_err io b \<noteq> Some EAGAIN) \<and> node_err io \<noteq> Some EAGAIN \<and> meta_err io \<noteq> Some EAGAIN \<and>
     block_shape (fresh_page io) \<and> d_max (fresh_page io) = NR_DENTRY_IN_BLOCK \<and> length (d_bitmap (fresh_page io)) = SIZE_OF_DENTRY_BITMAP \<and> d_nr_bitmap (fresh_page io) = SIZE_OF_DENTRY_BITMAP"

definition in_bucket :: "nat \<Rightarrow> nat \<Rightarrow> u32 \<Rightarrow> nat \<Rightarrow> bool" where
  "in_bucket dl depth h b \<longleftrightarrow>
     (\<exists>level < depth. dir_block_index level dl (unat h mod dir_buckets level dl) \<le> b \<and>
        b < dir_block_index level dl (unat h mod dir_buckets level dl) + bucket_blocks level)"

definition blk_ok :: "nat \<Rightarrow> nat \<Rightarrow> nat \<Rightarrow> nat \<Rightarrow> f2fs_dentry_ptr \<Rightarrow> bool" where
  "blk_ok dl depth sz b pg \<longleftrightarrow> dent_ok pg \<and> d_max pg = NR_DENTRY_IN_BLOCK \<and> b < 2 ^ 31 \<and> push_bit PAGE_SHIFT (b + 1) \<le> sz \<and>
     (\<forall>p \<in> heads pg. hash_code (de_at pg p) = name_hash (de_name pg p) \<and> in_bucket dl depth (hash_code (de_at pg p)) b)"

definition blk_set :: "f2fs_dentry_ptr \<Rightarrow> (u8 list \<times> u32 \<times> u8) set" where
  "blk_set pg = (\<lambda>p. (de_name pg p, de_ino (de_at pg p), file_type (de_at pg p))) ` heads pg"

definition page_set :: "(nat \<rightharpoonup> f2fs_dentry_ptr) \<Rightarrow> (u8 list \<times> u32 \<times> u8) set" where
  "page_set pages = (\<Union>pg \<in> ran pages. blk_set pg)"

definition uniq :: "(nat \<rightharpoonup> f2fs_dentry_ptr) \<Rightarrow> bool" where
  "uniq pages \<longleftrightarrow> (\<forall>b pg p c pc q. pages b = Some pg \<longrightarrow> p \<in> heads pg \<longrightarrow> pages c = Some pc \<longrightarrow> q \<in> heads pc \<longrightarrow> de_name pg p = de_name pc q \<longrightarrow> b = c \<and> p = q)"

definition hash_ok :: "dir_inode \<Rightarrow> bool" where
  "hash_ok d \<longleftrightarrow> i_current_depth d \<le> MAX_DIR_HASH_DEPTH \<and> clevel d \<le> i_current_depth d \<and>
     (\<forall>b pg. i_pages d b = Some pg \<longrightarrow> blk_ok (i_dir_level d) (i_current_depth d) (i_size d) b pg) \<and> uniq (i_pages d)"

lemma hash_okD:
  assumes "hash_ok d"
  shows "i_current_depth d \<le> MAX_DIR_HASH_DEPTH" "clevel d \<le> i_current_depth d"
    "i_pages d b = Some pg \<Longrightarrow> blk_ok (i_dir_level d) (i_current_depth d) (i_size d) b pg" "uniq (i_pages d)"
  using assms unfolding hash_ok_def by blast+

lemma io_okD:
  assumes "io_ok io"
  shows "match_name io a b \<longleftrightarrow> a = b" "read_err io b' \<noteq> Some ENOENT" "2 ^ 31 \<le> b' \<Longrightarrow> alloc_err io b' \<noteq> None"
    "alloc_err io b' \<noteq> Some EAGAIN" "meta_err io \<noteq> Some EAGAIN"
  using assms unfolding io_ok_def by blast+

text \<open>The parts of a directory that lookups leave alone.\<close>

definition same_dir :: "dir_inode \<Rightarrow> dir_inode \<Rightarrow> bool" where
  "same_dir d' d \<longleftrightarrow> i_pages d' = i_pages d \<and> i_dir_level d' = i_dir_level d \<and> i_current_depth d' = i_current_depth d \<and> i_size d' = i_size d \<and>
     FI_INLINE_DENTRY d' = FI_INLINE_DENTRY d \<and> i_inline d' = i_inline d \<and> MAX_INLINE_DATA d' = MAX_INLINE_DATA d"

section \<open>Lookup\<close>

lemma find_level_ok:
  assumes io: "io_ok io" and pg0: "\<forall>b pg. i_pages d b = Some pg \<longrightarrow> dent_ok pg" and f: "find_level_loop io name h d bs room = (r, room')"
  shows "r = Some (Inr loc) \<Longrightarrow> \<exists>b pg p. b \<in> set bs \<and> loc = In_block b p \<and> i_pages d b = Some pg \<and> p \<in> heads pg \<and> de_name pg p = name"
    "r = None \<Longrightarrow> b \<in> set bs \<Longrightarrow> i_pages d b = Some pg \<Longrightarrow> p \<in> heads pg \<Longrightarrow> hash_code (de_at pg p) = h \<Longrightarrow> de_name pg p \<noteq> name"
    "r = Some (Inl e) \<Longrightarrow> \<exists>b. read_err io b = Some e"
proof -
  have pg: "i_pages d b = Some pg \<Longrightarrow> dent_ok pg" for b pg using pg0 by blast
  have "(\<forall>loc. r = Some (Inr loc) \<longrightarrow> (\<exists>b pg p. b \<in> set bs \<and> loc = In_block b p \<and> i_pages d b = Some pg \<and> p \<in> heads pg \<and> de_name pg p = name)) \<and>
    (r = None \<longrightarrow> (\<forall>b pg p. b \<in> set bs \<longrightarrow> i_pages d b = Some pg \<longrightarrow> p \<in> heads pg \<longrightarrow> hash_code (de_at pg p) = h \<longrightarrow> de_name pg p \<noteq> name)) \<and>
    (\<forall>e. r = Some (Inl e) \<longrightarrow> (\<exists>b. read_err io b = Some e))"
    using f
  proof (induction bs arbitrary: room)
    case (Cons b bs)
    show ?case
    proof (cases "find_data_page io d b")
      case (Inl e)
      have n: "i_pages d b = None" if "e = ENOENT"
        using Inl that io_okD(2) [OF io, of b] by (auto simp: find_data_page_def split: option.splits)
      show ?thesis
      proof (cases "e = ENOENT")
        case True
        then have "find_level_loop io name h d bs True = (r, room')" using Cons.prems Inl by simp
        from Cons.IH [OF this] n [OF True] show ?thesis by auto
      next
        case False
        then have "r = Some (Inl e)" using Cons.prems Inl by simp
        then show ?thesis using Inl False by (auto simp: find_data_page_def split: option.splits)
      qed
    next
      case (Inr pgb)
      then have pb: "i_pages d b = Some pgb" by (auto simp: find_data_page_def split: option.splits)
      note F = find_target_ok [OF pg [OF pb], of "match_name io name" h, unfolded io_okD(1) [OF io]]
      obtain res ms where t: "find_target_dentry (match_name io name) h pgb = (res, ms)" by fastforce
      have ta: "find_target_dentry ((=) name) h pgb = (res, ms)"
      proof -
        have "match_name io name = (=) name" using io_okD(1) [OF io] by (intro ext) simp
        then show ?thesis using t by simp
      qed
      show ?thesis
      proof (cases res)
        case None
        then have "find_level_loop io name h d bs (room \<or> ms \<ge> GET_DENTRY_SLOTS (length name)) = (r, room')" using Cons.prems Inr t by simp
        from Cons.IH [OF this] show ?thesis using F(2) t None pb ta by fastforce
      next
        case (Some p)
        then have "r = Some (Inr (In_block b p))" using Cons.prems Inr t by simp
        then show ?thesis using F(1) [of p] t Some pb ta by auto
      qed
    qed
  qed simp
  then show "r = Some (Inr loc) \<Longrightarrow> \<exists>b pg p. b \<in> set bs \<and> loc = In_block b p \<and> i_pages d b = Some pg \<and> p \<in> heads pg \<and> de_name pg p = name"
    "r = None \<Longrightarrow> b \<in> set bs \<Longrightarrow> i_pages d b = Some pg \<Longrightarrow> p \<in> heads pg \<Longrightarrow> hash_code (de_at pg p) = h \<Longrightarrow> de_name pg p \<noteq> name"
    "r = Some (Inl e) \<Longrightarrow> \<exists>b. read_err io b = Some e" by blast+
qed

definition at_level :: "nat \<Rightarrow> nat \<Rightarrow> u32 \<Rightarrow> nat \<Rightarrow> bool" where
  "at_level dl level h b \<longleftrightarrow> dir_block_index level dl (unat h mod dir_buckets level dl) \<le> b \<and>
        b < dir_block_index level dl (unat h mod dir_buckets level dl) + bucket_blocks level"

lemma in_bucket_alt: "in_bucket dl depth h b \<longleftrightarrow> (\<exists>level < depth. at_level dl level h b)"
  by (simp add: in_bucket_def at_level_def)

lemma bucket_blocks_le: "bucket_blocks level \<le> 4"
  by (simp add: bucket_blocks_def)

lemma level_blocks:
  assumes "at_level dl level h b" "b < 2 ^ 31"
  defines "i0 \<equiv> dir_block_index level dl (unat h mod dir_buckets level dl) mod 2 ^ 32"
  shows "b \<in> set [i0..<(i0 + bucket_blocks level) mod 2 ^ 32]"
proof -
  have l: "dir_block_index level dl (unat h mod dir_buckets level dl) < 2 ^ 31" using assms(1,2) by (simp add: at_level_def)
  then have i: "i0 = dir_block_index level dl (unat h mod dir_buckets level dl)" by (simp add: i0_def)
  have "i0 + bucket_blocks level < 2 ^ 32" using l i bucket_blocks_le [of level] by simp
  then show ?thesis using assms(1) i by (simp add: at_level_def)
qed

lemma find_in_level_ok:
  assumes io: "io_ok io" and ok: "hash_ok d" and f: "find_in_level io name level d = (r, d')"
  shows "r = Some (Inr loc) \<Longrightarrow> \<exists>b pg p. loc = In_block b p \<and> i_pages d b = Some pg \<and> p \<in> heads pg \<and> de_name pg p = name"
    "r = None \<Longrightarrow> i_pages d b = Some pg \<Longrightarrow> p \<in> heads pg \<Longrightarrow> at_level (i_dir_level d) level (name_hash name) b \<Longrightarrow> de_name pg p \<noteq> name"
    "r = Some (Inl e) \<Longrightarrow> \<exists>b. read_err io b = Some e" "same_dir d' d" "clevel d' = clevel d \<or> clevel d' = level" "dir_task d' = dir_task d"
proof -
  let ?i0 = "dir_block_index level (i_dir_level d) (unat (name_hash name) mod dir_buckets level (i_dir_level d)) mod 2 ^ 32"
  obtain room where l: "find_level_loop io name (name_hash name) d [?i0..<(?i0 + bucket_blocks level) mod 2 ^ 32] False = (r, room)"
    and d': "d' = d \<or> d' = d\<lparr>chash := name_hash name, clevel := level\<rparr>"
    using f by (auto simp: find_in_level_def Let_def split: prod.splits if_splits)
  have bl: "\<forall>b pg. i_pages d b = Some pg \<longrightarrow> dent_ok pg" using hash_okD(3) [OF ok] by (simp add: blk_ok_def)
  note L = find_level_ok [OF io bl l]
  show "r = Some (Inr loc) \<Longrightarrow> \<exists>b pg p. loc = In_block b p \<and> i_pages d b = Some pg \<and> p \<in> heads pg \<and> de_name pg p = name" using L(1) by blast
  show "r = Some (Inl e) \<Longrightarrow> \<exists>b. read_err io b = Some e" by (rule L(3))
  show "same_dir d' d" "clevel d' = clevel d \<or> clevel d' = level" "dir_task d' = dir_task d" using d' by (auto simp: same_dir_def)
  assume r: "r = None" and pg: "i_pages d b = Some pg" and p: "p \<in> heads pg" and al: "at_level (i_dir_level d) level (name_hash name) b"
  have ob: "blk_ok (i_dir_level d) (i_current_depth d) (i_size d) b pg" by (rule hash_okD(3) [OF ok pg])
  then have "b < 2 ^ 31" by (simp add: blk_ok_def)
  from L(2) [OF r level_blocks [OF al this] pg p] ob p show "de_name pg p \<noteq> name" unfolding blk_ok_def by metis
qed

lemma same_dir_hash_ok: "same_dir d' d \<Longrightarrow> clevel d' \<le> i_current_depth d \<Longrightarrow> hash_ok d \<Longrightarrow> hash_ok d'"
  by (simp add: same_dir_def hash_ok_def)

lemma same_dir_refl [simp]: "same_dir d d"
  by (simp add: same_dir_def)

lemma same_dir_trans: "same_dir a b \<Longrightarrow> same_dir b c \<Longrightarrow> same_dir a c"
  by (simp add: same_dir_def)

lemma find_levels_ok:
  assumes io: "io_ok io" and ok: "hash_ok d" and lv: "\<forall>l \<in> set ls. l < i_current_depth d" and f: "find_levels io name ls d = (r, d')"
  shows "hash_ok d' \<and> same_dir d' d \<and> dir_task d' = dir_task d \<and>
    (\<forall>loc. r = Some (Inr loc) \<longrightarrow> (\<exists>b pg p. loc = In_block b p \<and> i_pages d b = Some pg \<and> p \<in> heads pg \<and> de_name pg p = name)) \<and>
    (r = None \<longrightarrow> (\<forall>l b pg p. l \<in> set ls \<longrightarrow> i_pages d b = Some pg \<longrightarrow> p \<in> heads pg \<longrightarrow> at_level (i_dir_level d) l (name_hash name) b \<longrightarrow> de_name pg p \<noteq> name)) \<and>
    (\<forall>e. r = Some (Inl e) \<longrightarrow> (\<exists>b. read_err io b = Some e))"
  using ok lv f
proof (induction ls arbitrary: d)
  case (Cons l ls)
  obtain r1 d1 where f1: "find_in_level io name l d = (r1, d1)" by fastforce
  note L = find_in_level_ok [OF io Cons.prems(1) f1]
  have c: "clevel d1 \<le> i_current_depth d" using L(5) hash_okD(2) [OF Cons.prems(1)] Cons.prems(2) by auto
  have ok1: "hash_ok d1" by (rule same_dir_hash_ok [OF L(4) c Cons.prems(1)])
  show ?case
  proof (cases r1)
    case None
    have s: "i_pages d1 = i_pages d" "i_dir_level d1 = i_dir_level d" "i_current_depth d1 = i_current_depth d" using L(4) by (simp_all add: same_dir_def)
    have f2: "find_levels io name ls d1 = (r, d')" using Cons.prems(3) f1 None by simp
    have lv: "\<forall>l \<in> set ls. l < i_current_depth d1" using Cons.prems(2) s(3) by simp
    note ih = Cons.IH [OF ok1 lv f2, unfolded s(1,2)]
    show ?thesis using ih same_dir_trans [OF _ L(4)] L(2) [OF None] L(6) by auto
  next
    case (Some x)
    then have r: "r = Some x" "d' = d1" using Cons.prems(3) f1 by simp_all
    then show ?thesis using ok1 L(1,3,4,6) Some by blast
  qed
qed simp

text \<open>Where an entry is, and the entries of a directory.\<close>

definition loc_in :: "dir_inode \<Rightarrow> dir_loc \<Rightarrow> u8 list \<Rightarrow> bool" where
  "loc_in d loc name \<longleftrightarrow> (case loc of In_block b p \<Rightarrow> \<not> FI_INLINE_DENTRY d \<and> (\<exists>pg. i_pages d b = Some pg \<and> p \<in> heads pg \<and> de_name pg p = name)
     | In_inline p \<Rightarrow> FI_INLINE_DENTRY d \<and> p \<in> heads (i_inline d) \<and> de_name (i_inline d) p = name)"

definition dir_set :: "dir_inode \<Rightarrow> (u8 list \<times> u32 \<times> u8) set" where
  "dir_set d = (if FI_INLINE_DENTRY d then blk_set (i_inline d) else page_set (i_pages d))"

definition inline_ok :: "dir_inode \<Rightarrow> bool" where
  "inline_ok d \<longleftrightarrow> dent_ok (i_inline d) \<and> (\<forall>p \<in> heads (i_inline d). hash_code (de_at (i_inline d) p) = name_hash (de_name (i_inline d) p) \<and>
       file_type (de_at (i_inline d) p) < F2FS_FT_MAX) \<and>
     inj_on (de_name (i_inline d)) (heads (i_inline d)) \<and> (\<forall>i \<ge> d_max (i_inline d). \<not> used (i_inline d) i) \<and>
     d_max (i_inline d) = NR_INLINE_DENTRY (MAX_INLINE_DATA d) \<and> d_nr_bitmap (i_inline d) = INLINE_DENTRY_BITMAP_SIZE (MAX_INLINE_DATA d) \<and>
     length (d_bitmap (i_inline d)) = d_nr_bitmap (i_inline d) \<and> MAX_INLINE_DATA d \<le> 3688 \<and>
     i_pages d = Map.empty \<and> clevel d = 0 \<and> i_current_depth d \<le> 1"

definition dir_ok :: "dir_inode \<Rightarrow> bool" where
  "dir_ok d \<longleftrightarrow> (if FI_INLINE_DENTRY d then inline_ok d else hash_ok d)"

lemma f2fs_find_entry_ok:
  assumes io: "io_ok io" and ok: "dir_ok d" and f: "f2fs_find_entry current io name d = (r, d')"
  shows "dir_ok d' \<and> same_dir d' d \<and> (\<forall>loc. r = Some (Inr loc) \<longrightarrow> loc_in d loc name) \<and> (r = None \<longrightarrow> (\<forall>loc. \<not> loc_in d loc name)) \<and>
    (\<forall>e. r = Some (Inl e) \<longrightarrow> node_err io = Some e \<or> (\<exists>b. read_err io b = Some e))"
proof (cases "FI_INLINE_DENTRY d")
  case True
  then have il: "inline_ok d" using ok by (simp add: dir_ok_def)
  have m: "match_name io name = (=) name" using io_okD(1) [OF io] by (intro ext) simp
  have de: "dent_ok (i_inline d)" using il by (simp add: inline_ok_def)
  note F = find_target_ok [OF de, of "(=) name" "name_hash name"]
  have d': "d' = d \<or> d' = d\<lparr>dir_task := current\<rparr>" and r: "r = find_in_inline_dir io name d"
    using f True by (auto simp: f2fs_find_entry_def Let_def split: if_splits)
  have "dir_ok d' \<and> same_dir d' d" using d' ok by (auto simp: dir_ok_def same_dir_def inline_ok_def hash_ok_def)
  moreover have "loc_in d loc name" if "r = Some (Inr loc)" for loc
    using that r F(1) True m by (auto simp: find_in_inline_dir_def loc_in_def split: option.splits)
  moreover have "\<not> loc_in d loc name" if "r = None" for loc
  proof
    assume "loc_in d loc name"
    then obtain p where p: "p \<in> heads (i_inline d)" "de_name (i_inline d) p = name" using True by (auto simp: loc_in_def split: dir_loc.splits)
    have "fst (find_target_dentry ((=) name) (name_hash name) (i_inline d)) = None" using that r m by (auto simp: find_in_inline_dir_def split: option.splits)
    from F(2) [OF this p(1)] p il show False unfolding inline_ok_def by metis
  qed
  moreover have "node_err io = Some e" if "r = Some (Inl e)" for e using that r by (auto simp: find_in_inline_dir_def split: option.splits)
  ultimately show ?thesis by blast
next
  case False
  then have ho: "hash_ok d" using ok by (simp add: dir_ok_def)
  have lt: "\<not> i_current_depth d > MAX_DIR_HASH_DEPTH" using hash_okD(1) [OF ho] by simp
  obtain d1 where g: "(if dir_blocks d = 0 then (None, d) else find_levels io name [0..<i_current_depth d] d) = (r, d1)" and d': "d' = d1 \<or> d' = d1\<lparr>dir_task := current\<rparr>"
    using f False lt by (auto simp: f2fs_find_entry_def Let_def split: if_splits prod.splits)
  have nz: "dir_blocks d \<noteq> 0" if "i_pages d b = Some pg" for b pg
  proof -
    have "push_bit PAGE_SHIFT (b + 1) \<le> i_size d" using hash_okD(3) [OF ho that] by (simp add: blk_ok_def)
    then have "0 < i_size d" by (simp add: push_bit_eq_mult PAGE_SHIFT_def)
    then show ?thesis by (simp add: dir_blocks_def drop_bit_eq_div PAGE_SHIFT_def div_eq_0_iff)
  qed
  have main: "hash_ok d1 \<and> same_dir d1 d \<and> (\<forall>loc. r = Some (Inr loc) \<longrightarrow> loc_in d loc name) \<and> (r = None \<longrightarrow> (\<forall>loc. \<not> loc_in d loc name)) \<and>
      (\<forall>e. r = Some (Inl e) \<longrightarrow> (\<exists>b. read_err io b = Some e))"
  proof (cases "dir_blocks d = 0")
    case True
    then have "r = None" "d1 = d" using g by simp_all
    moreover have "\<not> loc_in d loc name" for loc using True nz False by (auto simp: loc_in_def split: dir_loc.splits)
    ultimately show ?thesis using ho by simp
  next
    case nz: False
    then have g1: "find_levels io name [0..<i_current_depth d] d = (r, d1)" using g by simp
    have lv: "\<forall>l \<in> set [0..<i_current_depth d]. l < i_current_depth d" by simp
    note L = find_levels_ok [OF io ho lv g1]
    have "\<not> loc_in d loc name" if r: "r = None" for loc
    proof
      assume "loc_in d loc name"
      then obtain b p pg where l: "i_pages d b = Some pg" "p \<in> heads pg" "de_name pg p = name" using False by (auto simp: loc_in_def split: dir_loc.splits)
      have "in_bucket (i_dir_level d) (i_current_depth d) (name_hash name) b" using hash_okD(3) [OF ho l(1)] l(2,3) unfolding blk_ok_def by metis
      then obtain lev where "lev < i_current_depth d" "at_level (i_dir_level d) lev (name_hash name) b" unfolding in_bucket_alt by blast
      then show False using L r l by auto
    qed
    moreover have "loc_in d loc name" if "r = Some (Inr loc)" for loc using L that False by (auto simp: loc_in_def)
    ultimately show ?thesis using L by blast
  qed
  have "dir_ok d' \<and> same_dir d' d" using main d' False by (auto simp: dir_ok_def same_dir_def hash_ok_def)
  then show ?thesis using main by blast
qed

section \<open>Insertion\<close>

lemma zero_block_ok: "dent_ok zero_block" "heads zero_block = {}" "d_max zero_block = NR_DENTRY_IN_BLOCK"
proof -
  have z: "\<not> used zero_block i" for i by (simp add: used_def test_bit_le_def arr_get_def zero_block_def)
  then show h: "heads zero_block = {}" by (simp add: heads_def)
  show "dent_ok zero_block" unfolding dent_ok_def h using z
    by (simp add: block_shape_def zero_block_def SIZE_OF_DENTRY_BITMAP_def NR_DENTRY_IN_BLOCK_def)
qed (simp add: zero_block_def)

text \<open>A directory that was given further empty blocks.\<close>

definition same_head :: "dir_inode \<Rightarrow> dir_inode \<Rightarrow> bool" where
  "same_head d' d \<longleftrightarrow> i_dir_level d' = i_dir_level d \<and> FI_INLINE_DENTRY d' = FI_INLINE_DENTRY d \<and> i_inline d' = i_inline d \<and>
     MAX_INLINE_DATA d' = MAX_INLINE_DATA d \<and> clevel d' = clevel d \<and> dir_task d' = dir_task d"

definition grown :: "dir_inode \<Rightarrow> dir_inode \<Rightarrow> bool" where
  "grown d' d \<longleftrightarrow> same_head d' d \<and> i_current_depth d' = i_current_depth d \<and> i_size d \<le> i_size d' \<and>
     (\<forall>b pg. i_pages d b = Some pg \<longrightarrow> i_pages d' b = Some pg) \<and>
     (\<forall>b pg. i_pages d' b = Some pg \<longrightarrow> i_pages d b = Some pg \<or> i_pages d b = None \<and> pg = zero_block \<and> b < 2 ^ 31 \<and> push_bit PAGE_SHIFT (b + 1) \<le> i_size d')"

lemma grown_refl [simp]: "grown d d"
  by (simp add: grown_def same_head_def)

lemma grownD:
  assumes "grown d' d"
  shows "i_pages d b = Some pg \<Longrightarrow> i_pages d' b = Some pg"
    "i_pages d' b = Some pg \<Longrightarrow> i_pages d b = Some pg \<or> i_pages d b = None \<and> pg = zero_block \<and> b < 2 ^ 31 \<and> push_bit PAGE_SHIFT (b + 1) \<le> i_size d'"
    "i_size d \<le> i_size d'"
  using assms unfolding grown_def by blast+

lemma grown_trans:
  assumes 1: "grown a b" and 2: "grown b c"
  shows "grown a c"
  unfolding grown_def
proof (intro conjI allI impI)
  show "same_head a c" "i_current_depth a = i_current_depth c" "i_size c \<le> i_size a" using 1 2 by (simp_all add: grown_def same_head_def)
  show "i_pages a k = Some pg" if "i_pages c k = Some pg" for k pg by (rule grownD(1) [OF 1 grownD(1) [OF 2 that]])
  fix k pg assume a: "i_pages a k = Some pg"
  have no: "i_pages c k = None" if "i_pages b k = None" using grownD(1) [OF 2, of k] that by (cases "i_pages c k") auto
  from grownD(2) [OF 1 a]
  show "i_pages c k = Some pg \<or> i_pages c k = None \<and> pg = zero_block \<and> k < 2 ^ 31 \<and> push_bit PAGE_SHIFT (k + 1) \<le> i_size a"
  proof
    assume "i_pages b k = Some pg"
    from grownD(2) [OF 2 this] grownD(3) [OF 1] show ?thesis by (meson le_trans)
  qed (use no in blast)
qed

lemma blk_ok_mono: "blk_ok dl depth sz b pg \<Longrightarrow> depth \<le> depth' \<Longrightarrow> sz \<le> sz' \<Longrightarrow> blk_ok dl depth' sz' b pg"
  unfolding blk_ok_def in_bucket_def by (meson le_trans less_le_trans)

lemma zero_blk_ok: "b < 2 ^ 31 \<Longrightarrow> push_bit PAGE_SHIFT (b + 1) \<le> sz \<Longrightarrow> blk_ok dl depth sz b zero_block"
  by (simp add: blk_ok_def zero_block_ok)

lemma grown_ok:
  assumes g: "grown d' d" and ok: "hash_ok d"
  shows "hash_ok d'" "page_set (i_pages d') = page_set (i_pages d)"
proof -
  have new: "i_pages d b = Some pg \<or> pg = zero_block \<and> b < 2 ^ 31 \<and> push_bit PAGE_SHIFT (b + 1) \<le> i_size d'" if "i_pages d' b = Some pg" for b pg
    using g that unfolding grown_def by blast
  have G: "i_size d \<le> i_size d'" "i_dir_level d' = i_dir_level d" "i_current_depth d' = i_current_depth d" "clevel d' = clevel d"
    using g by (simp_all add: grown_def same_head_def)
  have blk: "blk_ok (i_dir_level d') (i_current_depth d') (i_size d') b pg" if "i_pages d' b = Some pg" for b pg
    using new [OF that] hash_okD(3) [OF ok, of b pg] zero_blk_ok blk_ok_mono G by fastforce
  have "uniq (i_pages d')"
    using hash_okD(4) [OF ok] new zero_block_ok(2) unfolding uniq_def by (metis empty_iff)
  then show "hash_ok d'" using blk hash_okD(1,2) [OF ok] G unfolding hash_ok_def by simp
  have s: "blk_set zero_block = {}" by (simp add: blk_set_def zero_block_ok(2))
  show "page_set (i_pages d') = page_set (i_pages d)"
  proof
    show "page_set (i_pages d') \<subseteq> page_set (i_pages d)"
    proof
      fix x assume "x \<in> page_set (i_pages d')"
      then obtain b pg where pg: "i_pages d' b = Some pg" "x \<in> blk_set pg" by (auto simp: page_set_def ran_def)
      then have "i_pages d b = Some pg" using new [OF pg(1)] s by auto
      then show "x \<in> page_set (i_pages d)" using pg(2) by (auto simp: page_set_def ran_def)
    qed
    show "page_set (i_pages d) \<subseteq> page_set (i_pages d')" using g unfolding page_set_def ran_def grown_def by blast
  qed
qed

lemma get_new_page_ok:
  assumes io: "io_ok io" and f: "get_new_data_page io b d = (r, d')"
  shows "grown d' d" "r = Inr pg \<Longrightarrow> i_pages d' b = Some pg"
proof -
  have "grown d' d \<and> (\<forall>pg. r = Inr pg \<longrightarrow> i_pages d' b = Some pg)"
  proof (cases "alloc_err io b")
    case (Some e)
    then show ?thesis using f by (auto simp: get_new_data_page_def)
  next
    case None
    then have "b < 2 ^ 31" using io_okD(3) [OF io, of b] by (meson not_less)
    then show ?thesis using f None by (auto simp: get_new_data_page_def Let_def grown_def same_head_def split: if_splits option.splits)
  qed
  then show "grown d' d" "r = Inr pg \<Longrightarrow> i_pages d' b = Some pg" by blast+
qed

lemma add_blocks_ok:
  assumes io: "io_ok io" and s: "0 < slots" and ok: "hash_ok d" and f: "add_blocks io slots bs d = (r, d')"
  shows "grown d' d \<and> (\<forall>b pos. r = Inr (Some (b, pos)) \<longrightarrow> b \<in> set bs \<and> (\<exists>pg. i_pages d' b = Some pg \<and> free_run pg pos slots))"
  using ok f
proof (induction bs arbitrary: d)
  case Nil
  then show ?case by auto
next
  case (Cons b bs)
  obtain q d1 where g: "get_new_data_page io b d = (q, d1)" by fastforce
  note G = get_new_page_ok [OF io g]
  have ok1: "hash_ok d1" by (rule grown_ok(1) [OF G(1) Cons.prems(1)])
  show ?case
  proof (cases q)
    case (Inl e)
    then show ?thesis using Cons.prems(2) g G(1) by auto
  next
    case (Inr pg)
    have pg: "i_pages d1 b = Some pg" by (rule G(2) [OF Inr])
    have mx: "d_max pg = NR_DENTRY_IN_BLOCK" using hash_okD(3) [OF ok1 pg] by (simp add: blk_ok_def)
    let ?r = "room_for_filename (d_bitmap pg) slots NR_DENTRY_IN_BLOCK"
    show ?thesis
    proof (cases "?r < NR_DENTRY_IN_BLOCK")
      case True
      then have "r = Inr (Some (b, ?r))" "d' = d1" using Cons.prems(2) g Inr by (simp_all add: Let_def)
      moreover have "free_run pg ?r slots" using room_ok(1) [OF s, of pg] True mx by simp
      ultimately show ?thesis using G(1) pg by simp
    next
      case False
      then have "add_blocks io slots bs d1 = (r, d')" using Cons.prems(2) g Inr by (simp add: Let_def)
      from Cons.IH [OF ok1 this] G(1) show ?thesis using grown_trans by fastforce
    qed
  qed
qed

lemma add_blocks_err: "add_blocks io slots bs d = (Inl e, d') \<Longrightarrow> \<exists>b. alloc_err io b = Some e"
  by (induction bs arbitrary: d) (auto simp: get_new_data_page_def Let_def split: option.splits if_splits)

lemma add_loop_ok:
  assumes io: "io_ok io" and s: "0 < slots" and ok: "hash_ok d" and l: "level \<le> depth" "depth \<le> MAX_DIR_HASH_DEPTH"
  shows "\<exists>r d'. add_loop io slots h level depth d = Some (r, d') \<and> grown d' d \<and> r \<noteq> Inl EAGAIN \<and>
    (\<forall>b pos depth'. r = Inr (b, pos, depth') \<longrightarrow> depth \<le> depth' \<and> depth' \<le> MAX_DIR_HASH_DEPTH \<and> in_bucket (i_dir_level d) depth' h b \<and>
       (\<exists>pg. i_pages d' b = Some pg \<and> free_run pg pos slots))"
  using ok l
proof (induction "MAX_DIR_HASH_DEPTH - level" arbitrary: level depth d rule: less_induct)
  case less
  show ?case
  proof (cases "depth = MAX_DIR_HASH_DEPTH")
    case True
    then have "add_loop io slots h level depth d = Some (Inl ENOSPC, d)" by (subst add_loop.simps) simp
    then show ?thesis by simp
  next
    case False
    let ?dep = "if level = depth then depth + 1 else depth"
    let ?i0 = "dir_block_index level (i_dir_level d) (unat h mod dir_buckets level (i_dir_level d))"
    obtain q d1 where a: "add_blocks io slots [?i0..<?i0 + bucket_blocks level] d = (q, d1)" by fastforce
    note A = add_blocks_ok [OF io s less.prems(1) a]
    have eq: "add_loop io slots h level depth d = (case (q, d1) of (Inl e, d) \<Rightarrow> Some (Inl e, d)
           | (Inr (Some (block, bit_pos)), d) \<Rightarrow> Some (Inr (block, bit_pos, ?dep), d)
           | (Inr None, d) \<Rightarrow> add_loop io slots h (level + 1) ?dep d)"
      unfolding add_loop.simps [of io slots h level depth d] Let_def a using False by simp
    have dep: "depth \<le> ?dep" "?dep \<le> MAX_DIR_HASH_DEPTH" "level < ?dep" using less.prems(2,3) False by auto
    show ?thesis
    proof (cases q)
      case (Inl e)
      then show ?thesis using eq A add_blocks_err [OF a [unfolded Inl]] io_okD(4) [OF io] by auto
    next
      case q: (Inr o1)
      show ?thesis
      proof (cases o1)
        case None
        have d1: "i_dir_level d1 = i_dir_level d" using A by (simp add: grown_def same_head_def)
        have "MAX_DIR_HASH_DEPTH - (level + 1) < MAX_DIR_HASH_DEPTH - level" "level + 1 \<le> ?dep" using dep by auto
        from less.hyps [OF this(1) grown_ok(1) [OF conjunct1 [OF A] less.prems(1)] this(2) dep(2)] d1
        obtain r d' where R: "add_loop io slots h (level + 1) ?dep d1 = Some (r, d')" "grown d' d1" "r \<noteq> Inl EAGAIN"
          "\<And>b pos depth'. r = Inr (b, pos, depth') \<Longrightarrow> ?dep \<le> depth' \<and> depth' \<le> MAX_DIR_HASH_DEPTH \<and> in_bucket (i_dir_level d) depth' h b \<and>
             (\<exists>pg. i_pages d' b = Some pg \<and> free_run pg pos slots)" by auto
        have "add_loop io slots h level depth d = Some (r, d')" using eq q None R(1) by simp
        moreover have "grown d' d" using grown_trans [OF R(2)] A by blast
        ultimately show ?thesis using R(3,4) dep(1) by (meson le_trans)
      next
        case (Some bp)
        obtain b pos where bp: "bp = (b, pos)" by fastforce
        have B: "b \<in> set [?i0..<?i0 + bucket_blocks level]" "\<exists>pg. i_pages d1 b = Some pg \<and> free_run pg pos slots" using A q Some bp by blast+
        then have "in_bucket (i_dir_level d) ?dep h b" unfolding in_bucket_def using dep(3) by auto
        moreover have "add_loop io slots h level depth d = Some (Inr (b, pos, ?dep), d1)" using eq q Some bp by simp
        ultimately show ?thesis using A B dep(1,2) by auto
      qed
    qed
  qed
qed

definition ft_of :: "u16 \<Rightarrow> u8" where
  "ft_of mode = file_type (set_de_type mode zero_de)"

lemma file_type_set [simp]: "file_type (set_de_type mode e) = ft_of mode" "de_ino (set_de_type mode e) = de_ino e" "hash_code (set_de_type mode e) = hash_code e"
  by (simp_all add: ft_of_def set_de_type_def)

lemma blk_set_update:
  assumes ok: "dent_ok pg" and n: "name \<noteq> []" "length name < 2 ^ 16" and fr: "free_run pg pos (GET_DENTRY_SLOTS (length name))"
  shows "blk_set (f2fs_update_dentry ino mode name h pos pg) = insert (name, ino, ft_of mode) (blk_set pg)"
proof -
  note U = update_dentry_ok [OF ok n fr, where ino = ino and mode = mode and h = h]
  have "(\<lambda>p. (de_name (f2fs_update_dentry ino mode name h pos pg) p, de_ino (de_at (f2fs_update_dentry ino mode name h pos pg) p),
      file_type (de_at (f2fs_update_dentry ino mode name h pos pg) p))) ` heads pg = blk_set pg"
    unfolding blk_set_def using U(6) by (intro image_cong) simp_all
  then show ?thesis unfolding blk_set_def [of "f2fs_update_dentry ino mode name h pos pg"] U(2) image_insert U(4,5) by simp
qed

definition dir_names :: "(nat \<rightharpoonup> f2fs_dentry_ptr) \<Rightarrow> u8 list set" where
  "dir_names pages = fst ` page_set pages"

lemma in_dir_names: "name \<in> dir_names pages \<longleftrightarrow> (\<exists>b pg p. pages b = Some pg \<and> p \<in> heads pg \<and> de_name pg p = name)"
  by (force simp: dir_names_def page_set_def blk_set_def ran_def)

lemma page_set_at: "pages b = Some pg \<Longrightarrow> page_set pages = blk_set pg \<union> page_set (pages(b := None))"
proof -
  assume b: "pages b = Some pg"
  have "x \<in> page_set pages \<longleftrightarrow> x \<in> blk_set pg \<or> x \<in> page_set (pages(b := None))" for x
  proof
    assume "x \<in> page_set pages"
    then obtain c pc where c: "pages c = Some pc" "x \<in> blk_set pc" by (auto simp: page_set_def ran_def)
    show "x \<in> blk_set pg \<or> x \<in> page_set (pages(b := None))"
    proof (cases "c = b")
      case False
      then have "(pages(b := None)) c = Some pc" using c(1) by simp
      then show ?thesis using c(2) unfolding page_set_def ran_def by blast
    qed (use c b in simp)
  next
    assume "x \<in> blk_set pg \<or> x \<in> page_set (pages(b := None))"
    then show "x \<in> page_set pages" using b by (auto simp: page_set_def ran_def split: if_splits)
  qed
  then show ?thesis by blast
qed

lemma page_update_ok:
  fixes ino :: u32 and mode :: u16
  assumes ok: "hash_ok d" and dep: "i_current_depth d \<le> depth" "depth \<le> MAX_DIR_HASH_DEPTH" and pg: "i_pages d b = Some pg"
    and n: "name \<noteq> []" "length name < 2 ^ 16" "name \<notin> dir_names (i_pages d)" and fr: "free_run pg pos (GET_DENTRY_SLOTS (length name))"
    and bk: "in_bucket (i_dir_level d) depth (name_hash name) b"
  defines "d' \<equiv> d\<lparr>i_pages := (i_pages d)(b \<mapsto> f2fs_update_dentry ino mode name (name_hash name) pos pg)\<rparr>\<lparr>i_current_depth := depth\<rparr>"
  shows "hash_ok d'" "page_set (i_pages d') = insert (name, ino, ft_of mode) (page_set (i_pages d))"
proof -
  define pg' where "pg' = f2fs_update_dentry ino mode name (name_hash name) pos pg"
  have B: "blk_ok (i_dir_level d) (i_current_depth d) (i_size d) b pg" by (rule hash_okD(3) [OF ok pg])
  then have de: "dent_ok pg" by (simp add: blk_ok_def)
  note U = update_dentry_ok [OF de n(1,2) fr, where ino = ino and mode = mode and h = "name_hash name", folded pg'_def]
  note S = blk_set_update [OF de n(1,2) fr, where ino = ino and mode = mode and h = "name_hash name", folded pg'_def]
  have pages: "i_pages d' = (i_pages d)(b \<mapsto> pg')" by (simp add: d'_def pg'_def)
  have B': "blk_ok (i_dir_level d) depth (i_size d) b pg'"
  proof -
    have "hash_code (de_at pg' p) = name_hash (de_name pg' p) \<and> in_bucket (i_dir_level d) depth (hash_code (de_at pg' p)) b" if "p \<in> heads pg'" for p
    proof (cases "p = pos")
      case True
      then show ?thesis using U(4,5) bk by simp
    next
      case False
      then have p: "p \<in> heads pg" using that U(2) by simp
      show ?thesis using blk_ok_mono [OF B dep(1) order_refl] U(6) [OF p] p unfolding blk_ok_def by metis
    qed
    then show ?thesis using B U(1,3) unfolding blk_ok_def by metis
  qed
  have other: "\<not> (p \<in> heads pc \<and> de_name pc p = name)" if "i_pages d c = Some pc" for c pc p
    using n(3) that unfolding in_dir_names by blast
  have old: "c = b \<and> pc = pg' \<and> p = pos \<and> de_name pc p = name \<or> (\<exists>po. i_pages d c = Some po \<and> p \<in> heads po \<and> de_name po p = de_name pc p)"
    if "i_pages d' c = Some pc" "p \<in> heads pc" for c pc p
    using that U(2,4,6) pg unfolding pages by (auto split: if_splits)
  have "uniq (i_pages d')" unfolding uniq_def
  proof (intro allI impI)
    fix c1 p1 q1 c2 p2 q2
    assume a: "i_pages d' c1 = Some p1" "q1 \<in> heads p1" "i_pages d' c2 = Some p2" "q2 \<in> heads p2" "de_name p1 q1 = de_name p2 q2"
    show "c1 = c2 \<and> q1 = q2" using old [OF a(1,2)] old [OF a(3,4)] other a(5) hash_okD(4) [OF ok] unfolding uniq_def by metis
  qed
  moreover have "blk_ok (i_dir_level d) depth (i_size d) c pc" if "i_pages d' c = Some pc" for c pc
    using that B' blk_ok_mono [OF hash_okD(3) [OF ok] dep(1) order_refl] unfolding pages by (auto split: if_splits)
  ultimately show "hash_ok d'" using hash_okD(2) [OF ok] dep unfolding hash_ok_def by (simp add: d'_def)
  show "page_set (i_pages d') = insert (name, ino, ft_of mode) (page_set (i_pages d))"
  proof -
    have 1: "page_set (i_pages d') = blk_set pg' \<union> page_set ((i_pages d)(b := None))"
      using page_set_at [where pages = "i_pages d'" and b = b and pg = pg'] by (simp add: pages)
    note 2 = page_set_at [where pages = "i_pages d", OF pg]
    show ?thesis unfolding 1 2 S by simp
  qed
qed

section \<open>Adding an entry\<close>

lemma f2fs_add_regular_entry_ok:
  assumes io: "io_ok io" and ok: "hash_ok d" and n: "name \<noteq> []" "length name < 2 ^ 16" "name \<notin> dir_names (i_pages d)"
  shows "\<exists>r d'. f2fs_add_regular_entry io name inode ino mode d = Some (r, d') \<and> hash_ok d' \<and>
    FI_INLINE_DENTRY d' = FI_INLINE_DENTRY d \<and> i_inline d' = i_inline d \<and> MAX_INLINE_DATA d' = MAX_INLINE_DATA d \<and> clevel d' = clevel d \<and> dir_task d' = dir_task d \<and> r \<noteq> Some EAGAIN \<and>
    page_set (i_pages d') = (if r = None then insert (name, ino, ft_of mode) (page_set (i_pages d)) else page_set (i_pages d))"
proof -
  let ?s = "GET_DENTRY_SLOTS (length name)"
  define lev where "lev = (if chash d = name_hash name then clevel d else 0)"
  define d0 where "d0 = (if chash d = name_hash name then d\<lparr>chash := 0\<rparr> else d)"
  have d0: "i_pages d0 = i_pages d" "i_dir_level d0 = i_dir_level d" "i_current_depth d0 = i_current_depth d" "hash_ok d0"
    "FI_INLINE_DENTRY d0 = FI_INLINE_DENTRY d" "i_inline d0 = i_inline d" "MAX_INLINE_DATA d0 = MAX_INLINE_DATA d" "clevel d0 = clevel d" "dir_task d0 = dir_task d"
    using ok by (simp_all add: d0_def hash_ok_def)
  have lv: "lev \<le> i_current_depth d" "i_current_depth d \<le> MAX_DIR_HASH_DEPTH" using hash_okD(1,2) [OF ok] by (simp_all add: lev_def)
  have s: "0 < ?s" using n(1) by (intro slots_pos) simp
  obtain q d1 where L: "add_loop io ?s (name_hash name) lev (i_current_depth d) d0 = Some (q, d1)" "grown d1 d0" "q \<noteq> Inl EAGAIN"
    "\<And>b pos depth'. q = Inr (b, pos, depth') \<Longrightarrow> i_current_depth d \<le> depth' \<and> depth' \<le> MAX_DIR_HASH_DEPTH \<and>
       in_bucket (i_dir_level d) depth' (name_hash name) b \<and> (\<exists>pg. i_pages d1 b = Some pg \<and> free_run pg pos ?s)"
    using add_loop_ok [OF io s d0(4) lv, of "name_hash name"] d0(2) by auto
  note G = grown_ok [OF L(2) d0(4)]
  have h: "i_dir_level d1 = i_dir_level d" "i_current_depth d1 = i_current_depth d" "FI_INLINE_DENTRY d1 = FI_INLINE_DENTRY d"
    "i_inline d1 = i_inline d" "MAX_INLINE_DATA d1 = MAX_INLINE_DATA d" "clevel d1 = clevel d" "dir_task d1 = dir_task d" using L(2) d0 by (simp_all add: grown_def same_head_def)
  have ps: "page_set (i_pages d1) = page_set (i_pages d)" using G(2) d0(1) by simp
  have pair: "(if chash d = name_hash name then (clevel d, d\<lparr>chash := 0\<rparr>) else (0, d)) = (lev, d0)" by (simp add: lev_def d0_def)
  have eq: "f2fs_add_regular_entry io name inode ino mode d = (case Some (q, d1) of None \<Rightarrow> None
         | Some (Inl e, d) \<Rightarrow> Some (Some e, d)
         | Some (Inr (block, bit_pos, current_depth), d) \<Rightarrow>
             if inode \<and> meta_err io \<noteq> None then Some (meta_err io, d)
             else Some (None, d\<lparr>i_pages := (i_pages d)(block \<mapsto> f2fs_update_dentry ino mode name (name_hash name) bit_pos
               (case i_pages d block of Some pg \<Rightarrow> pg | None \<Rightarrow> zero_block))\<rparr>\<lparr>i_current_depth := current_depth\<rparr>))"
    unfolding f2fs_add_regular_entry_def Let_def pair prod.case L(1) ..
  show ?thesis
  proof (cases q)
    case (Inl e)
    then show ?thesis using eq G(1) ps h L(3) by simp
  next
    case (Inr t)
    obtain b pos depth' where t: "t = (b, pos, depth')" by (cases t) auto
    have Q: "i_current_depth d1 \<le> depth'" "depth' \<le> MAX_DIR_HASH_DEPTH" "in_bucket (i_dir_level d1) depth' (name_hash name) b"
      using L(4) Inr t h(1,2) by simp_all
    obtain pg where pg: "i_pages d1 b = Some pg" "free_run pg pos ?s" using L(4) Inr t by blast
    have nn: "name \<notin> dir_names (i_pages d1)" using n(3) ps by (simp add: dir_names_def)
    show ?thesis
    proof (cases "inode \<and> meta_err io \<noteq> None")
      case True
      then obtain e where "meta_err io = Some e" by auto
      then have e: "f2fs_add_regular_entry io name inode ino mode d = Some (Some e, d1)" unfolding eq Inr t using True by simp
      show ?thesis unfolding e using G(1) ps h io_okD(5) [OF io] \<open>meta_err io = Some e\<close> by simp
    next
      case False
      note P = page_update_ok [OF G(1) Q(1,2) pg(1) n(1,2) nn pg(2) Q(3), of ino mode]
      have e: "f2fs_add_regular_entry io name inode ino mode d = Some (None, d1\<lparr>i_pages := (i_pages d1)(b \<mapsto> f2fs_update_dentry ino mode name (name_hash name) pos pg)\<rparr>
          \<lparr>i_current_depth := depth'\<rparr>)" unfolding eq Inr t using False pg(1) by auto
      show ?thesis unfolding e using P ps h by simp
    qed
  qed
qed

end
