(* ===== verification/Dir_Inline.thy ===== *)
theory Dir_Inline
  imports Dir_Hash
begin

text \<open>
  Directories inside the inode (\<^verbatim>\<open>inline.c\<close>): adding an entry, and moving the entries to blocks when there is no room. Without a
  directory level the bits, entries and names are copied to the first block; with one the first level has several buckets, so every entry is
  added again, and on an error the inode is restored from a copy.
\<close>

section \<open>Operations\<close>

definition truncate_inline_inode :: "dir_inode \<Rightarrow> dir_inode" where
  "truncate_inline_inode d = d\<lparr>i_inline := (i_inline d)\<lparr>d_bitmap := replicate (length (d_bitmap (i_inline d))) 0,
     d_dentry := replicate (length (d_dentry (i_inline d))) zero_de, d_filename := replicate (length (d_filename (i_inline d))) 0\<rparr>\<rparr>"

text \<open>\<open>fresh_page\<close> is a new page of the page cache, whose contents are not defined where nothing is copied.\<close>

definition f2fs_move_inline_dirents :: "dir_io \<Rightarrow> dir_inode \<Rightarrow> errno option \<times> dir_inode" where
  "f2fs_move_inline_dirents io d =
     (if mem_err io then (Some ENOMEM, d)
      else case alloc_err io 0 of Some e \<Rightarrow> (Some e, d)
      | None \<Rightarrow>
          let src = i_inline d; dst = fresh_page io;
              dst = dst\<lparr>d_bitmap := take (d_nr_bitmap src) (d_bitmap src) @ replicate (d_nr_bitmap dst - d_nr_bitmap src) 0,
                        d_dentry := take (d_max src) (d_dentry src) @ drop (d_max src) (d_dentry dst),
                        d_filename := take (d_max src * F2FS_SLOT_LEN) (d_filename src) @ drop (d_max src * F2FS_SLOT_LEN) (d_filename dst)\<rparr>;
              d = truncate_inline_inode (d\<lparr>i_pages := (i_pages d)(0 \<mapsto> dst)\<rparr>);
              d = d\<lparr>FI_INLINE_DENTRY := False, i_current_depth := 1\<rparr>
          in (None, if i_size d < 2 ^ PAGE_SHIFT then d\<lparr>i_size := 2 ^ PAGE_SHIFT\<rparr> else d))"

function add_inline_loop :: "dir_io \<Rightarrow> f2fs_dentry_ptr \<Rightarrow> nat \<Rightarrow> dir_inode \<Rightarrow> (errno option \<times> dir_inode) option" where
  "add_inline_loop io src bit_pos d =
     (if bit_pos < d_max src then
        if \<not> test_bit_le bit_pos (d_bitmap src) then add_inline_loop io src (bit_pos + 1) d
        else
          let de = de_at src bit_pos
          in if name_len de = 0 then add_inline_loop io src (bit_pos + 1) d
             else case f2fs_add_regular_entry io (de_name src bit_pos) False (de_ino de) (push_bit S_SHIFT (ucast (get_de_type de))) d of
                 None \<Rightarrow> None
               | Some (Some e, d) \<Rightarrow> Some (Some e, d\<lparr>i_pages := Map.empty\<rparr>)
               | Some (None, d) \<Rightarrow> add_inline_loop io src (bit_pos + GET_DENTRY_SLOTS (unat (name_len de))) d
      else Some (None, d))"
  by auto
termination
proof (relation "measure (\<lambda>(io, src, bit_pos, d). d_max src - bit_pos)", goal_cases)
  case (4 io src bit_pos d x)
  then show ?case using slots_pos [of "unat (name_len x)"] by (auto simp: unat_eq_zero)
qed auto

definition f2fs_add_inline_entries :: "dir_io \<Rightarrow> f2fs_dentry_ptr \<Rightarrow> dir_inode \<Rightarrow> (errno option \<times> dir_inode) option" where
  "f2fs_add_inline_entries io src d = add_inline_loop io src 0 d"

definition f2fs_move_rehashed_dirents :: "dir_io \<Rightarrow> dir_inode \<Rightarrow> (errno option \<times> dir_inode) option" where
  "f2fs_move_rehashed_dirents io d =
     (if mem_err io then Some (Some ENOMEM, d)
      else
        let backup = i_inline d
        in case f2fs_add_inline_entries io backup (truncate_inline_inode d) of
             None \<Rightarrow> None
           | Some (Some e, d) \<Rightarrow> Some (Some e, d\<lparr>i_inline := backup, i_current_depth := 0, i_size := MAX_INLINE_DATA d\<rparr>)
           | Some (None, d) \<Rightarrow> Some (None, d\<lparr>FI_INLINE_DENTRY := False\<rparr>))"

definition f2fs_convert_inline_dir :: "dir_io \<Rightarrow> dir_inode \<Rightarrow> (errno option \<times> dir_inode) option" where
  "f2fs_convert_inline_dir io d = (if i_dir_level d = 0 then Some (f2fs_move_inline_dirents io d) else f2fs_move_rehashed_dirents io d)"

definition f2fs_add_inline_entry :: "dir_io \<Rightarrow> u8 list \<Rightarrow> bool \<Rightarrow> u32 \<Rightarrow> u16 \<Rightarrow> dir_inode \<Rightarrow> (errno option \<times> dir_inode) option" where
  "f2fs_add_inline_entry io new_name inode ino mode d =
     (let slots = GET_DENTRY_SLOTS (length new_name)
      in case node_err io of Some e \<Rightarrow> Some (Some e, d)
         | None \<Rightarrow>
             let bit_pos = room_for_filename (d_bitmap (i_inline d)) slots (d_max (i_inline d))
             in if bit_pos \<ge> d_max (i_inline d) then
                  case f2fs_convert_inline_dir io d of
                    None \<Rightarrow> None
                  | Some (Some e, d) \<Rightarrow> Some (Some e, d)
                  | Some (None, d) \<Rightarrow> Some (Some EAGAIN, d)
                else if inode \<and> meta_err io \<noteq> None then Some (meta_err io, d)
                else Some (None, d\<lparr>i_inline := f2fs_update_dentry ino mode new_name (name_hash new_name) bit_pos (i_inline d), i_current_depth := 0\<rparr>))"

definition f2fs_delete_inline_entry :: "nat \<Rightarrow> dir_inode \<Rightarrow> dir_inode" where
  "f2fs_delete_inline_entry bit_pos d = d\<lparr>i_inline := clear_dentry bit_pos (i_inline d)\<rparr>"

definition make_empty_inline_dir :: "u32 \<Rightarrow> u16 \<Rightarrow> u32 \<Rightarrow> u16 \<Rightarrow> dir_inode \<Rightarrow> dir_inode" where
  "make_empty_inline_dir ino mode pino pmode d =
     (let d = d\<lparr>i_inline := do_make_empty_dir ino mode pino pmode (i_inline d)\<rparr>
      in if i_size d < MAX_INLINE_DATA d then d\<lparr>i_size := MAX_INLINE_DATA d\<rparr> else d)"

definition f2fs_empty_inline_dir :: "dir_io \<Rightarrow> dir_inode \<Rightarrow> bool" where
  "f2fs_empty_inline_dir io d =
     (case node_err io of Some e \<Rightarrow> False | None \<Rightarrow> find_next_bit_le (d_bitmap (i_inline d)) (d_max (i_inline d)) 2 \<ge> d_max (i_inline d))"

section \<open>File types survive\<close>

lemma ft_of_get_de_type: "file_type e < F2FS_FT_MAX \<Longrightarrow> ft_of (push_bit S_SHIFT (ucast (get_de_type e))) = file_type e"
proof -
  assume "file_type e < F2FS_FT_MAX"
  then have l: "unat (file_type e) < 8" by (simp add: F2FS_FT_MAX_def word_less_nat_alt)
  then have "unat (file_type e) \<in> {0, 1, 2, 3, 4, 5, 6, 7}" by auto
  then have "file_type e \<in> {0, 1, 2, 3, 4, 5, 6, 7}" by (auto simp: word_unat_eq_iff)
  then show ?thesis
    by (elim insertE emptyE) (simp_all add: ft_of_def set_de_type_def get_de_type_def F2FS_FT_MAX_def f2fs_filetype_table_def f2fs_type_by_mode_def S_SHIFT_def S_IFMT_def)
qed

lemma ft_of_less: "ft_of mode < F2FS_FT_MAX"
proof -
  have "\<forall>x \<in> set f2fs_type_by_mode. x < F2FS_FT_MAX" by (simp add: f2fs_type_by_mode_def F2FS_FT_MAX_def)
  then show ?thesis by (auto simp: ft_of_def set_de_type_def arr_get_def F2FS_FT_MAX_def)
qed

section \<open>Moving the entries to the first block\<close>

lemma inline_okD:
  assumes "inline_ok d"
  shows "dent_ok (i_inline d)" "p \<in> heads (i_inline d) \<Longrightarrow> hash_code (de_at (i_inline d) p) = name_hash (de_name (i_inline d) p)"
    "p \<in> heads (i_inline d) \<Longrightarrow> file_type (de_at (i_inline d) p) < F2FS_FT_MAX" "inj_on (de_name (i_inline d)) (heads (i_inline d))"
    "d_max (i_inline d) \<le> i \<Longrightarrow> \<not> used (i_inline d) i" "d_max (i_inline d) = NR_INLINE_DENTRY (MAX_INLINE_DATA d)"
    "d_nr_bitmap (i_inline d) = INLINE_DENTRY_BITMAP_SIZE (MAX_INLINE_DATA d)" "length (d_bitmap (i_inline d)) = d_nr_bitmap (i_inline d)"
    "MAX_INLINE_DATA d \<le> 3688" "i_pages d = Map.empty" "clevel d = 0" "i_current_depth d \<le> 1"
  using assms unfolding inline_ok_def by blast+

lemma inline_sizes:
  assumes "n \<le> 3688"
  shows "NR_INLINE_DENTRY n \<le> NR_DENTRY_IN_BLOCK" "INLINE_DENTRY_BITMAP_SIZE n \<le> SIZE_OF_DENTRY_BITMAP"
proof -
  have "n * 8 div 153 \<le> 29504 div 153" using assms by (intro div_le_mono) simp
  then have n: "NR_INLINE_DENTRY n \<le> 192" by (simp add: NR_INLINE_DENTRY_def SIZE_OF_DIR_ENTRY_def F2FS_SLOT_LEN_def)
  then show "NR_INLINE_DENTRY n \<le> NR_DENTRY_IN_BLOCK" by (simp add: NR_DENTRY_IN_BLOCK_def)
  have "(NR_INLINE_DENTRY n + 8 - 1) div 8 \<le> 199 div 8" using n by (intro div_le_mono) simp
  then show "INLINE_DENTRY_BITMAP_SIZE n \<le> SIZE_OF_DENTRY_BITMAP"
    by (simp add: INLINE_DENTRY_BITMAP_SIZE_def SIZE_OF_DENTRY_BITMAP_def NR_DENTRY_IN_BLOCK_def)
qed

text \<open>A block whose first slots are those of another block, the others being free, has the same entries.\<close>

lemma copied_block:
  assumes ok: "dent_ok src" and sh: "block_shape dst" and m: "d_max src \<le> d_max dst" and u: "\<And>i. used dst i = used src i"
    and free: "\<And>i. d_max src \<le> i \<Longrightarrow> \<not> used src i" and de: "\<And>p. p < d_max src \<Longrightarrow> de_at dst p = de_at src p"
    and fn: "take (d_max src * F2FS_SLOT_LEN) (d_filename dst) = take (d_max src * F2FS_SLOT_LEN) (d_filename src)"
  shows "dent_ok dst" "heads dst = heads src" "p \<in> heads src \<Longrightarrow> de_name dst p = de_name src p" "p \<in> heads src \<Longrightarrow> de_at dst p = de_at src p"
proof -
  have lt: "p < d_max src" if "used src p" for p using free that not_less by blast
  have eq: "de_at dst p = de_at src p" if "used src p" for p by (rule de [OF lt [OF that]])
  show hd: "heads dst = heads src"
  proof (intro set_eqI)
    fix p show "p \<in> heads dst \<longleftrightarrow> p \<in> heads src"
      using u [of p] eq [of p] lt [of p] m by (cases "used src p") (auto simp: heads_def)
  qed
  have sl: "de_slots dst p = de_slots src p" "de_at dst p = de_at src p" if "p \<in> heads src" for p
    using eq [of p] that by (simp_all add: heads_def de_slots_def)
  show "p \<in> heads src \<Longrightarrow> de_at dst p = de_at src p" by (rule sl(2))
  show "de_name dst p = de_name src p" if p: "p \<in> heads src"
  proof -
    let ?k = "unat (name_len (de_at src p))"
    have "p * F2FS_SLOT_LEN + ?k \<le> (p + de_slots src p) * F2FS_SLOT_LEN" using slots_bytes [of ?k] by (simp add: add_mult_distrib de_slots_def)
    also have "\<dots> \<le> d_max src * F2FS_SLOT_LEN" using dent_okD(2) [OF ok p] by (rule mult_le_mono1)
    finally have k: "p * F2FS_SLOT_LEN + ?k \<le> d_max src * F2FS_SLOT_LEN" .
    have "take ?k (drop (p * F2FS_SLOT_LEN) F) = take ?k (drop (p * F2FS_SLOT_LEN) (take (d_max src * F2FS_SLOT_LEN) F))" for F :: "u8 list"
      using k by (simp add: drop_take min_def)
    then show ?thesis using fn sl(2) [OF p] by (metis de_name_def)
  qed
  show "dent_ok dst" unfolding dent_ok_def hd
  proof (intro conjI ballI allI impI)
    show "block_shape dst" by (rule sh)
    fix p assume p: "p \<in> heads src"
    show "p + de_slots dst p \<le> d_max dst" using dent_okD(2) [OF ok p] sl(1) [OF p] m by simp
    show "used dst i" if "p \<le> i \<and> i < p + de_slots dst p" for i using that dent_okD(3) [OF ok p] sl(1) [OF p] u by simp
    show "p + de_slots dst p \<le> q" if "q \<in> heads src" "p < q" for q using dent_okD(4) [OF ok p that] sl(1) [OF p] by simp
  next
    fix i assume i: "i < d_max dst" "used dst i"
    then have "used src i" using u by simp
    then obtain p where "p \<in> heads src" "p \<le> i" "i < p + de_slots src p" using dent_okD(5) [OF ok lt] by blast
    then show "\<exists>p \<in> heads src. p \<le> i \<and> i < p + de_slots dst p" using sl(1) by auto
  qed
qed

lemma blk_set_cong: "heads a = heads b \<Longrightarrow> (\<And>p. p \<in> heads b \<Longrightarrow> de_name a p = de_name b p \<and> de_at a p = de_at b p) \<Longrightarrow> blk_set a = blk_set b"
  by (simp add: blk_set_def)

lemma bits_then_zeros: "test_bit_le i (xs @ replicate n 0) = test_bit_le i xs"
proof -
  have "arr_get 0 (xs @ replicate n 0) k = arr_get 0 xs k" for k by (auto simp: arr_get_def nth_append)
  then show ?thesis by (simp add: test_bit_le_def)
qed

lemma first_bucket: "in_bucket 0 1 h 0"
  by (auto simp: in_bucket_def dir_block_index_def dir_buckets_def bucket_blocks_def MAX_DIR_HASH_DEPTH_def)

lemma one_page: "page_set [b \<mapsto> pg] = blk_set pg" "inj_on (de_name pg) (heads pg) \<Longrightarrow> uniq [b \<mapsto> pg]"
  by (simp_all add: page_set_def uniq_def inj_on_def)

lemma io_okE:
  assumes "io_ok io"
  shows "alloc_err io b \<noteq> Some EAGAIN" "node_err io \<noteq> Some EAGAIN" "meta_err io \<noteq> Some EAGAIN"
    "block_shape (fresh_page io)" "d_max (fresh_page io) = NR_DENTRY_IN_BLOCK" "length (d_bitmap (fresh_page io)) = SIZE_OF_DENTRY_BITMAP"
    "d_nr_bitmap (fresh_page io) = SIZE_OF_DENTRY_BITMAP"
  using assms unfolding io_ok_def by blast+

lemma move_inline_dirents_ok:
  assumes io: "io_ok io" and ok: "inline_ok d" "FI_INLINE_DENTRY d" "i_dir_level d = 0" and f: "f2fs_move_inline_dirents io d = (r, d')"
  shows "r = None \<Longrightarrow> \<not> FI_INLINE_DENTRY d' \<and> hash_ok d' \<and> page_set (i_pages d') = blk_set (i_inline d)"
    "r = Some e \<Longrightarrow> d' = d \<and> e \<noteq> EAGAIN" "dir_task d' = dir_task d"
proof -
  show "dir_task d' = dir_task d"
    using f by (auto simp: f2fs_move_inline_dirents_def Let_def truncate_inline_inode_def split: if_splits option.splits)
  show "r = Some e \<Longrightarrow> d' = d \<and> e \<noteq> EAGAIN"
    using f io_okE(1) [OF io, of 0] by (auto simp: f2fs_move_inline_dirents_def Let_def split: if_splits option.splits)
  assume r: "r = None"
  define src where "src = i_inline d"
  define g where "g = fresh_page io"
  define dst where "dst = g\<lparr>d_bitmap := take (d_nr_bitmap src) (d_bitmap src) @ replicate (d_nr_bitmap g - d_nr_bitmap src) 0,
                        d_dentry := take (d_max src) (d_dentry src) @ drop (d_max src) (d_dentry g),
                        d_filename := take (d_max src * F2FS_SLOT_LEN) (d_filename src) @ drop (d_max src * F2FS_SLOT_LEN) (d_filename g)\<rparr>"
  have d': "i_pages d' = (i_pages d)(0 \<mapsto> dst)" "\<not> FI_INLINE_DENTRY d'" "i_current_depth d' = 1" "2 ^ PAGE_SHIFT \<le> i_size d'"
    "i_dir_level d' = 0" "clevel d' = clevel d"
    using f r ok(3) by (auto simp: f2fs_move_inline_dirents_def Let_def truncate_inline_inode_def dst_def src_def g_def split: if_splits option.splits)
  note I = inline_okD [OF ok(1), folded src_def]
  have sh: "block_shape src" by (rule dent_okD(1) [OF I(1)])
  have mx: "d_max src \<le> NR_DENTRY_IN_BLOCK" and nr: "d_nr_bitmap src \<le> SIZE_OF_DENTRY_BITMAP" using I(6,7) inline_sizes [OF I(9)] by simp_all
  note G = io_okE(4-7) [OF io, folded g_def]
  have bm: "d_bitmap dst = d_bitmap src @ replicate (d_nr_bitmap g - d_nr_bitmap src) 0" using I(8) by (simp add: dst_def)
  have shd: "block_shape dst"
    using G sh I(8) mx nr by (simp add: block_shape_def dst_def SIZE_OF_DENTRY_BITMAP_def NR_DENTRY_IN_BLOCK_def)
  have u: "used dst i = used src i" for i by (simp add: used_def bm bits_then_zeros)
  have de: "de_at dst p = de_at src p" if "p < d_max src" for p
    using that sh G mx by (simp add: de_at_def dst_def arr_get_def nth_append block_shape_def)
  have "take (d_max src * F2FS_SLOT_LEN) (d_filename dst) = take (d_max src * F2FS_SLOT_LEN) (d_filename src)"
    using sh by (simp add: dst_def block_shape_def)
  note C = copied_block [OF I(1) shd _ u I(5) de this]
  have mxd: "d_max dst = NR_DENTRY_IN_BLOCK" using G(2) by (simp add: dst_def)
  have m: "d_max src \<le> d_max dst" using mxd mx by simp
  have pages: "i_pages d' = [0 \<mapsto> dst]" using d'(1) I(10) by simp
  have "hash_code (de_at dst p) = name_hash (de_name dst p)" if "p \<in> heads dst" for p
    using that C(2-4) [OF m] I(2) by simp
  then have "blk_ok 0 1 (i_size d') 0 dst"
    using C(1) [OF m] mxd d'(4) first_bucket by (simp add: blk_ok_def push_bit_eq_mult)
  moreover have "inj_on (de_name dst) (heads dst)" using C(2,3) [OF m] I(4) by (simp add: inj_on_def)
  ultimately have "hash_ok d'" using d'(3,5,6) I(11) one_page(2) by (simp add: hash_ok_def pages MAX_DIR_HASH_DEPTH_def)
  moreover have "blk_set dst = blk_set src" using C(2-4) [OF m] by (intro blk_set_cong) auto
  ultimately show "\<not> FI_INLINE_DENTRY d' \<and> hash_ok d' \<and> page_set (i_pages d') = blk_set (i_inline d)"
    using d'(2) one_page(1) by (simp add: pages src_def)
qed

section \<open>Adding the entries again\<close>

definition tail_set :: "f2fs_dentry_ptr \<Rightarrow> nat \<Rightarrow> (u8 list \<times> u32 \<times> u8) set" where
  "tail_set src pos = (\<lambda>p. (de_name src p, de_ino (de_at src p), file_type (de_at src p))) ` {p \<in> heads src. pos \<le> p}"

lemma tail_set_0: "tail_set src 0 = blk_set src"
  by (simp add: tail_set_def blk_set_def)

definition same_inline :: "dir_inode \<Rightarrow> dir_inode \<Rightarrow> bool" where
  "same_inline d' d \<longleftrightarrow> FI_INLINE_DENTRY d' = FI_INLINE_DENTRY d \<and> i_inline d' = i_inline d \<and> MAX_INLINE_DATA d' = MAX_INLINE_DATA d \<and> clevel d' = clevel d \<and>
     dir_task d' = dir_task d"

lemma add_inline_step:
  assumes ok: "dent_ok src" and e: "at_edge src pos"
  shows "pos \<ge> d_max src \<Longrightarrow> add_inline_loop io src pos d = Some (None, d)"
    "pos < d_max src \<Longrightarrow> \<not> used src pos \<Longrightarrow> add_inline_loop io src pos d = add_inline_loop io src (pos + 1) d"
    "pos < d_max src \<Longrightarrow> used src pos \<Longrightarrow> add_inline_loop io src pos d =
       (case f2fs_add_regular_entry io (de_name src pos) False (de_ino (de_at src pos)) (push_bit S_SHIFT (ucast (get_de_type (de_at src pos)))) d of
                 None \<Rightarrow> None
               | Some (Some e, d) \<Rightarrow> Some (Some e, d\<lparr>i_pages := Map.empty\<rparr>)
               | Some (None, d) \<Rightarrow> add_inline_loop io src (pos + de_slots src pos) d)"
  using edge_step(2) [OF ok e] head_len [of pos src] unfolding add_inline_loop.simps [of io src pos d] used_def de_slots_def Let_def
  by simp_all

lemma de_name_len: "dent_ok d \<Longrightarrow> p \<in> heads d \<Longrightarrow> length (de_name d p) = unat (name_len (de_at d p))"
proof -
  assume ok: "dent_ok d" and p: "p \<in> heads d"
  let ?k = "unat (name_len (de_at d p))"
  have "p * F2FS_SLOT_LEN + ?k \<le> (p + de_slots d p) * F2FS_SLOT_LEN" using slots_bytes [of ?k] by (simp add: add_mult_distrib de_slots_def)
  also have "\<dots> \<le> d_max d * F2FS_SLOT_LEN" using dent_okD(2) [OF ok p] by (rule mult_le_mono1)
  also have "\<dots> = length (d_filename d)" using dent_okD(1) [OF ok] by (simp add: block_shape_def)
  finally show ?thesis by (simp add: de_name_def)
qed

lemma de_name_range:
  assumes "dent_ok d" "p \<in> heads d"
  shows "de_name d p \<noteq> []" "length (de_name d p) < 2 ^ 16"
  using de_name_len [OF assms] head_len [OF assms(2)] unsigned_less [of "name_len (de_at d p)"] by (auto simp: unat_eq_zero)

lemma add_inline_loop_ok:
  assumes io: "io_ok io" and src: "dent_ok src" "inj_on (de_name src) (heads src)" "\<And>p. p \<in> heads src \<Longrightarrow> file_type (de_at src p) < F2FS_FT_MAX"
    and e: "at_edge src pos" and ok: "hash_ok d" and new: "\<And>p. p \<in> heads src \<Longrightarrow> pos \<le> p \<Longrightarrow> de_name src p \<notin> dir_names (i_pages d)"
  shows "\<exists>r d'. add_inline_loop io src pos d = Some (r, d') \<and> same_inline d' d \<and> r \<noteq> Some EAGAIN \<and>
    (if r = None then hash_ok d' \<and> page_set (i_pages d') = page_set (i_pages d) \<union> tail_set src pos else i_pages d' = Map.empty)"
  using e ok new
proof (induction "d_max src - pos" arbitrary: pos d rule: less_induct)
  case less
  note C = add_inline_step [OF src(1) less.prems(1), of io d] and E = edge_step [OF src(1) less.prems(1)]
  consider "pos \<ge> d_max src" | "pos < d_max src" "\<not> used src pos" | "pos < d_max src" "used src pos" by fastforce
  then show ?case
  proof cases
    case 1
    then have "tail_set src pos = {}" by (auto simp: tail_set_def heads_def)
    then show ?thesis using C(1) [OF 1] less.prems(2) by (simp add: same_inline_def)
  next
    case 2
    have n: "p \<in> heads src \<and> pos + 1 \<le> p \<longleftrightarrow> p \<in> heads src \<and> pos \<le> p" for p using 2 by (cases "p = pos") (auto simp: heads_def)
    then have t: "tail_set src (pos + 1) = tail_set src pos" by (simp add: tail_set_def)
    have lt: "d_max src - (pos + 1) < d_max src - pos" using 2(1) by simp
    show ?thesis unfolding C(2) [OF 2] t [symmetric] using less.hyps [OF lt E(1) [OF 2] less.prems(2)] n less.prems(3) by blast
  next
    case 3
    have h: "pos \<in> heads src" "at_edge src (pos + de_slots src pos)" using E(2) [OF 3] by blast+
    have s: "0 < de_slots src pos" by (rule heads_slots [OF h(1)])
    let ?nm = "de_name src pos" and ?ino = "de_ino (de_at src pos)" and ?ft = "file_type (de_at src pos)"
    have ft: "ft_of (push_bit S_SHIFT (ucast (get_de_type (de_at src pos)))) = ?ft" by (rule ft_of_get_de_type [OF src(3) [OF h(1)]])
    have nn: "?nm \<notin> dir_names (i_pages d)" using less.prems(3) [OF h(1)] by simp
    obtain r1 d1 where A: "f2fs_add_regular_entry io ?nm False ?ino (push_bit S_SHIFT (ucast (get_de_type (de_at src pos)))) d = Some (r1, d1)"
      "hash_ok d1" "FI_INLINE_DENTRY d1 = FI_INLINE_DENTRY d" "i_inline d1 = i_inline d" "MAX_INLINE_DATA d1 = MAX_INLINE_DATA d"
      "page_set (i_pages d1) = (if r1 = None then insert (?nm, ?ino, ?ft) (page_set (i_pages d)) else page_set (i_pages d))" "clevel d1 = clevel d" "r1 \<noteq> Some EAGAIN" "dir_task d1 = dir_task d"
      using f2fs_add_regular_entry_ok [OF io less.prems(2) de_name_range [OF src(1) h(1)] nn, where inode = False and ino = ?ino and mode = "push_bit S_SHIFT (ucast (get_de_type (de_at src pos)))", unfolded ft] by blast
    have si: "same_inline d1 d" using A(3-5,7,9) by (simp add: same_inline_def)
    show ?thesis
    proof (cases r1)
      case (Some e)
      then have "add_inline_loop io src pos d = Some (Some e, d1\<lparr>i_pages := Map.empty\<rparr>)" using C(3) [OF 3] A(1) by simp
      then show ?thesis using si A(8) Some by (simp add: same_inline_def)
    next
      case None
      have after: "pos + de_slots src pos \<le> p" if "p \<in> heads src" "pos \<le> p" "p \<noteq> pos" for p
        using dent_okD(4) [OF src(1) h(1) that(1)] that by simp
      have new: "de_name src p \<notin> dir_names (i_pages d1)" if p: "p \<in> heads src" "pos + de_slots src pos \<le> p" for p
      proof -
        have "p \<noteq> pos" "pos \<le> p" using p s by auto
        then have "de_name src p \<noteq> ?nm" "de_name src p \<notin> dir_names (i_pages d)" using src(2) p(1) h(1) less.prems(3) by (auto dest: inj_onD)
        then show ?thesis using A(6) None by (simp add: dir_names_def)
      qed
      have lt: "d_max src - (pos + de_slots src pos) < d_max src - pos" using 3(1) s by simp
      obtain r d' where R: "add_inline_loop io src (pos + de_slots src pos) d1 = Some (r, d')" "same_inline d' d1" "r \<noteq> Some EAGAIN"
        "if r = None then hash_ok d' \<and> page_set (i_pages d') = page_set (i_pages d1) \<union> tail_set src (pos + de_slots src pos) else i_pages d' = Map.empty"
        using less.hyps [OF lt h(2) A(2) new] by blast
      have "{p \<in> heads src. pos \<le> p} = insert pos {p \<in> heads src. pos + de_slots src pos \<le> p}" using h(1) after by auto
      then have "tail_set src pos = insert (?nm, ?ino, ?ft) (tail_set src (pos + de_slots src pos))" by (simp add: tail_set_def)
      moreover have "add_inline_loop io src pos d = Some (r, d')" using C(3) [OF 3] A(1) None R(1) by simp
      moreover have "same_inline d' d" using R(2) si by (simp add: same_inline_def)
      ultimately show ?thesis using R(3,4) A(6) None by auto
    qed
  qed
qed

lemma empty_hash_ok: "i_pages d = Map.empty \<Longrightarrow> clevel d \<le> i_current_depth d \<Longrightarrow> i_current_depth d \<le> MAX_DIR_HASH_DEPTH \<Longrightarrow> hash_ok d"
  by (simp add: hash_ok_def uniq_def)

lemma move_rehashed_dirents_ok:
  assumes io: "io_ok io" and ok: "inline_ok d" "FI_INLINE_DENTRY d"
  shows "\<exists>r d'. f2fs_move_rehashed_dirents io d = Some (r, d') \<and> dir_task d' = dir_task d \<and>
    (if r = None then \<not> FI_INLINE_DENTRY d' \<and> hash_ok d' \<and> page_set (i_pages d') = blk_set (i_inline d)
     else r \<noteq> Some EAGAIN \<and> inline_ok d' \<and> FI_INLINE_DENTRY d' \<and> i_inline d' = i_inline d)"
proof (cases "mem_err io")
  case True
  then show ?thesis using ok by (simp add: f2fs_move_rehashed_dirents_def)
next
  case False
  note I = inline_okD [OF ok(1)]
  let ?d0 = "truncate_inline_inode d"
  have p0: "i_pages ?d0 = Map.empty" "clevel ?d0 = 0" "i_current_depth ?d0 \<le> 1" using I(10-12) by (simp_all add: truncate_inline_inode_def)
  have h0: "hash_ok ?d0" using p0 by (intro empty_hash_ok) (simp_all add: MAX_DIR_HASH_DEPTH_def)
  have n0: "de_name (i_inline d) p \<notin> dir_names (i_pages ?d0)" for p using p0(1) by (simp add: dir_names_def page_set_def)
  obtain r d' where R: "add_inline_loop io (i_inline d) 0 ?d0 = Some (r, d')" "same_inline d' ?d0"
    "r \<noteq> Some EAGAIN" "if r = None then hash_ok d' \<and> page_set (i_pages d') = page_set (i_pages ?d0) \<union> tail_set (i_inline d) 0 else i_pages d' = Map.empty"
    using add_inline_loop_ok [OF io I(1,4,3) at_edge_0 h0 n0] by blast
  have s: "FI_INLINE_DENTRY d'" "MAX_INLINE_DATA d' = MAX_INLINE_DATA d" "clevel d' = 0" "dir_task d' = dir_task d"
    using R(2) ok(2) p0(2) by (simp_all add: same_inline_def truncate_inline_inode_def)
  show ?thesis
  proof (cases r)
    case None
    then have "f2fs_move_rehashed_dirents io d = Some (None, d'\<lparr>FI_INLINE_DENTRY := False\<rparr>)"
      using False R(1) by (simp add: f2fs_move_rehashed_dirents_def f2fs_add_inline_entries_def)
    moreover have "hash_ok (d'\<lparr>FI_INLINE_DENTRY := False\<rparr>)" using R(4) None by (simp add: hash_ok_def)
    moreover have "page_set (i_pages d') = blk_set (i_inline d)" using R(4) None p0(1) by (simp add: tail_set_0 page_set_def)
    ultimately show ?thesis using s(4) by simp
  next
    case (Some e)
    let ?d = "d'\<lparr>i_inline := i_inline d, i_current_depth := 0, i_size := MAX_INLINE_DATA d'\<rparr>"
    have "f2fs_move_rehashed_dirents io d = Some (Some e, ?d)" using False R(1) Some by (simp add: f2fs_move_rehashed_dirents_def f2fs_add_inline_entries_def)
    moreover have "inline_ok ?d" using ok(1) s R(4) Some by (simp add: inline_ok_def)
    ultimately show ?thesis using s(1,4) R(3) Some by simp
  qed
qed

lemma convert_inline_dir_ok:
  assumes io: "io_ok io" and ok: "inline_ok d" "FI_INLINE_DENTRY d"
  shows "\<exists>r d'. f2fs_convert_inline_dir io d = Some (r, d') \<and> dir_task d' = dir_task d \<and>
    (if r = None then \<not> FI_INLINE_DENTRY d' \<and> hash_ok d' \<and> page_set (i_pages d') = blk_set (i_inline d)
     else r \<noteq> Some EAGAIN \<and> inline_ok d' \<and> FI_INLINE_DENTRY d' \<and> i_inline d' = i_inline d)"
proof (cases "i_dir_level d = 0")
  case True
  obtain r d' where f: "f2fs_move_inline_dirents io d = (r, d')" by fastforce
  note M = move_inline_dirents_ok [OF io ok True f]
  show ?thesis using f True M ok by (cases r) (auto simp: f2fs_convert_inline_dir_def)
qed (use move_rehashed_dirents_ok [OF assms] in \<open>simp add: f2fs_convert_inline_dir_def\<close>)

end
