(* ===== verification/Dir_Ops.thy ===== *)
theory Dir_Ops
  imports Dir_Inline
begin

text \<open>
  The operations on a directory in either form (\<^verbatim>\<open>dir.c\<close>): adding a link, removing and redirecting an entry, the test for an empty directory
  and listing. Every operation keeps the invariant \<open>dir_ok\<close>, and on the set of entries (name, inode, type) it does what its name says, also when the entries
  move from the inode to blocks on the way; when it fails, the set stays as it was.
\<close>

section \<open>Operations\<close>

definition do_add_link :: "dir_io \<Rightarrow> u8 list \<Rightarrow> bool \<Rightarrow> u32 \<Rightarrow> u16 \<Rightarrow> dir_inode \<Rightarrow> (errno option \<times> dir_inode) option" where
  "do_add_link io new_name inode ino mode d =
     (case (if FI_INLINE_DENTRY d then f2fs_add_inline_entry io new_name inode ino mode d else Some (Some EAGAIN, d)) of
        None \<Rightarrow> None
      | Some (err, d) \<Rightarrow> if err = Some EAGAIN then f2fs_add_regular_entry io new_name inode ino mode d else Some (err, d))"

text \<open>
  The task that looked the name up last is trusted to have found nothing; for any other task the name is looked up again.
  No task has the number 0.
\<close>

definition f2fs_add_link :: "nat \<Rightarrow> dir_io \<Rightarrow> u8 list \<Rightarrow> bool \<Rightarrow> u32 \<Rightarrow> u16 \<Rightarrow> dir_inode \<Rightarrow> (errno option \<times> dir_inode) option" where
  "f2fs_add_link current io name inode ino mode d =
     (let (de, d) = (if current \<noteq> dir_task d then (case f2fs_find_entry current io name d of (de, d) \<Rightarrow> (de, d\<lparr>dir_task := 0\<rparr>)) else (None, d))
      in case de of
           Some (Inr _) \<Rightarrow> Some (Some EEXIST, d)
         | Some (Inl e) \<Rightarrow> Some (Some e, d)
         | None \<Rightarrow> do_add_link io name inode ino mode d)"

definition f2fs_delete_entry :: "dir_io \<Rightarrow> dir_loc \<Rightarrow> dir_inode \<Rightarrow> dir_inode" where
  "f2fs_delete_entry io loc d =
     (case loc of
        In_inline bit_pos \<Rightarrow> f2fs_delete_inline_entry bit_pos d
      | In_block b bit_pos \<Rightarrow>
          (case i_pages d b of None \<Rightarrow> d
           | Some pg \<Rightarrow>
               let pg = clear_dentry bit_pos pg;
                   d = d\<lparr>i_pages := (i_pages d)(b \<mapsto> pg)\<rparr>
               in if find_next_bit_le (d_bitmap pg) NR_DENTRY_IN_BLOCK 0 = NR_DENTRY_IN_BLOCK \<and> \<not> trunc_err io b
                  then d\<lparr>i_pages := (i_pages d)(b := None)\<rparr> else d))"

definition redirect :: "nat \<Rightarrow> u32 \<Rightarrow> u16 \<Rightarrow> f2fs_dentry_ptr \<Rightarrow> f2fs_dentry_ptr" where
  "redirect pos ino mode pg = pg\<lparr>d_dentry := (d_dentry pg)[pos := set_de_type mode ((de_at pg pos)\<lparr>de_ino := ino\<rparr>)]\<rparr>"

definition f2fs_set_link :: "dir_loc \<Rightarrow> u32 \<Rightarrow> u16 \<Rightarrow> dir_inode \<Rightarrow> dir_inode" where
  "f2fs_set_link loc ino mode d =
     (case loc of
        In_inline pos \<Rightarrow> d\<lparr>i_inline := redirect pos ino mode (i_inline d)\<rparr>
      | In_block b pos \<Rightarrow> (case i_pages d b of None \<Rightarrow> d | Some pg \<Rightarrow> d\<lparr>i_pages := (i_pages d)(b \<mapsto> redirect pos ino mode pg)\<rparr>))"

definition make_empty_dir :: "dir_io \<Rightarrow> u32 \<Rightarrow> u16 \<Rightarrow> u32 \<Rightarrow> u16 \<Rightarrow> dir_inode \<Rightarrow> errno option \<times> dir_inode" where
  "make_empty_dir io ino mode pino pmode d =
     (if FI_INLINE_DENTRY d then (None, make_empty_inline_dir ino mode pino pmode d)
      else case get_new_data_page io 0 d of
             (Inl e, d) \<Rightarrow> (Some e, d)
           | (Inr pg, d) \<Rightarrow> (None, d\<lparr>i_pages := (i_pages d)(0 \<mapsto> do_make_empty_dir ino mode pino pmode pg)\<rparr>))"

text \<open>A lookup and a read of a block differ in locking only: both give \<open>ENOENT\<close> for a hole.\<close>

definition get_lock_data_page :: "dir_io \<Rightarrow> dir_inode \<Rightarrow> nat \<Rightarrow> errno + f2fs_dentry_ptr" where
  "get_lock_data_page io d index =
     (case read_err io index of Some e \<Rightarrow> Inl e
      | None \<Rightarrow> case i_pages d index of None \<Rightarrow> Inl ENOENT | Some pg \<Rightarrow> Inr pg)"

fun empty_dir_loop :: "dir_io \<Rightarrow> dir_inode \<Rightarrow> nat list \<Rightarrow> bool" where
  "empty_dir_loop io d [] = True"
| "empty_dir_loop io d (bidx # rest) =
     (case get_lock_data_page io d bidx of
        Inl e \<Rightarrow> if e = ENOENT then empty_dir_loop io d rest else False
      | Inr pg \<Rightarrow>
          if find_next_bit_le (d_bitmap pg) NR_DENTRY_IN_BLOCK (if bidx = 0 then 2 else 0) < NR_DENTRY_IN_BLOCK then False
          else empty_dir_loop io d rest)"

definition f2fs_empty_dir :: "dir_io \<Rightarrow> dir_inode \<Rightarrow> bool" where
  "f2fs_empty_dir io d =
     (let nblock = dir_blocks d in if FI_INLINE_DENTRY d then f2fs_empty_inline_dir io d else empty_dir_loop io d [0..<nblock])"

text \<open>Listing: the reader's state and position; \<open>None\<close> is success, also when the reader has no more room.\<close>

definition f2fs_read_inline_dir :: "dir_io \<Rightarrow> (u8 list \<Rightarrow> u32 \<Rightarrow> u8 \<Rightarrow> 'c \<Rightarrow> bool \<times> 'c) \<Rightarrow> dir_inode \<Rightarrow> 'c \<times> nat \<Rightarrow> errno option \<times> 'c \<times> nat" where
  "f2fs_read_inline_dir io emit d st =
     (if snd st = d_max (i_inline d) then (None, st)
      else case node_err io of Some e \<Rightarrow> (Some e, st)
      | None \<Rightarrow> (case f2fs_fill_dentries None emit (i_inline d) 0 st of
            (Some e, _, st) \<Rightarrow> (Some e, st)
          | (None, stop, c, pos) \<Rightarrow> (None, c, if stop then pos else d_max (i_inline d))))"

fun readdir_loop :: "dir_io \<Rightarrow> (u8 list \<Rightarrow> u32 \<Rightarrow> u8 \<Rightarrow> 'c \<Rightarrow> bool \<times> 'c) \<Rightarrow> dir_inode \<Rightarrow> nat list \<Rightarrow> 'c \<times> nat \<Rightarrow> errno option \<times> 'c \<times> nat" where
  "readdir_loop io emit d [] st = (None, st)"
| "readdir_loop io emit d (n # rest) st =
     (if fatal_signal io n then (Some ERESTARTSYS, st)
      else case get_lock_data_page io d n of
        Inl e \<Rightarrow> if e = ENOENT then readdir_loop io emit d rest (fst st, (n + 1) * NR_DENTRY_IN_BLOCK) else (Some e, st)
      | Inr pg \<Rightarrow>
          (case f2fs_fill_dentries None emit pg (n * NR_DENTRY_IN_BLOCK) st of
             (Some e, _, st) \<Rightarrow> (Some e, st)
           | (None, True, st) \<Rightarrow> (None, st)
           | (None, False, c, pos) \<Rightarrow> readdir_loop io emit d rest (c, (n + 1) * NR_DENTRY_IN_BLOCK)))"

definition f2fs_readdir :: "dir_io \<Rightarrow> (u8 list \<Rightarrow> u32 \<Rightarrow> u8 \<Rightarrow> 'c \<Rightarrow> bool \<times> 'c) \<Rightarrow> dir_inode \<Rightarrow> 'c \<times> nat \<Rightarrow> errno option \<times> 'c \<times> nat" where
  "f2fs_readdir io emit d st =
     (let npages = dir_blocks d; n = snd st div NR_DENTRY_IN_BLOCK
      in if FI_INLINE_DENTRY d then f2fs_read_inline_dir io emit d st else readdir_loop io emit d [n..<npages] st)"

section \<open>Adding a link\<close>

definition set_names :: "(u8 list \<times> u32 \<times> u8) set \<Rightarrow> u8 list set" where
  "set_names S = fst ` S"

lemma loc_in_names: "(\<exists>loc. loc_in d loc name) \<longleftrightarrow> name \<in> set_names (dir_set d)"
proof (cases "FI_INLINE_DENTRY d")
  case True
  have "(\<exists>loc. loc_in d loc name) \<longleftrightarrow> (\<exists>p. loc_in d (In_inline p) name)"
    by (metis (no_types, lifting) True dir_loc.exhaust dir_loc.simps(5) loc_in_def)
  also have "\<dots> \<longleftrightarrow> name \<in> set_names (dir_set d)" using True by (auto simp: loc_in_def set_names_def dir_set_def blk_set_def image_iff)
  finally show ?thesis .
next
  case False
  have "(\<exists>loc. loc_in d loc name) \<longleftrightarrow> (\<exists>b p. loc_in d (In_block b p) name)"
    by (metis (no_types, lifting) False dir_loc.exhaust dir_loc.simps(6) loc_in_def)
  also have "\<dots> \<longleftrightarrow> name \<in> dir_names (i_pages d)" using False unfolding in_dir_names by (auto simp: loc_in_def)
  finally show ?thesis using False by (simp add: set_names_def dir_set_def dir_names_def)
qed

lemma add_inline_entry_ok:
  assumes io: "io_ok io" and ok: "inline_ok d" "FI_INLINE_DENTRY d" and n: "name \<noteq> []" "length name < 2 ^ 16" "name \<notin> set_names (dir_set d)"
  shows "\<exists>r d'. f2fs_add_inline_entry io name inode ino mode d = Some (r, d') \<and> dir_task d' = dir_task d \<and>
    (if r = None then inline_ok d' \<and> FI_INLINE_DENTRY d' \<and> dir_set d' = insert (name, ino, ft_of mode) (dir_set d)
     else if r = Some EAGAIN then hash_ok d' \<and> \<not> FI_INLINE_DENTRY d' \<and> dir_set d' = dir_set d
     else inline_ok d' \<and> FI_INLINE_DENTRY d' \<and> dir_set d' = dir_set d)"
proof (cases "node_err io")
  case (Some e)
  then show ?thesis using ok io_okE(2) [OF io] by (simp add: f2fs_add_inline_entry_def)
next
  case None
  let ?s = "GET_DENTRY_SLOTS (length name)" and ?i = "i_inline d"
  let ?pos = "room_for_filename (d_bitmap ?i) ?s (d_max ?i)"
  note I = inline_okD [OF ok(1)]
  have ds: "dir_set d = blk_set ?i" using ok(2) by (simp add: dir_set_def)
  show ?thesis
  proof (cases "?pos \<ge> d_max ?i")
    case True
    obtain r d' where C: "f2fs_convert_inline_dir io d = Some (r, d')" "dir_task d' = dir_task d"
      "if r = None then \<not> FI_INLINE_DENTRY d' \<and> hash_ok d' \<and> page_set (i_pages d') = blk_set ?i
       else r \<noteq> Some EAGAIN \<and> inline_ok d' \<and> FI_INLINE_DENTRY d' \<and> i_inline d' = ?i" using convert_inline_dir_ok [OF io ok] by blast
    have e: "f2fs_add_inline_entry io name inode ino mode d = Some (case r of None \<Rightarrow> Some EAGAIN | Some e \<Rightarrow> Some e, d')"
      using None True C(1) by (cases r) (simp_all add: f2fs_add_inline_entry_def)
    show ?thesis unfolding e using C(2,3) ds by (cases r) (simp_all add: dir_set_def)
  next
    case False
    show ?thesis
    proof (cases "inode \<and> meta_err io \<noteq> None")
      case True
      then obtain e where me: "meta_err io = Some e" by auto
      then have e: "f2fs_add_inline_entry io name inode ino mode d = Some (Some e, d)" using None False True by (simp add: f2fs_add_inline_entry_def)
      show ?thesis unfolding e using ok io_okE(3) [OF io] me by simp
    next
      case m: False
      define d1 where "d1 = d\<lparr>i_inline := f2fs_update_dentry ino mode name (name_hash name) ?pos ?i, i_current_depth := 0\<rparr>"
      have e: "f2fs_add_inline_entry io name inode ino mode d = Some (None, d1)" using None False m by (auto simp: f2fs_add_inline_entry_def d1_def)
      have s: "0 < ?s" using n(1) by (intro slots_pos) simp
      have fr: "free_run ?i ?pos ?s" using room_ok(1) [OF s, of ?i] False by simp
      note U = update_dentry_ok [OF I(1) n(1,2) fr, where ino = ino and mode = mode and h = "name_hash name"]
      have i1: "i_inline d1 = f2fs_update_dentry ino mode name (name_hash name) ?pos ?i" by (simp add: d1_def)
      have fresh: "de_name ?i p \<noteq> name" if "p \<in> heads ?i" for p using n(3) that ds by (force simp: set_names_def blk_set_def)
      have inj: "inj_on (de_name (i_inline d1)) (heads (i_inline d1))"
        using I(4) U(4,6) fresh unfolding i1 U(2) inj_on_def by (metis insert_iff)
      have "hash_code (de_at (i_inline d1) p) = name_hash (de_name (i_inline d1) p) \<and> file_type (de_at (i_inline d1) p) < F2FS_FT_MAX"
        if "p \<in> heads (i_inline d1)" for p
        using that U(4,5,6) I(2,3) ft_of_less [of mode] unfolding i1 U(2) by (cases "p = ?pos") auto
      moreover have "i_pages d1 = Map.empty" "clevel d1 = 0" "i_current_depth d1 \<le> 1" "MAX_INLINE_DATA d1 = MAX_INLINE_DATA d"
        using I(10,11) by (simp_all add: d1_def)
      ultimately have "inline_ok d1"
        unfolding inline_ok_def using inj U(1,3,7,8,9) I(5-9) unfolding i1 by simp
      moreover have "dir_set d1 = insert (name, ino, ft_of mode) (dir_set d)"
        using blk_set_update [OF I(1) n(1,2) fr] ds ok(2) by (simp add: dir_set_def d1_def)
      ultimately show ?thesis unfolding e using ok(2) by (simp add: d1_def)
    qed
  qed
qed

lemma do_add_link_ok:
  assumes io: "io_ok io" and ok: "dir_ok d" and n: "name \<noteq> []" "length name < 2 ^ 16" "name \<notin> set_names (dir_set d)"
  shows "\<exists>r d'. do_add_link io name inode ino mode d = Some (r, d') \<and> dir_ok d' \<and> dir_task d' = dir_task d \<and>
    dir_set d' = (if r = None then insert (name, ino, ft_of mode) (dir_set d) else dir_set d)"
proof -
  have reg: "\<exists>r d'. f2fs_add_regular_entry io name inode ino mode d1 = Some (r, d') \<and> dir_ok d' \<and> dir_task d' = dir_task d \<and>
    dir_set d' = (if r = None then insert (name, ino, ft_of mode) (dir_set d) else dir_set d)" if d1: "hash_ok d1" "dir_task d1 = dir_task d" "\<not> FI_INLINE_DENTRY d1" "dir_set d1 = dir_set d" for d1
  proof -
    have ps: "page_set (i_pages d1) = dir_set d" using d1(3,4) by (simp add: dir_set_def)
    have nn: "name \<notin> dir_names (i_pages d1)" using n(3) ps by (simp add: dir_names_def set_names_def)
    obtain r d' where R: "f2fs_add_regular_entry io name inode ino mode d1 = Some (r, d')" "hash_ok d'" "FI_INLINE_DENTRY d' = FI_INLINE_DENTRY d1" "dir_task d' = dir_task d1"
      "page_set (i_pages d') = (if r = None then insert (name, ino, ft_of mode) (page_set (i_pages d1)) else page_set (i_pages d1))"
      using f2fs_add_regular_entry_ok [OF io d1(1) n(1,2) nn, of inode ino mode] by blast
    have "dir_ok d'" "dir_set d' = page_set (i_pages d')" using R(2,3) d1(3) by (simp_all add: dir_ok_def dir_set_def)
    then show ?thesis using R(1,4,5) d1(2) ps by simp
  qed
  show ?thesis
  proof (cases "FI_INLINE_DENTRY d")
    case True
    then have il: "inline_ok d" using ok by (simp add: dir_ok_def)
    obtain r d' where A: "f2fs_add_inline_entry io name inode ino mode d = Some (r, d')" "dir_task d' = dir_task d"
      "if r = None then inline_ok d' \<and> FI_INLINE_DENTRY d' \<and> dir_set d' = insert (name, ino, ft_of mode) (dir_set d)
       else if r = Some EAGAIN then hash_ok d' \<and> \<not> FI_INLINE_DENTRY d' \<and> dir_set d' = dir_set d
       else inline_ok d' \<and> FI_INLINE_DENTRY d' \<and> dir_set d' = dir_set d" using add_inline_entry_ok [OF io il True n] by blast
    show ?thesis
    proof (cases "r = Some EAGAIN")
      case again: True
      then have "do_add_link io name inode ino mode d = f2fs_add_regular_entry io name inode ino mode d'" using True A(1) by (simp add: do_add_link_def)
      then show ?thesis using reg [of d'] A(2,3) again by simp
    next
      case False
      then have "do_add_link io name inode ino mode d = Some (r, d')" using True A(1) by (simp add: do_add_link_def)
      then show ?thesis using A(2,3) False by (auto simp: dir_ok_def split: if_splits)
    qed
  next
    case False
    then show ?thesis using reg [of d] ok by (simp add: do_add_link_def dir_ok_def)
  qed
qed

lemma same_dir_set: "same_dir d' d \<Longrightarrow> dir_set d' = dir_set d"
  by (simp add: same_dir_def dir_set_def)

lemma task_dir_ok [simp]: "dir_ok (d\<lparr>dir_task := t\<rparr>) = dir_ok d" "dir_set (d\<lparr>dir_task := t\<rparr>) = dir_set d"
  by (simp_all add: dir_ok_def inline_ok_def hash_ok_def dir_set_def)

lemma add_link_ok:
  assumes io: "io_ok io" and ok: "dir_ok d" and n: "name \<noteq> []" "length name < 2 ^ 16" and t: "current = dir_task d \<Longrightarrow> name \<notin> set_names (dir_set d)"
  shows "\<exists>r d'. f2fs_add_link current io name inode ino mode d = Some (r, d') \<and> dir_ok d' \<and> (dir_task d' = 0 \<or> dir_task d' = current) \<and>
    dir_set d' = (if r = None then insert (name, ino, ft_of mode) (dir_set d) else dir_set d) \<and> (r = None \<longrightarrow> name \<notin> set_names (dir_set d))"
proof (cases "current = dir_task d")
  case True
  then show ?thesis using do_add_link_ok [OF io ok n t [OF True], of inode ino mode] t by (auto simp: f2fs_add_link_def)
next
  case False
  obtain q d1 where F: "f2fs_find_entry current io name d = (q, d1)" by fastforce
  note E = f2fs_find_entry_ok [OF io ok F]
  have ok1: "dir_ok (d1\<lparr>dir_task := 0\<rparr>)" and ds: "dir_set (d1\<lparr>dir_task := 0\<rparr>) = dir_set d" using E same_dir_set [of d1 d] by simp_all
  have step: "f2fs_add_link current io name inode ino mode d = (case q of Some (Inr _) \<Rightarrow> Some (Some EEXIST, d1\<lparr>dir_task := 0\<rparr>)
      | Some (Inl e) \<Rightarrow> Some (Some e, d1\<lparr>dir_task := 0\<rparr>) | None \<Rightarrow> do_add_link io name inode ino mode (d1\<lparr>dir_task := 0\<rparr>))"
    using False F by (simp add: f2fs_add_link_def split: option.splits sum.splits)
  show ?thesis
  proof (cases q)
    case None
    then have nn: "name \<notin> set_names (dir_set (d1\<lparr>dir_task := 0\<rparr>))" unfolding ds using E loc_in_names [of d name] by blast
    show ?thesis unfolding step using do_add_link_ok [OF io ok1 n nn, of inode ino mode] None nn ds by auto
  next
    case (Some x)
    then show ?thesis unfolding step using ok1 ds by (cases x) auto
  qed
qed

section \<open>Removing and redirecting an entry\<close>

lemma dir_unique:
  assumes "dir_ok d" "(n, i, t) \<in> dir_set d" "(n, i', t') \<in> dir_set d"
  shows "i = i' \<and> t = t'"
proof (cases "FI_INLINE_DENTRY d")
  case True
  then have "inj_on (de_name (i_inline d)) (heads (i_inline d))" using assms(1) inline_okD(4) by (simp add: dir_ok_def)
  then show ?thesis using assms(2,3) True by (auto simp: dir_set_def blk_set_def dest: inj_onD)
next
  case False
  then have u: "uniq (i_pages d)" using assms(1) by (simp add: dir_ok_def hash_ok_def)
  obtain b pg p where 1: "i_pages d b = Some pg" "p \<in> heads pg" "n = de_name pg p" "i = de_ino (de_at pg p)" "t = file_type (de_at pg p)"
    using assms(2) False by (auto simp: dir_set_def page_set_def ran_def blk_set_def)
  obtain c pc q where 2: "i_pages d c = Some pc" "q \<in> heads pc" "n = de_name pc q" "i' = de_ino (de_at pc q)" "t' = file_type (de_at pc q)"
    using assms(3) False by (auto simp: dir_set_def page_set_def ran_def blk_set_def)
  have "b = c \<and> p = q" using u 1(1-3) 2(1-3) unfolding uniq_def by blast
  then show ?thesis using 1 2 by simp
qed

lemma redirect_ok:
  assumes ok: "dent_ok pg" and p: "pos \<in> heads pg"
  shows "dent_ok (redirect pos ino mode pg)" "heads (redirect pos ino mode pg) = heads pg" "de_name (redirect pos ino mode pg) = de_name pg"
    "de_at (redirect pos ino mode pg) q = (if q = pos then set_de_type mode ((de_at pg pos)\<lparr>de_ino := ino\<rparr>) else de_at pg q)"
    "d_max (redirect pos ino mode pg) = d_max pg" "d_bitmap (redirect pos ino mode pg) = d_bitmap pg" "d_nr_bitmap (redirect pos ino mode pg) = d_nr_bitmap pg"
proof -
  have l: "pos < length (d_dentry pg)" using p dent_okD(1) [OF ok] by (simp add: heads_def block_shape_def)
  show "d_max (redirect pos ino mode pg) = d_max pg" "d_bitmap (redirect pos ino mode pg) = d_bitmap pg" "d_nr_bitmap (redirect pos ino mode pg) = d_nr_bitmap pg"
    by (simp_all add: redirect_def)
  show de: "de_at (redirect pos ino mode pg) q = (if q = pos then set_de_type mode ((de_at pg pos)\<lparr>de_ino := ino\<rparr>) else de_at pg q)" for q
    using l by (simp add: redirect_def de_at_def arr_get_update)
  have nl: "name_len (de_at (redirect pos ino mode pg) q) = name_len (de_at pg q)" for q by (simp add: de set_de_type_def)
  have us: "used (redirect pos ino mode pg) = used pg" by (simp add: used_def redirect_def fun_eq_iff)
  show hd: "heads (redirect pos ino mode pg) = heads pg" by (simp add: heads_def nl us) (simp add: redirect_def)
  show "de_name (redirect pos ino mode pg) = de_name pg" by (simp add: de_name_def nl fun_eq_iff) (simp add: redirect_def)
  have "de_slots (redirect pos ino mode pg) = de_slots pg" by (simp add: de_slots_def nl fun_eq_iff)
  then show "dent_ok (redirect pos ino mode pg)" using ok unfolding dent_ok_def hd us by (simp add: block_shape_def redirect_def)
qed

text \<open>Replacing one block by one with fewer or other entries of the same names.\<close>

lemma replace_block:
  assumes ok: "hash_ok d" and pg: "i_pages d b = Some pg" and B: "dent_ok pg'" "d_max pg' = d_max pg" "heads pg' \<subseteq> heads pg"
    and e: "\<And>q. q \<in> heads pg' \<Longrightarrow> de_name pg' q = de_name pg q \<and> hash_code (de_at pg' q) = hash_code (de_at pg q)"
  shows "hash_ok (d\<lparr>i_pages := (i_pages d)(b \<mapsto> pg')\<rparr>)" "hash_ok (d\<lparr>i_pages := (i_pages d)(b := None)\<rparr>)"
proof -
  note O = hash_okD [OF ok]
  have bo: "blk_ok (i_dir_level d) (i_current_depth d) (i_size d) b pg" by (rule O(3) [OF pg])
  then have b': "blk_ok (i_dir_level d) (i_current_depth d) (i_size d) b pg'"
    unfolding blk_ok_def using B e by (metis subsetD)
  have old: "\<exists>po. i_pages d c = Some po \<and> p \<in> heads po \<and> de_name po p = de_name pc p" if "((i_pages d)(b \<mapsto> pg')) c = Some pc" "p \<in> heads pc" for c pc p
    using that pg B(3) e by (auto split: if_splits)
  have "uniq ((i_pages d)(b \<mapsto> pg'))" unfolding uniq_def
  proof (intro allI impI)
    fix c1 p1 q1 c2 p2 q2
    assume a: "((i_pages d)(b \<mapsto> pg')) c1 = Some p1" "q1 \<in> heads p1" "((i_pages d)(b \<mapsto> pg')) c2 = Some p2" "q2 \<in> heads p2" "de_name p1 q1 = de_name p2 q2"
    show "c1 = c2 \<and> q1 = q2" using old [OF a(1,2)] old [OF a(3,4)] a(5) O(4) unfolding uniq_def by metis
  qed
  then show "hash_ok (d\<lparr>i_pages := (i_pages d)(b \<mapsto> pg')\<rparr>)" using O b' unfolding hash_ok_def by simp
  have "uniq ((i_pages d)(b := None))" using O(4) unfolding uniq_def by (metis fun_upd_apply option.distinct(1))
  then show "hash_ok (d\<lparr>i_pages := (i_pages d)(b := None)\<rparr>)" using O unfolding hash_ok_def by simp
qed

lemma other_blocks:
  assumes "hash_ok d" "i_pages d b = Some pg" "p \<in> heads pg" "x \<in> page_set ((i_pages d)(b := None))"
  shows "fst x \<noteq> de_name pg p"
proof -
  obtain c pc q where c: "c \<noteq> b" "i_pages d c = Some pc" "q \<in> heads pc" "fst x = de_name pc q"
    using assms(4) by (auto simp: page_set_def ran_def blk_set_def split: if_splits)
  then show ?thesis using hash_okD(4) [OF assms(1)] assms(2,3) unfolding uniq_def by metis
qed

lemma block_names_inj: "hash_ok d \<Longrightarrow> i_pages d b = Some pg \<Longrightarrow> inj_on (de_name pg) (heads pg)"
  using hash_okD(4) [of d] unfolding uniq_def inj_on_def by blast

lemma clear_blk_set:
  assumes "dent_ok pg" "p \<in> heads pg" "inj_on (de_name pg) (heads pg)"
  shows "blk_set (clear_dentry p pg) = {x \<in> blk_set pg. fst x \<noteq> de_name pg p}"
  using assms(2,3) clear_dentry_ok [OF assms(1,2)] by (auto simp: blk_set_def dest: inj_onD)

lemma redirect_blk_set:
  assumes "dent_ok pg" "p \<in> heads pg" "inj_on (de_name pg) (heads pg)"
  shows "blk_set (redirect p ino mode pg) = insert (de_name pg p, ino, ft_of mode) {x \<in> blk_set pg. fst x \<noteq> de_name pg p}"
  using assms(2,3) redirect_ok [OF assms(1,2)] by (auto simp: blk_set_def dest: inj_onD split: if_splits)

lemma delete_entry_ok:
  assumes io: "io_ok io" and ok: "dir_ok d" and l: "loc_in d loc name"
  shows "dir_ok (f2fs_delete_entry io loc d) \<and> dir_set (f2fs_delete_entry io loc d) = {x \<in> dir_set d. fst x \<noteq> name}"
proof (cases loc)
  case (In_inline p)
  have fi: "FI_INLINE_DENTRY d" and p: "p \<in> heads (i_inline d)" "de_name (i_inline d) p = name" using l In_inline by (simp_all add: loc_in_def)
  have il: "inline_ok d" using ok fi by (simp add: dir_ok_def)
  note I = inline_okD [OF il] and C = clear_dentry_ok [OF inline_okD(1) [OF il] p(1)]
  let ?d = "d\<lparr>i_inline := clear_dentry p (i_inline d)\<rparr>"
  have e: "f2fs_delete_entry io loc d = ?d" by (simp add: f2fs_delete_entry_def f2fs_delete_inline_entry_def In_inline)
  have "inj_on (de_name (i_inline d)) (heads (clear_dentry p (i_inline d)))" using I(4) unfolding C(2) by (rule inj_on_subset) simp
  moreover have "\<forall>i \<ge> d_max (i_inline d). \<not> used (clear_dentry p (i_inline d)) i" using I(5) C(8) by blast
  ultimately have "inline_ok ?d" using I(2,3,6-12) C(1-7) unfolding inline_ok_def by simp
  moreover have "dir_set ?d = {x \<in> dir_set d. fst x \<noteq> name}" using clear_blk_set [OF I(1) p(1) I(4)] fi p(2) by (simp add: dir_set_def)
  ultimately show ?thesis unfolding e using fi by (simp add: dir_ok_def)
next
  case (In_block b p)
  obtain pg where fi: "\<not> FI_INLINE_DENTRY d" and pg: "i_pages d b = Some pg" and p: "p \<in> heads pg" "de_name pg p = name"
    using l In_block by (auto simp: loc_in_def)
  have ho: "hash_ok d" using ok fi by (simp add: dir_ok_def)
  have B: "dent_ok pg" "d_max pg = NR_DENTRY_IN_BLOCK" using hash_okD(3) [OF ho pg] by (simp_all add: blk_ok_def)
  note C = clear_dentry_ok [OF B(1) p(1)]
  let ?pg = "clear_dentry p pg"
  have hs: "heads ?pg \<subseteq> heads pg" using C(2) by blast
  have en: "\<And>q. q \<in> heads ?pg \<Longrightarrow> de_name ?pg q = de_name pg q \<and> hash_code (de_at ?pg q) = hash_code (de_at pg q)" using C(4,5) by simp
  note R = replace_block [OF ho pg C(1,3) hs en]
  have bs: "blk_set ?pg = {x \<in> blk_set pg. fst x \<noteq> name}" using clear_blk_set [OF B(1) p(1) block_names_inj [OF ho pg]] p(2) by simp
  have rn: "fst x \<noteq> name" if "x \<in> page_set ((i_pages d)(b := None))" for x using other_blocks [OF ho pg p(1) that] p(2) by simp
  have all: "page_set (i_pages d) = blk_set pg \<union> page_set ((i_pages d)(b := None))" by (rule page_set_at [where pages = "i_pages d", OF pg])
  have rest: "{x \<in> page_set (i_pages d). fst x \<noteq> name} = blk_set ?pg \<union> page_set ((i_pages d)(b := None))"
    unfolding all bs using rn by auto
  show ?thesis
  proof (cases "find_next_bit_le (d_bitmap ?pg) NR_DENTRY_IN_BLOCK 0 = NR_DENTRY_IN_BLOCK \<and> \<not> trunc_err io b")
    case True
    have e: "f2fs_delete_entry io loc d = d\<lparr>i_pages := (i_pages d)(b := None)\<rparr>"
      using True pg by (simp add: f2fs_delete_entry_def In_block Let_def)
    have "q \<notin> heads ?pg" for q
    proof
      assume "q \<in> heads ?pg"
      then have "q < NR_DENTRY_IN_BLOCK" "test_bit_le q (d_bitmap ?pg)" using C(3) B(2) by (simp_all add: heads_def used_def)
      then show False using next_bit(1) [where bm = "d_bitmap ?pg" and n = NR_DENTRY_IN_BLOCK and off = 0] True by auto
    qed
    then have "blk_set ?pg = {}" by (auto simp: blk_set_def)
    then show ?thesis unfolding e using R(2) rest fi by (simp add: dir_ok_def dir_set_def)
  next
    case False
    have e: "f2fs_delete_entry io loc d = d\<lparr>i_pages := (i_pages d)(b \<mapsto> ?pg)\<rparr>"
      using False pg by (auto simp: f2fs_delete_entry_def In_block Let_def)
    have "page_set ((i_pages d)(b \<mapsto> ?pg)) = blk_set ?pg \<union> page_set ((i_pages d)(b := None))"
      using page_set_at [where pages = "(i_pages d)(b \<mapsto> ?pg)" and b = b and pg = ?pg] by simp
    then show ?thesis unfolding e using R(1) rest fi by (simp add: dir_ok_def dir_set_def)
  qed
qed

lemma set_link_ok:
  assumes ok: "dir_ok d" and l: "loc_in d loc name"
  shows "dir_ok (f2fs_set_link loc ino mode d) \<and> dir_set (f2fs_set_link loc ino mode d) = insert (name, ino, ft_of mode) {x \<in> dir_set d. fst x \<noteq> name}"
proof (cases loc)
  case (In_inline p)
  have fi: "FI_INLINE_DENTRY d" and p: "p \<in> heads (i_inline d)" "de_name (i_inline d) p = name" using l In_inline by (simp_all add: loc_in_def)
  have il: "inline_ok d" using ok fi by (simp add: dir_ok_def)
  note I = inline_okD [OF il] and C = redirect_ok [OF inline_okD(1) [OF il] p(1), of ino mode]
  let ?d = "d\<lparr>i_inline := redirect p ino mode (i_inline d)\<rparr>"
  have e: "f2fs_set_link loc ino mode d = ?d" by (simp add: f2fs_set_link_def In_inline)
  have "hash_code (de_at (redirect p ino mode (i_inline d)) q) = name_hash (de_name (i_inline d) q) \<and>
      file_type (de_at (redirect p ino mode (i_inline d)) q) < F2FS_FT_MAX" if "q \<in> heads (i_inline d)" for q
    using that I(2,3) C(4) [of q] ft_of_less [of mode] by auto
  moreover have "used (redirect p ino mode (i_inline d)) = used (i_inline d)" using C(6) by (simp add: used_def fun_eq_iff)
  ultimately have "inline_ok ?d" using I(4-12) C(1-3,5-7) unfolding inline_ok_def by simp
  moreover have "dir_set ?d = insert (name, ino, ft_of mode) {x \<in> dir_set d. fst x \<noteq> name}"
    using redirect_blk_set [OF I(1) p(1) I(4)] fi p(2) by (simp add: dir_set_def)
  ultimately show ?thesis unfolding e using fi by (simp add: dir_ok_def)
next
  case (In_block b p)
  obtain pg where fi: "\<not> FI_INLINE_DENTRY d" and pg: "i_pages d b = Some pg" and p: "p \<in> heads pg" "de_name pg p = name"
    using l In_block by (auto simp: loc_in_def)
  have ho: "hash_ok d" using ok fi by (simp add: dir_ok_def)
  have B: "dent_ok pg" using hash_okD(3) [OF ho pg] by (simp add: blk_ok_def)
  note C = redirect_ok [OF B p(1), of ino mode]
  let ?pg = "redirect p ino mode pg"
  have en: "\<And>q. q \<in> heads ?pg \<Longrightarrow> de_name ?pg q = de_name pg q \<and> hash_code (de_at ?pg q) = hash_code (de_at pg q)" using C(3,4) by simp
  have R: "hash_ok (d\<lparr>i_pages := (i_pages d)(b \<mapsto> ?pg)\<rparr>)" using replace_block(1) [OF ho pg C(1,5) _ en] C(2) by simp
  have bs: "blk_set ?pg = insert (name, ino, ft_of mode) {x \<in> blk_set pg. fst x \<noteq> name}"
    using redirect_blk_set [OF B p(1) block_names_inj [OF ho pg]] p(2) by simp
  have rn: "fst x \<noteq> name" if "x \<in> page_set ((i_pages d)(b := None))" for x using other_blocks [OF ho pg p(1) that] p(2) by simp
  have all: "page_set (i_pages d) = blk_set pg \<union> page_set ((i_pages d)(b := None))" by (rule page_set_at [where pages = "i_pages d", OF pg])
  have "page_set ((i_pages d)(b \<mapsto> ?pg)) = blk_set ?pg \<union> page_set ((i_pages d)(b := None))"
    using page_set_at [where pages = "(i_pages d)(b \<mapsto> ?pg)" and b = b and pg = ?pg] by simp
  then have "page_set ((i_pages d)(b \<mapsto> ?pg)) = insert (name, ino, ft_of mode) {x \<in> page_set (i_pages d). fst x \<noteq> name}"
    unfolding all bs using rn by auto
  moreover have e: "f2fs_set_link loc ino mode d = d\<lparr>i_pages := (i_pages d)(b \<mapsto> ?pg)\<rparr>" by (simp add: f2fs_set_link_def In_block pg)
  ultimately show ?thesis unfolding e using R fi by (simp add: dir_ok_def dir_set_def)
qed

end
