(* ===== verification/Dir_List.thy ===== *)
theory Dir_List
  imports Dir_Ops
begin

text \<open>
  Listing a directory and making a new one (\<^verbatim>\<open>dir.c\<close>). A reader that takes everything gets every entry exactly once; a new directory has
  the entries for itself and its parent; a directory is found empty when it has no others.
\<close>

section \<open>Listing a block\<close>

definition take_all :: "u8 list \<Rightarrow> u32 \<Rightarrow> u8 \<Rightarrow> (u8 list \<times> u32 \<times> u8) list \<Rightarrow> bool \<times> (u8 list \<times> u32 \<times> u8) list" where
  "take_all nm ino t c = (True, c @ [(nm, ino, t)])"

definition listed :: "f2fs_dentry_ptr \<Rightarrow> nat \<Rightarrow> u8 list \<times> u32 \<times> u8" where
  "listed d p = (de_name d p, de_ino (de_at d p), get_de_type (de_at d p))"

definition heads_from :: "f2fs_dentry_ptr \<Rightarrow> nat \<Rightarrow> nat list" where
  "heads_from d pos = filter (\<lambda>p. p \<in> heads d) [pos..<d_max d]"

declare fill_dentries_loop.simps [simp del]

lemma filter_skip: "pos \<le> q \<Longrightarrow> q \<le> m \<Longrightarrow> (\<And>p. pos \<le> p \<Longrightarrow> p < q \<Longrightarrow> \<not> P p) \<Longrightarrow> filter P [pos..<m] = filter P [q..<m]"
proof -
  assume a: "pos \<le> q" "q \<le> m" "\<And>p. pos \<le> p \<Longrightarrow> p < q \<Longrightarrow> \<not> P p"
  have "[pos..<m] = [pos..<q] @ [q..<m]" using upt_add_eq_append [OF a(1), of "m - q"] a(2) by simp
  moreover have "filter P [pos..<q] = []" using a(3) by (simp add: filter_empty_conv)
  ultimately show ?thesis by simp
qed

lemma fill_loop_ok:
  assumes ok: "dent_ok d" and e: "at_edge d pos"
  shows "\<exists>q'. fill_dentries_loop None take_all d start pos (c, q) = (None, False, c @ map (listed d) (heads_from d pos), q')"
  using e
proof (induction "d_max d - pos" arbitrary: pos c q rule: less_induct)
  case less
  define p where "p = find_next_bit_le (d_bitmap d) (d_max d) pos"
  note N = next_bit [where bm = "d_bitmap d" and n = "d_max d" and off = pos, folded p_def]
  have pm: "pos \<le> d_max d" using less.prems by (simp add: at_edge_def)
  have pp: "pos \<le> p" using N(4) pm by simp
  have un: "\<not> used d i" if "pos \<le> i" "i < p" for i using N(1) [OF that] N(3) that by (simp add: used_def)
  have sk: "heads_from d pos = heads_from d p" unfolding heads_from_def using pp N(3) un by (intro filter_skip) (auto simp: heads_def)
  have bp: "(if pos < d_max d then find_next_bit_le (d_bitmap d) (d_max d) pos else pos) = p" using N(3) pp pm by (simp add: p_def)
  note step = fill_dentries_loop.simps [of None take_all d start pos "(c, q)", unfolded prod.case bp Let_def option.case sum.case]
  show ?case
  proof (cases "p \<ge> d_max d")
    case True
    then have "heads_from d p = []" by (simp add: heads_from_def)
    moreover have "fill_dentries_loop None take_all d start pos (c, q) = (None, False, c, q)"
      unfolding step using True by simp
    ultimately show ?thesis using sk by simp
  next
    case False
    then have p: "p < d_max d" "used d p" using N(2) by (simp_all add: used_def)
    have "r + de_slots d r \<le> p" if r: "r \<in> heads d" "r < p" for r
    proof (cases "r < pos")
      case True
      then show ?thesis using less.prems r(1) pp unfolding at_edge_def by (meson le_trans)
    next
      case False
      then have "\<not> used d r" using un r(2) by simp
      then show ?thesis using r(1) by (simp add: heads_def)
    qed
    then have "at_edge d p" using p(1) by (simp add: at_edge_def)
    then have h: "p \<in> heads d" "at_edge d (p + de_slots d p)" using edge_step(2) [OF ok _ p] by blast+
    have s: "0 < de_slots d p" "p + de_slots d p \<le> d_max d" using heads_slots [OF h(1)] dent_okD(2) [OF ok h(1)] by simp_all
    have nl: "name_len (de_at d p) \<noteq> 0" by (rule head_len [OF h(1)])
    have eq: "fill_dentries_loop None take_all d start pos (c, q) =
        fill_dentries_loop None take_all d start (p + de_slots d p) (c @ [listed d p], start + (p + de_slots d p))"
      unfolding step using p nl by (simp add: take_all_def listed_def Let_def de_slots_def)
    have "heads_from d p = p # heads_from d (p + 1)" using p(1) h(1) by (simp add: heads_from_def upt_conv_Cons)
    also have "heads_from d (p + 1) = heads_from d (p + de_slots d p)" unfolding heads_from_def
    proof (rule filter_skip)
      fix r assume r: "p + 1 \<le> r" "r < p + de_slots d p"
      show "r \<notin> heads d" using dent_okD(4) [OF ok h(1), of r] r by auto
    qed (use s in simp_all)
    finally have hf: "heads_from d p = p # heads_from d (p + de_slots d p)" .
    have lt: "d_max d - (p + de_slots d p) < d_max d - pos" using p(1) pp s(1) by simp
    show ?thesis using less.hyps [OF lt h(2), of "c @ [listed d p]" "start + (p + de_slots d p)"] unfolding eq sk hf by simp
  qed
qed

lemma fill_dentries_ok:
  assumes "dent_ok d" "snd st mod d_max d = 0"
  shows "\<exists>q'. f2fs_fill_dentries None take_all d start st = (None, False, fst st @ map (listed d) (heads_from d 0), q')"
  using fill_loop_ok [OF assms(1) at_edge_0, of start "fst st" "snd st"] assms(2) by (simp add: f2fs_fill_dentries_def)

lemma set_heads_from: "set (heads_from d 0) = heads d" "distinct (heads_from d 0)"
  by (auto simp: heads_from_def heads_def)

section \<open>Listing a directory\<close>

definition dtype :: "u8 \<Rightarrow> u8" where
  "dtype t = get_de_type (zero_de\<lparr>file_type := t\<rparr>)"

definition as_listed :: "u8 list \<times> u32 \<times> u8 \<Rightarrow> u8 list \<times> u32 \<times> u8" where
  "as_listed e = (case e of (n, i, t) \<Rightarrow> (n, i, dtype t))"

lemma listed_set: "listed d ` heads d = as_listed ` blk_set d"
proof -
  have "get_de_type de = dtype (file_type de)" for de by (simp add: dtype_def get_de_type_def)
  then show ?thesis by (simp add: blk_set_def image_image listed_def as_listed_def)
qed

lemma fst_listed [simp]: "fst (listed d p) = de_name d p"
  by (simp add: listed_def)

definition block_list :: "dir_inode \<Rightarrow> nat \<Rightarrow> (u8 list \<times> u32 \<times> u8) list" where
  "block_list d n = (case i_pages d n of None \<Rightarrow> [] | Some pg \<Rightarrow> map (listed pg) (heads_from pg 0))"

lemma readdir_loop_ok:
  assumes io: "read_err io = (\<lambda>_. None)" "fatal_signal io = (\<lambda>_. False)" and ok: "\<forall>b pg. i_pages d b = Some pg \<longrightarrow> dent_ok pg \<and> d_max pg = NR_DENTRY_IN_BLOCK"
  shows "q mod NR_DENTRY_IN_BLOCK = 0 \<Longrightarrow> \<exists>q'. readdir_loop io take_all d ns (c, q) = (None, c @ concat (map (block_list d) ns), q')"
proof (induction ns arbitrary: c q)
  case (Cons n ns)
  have z: "(n + 1) * NR_DENTRY_IN_BLOCK mod NR_DENTRY_IN_BLOCK = 0" by simp
  show ?case
  proof (cases "i_pages d n")
    case None
    have eq: "readdir_loop io take_all d (n # ns) (c, q) = readdir_loop io take_all d ns (c, (n + 1) * NR_DENTRY_IN_BLOCK)"
      using None io by (simp add: get_lock_data_page_def)
    show ?thesis unfolding eq using Cons.IH [OF z, of c] None by (simp add: block_list_def)
  next
    case (Some pg)
    have "snd (c, q) mod d_max pg = 0" using Cons.prems ok Some by simp
    from fill_dentries_ok [OF conjunct1 [OF ok [rule_format, OF Some]] this, of "n * NR_DENTRY_IN_BLOCK"]
    obtain q' where F: "f2fs_fill_dentries None take_all pg (n * NR_DENTRY_IN_BLOCK) (c, q) = (None, False, c @ map (listed pg) (heads_from pg 0), q')" by auto
    have eq: "readdir_loop io take_all d (n # ns) (c, q) = readdir_loop io take_all d ns (c @ map (listed pg) (heads_from pg 0), (n + 1) * NR_DENTRY_IN_BLOCK)"
      using Some io F by (simp add: get_lock_data_page_def)
    show ?thesis unfolding eq using Cons.IH [OF z, of "c @ map (listed pg) (heads_from pg 0)"] Some by (simp add: block_list_def)
  qed
qed simp

lemma pages_below:
  assumes "hash_ok d" "i_pages d b = Some pg"
  shows "b < dir_blocks d"
proof -
  have "push_bit PAGE_SHIFT (b + 1) \<le> i_size d" using hash_okD(3) [OF assms] by (simp add: blk_ok_def)
  then have "(b + 1) * 4096 \<le> i_size d" by (simp add: push_bit_eq_mult PAGE_SHIFT_def)
  then have "b + 1 \<le> (i_size d + 4095) div 4096" by (simp add: less_eq_div_iff_mult_less_eq)
  then show ?thesis by (simp add: dir_blocks_def drop_bit_eq_div PAGE_SHIFT_def)
qed

lemma in_block_list: "nm \<in> fst ` set (block_list d n) \<longleftrightarrow> (\<exists>pg p. i_pages d n = Some pg \<and> p \<in> heads pg \<and> nm = de_name pg p)"
  by (cases "i_pages d n") (auto simp: block_list_def set_heads_from(1) image_iff)

lemma distinct_blocks:
  assumes "hash_ok d" "distinct ns"
  shows "distinct (map fst (concat (map (block_list d) ns)))"
  using assms(2)
proof (induction ns)
  case (Cons n ns)
  have u: "uniq (i_pages d)" by (rule hash_okD(4) [OF assms(1)])
  have a: "distinct (map fst (block_list d n))"
  proof (cases "i_pages d n")
    case (Some pg)
    then show ?thesis using block_names_inj [OF assms(1) Some] set_heads_from [of pg] by (simp add: block_list_def comp_def distinct_map)
  qed (simp add: block_list_def)
  have "nm \<notin> fst ` set (block_list d m)" if nm: "nm \<in> fst ` set (block_list d n)" and m: "m \<in> set ns" for m nm
  proof
    assume "nm \<in> fst ` set (block_list d m)"
    then obtain pm p where 1: "i_pages d m = Some pm" "p \<in> heads pm" "nm = de_name pm p" unfolding in_block_list by blast
    obtain pn r where 2: "i_pages d n = Some pn" "r \<in> heads pn" "nm = de_name pn r" using nm unfolding in_block_list by blast
    have "m = n" using u 1 2 unfolding uniq_def by blast
    then show False using m Cons.prems by simp
  qed
  then show ?case using a Cons by (auto simp: disjoint_iff)
qed simp

lemma read_inline_dir_ok:
  assumes ok: "inline_ok d" and io: "node_err io = None"
  shows "\<exists>pos. f2fs_read_inline_dir io take_all d ([], 0) = (None, map (listed (i_inline d)) (heads_from (i_inline d) 0), pos)"
proof (cases "d_max (i_inline d) = 0")
  case True
  then show ?thesis by (simp add: f2fs_read_inline_dir_def heads_from_def)
next
  case False
  obtain q' where "f2fs_fill_dentries None take_all (i_inline d) 0 ([], 0) = (None, False, map (listed (i_inline d)) (heads_from (i_inline d) 0), q')"
    using fill_dentries_ok [OF inline_okD(1) [OF ok], of "([], 0)" 0] by auto
  then show ?thesis using False io by (simp add: f2fs_read_inline_dir_def)
qed

section \<open>New and empty directories\<close>

lemma dot_hash: "name_hash [46] = 0" "name_hash [46, 46] = 0"
  by (simp_all add: name_hash_def f2fs_dentry_hash_def is_dot_dotdot_def)

lemma slots_dots: "GET_DENTRY_SLOTS (Suc 0) = 1" "GET_DENTRY_SLOTS 2 = 1" "GET_DENTRY_SLOTS (Suc (Suc 0)) = 1"
  by (simp_all add: GET_DENTRY_SLOTS_def F2FS_SLOT_LEN_def F2FS_SLOT_LEN_BITS_def drop_bit_eq_div)

lemma make_dots_ok:
  fixes ino pino :: u32 and mode pmode :: u16
  assumes ok: "dent_ok pg" and un: "\<And>i. \<not> used pg i" and m: "2 \<le> d_max pg"
  defines "pg' \<equiv> do_make_empty_dir ino mode pino pmode pg"
  shows "dent_ok pg'" "d_max pg' = d_max pg" "d_nr_bitmap pg' = d_nr_bitmap pg" "length (d_bitmap pg') = length (d_bitmap pg)"
    "\<And>i. d_max pg \<le> i \<Longrightarrow> \<not> used pg' i" "\<And>p. p \<in> heads pg' \<Longrightarrow> hash_code (de_at pg' p) = name_hash (de_name pg' p) \<and> hash_code (de_at pg' p) = 0 \<and> file_type (de_at pg' p) < F2FS_FT_MAX"
    "inj_on (de_name pg') (heads pg')" "blk_set pg' = {([46], ino, ft_of mode), ([46, 46], pino, ft_of pmode)}"
proof -
  define p1 where "p1 = f2fs_update_dentry ino mode [46] 0 0 pg"
  have pg': "pg' = f2fs_update_dentry pino pmode [46, 46] 0 1 p1" by (simp add: pg'_def p1_def do_make_empty_dir_def)
  have h0: "heads pg = {}" using un by (simp add: heads_def)
  have n1: "[46] \<noteq> ([] :: u8 list)" "length ([46] :: u8 list) < 2 ^ 16" "[46, 46] \<noteq> ([] :: u8 list)" "length ([46, 46] :: u8 list) < 2 ^ 16" by simp_all
  have fr1: "free_run pg 0 (GET_DENTRY_SLOTS (length ([46] :: u8 list)))" using un m by (simp add: free_run_def slots_dots)
  note U1 = update_dentry_ok [OF ok n1(1,2) fr1, where ino = ino and mode = mode and h = 0, folded p1_def]
  have h1: "heads p1 = {0}" using U1(2) h0 by simp
  have s1: "de_slots p1 0 = 1" using U1(5) by (simp add: de_slots_def set_de_type_def slots_dots)
  have "\<not> used p1 1" using dent_okD(5) [OF U1(1), of 1] U1(3) m h1 s1 by auto
  then have fr2: "free_run p1 1 (GET_DENTRY_SLOTS (length ([46, 46] :: u8 list)))"
    using m U1(3) slots_dots(2) by (simp add: free_run_def numeral_2_eq_2) (metis le_less_Suc_eq less_antisym)
  note U2 = update_dentry_ok [OF U1(1) n1(3,4) fr2, where ino = pino and mode = pmode and h = 0, folded pg']
  have h2: "heads pg' = {0, 1}" using U2(2) h1 by auto
  show "dent_ok pg'" "d_max pg' = d_max pg" "d_nr_bitmap pg' = d_nr_bitmap pg" "length (d_bitmap pg') = length (d_bitmap pg)"
    using U2(1,3,7,8) U1(3,7,8) by simp_all
  show "\<And>i. d_max pg \<le> i \<Longrightarrow> \<not> used pg' i" using U2(9) U1(3,9) un by simp
  have e: "de_name pg' 0 = [46]" "de_name pg' 1 = [46, 46]" "hash_code (de_at pg' 0) = 0" "hash_code (de_at pg' 1) = 0" "de_ino (de_at pg' 0) = ino" "de_ino (de_at pg' 1) = pino"
    "file_type (de_at pg' 0) = ft_of mode" "file_type (de_at pg' 1) = ft_of pmode"
    using U2(4,5) U2(6) [of 0] U1(4,5) h1 by simp_all
  show "\<And>p. p \<in> heads pg' \<Longrightarrow> hash_code (de_at pg' p) = name_hash (de_name pg' p) \<and> hash_code (de_at pg' p) = 0 \<and> file_type (de_at pg' p) < F2FS_FT_MAX"
    using h2 e dot_hash ft_of_less by auto
  show "inj_on (de_name pg') (heads pg')" using h2 e by (simp add: inj_on_def)
  show "blk_set pg' = {([46], ino, ft_of mode), ([46, 46], pino, ft_of pmode)}" using h2 e by (simp add: blk_set_def)
qed

text \<open>A directory inode as it is made, before its first entries.\<close>

definition new_dir :: "dir_inode \<Rightarrow> bool" where
  "new_dir d \<longleftrightarrow> i_pages d = Map.empty \<and> clevel d = 0 \<and> i_current_depth d = 1 \<and>
     (FI_INLINE_DENTRY d \<longrightarrow> inline_ok d \<and> (\<forall>i. \<not> used (i_inline d) i) \<and> 2 \<le> d_max (i_inline d))"

lemma zero_bucket: "0 < depth \<Longrightarrow> in_bucket dl depth 0 0"
  by (auto simp: in_bucket_def dir_block_index_def dir_buckets_def bucket_blocks_def MAX_DIR_HASH_DEPTH_def intro!: exI [of _ 0])

lemma make_empty_dir_ok:
  assumes io: "io_ok io" and nd: "new_dir d" and f: "make_empty_dir io ino mode pino pmode d = (None, d')"
  shows "dir_ok d'" "dir_set d' = {([46], ino, ft_of mode), ([46, 46], pino, ft_of pmode)}"
proof -
  have "dir_ok d' \<and> dir_set d' = {([46], ino, ft_of mode), ([46, 46], pino, ft_of pmode)}"
  proof (cases "FI_INLINE_DENTRY d")
    case True
    have il: "inline_ok d" and un: "\<And>i. \<not> used (i_inline d) i" and m: "2 \<le> d_max (i_inline d)" using nd True by (simp_all add: new_dir_def)
    note I = inline_okD [OF il] and M = make_dots_ok [OF inline_okD(1) [OF il] un m, where ino = ino and mode = mode and pino = pino and pmode = pmode]
    have d': "i_inline d' = do_make_empty_dir ino mode pino pmode (i_inline d)" "FI_INLINE_DENTRY d'" "MAX_INLINE_DATA d' = MAX_INLINE_DATA d"
      "i_pages d' = i_pages d" "clevel d' = clevel d" "i_current_depth d' = i_current_depth d"
      using f True by (auto simp: make_empty_dir_def make_empty_inline_dir_def Let_def)
    have "inline_ok d'" unfolding inline_ok_def d' using M(1-7) I(6-12) by simp
    then show ?thesis using M(8) d'(1,2) by (simp add: dir_ok_def dir_set_def)
  next
    case False
    obtain q d1 where g: "get_new_data_page io 0 d = (q, d1)" by fastforce
    obtain pg where q: "q = Inr pg" and d': "d' = d1\<lparr>i_pages := (i_pages d1)(0 \<mapsto> do_make_empty_dir ino mode pino pmode pg)\<rparr>"
      using f False g by (auto simp: make_empty_dir_def split: sum.splits)
    have ok: "hash_ok d" using nd by (simp add: new_dir_def empty_hash_ok MAX_DIR_HASH_DEPTH_def)
    note G = get_new_page_ok [OF io g]
    have pg: "i_pages d1 0 = Some pg" by (rule G(2) [OF q])
    have pz: "i_pages d1 b = Some x \<Longrightarrow> b = 0 \<and> x = zero_block" for b x
      using g q nd False by (auto simp: get_new_data_page_def Let_def new_dir_def split: option.splits if_splits)
    have z: "pg = zero_block" using pz [OF pg] by simp
    have un: "\<not> used zero_block i" for i by (simp add: used_def test_bit_le_def arr_get_def zero_block_def)
    have m: "2 \<le> d_max zero_block" by (simp add: zero_block_ok(3) NR_DENTRY_IN_BLOCK_def)
    note M = make_dots_ok [OF zero_block_ok(1) un m, where ino = ino and mode = mode and pino = pino and pmode = pmode]
    have h1: "hash_ok d1" by (rule grown_ok(1) [OF G(1) ok])
    have s: "i_dir_level d1 = i_dir_level d" "i_current_depth d1 = 1" "FI_INLINE_DENTRY d1 = FI_INLINE_DENTRY d"
      using G(1) nd by (simp_all add: grown_def same_head_def new_dir_def)
    have pages: "i_pages d' = [0 \<mapsto> do_make_empty_dir ino mode pino pmode zero_block]"
    proof (rule ext)
      fix b show "i_pages d' b = [0 \<mapsto> do_make_empty_dir ino mode pino pmode zero_block] b"
        using pz [of b] z by (cases "i_pages d1 b") (auto simp: d')
    qed
    have "blk_ok (i_dir_level d1) 1 (i_size d1) 0 zero_block" using hash_okD(3) [OF h1 pg] s z by simp
    then have "blk_ok (i_dir_level d1) 1 (i_size d1) 0 (do_make_empty_dir ino mode pino pmode zero_block)"
      using M(1,2,6) zero_bucket [of 1] unfolding blk_ok_def by (metis less_one)
    then have "hash_ok d'" using one_page(2) [OF M(7)] hash_okD(1,2) [OF h1] s unfolding hash_ok_def pages by (simp add: d')
    then show ?thesis using False s(3) M(8) one_page(1) by (simp add: dir_ok_def dir_set_def pages) (simp add: d')
  qed
  then show "dir_ok d'" "dir_set d' = {([46], ino, ft_of mode), ([46, 46], pino, ft_of pmode)}" by blast+
qed

section \<open>A small directory\<close>

definition demo_io :: dir_io where
  "demo_io = \<lparr>read_err = (\<lambda>_. None), alloc_err = (\<lambda>b. if b < 2 ^ 31 then None else Some EFBIG), node_err = None, meta_err = None, mem_err = False,
     trunc_err = (\<lambda>_. False), fatal_signal = (\<lambda>_. False), match_name = (=), fresh_page = zero_block\<rparr>"

definition demo_dir :: dir_inode where
  "demo_dir = \<lparr>i_dir_level = 0, i_current_depth = 1, chash = 0, clevel = 0, dir_task = 0, i_size = 60, i_pages = Map.empty, FI_INLINE_DENTRY = True,
     i_inline = \<lparr>d_bitmap = [0], d_dentry = replicate 3 zero_de, d_filename = replicate 24 0, d_max = 3, d_nr_bitmap = 1\<rparr>, MAX_INLINE_DATA = 60\<rparr>"

definition demo_made :: dir_inode where
  "demo_made = snd (make_empty_dir demo_io 3 0x41ED 2 0x41ED demo_dir)"

lemma demo_io_ok: "io_ok demo_io"
  using zero_block_ok(1) by (auto simp: io_ok_def demo_io_def dent_ok_def zero_block_def)

lemma demo_dir_new: "new_dir demo_dir"
proof -
  have u: "\<not> used (i_inline demo_dir) i" for i by (simp add: used_def test_bit_le_def arr_get_def demo_dir_def)
  then have h: "heads (i_inline demo_dir) = {}" by (simp add: heads_def)
  have "dent_ok (i_inline demo_dir)" unfolding dent_ok_def h using u by (simp add: block_shape_def demo_dir_def F2FS_SLOT_LEN_def)
  then have "inline_ok demo_dir" unfolding inline_ok_def h using u
    by (simp add: demo_dir_def NR_INLINE_DENTRY_def INLINE_DENTRY_BITMAP_SIZE_def SIZE_OF_DIR_ENTRY_def F2FS_SLOT_LEN_def)
  then show ?thesis using u by (simp add: new_dir_def) (simp add: demo_dir_def)
qed

lemma demo_made_ok: "dir_ok demo_made" "dir_set demo_made = {([46], 3, 2), ([46, 46], 2, 2)}"
proof -
  have m: "make_empty_dir demo_io 3 0x41ED 2 0x41ED demo_dir = (None, demo_made)" by (simp add: demo_made_def make_empty_dir_def demo_dir_def)
  have ft: "ft_of 0x41ED = 2" by (simp add: ft_of_def set_de_type_def f2fs_type_by_mode_def S_IFMT_def S_SHIFT_def zero_de_def)
  show "dir_ok demo_made" "dir_set demo_made = {([46], 3, 2), ([46, 46], 2, 2)}"
    using make_empty_dir_ok [OF demo_io_ok demo_dir_new m] ft by simp_all
qed

text \<open>Property C26.
  \<^verbatim>\<open>f2fs_readdir\<close> for a reader that takes everything, without errors and signals: it ends with success and reports every entry of the
  directory exactly once (no name appears twice), with its inode number and the type that belongs to its file type, whether the entries are in the inode or
  spread over the blocks of the hash table.\<close>

theorem readdir_lists_all:
  assumes ok: "dir_ok d" and io: "read_err io = (\<lambda>_. None)" "fatal_signal io = (\<lambda>_. False)" "node_err io = None"
  shows "\<exists>xs pos. f2fs_readdir io take_all d ([], 0) = (None, xs, pos) \<and> distinct (map fst xs) \<and> set xs = as_listed ` dir_set d"
proof (cases "FI_INLINE_DENTRY d")
  case True
  then have il: "inline_ok d" using ok by (simp add: dir_ok_def)
  obtain pos where "f2fs_readdir io take_all d ([], 0) = (None, map (listed (i_inline d)) (heads_from (i_inline d) 0), pos)"
    using read_inline_dir_ok [OF il io(3)] True by (auto simp: f2fs_readdir_def)
  moreover have "map fst (map (listed (i_inline d)) (heads_from (i_inline d) 0)) = map (de_name (i_inline d)) (heads_from (i_inline d) 0)" by simp
  moreover have "distinct (map (de_name (i_inline d)) (heads_from (i_inline d) 0))"
    using set_heads_from [of "i_inline d"] inline_okD(4) [OF il] by (simp add: distinct_map)
  moreover have "set (map (listed (i_inline d)) (heads_from (i_inline d) 0)) = as_listed ` dir_set d"
    using set_heads_from(1) [of "i_inline d"] listed_set [of "i_inline d"] True by (simp add: dir_set_def)
  ultimately show ?thesis by metis
next
  case False
  then have ho: "hash_ok d" using ok by (simp add: dir_ok_def)
  have B: "\<forall>b pg. i_pages d b = Some pg \<longrightarrow> dent_ok pg \<and> d_max pg = NR_DENTRY_IN_BLOCK" using hash_okD(3) [OF ho] by (simp add: blk_ok_def)
  let ?xs = "concat (map (block_list d) [0..<dir_blocks d])"
  obtain pos where r: "f2fs_readdir io take_all d ([], 0) = (None, ?xs, pos)"
    using readdir_loop_ok [where d = d and q = 0 and ns = "[0..<dir_blocks d]" and c = "[]", OF io(1,2) B] False by (auto simp: f2fs_readdir_def)
  have "set (block_list d n) = as_listed ` (\<Union>pg \<in> set_option (i_pages d n). blk_set pg)" for n
    by (cases "i_pages d n") (simp_all add: block_list_def set_heads_from(1) listed_set)
  then have "set ?xs = as_listed ` (\<Union>n < dir_blocks d. \<Union>pg \<in> set_option (i_pages d n). blk_set pg)" by (auto simp: image_UN lessThan_atLeast0)
  moreover have "(\<Union>n < dir_blocks d. \<Union>pg \<in> set_option (i_pages d n). blk_set pg) = page_set (i_pages d)"
    using pages_below [OF ho] by (auto simp: page_set_def ran_def)
  ultimately have "set ?xs = as_listed ` dir_set d" using False by (simp add: dir_set_def)
  then show ?thesis using r distinct_blocks [OF ho, of "[0..<dir_blocks d]"] by simp
qed

theorem readdir_lists_all_witness:
  "\<exists>xs pos. f2fs_readdir demo_io take_all demo_made ([], 0) = (None, xs, pos) \<and> distinct (map fst xs) \<and> set xs = as_listed ` {([46], 3, 2), ([46, 46], 2, 2)}"
  using readdir_lists_all [OF demo_made_ok(1), of demo_io] demo_made_ok(2) by (simp add: demo_io_def)

end
