(* ===== verification/Dir_Runs.thy ===== *)
theory Dir_Runs
  imports Dir_List
begin

text \<open>
  Histories of a directory used by several tasks. A task links a name only after its own lookup found nothing, as the VFS does, but
  other tasks may have come in between: \<^verbatim>\<open>__f2fs_add_link\<close> decides with \<^verbatim>\<open>F2FS_I(dir)->task\<close> whether the answer can still be trusted.
  The histories refine a finite map from names to inode and type: no name is ever entered twice.
\<close>

section \<open>Steps of the directory and of the map\<close>

datatype dir_op = Lookup nat "u8 list" | Link nat "u8 list" bool u32 u16 | Unlink nat "u8 list" | Relink nat "u8 list" u32 u16

datatype dir_res = Found u32 | Absent | Done | Failed errno | Refused

type_synonym pending = "nat \<Rightarrow> u8 list option"

definition dir_lookup :: "nat \<Rightarrow> dir_io \<Rightarrow> u8 list \<Rightarrow> (dir_inode \<Rightarrow> dir_loc \<Rightarrow> dir_res \<times> dir_inode) \<Rightarrow> dir_inode \<Rightarrow> dir_res \<times> dir_inode" where
  "dir_lookup t io n act d =
     (case f2fs_find_entry t io n d of
        (Some (Inr loc), d) \<Rightarrow> act d loc
      | (Some (Inl e), d) \<Rightarrow> (Failed e, d)
      | (None, d) \<Rightarrow> (Absent, d))"

text \<open>\<open>pend t\<close> is the name that task \<open>t\<close> has just looked up in vain.\<close>

fun dir_step :: "dir_io \<Rightarrow> dir_op \<Rightarrow> dir_inode \<times> pending \<Rightarrow> (dir_res \<times> dir_inode \<times> pending) option" where
  "dir_step io (Lookup t n) (d, pend) =
     (case dir_lookup t io n (\<lambda>d loc. (Found (de_ino (de_of d loc)), d)) d of
        (r, d) \<Rightarrow> Some (r, d, pend(t := if r = Absent then Some n else None)))"
| "dir_step io (Link t n inode ino mode) (d, pend) =
     (if pend t \<noteq> Some n then Some (Refused, d, pend)
      else case f2fs_add_link t io n inode ino mode d of
             None \<Rightarrow> None
           | Some (None, d) \<Rightarrow> Some (Done, d, pend(t := None))
           | Some (Some e, d) \<Rightarrow> Some (Failed e, d, pend(t := None)))"
| "dir_step io (Unlink t n) (d, pend) =
     (case dir_lookup t io n (\<lambda>d loc. (Done, f2fs_delete_entry io loc d)) d of (r, d) \<Rightarrow> Some (r, d, pend(t := None)))"
| "dir_step io (Relink t n ino mode) (d, pend) =
     (case dir_lookup t io n (\<lambda>d loc. (Done, f2fs_set_link loc ino mode d)) d of (r, d) \<Rightarrow> Some (r, d, pend(t := None)))"

fun dir_run :: "(dir_io \<times> dir_op) list \<Rightarrow> dir_inode \<times> pending \<Rightarrow> (dir_res list \<times> dir_inode \<times> pending) option" where
  "dir_run [] s = Some ([], s)"
| "dir_run ((io, op) # ops) s =
     (case dir_step io op s of None \<Rightarrow> None
      | Some (r, s) \<Rightarrow> (case dir_run ops s of None \<Rightarrow> None | Some (rs, s) \<Rightarrow> Some (r # rs, s)))"

text \<open>The map checks an answer and says what comes next; \<open>None\<close> when the answer is wrong. A failure changes nothing.\<close>

type_synonym dir_map = "u8 list \<rightharpoonup> u32 \<times> u8"

fun map_step :: "dir_op \<Rightarrow> dir_res \<Rightarrow> dir_map \<Rightarrow> dir_map option" where
  "map_step op (Failed e) m = Some m"
| "map_step (Lookup t n) (Found i) m = (if map_option fst (m n) = Some i then Some m else None)"
| "map_step (Lookup t n) Absent m = (if m n = None then Some m else None)"
| "map_step (Link t n inode ino mode) Done m = (if m n = None then Some (m(n \<mapsto> (ino, ft_of mode))) else None)"
| "map_step (Link t n inode ino mode) Refused m = Some m"
| "map_step (Unlink t n) Done m = (if m n = None then None else Some (m(n := None)))"
| "map_step (Unlink t n) Absent m = (if m n = None then Some m else None)"
| "map_step (Relink t n ino mode) Done m = (if m n = None then None else Some (m(n \<mapsto> (ino, ft_of mode))))"
| "map_step (Relink t n ino mode) Absent m = (if m n = None then Some m else None)"
| "map_step op r m = None"

fun map_run :: "dir_op list \<Rightarrow> dir_res list \<Rightarrow> dir_map \<Rightarrow> dir_map option" where
  "map_run [] [] m = Some m"
| "map_run (op # ops) (r # rs) m = (case map_step op r m of None \<Rightarrow> None | Some m \<Rightarrow> map_run ops rs m)"
| "map_run ops rs m = None"

fun op_valid :: "dir_op \<Rightarrow> bool" where
  "op_valid (Lookup t n) \<longleftrightarrow> t \<noteq> 0 \<and> n \<noteq> [] \<and> length n < 2 ^ 16"
| "op_valid (Link t n inode ino mode) \<longleftrightarrow> t \<noteq> 0 \<and> n \<noteq> [] \<and> length n < 2 ^ 16"
| "op_valid (Unlink t n) \<longleftrightarrow> t \<noteq> 0 \<and> n \<noteq> [] \<and> length n < 2 ^ 16"
| "op_valid (Relink t n ino mode) \<longleftrightarrow> t \<noteq> 0 \<and> n \<noteq> [] \<and> length n < 2 ^ 16"

definition map_graph :: "dir_map \<Rightarrow> (u8 list \<times> u32 \<times> u8) set" where
  "map_graph m = {(n, v). m n = Some v}"

lemma graph_simps:
  "set_names (map_graph m) = dom m" "n \<notin> dom m \<Longrightarrow> insert (n, v) (map_graph m) = map_graph (m(n \<mapsto> v))"
  "{x \<in> map_graph m. fst x \<noteq> n} = map_graph (m(n := None))" "insert (n, v) (map_graph (m(n := None))) = map_graph (m(n \<mapsto> v))"
  by (auto simp: map_graph_def set_names_def image_iff dom_def split: if_splits)

text \<open>The trust in the last lookup is justified.\<close>

definition pend_ok :: "dir_inode \<Rightarrow> pending \<Rightarrow> bool" where
  "pend_ok d pend \<longleftrightarrow> pend 0 = None \<and> (\<forall>n. dir_task d \<noteq> 0 \<longrightarrow> pend (dir_task d) = Some n \<longrightarrow> n \<notin> set_names (dir_set d))"

definition refines :: "dir_inode \<times> pending \<Rightarrow> dir_map \<Rightarrow> bool" where
  "refines s m \<longleftrightarrow> dir_ok (fst s) \<and> dir_set (fst s) = map_graph m \<and> pend_ok (fst s) (snd s)"

lemma find_levels_task: "find_levels io n ls d = (r, d') \<Longrightarrow> dir_task d' = dir_task d"
proof (induction ls arbitrary: d)
  case (Cons l ls)
  obtain r1 d1 where f: "find_in_level io n l d = (r1, d1)" by fastforce
  have "dir_task d1 = dir_task d" using f by (auto simp: find_in_level_def Let_def split: prod.splits if_splits)
  then show ?case using Cons f by (cases r1) auto
qed simp

lemma find_entry_task:
  assumes "f2fs_find_entry t io n d = (r, d')"
  shows "dir_task d' = (case r of Some (Inr _) \<Rightarrow> dir_task d | _ \<Rightarrow> t)"
proof -
  obtain d1 where "dir_task d1 = dir_task d" "d' = (if case r of Some (Inr _) \<Rightarrow> True | _ \<Rightarrow> False then d1 else d1\<lparr>dir_task := t\<rparr>)"
    using assms find_levels_task [of io n _ "d\<lparr>i_current_depth := MAX_DIR_HASH_DEPTH\<rparr>"] find_levels_task [of io n _ d]
    by (fastforce simp: f2fs_find_entry_def Let_def split: prod.splits if_splits)
  then show ?thesis by (auto split: option.splits sum.splits)
qed

lemma de_of_entry: "loc_in d loc n \<Longrightarrow> (n, de_ino (de_of d loc), file_type (de_of d loc)) \<in> dir_set d"
  by (auto simp: loc_in_def de_of_def dir_set_def blk_set_def page_set_def ran_def split: dir_loc.splits)

lemma same_dir_loc: "same_dir d' d \<Longrightarrow> loc_in d' loc n = loc_in d loc n \<and> de_of d' loc = de_of d loc"
  by (cases loc) (simp_all add: same_dir_def loc_in_def de_of_def)

lemma names_graph: "dir_set d = map_graph m \<Longrightarrow> n \<in> set_names (dir_set d) \<longleftrightarrow> m n \<noteq> None"
  by (auto simp: graph_simps)

text \<open>What a lookup followed by an action on the entry gives.\<close>

lemma dir_lookup_ok:
  assumes io: "io_ok io" and ok: "dir_ok d" "dir_set d = map_graph m" and f: "dir_lookup t io n act d = (r, d')"
  shows "(\<exists>e. r = Failed e \<and> dir_ok d' \<and> dir_set d' = dir_set d \<and> dir_task d' = t) \<or>
    (r = Absent \<and> m n = None \<and> dir_ok d' \<and> dir_set d' = dir_set d \<and> dir_task d' = t) \<or>
    (\<exists>d1 loc. (r, d') = act d1 loc \<and> dir_ok d1 \<and> dir_set d1 = dir_set d \<and> dir_task d1 = dir_task d \<and> loc_in d1 loc n \<and> m n = Some (de_ino (de_of d1 loc), file_type (de_of d1 loc)))"
proof -
  obtain q d1 where F: "f2fs_find_entry t io n d = (q, d1)" by fastforce
  note E = f2fs_find_entry_ok [OF io ok(1) F] and T = find_entry_task [OF F]
  have ds: "dir_set d1 = dir_set d" using E same_dir_set by blast
  show ?thesis
  proof (cases q)
    case None
    then have "n \<notin> set_names (dir_set d)" using E loc_in_names [of d n] by blast
    then have "m n = None" using names_graph [OF ok(2), of n] by blast
    then show ?thesis using f F None E T ds by (simp add: dir_lookup_def)
  next
    case (Some x)
    show ?thesis
    proof (cases x)
      case (Inl e)
      then show ?thesis using f F Some E T ds by (auto simp: dir_lookup_def)
    next
      case (Inr loc)
      have l: "loc_in d1 loc n" using E Some Inr same_dir_loc [of d1 d loc n] by blast
      then have "m n = Some (de_ino (de_of d1 loc), file_type (de_of d1 loc))" using de_of_entry [OF l] ds ok(2) by (simp add: map_graph_def)
      moreover have "(r, d') = act d1 loc" using f F Some Inr by (simp add: dir_lookup_def)
      moreover have "dir_task d1 = dir_task d" using T Some Inr by simp
      ultimately show ?thesis using l E ds by blast
    qed
  qed
qed

lemma delete_task [simp]: "dir_task (f2fs_delete_entry io loc d) = dir_task d"
  by (simp add: f2fs_delete_entry_def f2fs_delete_inline_entry_def Let_def split: dir_loc.split option.split)

lemma set_link_task [simp]: "dir_task (f2fs_set_link loc ino mode d) = dir_task d"
  by (simp add: f2fs_set_link_def split: dir_loc.split option.split)

lemma pend_keep:
  assumes "pend_ok d pend" "dir_task d' = t \<or> dir_task d' = 0 \<or> dir_task d' = dir_task d \<and> set_names (dir_set d') \<subseteq> set_names (dir_set d)"
  shows "pend_ok d' (pend(t := None))"
  using assms by (auto simp: pend_ok_def)

section \<open>Refinement\<close>

lemma dir_step_ok:
  assumes io: "io_ok io" and v: "op_valid op" and s: "dir_ok d" "dir_set d = map_graph m" "pend_ok d pend"
  shows "\<exists>r d' p' m'. dir_step io op (d, pend) = Some (r, d', p') \<and> map_step op r m = Some m' \<and> refines (d', p') m'"
proof (cases op)
  case (Lookup t n)
  obtain r d' where f: "dir_lookup t io n (\<lambda>d loc. (Found (de_ino (de_of d loc)), d)) d = (r, d')" by fastforce
  have st: "dir_step io op (d, pend) = Some (r, d', pend(t := if r = Absent then Some n else None))" using f Lookup by simp
  have t: "t \<noteq> 0" using v Lookup by simp
  from dir_lookup_ok [OF io s(1,2) f] consider
      (err) e where "r = Failed e" "dir_ok d'" "dir_set d' = dir_set d" "dir_task d' = t"
    | (none) "r = Absent" "m n = None" "dir_ok d'" "dir_set d' = dir_set d" "dir_task d' = t"
    | (hit) loc where "r = Found (de_ino (de_of d' loc))" "dir_ok d'" "dir_set d' = dir_set d" "dir_task d' = dir_task d" "m n = Some (de_ino (de_of d' loc), file_type (de_of d' loc))"
    by auto
  then show ?thesis
  proof cases
    case err
    then have "pend_ok d' (pend(t := None))" using pend_keep [OF s(3), of d' t] by simp
    then show ?thesis unfolding st refines_def using err s(2) Lookup by simp
  next
    case none
    have "n \<notin> set_names (dir_set d')" using none names_graph [OF s(2), of n] by simp
    then have "pend_ok d' (pend(t \<mapsto> n))" using s(3) none(5) t by (simp add: pend_ok_def)
    then show ?thesis unfolding st refines_def using none s(2) Lookup by simp
  next
    case hit
    then have "pend_ok d' (pend(t := None))" using pend_keep [OF s(3), of d' t] by simp
    then show ?thesis unfolding st refines_def using hit s(2) Lookup by simp
  qed
next
  case (Link t n inode ino mode)
  show ?thesis
  proof (cases "pend t = Some n")
    case False
    then show ?thesis using s Link by (simp add: refines_def)
  next
    case True
    have v: "t \<noteq> 0" "n \<noteq> []" "length n < 2 ^ 16" using v Link by simp_all
    have tr: "t = dir_task d \<Longrightarrow> n \<notin> set_names (dir_set d)" using s(3) True v(1) by (simp add: pend_ok_def)
    obtain r d' where A: "f2fs_add_link t io n inode ino mode d = Some (r, d')" "dir_ok d'" "dir_task d' = 0 \<or> dir_task d' = t"
      "dir_set d' = (if r = None then insert (n, ino, ft_of mode) (dir_set d) else dir_set d)" "r = None \<Longrightarrow> n \<notin> set_names (dir_set d)"
      using add_link_ok [OF io s(1) v(2,3) tr, where inode = inode and ino = ino and mode = mode] by blast
    have p: "pend_ok d' (pend(t := None))" using pend_keep [OF s(3), of d' t] A(3) by blast
    show ?thesis
    proof (cases r)
      case None
      then have "n \<notin> dom m" using A(5) names_graph [OF s(2), of n] by auto
      then have "dir_set d' = map_graph (m(n \<mapsto> (ino, ft_of mode)))" "m n = None" using A(4) None s(2) graph_simps(2) by auto
      then show ?thesis using A(1,2) None p Link True by (simp add: refines_def)
    next
      case (Some e)
      then show ?thesis using A(1,2,4) p Link True s(2) by (simp add: refines_def)
    qed
  qed
next
  case (Unlink t n)
  obtain r d' where f: "dir_lookup t io n (\<lambda>d loc. (Done, f2fs_delete_entry io loc d)) d = (r, d')" by fastforce
  have st: "dir_step io op (d, pend) = Some (r, d', pend(t := None))" using f Unlink by simp
  from dir_lookup_ok [OF io s(1,2) f] consider
      (err) e where "r = Failed e" "dir_ok d'" "dir_set d' = dir_set d" "dir_task d' = t"
    | (none) "r = Absent" "m n = None" "dir_ok d'" "dir_set d' = dir_set d" "dir_task d' = t"
    | (hit) d1 loc v where "r = Done" "d' = f2fs_delete_entry io loc d1" "dir_ok d1" "dir_set d1 = dir_set d" "dir_task d1 = dir_task d" "loc_in d1 loc n" "m n = Some v"
    by auto
  then show ?thesis
  proof cases
    case err
    then show ?thesis unfolding st refines_def using s(2) Unlink pend_keep [OF s(3), of d' t] by simp
  next
    case none
    then show ?thesis unfolding st refines_def using s(2) Unlink pend_keep [OF s(3), of d' t] by simp
  next
    case hit
    note D = delete_entry_ok [OF io hit(3,6)]
    have g: "dir_set d' = map_graph (m(n := None))" using D hit(2,4) s(2) graph_simps(3) by simp
    have "set_names (dir_set d') \<subseteq> set_names (dir_set d)" using D hit(2,4) by (auto simp: set_names_def)
    then have "pend_ok d' (pend(t := None))" using pend_keep [OF s(3), of d' t] hit(2,5) by simp
    then show ?thesis unfolding st refines_def using g hit(1,2,7) D Unlink by simp
  qed
next
  case (Relink t n ino mode)
  obtain r d' where f: "dir_lookup t io n (\<lambda>d loc. (Done, f2fs_set_link loc ino mode d)) d = (r, d')" by fastforce
  have st: "dir_step io op (d, pend) = Some (r, d', pend(t := None))" using f Relink by simp
  from dir_lookup_ok [OF io s(1,2) f] consider
      (err) e where "r = Failed e" "dir_ok d'" "dir_set d' = dir_set d" "dir_task d' = t"
    | (none) "r = Absent" "m n = None" "dir_ok d'" "dir_set d' = dir_set d" "dir_task d' = t"
    | (hit) d1 loc v where "r = Done" "d' = f2fs_set_link loc ino mode d1" "dir_ok d1" "dir_set d1 = dir_set d" "dir_task d1 = dir_task d" "loc_in d1 loc n" "m n = Some v"
    by auto
  then show ?thesis
  proof cases
    case err
    then show ?thesis unfolding st refines_def using s(2) Relink pend_keep [OF s(3), of d' t] by simp
  next
    case none
    then show ?thesis unfolding st refines_def using s(2) Relink pend_keep [OF s(3), of d' t] by simp
  next
    case hit
    note D = set_link_ok [OF hit(3,6), of ino mode]
    have g: "dir_set d' = map_graph (m(n \<mapsto> (ino, ft_of mode)))" using D hit(2,4) s(2) graph_simps(3,4) by simp
    have "set_names (dir_set d') \<subseteq> set_names (dir_set d)" using g s(2) hit(7) by (auto simp: graph_simps)
    then have "pend_ok d' (pend(t := None))" using pend_keep [OF s(3), of d' t] hit(2,5) by simp
    then show ?thesis unfolding st refines_def using g hit(1,2,7) D Relink by simp
  qed
qed


lemma dir_run_ok:
  assumes "list_all (\<lambda>x. io_ok (fst x) \<and> op_valid (snd x)) ops" "refines s m"
  shows "\<exists>rs s' m'. dir_run ops s = Some (rs, s') \<and> map_run (map snd ops) rs m = Some m' \<and> refines s' m'"
  using assms
proof (induction ops arbitrary: s m)
  case (Cons x ops)
  obtain io op d pend where x: "x = (io, op)" "s = (d, pend)" by (cases x, cases s) auto
  have "io_ok io" "op_valid op" "dir_ok d" "dir_set d = map_graph m" "pend_ok d pend" using Cons.prems x by (simp_all add: refines_def)
  from dir_step_ok [OF this] obtain r d' p' m1 where S: "dir_step io op s = Some (r, d', p')" "map_step op r m = Some m1" "refines (d', p') m1"
    unfolding x by blast
  have "list_all (\<lambda>x. io_ok (fst x) \<and> op_valid (snd x)) ops" using Cons.prems(1) by simp
  from Cons.IH [OF this S(3)] show ?case using S(1,2) x(1) by fastforce
qed simp

text \<open>Property C10.
  Any history of lookups, links, removals and redirections by any tasks on a well-formed directory ends (no operation loops), gives only answers that a
  finite map from names to inode number and file type allows, and leaves a well-formed directory whose entries are exactly that map. This includes errors of
  the disk or of memory in the middle of an operation, which leave the map as it was, the move of the entries from the inode to blocks, and links that follow an outdated
  lookup.\<close>

theorem dir_run_refines_map:
  assumes "list_all (\<lambda>x. io_ok (fst x) \<and> op_valid (snd x)) ops" "dir_ok d" "dir_set d = map_graph m"
  shows "\<exists>rs d' pend m'. dir_run ops (d, \<lambda>_. None) = Some (rs, d', pend) \<and> map_run (map snd ops) rs m = Some m' \<and> dir_ok d' \<and> dir_set d' = map_graph m'"
proof -
  have "refines (d, \<lambda>_. None) m" using assms(2,3) by (simp add: refines_def pend_ok_def)
  from dir_run_ok [OF assms(1) this] show ?thesis by (fastforce simp: refines_def)
qed

text \<open>Two tasks race for a name in a directory with room for three slots, so that the entries move to blocks.\<close>

definition demo_ops :: "(dir_io \<times> dir_op) list" where
  "demo_ops = map (Pair demo_io) [Lookup 1 [97], Lookup 2 [97], Link 2 [97] True 10 0x81A4, Link 1 [97] True 11 0x81A4,
     Lookup 1 [98, 99], Link 1 [98, 99] True 12 0x41ED, Relink 2 [97] 13 0x81A4, Unlink 1 [98, 99]]"

lemma demo_ops_ok: "list_all (\<lambda>x. io_ok (fst x) \<and> op_valid (snd x)) demo_ops"
  using demo_io_ok by (simp add: demo_ops_def)

theorem dir_run_refines_map_witness:
  "\<exists>rs d' pend m'. dir_run demo_ops (demo_made, \<lambda>_. None) = Some (rs, d', pend) \<and>
     map_run (map snd demo_ops) rs [[46] \<mapsto> (3, 2), [46, 46] \<mapsto> (2, 2)] = Some m' \<and> dir_ok d' \<and> dir_set d' = map_graph m'"
proof (rule dir_run_refines_map [OF demo_ops_ok demo_made_ok(1)])
  show "dir_set demo_made = map_graph [[46] \<mapsto> (3, 2), [46, 46] \<mapsto> (2, 2)]"
    unfolding demo_made_ok(2) by (auto simp: map_graph_def split: if_splits)
qed

end
