(* ===== verification/Byte_Block.thy ===== *)
theory Byte_Block
  imports F2fs_Prelude
begin

text \<open>
  Structures in byte arrays: reading and writing a range of bytes and little-endian numbers. Used where the code works on a block both as a
  structure and as bytes, as for the checksum of a checkpoint.
\<close>

definition get_bytes :: "nat \<Rightarrow> nat \<Rightarrow> u8 list \<Rightarrow> u8 list" where
  "get_bytes off n b = take n (drop off b)"

definition put_bytes :: "nat \<Rightarrow> u8 list \<Rightarrow> u8 list \<Rightarrow> u8 list" where
  "put_bytes off bs b = (if off + length bs \<le> length b then take off b @ bs @ drop (off + length bs) b else b)"

definition le64_bytes :: "u64 \<Rightarrow> u8 list" where
  "le64_bytes w = le32_bytes (ucast w) @ le32_bytes (ucast (drop_bit 32 w))"

definition get16 :: "nat \<Rightarrow> u8 list \<Rightarrow> u16" where "get16 off b = le_word (get_bytes off 2 b)"
definition get32 :: "nat \<Rightarrow> u8 list \<Rightarrow> u32" where "get32 off b = le_word (get_bytes off 4 b)"
definition get64 :: "nat \<Rightarrow> u8 list \<Rightarrow> u64" where "get64 off b = le_word (get_bytes off 8 b)"

lemma length_le64_bytes [simp]: "length (le64_bytes w) = 8"
  by (simp add: le64_bytes_def)

lemma le64_roundtrip [simp]: "le_word (le64_bytes w) = w"
proof (rule bit_word_eqI)
  fix n assume "n < LENGTH(64)"
  then consider "n < 8" | "8 \<le> n \<and> n < 16" | "16 \<le> n \<and> n < 24" | "24 \<le> n \<and> n < 32" | "32 \<le> n \<and> n < 40" | "40 \<le> n \<and> n < 48" | "48 \<le> n \<and> n < 56" | "56 \<le> n \<and> n < 64"
    by fastforce
  then show "bit (le_word (le64_bytes w) :: u64) n = bit w n"
    by cases (auto simp: le64_bytes_def le32_bytes_def bit_simps)
qed

lemma length_put [simp]: "length (put_bytes off bs b) = length b"
  by (simp add: put_bytes_def)

lemma get_put_same: "off + length bs \<le> length b \<Longrightarrow> get_bytes off (length bs) (put_bytes off bs b) = bs"
  by (simp add: get_bytes_def put_bytes_def)

lemma get_put_sub:
  assumes "off + length bs \<le> length b" "off \<le> a" "a + n \<le> off + length bs"
  shows "get_bytes a n (put_bytes off bs b) = get_bytes (a - off) n bs"
proof -
  have "drop a (take off b @ bs @ drop (off + length bs) b) = drop (a - off) bs @ drop (off + length bs) b" using assms by simp
  then show ?thesis using assms by (simp add: get_bytes_def put_bytes_def)
qed

lemma get_put_before:
  assumes "a + n \<le> off"
  shows "get_bytes a n (put_bytes off bs b) = get_bytes a n b"
proof (cases "off + length bs \<le> length b")
  case True
  have l: "n \<le> off - a" "off - a \<le> length (drop a b)" using assms True by simp_all
  have "drop a (take off b @ bs @ drop (off + length bs) b) = take (off - a) (drop a b) @ bs @ drop (off + length bs) b" using assms True by (simp add: drop_take)
  then have "take n (drop a (put_bytes off bs b)) = take n (take (off - a) (drop a b))" using l True by (simp add: put_bytes_def)
  then show ?thesis using l(1) by (simp add: get_bytes_def min_def)
qed (simp add: put_bytes_def)

lemma get_put_after: "off + length bs \<le> a \<Longrightarrow> get_bytes a n (put_bytes off bs b) = get_bytes a n b"
  by (simp add: get_bytes_def put_bytes_def)

lemma get_put_other: "a + n \<le> off \<or> off + length bs \<le> a \<Longrightarrow> get_bytes a n (put_bytes off bs b) = get_bytes a n b"
  using get_put_before get_put_after by blast

lemma take_put: "n \<le> off \<Longrightarrow> take n (put_bytes off bs b) = take n b"
  using get_put_before [of 0 n off bs b] by (simp add: get_bytes_def)

lemma get32_put [simp]: "off + 4 \<le> length b \<Longrightarrow> get32 off (put_bytes off (le32_bytes w) b) = w"
  using get_put_same [of off "le32_bytes w" b] by (simp add: get32_def)

lemma get64_put [simp]: "off + 8 \<le> length b \<Longrightarrow> get64 off (put_bytes off (le64_bytes w) b) = w"
  using get_put_same [of off "le64_bytes w" b] by (simp add: get64_def)

lemma get32_put_other: "a + 4 \<le> off \<or> off + length bs \<le> a \<Longrightarrow> get32 a (put_bytes off bs b) = get32 a b"
  by (simp add: get32_def get_put_other)

lemma get64_put_other: "a + 8 \<le> off \<or> off + length bs \<le> a \<Longrightarrow> get64 a (put_bytes off bs b) = get64 a b"
  by (simp add: get64_def get_put_other)

lemma get16_put_other: "a + 2 \<le> off \<or> off + length bs \<le> a \<Longrightarrow> get16 a (put_bytes off bs b) = get16 a b"
  by (simp add: get16_def get_put_other)

lemma get_take: "a + n \<le> m \<Longrightarrow> get_bytes a n (take m b) = get_bytes a n b"
  by (simp add: get_bytes_def drop_take min_def)

end
