(* ===== verification/Super_Check.thy ===== *)
theory Super_Check
  imports F2fs_Prelude
begin

text \<open>
  The super block (\<^verbatim>\<open>super.c\<close>): the checks at mount, with the C code's 32 and 64 bit arithmetic, the choice between its
  two copies and the order in which they are written. When the areas fit into 32 bit block addresses, a super block that passes
  has adjacent areas and a segment count that is their sum; without that the shifts wrap and the checks let other layouts pass. A crash while the
  copies are written leaves one of them usable.
\<close>

section \<open>The checks\<close>

record f2fs_device =
  path :: "u8 list"
  total_segments :: u32

record f2fs_super_block =
  magic :: u32
  major_ver :: u16
  minor_ver :: u16
  log_sectorsize :: u32
  log_sectors_per_block :: u32
  log_blocksize :: u32
  log_blocks_per_seg :: u32
  segs_per_sec :: u32
  secs_per_zone :: u32
  checksum_offset :: u32
  block_count :: u64
  section_count :: u32
  segment_count :: u32
  segment_count_ckpt :: u32
  segment_count_sit :: u32
  segment_count_nat :: u32
  segment_count_ssa :: u32
  segment_count_main :: u32
  segment0_blkaddr :: u32
  cp_blkaddr :: u32
  sit_blkaddr :: u32
  nat_blkaddr :: u32
  ssa_blkaddr :: u32
  main_blkaddr :: u32
  root_ino :: u32
  node_ino :: u32
  meta_ino :: u32
  uuid :: "u8 list"
  volume_name :: "u16 list"
  extension_count :: u32
  extension_list :: "u8 list list"
  cp_payload :: u32
  version :: "u8 list"
  init_version :: "u8 list"
  feature :: u32
  encryption_level :: u8
  encrypt_pw_salt :: "u8 list"
  devs :: "f2fs_device list"
  qf_ino :: "u32 list"
  sb_reserved :: "u8 list"

definition F2FS_SUPER_MAGIC :: u32 where "F2FS_SUPER_MAGIC = 0xF2F52010"
definition F2FS_BLKSIZE :: u32 where "F2FS_BLKSIZE = 4096"
definition F2FS_MAX_LOG_SECTOR_SIZE :: u32 where "F2FS_MAX_LOG_SECTOR_SIZE = 12"
definition F2FS_MIN_LOG_SECTOR_SIZE :: u32 where "F2FS_MIN_LOG_SECTOR_SIZE = 9"
definition F2FS_MAX_SEGMENT :: u32 where "F2FS_MAX_SEGMENT = (16 * 1024 * 1024) div 2"

definition shl :: "u32 \<Rightarrow> u32 \<Rightarrow> u32" where
  "shl x n = push_bit (unat n) x"

text \<open>
  \<open>readonly\<close>: the file system or its device is; \<open>commit_err\<close>: writing the corrected super block fails. The result says whether the check fails, the
  super block in the buffer, and whether it still has to be written.
\<close>

definition sanity_check_area_boundary :: "bool \<Rightarrow> bool \<Rightarrow> f2fs_super_block \<Rightarrow> bool \<times> f2fs_super_block \<times> bool" where
  "sanity_check_area_boundary readonly commit_err raw =
     (let log = log_blocks_per_seg raw;
          main_end_blkaddr = (ucast (main_blkaddr raw + shl (segment_count_main raw) log) :: u64);
          seg_end_blkaddr = (ucast (segment0_blkaddr raw + shl (segment_count raw) log) :: u64)
      in if segment0_blkaddr raw \<noteq> cp_blkaddr raw then (True, raw, False)
         else if cp_blkaddr raw + shl (segment_count_ckpt raw) log \<noteq> sit_blkaddr raw then (True, raw, False)
         else if sit_blkaddr raw + shl (segment_count_sit raw) log \<noteq> nat_blkaddr raw then (True, raw, False)
         else if nat_blkaddr raw + shl (segment_count_nat raw) log \<noteq> ssa_blkaddr raw then (True, raw, False)
         else if ssa_blkaddr raw + shl (segment_count_ssa raw) log \<noteq> main_blkaddr raw then (True, raw, False)
         else if main_end_blkaddr > seg_end_blkaddr then (True, raw, False)
         else if main_end_blkaddr < seg_end_blkaddr then
           let raw = raw\<lparr>segment_count := ucast (drop_bit (unat log) (main_end_blkaddr - ucast (segment0_blkaddr raw)))\<rparr>
           in if readonly then (False, raw, True) else (commit_err, raw, False)
         else (False, raw, False))"

definition sanity_check_raw_super :: "bool \<Rightarrow> bool \<Rightarrow> f2fs_super_block \<Rightarrow> bool \<times> f2fs_super_block \<times> bool" where
  "sanity_check_raw_super readonly commit_err raw =
     (if F2FS_SUPER_MAGIC \<noteq> magic raw then (True, raw, False)
      else if shl 1 (log_blocksize raw) \<noteq> F2FS_BLKSIZE then (True, raw, False)
      else if log_blocks_per_seg raw \<noteq> 9 then (True, raw, False)
      else if log_sectorsize raw > F2FS_MAX_LOG_SECTOR_SIZE \<or> log_sectorsize raw < F2FS_MIN_LOG_SECTOR_SIZE then (True, raw, False)
      else if log_sectors_per_block raw + log_sectorsize raw \<noteq> F2FS_MAX_LOG_SECTOR_SIZE then (True, raw, False)
      else if node_ino raw \<noteq> 1 \<or> meta_ino raw \<noteq> 2 \<or> root_ino raw \<noteq> 3 then (True, raw, False)
      else if segment_count raw > F2FS_MAX_SEGMENT then (True, raw, False)
      else sanity_check_area_boundary readonly commit_err raw)"

section \<open>The two copies\<close>

text \<open>A block of the device is \<open>None\<close> when it cannot be read.\<close>

definition read_super_step :: "bool \<Rightarrow> (nat \<Rightarrow> bool) \<Rightarrow> (nat \<Rightarrow> f2fs_super_block option) \<Rightarrow> nat \<Rightarrow>
    (f2fs_super_block \<times> nat) option \<times> errno option \<Rightarrow> (f2fs_super_block \<times> nat) option \<times> errno option" where
  "read_super_step readonly commit_err dev block st =
     (case st of (raw_super, err) \<Rightarrow>
        case dev block of None \<Rightarrow> (raw_super, Some EIO)
        | Some raw \<Rightarrow>
            (case sanity_check_raw_super readonly (commit_err block) raw of (failed, raw, _) \<Rightarrow>
               if failed then (raw_super, Some EINVAL)
               else (case raw_super of None \<Rightarrow> (Some (raw, block), err) | Some x \<Rightarrow> (Some x, err))))"

text \<open>The super block and the number of its copy, or an error; and whether a copy has to be repaired.\<close>

definition read_raw_super_block :: "bool \<Rightarrow> (nat \<Rightarrow> bool) \<Rightarrow> (nat \<Rightarrow> f2fs_super_block option) \<Rightarrow> (errno + f2fs_super_block \<times> nat) \<times> bool" where
  "read_raw_super_block readonly commit_err dev =
     (case fold (read_super_step readonly commit_err dev) [0, 1] (None, None) of
        (Some x, err) \<Rightarrow> (Inr x, err \<noteq> None)
      | (None, err) \<Rightarrow> (Inl (case err of Some e \<Rightarrow> e | None \<Rightarrow> EIO), err \<noteq> None))"

text \<open>The result code and the writes in their order; \<open>getblk_err\<close> and \<open>write_err\<close> are the failures of the buffer cache.\<close>

definition f2fs_commit_super :: "bool \<Rightarrow> bool \<Rightarrow> bool \<Rightarrow> (nat \<Rightarrow> bool) \<Rightarrow> (nat \<Rightarrow> errno option) \<Rightarrow> nat \<Rightarrow> f2fs_super_block \<Rightarrow>
    errno option \<times> (nat \<times> f2fs_super_block) list" where
  "f2fs_commit_super recover readonly bdev_read_only getblk_err write_err valid_super_block raw =
     (if (recover \<and> readonly) \<or> bdev_read_only then (Some EROFS, [])
      else
        let other = (if valid_super_block \<noteq> 0 then 0 else 1)
        in if getblk_err other then (Some EIO, [])
           else if recover \<or> write_err other \<noteq> None then (write_err other, [(other, raw)])
           else if getblk_err valid_super_block then (Some EIO, [(other, raw)])
           else (write_err valid_super_block, [(other, raw), (valid_super_block, raw)]))"

section \<open>What the checks give\<close>

definition layout_fits :: "f2fs_super_block \<Rightarrow> bool" where
  "layout_fits raw \<longleftrightarrow>
     unat (segment0_blkaddr raw) + (unat (segment_count_ckpt raw) + unat (segment_count_sit raw) + unat (segment_count_nat raw) +
       unat (segment_count_ssa raw) + unat (segment_count_main raw)) * 512 < 2 ^ 32 \<and>
     unat (segment0_blkaddr raw) + unat (segment_count raw) * 512 < 2 ^ 32"

lemma shl_9:
  assumes "unat a + unat x * 512 < 2 ^ 32"
  shows "unat (a + shl x 9) = unat a + unat x * 512"
proof -
  have "unat (shl x 9) = unat x * 512" using assms by (simp add: shl_def push_bit_eq_mult unat_word_ariths)
  then show ?thesis using assms by (simp add: unat_plus_if')
qed

lemma add_check: "a + shl x 9 = b \<Longrightarrow> unat a + unat x * 512 < 2 ^ 32 \<Longrightarrow> unat b = unat a + unat x * 512"
  using shl_9 [of a x] by simp

text \<open>Property C38.
  A super block that passes \<^verbatim>\<open>sanity_check_raw_super\<close> and whose areas fit into 32 bit block addresses has the areas one after the other, each as long as its segment
  count says, and the number of segments (corrected in memory if the super block said more) is exactly the sum of the areas.\<close>

theorem raw_super_layout:
  assumes chk: "sanity_check_raw_super readonly commit_err raw = (False, raw', wr)" and fits: "layout_fits raw"
  shows "unat (sit_blkaddr raw') = unat (cp_blkaddr raw') + unat (segment_count_ckpt raw') * 512 \<and>
    unat (nat_blkaddr raw') = unat (sit_blkaddr raw') + unat (segment_count_sit raw') * 512 \<and>
    unat (ssa_blkaddr raw') = unat (nat_blkaddr raw') + unat (segment_count_nat raw') * 512 \<and>
    unat (main_blkaddr raw') = unat (ssa_blkaddr raw') + unat (segment_count_ssa raw') * 512 \<and>
    unat (segment_count raw') = unat (segment_count_ckpt raw') + unat (segment_count_sit raw') + unat (segment_count_nat raw') +
      unat (segment_count_ssa raw') + unat (segment_count_main raw') \<and>
    cp_blkaddr raw' = segment0_blkaddr raw' \<and> unat (segment_count raw') \<le> unat (segment_count raw)"
proof -
  let ?s0 = "unat (segment0_blkaddr raw)" and ?ck = "unat (segment_count_ckpt raw)" and ?si = "unat (segment_count_sit raw)"
    and ?na = "unat (segment_count_nat raw)" and ?ss = "unat (segment_count_ssa raw)" and ?ma = "unat (segment_count_main raw)" and ?sc = "unat (segment_count raw)"
  have l9: "log_blocks_per_seg raw = 9" and ab: "sanity_check_area_boundary readonly commit_err raw = (False, raw', wr)"
    using chk by (auto simp: sanity_check_raw_super_def split: if_splits)
  let ?me = "main_blkaddr raw + shl (segment_count_main raw) 9" and ?se = "segment0_blkaddr raw + shl (segment_count raw) 9"
  have eqs: "segment0_blkaddr raw = cp_blkaddr raw" "cp_blkaddr raw + shl (segment_count_ckpt raw) 9 = sit_blkaddr raw"
    "sit_blkaddr raw + shl (segment_count_sit raw) 9 = nat_blkaddr raw" "nat_blkaddr raw + shl (segment_count_nat raw) 9 = ssa_blkaddr raw"
    "ssa_blkaddr raw + shl (segment_count_ssa raw) 9 = main_blkaddr raw" "\<not> (ucast ?me :: u64) > ucast ?se"
    and raw': "raw' = (if (ucast ?me :: u64) < ucast ?se then raw\<lparr>segment_count := ucast (drop_bit 9 ((ucast ?me :: u64) - ucast (segment0_blkaddr raw)))\<rparr> else raw)"
    using ab unfolding sanity_check_area_boundary_def Let_def l9 by (auto split: if_splits)
  have F: "?s0 + (?ck + ?si + ?na + ?ss + ?ma) * 512 < 2 ^ 32" "?s0 + ?sc * 512 < 2 ^ 32" using fits by (simp_all add: layout_fits_def)
  have cp: "unat (cp_blkaddr raw) = ?s0" using eqs(1) by simp
  have si: "unat (sit_blkaddr raw) = ?s0 + ?ck * 512" using add_check [OF eqs(2)] F cp by simp
  have na: "unat (nat_blkaddr raw) = ?s0 + (?ck + ?si) * 512" using add_check [OF eqs(3)] F si by simp
  have ss: "unat (ssa_blkaddr raw) = ?s0 + (?ck + ?si + ?na) * 512" using add_check [OF eqs(4)] F na by simp
  have ma: "unat (main_blkaddr raw) = ?s0 + (?ck + ?si + ?na + ?ss) * 512" using add_check [OF eqs(5)] F ss by simp
  have me: "unat ?me = ?s0 + (?ck + ?si + ?na + ?ss + ?ma) * 512" using shl_9 [of "main_blkaddr raw" "segment_count_main raw"] F ma by simp
  have se: "unat ?se = ?s0 + ?sc * 512" by (rule shl_9 [OF F(2)])
  have u64: "unat (ucast x :: u64) = unat (x :: u32)" for x
  proof -
    have "unat x < 2 ^ LENGTH(32)" by (rule unsigned_less)
    then have "unat x < 2 ^ 64" by simp
    then show ?thesis by (simp add: unsigned_ucast_eq take_bit_nat_eq_self)
  qed
  have le: "?ck + ?si + ?na + ?ss + ?ma \<le> ?sc"
  proof -
    have "unat (ucast ?me :: u64) \<le> unat (ucast ?se :: u64)" using eqs(6) unfolding not_less word_le_nat_alt .
    then show ?thesis unfolding u64 me se by simp
  qed
  have sc': "unat (segment_count raw') = ?ck + ?si + ?na + ?ss + ?ma"
  proof (cases "(ucast ?me :: u64) < ucast ?se")
    case True
    have "unat ((ucast ?me :: u64) - ucast (segment0_blkaddr raw)) = (?ck + ?si + ?na + ?ss + ?ma) * 512"
    proof -
      have "(ucast (segment0_blkaddr raw) :: u64) \<le> ucast ?me" unfolding word_le_nat_alt u64 me by simp
      then show ?thesis unfolding unat_sub [OF \<open>(ucast (segment0_blkaddr raw) :: u64) \<le> ucast ?me\<close>] u64 me by simp
    qed
    moreover have db: "unat (drop_bit 9 w) = unat w div 512" for w :: u64
      unfolding unat_drop_bit_eq unfolding drop_bit_eq_div by simp
    ultimately have d: "unat (drop_bit 9 ((ucast ?me :: u64) - ucast (segment0_blkaddr raw))) = ?ck + ?si + ?na + ?ss + ?ma"
      unfolding db by simp
    have "?ck + ?si + ?na + ?ss + ?ma < 2 ^ 32" using F(1) by simp
    then show ?thesis unfolding raw' if_P [OF True] using d by (simp add: unsigned_ucast_eq take_bit_nat_eq_self)
  next
    case False
    then have "(ucast ?me :: u64) = ucast ?se" using eqs(6) by simp
    then have "unat ?me = unat ?se" by (metis u64)
    then show ?thesis unfolding raw' if_not_P [OF False] using me se by simp
  qed
  have same: "sit_blkaddr raw' = sit_blkaddr raw" "nat_blkaddr raw' = nat_blkaddr raw" "ssa_blkaddr raw' = ssa_blkaddr raw" "main_blkaddr raw' = main_blkaddr raw"
    "cp_blkaddr raw' = cp_blkaddr raw" "segment0_blkaddr raw' = segment0_blkaddr raw" "segment_count_ckpt raw' = segment_count_ckpt raw"
    "segment_count_sit raw' = segment_count_sit raw" "segment_count_nat raw' = segment_count_nat raw" "segment_count_ssa raw' = segment_count_ssa raw"
    "segment_count_main raw' = segment_count_main raw" by (simp_all add: raw')
  show ?thesis unfolding same sc' si na ss ma cp using eqs(1) le by (simp add: add_mult_distrib)
qed

text \<open>A layout without wrap-around.\<close>

definition demo_super :: f2fs_super_block where
  "demo_super = \<lparr>magic = F2FS_SUPER_MAGIC, major_ver = 1, minor_ver = 9, log_sectorsize = 9, log_sectors_per_block = 3, log_blocksize = 12, log_blocks_per_seg = 9, segs_per_sec = 1,
     secs_per_zone = 1, checksum_offset = 0, block_count = 15360, section_count = 20, segment_count = 30, segment_count_ckpt = 2, segment_count_sit = 2, segment_count_nat = 2, segment_count_ssa = 1,
     segment_count_main = 20, segment0_blkaddr = 512, cp_blkaddr = 512, sit_blkaddr = 1536, nat_blkaddr = 2560, ssa_blkaddr = 3584, main_blkaddr = 4096,
     root_ino = 3, node_ino = 1, meta_ino = 2, uuid = replicate 16 0, volume_name = replicate 512 0, extension_count = 0, extension_list = replicate 64 (replicate 8 0), cp_payload = 0,
     version = replicate 256 0, init_version = replicate 256 0, feature = 0, encryption_level = 0, encrypt_pw_salt = replicate 16 0, devs = [], qf_ino = [0, 0, 0], sb_reserved = replicate 315 0\<rparr>"

lemmas super_eval = sanity_check_raw_super_def sanity_check_area_boundary_def demo_super_def shl_def F2FS_BLKSIZE_def
      F2FS_MAX_LOG_SECTOR_SIZE_def F2FS_MIN_LOG_SECTOR_SIZE_def F2FS_MAX_SEGMENT_def

lemma demo_super_check: "sanity_check_raw_super False False demo_super = (False, demo_super\<lparr>segment_count := 27\<rparr>, False)"
  by (simp add: super_eval)

theorem raw_super_layout_witness: "unat (segment_count (demo_super\<lparr>segment_count := 27\<rparr>)) = 2 + 2 + 2 + 1 + 20"
proof -
  have "layout_fits demo_super" by (simp add: layout_fits_def demo_super_def)
  from raw_super_layout [OF demo_super_check this] show ?thesis by (simp add: demo_super_def)
qed

text \<open>
  The shifts are done in 32 bits, so without \<^const>\<open>layout_fits\<close> the checks do not see the size of an area: a main area longer by \<open>2 ^ 23\<close> segments passes whenever the given one does. Neither
  do they see the segments of a section and the sections of a zone, by which the mount divides later.\<close>

lemma raw_super_wraps:
  "fst (sanity_check_raw_super ro ce (raw\<lparr>segment_count_main := segment_count_main raw + 0x800000, segs_per_sec := a, secs_per_zone := b\<rparr>)) =
   fst (sanity_check_raw_super ro ce raw)"
proof -
  have n: "unat (9 :: u32) = 9" by simp
  have "(0x800000 :: u32) * 2 ^ 9 = 2 ^ LENGTH(32)" by (simp add: power_add [symmetric] del: word_exp_length_eq_0)
  then have z: "(0x800000 :: u32) * 2 ^ 9 = 0" by (simp only: word_exp_length_eq_0)
  have s: "shl (x + 0x800000) 9 = shl x 9" for x unfolding shl_def n push_bit_eq_mult distrib_right z by (rule add_0_right)
  show ?thesis
  proof (cases "log_blocks_per_seg raw = 9")
    case True
    then show ?thesis by (simp add: sanity_check_raw_super_def sanity_check_area_boundary_def Let_def s)
  next
    case False
    then show ?thesis by (simp add: sanity_check_raw_super_def)
  qed
qed

section \<open>A crash while the copies are written\<close>

text \<open>The first \<open>k\<close> writes reached the device; the next one, if any, left its block as \<open>torn\<close>.\<close>

definition crash_writes :: "(nat \<times> 'b) list \<Rightarrow> nat \<Rightarrow> 'b option \<Rightarrow> (nat \<Rightarrow> 'b option) \<Rightarrow> nat \<Rightarrow> 'b option" where
  "crash_writes ws k torn dev =
     (let dev = fold (\<lambda>(b, x) dev. dev(b := Some x)) (take k ws) dev
      in if k < length ws then dev(fst (ws ! k) := torn) else dev)"

definition good_super :: "f2fs_super_block \<Rightarrow> bool" where
  "good_super raw \<longleftrightarrow> (\<forall>ro ce. sanity_check_raw_super ro ce raw = (False, raw, False))"

definition bad_super :: "f2fs_super_block option \<Rightarrow> bool" where
  "bad_super x \<longleftrightarrow> (case x of None \<Rightarrow> True | Some raw \<Rightarrow> \<forall>ro ce. fst (sanity_check_raw_super ro ce raw))"

lemma read_step_bad: "bad_super (dev b) \<Longrightarrow> \<exists>e. read_super_step ro ce dev b (found, err) = (found, Some e)"
  by (auto simp: bad_super_def read_super_step_def split: option.splits prod.splits) (metis fst_conv)+

lemma read_step_good: "dev b = Some raw \<Longrightarrow> good_super raw \<Longrightarrow>
    read_super_step ro ce dev b (found, err) = (case found of None \<Rightarrow> (Some (raw, b), err) | Some x \<Rightarrow> (Some x, err))"
  by (simp add: good_super_def read_super_step_def)

lemma read_super_copy0:
  assumes "dev 0 = Some a" "good_super a"
  shows "\<exists>w. read_raw_super_block ro ce dev = (Inr (a, 0), w)"
proof -
  have g: "read_super_step ro ce dev 0 (None, None) = (Some (a, 0), None)" using read_step_good [where dev = dev and b = 0, OF assms] by simp
  have "\<exists>e. read_super_step ro ce dev 1 (Some (a, 0), None) = (Some (a, 0), e)" by (auto simp: read_super_step_def split: option.split prod.split)
  then obtain e where "read_super_step ro ce dev 1 (Some (a, 0), None) = (Some (a, 0), e)" by blast
  then show ?thesis using g by (simp add: read_raw_super_block_def)
qed

lemma read_super_copy1:
  assumes "dev 1 = Some b" "good_super b"
  shows "\<exists>r c w. read_raw_super_block ro ce dev = (Inr (r, c), w) \<and>
    (r = b \<and> c = 1 \<or> c = 0 \<and> (\<exists>t wr. dev 0 = Some t \<and> sanity_check_raw_super ro (ce 0) t = (False, r, wr)))"
proof -
  have g: "read_super_step ro ce dev 1 st = (case fst st of None \<Rightarrow> (Some (b, 1), snd st) | Some x \<Rightarrow> (Some x, snd st))" for st
    using read_step_good [where dev = dev and b = 1, OF assms, of ro ce "fst st" "snd st"] by simp
  have "(\<exists>e. read_super_step ro ce dev 0 (None, None) = (None, Some e)) \<or>
      (\<exists>r t wr. read_super_step ro ce dev 0 (None, None) = (Some (r, 0), None) \<and> dev 0 = Some t \<and> sanity_check_raw_super ro (ce 0) t = (False, r, wr))"
    by (auto simp: read_super_step_def split: option.split prod.split)
  then show ?thesis
  proof (elim disjE exE conjE)
    fix e assume "read_super_step ro ce dev 0 (None, None) = (None, Some e)"
    then show ?thesis using g [of "(None, Some e)"] by (auto simp: read_raw_super_block_def intro: exI [of _ True])
  next
    fix r t wr assume "read_super_step ro ce dev 0 (None, None) = (Some (r, 0), None)" "dev 0 = Some t" "sanity_check_raw_super ro (ce 0) t = (False, r, wr)"
    then show ?thesis using g [of "(Some (r, 0), None)"] by (auto simp: read_raw_super_block_def intro: exI [of _ False])
  qed
qed

lemma read_super_bad0:
  assumes "bad_super (dev 0)" "dev 1 = Some b" "good_super b"
  shows "\<exists>w. read_raw_super_block ro ce dev = (Inr (b, 1), w)"
proof -
  obtain e where "read_super_step ro ce dev 0 (None, None) = (None, Some e)" using read_step_bad [where dev = dev and b = 0, OF assms(1)] by blast
  then show ?thesis using read_step_good [where dev = dev and b = 1, OF assms(2,3), of ro ce None "Some e"] by (auto simp: read_raw_super_block_def intro: exI [of _ True])
qed

text \<open>Property C12.
  A crash while \<^verbatim>\<open>f2fs_commit_super\<close> writes never leaves a file system that cannot be mounted, whatever the interrupted write left in its block: the copy that is not in use is written first,
  so one copy is complete at any time. The next mount finds the old or the new super block, unless the interrupted write was that of copy 0, which is read first, and what it left there passes
  every check; the super block has no checksum that would tell. Copy 1 is only in use when copy 0 failed the checks.\<close>

theorem commit_super_crash_safe:
  assumes v: "v \<in> {0, 1}" "dev v = Some old" and good: "good_super old" "good_super new" and other: "v = 1 \<Longrightarrow> bad_super (dev 0)"
    and w: "f2fs_commit_super recover ro bdro ge we v new = (err, ws)"
  shows "\<exists>r c rep. read_raw_super_block ro' ce (crash_writes ws k torn dev) = (Inr (r, c), rep) \<and>
    (r \<in> {old, new} \<or> k < length ws \<and> fst (ws ! k) = 0 \<and> c = 0 \<and> (\<exists>t wr. torn = Some t \<and> sanity_check_raw_super ro' (ce 0) t = (False, r, wr)))"
proof -
  let ?d = "crash_writes ws k torn dev"
  have ws: "ws = [] \<or> ws = [(1 - v, new)] \<or> ws = [(1 - v, new), (v, new)]"
    using w v(1) unfolding f2fs_commit_super_def Let_def by (auto split: if_splits)
  have first: ?thesis if "?d 0 = Some a" "a \<in> {old, new}" for a
    using read_super_copy0 [where dev = ?d, OF that(1)] that(2) good by blast
  have second: ?thesis if "?d 1 = Some b" "b \<in> {old, new}" "?d 0 = torn" "k < length ws" "fst (ws ! k) = 0" for b
  proof -
    have "good_super b" using that(2) good by blast
    from read_super_copy1 [where dev = ?d, OF that(1) this] show ?thesis using that(2-5) by metis
  qed
  consider "v = 0" | "v = 1" using v(1) by blast
  then show ?thesis
  proof cases
    case 1
    have "?d 0 = Some old \<or> ?d 0 = Some new \<or> ?d 1 = Some new \<and> ?d 0 = torn \<and> k < length ws \<and> fst (ws ! k) = 0"
      using ws v(2) 1 by (elim disjE) (cases k; cases "k - 1"; simp add: crash_writes_def)+
    then show ?thesis using first second by blast
  next
    case 2
    have "?d = dev \<or> ?d 0 = Some new \<or> ?d 1 = Some old \<and> ?d 0 = torn \<and> k < length ws \<and> fst (ws ! k) = 0"
      using ws v(2) 2 by (elim disjE) (cases k; cases "k - 1"; simp add: crash_writes_def)+
    then show ?thesis
    proof (elim disjE)
      assume "?d = dev"
      then show ?thesis using read_super_bad0 [where dev = dev, OF other [OF 2]] v(2) 2 good(1) by fastforce
    qed (use first second in blast)+
  qed
qed

text \<open>Copy 0 is in use; the second write, that of copy 0, is interrupted and leaves a block that cannot be read.\<close>

theorem commit_super_crash_safe_witness:
  "\<exists>c rep. read_raw_super_block False (\<lambda>_. False)
       (crash_writes [(1, demo_super\<lparr>segment_count := 27, cp_payload := 1\<rparr>), (0, demo_super\<lparr>segment_count := 27, cp_payload := 1\<rparr>)] 1 None
         (\<lambda>b. if b < 2 then Some (demo_super\<lparr>segment_count := 27\<rparr>) else None)) = (Inr (demo_super\<lparr>segment_count := 27, cp_payload := 1\<rparr>, c), rep)"
proof -
  let ?old = "demo_super\<lparr>segment_count := 27\<rparr>" and ?new = "demo_super\<lparr>segment_count := 27, cp_payload := 1\<rparr>"
  let ?dev = "\<lambda>b :: nat. if b < 2 then Some ?old else None" and ?ws = "[(1, ?new), (0, ?new)] :: (nat \<times> f2fs_super_block) list"
  have w: "f2fs_commit_super False False False (\<lambda>_. False) (\<lambda>_. None) 0 ?new = (None, ?ws)" by (simp add: f2fs_commit_super_def)
  have good: "good_super ?old" "good_super ?new" unfolding good_super_def by (simp_all add: super_eval)
  have "\<exists>r c rep. read_raw_super_block False (\<lambda>_. False) (crash_writes ?ws 1 None ?dev) = (Inr (r, c), rep) \<and>
    (r \<in> {?old, ?new} \<or> 1 < length ?ws \<and> fst (?ws ! 1) = 0 \<and> c = 0 \<and> (\<exists>t wr. (None :: f2fs_super_block option) = Some t \<and> sanity_check_raw_super False False t = (False, r, wr)))"
    by (rule commit_super_crash_safe [OF _ _ good _ w, where dev = ?dev]) simp_all
  then obtain r c rep where r: "read_raw_super_block False (\<lambda>_. False) (crash_writes ?ws 1 None ?dev) = (Inr (r, c), rep)" "r = ?old \<or> r = ?new" by blast
  have "crash_writes ?ws 1 None ?dev 1 = Some ?new" "crash_writes ?ws 1 None ?dev 0 = None" by (simp_all add: crash_writes_def)
  then have "r \<noteq> ?old" using r(1) read_super_bad0 [where dev = "crash_writes ?ws 1 None ?dev" and b = ?new, OF _ _ good(2), of False "\<lambda>_. False"]
    by (auto simp: bad_super_def demo_super_def)
  then show ?thesis using r by blast
qed

end
