(* ===== verification/Ino_Entries.thy ===== *)
theory Ino_Entries
  imports Bitmap
begin

text \<open>
  The lists of inode numbers kept for the checkpoint (\<^verbatim>\<open>checkpoint.c\<close>): orphans, inodes with appended or updated data, directories and devices to flush. For orphans a place is
  reserved before the inode is put on the list, so that the list always fits into a checkpoint pack. The orphans are written
  to blocks of 1020 numbers and removed at the next mount.
\<close>

section \<open>Operations\<close>

datatype ino_type = ORPHAN_INO | APPEND_INO | UPDATE_INO | TRANS_DIR_INO | FLUSH_INO

text \<open>The root maps a number to the bitmap of its dirty devices; \<open>ino_num\<close> is an \<^verbatim>\<open>unsigned long\<close>.\<close>

record inode_management =
  ino_root :: "nat \<rightharpoonup> u8 list"
  ino_list :: "nat list"
  ino_num :: u64

type_synonym ims = "ino_type \<Rightarrow> inode_management"

definition add_ino_entry_at :: "nat \<Rightarrow> nat \<Rightarrow> ino_type \<Rightarrow> ims \<Rightarrow> ims" where
  "add_ino_entry_at ino devidx type im =
     (let m = im type;
          m = (case ino_root m ino of
                 None \<Rightarrow> m\<lparr>ino_root := (ino_root m)(ino \<mapsto> [0, 0, 0, 0]), ino_list := ino_list m @ [ino],
                           ino_num := (if type \<noteq> ORPHAN_INO then ino_num m + 1 else ino_num m)\<rparr>
               | Some e \<Rightarrow> m);
          m = (if type = FLUSH_INO then m\<lparr>ino_root := (ino_root m)(ino \<mapsto> f2fs_set_bit devidx (the (ino_root m ino)))\<rparr> else m)
      in im(type := m))"

definition remove_ino_entry :: "nat \<Rightarrow> ino_type \<Rightarrow> ims \<Rightarrow> ims" where
  "remove_ino_entry ino type im =
     (let m = im type
      in case ino_root m ino of None \<Rightarrow> im
         | Some e \<Rightarrow> im(type := m\<lparr>ino_list := remove1 ino (ino_list m), ino_root := (ino_root m)(ino := None), ino_num := ino_num m - 1\<rparr>))"

definition add_ino_entry :: "nat \<Rightarrow> ino_type \<Rightarrow> ims \<Rightarrow> ims" where
  "add_ino_entry ino type im = add_ino_entry_at ino 0 type im"

definition exist_written_data :: "nat \<Rightarrow> ino_type \<Rightarrow> ims \<Rightarrow> bool" where
  "exist_written_data ino mode im = (ino_root (im mode) ino \<noteq> None)"

definition release_one :: "nat \<Rightarrow> inode_management \<Rightarrow> inode_management" where
  "release_one ino m = m\<lparr>ino_list := remove1 ino (ino_list m), ino_root := (ino_root m)(ino := None), ino_num := ino_num m - 1\<rparr>"

definition release_ino_entry :: "bool \<Rightarrow> ims \<Rightarrow> ims" where
  "release_ino_entry all im =
     fold (\<lambda>i im. im(i := fold release_one (ino_list (im i)) (im i)))
       ((if all then [ORPHAN_INO] else []) @ [APPEND_INO, UPDATE_INO, TRANS_DIR_INO, FLUSH_INO]) im"

definition set_dirty_device :: "nat \<Rightarrow> nat \<Rightarrow> ino_type \<Rightarrow> ims \<Rightarrow> ims" where
  "set_dirty_device ino devidx type im = add_ino_entry_at ino devidx type im"

definition is_dirty_device :: "nat \<Rightarrow> nat \<Rightarrow> ino_type \<Rightarrow> ims \<Rightarrow> bool" where
  "is_dirty_device ino devidx type im = (case ino_root (im type) ino of None \<Rightarrow> False | Some e \<Rightarrow> f2fs_test_bit devidx e \<noteq> 0)"

definition acquire_orphan_inode :: "bool \<Rightarrow> u64 \<Rightarrow> ims \<Rightarrow> errno option \<times> ims" where
  "acquire_orphan_inode inject max_orphans im =
     (let m = im ORPHAN_INO
      in if inject then (Some ENOSPC, im)
         else if ino_num m \<ge> max_orphans then (Some ENOSPC, im)
         else (None, im(ORPHAN_INO := m\<lparr>ino_num := ino_num m + 1\<rparr>)))"

text \<open>The second result is the assertion.\<close>

definition release_orphan_inode :: "ims \<Rightarrow> ims \<times> bool" where
  "release_orphan_inode im = (let m = im ORPHAN_INO in (im(ORPHAN_INO := m\<lparr>ino_num := ino_num m - 1\<rparr>), ino_num m = 0))"

definition add_orphan_inode :: "nat \<Rightarrow> ims \<Rightarrow> ims" where
  "add_orphan_inode ino im = add_ino_entry_at ino 0 ORPHAN_INO im"

definition remove_orphan_inode :: "nat \<Rightarrow> ims \<Rightarrow> ims" where
  "remove_orphan_inode ino im = remove_ino_entry ino ORPHAN_INO im"

definition F2FS_ORPHANS_PER_BLOCK :: nat where "F2FS_ORPHANS_PER_BLOCK = 1020"
definition GET_ORPHAN_BLOCKS :: "nat \<Rightarrow> nat" where "GET_ORPHAN_BLOCKS n = (n + F2FS_ORPHANS_PER_BLOCK - 1) div F2FS_ORPHANS_PER_BLOCK"
definition F2FS_CP_PACKS :: nat where "F2FS_CP_PACKS = 2"
definition NR_CURSEG_TYPE :: nat where "NR_CURSEG_TYPE = 6"

definition init_ino_entry_info :: "nat \<Rightarrow> nat \<Rightarrow> ims \<times> nat" where
  "init_ino_entry_info blocks_per_seg cp_payload =
     (\<lambda>_. \<lparr>ino_root = Map.empty, ino_list = [], ino_num = 0\<rparr>, (blocks_per_seg - F2FS_CP_PACKS - NR_CURSEG_TYPE - cp_payload) * F2FS_ORPHANS_PER_BLOCK)"

section \<open>Writing and reading the orphans\<close>

record f2fs_orphan_block =
  ob_ino :: "u32 list"
  ob_blk_addr :: u16
  ob_blk_count :: u16
  ob_entry_count :: u32

definition zero_orphan_block :: f2fs_orphan_block where
  "zero_orphan_block = \<lparr>ob_ino = replicate F2FS_ORPHANS_PER_BLOCK 0, ob_blk_addr = 0, ob_blk_count = 0, ob_entry_count = 0\<rparr>"

fun write_orphan_loop :: "u16 \<Rightarrow> nat list \<Rightarrow> f2fs_orphan_block option \<Rightarrow> nat \<Rightarrow> u16 \<Rightarrow> f2fs_orphan_block list" where
  "write_orphan_loop orphan_blocks [] page nentries index =
     (case page of None \<Rightarrow> []
      | Some b \<Rightarrow> [b\<lparr>ob_blk_addr := index, ob_blk_count := orphan_blocks, ob_entry_count := of_nat nentries\<rparr>])"
| "write_orphan_loop orphan_blocks (orphan # rest) page nentries index =
     (let b = (case page of None \<Rightarrow> zero_orphan_block | Some b \<Rightarrow> b);
          b = b\<lparr>ob_ino := (ob_ino b)[nentries := of_nat orphan]\<rparr>;
          nentries = nentries + 1
      in if nentries = F2FS_ORPHANS_PER_BLOCK then
           b\<lparr>ob_blk_addr := index, ob_blk_count := orphan_blocks, ob_entry_count := of_nat nentries\<rparr> #
             write_orphan_loop orphan_blocks rest None 0 (index + 1)
         else write_orphan_loop orphan_blocks rest (Some b) nentries index)"

text \<open>The blocks in the order of their addresses.\<close>

definition write_orphan_inodes :: "ims \<Rightarrow> f2fs_orphan_block list" where
  "write_orphan_inodes im =
     (let m = im ORPHAN_INO in write_orphan_loop (of_nat (GET_ORPHAN_BLOCKS (unat (ino_num m)))) (ino_list m) None 0 1)"

text \<open>
  Recovery of one orphan. \<open>iget_err\<close> is the failure to read the inode, \<open>still_there\<close> says that its node address is not
  gone after its last reference was dropped. The state: the lists, the inodes evicted so far, \<^verbatim>\<open>SBI_NEED_FSCK\<close> and the assertion.
\<close>

record orphan_state =
  os_im :: ims
  os_evicted :: "nat list"
  os_need_fsck :: bool
  os_bug :: bool

definition recover_orphan_inode :: "u64 \<Rightarrow> (nat \<Rightarrow> errno option) \<Rightarrow> (nat \<Rightarrow> bool) \<Rightarrow> nat \<Rightarrow> orphan_state \<Rightarrow> errno option \<times> orphan_state" where
  "recover_orphan_inode max_orphans iget_err still_there ino st =
     (case acquire_orphan_inode False max_orphans (os_im st) of
        (Some err, im) \<Rightarrow> (Some err, st\<lparr>os_need_fsck := True\<rparr>)
      | (None, im) \<Rightarrow>
          let st = st\<lparr>os_im := add_ino_entry_at ino 0 ORPHAN_INO im\<rparr>
          in case iget_err ino of Some err \<Rightarrow> (Some err, st\<lparr>os_bug := (os_bug st \<or> err = ENOENT)\<rparr>)
             | None \<Rightarrow>
                 let st = st\<lparr>os_evicted := os_evicted st @ [ino]\<rparr>
                 in if still_there ino then (Some EIO, st\<lparr>os_need_fsck := True\<rparr>)
                    else (None, st\<lparr>os_im := remove_ino_entry ino ORPHAN_INO (os_im st)\<rparr>))"

fun recover_loop :: "(nat \<Rightarrow> orphan_state \<Rightarrow> errno option \<times> orphan_state) \<Rightarrow> nat list \<Rightarrow> orphan_state \<Rightarrow> errno option \<times> orphan_state" where
  "recover_loop recover [] st = (None, st)"
| "recover_loop recover (ino # rest) st =
     (case recover ino st of (Some err, st) \<Rightarrow> (Some err, st) | (None, st) \<Rightarrow> recover_loop recover rest st)"

definition orphan_entries :: "f2fs_orphan_block \<Rightarrow> nat list" where
  "orphan_entries b = map (\<lambda>j. unat (arr_get 0 (ob_ino b) j)) [0..<unat (ob_entry_count b)]"

text \<open>The third result is whether \<^verbatim>\<open>CP_ORPHAN_PRESENT_FLAG\<close> stays set.\<close>

definition recover_orphan_inodes :: "bool \<Rightarrow> u64 \<Rightarrow> (nat \<Rightarrow> errno option) \<Rightarrow> (nat \<Rightarrow> bool) \<Rightarrow> f2fs_orphan_block list \<Rightarrow> orphan_state \<Rightarrow>
    errno option \<times> orphan_state \<times> bool" where
  "recover_orphan_inodes orphan_present max_orphans iget_err still_there blocks st =
     (if \<not> orphan_present then (None, st, False)
      else case recover_loop (recover_orphan_inode max_orphans iget_err still_there) (concat (map orphan_entries blocks)) st of
             (err, st) \<Rightarrow> (err, st, err \<noteq> None))"

section \<open>Invariant of the lists\<close>

text \<open>\<open>tok\<close> is the number of orphan places that are reserved and not yet used.\<close>

definition im_ok :: "nat \<Rightarrow> ims \<Rightarrow> bool" where
  "im_ok tok im \<longleftrightarrow> (\<forall>t. distinct (ino_list (im t)) \<and> set (ino_list (im t)) = dom (ino_root (im t)) \<and> (\<forall>ino \<in> set (ino_list (im t)). ino < 2 ^ 32) \<and>
     unat (ino_num (im t)) = length (ino_list (im t)) + (if t = ORPHAN_INO then tok else 0))"

lemma im_okD:
  assumes "im_ok tok im"
  shows "distinct (ino_list (im t))" "set (ino_list (im t)) = dom (ino_root (im t))" "ino \<in> set (ino_list (im t)) \<Longrightarrow> ino < 2 ^ 32"
    "unat (ino_num (im t)) = length (ino_list (im t)) + (if t = ORPHAN_INO then tok else 0)"
  using assms unfolding im_ok_def by blast+

lemma list_bound:
  assumes "im_ok tok im"
  shows "length (ino_list (im t)) \<le> 2 ^ 32"
proof -
  have "set (ino_list (im t)) \<subseteq> {..<2 ^ 32}" using im_okD(3) [OF assms] by blast
  then have "card (set (ino_list (im t))) \<le> card {..<2 ^ 32 :: nat}" by (intro card_mono) auto
  then show ?thesis using distinct_card [OF im_okD(1) [OF assms, of t]] by simp
qed

lemma unat_inc: "unat (w :: u64) + 1 < 2 ^ 64 \<Longrightarrow> unat (w + 1) = unat w + 1"
  by (simp add: unat_word_ariths)

lemma unat_dec: "0 < unat (w :: u64) \<Longrightarrow> unat (w - 1) = unat w - 1"
  by (metis One_nat_def Suc_leI unat_1 unat_sub word_le_nat_alt)

lemma add_entry_ok:
  fixes devidx :: nat
  assumes ok: "im_ok tok im" and i: "ino < 2 ^ 32" and t: "type = ORPHAN_INO \<Longrightarrow> ino \<notin> set (ino_list (im ORPHAN_INO)) \<Longrightarrow> 0 < tok"
  defines "im' \<equiv> add_ino_entry_at ino devidx type im"
  shows "im_ok (if type = ORPHAN_INO \<and> ino \<notin> set (ino_list (im ORPHAN_INO)) then tok - 1 else tok) im'"
    "ino_list (im' type) = (if ino \<in> set (ino_list (im type)) then ino_list (im type) else ino_list (im type) @ [ino])"
    "t \<noteq> type \<Longrightarrow> im' t = im t"
proof -
  note O = im_okD [OF ok]
  show o: "t \<noteq> type \<Longrightarrow> im' t = im t" for t by (simp add: im'_def add_ino_entry_at_def Let_def)
  show l: "ino_list (im' type) = (if ino \<in> set (ino_list (im type)) then ino_list (im type) else ino_list (im type) @ [ino])"
    using O(2) [of type] by (auto simp: im'_def add_ino_entry_at_def Let_def split: option.split)
  have r: "dom (ino_root (im' type)) = insert ino (dom (ino_root (im type)))"
    by (auto simp: im'_def add_ino_entry_at_def Let_def split: option.split)
  have n: "ino_num (im' type) = (if ino \<in> set (ino_list (im type)) \<or> type = ORPHAN_INO then ino_num (im type) else ino_num (im type) + 1)"
    using O(2) [of type] by (auto simp: im'_def add_ino_entry_at_def Let_def split: option.split)
  have num: "unat (ino_num (im type) + 1) = unat (ino_num (im type)) + 1" if "type \<noteq> ORPHAN_INO"
    using O(4) [of type] list_bound [OF ok, of type] that by (intro unat_inc) simp
  show "im_ok (if type = ORPHAN_INO \<and> ino \<notin> set (ino_list (im ORPHAN_INO)) then tok - 1 else tok) im'"
    unfolding im_ok_def
  proof (intro allI)
    fix u
    show "distinct (ino_list (im' u)) \<and> set (ino_list (im' u)) = dom (ino_root (im' u)) \<and> (\<forall>ino \<in> set (ino_list (im' u)). ino < 2 ^ 32) \<and>
      unat (ino_num (im' u)) = length (ino_list (im' u)) + (if u = ORPHAN_INO then if type = ORPHAN_INO \<and> ino \<notin> set (ino_list (im ORPHAN_INO)) then tok - 1 else tok else 0)"
    proof (cases "u = type")
      case True
      then show ?thesis using O(1,2,4) [of type] O(3) [where t = type] i l r n num t by (auto split: if_splits)
    next
      case False
      then show ?thesis using o [OF False] O(1,2,4) [of u] O(3) [where t = u] by auto
    qed
  qed
qed

lemma remove_entry_ok:
  fixes ino :: nat and type :: ino_type
  assumes ok: "im_ok tok im"
  defines "im' \<equiv> remove_ino_entry ino type im"
  shows "im_ok tok im'" "ino_list (im' type) = remove1 ino (ino_list (im type))" "t \<noteq> type \<Longrightarrow> im' t = im t"
proof -
  note O = im_okD [OF ok]
  show o: "t \<noteq> type \<Longrightarrow> im' t = im t" for t by (simp add: im'_def remove_ino_entry_def Let_def split: option.split)
  show l: "ino_list (im' type) = remove1 ino (ino_list (im type))"
  proof -
    have "ino \<in> set (ino_list (im type)) \<longleftrightarrow> ino_root (im type) ino \<noteq> None" using O(2) [of type] by auto
    then show ?thesis by (cases "ino_root (im type) ino") (simp_all add: im'_def remove_ino_entry_def Let_def remove1_idem)
  qed
  have r: "dom (ino_root (im' type)) = dom (ino_root (im type)) - {ino}" by (auto simp: im'_def remove_ino_entry_def Let_def split: option.split)
  have n: "ino_num (im' type) = (if ino \<in> set (ino_list (im type)) then ino_num (im type) - 1 else ino_num (im type))"
    using O(2) [of type] by (auto simp: im'_def remove_ino_entry_def Let_def split: option.split)
  have pos: "0 < length (ino_list (im type))" if "ino \<in> set (ino_list (im type))" using that by (cases "ino_list (im type)") auto
  have num: "unat (ino_num (im type) - 1) = unat (ino_num (im type)) - 1" if "ino \<in> set (ino_list (im type))"
    using O(4) [of type] pos [OF that] by (intro unat_dec) simp
  show "im_ok tok im'" unfolding im_ok_def
  proof (intro allI)
    fix u
    show "distinct (ino_list (im' u)) \<and> set (ino_list (im' u)) = dom (ino_root (im' u)) \<and> (\<forall>ino \<in> set (ino_list (im' u)). ino < 2 ^ 32) \<and>
      unat (ino_num (im' u)) = length (ino_list (im' u)) + (if u = ORPHAN_INO then tok else 0)"
    proof (cases "u = type")
      case True
      have cnt: "unat (ino_num (im' type)) = length (ino_list (im' type)) + (if type = ORPHAN_INO then tok else 0)"
      proof (cases "ino \<in> set (ino_list (im type))")
        case m: True
        then have "length (ino_list (im' type)) = length (ino_list (im type)) - 1" by (simp add: l length_remove1)
        then show ?thesis using m n num pos [OF m] O(4) [of type] by (cases "length (ino_list (im type))") (auto split: if_splits)
      next
        case False
        then show ?thesis using n l O(4) [of type] by (simp add: remove1_idem)
      qed
      show ?thesis unfolding True using cnt O(1,2) [of type] O(3) [where t = type] by (auto simp: l r dest: notin_set_remove1)
    next
      case False
      then show ?thesis using o [OF False] O(1,2,4) [of u] O(3) [where t = u] by auto
    qed
  qed
qed

lemma acquire_ok:
  assumes ok: "im_ok tok im" and f: "acquire_orphan_inode inject mx im = (r, im')"
  shows "r = None \<Longrightarrow> im_ok (tok + 1) im' \<and> length (ino_list (im ORPHAN_INO)) + tok + 1 \<le> unat mx" "r \<noteq> None \<Longrightarrow> im' = im" "ino_list (im' t) = ino_list (im t)"
    "ino_root (im' t) = ino_root (im t)"
proof -
  show "r \<noteq> None \<Longrightarrow> im' = im" "ino_list (im' t) = ino_list (im t)" "ino_root (im' t) = ino_root (im t)"
    using f by (auto simp: acquire_orphan_inode_def Let_def split: if_splits)
  assume r: "r = None"
  note O = im_okD [OF ok]
  have lt: "ino_num (im ORPHAN_INO) < mx" and im': "im' = im(ORPHAN_INO := (im ORPHAN_INO)\<lparr>ino_num := ino_num (im ORPHAN_INO) + 1\<rparr>)"
    using f r by (auto simp: acquire_orphan_inode_def Let_def split: if_splits)
  have b: "unat (ino_num (im ORPHAN_INO)) + 1 \<le> unat mx" using lt by (simp add: word_less_nat_alt)
  have "unat mx < 2 ^ LENGTH(64)" by (rule unsigned_less)
  then have n: "unat (ino_num (im ORPHAN_INO) + 1) = unat (ino_num (im ORPHAN_INO)) + 1" using b by (intro unat_inc) simp
  have "im_ok (tok + 1) im'" unfolding im_ok_def im' using O n by auto
  then show "im_ok (tok + 1) im' \<and> length (ino_list (im ORPHAN_INO)) + tok + 1 \<le> unat mx" using O(4) [of ORPHAN_INO] b by simp
qed

lemma release_ok:
  assumes ok: "im_ok tok im" and t: "0 < tok" and f: "release_orphan_inode im = (im', bug)"
  shows "im_ok (tok - 1) im'" "\<not> bug"
proof -
  note O = im_okD [OF ok]
  have im': "im' = im(ORPHAN_INO := (im ORPHAN_INO)\<lparr>ino_num := ino_num (im ORPHAN_INO) - 1\<rparr>)" and b: "bug = (ino_num (im ORPHAN_INO) = 0)"
    using f by (auto simp: release_orphan_inode_def Let_def)
  have pos: "0 < unat (ino_num (im ORPHAN_INO))" using O(4) [of ORPHAN_INO] t by simp
  then show "\<not> bug" using b by (auto simp: unat_eq_zero)
  show "im_ok (tok - 1) im'" unfolding im_ok_def im' using O unat_dec [OF pos] t by auto
qed

lemma release_list:
  assumes "xs = ino_list m" "distinct xs" "set xs = dom (ino_root m)" "unat (ino_num m) = length xs + k"
  shows "\<exists>n. fold release_one xs m = \<lparr>ino_root = Map.empty, ino_list = [], ino_num = n\<rparr> \<and> unat n = k"
  using assms
proof (induction xs arbitrary: m)
  case Nil
  then have "ino_root m = Map.empty" by (metis dom_eq_empty_conv list.set(1))
  then show ?case using Nil by (cases m) simp
next
  case (Cons x xs)
  have l: "xs = ino_list (release_one x m)" using Cons.prems(1) by (simp add: release_one_def flip: Cons.prems(1))
  have d: "distinct xs" "x \<notin> set xs" using Cons.prems(2) by auto
  have r: "set xs = dom (ino_root (release_one x m))" using Cons.prems(3) d(2) by (auto simp: release_one_def)
  have "unat (ino_num m - 1) = unat (ino_num m) - 1" using Cons.prems(4) by (intro unat_dec) simp
  then have n: "unat (ino_num (release_one x m)) = length xs + k" using Cons.prems(4) by (simp add: release_one_def)
  show ?case using Cons.IH [OF l d(1) r n] by simp
qed

lemma release_all_ok:
  assumes ok: "im_ok tok im"
  shows "im_ok tok (release_ino_entry False im)" "release_ino_entry False im ORPHAN_INO = im ORPHAN_INO"
proof -
  have one: "im_ok tok (im(t := fold release_one (ino_list (im t)) (im t))) \<and> (im(t := fold release_one (ino_list (im t)) (im t))) ORPHAN_INO = im ORPHAN_INO"
    if ok: "im_ok tok im" and t: "t \<noteq> ORPHAN_INO" for t im
  proof -
    obtain n where "fold release_one (ino_list (im t)) (im t) = \<lparr>ino_root = Map.empty, ino_list = [], ino_num = n\<rparr>" "unat n = 0"
      using release_list [of "ino_list (im t)" "im t" 0] im_okD(1,2,4) [OF ok, of t] t by auto
    then show ?thesis using ok t by (auto simp: im_ok_def)
  qed
  have "list_all (\<lambda>t. t \<noteq> ORPHAN_INO) ts \<Longrightarrow> im_ok tok im \<Longrightarrow> im_ok tok (fold (\<lambda>i im. im(i := fold release_one (ino_list (im i)) (im i))) ts im) \<and>
      fold (\<lambda>i im. im(i := fold release_one (ino_list (im i)) (im i))) ts im ORPHAN_INO = im ORPHAN_INO" for ts im
  proof (induction ts arbitrary: im)
    case (Cons t ts)
    have p: "t \<noteq> ORPHAN_INO" "list_all (\<lambda>t. t \<noteq> ORPHAN_INO) ts" using Cons.prems(1) by simp_all
    show ?case using Cons.IH [OF p(2) conjunct1 [OF one [OF Cons.prems(2) p(1)]]] one [OF Cons.prems(2) p(1)] by simp
  qed simp
  from this [OF _ ok, of "[APPEND_INO, UPDATE_INO, TRANS_DIR_INO, FLUSH_INO]"]
  show "im_ok tok (release_ino_entry False im)" "release_ino_entry False im ORPHAN_INO = im ORPHAN_INO" unfolding release_ino_entry_def by simp_all
qed

section \<open>Histories\<close>

text \<open>The steps of the callers: a place is released or used for a new orphan only when one was reserved. The state has the number of reserved places.\<close>

datatype orphan_op = Acquire bool | Release | Add_orphan nat | Remove_orphan nat | Track nat nat ino_type | Untrack nat ino_type | Drop

fun orphan_step :: "u64 \<Rightarrow> orphan_op \<Rightarrow> nat \<times> ims \<times> bool \<Rightarrow> nat \<times> ims \<times> bool" where
  "orphan_step mx (Acquire inject) (tok, im, bug) =
     (case acquire_orphan_inode inject mx im of (None, im) \<Rightarrow> (tok + 1, im, bug) | (Some e, im) \<Rightarrow> (tok, im, bug))"
| "orphan_step mx Release (tok, im, bug) =
     (if tok = 0 then (tok, im, bug) else case release_orphan_inode im of (im, b) \<Rightarrow> (tok - 1, im, bug \<or> b))"
| "orphan_step mx (Add_orphan ino) (tok, im, bug) =
     (if tok = 0 \<or> exist_written_data ino ORPHAN_INO im then (tok, im, bug) else (tok - 1, add_orphan_inode ino im, bug))"
| "orphan_step mx (Remove_orphan ino) (tok, im, bug) = (tok, remove_orphan_inode ino im, bug)"
| "orphan_step mx (Track ino devidx type) (tok, im, bug) = (if type = ORPHAN_INO then (tok, im, bug) else (tok, set_dirty_device ino devidx type im, bug))"
| "orphan_step mx (Untrack ino type) (tok, im, bug) = (tok, remove_ino_entry ino type im, bug)"
| "orphan_step mx Drop (tok, im, bug) = (tok, release_ino_entry False im, bug)"

fun orphan_op_valid :: "orphan_op \<Rightarrow> bool" where
  "orphan_op_valid (Add_orphan ino) \<longleftrightarrow> ino < 2 ^ 32"
| "orphan_op_valid (Track ino devidx type) \<longleftrightarrow> ino < 2 ^ 32"
| "orphan_op_valid op \<longleftrightarrow> True"

definition orphans_fit :: "u64 \<Rightarrow> nat \<times> ims \<times> bool \<Rightarrow> bool" where
  "orphans_fit mx s \<longleftrightarrow> (case s of (tok, im, bug) \<Rightarrow> im_ok tok im \<and> length (ino_list (im ORPHAN_INO)) + tok \<le> unat mx \<and> \<not> bug)"

lemma orphan_step_ok:
  assumes "orphans_fit mx s" "orphan_op_valid op"
  shows "orphans_fit mx (orphan_step mx op s)"
proof -
  obtain tok im bug where s: "s = (tok, im, bug)" by (cases s) auto
  have ok: "im_ok tok im" and le: "length (ino_list (im ORPHAN_INO)) + tok \<le> unat mx" and b: "\<not> bug" using assms(1) s by (simp_all add: orphans_fit_def)
  show ?thesis
  proof (cases op)
    case (Acquire inject)
    obtain r im' where f: "acquire_orphan_inode inject mx im = (r, im')" by fastforce
    note A = acquire_ok [OF ok f]
    show ?thesis using f A ok le b by (cases r) (auto simp: s Acquire orphans_fit_def)
  next
    case Release
    obtain im' b' where f: "release_orphan_inode im = (im', b')" by fastforce
    have l: "ino_list (im' ORPHAN_INO) = ino_list (im ORPHAN_INO)" using f by (auto simp: release_orphan_inode_def Let_def)
    show ?thesis using f release_ok [OF ok _ f] ok le b l by (auto simp: s Release orphans_fit_def)
  next
    case (Add_orphan ino)
    have e: "exist_written_data ino ORPHAN_INO im \<longleftrightarrow> ino \<in> set (ino_list (im ORPHAN_INO))"
      using im_okD(2) [OF ok, of ORPHAN_INO] by (auto simp: exist_written_data_def)
    show ?thesis
    proof (cases "tok = 0 \<or> ino \<in> set (ino_list (im ORPHAN_INO))")
      case True
      then show ?thesis using e ok le b by (auto simp: s Add_orphan orphans_fit_def)
    next
      case False
      have i: "ino < 2 ^ 32" using assms(2) Add_orphan by simp
      have t: "0 < tok" using False by simp
      note A = add_entry_ok [OF ok i, where type = ORPHAN_INO and devidx = 0]
      show ?thesis using A(1,2) t False e le b by (auto simp: s Add_orphan orphans_fit_def add_orphan_inode_def)
    qed
  next
    case (Remove_orphan ino)
    note R = remove_entry_ok [OF ok, where ino = ino and type = ORPHAN_INO]
    have "length (remove1 ino (ino_list (im ORPHAN_INO))) \<le> length (ino_list (im ORPHAN_INO))" by (simp add: length_remove1)
    then show ?thesis using R(1,2) le b by (simp add: s Remove_orphan orphans_fit_def remove_orphan_inode_def)
  next
    case (Track ino devidx type)
    show ?thesis
    proof (cases "type = ORPHAN_INO")
      case True
      then show ?thesis using ok le b by (simp add: s Track orphans_fit_def)
    next
      case False
      have i: "ino < 2 ^ 32" using assms(2) Track by simp
      note A = add_entry_ok [OF ok i, where type = type and devidx = devidx]
      show ?thesis using A(1) A(3) [of ORPHAN_INO] False le b by (simp add: s Track orphans_fit_def set_dirty_device_def)
    qed
  next
    case (Untrack ino type)
    note R = remove_entry_ok [OF ok, where ino = ino and type = type]
    have "length (ino_list (remove_ino_entry ino type im ORPHAN_INO)) \<le> length (ino_list (im ORPHAN_INO))"
      using R(2) R(3) [of ORPHAN_INO] by (cases "type = ORPHAN_INO") (auto simp: length_remove1)
    then show ?thesis using R(1) le b by (simp add: s Untrack orphans_fit_def)
  next
    case Drop
    then show ?thesis using release_all_ok [OF ok] le b by (simp add: s orphans_fit_def)
  qed
qed

section \<open>The blocks\<close>

definition page_entries :: "f2fs_orphan_block option \<Rightarrow> nat \<Rightarrow> nat list" where
  "page_entries page n = (case page of None \<Rightarrow> [] | Some b \<Rightarrow> map (\<lambda>j. unat (arr_get 0 (ob_ino b) j)) [0..<n])"

lemma page_entries_snoc:
  assumes "length (ob_ino b) = F2FS_ORPHANS_PER_BLOCK" "n < F2FS_ORPHANS_PER_BLOCK" "x < 2 ^ 32"
  shows "page_entries (Some (b\<lparr>ob_ino := (ob_ino b)[n := of_nat x]\<rparr>)) (n + 1) = page_entries (Some b) n @ [x]"
proof -
  have "map (\<lambda>j. unat (arr_get 0 ((ob_ino b)[n := of_nat x]) j)) [0..<n] = map (\<lambda>j. unat (arr_get 0 (ob_ino b) j)) [0..<n]"
    by (rule map_cong) (auto simp: arr_get_update)
  moreover have "unat (of_nat x :: u32) = x" using assms(3) by (simp add: unat_of_nat take_bit_nat_eq_self)
  ultimately show ?thesis using assms(1,2) by (simp add: page_entries_def arr_get_update)
qed

lemma entries_of_page: "n < 2 ^ 32 \<Longrightarrow> orphan_entries (b\<lparr>ob_blk_addr := i, ob_blk_count := c, ob_entry_count := of_nat n\<rparr>) = page_entries (Some b) n"
  by (simp add: orphan_entries_def page_entries_def unat_of_nat take_bit_nat_eq_self)

lemma write_loop_ok:
  assumes "n < F2FS_ORPHANS_PER_BLOCK" "case page of None \<Rightarrow> n = 0 | Some b \<Rightarrow> 0 < n \<and> length (ob_ino b) = F2FS_ORPHANS_PER_BLOCK" "\<forall>x \<in> set xs. x < 2 ^ 32"
  shows "concat (map orphan_entries (write_orphan_loop c xs page n i)) = page_entries page n @ xs \<and>
    length (write_orphan_loop c xs page n i) = GET_ORPHAN_BLOCKS (n + length xs)"
  using assms
proof (induction xs arbitrary: page n i)
  case Nil
  have "n < 2 ^ 32" using Nil(1) by (simp add: F2FS_ORPHANS_PER_BLOCK_def)
  moreover have "0 < n \<Longrightarrow> GET_ORPHAN_BLOCKS n = 1" using Nil(1) unfolding GET_ORPHAN_BLOCKS_def F2FS_ORPHANS_PER_BLOCK_def by (intro div_nat_eqI) simp_all
  moreover have "GET_ORPHAN_BLOCKS 0 = 0" by (simp add: GET_ORPHAN_BLOCKS_def F2FS_ORPHANS_PER_BLOCK_def)
  ultimately show ?case using Nil(2) by (cases page) (auto simp: entries_of_page page_entries_def)
next
  case (Cons x xs)
  define b where "b = (case page of None \<Rightarrow> zero_orphan_block | Some b \<Rightarrow> b)"
  define b' where "b' = b\<lparr>ob_ino := (ob_ino b)[n := of_nat x]\<rparr>"
  have lb: "length (ob_ino b) = F2FS_ORPHANS_PER_BLOCK" using Cons.prems(2) by (auto simp: b_def zero_orphan_block_def split: option.splits)
  have x: "x < 2 ^ 32" and xs: "\<forall>y \<in> set xs. y < 2 ^ 32" using Cons.prems(3) by auto
  have pe: "page_entries page n = page_entries (Some b) n" using Cons.prems(2) by (auto simp: b_def page_entries_def split: option.splits)
  have sn: "page_entries (Some b') (n + 1) = page_entries page n @ [x]" unfolding b'_def pe by (rule page_entries_snoc [OF lb Cons.prems(1) x])
  show ?case
  proof (cases "n + 1 = F2FS_ORPHANS_PER_BLOCK")
    case True
    have st: "write_orphan_loop c (x # xs) page n i =
        b'\<lparr>ob_blk_addr := i, ob_blk_count := c, ob_entry_count := of_nat (n + 1)\<rparr> # write_orphan_loop c xs None 0 (i + 1)"
      using True by (simp add: Let_def b_def [symmetric] b'_def [symmetric])
    have "0 < F2FS_ORPHANS_PER_BLOCK" by (simp add: F2FS_ORPHANS_PER_BLOCK_def)
    then have ih: "concat (map orphan_entries (write_orphan_loop c xs None 0 (i + 1))) = xs" "length (write_orphan_loop c xs None 0 (i + 1)) = GET_ORPHAN_BLOCKS (length xs)"
      using Cons.IH [of 0 None] xs by (simp_all add: page_entries_def)
    have "n + 1 < 2 ^ 32" using True by (simp add: F2FS_ORPHANS_PER_BLOCK_def)
    moreover have "GET_ORPHAN_BLOCKS (n + length (x # xs)) = GET_ORPHAN_BLOCKS (length xs) + 1"
    proof -
      have "n + length (x # xs) + F2FS_ORPHANS_PER_BLOCK - 1 = (length xs + F2FS_ORPHANS_PER_BLOCK - 1) + 1 * F2FS_ORPHANS_PER_BLOCK" using True by (simp add: F2FS_ORPHANS_PER_BLOCK_def)
      then show ?thesis unfolding GET_ORPHAN_BLOCKS_def by (simp add: F2FS_ORPHANS_PER_BLOCK_def)
    qed
    moreover have "orphan_entries (b'\<lparr>ob_blk_addr := i, ob_blk_count := c, ob_entry_count := of_nat (n + 1)\<rparr>) = page_entries (Some b') (n + 1)"
      using True by (intro entries_of_page) (simp add: F2FS_ORPHANS_PER_BLOCK_def)
    ultimately show ?thesis unfolding st using ih sn by simp
  next
    case False
    have st: "write_orphan_loop c (x # xs) page n i = write_orphan_loop c xs (Some b') (n + 1) i"
      using False by (simp add: Let_def b_def [symmetric] b'_def [symmetric])
    have "n + 1 < F2FS_ORPHANS_PER_BLOCK" using False Cons.prems(1) by simp
    moreover have "length (ob_ino b') = F2FS_ORPHANS_PER_BLOCK" using lb by (simp add: b'_def)
    ultimately show ?thesis unfolding st using Cons.IH [of "n + 1" "Some b'"] xs sn by simp
  qed
qed

section \<open>Recovery\<close>

lemma recover_one:
  assumes ok: "im_ok 0 (os_im st)" and e: "ino_list (os_im st ORPHAN_INO) = []" and i: "ino < 2 ^ 32" and m: "0 < mx"
  shows "recover_orphan_inode mx (\<lambda>_. None) (\<lambda>_. False) ino st =
    (None, st\<lparr>os_im := (os_im st)(ORPHAN_INO := \<lparr>ino_root = Map.empty, ino_list = [], ino_num = 0\<rparr>), os_evicted := os_evicted st @ [ino]\<rparr>)"
proof -
  have r: "ino_root (os_im st ORPHAN_INO) = Map.empty" using im_okD(2) [OF ok, of ORPHAN_INO] unfolding e by (metis dom_eq_empty_conv list.set(1))
  have n: "ino_num (os_im st ORPHAN_INO) = 0" using im_okD(4) [OF ok, of ORPHAN_INO] e by (simp add: unat_eq_zero)
  have "\<not> ino_num (os_im st ORPHAN_INO) \<ge> mx" using n m by (simp add: not_le)
  moreover have "os_im st ORPHAN_INO = \<lparr>ino_root = Map.empty, ino_list = [], ino_num = 0\<rparr>" using r e n by (cases "os_im st ORPHAN_INO") simp
  ultimately show ?thesis
    by (simp add: recover_orphan_inode_def acquire_orphan_inode_def Let_def add_ino_entry_at_def remove_ino_entry_def)
qed

lemma recover_loop_ok:
  assumes "im_ok 0 (os_im st)" "os_im st ORPHAN_INO = \<lparr>ino_root = Map.empty, ino_list = [], ino_num = 0\<rparr>" "\<forall>x \<in> set xs. x < 2 ^ 32" "0 < mx"
  shows "recover_loop (recover_orphan_inode mx (\<lambda>_. None) (\<lambda>_. False)) xs st = (None, st\<lparr>os_evicted := os_evicted st @ xs\<rparr>)"
  using assms
proof (induction xs arbitrary: st)
  case (Cons x xs)
  have e: "(os_im st)(ORPHAN_INO := \<lparr>ino_root = Map.empty, ino_list = [], ino_num = 0\<rparr>) = os_im st" using Cons.prems(2) by (metis fun_upd_triv)
  have "recover_orphan_inode mx (\<lambda>_. None) (\<lambda>_. False) x st = (None, st\<lparr>os_evicted := os_evicted st @ [x]\<rparr>)"
    using recover_one [OF Cons.prems(1) _ _ Cons.prems(4), of x] Cons.prems(2,3) e by simp
  then show ?case using Cons.IH [of "st\<lparr>os_evicted := os_evicted st @ [x]\<rparr>"] Cons.prems by simp
qed simp

definition no_inos :: ims where
  "no_inos = fst (init_ino_entry_info 512 0)"

lemma no_inos_ok: "im_ok 0 no_inos" "no_inos t = \<lparr>ino_root = Map.empty, ino_list = [], ino_num = 0\<rparr>"
  by (simp_all add: no_inos_def init_ino_entry_info_def im_ok_def)

text \<open>Property C14.
  The orphans that a checkpoint writes are the orphans the next mount removes: with no place reserved at the checkpoint, the blocks are as many as the checkpoint pack has set aside for them,
  and the recovery, when every inode can be read and removed, evicts exactly the inodes of the list in its order and ends with an empty list and the flag cleared.\<close>

theorem orphan_roundtrip:
  assumes "im_ok 0 im" "0 < mx"
  shows "recover_orphan_inodes True mx (\<lambda>_. None) (\<lambda>_. False) (write_orphan_inodes im) \<lparr>os_im = no_inos, os_evicted = [], os_need_fsck = False, os_bug = False\<rparr> =
      (None, \<lparr>os_im = no_inos, os_evicted = ino_list (im ORPHAN_INO), os_need_fsck = False, os_bug = False\<rparr>, False) \<and>
    length (write_orphan_inodes im) = GET_ORPHAN_BLOCKS (unat (ino_num (im ORPHAN_INO)))"
proof -
  note I = im_okD [OF assms(1)]
  let ?xs = "ino_list (im ORPHAN_INO)"
  have lt: "\<forall>x \<in> set ?xs. x < 2 ^ 32" using I(3) by blast
  have W: "concat (map orphan_entries (write_orphan_inodes im)) = ?xs" "length (write_orphan_inodes im) = GET_ORPHAN_BLOCKS (length ?xs)"
    using write_loop_ok [of 0 None ?xs] lt unfolding write_orphan_inodes_def Let_def by (simp_all add: page_entries_def F2FS_ORPHANS_PER_BLOCK_def)
  show ?thesis
    using recover_loop_ok [of "\<lparr>os_im = no_inos, os_evicted = [], os_need_fsck = False, os_bug = False\<rparr>" ?xs mx] no_inos_ok lt assms(2) W I(4) [of ORPHAN_INO]
    by (simp add: recover_orphan_inodes_def)
qed

definition demo_inos :: ims where
  "demo_inos = no_inos(ORPHAN_INO := \<lparr>ino_root = [5 \<mapsto> [0, 0, 0, 0], 7 \<mapsto> [0, 0, 0, 0]], ino_list = [5, 7], ino_num = 2\<rparr>)"

lemma demo_inos_ok: "im_ok 0 demo_inos"
  using no_inos_ok by (auto simp: im_ok_def demo_inos_def)

theorem orphan_roundtrip_witness:
  "recover_orphan_inodes True 100 (\<lambda>_. None) (\<lambda>_. False) (write_orphan_inodes demo_inos) \<lparr>os_im = no_inos, os_evicted = [], os_need_fsck = False, os_bug = False\<rparr> =
      (None, \<lparr>os_im = no_inos, os_evicted = [5, 7], os_need_fsck = False, os_bug = False\<rparr>, False) \<and> length (write_orphan_inodes demo_inos) = 1"
proof -
  have "ino_list (demo_inos ORPHAN_INO) = [5, 7]" "unat (ino_num (demo_inos ORPHAN_INO)) = 2"
    by (simp_all add: demo_inos_def)
  then show ?thesis using orphan_roundtrip [OF demo_inos_ok, of 100] by (simp add: GET_ORPHAN_BLOCKS_def F2FS_ORPHANS_PER_BLOCK_def)
qed

text \<open>Property C20.
  After any history of reservations, new and removed orphans and other tracked inodes from the initial lists, every list and its counter agree, the orphans together with the reserved places
  never exceed the limit computed at mount, so that their blocks fit between the two headers, the payload and the summaries of a checkpoint pack, and the assertion on the counter never fails.\<close>

theorem orphans_always_fit:
  assumes "list_all orphan_op_valid ops" "F2FS_CP_PACKS + NR_CURSEG_TYPE + payload \<le> bps" "bps \<le> 2 ^ 20" "init_ino_entry_info bps payload = (im0, mx)"
  shows "case fold (orphan_step (of_nat mx)) ops (0, im0, False) of (tok, im, bug) \<Rightarrow>
      im_ok tok im \<and> \<not> bug \<and> F2FS_CP_PACKS + payload + GET_ORPHAN_BLOCKS (length (ino_list (im ORPHAN_INO)) + tok) + NR_CURSEG_TYPE \<le> bps"
proof -
  have im0: "im0 = (\<lambda>_. \<lparr>ino_root = Map.empty, ino_list = [], ino_num = 0\<rparr>)" and mx: "mx = (bps - F2FS_CP_PACKS - NR_CURSEG_TYPE - payload) * F2FS_ORPHANS_PER_BLOCK"
    using assms(4) by (simp_all add: init_ino_entry_info_def)
  have "mx \<le> 2 ^ 20 * 1020" unfolding mx F2FS_ORPHANS_PER_BLOCK_def using assms(3) by (intro mult_le_mono1) simp
  then have um: "unat (of_nat mx :: u64) = mx" by (simp add: unat_of_nat take_bit_nat_eq_self)
  have "orphans_fit (of_nat mx) (0, im0, False)" by (simp add: orphans_fit_def im0 im_ok_def)
  then have "orphans_fit (of_nat mx) (fold (orphan_step (of_nat mx)) ops (0, im0, False))"
    using assms(1) by (induction ops arbitrary: im0 rule: rev_induct) (simp_all add: orphan_step_ok)
  then obtain tok im bug where f: "fold (orphan_step (of_nat mx)) ops (0, im0, False) = (tok, im, bug)" and
    o: "im_ok tok im" "length (ino_list (im ORPHAN_INO)) + tok \<le> mx" "\<not> bug" by (auto simp: orphans_fit_def um)
  have "GET_ORPHAN_BLOCKS (length (ino_list (im ORPHAN_INO)) + tok) \<le> bps - F2FS_CP_PACKS - NR_CURSEG_TYPE - payload"
  proof -
    let ?k = "bps - F2FS_CP_PACKS - NR_CURSEG_TYPE - payload"
    have "(length (ino_list (im ORPHAN_INO)) + tok + 1020 - 1) div 1020 \<le> (?k * 1020 + 1020 - 1) div 1020"
      using o(2) unfolding mx F2FS_ORPHANS_PER_BLOCK_def by (intro div_le_mono) simp
    also have "\<dots> = ?k" by (intro div_nat_eqI) simp_all
    finally show ?thesis by (simp add: GET_ORPHAN_BLOCKS_def F2FS_ORPHANS_PER_BLOCK_def)
  qed
  then show ?thesis using f o assms(2) by simp
qed

theorem orphans_always_fit_witness:
  "case fold (orphan_step (of_nat ((512 - 2 - 6 - 0) * 1020))) [Acquire False, Add_orphan 5, Acquire False, Track 9 0 FLUSH_INO, Release, Drop] (0, no_inos, False) of
     (tok, im, bug) \<Rightarrow> im_ok tok im \<and> \<not> bug \<and> F2FS_CP_PACKS + 0 + GET_ORPHAN_BLOCKS (length (ino_list (im ORPHAN_INO)) + tok) + NR_CURSEG_TYPE \<le> 512"
  by (rule orphans_always_fit)
    (simp_all add: F2FS_CP_PACKS_def NR_CURSEG_TYPE_def init_ino_entry_info_def no_inos_def F2FS_ORPHANS_PER_BLOCK_def)

end
