(* ===== verification/Cp_Pack.thy ===== *)
theory Cp_Pack
  imports Byte_Block Super_Check Ino_Entries
begin

text \<open>
  Checkpoint packs (\<^verbatim>\<open>checkpoint.c\<close>). Two packs are kept in two segments; a checkpoint goes to the one that is not in use. A pack starts and
  ends with the same block; at mount a pack counts when both pass their checksum and have the same version, and the newer of the two packs is taken. The blocks
  are byte arrays, as the checksum is over bytes; the checksum itself is a parameter.
\<close>

section \<open>The checkpoint block\<close>

text \<open>The fields of \<^verbatim>\<open>struct f2fs_checkpoint\<close> by their offsets.\<close>

definition cur_cp_version :: "u8 list \<Rightarrow> u64" where "cur_cp_version cp = get64 0 cp"
definition rsvd_segment_count :: "u8 list \<Rightarrow> u32" where "rsvd_segment_count cp = get32 24 cp"
definition overprov_segment_count :: "u8 list \<Rightarrow> u32" where "overprov_segment_count cp = get32 28 cp"
definition cur_node_segno :: "u8 list \<Rightarrow> nat \<Rightarrow> u32" where "cur_node_segno cp i = get32 (36 + 4 * i) cp"
definition cur_node_blkoff :: "u8 list \<Rightarrow> nat \<Rightarrow> u16" where "cur_node_blkoff cp i = get16 (68 + 2 * i) cp"
definition cur_data_segno :: "u8 list \<Rightarrow> nat \<Rightarrow> u32" where "cur_data_segno cp i = get32 (84 + 4 * i) cp"
definition cur_data_blkoff :: "u8 list \<Rightarrow> nat \<Rightarrow> u16" where "cur_data_blkoff cp i = get16 (116 + 2 * i) cp"
definition ckpt_flags :: "u8 list \<Rightarrow> u32" where "ckpt_flags cp = get32 132 cp"
definition cp_pack_total_block_count :: "u8 list \<Rightarrow> u32" where "cp_pack_total_block_count cp = get32 136 cp"
definition cp_pack_start_sum :: "u8 list \<Rightarrow> u32" where "cp_pack_start_sum cp = get32 140 cp"
definition sit_ver_bitmap_bytesize :: "u8 list \<Rightarrow> u32" where "sit_ver_bitmap_bytesize cp = get32 156 cp"
definition checksum_offset :: "u8 list \<Rightarrow> u32" where "checksum_offset cp = get32 164 cp"

definition cur_cp_crc :: "u8 list \<Rightarrow> u32" where
  "cur_cp_crc cp = get32 (unat (checksum_offset cp)) cp"

definition CP_NOCRC_RECOVERY_FLAG :: u32 where "CP_NOCRC_RECOVERY_FLAG = 0x200"
definition CP_TRIMMED_FLAG :: u32 where "CP_TRIMMED_FLAG = 0x100"
definition CP_NAT_BITS_FLAG :: u32 where "CP_NAT_BITS_FLAG = 0x80"
definition CP_CRC_RECOVERY_FLAG :: u32 where "CP_CRC_RECOVERY_FLAG = 0x40"
definition CP_FASTBOOT_FLAG :: u32 where "CP_FASTBOOT_FLAG = 0x20"
definition CP_FSCK_FLAG :: u32 where "CP_FSCK_FLAG = 0x10"
definition CP_COMPACT_SUM_FLAG :: u32 where "CP_COMPACT_SUM_FLAG = 4"
definition CP_ORPHAN_PRESENT_FLAG :: u32 where "CP_ORPHAN_PRESENT_FLAG = 2"
definition CP_UMOUNT_FLAG :: u32 where "CP_UMOUNT_FLAG = 1"

definition is_set_ckpt_flags :: "u8 list \<Rightarrow> u32 \<Rightarrow> bool" where "is_set_ckpt_flags cp f \<longleftrightarrow> ckpt_flags cp AND f \<noteq> 0"
definition set_ckpt_flags :: "u32 \<Rightarrow> u8 list \<Rightarrow> u8 list" where "set_ckpt_flags f cp = put_bytes 132 (le32_bytes (ckpt_flags cp OR f)) cp"
definition clear_ckpt_flags :: "u32 \<Rightarrow> u8 list \<Rightarrow> u8 list" where "clear_ckpt_flags f cp = put_bytes 132 (le32_bytes (ckpt_flags cp AND NOT f)) cp"

section \<open>The checks at mount\<close>

definition f2fs_crc_valid :: "(u8 list \<Rightarrow> u32) \<Rightarrow> u32 \<Rightarrow> u8 list \<Rightarrow> nat \<Rightarrow> bool" where
  "f2fs_crc_valid crc32 blk_crc buf buf_size = (crc32 (take buf_size buf) = blk_crc)"

definition get_checkpoint_version :: "(u8 list \<Rightarrow> u32) \<Rightarrow> u8 list \<Rightarrow> errno + u64" where
  "get_checkpoint_version crc32 cp_block =
     (let crc_offset = unat (checksum_offset cp_block)
      in if crc_offset > 4096 - 4 then Inl EINVAL
         else if \<not> f2fs_crc_valid crc32 (cur_cp_crc cp_block) cp_block crc_offset then Inl EINVAL
         else Inr (cur_cp_version cp_block))"

definition validate_checkpoint :: "(u8 list \<Rightarrow> u32) \<Rightarrow> (nat \<Rightarrow> u8 list) \<Rightarrow> nat \<Rightarrow> (u8 list \<times> u64) option" where
  "validate_checkpoint crc32 disk cp_addr =
     (case get_checkpoint_version crc32 (disk cp_addr) of
        Inl e \<Rightarrow> None
      | Inr pre_version \<Rightarrow>
          let cp_addr2 = (cp_addr + unat (cp_pack_total_block_count (disk cp_addr) - 1)) mod 2 ^ 32
          in case get_checkpoint_version crc32 (disk cp_addr2) of
               Inl e \<Rightarrow> None
             | Inr cur_version \<Rightarrow> if cur_version = pre_version then Some (disk cp_addr, cur_version) else None)"

definition ver_after :: "u64 \<Rightarrow> u64 \<Rightarrow> bool" where
  "ver_after a b \<longleftrightarrow> sint (a - b) > 0"

definition F2FS_MIN_SEGMENTS :: u32 where "F2FS_MIN_SEGMENTS = 9"
definition NR_CURSEG_NODE_TYPE :: nat where "NR_CURSEG_NODE_TYPE = 3"
definition NR_CURSEG_DATA_TYPE :: nat where "NR_CURSEG_DATA_TYPE = 3"

text \<open>True when a check fails.\<close>

definition sanity_check_ckpt :: "f2fs_super_block \<Rightarrow> nat \<Rightarrow> bool \<Rightarrow> u8 list \<Rightarrow> bool" where
  "sanity_check_ckpt raw_super blocks_per_seg cp_error ckpt =
     (let total = segment_count raw_super;
          fsmeta = segment_count_ckpt raw_super + segment_count_sit raw_super + segment_count_nat raw_super + rsvd_segment_count ckpt + segment_count_ssa raw_super;
          ovp_segments = overprov_segment_count ckpt;
          reserved_segments = rsvd_segment_count ckpt;
          main_segs = segment_count_main raw_super
      in if fsmeta \<ge> total then True
         else if fsmeta < F2FS_MIN_SEGMENTS \<or> ovp_segments = 0 \<or> reserved_segments = 0 then True
         else if list_ex (\<lambda>i. cur_node_segno ckpt i \<ge> main_segs \<or> unat (cur_node_blkoff ckpt i) \<ge> blocks_per_seg) [0..<NR_CURSEG_NODE_TYPE] then True
         else if list_ex (\<lambda>i. cur_data_segno ckpt i \<ge> main_segs \<or> unat (cur_data_blkoff ckpt i) \<ge> blocks_per_seg) [0..<NR_CURSEG_DATA_TYPE] then True
         else cp_error)"

text \<open>The buffer of the checkpoint with its payload, and the number of the pack.\<close>

definition get_valid_checkpoint :: "(u8 list \<Rightarrow> u32) \<Rightarrow> f2fs_super_block \<Rightarrow> nat \<Rightarrow> bool \<Rightarrow> (nat \<Rightarrow> u8 list) \<Rightarrow> errno + u8 list \<times> nat" where
  "get_valid_checkpoint crc32 fsb blocks_per_seg cp_error disk =
     (let cp_blks = 1 + unat (cp_payload fsb);
          start1 = unat (cp_blkaddr fsb);
          start2 = start1 + push_bit (unat (log_blocks_per_seg fsb)) 1;
          cp1 = validate_checkpoint crc32 disk start1;
          cp2 = validate_checkpoint crc32 disk (start2 mod 2 ^ 32);
          cur = (case (cp1, cp2) of
                   (Some (b1, v1), Some (b2, v2)) \<Rightarrow> if ver_after v2 v1 then Some (b2, 2) else Some (b1, 1)
                 | (Some (b1, v1), None) \<Rightarrow> Some (b1, 1)
                 | (None, Some (b2, v2)) \<Rightarrow> Some (b2, 2)
                 | (None, None) \<Rightarrow> None)
      in case cur of None \<Rightarrow> Inl EINVAL
         | Some (cp_block, pack) \<Rightarrow>
             if sanity_check_ckpt fsb blocks_per_seg cp_error cp_block then Inl EINVAL
             else
               let cp_blk_no = (if pack = 2 then start2 else start1)
               in Inr (cp_block @ concat (map (\<lambda>i. disk ((cp_blk_no + i) mod 2 ^ 32)) [1..<cp_blks]), pack))"

section \<open>Writing a pack\<close>

record cp_sb =
  cs_raw :: f2fs_super_block
  cs_blocks_per_seg :: nat
  cs_cur_cp_pack :: nat
  cs_ckpt :: "u8 list"
  cs_im :: ims
  cs_nat_bits_blocks :: nat
  cs_nat_bits :: "u8 list"
  cs_need_fsck :: bool
  cs_is_dirty :: bool
  cs_need_cp :: bool

text \<open>Where the block layer fails: while the dirty NAT and SIT pages or the nat bits are flushed, before the pack (also the error of the flush of the
  device caches), before the pack is submitted, or while it is written.\<close>

datatype cp_fail = Fail_meta | Fail_bits | Fail_wait errno | Fail_submit | Fail_pack

text \<open>What the other parts of the file system contribute: counters, the current segments, the summary blocks, the version bitmaps, the failure, and whether node pages or
  inodes became dirty meanwhile.\<close>

record cp_env =
  ce_mtime :: u64
  ce_free_segments :: u32
  ce_node_segs :: "(u32 \<times> u16 \<times> u8) list"
  ce_data_segs :: "(u32 \<times> u16 \<times> u8) list"
  ce_data_sums :: "u8 list list"
  ce_node_sums :: "u8 list list"
  ce_sit_bitmap :: "u8 list"
  ce_nat_bitmap :: "u8 list"
  ce_valid_blocks :: u64
  ce_valid_nodes :: u32
  ce_valid_inodes :: u32
  ce_next_nid :: u32
  ce_fail :: "cp_fail option"
  ce_redirtied :: bool

record cp_reason =
  CP_UMOUNT :: bool
  CP_FASTBOOT :: bool
  CP_TRIMMED :: bool
  CP_SYNC :: bool
  CP_DISCARD :: bool

definition start_cp_addr :: "cp_sb \<Rightarrow> nat" where
  "start_cp_addr st = unat (cp_blkaddr (cs_raw st)) + (if cs_cur_cp_pack st = 2 then cs_blocks_per_seg st else 0)"

definition start_cp_next_addr :: "cp_sb \<Rightarrow> nat" where
  "start_cp_next_addr st = unat (cp_blkaddr (cs_raw st)) + (if cs_cur_cp_pack st = 1 then cs_blocks_per_seg st else 0)"

definition set_cp_next_pack :: "cp_sb \<Rightarrow> cp_sb" where
  "set_cp_next_pack st = st\<lparr>cs_cur_cp_pack := (if cs_cur_cp_pack st = 1 then 2 else 1)\<rparr>"

definition remain_node_summaries :: "cp_reason \<Rightarrow> bool" where
  "remain_node_summaries r \<longleftrightarrow> CP_UMOUNT r \<or> CP_FASTBOOT r"

definition disable_nat_bits :: "cp_sb \<Rightarrow> cp_sb" where
  "disable_nat_bits st = st\<lparr>cs_need_fsck := True, cs_ckpt := clear_ckpt_flags CP_NAT_BITS_FLAG (cs_ckpt st), cs_nat_bits := []\<rparr>"

definition put_flag :: "bool \<Rightarrow> u32 \<Rightarrow> u8 list \<Rightarrow> u8 list" where
  "put_flag on f cp = (if on then set_ckpt_flags f cp else clear_ckpt_flags f cp)"

definition update_ckpt_flags :: "cp_reason \<Rightarrow> cp_sb \<Rightarrow> cp_sb" where
  "update_ckpt_flags r st =
     (let orphan_num = ino_num (cs_im st ORPHAN_INO);
          st = (if CP_UMOUNT r \<and> unat (cp_pack_total_block_count (cs_ckpt st)) > cs_blocks_per_seg st - cs_nat_bits_blocks st then disable_nat_bits st else st);
          cp = cs_ckpt st;
          cp = (if CP_TRIMMED r then set_ckpt_flags CP_TRIMMED_FLAG cp else cp);
          cp = put_flag (CP_UMOUNT r) CP_UMOUNT_FLAG cp;
          cp = put_flag (CP_FASTBOOT r) CP_FASTBOOT_FLAG cp;
          cp = put_flag (orphan_num \<noteq> 0) CP_ORPHAN_PRESENT_FLAG cp;
          cp = (if cs_need_fsck st then set_ckpt_flags CP_FSCK_FLAG cp else cp);
          cp = set_ckpt_flags CP_CRC_RECOVERY_FLAG cp;
          cp = clear_ckpt_flags CP_NOCRC_RECOVERY_FLAG cp
      in st\<lparr>cs_ckpt := cp\<rparr>)"

definition sit_bitmap_off :: "cp_sb \<Rightarrow> nat" where
  "sit_bitmap_off st = (if cp_payload (cs_raw st) > 0 then 4096 else 192)"

definition nat_bitmap_off :: "cp_sb \<Rightarrow> nat" where
  "nat_bitmap_off st = (if cp_payload (cs_raw st) > 0 then 192 else 192 + unat (sit_ver_bitmap_bytesize (cs_ckpt st)))"

definition put_cursegs :: "cp_env \<Rightarrow> u8 list \<Rightarrow> u8 list" where
  "put_cursegs env cp =
     (let cp = put_bytes 36 (concat (map (\<lambda>(s, b, a). le32_bytes s) (ce_node_segs env))) cp;
          cp = put_bytes 68 (concat (map (\<lambda>(s, b, a). le16_bytes b) (ce_node_segs env))) cp;
          cp = put_bytes (176 + 3) (map (\<lambda>(s, b, a). a) (ce_node_segs env)) cp;
          cp = put_bytes 84 (concat (map (\<lambda>(s, b, a). le32_bytes s) (ce_data_segs env))) cp;
          cp = put_bytes 116 (concat (map (\<lambda>(s, b, a). le16_bytes b) (ce_data_segs env))) cp
      in put_bytes 176 (map (\<lambda>(s, b, a). a) (ce_data_segs env)) cp)"

definition encode_orphan_block :: "f2fs_orphan_block \<Rightarrow> u8 list" where
  "encode_orphan_block b = concat (map le32_bytes (ob_ino b)) @ le32_bytes 0 @ le16_bytes (ob_blk_addr b) @ le16_bytes (ob_blk_count b) @
     le32_bytes (ob_entry_count b) @ le32_bytes 0"

definition decode_orphan_block :: "u8 list \<Rightarrow> f2fs_orphan_block" where
  "decode_orphan_block b = \<lparr>ob_ino = map (\<lambda>i. get32 (4 * i) b) [0..<F2FS_ORPHANS_PER_BLOCK], ob_blk_addr = get16 4084 b, ob_blk_count = get16 4086 b,
     ob_entry_count = get32 4088 b\<rparr>"

definition blocks_at :: "nat \<Rightarrow> 'b list \<Rightarrow> (nat \<times> 'b) list" where
  "blocks_at start bs = zip [start..<start + length bs] bs"

text \<open>The checkpoint in memory with all its fields, its checksum not yet computed.\<close>

definition fill_ckpt :: "cp_reason \<Rightarrow> cp_env \<Rightarrow> cp_sb \<Rightarrow> u8 list" where
  "fill_ckpt r env st =
     (let data_sum_blocks = length (ce_data_sums env);
          orphan_blocks = GET_ORPHAN_BLOCKS (unat (ino_num (cs_im st ORPHAN_INO)));
          payload = unat (cp_payload (cs_raw st));
          cp = put_bytes 168 (le64_bytes (ce_mtime env)) (cs_ckpt st);
          cp = put_bytes 32 (le32_bytes (ce_free_segments env)) cp;
          cp = put_cursegs env cp;
          cp = put_flag (data_sum_blocks < NR_CURSEG_DATA_TYPE) CP_COMPACT_SUM_FLAG cp;
          cp = put_bytes 140 (le32_bytes (of_nat (1 + payload + orphan_blocks))) cp
      in put_bytes 136 (le32_bytes (of_nat (F2FS_CP_PACKS + payload + data_sum_blocks + orphan_blocks +
           (if remain_node_summaries r then NR_CURSEG_NODE_TYPE else 0)))) cp)"

definition prepare_ckpt :: "cp_reason \<Rightarrow> cp_env \<Rightarrow> cp_sb \<Rightarrow> cp_sb" where
  "prepare_ckpt r env st =
     (let st = update_ckpt_flags r (st\<lparr>cs_ckpt := fill_ckpt r env st\<rparr>);
          cp = put_bytes (sit_bitmap_off st) (ce_sit_bitmap env) (cs_ckpt st);
          cp = put_bytes (nat_bitmap_off st) (ce_nat_bitmap env) cp
      in st\<lparr>cs_ckpt := cp\<rparr>)"

definition pack_writes :: "cp_reason \<Rightarrow> cp_env \<Rightarrow> nat \<Rightarrow> cp_sb \<Rightarrow> (nat \<times> u8 list) list" where
  "pack_writes r env start_blk st =
     (let ckpt = cs_ckpt st;
          orphan_num = ino_num (cs_im st ORPHAN_INO);
          payload = unat (cp_payload (cs_raw st));
          head = blocks_at start_blk (map (\<lambda>i. get_bytes (i * 4096) 4096 ckpt) [0..<1 + payload]);
          start_blk = start_blk + 1 + payload;
          orphans = (if orphan_num \<noteq> 0 then blocks_at start_blk (map encode_orphan_block (write_orphan_inodes (cs_im st))) else []);
          start_blk = (if orphan_num \<noteq> 0 then start_blk + GET_ORPHAN_BLOCKS (unat orphan_num) else start_blk);
          data = blocks_at start_blk (ce_data_sums env);
          start_blk = start_blk + length (ce_data_sums env);
          node = (if remain_node_summaries r then blocks_at start_blk (ce_node_sums env) else []);
          start_blk = (if remain_node_summaries r then start_blk + NR_CURSEG_NODE_TYPE else start_blk)
      in head @ orphans @ data @ node @ [(start_blk, get_bytes 0 4096 ckpt)])"

text \<open>
  The result: the error, the new state, the nat bits written and awaited before the pack, and the pack, which is
  submitted as one request.
\<close>

definition do_checkpoint :: "(u8 list \<Rightarrow> u32) \<Rightarrow> cp_reason \<Rightarrow> cp_env \<Rightarrow> cp_sb \<Rightarrow> errno option \<times> cp_sb \<times> (nat \<times> u8 list) list \<times> (nat \<times> u8 list) list" where
  "do_checkpoint crc32 r env st =
     (if ce_fail env = Some Fail_meta then (Some EIO, st, [], [])
      else
      let st = prepare_ckpt r env st;
          off = unat (checksum_offset (cs_ckpt st));
          crc = crc32 (take off (cs_ckpt st));
          st = st\<lparr>cs_ckpt := put_bytes off (le32_bytes crc) (cs_ckpt st)\<rparr>;
          start_blk = start_cp_next_addr st;
          bits_on = (CP_UMOUNT r \<and> is_set_ckpt_flags (cs_ckpt st) CP_NAT_BITS_FLAG);
          cp_ver = cur_cp_version (cs_ckpt st) OR push_bit 32 (ucast crc);
          st = (if bits_on then st\<lparr>cs_nat_bits := put_bytes 0 (le64_bytes cp_ver) (cs_nat_bits st)\<rparr> else st);
          bits = (if bits_on then blocks_at (start_blk + cs_blocks_per_seg st - cs_nat_bits_blocks st)
                    (map (\<lambda>i. get_bytes (i * 4096) 4096 (cs_nat_bits st)) [0..<cs_nat_bits_blocks st]) else [])
      in if bits_on \<and> ce_fail env = Some Fail_bits then (Some EIO, st, bits, [])
         else case ce_fail env of Some (Fail_wait e) \<Rightarrow> (Some e, st, bits, [])
         | fail \<Rightarrow>
             if fail = Some Fail_submit then (Some EIO, st, bits, [])
             else
               let pack = pack_writes r env start_blk st;
                   st = st\<lparr>cs_im := release_ino_entry False (cs_im st)\<rparr>
               in if fail = Some Fail_pack then (Some EIO, st, bits, pack)
                  else (None, set_cp_next_pack (st\<lparr>cs_is_dirty := ce_redirtied env, cs_need_cp := False\<rparr>), bits, pack))"

definition prepare_cp_block :: "cp_env \<Rightarrow> cp_sb \<Rightarrow> cp_sb" where
  "prepare_cp_block env st =
     (let cp = put_bytes 16 (le64_bytes (ce_valid_blocks env)) (cs_ckpt st);
          cp = put_bytes 144 (le32_bytes (ce_valid_nodes env)) cp;
          cp = put_bytes 148 (le32_bytes (ce_valid_inodes env)) cp;
          cp = put_bytes 152 (le32_bytes (ce_next_nid env)) cp
      in st\<lparr>cs_ckpt := cp\<rparr>)"

text \<open>
  The conditions of \<^verbatim>\<open>write_checkpoint\<close>: \<open>block_ops\<close> is the result of stopping all operations, \<open>discard_blks\<close>, \<open>candidates\<close> and \<open>meta_clean\<close>
  say whether there is anything to trim and nothing else to write.
\<close>

record cp_cond =
  cc_cp_error :: bool
  cc_readonly :: bool
  cc_block_ops :: "errno option"
  cc_discard_blks :: bool
  cc_candidates :: bool
  cc_meta_clean :: bool

definition write_checkpoint :: "(u8 list \<Rightarrow> u32) \<Rightarrow> cp_reason \<Rightarrow> cp_cond \<Rightarrow> cp_env \<Rightarrow> cp_sb \<Rightarrow> errno option \<times> cp_sb \<times> (nat \<times> u8 list) list \<times> (nat \<times> u8 list) list" where
  "write_checkpoint crc32 r c env st =
     (if \<not> cs_is_dirty st \<and> (CP_FASTBOOT r \<or> CP_SYNC r \<or> CP_DISCARD r \<and> \<not> cc_discard_blks c) then (None, st, [], [])
      else if cc_cp_error c then (Some EIO, st, [], [])
      else if cc_readonly c then (Some EROFS, st, [], [])
      else case cc_block_ops c of Some e \<Rightarrow> (Some e, st, [], [])
      | None \<Rightarrow>
          let st = prepare_cp_block env st
          in if CP_DISCARD r \<and> \<not> cc_candidates c then (None, st, [], [])
             else if CP_DISCARD r \<and> cc_meta_clean c then (None, st, [], [])
             else
               let ckpt_ver = cur_cp_version (cs_ckpt st) + 1
               in do_checkpoint crc32 r env (st\<lparr>cs_ckpt := put_bytes 0 (le64_bytes ckpt_ver) (cs_ckpt st)\<rparr>))"

text \<open>The blocks that the recovery of orphans reads after a mount from pack \<open>cur_pack\<close>.\<close>

definition read_orphan_blocks :: "(nat \<Rightarrow> u8 list) \<Rightarrow> cp_sb \<Rightarrow> f2fs_orphan_block list" where
  "read_orphan_blocks disk st =
     (let start_blk = start_cp_addr st + 1 + unat (cp_payload (cs_raw st));
          orphan_blocks = cp_pack_start_sum (cs_ckpt st) - 1 - cp_payload (cs_raw st)
      in map (\<lambda>i. decode_orphan_block (disk (start_blk + i))) [0..<unat orphan_blocks])"

definition mount_orphans :: "(nat \<Rightarrow> u8 list) \<Rightarrow> u64 \<Rightarrow> (nat \<Rightarrow> errno option) \<Rightarrow> (nat \<Rightarrow> bool) \<Rightarrow> cp_sb \<Rightarrow> orphan_state \<Rightarrow> errno option \<times> orphan_state \<times> bool" where
  "mount_orphans disk max_orphans iget_err still_there st os =
     recover_orphan_inodes (is_set_ckpt_flags (cs_ckpt st) CP_ORPHAN_PRESENT_FLAG) max_orphans iget_err still_there (read_orphan_blocks disk st) os"

text \<open>What is on the medium when only the writes to the addresses in \<open>keep\<close> arrived.\<close>

definition crash_disk :: "(nat \<Rightarrow> bool) \<Rightarrow> (nat \<times> 'b) list \<Rightarrow> (nat \<Rightarrow> 'b) \<Rightarrow> nat \<Rightarrow> 'b" where
  "crash_disk keep ws disk = fold (\<lambda>(a, x) d. if keep a then d(a := x) else d) ws disk"


section \<open>Versions\<close>

lemma ver_after_next [simp]: "ver_after (v + 1) v"
  by (simp add: ver_after_def)

lemma ver_after_irrefl [simp]: "\<not> ver_after v v"
  by (simp add: ver_after_def)

lemma sint_uminus_pos: "0 < sint (w :: u64) \<Longrightarrow> sint (- w) = - sint w"
proof -
  assume "0 < sint w"
  then have "signed_take_bit 63 (- sint w) = - sint w"
    using sint_less [of w] by (intro signed_take_bit_int_eq_self) simp_all
  then show ?thesis using sint_word_ariths(4) [of w] by simp
qed

lemma ver_after_asym: "ver_after a b \<Longrightarrow> \<not> ver_after b a"
  using sint_uminus_pos [of "a - b"] by (simp add: ver_after_def)


section \<open>Lists of blocks on a medium\<close>

lemma crash_disk_at:
  "crash_disk keep (blocks_at s bs) disk a = (if keep a \<and> s \<le> a \<and> a < s + length bs then bs ! (a - s) else disk a)"
proof (induction bs arbitrary: s disk)
  case Nil
  then show ?case by (auto simp: crash_disk_def blocks_at_def)
next
  case (Cons b bs)
  have e: "blocks_at s (b # bs) = (s, b) # blocks_at (s + 1) bs"
  proof -
    have "[s..<s + length (b # bs)] = s # [s + 1..<s + 1 + length bs]" by (subst upt_conv_Cons) simp_all
    then show ?thesis by (simp add: blocks_at_def)
  qed
  have "crash_disk keep (blocks_at s (b # bs)) disk a = crash_disk keep (blocks_at (s + 1) bs) (if keep s then disk(s := b) else disk) a"
    unfolding e crash_disk_def by simp
  then show ?case unfolding Cons.IH by (auto simp: nth_Cons' Suc_diff_le)
qed

lemma blocks_at_append: "blocks_at s xs @ blocks_at (s + length xs) ys = blocks_at s (xs @ ys)"
proof -
  have "[s..<s + (length xs + length ys)] = [s..<s + length xs] @ [s + length xs..<s + (length xs + length ys)]"
    using upt_add_eq_append [of s "s + length xs" "length ys"] by (simp add: add.assoc)
  then show ?thesis by (simp add: blocks_at_def add.assoc)
qed

lemma blocks_at_one: "blocks_at s [x] = [(s, x)]"
  by (simp add: blocks_at_def)

section \<open>Fields of the checkpoint block\<close>

lemmas cp_fields = cur_cp_version_def rsvd_segment_count_def overprov_segment_count_def cur_node_segno_def cur_node_blkoff_def cur_data_segno_def cur_data_blkoff_def
  ckpt_flags_def cp_pack_total_block_count_def cp_pack_start_sum_def sit_ver_bitmap_bytesize_def checksum_offset_def

lemma put_put: "length xs = length ys \<Longrightarrow> put_bytes off xs (put_bytes off ys b) = put_bytes off xs b"
  by (simp add: put_bytes_def)

text \<open>The flag word after \<open>update_ckpt_flags\<close>.\<close>

definition new_flags :: "cp_reason \<Rightarrow> bool \<Rightarrow> bool \<Rightarrow> u32 \<Rightarrow> u32" where
  "new_flags r orphans fsck f =
     (let f = (if CP_TRIMMED r then f OR CP_TRIMMED_FLAG else f);
          f = (if CP_UMOUNT r then f OR CP_UMOUNT_FLAG else f AND NOT CP_UMOUNT_FLAG);
          f = (if CP_FASTBOOT r then f OR CP_FASTBOOT_FLAG else f AND NOT CP_FASTBOOT_FLAG);
          f = (if orphans then f OR CP_ORPHAN_PRESENT_FLAG else f AND NOT CP_ORPHAN_PRESENT_FLAG);
          f = (if fsck then f OR CP_FSCK_FLAG else f)
      in (f OR CP_CRC_RECOVERY_FLAG) AND NOT CP_NOCRC_RECOVERY_FLAG)"

definition flags_fit :: "cp_reason \<Rightarrow> cp_sb \<Rightarrow> bool" where
  "flags_fit r st \<longleftrightarrow> \<not> (CP_UMOUNT r \<and> unat (cp_pack_total_block_count (cs_ckpt st)) > cs_blocks_per_seg st - cs_nat_bits_blocks st)"

lemma flag_ops:
  assumes "136 \<le> length cp"
  shows "ckpt_flags (set_ckpt_flags f cp) = ckpt_flags cp OR f" "ckpt_flags (clear_ckpt_flags f cp) = ckpt_flags cp AND NOT f"
    "set_ckpt_flags f (put_bytes 132 (le32_bytes w) cp) = put_bytes 132 (le32_bytes (w OR f)) cp"
    "clear_ckpt_flags f (put_bytes 132 (le32_bytes w) cp) = put_bytes 132 (le32_bytes (w AND NOT f)) cp"
  using assms by (simp_all add: ckpt_flags_def set_ckpt_flags_def clear_ckpt_flags_def put_put)


lemma length_flag [simp]: "length (set_ckpt_flags f cp) = length cp" "length (clear_ckpt_flags f cp) = length cp"
  by (simp_all add: set_ckpt_flags_def clear_ckpt_flags_def)

text \<open>Only the flag word changes.\<close>

lemma upd_flags_other:
  assumes "a + n \<le> 132 \<or> 136 \<le> a"
  shows "get_bytes a n (cs_ckpt (update_ckpt_flags r st)) = get_bytes a n (cs_ckpt st)"
proof -
  have o: "get_bytes a n (put_bytes 132 (le32_bytes w) b) = get_bytes a n b" for w b
    using assms by (intro get_put_other) simp
  show ?thesis
    by (simp add: update_ckpt_flags_def Let_def put_flag_def set_ckpt_flags_def clear_ckpt_flags_def disable_nat_bits_def o)
qed

lemma upd_flags_frame [simp]:
  "cs_raw (update_ckpt_flags r st) = cs_raw st" "cs_blocks_per_seg (update_ckpt_flags r st) = cs_blocks_per_seg st"
  "cs_cur_cp_pack (update_ckpt_flags r st) = cs_cur_cp_pack st" "cs_im (update_ckpt_flags r st) = cs_im st"
  "cs_nat_bits_blocks (update_ckpt_flags r st) = cs_nat_bits_blocks st" "length (cs_ckpt (update_ckpt_flags r st)) = length (cs_ckpt st)"
  by (simp_all add: update_ckpt_flags_def Let_def put_flag_def set_ckpt_flags_def clear_ckpt_flags_def disable_nat_bits_def)

lemma upd_flags_bits:
  assumes "136 \<le> length (cs_ckpt st)"
  shows "ckpt_flags (cs_ckpt (update_ckpt_flags r st)) = new_flags r (ino_num (cs_im st ORPHAN_INO) \<noteq> 0) (cs_need_fsck st \<or> \<not> flags_fit r st)
      (if flags_fit r st then ckpt_flags (cs_ckpt st) else ckpt_flags (cs_ckpt st) AND NOT CP_NAT_BITS_FLAG)"
  using assms
  by (simp add: update_ckpt_flags_def Let_def put_flag_def disable_nat_bits_def new_flags_def flags_fit_def flag_ops length_flag)

lemma length_concat_fixed: "\<forall>x \<in> set xs. length (f x) = k \<Longrightarrow> length (concat (map f xs)) = k * length xs"
  by (induction xs) auto

lemma get_concat:
  assumes "\<forall>x \<in> set xs. length (f x) = k" "i < length xs"
  shows "get_bytes (k * i) k (concat (map f xs) @ rest) = f (xs ! i)"
  using assms
proof (induction xs arbitrary: i)
  case (Cons x xs)
  then show ?case
  proof (cases i)
    case (Suc j)
    have l: "length (f x) = k" using Cons.prems(1) by simp
    have "get_bytes (k * i) k (concat (map f (x # xs)) @ rest) = get_bytes (k * j) k (concat (map f xs) @ rest)"
      using l Suc by (simp add: get_bytes_def)
    then show ?thesis using Cons.IH [of j] Cons.prems Suc by simp
  qed (simp add: get_bytes_def)
qed simp

lemma get_put_concat:
  assumes "\<forall>x \<in> set xs. length (f x) = k" "i < length xs" "off + k * length xs \<le> length b"
  shows "get_bytes (off + k * i) k (put_bytes off (concat (map f xs)) b) = f (xs ! i)"
proof -
  have "k * i + k \<le> k * length xs" using assms(2) by (metis Suc_leI mult_Suc_right add.commute mult_le_mono2)
  then have "get_bytes (off + k * i) k (put_bytes off (concat (map f xs)) b) = get_bytes (k * i) k (concat (map f xs))"
    using get_put_sub [of off "concat (map f xs)" b "off + k * i" k] assms length_concat_fixed [OF assms(1)] by simp
  then show ?thesis using get_concat [OF assms(1,2), of "[]"] by simp
qed

definition env_ok :: "cp_env \<Rightarrow> bool" where
  "env_ok env \<longleftrightarrow> length (ce_node_segs env) = 3 \<and> length (ce_data_segs env) = 3 \<and> length (ce_node_sums env) = 3 \<and> length (ce_data_sums env) \<le> 3"

lemma curseg_lengths [simp]:
  "length (concat (map (\<lambda>(s, b, a). le32_bytes s) xs)) = 4 * length xs" "length (concat (map (\<lambda>(s, b, a). le16_bytes b) xs)) = 2 * length xs"
  by (simp_all add: length_concat_fixed split_def)

lemma put_cursegs_other:
  assumes "env_ok env" "a + n \<le> 36 \<or> 132 \<le> a \<and> a + n \<le> 176 \<or> 182 \<le> a"
  shows "get_bytes a n (put_cursegs env cp) = get_bytes a n cp"
proof -
  have L: "length (ce_node_segs env) = 3" "length (ce_data_segs env) = 3" using assms(1) by (simp_all add: env_ok_def)
  show ?thesis unfolding put_cursegs_def Let_def
    by (subst get_put_other, use assms(2) L in force)+ rule
qed

lemma put_cursegs_len [simp]: "length (put_cursegs env cp) = length cp"
  by (simp add: put_cursegs_def Let_def)

lemma put_cursegs_fields:
  assumes ok: "env_ok env" and i: "i < 3" and l: "192 \<le> length cp"
  shows "cur_node_segno (put_cursegs env cp) i = fst (ce_node_segs env ! i)" "cur_node_blkoff (put_cursegs env cp) i = fst (snd (ce_node_segs env ! i))"
    "cur_data_segno (put_cursegs env cp) i = fst (ce_data_segs env ! i)" "cur_data_blkoff (put_cursegs env cp) i = fst (snd (ce_data_segs env ! i))"
proof -
  have L: "length (ce_node_segs env) = 3" "length (ce_data_segs env) = 3" using ok by (simp_all add: env_ok_def)
  have c32: "get_bytes (off + 4 * i) 4 (put_bytes off (concat (map (\<lambda>(s, b, a). le32_bytes s) xs)) b) = le32_bytes (fst (xs ! i))"
    if "length xs = 3" "off + 12 \<le> length b" for off xs and b :: "u8 list"
    using get_put_concat [of xs "\<lambda>(s, b, a). le32_bytes s" 4 i off b] that i by (auto simp: split_def)
  have c16: "get_bytes (off + 2 * i) 2 (put_bytes off (concat (map (\<lambda>(s, b, a). le16_bytes b) xs)) b) = le16_bytes (fst (snd (xs ! i)))"
    if "length xs = 3" "off + 6 \<le> length b" for off xs and b :: "u8 list"
    using get_put_concat [of xs "\<lambda>(s, b, a). le16_bytes b" 2 i off b] that i by (auto simp: split_def)
  show "cur_node_segno (put_cursegs env cp) i = fst (ce_node_segs env ! i)"
    unfolding cp_fields get32_def put_cursegs_def Let_def
    by (subst get_put_before, use i in simp, subst get_put_before, use i in simp, subst get_put_before, use i in simp, subst get_put_before, use i in simp,
      subst get_put_before, use i in simp, subst c32) (use L l in simp_all)
  show "cur_node_blkoff (put_cursegs env cp) i = fst (snd (ce_node_segs env ! i))"
    unfolding cp_fields get16_def put_cursegs_def Let_def
    by (subst get_put_before, use i in simp, subst get_put_before, use i in simp, subst get_put_before, use i in simp, subst get_put_before, use i in simp,
      subst c16) (use L l in simp_all)
  show "cur_data_segno (put_cursegs env cp) i = fst (ce_data_segs env ! i)"
    unfolding cp_fields get32_def put_cursegs_def Let_def
    by (subst get_put_before, use i in simp, subst get_put_before, use i in simp, subst c32) (use L l in simp_all)
  show "cur_data_blkoff (put_cursegs env cp) i = fst (snd (ce_data_segs env ! i))"
    unfolding cp_fields get16_def put_cursegs_def Let_def
    by (subst get_put_before, use i in simp, subst c16) (use L l in simp_all)
qed

text \<open>The size of a pack in blocks.\<close>

definition pack_size :: "cp_reason \<Rightarrow> cp_env \<Rightarrow> cp_sb \<Rightarrow> nat" where
  "pack_size r env st = F2FS_CP_PACKS + unat (cp_payload (cs_raw st)) + length (ce_data_sums env) + GET_ORPHAN_BLOCKS (unat (ino_num (cs_im st ORPHAN_INO))) +
     (if remain_node_summaries r then NR_CURSEG_NODE_TYPE else 0)"

lemma put_flag_other: "a + n \<le> 132 \<or> 136 \<le> a \<Longrightarrow> get_bytes a n (put_flag on f cp) = get_bytes a n cp"
  by (auto simp: put_flag_def set_ckpt_flags_def clear_ckpt_flags_def get_put_other)

lemma put_flag_len [simp]: "length (put_flag on f cp) = length cp"
  by (simp add: put_flag_def)

lemma fill_len [simp]: "length (fill_ckpt r env st) = length (cs_ckpt st)"
  by (simp add: fill_ckpt_def Let_def)

lemma fill_other:
  assumes "env_ok env" "a + n \<le> 32 \<or> 144 \<le> a \<and> a + n \<le> 168 \<or> 182 \<le> a"
  shows "get_bytes a n (fill_ckpt r env st) = get_bytes a n (cs_ckpt st)"
  unfolding fill_ckpt_def Let_def
  by (subst get_put_other, use assms(2) in force, subst get_put_other, use assms(2) in force, subst put_flag_other, use assms(2) in force,
    subst put_cursegs_other [OF assms(1)], use assms(2) in force, subst get_put_other, use assms(2) in force, subst get_put_other, use assms(2) in force) rule

lemma fill_counts:
  assumes "192 \<le> length (cs_ckpt st)"
  shows "cp_pack_total_block_count (fill_ckpt r env st) = of_nat (pack_size r env st)"
    "cp_pack_start_sum (fill_ckpt r env st) = of_nat (1 + unat (cp_payload (cs_raw st)) + GET_ORPHAN_BLOCKS (unat (ino_num (cs_im st ORPHAN_INO))))"
proof -
  show "cp_pack_total_block_count (fill_ckpt r env st) = of_nat (pack_size r env st)"
    unfolding cp_fields fill_ckpt_def Let_def pack_size_def using assms by (subst get32_put) simp_all
  show "cp_pack_start_sum (fill_ckpt r env st) = of_nat (1 + unat (cp_payload (cs_raw st)) + GET_ORPHAN_BLOCKS (unat (ino_num (cs_im st ORPHAN_INO))))"
    unfolding cp_fields fill_ckpt_def Let_def using assms by (subst get32_put_other, simp, subst get32_put) simp_all
qed

lemma fill_cursegs:
  assumes ok: "env_ok env" and i: "i < 3" and l: "192 \<le> length (cs_ckpt st)"
  shows "cur_node_segno (fill_ckpt r env st) i = fst (ce_node_segs env ! i)" "cur_node_blkoff (fill_ckpt r env st) i = fst (snd (ce_node_segs env ! i))"
    "cur_data_segno (fill_ckpt r env st) i = fst (ce_data_segs env ! i)" "cur_data_blkoff (fill_ckpt r env st) i = fst (snd (ce_data_segs env ! i))"
proof -
  define cp where "cp = put_bytes 32 (le32_bytes (ce_free_segments env)) (put_bytes 168 (le64_bytes (ce_mtime env)) (cs_ckpt st))"
  have e: "get_bytes a n (fill_ckpt r env st) = get_bytes a n (put_cursegs env cp)" if "a + n \<le> 132" for a n
    unfolding fill_ckpt_def Let_def cp_def [symmetric]
    by (subst get_put_other, use that in simp, subst get_put_other, use that in simp, subst put_flag_other, use that in simp) rule
  note F = put_cursegs_fields [OF ok i, where cp = cp]
  show "cur_node_segno (fill_ckpt r env st) i = fst (ce_node_segs env ! i)" "cur_node_blkoff (fill_ckpt r env st) i = fst (snd (ce_node_segs env ! i))"
    "cur_data_segno (fill_ckpt r env st) i = fst (ce_data_segs env ! i)" "cur_data_blkoff (fill_ckpt r env st) i = fst (snd (ce_data_segs env ! i))"
    using F l i by (simp_all add: cp_fields get32_def get16_def e cp_def)
qed

section \<open>The sealed checkpoint block\<close>

definition cp_state_ok :: "cp_sb \<Rightarrow> bool" where
  "cp_state_ok st \<longleftrightarrow> length (cs_ckpt st) = 4096 * (1 + unat (cp_payload (cs_raw st))) \<and> 192 \<le> unat (checksum_offset (cs_ckpt st)) \<and>
     unat (checksum_offset (cs_ckpt st)) \<le> 4092"

lemma prep_frame [simp]:
  "cs_raw (prepare_ckpt r env st) = cs_raw st" "cs_blocks_per_seg (prepare_ckpt r env st) = cs_blocks_per_seg st"
  "cs_cur_cp_pack (prepare_ckpt r env st) = cs_cur_cp_pack st" "cs_im (prepare_ckpt r env st) = cs_im st"
  "length (cs_ckpt (prepare_ckpt r env st)) = length (cs_ckpt st)"
  by (simp_all add: prepare_ckpt_def Let_def)

lemma prep_low:
  assumes "a + n \<le> 192"
  shows "get_bytes a n (cs_ckpt (prepare_ckpt r env st)) = get_bytes a n (cs_ckpt (update_ckpt_flags r (st\<lparr>cs_ckpt := fill_ckpt r env st\<rparr>)))"
proof -
  have "192 \<le> sit_bitmap_off s" "192 \<le> nat_bitmap_off s" for s by (simp_all add: sit_bitmap_off_def nat_bitmap_off_def)
  then have "a + n \<le> sit_bitmap_off s" "a + n \<le> nat_bitmap_off s" for s using assms order_trans by blast+
  then show ?thesis by (simp add: prepare_ckpt_def Let_def get_put_before)
qed

lemma prep_fill: "a + n \<le> 132 \<or> 136 \<le> a \<and> a + n \<le> 192 \<Longrightarrow> get_bytes a n (cs_ckpt (prepare_ckpt r env st)) = get_bytes a n (fill_ckpt r env st)"
  by (subst prep_low) (auto simp: upd_flags_other)

lemma prep_other:
  assumes "env_ok env" "a + n \<le> 32 \<or> 144 \<le> a \<and> a + n \<le> 168"
  shows "get_bytes a n (cs_ckpt (prepare_ckpt r env st)) = get_bytes a n (cs_ckpt st)"
  using assms by (subst prep_fill) (auto simp: fill_other)

definition seal :: "(u8 list \<Rightarrow> u32) \<Rightarrow> u8 list \<Rightarrow> u8 list" where
  "seal crc32 cp = (let off = unat (checksum_offset cp) in put_bytes off (le32_bytes (crc32 (take off cp))) cp)"

lemma seal_len [simp]: "length (seal crc32 cp) = length cp"
  by (simp add: seal_def Let_def)

lemma seal_low: "a + n \<le> 192 \<Longrightarrow> 192 \<le> unat (checksum_offset cp) \<Longrightarrow> get_bytes a n (seal crc32 cp) = get_bytes a n cp"
  by (simp add: seal_def Let_def get_put_before)

lemma sealed_valid:
  assumes "192 \<le> unat (checksum_offset cp)" "unat (checksum_offset cp) \<le> 4092" "4096 \<le> length cp"
  shows "get_checkpoint_version crc32 (get_bytes 0 4096 (seal crc32 cp)) = Inr (cur_cp_version cp)"
proof -
  let ?h = "get_bytes 0 4096 (seal crc32 cp)" and ?off = "unat (checksum_offset cp)"
  have h: "get_bytes a n ?h = get_bytes a n (seal crc32 cp)" if "a + n \<le> 4096" for a n
    using get_take [OF that] by (simp add: get_bytes_def)
  have lo: "checksum_offset ?h = checksum_offset cp" "cur_cp_version ?h = cur_cp_version cp"
    using assms(1) by (simp_all add: cp_fields get32_def get64_def h seal_low)
  have "get32 ?off ?h = crc32 (take ?off cp)"
    using assms by (simp add: get32_def h) (simp add: get32_def [symmetric] seal_def Let_def)
  moreover have "take ?off ?h = take ?off cp" using assms(2) by (simp add: get_bytes_def seal_def Let_def take_put min_def)
  ultimately show ?thesis using lo assms(2) by (simp add: get_checkpoint_version_def Let_def f2fs_crc_valid_def cur_cp_crc_def)
qed

text \<open>The checkpoint that \<^verbatim>\<open>do_checkpoint\<close> writes.\<close>

definition sealed :: "(u8 list \<Rightarrow> u32) \<Rightarrow> cp_reason \<Rightarrow> cp_env \<Rightarrow> cp_sb \<Rightarrow> u8 list" where
  "sealed crc32 r env st = seal crc32 (cs_ckpt (prepare_ckpt r env st))"

lemma sealed_facts:
  assumes e: "env_ok env" and s: "cp_state_ok st"
  shows "length (sealed crc32 r env st) = 4096 * (1 + unat (cp_payload (cs_raw st)))"
    "get_checkpoint_version crc32 (get_bytes 0 4096 (sealed crc32 r env st)) = Inr (cur_cp_version (cs_ckpt st))"
    "a + n \<le> 192 \<Longrightarrow> get_bytes a n (sealed crc32 r env st) = get_bytes a n (cs_ckpt (prepare_ckpt r env st))"
proof -
  have c: "checksum_offset (cs_ckpt (prepare_ckpt r env st)) = checksum_offset (cs_ckpt st)"
    "cur_cp_version (cs_ckpt (prepare_ckpt r env st)) = cur_cp_version (cs_ckpt st)"
    using e by (simp_all add: cp_fields get32_def get64_def prep_other)
  show "length (sealed crc32 r env st) = 4096 * (1 + unat (cp_payload (cs_raw st)))" using s by (simp add: sealed_def cp_state_ok_def)
  show "get_checkpoint_version crc32 (get_bytes 0 4096 (sealed crc32 r env st)) = Inr (cur_cp_version (cs_ckpt st))"
    unfolding sealed_def using s sealed_valid [of "cs_ckpt (prepare_ckpt r env st)" crc32] c by (simp add: cp_state_ok_def)
  show "a + n \<le> 192 \<Longrightarrow> get_bytes a n (sealed crc32 r env st) = get_bytes a n (cs_ckpt (prepare_ckpt r env st))"
    using s c by (simp add: sealed_def seal_low cp_state_ok_def)
qed

end
