(* ===== verification/Cp_Crash.thy ===== *)
theory Cp_Crash
  imports Cp_Pack
begin

text \<open>
  What a mount finds after a checkpoint, complete or cut short by a crash. The old pack is found again unless both the first and the last block of the new one
  arrived. The pack is submitted as one request, so nothing orders those two behind the blocks between them.
\<close>

section \<open>The blocks of a pack\<close>

definition pack_blocks :: "cp_reason \<Rightarrow> cp_env \<Rightarrow> ims \<Rightarrow> nat \<Rightarrow> u8 list \<Rightarrow> u8 list list" where
  "pack_blocks r env im payload ckpt =
     map (\<lambda>i. get_bytes (i * 4096) 4096 ckpt) [0..<1 + payload] @ map encode_orphan_block (write_orphan_inodes im) @ ce_data_sums env @
     (if remain_node_summaries r then ce_node_sums env else []) @ [get_bytes 0 4096 ckpt]"

lemma orphans_written:
  assumes "im_ok 0 im"
  shows "length (write_orphan_inodes im) = GET_ORPHAN_BLOCKS (unat (ino_num (im ORPHAN_INO)))"
    "concat (map orphan_entries (write_orphan_inodes im)) = ino_list (im ORPHAN_INO)"
    "ino_num (im ORPHAN_INO) = 0 \<Longrightarrow> write_orphan_inodes im = []"
proof -
  let ?xs = "ino_list (im ORPHAN_INO)"
  have "\<forall>x \<in> set ?xs. x < 2 ^ 32" using im_okD(3) [OF assms] by blast
  then have W: "concat (map orphan_entries (write_orphan_inodes im)) = ?xs" "length (write_orphan_inodes im) = GET_ORPHAN_BLOCKS (length ?xs)"
    using write_loop_ok [of 0 None ?xs] unfolding write_orphan_inodes_def Let_def by (simp_all add: page_entries_def F2FS_ORPHANS_PER_BLOCK_def)
  have n: "unat (ino_num (im ORPHAN_INO)) = length ?xs" using im_okD(4) [OF assms, of ORPHAN_INO] by simp
  show "length (write_orphan_inodes im) = GET_ORPHAN_BLOCKS (unat (ino_num (im ORPHAN_INO)))" "concat (map orphan_entries (write_orphan_inodes im)) = ?xs"
    using W n by simp_all
  show "ino_num (im ORPHAN_INO) = 0 \<Longrightarrow> write_orphan_inodes im = []"
    using n by (simp add: write_orphan_inodes_def Let_def)
qed

lemma pack_writes_blocks:
  assumes im: "im_ok 0 (cs_im st)" and e: "env_ok env"
  shows "pack_writes r env s st = blocks_at s (pack_blocks r env (cs_im st) (unat (cp_payload (cs_raw st))) (cs_ckpt st))"
proof -
  let ?n = "ino_num (cs_im st ORPHAN_INO)" and ?p = "unat (cp_payload (cs_raw st))" and ?w = "map encode_orphan_block (write_orphan_inodes (cs_im st))"
  let ?h = "map (\<lambda>i. get_bytes (i * 4096) 4096 (cs_ckpt st)) [0..<1 + ?p]" and ?d = "ce_data_sums env"
  let ?node = "if remain_node_summaries r then ce_node_sums env else []"
  note O = orphans_written [OF im]
  have o1: "(if ?n \<noteq> 0 then blocks_at (s + 1 + ?p) ?w else []) = blocks_at (s + length ?h) ?w" using O(3) by (simp add: blocks_at_def)
  have z: "?w = []" if "?n = 0" using O(3) that by simp
  have o2: "(if ?n \<noteq> 0 then s + 1 + ?p + GET_ORPHAN_BLOCKS (unat ?n) else s + 1 + ?p) = s + length (?h @ ?w)" using O(1,3) by auto
  have nl: "(if remain_node_summaries r then a + NR_CURSEG_NODE_TYPE else a) = a + length ?node" for a
    using e by (simp add: env_ok_def NR_CURSEG_NODE_TYPE_def)
  have nb: "(if remain_node_summaries r then blocks_at a (ce_node_sums env) else []) = blocks_at a ?node" for a by (simp add: blocks_at_def)
  have B: "blocks_at s ?h @ blocks_at (s + length ?h) ?w @ blocks_at (s + length (?h @ ?w)) ?d @ blocks_at (s + length (?h @ ?w) + length ?d) ?node @
      blocks_at (s + length (?h @ ?w) + length ?d + length ?node) [get_bytes 0 4096 (cs_ckpt st)] =
    blocks_at s (?h @ ?w @ ?d @ ?node @ [get_bytes 0 4096 (cs_ckpt st)])"
    unfolding blocks_at_append [symmetric] append_assoc length_append add.assoc ..
  show ?thesis unfolding pack_writes_def Let_def o1 o2 nl nb pack_blocks_def blocks_at_one [symmetric] B [symmetric] by simp
qed

lemma pack_blocks_facts:
  fixes r :: cp_reason and ckpt :: "u8 list"
  assumes im: "im_ok 0 (cs_im st)" and e: "env_ok env"
  defines "B \<equiv> pack_blocks r env (cs_im st) (unat (cp_payload (cs_raw st))) ckpt"
  shows "length B = pack_size r env st" "B ! 0 = get_bytes 0 4096 ckpt" "B ! (pack_size r env st - 1) = get_bytes 0 4096 ckpt"
proof -
  show l: "length B = pack_size r env st"
    using orphans_written(1) [OF im] e by (simp add: B_def pack_blocks_def pack_size_def env_ok_def NR_CURSEG_NODE_TYPE_def F2FS_CP_PACKS_def)
  have "B ! (length B - 1) = last B" by (rule last_conv_nth [symmetric]) (simp add: B_def pack_blocks_def)
  then show "B ! (pack_size r env st - 1) = get_bytes 0 4096 ckpt" unfolding l by (simp add: B_def pack_blocks_def)
  show "B ! 0 = get_bytes 0 4096 ckpt" by (simp add: B_def pack_blocks_def nth_append upt_conv_Cons del: upt_Suc)
qed

lemma do_checkpoint_pack:
  assumes im: "im_ok 0 (cs_im st)" and e: "env_ok env" and d: "do_checkpoint crc32 r env st = (err, st', bits, pack)" and p: "pack \<noteq> []"
  shows "pack = blocks_at (start_cp_next_addr st) (pack_blocks r env (cs_im st) (unat (cp_payload (cs_raw st))) (sealed crc32 r env st))"
    "cs_ckpt st' = sealed crc32 r env st" "cs_raw st' = cs_raw st" "cs_blocks_per_seg st' = cs_blocks_per_seg st" "cs_im st' = release_ino_entry False (cs_im st)"
    "cs_cur_cp_pack st' = (if err = None then if cs_cur_cp_pack st = 1 then 2 else 1 else cs_cur_cp_pack st)"
proof -
  have i: "im_ok 0 (cs_im (prepare_ckpt r env st))" using im by simp
  have W: "pack_writes r env s st0 = blocks_at s (pack_blocks r env (cs_im st) (unat (cp_payload (cs_raw st))) (cs_ckpt st0))"
    if "cs_im st0 = cs_im st" "cs_raw st0 = cs_raw st" for s and st0 :: cp_sb
    using pack_writes_blocks [of st0, OF _ e] im that by simp
  show "pack = blocks_at (start_cp_next_addr st) (pack_blocks r env (cs_im st) (unat (cp_payload (cs_raw st))) (sealed crc32 r env st))"
    "cs_ckpt st' = sealed crc32 r env st" "cs_raw st' = cs_raw st" "cs_blocks_per_seg st' = cs_blocks_per_seg st" "cs_im st' = release_ino_entry False (cs_im st)"
    "cs_cur_cp_pack st' = (if err = None then if cs_cur_cp_pack st = 1 then 2 else 1 else cs_cur_cp_pack st)"
    using p d [symmetric] unfolding do_checkpoint_def Let_def seal_def [unfolded Let_def, symmetric] sealed_def [symmetric]
    by (simp_all add: W start_cp_next_addr_def set_cp_next_pack_def split: if_splits option.splits cp_fail.splits)
qed

section \<open>The choice between the packs\<close>

definition pack_start :: "f2fs_super_block \<Rightarrow> nat \<Rightarrow> nat" where
  "pack_start fsb pack = unat (cp_blkaddr fsb) + (if pack = 2 then 2 ^ unat (log_blocks_per_seg fsb) else 0)"

abbreviation other_pack :: "nat \<Rightarrow> nat" where
  "other_pack pack \<equiv> (if pack = 1 then 2 else 1)"

definition payload_blocks :: "f2fs_super_block \<Rightarrow> (nat \<Rightarrow> u8 list) \<Rightarrow> nat \<Rightarrow> u8 list" where
  "payload_blocks fsb disk pack = concat (map (\<lambda>i. disk ((pack_start fsb pack + i) mod 2 ^ 32)) [1..<1 + unat (cp_payload fsb)])"

definition better_pack :: "(u8 list \<times> u64) option \<Rightarrow> (u8 list \<times> u64) option \<Rightarrow> (u8 list \<times> nat) option" where
  "better_pack cp1 cp2 =
     (case (cp1, cp2) of
        (Some (b1, v1), Some (b2, v2)) \<Rightarrow> if ver_after v2 v1 then Some (b2, 2) else Some (b1, 1)
      | (Some (b1, v1), None) \<Rightarrow> Some (b1, 1)
      | (None, Some (b2, v2)) \<Rightarrow> Some (b2, 2)
      | (None, None) \<Rightarrow> None)"

lemma get_valid_unfold:
  assumes "pack_start fsb 2 < 2 ^ 32"
  shows "get_valid_checkpoint crc32 fsb bps err disk =
    (case better_pack (validate_checkpoint crc32 disk (pack_start fsb 1)) (validate_checkpoint crc32 disk (pack_start fsb 2)) of None \<Rightarrow> Inl EINVAL
     | Some (b, pack) \<Rightarrow> if sanity_check_ckpt fsb bps err b then Inl EINVAL else Inr (b @ payload_blocks fsb disk pack, pack))"
proof -
  have s: "pack_start fsb 1 = unat (cp_blkaddr fsb)" "pack_start fsb 2 = unat (cp_blkaddr fsb) + push_bit (unat (log_blocks_per_seg fsb)) 1"
    by (simp_all add: pack_start_def push_bit_eq_mult)
  have m: "(unat (cp_blkaddr fsb) + push_bit (unat (log_blocks_per_seg fsb)) 1) mod 2 ^ 32 = unat (cp_blkaddr fsb) + push_bit (unat (log_blocks_per_seg fsb)) 1"
    using assms unfolding s by (rule mod_less)
  have pb: "concat (map (\<lambda>i. disk (((if pack = 2 then unat (cp_blkaddr fsb) + push_bit (unat (log_blocks_per_seg fsb)) 1 else unat (cp_blkaddr fsb)) + i) mod 2 ^ 32))
       [1..<1 + unat (cp_payload fsb)]) = payload_blocks fsb disk pack" for pack
    by (simp add: payload_blocks_def pack_start_def push_bit_eq_mult)
  show ?thesis unfolding get_valid_checkpoint_def Let_def m pb s better_pack_def ..
qed

lemma choose_pack:
  assumes p: "pack \<in> {1, 2}" and lt: "pack_start fsb 2 < 2 ^ 32" and v: "validate_checkpoint crc32 disk (pack_start fsb pack) = Some (b, v)"
    and o: "\<forall>b' w. validate_checkpoint crc32 disk (pack_start fsb (other_pack pack)) = Some (b', w) \<longrightarrow> ver_after v w"
  shows "get_valid_checkpoint crc32 fsb bps err disk = (if sanity_check_ckpt fsb bps err b then Inl EINVAL else Inr (b @ payload_blocks fsb disk pack, pack))"
proof -
  have "better_pack (validate_checkpoint crc32 disk (pack_start fsb 1)) (validate_checkpoint crc32 disk (pack_start fsb 2)) = Some (b, pack)"
  proof (cases "pack = 1")
    case True
    then show ?thesis using v o ver_after_asym [of v] by (cases "validate_checkpoint crc32 disk (pack_start fsb 2)") (auto simp: better_pack_def)
  next
    case False
    then have "pack = 2" using p by simp
    then show ?thesis using v o by (cases "validate_checkpoint crc32 disk (pack_start fsb 1)") (auto simp: better_pack_def)
  qed
  then show ?thesis by (simp add: get_valid_unfold [OF lt])
qed

lemma chosen_pack:
  assumes g: "get_valid_checkpoint crc32 fsb bps err disk = Inr (buf, pack)" and lt: "pack_start fsb 2 < 2 ^ 32"
  shows "pack \<in> {1, 2}" "\<exists>v. validate_checkpoint crc32 disk (pack_start fsb pack) = Some (disk (pack_start fsb pack), v)"
    "buf = disk (pack_start fsb pack) @ payload_blocks fsb disk pack" "\<not> sanity_check_ckpt fsb bps err (disk (pack_start fsb pack))"
proof -
  have hd: "validate_checkpoint crc32 disk a = Some (b, v) \<Longrightarrow> b = disk a" for a b v
    by (auto simp: validate_checkpoint_def Let_def split: sum.splits if_splits)
  obtain b where b: "better_pack (validate_checkpoint crc32 disk (pack_start fsb 1)) (validate_checkpoint crc32 disk (pack_start fsb 2)) = Some (b, pack)"
    and r: "\<not> sanity_check_ckpt fsb bps err b" "buf = b @ payload_blocks fsb disk pack"
    using g unfolding get_valid_unfold [OF lt] by (auto split: option.splits if_splits)
  obtain v where v: "pack \<in> {1, 2}" "validate_checkpoint crc32 disk (pack_start fsb pack) = Some (b, v)"
    using b by (auto simp: better_pack_def split: option.splits if_splits)
  have "b = disk (pack_start fsb pack)" by (rule hd [OF v(2)])
  then show "pack \<in> {1, 2}" "\<exists>v. validate_checkpoint crc32 disk (pack_start fsb pack) = Some (disk (pack_start fsb pack), v)"
    "buf = disk (pack_start fsb pack) @ payload_blocks fsb disk pack" "\<not> sanity_check_ckpt fsb bps err (disk (pack_start fsb pack))" using v r by blast+
qed

lemma validate_eq:
  assumes "get_checkpoint_version crc32 (disk a) = Inr w"
  shows "validate_checkpoint crc32 disk a =
    (case get_checkpoint_version crc32 (disk ((a + unat (cp_pack_total_block_count (disk a) - 1)) mod 2 ^ 32)) of Inl e \<Rightarrow> None
     | Inr w' \<Rightarrow> if w' = w then Some (disk a, w') else None)"
  using assms by (simp add: validate_checkpoint_def Let_def)

lemma validate_someD:
  assumes "validate_checkpoint crc32 disk a = Some (b, w)"
  shows "b = disk a" "get_checkpoint_version crc32 (disk a) = Inr w" "w = cur_cp_version (disk a)"
    "get_checkpoint_version crc32 (disk ((a + unat (cp_pack_total_block_count (disk a) - 1)) mod 2 ^ 32)) = Inr w"
  using assms by (auto simp: validate_checkpoint_def get_checkpoint_version_def Let_def split: sum.splits if_splits)

lemma mount_after_crash:
  fixes keep :: "nat \<Rightarrow> bool"
  assumes g: "get_valid_checkpoint crc32 fsb bps err disk = Inr (buf, cur)" and lay: "pack_start fsb 2 + 2 ^ unat (log_blocks_per_seg fsb) \<le> 2 ^ 32"
    and B: "unat (cp_payload fsb) + 1 < length B" "length B \<le> 2 ^ unat (log_blocks_per_seg fsb)" "B ! 0 = hdr" "B ! (length B - 1) = hdr"
    and hdr: "get_checkpoint_version crc32 hdr = Inr v'" "unat (cp_pack_total_block_count hdr) = length B" "\<not> sanity_check_ckpt fsb bps err hdr"
    and newer: "ver_after v' (cur_cp_version (disk (pack_start fsb cur)))"
    and older: "\<forall>a w. pack_start fsb (other_pack cur) \<le> a \<and> a < pack_start fsb (other_pack cur) + 2 ^ unat (log_blocks_per_seg fsb) \<and>
      get_checkpoint_version crc32 (disk a) = Inr w \<longrightarrow> ver_after (cur_cp_version (disk (pack_start fsb cur))) w"
  defines "s \<equiv> pack_start fsb (other_pack cur)"
  defines "disk' \<equiv> crash_disk keep (blocks_at s B) disk"
  shows "get_valid_checkpoint crc32 fsb bps err disk' =
    (if keep s \<and> keep (s + length B - 1) then Inr (hdr @ payload_blocks fsb disk' (other_pack cur), other_pack cur) else Inr (buf, cur))"
proof -
  let ?m = "2 ^ unat (log_blocks_per_seg fsb) :: nat" and ?v = "cur_cp_version (disk (pack_start fsb cur))" and ?c = "pack_start fsb cur"
  have m: "0 < ?m" by simp
  then have lt: "pack_start fsb 2 < 2 ^ 32" using lay by linarith
  note O = chosen_pack [OF g lt]
  have c12: "cur = 1 \<or> cur = 2" using O(1) by blast
  have st: "s + ?m \<le> 2 ^ 32" "?c + ?m \<le> 2 ^ 32" "\<And>a. ?c \<le> a \<Longrightarrow> a < ?c + ?m \<Longrightarrow> \<not> (s \<le> a \<and> a < s + ?m)"
    using c12 lay unfolding s_def pack_start_def by (elim disjE; simp)+
  have at: "disk' a = (if keep a \<and> s \<le> a \<and> a < s + length B then B ! (a - s) else disk a)" for a
    unfolding disk'_def by (rule crash_disk_at)
  have out: "disk' a = disk a" if "\<not> (s \<le> a \<and> a < s + ?m)" for a unfolding at using that B(2) by auto
  have old: "ver_after ?v w" if "s \<le> a" "a < s + ?m" "get_checkpoint_version crc32 (disk a) = Inr w" for a w
    using older that unfolding s_def [symmetric] by blast
  obtain v where v: "validate_checkpoint crc32 disk ?c = Some (disk ?c, v)" using O(2) by blast
  note V = validate_someD [OF v]
  have c_out: "\<not> (s \<le> ?c \<and> ?c < s + ?m)" using st(3) [of ?c] m by simp
  let ?f = "(?c + unat (cp_pack_total_block_count (disk ?c) - 1)) mod 2 ^ 32"
  have "\<not> (s \<le> ?f \<and> ?f < s + ?m)" using old [OF _ _ V(4)] V(3) by auto
  then have keepold: "validate_checkpoint crc32 disk' ?c = Some (disk ?c, ?v)"
    using V out [OF c_out] out [of ?f] validate_eq [of crc32 disk' ?c v] by simp
  have hs: "keep s \<Longrightarrow> disk' s = hdr" "\<not> keep s \<Longrightarrow> disk' s = disk s" using B B(1) [THEN gr_implies_not0] by (auto simp: at)
  let ?e = "s + length B - 1"
  have fadr: "(s + unat (cp_pack_total_block_count hdr - 1)) mod 2 ^ 32 = ?e"
  proof -
    have "unat (cp_pack_total_block_count hdr - 1) = length B - 1" using hdr(2) B(1)
      by (subst unat_sub) (simp_all add: word_le_nat_alt)
    moreover have "?e < 2 ^ 32" using st(1) B(1,2) by linarith
    ultimately show ?thesis using B(1) by simp
  qed
  have he: "keep ?e \<Longrightarrow> disk' ?e = hdr" "\<not> keep ?e \<Longrightarrow> disk' ?e = disk ?e" using B by (auto simp: at)
  have ein: "s \<le> ?e" "?e < s + ?m" using B(1,2) by linarith+
  have oo: "other_pack (other_pack cur) = cur" using c12 by auto
  show ?thesis
  proof (cases "keep s \<and> keep ?e")
    case True
    have "validate_checkpoint crc32 disk' s = Some (hdr, v')"
      using True hs(1) he(1) hdr(1) fadr validate_eq [of crc32 disk' s v'] by simp
    moreover have "\<forall>b' w. validate_checkpoint crc32 disk' (pack_start fsb (other_pack (other_pack cur))) = Some (b', w) \<longrightarrow> ver_after v' w"
      unfolding oo using keepold newer by simp
    ultimately show ?thesis using choose_pack [of "other_pack cur" fsb crc32 disk' hdr v' bps err] lt hdr(3) True c12 unfolding s_def by auto
  next
    case False
    have "ver_after ?v w" if "validate_checkpoint crc32 disk' s = Some (b', w)" for b' w
    proof (cases "keep s")
      case True
      then have k: "disk' s = hdr" "disk' ?e = disk ?e" using hs he False by blast+
      note W = validate_someD [OF that]
      have "w = v'" using W(2) hdr(1) k(1) by simp
      moreover have "get_checkpoint_version crc32 (disk ?e) = Inr w" using W(4) unfolding k(1) fadr k(2) .
      ultimately have "ver_after ?v v'" using old [OF ein] by simp
      then show ?thesis using ver_after_asym newer by blast
    next
      case False
      then show ?thesis using validate_someD(2) [OF that] hs(2) old [of s w] m by simp
    qed
    then have "get_valid_checkpoint crc32 fsb bps err disk' = Inr (disk ?c @ payload_blocks fsb disk' cur, cur)"
      using choose_pack [OF O(1) lt keepold] O(4) unfolding s_def by auto
    moreover have "payload_blocks fsb disk' cur = payload_blocks fsb disk cur"
    proof -
      have P: "disk' ((?c + i) mod 2 ^ 32) = disk ((?c + i) mod 2 ^ 32)" if "i < 1 + unat (cp_payload fsb)" for i
      proof -
        have "i < ?m" using that B(1,2) by linarith
        then have "(?c + i) mod 2 ^ 32 = ?c + i" "\<not> (s \<le> ?c + i \<and> ?c + i < s + ?m)" using st(2) st(3) [of "?c + i"] by simp_all
        then show ?thesis using out by simp
      qed
      show ?thesis unfolding payload_blocks_def by (rule arg_cong [where f = concat], rule map_cong [OF refl], rule P) auto
    qed
    ultimately show ?thesis using False O(3) by auto
  qed
qed

section \<open>A checkpoint that is cut short\<close>

definition env_valid :: "f2fs_super_block \<Rightarrow> nat \<Rightarrow> cp_env \<Rightarrow> bool" where
  "env_valid fsb bps env \<longleftrightarrow> env_ok env \<and>
     (\<forall>x \<in> set (ce_node_segs env) \<union> set (ce_data_segs env). fst x < segment_count_main fsb \<and> unat (fst (snd x)) < bps)"

lemma env_valid_nth:
  assumes "env_valid fsb bps env" "i < 3"
  shows "fst (ce_node_segs env ! i) < segment_count_main fsb" "unat (fst (snd (ce_node_segs env ! i))) < bps"
    "fst (ce_data_segs env ! i) < segment_count_main fsb" "unat (fst (snd (ce_data_segs env ! i))) < bps"
proof -
  have "ce_node_segs env ! i \<in> set (ce_node_segs env)" "ce_data_segs env ! i \<in> set (ce_data_segs env)"
    using assms by (simp_all add: env_valid_def env_ok_def)
  moreover have A: "\<forall>x \<in> set (ce_node_segs env) \<union> set (ce_data_segs env). fst x < segment_count_main fsb \<and> unat (fst (snd x)) < bps"
    using assms(1) by (auto simp: env_valid_def)
  ultimately show "fst (ce_node_segs env ! i) < segment_count_main fsb" "unat (fst (snd (ce_node_segs env ! i))) < bps"
    "fst (ce_data_segs env ! i) < segment_count_main fsb" "unat (fst (snd (ce_data_segs env ! i))) < bps"
    using A by blast+
qed

lemma sealed_header:
  fixes crc32 :: "u8 list \<Rightarrow> u32"
  assumes e: "env_valid (cs_raw st) bps env" and s: "cp_state_ok st" and sz: "pack_size r env st < 2 ^ 32"
    and sane: "\<not> sanity_check_ckpt (cs_raw st) bps err (cs_ckpt st)"
  defines "hdr \<equiv> get_bytes 0 4096 (sealed crc32 r env st)"
  shows "get_checkpoint_version crc32 hdr = Inr (cur_cp_version (cs_ckpt st))" "unat (cp_pack_total_block_count hdr) = pack_size r env st"
    "\<not> sanity_check_ckpt (cs_raw st) bps err hdr"
proof -
  have ok: "env_ok env" and l: "192 \<le> length (cs_ckpt st)" using e s by (simp_all add: env_valid_def cp_state_ok_def)
  note S = sealed_facts [OF ok s]
  show "get_checkpoint_version crc32 hdr = Inr (cur_cp_version (cs_ckpt st))" unfolding hdr_def by (rule S(2))
  have h: "get_bytes a n hdr = get_bytes a n (cs_ckpt (prepare_ckpt r env st))" if "a + n \<le> 192" for a n
  proof -
    have "get_bytes a n hdr = get_bytes a n (sealed crc32 r env st)" using get_take [of a n 4096] that by (simp add: hdr_def get_bytes_def)
    then show ?thesis using S(3) [of a n] that by simp
  qed
  have tot: "cp_pack_total_block_count hdr = of_nat (pack_size r env st)"
    using fill_counts(1) [OF l, of r env] by (simp add: cp_fields get32_def h prep_fill)
  show "unat (cp_pack_total_block_count hdr) = pack_size r env st" using sz unfolding tot by (simp add: unat_of_nat take_bit_nat_eq_self)
  have same: "rsvd_segment_count hdr = rsvd_segment_count (cs_ckpt st)" "overprov_segment_count hdr = overprov_segment_count (cs_ckpt st)"
    using ok by (simp_all add: cp_fields get32_def h prep_other)
  have seg: "cur_node_segno hdr i = cur_node_segno (fill_ckpt r env st) i" "cur_node_blkoff hdr i = cur_node_blkoff (fill_ckpt r env st) i"
    "cur_data_segno hdr i = cur_data_segno (fill_ckpt r env st) i" "cur_data_blkoff hdr i = cur_data_blkoff (fill_ckpt r env st) i" if "i < 3" for i
    using that by (simp_all add: cp_fields get32_def get16_def h prep_fill)
  have bad: "\<not> list_ex (\<lambda>i. cur_node_segno hdr i \<ge> segment_count_main (cs_raw st) \<or> unat (cur_node_blkoff hdr i) \<ge> bps) [0..<NR_CURSEG_NODE_TYPE]"
    "\<not> list_ex (\<lambda>i. cur_data_segno hdr i \<ge> segment_count_main (cs_raw st) \<or> unat (cur_data_blkoff hdr i) \<ge> bps) [0..<NR_CURSEG_DATA_TYPE]"
    using env_valid_nth [OF e] fill_cursegs [OF ok _ l] by (auto simp: list_ex_iff NR_CURSEG_NODE_TYPE_def NR_CURSEG_DATA_TYPE_def seg not_le [symmetric])
  show "\<not> sanity_check_ckpt (cs_raw st) bps err hdr"
    using sane bad unfolding sanity_check_ckpt_def Let_def same by (simp split: if_splits)
qed

text \<open>The checkpoint in memory when \<^verbatim>\<open>do_checkpoint\<close> is called.\<close>

definition next_version :: "cp_env \<Rightarrow> cp_sb \<Rightarrow> cp_sb" where
  "next_version env st = (let st = prepare_cp_block env st in st\<lparr>cs_ckpt := put_bytes 0 (le64_bytes (cur_cp_version (cs_ckpt st) + 1)) (cs_ckpt st)\<rparr>)"

lemma next_version_facts:
  assumes "cp_state_ok st"
  shows "cp_state_ok (next_version env st)" "cur_cp_version (cs_ckpt (next_version env st)) = cur_cp_version (cs_ckpt st) + 1"
    "sanity_check_ckpt (cs_raw (next_version env st)) bps err (cs_ckpt (next_version env st)) = sanity_check_ckpt (cs_raw st) bps err (cs_ckpt st)"
    "cs_raw (next_version env st) = cs_raw st" "cs_im (next_version env st) = cs_im st" "cs_cur_cp_pack (next_version env st) = cs_cur_cp_pack st"
    "cs_blocks_per_seg (next_version env st) = cs_blocks_per_seg st"
proof -
  have l: "152 \<le> length (cs_ckpt st)" using assms by (simp add: cp_state_ok_def)
  have o: "get_bytes a n (cs_ckpt (next_version env st)) = get_bytes a n (cs_ckpt st)" if "8 \<le> a \<and> a + n \<le> 16 \<or> 24 \<le> a \<and> a + n \<le> 144 \<or> 156 \<le> a" for a n
    unfolding next_version_def prepare_cp_block_def Let_def using that
    by simp ((subst get_put_other, force)+, rule refl)
  have v: "cur_cp_version (cs_ckpt (prepare_cp_block env st)) = cur_cp_version (cs_ckpt st)"
    by (simp add: prepare_cp_block_def Let_def cp_fields get64_put_other)
  show "cur_cp_version (cs_ckpt (next_version env st)) = cur_cp_version (cs_ckpt st) + 1"
    unfolding next_version_def Let_def v using l by (simp add: cur_cp_version_def prepare_cp_block_def Let_def)
  show f: "cs_raw (next_version env st) = cs_raw st" "cs_im (next_version env st) = cs_im st" "cs_cur_cp_pack (next_version env st) = cs_cur_cp_pack st"
    "cs_blocks_per_seg (next_version env st) = cs_blocks_per_seg st"
    by (simp_all add: next_version_def prepare_cp_block_def Let_def)
  have len: "length (cs_ckpt (next_version env st)) = length (cs_ckpt st)" by (simp add: next_version_def prepare_cp_block_def Let_def)
  show "cp_state_ok (next_version env st)" using assms by (simp add: cp_state_ok_def f len cp_fields get32_def o)
  have seg: "cur_node_segno (cs_ckpt (next_version env st)) i = cur_node_segno (cs_ckpt st) i" "cur_node_blkoff (cs_ckpt (next_version env st)) i = cur_node_blkoff (cs_ckpt st) i"
    "cur_data_segno (cs_ckpt (next_version env st)) i = cur_data_segno (cs_ckpt st) i" "cur_data_blkoff (cs_ckpt (next_version env st)) i = cur_data_blkoff (cs_ckpt st) i" if "i < 3" for i
    using that by (simp_all add: cp_fields get32_def get16_def o)
  show "sanity_check_ckpt (cs_raw (next_version env st)) bps err (cs_ckpt (next_version env st)) = sanity_check_ckpt (cs_raw st) bps err (cs_ckpt st)"
    unfolding sanity_check_ckpt_def Let_def f
    by (simp add: list_ex_iff NR_CURSEG_NODE_TYPE_def NR_CURSEG_DATA_TYPE_def seg rsvd_segment_count_def overprov_segment_count_def get32_def o)
qed

lemma write_is_do:
  assumes "write_checkpoint crc32 r c env st = (err, st', bits, pack)" "pack \<noteq> []"
  shows "do_checkpoint crc32 r env (next_version env st) = (err, st', bits, pack)"
  using assms by (auto simp: write_checkpoint_def next_version_def Let_def split: if_splits option.splits)

text \<open>A mounted file system whose next checkpoint is about to be written: \<open>disk\<close> is the medium at that moment, the other segment holds only older
  checkpoint blocks, and the pack fits.\<close>

definition cp_ready :: "(u8 list \<Rightarrow> u32) \<Rightarrow> cp_reason \<Rightarrow> cp_env \<Rightarrow> (nat \<Rightarrow> u8 list) \<Rightarrow> cp_sb \<Rightarrow> bool" where
  "cp_ready crc32 r env disk st \<longleftrightarrow>
     cp_state_ok st \<and> im_ok 0 (cs_im st) \<and> env_valid (cs_raw st) (cs_blocks_per_seg st) env \<and> \<not> sanity_check_ckpt (cs_raw st) (cs_blocks_per_seg st) False (cs_ckpt st) \<and>
     cs_blocks_per_seg st = 2 ^ unat (log_blocks_per_seg (cs_raw st)) \<and> unat (cp_blkaddr (cs_raw st)) + 2 * cs_blocks_per_seg st \<le> 2 ^ 32 \<and>
     pack_size r env st \<le> cs_blocks_per_seg st \<and> ver_after (cur_cp_version (cs_ckpt st) + 1) (cur_cp_version (disk (start_cp_addr st))) \<and>
     (\<forall>a w. start_cp_next_addr st \<le> a \<and> a < start_cp_next_addr st + cs_blocks_per_seg st \<and> get_checkpoint_version crc32 (disk a) = Inr w \<longrightarrow>
        ver_after (cur_cp_version (disk (start_cp_addr st))) w)"

lemma crash_core:
  assumes ready: "cp_ready crc32 r env disk st" and g: "get_valid_checkpoint crc32 (cs_raw st) (cs_blocks_per_seg st) False disk = Inr (buf, cs_cur_cp_pack st)"
    and w: "write_checkpoint crc32 r c env st = (err, st', bits, pack)" "pack \<noteq> []"
  defines "s \<equiv> start_cp_next_addr st"
  shows "pack = blocks_at s (pack_blocks r env (cs_im st) (unat (cp_payload (cs_raw st))) (cs_ckpt st'))"
    "cs_ckpt st' = sealed crc32 r env (next_version env st)" "cs_raw st' = cs_raw st" "cs_blocks_per_seg st' = cs_blocks_per_seg st"
    "cs_im st' = release_ino_entry False (cs_im st)" "cs_cur_cp_pack st' = (if err = None then other_pack (cs_cur_cp_pack st) else cs_cur_cp_pack st)"
    "cs_cur_cp_pack st \<in> {1, 2}" "s = pack_start (cs_raw st) (other_pack (cs_cur_cp_pack st))"
    "get_valid_checkpoint crc32 (cs_raw st) (cs_blocks_per_seg st) False (crash_disk keep pack disk) =
      (if keep s \<and> keep (s + pack_size r env st - 1)
       then Inr (get_bytes 0 4096 (cs_ckpt st') @ payload_blocks (cs_raw st) (crash_disk keep pack disk) (other_pack (cs_cur_cp_pack st)), other_pack (cs_cur_cp_pack st))
       else Inr (buf, cs_cur_cp_pack st))"
proof -
  let ?st = "next_version env st" and ?fsb = "cs_raw st" and ?cur = "cs_cur_cp_pack st" and ?bps = "cs_blocks_per_seg st"
  have R: "cp_state_ok st" "im_ok 0 (cs_im st)" "env_valid ?fsb ?bps env" "\<not> sanity_check_ckpt ?fsb ?bps False (cs_ckpt st)"
    "?bps = 2 ^ unat (log_blocks_per_seg ?fsb)" "unat (cp_blkaddr ?fsb) + 2 * ?bps \<le> 2 ^ 32" "pack_size r env st \<le> ?bps"
    "ver_after (cur_cp_version (cs_ckpt st) + 1) (cur_cp_version (disk (start_cp_addr st)))"
    "\<forall>a w. s \<le> a \<and> a < s + ?bps \<and> get_checkpoint_version crc32 (disk a) = Inr w \<longrightarrow> ver_after (cur_cp_version (disk (start_cp_addr st))) w"
    using ready unfolding cp_ready_def s_def by blast+
  note N = next_version_facts [OF R(1), of env]
  have e: "env_ok env" using R(3) by (simp add: env_valid_def)
  have im: "im_ok 0 (cs_im ?st)" using R(2) N(5) by simp
  have sn: "start_cp_next_addr ?st = s" "pack_size r env ?st = pack_size r env st" using N by (simp_all add: s_def start_cp_next_addr_def pack_size_def)
  note D = do_checkpoint_pack [OF im e write_is_do [OF w] w(2)]
  show P: "pack = blocks_at s (pack_blocks r env (cs_im st) (unat (cp_payload (cs_raw st))) (cs_ckpt st'))"
    "cs_ckpt st' = sealed crc32 r env (next_version env st)" "cs_raw st' = cs_raw st" "cs_blocks_per_seg st' = cs_blocks_per_seg st"
    "cs_im st' = release_ino_entry False (cs_im st)" "cs_cur_cp_pack st' = (if err = None then other_pack (cs_cur_cp_pack st) else cs_cur_cp_pack st)"
    using D N sn by simp_all
  have p2: "pack_start ?fsb 2 + ?bps \<le> 2 ^ 32" using R(6) R(5) by (simp add: pack_start_def)
  have lt: "pack_start ?fsb 2 < 2 ^ 32"
  proof -
    have "0 < ?bps" unfolding R(5) by simp
    then show ?thesis using p2 by linarith
  qed
  show c: "?cur \<in> {1, 2}" by (rule chosen_pack(1) [OF g lt])
  show s: "s = pack_start ?fsb (other_pack ?cur)" using R(5) c by (auto simp: s_def start_cp_next_addr_def pack_start_def)
  have sc: "start_cp_addr st = pack_start ?fsb ?cur" using R(5) c by (auto simp: start_cp_addr_def pack_start_def)
  let ?B = "pack_blocks r env (cs_im st) (unat (cp_payload (cs_raw st))) (cs_ckpt st')" and ?h = "get_bytes 0 4096 (cs_ckpt st')"
  have B: "length ?B = pack_size r env st" "?B ! 0 = ?h" "?B ! (pack_size r env st - 1) = ?h"
    using pack_blocks_facts [OF im e, of r "cs_ckpt st'"] N(4,5) sn(2) by simp_all
  have sz: "unat (cp_payload ?fsb) + 1 < pack_size r env st" "pack_size r env ?st < 2 ^ 32"
  proof -
    show "unat (cp_payload ?fsb) + 1 < pack_size r env st" by (simp add: pack_size_def F2FS_CP_PACKS_def)
    have "0 < ?bps" unfolding R(5) by simp
    then show "pack_size r env ?st < 2 ^ 32" using R(6,7) sn(2) by linarith
  qed
  have ev: "env_valid (cs_raw ?st) ?bps env" and sane: "\<not> sanity_check_ckpt (cs_raw ?st) ?bps False (cs_ckpt ?st)" using R(3,4) N(3,4) by simp_all
  note H = sealed_header [OF ev N(1) sz(2) sane]
  show "get_valid_checkpoint crc32 (cs_raw st) (cs_blocks_per_seg st) False (crash_disk keep pack disk) =
      (if keep s \<and> keep (s + pack_size r env st - 1)
       then Inr (get_bytes 0 4096 (cs_ckpt st') @ payload_blocks (cs_raw st) (crash_disk keep pack disk) (other_pack (cs_cur_cp_pack st)), other_pack (cs_cur_cp_pack st))
       else Inr (buf, cs_cur_cp_pack st))"
  proof -
    have h1: "get_checkpoint_version crc32 ?h = Inr (cur_cp_version (cs_ckpt st) + 1)" using H(1) N(2) P(2) by simp
    have h2: "unat (cp_pack_total_block_count ?h) = length ?B" using H(2) B(1) sn(2) P(2) by simp
    have h3: "\<not> sanity_check_ckpt ?fsb ?bps False ?h" using H(3) N(4) P(2) by simp
    have b: "unat (cp_payload ?fsb) + 1 < length ?B" "length ?B \<le> 2 ^ unat (log_blocks_per_seg ?fsb)" "?B ! (length ?B - 1) = ?h"
      using sz(1) R(5,7) B by simp_all
    show ?thesis
      using mount_after_crash [OF g p2 [unfolded R(5)] b(1,2) B(2) b(3) h1 h2 h3, of keep] R(5,8,9) unfolding s sc B(1) P(1) by simp
  qed
qed

section \<open>Orphans through the pack\<close>

lemma get_append: "length xs \<le> off \<Longrightarrow> get_bytes off n (xs @ ys) = get_bytes (off - length xs) n ys"
  by (simp add: get_bytes_def)

lemma get_prefix: "n = length xs \<Longrightarrow> get_bytes 0 n (xs @ ys) = xs"
  by (simp add: get_bytes_def)

lemma decode_encode:
  assumes "length (ob_ino b) = F2FS_ORPHANS_PER_BLOCK"
  shows "decode_orphan_block (encode_orphan_block b) = b"
proof -
  have l: "length (concat (map le32_bytes (ob_ino b))) = 4080" using assms by (simp add: length_concat_fixed [where k = 4] F2FS_ORPHANS_PER_BLOCK_def)
  have i: "get_bytes (4 * i) 4 (encode_orphan_block b) = le32_bytes (ob_ino b ! i)" if "i < length (ob_ino b)" for i
    unfolding encode_orphan_block_def by (rule get_concat) (use that in simp_all)
  have f: "get_bytes 4084 2 (encode_orphan_block b) = le16_bytes (ob_blk_addr b)" "get_bytes 4086 2 (encode_orphan_block b) = le16_bytes (ob_blk_count b)"
    "get_bytes 4088 4 (encode_orphan_block b) = le32_bytes (ob_entry_count b)"
    unfolding encode_orphan_block_def by (simp_all add: get_append get_prefix l)
  have "map (\<lambda>i. get32 (4 * i) (encode_orphan_block b)) [0..<F2FS_ORPHANS_PER_BLOCK] = ob_ino b"
    using i assms by (intro nth_equalityI) (simp_all add: get32_def)
  then show ?thesis using f by (simp add: decode_orphan_block_def get16_def) (simp add: get32_def)
qed

lemma write_loop_len:
  assumes "\<forall>b. page = Some b \<longrightarrow> length (ob_ino b) = F2FS_ORPHANS_PER_BLOCK"
  shows "\<forall>b \<in> set (write_orphan_loop c xs page n i). length (ob_ino b) = F2FS_ORPHANS_PER_BLOCK"
  using assms
proof (induction xs arbitrary: page n i)
  case Nil
  then show ?case by (auto split: option.splits)
next
  case (Cons x xs)
  define b where "b = (case page of None \<Rightarrow> zero_orphan_block | Some b \<Rightarrow> b)"
  define b' where "b' = b\<lparr>ob_ino := (ob_ino b)[n := of_nat x]\<rparr>"
  have l: "length (ob_ino b') = F2FS_ORPHANS_PER_BLOCK"
    using Cons.prems by (auto simp: b'_def b_def zero_orphan_block_def split: option.splits)
  have w: "write_orphan_loop c (x # xs) page n i =
    (if n + 1 = F2FS_ORPHANS_PER_BLOCK
     then b'\<lparr>ob_blk_addr := i, ob_blk_count := c, ob_entry_count := of_nat (n + 1)\<rparr> # write_orphan_loop c xs None 0 (i + 1)
     else write_orphan_loop c xs (Some b') (n + 1) i)"
    by (simp add: Let_def b_def [symmetric] b'_def [symmetric])
  have r: "\<forall>b \<in> set (write_orphan_loop c xs None 0 (i + 1)). length (ob_ino b) = F2FS_ORPHANS_PER_BLOCK" by (rule Cons.IH) simp
  have "\<forall>b \<in> set (write_orphan_loop c xs (Some b') (n + 1) i). length (ob_ino b) = F2FS_ORPHANS_PER_BLOCK" by (rule Cons.IH) (simp add: l)
  then show ?case using r l unfolding w by simp
qed

lemma decode_written: "map decode_orphan_block (map encode_orphan_block (write_orphan_inodes im)) = write_orphan_inodes im"
proof -
  have "\<forall>b \<in> set (write_orphan_inodes im). length (ob_ino b) = F2FS_ORPHANS_PER_BLOCK"
    unfolding write_orphan_inodes_def Let_def by (rule write_loop_len) simp
  then show ?thesis by (simp add: decode_encode cong: map_cong)
qed

text \<open>The flag and the place of the orphan blocks in a pack that was written.\<close>

lemma orphan_flag: "new_flags r orphans fsck f AND CP_ORPHAN_PRESENT_FLAG \<noteq> 0 \<longleftrightarrow> orphans"
proof -
  have "w AND CP_ORPHAN_PRESENT_FLAG \<noteq> 0 \<longleftrightarrow> bit w (Suc 0)" for w :: u32
    by (simp add: bit_iff_and_push_bit_not_eq_0 CP_ORPHAN_PRESENT_FLAG_def)
  moreover have "bit (new_flags r orphans fsck f) 1 = orphans"
  proof -
    have c: "\<not> bit CP_TRIMMED_FLAG (Suc 0)" "\<not> bit CP_UMOUNT_FLAG (Suc 0)" "\<not> bit CP_FASTBOOT_FLAG (Suc 0)" "\<not> bit CP_FSCK_FLAG (Suc 0)" "\<not> bit CP_CRC_RECOVERY_FLAG (Suc 0)"
      "\<not> bit CP_NOCRC_RECOVERY_FLAG (Suc 0)" "bit CP_ORPHAN_PRESENT_FLAG (Suc 0)"
      by (simp_all add: CP_TRIMMED_FLAG_def CP_UMOUNT_FLAG_def CP_FASTBOOT_FLAG_def CP_ORPHAN_PRESENT_FLAG_def CP_FSCK_FLAG_def
        CP_CRC_RECOVERY_FLAG_def CP_NOCRC_RECOVERY_FLAG_def)
    have n: "\<not> bit c (Suc 0) \<Longrightarrow> bit (w AND NOT c) (Suc 0) = bit w (Suc 0)" "bit c (Suc 0) \<Longrightarrow> \<not> bit (w AND NOT c) (Suc 0)" for w c :: u32
      by (auto simp: bit_and_iff bit_not_iff)
    show ?thesis
      by (cases orphans) (simp_all add: new_flags_def Let_def bit_or_iff c n if_distrib [of "\<lambda>w. bit w (Suc 0)"] del: bit_1_iff)
  qed
  ultimately show ?thesis by simp
qed

lemma sealed_fields:
  assumes e: "env_ok env" and s: "cp_state_ok st"
  shows "cp_pack_start_sum (sealed crc32 r env st) = of_nat (1 + unat (cp_payload (cs_raw st)) + GET_ORPHAN_BLOCKS (unat (ino_num (cs_im st ORPHAN_INO))))"
    "is_set_ckpt_flags (sealed crc32 r env st) CP_ORPHAN_PRESENT_FLAG \<longleftrightarrow> ino_num (cs_im st ORPHAN_INO) \<noteq> 0"
    "cur_cp_version (sealed crc32 r env st) = cur_cp_version (cs_ckpt st)"
    "i < 3 \<Longrightarrow> cur_node_segno (sealed crc32 r env st) i = fst (ce_node_segs env ! i) \<and> cur_node_blkoff (sealed crc32 r env st) i = fst (snd (ce_node_segs env ! i)) \<and>
      cur_data_segno (sealed crc32 r env st) i = fst (ce_data_segs env ! i) \<and> cur_data_blkoff (sealed crc32 r env st) i = fst (snd (ce_data_segs env ! i))"
proof -
  have l: "192 \<le> length (cs_ckpt st)" using s by (simp add: cp_state_ok_def)
  note S = sealed_facts(3) [OF e s]
  show "cp_pack_start_sum (sealed crc32 r env st) = of_nat (1 + unat (cp_payload (cs_raw st)) + GET_ORPHAN_BLOCKS (unat (ino_num (cs_im st ORPHAN_INO))))"
    using fill_counts(2) [OF l, of r env] by (simp add: cp_fields get32_def S prep_fill)
  show "cur_cp_version (sealed crc32 r env st) = cur_cp_version (cs_ckpt st)"
    using e by (simp add: cp_fields get64_def S prep_other)
  show "i < 3 \<Longrightarrow> cur_node_segno (sealed crc32 r env st) i = fst (ce_node_segs env ! i) \<and> cur_node_blkoff (sealed crc32 r env st) i = fst (snd (ce_node_segs env ! i)) \<and>
      cur_data_segno (sealed crc32 r env st) i = fst (ce_data_segs env ! i) \<and> cur_data_blkoff (sealed crc32 r env st) i = fst (snd (ce_data_segs env ! i))"
    using fill_cursegs [OF e _ l, of i r] by (simp add: cp_fields get32_def get16_def S prep_fill)
  have "ckpt_flags (sealed crc32 r env st) = ckpt_flags (cs_ckpt (update_ckpt_flags r (st\<lparr>cs_ckpt := fill_ckpt r env st\<rparr>)))"
    by (simp add: ckpt_flags_def get32_def S prep_low)
  then show "is_set_ckpt_flags (sealed crc32 r env st) CP_ORPHAN_PRESENT_FLAG \<longleftrightarrow> ino_num (cs_im st ORPHAN_INO) \<noteq> 0"
    unfolding is_set_ckpt_flags_def using l by (simp add: upd_flags_bits orphan_flag)
qed

text \<open>Where the mount looks for the orphan blocks of the new pack.\<close>

lemma read_orphans_at:
  assumes ready: "cp_ready crc32 r env disk st" and m: "cs_ckpt ms = sealed crc32 r env (next_version env st)" "cs_raw ms = cs_raw st" "start_cp_addr ms = s"
  shows "read_orphan_blocks d ms =
    map (\<lambda>i. decode_orphan_block (d (s + 1 + unat (cp_payload (cs_raw st)) + i))) [0..<GET_ORPHAN_BLOCKS (unat (ino_num (cs_im st ORPHAN_INO)))]"
proof -
  let ?p = "cp_payload (cs_raw st)" and ?n = "GET_ORPHAN_BLOCKS (unat (ino_num (cs_im st ORPHAN_INO)))"
  have R: "cp_state_ok st" "env_ok env" "pack_size r env st \<le> cs_blocks_per_seg st" "unat (cp_blkaddr (cs_raw st)) + 2 * cs_blocks_per_seg st \<le> 2 ^ 32" "0 < cs_blocks_per_seg st"
    using ready by (auto simp: cp_ready_def env_valid_def)
  note N = next_version_facts [OF R(1), of env]
  have "?n < pack_size r env st" by (simp add: pack_size_def F2FS_CP_PACKS_def)
  then have n: "?n < 2 ^ 32" using R(3-5) by linarith
  have "cp_pack_start_sum (cs_ckpt ms) = of_nat (1 + unat ?p + ?n)" using sealed_fields(1) [OF R(2) N(1)] N(4,5) m(1) by simp
  then have "cp_pack_start_sum (cs_ckpt ms) - 1 - ?p = of_nat ?n" by simp
  then have "unat (cp_pack_start_sum (cs_ckpt ms) - 1 - ?p) = ?n" using n by (simp add: unat_of_nat take_bit_nat_eq_self)
  then show ?thesis using m by (simp add: read_orphan_blocks_def Let_def)
qed

lemma concat_blocks: "length c = k * n \<Longrightarrow> concat (map (\<lambda>i. get_bytes (i * k) k c) [0..<n]) = c"
proof (induction n arbitrary: c)
  case (Suc n)
  let ?d = "take (k * n) c"
  have ih: "concat (map (\<lambda>i. get_bytes (i * k) k ?d) [0..<n]) = ?d" by (rule Suc.IH) (use Suc.prems in simp)
  have g: "get_bytes (i * k) k ?d = get_bytes (i * k) k c" if "i < n" for i
  proof (rule get_take)
    have "(i + 1) * k \<le> n * k" by (rule mult_le_mono1) (use that in simp)
    then show "i * k + k \<le> k * n" by (simp add: mult.commute)
  qed
  have e: "map (\<lambda>i. get_bytes (i * k) k ?d) [0..<n] = map (\<lambda>i. get_bytes (i * k) k c) [0..<n]" by (rule map_cong [OF refl], rule g) simp
  have "concat (map (\<lambda>i. get_bytes (i * k) k c) [0..<n]) = ?d" using ih unfolding e .
  moreover have "get_bytes (n * k) k c = drop (k * n) c" using Suc.prems by (simp add: get_bytes_def mult.commute)
  ultimately show ?case by simp
qed simp

section \<open>A small file system\<close>

lemma write_succeeds:
  assumes "cs_is_dirty st" "\<not> cc_cp_error c" "\<not> cc_readonly c" "cc_block_ops c = None" "\<not> CP_DISCARD r" "ce_fail env = None"
  shows "\<exists>st' bits pack. write_checkpoint crc32 r c env st = (None, st', bits, pack) \<and> pack \<noteq> []"
  using assms by (simp add: write_checkpoint_def do_checkpoint_def Let_def pack_writes_def)

lemma le_word_zeros [simp]: "le_word (replicate n 0) = 0"
  by (induction n) simp_all

lemma get_zeros [simp]: "get_bytes off n (replicate m x) = replicate (min n (m - off)) x"
  by (simp add: get_bytes_def)

definition demo_cp :: "u8 list" where
  "demo_cp = put_bytes 0 (le64_bytes 5) (put_bytes 136 (le32_bytes 2) (put_bytes 28 (le32_bytes 2) (put_bytes 24 (le32_bytes 2) (put_bytes 164 (le32_bytes 4092) (replicate 4096 0)))))"

definition demo_disk :: "nat \<Rightarrow> u8 list" where
  "demo_disk a = (if a = 512 \<or> a = 513 then demo_cp else replicate 4096 0)"

definition demo_raw :: f2fs_super_block where
  "demo_raw = demo_super\<lparr>segment_count := 27\<rparr>"

definition demo_fs :: cp_sb where
  "demo_fs = \<lparr>cs_raw = demo_raw, cs_blocks_per_seg = 512, cs_cur_cp_pack = 1, cs_ckpt = demo_cp, cs_im = demo_inos, cs_nat_bits_blocks = 0, cs_nat_bits = [],
     cs_need_fsck = False, cs_is_dirty = True, cs_need_cp = True\<rparr>"

definition demo_env :: cp_env where
  "demo_env = \<lparr>ce_mtime = 0, ce_free_segments = 10, ce_node_segs = [(0, 3, 0), (1, 4, 0), (2, 5, 0)], ce_data_segs = [(3, 6, 0), (4, 7, 0), (5, 8, 0)],
     ce_data_sums = [replicate 4096 0], ce_node_sums = [replicate 4096 0, replicate 4096 0, replicate 4096 0], ce_sit_bitmap = [], ce_nat_bitmap = [],
     ce_valid_blocks = 40, ce_valid_nodes = 6, ce_valid_inodes = 4, ce_next_nid = 9, ce_fail = None, ce_redirtied = False\<rparr>"

definition demo_reason :: cp_reason where
  "demo_reason = \<lparr>CP_UMOUNT = False, CP_FASTBOOT = False, CP_TRIMMED = False, CP_SYNC = True, CP_DISCARD = False\<rparr>"

definition demo_cond :: cp_cond where
  "demo_cond = \<lparr>cc_cp_error = False, cc_readonly = False, cc_block_ops = None, cc_discard_blks = False, cc_candidates = False, cc_meta_clean = False\<rparr>"

lemma demo_cp_fields:
  "length demo_cp = 4096" "cur_cp_version demo_cp = 5" "checksum_offset demo_cp = 4092" "cp_pack_total_block_count demo_cp = 2"
  "rsvd_segment_count demo_cp = 2" "overprov_segment_count demo_cp = 2" "cur_cp_crc demo_cp = 0"
  "i < 3 \<Longrightarrow> cur_node_segno demo_cp i = 0" "i < 3 \<Longrightarrow> cur_node_blkoff demo_cp i = 0" "i < 3 \<Longrightarrow> cur_data_segno demo_cp i = 0" "i < 3 \<Longrightarrow> cur_data_blkoff demo_cp i = 0"
proof -
  show l: "length demo_cp = 4096" by (simp add: demo_cp_def)
  show c: "checksum_offset demo_cp = 4092" by (simp add: demo_cp_def cp_fields get32_put_other)
  show "cur_cp_version demo_cp = 5" "cp_pack_total_block_count demo_cp = 2" "rsvd_segment_count demo_cp = 2" "overprov_segment_count demo_cp = 2"
    by (simp_all add: demo_cp_def cp_fields get32_put_other)
  show "cur_cp_crc demo_cp = 0" unfolding cur_cp_crc_def c by (simp add: demo_cp_def get32_put_other) (simp add: get32_def)
  show "i < 3 \<Longrightarrow> cur_node_segno demo_cp i = 0" "i < 3 \<Longrightarrow> cur_node_blkoff demo_cp i = 0" "i < 3 \<Longrightarrow> cur_data_segno demo_cp i = 0" "i < 3 \<Longrightarrow> cur_data_blkoff demo_cp i = 0"
    by (simp_all add: demo_cp_def cp_fields get32_put_other get16_put_other) (simp_all add: get32_def get16_def)
qed

lemma zero_block: "cp_pack_total_block_count (replicate 4096 0) = 0" "get_checkpoint_version (\<lambda>_. 0) (replicate 4096 0) = Inr 0"
  by (simp_all add: cp_fields get32_def get64_def get_checkpoint_version_def f2fs_crc_valid_def cur_cp_crc_def)

lemma demo_valid: "get_checkpoint_version (\<lambda>_. 0) demo_cp = Inr 5"
  by (simp add: get_checkpoint_version_def demo_cp_fields f2fs_crc_valid_def)

lemma demo_sane: "\<not> sanity_check_ckpt demo_raw 512 False demo_cp"
  by (simp add: sanity_check_ckpt_def Let_def demo_cp_fields list_ex_iff NR_CURSEG_NODE_TYPE_def NR_CURSEG_DATA_TYPE_def F2FS_MIN_SEGMENTS_def demo_raw_def demo_super_def)

lemma demo_mounted: "get_valid_checkpoint (\<lambda>_. 0) demo_raw 512 False demo_disk = Inr (demo_cp, 1)"
proof -
  have s: "pack_start demo_raw 1 = 512" "pack_start demo_raw 2 = 1024" by (simp_all add: pack_start_def demo_raw_def demo_super_def)
  have v1: "validate_checkpoint (\<lambda>_. 0) demo_disk 512 = Some (demo_cp, 5)" by (simp add: validate_checkpoint_def demo_disk_def demo_valid demo_cp_fields)
  have v2: "validate_checkpoint (\<lambda>_. 0) demo_disk 1024 = Some (replicate 4096 0, 0)" by (simp add: validate_checkpoint_def demo_disk_def zero_block Let_def unsigned_minus_1_eq_mask mask_eq_exp_minus_1)
  have p: "payload_blocks demo_raw demo_disk 1 = []" by (simp add: payload_blocks_def demo_raw_def demo_super_def)
  show ?thesis using choose_pack [of 1 demo_raw "\<lambda>_. 0" demo_disk demo_cp 5 512 False] s v1 v2 p demo_sane by (simp add: ver_after_def)
qed

lemma demo_size: "pack_size demo_reason demo_env demo_fs = 4"
  by (simp add: pack_size_def F2FS_CP_PACKS_def demo_reason_def demo_env_def demo_fs_def demo_raw_def demo_super_def demo_inos_def GET_ORPHAN_BLOCKS_def
    F2FS_ORPHANS_PER_BLOCK_def remain_node_summaries_def)

lemma demo_ready: "cp_ready (\<lambda>_. 0) demo_reason demo_env demo_disk demo_fs"
proof -
  have f: "cs_raw demo_fs = demo_raw" "cs_blocks_per_seg demo_fs = 512" "cs_ckpt demo_fs = demo_cp" "cs_im demo_fs = demo_inos" "start_cp_addr demo_fs = 512" "start_cp_next_addr demo_fs = 1024"
    by (simp_all add: demo_fs_def start_cp_addr_def start_cp_next_addr_def demo_raw_def demo_super_def)
  have r: "cp_blkaddr demo_raw = 512" "log_blocks_per_seg demo_raw = 9" "cp_payload demo_raw = 0" "segment_count_main demo_raw = 20" by (simp_all add: demo_raw_def demo_super_def)
  have a: "cp_state_ok demo_fs" by (simp add: cp_state_ok_def f r demo_cp_fields)
  have b: "env_valid demo_raw 512 demo_env" by (simp add: env_valid_def env_ok_def demo_env_def r)
  have c: "\<forall>a w. 1024 \<le> a \<and> a < 1024 + 512 \<and> get_checkpoint_version (\<lambda>_. 0) (demo_disk a) = Inr w \<longrightarrow> ver_after 5 w"
    by (auto simp: demo_disk_def zero_block ver_after_def)
  show ?thesis unfolding cp_ready_def f demo_size r using a b c demo_inos_ok demo_sane by (simp add: demo_disk_def demo_cp_fields ver_after_def)
qed

lemma demo_writes: "\<exists>st' bits pack. write_checkpoint (\<lambda>_. 0) demo_reason demo_cond demo_env demo_fs = (None, st', bits, pack) \<and> pack \<noteq> []"
  by (rule write_succeeds) (simp_all add: demo_reason_def demo_cond_def demo_env_def demo_fs_def)

lemma demo_frame: "cs_raw demo_fs = demo_raw" "cs_blocks_per_seg demo_fs = 512" "cs_cur_cp_pack demo_fs = 1" "cs_im demo_fs = demo_inos" "start_cp_next_addr demo_fs = 1024"
  "cp_payload demo_raw = 0"
  by (simp_all add: demo_fs_def start_cp_next_addr_def demo_raw_def demo_super_def)

section \<open>Properties\<close>



text \<open>Property C37.
  The pack is written as one request, so its blocks may reach the medium in any order. When only its first and last block arrived, the mount accepts the new checkpoint, with the orphan
  blocks it then reads being whatever the segment held before.\<close>

theorem torn_pack_accepted:
  assumes "cp_ready crc32 r env disk st" "get_valid_checkpoint crc32 (cs_raw st) (cs_blocks_per_seg st) False disk = Inr (buf, cs_cur_cp_pack st)"
    and "write_checkpoint crc32 r c env st = (None, st', bits, pack)" "pack \<noteq> []"
  defines "s \<equiv> start_cp_next_addr st"
  defines "torn \<equiv> crash_disk (\<lambda>a. a = s \<or> a = s + pack_size r env st - 1) pack disk"
  shows "(\<exists>payload. get_valid_checkpoint crc32 (cs_raw st) (cs_blocks_per_seg st) False torn = Inr (get_bytes 0 4096 (cs_ckpt st') @ payload, cs_cur_cp_pack st')) \<and>
    read_orphan_blocks torn st' =
      map (\<lambda>i. decode_orphan_block (disk (s + 1 + unat (cp_payload (cs_raw st)) + i))) [0..<GET_ORPHAN_BLOCKS (unat (ino_num (cs_im st ORPHAN_INO)))]"
proof -
  note C = crash_core [OF assms(1-4), folded s_def]
  have a: "start_cp_addr st' = s" using C(4,6,7) C(3) by (auto simp: start_cp_addr_def s_def start_cp_next_addr_def)
  have same: "torn (s + 1 + unat (cp_payload (cs_raw st)) + i) = disk (s + 1 + unat (cp_payload (cs_raw st)) + i)"
    if "i < GET_ORPHAN_BLOCKS (unat (ino_num (cs_im st ORPHAN_INO)))" for i
    using that unfolding torn_def C(1) crash_disk_at pack_size_def by (simp add: F2FS_CP_PACKS_def)
  have eq: "map (\<lambda>i. decode_orphan_block (torn (s + 1 + unat (cp_payload (cs_raw st)) + i))) [0..<GET_ORPHAN_BLOCKS (unat (ino_num (cs_im st ORPHAN_INO)))] =
      map (\<lambda>i. decode_orphan_block (disk (s + 1 + unat (cp_payload (cs_raw st)) + i))) [0..<GET_ORPHAN_BLOCKS (unat (ino_num (cs_im st ORPHAN_INO)))]"
    by (rule map_cong [OF refl], subst same) simp_all
  show ?thesis
    using C(9) [of "\<lambda>a. a = s \<or> a = s + pack_size r env st - 1", folded torn_def] C(6)
    unfolding read_orphans_at [OF assms(1) C(2,3) a] eq by auto
qed

theorem torn_pack_accepted_witness:
  "case write_checkpoint (\<lambda>_. 0) demo_reason demo_cond demo_env demo_fs of (err, st', bits, pack) \<Rightarrow>
     (\<exists>payload. get_valid_checkpoint (\<lambda>_. 0) demo_raw 512 False (crash_disk (\<lambda>a. a = 1024 \<or> a = 1027) pack demo_disk) =
        Inr (get_bytes 0 4096 (cs_ckpt st') @ payload, cs_cur_cp_pack st')) \<and>
     read_orphan_blocks (crash_disk (\<lambda>a. a = 1024 \<or> a = 1027) pack demo_disk) st' = [decode_orphan_block (replicate 4096 0)]"
proof -
  obtain st' bits pack where w: "write_checkpoint (\<lambda>_. 0) demo_reason demo_cond demo_env demo_fs = (None, st', bits, pack)" "pack \<noteq> []" using demo_writes by blast
  have n: "GET_ORPHAN_BLOCKS (unat (ino_num (demo_inos ORPHAN_INO))) = 1" by (simp add: demo_inos_def GET_ORPHAN_BLOCKS_def F2FS_ORPHANS_PER_BLOCK_def)
  show ?thesis using torn_pack_accepted [OF demo_ready _ w, of demo_cp] demo_mounted w(1) by (simp add: demo_frame demo_size n demo_disk_def)
qed

text \<open>Property C9.
  After a checkpoint whose pack arrived completely, the mount loads exactly the checkpoint the file system had in memory, with its payload, the next version and the current segments; and
  the recovery of orphans, when every inode can be read and removed, evicts exactly the orphans that were on the list.\<close>

theorem checkpoint_durable:
  assumes "cp_ready crc32 r env disk st" "get_valid_checkpoint crc32 (cs_raw st) (cs_blocks_per_seg st) False disk = Inr (buf, cs_cur_cp_pack st)"
    and "write_checkpoint crc32 r c env st = (None, st', bits, pack)" "pack \<noteq> []" "0 < mx"
  defines "disk' \<equiv> crash_disk (\<lambda>_. True) pack disk"
  shows "get_valid_checkpoint crc32 (cs_raw st) (cs_blocks_per_seg st) False disk' = Inr (cs_ckpt st', cs_cur_cp_pack st') \<and>
    cur_cp_version (cs_ckpt st') = cur_cp_version (cs_ckpt st) + 1 \<and>
    (\<forall>i<3. cur_node_segno (cs_ckpt st') i = fst (ce_node_segs env ! i) \<and> cur_node_blkoff (cs_ckpt st') i = fst (snd (ce_node_segs env ! i)) \<and>
      cur_data_segno (cs_ckpt st') i = fst (ce_data_segs env ! i) \<and> cur_data_blkoff (cs_ckpt st') i = fst (snd (ce_data_segs env ! i))) \<and>
    mount_orphans disk' mx (\<lambda>_. None) (\<lambda>_. False) st' \<lparr>os_im = no_inos, os_evicted = [], os_need_fsck = False, os_bug = False\<rparr> =
      (None, \<lparr>os_im = no_inos, os_evicted = ino_list (cs_im st ORPHAN_INO), os_need_fsck = False, os_bug = False\<rparr>, False)"
proof -
  note C = crash_core [OF assms(1-4)]
  let ?s = "start_cp_next_addr st" and ?p = "unat (cp_payload (cs_raw st))" and ?im = "cs_im st"
  let ?B = "pack_blocks r env ?im ?p (cs_ckpt st')" and ?w = "write_orphan_inodes (cs_im st)"
  have R: "cp_state_ok st" "env_ok env" "im_ok 0 ?im" using assms(1) by (auto simp: cp_ready_def env_valid_def)
  note N = next_version_facts [OF R(1), of env]
  note F = sealed_fields [OF R(2) N(1)]
  have a: "start_cp_addr st' = ?s" using C(4,6,7) C(3) by (auto simp: start_cp_addr_def start_cp_next_addr_def)
  have L: "length (cs_ckpt st') = 4096 * (1 + ?p)" using sealed_facts(1) [OF R(2) N(1)] C(2) N(4) by simp
  have lb: "1 + ?p + length ?w < length ?B" by (simp add: pack_blocks_def)
  have at: "disk' (?s + i) = ?B ! i" if "i < length ?B" for i
    unfolding disk'_def C(1) crash_disk_at using that by simp
  have ow: "disk' (?s + 1 + ?p + i) = encode_orphan_block (?w ! i)" if "i < length ?w" for i
    using at [of "1 + ?p + i"] that lb by (simp add: pack_blocks_def nth_append add.assoc del: upt_Suc)
  have pb: "disk' (?s + i) = get_bytes (i * 4096) 4096 (cs_ckpt st')" if "i < 1 + ?p" for i
    using at [of i] that lb by (simp add: pack_blocks_def nth_append del: upt_Suc)
  have buf: "get_bytes 0 4096 (cs_ckpt st') @ payload_blocks (cs_raw st) disk' (other_pack (cs_cur_cp_pack st)) = cs_ckpt st'"
  proof -
    have "(?s + i) mod 2 ^ 32 = ?s + i" if "i < 1 + ?p" for i
    proof -
      have "i < cs_blocks_per_seg st" using that assms(1) by (simp add: cp_ready_def pack_size_def F2FS_CP_PACKS_def)
      moreover have "?s + cs_blocks_per_seg st \<le> 2 ^ 32" using assms(1) by (auto simp: cp_ready_def start_cp_next_addr_def)
      ultimately show ?thesis by simp
    qed
    then have "payload_blocks (cs_raw st) disk' (other_pack (cs_cur_cp_pack st)) = concat (map (\<lambda>i. get_bytes (i * 4096) 4096 (cs_ckpt st')) [1..<1 + ?p])"
      unfolding payload_blocks_def C(8) [symmetric] by (intro arg_cong [where f = concat] map_cong [OF refl]) (auto simp: pb)
    moreover have "[0..<1 + ?p] = 0 # [1..<1 + ?p]" by (simp add: upt_conv_Cons del: upt_Suc)
    ultimately show ?thesis using concat_blocks [OF L] by simp
  qed
  have orph: "read_orphan_blocks disk' st' = ?w"
  proof -
    have "read_orphan_blocks disk' st' = map (\<lambda>i. decode_orphan_block (encode_orphan_block (?w ! i))) [0..<length ?w]"
      unfolding read_orphans_at [OF assms(1) C(2,3) a] orphans_written(1) [OF R(3), symmetric] by (rule map_cong [OF refl], subst ow) simp_all
    also have "\<dots> = map decode_orphan_block (map encode_orphan_block ?w)" by (intro nth_equalityI) simp_all
    finally show ?thesis unfolding decode_written .
  qed
  have I: "\<forall>x \<in> set (ino_list (?im ORPHAN_INO)). x < 2 ^ 32" "unat (ino_num (?im ORPHAN_INO)) = length (ino_list (?im ORPHAN_INO))"
    using im_okD(3) [OF R(3)] im_okD(4) [OF R(3), of ORPHAN_INO] by auto
  have "mount_orphans disk' mx (\<lambda>_. None) (\<lambda>_. False) st' \<lparr>os_im = no_inos, os_evicted = [], os_need_fsck = False, os_bug = False\<rparr> =
      (None, \<lparr>os_im = no_inos, os_evicted = ino_list (?im ORPHAN_INO), os_need_fsck = False, os_bug = False\<rparr>, False)"
    using recover_loop_ok [of "\<lparr>os_im = no_inos, os_evicted = [], os_need_fsck = False, os_bug = False\<rparr>" "ino_list (?im ORPHAN_INO)" mx] no_inos_ok I assms(5)
      orphans_written(2) [OF R(3)] F(2) N(5)
    by (auto simp: mount_orphans_def recover_orphan_inodes_def orph C(2))
  then show ?thesis using C(6) C(9) [of "\<lambda>_. True"] F(3,4) N(2) buf unfolding disk'_def by (auto simp: C(2))
qed

theorem checkpoint_durable_witness:
  "case write_checkpoint (\<lambda>_. 0) demo_reason demo_cond demo_env demo_fs of (err, st', bits, pack) \<Rightarrow>
     get_valid_checkpoint (\<lambda>_. 0) demo_raw 512 False (crash_disk (\<lambda>_. True) pack demo_disk) = Inr (cs_ckpt st', cs_cur_cp_pack st') \<and>
     mount_orphans (crash_disk (\<lambda>_. True) pack demo_disk) 100 (\<lambda>_. None) (\<lambda>_. False) st' \<lparr>os_im = no_inos, os_evicted = [], os_need_fsck = False, os_bug = False\<rparr> =
       (None, \<lparr>os_im = no_inos, os_evicted = [5, 7], os_need_fsck = False, os_bug = False\<rparr>, False)"
proof -
  obtain st' bits pack where w: "write_checkpoint (\<lambda>_. 0) demo_reason demo_cond demo_env demo_fs = (None, st', bits, pack)" "pack \<noteq> []" using demo_writes by blast
  have "ino_list (demo_inos ORPHAN_INO) = [5, 7]" by (simp add: demo_inos_def)
  then show ?thesis using checkpoint_durable [OF demo_ready _ w, of demo_cp 100] demo_mounted w(1) by (simp add: demo_frame)
qed

end
