(* ===== verification/Node_Ops.thy ===== *)
theory Node_Ops
  imports Node_Tree Ino_Entries
begin

text \<open>
  The node blocks of a file (\<^verbatim>\<open>node.c\<close>, \<^verbatim>\<open>file.c\<close>): finding or creating the direct node that holds the address of a block, and truncation, which removes node blocks
  bottom up and clears the pointers to them. A direct or indirect node is its array of 1018 numbers, block addresses or node ids; the inode has its own addresses and five node ids.
  Locks, read-ahead and page references have no counterpart; failing reads and allocations are an argument.
\<close>

section \<open>State\<close>

record fnode =
  nd_ofs :: u32
  nd_blk :: nat
  nd_entries :: "nat list"

text \<open>One open file with the node blocks of the file system, the free node ids, the blocks given to \<^verbatim>\<open>invalidate_blocks\<close>, the ranges dropped from its extent cache and
  the space counters, which are of any type \<open>'a\<close>.\<close>

record 'a fstate =
  fs_ino :: nat
  fs_layout :: addr_layout
  fs_inline :: "u8 list option"
  fs_inode_blk :: "nat option"
  fs_addr :: "nat list"
  fs_i_nid :: "nat list"
  fs_xnid :: nat
  fs_first_written :: bool
  fs_data_exist :: bool
  fs_nodes :: "nat \<rightharpoonup> fnode"
  fs_free_nids :: "nat list"
  fs_invalidated :: "nat list"
  fs_ext_drops :: "(u32 \<times> nat) list"
  fs_im :: ims
  fs_space :: 'a
  fs_bug :: bool

text \<open>The operations on the space counters: whether the node is an inode, and numbers of blocks. A reservation returns an error or the number of blocks granted.\<close>

record 'a space_ops =
  sp_inc_node :: "bool \<Rightarrow> 'a \<Rightarrow> errno option \<times> 'a"
  sp_dec_node :: "bool \<Rightarrow> 'a \<Rightarrow> 'a"
  sp_inc_inode :: "'a \<Rightarrow> 'a"
  sp_dec_inode :: "'a \<Rightarrow> 'a"
  sp_inc_blocks :: "nat \<Rightarrow> 'a \<Rightarrow> errno option \<times> 'a \<times> nat"
  sp_dec_blocks :: "nat \<Rightarrow> 'a \<Rightarrow> 'a"

record node_io =
  rd_err :: "nat \<Rightarrow> errno option"
  new_err :: "nat \<Rightarrow> errno option"
  no_alloc :: bool

record dnode_of_data =
  dn_nid :: nat
  ofs_in_node :: nat
  data_blkaddr :: nat
  cur_level :: nat
  max_level :: nat

section \<open>Access to a node\<close>

definition get_node_page :: "node_io \<Rightarrow> nat \<Rightarrow> 'a fstate \<Rightarrow> errno option" where
  "get_node_page io nid st =
     (if nid = 0 then Some ENOENT
      else case rd_err io nid of Some e \<Rightarrow> Some e
      | None \<Rightarrow> if (if nid = fs_ino st then fs_inode_blk st = None else fs_nodes st nid = None) then Some ENOENT else None)"

definition get_nid :: "nat \<Rightarrow> nat \<Rightarrow> bool \<Rightarrow> 'a fstate \<Rightarrow> nat" where
  "get_nid p off i st =
     (if i then arr_get 0 (fs_i_nid st) (off - nat NODE_DIR1_BLOCK)
      else case fs_nodes st p of None \<Rightarrow> 0 | Some n \<Rightarrow> arr_get 0 (nd_entries n) off)"

definition set_nid :: "nat \<Rightarrow> nat \<Rightarrow> nat \<Rightarrow> bool \<Rightarrow> 'a fstate \<Rightarrow> 'a fstate" where
  "set_nid p off nid i st =
     (if i then st\<lparr>fs_i_nid := (fs_i_nid st)[off - nat NODE_DIR1_BLOCK := nid]\<rparr>
      else case fs_nodes st p of None \<Rightarrow> st
           | Some n \<Rightarrow> st\<lparr>fs_nodes := (fs_nodes st)(p \<mapsto> n\<lparr>nd_entries := (nd_entries n)[off := nid]\<rparr>)\<rparr>)"

definition datablock_addr :: "nat \<Rightarrow> nat \<Rightarrow> 'a fstate \<Rightarrow> nat" where
  "datablock_addr nid off st =
     (if nid = fs_ino st then arr_get 0 (fs_addr st) off
      else case fs_nodes st nid of None \<Rightarrow> 0 | Some n \<Rightarrow> arr_get 0 (nd_entries n) off)"

definition set_data_blkaddr :: "nat \<Rightarrow> nat \<Rightarrow> nat \<Rightarrow> 'a fstate \<Rightarrow> 'a fstate" where
  "set_data_blkaddr nid off addr st =
     (if nid = fs_ino st then st\<lparr>fs_addr := (fs_addr st)[off := addr]\<rparr>
      else case fs_nodes st nid of None \<Rightarrow> st
           | Some n \<Rightarrow> st\<lparr>fs_nodes := (fs_nodes st)(nid \<mapsto> n\<lparr>nd_entries := (nd_entries n)[off := addr]\<rparr>)\<rparr>)"

definition node_ofs :: "nat \<Rightarrow> 'a fstate \<Rightarrow> u32" where
  "node_ofs nid st = (if nid = fs_ino st then 0 else case fs_nodes st nid of None \<Rightarrow> 0 | Some n \<Rightarrow> nd_ofs n)"

definition ADDRS_PER_PAGE :: "nat \<Rightarrow> 'a fstate \<Rightarrow> nat" where
  "ADDRS_PER_PAGE nid st = (if nid = fs_ino st then nat (addrs_per_inode (fs_layout st)) else nat ADDRS_PER_BLOCK)"

definition new_node_page :: "'a space_ops \<Rightarrow> node_io \<Rightarrow> nat \<Rightarrow> nat \<Rightarrow> 'a fstate \<Rightarrow> errno option \<times> 'a fstate" where
  "new_node_page sp io nid ofs st =
     (if no_alloc io then (Some EPERM, st)
      else case new_err io nid of Some e \<Rightarrow> (Some e, st)
      | None \<Rightarrow>
        (case sp_inc_node sp (ofs = 0) (fs_space st) of
           (Some e, s) \<Rightarrow> (Some e, st\<lparr>fs_space := s\<rparr>)
         | (None, s) \<Rightarrow>
             let st = st\<lparr>fs_space := s, fs_nodes := (fs_nodes st)(nid \<mapsto> \<lparr>nd_ofs = of_nat ofs, nd_blk = NEW_ADDR, nd_entries = replicate (nat NIDS_PER_BLOCK) 0\<rparr>)\<rparr>;
                 st = (if f2fs_has_xattr_block (of_nat ofs) then st\<lparr>fs_xnid := nid\<rparr> else st)
             in (None, if ofs = 0 then st\<lparr>fs_space := sp_inc_inode sp (fs_space st)\<rparr> else st)))"

section \<open>\<^verbatim>\<open>get_dnode_of_data\<close>\<close>

text \<open>
  The walk from \<open>parent\<close> along the rest of the path; \<open>i\<close> is the level of the next node. The result is the direct node or
  an error, and the level reached.
\<close>

fun dnode_walk :: "'a space_ops \<Rightarrow> node_io \<Rightarrow> bool \<Rightarrow> nat \<Rightarrow> bool \<Rightarrow> nat list \<Rightarrow> nat list \<Rightarrow> nat \<Rightarrow> 'a fstate \<Rightarrow> (errno + nat) \<times> nat \<times> 'a fstate" where
  "dnode_walk sp io alloc parent root (o1 # o2 # offs) (n # noffs) i st =
     (let nid = get_nid parent o1 root st
      in if nid = 0 \<and> alloc then
           (case fs_free_nids st of [] \<Rightarrow> (Inl ENOSPC, i, st)
            | new # free \<Rightarrow>
                (case new_node_page sp io new n (st\<lparr>fs_free_nids := free\<rparr>) of
                   (Some e, st) \<Rightarrow> (Inl e, i, st\<lparr>fs_free_nids := fs_free_nids st @ [new]\<rparr>)
                 | (None, st) \<Rightarrow> dnode_walk sp io alloc new False (o2 # offs) noffs (i + 1) (set_nid parent o1 new root st)))
         else case get_node_page io nid st of Some e \<Rightarrow> (Inl e, i, st)
              | None \<Rightarrow> dnode_walk sp io alloc nid False (o2 # offs) noffs (i + 1) st)"
| "dnode_walk sp io alloc parent root offs noffs i st = (Inr parent, i, st)"

definition get_dnode_of_data :: "'a space_ops \<Rightarrow> node_io \<Rightarrow> bool \<Rightarrow> int \<Rightarrow> 'a fstate \<Rightarrow> errno option \<times> dnode_of_data \<times> 'a fstate" where
  "get_dnode_of_data sp io alloc index st =
     (let none = \<lparr>dn_nid = 0, ofs_in_node = 0, data_blkaddr = 0, cur_level = 0, max_level = 0\<rparr>
      in case get_node_path (fs_layout st) index of Inl e \<Rightarrow> (Some e, none, st)
         | Inr (level, offset, noffset) \<Rightarrow>
             let offset = map nat offset
             in case get_node_page io (fs_ino st) st of Some e \<Rightarrow> (Some e, none, st)
             | None \<Rightarrow>
                 if fs_inline st \<noteq> None \<and> index \<noteq> 0 then (Some ENOENT, none\<lparr>max_level := level, ofs_in_node := offset ! level\<rparr>, st)
                 else
                   (case dnode_walk sp io alloc (fs_ino st) True offset (map nat (tl noffset)) 1 st of
                      (Inl e, i, st) \<Rightarrow> (Some e, if e = ENOENT then none\<lparr>cur_level := i, max_level := level, ofs_in_node := offset ! level\<rparr> else none, st)
                    | (Inr nid, i, st) \<Rightarrow>
                        (None, none\<lparr>dn_nid := nid, ofs_in_node := offset ! level, data_blkaddr := datablock_addr nid (offset ! level) st\<rparr>, st)))"

text \<open>Reservation of new blocks from \<open>ofs_in_node\<close> on; running past the node is an assertion that callers rule out.\<close>

fun reserve_loop :: "nat \<Rightarrow> nat list \<Rightarrow> nat \<Rightarrow> 'a fstate \<Rightarrow> 'a fstate" where
  "reserve_loop nid offs 0 st = st"
| "reserve_loop nid [] (Suc count) st = st\<lparr>fs_bug := True\<rparr>"
| "reserve_loop nid (ofs # offs) (Suc count) st =
     (if datablock_addr nid ofs st = NULL_ADDR then reserve_loop nid offs count (set_data_blkaddr nid ofs NEW_ADDR st)
      else reserve_loop nid offs (Suc count) st)"

definition reserve_new_blocks :: "'a space_ops \<Rightarrow> node_io \<Rightarrow> dnode_of_data \<Rightarrow> nat \<Rightarrow> 'a fstate \<Rightarrow> errno option \<times> 'a fstate" where
  "reserve_new_blocks sp io dn count st =
     (if count = 0 then (None, st)
      else if no_alloc io then (Some EPERM, st)
      else case sp_inc_blocks sp count (fs_space st) of
             (Some e, s, _) \<Rightarrow> (Some e, st\<lparr>fs_space := s\<rparr>)
           | (None, s, count) \<Rightarrow> (None, reserve_loop (dn_nid dn) [ofs_in_node dn..<ADDRS_PER_PAGE (dn_nid dn) st] count (st\<lparr>fs_space := s\<rparr>)))"

definition f2fs_reserve_block :: "'a space_ops \<Rightarrow> node_io \<Rightarrow> int \<Rightarrow> 'a fstate \<Rightarrow> errno option \<times> dnode_of_data \<times> 'a fstate" where
  "f2fs_reserve_block sp io index st =
     (case get_dnode_of_data sp io True index st of
        (Some e, dn, st) \<Rightarrow> (Some e, dn, st)
      | (None, dn, st) \<Rightarrow>
          if data_blkaddr dn = NULL_ADDR
          then (case reserve_new_blocks sp io dn 1 st of (err, st) \<Rightarrow> (err, dn\<lparr>data_blkaddr := datablock_addr (dn_nid dn) (ofs_in_node dn) st\<rparr>, st))
          else (None, dn, st))"

section \<open>Truncation\<close>

definition zap_one :: "nat \<Rightarrow> nat \<Rightarrow> 'a fstate \<times> nat \<Rightarrow> 'a fstate \<times> nat" where
  "zap_one nid ofs sn =
     (case sn of (st, nr_free) \<Rightarrow>
        let blkaddr = datablock_addr nid ofs st
        in if blkaddr = NULL_ADDR then (st, nr_free)
           else
             let st = set_data_blkaddr nid ofs NULL_ADDR st;
                 st = st\<lparr>fs_invalidated := fs_invalidated st @ [blkaddr]\<rparr>
             in (if ofs = 0 \<and> nid = fs_ino st then st\<lparr>fs_first_written := False\<rparr> else st, nr_free + 1))"

definition truncate_data_blocks_range :: "'a space_ops \<Rightarrow> nat \<Rightarrow> nat \<Rightarrow> nat \<Rightarrow> 'a fstate \<Rightarrow> 'a fstate" where
  "truncate_data_blocks_range sp nid ofs count st =
     (case fold (zap_one nid) [ofs..<ofs + count] (st, 0) of (st, nr_free) \<Rightarrow>
        if nr_free \<noteq> 0 then
          st\<lparr>fs_ext_drops := fs_ext_drops st @ [(start_bidx_of_node (node_ofs nid st) (fs_layout st) + of_nat ofs, count)],
             fs_space := sp_dec_blocks sp nr_free (fs_space st)\<rparr>
        else st)"

definition truncate_node :: "'a space_ops \<Rightarrow> nat \<Rightarrow> 'a fstate \<Rightarrow> 'a fstate" where
  "truncate_node sp nid st =
     (let inode = (nid = fs_ino st);
          blk = (if inode then (case fs_inode_blk st of None \<Rightarrow> 0 | Some b \<Rightarrow> b) else case fs_nodes st nid of None \<Rightarrow> 0 | Some n \<Rightarrow> nd_blk n);
          st = st\<lparr>fs_invalidated := fs_invalidated st @ [blk], fs_space := sp_dec_node sp inode (fs_space st)\<rparr>
      in if inode then st\<lparr>fs_inode_blk := None, fs_im := remove_orphan_inode nid (fs_im st), fs_space := sp_dec_inode sp (fs_space st)\<rparr>
         else st\<lparr>fs_nodes := (fs_nodes st)(nid := None)\<rparr>)"

text \<open>A negative return value is an \<open>Inl\<close>.\<close>

definition truncate_dnode :: "'a space_ops \<Rightarrow> node_io \<Rightarrow> nat \<Rightarrow> 'a fstate \<Rightarrow> (errno + int) \<times> 'a fstate" where
  "truncate_dnode sp io nid st =
     (if nid = 0 then (Inr 1, st)
      else case get_node_page io nid st of
             Some e \<Rightarrow> if e = ENOENT then (Inr 1, st) else (Inl e, st)
           | None \<Rightarrow> (Inr 1, truncate_node sp nid (truncate_data_blocks_range sp nid 0 (nat ADDRS_PER_BLOCK) st)))"

fun trunc_dnodes :: "'a space_ops \<Rightarrow> node_io \<Rightarrow> nat \<Rightarrow> nat list \<Rightarrow> int \<Rightarrow> 'a fstate \<Rightarrow> (errno + int) \<times> 'a fstate" where
  "trunc_dnodes sp io page [] freed st = (Inr freed, st)"
| "trunc_dnodes sp io page (i # is) freed st =
     (let child = get_nid page i False st
      in if child = 0 then trunc_dnodes sp io page is (freed + 1) st
         else case truncate_dnode sp io child st of
                (Inl e, st) \<Rightarrow> (Inl e, st)
              | (Inr _, st) \<Rightarrow> trunc_dnodes sp io page is (freed + 1) (set_nid page i 0 False st))"

fun trunc_inds :: "(nat \<Rightarrow> int \<Rightarrow> 'a fstate \<Rightarrow> (errno + int) \<times> 'a fstate) \<Rightarrow> nat \<Rightarrow> nat list \<Rightarrow> int \<Rightarrow> 'a fstate \<Rightarrow> (errno + int) \<times> 'a fstate" where
  "trunc_inds trunc page [] child_nofs st = (Inr child_nofs, st)"
| "trunc_inds trunc page (i # is) child_nofs st =
     (let child = get_nid page i False st
      in if child = 0 then trunc_inds trunc page is (child_nofs + (NIDS_PER_BLOCK + 1)) st
         else case trunc child child_nofs st of
                (Inr ret, st) \<Rightarrow>
                  if ret = NIDS_PER_BLOCK + 1 then trunc_inds trunc page is (child_nofs + ret) (set_nid page i 0 False st)
                  else trunc_inds trunc page is child_nofs st
              | (Inl e, st) \<Rightarrow> if e \<noteq> ENOENT then (Inl e, st) else trunc_inds trunc page is child_nofs st)"

function truncate_nodes :: "'a space_ops \<Rightarrow> node_io \<Rightarrow> nat \<Rightarrow> nat \<Rightarrow> int \<Rightarrow> nat \<Rightarrow> 'a fstate \<Rightarrow> (errno + int) \<times> 'a fstate" where
  "truncate_nodes sp io nid depth nofs ofs st =
     (if nid = 0 then (Inr (NIDS_PER_BLOCK + 1), st)
      else case get_node_page io nid st of Some e \<Rightarrow> (Inl e, st)
      | None \<Rightarrow>
          case (if depth < 3 then trunc_dnodes sp io nid [ofs..<nat NIDS_PER_BLOCK] 0 st
                else trunc_inds (\<lambda>child child_nofs st. truncate_nodes sp io child (depth - 1) child_nofs 0 st) nid [ofs..<nat NIDS_PER_BLOCK]
                       (nofs + int ofs * (NIDS_PER_BLOCK + 1) + 1) st) of
            (Inl e, st) \<Rightarrow> (Inl e, st)
          | (Inr freed, st) \<Rightarrow> if ofs = 0 then (Inr (freed + 1), truncate_node sp nid st) else (Inr freed, st))"
  by pat_completeness auto
termination by (relation "measure (\<lambda>(sp, io, nid, depth, nofs, ofs, st). depth)") auto

declare truncate_nodes.simps [simp del]

text \<open>The indirect node at the end of a path of \<open>idx + 1\<close> nodes.\<close>

fun partial_path :: "node_io \<Rightarrow> nat \<Rightarrow> nat list \<Rightarrow> 'a fstate \<Rightarrow> errno + nat" where
  "partial_path io nid offs st =
     (case get_node_page io nid st of Some e \<Rightarrow> Inl e
      | None \<Rightarrow> (case offs of [] \<Rightarrow> Inr nid | ofs # offs \<Rightarrow> partial_path io (get_nid nid ofs False st) offs st))"

definition truncate_partial_nodes :: "'a space_ops \<Rightarrow> node_io \<Rightarrow> nat list \<Rightarrow> nat \<Rightarrow> 'a fstate \<Rightarrow> errno option \<times> nat list \<times> 'a fstate" where
  "truncate_partial_nodes sp io offset depth st =
     (let idx = depth - 2;
          nid0 = get_nid (fs_ino st) (offset ! 0) True st
      in if nid0 = 0 then (None, offset, st)
         else case partial_path io nid0 (take idx (tl offset)) st of Inl e \<Rightarrow> (Some e, offset, st)
         | Inr page \<Rightarrow>
             (case trunc_dnodes sp io page [offset ! (idx + 1)..<nat NIDS_PER_BLOCK] 0 st of
                (Inl e, st) \<Rightarrow> (Some e, offset, st)
              | (Inr _, st) \<Rightarrow>
                  let st = (if offset ! (idx + 1) = 0 then truncate_node sp page st else st)
                  in (None, offset[idx := offset ! idx + 1, idx + 1 := 0], st)))"

text \<open>The slots of the inode from \<open>offset[0]\<close> to the double indirect node; only the first is entered at \<open>offset[1]\<close>.\<close>

fun trunc_slots :: "'a space_ops \<Rightarrow> node_io \<Rightarrow> nat list \<Rightarrow> nat \<Rightarrow> int \<Rightarrow> errno option \<Rightarrow> 'a fstate \<Rightarrow> errno option \<times> 'a fstate" where
  "trunc_slots sp io [] ofs1 nofs err st = (err, st)"
| "trunc_slots sp io (o0 # slots) ofs1 nofs err st =
     (let nid = get_nid (fs_ino st) o0 True st;
          (ret, st) = (if int o0 < NODE_IND1_BLOCK then truncate_dnode sp io nid st
                       else truncate_nodes sp io nid (if int o0 < NODE_DIND_BLOCK then 2 else 3) nofs ofs1 st)
      in case ret of
           Inl e \<Rightarrow>
             if e \<noteq> ENOENT then (Some e, st)
             else
               let st = (if ofs1 = 0 \<and> get_nid (fs_ino st) o0 True st \<noteq> 0 then set_nid (fs_ino st) o0 0 True st else st)
               in trunc_slots sp io slots 0 (nofs - 2) (Some ENOENT) st
         | Inr r \<Rightarrow>
             let st = (if ofs1 = 0 \<and> get_nid (fs_ino st) o0 True st \<noteq> 0 then set_nid (fs_ino st) o0 0 True st else st)
             in trunc_slots sp io slots 0 (nofs + r) None st)"

definition truncate_inode_blocks :: "'a space_ops \<Rightarrow> node_io \<Rightarrow> int \<Rightarrow> 'a fstate \<Rightarrow> errno option \<times> 'a fstate" where
  "truncate_inode_blocks sp io from st =
     (case get_node_path (fs_layout st) from of Inl e \<Rightarrow> (Some e, st)
      | Inr (level, off, noff) \<Rightarrow>
          (case get_node_page io (fs_ino st) st of Some e \<Rightarrow> (Some e, st)
           | None \<Rightarrow>
               let offset = map nat off;
                   nofs = (if level = 0 then 0 else if level = 3 then 5 + 2 * NIDS_PER_BLOCK else noff ! 1)
               in if level = 0 then (None, st\<lparr>fs_bug := True\<rparr>)
                  else if level = 1 \<or> offset ! (level - 1) = 0 then
                    trunc_slots sp io [offset ! 0..<Suc (nat NODE_DIND_BLOCK)] (offset ! 1) nofs None st
                  else
                    (case truncate_partial_nodes sp io offset level st of
                       (Some e, offset, st) \<Rightarrow>
                         if e \<noteq> ENOENT then (Some e, st)
                         else trunc_slots sp io [offset ! 0..<Suc (nat NODE_DIND_BLOCK)] (offset ! 1) (if level = 2 then nofs + (1 + NIDS_PER_BLOCK) else nofs) None st
                     | (None, offset, st) \<Rightarrow>
                         trunc_slots sp io [offset ! 0..<Suc (nat NODE_DIND_BLOCK)] (offset ! 1) (if level = 2 then nofs + (1 + NIDS_PER_BLOCK) else nofs) None st)))"

definition truncate_inline_data :: "nat \<Rightarrow> 'a fstate \<Rightarrow> 'a fstate" where
  "truncate_inline_data from st =
     (case fs_inline st of None \<Rightarrow> st
      | Some data \<Rightarrow>
          if from \<ge> length data then st
          else st\<lparr>fs_inline := Some (take from data @ replicate (length data - from) 0), fs_data_exist := (if from = 0 then False else fs_data_exist st)\<rparr>)"

text \<open>\<open>tail_err\<close> is the result of clearing the rest of the last page, which is in the page cache.\<close>

definition truncate_blocks :: "'a space_ops \<Rightarrow> node_io \<Rightarrow> errno option \<Rightarrow> nat \<Rightarrow> 'a fstate \<Rightarrow> errno option \<times> 'a fstate" where
  "truncate_blocks sp io tail_err from st =
     (let free_from = (int from + 4095) div 4096;
          free_partial = (\<lambda>(err, st). (if err = None then tail_err else err, st))
      in if free_from \<ge> max_file_blocks then free_partial (None, st)
         else case get_node_page io (fs_ino st) st of Some e \<Rightarrow> free_partial (Some e, st)
         | None \<Rightarrow>
             if fs_inline st \<noteq> None then free_partial (None, truncate_inline_data from st)
             else
               (case get_dnode_of_data sp io False free_from st of
                  (Some e, dn, st) \<Rightarrow> if e = ENOENT then free_partial (truncate_inode_blocks sp io free_from st) else free_partial (Some e, st)
                | (None, dn, st) \<Rightarrow>
                    let count = ADDRS_PER_PAGE (dn_nid dn) st - ofs_in_node dn
                    in if ofs_in_node dn \<noteq> 0 \<or> dn_nid dn = fs_ino st
                       then free_partial (truncate_inode_blocks sp io (free_from + int count)
                              (truncate_data_blocks_range sp (dn_nid dn) (ofs_in_node dn) count st))
                       else free_partial (truncate_inode_blocks sp io free_from st)))"

definition truncate_xattr_node :: "'a space_ops \<Rightarrow> node_io \<Rightarrow> 'a fstate \<Rightarrow> errno option \<times> 'a fstate" where
  "truncate_xattr_node sp io st =
     (let nid = fs_xnid st
      in if nid = 0 then (None, st)
         else case get_node_page io nid st of Some e \<Rightarrow> (Some e, st)
              | None \<Rightarrow> (None, truncate_node sp nid (st\<lparr>fs_xnid := 0\<rparr>)))"

text \<open>\<open>has_blocks\<close>: a regular file, a directory or a symbolic link. The assertion on the number of blocks left has no counterpart.\<close>

definition remove_inode_page :: "'a space_ops \<Rightarrow> node_io \<Rightarrow> bool \<Rightarrow> 'a fstate \<Rightarrow> errno option \<times> 'a fstate" where
  "remove_inode_page sp io has_blocks st =
     (case get_dnode_of_data sp io False 0 st of
        (Some e, dn, st) \<Rightarrow> (Some e, st)
      | (None, dn, st) \<Rightarrow>
          (case truncate_xattr_node sp io st of
             (Some e, st) \<Rightarrow> (Some e, st)
           | (None, st) \<Rightarrow>
               let st = (if has_blocks then truncate_data_blocks_range sp (dn_nid dn) (ofs_in_node dn) 1 st else st)
               in (None, truncate_node sp (dn_nid dn) st)))"

end
