(* ===== verification/Node_Shape.thy ===== *)
theory Node_Shape
  imports Node_Ops "HOL-Library.Multiset"
begin

text \<open>
  The trees of node blocks below an inode, as they are found in the node table: their node ids, their blocks and their data addresses. Truncation prunes such a
  tree: whatever read fails, what is left is a well-formed tree, the blocks given back are exactly those that left it, and no address changes except to become a hole.
\<close>

section \<open>Subtrees\<close>

definition entry :: "(nat \<rightharpoonup> fnode) \<Rightarrow> nat \<Rightarrow> nat \<Rightarrow> nat" where
  "entry N p i = (case N p of None \<Rightarrow> 0 | Some n \<Rightarrow> arr_get 0 (nd_entries n) i)"

text \<open>A subtree of height \<open>d\<close> at node \<open>c\<close>: its node ids, its blocks (of nodes and data) and the addresses in the direct node at the end of a path.\<close>

primrec sub :: "nat \<Rightarrow> (nat \<rightharpoonup> fnode) \<Rightarrow> nat \<Rightarrow> nat set" where
  "sub 0 N c = {}"
| "sub (Suc d) N c = insert c (if d = 0 then {} else \<Union>i<1018. if entry N c i = 0 then {} else sub d N (entry N c i))"

primrec tblocks :: "nat \<Rightarrow> (nat \<rightharpoonup> fnode) \<Rightarrow> nat \<Rightarrow> nat multiset" where
  "tblocks 0 N c = {#}"
| "tblocks (Suc d) N c =
     add_mset (case N c of None \<Rightarrow> 0 | Some n \<Rightarrow> nd_blk n)
       (if d = 0 then filter_mset (\<lambda>a. a \<noteq> 0) (mset (case N c of None \<Rightarrow> [] | Some n \<Rightarrow> nd_entries n))
        else \<Sum>i<1018. if entry N c i = 0 then {#} else tblocks d N (entry N c i))"

primrec dlook :: "nat \<Rightarrow> (nat \<rightharpoonup> fnode) \<Rightarrow> nat \<Rightarrow> nat list \<Rightarrow> nat list option" where
  "dlook 0 N c path = None"
| "dlook (Suc d) N c path =
     (if d = 0 then map_option nd_entries (N c)
      else case path of [] \<Rightarrow> None | i # path \<Rightarrow> if 1018 \<le> i \<or> entry N c i = 0 then None else dlook d N (entry N c i) path)"

primrec tree_ok :: "nat \<Rightarrow> (nat \<rightharpoonup> fnode) \<Rightarrow> nat \<Rightarrow> bool" where
  "tree_ok 0 N c \<longleftrightarrow> False"
| "tree_ok (Suc d) N c \<longleftrightarrow>
     c \<noteq> 0 \<and> (\<exists>n. N c = Some n \<and> length (nd_entries n) = 1018) \<and>
     (d = 0 \<or>
      (\<forall>i<1018. entry N c i \<noteq> 0 \<longrightarrow> tree_ok d N (entry N c i) \<and> c \<notin> sub d N (entry N c i)) \<and>
      (\<forall>i<1018. \<forall>j<1018. i \<noteq> j \<and> entry N c i \<noteq> 0 \<and> entry N c j \<noteq> 0 \<longrightarrow> sub d N (entry N c i) \<inter> sub d N (entry N c j) = {}))"

lemma entry_cong: "N' p = N p \<Longrightarrow> entry N' p i = entry N p i"
  by (simp add: entry_def)

lemma entry_outside: "tree_ok d N p \<Longrightarrow> 1018 \<le> i \<Longrightarrow> entry N p i = 0"
  by (cases d) (auto simp: entry_def arr_get_def)

lemma tree_agree:
  assumes "\<forall>n \<in> sub d N c. N' n = N n"
  shows "sub d N' c = sub d N c \<and> tblocks d N' c = tblocks d N c \<and> tree_ok d N' c = tree_ok d N c \<and> dlook d N' c path = dlook d N c path"
  using assms
proof (induction d arbitrary: c path)
  case (Suc d)
  have c: "N' c = N c" and e: "entry N' c i = entry N c i" for i using Suc.prems by (auto intro: entry_cong)
  show ?case
  proof (cases "d = 0")
    case True
    then show ?thesis using c by simp
  next
    case False
    have ih: "sub d N' (entry N c i) = sub d N (entry N c i) \<and> tblocks d N' (entry N c i) = tblocks d N (entry N c i) \<and>
        tree_ok d N' (entry N c i) = tree_ok d N (entry N c i) \<and> dlook d N' (entry N c i) os = dlook d N (entry N c i) os" if "entry N c i \<noteq> 0" "i < 1018" for i os
      by (rule Suc.IH) (use Suc.prems that False in auto)
    have s: "sub (Suc d) N' c = sub (Suc d) N c" using False ih by (auto simp: e)
    have t: "tblocks (Suc d) N' c = tblocks (Suc d) N c"
    proof -
      have "(\<Sum>i<1018. if entry N' c i = 0 then {#} else tblocks d N' (entry N' c i)) = (\<Sum>i<1018. if entry N c i = 0 then {#} else tblocks d N (entry N c i))"
        by (rule sum.cong [OF refl]) (use ih e in auto)
      then show ?thesis using False c by simp
    qed
    have o: "tree_ok (Suc d) N' c = tree_ok (Suc d) N c" using False c ih by (simp add: e)
    have l: "dlook (Suc d) N' c path = dlook (Suc d) N c path"
      using False ih by (cases path) (auto simp: e not_le)
    show ?thesis using s t o l by blast
  qed
qed simp

section \<open>Pruning\<close>

text \<open>From \<open>N\<close> to \<open>N'\<close> the subtree at \<open>c\<close> has lost some of its nodes, with the blocks \<open>R\<close>; or all of them.\<close>

definition pruned :: "nat \<Rightarrow> (nat \<rightharpoonup> fnode) \<Rightarrow> (nat \<rightharpoonup> fnode) \<Rightarrow> nat \<Rightarrow> nat multiset \<Rightarrow> bool" where
  "pruned d N N' c R \<longleftrightarrow>
     (\<forall>n. n \<notin> sub d N c \<longrightarrow> N' n = N n) \<and> tree_ok d N' c \<and> sub d N' c \<subseteq> sub d N c \<and> (\<forall>n \<in> sub d N c - sub d N' c. N' n = None) \<and>
     R + tblocks d N' c = tblocks d N c \<and> (\<forall>path. dlook d N' c path = dlook d N c path \<or> dlook d N' c path = None)"

definition gone :: "nat \<Rightarrow> (nat \<rightharpoonup> fnode) \<Rightarrow> (nat \<rightharpoonup> fnode) \<Rightarrow> nat \<Rightarrow> nat multiset \<Rightarrow> bool" where
  "gone d N N' c R \<longleftrightarrow> (\<forall>n. N' n = (if n \<in> sub d N c then None else N n)) \<and> R = tblocks d N c"

lemma pruned_refl: "tree_ok d N c \<Longrightarrow> pruned d N N c {#}"
  by (simp add: pruned_def)

lemma pruned_trans:
  assumes "pruned d N N1 c R1" "pruned d N1 N2 c R2"
  shows "pruned d N N2 c (R1 + R2)"
proof -
  have a: "\<And>n. n \<notin> sub d N c \<Longrightarrow> N1 n = N n" "sub d N1 c \<subseteq> sub d N c" "\<And>n. n \<in> sub d N c - sub d N1 c \<Longrightarrow> N1 n = None"
    "R1 + tblocks d N1 c = tblocks d N c" "\<And>path. dlook d N1 c path = dlook d N c path \<or> dlook d N1 c path = None"
    using assms(1) unfolding pruned_def by (blast, blast, blast, simp, simp)
  have b: "\<And>n. n \<notin> sub d N1 c \<Longrightarrow> N2 n = N1 n" "tree_ok d N2 c" "sub d N2 c \<subseteq> sub d N1 c" "\<And>n. n \<in> sub d N1 c - sub d N2 c \<Longrightarrow> N2 n = None"
    "R2 + tblocks d N2 c = tblocks d N1 c" "\<And>path. dlook d N2 c path = dlook d N1 c path \<or> dlook d N2 c path = None"
    using assms(2) unfolding pruned_def by (blast, blast, blast, blast, simp, simp)
  have "N2 n = N n" if "n \<notin> sub d N c" for n using a(1,2) b(1) that by (metis subsetD)
  moreover have "sub d N2 c \<subseteq> sub d N c" using a(2) b(3) by blast
  moreover have "N2 n = None" if "n \<in> sub d N c - sub d N2 c" for n
    using that a(3) [of n] b(1) [of n] b(4) [of n] by (cases "n \<in> sub d N1 c") auto
  moreover have "R1 + R2 + tblocks d N2 c = tblocks d N c" using a(4) b(5) by (simp add: add.assoc)
  moreover have "dlook d N2 c path = dlook d N c path \<or> dlook d N2 c path = None" for path using a(5) [of path] b(6) [of path] by auto
  ultimately show ?thesis unfolding pruned_def using b(2) by blast
qed

text \<open>What happens to a node when something happens to one of its children.\<close>

lemma child_step:
  assumes ok: "tree_ok (Suc d) N p" and d: "0 < d" and i: "i < 1018" and c: "c = entry N p i" "c \<noteq> 0" and n: "N p = Some n"
    and same: "\<forall>m. m \<notin> sub d N c \<and> m \<noteq> p \<longrightarrow> N2 m = N m" and p: "N2 p = Some (n\<lparr>nd_entries := (nd_entries n)[i := v]\<rparr>)"
    and v: "v = 0 \<and> (\<forall>m \<in> sub d N c. N2 m = None) \<and> R = tblocks d N c \<or>
      v = c \<and> tree_ok d N2 c \<and> sub d N2 c \<subseteq> sub d N c \<and> (\<forall>m \<in> sub d N c - sub d N2 c. N2 m = None) \<and> R + tblocks d N2 c = tblocks d N c \<and>
        (\<forall>path. dlook d N2 c path = dlook d N c path \<or> dlook d N2 c path = None)"
  shows "pruned (Suc d) N N2 p R" "entry N2 p j = (if j = i then v else entry N p j)"
    "j \<noteq> i \<Longrightarrow> dlook (Suc d) N2 p (j # os) = dlook (Suc d) N p (j # os)"
proof -
  let ?e = "entry N p"
  have len: "length (nd_entries n) = 1018" and p0: "p \<noteq> 0" using ok n by auto
  have ch: "\<And>j. j < 1018 \<Longrightarrow> ?e j \<noteq> 0 \<Longrightarrow> tree_ok d N (?e j) \<and> p \<notin> sub d N (?e j)"
    and dis: "\<And>j k. j < 1018 \<Longrightarrow> k < 1018 \<Longrightarrow> j \<noteq> k \<Longrightarrow> ?e j \<noteq> 0 \<Longrightarrow> ?e k \<noteq> 0 \<Longrightarrow> sub d N (?e j) \<inter> sub d N (?e k) = {}"
    using ok d by auto
  show e2: "entry N2 p j = (if j = i then v else ?e j)" for j
    using p n len i by (auto simp: entry_def arr_get_update)
  have oth: "sub d N2 (?e j) = sub d N (?e j) \<and> tblocks d N2 (?e j) = tblocks d N (?e j) \<and> tree_ok d N2 (?e j) = tree_ok d N (?e j) \<and>
      dlook d N2 (?e j) os = dlook d N (?e j) os" if "j < 1018" "j \<noteq> i" "?e j \<noteq> 0" for j os
  proof (rule tree_agree, rule ballI)
    fix m assume "m \<in> sub d N (?e j)"
    then have "m \<notin> sub d N c" "m \<noteq> p" using dis [of j i] ch [of j] that i c by auto
    then show "N2 m = N m" using same by blast
  qed
  show "j \<noteq> i \<Longrightarrow> dlook (Suc d) N2 p (j # os) = dlook (Suc d) N p (j # os)" for j os
    using oth [of j os] d by (simp add: e2)
  have cp: "p \<notin> sub d N c" using ch [OF i] c by simp
  have S: "sub (Suc d) N2 p = insert p ((if v = 0 then {} else sub d N2 c) \<union> (\<Union>j\<in>{..<1018} - {i}. if ?e j = 0 then {} else sub d N (?e j)))"
  proof -
    have "(\<Union>j<1018. if entry N2 p j = 0 then {} else sub d N2 (entry N2 p j)) =
        (if v = 0 then {} else sub d N2 v) \<union> (\<Union>j\<in>{..<1018} - {i}. if entry N2 p j = 0 then {} else sub d N2 (entry N2 p j))"
      using i e2 [of i] by (subst insert_Diff [of i "{..<1018}", symmetric]) auto
    also have "(\<Union>j\<in>{..<1018} - {i}. if entry N2 p j = 0 then {} else sub d N2 (entry N2 p j)) = (\<Union>j\<in>{..<1018} - {i}. if ?e j = 0 then {} else sub d N (?e j))"
      by (rule SUP_cong) (use oth e2 in auto)
    finally show ?thesis using d v c(2) by auto
  qed
  have S0: "sub (Suc d) N p = insert p (sub d N c \<union> (\<Union>j\<in>{..<1018} - {i}. if ?e j = 0 then {} else sub d N (?e j)))"
  proof -
    have "(\<Union>j<1018. if ?e j = 0 then {} else sub d N (?e j)) = sub d N c \<union> (\<Union>j\<in>{..<1018} - {i}. if ?e j = 0 then {} else sub d N (?e j))"
      using i c by (subst insert_Diff [of i "{..<1018}", symmetric]) auto
    then show ?thesis using d by simp
  qed
  have vs: "(if v = 0 then {} else sub d N2 c) \<subseteq> sub d N c" "\<forall>m \<in> sub d N c - (if v = 0 then {} else sub d N2 c). N2 m = None"
    using v c(2) by auto
  have T: "R + tblocks (Suc d) N2 p = tblocks (Suc d) N p"
  proof -
    have m: "(\<Sum>j<1018. if entry N2 p j = 0 then {#} else tblocks d N2 (entry N2 p j)) = (if v = 0 then {#} else tblocks d N2 v) + (\<Sum>j\<in>{..<1018} - {i}. if ?e j = 0 then {#} else tblocks d N (?e j))"
    proof -
      have "(\<Sum>j\<in>{..<1018} - {i}. if entry N2 p j = 0 then {#} else tblocks d N2 (entry N2 p j)) = (\<Sum>j\<in>{..<1018} - {i}. if ?e j = 0 then {#} else tblocks d N (?e j))"
        by (rule sum.cong [OF refl]) (use oth e2 in auto)
      then show ?thesis using i e2 [of i] by (subst sum.remove [of "{..<1018}" i]) auto
    qed
    have "(\<Sum>j<1018. if ?e j = 0 then {#} else tblocks d N (?e j)) = tblocks d N c + (\<Sum>j\<in>{..<1018} - {i}. if ?e j = 0 then {#} else tblocks d N (?e j))"
      using i c by (subst sum.remove [of "{..<1018}" i]) auto
    moreover have "R + (if v = 0 then {#} else tblocks d N2 v) = tblocks d N c" using v c(2) by auto
    ultimately show ?thesis using d n p m by (simp add: add.assoc [symmetric])
  qed
  have O: "tree_ok (Suc d) N2 p"
  proof -
    have "tree_ok d N2 (entry N2 p j) \<and> p \<notin> sub d N2 (entry N2 p j)" if "j < 1018" "entry N2 p j \<noteq> 0" for j
      using that oth [of j] ch [of j] v vs cp by (auto simp: e2 split: if_splits)
    moreover have "sub d N2 (entry N2 p j) \<inter> sub d N2 (entry N2 p k) = {}" if "j < 1018" "k < 1018" "j \<noteq> k" "entry N2 p j \<noteq> 0" "entry N2 p k \<noteq> 0" for j k
    proof -
      have s: "sub d N2 (entry N2 p l) \<subseteq> sub d N (?e l)" "?e l \<noteq> 0" if "l < 1018" "entry N2 p l \<noteq> 0" for l
        using that oth [of l] v c by (auto simp: e2 split: if_splits)
      show ?thesis using s [of j] s [of k] dis [of j k] that by blast
    qed
    ultimately show ?thesis using p0 p len by simp
  qed
  have L: "dlook (Suc d) N2 p path = dlook (Suc d) N p path \<or> dlook (Suc d) N2 p path = None" for path
  proof (cases path)
    case (Cons j os)
    then show ?thesis using oth [of j os] d v c i by (cases "j = i") (auto simp: e2)
  qed (use d in simp)
  show "pruned (Suc d) N N2 p R"
    unfolding pruned_def S S0 using same vs T O L by auto
qed

section \<open>Data blocks of a node\<close>

definition addrs_of :: "nat \<Rightarrow> 'a fstate \<Rightarrow> nat list" where
  "addrs_of nid st = (if nid = fs_ino st then fs_addr st else case fs_nodes st nid of None \<Rightarrow> [] | Some n \<Rightarrow> nd_entries n)"

definition with_addrs :: "nat \<Rightarrow> nat list \<Rightarrow> 'a fstate \<Rightarrow> 'a fstate" where
  "with_addrs nid es st =
     (if nid = fs_ino st then st\<lparr>fs_addr := es\<rparr> else case fs_nodes st nid of None \<Rightarrow> st | Some n \<Rightarrow> st\<lparr>fs_nodes := (fs_nodes st)(nid \<mapsto> n\<lparr>nd_entries := es\<rparr>)\<rparr>)"

lemma datablock_addr_of: "datablock_addr nid o1 st = arr_get 0 (addrs_of nid st) o1"
  by (simp add: datablock_addr_def addrs_of_def arr_get_def split: option.split)

lemma set_data_with: "set_data_blkaddr nid o1 a st = with_addrs nid ((addrs_of nid st)[o1 := a]) st"
  by (simp add: set_data_blkaddr_def with_addrs_def addrs_of_def split: option.split)

lemma with_frame [simp]:
  "fs_ino (with_addrs nid es st) = fs_ino st" "fs_invalidated (with_addrs nid es st) = fs_invalidated st" "fs_first_written (with_addrs nid es st) = fs_first_written st"
  "fs_ext_drops (with_addrs nid es st) = fs_ext_drops st" "fs_layout (with_addrs nid es st) = fs_layout st" "fs_space (with_addrs nid es st) = fs_space st"
  by (simp_all add: with_addrs_def split: option.split)

lemma with_upd [simp]:
  "with_addrs nid es (st\<lparr>fs_invalidated := x, fs_first_written := y\<rparr>) = (with_addrs nid es st)\<lparr>fs_invalidated := x, fs_first_written := y\<rparr>"
  by (simp add: with_addrs_def split: option.split)

lemma with_with: "with_addrs nid es (with_addrs nid es' st) = with_addrs nid es st"
  by (auto simp: with_addrs_def split: option.split)

lemma addrs_with: "addrs_of nid st \<noteq> [] \<Longrightarrow> addrs_of nid (with_addrs nid es st) = es"
  by (auto simp: with_addrs_def addrs_of_def split: option.split)

lemma addrs_upd [simp]: "addrs_of nid (st\<lparr>fs_invalidated := x, fs_first_written := y\<rparr>) = addrs_of nid st"
  by (simp add: addrs_of_def)

lemma with_same: "addrs_of nid st \<noteq> [] \<Longrightarrow> with_addrs nid (addrs_of nid st) st = st"
  by (auto simp: with_addrs_def addrs_of_def fun_upd_idem split: option.split)

definition zero_range :: "nat \<Rightarrow> nat \<Rightarrow> nat list \<Rightarrow> nat list" where
  "zero_range a b es = map (\<lambda>i. if a \<le> i \<and> i < b then 0 else es ! i) [0..<length es]"

lemma length_zero_range [simp]: "length (zero_range a b es) = length es"
  by (simp add: zero_range_def)

lemma nth_zero_range: "i < length es \<Longrightarrow> zero_range a b es ! i = (if a \<le> i \<and> i < b then 0 else es ! i)"
  by (simp add: zero_range_def)

lemma arr_zero_range: "arr_get 0 (zero_range a b es) i = (if a \<le> i \<and> i < b then 0 else arr_get 0 es i)"
  by (simp add: arr_get_def nth_zero_range)

lemma zero_range_empty [simp]: "zero_range a a es = es"
  by (auto intro!: nth_equalityI simp: nth_zero_range)

lemma zero_range_Suc: "a \<le> b \<Longrightarrow> (zero_range a b es)[b := 0] = zero_range a (Suc b) es"
  by (rule nth_equalityI) (auto simp: nth_list_update nth_zero_range less_Suc_eq)

lemma zero_range_skip: "a \<le> b \<Longrightarrow> arr_get 0 es b = 0 \<Longrightarrow> zero_range a (Suc b) es = zero_range a b es"
  by (rule nth_equalityI) (auto simp: nth_zero_range arr_get_def less_Suc_eq)

lemma zap_fold:
  assumes "a \<le> b" and ne: "addrs_of nid st \<noteq> []"
  defines "es \<equiv> addrs_of nid st"
  defines "gone_list \<equiv> filter (\<lambda>x. x \<noteq> 0) (map (arr_get 0 es) [a..<b])"
  shows "fold (zap_one nid) [a..<b] (st, k) =
    ((with_addrs nid (zero_range a b es) st)\<lparr>fs_invalidated := fs_invalidated st @ gone_list,
       fs_first_written := (fs_first_written st \<and> \<not> (nid = fs_ino st \<and> a = 0 \<and> 0 < b \<and> arr_get 0 es 0 \<noteq> 0))\<rparr>, k + length gone_list)"
  using assms(1) unfolding gone_list_def
proof (induction rule: dec_induct)
  case base
  show ?case using with_same [OF ne] by (cases st) (auto simp: es_def)
next
  case (step m)
  let ?st = "(with_addrs nid (zero_range a m es) st)\<lparr>fs_invalidated := fs_invalidated st @ filter (\<lambda>x. x \<noteq> 0) (map (arr_get 0 es) [a..<m]),
       fs_first_written := (fs_first_written st \<and> \<not> (nid = fs_ino st \<and> a = 0 \<and> 0 < m \<and> arr_get 0 es 0 \<noteq> 0))\<rparr>"
  have ad: "addrs_of nid ?st = zero_range a m es" using addrs_with [OF ne] by simp
  have at: "datablock_addr nid m ?st = arr_get 0 es m" unfolding datablock_addr_of ad by (simp add: arr_zero_range)
  have e: "[a..<Suc m] = [a..<m] @ [m]" using step.hyps by simp
  have f: "fold (zap_one nid) [a..<Suc m] (st, k) = zap_one nid m (?st, k + length (filter (\<lambda>x. x \<noteq> 0) (map (arr_get 0 es) [a..<m])))"
    by (simp only: e fold_append o_apply step.IH fold_simps)
  show ?case
  proof (cases "arr_get 0 es m = 0")
    case True
    then have "m = 0 \<longrightarrow> a = 0 \<and> arr_get 0 es 0 = 0" using step.hyps by auto
    then show ?thesis unfolding f unfolding zap_one_def using True at step.hyps
      by (cases "m = 0") (auto simp: NULL_ADDR_def zero_range_skip e)
  next
    case False
    have "set_data_blkaddr nid m 0 ?st = (with_addrs nid (zero_range a (Suc m) es) st)\<lparr>fs_invalidated := fs_invalidated ?st, fs_first_written := fs_first_written ?st\<rparr>"
      unfolding set_data_with ad zero_range_Suc [OF step.hyps(1)] by (simp add: with_with)
    then show ?thesis unfolding f unfolding zap_one_def using at False step.hyps
      by (cases "m = 0") (auto simp: NULL_ADDR_def e Let_def)
  qed
qed

section \<open>Direct nodes\<close>

text \<open>The part of the state that truncation of the nodes below the inode does not touch.\<close>

definition file_part :: "'a fstate \<Rightarrow> nat \<times> addr_layout \<times> u8 list option \<times> nat option \<times> nat list \<times> nat list \<times> nat \<times> bool \<times> bool \<times> nat list \<times> ims \<times> bool" where
  "file_part st = (fs_ino st, fs_layout st, fs_inline st, fs_inode_blk st, fs_addr st, fs_i_nid st, fs_xnid st, fs_first_written st, fs_data_exist st,
     fs_free_nids st, fs_im st, fs_bug st)"

definition pruned_st :: "nat \<Rightarrow> 'a fstate \<Rightarrow> 'a fstate \<Rightarrow> nat \<Rightarrow> bool" where
  "pruned_st d st st' c \<longleftrightarrow> file_part st' = file_part st \<and> (\<exists>R. pruned d (fs_nodes st) (fs_nodes st') c R \<and> mset (fs_invalidated st') = mset (fs_invalidated st) + R)"

definition gone_st :: "nat \<Rightarrow> 'a fstate \<Rightarrow> 'a fstate \<Rightarrow> nat \<Rightarrow> bool" where
  "gone_st d st st' c \<longleftrightarrow> file_part st' = file_part st \<and> gone d (fs_nodes st) (fs_nodes st') c (tblocks d (fs_nodes st) c) \<and>
     mset (fs_invalidated st') = mset (fs_invalidated st) + tblocks d (fs_nodes st) c"

definition io_ok :: "node_io \<Rightarrow> bool" where
  "io_ok io \<longleftrightarrow> (\<forall>n. rd_err io n \<noteq> Some ENOENT)"

lemma pruned_stI: "file_part st' = file_part st \<Longrightarrow> pruned d (fs_nodes st) (fs_nodes st') c R \<Longrightarrow> mset (fs_invalidated st') = mset (fs_invalidated st) + R \<Longrightarrow> pruned_st d st st' c"
  unfolding pruned_st_def by blast

lemma pruned_st_refl: "tree_ok d (fs_nodes st) c \<Longrightarrow> pruned_st d st st c"
  using pruned_refl by (fastforce simp: pruned_st_def)

lemma pruned_st_trans: "pruned_st d st st1 c \<Longrightarrow> pruned_st d st1 st2 c \<Longrightarrow> pruned_st d st st2 c"
  unfolding pruned_st_def using pruned_trans by (metis add.assoc)

lemma pruned_st_ok: "pruned_st d st st' c \<Longrightarrow> tree_ok d (fs_nodes st') c"
  by (auto simp: pruned_st_def pruned_def)

lemma tree_page:
  assumes "tree_ok d (fs_nodes st) c" "c \<noteq> fs_ino st"
  shows "get_node_page io c st = rd_err io c"
  using assms by (cases d) (auto simp: get_node_page_def split: option.split)

lemma filter_range:
  assumes "length es = n"
  shows "filter P (map (arr_get 0 es) [0..<n]) = filter P es"
proof -
  have "map (arr_get 0 es) [0..<n] = es" using assms by (intro nth_equalityI) (auto simp: arr_get_def)
  then show ?thesis by simp
qed

lemma truncate_dnode_ok:
  assumes ok: "tree_ok 1 (fs_nodes st) c" and c: "c \<noteq> fs_ino st" and io: "io_ok io" and t: "truncate_dnode sp io c st = (ret, st')"
  shows "case rd_err io c of None \<Rightarrow> ret = Inr 1 \<and> gone_st 1 st st' c | Some e \<Rightarrow> ret = Inl e \<and> e \<noteq> ENOENT \<and> st' = st"
proof (cases "rd_err io c")
  case None
  obtain n where n: "fs_nodes st c = Some n" "length (nd_entries n) = 1018" and c0: "c \<noteq> 0" using ok by auto
  have a: "addrs_of c st = nd_entries n" using n c by (simp add: addrs_of_def)
  then have ne: "addrs_of c st \<noteq> []" using n(2) by auto
  let ?L = "filter (\<lambda>x. x \<noteq> 0) (nd_entries n)"
  let ?st1 = "(with_addrs c (zero_range 0 1018 (nd_entries n)) st)\<lparr>fs_invalidated := fs_invalidated st @ ?L, fs_first_written := fs_first_written st\<rparr>"
  have z: "fold (zap_one c) [0..<0 + nat ADDRS_PER_BLOCK] (st, 0) = (?st1, length ?L)"
    using zap_fold [of 0 1018 c st 0] ne n(2) c by (simp add: a filter_range)
  have f1: "file_part ?st1 = file_part st" "fs_nodes ?st1 = (fs_nodes st)(c \<mapsto> n\<lparr>nd_entries := zero_range 0 1018 (nd_entries n)\<rparr>)"
    using n c by (simp_all add: file_part_def with_addrs_def)
  define st2 where "st2 = truncate_data_blocks_range sp c 0 (nat ADDRS_PER_BLOCK) st"
  have f2: "file_part st2 = file_part st" "fs_nodes st2 = fs_nodes ?st1" "fs_invalidated st2 = fs_invalidated st @ ?L"
    using f1(1) unfolding st2_def truncate_data_blocks_range_def z by (simp_all add: file_part_def)
  have i2: "fs_ino st2 = fs_ino st" using f2(1) by (simp add: file_part_def)
  have r: "ret = Inr 1" "st' = truncate_node sp c st2"
    using t None c0 tree_page [OF ok c, of io] by (simp_all add: truncate_dnode_def st2_def)
  have blk: "(case fs_nodes st2 c of None \<Rightarrow> 0 | Some n \<Rightarrow> nd_blk n) = nd_blk n" using f1(2) f2(2) by simp
  have inv: "fs_invalidated st' = fs_invalidated st @ ?L @ [nd_blk n]" "fs_nodes st' = (fs_nodes st2)(c := None)" "file_part st' = file_part st"
    unfolding r(2) truncate_node_def Let_def using c i2 blk f2 by (simp_all add: file_part_def)
  have "fs_nodes st' = (fs_nodes st)(c := None)" unfolding inv(2) f2(2) f1(2) by simp
  then have "gone_st 1 st st' c" using inv n by (simp add: gone_st_def gone_def fun_eq_iff)
  then show ?thesis using None r(1) by simp
next
  case (Some e)
  have "e \<noteq> ENOENT" using io Some by (auto simp: io_ok_def)
  moreover have "c \<noteq> 0" using ok by simp
  ultimately show ?thesis using t Some tree_page [OF ok c, of io] by (simp add: truncate_dnode_def)
qed

section \<open>The children of an indirect node\<close>

lemma get_nid_entry: "get_nid p i False st = entry (fs_nodes st) p i"
  by (simp add: get_nid_def entry_def split: option.split)

definition read_fails :: "node_io \<Rightarrow> errno \<Rightarrow> bool" where
  "read_fails io e \<longleftrightarrow> e \<noteq> ENOENT \<and> (\<exists>n. rd_err io n = Some e)"

text \<open>Only the children in \<open>is\<close> were touched.\<close>

definition kids :: "nat \<Rightarrow> 'a fstate \<Rightarrow> 'a fstate \<Rightarrow> nat \<Rightarrow> nat list \<Rightarrow> bool" where
  "kids d st st' p is \<longleftrightarrow> pruned_st (Suc d) st st' p \<and>
     (\<forall>j. j \<notin> set is \<longrightarrow> entry (fs_nodes st') p j = entry (fs_nodes st) p j \<and>
        (\<forall>os. dlook (Suc d) (fs_nodes st') p (j # os) = dlook (Suc d) (fs_nodes st) p (j # os)))"

lemma kids_refl: "tree_ok (Suc d) (fs_nodes st) p \<Longrightarrow> kids d st st p is"
  unfolding kids_def using pruned_st_refl by blast

lemma kids_trans: "kids d st st1 p [i] \<Longrightarrow> kids d st1 st2 p is \<Longrightarrow> kids d st st2 p (i # is)"
  unfolding kids_def using pruned_st_trans by auto

lemma kids_one:
  assumes "pruned_st (Suc d) st st' p" "\<And>j. j \<noteq> i \<Longrightarrow> entry (fs_nodes st') p j = entry (fs_nodes st) p j"
    "\<And>j os. j \<noteq> i \<Longrightarrow> dlook (Suc d) (fs_nodes st') p (j # os) = dlook (Suc d) (fs_nodes st) p (j # os)"
  shows "kids d st st' p [i]"
  unfolding kids_def using assms by (auto simp del: dlook.simps)

lemma pruned_st_sub: "pruned_st d st st' c \<Longrightarrow> sub d (fs_nodes st') c \<subseteq> sub d (fs_nodes st) c"
  by (auto simp: pruned_st_def pruned_def)

lemma pruned_st_file: "pruned_st d st st' c \<Longrightarrow> fs_ino st' = fs_ino st"
  by (simp add: pruned_st_def file_part_def)

lemma child_facts:
  assumes ok: "tree_ok (Suc d) (fs_nodes st) p" and d: "0 < d" and i: "i < 1018" and c: "c = entry (fs_nodes st) p i" "c \<noteq> 0"
  shows "tree_ok d (fs_nodes st) c" "p \<notin> sub d (fs_nodes st) c" "sub d (fs_nodes st) c \<subseteq> sub (Suc d) (fs_nodes st) p" "c \<in> sub d (fs_nodes st) c"
proof -
  have "\<forall>i<1018. entry (fs_nodes st) p i \<noteq> 0 \<longrightarrow> tree_ok d (fs_nodes st) (entry (fs_nodes st) p i) \<and> p \<notin> sub d (fs_nodes st) (entry (fs_nodes st) p i)"
    using ok d by simp
  then show "tree_ok d (fs_nodes st) c" "p \<notin> sub d (fs_nodes st) c" using i c by blast+
  have "sub d (fs_nodes st) c \<subseteq> (\<Union>i<1018. if entry (fs_nodes st) p i = 0 then {} else sub d (fs_nodes st) (entry (fs_nodes st) p i))"
    using i c by (intro subset_trans [OF _ UN_upper [of i]]) simp_all
  then show "sub d (fs_nodes st) c \<subseteq> sub (Suc d) (fs_nodes st) p" using d by simp blast
  show "c \<in> sub d (fs_nodes st) c" using d by (cases d) simp_all
qed

lemma child_gone:
  assumes ok: "tree_ok (Suc d) (fs_nodes st) p" and d: "0 < d" and i: "i < 1018" and c: "c = entry (fs_nodes st) p i" "c \<noteq> 0" and g: "gone_st d st st1 c"
  shows "kids d st (set_nid p i 0 False st1) p [i]" "entry (fs_nodes (set_nid p i 0 False st1)) p i = 0"
proof -
  obtain n where n: "fs_nodes st p = Some n" using ok by auto
  note C = child_facts [OF ok d i c]
  let ?N = "fs_nodes st" and ?N2 = "fs_nodes (set_nid p i 0 False st1)"
  have G: "\<And>m. fs_nodes st1 m = (if m \<in> sub d ?N c then None else ?N m)" "mset (fs_invalidated st1) = mset (fs_invalidated st) + tblocks d ?N c" "file_part st1 = file_part st"
    using g unfolding gone_st_def gone_def by blast+
  have p1: "fs_nodes st1 p = Some n" using G(1) C(2) n by simp
  have N2: "?N2 = (fs_nodes st1)(p \<mapsto> n\<lparr>nd_entries := (nd_entries n)[i := 0]\<rparr>)" by (simp add: set_nid_def p1)
  have a: "\<forall>m. m \<notin> sub d ?N c \<and> m \<noteq> p \<longrightarrow> ?N2 m = ?N m" "?N2 p = Some (n\<lparr>nd_entries := (nd_entries n)[i := 0]\<rparr>)" "\<forall>m \<in> sub d ?N c. ?N2 m = None"
    unfolding N2 using G(1) C(2) by auto
  note S = child_step [OF ok d i c n a(1,2), of "tblocks d ?N c"]
  have v: "(0::nat) = 0 \<and> (\<forall>m \<in> sub d ?N c. ?N2 m = None) \<and> tblocks d ?N c = tblocks d ?N c" using a(3) by simp
  have fp: "file_part (set_nid p i 0 False st1) = file_part st" "fs_invalidated (set_nid p i 0 False st1) = fs_invalidated st1"
    using G(3) by (simp_all add: set_nid_def p1 file_part_def)
  have "pruned_st (Suc d) st (set_nid p i 0 False st1) p" 
    by (rule pruned_stI [OF fp(1) S(1) [OF disjI1 [OF v]]]) (simp add: fp(2) G(2))
  then show "kids d st (set_nid p i 0 False st1) p [i]"
    using S(3) [OF disjI1 [OF v]] S(2) [OF disjI1 [OF v]] by (intro kids_one) (auto simp del: dlook.simps)
  show "entry ?N2 p i = 0" using S(2) [OF disjI1 [OF v], of i] by simp
qed

lemma child_pruned:
  assumes ok: "tree_ok (Suc d) (fs_nodes st) p" and d: "0 < d" and i: "i < 1018" and c: "c = entry (fs_nodes st) p i" "c \<noteq> 0" and g: "pruned_st d st st1 c"
  shows "kids d st st1 p [i]"
proof -
  obtain n where n: "fs_nodes st p = Some n" and l: "length (nd_entries n) = 1018" using ok by auto
  note C = child_facts [OF ok d i c]
  let ?N = "fs_nodes st" and ?N2 = "fs_nodes st1"
  obtain R where G: "file_part st1 = file_part st" "pruned d ?N ?N2 c R" "mset (fs_invalidated st1) = mset (fs_invalidated st) + R"
    using g unfolding pruned_st_def by blast
  have P: "\<forall>m. m \<notin> sub d ?N c \<longrightarrow> ?N2 m = ?N m" using G(2) unfolding pruned_def by blast
  have id: "(nd_entries n)[i := c] = nd_entries n" using c n l i by (simp add: entry_def list_update_same_conv)
  have a: "\<forall>m. m \<notin> sub d ?N c \<and> m \<noteq> p \<longrightarrow> ?N2 m = ?N m" "?N2 p = Some (n\<lparr>nd_entries := (nd_entries n)[i := c]\<rparr>)"
    using P C(2) n by (auto simp: id)
  note S = child_step [OF ok d i c n a, of R]
  have v: "c = c \<and> tree_ok d ?N2 c \<and> sub d ?N2 c \<subseteq> sub d ?N c \<and> (\<forall>m \<in> sub d ?N c - sub d ?N2 c. ?N2 m = None) \<and> R + tblocks d ?N2 c = tblocks d ?N c \<and>
      (\<forall>path. dlook d ?N2 c path = dlook d ?N c path \<or> dlook d ?N2 c path = None)"
    using G(2) unfolding pruned_def by simp
  have "pruned_st (Suc d) st st1 p" 
    by (rule pruned_stI [OF G(1) S(1) [OF disjI2 [OF v]] G(3)])
  then show "kids d st st1 p [i]"
    using S(3) [OF disjI2 [OF v]] S(2) [OF disjI2 [OF v]] by (intro kids_one) (auto simp del: dlook.simps)
qed

end
