(* ===== verification/Node_Trunc.thy ===== *)
theory Node_Trunc
  imports Node_Shape
begin

text \<open>
  Truncation of the node blocks of a file (\<^verbatim>\<open>node.c\<close>, \<^verbatim>\<open>file.c\<close>): one tree, the five trees of the inode, and the whole file.
\<close>

section \<open>One tree\<close>

declare dlook.simps [simp del] sub.simps [simp del] tblocks.simps [simp del] tree_ok.simps [simp del]

lemma tree_ok_len: "tree_ok d N p \<Longrightarrow> \<exists>n. N p = Some n \<and> length (nd_entries n) = 1018"
  by (cases d) (auto simp: tree_ok.simps)

lemma kids_ok: "kids d st st' p is \<Longrightarrow> tree_ok (Suc d) (fs_nodes st') p"
  by (auto simp: kids_def dest: pruned_st_ok)

lemma kids_sub: "kids d st st' p is \<Longrightarrow> sub (Suc d) (fs_nodes st') p \<subseteq> sub (Suc d) (fs_nodes st) p"
  by (auto simp: kids_def dest: pruned_st_sub)

lemma kids_ino: "kids d st st' p is \<Longrightarrow> fs_ino st' = fs_ino st"
  by (auto simp: kids_def dest: pruned_st_file)

lemma kids_mono: "kids d st st' p [i] \<Longrightarrow> kids d st st' p (i # is)"
  by (simp add: kids_def)

lemma kids_skip: "kids d st st' p is \<Longrightarrow> kids d st st' p (i # is)"
  by (simp add: kids_def)

lemma trunc_dnodes_ok:
  assumes "tree_ok 2 (fs_nodes st) p" "fs_ino st \<notin> sub 2 (fs_nodes st) p" "io_ok io" "set is \<subseteq> {..<1018}" "trunc_dnodes sp io p is freed st = (ret, st')"
  shows "kids 1 st st' p is \<and>
    (case ret of Inr r \<Rightarrow> r = freed + int (length is) \<and> (\<forall>i \<in> set is. entry (fs_nodes st') p i = 0) | Inl e \<Rightarrow> read_fails io e)"
  using assms
proof (induction "is" arbitrary: freed st)
  case Nil
  then show ?case using kids_refl [of 1 st p "[]"] by (auto simp: numeral_2_eq_2)
next
  case (Cons i "is")
  have two: "(2::nat) = Suc 1" by simp
  let ?c = "entry (fs_nodes st) p i"
  have i: "i < 1018" and isb: "set is \<subseteq> {..<1018}" using Cons.prems(4) by auto
  have ok: "tree_ok (Suc 1) (fs_nodes st) p" and ino: "fs_ino st \<notin> sub (Suc 1) (fs_nodes st) p" using Cons.prems(1,2) unfolding two by simp_all
  show ?case
  proof (cases "?c = 0")
    case True
    then have "trunc_dnodes sp io p is (freed + 1) st = (ret, st')" using Cons.prems(5) by (simp add: get_nid_entry)
    note IH = Cons.IH [OF Cons.prems(1-3) isb this]
    have "entry (fs_nodes st') p i = 0" if "\<forall>i \<in> set is. entry (fs_nodes st') p i = 0"
      using IH that True by (cases "i \<in> set is") (auto simp: kids_def)
    then show ?thesis using IH kids_skip [of 1 st st' p "is" i] by (auto split: sum.splits)
  next
    case False
    note C = child_facts [OF ok _ i refl False, simplified]
    have c: "?c \<noteq> fs_ino st" using C(3,4) ino by auto
    obtain ret1 st1 where t: "truncate_dnode sp io ?c st = (ret1, st1)" by fastforce
    have T: "case rd_err io ?c of None \<Rightarrow> ret1 = Inr 1 \<and> gone_st 1 st st1 ?c | Some e \<Rightarrow> ret1 = Inl e \<and> e \<noteq> ENOENT \<and> st1 = st"
      by (rule truncate_dnode_ok [OF _ c Cons.prems(3) t]) (use C(1) in simp)
    show ?thesis
    proof (cases "rd_err io ?c")
      case None
      let ?st2 = "set_nid p i 0 False st1"
      have g: "ret1 = Inr 1" "gone_st 1 st st1 ?c" using T None by simp_all
      note G = child_gone [OF ok _ i refl False, simplified, OF g(2)[simplified]]
      have two': "Suc (Suc 0) = 2" by simp
      have K: "kids 1 st ?st2 p [i]" using G(1) by simp
      have r: "trunc_dnodes sp io p is (freed + 1) ?st2 = (ret, st')" using Cons.prems(5) False t g(1) by (simp add: get_nid_entry)
      have ok2: "tree_ok 2 (fs_nodes ?st2) p" using kids_ok [OF K] unfolding two .
      have ino2: "fs_ino ?st2 \<notin> sub 2 (fs_nodes ?st2) p" using kids_sub [OF K] kids_ino [OF K] ino unfolding two by auto
      note IH = Cons.IH [OF ok2 ino2 Cons.prems(3) isb r]
      have "entry (fs_nodes st') p i = 0" if "\<forall>i \<in> set is. entry (fs_nodes st') p i = 0"
        using IH that G(2) by (cases "i \<in> set is") (auto simp: kids_def)
      then show ?thesis using IH kids_trans [OF K] by (auto split: sum.splits)
    next
      case (Some e)
      then have "ret = Inl e" "st' = st" "e \<noteq> ENOENT" using T Cons.prems(5) False t by (auto simp: get_nid_entry)
      then show ?thesis using kids_refl [OF ok] Some by (auto simp: read_fails_def)
    qed
  qed
qed

text \<open>What truncating a subtree of height \<open>d\<close> does, whatever reads fail.\<close>

definition truncates :: "node_io \<Rightarrow> nat \<Rightarrow> (nat \<Rightarrow> int \<Rightarrow> 'a fstate \<Rightarrow> (errno + int) \<times> 'a fstate) \<Rightarrow> bool" where
  "truncates io d f \<longleftrightarrow> (\<forall>c nofs st ret st'. tree_ok d (fs_nodes st) c \<and> fs_ino st \<notin> sub d (fs_nodes st) c \<and> f c nofs st = (ret, st') \<longrightarrow>
     (case ret of Inr r \<Rightarrow> r = 1019 \<and> gone_st d st st' c | Inl e \<Rightarrow> read_fails io e \<and> pruned_st d st st' c))"

lemma truncatesD:
  assumes "truncates io d f" "tree_ok d (fs_nodes st) c" "fs_ino st \<notin> sub d (fs_nodes st) c" "f c nofs st = (ret, st')"
  shows "ret = Inr 1019 \<and> gone_st d st st' c \<or> (\<exists>e. ret = Inl e \<and> read_fails io e \<and> pruned_st d st st' c)"
  using assms unfolding truncates_def by (cases ret) fastforce+

lemma trunc_inds_ok:
  assumes "truncates io d f" "0 < d" "tree_ok (Suc d) (fs_nodes st) p" "fs_ino st \<notin> sub (Suc d) (fs_nodes st) p" "set is \<subseteq> {..<1018}"
    "trunc_inds f p is nofs st = (ret, st')"
  shows "kids d st st' p is \<and> (case ret of Inr r \<Rightarrow> (\<forall>i \<in> set is. entry (fs_nodes st') p i = 0) | Inl e \<Rightarrow> read_fails io e)"
  using assms
proof (induction "is" arbitrary: nofs st)
  case Nil
  then show ?case using kids_refl [of d st p "[]"] by auto
next
  case (Cons i "is")
  let ?c = "entry (fs_nodes st) p i"
  have i: "i < 1018" and isb: "set is \<subseteq> {..<1018}" using Cons.prems(5) by auto
  note ok = Cons.prems(3) and ino = Cons.prems(4) and d = Cons.prems(2)
  show ?case
  proof (cases "?c = 0")
    case True
    then obtain nofs' where "trunc_inds f p is nofs' st = (ret, st')" using Cons.prems(6) by (simp add: get_nid_entry)
    note IH = Cons.IH [OF Cons.prems(1-4) isb this]
    have "entry (fs_nodes st') p i = 0" if "\<forall>i \<in> set is. entry (fs_nodes st') p i = 0"
      using IH that True by (cases "i \<in> set is") (auto simp: kids_def)
    then show ?thesis using IH kids_skip [of d st st' p "is" i] by (auto split: sum.splits)
  next
    case False
    note C = child_facts [OF ok d i refl False]
    obtain ret1 st1 where t: "f ?c nofs st = (ret1, st1)" by fastforce
    have inoc: "fs_ino st \<notin> sub d (fs_nodes st) ?c" using C(3) ino by auto
    from truncatesD [OF Cons.prems(1) C(1) inoc t] show ?thesis
    proof
      assume g: "ret1 = Inr 1019 \<and> gone_st d st st1 ?c"
      let ?st2 = "set_nid p i 0 False st1"
      note G = child_gone [OF ok d i refl False conjunct2 [OF g]]
      obtain nofs' where r: "trunc_inds f p is nofs' ?st2 = (ret, st')" using Cons.prems(6) False t g by (simp add: get_nid_entry)
      have ino2: "fs_ino ?st2 \<notin> sub (Suc d) (fs_nodes ?st2) p" using kids_sub [OF G(1)] kids_ino [OF G(1)] ino by auto
      note IH = Cons.IH [OF Cons.prems(1,2) kids_ok [OF G(1)] ino2 isb r]
      have "entry (fs_nodes st') p i = 0" if "\<forall>i \<in> set is. entry (fs_nodes st') p i = 0"
        using IH that G(2) by (cases "i \<in> set is") (auto simp: kids_def)
      then show ?thesis using IH kids_trans [OF G(1)] by (auto split: sum.splits)
    next
      assume "\<exists>e. ret1 = Inl e \<and> read_fails io e \<and> pruned_st d st st1 ?c"
      then obtain e where e: "ret1 = Inl e" "read_fails io e" "pruned_st d st st1 ?c" by blast
      have "e \<noteq> ENOENT" using e(2) by (simp add: read_fails_def)
      then have "ret = Inl e" "st' = st1" using Cons.prems(6) False t e(1) by (simp_all add: get_nid_entry)
      then show ?thesis using kids_mono [OF child_pruned [OF ok d i refl False e(3)]] e(2) by simp
    qed
  qed
qed

lemma emptied:
  assumes K: "kids d st st1 p js" and d: "0 < d" and z: "\<forall>i<1018. entry (fs_nodes st1) p i = 0" and p: "p \<noteq> fs_ino st"
  shows "gone_st (Suc d) st (truncate_node sp p st1) p"
proof -
  obtain R where P: "file_part st1 = file_part st" "pruned (Suc d) (fs_nodes st) (fs_nodes st1) p R" "mset (fs_invalidated st1) = mset (fs_invalidated st) + R"
    using K unfolding kids_def pruned_st_def by blast
  obtain n where n: "fs_nodes st1 p = Some n" using tree_ok_len [OF kids_ok [OF K]] by blast
  have s: "sub (Suc d) (fs_nodes st1) p = {p}" "tblocks (Suc d) (fs_nodes st1) p = {#nd_blk n#}"
    using d z n by (simp_all add: sub.simps tblocks.simps)
  have i: "p \<noteq> fs_ino st1" using p kids_ino [OF K] by simp
  have Q: "\<And>m. m \<notin> sub (Suc d) (fs_nodes st) p \<Longrightarrow> fs_nodes st1 m = fs_nodes st m" "\<And>m. m \<in> sub (Suc d) (fs_nodes st) p - {p} \<Longrightarrow> fs_nodes st1 m = None"
    "R + {#nd_blk n#} = tblocks (Suc d) (fs_nodes st) p"
    using P(2) unfolding pruned_def s by (blast, blast, simp)
  have pin: "p \<in> sub (Suc d) (fs_nodes st) p" by (simp add: sub.simps)
  have T: "fs_nodes (truncate_node sp p st1) = (fs_nodes st1)(p := None)" "fs_invalidated (truncate_node sp p st1) = fs_invalidated st1 @ [nd_blk n]"
    "file_part (truncate_node sp p st1) = file_part st1"
    using i n by (simp_all add: truncate_node_def Let_def file_part_def)
  have "gone (Suc d) (fs_nodes st) (fs_nodes (truncate_node sp p st1)) p (tblocks (Suc d) (fs_nodes st) p)"
    unfolding gone_def T(1)
  proof (intro conjI allI refl)
    fix m
    show "((fs_nodes st1)(p := None)) m = (if m \<in> sub (Suc d) (fs_nodes st) p then None else fs_nodes st m)"
      using Q(1,2) [of m] pin by (cases "m = p") auto
  qed
  then show ?thesis using P(1,3) T(2,3) Q(3) [symmetric] by (simp add: gone_st_def)
qed

lemma truncate_nodes_step:
  assumes ok: "tree_ok (Suc d) (fs_nodes st) p" and ino: "fs_ino st \<notin> sub (Suc d) (fs_nodes st) p" and d: "0 < d"
    and loop: "\<And>ret st'. (if Suc d < 3 then trunc_dnodes sp io p [ofs..<1018] 0 st
        else trunc_inds (\<lambda>child child_nofs st. truncate_nodes sp io child d child_nofs 0 st) p [ofs..<1018] (nofs + int ofs * 1019 + 1) st) = (ret, st') \<Longrightarrow>
      kids d st st' p [ofs..<1018] \<and> (case ret of Inr r \<Rightarrow> (d = 1 \<longrightarrow> r = int (1018 - ofs)) \<and> (\<forall>i \<in> set [ofs..<1018]. entry (fs_nodes st') p i = 0) | Inl e \<Rightarrow> read_fails io e)"
    and t: "truncate_nodes sp io p (Suc d) nofs ofs st = (ret, st')" and io: "io_ok io"
  shows "case ret of
      Inr r \<Rightarrow> if ofs = 0 then gone_st (Suc d) st st' p \<and> (d = 1 \<longrightarrow> r = 1019) else kids d st st' p [ofs..<1018] \<and> (\<forall>i \<in> set [ofs..<1018]. entry (fs_nodes st') p i = 0)
    | Inl e \<Rightarrow> read_fails io e \<and> kids d st st' p [ofs..<1018]"
proof -
  have p: "p \<noteq> fs_ino st" using ino by (auto simp: sub.simps)
  have p0: "p \<noteq> 0" using ok by (simp add: tree_ok.simps)
  note page = tree_page [OF ok p, of io]
  show ?thesis
  proof (cases "rd_err io p")
    case (Some e)
    then have "ret = Inl e" "st' = st" "e \<noteq> ENOENT" using t p0 page io by (auto simp: truncate_nodes.simps io_ok_def)
    then show ?thesis using Some kids_refl [OF ok] by (auto simp: read_fails_def)
  next
    case None
    define loopres where "loopres = (if Suc d < 3 then trunc_dnodes sp io p [ofs..<1018] 0 st
        else trunc_inds (\<lambda>child child_nofs st. truncate_nodes sp io child d child_nofs 0 st) p [ofs..<1018] (nofs + int ofs * 1019 + 1) st)"
    obtain r1 st1 where l: "loopres = (r1, st1)" by fastforce
    note L = loop [OF l [unfolded loopres_def]]
    have e: "truncate_nodes sp io p (Suc d) nofs ofs st =
        (case loopres of (Inl e, st) \<Rightarrow> (Inl e, st) | (Inr freed, st) \<Rightarrow> if ofs = 0 then (Inr (freed + 1), truncate_node sp p st) else (Inr freed, st))"
      using p0 page None by (subst truncate_nodes.simps) (simp add: loopres_def)
    show ?thesis
    proof (cases r1)
      case (Inl e1)
      then have "ret = Inl e1" "st' = st1" using t e l by auto
      then show ?thesis using L Inl by simp
    next
      case (Inr r)
      show ?thesis
      proof (cases "ofs = 0")
        case True
        have "\<forall>i<1018. entry (fs_nodes st1) p i = 0" using L Inr True by simp
        then have "gone_st (Suc d) st (truncate_node sp p st1) p" using L emptied [OF _ d _ p] by blast
        then show ?thesis using L Inr True t e l by auto
      next
        case False
        then show ?thesis using L Inr t e l by auto
      qed
    qed
  qed
qed

lemma upt_below: "set [ofs..<n] \<subseteq> {..<n :: nat}"
  by auto

lemma truncate_nodes_2:
  assumes "tree_ok 2 (fs_nodes st) p" "fs_ino st \<notin> sub 2 (fs_nodes st) p" "io_ok io" "truncate_nodes sp io p 2 nofs ofs st = (ret, st')"
  shows "case ret of
      Inr r \<Rightarrow> if ofs = 0 then gone_st 2 st st' p \<and> r = 1019 else kids 1 st st' p [ofs..<1018] \<and> (\<forall>i \<in> set [ofs..<1018]. entry (fs_nodes st') p i = 0)
    | Inl e \<Rightarrow> read_fails io e \<and> kids 1 st st' p [ofs..<1018]"
proof -
  have two: "(2::nat) = Suc 1" by simp
  have loop: "kids 1 st st1 p [ofs..<1018] \<and> (case ret of Inr r \<Rightarrow> ((1::nat) = 1 \<longrightarrow> r = int (1018 - ofs)) \<and> (\<forall>i \<in> set [ofs..<1018]. entry (fs_nodes st1) p i = 0) | Inl e \<Rightarrow> read_fails io e)"
    if "(if Suc 1 < 3 then trunc_dnodes sp io p [ofs..<1018] 0 st
        else trunc_inds (\<lambda>child child_nofs st. truncate_nodes sp io child 1 child_nofs 0 st) p [ofs..<1018] (nofs + int ofs * 1019 + 1) st) = (ret, st1)" for ret st1
  proof -
    have H: "trunc_dnodes sp io p [ofs..<1018] 0 st = (ret, st1)" using that by simp
    show ?thesis using trunc_dnodes_ok [OF assms(1-3) upt_below H] by (auto split: sum.splits)
  qed
  show ?thesis using truncate_nodes_step [OF assms(1) [unfolded two] assms(2) [unfolded two] _ loop assms(4) [unfolded two] assms(3)] unfolding two by (auto split: sum.splits if_splits)
qed

lemma truncates_2: "io_ok io \<Longrightarrow> truncates io 2 (\<lambda>c nofs st. truncate_nodes sp io c 2 nofs 0 st)"
  unfolding truncates_def
proof (intro allI impI, elim conjE)
  fix c nofs st ret st'
  assume a: "io_ok io" "tree_ok 2 (fs_nodes st) c" "fs_ino st \<notin> sub 2 (fs_nodes st) c" "truncate_nodes sp io c 2 nofs 0 st = (ret, st')"
  show "case ret of Inl e \<Rightarrow> read_fails io e \<and> pruned_st 2 st st' c | Inr r \<Rightarrow> r = 1019 \<and> gone_st 2 st st' c"
    using truncate_nodes_2 [OF a(2,3,1,4)] by (auto simp: kids_def numeral_2_eq_2 split: sum.splits)
qed

lemma truncate_nodes_3:
  assumes "tree_ok 3 (fs_nodes st) p" "fs_ino st \<notin> sub 3 (fs_nodes st) p" "io_ok io" "truncate_nodes sp io p 3 nofs ofs st = (ret, st')"
  shows "case ret of
      Inr r \<Rightarrow> if ofs = 0 then gone_st 3 st st' p else kids 2 st st' p [ofs..<1018] \<and> (\<forall>i \<in> set [ofs..<1018]. entry (fs_nodes st') p i = 0)
    | Inl e \<Rightarrow> read_fails io e \<and> kids 2 st st' p [ofs..<1018]"
proof -
  have three: "(3::nat) = Suc 2" by simp
  have loop: "kids 2 st st1 p [ofs..<1018] \<and> (case ret of Inr r \<Rightarrow> ((2::nat) = 1 \<longrightarrow> r = int (1018 - ofs)) \<and> (\<forall>i \<in> set [ofs..<1018]. entry (fs_nodes st1) p i = 0) | Inl e \<Rightarrow> read_fails io e)"
    if "(if Suc 2 < 3 then trunc_dnodes sp io p [ofs..<1018] 0 st
        else trunc_inds (\<lambda>child child_nofs st. truncate_nodes sp io child 2 child_nofs 0 st) p [ofs..<1018] (nofs + int ofs * 1019 + 1) st) = (ret, st1)" for ret st1
  proof -
    have H: "trunc_inds (\<lambda>child child_nofs st. truncate_nodes sp io child 2 child_nofs 0 st) p [ofs..<1018] (nofs + int ofs * 1019 + 1) st = (ret, st1)" using that by simp
    show ?thesis using trunc_inds_ok [OF truncates_2 [OF assms(3)] _ assms(1) [unfolded three] assms(2) [unfolded three] upt_below H] by (auto split: sum.splits)
  qed
  show ?thesis using truncate_nodes_step [OF assms(1) [unfolded three] assms(2) [unfolded three] _ loop assms(4) [unfolded three] assms(3)] unfolding three by (auto split: sum.splits if_splits)
qed

section \<open>The trees of the inode\<close>

definition height :: "nat \<Rightarrow> nat" where
  "height k = (if k < 2 then 1 else if k < 4 then 2 else 3)"

definition slot :: "'a fstate \<Rightarrow> nat \<Rightarrow> nat" where
  "slot st k = arr_get 0 (fs_i_nid st) k"

definition slot_sub :: "'a fstate \<Rightarrow> nat \<Rightarrow> nat set" where
  "slot_sub st k = (if slot st k = 0 then {} else sub (height k) (fs_nodes st) (slot st k))"

definition slot_blocks :: "'a fstate \<Rightarrow> nat \<Rightarrow> nat multiset" where
  "slot_blocks st k = (if slot st k = 0 then {#} else tblocks (height k) (fs_nodes st) (slot st k))"

text \<open>The addresses in the direct node at a position: a slot of the inode and a path below it.\<close>

definition dnode_at :: "'a fstate \<Rightarrow> nat \<Rightarrow> nat list \<Rightarrow> nat list option" where
  "dnode_at st k path = (if slot st k = 0 then None else dlook (height k) (fs_nodes st) (slot st k) path)"

definition trees_ok :: "'a fstate \<Rightarrow> bool" where
  "trees_ok st \<longleftrightarrow> length (fs_i_nid st) = 5 \<and>
     (\<forall>k<5. slot st k \<noteq> 0 \<longrightarrow> tree_ok (height k) (fs_nodes st) (slot st k) \<and> fs_ino st \<notin> slot_sub st k) \<and>
     (\<forall>j<5. \<forall>k<5. j \<noteq> k \<longrightarrow> slot_sub st j \<inter> slot_sub st k = {})"

definition owned :: "'a fstate \<Rightarrow> nat set" where
  "owned st = (\<Union>k<5. slot_sub st k)"

definition tree_blocks :: "'a fstate \<Rightarrow> nat multiset" where
  "tree_blocks st = (\<Sum>k<5. slot_blocks st k)"

text \<open>From \<open>st\<close> to \<open>st'\<close> the file lost nodes, all of whose blocks were given back; nothing else changed.\<close>

definition file_rest :: "'a fstate \<Rightarrow> nat \<times> addr_layout \<times> u8 list option \<times> nat option \<times> nat list \<times> nat list \<times> nat \<times> bool \<times> bool \<times> nat list \<times> ims \<times> bool" where
  "file_rest st = file_part (st\<lparr>fs_i_nid := []\<rparr>)"

definition file_pruned :: "'a fstate \<Rightarrow> 'a fstate \<Rightarrow> bool" where
  "file_pruned st st' \<longleftrightarrow> file_rest st' = file_rest st \<and> trees_ok st' \<and> owned st' \<subseteq> owned st \<and> (\<forall>n. n \<notin> owned st \<longrightarrow> fs_nodes st' n = fs_nodes st n) \<and>
     (\<forall>n \<in> owned st - owned st'. fs_nodes st' n = None) \<and>
     mset (fs_invalidated st') + tree_blocks st' = mset (fs_invalidated st) + tree_blocks st \<and>
     (\<forall>k path. dnode_at st' k path = dnode_at st k path \<or> dnode_at st' k path = None)"

lemma file_pruned_refl: "trees_ok st \<Longrightarrow> file_pruned st st"
  by (simp add: file_pruned_def)

lemma file_pruned_ok: "file_pruned st st' \<Longrightarrow> trees_ok st'"
  by (simp add: file_pruned_def)

lemma file_prunedD:
  assumes "file_pruned st st'"
  shows "file_rest st' = file_rest st" "trees_ok st'" "owned st' \<subseteq> owned st" "\<And>n. n \<notin> owned st \<Longrightarrow> fs_nodes st' n = fs_nodes st n"
    "\<And>n. n \<in> owned st - owned st' \<Longrightarrow> fs_nodes st' n = None" "mset (fs_invalidated st') + tree_blocks st' = mset (fs_invalidated st) + tree_blocks st"
    "\<And>k path. dnode_at st' k path = dnode_at st k path \<or> dnode_at st' k path = None"
  using assms unfolding file_pruned_def by (blast, blast, blast, blast, blast, simp, simp)

lemma file_pruned_trans:
  assumes "file_pruned st st1" "file_pruned st1 st2"
  shows "file_pruned st st2"
proof -
  note a = file_prunedD [OF assms(1)] and b = file_prunedD [OF assms(2)]
  have "fs_nodes st2 n = fs_nodes st n" if "n \<notin> owned st" for n using a(3,4) b(4) that by (metis subsetD)
  moreover have "fs_nodes st2 n = None" if "n \<in> owned st - owned st2" for n
    using that a(5) [of n] b(4) [of n] b(5) [of n] by (cases "n \<in> owned st1") auto
  moreover have "dnode_at st2 k path = dnode_at st k path \<or> dnode_at st2 k path = None" for k path using a(7) [of k path] b(7) [of k path] by auto
  moreover have "owned st2 \<subseteq> owned st" using a(3) b(3) by blast
  ultimately show ?thesis unfolding file_pruned_def using a(1,6) b(1,2,6) by simp
qed

lemma rest_fields: "file_rest st' = file_rest st \<Longrightarrow> fs_ino st' = fs_ino st \<and> fs_layout st' = fs_layout st \<and> fs_addr st' = fs_addr st \<and> fs_inline st' = fs_inline st \<and>
    fs_inode_blk st' = fs_inode_blk st \<and> fs_free_nids st' = fs_free_nids st \<and> fs_xnid st' = fs_xnid st \<and> fs_bug st' = fs_bug st"
  by (simp add: file_rest_def file_part_def)

lemma UN_split:
  fixes n :: nat
  assumes "k < n"
  shows "(\<Union>j<n. f j) = f k \<union> (\<Union>j\<in>{..<n} - {k}. f j)"
proof -
  have "{..<n} = insert k ({..<n} - {k})" using assms by auto
  then show ?thesis by (metis UN_insert)
qed

lemma slot_step:
  assumes ok: "trees_ok st" and k: "k < 5" and c: "c = slot st k" "c \<noteq> 0"
    and rest: "file_rest st2 = file_rest st" and sl: "fs_i_nid st2 = (fs_i_nid st)[k := v]"
    and same: "\<forall>m. m \<notin> sub (height k) (fs_nodes st) c \<longrightarrow> fs_nodes st2 m = fs_nodes st m"
    and v: "v = 0 \<and> (\<forall>m \<in> sub (height k) (fs_nodes st) c. fs_nodes st2 m = None) \<and> R = tblocks (height k) (fs_nodes st) c \<or>
      v = c \<and> pruned (height k) (fs_nodes st) (fs_nodes st2) c R"
    and inv: "mset (fs_invalidated st2) = mset (fs_invalidated st) + R"
  shows "file_pruned st st2" "slot st2 j = (if j = k then v else slot st j)" "j \<noteq> k \<Longrightarrow> dnode_at st2 j path = dnode_at st j path"
proof -
  have len: "length (fs_i_nid st) = 5" using ok by (simp add: trees_ok_def)
  show s2: "slot st2 j = (if j = k then v else slot st j)" for j using sl len k by (simp add: slot_def arr_get_update)
  have ino: "fs_ino st2 = fs_ino st" using rest_fields [OF rest] by blast
  have T: "\<And>j. j < 5 \<Longrightarrow> slot st j \<noteq> 0 \<Longrightarrow> tree_ok (height j) (fs_nodes st) (slot st j) \<and> fs_ino st \<notin> slot_sub st j"
    and D: "\<And>i j. i < 5 \<Longrightarrow> j < 5 \<Longrightarrow> i \<noteq> j \<Longrightarrow> slot_sub st i \<inter> slot_sub st j = {}"
    using ok unfolding trees_ok_def by blast+
  have sk: "slot_sub st k = sub (height k) (fs_nodes st) c" using c by (simp add: slot_sub_def)
  have agree: "sub (height j) (fs_nodes st2) (slot st j) = sub (height j) (fs_nodes st) (slot st j) \<and> tblocks (height j) (fs_nodes st2) (slot st j) = tblocks (height j) (fs_nodes st) (slot st j) \<and>
      tree_ok (height j) (fs_nodes st2) (slot st j) = tree_ok (height j) (fs_nodes st) (slot st j) \<and>
      dlook (height j) (fs_nodes st2) (slot st j) path = dlook (height j) (fs_nodes st) (slot st j) path" if "j < 5" "j \<noteq> k" "slot st j \<noteq> 0" for j path
  proof (rule tree_agree, rule ballI)
    fix m assume "m \<in> sub (height j) (fs_nodes st) (slot st j)"
    then have "m \<notin> sub (height k) (fs_nodes st) c" using D [of j k] that k sk by (auto simp: slot_sub_def)
    then show "fs_nodes st2 m = fs_nodes st m" using same by blast
  qed
  have out: "slot st j = 0" if "\<not> j < 5" for j using that len by (simp add: slot_def arr_get_def)
  show dj: "j \<noteq> k \<Longrightarrow> dnode_at st2 j path = dnode_at st j path" for j path
    using agree [of j path] out [of j] s2 [of j] by (cases "j < 5"; cases "slot st j = 0") (auto simp: dnode_at_def)
  have ss: "j \<noteq> k \<Longrightarrow> slot_sub st2 j = slot_sub st j" "j \<noteq> k \<Longrightarrow> slot_blocks st2 j = slot_blocks st j" for j
    using agree [of j] out [of j] s2 [of j] by (cases "j < 5"; cases "slot st j = 0"; auto simp: slot_sub_def slot_blocks_def)+
  have kk: "slot_sub st2 k \<subseteq> slot_sub st k" "\<forall>m \<in> slot_sub st k - slot_sub st2 k. fs_nodes st2 m = None" "R + slot_blocks st2 k = slot_blocks st k"
    "slot st2 k \<noteq> 0 \<Longrightarrow> tree_ok (height k) (fs_nodes st2) (slot st2 k)"
    using v c s2 [of k] unfolding pruned_def by (auto simp: slot_sub_def slot_blocks_def)
  have kd: "dnode_at st2 k path = dnode_at st k path \<or> dnode_at st2 k path = None" for path
    using v
  proof
    assume "v = c \<and> pruned (height k) (fs_nodes st) (fs_nodes st2) c R"
    then have "v = c" "dlook (height k) (fs_nodes st2) c path = dlook (height k) (fs_nodes st) c path \<or> dlook (height k) (fs_nodes st2) c path = None"
      unfolding pruned_def by simp_all
    then show ?thesis using s2 [of k] c by (simp add: dnode_at_def)
  next
    assume "v = 0 \<and> (\<forall>m \<in> sub (height k) (fs_nodes st) c. fs_nodes st2 m = None) \<and> R = tblocks (height k) (fs_nodes st) c"
    then show ?thesis using s2 [of k] by (simp add: dnode_at_def)
  qed
  have inox: "fs_ino st \<notin> slot_sub st k" using T [OF k] c by blast
  have own: "owned st2 = slot_sub st2 k \<union> (\<Union>j\<in>{..<5} - {k}. slot_sub st j)" "owned st = slot_sub st k \<union> (\<Union>j\<in>{..<5} - {k}. slot_sub st j)"
    unfolding owned_def UN_split [OF k, of "slot_sub st2"] UN_split [OF k, of "slot_sub st"] using ss(1) by simp_all
  have tb: "R + tree_blocks st2 = tree_blocks st"
  proof -
    have "tree_blocks st2 = slot_blocks st2 k + (\<Sum>j\<in>{..<5} - {k}. slot_blocks st j)"
      unfolding tree_blocks_def using k ss(2) by (subst sum.remove [of "{..<5}" k]) simp_all
    moreover have "tree_blocks st = slot_blocks st k + (\<Sum>j\<in>{..<5} - {k}. slot_blocks st j)"
      unfolding tree_blocks_def using k by (subst sum.remove [of "{..<5}" k]) simp_all
    ultimately show ?thesis using kk(3) by (simp add: add.assoc [symmetric])
  qed
  have ok2: "trees_ok st2"
    unfolding trees_ok_def
  proof (intro conjI allI impI)
    show "length (fs_i_nid st2) = 5" using len sl by simp
    fix j :: nat assume j: "j < 5"
    show "tree_ok (height j) (fs_nodes st2) (slot st2 j)" "fs_ino st2 \<notin> slot_sub st2 j" if "slot st2 j \<noteq> 0"
      using that T [OF j] agree [OF j] kk(1,4) ss(1) [of j] s2 [of j] inox ino by (cases "j = k"; auto)+
    fix i :: nat assume "i < 5" "j \<noteq> i"
    then show "slot_sub st2 j \<inter> slot_sub st2 i = {}" using D [OF j, of i] ss(1) [of i] ss(1) [of j] kk(1) by (cases "j = k"; cases "i = k") blast+
  qed
  have "dnode_at st2 j path = dnode_at st j path \<or> dnode_at st2 j path = None" for j path using dj [of j path] kd [of path] by (cases "j = k") auto
  moreover have "fs_nodes st2 n = fs_nodes st n" if "n \<notin> owned st" for n using that same own(2) sk by blast
  moreover have "fs_nodes st2 n = None" if "n \<in> owned st - owned st2" for n using that kk(2) unfolding own by blast
  moreover have "owned st2 \<subseteq> owned st" unfolding own using kk(1) by blast
  moreover have "mset (fs_invalidated st2) + tree_blocks st2 = mset (fs_invalidated st) + tree_blocks st" using inv tb by (simp add: add.assoc)
  ultimately show "file_pruned st st2" unfolding file_pruned_def using rest ok2 by simp
qed

lemma get_nid_slot: "get_nid p (924 + k) True st = slot st k"
  by (simp add: get_nid_def slot_def)

lemma slotD:
  assumes "trees_ok st" "k < 5" "slot st k \<noteq> 0"
  shows "tree_ok (height k) (fs_nodes st) (slot st k)" "fs_ino st \<notin> sub (height k) (fs_nodes st) (slot st k)"
  using assms unfolding trees_ok_def by (auto simp: slot_sub_def)

lemma slot_gone:
  assumes ok: "trees_ok st" and k: "k < 5" and c: "slot st k \<noteq> 0" and g: "gone_st (height k) st st1 (slot st k)"
  defines "st2 \<equiv> set_nid (fs_ino st1) (924 + k) 0 True st1"
  shows "file_pruned st st2" "slot st2 j = (if j = k then 0 else slot st j)" "j \<noteq> k \<Longrightarrow> dnode_at st2 j path = dnode_at st j path"
proof -
  have G: "\<And>m. fs_nodes st1 m = (if m \<in> sub (height k) (fs_nodes st) (slot st k) then None else fs_nodes st m)" "file_part st1 = file_part st"
    "mset (fs_invalidated st1) = mset (fs_invalidated st) + tblocks (height k) (fs_nodes st) (slot st k)"
    using g unfolding gone_st_def gone_def by blast+
  have r: "file_rest st2 = file_rest st" "fs_i_nid st2 = (fs_i_nid st)[k := 0]" "fs_nodes st2 = fs_nodes st1" "fs_invalidated st2 = fs_invalidated st1"
    using G(2) by (simp_all add: st2_def set_nid_def file_rest_def file_part_def)
  note S = slot_step [OF ok k refl c r(1,2), of "tblocks (height k) (fs_nodes st) (slot st k)"]
  have p: "\<forall>m. m \<notin> sub (height k) (fs_nodes st) (slot st k) \<longrightarrow> fs_nodes st2 m = fs_nodes st m" "\<forall>m \<in> sub (height k) (fs_nodes st) (slot st k). fs_nodes st2 m = None"
    "mset (fs_invalidated st2) = mset (fs_invalidated st) + tblocks (height k) (fs_nodes st) (slot st k)"
    using G r by simp_all
  show "file_pruned st st2" "slot st2 j = (if j = k then 0 else slot st j)" "j \<noteq> k \<Longrightarrow> dnode_at st2 j path = dnode_at st j path"
    using S [OF p(1) disjI1 p(3)] p(2) by blast+
qed

lemma slot_pruned:
  assumes ok: "trees_ok st" and k: "k < 5" and c: "slot st k \<noteq> 0" and g: "pruned_st (height k) st st1 (slot st k)"
  shows "file_pruned st st1" "slot st1 j = slot st j" "j \<noteq> k \<Longrightarrow> dnode_at st1 j path = dnode_at st j path"
proof -
  obtain R where G: "file_part st1 = file_part st" "pruned (height k) (fs_nodes st) (fs_nodes st1) (slot st k) R" "mset (fs_invalidated st1) = mset (fs_invalidated st) + R"
    using g unfolding pruned_st_def by blast
  have len: "length (fs_i_nid st) = 5" using ok by (simp add: trees_ok_def)
  have r: "file_rest st1 = file_rest st" "fs_i_nid st1 = (fs_i_nid st)[k := slot st k]"
    using G(1) len k by (simp_all add: file_rest_def file_part_def slot_def list_update_same_conv)
  have p: "\<forall>m. m \<notin> sub (height k) (fs_nodes st) (slot st k) \<longrightarrow> fs_nodes st1 m = fs_nodes st m" using G(2) unfolding pruned_def by blast
  note S = slot_step [OF ok k refl c r p disjI2 G(3)]
  show "file_pruned st st1" "slot st1 j = slot st j" "j \<noteq> k \<Longrightarrow> dnode_at st1 j path = dnode_at st j path"
    using S G(2) by (blast, metis, blast)
qed

lemma kids_dnode_at:
  assumes K: "kids d st st1 (slot st k) is" and h: "height k = Suc d" and s: "slot st1 k = slot st k" and d: "0 < d"
  shows "i \<notin> set is \<Longrightarrow> dnode_at st1 k (i # os) = dnode_at st k (i # os)"
    "entry (fs_nodes st1) (slot st k) i = 0 \<Longrightarrow> dnode_at st1 k (i # os) = None"
  using K s d unfolding kids_def dnode_at_def h by (auto simp: dlook.simps(2))

lemma no_slot: "trees_ok st \<Longrightarrow> 5 \<le> k \<Longrightarrow> dnode_at st k path = None"
  by (auto simp: dnode_at_def slot_def arr_get_def trees_ok_def)

lemma dlook_beyond: "1018 \<le> i \<Longrightarrow> 0 < d \<Longrightarrow> dlook (Suc d) N p (i # os) = None"
  by (simp add: dlook.simps)


definition trunc_slot :: "'a space_ops \<Rightarrow> node_io \<Rightarrow> nat \<Rightarrow> nat \<Rightarrow> int \<Rightarrow> 'a fstate \<Rightarrow> (errno + int) \<times> 'a fstate" where
  "trunc_slot sp io k ofs1 nofs st =
     (if k < 2 then truncate_dnode sp io (slot st k) st else truncate_nodes sp io (slot st k) (if k < 4 then 2 else 3) nofs ofs1 st)"

lemma trunc_slot_run:
  assumes ok: "trees_ok st" and k: "k < 5" and c: "slot st k \<noteq> 0" and io: "io_ok io" and o: "ofs1 = 0 \<or> 2 \<le> k" and t: "trunc_slot sp io k ofs1 nofs st = (ret, st1)"
  shows "case ret of
      Inr r \<Rightarrow> if ofs1 = 0 then gone_st (height k) st st1 (slot st k)
        else \<exists>d. height k = Suc d \<and> 0 < d \<and> kids d st st1 (slot st k) [ofs1..<1018] \<and> (\<forall>i \<in> set [ofs1..<1018]. entry (fs_nodes st1) (slot st k) i = 0)
    | Inl e \<Rightarrow> read_fails io e \<and> pruned_st (height k) st st1 (slot st k) \<and> (ofs1 \<noteq> 0 \<longrightarrow> (\<exists>d. height k = Suc d \<and> 0 < d \<and> kids d st st1 (slot st k) [ofs1..<1018]))"
proof -
  note S = slotD [OF ok k c]
  consider "k < 2" | "2 \<le> k" "k < 4" | "k = 4" using k by linarith
  then show ?thesis
  proof cases
    case 1
    then have h: "height k = 1" and o1: "ofs1 = 0" using o by (simp_all add: height_def)
    have ok1: "tree_ok 1 (fs_nodes st) (slot st k)" and ci: "slot st k \<noteq> fs_ino st" using S h by (auto simp: sub.simps)
    have "truncate_dnode sp io (slot st k) st = (ret, st1)" using t 1 by (simp add: trunc_slot_def)
    from truncate_dnode_ok [OF ok1 ci io this] show ?thesis
      using o1 pruned_st_refl [OF ok1] unfolding h by (cases "rd_err io (slot st k)") (auto simp: read_fails_def)
  next
    case 2
    then have h: "height k = 2" by (simp add: height_def)
    have t2: "truncate_nodes sp io (slot st k) 2 nofs ofs1 st = (ret, st1)" using t 2 by (simp add: trunc_slot_def)
    have K: "kids 1 st st1 (slot st k) js \<Longrightarrow> pruned_st 2 st st1 (slot st k)" for js by (simp add: kids_def numeral_2_eq_2)
    show ?thesis using truncate_nodes_2 [OF S [unfolded h] io t2] K unfolding h by (auto simp: numeral_2_eq_2 split: sum.splits if_splits)
  next
    case 3
    then have h: "height k = 3" by (simp add: height_def)
    have t2: "truncate_nodes sp io (slot st k) 3 nofs ofs1 st = (ret, st1)" using t 3 by (simp add: trunc_slot_def)
    have K: "kids 2 st st1 (slot st k) js \<Longrightarrow> pruned_st 3 st st1 (slot st k)" for js by (simp add: kids_def numeral_2_eq_2 numeral_3_eq_3)
    show ?thesis using truncate_nodes_3 [OF S [unfolded h] io t2] K unfolding h by (auto simp: numeral_2_eq_2 numeral_3_eq_3 split: sum.splits if_splits)
  qed
qed

text \<open>Outside slot \<open>k\<close> below \<open>ofs1\<close> nothing changed.\<close>

definition slot_kept :: "nat \<Rightarrow> nat \<Rightarrow> 'a fstate \<Rightarrow> 'a fstate \<Rightarrow> bool" where
  "slot_kept k ofs1 st st' \<longleftrightarrow> file_pruned st st' \<and> (\<forall>j. j \<noteq> k \<longrightarrow> slot st' j = slot st j \<and> (\<forall>path. dnode_at st' j path = dnode_at st j path)) \<and>
     (\<forall>i<ofs1. \<forall>os. dnode_at st' k (i # os) = dnode_at st k (i # os))"

lemma slot_kept_pruned:
  assumes ok: "trees_ok st" and k: "k < 5" and c: "slot st k \<noteq> 0" and g: "pruned_st (height k) st st1 (slot st k)"
    and K: "ofs1 \<noteq> 0 \<longrightarrow> (\<exists>d. height k = Suc d \<and> 0 < d \<and> kids d st st1 (slot st k) [ofs1..<1018])"
  shows "slot_kept k ofs1 st st1"
proof -
  note P = slot_pruned [OF ok k c g]
  have "dnode_at st1 k (i # os) = dnode_at st k (i # os)" if i: "i < ofs1" for i os
  proof -
    obtain d where d: "height k = Suc d" "0 < d" "kids d st st1 (slot st k) [ofs1..<1018]" using K i by auto
    show ?thesis by (rule kids_dnode_at(1) [OF d(3,1) P(2) d(2)]) (use i in simp)
  qed
  then show ?thesis unfolding slot_kept_def using P by blast
qed

lemma trunc_slot_ok:
  assumes ok: "trees_ok st" and k: "k < 5" and io: "io_ok io" and o: "ofs1 = 0 \<or> 2 \<le> k \<or> slot st k = 0" and t: "trunc_slot sp io k ofs1 nofs st = (ret, st1)"
  defines "st2 \<equiv> (if ofs1 = 0 \<and> slot st1 k \<noteq> 0 then set_nid (fs_ino st1) (924 + k) 0 True st1 else st1)"
  shows "case ret of Inr r \<Rightarrow> slot_kept k ofs1 st st2 \<and> (if ofs1 = 0 then \<forall>path. dnode_at st2 k path = None else \<forall>i\<ge>ofs1. \<forall>os. dnode_at st2 k (i # os) = None)
    | Inl e \<Rightarrow> read_fails io e \<and> slot_kept k ofs1 st st1"
proof (cases "slot st k = 0")
  case True
  then have "(\<exists>r. ret = Inr r) \<and> st1 = st" using t by (auto simp: trunc_slot_def truncate_dnode_def truncate_nodes.simps split: if_splits)
  moreover have "st2 = st" using calculation True by (simp add: st2_def)
  moreover have "slot_kept k ofs1 st st" using file_pruned_refl [OF ok] by (simp add: slot_kept_def)
  ultimately show ?thesis using True by (auto simp: dnode_at_def)
next
  case False
  then have o': "ofs1 = 0 \<or> 2 \<le> k" using o by simp
  note R = trunc_slot_run [OF ok k False io o' t]
  show ?thesis
  proof (cases ret)
    case (Inl e)
    then show ?thesis using R slot_kept_pruned [OF ok k False] by simp
  next
    case (Inr r)
    show ?thesis
    proof (cases "ofs1 = 0")
      case True
      then have g: "gone_st (height k) st st1 (slot st k)" using R Inr by simp
      have s1: "slot st1 k = slot st k" using g by (simp add: gone_st_def file_part_def slot_def)
      have e: "st2 = set_nid (fs_ino st1) (924 + k) 0 True st1" using True s1 False by (simp add: st2_def)
      note G = slot_gone [OF ok k False g, folded e]
      have "dnode_at st2 k path = None" for path using G(2) [of k] by (simp add: dnode_at_def)
      then show ?thesis using G True Inr by (simp add: slot_kept_def)
    next
      case False2: False
      obtain d where d: "height k = Suc d" "0 < d" "kids d st st1 (slot st k) [ofs1..<1018]" "\<forall>i \<in> set [ofs1..<1018]. entry (fs_nodes st1) (slot st k) i = 0"
        using R Inr False2 by auto
      have p: "pruned_st (height k) st st1 (slot st k)" using d(1,3) by (simp add: kids_def)
      have e: "st2 = st1" using False2 by (simp add: st2_def)
      have "dnode_at st1 k (i # os) = None" if i: "ofs1 \<le> i" for i os
      proof (cases "i < 1018")
        case True
        then show ?thesis using kids_dnode_at(2) [OF d(3,1) slot_pruned(2) [OF ok k False p] d(2)] d(4) i by simp
      next
        case False
        then show ?thesis unfolding dnode_at_def d(1) using dlook_beyond [OF _ d(2)] by simp
      qed
      then show ?thesis using slot_kept_pruned [OF ok k False p] d Inr False2 e by auto
    qed
  qed
qed


section \<open>All slots from one on\<close>

text \<open>The positions of direct nodes, and truncations that keep those of a set.\<close>

definition dpos :: "nat \<Rightarrow> nat list \<Rightarrow> bool" where
  "dpos k p \<longleftrightarrow> k < 2 \<and> p = [] \<or> (k = 2 \<or> k = 3) \<and> (\<exists>i<1018. p = [i]) \<or> k = 4 \<and> (\<exists>i<1018. \<exists>j<1018. p = [i, j])"

definition cut :: "(nat \<Rightarrow> nat list \<Rightarrow> bool) \<Rightarrow> errno option \<Rightarrow> 'a fstate \<Rightarrow> 'a fstate \<Rightarrow> bool" where
  "cut keep ret st st' \<longleftrightarrow> file_pruned st st' \<and>
     (\<forall>k p. dpos k p \<longrightarrow> (if keep k p then dnode_at st' k p = dnode_at st k p else ret = None \<longrightarrow> dnode_at st' k p = None))"

lemma cutI:
  assumes "file_pruned st st'" "\<And>k p. dpos k p \<Longrightarrow> keep k p \<Longrightarrow> dnode_at st' k p = dnode_at st k p"
    "\<And>k p. dpos k p \<Longrightarrow> \<not> keep k p \<Longrightarrow> ret = None \<Longrightarrow> dnode_at st' k p = None"
  shows "cut keep ret st st'"
  using assms by (simp add: cut_def)

lemma cutD:
  assumes "cut keep ret st st'"
  shows "file_pruned st st'" "\<And>k p. dpos k p \<Longrightarrow> keep k p \<Longrightarrow> dnode_at st' k p = dnode_at st k p"
    "\<And>k p. dpos k p \<Longrightarrow> \<not> keep k p \<Longrightarrow> ret = None \<Longrightarrow> dnode_at st' k p = None"
  using assms by (auto simp: cut_def)

lemma cut_trans:
  assumes "cut keep1 None st st1" "cut keep2 ret st1 st2"
  shows "cut (\<lambda>k p. keep1 k p \<and> keep2 k p) ret st st2"
proof (rule cutI)
  note a = cutD [OF assms(1)] and b = cutD [OF assms(2)]
  show "file_pruned st st2" by (rule file_pruned_trans [OF a(1) b(1)])
  fix k p assume d: "dpos k p"
  show "dnode_at st2 k p = dnode_at st k p" if "keep1 k p \<and> keep2 k p" using a(2) [OF d] b(2) [OF d] that by simp
  show "dnode_at st2 k p = None" if k: "\<not> (keep1 k p \<and> keep2 k p)" "ret = None"
  proof (cases "keep1 k p")
    case True
    then show ?thesis using b(3) [OF d] k by simp
  next
    case False
    then have "dnode_at st1 k p = None" using a(3) [OF d] by simp
    then show ?thesis using file_prunedD(7) [OF b(1), of k p] by auto
  qed
qed

lemma cut_weaken: "cut keep1 ret st st' \<Longrightarrow> (\<And>k p. dpos k p \<Longrightarrow> keep k p \<Longrightarrow> keep1 k p) \<Longrightarrow> ret = None \<longrightarrow> keep = keep1 \<Longrightarrow> cut keep ret st st'"
  by (cases ret) (auto simp: cut_def)

lemma cut_cong: "cut keep1 ret st st' \<Longrightarrow> (\<And>k p. dpos k p \<Longrightarrow> dnode_at st k p = None \<or> keep k p = keep1 k p) \<Longrightarrow> cut keep ret st st'"
  unfolding cut_def file_pruned_def by (metis (no_types, lifting))

definition below :: "nat \<Rightarrow> nat \<Rightarrow> nat \<Rightarrow> nat list \<Rightarrow> bool" where
  "below k ofs1 k' p \<longleftrightarrow> k' \<noteq> k \<or> (case p of [] \<Rightarrow> False | i # _ \<Rightarrow> i < ofs1)"

lemma slot_kept_cut:
  assumes S: "slot_kept k ofs1 st st'" and e: "ret = None \<longrightarrow> (if ofs1 = 0 then \<forall>path. dnode_at st' k path = None else \<forall>i\<ge>ofs1. \<forall>os. dnode_at st' k (i # os) = None)"
    and o: "ofs1 = 0 \<or> 2 \<le> k \<or> slot st k = 0"
  shows "cut (below k ofs1) ret st st'"
proof (rule cutI)
  show F: "file_pruned st st'" using S by (simp add: slot_kept_def)
  fix k' p assume d: "dpos k' p"
  show "dnode_at st' k' p = dnode_at st k' p" if "below k ofs1 k' p"
    using S that by (cases p; cases "k' = k") (auto simp: slot_kept_def below_def)
  show "dnode_at st' k' p = None" if b: "\<not> below k ofs1 k' p" "ret = None"
  proof (cases p)
    case Nil
    then have "ofs1 = 0 \<or> slot st k = 0" using o d b by (auto simp: dpos_def below_def)
    moreover have "slot st k = 0 \<Longrightarrow> dnode_at st' k p = None" using file_prunedD(7) [OF F, of k p] by (auto simp: dnode_at_def)
    ultimately show ?thesis using e b by (auto simp: below_def)
  next
    case (Cons i os)
    then show ?thesis using e b by (cases "ofs1 = 0") (auto simp: below_def)
  qed
qed

lemma trunc_slots_cons:
  "trunc_slots sp io ((924 + k) # slots) ofs1 nofs err st =
     (let (ret, st1) = trunc_slot sp io k ofs1 nofs st;
          st2 = (if ofs1 = 0 \<and> slot st1 k \<noteq> 0 then set_nid (fs_ino st1) (924 + k) 0 True st1 else st1)
      in case ret of Inl e \<Rightarrow> if e \<noteq> ENOENT then (Some e, st1) else trunc_slots sp io slots 0 (nofs - 2) (Some ENOENT) st2
         | Inr r \<Rightarrow> trunc_slots sp io slots 0 (nofs + r) None st2)"
proof -
  have c: "int (924 + k) < NODE_IND1_BLOCK \<longleftrightarrow> k < 2" "int (924 + k) < NODE_DIND_BLOCK \<longleftrightarrow> k < 4" by auto
  have t: "(if int (924 + k) < NODE_IND1_BLOCK then truncate_dnode sp io (slot st k) st
      else truncate_nodes sp io (slot st k) (if int (924 + k) < NODE_DIND_BLOCK then 2 else 3) nofs ofs1 st) = trunc_slot sp io k ofs1 nofs st"
    unfolding c trunc_slot_def ..
  show ?thesis unfolding trunc_slots.simps(2) t Let_def get_nid_slot by (simp only: split_def)
qed

definition from_slot :: "nat \<Rightarrow> nat \<Rightarrow> nat \<Rightarrow> nat list \<Rightarrow> bool" where
  "from_slot k ofs1 k' p \<longleftrightarrow> k' < k \<or> k' = k \<and> (case p of [] \<Rightarrow> False | i # _ \<Rightarrow> i < ofs1)"

lemma trunc_slots_ok:
  assumes "k \<le> 5" "io_ok io" "trees_ok st" "ofs1 = 0 \<or> 2 \<le> k \<or> slot st k = 0" "trunc_slots sp io [924 + k..<929] ofs1 nofs None st = (ret, st')"
  shows "cut (from_slot k ofs1) ret st st' \<and> (\<forall>e. ret = Some e \<longrightarrow> read_fails io e)"
  using assms
proof (induction k arbitrary: ofs1 nofs st rule: inc_induct)
  case base
  then show ?case using no_slot [OF base(2)] file_pruned_refl [OF base(2)] by (auto simp: cut_def from_slot_def dpos_def)
next
  case (step k)
  obtain r1 st1 where t: "trunc_slot sp io k ofs1 nofs st = (r1, st1)" by fastforce
  define st2 where "st2 = (if ofs1 = 0 \<and> slot st1 k \<noteq> 0 then set_nid (fs_ino st1) (924 + k) 0 True st1 else st1)"
  have l: "[924 + k..<929] = (924 + k) # [924 + Suc k..<929]" using step.hyps by (simp add: upt_conv_Cons)
  note T = trunc_slot_ok [OF step.prems(2) step.hyps(2) step.prems(1,3) t, folded st2_def]
  have run: "(case r1 of Inl e \<Rightarrow> if e \<noteq> ENOENT then (Some e, st1) else trunc_slots sp io [924 + Suc k..<929] 0 (nofs - 2) (Some ENOENT) st2
         | Inr r \<Rightarrow> trunc_slots sp io [924 + Suc k..<929] 0 (nofs + r) None st2) = (ret, st')"
    using step.prems(4) unfolding l trunc_slots_cons t Let_def prod.case st2_def .
  show ?case
  proof (cases r1)
    case (Inl e)
    then have e: "read_fails io e" "slot_kept k ofs1 st st1" using T by auto
    then have r: "ret = Some e" "st' = st1" using run Inl by (auto simp: read_fails_def)
    have "cut (below k ofs1) ret st st'" using slot_kept_cut [OF e(2) _ step.prems(3)] r by simp
    then have "cut (from_slot k ofs1) ret st st'" by (rule cut_weaken) (auto simp: r below_def from_slot_def)
    then show ?thesis using e(1) r(1) by simp
  next
    case (Inr r)
    have c1: "cut (below k ofs1) None st st2" by (rule slot_kept_cut [OF _ _ step.prems(3)]) (use T Inr in \<open>simp_all split: if_splits\<close>)
    have r: "trunc_slots sp io [924 + Suc k..<929] 0 (nofs + r) None st2 = (ret, st')" using run Inr by simp
    have I: "cut (from_slot (Suc k) 0) ret st2 st' \<and> (\<forall>e. ret = Some e \<longrightarrow> read_fails io e)"
      by (rule step.IH [OF step.prems(1) file_pruned_ok [OF cutD(1) [OF c1]] _ r]) simp
    have eq: "(\<lambda>k' p. below k ofs1 k' p \<and> from_slot (Suc k) 0 k' p) = from_slot k ofs1"
      by (auto simp: fun_eq_iff below_def from_slot_def split: list.splits)
    show ?thesis using cut_trans [OF c1 conjunct1 [OF I]] I unfolding eq by simp
  qed
qed

end
