(* ===== verification/Node_Cut.thy ===== *)
theory Node_Cut
  imports Node_Trunc
begin

text \<open>
  Truncation of a whole file (\<^verbatim>\<open>truncate_inode_blocks\<close>, \<^verbatim>\<open>node.c\<close>; \<^verbatim>\<open>truncate_blocks\<close>, \<^verbatim>\<open>file.c\<close>): the addresses of a file as a function of the block index,
  and what truncation does to them.
\<close>

declare trunc_slots.simps [simp del]

section \<open>The indirect node in which the cut lies\<close>

lemma partial2:
  assumes ok: "trees_ok st" and k: "k = 2 \<or> k = 3" and o1: "o1 \<noteq> 0" and io: "io_ok io"
    and t: "truncate_partial_nodes sp io [924 + k, o1, b] 2 st = (err, offset', st1)"
  shows "err = None \<and> st1 = st \<and> slot st k = 0 \<and> offset' = [924 + k, o1, b] \<or> err = None \<and> cut (below k o1) None st st1 \<and> offset' = [925 + k, 0, b] \<or>
    (\<exists>e. err = Some e \<and> read_fails io e \<and> cut (below k o1) err st st1)"
proof (cases "slot st k = 0")
  case True
  then show ?thesis using t by (simp add: truncate_partial_nodes_def get_nid_slot)
next
  case False
  have k5: "k < 5" and h: "height k = 2" using k by (auto simp: height_def)
  note S = slotD [OF ok k5 False, unfolded h]
  have p: "slot st k \<noteq> fs_ino st" using S(2) by (auto simp: numeral_2_eq_2 sub.simps)
  note page = tree_page [OF S(1) p, of io]
  show ?thesis
  proof (cases "rd_err io (slot st k)")
    case (Some e)
    then have "read_fails io e" using io by (auto simp: read_fails_def io_ok_def)
    moreover have "err = Some e \<and> st1 = st" using t False Some page by (simp add: truncate_partial_nodes_def get_nid_slot)
    moreover have "cut (below k o1) (Some e) st st" using file_pruned_refl [OF ok] by (simp add: cut_def)
    ultimately show ?thesis by blast
  next
    case None
    obtain r st2 where d: "trunc_dnodes sp io (slot st k) [o1..<1018] 0 st = (r, st2)" by fastforce
    note D = trunc_dnodes_ok [OF S io upt_below d]
    have K: "kids 1 st st2 (slot st k) [o1..<1018]" using D by blast
    have pr: "pruned_st (height k) st st2 (slot st k)" using K by (simp add: kids_def h numeral_2_eq_2)
    have "\<exists>d. height k = Suc d \<and> 0 < d \<and> kids d st st2 (slot st k) [o1..<1018]" using K h by (intro exI [of _ 1]) (simp add: numeral_2_eq_2)
    then have sk: "slot_kept k o1 st st2" using slot_kept_pruned [OF ok k5 False pr] by blast
    have run: "(case r of Inl e \<Rightarrow> (Some e, [924 + k, o1, b], st2) | Inr _ \<Rightarrow> (None, [925 + k, 0, b], st2)) = (err, offset', st1)"
      using t False None page d o1 by (simp add: truncate_partial_nodes_def get_nid_slot Let_def split: sum.splits)
    show ?thesis
    proof (cases r)
      case (Inl e)
      have "cut (below k o1) (Some e) st st2" using slot_kept_cut [OF sk, of "Some e"] k by auto
      then show ?thesis using run D Inl by auto
    next
      case (Inr n)
      have z: "dnode_at st2 k (i # os) = None" if i: "o1 \<le> i" for i os
      proof (cases "i < 1018")
        case True
        have "entry (fs_nodes st2) (slot st k) i = 0" using D Inr i True by auto
        then show ?thesis using kids_dnode_at(2) [OF K _ slot_pruned(2) [OF ok k5 False pr]] h by (simp add: numeral_2_eq_2)
      next
        case False
        then show ?thesis using dlook_beyond [of i 1] h by (simp add: dnode_at_def numeral_2_eq_2)
      qed
      then have "cut (below k o1) None st st2" using slot_kept_cut [OF sk, of None] k o1 by auto
      then show ?thesis using run Inr by auto
    qed
  qed
qed

text \<open>The cut lies below entry \<open>o1\<close> of the double indirect node, at \<open>o2\<close>.\<close>

definition beside :: "nat \<Rightarrow> nat \<Rightarrow> nat \<Rightarrow> nat list \<Rightarrow> bool" where
  "beside o1 o2 k p \<longleftrightarrow> k \<noteq> 4 \<or> hd p \<noteq> o1 \<or> hd (tl p) < o2"

lemma dlook_two: "dlook 2 N c (j # os) = (if 1018 \<le> j \<or> entry N c j = 0 then None else dlook 1 N (entry N c j) os)"
  by (simp add: numeral_2_eq_2 dlook.simps)

lemma dlook_three: "dlook 3 N c (i # os) = (if 1018 \<le> i \<or> entry N c i = 0 then None else dlook 2 N (entry N c i) os)"
  by (simp add: numeral_3_eq_3 numeral_2_eq_2 dlook.simps)

lemma dind_child:
  assumes ok: "trees_ok st" and s: "slot st 4 \<noteq> 0" and o1: "o1 < 1018" and c: "c = entry (fs_nodes st) (slot st 4) o1" "c \<noteq> 0"
    and K: "kids 1 st st1 c [o2..<1018]" and z: "ret = None \<longrightarrow> (\<forall>i \<in> set [o2..<1018]. entry (fs_nodes st1) c i = 0)"
  shows "cut (beside o1 o2) ret st st1"
proof (rule cutI)
  have h: "height 4 = 3" by (simp add: height_def)
  have two: "Suc 1 = 2" "Suc 2 = 3" by simp_all
  note S = slotD [OF ok _ s, simplified h, simplified]
  have p2: "pruned_st 2 st st1 c" using K unfolding kids_def two by blast
  note C = child_facts [of 2 st "slot st 4", unfolded two, OF S(1) _ o1 c]
  have K2: "kids 2 st st1 (slot st 4) [o1]" using child_pruned [of 2 st "slot st 4", unfolded two, OF S(1) _ o1 c p2] by simp
  have p3: "pruned_st (height 4) st st1 (slot st 4)" using K2 unfolding kids_def two h by blast
  note P = slot_pruned [OF ok _ s p3, simplified]
  show "file_pruned st st1" by (rule P(1))
  have "fs_nodes st1 (slot st 4) = fs_nodes st (slot st 4)" using p2 C(2) unfolding pruned_st_def pruned_def by auto
  then have e: "entry (fs_nodes st1) (slot st 4) i = entry (fs_nodes st) (slot st 4) i" for i by (rule entry_cong)
  have A: "dnode_at st1 4 (o1 # os) = dlook 2 (fs_nodes st1) c os" "dnode_at st 4 (o1 # os) = dlook 2 (fs_nodes st) c os" for os
    using P(2) s o1 c e by (simp_all add: dnode_at_def h dlook_three)
  fix k p assume d: "dpos k p"
  show "dnode_at st1 k p = dnode_at st k p" if b: "beside o1 o2 k p"
  proof (cases "k = 4")
    case True
    then obtain i j where p: "p = [i, j]" using d by (auto simp: dpos_def)
    show ?thesis
    proof (cases "i = o1")
      case True
      then have "j < o2" using b p \<open>k = 4\<close> by (simp add: beside_def)
      then have "dlook 2 (fs_nodes st1) c [j] = dlook 2 (fs_nodes st) c [j]" using K unfolding kids_def two by auto
      then show ?thesis using A True p \<open>k = 4\<close> by simp
    next
      case False
      then show ?thesis using kids_dnode_at(1) [OF K2 _ P(2), of i "[j]"] p \<open>k = 4\<close> h by simp
    qed
  next
    case False
    then show ?thesis using P(3) by simp
  qed
  show "dnode_at st1 k p = None" if b: "\<not> beside o1 o2 k p" "ret = None"
  proof -
    obtain j where p: "p = [o1, j]" "k = 4" "o2 \<le> j" "j < 1018" using d b by (auto simp: dpos_def beside_def)
    then have "entry (fs_nodes st1) c j = 0" using z b(2) by simp
    then show ?thesis using A p by (simp add: dlook_two)
  qed
qed

lemma partial3:
  assumes ok: "trees_ok st" and o1: "o1 < 1018" and o2: "o2 \<noteq> 0" and io: "io_ok io"
    and t: "truncate_partial_nodes sp io [928, o1, o2, b] 3 st = (err, offset', st1)"
  shows "(err = None \<or> err = Some ENOENT) \<and> st1 = st \<and> (slot st 4 = 0 \<or> entry (fs_nodes st) (slot st 4) o1 = 0) \<and> offset' = [928, o1, o2, b] \<or>
    err = None \<and> cut (beside o1 o2) None st st1 \<and> offset' = [928, o1 + 1, 0, b] \<or>
    (\<exists>e. err = Some e \<and> read_fails io e \<and> cut (beside o1 o2) err st st1)"
proof (cases "slot st 4 = 0")
  case True
  then show ?thesis using t get_nid_slot [of _ 4 st] by (simp add: truncate_partial_nodes_def)
next
  case False
  have h: "height 4 = 3" by (simp add: height_def)
  have two: "Suc 2 = 3" by simp
  note S = slotD [OF ok _ False, simplified h, simplified]
  let ?s = "slot st 4" let ?c = "entry (fs_nodes st) ?s o1"
  have p: "?s \<noteq> fs_ino st" using S(2) by (auto simp: numeral_3_eq_3 sub.simps)
  have page: "get_node_page io ?s st = rd_err io ?s" by (rule tree_page [OF S(1) p])
  define pp where "pp = partial_path io ?s [o1] st"
  have run: "(case pp of Inl e \<Rightarrow> (Some e, [928, o1, o2, b], st)
     | Inr page \<Rightarrow> (case trunc_dnodes sp io page [o2..<1018] 0 st of (Inl e, st) \<Rightarrow> (Some e, [928, o1, o2, b], st) | (Inr _, st) \<Rightarrow> (None, [928, o1 + 1, 0, b], st))) = (err, offset', st1)"
    using t False o2 get_nid_slot [of _ 4 st] by (simp add: truncate_partial_nodes_def pp_def Let_def numeral_3_eq_3 numeral_2_eq_2 split: sum.splits prod.splits)
  have stop: "?thesis" if "pp = Inl e" "read_fails io e" for e
  proof -
    have "cut (beside o1 o2) (Some e) st st" using file_pruned_refl [OF ok] by (simp add: cut_def)
    then show ?thesis using run that by auto
  qed
  show ?thesis
  proof (cases "rd_err io ?s")
    case (Some e)
    then have "pp = Inl e" using page by (simp add: pp_def)
    moreover have "read_fails io e" using Some io by (auto simp: read_fails_def io_ok_def)
    ultimately show ?thesis by (rule stop)
  next
    case None
    have pp: "pp = (case get_node_page io ?c st of Some e \<Rightarrow> Inl e | None \<Rightarrow> Inr ?c)" using None page by (simp add: pp_def get_nid_entry split: option.split)
    show ?thesis
    proof (cases "?c = 0")
      case True
      then have "pp = Inl ENOENT" using pp by (simp add: get_node_page_def)
      then show ?thesis using run True by auto
    next
      case c0: False
      note C = child_facts [of 2 st ?s, unfolded two, OF S(1) _ o1 refl c0]
      have ci: "?c \<noteq> fs_ino st" using C(3,4) S(2) by auto
      have pagec: "get_node_page io ?c st = rd_err io ?c" by (rule tree_page [OF _ ci]) (use C(1) in simp)
      show ?thesis
      proof (cases "rd_err io ?c")
        case (Some e)
        then have "pp = Inl e" using pp pagec by simp
        moreover have "read_fails io e" using Some io by (auto simp: read_fails_def io_ok_def)
        ultimately show ?thesis by (rule stop)
      next
        case None
        obtain r st2 where d: "trunc_dnodes sp io ?c [o2..<1018] 0 st = (r, st2)" by fastforce
        have ic: "fs_ino st \<notin> sub 2 (fs_nodes st) ?c" using C(3) S(2) by auto
        note D = trunc_dnodes_ok [OF C(1) ic io upt_below d, simplified]
        have ppc: "pp = Inr ?c" using pp pagec None by simp
        have run2: "(case r of Inl e \<Rightarrow> (Some e, [928, o1, o2, b], st2) | Inr _ \<Rightarrow> (None, [928, o1 + 1, 0, b], st2)) = (err, offset', st1)"
          using run unfolding ppc by (simp add: d split: sum.splits)
        have K: "kids 1 st st2 ?c [o2..<1018]" using D by simp
        show ?thesis
        proof (cases r)
          case (Inl e)
          have "cut (beside o1 o2) (Some e) st st2" by (rule dind_child [OF ok False o1 refl c0 K]) simp
          then show ?thesis using run2 Inl D by auto
        next
          case (Inr n)
          have "cut (beside o1 o2) None st st2" by (rule dind_child [OF ok False o1 refl c0 K]) (use D Inr in simp)
          then show ?thesis using run2 Inr by auto
        qed
      qed
    qed
  qed
qed


section \<open>\<^verbatim>\<open>truncate_inode_blocks\<close>\<close>

text \<open>The position of direct node number \<open>q\<close>, counted in the order of the block indices.\<close>

definition DNODES :: nat where "DNODES = 1038362"

definition npos :: "nat \<Rightarrow> nat \<times> nat list" where
  "npos q = (if q < 2 then (q, []) else if q < 1020 then (2, [q - 2]) else if q < 2038 then (3, [q - 1020]) else (4, [(q - 2038) div 1018, (q - 2038) mod 1018]))"

definition dnode :: "'a fstate \<Rightarrow> nat \<Rightarrow> nat list option" where
  "dnode st q = dnode_at st (fst (npos q)) (snd (npos q))"

lemma npos_dpos: "q < DNODES \<Longrightarrow> dpos (fst (npos q)) (snd (npos q))"
  by (auto simp: npos_def dpos_def DNODES_def)

lemma path_npos:
  assumes "q < DNODES" "b < 1018"
  shows "\<exists>noff. length noff = Suc (Suc (length (snd (npos q)))) \<and> get_node_path lay (addrs_per_inode lay + int q * 1018 + int b) =
    Inr (Suc (length (snd (npos q))), map int ((924 + fst (npos q)) # snd (npos q) @ [b]), noff)"
proof -
  consider "q < 2" | "2 \<le> q" "q < 1020" | "1020 \<le> q" "q < 2038" | "2038 \<le> q" by linarith
  then show ?thesis
  proof cases
    case 1
    then have "int q = 0 \<or> int q = 1" by auto
    from path_direct [OF this, of "int b" lay] show ?thesis using 1 assms by (simp add: npos_def)
  next
    case 2
    have e: "addrs_per_inode lay + int q * 1018 + int b = addrs_per_inode lay + 2036 + 0 * 1036324 + (int (q - 2) * 1018 + int b)" using 2 by (simp add: of_nat_diff)
    have r: "(int (q - 2) * 1018 + int b) div 1018 = int (q - 2)" "(int (q - 2) * 1018 + int b) mod 1018 = int b" using assms(2) by simp_all
    have l: "int (q - 2) * 1018 + int b < 1036324" using 2 assms(2) by (simp add: of_nat_diff)
    have p: "(0::int) = 0 \<or> (0::int) = 1" by simp
    have g: "0 \<le> int (q - 2) * 1018 + int b" by simp
    show ?thesis using 2 unfolding e by (simp only: path_indirect [OF p g l] r) (simp add: npos_def)
  next
    case 3
    have e: "addrs_per_inode lay + int q * 1018 + int b = addrs_per_inode lay + 2036 + 1 * 1036324 + (int (q - 1020) * 1018 + int b)" using 3 by (simp add: of_nat_diff)
    have r: "(int (q - 1020) * 1018 + int b) div 1018 = int (q - 1020)" "(int (q - 1020) * 1018 + int b) mod 1018 = int b" using assms(2) by simp_all
    have l: "int (q - 1020) * 1018 + int b < 1036324" using 3 assms(2) by (simp add: of_nat_diff)
    have p: "(1::int) = 0 \<or> (1::int) = 1" by simp
    have g: "0 \<le> int (q - 1020) * 1018 + int b" by simp
    show ?thesis using 3 unfolding e by (simp only: path_indirect [OF p g l] r) (simp add: npos_def)
  next
    case 4
    let ?q = "q - 2038"
    have e: "addrs_per_inode lay + int q * 1018 + int b = addrs_per_inode lay + 2036 + 2 * 1036324 + (int ?q * 1018 + int b)" using 4 by (simp add: of_nat_diff)
    have r: "(int ?q * 1018 + int b) div 1018 = int ?q" "(int ?q * 1018 + int b) mod 1018 = int b" using assms(2) by simp_all
    have l: "int ?q * 1018 + int b < 1054977832" using 4 assms by (simp add: of_nat_diff DNODES_def)
    have g: "0 \<le> int ?q * 1018 + int b" by simp
    have r2: "(int ?q * 1018 + int b) div 1036324 = int (?q div 1018)" using r(1) zdiv_zmult2_eq [of 1018 "int ?q * 1018 + int b" 1018] by (simp add: zdiv_int)
    have r3: "int ?q mod 1018 = int (?q mod 1018)" by (simp add: zmod_int)
    show ?thesis unfolding e by (simp only: path_dindirect [OF g l] r r2 r3) (use 4 in \<open>simp add: npos_def\<close>)
  qed
qed


definition dnum :: "nat \<Rightarrow> nat list \<Rightarrow> nat" where
  "dnum k p = (if k < 2 then k else if k < 4 then 2 + (k - 2) * 1018 + hd p else 2038 + hd p * 1018 + hd (tl p))"

lemma dnum_npos: "q < DNODES \<Longrightarrow> dnum (fst (npos q)) (snd (npos q)) = q"
  by (auto simp: npos_def dnum_def DNODES_def)

lemma dpos_cases:
  assumes "dpos k p"
  obtains "k < 2" "p = []" "dnum k p = k" | i where "k = 2" "p = [i]" "i < 1018" "dnum k p = 2 + i" | i where "k = 3" "p = [i]" "i < 1018" "dnum k p = 1020 + i"
    | i j where "k = 4" "p = [i, j]" "i < 1018" "j < 1018" "dnum k p = 2038 + i * 1018 + j"
  using assms by (auto simp: dpos_def dnum_def)

lemma dnum_slot: "dpos k' p \<Longrightarrow> from_slot k 0 k' p \<longleftrightarrow> k' < k"
  by (auto simp: from_slot_def split: list.splits)

definition keepq :: "nat \<Rightarrow> nat \<Rightarrow> nat list \<Rightarrow> bool" where
  "keepq q k p \<longleftrightarrow> dnum k p < q"

lemma keep_direct: "dpos k' p \<Longrightarrow> q < 2 \<Longrightarrow> from_slot q b k' p = keepq q k' p"
  by (auto elim!: dpos_cases simp: from_slot_def keepq_def)

lemma keep_indirect: "dpos k' p \<Longrightarrow> k = 2 \<or> k = 3 \<Longrightarrow> i < 1018 \<Longrightarrow> from_slot k i k' p = keepq (2 + (k - 2) * 1018 + i) k' p"
  by (auto elim!: dpos_cases simp: from_slot_def keepq_def)

lemma keep_indirect2: "dpos k' p \<Longrightarrow> k = 2 \<or> k = 3 \<Longrightarrow> i < 1018 \<Longrightarrow> (below k i k' p \<and> from_slot (Suc k) 0 k' p) = keepq (2 + (k - 2) * 1018 + i) k' p"
  by (auto elim!: dpos_cases simp: from_slot_def below_def keepq_def)

lemma keep_indirect3: "dpos k' p \<Longrightarrow> k = 2 \<or> k = 3 \<Longrightarrow> i < 1018 \<Longrightarrow> keepq (2 + (k - 2) * 1018 + i) k' p \<Longrightarrow> below k i k' p"
  by (auto elim!: dpos_cases simp: from_slot_def below_def keepq_def)

lemma keep_dindirect: "dpos k' p \<Longrightarrow> j < 1018 \<Longrightarrow> k' \<noteq> 4 \<or> hd p \<noteq> i \<or> j = 0 \<Longrightarrow> from_slot 4 i k' p = keepq (2038 + i * 1018 + j) k' p"
  by (auto elim!: dpos_cases simp: from_slot_def keepq_def)

lemma keep_dindirect2: "dpos k' p \<Longrightarrow> j < 1018 \<Longrightarrow> (beside i j k' p \<and> from_slot 4 (Suc i) k' p) = keepq (2038 + i * 1018 + j) k' p"
  by (auto elim!: dpos_cases simp: from_slot_def beside_def keepq_def)

lemma keep_dindirect3: "dpos k' p \<Longrightarrow> j < 1018 \<Longrightarrow> keepq (2038 + i * 1018 + j) k' p \<Longrightarrow> beside i j k' p"
  by (auto elim!: dpos_cases simp: from_slot_def beside_def keepq_def)

lemma cut_error: "cut keep1 (Some e) st st' \<Longrightarrow> (\<And>k p. dpos k p \<Longrightarrow> keep k p \<Longrightarrow> keep1 k p) \<Longrightarrow> cut keep (Some e) st st'"
  by (auto simp: cut_def)

text \<open>After the cut in an indirect node, all later slots.\<close>

lemma cut_indirect:
  assumes ok: "trees_ok st" and k: "k = 2 \<or> k = 3" and i: "i < 1018" and io: "io_ok io"
    and t: "(if i = 0 then trunc_slots sp io [924 + k..<929] i nofs None st
      else case truncate_partial_nodes sp io [924 + k, i, b] 2 st of
        (Some e, offset, st) \<Rightarrow> if e \<noteq> ENOENT then (Some e, st) else trunc_slots sp io [offset ! 0..<929] (offset ! 1) nofs' None st
      | (None, offset, st) \<Rightarrow> trunc_slots sp io [offset ! 0..<929] (offset ! 1) nofs' None st) = (ret, st')"
  shows "cut (keepq (2 + (k - 2) * 1018 + i)) ret st st' \<and> (\<forall>e. ret = Some e \<longrightarrow> read_fails io e)"
proof -
  have k5: "k \<le> 5" "2 \<le> k" "Suc k \<le> 5" using k by auto
  have whole: ?thesis if "trunc_slots sp io [924 + k..<929] i n None st = (ret, st')" for n
    using trunc_slots_ok [OF k5(1) io ok _ that] k5(2) cut_cong [of "from_slot k i" ret st st' "keepq (2 + (k - 2) * 1018 + i)"] keep_indirect [OF _ k i] by auto
  show ?thesis
  proof (cases "i = 0")
    case True
    show ?thesis by (rule whole [of nofs]) (use t True in simp_all)
  next
    case False
    obtain err off st1 where p: "truncate_partial_nodes sp io [924 + k, i, b] 2 st = (err, off, st1)" by (cases "truncate_partial_nodes sp io [924 + k, i, b] 2 st")
    from partial2 [OF ok k False io p] show ?thesis
    proof (elim disjE conjE exE)
      assume "err = None" "st1 = st" "off = [924 + k, i, b]"
      then have r: "trunc_slots sp io [924 + k..<929] i nofs' None st = (ret, st')" using t False p by simp
      then show ?thesis by (rule whole)
    next
      assume a: "err = None" "cut (below k i) None st st1" "off = [925 + k, 0, b]"
      then have r: "trunc_slots sp io [924 + Suc k..<929] 0 nofs' None st1 = (ret, st')" using t False p by simp
      note S = trunc_slots_ok [OF k5(3) io file_pruned_ok [OF cutD(1) [OF a(2)]] _ r, simplified]
      have "cut (keepq (2 + (k - 2) * 1018 + i)) ret st st'"
        using cut_cong [OF cut_trans [OF a(2) conjunct1 [OF S]]] keep_indirect2 [OF _ k i] by auto
      then show ?thesis using S by simp
    next
      fix e assume a: "err = Some e" "read_fails io e" "cut (below k i) err st st1"
      then have "ret = Some e" "st' = st1" using t False p by (auto simp: read_fails_def)
      then show ?thesis using a cut_error [of "below k i" e st st1] keep_indirect3 [OF _ k i] by auto
    qed
  qed
qed

lemma cut_dindirect:
  assumes ok: "trees_ok st" and i: "i < 1018" and j: "j < 1018" and io: "io_ok io"
    and t: "(if j = 0 then trunc_slots sp io [928..<929] i nofs None st
      else case truncate_partial_nodes sp io [928, i, j, b] 3 st of
        (Some e, offset, st) \<Rightarrow> if e \<noteq> ENOENT then (Some e, st) else trunc_slots sp io [offset ! 0..<929] (offset ! 1) nofs' None st
      | (None, offset, st) \<Rightarrow> trunc_slots sp io [offset ! 0..<929] (offset ! 1) nofs' None st) = (ret, st')"
  shows "cut (keepq (2038 + i * 1018 + j)) ret st st' \<and> (\<forall>e. ret = Some e \<longrightarrow> read_fails io e)"
proof -
  have slots: "cut (from_slot 4 m) ret st1 st' \<and> (\<forall>e. ret = Some e \<longrightarrow> read_fails io e)" if "trees_ok st1" "trunc_slots sp io [928..<929] m n None st1 = (ret, st')" for m n st1
    using trunc_slots_ok [of 4 io st1 m sp n ret st'] io that by simp
  have whole: ?thesis if r: "trunc_slots sp io [928..<929] i n None st = (ret, st')" and z: "j = 0 \<or> slot st 4 = 0 \<or> entry (fs_nodes st) (slot st 4) i = 0" for n
  proof -
    note S = slots [OF ok r]
    have "dnode_at st k p = None \<or> keepq (2038 + i * 1018 + j) k p = from_slot 4 i k p" if d: "dpos k p" for k p
    proof (cases "k \<noteq> 4 \<or> hd p \<noteq> i \<or> j = 0")
      case True
      then show ?thesis using keep_dindirect [OF d j True] by simp
    next
      case False
      then obtain m where "k = 4" "p = [i, m]" "j \<noteq> 0" using d by (auto simp: dpos_def)
      then have "dnode_at st k p = None" using z by (auto simp: dnode_at_def height_def dlook_three)
      then show ?thesis by simp
    qed
    then show ?thesis using S cut_cong [of "from_slot 4 i" ret st st'] by blast
  qed
  show ?thesis
  proof (cases "j = 0")
    case True
    show ?thesis by (rule whole [of nofs]) (use t True in simp_all)
  next
    case False
    obtain err off st1 where p: "truncate_partial_nodes sp io [928, i, j, b] 3 st = (err, off, st1)" by (cases "truncate_partial_nodes sp io [928, i, j, b] 3 st")
    from partial3 [OF ok i False io p] show ?thesis
    proof (elim disjE)
      assume "(err = None \<or> err = Some ENOENT) \<and> st1 = st \<and> (slot st 4 = 0 \<or> entry (fs_nodes st) (slot st 4) i = 0) \<and> off = [928, i, j, b]"
      then show ?thesis using whole [of nofs'] t False p by auto
    next
      assume "err = None \<and> cut (beside i j) None st st1 \<and> off = [928, i + 1, 0, b]"
      then have a: "err = None" "cut (beside i j) None st st1" "off = [928, i + 1, 0, b]" by auto
      then have r: "trunc_slots sp io [928..<929] (Suc i) nofs' None st1 = (ret, st')" using t False p by simp
      note S = slots [OF file_pruned_ok [OF cutD(1) [OF a(2)]] r]
      have "cut (keepq (2038 + i * 1018 + j)) ret st st'"
        using cut_cong [OF cut_trans [OF a(2) conjunct1 [OF S]]] keep_dindirect2 [OF _ j] by auto
      then show ?thesis using S by simp
    next
      assume "\<exists>e. err = Some e \<and> read_fails io e \<and> cut (beside i j) err st st1"
      then obtain e where a: "err = Some e" "read_fails io e" "cut (beside i j) err st st1" by blast
      then have "ret = Some e" "st' = st1" using t False p by (auto simp: read_fails_def)
      then show ?thesis using a cut_error [of "beside i j" e st st1] keep_dindirect3 [OF _ j] by auto
    qed
  qed
qed


lemma dnode_slot: "trees_ok st \<Longrightarrow> q < 2 \<Longrightarrow> dnode st q = None \<Longrightarrow> slot st q = 0"
  using slotD(1) [of st q] tree_ok_len [of 1 "fs_nodes st" "slot st q"] by (auto simp: dnode_def npos_def dnode_at_def height_def dlook.simps split: if_splits)

lemma truncate_inode_blocks_cut:
  assumes ok: "trees_ok st" and io: "io_ok io" and q: "q < DNODES" and b: "b < 1018" and z: "b = 0 \<or> 2 \<le> q \<or> dnode st q = None"
    and page: "get_node_page io (fs_ino st) st = rd_err io (fs_ino st)"
    and t: "truncate_inode_blocks sp io (addrs_per_inode (fs_layout st) + int q * 1018 + int b) st = (ret, st')"
  shows "cut (keepq q) ret st st' \<and> (\<forall>e. ret = Some e \<longrightarrow> read_fails io e)"
proof -
  obtain noff where path: "get_node_path (fs_layout st) (addrs_per_inode (fs_layout st) + int q * 1018 + int b) =
      Inr (Suc (length (snd (npos q))), map int ((924 + fst (npos q)) # snd (npos q) @ [b]), noff)"
    using path_npos [OF q b, of "fs_layout st"] by blast
  have mm: "map nat (map int xs) = xs" for xs by (simp add: comp_def)
  show ?thesis
  proof (cases "rd_err io (fs_ino st)")
    case (Some e)
    then have "ret = Some e" "st' = st" "read_fails io e" using t path page io by (auto simp: truncate_inode_blocks_def read_fails_def io_ok_def)
    then show ?thesis using file_pruned_refl [OF ok] by (simp add: cut_def)
  next
    case None
    note run = t [unfolded truncate_inode_blocks_def path sum.case prod.case page None option.case mm Let_def]
    have lv: "Suc (length [x]) = 2" "Suc (length [x, y]) = 3" "((2::nat) = 2) = True" "((3::nat) = 3) = True" "((2::nat) = 3) = False" "((3::nat) = 2) = False"
      "((2::nat) = 0) = False" "((3::nat) = 0) = False" "Suc (nat NODE_DIND_BLOCK) = 929" "(924::nat) + 2 = 926" "(924::nat) + 3 = 927" "(924::nat) + 4 = 928" for x y :: nat by simp_all
    consider "q < 2" | "2 \<le> q" "q < 1020" | "1020 \<le> q" "q < 2038" | "2038 \<le> q" by linarith
    then show ?thesis
    proof cases
      case 1
      then have r: "trunc_slots sp io [924 + q..<929] b (noff ! 1) None st = (ret, st')" using run by (simp add: npos_def)
      have "b = 0 \<or> 2 \<le> q \<or> slot st q = 0" using z dnode_slot [OF ok 1] by metis
      note S = trunc_slots_ok [OF _ io ok this r]
      have "cut (from_slot q b) ret st st'" using S 1 by simp
      then have "cut (keepq q) ret st st'" by (rule cut_cong) (use keep_direct 1 in simp)
      then show ?thesis using S 1 by simp
    next
      case 2
      let ?n = "noff ! 1"
      have e: "q = 2 + (2 - 2) * 1018 + (q - 2)" using 2 by simp
      have n: "npos q = (2, [q - 2])" using 2 by (simp add: npos_def)
      show ?thesis by (subst e, rule cut_indirect [OF ok _ _ io, where sp = sp and nofs = ?n and b = b and nofs' = "?n + (1 + NIDS_PER_BLOCK)"]) (use 2 run [unfolded n snd_conv fst_conv lv if_True if_False append_Cons append_Nil] in \<open>simp_all split: if_splits\<close>)
    next
      case 3
      let ?n = "noff ! 1"
      have e: "q = 2 + (3 - 2) * 1018 + (q - 1020)" using 3 by simp
      have n: "npos q = (3, [q - 1020])" using 3 by (simp add: npos_def)
      show ?thesis by (subst e, rule cut_indirect [OF ok _ _ io, where sp = sp and nofs = ?n and b = b and nofs' = "?n + (1 + NIDS_PER_BLOCK)"]) (use 3 run [unfolded n snd_conv fst_conv lv if_True if_False append_Cons append_Nil] in \<open>simp_all split: if_splits\<close>)
    next
      case 4
      have e: "q = 2038 + (q - 2038) div 1018 * 1018 + (q - 2038) mod 1018" using 4 by simp
      have n: "npos q = (4, [(q - 2038) div 1018, (q - 2038) mod 1018])" using 4 by (simp add: npos_def)
      show ?thesis by (subst e, rule cut_dindirect [OF ok _ _ io, where sp = sp and nofs = "5 + 2 * NIDS_PER_BLOCK" and b = b and nofs' = "5 + 2 * NIDS_PER_BLOCK"]) (use 4 run [unfolded n snd_conv fst_conv lv if_True if_False append_Cons append_Nil] q in \<open>simp_all add: DNODES_def split: if_splits\<close>)
    qed
  qed
qed

end
