(* ===== verification/Node_File.thy ===== *)
theory Node_File
  imports Node_Cut
begin

text \<open>
  A whole file as a function from block indices to addresses: the lookup of \<^verbatim>\<open>get_dnode_of_data\<close> (\<^verbatim>\<open>node.c\<close>) finds them, and \<^verbatim>\<open>truncate_blocks\<close> (\<^verbatim>\<open>file.c\<close>) turns exactly those from
  the cut on into holes.
\<close>

section \<open>The addresses of a file\<close>

primrec leaf :: "nat \<Rightarrow> (nat \<rightharpoonup> fnode) \<Rightarrow> nat \<Rightarrow> nat list \<Rightarrow> nat option" where
  "leaf 0 N c p = None"
| "leaf (Suc d) N c p = (if d = 0 then Some c else case p of [] \<Rightarrow> None | i # p \<Rightarrow> if 1018 \<le> i \<or> entry N c i = 0 then None else leaf d N (entry N c i) p)"

lemma leaf_dlook: "tree_ok d N c \<Longrightarrow> dlook d N c p = (case leaf d N c p of None \<Rightarrow> None | Some x \<Rightarrow> map_option nd_entries (N x))"
  by (induction d arbitrary: c p) (auto simp: dlook.simps tree_ok.simps split: list.splits)

lemma leaf_sub: "tree_ok d N c \<Longrightarrow> leaf d N c p = Some x \<Longrightarrow> x \<in> sub d N c"
proof (induction d arbitrary: c p)
  case (Suc d)
  show ?case
  proof (cases "d = 0")
    case False
    then obtain i os where p: "p = i # os" "i < 1018" "entry N c i \<noteq> 0" "leaf d N (entry N c i) os = Some x"
      using Suc.prems(2) by (auto split: list.splits if_splits)
    then have "x \<in> sub d N (entry N c i)" using Suc.IH Suc.prems(1) False by (auto simp: tree_ok.simps)
    then show ?thesis using p False by (auto simp: sub.simps)
  qed (use Suc.prems in \<open>simp add: sub.simps\<close>)
qed simp

lemma leaf_node: "tree_ok d N c \<Longrightarrow> leaf d N c p = Some x \<Longrightarrow> \<exists>n. N x = Some n \<and> length (nd_entries n) = 1018"
proof (induction d arbitrary: c p)
  case (Suc d)
  show ?case
  proof (cases "d = 0")
    case False
    then obtain i os where p: "p = i # os" "i < 1018" "entry N c i \<noteq> 0" "leaf d N (entry N c i) os = Some x"
      using Suc.prems(2) by (auto split: list.splits if_splits)
    then show ?thesis using Suc.IH Suc.prems(1) False by (auto simp: tree_ok.simps)
  qed (use Suc.prems in \<open>auto simp: tree_ok.simps\<close>)
qed simp

definition leaf_at :: "'a fstate \<Rightarrow> nat \<Rightarrow> nat option" where
  "leaf_at st q = (let (k, p) = npos q in if slot st k = 0 then None else leaf (height k) (fs_nodes st) (slot st k) p)"

lemma npos_slot: "q < DNODES \<Longrightarrow> fst (npos q) < 5"
  by (auto simp: npos_def)

lemma leaf_at_facts:
  assumes "trees_ok st" "q < DNODES" "leaf_at st q = Some x"
  shows "x \<in> owned st" "x \<noteq> fs_ino st" "\<exists>n. fs_nodes st x = Some n \<and> length (nd_entries n) = 1018 \<and> dnode st q = Some (nd_entries n)"
proof -
  obtain k p where kp: "npos q = (k, p)" by fastforce
  have k: "k < 5" using npos_slot [OF assms(2)] kp by simp
  have s: "slot st k \<noteq> 0" and l: "leaf (height k) (fs_nodes st) (slot st k) p = Some x" using assms(3) kp by (auto simp: leaf_at_def split: if_splits)
  note S = slotD [OF assms(1) k s]
  have x: "x \<in> sub (height k) (fs_nodes st) (slot st k)" by (rule leaf_sub [OF S(1) l])
  then show "x \<in> owned st" "x \<noteq> fs_ino st" using k s S(2) by (auto simp: owned_def slot_sub_def)
  obtain n where n: "fs_nodes st x = Some n" "length (nd_entries n) = 1018" using leaf_node [OF S(1) l] by blast
  then have "dnode st q = Some (nd_entries n)" using leaf_dlook [OF S(1), of p] l s kp by (simp add: dnode_def dnode_at_def)
  then show "\<exists>n. fs_nodes st x = Some n \<and> length (nd_entries n) = 1018 \<and> dnode st q = Some (nd_entries n)" using n by blast
qed

lemma leaf_at_none:
  assumes "trees_ok st" "q < DNODES" "leaf_at st q = None"
  shows "dnode st q = None"
proof -
  obtain k p where kp: "npos q = (k, p)" by fastforce
  have k: "k < 5" using npos_slot [OF assms(2)] kp by simp
  show ?thesis
  proof (cases "slot st k = 0")
    case False
    then show ?thesis using leaf_dlook [OF slotD(1) [OF assms(1) k False], of p] assms(3) kp by (simp add: leaf_at_def dnode_def dnode_at_def)
  qed (simp add: dnode_def dnode_at_def kp)
qed

section \<open>Changing one direct node\<close>

lemma leaf_update:
  assumes "tree_ok d N c" "leaf d N c p = Some x" "N x = Some n" "length es = 1018" "N' = N(x \<mapsto> n\<lparr>nd_entries := es\<rparr>)" "length p = d - 1"
    "filter_mset (\<lambda>a. a \<noteq> 0) (mset (nd_entries n)) = R + filter_mset (\<lambda>a. a \<noteq> 0) (mset es)"
  shows "sub d N' c = sub d N c \<and> tree_ok d N' c \<and> R + tblocks d N' c = tblocks d N c \<and>
    (\<forall>p'. length p' = d - 1 \<longrightarrow> dlook d N' c p' = (if p' = p then Some es else dlook d N c p'))"
  using assms
proof (induction d arbitrary: c p)
  case (Suc d)
  show ?case
  proof (cases "d = 0")
    case True
    then have c: "c = x" and p: "p = []" using Suc.prems by auto
    have "tree_ok (Suc d) N' c" using Suc.prems(1,3,4,5) True c by (simp add: tree_ok.simps)
    moreover have "R + tblocks (Suc d) N' c = tblocks (Suc d) N c" using Suc.prems(3,5,7) True c by (simp add: tblocks.simps)
    moreover have "sub (Suc d) N' c = sub (Suc d) N c" using True by (simp add: sub.simps)
    moreover have "dlook (Suc d) N' c p' = Some es" for p' using Suc.prems(3,5) True c by (simp add: dlook.simps)
    ultimately show ?thesis using True p by simp
  next
    case False
    then obtain i os where p: "p = i # os" "i < 1018" "entry N c i \<noteq> 0" "leaf d N (entry N c i) os = Some x" "length os = d - 1"
      using Suc.prems(2,6) by (auto split: list.splits if_splits)
    let ?e = "entry N c"
    have ch: "tree_ok d N (?e j)" "c \<notin> sub d N (?e j)" if "j < 1018" "?e j \<noteq> 0" for j using Suc.prems(1) False that by (simp_all add: tree_ok.simps)
    have dis: "sub d N (?e j) \<inter> sub d N (?e k) = {}" if "j < 1018" "k < 1018" "j \<noteq> k" "?e j \<noteq> 0" "?e k \<noteq> 0" for j k
      using Suc.prems(1) False that by (simp add: tree_ok.simps)
    have x: "x \<in> sub d N (?e i)" using leaf_sub [OF ch(1) [OF p(2,3)] p(4)] .
    then have cx: "c \<noteq> x" using ch(2) [OF p(2,3)] by auto
    have Nc: "N' c = N c" using Suc.prems(5) cx by simp
    have e: "entry N' c j = ?e j" for j using Nc by (rule entry_cong)
    note IH = Suc.IH [OF ch(1) [OF p(2,3)] p(4) Suc.prems(3,4,5) p(5) Suc.prems(7)]
    have oth: "sub d N' (?e j) = sub d N (?e j) \<and> tblocks d N' (?e j) = tblocks d N (?e j) \<and> tree_ok d N' (?e j) = tree_ok d N (?e j) \<and> dlook d N' (?e j) os = dlook d N (?e j) os"
      if "j < 1018" "j \<noteq> i" "?e j \<noteq> 0" for j os
    proof (rule tree_agree, rule ballI)
      fix m assume "m \<in> sub d N (?e j)"
      then have "m \<noteq> x" using dis [of j i] that p x by auto
      then show "N' m = N m" using Suc.prems(5) by simp
    qed
    have s: "sub d N' (?e j) = sub d N (?e j)" "tree_ok d N' (?e j)" if "j < 1018" "?e j \<noteq> 0" for j
      using that oth [of j] IH ch(1) [OF that] by (cases "j = i"; simp)+
    have S: "sub (Suc d) N' c = sub (Suc d) N c"
    proof -
      have "(\<Union>j<1018. if entry N' c j = 0 then {} else sub d N' (entry N' c j)) = (\<Union>j<1018. if ?e j = 0 then {} else sub d N (?e j))"
        by (rule SUP_cong) (use s e in auto)
      then show ?thesis using False by (simp add: sub.simps)
    qed
    have O: "tree_ok (Suc d) N' c"
      using Suc.prems(1) Nc s by (simp add: tree_ok.simps e) blast
    have T: "R + tblocks (Suc d) N' c = tblocks (Suc d) N c"
    proof -
      have m: "(\<Sum>j\<in>{..<1018} - {i}. if entry N' c j = 0 then {#} else tblocks d N' (entry N' c j)) = (\<Sum>j\<in>{..<1018} - {i}. if ?e j = 0 then {#} else tblocks d N (?e j))"
        by (rule sum.cong [OF refl]) (use oth e in auto)
      have "(\<Sum>j<1018. if entry N' c j = 0 then {#} else tblocks d N' (entry N' c j)) = tblocks d N' (?e i) + (\<Sum>j\<in>{..<1018} - {i}. if ?e j = 0 then {#} else tblocks d N (?e j))"
        using p(2,3) e m by (subst sum.remove [of "{..<1018}" i]) auto
      moreover have "(\<Sum>j<1018. if ?e j = 0 then {#} else tblocks d N (?e j)) = tblocks d N (?e i) + (\<Sum>j\<in>{..<1018} - {i}. if ?e j = 0 then {#} else tblocks d N (?e j))"
        using p(2,3) by (subst sum.remove [of "{..<1018}" i]) auto
      ultimately show ?thesis using IH False Nc by (simp add: tblocks.simps add.assoc [symmetric])
    qed
    have L: "dlook (Suc d) N' c p' = (if p' = p then Some es else dlook (Suc d) N c p')" if l: "length p' = d" for p'
    proof (cases p')
      case Nil
      then show ?thesis using l False by simp
    next
      case (Cons j os')
      show ?thesis
      proof (cases "j = i")
        case True
        then show ?thesis using IH l Cons p False by (simp add: dlook.simps e)
      next
        case False
        then show ?thesis using oth [of j os'] Cons p \<open>d \<noteq> 0\<close> by (simp add: dlook.simps e)
      qed
    qed
    show ?thesis using S O T L by simp
  qed
qed simp


definition put_node :: "nat \<Rightarrow> fnode \<Rightarrow> 'a fstate \<Rightarrow> 'a fstate \<Rightarrow> bool" where
  "put_node x n st st' \<longleftrightarrow> fs_nodes st' = (fs_nodes st)(x \<mapsto> n) \<and> fs_i_nid st' = fs_i_nid st \<and> fs_ino st' = fs_ino st"

lemma npos_inj: "q < DNODES \<Longrightarrow> q' < DNODES \<Longrightarrow> npos q = npos q' \<Longrightarrow> q = q'"
  using dnum_npos by metis

lemma npos_length: "q < DNODES \<Longrightarrow> length (snd (npos q)) = height (fst (npos q)) - 1"
  by (auto simp: npos_def height_def)

lemma dnode_update:
  assumes ok: "trees_ok st" and q: "q < DNODES" and l: "leaf_at st q = Some x" and n: "fs_nodes st x = Some n" and es: "length es = 1018"
    and u: "put_node x (n\<lparr>nd_entries := es\<rparr>) st st'"
    and R: "filter_mset (\<lambda>a. a \<noteq> 0) (mset (nd_entries n)) = R + filter_mset (\<lambda>a. a \<noteq> 0) (mset es)"
  shows "trees_ok st'" "owned st' = owned st" "R + tree_blocks st' = tree_blocks st" "q' < DNODES \<Longrightarrow> dnode st' q' = (if q' = q then Some es else dnode st q')"
proof -
  obtain k p where kp: "npos q = (k, p)" by fastforce
  have k: "k < 5" using npos_slot [OF q] kp by simp
  have s: "slot st k \<noteq> 0" and lf: "leaf (height k) (fs_nodes st) (slot st k) p = Some x" using l kp by (auto simp: leaf_at_def split: if_splits)
  have U: "fs_nodes st' = (fs_nodes st)(x \<mapsto> n\<lparr>nd_entries := es\<rparr>)" "fs_i_nid st' = fs_i_nid st" "fs_ino st' = fs_ino st" using u by (simp_all add: put_node_def)
  have sl: "slot st' j = slot st j" for j by (simp add: slot_def U)
  note S = slotD [OF ok k s]
  have len: "length p = height k - 1" using npos_length [OF q] kp by simp
  note L = leaf_update [OF S(1) lf n es U(1) len R]
  have x: "x \<in> slot_sub st k" using leaf_sub [OF S(1) lf] s by (simp add: slot_sub_def)
  have D: "slot_sub st i \<inter> slot_sub st j = {}" if "i < 5" "j < 5" "i \<noteq> j" for i j using ok that unfolding trees_ok_def by blast
  have oth: "sub (height j) (fs_nodes st') (slot st j) = sub (height j) (fs_nodes st) (slot st j) \<and> tblocks (height j) (fs_nodes st') (slot st j) = tblocks (height j) (fs_nodes st) (slot st j) \<and>
      tree_ok (height j) (fs_nodes st') (slot st j) = tree_ok (height j) (fs_nodes st) (slot st j) \<and>
      dlook (height j) (fs_nodes st') (slot st j) path = dlook (height j) (fs_nodes st) (slot st j) path" if "j < 5" "j \<noteq> k" "slot st j \<noteq> 0" for j path
  proof (rule tree_agree, rule ballI)
    fix m assume "m \<in> sub (height j) (fs_nodes st) (slot st j)"
    then have "m \<noteq> x" using D [of j k] that k x by (auto simp: slot_sub_def)
    then show "fs_nodes st' m = fs_nodes st m" by (simp add: U)
  qed
  have ss: "slot_sub st' j = slot_sub st j" "slot st j \<noteq> 0 \<Longrightarrow> tree_ok (height j) (fs_nodes st') (slot st j)" if "j < 5" for j
    using oth [OF that] L slotD(1) [OF ok that] by (cases "j = k"; auto simp: slot_sub_def sl)+
  show "owned st' = owned st" unfolding owned_def using ss(1) by auto
  show "trees_ok st'" using ok ss unfolding trees_ok_def sl by (simp add: U)
  show "R + tree_blocks st' = tree_blocks st"
  proof -
    have m: "(\<Sum>j\<in>{..<5} - {k}. slot_blocks st' j) = (\<Sum>j\<in>{..<5} - {k}. slot_blocks st j)"
      by (rule sum.cong [OF refl]) (use oth in \<open>auto simp: slot_blocks_def sl\<close>)
    have "tree_blocks st' = slot_blocks st' k + (\<Sum>j\<in>{..<5} - {k}. slot_blocks st' j)" "tree_blocks st = slot_blocks st k + (\<Sum>j\<in>{..<5} - {k}. slot_blocks st j)"
      unfolding tree_blocks_def using k by (subst sum.remove [of "{..<5}" k]; simp)+
    moreover have "R + slot_blocks st' k = slot_blocks st k" using L s by (simp add: slot_blocks_def sl)
    ultimately show ?thesis using m by (simp add: add.assoc [symmetric])
  qed
  show "dnode st' q' = (if q' = q then Some es else dnode st q')" if q': "q' < DNODES" for q'
  proof -
    obtain k' p' where kp': "npos q' = (k', p')" by fastforce
    have k': "k' < 5" and len': "length p' = height k' - 1" using npos_slot [OF q'] npos_length [OF q'] kp' by auto
    show ?thesis
    proof (cases "k' = k")
      case True
      have "p' = p \<longleftrightarrow> q' = q" using npos_inj [OF q' q] kp kp' True by auto
      then show ?thesis using L len' True s kp' by (simp add: dnode_def dnode_at_def sl)
    next
      case False
      then have "q' \<noteq> q" using kp kp' by auto
      then show ?thesis using oth [OF k' False, of p'] kp' by (cases "slot st k' = 0") (auto simp: dnode_def dnode_at_def sl)
    qed
  qed
qed

section \<open>Lookup\<close>

definition file_addr :: "'a fstate \<Rightarrow> nat \<Rightarrow> nat" where
  "file_addr st i =
     (let D = nat (addrs_per_inode (fs_layout st))
      in if i < D then arr_get 0 (fs_addr st) i
         else if (i - D) div 1018 < DNODES then (case dnode st ((i - D) div 1018) of None \<Rightarrow> 0 | Some es \<Rightarrow> arr_get 0 es ((i - D) mod 1018))
         else 0)"

definition file_ok :: "'a fstate \<Rightarrow> bool" where
  "file_ok st \<longleftrightarrow> layout_ok (fs_layout st) \<and> length (fs_addr st) = nat (addrs_per_inode (fs_layout st)) \<and> fs_inline st = None \<and> fs_ino st \<noteq> 0 \<and> fs_inode_blk st \<noteq> None \<and> trees_ok st"

lemma file_ok_page: "file_ok st \<Longrightarrow> get_node_page io (fs_ino st) st = rd_err io (fs_ino st)"
  by (auto simp: file_ok_def get_node_page_def split: option.split)

lemma walk_lookup:
  assumes "tree_ok d (fs_nodes st) c" "fs_ino st \<notin> sub d (fs_nodes st) c" "length p = d - 1" "length noffs = length p" "\<forall>i \<in> set p. i < 1018" "io_ok io"
    "dnode_walk sp io False c False (p @ [b]) noffs lvl st = (r, lvl', st')"
  shows "st' = st \<and> (case r of Inr x \<Rightarrow> leaf d (fs_nodes st) c p = Some x | Inl e \<Rightarrow> e = ENOENT \<and> leaf d (fs_nodes st) c p = None \<or> read_fails io e)"
  using assms
proof (induction d arbitrary: c p noffs lvl)
  case (Suc d)
  show ?case
  proof (cases p)
    case Nil
    then have "d = 0" using Suc.prems(3) by simp
    then show ?thesis using Suc.prems(7) Nil by auto
  next
    case (Cons i os)
    then obtain m noffs' where n: "noffs = m # noffs'" using Suc.prems(4) by (cases noffs) auto
    have d: "0 < d" and i: "i < 1018" using Suc.prems(3,5) Cons by auto
    let ?c = "entry (fs_nodes st) c i"
    obtain o2 offs where oo: "os @ [b] = o2 # offs" by (cases os) auto
    have run: "(case get_node_page io ?c st of Some e \<Rightarrow> (Inl e, lvl, st) | None \<Rightarrow> dnode_walk sp io False ?c False (os @ [b]) noffs' (lvl + 1) st) = (r, lvl', st')"
      using Suc.prems(7) unfolding Cons n append_Cons oo by (simp add: get_nid_entry Let_def)
    show ?thesis
    proof (cases "?c = 0")
      case True
      then have "r = Inl ENOENT" "st' = st" using run by (auto simp: get_node_page_def)
      then show ?thesis using True Cons d by simp
    next
      case False
      note C = child_facts [OF Suc.prems(1) d i refl False]
      have ino: "fs_ino st \<notin> sub d (fs_nodes st) ?c" using C(3) Suc.prems(2) by auto
      have "?c \<noteq> fs_ino st" using C(4) ino by auto
      note page = tree_page [OF C(1) this, of io]
      show ?thesis
      proof (cases "rd_err io ?c")
        case (Some e)
        then show ?thesis using run page Suc.prems(6) by (auto simp: read_fails_def io_ok_def)
      next
        case None
        have len: "length os = d - 1" "length noffs' = length os" "\<forall>i \<in> set os. i < 1018" using Suc.prems(3,4,5) Cons n by auto
        have r: "dnode_walk sp io False ?c False (os @ [b]) noffs' (lvl + 1) st = (r, lvl', st')" using run page None by simp
        show ?thesis using Suc.IH [OF C(1) ino len Suc.prems(6) r] Cons i d False by (simp split: sum.splits)
      qed
    qed
  qed
qed (simp add: tree_ok.simps(1))

lemma npos_small: "q < DNODES \<Longrightarrow> \<forall>i \<in> set (snd (npos q)). i < 1018"
  by (auto simp: npos_def DNODES_def)


lemma get_dnode_found:
  assumes ok: "file_ok st" and io: "io_ok io" and q: "q < DNODES" and b: "b < 1018"
    and t: "get_dnode_of_data sp io False (addrs_per_inode (fs_layout st) + int q * 1018 + int b) st = (err, dn, st')"
  shows "st' = st \<and> (case err of None \<Rightarrow> leaf_at st q = Some (dn_nid dn) \<and> ofs_in_node dn = b \<and> data_blkaddr dn = datablock_addr (dn_nid dn) b st
    | Some e \<Rightarrow> e = ENOENT \<and> leaf_at st q = None \<or> read_fails io e)"
proof -
  obtain k p where kp: "npos q = (k, p)" by fastforce
  have tr: "trees_ok st" and inl: "fs_inline st = None" using ok by (simp_all add: file_ok_def)
  have k: "k < 5" and len: "length p = height k - 1" and sm: "\<forall>i \<in> set p. i < 1018" using npos_slot [OF q] npos_length [OF q] npos_small [OF q] kp by auto
  obtain noff where nl: "length noff = Suc (Suc (length p))" and path: "get_node_path (fs_layout st) (addrs_per_inode (fs_layout st) + int q * 1018 + int b) =
      Inr (Suc (length p), map int ((924 + k) # p @ [b]), noff)"
    using path_npos [OF q b, of "fs_layout st"] unfolding kp by auto
  have mm: "map nat (map int xs) = xs" for xs by (simp add: comp_def)
  obtain n0 n1 noffs where n: "noff = n0 # n1 # noffs" "length noffs = length p" using nl by (cases noff; cases "tl noff") auto
  obtain r lvl st1 where w: "dnode_walk sp io False (fs_ino st) True ((924 + k) # p @ [b]) (map nat (n1 # noffs)) 1 st = (r, lvl, st1)"
    by (cases "dnode_walk sp io False (fs_ino st) True ((924 + k) # p @ [b]) (map nat (n1 # noffs)) 1 st")
  obtain o2 offs where oo: "p @ [b] = o2 # offs" by (cases p) auto
  have step: "(case get_node_page io (slot st k) st of Some e \<Rightarrow> (Inl e, 1, st) | None \<Rightarrow> dnode_walk sp io False (slot st k) False (p @ [b]) (map nat noffs) 2 st) = (r, lvl, st1)"
    using w unfolding oo dnode_walk.simps(1) list.map get_nid_slot Let_def one_add_one by simp
  have W: "st1 = st \<and> (case r of Inr x \<Rightarrow> leaf_at st q = Some x | Inl e \<Rightarrow> e = ENOENT \<and> leaf_at st q = None \<or> read_fails io e)"
  proof (cases "slot st k = 0")
    case True
    then show ?thesis using step kp by (auto simp: get_node_page_def leaf_at_def)
  next
    case False
    note S = slotD [OF tr k False]
    have "slot st k \<noteq> fs_ino st" using S(2) k by (auto simp: height_def sub.simps numeral_2_eq_2 numeral_3_eq_3 split: if_splits)
    note page = tree_page [OF S(1) this, of io]
    show ?thesis
    proof (cases "rd_err io (slot st k)")
      case (Some e)
      then show ?thesis using step page io by (auto simp: read_fails_def io_ok_def)
    next
      case None
      have r: "dnode_walk sp io False (slot st k) False (p @ [b]) (map nat noffs) 2 st = (r, lvl, st1)" using step page None by simp
      have ln: "length (map nat noffs) = length p" using n(2) by simp
      show ?thesis using walk_lookup [OF S len ln sm io r] False kp by (simp add: leaf_at_def split: sum.splits)
    qed
  qed
  show ?thesis
  proof (cases "rd_err io (fs_ino st)")
    case (Some e)
    then have "err = Some e" "st' = st" "read_fails io e" using t path file_ok_page [OF ok, of io] io by (auto simp: get_dnode_of_data_def read_fails_def io_ok_def)
    then show ?thesis by simp
  next
    case None
    have ob: "((924 + k) # p @ [b]) ! Suc (length p) = b" by (simp add: nth_append)
    have tl: "map nat (tl noff) = map nat (n1 # noffs)" using n by simp
    note run = t [unfolded get_dnode_of_data_def path sum.case prod.case file_ok_page [OF ok, of io] None option.case mm Let_def inl ob tl w]
    show ?thesis using run W by (cases r) (auto split: if_splits)
  qed
qed

lemma get_dnode_inode:
  assumes ok: "file_ok st" and i: "int i < addrs_per_inode (fs_layout st)" and t: "get_dnode_of_data sp io False (int i) st = (err, dn, st')"
  shows "st' = st \<and> (case rd_err io (fs_ino st) of None \<Rightarrow> err = None \<and> dn_nid dn = fs_ino st \<and> ofs_in_node dn = i \<and> data_blkaddr dn = datablock_addr (fs_ino st) i st
    | Some e \<Rightarrow> err = Some e)"
proof -
  have path: "get_node_path (fs_layout st) (int i) = Inr (0, [int i], [0])" using i by (simp add: get_node_path_def Let_def)
  have inl: "fs_inline st = None" using ok by (simp add: file_ok_def)
  show ?thesis
  proof (cases "rd_err io (fs_ino st)")
    case (Some e)
    then have "err = Some e \<and> st' = st" using t by (auto simp: get_dnode_of_data_def path file_ok_page [OF ok])
    then show ?thesis by (simp add: Some)
  next
    case None
    then show ?thesis using t by (auto simp: get_dnode_of_data_def path file_ok_page [OF ok] inl)
  qed
qed

end
