(* ===== verification/File_Trunc.thy ===== *)
theory File_Trunc
  imports Node_File
begin

text \<open>
  \<^verbatim>\<open>truncate_blocks\<close> (\<^verbatim>\<open>file.c\<close>) on a whole file: it clears the rest of the direct node or inode in which the cut lies, then \<^verbatim>\<open>truncate_inode_blocks\<close> removes the
  nodes behind it.
\<close>

section \<open>What truncation keeps\<close>

definition file_blocks :: "'a fstate \<Rightarrow> nat multiset" where
  "file_blocks st = tree_blocks st + filter_mset (\<lambda>a. a \<noteq> 0) (mset (fs_addr st))"

text \<open>From \<open>st\<close> to \<open>st'\<close> some addresses from block index \<open>F\<close> on became holes; all blocks that left the file were given back, and no node outside it was touched.\<close>

definition shrinks :: "nat \<Rightarrow> 'a fstate \<Rightarrow> 'a fstate \<Rightarrow> bool" where
  "shrinks F st st' \<longleftrightarrow> file_ok st' \<and> fs_ino st' = fs_ino st \<and> fs_layout st' = fs_layout st \<and>
     (\<forall>i<F. file_addr st' i = file_addr st i) \<and> (\<forall>i. file_addr st' i = file_addr st i \<or> file_addr st' i = 0) \<and>
     mset (fs_invalidated st') + file_blocks st' = mset (fs_invalidated st) + file_blocks st \<and>
     owned st' \<subseteq> owned st \<and> (\<forall>n. n \<notin> owned st \<longrightarrow> fs_nodes st' n = fs_nodes st n) \<and> (\<forall>n \<in> owned st - owned st'. fs_nodes st' n = None)"

lemma shrinksD:
  assumes "shrinks F st st'"
  shows "file_ok st'" "fs_ino st' = fs_ino st" "fs_layout st' = fs_layout st" "\<And>i. i < F \<Longrightarrow> file_addr st' i = file_addr st i"
    "\<And>i. file_addr st' i = file_addr st i \<or> file_addr st' i = 0" "mset (fs_invalidated st') + file_blocks st' = mset (fs_invalidated st) + file_blocks st"
    "owned st' \<subseteq> owned st" "\<And>n. n \<notin> owned st \<Longrightarrow> fs_nodes st' n = fs_nodes st n" "\<And>n. n \<in> owned st - owned st' \<Longrightarrow> fs_nodes st' n = None"
  using assms unfolding shrinks_def by (blast, simp, simp, simp, simp, simp, blast, blast, blast)

lemma shrinks_refl: "file_ok st \<Longrightarrow> shrinks F st st"
  by (simp add: shrinks_def)

lemma shrinks_trans:
  assumes "shrinks F st st1" "shrinks F st1 st2"
  shows "shrinks F st st2"
proof -
  note a = shrinksD [OF assms(1)] and b = shrinksD [OF assms(2)]
  have "fs_nodes st2 n = fs_nodes st n" if "n \<notin> owned st" for n using a(7,8) b(8) that by (metis subsetD)
  moreover have "fs_nodes st2 n = None" if "n \<in> owned st - owned st2" for n
    using that a(9) [of n] b(8) [of n] b(9) [of n] by (cases "n \<in> owned st1") auto
  moreover have "file_addr st2 i = file_addr st i \<or> file_addr st2 i = 0" for i using a(5) [of i] b(5) [of i] by auto
  moreover have "owned st2 \<subseteq> owned st" using a(7) b(7) by blast
  ultimately show ?thesis unfolding shrinks_def using a(2,3,4,6) b(1,2,3,4,6) by simp
qed

definition zero_from :: "nat \<Rightarrow> 'a fstate \<Rightarrow> bool" where
  "zero_from F st \<longleftrightarrow> (\<forall>i\<ge>F. file_addr st i = 0) \<and> (\<forall>q<DNODES. F \<le> nat (addrs_per_inode (fs_layout st)) + 1018 * q \<longrightarrow> dnode st q = None)"

abbreviation D_of :: "'a fstate \<Rightarrow> nat" where "D_of st \<equiv> nat (addrs_per_inode (fs_layout st))"

lemma cut_dnode: 
  assumes "cut (keepq q) ret st st'" "q' < DNODES"
  shows "q' < q \<Longrightarrow> dnode st' q' = dnode st q'" "q \<le> q' \<Longrightarrow> ret = None \<Longrightarrow> dnode st' q' = None" "dnode st' q' = dnode st q' \<or> dnode st' q' = None"
  using cutD [OF assms(1)] npos_dpos [OF assms(2)] dnum_npos [OF assms(2)] file_prunedD(7) [OF cutD(1) [OF assms(1)]]
  unfolding dnode_def keepq_def by auto

lemma file_addr_hole: "D_of st \<le> i \<Longrightarrow> (i - D_of st) div 1018 < DNODES \<Longrightarrow> dnode st ((i - D_of st) div 1018) = None \<Longrightarrow> file_addr st i = 0"
  by (simp add: file_addr_def Let_def)

lemma shrinks_cut:
  assumes ok: "file_ok st" and c: "cut (keepq q) ret st st'" and F: "\<And>i. i < F \<Longrightarrow> i < D_of st + 1018 * q \<or> file_addr st i = 0"
  shows "shrinks F st st'" "ret = None \<Longrightarrow> D_of st + 1018 * q \<le> i \<Longrightarrow> file_addr st' i = 0"
proof -
  note P = file_prunedD [OF cutD(1) [OF c]]
  note Rf = rest_fields [OF P(1)]
  have D: "D_of st' = D_of st" using Rf by simp
  have keep: "file_addr st' i = file_addr st i \<or> file_addr st' i = 0" for i
    using cut_dnode(3) [OF c, of "(i - D_of st) div 1018"] Rf by (auto simp: file_addr_def Let_def)
  have low: "file_addr st' i = file_addr st i" if "i < D_of st + 1018 * q" for i
    using cut_dnode(1) [OF c, of "(i - D_of st) div 1018"] Rf that by (auto simp: file_addr_def Let_def)
  show "ret = None \<Longrightarrow> D_of st + 1018 * q \<le> i \<Longrightarrow> file_addr st' i = 0"
    using cut_dnode(2) [OF c, of "(i - D_of st) div 1018"] Rf by (auto simp: file_addr_def Let_def)
  have "file_ok st'" using ok Rf P(2) by (simp add: file_ok_def)
  moreover have "file_addr st' i = file_addr st i" if "i < F" for i using F [OF that] low keep [of i] by auto
  ultimately show "shrinks F st st'" unfolding shrinks_def file_blocks_def using Rf P(3,4,5,6) keep by (simp add: add.assoc [symmetric])
qed

lemma zero_range_split:
  assumes "b \<le> length es"
  shows "filter_mset P (mset es) = filter_mset P (mset (map (arr_get 0 es) [b..<length es])) + filter_mset P (mset (take b es))"
    and "zero_range b (length es) es = take b es @ replicate (length es - b) 0"
proof -
  have "map (arr_get 0 es) [b..<length es] = drop b es" using assms by (intro nth_equalityI) (auto simp: arr_get_def)
  then show "filter_mset P (mset es) = filter_mset P (mset (map (arr_get 0 es) [b..<length es])) + filter_mset P (mset (take b es))"
    by (metis add.commute append_take_drop_id filter_union_mset mset_append)
  show "zero_range b (length es) es = take b es @ replicate (length es - b) 0"
    using assms by (intro nth_equalityI) (auto simp: nth_zero_range nth_append)
qed

lemma zero_range_mset:
  assumes "b \<le> length es"
  shows "filter_mset (\<lambda>a. a \<noteq> 0) (mset es) = mset (filter (\<lambda>a. a \<noteq> 0) (map (arr_get 0 es) [b..<length es])) + filter_mset (\<lambda>a. a \<noteq> 0) (mset (zero_range b (length es) es))"
proof -
  have "filter (\<lambda>a. a \<noteq> 0) (zero_range b (length es) es) = filter (\<lambda>a. a \<noteq> 0) (take b es)" unfolding zero_range_split(2) [OF assms] by simp
  then have "filter_mset (\<lambda>a. a \<noteq> 0) (mset (zero_range b (length es) es)) = filter_mset (\<lambda>a. a \<noteq> 0) (mset (take b es))" by (metis mset_filter)
  then show ?thesis unfolding mset_filter by (simp only: zero_range_split(1) [OF assms])
qed

text \<open>Clearing the rest of a direct node.\<close>

lemma range_leaf:
  fixes sp :: "'a space_ops"
  assumes ok: "file_ok st" and q: "q < DNODES" and l: "leaf_at st q = Some x" and b: "b < 1018" and F: "F \<le> D_of st + 1018 * q + b"
  defines "st1 \<equiv> truncate_data_blocks_range sp x b (1018 - b) st"
  shows "shrinks F st st1" "D_of st + 1018 * q + b \<le> i \<Longrightarrow> i < D_of st + 1018 * Suc q \<Longrightarrow> file_addr st1 i = 0"
proof -
  have tr: "trees_ok st" using ok by (simp add: file_ok_def)
  note L = leaf_at_facts [OF tr q l]
  obtain n where n: "fs_nodes st x = Some n" "length (nd_entries n) = 1018" "dnode st q = Some (nd_entries n)" using L(3) by blast
  let ?es = "nd_entries n"
  have a: "addrs_of x st = ?es" using n L(2) by (simp add: addrs_of_def)
  then have ne: "addrs_of x st \<noteq> []" using n(2) by auto
  let ?L = "filter (\<lambda>x. x \<noteq> 0) (map (arr_get 0 ?es) [b..<1018])"
  have z: "fold (zap_one x) [b..<b + (1018 - b)] (st, 0) =
      ((with_addrs x (zero_range b 1018 ?es) st)\<lparr>fs_invalidated := fs_invalidated st @ ?L, fs_first_written := fs_first_written st\<rparr>, length ?L)"
    using zap_fold [of b 1018 x st 0] ne L(2) b by (simp add: a)
  have w: "fs_nodes (with_addrs x (zero_range b 1018 ?es) st) = (fs_nodes st)(x \<mapsto> n\<lparr>nd_entries := zero_range b 1018 ?es\<rparr>)"
    "fs_i_nid (with_addrs x es st) = fs_i_nid st" "fs_addr (with_addrs x es st) = fs_addr st" "fs_inline (with_addrs x es st) = fs_inline st"
    "fs_inode_blk (with_addrs x es st) = fs_inode_blk st" for es
    using n L(2) by (simp_all add: with_addrs_def)
  have f: "fs_nodes st1 = (fs_nodes st)(x \<mapsto> n\<lparr>nd_entries := zero_range b 1018 ?es\<rparr>)" "fs_i_nid st1 = fs_i_nid st" "fs_ino st1 = fs_ino st"
    "fs_addr st1 = fs_addr st" "fs_layout st1 = fs_layout st" "fs_inline st1 = fs_inline st" "fs_inode_blk st1 = fs_inode_blk st" "fs_invalidated st1 = fs_invalidated st @ ?L"
    unfolding st1_def truncate_data_blocks_range_def z using w by simp_all
  have u: "put_node x (n\<lparr>nd_entries := zero_range b 1018 ?es\<rparr>) st st1" using f by (simp add: put_node_def)
  have zl: "length (zero_range b 1018 ?es) = 1018" using n(2) by simp
  have zm: "filter_mset (\<lambda>a. a \<noteq> 0) (mset ?es) = mset ?L + filter_mset (\<lambda>a. a \<noteq> 0) (mset (zero_range b 1018 ?es))"
    using zero_range_mset [of b ?es] n(2) b by simp
  note U = dnode_update [OF tr q l n(1) zl u zm]
  have D: "D_of st1 = D_of st" using f(5) by simp
  have fa: "file_addr st1 i = (if D_of st + 1018 * q + b \<le> i \<and> i < D_of st + 1018 * Suc q then 0 else file_addr st i)" for i
  proof (cases "i < D_of st")
    case True
    then show ?thesis using f by (simp add: file_addr_def Let_def)
  next
    case False
    define q' r where "q' = (i - D_of st) div 1018" and "r = (i - D_of st) mod 1018"
    have i: "i = D_of st + (1018 * q' + r)" and r: "r < 1018" using False by (simp_all add: q'_def r_def)
    have c: "D_of st + 1018 * q + b \<le> i \<and> i < D_of st + 1018 * Suc q \<longleftrightarrow> q' = q \<and> b \<le> r" 
    proof -
      have "q' = q \<longleftrightarrow> 1018 * q \<le> 1018 * q' + r \<and> 1018 * q' + r < 1018 * q + 1018" using r by linarith
      then show ?thesis using i b r by auto
    qed
    have g: "file_addr s i = (if q' < DNODES then (case dnode s q' of None \<Rightarrow> 0 | Some es \<Rightarrow> arr_get 0 es r) else 0)" if "D_of s = D_of st" for s :: "'a fstate"
      using False that unfolding q'_def r_def by (simp add: file_addr_def Let_def)
    show ?thesis unfolding c g [OF refl] g [OF D] using U(4) [of q'] n r q by (auto simp: arr_zero_range)
  qed
  show "D_of st + 1018 * q + b \<le> i \<Longrightarrow> i < D_of st + 1018 * Suc q \<Longrightarrow> file_addr st1 i = 0" by (simp add: fa)
  have o: "owned st1 = owned st" and xo: "x \<in> owned st" using U(2) L(1) by auto
  have "file_ok st1" using ok f U(1) by (simp add: file_ok_def)
  moreover have "fs_nodes st1 m = fs_nodes st m" if "m \<notin> owned st" for m using that xo f(1) by auto
  moreover have "mset (fs_invalidated st1) + file_blocks st1 = mset (fs_invalidated st) + file_blocks st"
    using U(3) unfolding file_blocks_def f by (simp add: add.assoc add.commute [of "tree_blocks st1"] add.left_commute)
  ultimately show "shrinks F st st1" unfolding shrinks_def using f(3,5) o fa F by auto
qed

text \<open>Clearing the rest of the inode.\<close>

lemma range_inode:
  fixes sp :: "'a space_ops"
  assumes ok: "file_ok st" and i: "i < D_of st" and F: "F \<le> i"
  defines "st1 \<equiv> truncate_data_blocks_range sp (fs_ino st) i (D_of st - i) st"
  shows "shrinks F st st1" "i \<le> j \<Longrightarrow> j < D_of st \<Longrightarrow> file_addr st1 j = 0"
proof -
  have len: "length (fs_addr st) = D_of st" using ok by (simp add: file_ok_def)
  have a: "addrs_of (fs_ino st) st = fs_addr st" by (simp add: addrs_of_def)
  then have ne: "addrs_of (fs_ino st) st \<noteq> []" using len i by auto
  let ?L = "filter (\<lambda>x. x \<noteq> 0) (map (arr_get 0 (fs_addr st)) [i..<D_of st])"
  obtain fw where z: "fold (zap_one (fs_ino st)) [i..<i + (D_of st - i)] (st, 0) =
      ((with_addrs (fs_ino st) (zero_range i (D_of st) (fs_addr st)) st)\<lparr>fs_invalidated := fs_invalidated st @ ?L, fs_first_written := fw\<rparr>, length ?L)"
    using zap_fold [of i "D_of st" "fs_ino st" st 0] ne i by (simp add: a)
  have f: "fs_nodes st1 = fs_nodes st" "fs_i_nid st1 = fs_i_nid st" "fs_ino st1 = fs_ino st"
    "fs_addr st1 = zero_range i (D_of st) (fs_addr st)" "fs_layout st1 = fs_layout st" "fs_inline st1 = fs_inline st" "fs_inode_blk st1 = fs_inode_blk st" "fs_invalidated st1 = fs_invalidated st @ ?L"
    unfolding st1_def truncate_data_blocks_range_def z by (simp_all add: with_addrs_def)
  have sl: "slot st1 = slot st" by (simp add: fun_eq_iff slot_def f)
  have sb: "slot_sub st1 = slot_sub st" "slot_blocks st1 = slot_blocks st" by (simp_all add: fun_eq_iff slot_sub_def slot_blocks_def sl f(1))
  have same: "trees_ok st1 = trees_ok st" "owned st1 = owned st" "tree_blocks st1 = tree_blocks st" "dnode st1 = dnode st"
    by (simp_all add: fun_eq_iff trees_ok_def owned_def tree_blocks_def dnode_def dnode_at_def sl sb f(1,2,3))
  have fa: "file_addr st1 j = (if i \<le> j \<and> j < D_of st then 0 else file_addr st j)" for j
    by (simp add: file_addr_def Let_def f same arr_zero_range)
  show "i \<le> j \<Longrightarrow> j < D_of st \<Longrightarrow> file_addr st1 j = 0" by (simp add: fa)
  have zm: "filter_mset (\<lambda>a. a \<noteq> 0) (mset (fs_addr st)) = mset ?L + filter_mset (\<lambda>a. a \<noteq> 0) (mset (fs_addr st1))"
    using zero_range_mset [of i "fs_addr st"] len i by (simp add: f)
  have "file_ok st1" using ok len by (simp add: file_ok_def f same)
  moreover have "mset (fs_invalidated st1) + file_blocks st1 = mset (fs_invalidated st) + file_blocks st"
    unfolding file_blocks_def zm same(3) f(8) by (simp add: add.assoc add.left_commute)
  ultimately show "shrinks F st st1" unfolding shrinks_def using f(1,3,5) same(2) fa F by auto
qed


section \<open>\<^verbatim>\<open>truncate_blocks\<close>\<close>

text \<open>The result of a part of the truncation that freed what it could: an error is a failed read, or the end of the file's address space.\<close>

definition cut_done :: "nat \<Rightarrow> node_io \<Rightarrow> errno option \<Rightarrow> 'a fstate \<Rightarrow> 'a fstate \<Rightarrow> bool" where
  "cut_done F io r st st' \<longleftrightarrow> shrinks F st st' \<and> (r = None \<longrightarrow> zero_from F st' \<and> (F \<le> D_of st + 1018 * (DNODES - 1) \<or> dnode st (DNODES - 1) = None)) \<and>
     (\<forall>e. r = Some e \<longrightarrow> read_fails io e \<or> e = E2BIG \<and> D_of st + 1018 * (DNODES - 1) < F \<and> zero_from F st')"

lemma file_ok_D: "file_ok st \<Longrightarrow> addrs_per_inode (fs_layout st) = int (D_of st)"
  using layout_ok_bounds by (auto simp: file_ok_def)

text \<open>After the first part cleared what it had to below direct node \<open>q\<close>.\<close>

lemma rest_cut:
  assumes ok: "file_ok st" and io: "io_ok io" and s1: "shrinks F st st1" and q: "q < DNODES" and b: "b < 1018" and z: "b = 0 \<or> dnode st1 q = None"
    and F: "\<And>i. i < F \<Longrightarrow> i < D_of st + 1018 * q \<or> file_addr st1 i = 0" and low: "\<And>i. F \<le> i \<Longrightarrow> i < D_of st + 1018 * q \<Longrightarrow> file_addr st1 i = 0"
    and nl: "F \<le> D_of st + 1018 * (DNODES - 1) \<or> dnode st (DNODES - 1) = None"
    and dq: "\<And>q'. F \<le> D_of st + 1018 * q' \<Longrightarrow> q \<le> q'"
    and t: "truncate_inode_blocks sp io (int (D_of st) + int q * 1018 + int b) st1 = (r, st')"
  shows "cut_done F io r st st'"
proof -
  note S = shrinksD [OF s1]
  have D: "D_of st1 = D_of st" using S(3) by simp
  have tr: "trees_ok st1" using S(1) by (simp add: file_ok_def)
  have t1: "truncate_inode_blocks sp io (addrs_per_inode (fs_layout st1) + int q * 1018 + int b) st1 = (r, st')"
    using t file_ok_D [OF S(1)] D by simp
  have "b = 0 \<or> 2 \<le> q \<or> dnode st1 q = None" using z by (rule disjE) simp_all
  note C = truncate_inode_blocks_cut [OF tr io q b this file_ok_page [OF S(1)] t1]
  have F1: "i < D_of st1 + 1018 * q \<or> file_addr st1 i = 0" if "i < F" for i using F [OF that] D by simp
  have Z: "shrinks F st1 st'" "\<And>i. r = None \<Longrightarrow> D_of st1 + 1018 * q \<le> i \<Longrightarrow> file_addr st' i = 0"
    by (rule shrinks_cut(1) [OF S(1) conjunct1 [OF C]], erule F1) (rule shrinks_cut(2) [OF S(1) conjunct1 [OF C]], erule F1)
  have "file_addr st' i = 0" if "F \<le> i" "r = None" for i
    using low [OF that(1)] Z(2) [OF that(2), of i] shrinksD(5) [OF Z(1), of i] D by (cases "i < D_of st + 1018 * q") auto
  moreover have "dnode st' q' = None" if "F \<le> D_of st + 1018 * q'" "r = None" "q' < DNODES" for q'
    using cut_dnode(2) [OF conjunct1 [OF C] that(3) dq [OF that(1)] that(2)] .
  moreover have "D_of st' = D_of st" using shrinksD(3) [OF Z(1)] D by simp
  ultimately have "r = None \<longrightarrow> zero_from F st'" unfolding zero_from_def by auto
  then show ?thesis unfolding cut_done_def using shrinks_trans [OF s1 Z(1)] C nl by metis
qed

lemma get_node_path_big: "addrs_per_inode lay + max_file_blocks \<le> i \<Longrightarrow> get_node_path lay i = Inl E2BIG"
  by (simp add: get_node_path_def max_file_blocks_def Let_def)

lemma beyond_the_end:
  assumes "int (D_of st) + max_file_blocks \<le> i" "addrs_per_inode (fs_layout st) = int (D_of st)"
  shows "truncate_inode_blocks sp io i st = (Some E2BIG, st)"
proof -
  have "get_node_path (fs_layout st) i = Inl E2BIG" using assms get_node_path_big by simp
  then show ?thesis by (simp add: truncate_inode_blocks_def)
qed

lemma truncate_blocks_done:
  assumes ok: "file_ok st" and io: "io_ok io" and F: "F = (from + 4095) div 4096" "int F < max_file_blocks"
    and t: "truncate_blocks sp io tail_err from st = (ret, st')"
  shows "\<exists>r. ret = (if r = None then tail_err else r) \<and> cut_done F io r st st'"
proof -
  have ff: "(int from + 4095) div 4096 = int F" by (simp add: F(1) zdiv_int)
  have inl: "fs_inline st = None" using ok by (simp add: file_ok_def)
  note page = file_ok_page [OF ok, of io]
  note Dd = file_ok_D [OF ok]
  have mx: "max_file_blocks = 1018 * int DNODES" by (simp add: max_file_blocks_def DNODES_def)
  have fail: ?thesis if "ret = Some e" "st' = st" "rd_err io n = Some e" for e n
  proof -
    have "read_fails io e" using that io by (auto simp: read_fails_def io_ok_def)
    then show ?thesis using that shrinks_refl [OF ok] by (intro exI [of _ "Some e"]) (simp add: cut_done_def)
  qed
  show ?thesis
  proof (cases "rd_err io (fs_ino st)")
    case (Some e)
    then show ?thesis using fail [OF _ _ Some] t F(2) by (auto simp: truncate_blocks_def ff page Let_def)
  next
    case None
    obtain err dn st0 where g: "get_dnode_of_data sp io False (int F) st = (err, dn, st0)" by (cases "get_dnode_of_data sp io False (int F) st")
    have run: "(case err of Some e \<Rightarrow> if e = ENOENT then truncate_inode_blocks sp io (int F) st0 else (Some e, st0)
        | None \<Rightarrow> let count = ADDRS_PER_PAGE (dn_nid dn) st0 - ofs_in_node dn
            in if ofs_in_node dn \<noteq> 0 \<or> dn_nid dn = fs_ino st0
               then truncate_inode_blocks sp io (int F + int count) (truncate_data_blocks_range sp (dn_nid dn) (ofs_in_node dn) count st0)
               else truncate_inode_blocks sp io (int F) st0) = (r, st') \<Longrightarrow> ret = (if r = None then tail_err else r)" and
      ex: "\<exists>r. (case err of Some e \<Rightarrow> if e = ENOENT then truncate_inode_blocks sp io (int F) st0 else (Some e, st0)
        | None \<Rightarrow> let count = ADDRS_PER_PAGE (dn_nid dn) st0 - ofs_in_node dn
            in if ofs_in_node dn \<noteq> 0 \<or> dn_nid dn = fs_ino st0
               then truncate_inode_blocks sp io (int F + int count) (truncate_data_blocks_range sp (dn_nid dn) (ofs_in_node dn) count st0)
               else truncate_inode_blocks sp io (int F) st0) = (r, st')" for r
      using t F(2) by (auto simp: truncate_blocks_def ff page None inl g Let_def split: option.splits if_splits prod.splits)
    obtain r where r: "(case err of Some e \<Rightarrow> if e = ENOENT then truncate_inode_blocks sp io (int F) st0 else (Some e, st0)
        | None \<Rightarrow> let count = ADDRS_PER_PAGE (dn_nid dn) st0 - ofs_in_node dn
            in if ofs_in_node dn \<noteq> 0 \<or> dn_nid dn = fs_ino st0
               then truncate_inode_blocks sp io (int F + int count) (truncate_data_blocks_range sp (dn_nid dn) (ofs_in_node dn) count st0)
               else truncate_inode_blocks sp io (int F) st0) = (r, st')" using ex by blast
    have res: ?thesis if "cut_done F io r st st'" using run [OF r] that by blast
    show ?thesis
    proof (cases "F < D_of st")
      case True
      then have "int F < addrs_per_inode (fs_layout st)" using Dd by simp
      note G = get_dnode_inode [OF ok this g, unfolded None option.case]
      have c: "int F + int (D_of st - F) = int (D_of st) + int 0 * 1018 + int 0" using True by simp
      let ?st1 = "truncate_data_blocks_range sp (fs_ino st) F (D_of st - F) st"
      have r1: "truncate_inode_blocks sp io (int (D_of st) + int 0 * 1018 + int 0) ?st1 = (r, st')"
        using r G unfolding c [symmetric] by (simp add: ADDRS_PER_PAGE_def Let_def)
      show ?thesis
        by (rule res, rule rest_cut [OF ok io range_inode(1) [OF ok True order_refl] _ _ _ _ _ _ _ r1])
          (use True range_inode(2) [OF ok True order_refl] in \<open>auto simp: DNODES_def\<close>)
    next
      case False
      define q b where "q = (F - D_of st) div 1018" and "b = (F - D_of st) mod 1018"
      have Fq: "F = D_of st + 1018 * q + b" and b: "b < 1018" using False by (simp_all add: q_def b_def)
      have q: "q < DNODES" using F(2) Fq unfolding mx by linarith
      have i: "int F = addrs_per_inode (fs_layout st) + int q * 1018 + int b" using Fq Dd by simp
      note G = get_dnode_found [OF ok io q b g [unfolded i]]
      have whole: "cut_done F io r st st'" if t1: "truncate_inode_blocks sp io (int F) st = (r, st')" and z: "b = 0 \<or> dnode st q = None"
      proof -
        have t2: "truncate_inode_blocks sp io (int (D_of st) + int q * 1018 + int b) st = (r, st')" using t1 i Dd by simp
        have h: "i < D_of st + 1018 * q \<or> file_addr st i = 0" if "i < F" for i
        proof (cases "i < D_of st + 1018 * q")
          case False
          then have "(i - D_of st) div 1018 = q" "b \<noteq> 0" using that Fq b by auto
          then show ?thesis using file_addr_hole [of st i] False z q by simp
        qed simp
        have nl: "F \<le> D_of st + 1018 * (DNODES - 1) \<or> dnode st (DNODES - 1) = None"
        proof (cases "q = DNODES - 1")
          case True
          then show ?thesis using z Fq by auto
        next
          case False
          then have "Suc q \<le> DNODES - 1" using q by simp
          then have "1018 * Suc q \<le> 1018 * (DNODES - 1)" by (rule mult_le_mono2)
          then show ?thesis using Fq b by simp
        qed
        show ?thesis by (rule rest_cut [OF ok io shrinks_refl [OF ok] q b z h _ nl _ t2]) (use Fq b in auto)
      qed
      show ?thesis
      proof (cases err)
        case (Some e)
        then have e: "st0 = st" "e = ENOENT \<and> leaf_at st q = None \<or> read_fails io e" using G by auto
        show ?thesis
        proof (cases "e = ENOENT")
          case True
          then have "leaf_at st q = None" using e by (auto simp: read_fails_def)
          then have "dnode st q = None" using leaf_at_none [of st, OF _ q] ok by (simp add: file_ok_def)
          then show ?thesis using res whole r Some True e by simp
        next
          case False
          then have "read_fails io e" "r = Some e" "st' = st" using e r Some by auto
          then show ?thesis using res shrinks_refl [OF ok] by (simp add: cut_done_def)
        qed
      next
        case None2: None
        then have d: "st0 = st" "leaf_at st q = Some (dn_nid dn)" "ofs_in_node dn = b" using G by auto
        have tr: "trees_ok st" using ok by (simp add: file_ok_def)
        have ni: "dn_nid dn \<noteq> fs_ino st" using leaf_at_facts(2) [OF tr q d(2)] .
        show ?thesis
        proof (cases "b = 0")
          case True
          then show ?thesis using res whole r None2 d ni by (simp add: Let_def)
        next
          case bn: False
          let ?st1 = "truncate_data_blocks_range sp (dn_nid dn) b (1018 - b) st"
          have c: "int F + int (1018 - b) = int (D_of st) + int (Suc q) * 1018 + int 0" using Fq b by simp
          note R = range_leaf [OF ok q d(2) b, where F = F and sp = sp] 
          have sh: "shrinks F st ?st1" by (rule R(1)) (use Fq in simp)
          have zr: "file_addr ?st1 i = 0" if "F \<le> i" "i < D_of st + 1018 * Suc q" for i by (rule R(2)) (use Fq that in simp_all)
          have r1: "truncate_inode_blocks sp io (int (D_of st) + int (Suc q) * 1018 + int 0) ?st1 = (r, st')"
            using r None2 d ni bn unfolding c [symmetric] by (simp add: ADDRS_PER_PAGE_def Let_def)
          show ?thesis
          proof (cases "Suc q < DNODES")
            case True
            show ?thesis by (rule res, rule rest_cut [OF ok io sh True _ _ _ zr _ _ r1]) (use Fq b bn True in \<open>auto simp: DNODES_def\<close>)
          next
            case False
            then have qd: "q = DNODES - 1" using q by simp
            have D1: "D_of ?st1 = D_of st" using shrinksD(3) [OF sh] by simp
            have e2: "truncate_inode_blocks sp io (int (D_of st) + int (Suc q) * 1018 + int 0) ?st1 = (Some E2BIG, ?st1)"
              by (rule beyond_the_end) (use D1 file_ok_D [OF shrinksD(1) [OF sh]] qd mx in \<open>simp_all add: DNODES_def\<close>)
            have rs: "r = Some E2BIG" "st' = ?st1" using r1 e2 by simp_all
            have "file_addr ?st1 i = 0" if "F \<le> i" for i
            proof (cases "i < D_of st + 1018 * Suc q")
              case False
              then have "\<not> (i - D_of ?st1) div 1018 < DNODES" "\<not> i < D_of ?st1" using qd D1 by (auto simp: DNODES_def)
              then show ?thesis by (simp add: file_addr_def Let_def)
            qed (use zr [OF that] in simp)
            moreover have "\<not> F \<le> D_of st + 1018 * q'" if "q' < DNODES" for q' using that qd Fq bn by simp
            ultimately have "zero_from F ?st1" using D1 by (simp add: zero_from_def)
            then show ?thesis using res sh rs qd Fq bn by (simp add: cut_done_def)
          qed
        qed
      qed
    qed
  qed
qed


text \<open>
  Property C6. Truncation is exact. When no read fails, \<^verbatim>\<open>truncate_blocks\<close> turns every block from the cut on into a hole and leaves every block before it, at every level of the node tree;
  no direct node behind the cut is left; every block of data or of a node that leaves the file is given back exactly once (none is lost, none is freed that the file still has), and no node of
  another file is touched. The only other result is that of clearing the rest of the last page.
\<close>

theorem truncate_blocks_exact:
  assumes "file_ok st" "\<forall>n. rd_err io n = None" "int F < max_file_blocks" "F \<le> D_of st + 1018 * (DNODES - 1)"
    and "F = (from + 4095) div 4096" "truncate_blocks sp io tail_err from st = (ret, st')"
  shows "ret = tail_err \<and> file_ok st' \<and> (\<forall>i. file_addr st' i = (if i < F then file_addr st i else 0)) \<and>
    (\<forall>q<DNODES. F \<le> D_of st + 1018 * q \<longrightarrow> dnode st' q = None) \<and>
    mset (fs_invalidated st') + file_blocks st' = mset (fs_invalidated st) + file_blocks st \<and>
    (\<forall>n. n \<notin> owned st \<longrightarrow> fs_nodes st' n = fs_nodes st n) \<and> (\<forall>n \<in> owned st - owned st'. fs_nodes st' n = None)"
proof -
  have io: "io_ok io" and nf: "\<not> read_fails io e" for e using assms(2) by (simp_all add: io_ok_def read_fails_def)
  obtain r where r: "ret = (if r = None then tail_err else r)" "cut_done F io r st st'" using truncate_blocks_done [OF assms(1) io assms(5,3,6)] by blast
  have n: "r = None" using r(2) nf assms(4) by (cases r) (auto simp: cut_done_def)
  have z: "zero_from F st'" and s: "shrinks F st st'" using r(2) n by (simp_all add: cut_done_def)
  note S = shrinksD [OF s]
  have "file_addr st' i = (if i < F then file_addr st i else 0)" for i using S(4) [of i] z by (simp add: zero_from_def)
  moreover have "\<forall>q<DNODES. F \<le> D_of st + 1018 * q \<longrightarrow> dnode st' q = None" using z S(3) by (simp add: zero_from_def)
  ultimately show ?thesis using r(1) n S(1,6,8,9) by simp
qed

text \<open>
  Property C16. Truncation is safe under errors. Whatever reads of node blocks fail on the way, no block before the cut changes, every block behind it is as before or a hole, the file stays well formed,
  and the accounting of the freed blocks stays exact; and if \<^verbatim>\<open>truncate_blocks\<close> reports success, all of the file from the cut on is gone.
\<close>

theorem truncate_blocks_error_safe:
  assumes "file_ok st" "io_ok io" "int F < max_file_blocks" "F = (from + 4095) div 4096" "truncate_blocks sp io tail_err from st = (ret, st')"
  shows "file_ok st' \<and> (\<forall>i. file_addr st' i = file_addr st i \<or> F \<le> i \<and> file_addr st' i = 0) \<and>
    mset (fs_invalidated st') + file_blocks st' = mset (fs_invalidated st) + file_blocks st \<and>
    (\<forall>n. n \<notin> owned st \<longrightarrow> fs_nodes st' n = fs_nodes st n) \<and> (\<forall>n \<in> owned st - owned st'. fs_nodes st' n = None) \<and>
    (ret = None \<longrightarrow> (\<forall>i\<ge>F. file_addr st' i = 0)) \<and>
    (\<forall>e. ret = Some e \<longrightarrow> e = E2BIG \<or> tail_err = Some e \<or> (\<exists>n. rd_err io n = Some e))"
proof -
  obtain r where r: "ret = (if r = None then tail_err else r)" "cut_done F io r st st'" using truncate_blocks_done [OF assms(1,2,4,3,5)] by blast
  have s: "shrinks F st st'" using r(2) by (simp add: cut_done_def)
  note S = shrinksD [OF s]
  have "file_addr st' i = file_addr st i \<or> F \<le> i \<and> file_addr st' i = 0" for i using S(4,5) [of i] by (cases "i < F") auto
  moreover have "ret = None \<longrightarrow> (\<forall>i\<ge>F. file_addr st' i = 0)" using r by (auto simp: cut_done_def zero_from_def split: if_splits)
  moreover have "\<forall>e. ret = Some e \<longrightarrow> e = E2BIG \<or> tail_err = Some e \<or> (\<exists>n. rd_err io n = Some e)"
    using r by (auto simp: cut_done_def read_fails_def split: if_splits)
  ultimately show ?thesis using S(1,6,8,9) by blast
qed

text \<open>
  Property C34. Truncation inside the last direct node reports \<^verbatim>\<open>-E2BIG\<close> although it did all it had to: the index after that node has no path, and \<^verbatim>\<open>truncate_blocks\<close> calls
  \<^verbatim>\<open>truncate_inode_blocks\<close> on it all the same.
\<close>

theorem truncate_last_dnode_E2BIG:
  assumes "file_ok st" "\<forall>n. rd_err io n = None" "int F < max_file_blocks" "D_of st + 1018 * (DNODES - 1) < F" "dnode st (DNODES - 1) \<noteq> None"
    and "F = (from + 4095) div 4096" "truncate_blocks sp io tail_err from st = (ret, st')"
  shows "ret = Some E2BIG \<and> (\<forall>i. file_addr st' i = (if i < F then file_addr st i else 0))"
proof -
  have io: "io_ok io" and nf: "\<not> read_fails io e" for e using assms(2) by (simp_all add: io_ok_def read_fails_def)
  obtain r where r: "ret = (if r = None then tail_err else r)" "cut_done F io r st st'" using truncate_blocks_done [OF assms(1) io assms(6,3,7)] by blast
  have n: "r = Some E2BIG" and z: "zero_from F st'" using r(2) nf assms(4,5) by (cases r; auto simp: cut_done_def)+
  have "file_addr st' i = (if i < F then file_addr st i else 0)" for i
    using shrinksD(4) [of F st st' i] r(2) z by (simp add: zero_from_def cut_done_def)
  then show ?thesis using r(1) n by simp
qed

text \<open>
  Property C17. Lookup finds the file. \<^verbatim>\<open>get_dnode_of_data\<close> in lookup mode walks the path of an index through the node blocks. It returns \<^verbatim>\<open>-ENOENT\<close> exactly when a node on
  the way is missing, and then the block is a hole; otherwise it returns the node, or the inode, and the place in it that hold the address of this block. It changes nothing.
\<close>

theorem get_dnode_of_data_lookup:
  assumes "file_ok st" "\<forall>n. rd_err io n = None" "int i < addrs_per_inode (fs_layout st) + max_file_blocks" "get_dnode_of_data sp io False (int i) st = (err, dn, st')"
  shows "st' = st \<and> err = (if i < D_of st \<or> dnode st ((i - D_of st) div 1018) \<noteq> None then None else Some ENOENT) \<and>
    (if err = None then
       data_blkaddr dn = file_addr st i \<and> datablock_addr (dn_nid dn) (ofs_in_node dn) st = file_addr st i \<and>
       (if i < D_of st then dn_nid dn = fs_ino st \<and> ofs_in_node dn = i
        else dn_nid dn \<noteq> fs_ino st \<and> map_option nd_entries (fs_nodes st (dn_nid dn)) = dnode st ((i - D_of st) div 1018) \<and> ofs_in_node dn = (i - D_of st) mod 1018)
     else file_addr st i = 0)"
proof -
  have io: "io_ok io" and nf: "\<not> read_fails io e" for e using assms(2) by (simp_all add: io_ok_def read_fails_def)
  note Dd = file_ok_D [OF assms(1)]
  show ?thesis
  proof (cases "i < D_of st")
    case True
    then have "int i < addrs_per_inode (fs_layout st)" using Dd by simp
    from get_dnode_inode [OF assms(1) this assms(4)] show ?thesis using True assms(2) by (simp add: file_addr_def Let_def datablock_addr_def)
  next
    case False
    define q b where "q = (i - D_of st) div 1018" and "b = (i - D_of st) mod 1018"
    have iq: "i = D_of st + 1018 * q + b" and b: "b < 1018" using False by (simp_all add: q_def b_def)
    have q: "q < DNODES" using assms(3) iq Dd by (simp add: DNODES_def max_file_blocks_def)
    have e: "int i = addrs_per_inode (fs_layout st) + int q * 1018 + int b" using iq Dd by simp
    note G = get_dnode_found [OF assms(1) io q b assms(4) [unfolded e]]
    have tr: "trees_ok st" using assms(1) by (simp add: file_ok_def)
    have fa: "file_addr st i = (case dnode st q of None \<Rightarrow> 0 | Some es \<Rightarrow> arr_get 0 es b)" using False q unfolding q_def b_def by (simp add: file_addr_def Let_def)
    show ?thesis
    proof (cases err)
      case None
      then have d: "leaf_at st q = Some (dn_nid dn)" "ofs_in_node dn = b" "data_blkaddr dn = datablock_addr (dn_nid dn) b st" "st' = st" using G by auto
      obtain n where n: "fs_nodes st (dn_nid dn) = Some n" "dnode st q = Some (nd_entries n)" "dn_nid dn \<noteq> fs_ino st" using leaf_at_facts(2,3) [OF tr q d(1)] by blast
      then have "data_blkaddr dn = file_addr st i" "datablock_addr (dn_nid dn) (ofs_in_node dn) st = file_addr st i" using d fa by (simp_all add: datablock_addr_def)
      then show ?thesis using None d n False unfolding q_def b_def by simp
    next
      case (Some er)
      then have "st' = st" "er = ENOENT" "leaf_at st q = None" using G nf by auto
      then show ?thesis using Some leaf_at_none [OF tr q] fa False unfolding q_def by simp
    qed
  qed
qed

section \<open>A file with two trees\<close>

definition one_entry :: "u32 \<Rightarrow> nat \<Rightarrow> nat \<Rightarrow> nat \<Rightarrow> fnode" where
  "one_entry ofs blk i v = \<lparr>nd_ofs = ofs, nd_blk = blk, nd_entries = (replicate 1018 0)[i := v]\<rparr>"

definition two_trees :: "nat \<rightharpoonup> fnode" where
  "two_trees = [6 \<mapsto> one_entry 1 601 1 602, 7 \<mapsto> one_entry 2041 603 1017 8, 8 \<mapsto> one_entry 1038365 604 1017 9, 9 \<mapsto> one_entry 1039383 605 100 607]"

definition two_tree_file :: "nat fstate" where
  "two_tree_file = \<lparr>fs_ino = 5, fs_layout = \<lparr>i_extra_isize = 0, i_inline_xattr_size = 50\<rparr>, fs_inline = None, fs_inode_blk = Some 600, fs_addr = (replicate 873 0)[0 := 610],
     fs_i_nid = [6, 0, 0, 0, 7], fs_xnid = 0, fs_first_written = True, fs_data_exist = False, fs_nodes = two_trees, fs_free_nids = [20], fs_invalidated = [], fs_ext_drops = [],
     fs_im = fst (init_ino_entry_info 512 0), fs_space = 9, fs_bug = False\<rparr>"

definition count_space :: "nat space_ops" where
  "count_space = \<lparr>sp_inc_node = \<lambda>inode n. (None, n + 1), sp_dec_node = \<lambda>inode n. n - 1, sp_inc_inode = \<lambda>n. n, sp_dec_inode = \<lambda>n. n, sp_inc_blocks = \<lambda>c n. (None, n + c, c), sp_dec_blocks = \<lambda>c n. n - c\<rparr>"

definition reads_fine :: node_io where
  "reads_fine = \<lparr>rd_err = \<lambda>n. None, new_err = \<lambda>n. None, no_alloc = False\<rparr>"

lemma one_child: "N c = Some (one_entry ofs blk i v) \<Longrightarrow> i < 1018 \<Longrightarrow> entry N c j = (if j = i then v else 0)"
  by (simp add: entry_def one_entry_def arr_get_def nth_list_update)

lemma one_child_tree:
  assumes "N c = Some (one_entry ofs blk i v)" "i < 1018" "c \<noteq> 0" "v \<noteq> 0" "0 < d" "tree_ok d N v" "c \<notin> sub d N v"
  shows "tree_ok (Suc d) N c \<and> sub (Suc d) N c = insert c (sub d N v)"
proof -
  note e = one_child [of N c ofs blk i v, OF assms(1,2)]
  have "(\<Union>j<1018. if entry N c j = 0 then {} else sub d N (entry N c j)) = sub d N v"
    using assms(2,4) by (auto simp: e split: if_splits)
  then show ?thesis using assms by (simp add: tree_ok.simps sub.simps e) (simp add: one_entry_def)
qed

lemma one_leaf: "N c = Some (one_entry ofs blk i v) \<Longrightarrow> c \<noteq> 0 \<Longrightarrow> tree_ok 1 N c \<and> sub 1 N c = {c}"
  by (simp add: tree_ok.simps sub.simps one_entry_def)

lemma two_trees_ok:
  "tree_ok 1 two_trees 6 \<and> sub 1 two_trees 6 = {6}" "tree_ok 3 two_trees 7 \<and> sub 3 two_trees 7 = {7, 8, 9}"
proof -
  show "tree_ok 1 two_trees 6 \<and> sub 1 two_trees 6 = {6}" by (rule one_leaf [of _ _ 1 601 1 602]) (simp_all add: two_trees_def)
  have a: "tree_ok 1 two_trees 9 \<and> sub 1 two_trees 9 = {9}" by (rule one_leaf [of _ _ 1039383 605 100 607]) (simp_all add: two_trees_def)
  then have "tree_ok (Suc 1) two_trees 8 \<and> sub (Suc 1) two_trees 8 = insert 8 (sub 1 two_trees 9)"
    by (intro one_child_tree [of _ _ 1038365 604 1017 9]) (simp_all add: two_trees_def)
  then have b: "tree_ok (Suc 1) two_trees 8" "sub (Suc 1) two_trees 8 = {8, 9}" using a by simp_all
  then have "tree_ok (Suc (Suc 1)) two_trees 7 \<and> sub (Suc (Suc 1)) two_trees 7 = insert 7 (sub (Suc 1) two_trees 8)"
    by (intro one_child_tree [of _ _ 2041 603 1017 8]) (simp_all add: b two_trees_def)
  then have "tree_ok (Suc (Suc 1)) two_trees 7" "sub (Suc (Suc 1)) two_trees 7 = {7, 8, 9}" unfolding b(2) by simp_all
  then show "tree_ok 3 two_trees 7 \<and> sub 3 two_trees 7 = {7, 8, 9}" by (simp add: numeral_3_eq_3)
qed

lemma two_tree_fields: "fs_nodes two_tree_file = two_trees" "fs_ino two_tree_file = 5" "fs_i_nid two_tree_file = [6, 0, 0, 0, 7]"
  by (simp_all add: two_tree_file_def)

lemma two_tree_slots: "slot two_tree_file k = (if k = 0 then 6 else if k = 4 then 7 else 0)"
  by (auto simp: slot_def two_tree_file_def arr_get_def less_Suc_eq numeral_eq_Suc split: nat.split)

lemma two_tree_file_ok: "file_ok two_tree_file"
proof -
  have s: "slot_sub two_tree_file k = (if k = 0 then {6} else if k = 4 then {7, 8, 9} else {})" for k
    using two_trees_ok by (simp add: slot_sub_def two_tree_slots height_def two_tree_fields)
  have "trees_ok two_tree_file"
    unfolding trees_ok_def
  proof (intro conjI allI impI)
    fix k assume "k < 5" "slot two_tree_file k \<noteq> 0"
    then show "tree_ok (height k) (fs_nodes two_tree_file) (slot two_tree_file k)" "fs_ino two_tree_file \<notin> slot_sub two_tree_file k"
      using two_trees_ok s [of k] by (auto simp: two_tree_slots height_def two_tree_fields split: if_splits)
  qed (auto simp: s two_tree_fields)
  then show ?thesis unfolding file_ok_def
    by (simp add: two_tree_file_def layout_ok_def addrs_per_inode_def get_extra_isize_def get_inline_xattr_addrs_def)
qed

lemma two_tree_D: "D_of two_tree_file = 873"
  by (simp add: two_tree_file_def addrs_per_inode_def get_extra_isize_def get_inline_xattr_addrs_def)

lemma two_tree_dnodes: "dnode two_tree_file 0 = Some ((replicate 1018 0)[1 := 602])" "dnode two_tree_file (DNODES - 1) = Some ((replicate 1018 0)[100 := 607])"
proof -
  have N: "two_trees 6 = Some (one_entry 1 601 1 602)" "two_trees 7 = Some (one_entry 2041 603 1017 8)" "two_trees 8 = Some (one_entry 1038365 604 1017 9)"
    "two_trees 9 = Some (one_entry 1039383 605 100 607)" by (simp_all add: two_trees_def)
  have f: "fs_nodes two_tree_file = two_trees" by (simp add: two_tree_file_def)
  show "dnode two_tree_file 0 = Some ((replicate 1018 0)[1 := 602])"
    by (simp add: dnode_def npos_def dnode_at_def two_tree_slots height_def f dlook.simps N one_entry_def)
  have n: "npos (DNODES - 1) = (4, [1017, 1017])" by (simp add: npos_def DNODES_def)
  have "dlook 3 two_trees 7 [1017, 1017] = Some ((replicate 1018 0)[100 := 607])"
    using one_child [of two_trees 7 2041 603 1017 8 1017, OF N(2)] one_child [of two_trees 8 1038365 604 1017 9 1017, OF N(3)] by (simp add: dlook_three dlook_two dlook.simps N(4)) (simp add: one_entry_def)
  then show "dnode two_tree_file (DNODES - 1) = Some ((replicate 1018 0)[100 := 607])" unfolding dnode_def n by (simp add: dnode_at_def two_tree_slots height_def f)
qed

lemma two_tree_addrs: "file_addr two_tree_file 0 = 610" "file_addr two_tree_file 874 = 602" "file_addr two_tree_file (873 + 1018 * (DNODES - 1) + 100) = 607"
proof -
  show "file_addr two_tree_file 0 = 610" unfolding file_addr_def two_tree_D by (simp add: two_tree_file_def arr_get_def)
  show "file_addr two_tree_file 874 = 602" unfolding file_addr_def two_tree_D by (simp add: two_tree_dnodes DNODES_def arr_get_def)
  define q where "q = DNODES - 1"
  have q: "q < DNODES" "dnode two_tree_file q = Some ((replicate 1018 0)[100 := 607])" using two_tree_dnodes(2) by (simp_all add: q_def DNODES_def)
  show "file_addr two_tree_file (873 + 1018 * (DNODES - 1) + 100) = 607" unfolding file_addr_def two_tree_D q_def [symmetric] using q by (simp add: arr_get_def)
qed

theorem truncate_blocks_exact_witness:
  "case truncate_blocks count_space reads_fine None (4096 * 100) two_tree_file of (ret, st') \<Rightarrow> ret = None \<and> file_addr st' 0 = 610 \<and> file_addr two_tree_file 874 = 602 \<and> file_addr st' 874 = 0"
proof -
  obtain ret st' where r: "truncate_blocks count_space reads_fine None (4096 * 100) two_tree_file = (ret, st')" by fastforce
  have "ret = None \<and> (\<forall>i. file_addr st' i = (if i < 100 then file_addr two_tree_file i else 0))"
    using truncate_blocks_exact [OF two_tree_file_ok _ _ _ _ r, of 100] by (simp add: reads_fine_def max_file_blocks_def two_tree_D DNODES_def)
  then show ?thesis using r two_tree_addrs by simp
qed

theorem truncate_blocks_error_safe_witness:
  "case truncate_blocks count_space (reads_fine\<lparr>rd_err := [8 \<mapsto> EIO]\<rparr>) None (4096 * 100) two_tree_file of (ret, st') \<Rightarrow> file_addr st' 0 = 610 \<and> file_ok st'"
proof -
  let ?io = "reads_fine\<lparr>rd_err := [8 \<mapsto> EIO]\<rparr>"
  obtain ret st' where r: "truncate_blocks count_space ?io None (4096 * 100) two_tree_file = (ret, st')" by fastforce
  have "file_ok st' \<and> (\<forall>i. file_addr st' i = file_addr two_tree_file i \<or> 100 \<le> i \<and> file_addr st' i = 0)"
    using truncate_blocks_error_safe [OF two_tree_file_ok _ _ _ r, of 100] by (simp add: reads_fine_def io_ok_def max_file_blocks_def)
  then show ?thesis using r two_tree_addrs(1) by (metis (mono_tags, lifting) case_prod_conv not_numeral_le_zero)
qed

theorem truncate_last_dnode_E2BIG_witness:
  "case truncate_blocks count_space reads_fine None (4096 * (873 + 1018 * (DNODES - 1) + 50)) two_tree_file of (ret, st') \<Rightarrow>
     ret = Some E2BIG \<and> file_addr two_tree_file (873 + 1018 * (DNODES - 1) + 100) = 607 \<and> file_addr st' (873 + 1018 * (DNODES - 1) + 100) = 0"
proof -
  let ?F = "873 + 1018 * (DNODES - 1) + 50"
  obtain ret st' where r: "truncate_blocks count_space reads_fine None (4096 * ?F) two_tree_file = (ret, st')" by fastforce
  have d: "dnode two_tree_file (DNODES - 1) \<noteq> None" unfolding two_tree_dnodes(2) by simp
  have "ret = Some E2BIG \<and> (\<forall>i. file_addr st' i = (if i < ?F then file_addr two_tree_file i else 0))"
    by (rule truncate_last_dnode_E2BIG [OF two_tree_file_ok _ _ _ d _ r]) (simp_all add: reads_fine_def max_file_blocks_def two_tree_D DNODES_def)
  then show ?thesis using r two_tree_addrs(3) by simp
qed

theorem get_dnode_of_data_lookup_witness:
  "case get_dnode_of_data count_space reads_fine False (int 874) two_tree_file of (err, dn, st') \<Rightarrow> err = None \<and> data_blkaddr dn = 602 \<and> ofs_in_node dn = 1"
proof -
  obtain err dn st' where r: "get_dnode_of_data count_space reads_fine False (int 874) two_tree_file = (err, dn, st')" by (cases "get_dnode_of_data count_space reads_fine False (int 874) two_tree_file")
  have "int 874 < addrs_per_inode (fs_layout two_tree_file) + max_file_blocks" using file_ok_D [OF two_tree_file_ok] two_tree_D by (simp add: max_file_blocks_def)
  note L = get_dnode_of_data_lookup [OF two_tree_file_ok _ this r]
  have "err = None" using L two_tree_addrs(2) by (auto simp: reads_fine_def split: if_splits)
  then show ?thesis using L r two_tree_addrs(2) by (simp add: reads_fine_def two_tree_D)
qed

end
