(* ===== verification/Xattr.thy ===== *)
theory Xattr
  imports Byte_Block
begin

text \<open>
  Extended attributes (\<^verbatim>\<open>xattr.c\<close>, \<^verbatim>\<open>xattr.h\<close>). The attributes of an inode are one byte area: a header, entries of an index, the lengths of name and value, the name and the value, padded to
  four bytes, and zeros. Its first part lies in the inode, the rest in a node block of its own. The functions work on a copy of the whole area, as the code does; a read outside the copy is \<open>None\<close>.
  Locks and the VFS names have no counterpart.
\<close>

section \<open>Entries in the area\<close>

definition XATTR_HDR_SIZE :: nat where "XATTR_HDR_SIZE = 24"
definition XATTR_ENTRY_SIZE :: nat where "XATTR_ENTRY_SIZE = 4"
definition VALID_XATTR_BLOCK_SIZE :: nat where "VALID_XATTR_BLOCK_SIZE = 4096 - 24"
definition XATTR_PADDING_SIZE :: nat where "XATTR_PADDING_SIZE = 4"
definition F2FS_NAME_LEN :: nat where "F2FS_NAME_LEN = 255"
definition F2FS_XATTR_MAGIC :: u32 where "F2FS_XATTR_MAGIC = 0xF2F52011"
definition F2FS_XATTR_INDEX_ENCRYPTION :: nat where "F2FS_XATTR_INDEX_ENCRYPTION = 9"

definition XATTR_ALIGN :: "nat \<Rightarrow> nat" where
  "XATTR_ALIGN sz = (sz + 3) div 4 * 4"

definition e_name_index :: "u8 list \<Rightarrow> nat \<Rightarrow> nat" where "e_name_index b p = unat (arr_get 0 b p)"
definition e_name_len :: "u8 list \<Rightarrow> nat \<Rightarrow> nat" where "e_name_len b p = unat (arr_get 0 b (p + 1))"
definition e_value_size :: "u8 list \<Rightarrow> nat \<Rightarrow> nat" where "e_value_size b p = unat (get16 (p + 2) b)"

definition ENTRY_SIZE :: "u8 list \<Rightarrow> nat \<Rightarrow> nat" where
  "ENTRY_SIZE b p = XATTR_ALIGN (XATTR_ENTRY_SIZE + e_name_len b p + e_value_size b p)"

definition XATTR_NEXT_ENTRY :: "u8 list \<Rightarrow> nat \<Rightarrow> nat" where
  "XATTR_NEXT_ENTRY b p = p + ENTRY_SIZE b p"

definition IS_XATTR_LAST_ENTRY :: "u8 list \<Rightarrow> nat \<Rightarrow> bool" where
  "IS_XATTR_LAST_ENTRY b p = (get32 p b = 0)"

lemma next_entry_grows: "p < XATTR_NEXT_ENTRY b p"
  by (simp add: XATTR_NEXT_ENTRY_def ENTRY_SIZE_def XATTR_ALIGN_def XATTR_ENTRY_SIZE_def)

text \<open>Whether the entry at \<open>p\<close> has this index and name; the name is only compared when the lengths agree.\<close>

definition entry_matches :: "u8 list \<Rightarrow> nat \<Rightarrow> u8 list \<Rightarrow> nat \<Rightarrow> bool option" where
  "entry_matches b index name p =
     (if e_name_index b p \<noteq> index then Some False
      else if e_name_len b p \<noteq> length name then Some False
      else if p + XATTR_ENTRY_SIZE + length name > length b then None
      else Some (get_bytes (p + XATTR_ENTRY_SIZE) (length name) b = name))"

function find_xattr :: "u8 list \<Rightarrow> nat \<Rightarrow> u8 list \<Rightarrow> nat \<Rightarrow> nat option" where
  "find_xattr b index name p =
     (if p + 4 > length b then None
      else if IS_XATTR_LAST_ENTRY b p then Some p
      else case entry_matches b index name p of None \<Rightarrow> None
           | Some True \<Rightarrow> Some p
           | Some False \<Rightarrow> find_xattr b index name (XATTR_NEXT_ENTRY b p))"
  by pat_completeness auto
termination
  by (relation "measure (\<lambda>(b, index, name, p). length b - p)") (use next_entry_grows in \<open>auto intro!: diff_less_mono2\<close>)

text \<open>The search in the inode stops at an entry that reaches into the last four bytes (\<open>Inl\<close>).\<close>

function find_inline_xattr :: "u8 list \<Rightarrow> nat \<Rightarrow> nat \<Rightarrow> u8 list \<Rightarrow> nat \<Rightarrow> (nat + nat) option" where
  "find_inline_xattr b inline_size index name p =
     (if p + 4 > length b then None
      else if IS_XATTR_LAST_ENTRY b p then Some (Inr p)
      else if p + 4 > inline_size \<or> XATTR_NEXT_ENTRY b p + 4 > inline_size then Some (Inl p)
      else case entry_matches b index name p of None \<Rightarrow> None
           | Some True \<Rightarrow> Some (Inr p)
           | Some False \<Rightarrow> find_inline_xattr b inline_size index name (XATTR_NEXT_ENTRY b p))"
  by pat_completeness auto
termination
  by (relation "measure (\<lambda>(b, n, index, name, p). length b - p)") (use next_entry_grows in \<open>auto intro!: diff_less_mono2\<close>)

function last_entry :: "u8 list \<Rightarrow> nat \<Rightarrow> nat option" where
  "last_entry b p = (if p + 4 > length b then None else if IS_XATTR_LAST_ENTRY b p then Some p else last_entry b (XATTR_NEXT_ENTRY b p))"
  by pat_completeness auto
termination
  by (relation "measure (\<lambda>(b, p). length b - p)") (use next_entry_grows in \<open>auto intro!: diff_less_mono2\<close>)

declare find_xattr.simps [simp del] find_inline_xattr.simps [simp del] last_entry.simps [simp del]

section \<open>The attributes of an inode\<close>

text \<open>\<open>xi_inline\<close> is as long as \<^verbatim>\<open>inline_xattr_size\<close>; \<open>xi_block\<close> is \<open>None\<close> when the inode has no node for attributes; \<open>xi_acl_mode\<close> is set with \<^verbatim>\<open>FI_ACL_MODE\<close>.\<close>

unbundle bit_operations_syntax

definition S_ISDIR :: "u16 \<Rightarrow> bool" where
  "S_ISDIR mode \<longleftrightarrow> mode AND 0xF000 = 0x4000"

record xattr_inode =
  xi_inline :: "u8 list"
  xi_block :: "u8 list option"
  xi_mode :: u16
  xi_acl_mode :: "u16 option"
  xi_encrypted :: bool
  xi_dirty :: bool
  xi_need_cp :: bool

record xattr_io =
  xo_inode :: "errno option"
  xo_block :: "errno option"
  xo_new_block :: "errno option"
  xo_no_nid :: bool
  xo_no_mem :: bool

definition MIN_OFFSET :: "xattr_inode \<Rightarrow> nat" where
  "MIN_OFFSET st = XATTR_ALIGN (length (xi_inline st) + VALID_XATTR_BLOCK_SIZE)"

definition MAX_VALUE_LEN :: "xattr_inode \<Rightarrow> nat" where
  "MAX_VALUE_LEN st = MIN_OFFSET st - XATTR_HDR_SIZE - XATTR_ENTRY_SIZE"

definition read_inline_xattr :: "xattr_io \<Rightarrow> xattr_inode \<Rightarrow> u8 list \<Rightarrow> u8 list result" where
  "read_inline_xattr io st t = (case xo_inode io of Some e \<Rightarrow> Inl e | None \<Rightarrow> Inr (put_bytes 0 (xi_inline st) t))"

definition read_xattr_block :: "xattr_io \<Rightarrow> xattr_inode \<Rightarrow> u8 list \<Rightarrow> u8 list result" where
  "read_xattr_block io st t =
     (case xo_block io of Some e \<Rightarrow> Inl e
      | None \<Rightarrow> case xi_block st of None \<Rightarrow> Inr t | Some blk \<Rightarrow> Inr (put_bytes (length (xi_inline st)) (take VALID_XATTR_BLOCK_SIZE blk) t))"

text \<open>The copy and the entry, or an error.\<close>

definition lookup_all_xattrs :: "xattr_io \<Rightarrow> xattr_inode \<Rightarrow> nat \<Rightarrow> u8 list \<Rightarrow> (errno + u8 list \<times> nat) option" where
  "lookup_all_xattrs io st index name =
     (let sz = (if xi_block st \<noteq> None then VALID_XATTR_BLOCK_SIZE else 0);
          inline_size = length (xi_inline st);
          check = (\<lambda>t xe. if IS_XATTR_LAST_ENTRY t xe then Some (Inl ENODATA) else Some (Inr (t, xe)));
          rest = (\<lambda>t last_addr.
            case (if xi_block st \<noteq> None then read_xattr_block io st t else Inr t) of Inl e \<Rightarrow> Some (Inl e)
            | Inr t \<Rightarrow> (case find_xattr t index name (case last_addr of Some p \<Rightarrow> p | None \<Rightarrow> XATTR_HDR_SIZE) of None \<Rightarrow> None | Some xe \<Rightarrow> check t xe));
          t = replicate (inline_size + sz + XATTR_PADDING_SIZE) 0
      in if sz = 0 \<and> inline_size = 0 then Some (Inl ENODATA)
         else if xo_no_mem io then Some (Inl ENOMEM)
         else if inline_size \<noteq> 0 then
           (case read_inline_xattr io st t of Inl e \<Rightarrow> Some (Inl e)
            | Inr t \<Rightarrow>
                (case find_inline_xattr t inline_size index name XATTR_HDR_SIZE of None \<Rightarrow> None
                 | Some (Inr xe) \<Rightarrow> check t xe
                 | Some (Inl lst) \<Rightarrow> rest t (Some lst)))
         else rest t None)"

definition read_all_xattrs :: "xattr_io \<Rightarrow> xattr_inode \<Rightarrow> u8 list result" where
  "read_all_xattrs io st =
     (let inline_size = length (xi_inline st);
          t = replicate (inline_size + VALID_XATTR_BLOCK_SIZE + XATTR_PADDING_SIZE) 0
      in if xo_no_mem io then Inl ENOMEM
         else case (if inline_size \<noteq> 0 then read_inline_xattr io st t else Inr t) of Inl e \<Rightarrow> Inl e
         | Inr t \<Rightarrow>
             (case (if xi_block st \<noteq> None then read_xattr_block io st t else Inr t) of Inl e \<Rightarrow> Inl e
              | Inr t \<Rightarrow> Inr (if get32 0 t \<noteq> F2FS_XATTR_MAGIC then put_bytes 4 (le32_bytes 1) (put_bytes 0 (le32_bytes F2FS_XATTR_MAGIC) t) else t)))"

text \<open>\<^verbatim>\<open>truncate_xattr_node\<close> fails when the node cannot be read.\<close>

definition write_all_xattrs :: "xattr_io \<Rightarrow> nat \<Rightarrow> u8 list \<Rightarrow> xattr_inode \<Rightarrow> errno option \<times> xattr_inode" where
  "write_all_xattrs io hsize t st =
     (let inline_size = length (xi_inline st);
          st' = st\<lparr>xi_inline := take inline_size t, xi_block := Some (get_bytes inline_size VALID_XATTR_BLOCK_SIZE t)\<rparr>
      in if hsize > inline_size \<and> xi_block st = None \<and> xo_no_nid io then (Some ENOSPC, st)
         else if inline_size \<noteq> 0 \<and> xo_inode io \<noteq> None then (xo_inode io, st)
         else if inline_size \<noteq> 0 \<and> hsize \<le> inline_size then
           (if xi_block st \<noteq> None \<and> xo_block io \<noteq> None then (xo_block io, st)
            else (None, st\<lparr>xi_inline := take inline_size t, xi_block := None\<rparr>))
         else if xi_block st \<noteq> None then
           (if xo_block io \<noteq> None then (xo_block io, st) else (None, st'))
         else if xo_new_block io \<noteq> None then (xo_new_block io, st)
         else (None, st'))"

section \<open>Operations\<close>

text \<open>The size of the value and, with a buffer, its bytes.\<close>

definition f2fs_getxattr :: "xattr_io \<Rightarrow> nat \<Rightarrow> u8 list \<Rightarrow> nat option \<Rightarrow> xattr_inode \<Rightarrow> (errno + nat \<times> u8 list option) option" where
  "f2fs_getxattr io index name buffer_size st =
     (if length name > F2FS_NAME_LEN then Some (Inl ERANGE)
      else case lookup_all_xattrs io st index name of None \<Rightarrow> None
      | Some (Inl e) \<Rightarrow> Some (Inl e)
      | Some (Inr (t, xe)) \<Rightarrow>
          let sz = e_value_size t xe; pval = xe + XATTR_ENTRY_SIZE + e_name_len t xe
          in case buffer_size of None \<Rightarrow> Some (Inr (sz, None))
             | Some buffer_size \<Rightarrow>
                 if sz > buffer_size then Some (Inl ERANGE)
                 else if pval + sz > length t then None
                 else Some (Inr (sz, Some (get_bytes pval sz t))))"

text \<open>The loop of \<^verbatim>\<open>f2fs_listxattr\<close>; \<open>pfx\<close> gives the prefix of an index that is listed.\<close>

function list_loop :: "(nat \<Rightarrow> u8 list option) \<Rightarrow> u8 list \<Rightarrow> nat \<Rightarrow> nat option \<Rightarrow> u8 list \<Rightarrow> nat \<Rightarrow> (errno + nat \<times> u8 list) option" where
  "list_loop pfx b p rest out tot =
     (if p + 4 > length b then None
      else if IS_XATTR_LAST_ENTRY b p then Some (Inr (tot, out))
      else case pfx (e_name_index b p) of
             None \<Rightarrow> list_loop pfx b (XATTR_NEXT_ENTRY b p) rest out tot
           | Some pre \<Rightarrow>
               let sz = length pre + e_name_len b p + 1
               in case rest of
                    None \<Rightarrow> list_loop pfx b (XATTR_NEXT_ENTRY b p) None out (tot + sz)
                  | Some r \<Rightarrow>
                      if sz > r then Some (Inl ERANGE)
                      else if p + XATTR_ENTRY_SIZE + e_name_len b p > length b then None
                      else list_loop pfx b (XATTR_NEXT_ENTRY b p) (Some (r - sz)) (out @ pre @ get_bytes (p + XATTR_ENTRY_SIZE) (e_name_len b p) b @ [0]) (tot + sz))"
  by pat_completeness auto
termination
  by (relation "measure (\<lambda>(pfx, b, p, rest, out, tot). length b - p)") (use next_entry_grows in \<open>auto intro!: diff_less_mono2\<close>)

declare list_loop.simps [simp del]

definition f2fs_listxattr :: "xattr_io \<Rightarrow> (nat \<Rightarrow> u8 list option) \<Rightarrow> nat option \<Rightarrow> xattr_inode \<Rightarrow> (errno + nat \<times> u8 list) option" where
  "f2fs_listxattr io pfx buffer_size st =
     (case read_all_xattrs io st of Inl e \<Rightarrow> Some (Inl e) | Inr t \<Rightarrow> list_loop pfx t XATTR_HDR_SIZE buffer_size [] 0)"

definition f2fs_xattr_value_same :: "u8 list \<Rightarrow> nat \<Rightarrow> u8 list \<Rightarrow> bool" where
  "f2fs_xattr_value_same b p v \<longleftrightarrow> e_value_size b p = length v \<and> get_bytes (p + XATTR_ENTRY_SIZE + e_name_len b p) (length v) b = v"

text \<open>Steps 2 and 3 on the copy: the old entry at \<open>here\<close> is closed up, the new one written behind the last. The result is the copy and its used size.\<close>

definition remove_entry :: "nat \<Rightarrow> nat \<Rightarrow> u8 list \<Rightarrow> u8 list \<times> nat" where
  "remove_entry here lst b =
     (let nxt = XATTR_NEXT_ENTRY b here; oldsize = ENTRY_SIZE b here;
          b = put_bytes here (get_bytes nxt (lst - nxt) b) b;
          lst = lst - oldsize
      in (put_bytes lst (replicate oldsize 0) b, lst))"

definition write_entry :: "nat \<Rightarrow> nat \<Rightarrow> u8 list \<Rightarrow> u8 list \<Rightarrow> u8 list \<Rightarrow> u8 list" where
  "write_entry lst index name v b =
     (let b = put_bytes lst [of_nat index, of_nat (length name)] b;
          b = put_bytes (lst + XATTR_ENTRY_SIZE) name b;
          b = put_bytes (lst + XATTR_ENTRY_SIZE + length name) v b
      in put_bytes (lst + 2) (le16_bytes (of_nat (length v))) b)"

text \<open>\<open>context_name\<close> is the name of the encryption context.\<close>

definition f2fs_setxattr :: "xattr_io \<Rightarrow> u8 list \<Rightarrow> nat \<Rightarrow> u8 list \<Rightarrow> u8 list option \<Rightarrow> bool \<Rightarrow> bool \<Rightarrow> xattr_inode \<Rightarrow> (errno option \<times> xattr_inode) option" where
  "f2fs_setxattr io context_name index name v create replace st =
     (let sz = (case v of None \<Rightarrow> 0 | Some v \<Rightarrow> length v); len = length name
      in if len > F2FS_NAME_LEN then Some (Some ERANGE, st)
         else if sz > MAX_VALUE_LEN st then Some (Some E2BIG, st)
         else case read_all_xattrs io st of Inl e \<Rightarrow> Some (Some e, st)
         | Inr b \<Rightarrow>
         case find_xattr b index name XATTR_HDR_SIZE of None \<Rightarrow> None
         | Some here \<Rightarrow>
         let found = \<not> IS_XATTR_LAST_ENTRY b here
         in if found \<and> create then Some (Some EEXIST, st)
            else if found \<and> (case v of None \<Rightarrow> False | Some v \<Rightarrow> f2fs_xattr_value_same b here v) then Some (None, st)
            else if \<not> found \<and> replace then Some (Some ENODATA, st)
            else case last_entry b here of None \<Rightarrow> None
            | Some lst \<Rightarrow>
            let newsize = XATTR_ALIGN (XATTR_ENTRY_SIZE + len + sz);
                free = int (MIN_OFFSET st) - int lst + (if found then int (ENTRY_SIZE b here) else 0)
            in if v \<noteq> None \<and> free < int newsize then Some (Some E2BIG, st)
               else
                 let (b, lst) = (if found then remove_entry here lst b else (b, lst));
                     (b, new_hsize) = (case v of None \<Rightarrow> (b, lst) | Some v \<Rightarrow> (write_entry lst index name v b, lst + newsize))
                 in case write_all_xattrs io new_hsize b st of
                      (Some e, st) \<Rightarrow> Some (Some e, st)
                    | (None, st) \<Rightarrow>
                        let st = (case xi_acl_mode st of None \<Rightarrow> st | Some m \<Rightarrow> st\<lparr>xi_mode := m, xi_acl_mode := None\<rparr>);
                            st = (if index = F2FS_XATTR_INDEX_ENCRYPTION \<and> name = context_name then st\<lparr>xi_encrypted := True\<rparr> else st);
                            st = st\<lparr>xi_dirty := True\<rparr>
                        in Some (None, if S_ISDIR (xi_mode st) then st\<lparr>xi_need_cp := True\<rparr> else st))"

end
