(* ===== verification/Xattr_Map.thy ===== *)
theory Xattr_Map
  imports Xattr
begin

text \<open>
  The attributes of an inode as a list of (index, name, value): what the byte area holds, and that setting, getting and listing attributes work on this list as on a map.
\<close>

section \<open>The entries of an area\<close>

type_synonym xentry = "nat \<times> u8 list \<times> u8 list"

definition xkey :: "xentry \<Rightarrow> nat \<times> u8 list" where
  "xkey e = (fst e, fst (snd e))"

definition xval :: "xentry \<Rightarrow> u8 list" where
  "xval e = snd (snd e)"

definition xlen :: "xentry \<Rightarrow> nat" where
  "xlen e = XATTR_ALIGN (4 + length (fst (snd e)) + length (xval e))"

definition xenc :: "xentry \<Rightarrow> u8 list" where
  "xenc e = (let n = fst (snd e); v = xval e
     in [of_nat (fst e), of_nat (length n)] @ le16_bytes (of_nat (length v)) @ n @ v @ replicate (xlen e - (4 + length n + length v)) 0)"

definition xentry_ok :: "xentry \<Rightarrow> bool" where
  "xentry_ok e \<longleftrightarrow> 0 < fst e \<and> fst e < 256 \<and> length (fst (snd e)) < 256 \<and> length (xval e) < 65536"

abbreviation xencs :: "xentry list \<Rightarrow> u8 list" where
  "xencs es \<equiv> concat (map xenc es)"

lemma align_ge: "n \<le> XATTR_ALIGN n"
  by (simp add: XATTR_ALIGN_def)

lemma align_mod [simp]: "XATTR_ALIGN n mod 4 = 0"
  by (simp add: XATTR_ALIGN_def)

lemma xlen_ge: "4 + length (fst (snd e)) + length (xval e) \<le> xlen e"
  by (simp add: xlen_def align_ge)

lemma length_xenc [simp]: "length (xenc e) = xlen e"
  using xlen_ge [of e] by (simp add: xenc_def Let_def)

lemma length_xencs [simp]: "length (xencs es) = sum_list (map xlen es)"
  by (induction es) simp_all

lemma xlen_pos: "4 \<le> xlen e"
  using xlen_ge [of e] by simp

lemma get_at: "get_bytes (length xs) (length ys) (xs @ ys @ zs) = ys"
  by (simp add: get_bytes_def)

lemma get_at': "off = length xs \<Longrightarrow> n = length ys \<Longrightarrow> b = xs @ ys @ zs \<Longrightarrow> get_bytes off n b = ys"
  by (simp add: get_bytes_def)

lemma entry_at:
  assumes ok: "xentry_ok e" and b: "b = xs @ xenc e @ zs"
  shows "e_name_index b (length xs) = fst e" "e_name_len b (length xs) = length (fst (snd e))" "e_value_size b (length xs) = length (xval e)"
    "get_bytes (length xs + 4) (length (fst (snd e))) b = fst (snd e)" "get_bytes (length xs + 4 + length (fst (snd e))) (length (xval e)) b = xval e"
    "\<not> IS_XATTR_LAST_ENTRY b (length xs)"
proof -
  obtain i n v where e: "e = (i, n, v)" by (cases e)
  let ?h = "[of_nat i, of_nat (length n)] :: u8 list" and ?l = "le16_bytes (of_nat (length v))" and ?p = "replicate (xlen e - (4 + length n + length v)) (0 :: u8)"
  have x: "xenc e = ?h @ ?l @ n @ v @ ?p" by (simp add: e xenc_def xval_def Let_def)
  have o: "0 < i" "i < 256" "length n < 256" "length v < 65536" using ok by (simp_all add: e xentry_ok_def xval_def)
  show "e_name_index b (length xs) = fst e" "e_name_len b (length xs) = length (fst (snd e))"
    using o by (simp_all add: e_name_index_def e_name_len_def b x arr_get_def nth_append unat_of_nat) (simp_all add: e unat_of_nat)
  have "get_bytes (length xs + 2) 2 b = ?l" by (rule get_at' [of _ "xs @ ?h"]) (simp_all add: b x)
  then show "e_value_size b (length xs) = length (xval e)" using o by (simp add: e_value_size_def get16_def e xval_def unat_of_nat)
  show "get_bytes (length xs + 4) (length (fst (snd e))) b = fst (snd e)"
    by (rule get_at' [of _ "xs @ ?h @ ?l"]) (simp_all add: b x, simp add: e)
  show "get_bytes (length xs + 4 + length (fst (snd e))) (length (xval e)) b = xval e"
    by (rule get_at' [of _ "xs @ ?h @ ?l @ n" _ _ _ "?p @ zs"]) (simp_all add: b x, simp_all add: e xval_def)
  have "get_bytes (length xs) 4 b = ?h @ ?l" by (rule get_at' [of _ xs]) (simp_all add: b x)
  then have g: "get32 (length xs) b = le_word (?h @ ?l)" by (simp add: get32_def)
  obtain k where k: "bit i k" using o(1) by (metis bit_eq_iff bit_0_eq bot_apply bot_bool_def less_numeral_extra(3))
  have "k < 8"
  proof (rule ccontr)
    assume "\<not> k < 8"
    then have "(2::nat) ^ 8 \<le> 2 ^ k" by (intro power_increasing) simp_all
    then have "i div 2 ^ k = 0" using o(2) by simp
    then show False using k by (simp add: bit_iff_odd)
  qed
  then have "bit (le_word (?h @ ?l) :: u32) k" using k by (simp add: bit_simps le16_bytes_def)
  then show "\<not> IS_XATTR_LAST_ENTRY b (length xs)" unfolding IS_XATTR_LAST_ENTRY_def g by (metis bit_0_eq bot_apply bot_bool_def)
qed

lemma entry_size_at: "xentry_ok e \<Longrightarrow> b = xs @ xenc e @ zs \<Longrightarrow> ENTRY_SIZE b (length xs) = xlen e \<and> XATTR_NEXT_ENTRY b (length xs) = length (xs @ xenc e)"
  using entry_at [of e b xs zs] by (simp add: ENTRY_SIZE_def XATTR_NEXT_ENTRY_def xlen_def XATTR_ENTRY_SIZE_def)

lemma last_at:
  assumes b: "b = xs @ replicate k 0" and k: "4 \<le> k"
  shows "IS_XATTR_LAST_ENTRY b (length xs)"
proof -
  have r: "replicate k (0::u8) = replicate 4 0 @ replicate (k - 4) 0" using k by (metis le_add_diff_inverse replicate_add)
  have "get_bytes (length xs) 4 (xs @ replicate 4 0 @ replicate (k - 4) 0) = replicate 4 0" by (simp add: get_bytes_def)
  then have "get_bytes (length xs) 4 b = replicate 4 0" unfolding b r .
  moreover have "le_word (replicate n 0) = (0 :: u32)" for n by (induction n) simp_all
  ultimately show ?thesis by (simp add: IS_XATTR_LAST_ENTRY_def get32_def)
qed

lemma entry_matches_at:
  assumes "xentry_ok e" "b = xs @ xenc e @ zs"
  shows "entry_matches b i n (length xs) = Some (xkey e = (i, n))"
proof -
  note E = entry_at(1,2,4) [OF assms]
  have l: "length xs + XATTR_ENTRY_SIZE + length (fst (snd e)) \<le> length b" using assms(2) xlen_ge [of e] by (simp add: XATTR_ENTRY_SIZE_def)
  show ?thesis
  proof (cases "fst e = i \<and> length (fst (snd e)) = length n")
    case True
    then have "\<not> length b < length xs + XATTR_ENTRY_SIZE + length n" using l by simp
    then show ?thesis using True E by (simp add: entry_matches_def xkey_def XATTR_ENTRY_SIZE_def)
  next
    case False
    then show ?thesis using E(1,2) by (auto simp: entry_matches_def xkey_def)
  qed
qed


section \<open>Searching\<close>

definition others :: "nat \<times> u8 list \<Rightarrow> xentry list \<Rightarrow> xentry list" where
  "others k es = takeWhile (\<lambda>e. xkey e \<noteq> k) es"

lemma find_xattr_at:
  assumes "list_all xentry_ok es" "b = xs @ xencs es @ replicate k 0" "4 \<le> k"
  shows "find_xattr b i n (length xs) = Some (length (xs @ xencs (others (i, n) es)))"
  using assms
proof (induction es arbitrary: xs)
  case Nil
  then show ?case using last_at [of b xs k] by (subst find_xattr.simps) (simp add: others_def)
next
  case (Cons e es)
  have ok: "xentry_ok e" using Cons.prems(1) by simp
  have b: "b = xs @ xenc e @ (xencs es @ replicate k 0)" "b = (xs @ xenc e) @ xencs es @ replicate k 0" using Cons.prems(2) by simp_all
  have l: "\<not> length xs + 4 > length b" using b(1) xlen_pos [of e] by simp
  note E = entry_at(6) [OF ok b(1)] entry_size_at [OF ok b(1)] entry_matches_at [OF ok b(1), of i n]
  have step: "find_xattr b i n (length xs) = (if xkey e = (i, n) then Some (length xs) else find_xattr b i n (length (xs @ xenc e)))"
    using E l by (subst find_xattr.simps) simp
  show ?case
  proof (cases "xkey e = (i, n)")
    case True
    then show ?thesis unfolding step by (simp add: others_def)
  next
    case False
    have "find_xattr b i n (length (xs @ xenc e)) = Some (length ((xs @ xenc e) @ xencs (others (i, n) es)))"
      by (rule Cons.IH [OF _ b(2) Cons.prems(3)]) (use Cons.prems(1) in simp)
    then show ?thesis unfolding step using False by (simp add: others_def)
  qed
qed

lemma last_entry_at:
  assumes "list_all xentry_ok es" "b = xs @ xencs es @ replicate k 0" "4 \<le> k"
  shows "last_entry b (length xs) = Some (length (xs @ xencs es))"
  using assms
proof (induction es arbitrary: xs)
  case Nil
  then show ?case using last_at [of b xs k] by (subst last_entry.simps) simp
next
  case (Cons e es)
  have ok: "xentry_ok e" using Cons.prems(1) by simp
  have b: "b = xs @ xenc e @ (xencs es @ replicate k 0)" "b = (xs @ xenc e) @ xencs es @ replicate k 0" using Cons.prems(2) by simp_all
  have l: "\<not> length xs + 4 > length b" using b(1) xlen_pos [of e] by simp
  have "last_entry b (length (xs @ xenc e)) = Some (length ((xs @ xenc e) @ xencs es))"
    by (rule Cons.IH [OF _ b(2) Cons.prems(3)]) (use Cons.prems(1) in simp)
  then show ?case using entry_at(6) [OF ok b(1)] entry_size_at [OF ok b(1)] l by (subst last_entry.simps) simp
qed

text \<open>The first entry with a key.\<close>

lemma others_split:
  "(\<exists>e es'. es = others k es @ e # es' \<and> xkey e = k \<and> find (\<lambda>e. xkey e = k) es = Some e) \<or> others k es = es \<and> find (\<lambda>e. xkey e = k) es = None"
  by (induction es) (auto simp: others_def)

lemma find_found:
  assumes "list_all xentry_ok es" "b = xs @ xencs es @ replicate k 0" "4 \<le> k" "p = length (xs @ xencs (others key es))"
  shows "IS_XATTR_LAST_ENTRY b p \<longleftrightarrow> find (\<lambda>e. xkey e = key) es = None"
  using others_split [of es key]
proof
  assume "\<exists>e es'. es = others key es @ e # es' \<and> xkey e = key \<and> find (\<lambda>e. xkey e = key) es = Some e"
  then obtain e es' where e: "es = others key es @ e # es'" "find (\<lambda>e. xkey e = key) es = Some e" by blast
  have "b = xs @ xencs (others key es @ e # es') @ replicate k 0" using assms(2) e(1) by argo
  then have "b = (xs @ xencs (others key es)) @ xenc e @ (xencs es' @ replicate k 0)" by simp
  moreover have "xentry_ok e" using assms(1) e(2) by (auto simp: find_Some_iff list_all_length)
  ultimately have "\<not> IS_XATTR_LAST_ENTRY b (length (xs @ xencs (others key es)))" by (intro entry_at(6))
  then show ?thesis using e(2) assms(4) by simp
next
  assume "others key es = es \<and> find (\<lambda>e. xkey e = key) es = None"
  then show ?thesis using last_at [of b "xs @ xencs es" k] assms by simp
qed


section \<open>Changing the area\<close>

lemma put_at:
  assumes "off = length P" "length ys \<le> length Q"
  shows "put_bytes off ys (P @ Q) = P @ ys @ drop (length ys) Q"
  using assms by (simp add: put_bytes_def)

lemma put_exact:
  assumes "off = length P" "length ys = length zs"
  shows "put_bytes off ys (P @ zs @ Q) = P @ ys @ Q"
  using assms by (simp add: put_bytes_def)

lemma remove_entry_at:
  assumes "xentry_ok e" "b = (xs @ xencs es1) @ xenc e @ xencs es2 @ replicate k 0"
  shows "remove_entry (length (xs @ xencs es1)) (length (xs @ xencs (es1 @ e # es2))) b = (xs @ xencs (es1 @ es2) @ replicate (k + xlen e) 0, length (xs @ xencs (es1 @ es2)))"
proof -
  let ?P = "xs @ xencs es1"
  have N: "ENTRY_SIZE b (length ?P) = xlen e" "XATTR_NEXT_ENTRY b (length ?P) = length (?P @ xenc e)" using entry_size_at [OF assms] by simp_all
  have l: "length (xs @ xencs (es1 @ e # es2)) = length (?P @ xenc e) + length (xencs es2)" by simp
  have g: "get_bytes (length (?P @ xenc e)) (length (xencs es2)) b = xencs es2" by (rule get_at' [of _ "?P @ xenc e" _ _ _ "replicate k 0"]) (simp_all add: assms(2))
  have p: "put_bytes (length ?P) (xencs es2) b = (?P @ xencs es2) @ drop (length (xencs es2)) (xenc e @ xencs es2 @ replicate k 0)"
    unfolding assms(2) by (subst put_at) simp_all
  have q: "put_bytes (length (?P @ xencs es2)) (replicate (xlen e) 0) ((?P @ xencs es2) @ drop (length (xencs es2)) (xenc e @ xencs es2 @ replicate k 0)) =
      (?P @ xencs es2) @ replicate (xlen e) 0 @ replicate k 0"
    by (subst put_at) simp_all
  have d: "length (?P @ xenc e) + length (xencs es2) - xlen e = length (?P @ xencs es2)" by simp
  have r: "replicate (xlen e) (0::u8) @ replicate k 0 = replicate (k + xlen e) 0" by (simp add: replicate_add [symmetric] add.commute)
  show ?thesis unfolding remove_entry_def Let_def N l add_diff_cancel_left' g p d q r by simp
qed

lemma write_entry_at:
  assumes "b = xs @ replicate k 0" "xlen (i, n, v) \<le> k"
  shows "write_entry (length xs) i n v b = xs @ xenc (i, n, v) @ replicate (k - xlen (i, n, v)) 0"
proof -
  let ?pad = "xlen (i, n, v) - (4 + length n + length v)" and ?h = "[of_nat i, of_nat (length n)] :: u8 list"
  let ?z = "\<lambda>k. replicate k (0::u8)"
  have k: "k = 2 + (2 + (length n + (length v + (?pad + (k - xlen (i, n, v))))))" using assms(2) xlen_ge [of "(i, n, v)"] by (simp add: xval_def)
  define t where "t = ?z (?pad + (k - xlen (i, n, v)))"
  have "?z k = ?z 2 @ ?z 2 @ ?z (length n) @ ?z (length v) @ t" unfolding t_def by (subst k) (simp only: replicate_add append_assoc)
  then have b: "b = xs @ ?z 2 @ ?z 2 @ ?z (length n) @ ?z (length v) @ t" using assms(1) by simp
  have 1: "put_bytes (length xs) ?h b = xs @ ?h @ ?z 2 @ ?z (length n) @ ?z (length v) @ t" unfolding b by (rule put_exact) simp_all
  have 2: "put_bytes (length xs + 4) n (xs @ ?h @ ?z 2 @ ?z (length n) @ ?z (length v) @ t) = xs @ ?h @ ?z 2 @ n @ ?z (length v) @ t"
    using put_exact [of "length xs + 4" "xs @ ?h @ ?z 2" n "?z (length n)" "?z (length v) @ t"] by simp
  have 3: "put_bytes (length xs + 4 + length n) v (xs @ ?h @ ?z 2 @ n @ ?z (length v) @ t) = xs @ ?h @ ?z 2 @ n @ v @ t"
    using put_exact [of "length xs + 4 + length n" "xs @ ?h @ ?z 2 @ n" v "?z (length v)" t] by simp
  have 4: "put_bytes (length xs + 2) (le16_bytes (of_nat (length v))) (xs @ ?h @ ?z 2 @ n @ v @ t) = xs @ ?h @ le16_bytes (of_nat (length v)) @ n @ v @ t"
    using put_exact [of "length xs + 2" "xs @ ?h" "le16_bytes (of_nat (length v))" "?z 2" "n @ v @ t"] by simp
  have "write_entry (length xs) i n v b = xs @ ?h @ le16_bytes (of_nat (length v)) @ n @ v @ t"
    unfolding write_entry_def Let_def XATTR_ENTRY_SIZE_def 1 2 3 4 ..
  then show ?thesis by (simp add: xenc_def Let_def xval_def t_def replicate_add)
qed

section \<open>The attributes of an inode\<close>

definition full_area :: "xattr_inode \<Rightarrow> u8 list" where
  "full_area st = xi_inline st @ (case xi_block st of None \<Rightarrow> replicate VALID_XATTR_BLOCK_SIZE 0 | Some blk \<Rightarrow> blk) @ replicate 4 0"

definition xattrs_in :: "u8 list \<Rightarrow> xentry list \<Rightarrow> bool" where
  "xattrs_in b es \<longleftrightarrow> list_all xentry_ok es \<and> distinct (map xkey es) \<and> (\<exists>h k. length h = XATTR_HDR_SIZE \<and> 4 \<le> k \<and> b = h @ xencs es @ replicate k 0)"

definition has_xattrs :: "xattr_inode \<Rightarrow> xentry list \<Rightarrow> bool" where
  "has_xattrs st es \<longleftrightarrow> length (xi_inline st) mod 4 = 0 \<and> length (xi_inline st) < 4096 \<and> (\<forall>blk. xi_block st = Some blk \<longrightarrow> length blk = VALID_XATTR_BLOCK_SIZE) \<and>
     (xi_block st = None \<longrightarrow> es = [] \<or> XATTR_HDR_SIZE + sum_list (map xlen es) \<le> length (xi_inline st)) \<and> xattrs_in (full_area st) es"

lemma length_full: "has_xattrs st es \<Longrightarrow> length (full_area st) = length (xi_inline st) + VALID_XATTR_BLOCK_SIZE + 4"
  by (auto simp: full_area_def has_xattrs_def split: option.split)

definition io_fine :: "xattr_io \<Rightarrow> bool" where
  "io_fine io \<longleftrightarrow> xo_inode io = None \<and> xo_block io = None \<and> xo_new_block io = None \<and> \<not> xo_no_nid io \<and> \<not> xo_no_mem io"

lemma read_all_cases:
  assumes "has_xattrs st es"
  shows "(\<exists>e. read_all_xattrs io st = Inl e \<and> \<not> io_fine io) \<or> (\<exists>b. read_all_xattrs io st = Inr b \<and> xattrs_in b es \<and> length b = length (full_area st))"
proof -
  let ?inl = "xi_inline st" let ?V = VALID_XATTR_BLOCK_SIZE
  have lb: "\<And>blk. xi_block st = Some blk \<Longrightarrow> length blk = ?V" using assms by (simp add: has_xattrs_def)
  have a: "put_bytes 0 ?inl (replicate (length ?inl + ?V + XATTR_PADDING_SIZE) 0) = ?inl @ replicate (?V + XATTR_PADDING_SIZE) 0" by (simp add: put_bytes_def)
  have b: "put_bytes (length ?inl) blk (?inl @ replicate (?V + XATTR_PADDING_SIZE) 0) = ?inl @ blk @ replicate 4 0" if "length blk = ?V" for blk
    using that by (subst put_at) (simp_all add: XATTR_PADDING_SIZE_def)
  have n: "?inl @ replicate (?V + XATTR_PADDING_SIZE) 0 = ?inl @ replicate ?V 0 @ replicate 4 0" by (simp add: XATTR_PADDING_SIZE_def replicate_add)
  define X where "X = (case (if length ?inl \<noteq> 0 then read_inline_xattr io st (replicate (length ?inl + ?V + XATTR_PADDING_SIZE) 0) else Inr (replicate (length ?inl + ?V + XATTR_PADDING_SIZE) 0)) of Inl e \<Rightarrow> Inl e
         | Inr t \<Rightarrow> (if xi_block st \<noteq> None then read_xattr_block io st t else Inr t))"
  have r: "(\<exists>e. X = Inl e \<and> \<not> io_fine io) \<or> X = Inr (full_area st)"
  proof (cases "xo_inode io \<noteq> None \<and> ?inl \<noteq> [] \<or> xo_block io \<noteq> None \<and> xi_block st \<noteq> None")
    case True
    then show ?thesis by (auto simp: X_def read_inline_xattr_def read_xattr_block_def io_fine_def split: option.splits)
  next
    case False
    have e: "(if length ?inl \<noteq> 0 then read_inline_xattr io st (replicate (length ?inl + ?V + XATTR_PADDING_SIZE) 0) else Inr (replicate (length ?inl + ?V + XATTR_PADDING_SIZE) 0)) =
        Inr (?inl @ replicate (?V + XATTR_PADDING_SIZE) 0)"
      using False a by (auto simp: read_inline_xattr_def split: option.splits)
    show ?thesis unfolding X_def e using False b n lb by (cases "xi_block st") (auto simp: read_xattr_block_def full_area_def split: option.splits)
  qed
  let ?fix = "\<lambda>t. if get32 0 t \<noteq> F2FS_XATTR_MAGIC then put_bytes 4 (le32_bytes 1) (put_bytes 0 (le32_bytes F2FS_XATTR_MAGIC) t) else t"
  have m: "xattrs_in (?fix (full_area st)) es"
  proof -
    obtain h k where h: "length h = XATTR_HDR_SIZE" "4 \<le> k" "full_area st = h @ xencs es @ replicate k 0" and o: "list_all xentry_ok es" "distinct (map xkey es)"
      using assms by (auto simp: has_xattrs_def xattrs_in_def)
    have pp: "put_bytes off w (g @ zs) = put_bytes off w g @ zs" if "off + length w \<le> 24" "length g = XATTR_HDR_SIZE" for off w zs g
      using that by (simp add: put_bytes_def XATTR_HDR_SIZE_def)
    have "\<exists>h'. length h' = XATTR_HDR_SIZE \<and> ?fix (full_area st) = h' @ xencs es @ replicate k 0"
      unfolding h(3) using h(1) by (auto simp: pp)
    then show ?thesis using o h(2) unfolding xattrs_in_def by blast
  qed
  have l: "length (?fix (full_area st)) = length (full_area st)" by simp
  have run: "read_all_xattrs io st = (case X of Inl e \<Rightarrow> Inl e | Inr t \<Rightarrow> Inr (?fix t))" if "\<not> xo_no_mem io"
    unfolding read_all_xattrs_def Let_def X_def if_not_P [OF that] by (simp only: sum.case_distrib [of "case_sum Inl (\<lambda>t. Inr (?fix t))"] sum.case split: sum.split)
  show ?thesis
  proof (cases "xo_no_mem io")
    case True
    then show ?thesis by (simp add: read_all_xattrs_def io_fine_def)
  next
    case False
    then show ?thesis using run r m l by (elim disjE) auto
  qed
qed


section \<open>Setting\<close>

definition put_attr :: "nat \<Rightarrow> u8 list \<Rightarrow> u8 list option \<Rightarrow> xentry list \<Rightarrow> xentry list" where
  "put_attr i n v es =
     (if (\<exists>e \<in> set es. xkey e = (i, n) \<and> Some (xval e) = v) then es
      else filter (\<lambda>e. xkey e \<noteq> (i, n)) es @ (case v of None \<Rightarrow> [] | Some v \<Rightarrow> [(i, n, v)]))"

text \<open>The outcome when all blocks can be read and allocated; \<open>room\<close> is the space for attributes.\<close>

definition set_outcome :: "nat \<Rightarrow> nat \<Rightarrow> u8 list \<Rightarrow> u8 list option \<Rightarrow> bool \<Rightarrow> bool \<Rightarrow> xentry list \<Rightarrow> errno option" where
  "set_outcome room i n v create replace es =
     (let found = (\<exists>e \<in> set es. xkey e = (i, n)); same = (\<exists>e \<in> set es. xkey e = (i, n) \<and> Some (xval e) = v)
      in if length n > F2FS_NAME_LEN then Some ERANGE
         else if v \<noteq> None \<and> room < 28 + length (the v) then Some E2BIG
         else if found \<and> create then Some EEXIST
         else if \<not> found \<and> replace then Some ENODATA
         else if v \<noteq> None \<and> \<not> same \<and> room < XATTR_HDR_SIZE + sum_list (map xlen (put_attr i n v es)) then Some E2BIG
         else None)"

lemma xattrs_in_len: "xattrs_in b es \<Longrightarrow> XATTR_HDR_SIZE + sum_list (map xlen es) + 4 \<le> length b"
  by (auto simp: xattrs_in_def)

lemma others_filter:
  assumes "distinct (map xkey es)"
  shows "(\<exists>e es'. es = others k es @ e # es' \<and> xkey e = k \<and> filter (\<lambda>e. xkey e \<noteq> k) es = others k es @ es') \<or> others k es = es \<and> k \<notin> xkey ` set es"
  using assms
proof (induction es)
  case (Cons a es)
  show ?case
  proof (cases "xkey a = k")
    case True
    then have "k \<notin> xkey ` set es" using Cons.prems by simp
    then have "\<forall>e \<in> set es. xkey e \<noteq> k" by blast
    then have "filter (\<lambda>e. xkey e \<noteq> k) es = es" by (rule filter_True)
    then show ?thesis using True by (simp add: others_def)
  next
    case False
    then show ?thesis using Cons by (fastforce simp: others_def)
  qed
qed (simp add: others_def)

text \<open>The inode then has the attributes \<open>es\<close>, in as much room.\<close>

abbreviation becomes :: "xattr_inode \<Rightarrow> xattr_inode \<Rightarrow> xentry list \<Rightarrow> bool" where
  "becomes st st' es \<equiv> has_xattrs st' es \<and> length (xi_inline st') = length (xi_inline st)"

lemma write_all_ok:
  assumes "has_xattrs st es" "xattrs_in b es'" "length b = length (full_area st)" "hsize = XATTR_HDR_SIZE + sum_list (map xlen es')" "write_all_xattrs io hsize b st = (r, st')"
  shows "(r = None \<longrightarrow> becomes st st' es') \<and> (r \<noteq> None \<longrightarrow> st' = st \<and> \<not> io_fine io)"
proof -
  let ?n = "length (xi_inline st)" let ?V = VALID_XATTR_BLOCK_SIZE
  have lb: "length b = ?n + ?V + 4" using assms(3) length_full [OF assms(1)] by simp
  obtain h k where h: "length h = XATTR_HDR_SIZE" "4 \<le> k" "b = h @ xencs es' @ replicate k 0" using assms(2) by (auto simp: xattrs_in_def)
  have split: "b = take ?n b @ get_bytes ?n ?V b @ drop (?n + ?V) b"
    by (metis append_take_drop_id drop_drop get_bytes_def add.commute)
  have z: "drop m b = replicate (length b - m) 0" if "hsize \<le> m" for m
    using that h assms(4) unfolding h(3) by (simp add: drop_append)
  have tail: "drop (?n + ?V) b = replicate 4 0"
  proof -
    have "drop (?n + ?V) b = drop (length b - 4) b" using lb by simp
    also have "\<dots> = replicate 4 0" unfolding h(3) using h(2) by (simp add: drop_append)
    finally show ?thesis .
  qed
  have st: "length (xi_inline st) mod 4 = 0" "?n < 4096" using assms(1) by (simp_all add: has_xattrs_def)
  have block: "has_xattrs (st\<lparr>xi_inline := take ?n b, xi_block := Some (get_bytes ?n ?V b)\<rparr>) es'"
    using st lb assms(2) split tail by (simp add: has_xattrs_def full_area_def get_bytes_def)
  have inl: "has_xattrs (st\<lparr>xi_inline := take ?n b, xi_block := None\<rparr>) es'" if "hsize \<le> ?n"
  proof -
    have "take ?n b @ replicate ?V 0 @ replicate 4 0 = take ?n b @ drop ?n b" using z [OF that] lb by (simp add: replicate_add [symmetric])
    then have "full_area (st\<lparr>xi_inline := take ?n b, xi_block := None\<rparr>) = b" by (simp add: full_area_def)
    then show ?thesis using st lb assms(2,4) that by (simp add: has_xattrs_def)
  qed
  have "length (take ?n b) = ?n" using lb by simp
  then show ?thesis using assms(5) block inl unfolding write_all_xattrs_def Let_def io_fine_def by (auto split: if_splits)
qed


lemma value_same_at:
  assumes "xentry_ok e" "b = xs @ xenc e @ zs"
  shows "f2fs_xattr_value_same b (length xs) v \<longleftrightarrow> xval e = v"
  using entry_at [OF assms] by (auto simp: f2fs_xattr_value_same_def XATTR_ENTRY_SIZE_def)

lemma has_xattrs_cong: "has_xattrs st es \<Longrightarrow> xi_inline st' = xi_inline st \<Longrightarrow> xi_block st' = xi_block st \<Longrightarrow> has_xattrs st' es"
  by (simp add: has_xattrs_def full_area_def)

lemma set_key:
  assumes E: "xattrs_in b es" and i: "0 < i" "i < 256" and n: "length n < 256" and v: "length v < 65536" and key: "(i, n) \<notin> xkey ` set es"
    and fit: "XATTR_HDR_SIZE + sum_list (map xlen es) + xlen (i, n, v) + 4 \<le> length b"
  shows "xattrs_in (write_entry (XATTR_HDR_SIZE + sum_list (map xlen es)) i n v b) (es @ [(i, n, v)])" "length (write_entry (XATTR_HDR_SIZE + sum_list (map xlen es)) i n v b) = length b"
proof -
  obtain h k where h: "length h = XATTR_HDR_SIZE" "4 \<le> k" "b = (h @ xencs es) @ replicate k 0" and o: "list_all xentry_ok es" "distinct (map xkey es)"
    using E by (auto simp: xattrs_in_def)
  have l: "XATTR_HDR_SIZE + sum_list (map xlen es) = length (h @ xencs es)" using h(1) by simp
  have k: "xlen (i, n, v) + 4 \<le> k" using fit h(1) unfolding h(3) by simp
  have w: "write_entry (XATTR_HDR_SIZE + sum_list (map xlen es)) i n v b = (h @ xencs es) @ xenc (i, n, v) @ replicate (k - xlen (i, n, v)) 0"
    unfolding l by (rule write_entry_at [OF h(3)]) (use k in simp)
  show "length (write_entry (XATTR_HDR_SIZE + sum_list (map xlen es)) i n v b) = length b" by (subst w) (use k in \<open>simp add: h(3)\<close>)
  have "xentry_ok (i, n, v)" "xkey (i, n, v) = (i, n)" using i n v by (simp_all add: xentry_ok_def xval_def xkey_def)
  then show "xattrs_in (write_entry (XATTR_HDR_SIZE + sum_list (map xlen es)) i n v b) (es @ [(i, n, v)])"
    unfolding xattrs_in_def w using o h(1) k key by (intro conjI exI [of _ h] exI [of _ "k - xlen (i, n, v)"]) auto
qed

lemma f2fs_setxattr_cases:
  assumes H: "has_xattrs st es" and i: "0 < i" "i < 256"
  shows "\<exists>r st'. f2fs_setxattr io ctx i n v create replace st = Some (r, st') \<and> (r = None \<longrightarrow> becomes st st' (put_attr i n v es)) \<and> (r \<noteq> None \<longrightarrow> st' = st) \<and>
    (io_fine io \<longrightarrow> r = set_outcome (MIN_OFFSET st) i n v create replace es)"
proof -
  let ?sz = "case v of None \<Rightarrow> 0 | Some v \<Rightarrow> length v" and ?room = "MIN_OFFSET st"
  have inl: "length (xi_inline st) mod 4 = 0" "length (xi_inline st) < 4096" using H by (simp_all add: has_xattrs_def)
  have room: "?room = length (xi_inline st) + VALID_XATTR_BLOCK_SIZE" using inl(1) by (simp add: MIN_OFFSET_def XATTR_ALIGN_def VALID_XATTR_BLOCK_SIZE_def) presburger
  have mx: "?sz > MAX_VALUE_LEN st \<longleftrightarrow> v \<noteq> None \<and> ?room < 28 + length (the v)"
    by (auto simp: MAX_VALUE_LEN_def room VALID_XATTR_BLOCK_SIZE_def XATTR_HDR_SIZE_def XATTR_ENTRY_SIZE_def split: option.split)
  show ?thesis
  proof (cases "length n > F2FS_NAME_LEN \<or> ?sz > MAX_VALUE_LEN st")
    case True
    then show ?thesis using mx by (auto simp: f2fs_setxattr_def set_outcome_def Let_def)
  next
    case False
    then have n: "length n < 256" by (simp add: F2FS_NAME_LEN_def)
    have vl: "length w < 65536" if "v = Some w" for w
      using False that mx inl(2) by (simp add: room VALID_XATTR_BLOCK_SIZE_def)
    consider e where "read_all_xattrs io st = Inl e" "\<not> io_fine io" | b where "read_all_xattrs io st = Inr b" "xattrs_in b es" "length b = length (full_area st)"
      using read_all_cases [OF H, of io] by blast
    then show ?thesis
    proof cases
      case 1
      then show ?thesis using False by (auto simp: f2fs_setxattr_def Let_def)
    next
      case (2 b)
      obtain h k where h: "length h = XATTR_HDR_SIZE" "4 \<le> k" "b = h @ xencs es @ replicate k 0" and o: "list_all xentry_ok es" "distinct (map xkey es)"
        using 2(2) by (auto simp: xattrs_in_def)
      define es1 where "es1 = others (i, n) es"
      define here where "here = length (h @ xencs es1)"
      have lb: "length b = ?room + 4" using 2(3) length_full [OF H] room by simp
      have fx: "find_xattr b i n XATTR_HDR_SIZE = Some here" using find_xattr_at [OF o(1) h(3,2), of i n] h(1) by (simp add: here_def es1_def)
      define found where "found = (\<not> IS_XATTR_LAST_ENTRY b here)"
      have fd: "found \<longleftrightarrow> (\<exists>e \<in> set es. xkey e = (i, n))"
        using find_found [OF o(1) h(3,2), of here "(i, n)"] by (auto simp: found_def here_def es1_def find_None_iff)
      define same where "same = (\<exists>e \<in> set es. xkey e = (i, n) \<and> Some (xval e) = v)"
      define L where "L = XATTR_HDR_SIZE + sum_list (map xlen es)"
      define G where "G hs b' = (case write_all_xattrs io hs b' st of
                      (Some e, st) \<Rightarrow> Some (Some e, st)
                    | (None, st) \<Rightarrow>
                        let st = (case xi_acl_mode st of None \<Rightarrow> st | Some m \<Rightarrow> st\<lparr>xi_mode := m, xi_acl_mode := None\<rparr>);
                            st = (if i = F2FS_XATTR_INDEX_ENCRYPTION \<and> n = ctx then st\<lparr>xi_encrypted := True\<rparr> else st);
                            st = st\<lparr>xi_dirty := True\<rparr>
                        in Some (None, if S_ISDIR (xi_mode st) then st\<lparr>xi_need_cp := True\<rparr> else st))" for hs b'
      have fin: "\<exists>r st'. G hs b' = Some (r, st') \<and> (r = None \<longrightarrow> becomes st st' es') \<and> (r \<noteq> None \<longrightarrow> st' = st) \<and> (io_fine io \<longrightarrow> r = None)"
        if "xattrs_in b' es'" "length b' = length b" "hs = XATTR_HDR_SIZE + sum_list (map xlen es')" for b' es' hs
      proof -
        obtain r1 st1 where w: "write_all_xattrs io hs b' st = (r1, st1)" by fastforce
        note W = write_all_ok [OF H that(1) _ that(3) w]
        show ?thesis
        proof (cases r1)
          case None
          then have "has_xattrs st1 es'" and l1: "length (xi_inline st1) = length (xi_inline st)" using W that(2) 2(3) by simp_all
          note keep = has_xattrs_cong [OF this(1)]
          show ?thesis unfolding G_def w None Let_def by (auto intro!: keep simp: l1 split: option.split)
        next
          case (Some e)
          then show ?thesis unfolding G_def w using W that(2) 2(3) by simp
        qed
      qed
      obtain rest where rest: "es = es1 @ rest" unfolding es1_def others_def by (metis takeWhile_dropWhile_id)
      have le: "last_entry b here = Some L"
      proof -
        have "b = (h @ xencs es1) @ xencs rest @ replicate k 0" using h(3) rest by simp
        from last_entry_at [OF _ this h(2)] show ?thesis using o(1) h(1) unfolding rest L_def here_def by simp
      qed
      have run: "f2fs_setxattr io ctx i n v create replace st =
        (if found \<and> create then Some (Some EEXIST, st)
         else if found \<and> (case v of None \<Rightarrow> False | Some v \<Rightarrow> f2fs_xattr_value_same b here v) then Some (None, st)
         else if \<not> found \<and> replace then Some (Some ENODATA, st)
         else if v \<noteq> None \<and> int ?room - int L + (if found then int (ENTRY_SIZE b here) else 0) < int (XATTR_ALIGN (XATTR_ENTRY_SIZE + length n + ?sz)) then Some (Some E2BIG, st)
         else case (if found then remove_entry here L b else (b, L)) of (b, lst) \<Rightarrow>
              (case (case v of None \<Rightarrow> (b, lst) | Some v \<Rightarrow> (write_entry lst i n v b, lst + XATTR_ALIGN (XATTR_ENTRY_SIZE + length n + ?sz))) of (b, hs) \<Rightarrow> G hs b))"
        using False unfolding f2fs_setxattr_def Let_def 2(1) sum.case fx option.case found_def [symmetric] le G_def by simp
      have ns: "XATTR_ALIGN (XATTR_ENTRY_SIZE + length n + length w) = xlen (i, n, w)" for w by (simp add: xlen_def xval_def XATTR_ENTRY_SIZE_def)
      have out: "set_outcome ?room i n v create replace es = (if found \<and> create then Some EEXIST else if \<not> found \<and> replace then Some ENODATA
          else if v \<noteq> None \<and> \<not> same \<and> ?room < XATTR_HDR_SIZE + sum_list (map xlen (put_attr i n v es)) then Some E2BIG else None)"
        using False mx unfolding set_outcome_def Let_def fd [symmetric] same_def [symmetric] by auto
      text \<open>Writing the new entry behind the entries \<open>es2\<close> that stay.\<close>
      have tail: "\<exists>r st'. (if v \<noteq> None \<and> ?room < XATTR_HDR_SIZE + sum_list (map xlen (put_attr i n v es)) then Some (Some E2BIG, st)
           else case (case v of None \<Rightarrow> (b2, L2) | Some v \<Rightarrow> (write_entry L2 i n v b2, L2 + XATTR_ALIGN (XATTR_ENTRY_SIZE + length n + ?sz))) of (b, hs) \<Rightarrow> G hs b) = Some (r, st') \<and>
          (r = None \<longrightarrow> becomes st st' (put_attr i n v es)) \<and> (r \<noteq> None \<longrightarrow> st' = st) \<and>
          (io_fine io \<longrightarrow> r = (if v \<noteq> None \<and> ?room < XATTR_HDR_SIZE + sum_list (map xlen (put_attr i n v es)) then Some E2BIG else None))"
        if b2: "xattrs_in b2 es2" "length b2 = length b" "L2 = XATTR_HDR_SIZE + sum_list (map xlen es2)" "es2 = filter (\<lambda>e. xkey e \<noteq> (i, n)) es" "\<not> same" for b2 L2 es2
      proof -
        have pa: "put_attr i n v es = es2 @ (case v of None \<Rightarrow> [] | Some v \<Rightarrow> [(i, n, v)])" unfolding put_attr_def same_def [symmetric] using b2(4,5) by simp
        have key: "(i, n) \<notin> xkey ` set es2" using b2(4) by auto
        show ?thesis
        proof (cases v)
          case None
          then show ?thesis using fin [OF b2(1-3)] pa by simp
        next
          case (Some w)
          have w: "length w < 65536" by (rule vl [OF Some])
          show ?thesis
          proof (cases "?room < XATTR_HDR_SIZE + sum_list (map xlen (put_attr i n v es))")
            case True
            then show ?thesis using Some by simp
          next
            case False
            then have fit: "XATTR_HDR_SIZE + sum_list (map xlen es2) + xlen (i, n, w) + 4 \<le> length b2" using pa Some lb b2(2) by simp
            note K = set_key [OF b2(1) i n w key fit]
            have "length (write_entry L2 i n w b2) = length b" using K(2) b2(2,3) by simp
            from fin [OF K(1) [folded b2(3)] this, of "L2 + xlen (i, n, w)"] show ?thesis using False Some pa b2(3) by (simp add: ns)
          qed
        qed
      qed
      show ?thesis
      proof (cases found)
        case True
        then have "(i, n) \<in> xkey ` set es" using fd by force
        then obtain e es2 where e: "es = es1 @ e # es2" "xkey e = (i, n)" "filter (\<lambda>e. xkey e \<noteq> (i, n)) es = es1 @ es2"
          using others_filter [OF o(2), of "(i, n)"] unfolding es1_def by blast
        have eo: "xentry_ok e" using o(1) e(1) by simp
        have be: "b = (h @ xencs es1) @ xenc e @ (xencs es2 @ replicate k 0)" using h(3) e(1) by simp
        have sm: "(case v of None \<Rightarrow> False | Some v \<Rightarrow> f2fs_xattr_value_same b here v) \<longleftrightarrow> same"
        proof -
          have "x = e" if "x \<in> set es" "xkey x = (i, n)" for x
            using that e(1,2) o(2) by (metis distinct_map inj_on_def in_set_conv_decomp)
          then have "same \<longleftrightarrow> Some (xval e) = v" unfolding same_def using e(1,2) by auto
          then show ?thesis using value_same_at [OF eo be] unfolding here_def by (auto split: option.split)
        qed
        have es: "ENTRY_SIZE b here = xlen e" using entry_size_at [OF eo be] by (simp add: here_def)
        have L: "L = length (h @ xencs (es1 @ e # es2))" using h(1) e(1) by (simp add: L_def)
        have be2: "b = (h @ xencs es1) @ xenc e @ xencs es2 @ replicate k 0" using be by simp
        define b2 where "b2 = h @ xencs (es1 @ es2) @ replicate (k + xlen e) 0"
        define L2 where "L2 = length (h @ xencs (es1 @ es2))"
        note R = remove_entry_at [OF eo be2, folded L here_def b2_def L2_def]
        have x2: "xattrs_in b2 (es1 @ es2)" unfolding xattrs_in_def b2_def using o e(1) h(1,2) by (intro conjI exI [of _ h] exI [of _ "k + xlen e"]) auto
        have l2: "length b2 = length b" "L2 = XATTR_HDR_SIZE + sum_list (map xlen (es1 @ es2))" unfolding b2_def L2_def be using h(1) by simp_all
        have space: "int ?room - int L + int (xlen e) < int (XATTR_ALIGN (XATTR_ENTRY_SIZE + length n + ?sz)) \<longleftrightarrow> ?room < XATTR_HDR_SIZE + sum_list (map xlen (put_attr i n v es))"
          if "v \<noteq> None" "\<not> same" using that e unfolding L_def put_attr_def same_def [symmetric] by (auto simp: ns)
        show ?thesis
        proof (cases "create \<or> same")
          case True
          then show ?thesis using run out \<open>found\<close> sm H unfolding put_attr_def same_def [symmetric] by auto
        next
          case False
          have r: "f2fs_setxattr io ctx i n v create replace st =
             (if v \<noteq> None \<and> ?room < XATTR_HDR_SIZE + sum_list (map xlen (put_attr i n v es)) then Some (Some E2BIG, st)
              else case (case v of None \<Rightarrow> (b2, L2) | Some v \<Rightarrow> (write_entry (L2) i n v b2,
                 L2 + XATTR_ALIGN (XATTR_ENTRY_SIZE + length n + ?sz))) of (b, hs) \<Rightarrow> G hs b)"
            unfolding run sm es R using False \<open>found\<close> space by auto
          show ?thesis using tail [OF x2 l2 e(3) [symmetric]] False out \<open>found\<close> unfolding r by auto
        qed
      next
        case False
        then have nk: "(i, n) \<notin> xkey ` set es" using fd by force
        then have f: "filter (\<lambda>e. xkey e \<noteq> (i, n)) es = es" by (intro filter_True) force
        have ns': "\<not> same" using nk by (force simp: same_def)
        have space: "int ?room - int L < int (XATTR_ALIGN (XATTR_ENTRY_SIZE + length n + ?sz)) \<longleftrightarrow> ?room < XATTR_HDR_SIZE + sum_list (map xlen (put_attr i n v es))" if "v \<noteq> None"
          using that f ns' unfolding L_def put_attr_def same_def [symmetric] by (auto simp: ns)
        show ?thesis
        proof (cases replace)
          case True
          then show ?thesis using run out \<open>\<not> found\<close> by auto
        next
          case nr: False
          have r: "f2fs_setxattr io ctx i n v create replace st =
             (if v \<noteq> None \<and> ?room < XATTR_HDR_SIZE + sum_list (map xlen (put_attr i n v es)) then Some (Some E2BIG, st)
              else case (case v of None \<Rightarrow> (b, L) | Some v \<Rightarrow> (write_entry L i n v b, L + XATTR_ALIGN (XATTR_ENTRY_SIZE + length n + ?sz))) of (b, hs) \<Rightarrow> G hs b)"
            unfolding run using False nr space by auto
          show ?thesis using tail [OF 2(2) refl L_def f [symmetric] ns'] False out nr ns' unfolding r by auto
        qed
      qed
    qed
  qed
qed


section \<open>Getting\<close>

lemma header_cong:
  assumes "take m t = take m u" "p + 4 \<le> m" "m \<le> length t" "m \<le> length u"
  shows "e_name_index t p = e_name_index u p" "e_name_len t p = e_name_len u p" "e_value_size t p = e_value_size u p" "IS_XATTR_LAST_ENTRY t p = IS_XATTR_LAST_ENTRY u p"
proof -
  have "t ! j = u ! j" if "j < m" for j using that assms(1) by (metis nth_take)
  then show "e_name_index t p = e_name_index u p" "e_name_len t p = e_name_len u p" using assms(2,3,4) by (simp_all add: e_name_index_def e_name_len_def arr_get_def)
  have "get_bytes a k t = get_bytes a k u" if "a + k \<le> m" for a k using that assms(1) by (metis get_take)
  then show "e_value_size t p = e_value_size u p" "IS_XATTR_LAST_ENTRY t p = IS_XATTR_LAST_ENTRY u p"
    using assms(2) by (simp_all add: e_value_size_def get16_def IS_XATTR_LAST_ENTRY_def get32_def)
qed

lemma find_inline_at:
  assumes "list_all xentry_ok es" "u = xs @ xencs es @ replicate k 0" "4 \<le> k" "take m t = take m u" "m \<le> length u" "m + 4 \<le> length t" "length xs + 4 \<le> m"
  shows "(find_inline_xattr t m i n (length xs) = Some (Inr (length (xs @ xencs (others (i, n) es)))) \<and>
      (case find (\<lambda>e. xkey e = (i, n)) es of None \<Rightarrow> IS_XATTR_LAST_ENTRY t (length (xs @ xencs (others (i, n) es)))
       | Some e \<Rightarrow> \<exists>ys zs. t = ys @ xenc e @ zs \<and> length ys = length (xs @ xencs (others (i, n) es)))) \<or>
    (\<exists>es1 es2. find_inline_xattr t m i n (length xs) = Some (Inl (length (xs @ xencs es1))) \<and> es = es1 @ es2 \<and> (i, n) \<notin> xkey ` set es1)"
  using assms
proof (induction es arbitrary: xs)
  case Nil
  have "IS_XATTR_LAST_ENTRY u (length xs)" using last_at [of u xs k] Nil.prems(2,3) by simp
  then have "IS_XATTR_LAST_ENTRY t (length xs)" using header_cong(4) [OF Nil.prems(4,7) _ Nil.prems(5)] Nil.prems(6) by simp
  then show ?case using Nil.prems(6,7) by (subst find_inline_xattr.simps) (simp add: others_def)
next
  case (Cons e es)
  have ok: "xentry_ok e" using Cons.prems(1) by simp
  have b: "u = xs @ xenc e @ (xencs es @ replicate k 0)" "u = (xs @ xenc e) @ xencs es @ replicate k 0" using Cons.prems(2) by simp_all
  have mt: "m \<le> length t" using Cons.prems(6) by simp
  note H = header_cong [OF Cons.prems(4,7) mt Cons.prems(5)]
  have nl: "\<not> IS_XATTR_LAST_ENTRY t (length xs)" using entry_at(6) [OF ok b(1)] H(4) by simp
  have nx: "XATTR_NEXT_ENTRY t (length xs) = length (xs @ xenc e)" using entry_size_at [OF ok b(1)] H by (simp add: XATTR_NEXT_ENTRY_def ENTRY_SIZE_def)
  have l: "\<not> length xs + 4 > length t" "\<not> length xs + 4 > m" using Cons.prems(6,7) by simp_all
  show ?case
  proof (cases "length (xs @ xenc e) + 4 > m")
    case True
    then have "find_inline_xattr t m i n (length xs) = Some (Inl (length xs))" using l nl nx by (subst find_inline_xattr.simps) simp
    then show ?thesis by (intro disjI2 exI [of _ "[]"] exI [of _ "e # es"]) simp
  next
    case False
    have tu: "take (length (xs @ xenc e)) t = xs @ xenc e"
    proof -
      have "take (length (xs @ xenc e)) (take m t) = take (length (xs @ xenc e)) (take m u)" using Cons.prems(4) by simp
      then show ?thesis using False unfolding b(2) by simp
    qed
    define zs where "zs = drop (length (xs @ xenc e)) t"
    have t: "t = xs @ xenc e @ zs" using tu append_take_drop_id [of "length (xs @ xenc e)" t] unfolding zs_def by simp
    have step: "find_inline_xattr t m i n (length xs) = (if xkey e = (i, n) then Some (Inr (length xs)) else find_inline_xattr t m i n (length (xs @ xenc e)))"
      using l nl nx False entry_matches_at [OF ok t, of i n] by (subst find_inline_xattr.simps) simp
    show ?thesis
    proof (cases "xkey e = (i, n)")
      case True
      then show ?thesis unfolding step using t by (simp add: others_def) blast
    next
      case nk: False
      have "length (xs @ xenc e) + 4 \<le> m" using False by simp
      moreover have "list_all xentry_ok es" using Cons.prems(1) by simp
      ultimately have I: "(find_inline_xattr t m i n (length (xs @ xenc e)) = Some (Inr (length ((xs @ xenc e) @ xencs (others (i, n) es)))) \<and>
          (case find (\<lambda>e. xkey e = (i, n)) es of None \<Rightarrow> IS_XATTR_LAST_ENTRY t (length ((xs @ xenc e) @ xencs (others (i, n) es)))
           | Some ea \<Rightarrow> \<exists>ys zs. t = ys @ xenc ea @ zs \<and> length ys = length ((xs @ xenc e) @ xencs (others (i, n) es)))) \<or>
        (\<exists>es1 es2. find_inline_xattr t m i n (length (xs @ xenc e)) = Some (Inl (length ((xs @ xenc e) @ xencs es1))) \<and> es = es1 @ es2 \<and> (i, n) \<notin> xkey ` set es1)"
        using Cons.IH [OF _ b(2) Cons.prems(3,4,5,6)] by blast
      have q: "(xs @ xenc e) @ xencs (others (i, n) es) = xs @ xencs (others (i, n) (e # es))" using nk by (simp add: others_def)
      have f: "find (\<lambda>e. xkey e = (i, n)) (e # es) = find (\<lambda>e. xkey e = (i, n)) es" using nk by simp
      have st: "find_inline_xattr t m i n (length xs) = find_inline_xattr t m i n (length (xs @ xenc e))" using step nk by simp
      from I show ?thesis
        unfolding st f q
      proof (rule disj_forward)
        assume "\<exists>es1 es2. find_inline_xattr t m i n (length (xs @ xenc e)) = Some (Inl (length ((xs @ xenc e) @ xencs es1))) \<and> es = es1 @ es2 \<and> (i, n) \<notin> xkey ` set es1"
        then obtain es1 es2 where a: "find_inline_xattr t m i n (length (xs @ xenc e)) = Some (Inl (length ((xs @ xenc e) @ xencs es1)))" "es = es1 @ es2" "(i, n) \<notin> xkey ` set es1" by blast
        show "\<exists>es1 es2. find_inline_xattr t m i n (length (xs @ xenc e)) = Some (Inl (length (xs @ xencs es1))) \<and> e # es = es1 @ es2 \<and> (i, n) \<notin> xkey ` set es1"
          using a nk by (intro exI [of _ "e # es1"] exI [of _ es2]) auto
      qed
    qed
  qed
qed

lemma others_append: "k \<notin> xkey ` set es1 \<Longrightarrow> others k (es1 @ es2) = es1 @ others k es2"
  by (induction es1) (auto simp: others_def)

lemma found_at:
  assumes "list_all xentry_ok es" "b = xs @ xencs es @ replicate k 0" "find (\<lambda>e. xkey e = key) es = Some e"
  shows "\<exists>ys zs. b = ys @ xenc e @ zs \<and> length ys = length (xs @ xencs (others key es)) \<and> xentry_ok e"
proof -
  obtain es' where e: "es = others key es @ e # es'" using others_split [of es key] assms(3) by auto
  have "b = xs @ xencs (others key es @ e # es') @ replicate k 0" using assms(2) e by argo
  then have "b = (xs @ xencs (others key es)) @ xenc e @ (xencs es' @ replicate k 0)" by simp
  moreover have "xentry_ok e" using assms(1,3) by (auto simp: find_Some_iff list_all_length)
  ultimately show ?thesis by blast
qed

lemma lookup_all_at:
  assumes H: "has_xattrs st es" and io: "io_fine io" and inl: "length (xi_inline st) = 0 \<or> 28 \<le> length (xi_inline st)"
  shows "case find (\<lambda>e. xkey e = (i, n)) es of None \<Rightarrow> lookup_all_xattrs io st i n = Some (Inl ENODATA)
    | Some e \<Rightarrow> \<exists>xs zs. lookup_all_xattrs io st i n = Some (Inr (xs @ xenc e @ zs, length xs)) \<and> xentry_ok e"
proof -
  let ?inl = "xi_inline st" let ?V = VALID_XATTR_BLOCK_SIZE let ?m = "length (xi_inline st)" let ?f = "find (\<lambda>e. xkey e = (i, n)) es"
  have lb: "\<And>blk. xi_block st = Some blk \<Longrightarrow> length blk = ?V" using H by (simp add: has_xattrs_def)
  obtain h k where h: "length h = XATTR_HDR_SIZE" "4 \<le> k" "full_area st = h @ xencs es @ replicate k 0" and o: "list_all xentry_ok es" "distinct (map xkey es)"
    using H by (auto simp: has_xattrs_def xattrs_in_def)
  define sz where "sz = (if xi_block st \<noteq> None then ?V else 0)"
  define t1 where "t1 = ?inl @ replicate (sz + 4) 0"
  define t2 where "t2 = (case xi_block st of None \<Rightarrow> t1 | Some blk \<Rightarrow> full_area st)"
  have ioN: "xo_inode io = None" "xo_block io = None" "\<not> xo_no_mem io" using io by (simp_all add: io_fine_def)
  have r1: "read_inline_xattr io st (replicate (?m + sz + XATTR_PADDING_SIZE) 0) = Inr t1" by (simp add: read_inline_xattr_def ioN put_bytes_def t1_def XATTR_PADDING_SIZE_def)
  have r2: "(if xi_block st \<noteq> None then read_xattr_block io st t1 else Inr t1) = Inr t2"
  proof (cases "xi_block st")
    case (Some blk)
    have "put_bytes ?m blk t1 = ?inl @ blk @ replicate 4 0" unfolding t1_def sz_def using lb [OF Some] Some by (subst put_at) simp_all
    then show ?thesis using Some lb [OF Some] by (simp add: read_xattr_block_def ioN t2_def full_area_def)
  qed (simp add: t2_def)
  have T2: "\<exists>k'\<ge>4. t2 = h @ xencs es @ replicate k' 0" if "xi_block st \<noteq> None \<or> ?m \<noteq> 0"
  proof (cases "xi_block st")
    case None
    have m: "es = [] \<or> XATTR_HDR_SIZE + sum_list (map xlen es) \<le> ?m" using H None by (simp add: has_xattrs_def)
    have fa: "full_area st = t1 @ replicate ?V 0" using None by (simp add: full_area_def t1_def sz_def replicate_add [symmetric] add.commute)
    have hl: "length (h @ xencs es) \<le> ?m" using m h(1) inl None that by (auto simp: XATTR_HDR_SIZE_def)
    have "take (length t1) (full_area st) = t1" unfolding fa by simp
    then have "t1 = take (length t1) (h @ xencs es @ replicate k 0)" unfolding h(3) by simp
    also have "\<dots> = (h @ xencs es) @ take (length t1 - length (h @ xencs es)) (replicate k 0)" using hl by (simp add: t1_def)
    finally have e: "t1 = h @ xencs es @ replicate (min (length t1 - length (h @ xencs es)) k) 0" by (simp add: min.commute)
    define kk where "kk = min (length t1 - length (h @ xencs es)) k"
    have "4 \<le> kk" using hl h(2) by (simp add: kk_def t1_def)
    moreover have "t2 = h @ xencs es @ replicate kk 0" unfolding t2_def None option.case kk_def by (rule e)
    ultimately show ?thesis by blast
  next
    case (Some blk)
    then show ?thesis using h(2,3) by (auto simp: t2_def)
  qed
  have check: "(case find_xattr t2 i n (length (h @ xencs es1)) of None \<Rightarrow> None | Some xe \<Rightarrow> if IS_XATTR_LAST_ENTRY t2 xe then Some (Inl ENODATA) else Some (Inr (t2, xe))) =
      (case ?f of None \<Rightarrow> Some (Inl ENODATA) | Some e \<Rightarrow> Some (Inr (t2, length (h @ xencs (others (i, n) es)))))"
    if "es = es1 @ es2" "(i, n) \<notin> xkey ` set es1" "xi_block st \<noteq> None \<or> ?m \<noteq> 0" for es1 es2
  proof -
    note bl = that(3)
    obtain k' where k': "4 \<le> k'" "t2 = h @ xencs es @ replicate k' 0" using T2 [OF bl] by blast
    then have "t2 = (h @ xencs es1) @ xencs es2 @ replicate k' 0" using that(1) by simp
    moreover have "list_all xentry_ok es2" using o(1) that(1) by simp
    ultimately have "find_xattr t2 i n (length (h @ xencs es1)) = Some (length ((h @ xencs es1) @ xencs (others (i, n) es2)))" using find_xattr_at k'(1) by blast
    then have "find_xattr t2 i n (length (h @ xencs es1)) = Some (length (h @ xencs (others (i, n) es)))" using others_append [OF that(2), of es2] that(1) by simp
    then show ?thesis using find_found [OF o(1) k'(2,1) refl, of "(i, n)"] by (auto split: option.split)
  qed
  have there: "\<exists>ys zs. t2 = ys @ xenc e @ zs \<and> length ys = length (h @ xencs (others (i, n) es)) \<and> xentry_ok e" if "?f = Some e" "xi_block st \<noteq> None \<or> ?m \<noteq> 0" for e
    using T2 [OF that(2)] found_at [OF o(1) _ that(1)] by blast
  have res: ?thesis if "lookup_all_xattrs io st i n = (case ?f of None \<Rightarrow> Some (Inl ENODATA) | Some e \<Rightarrow> Some (Inr (t2, length (h @ xencs (others (i, n) es)))))" "xi_block st \<noteq> None \<or> ?m \<noteq> 0"
  proof (cases ?f)
    case None
    then show ?thesis using that by simp
  next
    case (Some e)
    note lk = that(1)
    from there [OF Some that(2)] obtain ys zs where y: "t2 = ys @ xenc e @ zs" "length ys = length (h @ xencs (others (i, n) es))" "xentry_ok e" by blast
    have "lookup_all_xattrs io st i n = Some (Inr (ys @ xenc e @ zs, length ys))" unfolding lk Some option.case y(2) y(1) [symmetric] ..
    then show ?thesis unfolding Some option.case using y(3) by blast
  qed
  note L = lookup_all_xattrs_def [of io st i n, unfolded Let_def if_not_P [OF ioN(3)], folded sz_def]
  show ?thesis
  proof (cases "?m = 0")
    case True
    show ?thesis
    proof (cases "xi_block st")
      case None
      then have "es = []" using H True by (auto simp: has_xattrs_def XATTR_HDR_SIZE_def)
      then show ?thesis using None True by (simp add: lookup_all_xattrs_def)
    next
      case (Some blk)
      have t: "replicate (?m + sz + XATTR_PADDING_SIZE) 0 = t1" using True by (simp add: t1_def XATTR_PADDING_SIZE_def)
      have s0: "sz \<noteq> 0" using Some by (simp add: sz_def VALID_XATTR_BLOCK_SIZE_def)
      have "lookup_all_xattrs io st i n = (case find_xattr t2 i n XATTR_HDR_SIZE of None \<Rightarrow> None | Some xe \<Rightarrow> if IS_XATTR_LAST_ENTRY t2 xe then Some (Inl ENODATA) else Some (Inr (t2, xe)))"
        unfolding L t r2 using True s0 by simp
      then show ?thesis using check [of "[]" es] h(1) Some by (intro res) simp_all
    qed
  next
    case False
    then have m: "28 \<le> ?m" using inl by simp
    have lf: "length (full_area st) = ?m + ?V + 4" by (rule length_full [OF H])
    have a: "take ?m t1 = take ?m (full_area st)" "?m \<le> length (full_area st)" "?m + 4 \<le> length t1" "length h + 4 \<le> ?m"
      using lf h(1) m by (simp_all add: t1_def full_area_def XATTR_HDR_SIZE_def)
    have hz: "XATTR_HDR_SIZE = length h" using h(1) by simp
    note F = find_inline_at [OF o(1) h(3,2) a, of i n]
    have run: "lookup_all_xattrs io st i n = (case find_inline_xattr t1 ?m i n (length h) of None \<Rightarrow> None
       | Some (Inr xe) \<Rightarrow> if IS_XATTR_LAST_ENTRY t1 xe then Some (Inl ENODATA) else Some (Inr (t1, xe))
       | Some (Inl p) \<Rightarrow> (case find_xattr t2 i n p of None \<Rightarrow> None | Some xe \<Rightarrow> if IS_XATTR_LAST_ENTRY t2 xe then Some (Inl ENODATA) else Some (Inr (t2, xe))))"
      unfolding L r1 sum.case r2 option.case hz using False by simp
    from F show ?thesis
    proof (elim disjE exE conjE)
      fix es1 es2 assume b: "find_inline_xattr t1 ?m i n (length h) = Some (Inl (length (h @ xencs es1)))" "es = es1 @ es2" "(i, n) \<notin> xkey ` set es1"
      show ?thesis by (rule res) (use run b check [OF b(2,3)] False in simp_all)
    next
      assume b: "find_inline_xattr t1 ?m i n (length h) = Some (Inr (length (h @ xencs (others (i, n) es))))"
        "case ?f of None \<Rightarrow> IS_XATTR_LAST_ENTRY t1 (length (h @ xencs (others (i, n) es)))
         | Some e \<Rightarrow> \<exists>ys zs. t1 = ys @ xenc e @ zs \<and> length ys = length (h @ xencs (others (i, n) es))"
      show ?thesis
      proof (cases ?f)
        case None
        then show ?thesis using run b by simp
      next
        case (Some e)
        then obtain ys zs where y: "t1 = ys @ xenc e @ zs" "length ys = length (h @ xencs (others (i, n) es))" using b(2) by auto
        have eo: "xentry_ok e" using o(1) Some by (auto simp: find_Some_iff list_all_length)
        have "lookup_all_xattrs io st i n = Some (Inr (t1, length ys))" unfolding run b(1) using entry_at(6) [OF eo y(1)] y(2) by simp
        then show ?thesis using Some y(1) eo by auto
      qed
    qed
  qed
qed

end
