(* ===== verification/Xattr_Runs.thy ===== *)
theory Xattr_Runs
  imports Xattr_Map
begin

text \<open>What the attribute operations promise: setting, getting and listing over any history, errors included.\<close>

section \<open>One operation\<close>

definition attrs :: "xentry list \<Rightarrow> nat \<times> u8 list \<rightharpoonup> u8 list" where
  "attrs es k = map_option xval (find (\<lambda>e. xkey e = k) es)"

lemma find_filter_other: "k' \<noteq> k \<Longrightarrow> find (\<lambda>e. xkey e = k') (filter (\<lambda>e. xkey e \<noteq> k) es) = find (\<lambda>e. xkey e = k') es"
  by (induction es) auto

lemma find_append: "find P (xs @ ys) = (case find P xs of None \<Rightarrow> find P ys | Some x \<Rightarrow> Some x)"
  by (induction xs) auto

lemma attrs_put:
  assumes "distinct (map xkey es)"
  shows "attrs (put_attr i n v es) = (attrs es)((i, n) := v)"
proof
  fix k
  show "attrs (put_attr i n v es) k = ((attrs es)((i, n) := v)) k"
  proof (cases "\<exists>e \<in> set es. xkey e = (i, n) \<and> Some (xval e) = v")
    case True
    then obtain e where e: "e \<in> set es" "xkey e = (i, n)" "Some (xval e) = v" by blast
    have "find (\<lambda>e. xkey e = (i, n)) es = Some e"
    proof -
      have "find (\<lambda>e. xkey e = (i, n)) es \<noteq> None" unfolding find_None_iff using e(1,2) by blast
      then obtain e' where f: "find (\<lambda>e. xkey e = (i, n)) es = Some e'" by blast
      then have "e' \<in> set es" "xkey e' = (i, n)" by (auto simp: find_Some_iff)
      then have "e' = e" using e assms by (metis distinct_map inj_on_def)
      then show ?thesis using f by simp
    qed
    then have "attrs es (i, n) = v" using e(3) by (simp add: attrs_def)
    moreover have "put_attr i n v es = es" using True by (simp add: put_attr_def)
    ultimately show ?thesis by (auto simp: fun_upd_def)
  next
    case False
    have none: "find (\<lambda>e. xkey e = (i, n)) (filter (\<lambda>e. xkey e \<noteq> (i, n)) es) = None" by (auto simp: find_None_iff)
    have p: "put_attr i n v es = filter (\<lambda>e. xkey e \<noteq> (i, n)) es @ (case v of None \<Rightarrow> [] | Some v \<Rightarrow> [(i, n, v)])" using False by (simp only: put_attr_def if_False)
    have x: "xkey (i, n, w) = (i, n)" "xval (i, n, w) = w" for w by (simp_all add: xkey_def xval_def)
    show ?thesis
    proof (cases "k = (i, n)")
      case True
      then show ?thesis using none unfolding p attrs_def by (simp add: find_append x split: option.split)
    next
      case False
      then have "find (\<lambda>e. xkey e = k) (case v of None \<Rightarrow> [] | Some v \<Rightarrow> [(i, n, v)]) = None" by (auto simp: x split: option.split)
      then show ?thesis using False find_filter_other [OF False, of es] unfolding p attrs_def by (simp add: find_append split: option.split)
    qed
  qed
qed

lemma has_xattrs_distinct: "has_xattrs st es \<Longrightarrow> distinct (map xkey es)"
  by (simp add: has_xattrs_def xattrs_in_def)

text \<open>
  Property C13. Setting an attribute does exactly what it says. On an inode with the attributes \<open>es\<close>, \<^verbatim>\<open>f2fs_setxattr\<close> never reads outside its copy; when it succeeds the attributes are \<open>es\<close>
  with this one replaced, added at the end or removed, and otherwise the inode is unchanged, whatever read or allocation failed; when none fails the result is the one of the specification:
  the limits of name and value, the create and replace flags, and the room left.
\<close>

theorem f2fs_setxattr_exact:
  assumes "has_xattrs st es" "0 < i" "i < 256"
  shows "\<exists>r st'. f2fs_setxattr io ctx i n v create replace st = Some (r, st') \<and> (r = None \<longrightarrow> becomes st st' (put_attr i n v es)) \<and> (r \<noteq> None \<longrightarrow> st' = st) \<and>
    (io_fine io \<longrightarrow> r = set_outcome (MIN_OFFSET st) i n v create replace es)"
  by (rule f2fs_setxattr_cases [OF assms])

lemma getxattr_at:
  assumes H: "has_xattrs st es" and io: "io_fine io" and inl: "length (xi_inline st) = 0 \<or> 28 \<le> length (xi_inline st)" and n: "length n \<le> F2FS_NAME_LEN"
  shows "f2fs_getxattr io i n (Some m) st = Some (case attrs es (i, n) of None \<Rightarrow> Inl ENODATA | Some v \<Rightarrow> if length v > m then Inl ERANGE else Inr (length v, Some v))"
proof (cases "find (\<lambda>e. xkey e = (i, n)) es")
  case None
  then show ?thesis using lookup_all_at [OF H io inl, of i n] n by (simp add: f2fs_getxattr_def attrs_def)
next
  case (Some e)
  then obtain xs zs where l: "lookup_all_xattrs io st i n = Some (Inr (xs @ xenc e @ zs, length xs))" "xentry_ok e" using lookup_all_at [OF H io inl, of i n] by auto
  note E = entry_at [OF l(2) refl, of xs zs]
  have "length xs + XATTR_ENTRY_SIZE + length (fst (snd e)) + length (xval e) \<le> length (xs @ xenc e @ zs)" using xlen_ge [of e] by (simp add: XATTR_ENTRY_SIZE_def)
  then have nb: "\<not> length (xs @ xenc e @ zs) < length xs + XATTR_ENTRY_SIZE + length (fst (snd e)) + length (xval e)" by simp
  have a: "attrs es (i, n) = Some (xval e)" using Some by (simp add: attrs_def)
  show ?thesis
    unfolding f2fs_getxattr_def l(1) a option.case sum.case prod.case Let_def E(2,3) using nb n E(5) by (auto simp: XATTR_ENTRY_SIZE_def not_less)
qed

section \<open>Histories\<close>

datatype xattr_op = SetXattr xattr_io nat "u8 list" "u8 list option" bool bool

fun xattr_run :: "u8 list \<Rightarrow> xattr_op list \<Rightarrow> xattr_inode \<Rightarrow> (errno option list \<times> xattr_inode) option" where
  "xattr_run ctx [] st = Some ([], st)"
| "xattr_run ctx (SetXattr io i n v create replace # ops) st =
     (case f2fs_setxattr io ctx i n v create replace st of None \<Rightarrow> None
      | Some (r, st) \<Rightarrow> (case xattr_run ctx ops st of None \<Rightarrow> None | Some (rs, st) \<Rightarrow> Some (r # rs, st)))"

fun attr_run :: "xattr_op list \<Rightarrow> errno option list \<Rightarrow> (nat \<times> u8 list \<rightharpoonup> u8 list) \<Rightarrow> nat \<times> u8 list \<rightharpoonup> u8 list" where
  "attr_run (SetXattr io i n v create replace # ops) (r # rs) m = attr_run ops rs (if r = None then m((i, n) := v) else m)"
| "attr_run ops rs m = m"

fun op_index_ok :: "xattr_op \<Rightarrow> bool" where
  "op_index_ok (SetXattr io i n v create replace) \<longleftrightarrow> 0 < i \<and> i < 256"

lemma xattr_run_ok:
  assumes "has_xattrs st es" "list_all op_index_ok ops"
  shows "\<exists>rs st' es'. xattr_run ctx ops st = Some (rs, st') \<and> length rs = length ops \<and> becomes st st' es' \<and> attrs es' = attr_run ops rs (attrs es)"
  using assms
proof (induction ops arbitrary: st es)
  case (Cons a ops)
  obtain io i n v create replace where a: "a = SetXattr io i n v create replace" by (cases a)
  have i: "0 < i" "i < 256" using Cons.prems(2) a by simp_all
  obtain r st1 where c: "f2fs_setxattr io ctx i n v create replace st = Some (r, st1)" "r = None \<longrightarrow> becomes st st1 (put_attr i n v es)" "r \<noteq> None \<longrightarrow> st1 = st"
    using f2fs_setxattr_cases [OF Cons.prems(1) i, of io ctx n v create replace] by blast
  define es1 where "es1 = (if r = None then put_attr i n v es else es)"
  have e1: "has_xattrs st1 es1" "length (xi_inline st1) = length (xi_inline st)" using c(2,3) Cons.prems(1) by (cases r; simp add: es1_def)+
  have m: "attrs es1 = (if r = None then (attrs es)((i, n) := v) else attrs es)" using attrs_put [OF has_xattrs_distinct [OF Cons.prems(1)]] by (simp add: es1_def)
  obtain rs st' es' where R: "xattr_run ctx ops st1 = Some (rs, st')" "length rs = length ops" "becomes st1 st' es'" "attrs es' = attr_run ops rs (attrs es1)"
    using Cons.IH [OF e1(1)] Cons.prems(2) by auto
  have "xattr_run ctx (a # ops) st = Some (r # rs, st')" using c(1) R(1) by (simp add: a)
  moreover have "attrs es' = attr_run (a # ops) (r # rs) (attrs es)" using R(4) m by (simp add: a)
  ultimately show ?case using R(2,3) e1(2) by (intro exI [of _ "r # rs"] exI [of _ st'] exI [of _ es']) simp
qed auto

definition new_xattr_inode :: "nat \<Rightarrow> xattr_inode" where
  "new_xattr_inode inline_size = \<lparr>xi_inline = replicate inline_size 0, xi_block = None, xi_mode = 0, xi_acl_mode = None, xi_encrypted = False, xi_dirty = False, xi_need_cp = False\<rparr>"

lemma new_xattr_inode_ok:
  assumes "inline_size mod 4 = 0" "inline_size < 4096"
  shows "has_xattrs (new_xattr_inode inline_size) []"
proof -
  have "replicate inline_size (0::u8) @ replicate VALID_XATTR_BLOCK_SIZE 0 @ replicate 4 0 = replicate XATTR_HDR_SIZE 0 @ replicate (inline_size + VALID_XATTR_BLOCK_SIZE + 4 - XATTR_HDR_SIZE) 0"
    unfolding replicate_add [symmetric] by (rule arg_cong [of _ _ "\<lambda>n. replicate n 0"]) (simp add: VALID_XATTR_BLOCK_SIZE_def XATTR_HDR_SIZE_def)
  then have "xattrs_in (full_area (new_xattr_inode inline_size)) []"
    unfolding xattrs_in_def by (intro conjI exI [of _ "replicate XATTR_HDR_SIZE 0"] exI [of _ "inline_size + VALID_XATTR_BLOCK_SIZE + 4 - XATTR_HDR_SIZE"])
      (simp_all add: full_area_def new_xattr_inode_def VALID_XATTR_BLOCK_SIZE_def XATTR_HDR_SIZE_def)
  then show ?thesis using assms by (simp add: has_xattrs_def new_xattr_inode_def)
qed

text \<open>
  Property C11. The attributes of an inode are a map. After any history of setting and removing attributes, with any failures of reads and allocations on the way, \<^verbatim>\<open>f2fs_getxattr\<close> returns
  for every name the value the successful operations gave it last, whether it lies in the inode, across its end or in the node block, \<^verbatim>\<open>-ENODATA\<close> for one without a value and \<^verbatim>\<open>-ERANGE\<close>
  for a buffer too small. The inode has no room for attributes of its own or more than their header.
\<close>

theorem xattr_run_refines_map:
  assumes "inline_size = 0 \<or> 28 \<le> inline_size" "inline_size mod 4 = 0" "inline_size < 4096" "list_all op_index_ok ops" "io_fine io" "length n \<le> F2FS_NAME_LEN"
  shows "\<exists>rs st. xattr_run ctx ops (new_xattr_inode inline_size) = Some (rs, st) \<and> length rs = length ops \<and>
    f2fs_getxattr io i n (Some m) st = Some (case attr_run ops rs Map.empty (i, n) of None \<Rightarrow> Inl ENODATA | Some v \<Rightarrow> if length v > m then Inl ERANGE else Inr (length v, Some v))"
proof -
  obtain rs st es where R: "xattr_run ctx ops (new_xattr_inode inline_size) = Some (rs, st)" "length rs = length ops" "becomes (new_xattr_inode inline_size) st es" "attrs es = attr_run ops rs (attrs [])"
    using xattr_run_ok [OF new_xattr_inode_ok [OF assms(2,3)] assms(4), of ctx] by blast
  have "length (xi_inline st) = inline_size" using R(3) by (simp add: new_xattr_inode_def)
  then have "length (xi_inline st) = 0 \<or> 28 \<le> length (xi_inline st)" using assms(1) by simp
  moreover have "attrs [] = Map.empty" by (simp add: attrs_def fun_eq_iff)
  ultimately show ?thesis using getxattr_at [OF conjunct1 [OF R(3)] assms(5) _ assms(6), of i m] R by auto
qed

text \<open>
  Property C40. Attributes set on an inode with less room than the header are lost: a mount accepts any \<^verbatim>\<open>inline_xattr_size\<close> from one word on, but with up to six words the search in the inode
  ends at the first entry behind them, which is in the part not read yet, and every attribute in the node block is reported missing.
\<close>

theorem small_inline_xattrs_lost:
  assumes "has_xattrs st es" "0 < length (xi_inline st)" "length (xi_inline st) \<le> XATTR_HDR_SIZE" "xi_block st \<noteq> None" "io_fine io" "length n \<le> F2FS_NAME_LEN"
  shows "f2fs_getxattr io i n (Some m) st = Some (Inl ENODATA)"
proof -
  let ?inl = "xi_inline st" let ?k = "length ?inl + VALID_XATTR_BLOCK_SIZE + 4 - XATTR_HDR_SIZE"
  define t where "t = ?inl @ replicate (VALID_XATTR_BLOCK_SIZE + 4) 0"
  have r: "read_inline_xattr io st (replicate (length ?inl + VALID_XATTR_BLOCK_SIZE + XATTR_PADDING_SIZE) 0) = Inr t"
    using assms(5) by (simp add: read_inline_xattr_def io_fine_def put_bytes_def t_def XATTR_PADDING_SIZE_def)
  have "t = (?inl @ replicate (XATTR_HDR_SIZE - length ?inl) 0) @ replicate ?k 0"
    unfolding t_def append_assoc replicate_add [symmetric] by (rule arg_cong [of _ _ "\<lambda>n. ?inl @ replicate n 0"]) (use assms(3) in \<open>simp add: VALID_XATTR_BLOCK_SIZE_def XATTR_HDR_SIZE_def\<close>)
  from last_at [OF this] have l: "IS_XATTR_LAST_ENTRY t XATTR_HDR_SIZE" using assms(3) by (simp add: VALID_XATTR_BLOCK_SIZE_def XATTR_HDR_SIZE_def)
  have "find_inline_xattr t (length ?inl) i n XATTR_HDR_SIZE = Some (Inr XATTR_HDR_SIZE)"
    using l by (subst find_inline_xattr.simps) (simp add: t_def VALID_XATTR_BLOCK_SIZE_def XATTR_HDR_SIZE_def)
  then have "lookup_all_xattrs io st i n = Some (Inl ENODATA)" using assms(2,4,5) r l by (simp add: lookup_all_xattrs_def io_fine_def Let_def)
  then show ?thesis using assms(6) by (simp add: f2fs_getxattr_def)
qed

section \<open>Listing\<close>

definition list_names :: "(nat \<Rightarrow> u8 list option) \<Rightarrow> xentry list \<Rightarrow> u8 list" where
  "list_names pfx es = concat (map (\<lambda>e. case pfx (fst e) of None \<Rightarrow> [] | Some p \<Rightarrow> p @ fst (snd e) @ [0]) es)"

lemma list_loop_at:
  assumes "list_all xentry_ok es" "b = xs @ xencs es @ replicate k 0" "4 \<le> k"
  shows "list_loop pfx b (length xs) rest out tot =
    Some (case rest of None \<Rightarrow> Inr (tot + length (list_names pfx es), out)
      | Some r \<Rightarrow> if length (list_names pfx es) \<le> r then Inr (tot + length (list_names pfx es), out @ list_names pfx es) else Inl ERANGE)"
  using assms
proof (induction es arbitrary: xs rest out tot)
  case Nil
  then show ?case using last_at [of b xs k] by (subst list_loop.simps) (simp add: list_names_def split: option.split)
next
  case (Cons e es)
  have ok: "xentry_ok e" using Cons.prems(1) by simp
  have b: "b = xs @ xenc e @ (xencs es @ replicate k 0)" "b = (xs @ xenc e) @ xencs es @ replicate k 0" using Cons.prems(2) by simp_all
  have l: "\<not> length xs + 4 > length b" using b(1) xlen_pos [of e] by simp
  have lb: "\<not> length b < length xs + XATTR_ENTRY_SIZE + length (fst (snd e))" using b(1) xlen_ge [of e] by (simp add: XATTR_ENTRY_SIZE_def)
  note E = entry_at [OF ok b(1)] entry_size_at [OF ok b(1)]
  have IH: "list_loop pfx b (length (xs @ xenc e)) rest out tot =
      Some (case rest of None \<Rightarrow> Inr (tot + length (list_names pfx es), out)
        | Some r \<Rightarrow> if length (list_names pfx es) \<le> r then Inr (tot + length (list_names pfx es), out @ list_names pfx es) else Inl ERANGE)" for rest out tot
    by (rule Cons.IH [OF _ b(2) Cons.prems(3)]) (use Cons.prems(1) in simp)
  show ?case
  proof (cases "pfx (fst e)")
    case None
    then have n: "list_names pfx (e # es) = list_names pfx es" by (simp add: list_names_def)
    have "list_loop pfx b (length xs) rest out tot = list_loop pfx b (length (xs @ xenc e)) rest out tot" using None E l by (subst list_loop.simps) simp
    then show ?thesis unfolding n IH .
  next
    case (Some p)
    have n: "list_names pfx (e # es) = p @ fst (snd e) @ [0] @ list_names pfx es" using Some by (simp add: list_names_def)
    have g: "get_bytes (length xs + XATTR_ENTRY_SIZE) (length (fst (snd e))) b = fst (snd e)" using E(4) by (simp add: XATTR_ENTRY_SIZE_def)
    have h: "e_name_index b (length xs) = fst e" "e_name_len b (length xs) = length (fst (snd e))" "XATTR_NEXT_ENTRY b (length xs) = length (xs @ xenc e)" "IS_XATTR_LAST_ENTRY b (length xs) = False" using E by simp_all
    show ?thesis
      unfolding n by (subst list_loop.simps, unfold h Some g IH Let_def option.case, cases rest) (use l lb in auto)
  qed
qed

text \<open>
  Property C39. Listing is complete: \<^verbatim>\<open>f2fs_listxattr\<close> returns the prefixed names of all attributes in order, each closed by a zero byte, and their total length; without a buffer only the length, and
  \<^verbatim>\<open>-ERANGE\<close> exactly when the buffer is too small.
\<close>

theorem f2fs_listxattr_exact:
  assumes "has_xattrs st es" "io_fine io"
  shows "f2fs_listxattr io pfx buffer_size st =
    Some (case buffer_size of None \<Rightarrow> Inr (length (list_names pfx es), [])
      | Some r \<Rightarrow> if length (list_names pfx es) \<le> r then Inr (length (list_names pfx es), list_names pfx es) else Inl ERANGE)"
proof -
  obtain b where b: "read_all_xattrs io st = Inr b" "xattrs_in b es" using read_all_cases [OF assms(1), of io] assms(2) by blast
  obtain h k where h: "length h = XATTR_HDR_SIZE" "4 \<le> k" "b = h @ xencs es @ replicate k 0" "list_all xentry_ok es" using b(2) by (auto simp: xattrs_in_def)
  show ?thesis using list_loop_at [OF h(4,3,2), of pfx buffer_size "[]" 0] h(1) b(1) by (cases buffer_size) (simp_all add: f2fs_listxattr_def)
qed

section \<open>Examples\<close>

definition io_good :: xattr_io where
  "io_good = \<lparr>xo_inode = None, xo_block = None, xo_new_block = None, xo_no_nid = False, xo_no_mem = False\<rparr>"

theorem f2fs_setxattr_exact_witness:
  "\<exists>st'. f2fs_setxattr io_good [99] 1 [102, 111] (Some [7]) False False (new_xattr_inode 200) = Some (None, st') \<and> has_xattrs st' [(1, [102, 111], [7])]"
proof -
  have H: "has_xattrs (new_xattr_inode 200) []" by (rule new_xattr_inode_ok) simp_all
  have out: "set_outcome (MIN_OFFSET (new_xattr_inode 200)) 1 [102, 111] (Some [7]) False False [] = None"
    by (simp add: set_outcome_def MIN_OFFSET_def new_xattr_inode_def put_attr_def XATTR_ALIGN_def VALID_XATTR_BLOCK_SIZE_def F2FS_NAME_LEN_def XATTR_HDR_SIZE_def xlen_def xval_def)
  have "put_attr 1 [102, 111] (Some [7]) [] = [(1, [102, 111], [7])]" by (simp add: put_attr_def)
  then show ?thesis using f2fs_setxattr_exact [OF H, of 1 io_good "[99]" "[102, 111]" "Some [7]" False False] out by (auto simp: io_fine_def io_good_def)
qed

theorem xattr_run_refines_map_witness:
  "\<exists>rs st. xattr_run [99] [SetXattr io_good 1 [102, 111] (Some [7]) False False, SetXattr (io_good\<lparr>xo_inode := Some EIO\<rparr>) 1 [102, 111] None False False] (new_xattr_inode 200) = Some (rs, st) \<and> length rs = 2"
proof -
  have "\<exists>rs st. xattr_run [99] [SetXattr io_good 1 [102, 111] (Some [7]) False False, SetXattr (io_good\<lparr>xo_inode := Some EIO\<rparr>) 1 [102, 111] None False False] (new_xattr_inode 200) = Some (rs, st) \<and>
      length rs = length [SetXattr io_good 1 [102, 111] (Some [7]) False False, SetXattr (io_good\<lparr>xo_inode := Some EIO\<rparr>) 1 [102, 111] None False False] \<and>
      f2fs_getxattr io_good 1 [102, 111] (Some 5) st = Some (case attr_run [SetXattr io_good 1 [102, 111] (Some [7]) False False, SetXattr (io_good\<lparr>xo_inode := Some EIO\<rparr>) 1 [102, 111] None False False] rs
        Map.empty (1, [102, 111]) of None \<Rightarrow> Inl ENODATA | Some v \<Rightarrow> if length v > 5 then Inl ERANGE else Inr (length v, Some v))"
    by (rule xattr_run_refines_map) (simp_all add: io_fine_def io_good_def F2FS_NAME_LEN_def)
  then show ?thesis by auto
qed


lemma set_small:
  "\<exists>st'. f2fs_setxattr io_good [99] 1 [102, 111] (Some [7]) False False (new_xattr_inode 20) = Some (None, st') \<and> becomes (new_xattr_inode 20) st' [(1, [102, 111], [7])]"
proof -
  have H: "has_xattrs (new_xattr_inode 20) []" by (rule new_xattr_inode_ok) simp_all
  have out: "set_outcome (MIN_OFFSET (new_xattr_inode 20)) 1 [102, 111] (Some [7]) False False [] = None"
    by (simp add: set_outcome_def MIN_OFFSET_def new_xattr_inode_def put_attr_def XATTR_ALIGN_def VALID_XATTR_BLOCK_SIZE_def F2FS_NAME_LEN_def XATTR_HDR_SIZE_def xlen_def xval_def)
  have "put_attr 1 [102, 111] (Some [7]) [] = [(1, [102, 111], [7])]" by (simp add: put_attr_def)
  then show ?thesis using f2fs_setxattr_cases [OF H, of 1 io_good "[99]" "[102, 111]" "Some [7]" False False] out by (auto simp: io_fine_def io_good_def)
qed

theorem small_inline_xattrs_lost_witness:
  "\<exists>st'. f2fs_setxattr io_good [99] 1 [102, 111] (Some [7]) False False (new_xattr_inode 20) = Some (None, st') \<and>
     f2fs_getxattr io_good 1 [102, 111] (Some 5) st' = Some (Inl ENODATA)"
proof -
  obtain st' where s: "f2fs_setxattr io_good [99] 1 [102, 111] (Some [7]) False False (new_xattr_inode 20) = Some (None, st')"
    "has_xattrs st' [(1, [102, 111], [7])]" "length (xi_inline st') = 20" using set_small by (auto simp: new_xattr_inode_def)
  have "xi_block st' \<noteq> None" using s(2,3) by (auto simp: has_xattrs_def XATTR_HDR_SIZE_def)
  then have "f2fs_getxattr io_good 1 [102, 111] (Some 5) st' = Some (Inl ENODATA)"
    by (intro small_inline_xattrs_lost [OF s(2)]) (simp_all add: s(3) XATTR_HDR_SIZE_def io_fine_def io_good_def F2FS_NAME_LEN_def)
  then show ?thesis using s(1) by blast
qed

theorem f2fs_listxattr_exact_witness:
  "\<exists>st'. f2fs_setxattr io_good [99] 1 [102, 111] (Some [7]) False False (new_xattr_inode 20) = Some (None, st') \<and>
     f2fs_listxattr io_good (\<lambda>i. Some [117]) (Some 10) st' = Some (Inr (4, [117, 102, 111, 0]))"
proof -
  obtain st' where s: "f2fs_setxattr io_good [99] 1 [102, 111] (Some [7]) False False (new_xattr_inode 20) = Some (None, st')"
    "has_xattrs st' [(1, [102, 111], [7])]" using set_small by blast
  have "f2fs_listxattr io_good (\<lambda>i. Some [117]) (Some 10) st' = Some (Inr (4, [117, 102, 111, 0]))"
    using f2fs_listxattr_exact [OF s(2), of io_good "\<lambda>i. Some [117]" "Some 10"] by (simp add: io_fine_def io_good_def list_names_def)
  then show ?thesis using s(1) by blast
qed

end
