(* ===== verification/Acl.thy ===== *)
theory Acl
  imports Xattr_Runs
begin

text \<open>
  Access control lists (\<^verbatim>\<open>acl.c\<close>, \<^verbatim>\<open>acl.h\<close>): the format of a list in an extended attribute, getting and setting the lists of an inode, and what a new inode inherits from its directory.
  User and group ids are those of the initial namespace, where their conversions are identities. The cached lists of the VFS are part of the state; its \<^verbatim>\<open>posix_acl_update_mode\<close> is a parameter, as is the
  content of freshly allocated memory.
\<close>

unbundle bit_operations_syntax

section \<open>The format\<close>

record posix_acl_entry =
  e_tag :: u16
  e_perm :: u16
  e_id :: u32

type_synonym posix_acl = "posix_acl_entry list"

definition ACL_USER_OBJ :: u16 where "ACL_USER_OBJ = 0x01"
definition ACL_USER :: u16 where "ACL_USER = 0x02"
definition ACL_GROUP_OBJ :: u16 where "ACL_GROUP_OBJ = 0x04"
definition ACL_GROUP :: u16 where "ACL_GROUP = 0x08"
definition ACL_MASK :: u16 where "ACL_MASK = 0x10"
definition ACL_OTHER :: u16 where "ACL_OTHER = 0x20"

lemmas acl_tags = ACL_USER_OBJ_def ACL_USER_def ACL_GROUP_OBJ_def ACL_GROUP_def ACL_MASK_def ACL_OTHER_def

definition F2FS_ACL_VERSION :: u32 where "F2FS_ACL_VERSION = 1"

text \<open>The sizes of the header, of a short entry and of an entry with an id.\<close>

definition f2fs_acl_size :: "nat \<Rightarrow> nat" where
  "f2fs_acl_size count = (if count \<le> 4 then 4 + count * 4 else 4 + 4 * 4 + (count - 4) * 8)"

definition f2fs_acl_count :: "int \<Rightarrow> int" where
  "f2fs_acl_count sz =
     (let sz = sz - 4; s = sz - 4 * 4
      in if s < 0 then (if sz mod 4 \<noteq> 0 then -1 else sz div 4)
         else (if s mod 8 \<noteq> 0 then -1 else s div 8 + 4))"

definition short_tag :: "u16 \<Rightarrow> bool" where
  "short_tag t \<longleftrightarrow> t = ACL_USER_OBJ \<or> t = ACL_GROUP_OBJ \<or> t = ACL_MASK \<or> t = ACL_OTHER"

definition long_tag :: "u16 \<Rightarrow> bool" where
  "long_tag t \<longleftrightarrow> t = ACL_USER \<or> t = ACL_GROUP"

text \<open>A short entry leaves the id as it is in the new list (0 here). A read behind the value is \<open>None\<close>.\<close>

fun from_disk_loop :: "u8 list \<Rightarrow> nat \<Rightarrow> nat \<Rightarrow> posix_acl \<Rightarrow> posix_acl result option" where
  "from_disk_loop b 0 p acl = Some (if p \<noteq> length b then Inl EINVAL else Inr acl)"
| "from_disk_loop b (Suc k) p acl =
     (if p > length b then Some (Inl EINVAL)
      else if p + 4 > length b then None
      else
        let t = get16 p b; perm = get16 (p + 2) b
        in if short_tag t then from_disk_loop b k (p + 4) (acl @ [\<lparr>e_tag = t, e_perm = perm, e_id = 0\<rparr>])
           else if long_tag t then
             (if p + 8 > length b then None
              else from_disk_loop b k (p + 8) (acl @ [\<lparr>e_tag = t, e_perm = perm, e_id = get32 (p + 4) b\<rparr>]))
           else Some (Inl EINVAL))"

definition f2fs_acl_from_disk :: "bool \<Rightarrow> u8 list \<Rightarrow> posix_acl option result option" where
  "f2fs_acl_from_disk no_mem b =
     (if length b < 4 then None
      else if get32 0 b \<noteq> F2FS_ACL_VERSION then Some (Inl EINVAL)
      else let count = f2fs_acl_count (int (length b))
        in if count < 0 then Some (Inl EINVAL)
           else if count = 0 then Some (Inr None)
           else if no_mem then Some (Inl ENOMEM)
           else case from_disk_loop b (nat count) 4 [] of None \<Rightarrow> None
                | Some (Inl e) \<Rightarrow> Some (Inl e)
                | Some (Inr acl) \<Rightarrow> Some (Inr (Some acl)))"

fun to_disk_loop :: "posix_acl \<Rightarrow> nat \<Rightarrow> u8 list \<Rightarrow> u8 list result" where
  "to_disk_loop [] p b = Inr b"
| "to_disk_loop (e # es) p b =
     (let b = put_bytes p (le16_bytes (e_tag e)) b;
          b = put_bytes (p + 2) (le16_bytes (e_perm e)) b
      in if long_tag (e_tag e) then to_disk_loop es (p + 8) (put_bytes (p + 4) (le32_bytes (e_id e)) b)
         else if short_tag (e_tag e) then to_disk_loop es (p + 4) b
         else Inl EINVAL)"

text \<open>\<open>mem\<close> is the memory allocated for the result, if there was any; its first \<^verbatim>\<open>f2fs_acl_size\<close> bytes become the value.\<close>

definition f2fs_acl_to_disk :: "(nat \<Rightarrow> u8 list) option \<Rightarrow> posix_acl \<Rightarrow> u8 list result" where
  "f2fs_acl_to_disk mem acl =
     (case mem of None \<Rightarrow> Inl ENOMEM
      | Some mem \<Rightarrow>
          (case to_disk_loop acl 4 (put_bytes 0 (le32_bytes F2FS_ACL_VERSION) (mem (4 + length acl * 8))) of Inl e \<Rightarrow> Inl e
           | Inr b \<Rightarrow> Inr (take (f2fs_acl_size (length acl)) b)))"

section \<open>The lists of an inode\<close>

datatype acl_type = ACL_TYPE_ACCESS | ACL_TYPE_DEFAULT

definition F2FS_XATTR_INDEX_POSIX_ACL_ACCESS :: nat where "F2FS_XATTR_INDEX_POSIX_ACL_ACCESS = 2"
definition F2FS_XATTR_INDEX_POSIX_ACL_DEFAULT :: nat where "F2FS_XATTR_INDEX_POSIX_ACL_DEFAULT = 3"

fun acl_name_index :: "acl_type \<Rightarrow> nat" where
  "acl_name_index ACL_TYPE_ACCESS = F2FS_XATTR_INDEX_POSIX_ACL_ACCESS"
| "acl_name_index ACL_TYPE_DEFAULT = F2FS_XATTR_INDEX_POSIX_ACL_DEFAULT"

text \<open>The inode and the lists the VFS has cached for it.\<close>

record acl_inode =
  ai_xattrs :: xattr_inode
  ai_cached :: "acl_type \<Rightarrow> posix_acl option option"

record acl_env =
  ae_io :: xattr_io
  ae_io_value :: xattr_io
  ae_no_value :: bool
  ae_no_acl :: bool
  ae_mem :: "(nat \<Rightarrow> u8 list) option"
  ae_context :: "u8 list"
  ae_cp_error :: bool

abbreviation "ai_mode st \<equiv> xi_mode (ai_xattrs st)"
abbreviation "ai_acl_mode st \<equiv> xi_acl_mode (ai_xattrs st)"

text \<open>\<^verbatim>\<open>__f2fs_get_acl\<close>; a size of 0 is returned as no list.\<close>

definition get_acl_page :: "acl_env \<Rightarrow> acl_type \<Rightarrow> acl_inode \<Rightarrow> posix_acl option result option" where
  "get_acl_page env type st =
     (let name_index = acl_name_index type;
          parse = (\<lambda>n value. if n > 0 then f2fs_acl_from_disk (ae_no_acl env) value else Some (Inr None))
      in case f2fs_getxattr (ae_io env) name_index [] None (ai_xattrs st) of None \<Rightarrow> None
         | Some (Inl e) \<Rightarrow> Some (if e = ENODATA then Inr None else Inl e)
         | Some (Inr (n, _)) \<Rightarrow>
             if n = 0 then Some (Inr None)
             else if ae_no_value env then Some (Inl ENOMEM)
             else case f2fs_getxattr (ae_io_value env) name_index [] (Some n) (ai_xattrs st) of None \<Rightarrow> None
                  | Some (Inl e) \<Rightarrow> Some (if e = ENODATA then Inr None else Inl e)
                  | Some (Inr (n', value)) \<Rightarrow> (case value of None \<Rightarrow> None | Some v \<Rightarrow> parse n' v))"

definition f2fs_get_acl :: "acl_env \<Rightarrow> acl_type \<Rightarrow> acl_inode \<Rightarrow> posix_acl option result option" where
  "f2fs_get_acl env type st = get_acl_page env type st"

definition set_acl_inode :: "u16 \<Rightarrow> acl_inode \<Rightarrow> acl_inode" where
  "set_acl_inode mode st = st\<lparr>ai_xattrs := (ai_xattrs st)\<lparr>xi_acl_mode := Some mode, xi_dirty := True\<rparr>\<rparr>"

definition clear_acl_mode :: "acl_inode \<Rightarrow> acl_inode" where
  "clear_acl_mode st = st\<lparr>ai_xattrs := (ai_xattrs st)\<lparr>xi_acl_mode := None\<rparr>\<rparr>"

text \<open>The second half of \<^verbatim>\<open>__f2fs_set_acl\<close>: the list becomes the value of an attribute, which no list removes.\<close>

definition store_acl :: "acl_env \<Rightarrow> acl_type \<Rightarrow> posix_acl option \<Rightarrow> acl_inode \<Rightarrow> (errno option \<times> acl_inode) option" where
  "store_acl env type acl st =
     (case (case acl of None \<Rightarrow> Inr None | Some acl \<Rightarrow> (case f2fs_acl_to_disk (ae_mem env) acl of Inl e \<Rightarrow> Inl e | Inr v \<Rightarrow> Inr (Some v))) of
        Inl e \<Rightarrow> Some (Some e, clear_acl_mode st)
      | Inr value \<Rightarrow>
          (case f2fs_setxattr (ae_io env) (ae_context env) (acl_name_index type) [] value False False (ai_xattrs st) of None \<Rightarrow> None
           | Some (error, x) \<Rightarrow>
               let st = st\<lparr>ai_xattrs := x\<rparr>;
                   st = (if error = None then st\<lparr>ai_cached := (ai_cached st)(type := Some acl)\<rparr> else st)
               in Some (error, clear_acl_mode st)))"

text \<open>\<^verbatim>\<open>__f2fs_set_acl\<close>: \<open>upd\<close> is \<^verbatim>\<open>posix_acl_update_mode\<close>, called when there is no page of the inode (\<open>new_inode\<close> is false).\<close>

definition set_acl_page :: "acl_env \<Rightarrow> (u16 \<Rightarrow> posix_acl \<Rightarrow> (u16 \<times> posix_acl option) result) \<Rightarrow> bool \<Rightarrow> acl_type \<Rightarrow> posix_acl option \<Rightarrow> acl_inode \<Rightarrow> (errno option \<times> acl_inode) option" where
  "set_acl_page env upd new_inode type acl st =
     (case type of
        ACL_TYPE_ACCESS \<Rightarrow>
          (case acl of
             None \<Rightarrow> store_acl env type None st
           | Some a \<Rightarrow>
               if new_inode then store_acl env type (Some a) st
               else case upd (ai_mode st) a of Inl e \<Rightarrow> Some (Some e, st)
                    | Inr (mode, acl) \<Rightarrow> store_acl env type acl (set_acl_inode mode st))
      | ACL_TYPE_DEFAULT \<Rightarrow>
          if \<not> S_ISDIR (ai_mode st) then Some (if acl \<noteq> None then Some EACCES else None, st)
          else store_acl env type acl st)"

definition f2fs_set_acl :: "acl_env \<Rightarrow> (u16 \<Rightarrow> posix_acl \<Rightarrow> (u16 \<times> posix_acl option) result) \<Rightarrow> acl_type \<Rightarrow> posix_acl option \<Rightarrow> acl_inode \<Rightarrow> (errno option \<times> acl_inode) option" where
  "f2fs_set_acl env upd type acl st = (if ae_cp_error env then Some (Some EIO, st) else set_acl_page env upd False type acl st)"

section \<open>What a new inode inherits\<close>

definition S_ISLNK :: "u16 \<Rightarrow> bool" where
  "S_ISLNK mode \<longleftrightarrow> mode AND 0xF000 = 0xA000"

definition S_IRWXU :: u16 where "S_IRWXU = 0x1C0"
definition S_IRWXG :: u16 where "S_IRWXG = 0x38"
definition S_IRWXO :: u16 where "S_IRWXO = 0x7"
definition S_IRWXUGO :: u16 where "S_IRWXUGO = 0x1FF"

text \<open>The loop over the entries \<open>es\<close> from place \<open>i\<close>: the new entries, the mode, the places of the last group and mask entries, and whether the list says more than a mode.\<close>

fun masq_loop :: "posix_acl \<Rightarrow> nat \<Rightarrow> u16 \<Rightarrow> nat option \<Rightarrow> nat option \<Rightarrow> bool \<Rightarrow> (posix_acl \<times> u16 \<times> nat option \<times> nat option \<times> bool) result" where
  "masq_loop [] i mode group_obj mask_obj not_equiv = Inr ([], mode, group_obj, mask_obj, not_equiv)"
| "masq_loop (pa # es) i mode group_obj mask_obj not_equiv =
     (let next = (\<lambda>pa mode group_obj mask_obj not_equiv.
            case masq_loop es (i + 1) mode group_obj mask_obj not_equiv of Inl e \<Rightarrow> Inl e | Inr (es, rest) \<Rightarrow> Inr (pa # es, rest))
      in if e_tag pa = ACL_USER_OBJ then
           (let perm = e_perm pa AND (drop_bit 6 mode OR NOT S_IRWXO)
            in next (pa\<lparr>e_perm := perm\<rparr>) (mode AND (push_bit 6 perm OR NOT S_IRWXU)) group_obj mask_obj not_equiv)
         else if e_tag pa = ACL_USER \<or> e_tag pa = ACL_GROUP then next pa mode group_obj mask_obj True
         else if e_tag pa = ACL_GROUP_OBJ then next pa mode (Some i) mask_obj not_equiv
         else if e_tag pa = ACL_OTHER then
           (let perm = e_perm pa AND (mode OR NOT S_IRWXO)
            in next (pa\<lparr>e_perm := perm\<rparr>) (mode AND (perm OR NOT S_IRWXO)) group_obj mask_obj not_equiv)
         else if e_tag pa = ACL_MASK then next pa mode group_obj (Some i) True
         else Inl EIO)"

text \<open>The group class: \<^verbatim>\<open>mask_obj\<close> if there is one, else \<^verbatim>\<open>group_obj\<close>.\<close>

definition f2fs_acl_create_masq :: "posix_acl \<Rightarrow> u16 \<Rightarrow> (bool \<times> posix_acl \<times> u16) result" where
  "f2fs_acl_create_masq acl mode0 =
     (let finish = (\<lambda>acl mode i not_equiv.
            let perm = e_perm (acl ! i) AND (drop_bit 3 mode OR NOT S_IRWXO);
                mode = mode AND (push_bit 3 perm OR NOT S_IRWXG)
            in Inr (not_equiv, acl[i := (acl ! i)\<lparr>e_perm := perm\<rparr>], (mode0 AND NOT S_IRWXUGO) OR mode))
      in case masq_loop acl 0 mode0 None None False of Inl e \<Rightarrow> Inl e
         | Inr (acl, mode, group_obj, mask_obj, not_equiv) \<Rightarrow>
             (case mask_obj of Some i \<Rightarrow> finish acl mode i not_equiv
              | None \<Rightarrow> (case group_obj of None \<Rightarrow> Inl EIO | Some i \<Rightarrow> finish acl mode i not_equiv)))"

text \<open>
  The mode of the new inode, its default and its access list. \<^verbatim>\<open>f2fs_acl_clone\<close> copies the list unless it has no memory (\<open>no_clone\<close>); every error of masking it is returned as \<^verbatim>\<open>-ENOMEM\<close>.
\<close>

definition f2fs_acl_clone :: "bool \<Rightarrow> posix_acl option \<Rightarrow> posix_acl option" where
  "f2fs_acl_clone no_mem acl = (case acl of None \<Rightarrow> None | Some a \<Rightarrow> if no_mem then None else Some a)"

definition f2fs_acl_create :: "acl_env \<Rightarrow> bool \<Rightarrow> bool \<Rightarrow> u16 \<Rightarrow> acl_inode \<Rightarrow> u16 \<Rightarrow> (u16 \<times> posix_acl option \<times> posix_acl option) result option" where
  "f2fs_acl_create env posixacl no_clone umask dir mode =
     (if S_ISLNK mode \<or> \<not> posixacl then Some (Inr (mode, None, None))
      else case get_acl_page env ACL_TYPE_DEFAULT dir of None \<Rightarrow> None
      | Some (Inr None) \<Rightarrow> Some (Inr (mode AND NOT umask, None, None))
      | Some (Inl e) \<Rightarrow> if e = EOPNOTSUPP then Some (Inr (mode AND NOT umask, None, None)) else Some (Inl e)
      | Some (Inr (Some p)) \<Rightarrow>
          (case f2fs_acl_clone no_clone (Some p) of None \<Rightarrow> Some (Inl ENOMEM)
           | Some clone \<Rightarrow>
               (case f2fs_acl_create_masq clone mode of Inl e \<Rightarrow> Some (Inl ENOMEM)
                | Inr (not_equiv, clone, mode) \<Rightarrow>
                    Some (Inr (mode, if S_ISDIR mode then Some p else None, if not_equiv then Some clone else None)))))"

definition f2fs_init_acl :: "acl_env \<Rightarrow> acl_env \<Rightarrow> acl_env \<Rightarrow> bool \<Rightarrow> bool \<Rightarrow> u16 \<Rightarrow> acl_inode \<Rightarrow> acl_inode \<Rightarrow> (errno option \<times> acl_inode) option" where
  "f2fs_init_acl env env_default env_access posixacl no_clone umask dir st =
     (case f2fs_acl_create env posixacl no_clone umask dir (ai_mode st) of None \<Rightarrow> None
      | Some (Inl e) \<Rightarrow> Some (Some e, st)
      | Some (Inr (mode, default_acl, acl)) \<Rightarrow>
          let st = st\<lparr>ai_xattrs := (ai_xattrs st)\<lparr>xi_mode := mode, xi_dirty := True\<rparr>\<rparr>
          in case (case default_acl of None \<Rightarrow> Some (None, st)
                   | Some a \<Rightarrow> set_acl_page env_default (\<lambda>m a. Inr (m, Some a)) True ACL_TYPE_DEFAULT (Some a) st) of None \<Rightarrow> None
             | Some (error, st) \<Rightarrow>
                 (case acl of None \<Rightarrow> Some (error, st)
                  | Some a \<Rightarrow>
                      if error \<noteq> None then Some (error, st)
                      else set_acl_page env_access (\<lambda>m a. Inr (m, Some a)) True ACL_TYPE_ACCESS (Some a) st))"

end
