(* ===== verification/Acl_Format.thy ===== *)
theory Acl_Format
  imports Acl
begin

text \<open>The format of access control lists: a valid list comes back from its bytes.\<close>

definition tag_count :: "u16 \<Rightarrow> posix_acl \<Rightarrow> nat" where
  "tag_count t acl = length (filter (\<lambda>e. e_tag e = t) acl)"

text \<open>What \<^verbatim>\<open>posix_acl_valid\<close> asks of a list, up to the order of its entries.\<close>

definition acl_valid :: "posix_acl \<Rightarrow> bool" where
  "acl_valid acl \<longleftrightarrow> (\<forall>e \<in> set acl. (short_tag (e_tag e) \<or> long_tag (e_tag e)) \<and> e_perm e \<le> 7) \<and>
     tag_count ACL_USER_OBJ acl = 1 \<and> tag_count ACL_GROUP_OBJ acl = 1 \<and> tag_count ACL_OTHER acl = 1 \<and> tag_count ACL_MASK acl \<le> 1 \<and>
     ((\<exists>e \<in> set acl. long_tag (e_tag e)) \<longrightarrow> tag_count ACL_MASK acl = 1)"

definition acl_enc :: "posix_acl_entry \<Rightarrow> u8 list" where
  "acl_enc e = le16_bytes (e_tag e) @ le16_bytes (e_perm e) @ (if long_tag (e_tag e) then le32_bytes (e_id e) else [])"

definition acl_bytes :: "posix_acl \<Rightarrow> u8 list" where
  "acl_bytes acl = le32_bytes F2FS_ACL_VERSION @ concat (map acl_enc acl)"

text \<open>The id of a short entry is not stored.\<close>

definition norm_entry :: "posix_acl_entry \<Rightarrow> posix_acl_entry" where
  "norm_entry e = (if long_tag (e_tag e) then e else e\<lparr>e_id := 0\<rparr>)"

definition acl_norm :: "posix_acl \<Rightarrow> posix_acl" where
  "acl_norm acl = map norm_entry acl"

lemma short_not_long: "short_tag t \<Longrightarrow> \<not> long_tag t"
  by (auto simp: short_tag_def long_tag_def acl_tags)

lemma length_acl_enc: "length (acl_enc e) = (if long_tag (e_tag e) then 8 else 4)"
  by (simp add: acl_enc_def)

lemma tags_counted:
  assumes "\<forall>e \<in> set acl. short_tag (e_tag e) \<or> long_tag (e_tag e)"
  shows "length acl = tag_count ACL_USER_OBJ acl + tag_count ACL_GROUP_OBJ acl + tag_count ACL_OTHER acl + tag_count ACL_MASK acl + length (filter (\<lambda>e. long_tag (e_tag e)) acl)"
  using assms by (induction acl) (auto simp: tag_count_def short_tag_def long_tag_def acl_tags)

lemma length_acl_encs: "length (concat (map acl_enc acl)) = 4 * length acl + 4 * length (filter (\<lambda>e. long_tag (e_tag e)) acl)"
  by (induction acl) (simp_all add: length_acl_enc)

lemma acl_valid_count:
  assumes "acl_valid acl"
  shows "3 \<le> length acl" "length (filter (\<lambda>e. long_tag (e_tag e)) acl) = length acl - 4"
proof -
  have a: "\<forall>e \<in> set acl. short_tag (e_tag e) \<or> long_tag (e_tag e)" using assms by (auto simp: acl_valid_def)
  note c = tags_counted [OF a]
  show "3 \<le> length acl" using c assms by (simp add: acl_valid_def)
  show "length (filter (\<lambda>e. long_tag (e_tag e)) acl) = length acl - 4"
  proof (cases "\<exists>e \<in> set acl. long_tag (e_tag e)")
    case True
    then show ?thesis using c assms by (simp add: acl_valid_def)
  next
    case False
    then have "filter (\<lambda>e. long_tag (e_tag e)) acl = []" by (simp add: filter_empty_conv)
    then show ?thesis using c assms by (simp add: acl_valid_def)
  qed
qed

lemma length_acl_bytes:
  assumes "acl_valid acl"
  shows "length (acl_bytes acl) = f2fs_acl_size (length acl)"
  using acl_valid_count [OF assms] by (simp add: acl_bytes_def length_acl_encs f2fs_acl_size_def; arith)

lemma f2fs_acl_count_size: "f2fs_acl_count (int (f2fs_acl_size n)) = int n"
proof (cases "n \<le> 4")
  case True
  then have "n = 0 \<or> n = 1 \<or> n = 2 \<or> n = 3 \<or> n = 4" by auto
  then show ?thesis by (auto simp: f2fs_acl_count_def f2fs_acl_size_def)
next
  case False
  then obtain k where "n = 4 + k" by (metis le_Suc_ex nat_le_linear)
  then show ?thesis by (simp add: f2fs_acl_count_def f2fs_acl_size_def Let_def)
qed

lemma f2fs_acl_size_le: "f2fs_acl_size n \<le> 4 + 8 * n"
  unfolding f2fs_acl_size_def by arith

lemma to_disk_loop_at:
  assumes "\<forall>e \<in> set acl. short_tag (e_tag e) \<or> long_tag (e_tag e)" "8 * length acl \<le> length ys"
  shows "\<exists>zs. to_disk_loop acl (length xs) (xs @ ys) = Inr (xs @ concat (map acl_enc acl) @ zs)"
  using assms
proof (induction acl arbitrary: xs ys)
  case (Cons e es)
  have "8 \<le> length ys" using Cons.prems(2) by simp
  then have l: "2 \<le> length ys" "2 \<le> length (drop 2 ys)" "4 \<le> length (drop 4 ys)" by simp_all
  have p1: "put_bytes (length xs) (le16_bytes (e_tag e)) (xs @ ys) = (xs @ le16_bytes (e_tag e)) @ drop 2 ys"
    using put_at [of "length xs" xs "le16_bytes (e_tag e)" ys] l by simp
  have p2: "put_bytes (length xs + 2) (le16_bytes (e_perm e)) ((xs @ le16_bytes (e_tag e)) @ drop 2 ys) = (xs @ le16_bytes (e_tag e) @ le16_bytes (e_perm e)) @ drop 4 ys"
    using put_at [of "length xs + 2" "xs @ le16_bytes (e_tag e)" "le16_bytes (e_perm e)" "drop 2 ys"] l by (simp add: add.commute)
  have p3: "put_bytes (length xs + 4) (le32_bytes (e_id e)) ((xs @ le16_bytes (e_tag e) @ le16_bytes (e_perm e)) @ drop 4 ys)
      = (xs @ le16_bytes (e_tag e) @ le16_bytes (e_perm e) @ le32_bytes (e_id e)) @ drop 8 ys"
    using put_at [of "length xs + 4" "xs @ le16_bytes (e_tag e) @ le16_bytes (e_perm e)" "le32_bytes (e_id e)" "drop 4 ys"] l by (simp add: add.commute)
  show ?case
  proof (cases "long_tag (e_tag e)")
    case True
    have "to_disk_loop (e # es) (length xs) (xs @ ys) = to_disk_loop es (length (xs @ acl_enc e)) ((xs @ acl_enc e) @ drop 8 ys)"
      using True unfolding to_disk_loop.simps Let_def p1 p2 p3 by (simp add: acl_enc_def)
    moreover have "\<exists>zs. to_disk_loop es (length (xs @ acl_enc e)) ((xs @ acl_enc e) @ drop 8 ys) = Inr ((xs @ acl_enc e) @ concat (map acl_enc es) @ zs)"
      by (rule Cons.IH) (use Cons.prems in simp_all)
    ultimately show ?thesis by simp
  next
    case False
    then have s: "short_tag (e_tag e)" using Cons.prems(1) by simp
    have "to_disk_loop (e # es) (length xs) (xs @ ys) = to_disk_loop es (length (xs @ acl_enc e)) ((xs @ acl_enc e) @ drop 4 ys)"
      using False s unfolding to_disk_loop.simps Let_def p1 p2 by (simp add: acl_enc_def)
    moreover have "\<exists>zs. to_disk_loop es (length (xs @ acl_enc e)) ((xs @ acl_enc e) @ drop 4 ys) = Inr ((xs @ acl_enc e) @ concat (map acl_enc es) @ zs)"
      by (rule Cons.IH) (use Cons.prems in simp_all)
    ultimately show ?thesis by simp
  qed
qed simp

lemma f2fs_acl_to_disk_valid:
  assumes "acl_valid acl" "\<And>n. length (mem n) = n"
  shows "f2fs_acl_to_disk (Some mem) acl = Inr (acl_bytes acl)"
proof -
  let ?m = "mem (4 + length acl * 8)" let ?v = "le32_bytes F2FS_ACL_VERSION"
  have a: "\<forall>e \<in> set acl. short_tag (e_tag e) \<or> long_tag (e_tag e)" using assms(1) by (auto simp: acl_valid_def)
  have p: "put_bytes 0 ?v ?m = ?v @ drop 4 ?m" using put_at [of 0 "[]" ?v ?m] assms(2) by simp
  obtain zs where z: "to_disk_loop acl 4 (?v @ drop 4 ?m) = Inr (acl_bytes acl @ zs)"
    using to_disk_loop_at [OF a, of "drop 4 ?m" ?v] assms(2) by (auto simp: acl_bytes_def)
  show ?thesis unfolding f2fs_acl_to_disk_def option.case p z sum.case length_acl_bytes [OF assms(1), symmetric] by simp
qed

lemma acl_fields:
  assumes b: "b = xs @ acl_enc e @ zs"
  shows "get16 (length xs) b = e_tag e" "get16 (length xs + 2) b = e_perm e" "long_tag (e_tag e) \<Longrightarrow> get32 (length xs + 4) b = e_id e"
proof -
  let ?t = "le16_bytes (e_tag e)" and ?p = "le16_bytes (e_perm e)" and ?r = "if long_tag (e_tag e) then le32_bytes (e_id e) else []"
  have x: "b = xs @ ?t @ ?p @ ?r @ zs" by (simp add: b acl_enc_def)
  have "get_bytes (length xs) 2 b = ?t" by (rule get_at' [of _ xs _ _ _ "?p @ ?r @ zs"]) (simp_all only: x length_le16_bytes append_assoc)
  then show "get16 (length xs) b = e_tag e" by (simp add: get16_def)
  have "get_bytes (length xs + 2) 2 b = ?p" by (rule get_at' [of _ "xs @ ?t" _ _ _ "?r @ zs"]) (simp_all only: x length_le16_bytes append_assoc length_append)
  then show "get16 (length xs + 2) b = e_perm e" by (simp add: get16_def)
  assume l: "long_tag (e_tag e)"
  have "get_bytes (length xs + 4) 4 b = le32_bytes (e_id e)"
    by (rule get_at' [of _ "xs @ ?t @ ?p" _ _ _ zs]) (simp_all add: x l)
  then show "get32 (length xs + 4) b = e_id e" by (simp add: get32_def)
qed

lemma from_disk_loop_at:
  assumes "\<forall>e \<in> set acl. short_tag (e_tag e) \<or> long_tag (e_tag e)" "b = xs @ concat (map acl_enc acl)"
  shows "from_disk_loop b (length acl) (length xs) acc = Some (Inr (acc @ acl_norm acl))"
  using assms
proof (induction acl arbitrary: xs acc)
  case (Cons e es)
  have b: "b = xs @ acl_enc e @ concat (map acl_enc es)" using Cons.prems(2) by simp
  note t = acl_fields(1) [OF b] and p = acl_fields(2) [OF b]
  have IH: "from_disk_loop b (length es) (length (xs @ acl_enc e)) acc = Some (Inr (acc @ acl_norm es))" for acc
    by (rule Cons.IH) (use Cons.prems in simp_all)
  have l: "\<not> length xs > length b" "\<not> length xs + 4 > length b" using b by (simp_all add: length_acl_enc)
  show ?case
  proof (cases "long_tag (e_tag e)")
    case True
    note i = acl_fields(3) [OF b True]
    have l8: "\<not> length xs + 8 > length b" using b True by (simp add: length_acl_enc)
    have ns: "\<not> short_tag (e_tag e)" using True short_not_long by blast
    have n: "length xs + 8 = length (xs @ acl_enc e)" using True by (simp add: length_acl_enc)
    have e: "\<lparr>e_tag = e_tag e, e_perm = e_perm e, e_id = e_id e\<rparr> = e" by simp
    show ?thesis unfolding list.size(4) add_0_right add_Suc_right from_disk_loop.simps t p Let_def i e n if_not_P [OF l(1)] if_not_P [OF l(2)] if_not_P [OF ns] if_P [OF True] if_not_P [OF l8 [unfolded n]] IH
      using True by (simp add: acl_norm_def norm_entry_def)
  next
    case False
    then have s: "short_tag (e_tag e)" using Cons.prems(1) by simp
    have n: "length xs + 4 = length (xs @ acl_enc e)" using False by (simp add: length_acl_enc)
    have e: "\<lparr>e_tag = e_tag e, e_perm = e_perm e, e_id = 0\<rparr> = e\<lparr>e_id := 0\<rparr>" by simp
    show ?thesis unfolding list.size(4) add_0_right add_Suc_right from_disk_loop.simps t p Let_def e n if_not_P [OF l(1)] if_not_P [OF l(2) [unfolded n]] if_P [OF s] IH
      using False by (simp add: acl_norm_def norm_entry_def)
  qed
qed (simp add: acl_norm_def norm_entry_def)

lemma f2fs_acl_from_disk_valid:
  assumes "acl_valid acl"
  shows "f2fs_acl_from_disk False (acl_bytes acl) = Some (Inr (Some (acl_norm acl)))"
proof -
  have a: "\<forall>e \<in> set acl. short_tag (e_tag e) \<or> long_tag (e_tag e)" using assms by (auto simp: acl_valid_def)
  have l: "\<not> length (acl_bytes acl) < 4" by (simp add: acl_bytes_def)
  have v: "get32 0 (acl_bytes acl) = F2FS_ACL_VERSION"
    using get_at' [of 0 "[]" 4 "le32_bytes F2FS_ACL_VERSION" "acl_bytes acl" "concat (map acl_enc acl)"] by (simp add: get32_def acl_bytes_def)
  have c: "f2fs_acl_count (int (length (acl_bytes acl))) = int (length acl)" by (simp add: length_acl_bytes [OF assms] f2fs_acl_count_size)
  have n: "length acl \<noteq> 0" using acl_valid_count(1) [OF assms] by linarith
  have "from_disk_loop (acl_bytes acl) (length acl) 4 [] = Some (Inr (acl_norm acl))"
    using from_disk_loop_at [OF a, of "acl_bytes acl" "le32_bytes F2FS_ACL_VERSION" "[]"] by (simp add: acl_bytes_def)
  then show ?thesis using l v c n by (simp add: f2fs_acl_from_disk_def Let_def)
qed

end
