(* ===== verification/Acl_Runs.thy ===== *)
theory Acl_Runs
  imports Acl_Format
begin

text \<open>What setting and getting access control lists promises.\<close>

section \<open>The mode of the inode\<close>

definition stores :: "nat \<Rightarrow> u8 list \<Rightarrow> u8 list option \<Rightarrow> xentry list \<Rightarrow> bool" where
  "stores i n v es \<longleftrightarrow> (\<exists>e \<in> set es. xkey e = (i, n) \<and> Some (xval e) = v)"

lemma write_all_mode: "write_all_xattrs io h t st = (r, st') \<Longrightarrow> xi_mode st' = xi_mode st \<and> xi_acl_mode st' = xi_acl_mode st"
  by (auto simp: write_all_xattrs_def Let_def split: if_splits)

text \<open>Setting an attribute commits the pending mode, unless the value is stored already: then nothing happens.\<close>

lemma setxattr_mode:
  assumes H: "has_xattrs st es" and r: "f2fs_setxattr io ctx i n v False False st = Some (None, st')"
  shows "if stores i n v es then st' = st else xi_mode st' = (case xi_acl_mode st of None \<Rightarrow> xi_mode st | Some m \<Rightarrow> m) \<and> xi_acl_mode st' = None"
proof -
  let ?sz = "case v of None \<Rightarrow> 0 | Some v \<Rightarrow> length v"
  have ok: "\<not> length n > F2FS_NAME_LEN" "\<not> ?sz > MAX_VALUE_LEN st" using r by (auto simp: f2fs_setxattr_def Let_def split: if_splits)
  obtain b where b: "read_all_xattrs io st = Inr b" "xattrs_in b es"
    using read_all_cases [OF H, of io] r ok by (auto simp: f2fs_setxattr_def Let_def)
  obtain h k where h: "length h = XATTR_HDR_SIZE" "4 \<le> k" "b = h @ xencs es @ replicate k 0" and o: "list_all xentry_ok es" "distinct (map xkey es)"
    using b(2) by (auto simp: xattrs_in_def)
  define here where "here = length (h @ xencs (others (i, n) es))"
  have fx: "find_xattr b i n XATTR_HDR_SIZE = Some here" using find_xattr_at [OF o(1) h(3,2), of i n] h(1) by (simp add: here_def)
  have fd: "IS_XATTR_LAST_ENTRY b here \<longleftrightarrow> (i, n) \<notin> xkey ` set es"
    unfolding find_found [OF o(1) h(3,2) here_def] find_None_iff image_iff by metis
  have sm: "\<not> IS_XATTR_LAST_ENTRY b here \<and> (case v of None \<Rightarrow> False | Some v \<Rightarrow> f2fs_xattr_value_same b here v) \<longleftrightarrow> stores i n v es"
  proof (cases "(i, n) \<in> xkey ` set es")
    case True
    then obtain e es2 where e: "es = others (i, n) es @ e # es2" "xkey e = (i, n)" using others_filter [OF o(2), of "(i, n)"] by blast
    define es1 where "es1 = others (i, n) es"
    have e1: "es = es1 @ e # es2" unfolding es1_def by (rule e(1))
    have eo: "xentry_ok e" using o(1) e1 by simp
    have be: "b = (h @ xencs es1) @ xenc e @ (xencs es2 @ replicate k 0)" unfolding h(3) by (subst e1) simp
    have "x = e" if "x \<in> set es" "xkey x = (i, n)" for x
      using that e1 e(2) o(2) by (metis distinct_map inj_on_def in_set_conv_decomp)
    then have "stores i n v es \<longleftrightarrow> Some (xval e) = v" unfolding stores_def using e1 e(2) by auto
    then show ?thesis using value_same_at [OF eo be] True fd unfolding here_def es1_def [symmetric] by (auto split: option.split)
  next
    case False
    then have "\<not> stores i n v es" unfolding stores_def image_iff by metis
    then show ?thesis using False fd by blast
  qed
  show ?thesis
  proof (cases "stores i n v es")
    case True
    then show ?thesis using r ok sm unfolding f2fs_setxattr_def Let_def by (simp add: b(1) fx)
  next
    case False
    obtain hs t st1 where w: "write_all_xattrs io hs t st = (None, st1)" and st': "xi_mode st' = (case xi_acl_mode st1 of None \<Rightarrow> xi_mode st1 | Some m \<Rightarrow> m)" "xi_acl_mode st' = None"
      using r ok sm False unfolding f2fs_setxattr_def Let_def by (auto simp: b(1) fx split: if_splits option.splits prod.splits)
    show ?thesis using write_all_mode [OF w] st' False by (cases "xi_acl_mode st") simp_all
  qed
qed

lemma stores_attrs:
  assumes "distinct (map xkey es)"
  shows "stores i n v es \<longleftrightarrow> v \<noteq> None \<and> attrs es (i, n) = v"
proof
  assume "stores i n v es"
  then obtain e where e: "e \<in> set es" "xkey e = (i, n)" "Some (xval e) = v" by (auto simp: stores_def)
  have "find (\<lambda>e. xkey e = (i, n)) es \<noteq> None" unfolding find_None_iff using e(1,2) by blast
  then obtain e' where f: "find (\<lambda>e. xkey e = (i, n)) es = Some e'" by blast
  then have "e' \<in> set es" "xkey e' = (i, n)" by (auto simp: find_Some_iff)
  then have "e' = e" using e(1,2) assms by (metis distinct_map inj_on_def)
  with f have "find (\<lambda>e. xkey e = (i, n)) es = Some e" by simp
  then show "v \<noteq> None \<and> attrs es (i, n) = v" using e(3) by (auto simp: attrs_def)
next
  assume "v \<noteq> None \<and> attrs es (i, n) = v"
  then obtain e where e: "find (\<lambda>e. xkey e = (i, n)) es = Some e" "Some (xval e) = v" by (auto simp: attrs_def)
  then have "e \<in> set es" "xkey e = (i, n)" by (auto simp: find_Some_iff)
  then show "stores i n v es" using e(2) by (auto simp: stores_def)
qed

section \<open>Getting\<close>

definition mem_ok :: "acl_env \<Rightarrow> bool" where
  "mem_ok env \<longleftrightarrow> (\<forall>mem. ae_mem env = Some mem \<longrightarrow> (\<forall>n. length (mem n) = n))"

text \<open>Nothing fails.\<close>

definition env_fine :: "acl_env \<Rightarrow> bool" where
  "env_fine env \<longleftrightarrow> io_fine (ae_io env) \<and> io_fine (ae_io_value env) \<and> \<not> ae_no_value env \<and> \<not> ae_no_acl env \<and> ae_mem env \<noteq> None \<and> \<not> ae_cp_error env"

text \<open>An inode with the attributes \<open>es\<close>, whose area has no room of its own in the inode or more than a header.\<close>

definition acl_ready :: "acl_inode \<Rightarrow> xentry list \<Rightarrow> bool" where
  "acl_ready st es \<longleftrightarrow> has_xattrs (ai_xattrs st) es \<and> (length (xi_inline (ai_xattrs st)) = 0 \<or> 28 \<le> length (xi_inline (ai_xattrs st)))"

abbreviation acl_attr :: "xentry list \<Rightarrow> acl_type \<Rightarrow> u8 list option" where
  "acl_attr es type \<equiv> attrs es (acl_name_index type, [])"

lemma acl_index: "0 < acl_name_index type" "acl_name_index type < 256" "acl_name_index type = acl_name_index type' \<longleftrightarrow> type = type'"
  by (cases type; cases type'; simp add: F2FS_XATTR_INDEX_POSIX_ACL_ACCESS_def F2FS_XATTR_INDEX_POSIX_ACL_DEFAULT_def)+

lemma getxattr_size:
  assumes H: "has_xattrs st es" and io: "io_fine io" and inl: "length (xi_inline st) = 0 \<or> 28 \<le> length (xi_inline st)" and n: "length n \<le> F2FS_NAME_LEN"
  shows "f2fs_getxattr io i n None st = Some (case attrs es (i, n) of None \<Rightarrow> Inl ENODATA | Some v \<Rightarrow> Inr (length v, None))"
proof (cases "find (\<lambda>e. xkey e = (i, n)) es")
  case None
  then show ?thesis using lookup_all_at [OF H io inl, of i n] n by (simp add: f2fs_getxattr_def attrs_def)
next
  case (Some e)
  then obtain xs zs where l: "lookup_all_xattrs io st i n = Some (Inr (xs @ xenc e @ zs, length xs))" "xentry_ok e" using lookup_all_at [OF H io inl, of i n] by auto
  show ?thesis unfolding f2fs_getxattr_def l(1) using Some n entry_at(3) [OF l(2) refl, of xs zs] by (simp add: attrs_def Let_def)
qed

lemma get_acl_at:
  assumes R: "acl_ready st es" and env: "env_fine env"
  shows "f2fs_get_acl env type st = (case acl_attr es type of None \<Rightarrow> Some (Inr None) | Some v \<Rightarrow> if v = [] then Some (Inr None) else f2fs_acl_from_disk False v)"
proof -
  have H: "has_xattrs (ai_xattrs st) es" and inl: "length (xi_inline (ai_xattrs st)) = 0 \<or> 28 \<le> length (xi_inline (ai_xattrs st))" using R by (simp_all add: acl_ready_def)
  have io: "io_fine (ae_io env)" "io_fine (ae_io_value env)" and e: "\<not> ae_no_value env" "\<not> ae_no_acl env" using env by (simp_all add: env_fine_def)
  have n: "length ([] :: u8 list) \<le> F2FS_NAME_LEN" by simp
  note s = getxattr_size [OF H io(1) inl n, of "acl_name_index type"]
  note g = getxattr_at [OF H io(2) inl n, of "acl_name_index type"]
  show ?thesis
    unfolding f2fs_get_acl_def get_acl_page_def Let_def s g using e by (cases "acl_attr es type") simp_all
qed

section \<open>Setting\<close>

lemma acl_bytes_nonempty: "acl_bytes a \<noteq> []"
  using length_le32_bytes by (simp add: acl_bytes_def le32_bytes_def)

lemma store_acl_ok:
  assumes R: "acl_ready st es" and mem: "mem_ok env" and acl: "\<And>a. acl = Some a \<Longrightarrow> acl_valid a"
  shows "\<exists>r st'. store_acl env type acl st = Some (r, st') \<and> ai_acl_mode st' = None \<and>
    (r \<noteq> None \<longrightarrow> ai_xattrs st' = (ai_xattrs st)\<lparr>xi_acl_mode := None\<rparr> \<and> ai_cached st' = ai_cached st) \<and>
    (r = None \<longrightarrow> (\<exists>es'. acl_ready st' es' \<and> attrs es' = (attrs es)((acl_name_index type, []) := map_option acl_bytes acl)) \<and> ai_cached st' = (ai_cached st)(type := Some acl) \<and>
       ai_mode st' = (if acl \<noteq> None \<and> acl_attr es type = map_option acl_bytes acl then ai_mode st else case ai_acl_mode st of None \<Rightarrow> ai_mode st | Some m \<Rightarrow> m)) \<and>
    (env_fine env \<longrightarrow> r = set_outcome (MIN_OFFSET (ai_xattrs st)) (acl_name_index type) [] (map_option acl_bytes acl) False False es)"
proof (cases "ae_mem env = None \<and> acl \<noteq> None")
  case True
  then have "store_acl env type acl st = Some (Some ENOMEM, clear_acl_mode st)" by (auto simp: store_acl_def f2fs_acl_to_disk_def)
  then show ?thesis using True by (simp add: clear_acl_mode_def env_fine_def)
next
  case False
  have v: "(case acl of None \<Rightarrow> Inr None | Some acl \<Rightarrow> (case f2fs_acl_to_disk (ae_mem env) acl of Inl e \<Rightarrow> Inl e | Inr v \<Rightarrow> Inr (Some v))) = Inr (map_option acl_bytes acl)"
  proof (cases acl)
    case (Some a)
    then obtain m where "ae_mem env = Some m" using False by auto
    then show ?thesis using Some f2fs_acl_to_disk_valid [OF acl [OF Some], of m] mem by (simp add: mem_ok_def)
  qed simp
  have H: "has_xattrs (ai_xattrs st) es" using R by (simp add: acl_ready_def)
  let ?i = "acl_name_index type" and ?v = "map_option acl_bytes acl"
  obtain r x where s: "f2fs_setxattr (ae_io env) (ae_context env) ?i [] ?v False False (ai_xattrs st) = Some (r, x)"
    "r = None \<Longrightarrow> becomes (ai_xattrs st) x (put_attr ?i [] ?v es)" "r \<noteq> None \<Longrightarrow> x = ai_xattrs st"
    "io_fine (ae_io env) \<Longrightarrow> r = set_outcome (MIN_OFFSET (ai_xattrs st)) ?i [] ?v False False es"
    using f2fs_setxattr_cases [OF H acl_index(1,2), of "ae_io env" "ae_context env" type "[]" ?v False False] by blast
  let ?st = "clear_acl_mode (if r = None then st\<lparr>ai_xattrs := x, ai_cached := (ai_cached st)(type := Some acl)\<rparr> else st\<lparr>ai_xattrs := x\<rparr>)"
  have st: "store_acl env type acl st = Some (r, ?st)" unfolding store_acl_def v sum.case s(1) option.case prod.case Let_def by simp
  have d: "distinct (map xkey es)" by (rule has_xattrs_distinct [OF H])
  show ?thesis
  proof (cases r)
    case None
    have b: "becomes (ai_xattrs st) x (put_attr ?i [] ?v es)" by (rule s(2) [OF None])
    have "has_xattrs (ai_xattrs ?st) (put_attr ?i [] ?v es)" using b None by (auto simp: clear_acl_mode_def intro: has_xattrs_cong)
    then have rd: "acl_ready ?st (put_attr ?i [] ?v es)" using R b None by (simp add: acl_ready_def clear_acl_mode_def)
    have m: "xi_mode x = (if ?v \<noteq> None \<and> acl_attr es type = ?v then ai_mode st else case ai_acl_mode st of None \<Rightarrow> ai_mode st | Some m \<Rightarrow> m)"
      using setxattr_mode [OF H s(1) [unfolded None]] unfolding stores_attrs [OF d] by (auto split: if_splits)
    have "env_fine env \<longrightarrow> r = set_outcome (MIN_OFFSET (ai_xattrs st)) ?i [] ?v False False es" using s(4) by (simp add: env_fine_def)
    then show ?thesis using st rd m attrs_put [OF d, of ?i "[]" ?v] None by (intro exI [of _ r] exI [of _ ?st]) (auto simp: clear_acl_mode_def)
  next
    case (Some e)
    then show ?thesis using st s(3,4) by (simp add: clear_acl_mode_def env_fine_def)
  qed
qed

text \<open>What is to be stored, and the mode that goes with it.\<close>

definition acl_target :: "(u16 \<Rightarrow> posix_acl \<Rightarrow> (u16 \<times> posix_acl option) result) \<Rightarrow> acl_type \<Rightarrow> posix_acl \<Rightarrow> acl_inode \<Rightarrow> (u16 \<times> posix_acl option) result" where
  "acl_target upd type acl st =
     (case type of ACL_TYPE_ACCESS \<Rightarrow> upd (ai_mode st) acl
      | ACL_TYPE_DEFAULT \<Rightarrow> if S_ISDIR (ai_mode st) then Inr (ai_mode st, Some acl) else Inl EACCES)"

lemma acl_norm_valid_get:
  assumes "acl_ready st es" "env_fine env" "acl_attr es type = map_option acl_bytes a" "\<And>b. a = Some b \<Longrightarrow> acl_valid b"
  shows "f2fs_get_acl env type st = Some (Inr (map_option acl_norm a))"
  unfolding get_acl_at [OF assms(1,2)] assms(3) using f2fs_acl_from_disk_valid [OF assms(4)] acl_bytes_nonempty by (cases a) simp_all

lemma get_acl_cong: "acl_ready st es \<Longrightarrow> acl_ready st' es' \<Longrightarrow> env_fine env \<Longrightarrow> acl_attr es' type = acl_attr es type \<Longrightarrow> f2fs_get_acl env type st' = f2fs_get_acl env type st"
  by (simp add: get_acl_at)

text \<open>
  Property C33. Setting an access control list stores it. When \<^verbatim>\<open>f2fs_set_acl\<close> succeeds, the list that \<^verbatim>\<open>posix_acl_update_mode\<close> leaves of it is returned by \<^verbatim>\<open>f2fs_get_acl\<close> (ids of entries that have none
  read as 0) and cached, the other list of the inode is as before, and the mode becomes the one computed with it, unless exactly this list was stored before: then the new mode is dropped, although the call succeeds, because
  \<^verbatim>\<open>f2fs_setxattr\<close> returns early. On any error, of a read, an allocation or for lack of room, both lists and the mode are unchanged. When nothing fails the result is that of the attribute, \<^verbatim>\<open>-EACCES\<close>
  for a default list of a file, or that of \<^verbatim>\<open>posix_acl_update_mode\<close>.
\<close>

theorem f2fs_set_acl_exact:
  assumes R: "acl_ready st es" and mem: "mem_ok env" and env': "env_fine env'" and m0: "ai_acl_mode st = None" and acl: "acl_valid acl"
    and upd: "\<forall>m a. upd (ai_mode st) acl = Inr (m, Some a) \<longrightarrow> acl_valid a"
  shows "\<exists>r st'. f2fs_set_acl env upd type (Some acl) st = Some (r, st') \<and> ai_acl_mode st' = None \<and>
    (case r of
       Some e \<Rightarrow> ai_mode st' = ai_mode st \<and> ai_cached st' = ai_cached st \<and> (\<forall>t. f2fs_get_acl env' t st' = f2fs_get_acl env' t st)
     | None \<Rightarrow> \<exists>m a. acl_target upd type acl st = Inr (m, a) \<and> ai_cached st' = (ai_cached st)(type := Some a) \<and>
          (\<forall>t. f2fs_get_acl env' t st' = (if t = type then Some (Inr (map_option acl_norm a)) else f2fs_get_acl env' t st)) \<and>
          ai_mode st' = (if a \<noteq> None \<and> acl_attr es type = map_option acl_bytes a then ai_mode st else m)) \<and>
    (env_fine env \<longrightarrow> r = (case acl_target upd type acl st of Inl e \<Rightarrow> Some e
       | Inr (m, a) \<Rightarrow> set_outcome (MIN_OFFSET (ai_xattrs st)) (acl_name_index type) [] (map_option acl_bytes a) False False es))"
proof -
  define st1 where "st1 m = (case type of ACL_TYPE_ACCESS \<Rightarrow> set_acl_inode m st | ACL_TYPE_DEFAULT \<Rightarrow> st)" for m
  have run: "f2fs_set_acl env upd type (Some acl) st = (if ae_cp_error env then Some (Some EIO, st) else
      case acl_target upd type acl st of Inl e \<Rightarrow> Some (Some e, st) | Inr (m, a) \<Rightarrow> store_acl env type a (st1 m))"
    by (cases type) (auto simp: f2fs_set_acl_def set_acl_page_def acl_target_def st1_def split: sum.split)
  show ?thesis
  proof (cases "ae_cp_error env")
    case True
    then show ?thesis using m0 by (simp add: run env_fine_def)
  next
    case ncp: False
    show ?thesis
    proof (cases "acl_target upd type acl st")
      case (Inl e)
      then show ?thesis using m0 ncp by (simp add: run)
    next
      case (Inr ma)
      then obtain m a where ma: "acl_target upd type acl st = Inr (m, a)" by (cases ma) simp
      have va: "acl_valid b" if "a = Some b" for b
        using ma that acl upd by (cases type) (auto simp: acl_target_def split: if_splits)
      have s1: "ai_cached (st1 m) = ai_cached st" "xi_inline (ai_xattrs (st1 m)) = xi_inline (ai_xattrs st)" "xi_block (ai_xattrs (st1 m)) = xi_block (ai_xattrs st)" "ai_mode (st1 m) = ai_mode st"
        by (cases type; simp add: st1_def set_acl_inode_def)+
      have mode: "(case ai_acl_mode (st1 m) of None \<Rightarrow> ai_mode (st1 m) | Some m \<Rightarrow> m) = m"
        using ma m0 by (cases type) (auto simp: st1_def set_acl_inode_def acl_target_def split: if_splits)
      have R1: "acl_ready (st1 m) es" using R s1(2,3) has_xattrs_cong unfolding acl_ready_def by metis
      have mo: "MIN_OFFSET (ai_xattrs (st1 m)) = MIN_OFFSET (ai_xattrs st)" by (simp add: MIN_OFFSET_def s1)
      obtain r st' where S: "store_acl env type a (st1 m) = Some (r, st')" "ai_acl_mode st' = None"
        "r \<noteq> None \<Longrightarrow> ai_xattrs st' = (ai_xattrs (st1 m))\<lparr>xi_acl_mode := None\<rparr> \<and> ai_cached st' = ai_cached (st1 m)"
        "r = None \<Longrightarrow> (\<exists>es'. acl_ready st' es' \<and> attrs es' = (attrs es)((acl_name_index type, []) := map_option acl_bytes a)) \<and> ai_cached st' = (ai_cached (st1 m))(type := Some a) \<and>
           ai_mode st' = (if a \<noteq> None \<and> acl_attr es type = map_option acl_bytes a then ai_mode (st1 m) else m)"
        "env_fine env \<Longrightarrow> r = set_outcome (MIN_OFFSET (ai_xattrs st)) (acl_name_index type) [] (map_option acl_bytes a) False False es"
        using store_acl_ok [OF R1 mem va, where type = type, unfolded mode mo] by blast
      have res: "f2fs_set_acl env upd type (Some acl) st = Some (r, st')" using S(1) ncp ma by (simp add: run)
      show ?thesis
      proof (cases r)
        case None
        obtain es' where e: "acl_ready st' es'" "attrs es' = (attrs es)((acl_name_index type, []) := map_option acl_bytes a)" using S(4) [OF None] by blast
        have "f2fs_get_acl env' t st' = (if t = type then Some (Inr (map_option acl_norm a)) else f2fs_get_acl env' t st)" for t
        proof (cases "t = type")
          case True
          have "acl_attr es' type = map_option acl_bytes a" using e(2) by simp
          from acl_norm_valid_get [OF e(1) env' this va] show ?thesis using True by simp
        next
          case False
          then have "acl_attr es' t = acl_attr es t" using e(2) acl_index(3) by simp
          from get_acl_cong [OF R e(1) env' this] show ?thesis using False by simp
        qed
        then show ?thesis using res S(2,4,5) None ma s1 by (intro exI [of _ r] exI [of _ st']) simp
      next
        case (Some e)
        have x: "ai_xattrs st' = (ai_xattrs (st1 m))\<lparr>xi_acl_mode := None\<rparr>" "ai_cached st' = ai_cached st" using S(3) Some s1(1) by simp_all
        have R': "acl_ready st' es" using R has_xattrs_cong [of "ai_xattrs st" es "ai_xattrs st'"] x s1(2,3) by (simp add: acl_ready_def)
        have "f2fs_get_acl env' t st' = f2fs_get_acl env' t st" for t by (rule get_acl_cong [OF R R' env' refl])
        then show ?thesis using res S(2,5) Some ma x s1 by (intro exI [of _ r] exI [of _ st']) simp
      qed
    qed
  qed
qed

section \<open>An example\<close>

definition demo_acl :: posix_acl where
  "demo_acl = [\<lparr>e_tag = ACL_USER_OBJ, e_perm = 7, e_id = 0\<rparr>, \<lparr>e_tag = ACL_USER, e_perm = 5, e_id = 1000\<rparr>, \<lparr>e_tag = ACL_GROUP_OBJ, e_perm = 5, e_id = 0\<rparr>,
     \<lparr>e_tag = ACL_MASK, e_perm = 5, e_id = 0\<rparr>, \<lparr>e_tag = ACL_OTHER, e_perm = 4, e_id = 0\<rparr>]"

definition demo_acl_env :: acl_env where
  "demo_acl_env = \<lparr>ae_io = io_good, ae_io_value = io_good, ae_no_value = False, ae_no_acl = False, ae_mem = Some (\<lambda>n. replicate n 0), ae_context = [99], ae_cp_error = False\<rparr>"

text \<open>A file that runs with the rights of its group, and its mode without them.\<close>

definition setgid_file :: acl_inode where
  "setgid_file = \<lparr>ai_xattrs = (new_xattr_inode 200)\<lparr>xi_mode := 0x85FC\<rparr>, ai_cached = (\<lambda>_. None)\<rparr>"

definition drop_setgid :: "u16 \<Rightarrow> posix_acl \<Rightarrow> (u16 \<times> posix_acl option) result" where
  "drop_setgid mode acl = Inr (mode AND NOT 0x400, Some acl)"

lemma demo_acl_facts: "acl_valid demo_acl" "acl_norm demo_acl = demo_acl" "length (acl_bytes demo_acl) = 28"
  by (simp_all add: acl_valid_def demo_acl_def tag_count_def short_tag_def long_tag_def acl_norm_def norm_entry_def acl_bytes_def length_acl_enc length_acl_encs acl_tags)

lemma demo_env_facts: "env_fine demo_acl_env" "mem_ok demo_acl_env"
  by (simp_all add: env_fine_def mem_ok_def demo_acl_env_def io_fine_def io_good_def)

lemma setgid_ready: "acl_ready setgid_file []" "ai_acl_mode setgid_file = None" "ai_mode setgid_file = 0x85FC"
proof -
  have "has_xattrs ((new_xattr_inode 200)\<lparr>xi_mode := 0x85FC\<rparr>) []" by (rule has_xattrs_cong [OF new_xattr_inode_ok]) simp_all
  then show "acl_ready setgid_file []" by (simp add: acl_ready_def setgid_file_def new_xattr_inode_def)
qed (simp_all add: setgid_file_def new_xattr_inode_def)

lemma demo_outcome: "set_outcome (MIN_OFFSET (ai_xattrs setgid_file)) i [] (Some (acl_bytes demo_acl)) False False [] = None"
  by (simp add: set_outcome_def MIN_OFFSET_def setgid_file_def new_xattr_inode_def put_attr_def XATTR_ALIGN_def VALID_XATTR_BLOCK_SIZE_def F2FS_NAME_LEN_def XATTR_HDR_SIZE_def xlen_def xval_def demo_acl_facts(3))

theorem f2fs_set_acl_exact_witness:
  "\<exists>st'. f2fs_set_acl demo_acl_env drop_setgid ACL_TYPE_ACCESS (Some demo_acl) setgid_file = Some (None, st') \<and>
     f2fs_get_acl demo_acl_env ACL_TYPE_ACCESS st' = Some (Inr (Some demo_acl)) \<and> ai_mode st' = 0x81FC"
proof -
  have u: "\<forall>m a. drop_setgid (ai_mode setgid_file) demo_acl = Inr (m, Some a) \<longrightarrow> acl_valid a" using demo_acl_facts(1) by (simp add: drop_setgid_def)
  have t: "acl_target drop_setgid ACL_TYPE_ACCESS demo_acl setgid_file = Inr (0x81FC, Some demo_acl)" by (simp add: acl_target_def drop_setgid_def setgid_ready(3))
  have n: "attrs [] = Map.empty" by (simp add: attrs_def fun_eq_iff)
  note X = f2fs_set_acl_exact [where upd = drop_setgid and type = ACL_TYPE_ACCESS, OF setgid_ready(1) demo_env_facts(2,1) setgid_ready(2) demo_acl_facts(1) u]
  note X' = X [unfolded t sum.case prod.case option.map demo_outcome n]
  then obtain r st' where Q: "f2fs_set_acl demo_acl_env drop_setgid ACL_TYPE_ACCESS (Some demo_acl) setgid_file = Some (r, st')"
    and C: "case r of Some e \<Rightarrow> ai_mode st' = ai_mode setgid_file \<and> ai_cached st' = ai_cached setgid_file \<and> (\<forall>t. f2fs_get_acl demo_acl_env t st' = f2fs_get_acl demo_acl_env t setgid_file)
     | None \<Rightarrow> \<exists>m a. Inr (0x81FC, Some demo_acl) = (Inr (m, a) :: (u16 \<times> posix_acl option) result) \<and> ai_cached st' = (ai_cached setgid_file)(ACL_TYPE_ACCESS := Some a) \<and>
          (\<forall>t. f2fs_get_acl demo_acl_env t st' = (if t = ACL_TYPE_ACCESS then Some (Inr (map_option acl_norm a)) else f2fs_get_acl demo_acl_env t setgid_file)) \<and>
          ai_mode st' = (if a \<noteq> None \<and> Map.empty (acl_name_index ACL_TYPE_ACCESS, []) = map_option acl_bytes a then ai_mode setgid_file else m)"
    and r: "env_fine demo_acl_env \<longrightarrow> r = None" by (elim exE conjE) (rule that)
  have r0: "r = None" using r demo_env_facts(1) by simp
  show ?thesis using C unfolding r0 option.case by (intro exI [of _ st']) (auto simp: Q r0 demo_acl_facts(2))
qed

end
