(* ===== verification/Acl_Init.thy ===== *)
theory Acl_Init
  imports Acl_Runs
begin

text \<open>What a new inode inherits from the default list of its directory.\<close>

section \<open>Masking a list with the mode\<close>

lemma S_bits: "S_IRWXO = mask 3" "S_IRWXG = push_bit 3 (mask 3)" "S_IRWXU = push_bit 6 (mask 3)" "S_IRWXUGO = mask 9"
  by (simp_all add: S_IRWXO_def S_IRWXG_def S_IRWXU_def S_IRWXUGO_def mask_eq_exp_minus_1)

lemma tag_neq [simp]: "ACL_USER_OBJ \<noteq> ACL_USER" "ACL_USER_OBJ \<noteq> ACL_GROUP" "ACL_USER_OBJ \<noteq> ACL_GROUP_OBJ" "ACL_USER_OBJ \<noteq> ACL_OTHER" "ACL_USER_OBJ \<noteq> ACL_MASK"
  "ACL_GROUP_OBJ \<noteq> ACL_USER_OBJ" "ACL_GROUP_OBJ \<noteq> ACL_USER" "ACL_GROUP_OBJ \<noteq> ACL_GROUP" "ACL_GROUP_OBJ \<noteq> ACL_OTHER" "ACL_GROUP_OBJ \<noteq> ACL_MASK"
  "ACL_OTHER \<noteq> ACL_USER_OBJ" "ACL_OTHER \<noteq> ACL_USER" "ACL_OTHER \<noteq> ACL_GROUP" "ACL_OTHER \<noteq> ACL_GROUP_OBJ" "ACL_OTHER \<noteq> ACL_MASK"
  "ACL_MASK \<noteq> ACL_USER_OBJ" "ACL_MASK \<noteq> ACL_USER" "ACL_MASK \<noteq> ACL_GROUP" "ACL_MASK \<noteq> ACL_GROUP_OBJ" "ACL_MASK \<noteq> ACL_OTHER"
  by (simp_all add: acl_tags)

text \<open>The permissions an entry of the owner or of the others keeps under a mode.\<close>

definition masq_entry :: "u16 \<Rightarrow> posix_acl_entry \<Rightarrow> posix_acl_entry" where
  "masq_entry mode e =
     (if e_tag e = ACL_USER_OBJ then e\<lparr>e_perm := e_perm e AND (drop_bit 6 mode OR NOT S_IRWXO)\<rparr>
      else if e_tag e = ACL_OTHER then e\<lparr>e_perm := e_perm e AND (mode OR NOT S_IRWXO)\<rparr> else e)"

fun last_place :: "u16 \<Rightarrow> posix_acl \<Rightarrow> nat \<Rightarrow> nat option \<Rightarrow> nat option" where
  "last_place t [] i p = p"
| "last_place t (e # es) i p = last_place t es (i + 1) (if e_tag e = t then Some i else p)"

text \<open>The mode after the loop: the owner and others classes are narrowed by the permissions of their entries.\<close>

fun masq_mode :: "posix_acl \<Rightarrow> u16 \<Rightarrow> u16" where
  "masq_mode [] mode = mode"
| "masq_mode (e # es) mode = masq_mode es
     (if e_tag e = ACL_USER_OBJ then mode AND (push_bit 6 (e_perm (masq_entry mode e)) OR NOT S_IRWXU)
      else if e_tag e = ACL_OTHER then mode AND (e_perm (masq_entry mode e) OR NOT S_IRWXO) else mode)"

lemma class_bits:
  fixes m p :: u16
  shows "drop_bit 6 (m AND (p OR NOT S_IRWXO)) OR NOT S_IRWXO = drop_bit 6 m OR NOT S_IRWXO"
    "(m AND (push_bit 6 p OR NOT S_IRWXU)) OR NOT S_IRWXO = m OR NOT S_IRWXO"
  unfolding S_bits by (rule bit_word_eqI; auto simp: bit_simps)+

lemma masq_loop_spec:
  assumes "\<forall>e \<in> set es. short_tag (e_tag e) \<or> long_tag (e_tag e)" "tag_count ACL_USER_OBJ es \<le> 1" "tag_count ACL_OTHER es \<le> 1"
  shows "masq_loop es i mode g k ne = Inr (map (masq_entry mode) es, masq_mode es mode, last_place ACL_GROUP_OBJ es i g, last_place ACL_MASK es i k,
    ne \<or> (\<exists>e \<in> set es. long_tag (e_tag e) \<or> e_tag e = ACL_MASK))"
  using assms
proof (induction es arbitrary: i mode g k ne)
  case (Cons e es)
  have ok: "\<forall>e \<in> set es. short_tag (e_tag e) \<or> long_tag (e_tag e)" "tag_count ACL_USER_OBJ es \<le> 1" "tag_count ACL_OTHER es \<le> 1"
    using Cons.prems by (auto simp: tag_count_def split: if_splits)
  note IH = Cons.IH [OF ok]
  have none: "e' \<in> set es \<Longrightarrow> e_tag e' \<noteq> t" if "tag_count t (e # es) \<le> 1" "e_tag e = t" for t e'
    using that by (auto simp: tag_count_def filter_empty_conv)
  consider "e_tag e = ACL_USER_OBJ" | "long_tag (e_tag e)" | "e_tag e = ACL_GROUP_OBJ" | "e_tag e = ACL_OTHER" | "e_tag e = ACL_MASK"
    using Cons.prems(1) by (auto simp: short_tag_def)
  then show ?case
  proof cases
    case 1
    define P where "P = e_perm e AND (drop_bit 6 mode OR NOT S_IRWXO)"
    have "masq_entry (mode AND (push_bit 6 P OR NOT S_IRWXU)) e' = masq_entry mode e'" if "e' \<in> set es" for e'
      using none [OF Cons.prems(2) 1 that] by (simp add: masq_entry_def class_bits(2))
    then have m: "map (masq_entry (mode AND (push_bit 6 P OR NOT S_IRWXU))) es = map (masq_entry mode) es" by simp
    have q: "e_perm (masq_entry mode e) = P" "masq_entry mode e = e\<lparr>e_perm := P\<rparr>" using 1 by (simp_all add: masq_entry_def P_def)
    show ?thesis using 1 unfolding masq_loop.simps Let_def P_def [symmetric] IH m by (simp add: q long_tag_def del: push_bit_and)
  next
    case 2
    then have t: "e_tag e = ACL_USER \<or> e_tag e = ACL_GROUP" "e_tag e \<noteq> ACL_USER_OBJ" "e_tag e \<noteq> ACL_OTHER" "e_tag e \<noteq> ACL_GROUP_OBJ" "e_tag e \<noteq> ACL_MASK" by (auto simp: long_tag_def acl_tags)
    show ?thesis using t 2 by (simp add: IH Let_def masq_entry_def)
  next
    case 3
    then show ?thesis by (simp add: IH Let_def masq_entry_def long_tag_def)
  next
    case 4
    define P where "P = e_perm e AND (mode OR NOT S_IRWXO)"
    have "masq_entry (mode AND (P OR NOT S_IRWXO)) e' = masq_entry mode e'" if "e' \<in> set es" for e'
      using none [OF Cons.prems(3) 4 that] by (simp add: masq_entry_def class_bits(1) del: drop_bit_and drop_bit_or)
    then have m: "map (masq_entry (mode AND (P OR NOT S_IRWXO))) es = map (masq_entry mode) es" by simp
    have q: "e_perm (masq_entry mode e) = P" "masq_entry mode e = e\<lparr>e_perm := P\<rparr>" using 4 by (simp_all add: masq_entry_def P_def)
    show ?thesis using 4 unfolding masq_loop.simps Let_def P_def [symmetric] IH m by (simp add: q long_tag_def)
  next
    case 5
    then show ?thesis by (simp add: IH Let_def masq_entry_def long_tag_def)
  qed
qed simp

lemma last_place_none: "tag_count t es = 0 \<Longrightarrow> last_place t es i p = p"
  by (induction es arbitrary: i p) (auto simp: tag_count_def split: if_splits)

lemma last_place_one:
  assumes "tag_count t es = 1"
  shows "\<exists>j < length es. last_place t es i p = Some (i + j) \<and> (\<forall>x < length es. e_tag (es ! x) = t \<longleftrightarrow> x = j)"
  using assms
proof (induction es arbitrary: i p)
  case (Cons e es)
  show ?case
  proof (cases "e_tag e = t")
    case True
    have z: "tag_count t es = 0" using Cons.prems True by (simp add: tag_count_def)
    have n: "e_tag (es ! x) \<noteq> t" if "x < length es" for x using z that by (auto simp: tag_count_def filter_empty_conv)
    have "e_tag ((e # es) ! x) = t \<longleftrightarrow> x = 0" if "x < length (e # es)" for x using that n True by (cases x) auto
    then show ?thesis using True last_place_none [OF z] by (intro exI [of _ 0]) simp
  next
    case False
    have "tag_count t es = 1" using Cons.prems False by (simp add: tag_count_def)
    then obtain j where j: "j < length es" "last_place t es (i + 1) p = Some (i + 1 + j)" "\<forall>x < length es. e_tag (es ! x) = t \<longleftrightarrow> x = j"
      using Cons.IH [of "i + 1" p] by blast
    have "e_tag ((e # es) ! x) = t \<longleftrightarrow> x = Suc j" if "x < length (e # es)" for x using that j(3) False by (cases x) auto
    then show ?thesis using j False by (intro exI [of _ "Suc j"]) simp
  qed
qed (simp add: tag_count_def)

lemma tag_unique:
  assumes "tag_count t acl = 1" "e \<in> set acl" "e' \<in> set acl" "e_tag e = t" "e_tag e' = t"
  shows "e = e'"
proof -
  obtain x where "filter (\<lambda>e. e_tag e = t) acl = [x]" using assms(1) by (auto simp: tag_count_def length_Suc_conv)
  then have "{e \<in> set acl. e_tag e = t} = {x}" by (metis list.set(1) list.set(2) set_filter)
  moreover have "e \<in> {e \<in> set acl. e_tag e = t}" "e' \<in> {e \<in> set acl. e_tag e = t}" using assms(2-5) by simp_all
  ultimately show ?thesis by simp
qed

lemma tag_all:
  assumes "tag_count t acl = 1" "e \<in> set acl" "e_tag e = t"
  shows "(\<forall>e' \<in> set acl. e_tag e' = t \<longrightarrow> P e') \<longleftrightarrow> P e"
  using tag_unique [OF assms(1,2) _ assms(3)] assms(2,3) by blast

lemma masq_mode_bits:
  "bit (masq_mode es mode) n \<longleftrightarrow> bit mode n \<and> (6 \<le> n \<and> n < 9 \<longrightarrow> (\<forall>e \<in> set es. e_tag e = ACL_USER_OBJ \<longrightarrow> bit (e_perm e) (n - 6))) \<and>
     (n < 3 \<longrightarrow> (\<forall>e \<in> set es. e_tag e = ACL_OTHER \<longrightarrow> bit (e_perm e) n))"
proof (induction es arbitrary: mode)
  case (Cons e es)
  have n: "bit mode n \<Longrightarrow> n < 16" using bit_imp_le_length by fastforce
  show ?case
    unfolding masq_mode.simps Cons.IH S_bits using n by (auto simp: masq_entry_def bit_simps S_bits)
qed simp

lemma perm_bits: "p \<le> (7 :: u16) \<Longrightarrow> bit p n \<Longrightarrow> n < 3"
proof -
  assume p: "p \<le> 7" "bit p n"
  then have "unat p < 8" by (simp add: word_le_nat_alt)
  then have "take_bit 3 (unat p) = unat p" by (intro take_bit_nat_eq_self) simp
  then have "unat (take_bit 3 p) = unat p" by (simp only: unsigned_take_bit_eq)
  then have "take_bit 3 p = p" by (simp only: word_unat_eq_iff)
  then show "n < 3" using p(2) by (metis bit_take_bit_iff)
qed

text \<open>The reference: every class of the mode narrows its entry, the group class being the mask or, without one, the group entry; the new mode says what is left.\<close>

definition class_tag :: "posix_acl \<Rightarrow> u16" where
  "class_tag acl = (if \<exists>e \<in> set acl. e_tag e = ACL_MASK then ACL_MASK else ACL_GROUP_OBJ)"

definition masked :: "posix_acl \<Rightarrow> u16 \<Rightarrow> posix_acl_entry \<Rightarrow> posix_acl_entry" where
  "masked acl mode e =
     (if e_tag e = ACL_USER_OBJ then e\<lparr>e_perm := e_perm e AND drop_bit 6 mode\<rparr>
      else if e_tag e = class_tag acl then e\<lparr>e_perm := e_perm e AND drop_bit 3 mode\<rparr>
      else if e_tag e = ACL_OTHER then e\<lparr>e_perm := e_perm e AND mode\<rparr> else e)"

lemma perm_and: "p \<le> (7 :: u16) \<Longrightarrow> p AND (x OR NOT S_IRWXO) = p AND x"
  unfolding S_bits by (rule bit_word_eqI) (auto simp: bit_simps dest: perm_bits)

text \<open>The mode says what the masked list says.\<close>

definition acl_says :: "posix_acl \<Rightarrow> u16 \<Rightarrow> u16 \<Rightarrow> bool" where
  "acl_says p mode mode' \<longleftrightarrow> mode' AND NOT S_IRWXUGO = mode AND NOT S_IRWXUGO \<and>
    (\<forall>e \<in> set p. (e_tag e = ACL_USER_OBJ \<longrightarrow> take_bit 3 (drop_bit 6 mode') = e_perm (masked p mode e)) \<and>
       (e_tag e = class_tag p \<longrightarrow> take_bit 3 (drop_bit 3 mode') = e_perm (masked p mode e)) \<and>
       (e_tag e = ACL_OTHER \<longrightarrow> take_bit 3 mode' = e_perm (masked p mode e)))"

theorem f2fs_acl_create_masq_exact:
  assumes "acl_valid acl"
  shows "\<exists>mode'. f2fs_acl_create_masq acl mode = Inr (\<exists>e \<in> set acl. long_tag (e_tag e) \<or> e_tag e = ACL_MASK, map (masked acl mode) acl, mode') \<and> acl_says acl mode mode'"
proof -
  have a: "\<forall>e \<in> set acl. short_tag (e_tag e) \<or> long_tag (e_tag e)" and p7: "\<And>e. e \<in> set acl \<Longrightarrow> e_perm e \<le> 7"
    and c: "tag_count ACL_USER_OBJ acl = 1" "tag_count ACL_GROUP_OBJ acl = 1" "tag_count ACL_OTHER acl = 1" "tag_count ACL_MASK acl \<le> 1"
    using assms by (auto simp: acl_valid_def)
  let ?l = "map (masq_entry mode) acl" and ?m = "masq_mode acl mode"
  note L = masq_loop_spec [OF a, of 0 mode None None False] 
  have cls: "tag_count (class_tag acl) acl = 1"
  proof (cases "\<exists>e \<in> set acl. e_tag e = ACL_MASK")
    case True
    then have "tag_count ACL_MASK acl \<noteq> 0" by (auto simp: tag_count_def filter_empty_conv)
    then show ?thesis using c(4) True by (simp add: class_tag_def)
  qed (use c(2) in \<open>simp add: class_tag_def\<close>)
  obtain j where j: "j < length acl" "last_place (class_tag acl) acl 0 None = Some j" "\<And>x. x < length acl \<Longrightarrow> e_tag (acl ! x) = class_tag acl \<longleftrightarrow> x = j"
    using last_place_one [OF cls, of 0 None] by auto
  define perm where "perm = e_perm (?l ! j) AND (drop_bit 3 ?m OR NOT S_IRWXO)"
  define mode' where "mode' = (mode AND NOT S_IRWXUGO) OR (?m AND (push_bit 3 perm OR NOT S_IRWXG))"
  have tj: "e_tag (acl ! j) = class_tag acl" using j(1,3) by simp
  have ct: "class_tag acl \<noteq> ACL_USER_OBJ" "class_tag acl \<noteq> ACL_OTHER" by (simp_all add: class_tag_def)
  have pj: "?l ! j = acl ! j" using j(1) tj ct by (simp add: masq_entry_def)
  have run: "f2fs_acl_create_masq acl mode = Inr (\<exists>e \<in> set acl. long_tag (e_tag e) \<or> e_tag e = ACL_MASK, ?l[j := (?l ! j)\<lparr>e_perm := perm\<rparr>], mode')"
  proof (cases "\<exists>e \<in> set acl. e_tag e = ACL_MASK")
    case True
    then show ?thesis using L c j(2) unfolding f2fs_acl_create_masq_def Let_def perm_def mode'_def by (simp add: class_tag_def)
  next
    case False
    then have z: "tag_count ACL_MASK acl = 0" by (auto simp: tag_count_def filter_empty_conv)
    show ?thesis using L c j(2) False last_place_none [OF z] unfolding f2fs_acl_create_masq_def Let_def perm_def mode'_def by (simp add: class_tag_def)
  qed
  have low: "drop_bit 3 ?m OR NOT S_IRWXO = drop_bit 3 mode OR NOT S_IRWXO"
    unfolding S_bits by (rule bit_word_eqI) (auto simp: bit_simps masq_mode_bits)
  have perm: "perm = e_perm (acl ! j) AND drop_bit 3 mode"
    unfolding perm_def low pj using p7 j(1) by (simp add: perm_and)
  have acl': "?l[j := (?l ! j)\<lparr>e_perm := perm\<rparr>] = map (masked acl mode) acl"
  proof (rule nth_equalityI)
    fix x assume "x < length (?l[j := (?l ! j)\<lparr>e_perm := perm\<rparr>])"
    then have x: "x < length acl" by simp
    then have "e_perm (acl ! x) \<le> 7" using p7 by simp
    note pa = perm_and [OF this]
    show "?l[j := (?l ! j)\<lparr>e_perm := perm\<rparr>] ! x = map (masked acl mode) acl ! x"
    proof (cases "x = j")
      case True
      then show ?thesis using x tj ct pj perm by (simp add: masked_def)
    next
      case False
      then show ?thesis using x j(3) [OF x] pa by (simp add: masked_def masq_entry_def)
    qed
  qed simp
  have mb: "bit mode' n \<longleftrightarrow> (if n < 9 then bit ?m n \<and> (3 \<le> n \<and> n < 6 \<longrightarrow> bit perm (n - 3)) else bit mode n)" for n
    using bit_imp_le_length [of mode n] unfolding mode'_def S_bits by (auto simp: bit_simps masq_mode_bits)
  have high: "mode' AND NOT S_IRWXUGO = mode AND NOT S_IRWXUGO"
    unfolding S_bits by (rule bit_word_eqI) (auto simp: bit_simps mb)
  have cl: "take_bit 3 (drop_bit 6 mode') = e_perm (masked acl mode e)" if e: "e \<in> set acl" "e_tag e = ACL_USER_OBJ" for e
  proof -
    have "bit ?m n \<longleftrightarrow> bit mode n \<and> bit (e_perm e) (n - 6)" if "6 \<le> n" "n < 9" for n
      using that unfolding masq_mode_bits tag_all [OF c(1) e] by simp
    then show ?thesis using e p7 [OF e(1)] by (intro bit_word_eqI) (auto simp: masked_def bit_simps mb dest: perm_bits)
  qed
  have cg: "take_bit 3 (drop_bit 3 mode') = e_perm (masked acl mode e)" if e: "e \<in> set acl" "e_tag e = class_tag acl" for e
  proof -
    have ej: "e = acl ! j" using tag_unique [OF cls e(1) _ e(2) tj] j(1) by simp
    have "bit ?m n \<longleftrightarrow> bit mode n" if "3 \<le> n" "n < 6" for n using that by (auto simp: masq_mode_bits)
    then show ?thesis using ct tj p7 [OF e(1)] unfolding ej by (intro bit_word_eqI) (auto simp: masked_def bit_simps mb perm dest: perm_bits)
  qed
  have co: "take_bit 3 mode' = e_perm (masked acl mode e)" if e: "e \<in> set acl" "e_tag e = ACL_OTHER" for e
  proof -
    have "bit ?m n \<longleftrightarrow> bit mode n \<and> bit (e_perm e) n" if "n < 3" for n
      using that unfolding masq_mode_bits tag_all [OF c(3) e] by simp
    then show ?thesis using e ct p7 [OF e(1)] by (intro bit_word_eqI) (auto simp: masked_def bit_simps mb dest: perm_bits)
  qed
  have run': "f2fs_acl_create_masq acl mode = Inr (\<exists>e \<in> set acl. long_tag (e_tag e) \<or> e_tag e = ACL_MASK, map (masked acl mode) acl, mode')"
    using run acl' by argo
  have all: "\<forall>e \<in> set acl. (e_tag e = ACL_USER_OBJ \<longrightarrow> take_bit 3 (drop_bit 6 mode') = e_perm (masked acl mode e)) \<and>
       (e_tag e = class_tag acl \<longrightarrow> take_bit 3 (drop_bit 3 mode') = e_perm (masked acl mode e)) \<and>
       (e_tag e = ACL_OTHER \<longrightarrow> take_bit 3 mode' = e_perm (masked acl mode e))"
    by (intro ballI conjI impI) (erule (1) cl, erule (1) cg, erule (1) co)
  show ?thesis by (rule exI [of _ mode'], rule conjI [OF run'], unfold acl_says_def, rule conjI [OF high all])
qed

section \<open>Inheriting\<close>

lemma tag_count_map: "(\<And>e. e_tag (f e) = e_tag e) \<Longrightarrow> tag_count t (map f acl) = tag_count t acl"
  by (induction acl) (auto simp: tag_count_def)

lemma acl_valid_map:
  assumes "acl_valid acl" "\<And>e. e_tag (f e) = e_tag e" "\<And>e. e_perm (f e) \<le> e_perm e"
  shows "acl_valid (map f acl)"
proof -
  have "e_perm (f e) \<le> 7" if "e_perm e \<le> 7" for e using assms(3) that by (rule order_trans)
  then show ?thesis using assms(1,2) by (simp add: acl_valid_def tag_count_map)
qed

lemma masked_keeps: "e_tag (masked acl mode e) = e_tag e" "e_perm (masked acl mode e) \<le> e_perm e"
proof -
  have "(p :: u16) AND x \<le> p" for p x by (simp add: word_and_le2)
  then show "e_perm (masked acl mode e) \<le> e_perm e" by (simp add: masked_def)
qed (simp add: masked_def)

lemma norm_entry_fields [simp]: "e_tag (norm_entry e) = e_tag e" "e_perm (norm_entry e) = e_perm e"
  by (simp_all add: norm_entry_def)

lemma norm_entry_masked: "norm_entry (masked acl m (norm_entry e)) = masked acl m (norm_entry e)"
proof -
  have same: "norm_entry x = x" if "long_tag (e_tag x) \<or> e_id x = 0" for x using that by (auto simp: norm_entry_def)
  have "e_id (masked acl m x) = e_id x" for x by (simp add: masked_def)
  then have "long_tag (e_tag (masked acl m (norm_entry e))) \<or> e_id (masked acl m (norm_entry e)) = 0" by (simp add: masked_keeps norm_entry_def)
  then show ?thesis by (rule same)
qed

lemma acl_norm_valid: "acl_valid acl \<Longrightarrow> acl_valid (acl_norm acl)"
  unfolding acl_norm_def by (rule acl_valid_map) simp_all

lemma norm_all: "(\<forall>e \<in> set (acl_norm acl). Q e) \<longleftrightarrow> (\<forall>e \<in> set acl. Q (norm_entry e))" "(\<exists>e \<in> set (acl_norm acl). Q e) \<longleftrightarrow> (\<exists>e \<in> set acl. Q (norm_entry e))"
  by (simp_all add: acl_norm_def)

lemma acl_norm_facts: "acl_norm (map (masked acl m) (acl_norm acl)) = map (masked acl m) (acl_norm acl)" "class_tag (acl_norm acl) = class_tag acl"
  "(\<exists>e \<in> set (acl_norm acl). long_tag (e_tag e) \<or> e_tag e = ACL_MASK) = (\<exists>e \<in> set acl. long_tag (e_tag e) \<or> e_tag e = ACL_MASK)"
  "acl_norm (acl_norm acl) = acl_norm acl"
  unfolding class_tag_def norm_all norm_entry_fields by (simp_all add: acl_norm_def norm_entry_masked) (simp add: norm_entry_def)

lemma masked_norm: "masked (acl_norm acl) m = masked acl m"
  by (simp add: masked_def acl_norm_facts(2) fun_eq_iff)

lemma outcome_acl: "set_outcome room i [] v False False es = None \<or> set_outcome room i [] v False False es = Some E2BIG"
  by (simp add: set_outcome_def Let_def F2FS_NAME_LEN_def)

lemma isdir_perm: "mode' AND NOT S_IRWXUGO = mode AND NOT S_IRWXUGO \<Longrightarrow> S_ISDIR mode' = S_ISDIR mode"
proof -
  assume h: "mode' AND NOT S_IRWXUGO = mode AND NOT S_IRWXUGO"
  have "m AND 0xF000 = (m AND NOT S_IRWXUGO) AND 0xF000" for m :: u16
    unfolding and.assoc by (rule arg_cong [of _ _ "(AND) m"]) (simp add: S_IRWXUGO_def)
  then show ?thesis unfolding S_ISDIR_def using h by metis
qed

lemma says_norm: "acl_says (acl_norm p) mode mode' = acl_says p mode mode'"
proof -
  have g: "e_perm (masked p mode (norm_entry e)) = e_perm (masked p mode e)" for e by (simp add: masked_def)
  show ?thesis unfolding acl_says_def acl_norm_facts(2) masked_norm norm_all norm_entry_fields g ..
qed

lemma create_from_default:
  assumes D: "acl_ready dir es" "env_fine env" "acl_attr es ACL_TYPE_DEFAULT = Some (acl_bytes p)" "acl_valid p" and m: "\<not> S_ISLNK mode"
  shows "\<exists>mode'. f2fs_acl_create env True False umask dir mode = Some (Inr (mode', if S_ISDIR mode then Some (acl_norm p) else None,
      if \<exists>e \<in> set p. long_tag (e_tag e) \<or> e_tag e = ACL_MASK then Some (map (masked p mode) (acl_norm p)) else None)) \<and> acl_says p mode mode'"
proof -
  have g: "get_acl_page env ACL_TYPE_DEFAULT dir = Some (Inr (Some (acl_norm p)))"
    using acl_norm_valid_get [OF D(1,2), of ACL_TYPE_DEFAULT "Some p"] D(3,4) by (simp add: f2fs_get_acl_def)
  obtain mode' where M: "f2fs_acl_create_masq (acl_norm p) mode = Inr (\<exists>e \<in> set p. long_tag (e_tag e) \<or> e_tag e = ACL_MASK, map (masked p mode) (acl_norm p), mode')"
    "acl_says (acl_norm p) mode mode'"
    using f2fs_acl_create_masq_exact [OF acl_norm_valid [OF D(4)], of mode] unfolding acl_norm_facts(3) masked_norm by (elim exE conjE) (rule that)
  have s: "acl_says p mode mode'" using M(2) unfolding says_norm .
  have d: "S_ISDIR mode' = S_ISDIR mode" by (rule isdir_perm) (rule conjunct1 [OF s [unfolded acl_says_def]])
  have c: "\<not> (S_ISLNK mode \<or> \<not> True)" using m by simp
  have "f2fs_acl_create env True False umask dir mode = Some (Inr (mode', if S_ISDIR mode then Some (acl_norm p) else None,
      if \<exists>e \<in> set p. long_tag (e_tag e) \<or> e_tag e = ACL_MASK then Some (map (masked p mode) (acl_norm p)) else None))"
    unfolding f2fs_acl_create_def if_not_P [OF c] g f2fs_acl_clone_def option.case sum.case if_False M(1) prod.case d ..
  then show ?thesis using s by (intro exI [of _ mode'] conjI)
qed

text \<open>
  Property C35. Inheriting works. A new inode in a directory with a valid default list gets, when \<^verbatim>\<open>f2fs_init_acl\<close> succeeds, an access list masked with the requested mode, unless the list says no more than a
  mode, and, if it is a directory, the default list itself; in any case the mode says what the masked list says, so that no permission that was not asked for is given. The call never
  reads outside a value, and when nothing fails it fails only for lack of room.
\<close>

theorem f2fs_init_acl_inherits:
  assumes D: "acl_ready dir es" "env_fine env" "acl_attr es ACL_TYPE_DEFAULT = Some (acl_bytes p)" "acl_valid p"
    and st: "acl_ready st []" "ai_acl_mode st = None" "\<not> S_ISLNK (ai_mode st)"
    and mem: "mem_ok env_d" "mem_ok env_a" and env': "env_fine env'"
  shows "\<exists>r st'. f2fs_init_acl env env_d env_a True False umask dir st = Some (r, st') \<and> acl_says p (ai_mode st) (ai_mode st') \<and>
    (r = None \<longrightarrow> f2fs_get_acl env' ACL_TYPE_DEFAULT st' = Some (Inr (if S_ISDIR (ai_mode st) then Some (acl_norm p) else None)) \<and>
       f2fs_get_acl env' ACL_TYPE_ACCESS st' = Some (Inr (if \<exists>e \<in> set p. long_tag (e_tag e) \<or> e_tag e = ACL_MASK then Some (map (masked p (ai_mode st)) (acl_norm p)) else None))) \<and>
    (env_fine env_d \<and> env_fine env_a \<longrightarrow> r = None \<or> r = Some E2BIG)"
proof -
  let ?mode = "ai_mode st" let ?ext = "\<exists>e \<in> set p. long_tag (e_tag e) \<or> e_tag e = ACL_MASK" let ?acl = "map (masked p ?mode) (acl_norm p)"
  obtain mode' where C: "f2fs_acl_create env True False umask dir ?mode = Some (Inr (mode', if S_ISDIR ?mode then Some (acl_norm p) else None, if ?ext then Some ?acl else None))"
    and says: "acl_says p ?mode mode'" using create_from_default [OF D st(3), of umask] by blast
  have dir': "S_ISDIR mode' = S_ISDIR ?mode" by (rule isdir_perm) (rule conjunct1 [OF says [unfolded acl_says_def]])
  define s0 where "s0 = st\<lparr>ai_xattrs := (ai_xattrs st)\<lparr>xi_mode := mode', xi_dirty := True\<rparr>\<rparr>"
  have m0: "ai_mode s0 = mode'" "ai_acl_mode s0 = None" using st(2) by (simp_all add: s0_def)
  have r0: "acl_ready s0 []" using st(1) has_xattrs_cong [of "ai_xattrs st" "[]" "ai_xattrs s0"] by (simp add: acl_ready_def s0_def)
  have vn: "acl_valid (acl_norm p)" by (rule acl_norm_valid [OF D(4)])
  have va: "acl_valid ?acl" by (rule acl_valid_map [OF vn masked_keeps])
  have e0: "attrs [] = Map.empty" by (simp add: attrs_def fun_eq_iff)
  text \<open>One list more.\<close>
  have add: "\<exists>r st'. store_acl e type (Some a) s = Some (r, st') \<and> ai_mode st' = ai_mode s \<and> ai_acl_mode st' = None \<and>
      (r = None \<longrightarrow> (\<exists>es'. acl_ready st' es' \<and> attrs es' = (attrs es1)((acl_name_index type, []) \<mapsto> acl_bytes a))) \<and> (env_fine e \<longrightarrow> r = None \<or> r = Some E2BIG)"
    if "acl_ready s es1" "mem_ok e" "acl_valid a" "ai_acl_mode s = None" for e type a s es1
  proof -
    note h = that
    have v: "\<And>b. Some a = Some b \<Longrightarrow> acl_valid b" using h(3) by simp
    obtain r st' where S: "store_acl e type (Some a) s = Some (r, st')" "ai_acl_mode st' = None"
      "r \<noteq> None \<longrightarrow> ai_xattrs st' = (ai_xattrs s)\<lparr>xi_acl_mode := None\<rparr>"
      "r = None \<longrightarrow> (\<exists>es'. acl_ready st' es' \<and> attrs es' = (attrs es1)((acl_name_index type, []) := map_option acl_bytes (Some a)))"
      "r = None \<longrightarrow> ai_mode st' = (if Some a \<noteq> None \<and> acl_attr es1 type = map_option acl_bytes (Some a) then ai_mode s else case ai_acl_mode s of None \<Rightarrow> ai_mode s | Some m \<Rightarrow> m)"
      "env_fine e \<longrightarrow> r = set_outcome (MIN_OFFSET (ai_xattrs s)) (acl_name_index type) [] (map_option acl_bytes (Some a)) False False es1"
      using store_acl_ok [OF h(1,2) v, where type = type] by blast
    have "ai_mode st' = ai_mode s" using S(3,5) h(4) by (cases r) simp_all
    moreover have "env_fine e \<longrightarrow> r = None \<or> r = Some E2BIG" using S(6) outcome_acl by metis
    ultimately show ?thesis using S(1,2,4) by (intro exI [of _ r] exI [of _ st'] conjI) simp_all
  qed
  text \<open>The default list, then the access list.\<close>
  obtain r1 s1 where S1: "(case (if S_ISDIR ?mode then Some (acl_norm p) else None) of None \<Rightarrow> Some (None, s0) | Some a \<Rightarrow> set_acl_page env_d (\<lambda>m a. Inr (m, Some a)) True ACL_TYPE_DEFAULT (Some a) s0) = Some (r1, s1)"
    "ai_mode s1 = mode'" "ai_acl_mode s1 = None" "env_fine env_d \<longrightarrow> r1 = None \<or> r1 = Some E2BIG"
    "r1 = None \<longrightarrow> (\<exists>es1. acl_ready s1 es1 \<and> attrs es1 = (if S_ISDIR ?mode then [(acl_name_index ACL_TYPE_DEFAULT, []) \<mapsto> acl_bytes (acl_norm p)] else Map.empty))"
  proof (cases "S_ISDIR ?mode")
    case True
    then have "set_acl_page env_d (\<lambda>m a. Inr (m, Some a)) True ACL_TYPE_DEFAULT (Some (acl_norm p)) s0 = store_acl env_d ACL_TYPE_DEFAULT (Some (acl_norm p)) s0"
      using m0(1) dir' by (simp add: set_acl_page_def)
    then show ?thesis using that add [OF r0 mem(1) vn m0(2), of ACL_TYPE_DEFAULT] True m0(1) unfolding e0 by auto
  next
    case False
    then show ?thesis using r0 m0 e0 by (intro that [of None s0]) auto
  qed
  have run: "f2fs_init_acl env env_d env_a True False umask dir st = (case (if ?ext then Some ?acl else None) of None \<Rightarrow> Some (r1, s1)
      | Some a \<Rightarrow> if r1 \<noteq> None then Some (r1, s1) else store_acl env_a ACL_TYPE_ACCESS (Some a) s1)"
    unfolding f2fs_init_acl_def C option.case sum.case prod.case Let_def s0_def [symmetric] S1(1) by (simp add: set_acl_page_def)
  show ?thesis
  proof (cases "?ext \<and> r1 = None")
    case True
    then obtain es1 where E1: "acl_ready s1 es1" "attrs es1 = (if S_ISDIR ?mode then [(acl_name_index ACL_TYPE_DEFAULT, []) \<mapsto> acl_bytes (acl_norm p)] else Map.empty)" using S1(5) by blast
    obtain r2 s2 where S2: "store_acl env_a ACL_TYPE_ACCESS (Some ?acl) s1 = Some (r2, s2)" "ai_mode s2 = ai_mode s1"
      "r2 = None \<longrightarrow> (\<exists>es'. acl_ready s2 es' \<and> attrs es' = (attrs es1)((acl_name_index ACL_TYPE_ACCESS, []) \<mapsto> acl_bytes ?acl))" "env_fine env_a \<longrightarrow> r2 = None \<or> r2 = Some E2BIG"
      using add [OF E1(1) mem(2) va S1(3), of ACL_TYPE_ACCESS] by blast
    have "f2fs_get_acl env' ACL_TYPE_DEFAULT s2 = Some (Inr (if S_ISDIR ?mode then Some (acl_norm p) else None)) \<and> f2fs_get_acl env' ACL_TYPE_ACCESS s2 = Some (Inr (Some ?acl))" if r: "r2 = None"
    proof -
      obtain es2 where E2: "acl_ready s2 es2" "attrs es2 = (attrs es1)((acl_name_index ACL_TYPE_ACCESS, []) \<mapsto> acl_bytes ?acl)" using S2(3) r by blast
      have d: "acl_attr es2 ACL_TYPE_DEFAULT = map_option acl_bytes (if S_ISDIR ?mode then Some (acl_norm p) else None)"
        unfolding E2(2) E1(2) by (simp add: F2FS_XATTR_INDEX_POSIX_ACL_ACCESS_def F2FS_XATTR_INDEX_POSIX_ACL_DEFAULT_def)
      have a: "acl_attr es2 ACL_TYPE_ACCESS = map_option acl_bytes (Some ?acl)" unfolding E2(2) by simp
      have "f2fs_get_acl env' ACL_TYPE_DEFAULT s2 = Some (Inr (map_option acl_norm (if S_ISDIR ?mode then Some (acl_norm p) else None)))"
        by (rule acl_norm_valid_get [OF E2(1) env' d]) (use vn in \<open>auto split: if_splits\<close>)
      moreover have "f2fs_get_acl env' ACL_TYPE_ACCESS s2 = Some (Inr (map_option acl_norm (Some ?acl)))"
        by (rule acl_norm_valid_get [OF E2(1) env' a]) (use va in simp)
      ultimately show ?thesis by (simp add: acl_norm_facts(1,4))
    qed
    then show ?thesis using True run S2(1,2,4) S1(2) says by (intro exI [of _ r2] exI [of _ s2]) simp
  next
    case False
    have "f2fs_get_acl env' ACL_TYPE_DEFAULT s1 = Some (Inr (if S_ISDIR ?mode then Some (acl_norm p) else None)) \<and> f2fs_get_acl env' ACL_TYPE_ACCESS s1 = Some (Inr None) \<and> \<not> ?ext" if r: "r1 = None"
    proof -
      obtain es1 where E1: "acl_ready s1 es1" "attrs es1 = (if S_ISDIR ?mode then [(acl_name_index ACL_TYPE_DEFAULT, []) \<mapsto> acl_bytes (acl_norm p)] else Map.empty)" using S1(5) r by blast
      have d: "acl_attr es1 ACL_TYPE_DEFAULT = map_option acl_bytes (if S_ISDIR ?mode then Some (acl_norm p) else None)" unfolding E1(2) by simp
      have a: "acl_attr es1 ACL_TYPE_ACCESS = map_option acl_bytes None" unfolding E1(2) by (simp add: F2FS_XATTR_INDEX_POSIX_ACL_ACCESS_def F2FS_XATTR_INDEX_POSIX_ACL_DEFAULT_def)
      have "f2fs_get_acl env' ACL_TYPE_DEFAULT s1 = Some (Inr (map_option acl_norm (if S_ISDIR ?mode then Some (acl_norm p) else None)))"
        by (rule acl_norm_valid_get [OF E1(1) env' d]) (use vn in \<open>auto split: if_splits\<close>)
      moreover have "f2fs_get_acl env' ACL_TYPE_ACCESS s1 = Some (Inr (map_option acl_norm None))"
        by (rule acl_norm_valid_get [OF E1(1) env' a]) simp
      ultimately show ?thesis using False r by (simp add: acl_norm_facts(4))
    qed
    moreover have "f2fs_init_acl env env_d env_a True False umask dir st = Some (r1, s1)" using run False by auto
    ultimately show ?thesis using S1(2,4) says by (intro exI [of _ r1] exI [of _ s1]) simp
  qed
qed

section \<open>An example\<close>

text \<open>The same directory entry for a new file: others may read, and no more.\<close>

lemma demo_dir: "\<exists>dir. acl_ready dir [(acl_name_index ACL_TYPE_DEFAULT, [], acl_bytes demo_acl)]"
proof -
  let ?i = "acl_name_index ACL_TYPE_DEFAULT"
  have H: "has_xattrs (ai_xattrs setgid_file) []" using setgid_ready(1) by (simp add: acl_ready_def)
  obtain st' where s: "becomes (ai_xattrs setgid_file) st' (put_attr ?i [] (Some (acl_bytes demo_acl)) [])"
    using f2fs_setxattr_cases [OF H acl_index(1,2) [of ACL_TYPE_DEFAULT], of io_good "[99]" "[]" "Some (acl_bytes demo_acl)" False False] demo_outcome by (auto simp: io_fine_def io_good_def)
  have "length (xi_inline (ai_xattrs setgid_file)) = 200" by (simp add: setgid_file_def new_xattr_inode_def)
  then have "acl_ready \<lparr>ai_xattrs = st', ai_cached = (\<lambda>_. None)\<rparr> [(?i, [], acl_bytes demo_acl)]" using s by (simp add: acl_ready_def put_attr_def)
  then show ?thesis by blast
qed

theorem f2fs_init_acl_inherits_witness:
  "\<exists>dir r st'. f2fs_init_acl demo_acl_env demo_acl_env demo_acl_env True False 0x12 dir setgid_file = Some (r, st') \<and> take_bit 3 (ai_mode st') = 4"
proof -
  obtain dir where d: "acl_ready dir [(acl_name_index ACL_TYPE_DEFAULT, [], acl_bytes demo_acl)]" using demo_dir by blast
  have a: "acl_attr [(acl_name_index ACL_TYPE_DEFAULT, [], acl_bytes demo_acl)] ACL_TYPE_DEFAULT = Some (acl_bytes demo_acl)" by (simp add: attrs_def xkey_def xval_def)
  have l: "\<not> S_ISLNK (ai_mode setgid_file)" by (simp add: S_ISLNK_def setgid_ready(3))
  from f2fs_init_acl_inherits [OF d demo_env_facts(1) a demo_acl_facts(1) setgid_ready(1,2) l demo_env_facts(2,2,1)]
  obtain r st' where R: "f2fs_init_acl demo_acl_env demo_acl_env demo_acl_env True False 0x12 dir setgid_file = Some (r, st')" "acl_says demo_acl 0x85FC (ai_mode st')"
    unfolding setgid_ready(3) by blast
  have "take_bit 3 (ai_mode st') = 4" using R(2) by (simp add: acl_says_def demo_acl_def masked_def class_tag_def)
  then show ?thesis using R(1) by blast
qed

end
