(* ===== verification/Spec2Isabelle.thy ===== *)
theory Spec2Isabelle
  imports F2fs_Prelude Hash Node_Tree Extent_Cache Log_Runs Sit_Mount Space_Counts Nat_Runs Dir_Runs Cp_Crash File_Trunc Acl_Init
begin

text \<open>
  Verification of the f2fs kernel file system (the sources under \<^verbatim>\<open>src/\<close>, a Linux 4.16 \<^verbatim>\<open>fs/f2fs\<close>).

  \<^bold>\<open>The program.\<close> f2fs is a log-structured file system. The main area of the device is divided into segments of 512 blocks, sections and zones; six logs (the current segments)
  write data and node blocks one after the other. Three tables describe the main area: the segment information table (SIT) says which blocks of a segment are valid, the node address table
  (NAT) where each node block is, the summary area which node owns a block. A NAT or SIT block has two places that are written in turn, and small changes go to journals in the summary blocks. A
  checkpoint writes one of two packs; until its last block is on the medium the previous one counts, with everything it refers to. Files are trees of node blocks with an inode at the root; directories
  are hash tables of entry blocks; attributes and access control lists lie in the inode and one node block. The theories follow this from the bottom up: bits and bytes, the
  segment manager, the node manager, files, directories, attributes, and the checkpoint that ties the first two together.

  \<^bold>\<open>How the code is modelled.\<close> Every function of C is a HOL function with the name it has in the source (a suffix or another name where HOL has one already), a structure is a record, on-disk structures
  are records of machine words or, where a checksum or an offset matters, lists of bytes. Machine integers are words where they wrap or are stored and natural or integer numbers where the
  theory's introduction says that no value comes near the limit. State is passed explicitly. A negative error return is \<open>Inl\<close> of the error (\<open>errno\<close>), an \<open>ERR_PTR\<close> likewise; a failed \<^verbatim>\<open>f2fs_bug_on\<close> or
  a NULL dereference is part of the result; a read outside an array is \<open>None\<close>. Calls into the rest of the kernel that may fail (reading a page, allocating memory, reserving quota, submitting a
  request) are arguments of the functions, so that a statement that leaves them open holds however they fail; the checksum and \<^verbatim>\<open>posix_acl_update_mode\<close> are arguments too. Operations are
  atomic, as they are under the locks of the code; where the code drops its locks in between, histories of operations by several tasks are relations or runs (\<open>seg_run\<close>, \<open>nat_run\<close>, \<open>dir_run\<close>).

  \<^bold>\<open>Loops.\<close> There is no fuel: a loop is structural or has its termination proved by a measure, so that it is total. Four loops with no bound of their own in the code are partial functions, where
  not returning is \<open>None\<close>, and the theorems about them state that they return: the search for a victim (\<open>vic_search\<close>), the update of an extent tree (\<open>ext_update_loop\<close>), the search for room in
  a directory (\<open>add_loop\<close>) and the retry of \<^verbatim>\<open>alloc_nid\<close>.

  \<^bold>\<open>Bits and bytes.\<close>
  \<^item> \<open>F2fs_Prelude\<close>: word types, errors, byte order, guarded array access, the lemma collections the other theories use. \<open>Byte_Block\<close>: structures in byte arrays.
  \<^item> \<open>Bitmap\<close> (\<^verbatim>\<open>f2fs.h\<close>): bitmaps with the most significant bit first and last; the interface \<open>bit_array\<close> proves once how setting and clearing bits changes counts. \<open>Rev_Bits\<close> (\<^verbatim>\<open>segment.c\<close>): the
    word-wise searches in the first kind equal the bit-wise ones.
  \<^item> \<open>Hash\<close> (\<^verbatim>\<open>hash.c\<close>): the TEA hash of a name and its packing into words.
  \<^item> \<open>Rb_Tree\<close> (\<^verbatim>\<open>extent_cache.c\<close>): the searches of interval trees, for every tree shape, equal the search of the in-order list. Rebalancing is the rbtree library of the kernel.

  \<^bold>\<open>The segment manager\<close> (\<^verbatim>\<open>segment.c\<close>, \<^verbatim>\<open>segment.h\<close>, \<^verbatim>\<open>gc.c\<close>, \<^verbatim>\<open>gc.h\<close>).
  \<^item> \<open>Free_Segmap\<close>: free segments and sections, the choice of a new segment. \<open>Sit\<close>: segment entries, whose counters always equal their bitmaps. \<open>Dirty_Seglist\<close>: the lists of dirty and prefree
    segments. \<open>Victim\<close>: \<^verbatim>\<open>get_victim_by_default\<close> with its cost functions, and the sleep times of the cleaner; it ends, and the victim may be cleaned or written into.
  \<^item> \<open>Curseg\<close>: the logs, choosing one for a page, opening, recycling and closing segments, \<^verbatim>\<open>allocate_data_block\<close>, \<^verbatim>\<open>invalidate_blocks\<close>. \<open>Log_Runs\<close>: the invariant \<open>seg_inv\<close> of the whole manager through single
    operations and runs; a run never writes over a block of the last checkpoint, which is what makes crash recovery possible.
  \<^item> \<open>Two_Copies\<close>: the two places of a table block; the interface \<open>two_copies\<close> has an interpretation for the NAT and one for the SIT. \<open>Journal\<close>: the journals in the summaries, with the interface
    \<open>small_table\<close>, interpreted for both kinds.
  \<^item> \<open>Sit_Flush\<close>: \<^verbatim>\<open>flush_sit_entries\<close> makes what a mount reads equal to the table in memory and keeps the copies of the last checkpoint. \<open>Sit_Mount\<close>: \<^verbatim>\<open>build_sit_entries\<close> reads the table back,
    with the check of an entry exactly right, also its part for \<^verbatim>\<open>CONFIG_F2FS_CHECK_FS\<close>; the free map and the dirty lists built from it; the release of prefree segments.
  \<^item> \<open>Space_Counts\<close> (\<^verbatim>\<open>f2fs.h\<close>, \<^verbatim>\<open>super.c\<close>, \<^verbatim>\<open>sysfs.c\<close>): valid blocks and nodes, reservations and \<^verbatim>\<open>f2fs_statfs\<close>.

  \<^bold>\<open>The node manager\<close> (\<^verbatim>\<open>node.c\<close>, \<^verbatim>\<open>node.h\<close>).
  \<^item> \<open>Nat_Cache\<close>: the cached entries and their lists, \<^verbatim>\<open>get_node_info\<close>, \<^verbatim>\<open>set_node_addr\<close>; \<open>nat_view\<close> is the table as a map. \<open>Free_Nids\<close>: free node ids, their bitmaps and scans, \<^verbatim>\<open>alloc_nid\<close>. \<open>Nat_Flush\<close>,
    \<open>Nat_Durable\<close>: \<^verbatim>\<open>flush_nat_entries\<close> and what it achieves. \<open>Nat_Runs\<close>: any interleaving of these operations refines a map from node ids to entries that only a move of a node changes.
  \<^item> \<open>Node_Tree\<close>: \<^verbatim>\<open>get_node_path\<close> and its inverse in \<^verbatim>\<open>gc.c\<close>, node offsets, the size limit. \<open>Node_Ops\<close> (also \<^verbatim>\<open>file.c\<close>): \<^verbatim>\<open>get_dnode_of_data\<close>, allocation of nodes and blocks, truncation. \<open>Node_Shape\<close>,
    \<open>Node_Trunc\<close>, \<open>Node_Cut\<close>, \<open>Node_File\<close>, \<open>File_Trunc\<close>: trees of nodes in the node table; truncation removes exactly what lies behind the cut, gives every block back once, and whatever node reads fail leaves
    a well-formed file.
  \<^item> \<open>Extent_Cache\<close> (\<^verbatim>\<open>extent_cache.c\<close>): lookup, merging, splitting, updating and dropping extents; the interface \<open>block_cache\<close> (a cache of a mapping that changes) is interpreted on them: the cache agrees
    with the file, also when allocations fail.

  \<^bold>\<open>Directories and attributes.\<close>
  \<^item> \<open>Dentry_Block\<close>, \<open>Dir_Hash\<close>, \<open>Dir_Inline\<close>, \<open>Dir_Ops\<close>, \<open>Dir_List\<close>, \<open>Dir_Runs\<close> (\<^verbatim>\<open>dir.c\<close>, \<^verbatim>\<open>inline.c\<close>): one block of entries, the hash levels, directories inside the inode and their move to blocks, the operations, listing, and
    histories of several tasks, which refine a finite map from names.
  \<^item> \<open>Xattr\<close>, \<open>Xattr_Map\<close>, \<open>Xattr_Runs\<close> (\<^verbatim>\<open>xattr.c\<close>): the byte area of the attributes, that it holds a list of attributes, exact results of getting, setting and listing, and histories, which refine a map.
  \<^item> \<open>Acl\<close>, \<open>Acl_Format\<close>, \<open>Acl_Runs\<close>, \<open>Acl_Init\<close> (\<^verbatim>\<open>acl.c\<close>): the format of access control lists with its round trip, getting and setting them, and what a new inode inherits from its directory.

  \<^bold>\<open>Checkpoint and mount\<close> (\<^verbatim>\<open>checkpoint.c\<close>, \<^verbatim>\<open>super.c\<close>).
  \<^item> \<open>Ino_Entries\<close>: lists of inodes for the checkpoint; the orphans always fit into a pack and come back from their blocks. \<open>Cp_Pack\<close>: writing, validating and loading a pack. \<open>Cp_Crash\<close>: a complete checkpoint is
    loaded again; whatever subset of its blocks arrived, the mount takes the new or the old one, and what it takes when only the ends of a pack arrived.
  \<^item> \<open>Super_Check\<close>: the checks of the super block in 32 and 64 bit arithmetic and what they imply of the layout; the order in which the two copies are written, for any content a crash leaves in the
    one being written. The super block has no checksum, so a torn first copy that passes every check is taken.

  \<^bold>\<open>Assumptions.\<close> The invariants that theorems assume (\<open>seg_inv\<close>, \<open>fn_inv\<close>, \<open>dir_ok\<close>, \<open>has_xattrs\<close>, \<open>file_ok\<close>, \<open>cp_state_ok\<close> and the like) are kept by the operations, and examples show states that have them. What is assumed of
  the rest of the kernel is what it documents: a block written is read back until it is written again, a quota operation that succeeds adds what it was asked for, fresh memory has the size
  asked for.

  \<^bold>\<open>Not modelled.\<close> The data path and the page cache (\<^verbatim>\<open>data.c\<close>), with the dirty state of pages and their writeback; the VFS entry points (\<^verbatim>\<open>namei.c\<close>, \<^verbatim>\<open>file.c\<close> but for truncation, \<^verbatim>\<open>inode.c\<close>); roll-forward recovery
  (\<^verbatim>\<open>recovery.c\<close>), which replays nodes through all of these; moving the blocks of a victim (\<^verbatim>\<open>gc.c\<close>), which is a data path of its own; discard commands and atomic writes (\<^verbatim>\<open>segment.c\<close>), which are asynchronous
  requests and page lists; the restore of the current segments from their summaries at mount; the shrinker, sysfs, debugging and tracing. Encryption of names, fault injection and statistics are
  left out of the functions that are modelled. Interleavings inside one operation are not considered: \<^verbatim>\<open>get_node_info\<close> is one step although it drops its lock before it caches the entry it read, and the truncation
  that undoes a failed move of an inline directory is taken to succeed, whose result the code ignores.
\<close>

end
